(* ===== verification/Prelude.thy ===== *)
theory Prelude
  imports Main "HOL-Library.Monad_Syntax" "HOL-Library.Multiset"
begin

text \<open>
  What every component of the development shares.

  A C computation that may abort (a failed \<open>assert\<close>) or have no defined behaviour (an access
  outside an array, a null or dangling pointer) is modelled in the option monad: \<open>None\<close> is the
  abnormal end, \<open>Some x\<close> a normal return of \<open>x\<close>. A theorem that concludes
  \<open>f x = Some y\<close> is therefore a statement of memory safety, of absence of assertion failures,
  of termination and of functional correctness at once.

  C arrays are lists; \<open>rd\<close> and \<open>wr\<close> are the indexed read and write, which check the
  index. The rest of the theory holds lemmas on lists, slices and bind that the component proofs
  share; the collection \<open>c_simps\<close> evaluates one monadic step.
\<close>

named_theorems c_simps \<open>evaluation of array accesses, assertions and monadic steps\<close>

type_synonym 'a c = "'a option"

subsection \<open>Arrays and assertions\<close>

definition rd :: "'a list \<Rightarrow> nat \<Rightarrow> 'a c" where
  "rd a i = (if i < length a then Some (a ! i) else None)"

definition wr :: "'a list \<Rightarrow> nat \<Rightarrow> 'a \<Rightarrow> 'a list c" where
  "wr a i v = (if i < length a then Some (a[i := v]) else None)"

definition c_assert :: "bool \<Rightarrow> unit c" where
  "c_assert b = (if b then Some () else None)"

lemma rd_Some [simp, c_simps]: "i < length a \<Longrightarrow> rd a i = Some (a ! i)"
  by (simp add: rd_def)

lemma wr_Some [simp, c_simps]: "i < length a \<Longrightarrow> wr a i v = Some (a[i := v])"
  by (simp add: wr_def)

lemma rd_None [simp]: "length a \<le> i \<Longrightarrow> rd a i = None"
  by (simp add: rd_def)

lemma wr_None [simp]: "length a \<le> i \<Longrightarrow> wr a i v = None"
  by (simp add: wr_def)

lemma rd_eq_Some_iff: "rd a i = Some x \<longleftrightarrow> i < length a \<and> a ! i = x"
  by (auto simp: rd_def)

lemma wr_eq_Some_iff: "wr a i v = Some b \<longleftrightarrow> i < length a \<and> b = a[i := v]"
  by (auto simp: wr_def)

lemma c_assert_True [simp, c_simps]: "b \<Longrightarrow> c_assert b = Some ()"
  by (simp add: c_assert_def)

lemma c_assert_False [simp]: "\<not> b \<Longrightarrow> c_assert b = None"
  by (simp add: c_assert_def)

lemma c_assert_eq_Some_iff: "c_assert b = Some u \<longleftrightarrow> b"
  by (simp add: c_assert_def)

text \<open>Access with a signed index, and division that truncates towards zero, as C has them.\<close>

definition rdi :: "'a list \<Rightarrow> int \<Rightarrow> 'a c" where
  "rdi a i = (if 0 \<le> i then rd a (nat i) else None)"

definition cdiv :: "int \<Rightarrow> int \<Rightarrow> int" where
  "cdiv a b = sgn a * sgn b * (\<bar>a\<bar> div \<bar>b\<bar>)"

lemma rdi_Some [simp, c_simps]: "0 \<le> i \<Longrightarrow> i < int (length a) \<Longrightarrow> rdi a i = Some (a ! nat i)"
  by (simp add: rdi_def nat_less_iff)

lemma rdi_neg [simp]: "i < 0 \<Longrightarrow> rdi a i = None"
  by (simp add: rdi_def)

lemma cdiv_nonneg [simp]: "0 \<le> a \<Longrightarrow> 0 < b \<Longrightarrow> cdiv a b = a div b"
  by (cases "a = 0") (simp_all add: cdiv_def)

lemma Some_eq_bind_conv: "Some y = Option.bind m f \<longleftrightarrow> (\<exists>x. m = Some x \<and> f x = Some y)"
  by (cases m) auto

lemmas c_Some_iff = rd_eq_Some_iff wr_eq_Some_iff c_assert_eq_Some_iff bind_eq_Some_conv

subsection \<open>Lists and slices\<close>

lemma sort_unique: "mset ys = mset xs \<Longrightarrow> sorted ys \<Longrightarrow> ys = sort xs"
  by (metis properties_for_sort)

lemma sum_list_update_add:
  "t < length ts \<Longrightarrow> sum_list (map f (ts[t := x])) + f (ts ! t) = sum_list (map f ts) + f x" for f :: "'a \<Rightarrow> nat"
  by (induction ts arbitrary: t) (auto split: nat.splits)

end
