(* ===== verification/C_Stdio.thy ===== *)
theory C_Stdio
  imports Prelude
begin

text \<open>
  The part of the C standard input/output library the programs use: \<open>scanf\<close> and
  \<open>sscanf\<close> as interpreters of their format string over the remaining input, \<open>fgets\<close>,
  and \<open>printf\<close> as an interpreter of its format string that returns the text it writes.
  Standard input is the \<open>string\<close> not yet consumed; standard output is the \<open>string\<close>
  written so far.

  A conversion whose number does not fit its target type has undefined behaviour in C and is
  \<open>None\<close> here. The lemmas at the end show that \<open>scanf\<close> never gives back more input
  than it was given, consumes input whenever it converts, and reads back what \<open>printf\<close> wrote.
\<close>

subsection \<open>Characters and decimal numerals\<close>

definition isspace :: "char \<Rightarrow> bool" where
  "isspace c \<longleftrightarrow> c = CHR '' '' \<or> c = CHR 0x09 \<or> c = CHR 0x0A \<or> c = CHR 0x0B \<or> c = CHR 0x0C \<or> c = CHR 0x0D"

definition isdigit :: "char \<Rightarrow> bool" where
  "isdigit c \<longleftrightarrow> 48 \<le> (of_char c :: nat) \<and> (of_char c :: nat) \<le> 57"

definition digit_val :: "char \<Rightarrow> nat" where
  "digit_val c = of_char c - 48"

definition digit_char :: "nat \<Rightarrow> char" where
  "digit_char d = char_of (48 + d)"

fun show_nat :: "nat \<Rightarrow> string" where
  "show_nat n = (if n < 10 then [digit_char n] else show_nat (n div 10) @ [digit_char (n mod 10)])"

declare show_nat.simps [simp del]

definition show_int :: "int \<Rightarrow> string" where
  "show_int i = (if i < 0 then CHR ''-'' # show_nat (nat (- i)) else show_nat (nat i))"

definition dec_val :: "string \<Rightarrow> nat" where
  "dec_val ds = foldl (\<lambda>n c. 10 * n + digit_val c) 0 ds"

definition skip_ws :: "string \<Rightarrow> string" where
  "skip_ws s = dropWhile isspace s"

definition INT_MIN :: int where "INT_MIN = - 2147483648"
definition INT_MAX :: int where "INT_MAX = 2147483647"

definition in_int :: "int \<Rightarrow> bool" where
  "in_int v \<longleftrightarrow> INT_MIN \<le> v \<and> v \<le> INT_MAX"

text \<open>A result of \<open>int\<close> arithmetic, which has no defined value when it overflows.\<close>

definition c_int :: "int \<Rightarrow> int c" where
  "c_int v = (if in_int v then Some v else None)"

subsection \<open>Reading\<close>

datatype arg = IntA int | ChrA char | StrA string

record scan_result =
  sr_args :: "arg list"
  sr_eof :: bool
  sr_rest :: string

text \<open>The decimal numeral the \<open>d\<close> and \<open>u\<close> conversions match: blanks, a sign, digits.\<close>

definition scan_num :: "string \<Rightarrow> int option \<times> string" where
  "scan_num s =
     (let s0 = skip_ws s;
          neg = (s0 \<noteq> [] \<and> hd s0 = CHR ''-'');
          s1 = (if s0 \<noteq> [] \<and> (hd s0 = CHR ''-'' \<or> hd s0 = CHR ''+'') then tl s0 else s0);
          ds = takeWhile isdigit s1;
          v = int (dec_val ds)
      in (if ds = [] then None else Some (if neg then - v else v), dropWhile isdigit s1))"

definition scan_push :: "arg \<Rightarrow> scan_result c \<Rightarrow> scan_result c" where
  "scan_push a r = map_option (\<lambda>x. x\<lparr>sr_args := a # sr_args x\<rparr>) r"

definition scan_stop :: "bool \<Rightarrow> string \<Rightarrow> scan_result c" where
  "scan_stop e s = Some \<lparr>sr_args = [], sr_eof = e, sr_rest = s\<rparr>"

definition unsigned_of :: "nat \<Rightarrow> int \<Rightarrow> int c" where
  "unsigned_of w v = (if \<bar>v\<bar> < 2 ^ w then Some (v mod 2 ^ w) else None)"

fun scanf :: "string \<Rightarrow> string \<Rightarrow> scan_result c"
  and scanf_conv :: "bool \<Rightarrow> string \<Rightarrow> string \<Rightarrow> scan_result c"
where
  "scanf [] s = scan_stop False s"
| "scanf (f # fmt) s =
     (if f = CHR ''%'' then scanf_conv False fmt s
      else if isspace f then scanf fmt (skip_ws s)
      else case s of [] \<Rightarrow> scan_stop True []
           | x # s' \<Rightarrow> if x = f then scanf fmt s' else scan_stop False s)"
| "scanf_conv z [] s = None"
| "scanf_conv z (m # fmt) s =
     (if m = CHR ''z'' then scanf_conv True fmt s
      else if m = CHR ''d'' then
        (case scan_num s of
           (None, r) \<Rightarrow> scan_stop (skip_ws s = []) r
         | (Some v, r) \<Rightarrow> if in_int v then scan_push (IntA v) (scanf fmt r) else None)
      else if m = CHR ''u'' then
        (case scan_num s of
           (None, r) \<Rightarrow> scan_stop (skip_ws s = []) r
         | (Some v, r) \<Rightarrow>
             (case unsigned_of (if z then 64 else 32) v of
                None \<Rightarrow> None
              | Some u \<Rightarrow> scan_push (IntA u) (scanf fmt r)))
      else if m = CHR ''c'' then
        (case s of [] \<Rightarrow> scan_stop True [] | x # s' \<Rightarrow> scan_push (ChrA x) (scanf fmt s'))
      else if m = CHR ''s'' then
        (let s0 = skip_ws s; w = takeWhile (\<lambda>x. \<not> isspace x) s0
         in if w = [] then scan_stop True []
            else scan_push (StrA w) (scanf fmt (dropWhile (\<lambda>x. \<not> isspace x) s0)))
      else if m = CHR ''n'' then scanf fmt s
      else None)"

text \<open>What the call returns: the number of converted items, or \<open>EOF\<close>.\<close>

definition scan_ret :: "scan_result \<Rightarrow> int" where
  "scan_ret r = (if sr_args r = [] \<and> sr_eof r then - 1 else int (length (sr_args r)))"

text \<open>A C string ends at the first null byte of its buffer.\<close>

definition cstr :: "string \<Rightarrow> string" where
  "cstr b = takeWhile (\<lambda>c. c \<noteq> CHR 0x00) b"

definition sscanf :: "string \<Rightarrow> string \<Rightarrow> scan_result c" where
  "sscanf b fmt = scanf fmt (cstr b)"

fun fgets_aux :: "nat \<Rightarrow> string \<Rightarrow> string \<times> string" where
  "fgets_aux 0 s = ([], s)"
| "fgets_aux (Suc n) [] = ([], [])"
| "fgets_aux (Suc n) (x # s) =
     (if x = CHR 0x0A then ([x], s)
      else (case fgets_aux n s of (l, r) \<Rightarrow> (x # l, r)))"

text \<open>\<open>fgets\<close> with a buffer of \<open>n\<close> bytes: the line read and what is left; \<open>None\<close> is the null pointer.\<close>

definition fgets :: "nat \<Rightarrow> string \<Rightarrow> (string \<times> string) option" where
  "fgets n s = (if s = [] then None else Some (fgets_aux (n - 1) s))"

subsection \<open>Writing\<close>

definition show_conv :: "char \<Rightarrow> arg \<Rightarrow> string" where
  "show_conv m a =
     (case a of
        IntA v \<Rightarrow> if m = CHR ''d'' \<or> m = CHR ''u'' then show_int v else []
      | ChrA x \<Rightarrow> if m = CHR ''c'' then [x] else []
      | StrA s \<Rightarrow> if m = CHR ''s'' then s else [])"

fun printf :: "string \<Rightarrow> arg list \<Rightarrow> string"
  and printf_conv :: "string \<Rightarrow> arg list \<Rightarrow> string"
where
  "printf [] as = []"
| "printf (f # fmt) as = (if f = CHR ''%'' then printf_conv fmt as else f # printf fmt as)"
| "printf_conv [] as = []"
| "printf_conv (m # fmt) as =
     (if m = CHR ''z'' \<or> m = CHR ''l'' then printf_conv fmt as
      else case as of [] \<Rightarrow> printf fmt [] | a # as' \<Rightarrow> show_conv m a @ printf fmt as')"

subsection \<open>Input is consumed\<close>

lemma length_dropWhile_le [simp]: "length (dropWhile P s) \<le> length s"
  by (induction s) auto

lemma length_skip_ws [simp]: "length (skip_ws s) \<le> length s"
  by (simp add: skip_ws_def)

lemma dropWhile_less: "takeWhile P s \<noteq> [] \<Longrightarrow> length (dropWhile P s) < length s"
  by (cases s) (auto simp: less_Suc_eq_le split: if_splits)

lemma scan_num_le:
  assumes "scan_num s = (v, r)"
  shows "length r \<le> length s"
proof -
  define s0 where "s0 = skip_ws s"
  define s1 where "s1 = (if s0 \<noteq> [] \<and> (hd s0 = CHR ''-'' \<or> hd s0 = CHR ''+'') then tl s0 else s0)"
  have "snd (scan_num s) = dropWhile isdigit s1"
    by (simp only: scan_num_def Let_def s0_def s1_def snd_conv)
  with assms have "length r \<le> length s1" by simp
  also have "length s1 \<le> length s0" by (simp add: s1_def)
  also have "length s0 \<le> length s" by (simp add: s0_def)
  finally show ?thesis .
qed

lemma scan_num_less:
  assumes "scan_num s = (Some v, r)"
  shows "length r < length s"
proof -
  define s0 where "s0 = skip_ws s"
  define s1 where "s1 = (if s0 \<noteq> [] \<and> (hd s0 = CHR ''-'' \<or> hd s0 = CHR ''+'') then tl s0 else s0)"
  have "takeWhile isdigit s1 \<noteq> []" and r: "r = dropWhile isdigit s1"
    using assms by (auto simp: scan_num_def Let_def s0_def s1_def split: if_splits)
  then have "length r < length s1" by (simp add: dropWhile_less)
  also have "length s1 \<le> length s0" by (simp add: s1_def)
  also have "length s0 \<le> length s" by (simp add: s0_def)
  finally show ?thesis .
qed

lemma scan_push_eq_Some:
  "scan_push a x = Some r \<longleftrightarrow> (\<exists>y. x = Some y \<and> r = y\<lparr>sr_args := a # sr_args y\<rparr>)"
  by (auto simp: scan_push_def)

lemma scan_stop_eq_Some:
  "scan_stop e s = Some r \<longleftrightarrow> r = \<lparr>sr_args = [], sr_eof = e, sr_rest = s\<rparr>"
  by (auto simp: scan_stop_def)

lemma scanf_rest:
  shows "scanf fmt s = Some r \<Longrightarrow>
      length (sr_rest r) \<le> length s \<and> (sr_args r \<noteq> [] \<longrightarrow> length (sr_rest r) < length s)"
    and "scanf_conv z fmt s = Some r \<Longrightarrow>
      length (sr_rest r) \<le> length s \<and> (sr_args r \<noteq> [] \<longrightarrow> length (sr_rest r) < length s)"
proof (induction fmt s and z fmt s arbitrary: r and r rule: scanf_scanf_conv.induct)
  case (2 f fmt s)
  consider (conv) "f = CHR ''%''" | (ws) "f \<noteq> CHR ''%''" "isspace f"
    | (lit) "f \<noteq> CHR ''%''" "\<not> isspace f" by blast
  then show ?case
  proof cases
    case conv
    with "2.IH"(1) "2.prems" show ?thesis by simp
  next
    case ws
    with "2.prems" have "scanf fmt (skip_ws s) = Some r" by simp
    from "2.IH"(2)[OF ws this] length_skip_ws[of s] show ?thesis by linarith
  next
    case lit
    show ?thesis
    proof (cases s)
      case Nil
      with lit "2.prems" show ?thesis by (auto simp: scan_stop_eq_Some)
    next
      case (Cons x s')
      with lit "2.prems" "2.IH"(3)[OF lit Cons] show ?thesis
        by (cases "x = f") (auto simp: scan_stop_eq_Some)
    qed
  qed
next
  case (4 z m fmt s)
  consider (z) "m = CHR ''z''" | (d) "m = CHR ''d''" | (u) "m = CHR ''u''" | (c) "m = CHR ''c''"
    | (s) "m = CHR ''s''" | (n) "m = CHR ''n''" | (none) "m \<notin> set ''zducsn''"
    by auto
  then show ?case
  proof cases
    case z
    with "4.IH"(1) "4.prems" show ?thesis by simp
  next
    case d
    show ?thesis
    proof (cases "scan_num s")
      case (Pair v rest)
      with d "4.prems" "4.IH"(2)[OF _ d Pair[symmetric]] scan_num_le[of s v rest] scan_num_less[of s _ rest]
      show ?thesis
        by (cases v) (fastforce simp: scan_stop_eq_Some scan_push_eq_Some split: if_splits)+
    qed
  next
    case u
    show ?thesis
    proof (cases "scan_num s")
      case (Pair v rest)
      with u "4.prems" "4.IH"(3)[OF _ _ u Pair[symmetric]] scan_num_le[of s v rest] scan_num_less[of s _ rest]
      show ?thesis
        by (cases v) (fastforce simp: scan_stop_eq_Some scan_push_eq_Some split: option.splits)+
    qed
  next
    case c
    with "4.prems" "4.IH"(4)[OF _ _ _ c] show ?thesis
      by (fastforce simp: scan_stop_eq_Some scan_push_eq_Some split: list.splits)
  next
    case s
    let ?w = "takeWhile (\<lambda>x. \<not> isspace x) (skip_ws s)"
    let ?r = "dropWhile (\<lambda>x. \<not> isspace x) (skip_ws s)"
    show ?thesis
    proof (cases "?w = []")
      case True
      with s "4.prems" show ?thesis by (auto simp: scan_stop_eq_Some Let_def)
    next
      case False
      then have "length ?r < length s"
        using dropWhile_less[OF False] length_skip_ws[of s] by linarith
      with s False "4.prems" "4.IH"(5)[OF _ _ _ _ s refl refl False] show ?thesis
        by (fastforce simp: scan_push_eq_Some Let_def)
    qed
  next
    case n
    with "4.prems" "4.IH"(6) show ?thesis by simp
  next
    case none
    then have "scanf_conv z (m # fmt) s = None" by simp
    with "4.prems" show ?thesis by simp
  qed
qed (auto simp: scan_stop_eq_Some)

lemma scanf_rest_le: "scanf fmt s = Some r \<Longrightarrow> length (sr_rest r) \<le> length s"
  using scanf_rest(1) by blast

lemma scanf_ret_less: "scanf fmt s = Some r \<Longrightarrow> 0 < scan_ret r \<Longrightarrow> length (sr_rest r) < length s"
  using scanf_rest(1)[of fmt s r] by (auto simp: scan_ret_def split: if_splits)

lemma sscanf_ret_less: "sscanf b fmt = Some r \<Longrightarrow> 0 < scan_ret r \<Longrightarrow> length (sr_rest r) < length b"
  using scanf_ret_less[of fmt "cstr b" r] length_takeWhile_le[of _ b] unfolding sscanf_def cstr_def
  by (meson less_le_trans)

lemma fgets_aux_le: "fgets_aux n s = (l, r) \<Longrightarrow> length r \<le> length s"
  by (induction n s arbitrary: l r rule: fgets_aux.induct) (fastforce split: if_splits prod.splits)+

lemma fgets_less: "fgets n s = Some (l, r) \<Longrightarrow> 1 < n \<Longrightarrow> length r < length s"
  by (cases s; cases "n - 1")
     (auto simp: fgets_def less_Suc_eq_le split: if_splits prod.splits dest: fgets_aux_le)

subsection \<open>Reading back what was written\<close>

definition no_digit :: "string \<Rightarrow> bool" where
  "no_digit s \<longleftrightarrow> (s = [] \<or> \<not> isdigit (hd s))"

lemma no_digit_simps [simp]: "no_digit []" "no_digit (x # s) \<longleftrightarrow> \<not> isdigit x"
  by (simp_all add: no_digit_def)

lemma digit_char [simp]:
  assumes "d < 10"
  shows "isdigit (digit_char d)" "digit_val (digit_char d) = d" "\<not> isspace (digit_char d)"
    "digit_char d \<noteq> CHR ''-''" "digit_char d \<noteq> CHR ''+''" "digit_char d \<noteq> CHR ''%''"
    "digit_char d \<noteq> CHR 0x00"
proof -
  have v: "of_char (digit_char d) = 48 + d"
    using assms by (simp add: digit_char_def)
  show "isdigit (digit_char d)" "digit_val (digit_char d) = d"
    using assms by (simp_all add: isdigit_def digit_val_def v)
  have neq: "digit_char d \<noteq> x" if "of_char x \<noteq> 48 + d" for x
    using that v by auto
  show "\<not> isspace (digit_char d)" "digit_char d \<noteq> CHR ''-''" "digit_char d \<noteq> CHR ''+''"
    "digit_char d \<noteq> CHR ''%''" "digit_char d \<noteq> CHR 0x00"
    unfolding isspace_def using assms by (auto dest!: arg_cong[of _ _ "of_char :: char \<Rightarrow> nat"] simp: v)
qed

lemma dec_val_simps [simp]: "dec_val [] = 0" "dec_val (xs @ [x]) = 10 * dec_val xs + digit_val x"
  by (simp_all add: dec_val_def)

lemma show_nat_not_Nil [simp]: "show_nat n \<noteq> []"
  by (subst show_nat.simps) simp

lemma set_show_nat: "x \<in> set (show_nat n) \<Longrightarrow> \<exists>d<10. x = digit_char d"
proof (induction n rule: show_nat.induct)
  case (1 n)
  show ?case
  proof (cases "n < 10 \<or> x \<in> set (show_nat (n div 10))")
    case True
    with 1 show ?thesis by (cases "n < 10") (auto simp: show_nat.simps[of n])
  next
    case False
    with "1.prems" have "x = digit_char (n mod 10)" by (simp add: show_nat.simps[of n])
    then show ?thesis by (intro exI[of _ "n mod 10"]) simp
  qed
qed

lemma dec_val_show_nat [simp]: "dec_val (show_nat n) = n"
proof (induction n rule: show_nat.induct)
  case (1 n)
  have "dec_val [x] = digit_val x" for x using dec_val_simps(2)[of "[]"] by simp
  with 1 show ?case by (cases "n < 10") (simp_all add: show_nat.simps[of n])
qed

lemma show_nat_digits: "x \<in> set (show_nat n) \<Longrightarrow> isdigit x"
  by (auto dest!: set_show_nat)

lemma takeWhile_show_nat [simp]: "no_digit r \<Longrightarrow> takeWhile isdigit (show_nat n @ r) = show_nat n"
  by (cases r) (simp_all add: takeWhile_append2 show_nat_digits takeWhile_eq_all_conv)

lemma dropWhile_show_nat [simp]: "no_digit r \<Longrightarrow> dropWhile isdigit (show_nat n @ r) = r"
  by (cases r) (simp_all add: dropWhile_append2 show_nat_digits)

lemma hd_show_nat: "\<exists>d<10. hd (show_nat n) = digit_char d"
  by (rule set_show_nat[of _ n]) simp

lemma skip_ws_append [simp]: "list_all isspace w \<Longrightarrow> skip_ws (w @ s) = skip_ws s"
  by (simp add: skip_ws_def dropWhile_append2 list_all_iff)

lemma skip_ws_show_nat [simp]: "skip_ws (show_nat n @ r) = show_nat n @ r"
  using hd_show_nat[of n] by (cases "show_nat n") (auto simp: skip_ws_def)

lemma skip_ws_minus [simp]: "skip_ws (CHR ''-'' # r) = CHR ''-'' # r"
  by (simp add: skip_ws_def isspace_def)

lemma skip_ws_show_int [simp]: "skip_ws (show_int i @ r) = show_int i @ r"
  by (simp add: show_int_def)

lemma skip_ws_idem: "skip_ws (skip_ws s) = skip_ws s"
  by (simp add: skip_ws_def)

lemma scan_num_skip: "list_all isspace w \<Longrightarrow> scan_num (w @ s) = scan_num s"
  by (simp add: scan_num_def)

text \<open>The round trip of numbers: what \<open>printf\<close> writes, a numeric conversion reads back.\<close>

lemma scan_num_show_int:
  assumes "no_digit r"
  shows "scan_num (show_int i @ r) = (Some i, r)"
proof (cases "i < 0")
  case True
  then have "show_int i = CHR ''-'' # show_nat (nat (- i))" by (simp add: show_int_def)
  with True assms show ?thesis by (simp add: scan_num_def Let_def)
next
  case False
  obtain d where d: "d < 10" "hd (show_nat (nat i)) = digit_char d"
    using hd_show_nat by blast
  from False have "show_int i = show_nat (nat i)" by (simp add: show_int_def)
  with False assms d show ?thesis by (simp add: scan_num_def Let_def)
qed

lemma scan_num_show_nat: "no_digit r \<Longrightarrow> scan_num (show_nat n @ r) = (Some (int n), r)"
  using scan_num_show_int[of r "int n"] by (simp add: show_int_def)

lemma scanf_d_show:
  "list_all isspace w \<Longrightarrow> no_digit r \<Longrightarrow> in_int i \<Longrightarrow>
   scanf (CHR ''%'' # CHR ''d'' # fmt) (w @ show_int i @ r) = scan_push (IntA i) (scanf fmt r)"
  by (simp add: scan_num_skip scan_num_show_int)

lemma scanf_zu_show:
  "list_all isspace w \<Longrightarrow> no_digit r \<Longrightarrow> n < 2 ^ 64 \<Longrightarrow>
   scanf (CHR ''%'' # CHR ''z'' # CHR ''u'' # fmt) (w @ show_nat n @ r)
     = scan_push (IntA (int n)) (scanf fmt r)"
  by (simp add: scan_num_skip scan_num_show_nat unsigned_of_def)

lemma scanf_u_show:
  "list_all isspace w \<Longrightarrow> no_digit r \<Longrightarrow> n < 2 ^ 32 \<Longrightarrow>
   scanf (CHR ''%'' # CHR ''u'' # fmt) (w @ show_nat n @ r)
     = scan_push (IntA (int n)) (scanf fmt r)"
  by (simp add: scan_num_skip scan_num_show_nat unsigned_of_def)

text \<open>
  The conversions as the programs write them. From here on the format interpreter is unfolded only
  where a proof asks for it.
\<close>

lemmas scanf_eval = scanf.simps scanf_conv.simps scan_push_def scan_stop_def

declare scanf.simps [simp del]
declare scanf_conv.simps [simp del]

lemma isspace_consts [simp]: "isspace CHR '' ''" "isspace CHR 0x0A" "\<not> isspace CHR ''-''"
  by (simp_all add: isspace_def)

lemma isdigit_consts [simp]: "\<not> isdigit CHR '' ''" "\<not> isdigit CHR 0x0A"
  by (simp_all add: isdigit_def)

lemma scanf_d_elem:
  "list_all isspace w \<Longrightarrow> no_digit r \<Longrightarrow> in_int x \<Longrightarrow>
   scanf ''%d'' (w @ show_int x @ r) = Some \<lparr>sr_args = [IntA x], sr_eof = False, sr_rest = r\<rparr>"
  using scanf_d_show[of w r x "[]"] by (simp add: scanf_eval)

lemma scanf_zu_elem:
  "list_all isspace w \<Longrightarrow> no_digit r \<Longrightarrow> n < 2 ^ 64 \<Longrightarrow>
   scanf ''%zu'' (w @ show_nat n @ r)
     = Some \<lparr>sr_args = [IntA (int n)], sr_eof = False, sr_rest = r\<rparr>"
  using scanf_zu_show[of w r n "[]"] by (simp add: scanf_eval)

lemma scanf_u_elem:
  "list_all isspace w \<Longrightarrow> no_digit r \<Longrightarrow> n < 2 ^ 32 \<Longrightarrow>
   scanf ''%u'' (w @ show_nat n @ r)
     = Some \<lparr>sr_args = [IntA (int n)], sr_eof = False, sr_rest = r\<rparr>"
  using scanf_u_show[of w r n "[]"] by (simp add: scanf_eval)

lemma skip_ws_all: "list_all isspace w \<Longrightarrow> skip_ws w = []"
  by (simp add: skip_ws_def list_all_iff)

lemma scan_num_all: "list_all isspace w \<Longrightarrow> scan_num w = (None, [])"
  by (simp add: scan_num_def skip_ws_all)

lemma scanf_num_end:
  assumes "list_all isspace w"
  shows "scanf ''%d'' w = Some \<lparr>sr_args = [], sr_eof = True, sr_rest = []\<rparr>"
    and "scanf ''%u'' w = Some \<lparr>sr_args = [], sr_eof = True, sr_rest = []\<rparr>"
    and "scanf ''%zu'' w = Some \<lparr>sr_args = [], sr_eof = True, sr_rest = []\<rparr>"
  using assms by (simp_all add: scanf_eval scan_num_all skip_ws_all)

lemma scan_ret_simps [simp]:
  "scan_ret \<lparr>sr_args = a # as, sr_eof = e, sr_rest = r\<rparr> = 1 + int (length as)"
  "scan_ret \<lparr>sr_args = [], sr_eof = True, sr_rest = r\<rparr> = - 1"
  "scan_ret \<lparr>sr_args = [], sr_eof = False, sr_rest = r\<rparr> = 0"
  by (simp_all add: scan_ret_def)

definition arg_int :: "arg \<Rightarrow> int" where
  "arg_int a = (case a of IntA v \<Rightarrow> v | _ \<Rightarrow> 0)"

definition arg_chr :: "arg \<Rightarrow> char" where
  "arg_chr a = (case a of ChrA x \<Rightarrow> x | _ \<Rightarrow> CHR 0x00)"

definition arg_str :: "arg \<Rightarrow> string" where
  "arg_str a = (case a of StrA s \<Rightarrow> s | _ \<Rightarrow> [])"

lemma arg_simps [simp]: "arg_int (IntA v) = v" "arg_chr (ChrA x) = x" "arg_str (StrA s) = s"
  by (simp_all add: arg_int_def arg_chr_def arg_str_def)

subsection \<open>Lines\<close>

lemma show_nat_plain: "x \<in> set (show_nat n) \<Longrightarrow> x \<noteq> CHR 0x00 \<and> x \<noteq> CHR 0x0A"
  by (metis digit_char(7) isdigit_consts(2) set_show_nat show_nat_digits)

lemma show_int_plain: "x \<in> set (show_int i) \<Longrightarrow> x \<noteq> CHR 0x00 \<and> x \<noteq> CHR 0x0A"
  by (auto simp: show_int_def dest: show_nat_plain split: if_splits)

lemma fgets_aux_line:
  "length l < n \<Longrightarrow> CHR 0x0A \<notin> set l \<Longrightarrow> fgets_aux n (l @ CHR 0x0A # s) = (l @ [CHR 0x0A], s)"
proof (induction l arbitrary: n)
  case Nil
  then show ?case by (cases n) auto
next
  case (Cons x l)
  then show ?case by (cases n) auto
qed

lemma cstr_line: "CHR 0x00 \<notin> set l \<Longrightarrow> cstr l = l"
  unfolding cstr_def by (subst takeWhile_eq_all_conv) auto

lemma length_show_nat: "n < 10 ^ m \<Longrightarrow> 0 < m \<Longrightarrow> length (show_nat n) \<le> m"
proof (induction n arbitrary: m rule: show_nat.induct)
  case (1 n)
  show ?case
  proof (cases "n < 10")
    case True
    then show ?thesis using "1.prems" by (subst show_nat.simps) simp
  next
    case False
    with "1.prems" obtain m' where m: "m = Suc m'" "0 < m'" by (cases m; cases "m - 1") auto
    then have "length (show_nat (n div 10)) \<le> m'" using False "1.prems" by (intro "1.IH") auto
    then show ?thesis using False m by (subst show_nat.simps) simp
  qed
qed

lemma length_show_int: "in_int k \<Longrightarrow> length (show_int k) \<le> 11"
  using length_show_nat[of "nat k" 10] length_show_nat[of "nat (- k)" 10]
  by (auto simp: show_int_def in_int_def INT_MIN_def INT_MAX_def nat_less_iff)

text \<open>A line that fits the buffer is read as it is.\<close>

lemma fgets_line:
  "length l + 1 < n \<Longrightarrow> CHR 0x0A \<notin> set l \<Longrightarrow> fgets n (l @ CHR 0x0A # s) = Some (l @ [CHR 0x0A], s)"
  by (simp add: fgets_def fgets_aux_line)

text \<open>Scanning a line whose beginning is known.\<close>

lemma show_int_nat [simp]: "show_int (int n) = show_nat n"
  by (simp add: show_int_def)

lemma skip_ws_Cons: "skip_ws (x # s) = (if isspace x then skip_ws s else x # s)"
  by (simp add: skip_ws_def)

lemmas scan_line_simps = scanf_eval skip_ws_Cons isspace_def scan_num_show_nat scan_num_show_int unsigned_of_def

text \<open>Reading a word.\<close>

lemma scan_word:
  assumes "w \<noteq> []" "\<forall>x\<in>set w. \<not> isspace x" "isspace y" "list_all isspace b"
  shows "scanf (CHR ''%'' # CHR ''s'' # fmt) (b @ w @ y # r) = scan_push (StrA w) (scanf fmt (y # r))"
proof -
  have "skip_ws (b @ w @ y # r) = w @ y # r"
    using assms(1,2,4) by (cases w) (simp_all add: skip_ws_def dropWhile_append2 list_all_iff)
  moreover have "takeWhile (\<lambda>x. \<not> isspace x) (w @ y # r) = w" "dropWhile (\<lambda>x. \<not> isspace x) (w @ y # r) = y # r"
    using assms(2,3) by (simp_all add: takeWhile_append2 dropWhile_append2)
  ultimately show ?thesis using assms(1) by (simp add: scanf.simps scanf_conv.simps)
qed

lemma scan_word_line:
  assumes "w \<noteq> []" "\<forall>x\<in>set w. \<not> isspace x" "list_all isspace b"
  shows "scanf ''%s'' (b @ w @ CHR 0x0A # r) = Some \<lparr>sr_args = [StrA w], sr_eof = False, sr_rest = ''\<newline>'' @ r\<rparr>"
  using assms scan_word[of w "CHR 0x0A" b "[]" r] by (simp add: scanf_eval)

lemma scan_word_end: "list_all isspace b \<Longrightarrow> scanf ''%s'' b = Some \<lparr>sr_args = [], sr_eof = True, sr_rest = []\<rparr>"
  by (simp add: scanf_eval skip_ws_all)

text \<open>Evaluating what a number is written as.\<close>

lemmas show_eval = show_int_def show_nat.simps digit_char_def char_of_def bit_Suc_0_iff

end
