(* ===== verification/Array_Perm.thy ===== *)
theory Array_Perm
  imports Prelude
begin

text \<open>
  The vocabulary of in-place array algorithms: the exchange of two elements, the relation
  \<open>perm_seg lo hi a b\<close> (\<open>b\<close> is \<open>a\<close> with the elements at the indices from
  \<open>lo\<close> below \<open>hi\<close> rearranged) and the predicate \<open>sorted_seg\<close>. The sorting
  components state their loop invariants with it.
\<close>

subsection \<open>Exchanging two elements\<close>

definition swap :: "'a list \<Rightarrow> nat \<Rightarrow> nat \<Rightarrow> 'a list c" where
  "swap arr i j =
     do { tmp \<leftarrow> rd arr i;
          x \<leftarrow> rd arr j;
          arr' \<leftarrow> wr arr i x;
          wr arr' j tmp }"

lemma swap_Some [simp, c_simps]:
  "i < length a \<Longrightarrow> j < length a \<Longrightarrow> swap a i j = Some (a[i := a ! j, j := a ! i])"
  by (simp add: swap_def)

lemma swap_length: "swap a i j = Some b \<Longrightarrow> length b = length a"
  by (auto simp: swap_def c_Some_iff)

subsection \<open>Rearranging a segment\<close>

definition perm_seg :: "nat \<Rightarrow> nat \<Rightarrow> 'a list \<Rightarrow> 'a list \<Rightarrow> bool" where
  "perm_seg lo hi a b \<longleftrightarrow> mset b = mset a \<and> (\<forall>i<length a. i < lo \<or> hi \<le> i \<longrightarrow> b ! i = a ! i)"

definition seg :: "nat \<Rightarrow> nat \<Rightarrow> 'a list \<Rightarrow> 'a list" where
  "seg lo hi a = take (hi - lo) (drop lo a)"

definition sorted_seg :: "nat \<Rightarrow> nat \<Rightarrow> 'a::linorder list \<Rightarrow> bool" where
  "sorted_seg lo hi a \<longleftrightarrow> (\<forall>i j. lo \<le> i \<and> i \<le> j \<and> j < hi \<longrightarrow> a ! i \<le> a ! j)"

lemma perm_seg_length: "perm_seg lo hi a b \<Longrightarrow> length b = length a"
  unfolding perm_seg_def by (metis size_mset)

lemma perm_seg_refl [simp]: "perm_seg lo hi a a"
  by (simp add: perm_seg_def)

lemma perm_seg_trans [trans]: "perm_seg lo hi a b \<Longrightarrow> perm_seg lo hi b c \<Longrightarrow> perm_seg lo hi a c"
  using perm_seg_length[of lo hi a b] by (simp add: perm_seg_def)

lemma perm_seg_mono: "perm_seg lo hi a b \<Longrightarrow> lo' \<le> lo \<Longrightarrow> hi \<le> hi' \<Longrightarrow> perm_seg lo' hi' a b"
  by (auto simp: perm_seg_def)

lemma perm_seg_outside: "perm_seg lo hi a b \<Longrightarrow> i < length a \<Longrightarrow> i < lo \<or> hi \<le> i \<Longrightarrow> b ! i = a ! i"
  by (auto simp: perm_seg_def)

lemma perm_seg_swap:
  assumes "i < length a" "j < length a" "lo \<le> i" "i < hi" "lo \<le> j" "j < hi"
  shows "perm_seg lo hi a (a[i := a ! j, j := a ! i])"
  using assms by (auto simp: perm_seg_def mset_swap nth_list_update)

lemma length_seg [simp]: "hi \<le> length a \<Longrightarrow> length (seg lo hi a) = hi - lo"
  by (auto simp: seg_def)

lemma nth_seg [simp]: "lo + i < hi \<Longrightarrow> hi \<le> length a \<Longrightarrow> seg lo hi a ! i = a ! (lo + i)"
  by (simp add: seg_def)

lemma append_seg:
  assumes "lo \<le> hi"
  shows "take lo a @ seg lo hi a @ drop hi a = a"
proof -
  have "seg lo hi a @ drop hi a = drop lo a"
    using assms append_take_drop_id[of "hi - lo" "drop lo a"] by (simp add: seg_def)
  then show ?thesis by simp
qed

lemma perm_seg_mset_seg:
  assumes "perm_seg lo hi a b" "lo \<le> hi" "hi \<le> length a"
  shows "mset (seg lo hi b) = mset (seg lo hi a)"
proof -
  have "take lo b = take lo a" "drop hi b = drop hi a"
    using assms perm_seg_length[OF assms(1)] by (auto simp: perm_seg_def intro!: nth_equalityI)
  moreover have "mset (take lo b @ seg lo hi b @ drop hi b) = mset (take lo a @ seg lo hi a @ drop hi a)"
    using assms by (simp only: append_seg perm_seg_def)
  ultimately show ?thesis by simp
qed

lemma set_seg: "hi \<le> length a \<Longrightarrow> set (seg lo hi a) = {a ! i | i. lo \<le> i \<and> i < hi}"
proof (intro set_eqI iffI)
  fix x
  assume "hi \<le> length a" "x \<in> set (seg lo hi a)"
  then obtain i where "i < hi - lo" "x = a ! (lo + i)" by (auto simp: in_set_conv_nth)
  then show "x \<in> {a ! i | i. lo \<le> i \<and> i < hi}" by (intro CollectI exI[of _ "lo + i"]) simp
next
  fix x
  assume h: "hi \<le> length a" and "x \<in> {a ! i | i. lo \<le> i \<and> i < hi}"
  then obtain i where i: "lo \<le> i" "i < hi" "x = a ! i" by blast
  with h have "x = seg lo hi a ! (i - lo)" "i - lo < length (seg lo hi a)" by simp_all
  then show "x \<in> set (seg lo hi a)" by simp
qed

text \<open>A property of every element of a segment survives a rearrangement of that segment.\<close>

lemma perm_seg_ball:
  assumes "perm_seg lo hi a b" "hi \<le> length a" "\<And>i. lo \<le> i \<Longrightarrow> i < hi \<Longrightarrow> P (a ! i)"
  shows "lo \<le> i \<Longrightarrow> i < hi \<Longrightarrow> P (b ! i)"
proof -
  assume i: "lo \<le> i" "i < hi"
  have "b ! i \<in> set (seg lo hi b)"
    using i assms perm_seg_length[OF assms(1)] by (auto simp: set_seg)
  also have "set (seg lo hi b) = set (seg lo hi a)"
    using perm_seg_mset_seg[OF assms(1)] i assms(2) by (metis le_trans less_imp_le mset_eq_setD)
  finally show ?thesis using assms by (auto simp: set_seg)
qed

lemma sorted_seg_mono: "sorted_seg lo hi a \<Longrightarrow> lo \<le> lo' \<Longrightarrow> hi' \<le> hi \<Longrightarrow> sorted_seg lo' hi' a"
  unfolding sorted_seg_def by (meson le_trans order_less_le_trans)

lemma sorted_seg_trivial [simp]: "hi \<le> Suc lo \<Longrightarrow> sorted_seg lo hi a"
proof -
  assume "hi \<le> Suc lo"
  then have "i = j" if "lo \<le> i" "i \<le> j" "j < hi" for i j using that by simp
  then show ?thesis by (auto simp: sorted_seg_def)
qed

lemma sorted_seg_adjacent:
  assumes "\<And>k. lo < k \<Longrightarrow> k < hi \<Longrightarrow> a ! (k - 1) \<le> a ! k"
  shows "sorted_seg lo hi a"
proof -
  have "a ! i \<le> a ! (i + d)" if "lo \<le> i" "i + d < hi" for i d
    using that
  proof (induction d)
    case (Suc d)
    then have "a ! i \<le> a ! (i + d)" by simp
    also have "\<dots> \<le> a ! (i + Suc d)" using assms[of "i + Suc d"] Suc.prems by simp
    finally show ?case .
  qed simp
  then show ?thesis unfolding sorted_seg_def by (metis le_Suc_ex)
qed

lemma sorted_take_iff: "n \<le> length a \<Longrightarrow> sorted (take n a) \<longleftrightarrow> sorted_seg 0 n a"
  by (auto simp: sorted_seg_def sorted_iff_nth_mono)

text \<open>What a sorting routine delivers, in closed form.\<close>

lemma sorted_perm_seg_eq:
  assumes "perm_seg 0 n a b" "sorted_seg 0 n b" "n \<le> length a"
  shows "b = sort (take n a) @ drop n a"
proof -
  have len: "length b = length a" by (rule perm_seg_length[OF assms(1)])
  have "take n b = sort (take n a)"
    using perm_seg_mset_seg[OF assms(1)] assms len
    by (intro sort_unique) (simp_all add: seg_def sorted_take_iff)
  moreover have "drop n b = drop n a"
    using assms len by (auto simp: perm_seg_def intro!: nth_equalityI)
  ultimately show ?thesis by (metis append_take_drop_id)
qed

text \<open>Replacing a segment by a list.\<close>

definition splice_seg :: "nat \<Rightarrow> nat \<Rightarrow> 'a list \<Rightarrow> 'a list \<Rightarrow> 'a list" where
  "splice_seg lo hi a xs = take lo a @ xs @ drop hi a"

lemma splice_seg_perm:
  assumes "lo \<le> hi" "hi \<le> length a" "mset xs = mset (seg lo hi a)"
  shows "perm_seg lo hi a (splice_seg lo hi a xs)"
proof -
  have len: "length xs = hi - lo" using assms mset_eq_length[OF assms(3)] by simp
  have "mset (splice_seg lo hi a xs) = mset (take lo a @ seg lo hi a @ drop hi a)"
    using assms(3) by (simp add: splice_seg_def)
  then have "mset (splice_seg lo hi a xs) = mset a" by (simp only: append_seg[OF assms(1)])
  moreover have "splice_seg lo hi a xs ! i = a ! i" if "i < length a" "i < lo \<or> hi \<le> i" for i
    using that assms len by (auto simp: splice_seg_def nth_append)
  ultimately show ?thesis by (simp add: perm_seg_def)
qed

lemma seg_splice_seg:
  "length xs = hi - lo \<Longrightarrow> lo \<le> hi \<Longrightarrow> hi \<le> length a \<Longrightarrow> seg lo hi (splice_seg lo hi a xs) = xs"
  by (simp add: seg_def splice_seg_def)

lemma sorted_seg_iff:
  assumes "hi \<le> length a"
  shows "sorted (seg lo hi a) \<longleftrightarrow> sorted_seg lo hi a"
proof
  assume s: "sorted (seg lo hi a)"
  show "sorted_seg lo hi a"
    unfolding sorted_seg_def
  proof (intro allI impI)
    fix i j assume ij: "lo \<le> i \<and> i \<le> j \<and> j < hi"
    then have "seg lo hi a ! (i - lo) \<le> seg lo hi a ! (j - lo)"
      using s assms by (intro sorted_nth_mono) auto
    with ij assms show "a ! i \<le> a ! j" by simp
  qed
next
  assume "sorted_seg lo hi a"
  then show "sorted (seg lo hi a)"
    using assms by (auto simp: sorted_seg_def sorted_iff_nth_mono)
qed

lemma seg_append: "lo \<le> mid \<Longrightarrow> mid \<le> hi \<Longrightarrow> seg lo mid a @ seg mid hi a = seg lo hi a"
proof -
  assume "lo \<le> mid" "mid \<le> hi"
  then have "hi - lo = (mid - lo) + (hi - mid)" "drop mid a = drop (mid - lo) (drop lo a)" by simp_all
  then show ?thesis unfolding seg_def by (simp only: take_add)
qed

lemma seg_empty [simp]: "hi \<le> lo \<Longrightarrow> seg lo hi a = []"
  by (simp add: seg_def)

lemma seg_Cons: "i < n \<Longrightarrow> n \<le> length a \<Longrightarrow> seg i n a = a ! i # seg (Suc i) n a"
  by (simp add: seg_def Cons_nth_drop_Suc[symmetric] Suc_diff_Suc[symmetric] del: diff_Suc_Suc)

end
