(* ===== verification/Sort_Driver.thy ===== *)
theory Sort_Driver
  imports C_Stdio Array_Perm
begin

text \<open>
  The driver shared by the programs under \<open>DS_Algos/sorting\<close>: \<open>main\<close> reads arrays from
  standard input (with the conversion \<open>%d\<close> or \<open>%u\<close>) into a static buffer of 256 elements, prints each one, sorts it in place and prints
  it again. The routine under test is a parameter, as the programs differ in nothing else.

  The locale \<open>in_place_sort\<close> is the contract between \<open>main\<close> and a sorting routine: on a
  prefix of the buffer whose length the routine accepts, it returns the buffer with that prefix
  sorted and the rest untouched. Under the contract the whole program is correct on every well-formed
  input that fits the buffer (\<open>main_correct\<close>), and has no defined behaviour on an array that
  does not (\<open>sort_main_overflow\<close>).
\<close>

definition MAX_ARR_SZ :: nat where "MAX_ARR_SZ = 256"

function print_array :: "char \<Rightarrow> int list \<Rightarrow> nat \<Rightarrow> nat \<Rightarrow> string c" where
  "print_array k arr n i =
     (if i < n then do { x \<leftarrow> rd arr i;
                         out \<leftarrow> print_array k arr n (i + 1);
                         Some (printf (CHR ''%'' # k # '' '') [IntA x] @ out) }
      else Some (printf ''\<newline>'' []))"
  by pat_completeness auto
termination by (relation "measure (\<lambda>(k, arr, n, i). n - i)") auto

declare print_array.simps [simp del]

text \<open>
  \<open>for (i = 0; i < array_sz; i++) scanf("%d", &array[i]);\<close>: the element keeps its old value when
  the conversion fails; the address of an element beyond the buffer must not even be formed.
\<close>

function read_array :: "char \<Rightarrow> int list \<Rightarrow> nat \<Rightarrow> nat \<Rightarrow> string \<Rightarrow> (int list \<times> string) c" where
  "read_array k arr n i s =
     (if i < n then do { _ \<leftarrow> c_assert (i \<le> length arr);
                         r \<leftarrow> scanf (CHR ''%'' # k # []) s;
                         arr' \<leftarrow> (if scan_ret r = 1 then wr arr i (arg_int (sr_args r ! 0)) else Some arr);
                         read_array k arr' n (i + 1) (sr_rest r) }
      else Some (arr, s))"
  by pat_completeness auto
termination by (relation "measure (\<lambda>(k, arr, n, i, s). n - i)") auto

declare read_array.simps [simp del]

lemma read_array_le: "read_array k arr n i s = Some (arr', s') \<Longrightarrow> length s' \<le> length s"
proof (induction k arr n i s rule: read_array.induct)
  case (1 k arr n i s)
  show ?case
  proof (cases "i < n")
    case True
    with "1.prems" obtain r arr1 where
      "scanf (CHR ''%'' # k # []) s = Some r"
      and "(if scan_ret r = 1 then wr arr i (arg_int (sr_args r ! 0)) else Some arr) = Some arr1"
      and "c_assert (i \<le> length arr) = Some ()"
      and "read_array k arr1 n (i + 1) (sr_rest r) = Some (arr', s')"
      by (subst (asm) read_array.simps) (auto simp: bind_eq_Some_conv)
    with "1.IH"[OF True] scanf_rest_le[of "CHR ''%'' # k # []" s r] show ?thesis by fastforce
  next
    case False
    with "1.prems" show ?thesis by (subst (asm) read_array.simps) simp
  qed
qed

function sort_loop :: "char \<Rightarrow> (int list \<Rightarrow> nat \<Rightarrow> int list c) \<Rightarrow> int list \<Rightarrow> string \<Rightarrow> string c" where
  "sort_loop k sortf arr s =
     do { r \<leftarrow> scanf ''%zu'' s;
          if scan_ret r \<noteq> 1 then Some []
          else do { let n = nat (arg_int (sr_args r ! 0));
                    (arr1, s1) \<leftarrow> read_array k arr n 0 (sr_rest r);
                    received \<leftarrow> print_array k arr1 n 0;
                    arr2 \<leftarrow> sortf arr1 n;
                    sorted \<leftarrow> print_array k arr2 n 0;
                    rest \<leftarrow> sort_loop k sortf arr2 s1;
                    Some (printf ''Received: '' [] @ received @ printf ''Sorted: '' [] @ sorted @ rest) } }"
  by pat_completeness auto
termination
proof (relation "measure (\<lambda>(k, sortf, arr, s). length s)", simp)
  fix k and sortf :: "int list \<Rightarrow> nat \<Rightarrow> int list c" and arr s r n x arr1 s1 received arr2 sorted
  assume "scanf ''%zu'' s = Some r" "\<not> scan_ret r \<noteq> 1"
    "read_array k arr n 0 (sr_rest r) = Some x" "(arr1, s1) = x"
  then show "((k, sortf, arr2, s1), k, sortf, arr, s) \<in> measure (\<lambda>(k, sortf, arr, s). length s)"
    using read_array_le[of k arr n 0 "sr_rest r" arr1 s1] scanf_ret_less[of "''%zu''" s r] by auto
qed

declare sort_loop.simps [simp del]

definition sort_main :: "char \<Rightarrow> (int list \<Rightarrow> nat \<Rightarrow> int list c) \<Rightarrow> string \<Rightarrow> string c" where
  "sort_main k sortf input =
     do { out \<leftarrow> sort_loop k sortf (replicate MAX_ARR_SZ 0) input;
          Some (printf ''Input format: N n1 n2 n3 ...\<newline>'' []
                @ printf ''N is the array size; the rest are the elements\<newline>'' [] @ out) }"

subsection \<open>Well-formed input and the expected output\<close>

definition show_elems :: "int list \<Rightarrow> string" where
  "show_elems xs = concat (map (\<lambda>x. CHR '' '' # show_int x) xs)"

definition show_case :: "int list \<Rightarrow> string" where
  "show_case xs = show_nat (length xs) @ show_elems xs @ ''\<newline>''"

definition array_line :: "int list \<Rightarrow> string" where
  "array_line xs = concat (map (\<lambda>x. show_int x @ '' '') xs) @ ''\<newline>''"

definition expected_case :: "int list \<Rightarrow> string" where
  "expected_case xs = ''Received: '' @ array_line xs @ ''Sorted: '' @ array_line (sort xs)"

definition sort_banner :: string where
  "sort_banner = ''Input format: N n1 n2 n3 ...\<newline>'' @ ''N is the array size; the rest are the elements\<newline>''"

lemma show_elems_simps [simp]:
  "show_elems [] = []" "show_elems (x # xs) = CHR '' '' # show_int x @ show_elems xs"
  by (simp_all add: show_elems_def)

text \<open>The conversions the drivers read and print elements with, and the values they take.\<close>

definition conv_ok :: "char \<Rightarrow> int \<Rightarrow> bool" where
  "conv_ok k x \<longleftrightarrow> (if k = CHR ''d'' then in_int x else k = CHR ''u'' \<and> 0 \<le> x \<and> x < 2 ^ 32)"

lemma no_digit_show_elems: "no_digit r \<Longrightarrow> no_digit (show_elems xs @ r)"
  by (cases xs) simp_all

lemma scanf_elem:
  "no_digit r \<Longrightarrow> conv_ok k x \<Longrightarrow> scanf (CHR ''%'' # k # []) (CHR '' '' # show_int x @ show_elems xs @ r)
     = Some \<lparr>sr_args = [IntA x], sr_eof = False, sr_rest = show_elems xs @ r\<rparr>"
  using scanf_d_elem[of "'' ''" "show_elems xs @ r" x] scanf_u_elem[of "'' ''" "show_elems xs @ r" "nat x"]
  by (auto simp: no_digit_show_elems conv_ok_def show_int_def zless_nat_eq_int_zless split: if_splits)

lemma read_array_elems:
  assumes "list_all (conv_ok k) xs" "i + length xs = n" "n \<le> length arr" "no_digit r"
  shows "read_array k arr n i (show_elems xs @ r) = Some (take i arr @ xs @ drop n arr, r)"
  using assms
proof (induction xs arbitrary: arr i)
  case Nil
  then show ?case by (subst read_array.simps) simp
next
  case (Cons x xs)
  have "read_array k arr n i (show_elems (x # xs) @ r)
      = read_array k (arr[i := x]) n (i + 1) (show_elems xs @ r)"
    using Cons.prems by (subst read_array.simps) (simp add: scanf_elem)
  also have "\<dots> = Some (take (i + 1) (arr[i := x]) @ xs @ drop n (arr[i := x]), r)"
    using Cons.prems by (intro Cons.IH) auto
  also have "take (i + 1) (arr[i := x]) = take i arr @ [x]"
    using Cons.prems by (simp add: take_Suc_conv_app_nth)
  finally show ?case using Cons.prems by simp
qed

lemma read_array_overflow:
  assumes "list_all (conv_ok k) xs" "i + length xs = n" "length arr < n" "i \<le> length arr" "no_digit r"
  shows "read_array k arr n i (show_elems xs @ r) = None"
  using assms
proof (induction xs arbitrary: arr i)
  case (Cons x xs)
  have step: "read_array k arr n i (show_elems (x # xs) @ r)
      = wr arr i x \<bind> (\<lambda>arr'. read_array k arr' n (i + 1) (show_elems xs @ r))"
    using Cons.prems by (subst read_array.simps) (simp add: scanf_elem)
  show ?case
  proof (cases "i = length arr")
    case True
    then show ?thesis unfolding step by simp
  next
    case False
    then have "read_array k (arr[i := x]) n (i + 1) (show_elems xs @ r) = None"
      using Cons.prems by (intro Cons.IH) auto
    with False Cons.prems show ?thesis unfolding step by simp
  qed
qed simp

lemma print_array_seg:
  assumes "i \<le> n" "n \<le> length arr" "k = CHR ''d'' \<or> k = CHR ''u''"
  shows "print_array k arr n i = Some (array_line (seg i n arr))"
  using assms
proof (induction k arr n i rule: print_array.induct)
  case (1 k arr n i)
  show ?case
  proof (cases "i < n")
    case True
    then have "print_array k arr n (i + 1) = Some (array_line (seg (i + 1) n arr))"
      using 1 by simp
    with True "1.prems" show ?thesis
      by (subst print_array.simps) (auto simp: seg_Cons array_line_def show_conv_def split: if_splits)
  next
    case False
    with "1.prems" show ?thesis
      by (subst print_array.simps) (simp add: seg_def array_line_def)
  qed
qed

text \<open>An array that does not fit the static buffer is written past its end: no defined behaviour.\<close>

lemma sort_main_overflow:
  assumes "MAX_ARR_SZ < length xs" "length xs < 2 ^ 64" "list_all (conv_ok k) xs"
  shows "sort_main k sortf (show_case xs @ rest) = None"
proof -
  let ?r = "''\<newline>'' @ rest"
  have "scanf ''%zu'' (show_nat (length xs) @ show_elems xs @ ?r)
      = Some \<lparr>sr_args = [IntA (int (length xs))], sr_eof = False, sr_rest = show_elems xs @ ?r\<rparr>"
    using scanf_zu_elem[of "[]" "show_elems xs @ ?r"] assms by (simp add: no_digit_show_elems)
  moreover have "read_array k (replicate MAX_ARR_SZ 0) (length xs) 0 (show_elems xs @ ?r) = None"
    using assms by (intro read_array_overflow) simp_all
  ultimately have "sort_loop k sortf (replicate MAX_ARR_SZ 0) (show_case xs @ rest) = None"
    by (subst sort_loop.simps) (simp add: show_case_def)
  then show ?thesis by (simp add: sort_main_def)
qed

text \<open>Two concrete test cases, as text.\<close>

definition sample_cases :: "int list list" where
  "sample_cases = [[30, -1, 2], [7]]"

lemma sample_cases_text:
  "concat (map show_case sample_cases) = ''3 30 -1 2\<newline>1 7\<newline>''"
  "concat (map expected_case sample_cases)
     = ''Received: 30 -1 2 \<newline>Sorted: -1 2 30 \<newline>Received: 7 \<newline>Sorted: 7 \<newline>''"
  by code_simp+

lemma sample_cases_ok:
  "xs \<in> set sample_cases \<Longrightarrow> length xs \<le> MAX_ARR_SZ \<and> xs \<noteq> [] \<and> list_all in_int xs"
  by (auto simp: sample_cases_def MAX_ARR_SZ_def in_int_def INT_MIN_def INT_MAX_def)

subsection \<open>The contract of a sorting routine\<close>

locale in_place_sort =
  fixes k :: char and sortf :: "int list \<Rightarrow> nat \<Rightarrow> int list c" and accepts :: "int list \<Rightarrow> bool"
  assumes conv: "k = CHR ''d'' \<or> k = CHR ''u''"
    and sortf_sorts: "n \<le> length a \<Longrightarrow> accepts (take n a) \<Longrightarrow> sortf a n = Some (sort (take n a) @ drop n a)"
begin

lemma sortf_perm_sorted:
  assumes "n \<le> length a" "accepts (take n a)"
  obtains b where "sortf a n = Some b" "sorted (take n b)" "mset b = mset a" "drop n b = drop n a"
proof
  show "sortf a n = Some (sort (take n a) @ drop n a)" using assms by (rule sortf_sorts)
  show "mset (sort (take n a) @ drop n a) = mset a"
    by (metis append_take_drop_id mset_append mset_sort)
qed (use assms in simp_all)

lemma sort_loop_cases:
  assumes "length arr = MAX_ARR_SZ" "list_all isspace w"
    and "\<And>xs. xs \<in> set xss \<Longrightarrow> length xs \<le> MAX_ARR_SZ \<and> accepts xs \<and> list_all (conv_ok k) xs"
  shows "sort_loop k sortf arr (w @ concat (map show_case xss)) = Some (concat (map expected_case xss))"
  using assms
proof (induction xss arbitrary: arr w)
  case Nil
  then show ?case by (subst sort_loop.simps) (simp add: scanf_num_end)
next
  case (Cons xs xss)
  let ?n = "length xs" and ?r = "''\<newline>'' @ concat (map show_case xss)"
  let ?arr1 = "xs @ drop ?n arr" and ?arr2 = "sort xs @ drop ?n arr"
  have n: "?n \<le> length arr" "?n < 2 ^ 64" and ok: "accepts xs" "list_all (conv_ok k) xs"
    using Cons.prems(3)[of xs] Cons.prems(1) by (auto simp: MAX_ARR_SZ_def)
  have "scanf ''%zu'' (w @ show_nat ?n @ show_elems xs @ ?r)
      = Some \<lparr>sr_args = [IntA (int ?n)], sr_eof = False, sr_rest = show_elems xs @ ?r\<rparr>"
    using Cons.prems n by (intro scanf_zu_elem) (simp_all add: no_digit_show_elems)
  moreover have "read_array k arr ?n 0 (show_elems xs @ ?r) = Some (?arr1, ?r)"
    using read_array_elems[OF ok(2), of 0 ?n arr ?r] n by simp
  moreover have "print_array k ?arr1 ?n 0 = Some (array_line xs)"
    using n conv by (subst print_array_seg) (simp_all add: seg_def)
  moreover have "sortf ?arr1 ?n = Some ?arr2"
    using sortf_sorts[of ?n ?arr1] ok(1) n by simp
  moreover have "print_array k ?arr2 ?n 0 = Some (array_line (sort xs))"
    using n conv by (subst print_array_seg) (simp_all add: seg_def)
  moreover have "sort_loop k sortf ?arr2 ?r = Some (concat (map expected_case xss))"
    using Cons.prems n by (intro Cons.IH) simp_all
  ultimately show ?case
    by (subst sort_loop.simps) (simp add: show_case_def expected_case_def)
qed

lemma main_correct:
  assumes "\<And>xs. xs \<in> set xss \<Longrightarrow> length xs \<le> MAX_ARR_SZ \<and> accepts xs \<and> list_all (conv_ok k) xs"
  shows "sort_main k sortf (concat (map show_case xss))
      = Some (sort_banner @ concat (map expected_case xss))"
  using sort_loop_cases[OF _ _ assms, of "replicate MAX_ARR_SZ 0" "[]"]
  by (simp add: sort_main_def sort_banner_def)

end

end
