(* ===== verification/Bubble_Sort.thy ===== *)
theory Bubble_Sort
  imports Sort_Driver
begin

text \<open>
  \<open>DS_Algos/sorting/bubblesort/bubblesort.c\<close>. The inner \<open>for\<close> loop is
  \<open>bubble_pass\<close>, the outer \<open>while (swapped)\<close> loop is \<open>bubble_loop\<close>, which the
  source gives no bound for: it is a partial function, \<open>None\<close> also where it would not return.
  Each exchange increases the weighted sum \<open>weight\<close> of the array, which a rearrangement cannot
  push beyond a bound, so the loop ends.
\<close>

function bubble_pass :: "int list \<Rightarrow> nat \<Rightarrow> nat \<Rightarrow> bool \<Rightarrow> (int list \<times> bool) c" where
  "bubble_pass arr arr_sz i swapped =
     (if i < arr_sz then
        do { x \<leftarrow> rd arr i;
             y \<leftarrow> rd arr (i - 1);
             if x < y
             then do { arr' \<leftarrow> swap arr i (i - 1); bubble_pass arr' arr_sz (i + 1) True }
             else bubble_pass arr arr_sz (i + 1) swapped }
      else Some (arr, swapped))"
  by pat_completeness auto
termination by (relation "measure (\<lambda>(arr, arr_sz, i, swapped). arr_sz - i)") auto

declare bubble_pass.simps [simp del]

partial_function (option) bubble_loop :: "int list \<Rightarrow> nat \<Rightarrow> bool \<Rightarrow> int list c" where
  "bubble_loop arr arr_sz swapped =
     (if swapped then
        do { (arr', swapped') \<leftarrow> bubble_pass arr arr_sz 1 False;
             bubble_loop arr' arr_sz swapped' }
      else Some arr)"

declare bubble_loop.simps [code]

definition bubblesort :: "int list \<Rightarrow> nat \<Rightarrow> int list c" where
  "bubblesort arr arr_sz = bubble_loop arr arr_sz True"

definition bubblesort_main :: "string \<Rightarrow> string c" where
  "bubblesort_main input = sort_main CHR ''d'' bubblesort input"

subsection \<open>The potential of the outer loop\<close>

definition weight :: "int list \<Rightarrow> int" where
  "weight a = (\<Sum>i<length a. int i * a ! i)"

definition weight_bound :: "int list \<Rightarrow> int" where
  "weight_bound a = int (length a) * (\<Sum>x\<leftarrow>a. \<bar>x\<bar>)"

lemma weight_le_bound: "weight a \<le> weight_bound a"
proof -
  have "weight a \<le> (\<Sum>i<length a. int (length a) * \<bar>a ! i\<bar>)"
    unfolding weight_def
  proof (rule sum_mono)
    fix i assume "i \<in> {..<length a}"
    then have "int i * \<bar>a ! i\<bar> \<le> int (length a) * \<bar>a ! i\<bar>" by (intro mult_right_mono) auto
    moreover have "int i * a ! i \<le> int i * \<bar>a ! i\<bar>" by (intro mult_left_mono) auto
    ultimately show "int i * a ! i \<le> int (length a) * \<bar>a ! i\<bar>" by linarith
  qed
  also have "\<dots> = weight_bound a"
    by (simp add: weight_bound_def sum_list_sum_nth sum_distrib_left atLeast0LessThan)
  finally show ?thesis .
qed

lemma weight_bound_perm: "mset b = mset a \<Longrightarrow> weight_bound b = weight_bound a"
proof -
  assume m: "mset b = mset a"
  then have "mset (map abs b) = mset (map abs a)" by simp
  then have "sum_list (map abs b) = sum_list (map abs a)" by (metis sum_mset_sum_list)
  moreover have "length b = length a" using m by (rule mset_eq_length)
  ultimately show ?thesis by (simp add: weight_bound_def)
qed

lemma weight_update:
  "i < length a \<Longrightarrow> weight (a[i := v]) = weight a + int i * (v - a ! i)"
proof -
  assume i: "i < length a"
  have "weight (a[i := v]) = int i * v + (\<Sum>k\<in>{..<length a} - {i}. int k * a ! k)"
    unfolding weight_def using i
    by (subst sum.remove[of _ i]) (auto intro!: sum.cong)
  moreover have "weight a = int i * a ! i + (\<Sum>k\<in>{..<length a} - {i}. int k * a ! k)"
    unfolding weight_def using i by (subst sum.remove[of _ i]) auto
  ultimately show ?thesis by (simp add: algebra_simps)
qed

lemma weight_swap:
  assumes "i < length a" "0 < i" "a ! i < a ! (i - 1)"
  shows "weight a < weight (a[i := a ! (i - 1), i - 1 := a ! i])"
proof -
  obtain k where k: "i = Suc k" using assms by (cases i) auto
  have "weight (a[i := a ! (i - 1), i - 1 := a ! i])
      = weight a + int i * (a ! (i - 1) - a ! i) + int (i - 1) * (a ! i - a ! (i - 1))"
    using assms by (simp add: weight_update)
  also have "\<dots> = weight a + (a ! (i - 1) - a ! i)"
    by (simp add: k algebra_simps)
  finally show ?thesis using assms by simp
qed

subsection \<open>One pass\<close>

lemma bubble_pass_spec:
  assumes "arr_sz \<le> length arr" "0 < i"
  shows "\<exists>arr' sw. bubble_pass arr arr_sz i swapped = Some (arr', sw)
      \<and> perm_seg 0 arr_sz arr arr'
      \<and> (if sw \<and> \<not> swapped then weight arr < weight arr' else weight arr \<le> weight arr')
      \<and> (\<not> sw \<longrightarrow> arr' = arr \<and> \<not> swapped \<and> (\<forall>k. i \<le> k \<and> k < arr_sz \<longrightarrow> arr ! (k - 1) \<le> arr ! k))"
  using assms
proof (induction arr arr_sz i swapped rule: bubble_pass.induct)
  case (1 arr arr_sz i swapped)
  consider (exit) "\<not> i < arr_sz" | (swap) "i < arr_sz" "arr ! i < arr ! (i - 1)"
    | (keep) "i < arr_sz" "\<not> arr ! i < arr ! (i - 1)" by blast
  then show ?case
  proof cases
    case exit
    then show ?thesis by (subst bubble_pass.simps) simp
  next
    case swap
    let ?b = "arr[i := arr ! (i - 1), i - 1 := arr ! i]"
    have sw: "swap arr i (i - 1) = Some ?b" using swap "1.prems" by simp
    have p: "perm_seg 0 arr_sz arr ?b" using swap "1.prems" by (intro perm_seg_swap) auto
    have w: "weight arr < weight ?b" using swap "1.prems" by (intro weight_swap) auto
    obtain arr' sw' where r: "bubble_pass ?b arr_sz (i + 1) True = Some (arr', sw')"
      "perm_seg 0 arr_sz ?b arr'" "weight ?b \<le> weight arr'" "sw'"
      using "1.IH"(1)[of "arr ! i" "arr ! (i - 1)" ?b] swap "1.prems" sw by fastforce
    have "bubble_pass arr arr_sz i swapped = Some (arr', sw')"
      using swap "1.prems" r(1) by (subst bubble_pass.simps) simp
    with r p w show ?thesis by (auto intro: perm_seg_trans)
  next
    case keep
    obtain arr' sw' where r: "bubble_pass arr arr_sz (i + 1) swapped = Some (arr', sw')"
      "perm_seg 0 arr_sz arr arr'"
      "if sw' \<and> \<not> swapped then weight arr < weight arr' else weight arr \<le> weight arr'"
      "\<not> sw' \<longrightarrow> arr' = arr \<and> \<not> swapped \<and> (\<forall>k. i + 1 \<le> k \<and> k < arr_sz \<longrightarrow> arr ! (k - 1) \<le> arr ! k)"
      using "1.IH"(2)[of "arr ! i" "arr ! (i - 1)"] keep "1.prems" by fastforce
    have "bubble_pass arr arr_sz i swapped = Some (arr', sw')"
      using keep "1.prems" r(1) by (subst bubble_pass.simps) simp
    moreover have "\<forall>k. i \<le> k \<and> k < arr_sz \<longrightarrow> arr ! (k - 1) \<le> arr ! k" if "\<not> sw'"
      using r(4) that keep by (metis Suc_eq_plus1 Suc_leI le_neq_implies_less not_less)
    ultimately show ?thesis using r by auto
  qed
qed

subsection \<open>The whole sort\<close>

lemma bubble_loop_spec:
  assumes "arr_sz \<le> length arr"
  shows "\<exists>b. bubble_loop arr arr_sz True = Some b \<and> perm_seg 0 arr_sz arr b \<and> sorted_seg 0 arr_sz b"
  using assms
proof (induction "nat (weight_bound arr - weight arr)" arbitrary: arr rule: less_induct)
  case less
  obtain arr' sw where p: "bubble_pass arr arr_sz 1 False = Some (arr', sw)"
    "perm_seg 0 arr_sz arr arr'" "sw \<Longrightarrow> weight arr < weight arr'"
    "\<not> sw \<Longrightarrow> arr' = arr \<and> (\<forall>k. 1 \<le> k \<and> k < arr_sz \<longrightarrow> arr ! (k - 1) \<le> arr ! k)"
    using bubble_pass_spec[OF less.prems, of 1 False] by (auto split: if_splits)
  have loop: "bubble_loop arr arr_sz True = bubble_loop arr' arr_sz sw"
    using p(1) by (subst bubble_loop.simps) simp
  show ?case
  proof (cases sw)
    case True
    have "weight_bound arr' = weight_bound arr"
      using p(2) by (intro weight_bound_perm) (simp add: perm_seg_def)
    with p(3)[OF True] weight_le_bound[of arr'] less.prems perm_seg_length[OF p(2)] obtain b where
      "bubble_loop arr' arr_sz True = Some b" "perm_seg 0 arr_sz arr' b" "sorted_seg 0 arr_sz b"
      using less.hyps[of arr'] by auto
    with True loop p(2) show ?thesis by (auto intro: perm_seg_trans)
  next
    case False
    then have "sorted_seg 0 arr_sz arr" using p(4) by (intro sorted_seg_adjacent) auto
    with False loop p(4)[OF False] show ?thesis by (simp add: bubble_loop.simps)
  qed
qed

lemma bubblesort_eq_sort:
  "n \<le> length a \<Longrightarrow> bubblesort a n = Some (sort (take n a) @ drop n a)"
  using bubble_loop_spec[of n a] sorted_perm_seg_eq unfolding bubblesort_def by blast

interpretation bubble: in_place_sort "CHR ''d''" bubblesort "\<lambda>xs. True"
  by unfold_locales (auto intro: bubblesort_eq_sort)

subsection \<open>The program\<close>

text \<open>
  \<open>bubblesort\<close> sorts in place: on any prefix of a buffer it returns
  the buffer with that prefix sorted and the rest untouched, so it makes no access outside the buffer,
  and ends. The whole program, on any sequence of well-formed test cases that fit the
  static buffer, prints each array as received and then sorted.
\<close>

lemma bubblesort_correct:
  "(\<forall>a n. n \<le> length a \<longrightarrow> bubblesort a n = Some (sort (take n a) @ drop n a))
   \<and> (\<forall>xss. (\<forall>xs\<in>set xss. length xs \<le> MAX_ARR_SZ \<and> list_all in_int xs) \<longrightarrow>
        bubblesort_main (concat (map show_case xss)) = Some (sort_banner @ concat (map expected_case xss)))"
proof (intro conjI allI impI)
  show "bubblesort a n = Some (sort (take n a) @ drop n a)" if "n \<le> length a" for a n
    using that by (auto intro: bubblesort_eq_sort)
  show "bubblesort_main (concat (map show_case xss)) = Some (sort_banner @ concat (map expected_case xss))"
    if "\<forall>xs\<in>set xss. length xs \<le> MAX_ARR_SZ \<and> list_all in_int xs" for xss
    unfolding bubblesort_main_def using that
    by (intro bubble.main_correct) (auto simp: list_all_iff conv_ok_def)
qed

end
