(* ===== verification/Selection_Sort.thy ===== *)
theory Selection_Sort
  imports Sort_Driver
begin

text \<open>
  \<open>DS_Algos/sorting/selectionsort/selectionsort.c\<close>: the search for the index of the least
  remaining element (\<open>min_index\<close>, the inner loop) and the outer loop that exchanges it into
  place.
\<close>

function min_index :: "int list \<Rightarrow> nat \<Rightarrow> nat \<Rightarrow> nat \<Rightarrow> nat c" where
  "min_index arr arr_sz j min_i =
     (if j < arr_sz then
        do { x \<leftarrow> rd arr j;
             m \<leftarrow> rd arr min_i;
             min_index arr arr_sz (j + 1) (if x < m then j else min_i) }
      else Some min_i)"
  by pat_completeness auto
termination by (relation "measure (\<lambda>(arr, arr_sz, j, min_i). arr_sz - j)") auto

declare min_index.simps [simp del]

function selection_loop :: "int list \<Rightarrow> nat \<Rightarrow> nat \<Rightarrow> int list c" where
  "selection_loop arr arr_sz i =
     (if i < arr_sz then
        do { min_i \<leftarrow> min_index arr arr_sz i i;
             arr' \<leftarrow> swap arr i min_i;
             selection_loop arr' arr_sz (i + 1) }
      else Some arr)"
  by pat_completeness auto
termination by (relation "measure (\<lambda>(arr, arr_sz, i). arr_sz - i)") auto

declare selection_loop.simps [simp del]

definition selectionsort :: "int list \<Rightarrow> nat \<Rightarrow> int list c" where
  "selectionsort arr arr_sz = selection_loop arr arr_sz 0"

definition selectionsort_main :: "string \<Rightarrow> string c" where
  "selectionsort_main input = sort_main CHR ''d'' selectionsort input"

lemma min_index_spec:
  assumes "arr_sz \<le> length arr" "i \<le> min_i" "min_i < arr_sz" "min_i \<le> j" "j \<le> arr_sz"
    "\<And>k. i \<le> k \<Longrightarrow> k < j \<Longrightarrow> arr ! min_i \<le> arr ! k"
  shows "\<exists>m. min_index arr arr_sz j min_i = Some m \<and> i \<le> m \<and> m < arr_sz
      \<and> (\<forall>k. i \<le> k \<and> k < arr_sz \<longrightarrow> arr ! m \<le> arr ! k)"
  using assms
proof (induction arr arr_sz j min_i rule: min_index.induct)
  case (1 arr arr_sz j min_i)
  show ?case
  proof (cases "j < arr_sz")
    case True
    let ?m = "if arr ! j < arr ! min_i then j else min_i"
    have inv: "arr ! ?m \<le> arr ! k" if "i \<le> k" "k < j + 1" for k
      using that "1.prems"(6)[of k] by (cases "k = j") auto
    have "\<exists>m. min_index arr arr_sz (j + 1) ?m = Some m \<and> i \<le> m \<and> m < arr_sz
      \<and> (\<forall>k. i \<le> k \<and> k < arr_sz \<longrightarrow> arr ! m \<le> arr ! k)"
      using True "1.prems" inv by (intro "1.IH") auto
    with True "1.prems" show ?thesis by (subst min_index.simps) simp
  next
    case False
    with "1.prems" show ?thesis by (subst min_index.simps) auto
  qed
qed

lemma selection_loop_spec:
  assumes "arr_sz \<le> length arr" "i \<le> arr_sz"
    "\<And>k l. k < i \<Longrightarrow> k \<le> l \<Longrightarrow> l < arr_sz \<Longrightarrow> arr ! k \<le> arr ! l"
  shows "\<exists>b. selection_loop arr arr_sz i = Some b \<and> perm_seg 0 arr_sz arr b \<and> sorted_seg 0 arr_sz b"
  using assms
proof (induction arr arr_sz i rule: selection_loop.induct)
  case (1 arr arr_sz i)
  show ?case
  proof (cases "i < arr_sz")
    case True
    obtain m where m: "min_index arr arr_sz i i = Some m" "i \<le> m" "m < arr_sz"
      "\<And>k. i \<le> k \<Longrightarrow> k < arr_sz \<Longrightarrow> arr ! m \<le> arr ! k"
      using min_index_spec[of arr_sz arr i i i] True "1.prems" by auto
    let ?b = "arr[i := arr ! m, m := arr ! i]"
    have p: "perm_seg i arr_sz arr ?b" using m True "1.prems" by (intro perm_seg_swap) auto
    have inv: "?b ! k \<le> ?b ! l" if "k < i + 1" "k \<le> l" "l < arr_sz" for k l
    proof (cases "k < i")
      case True
      then have "?b ! k = arr ! k" using m by simp
      moreover have "arr ! k \<le> ?b ! l"
        using that True "1.prems"(1,3) m by (auto simp: nth_list_update)
      ultimately show ?thesis by simp
    next
      case False
      then have "k = i" using that by simp
      then show ?thesis using that m True "1.prems" by (auto simp: nth_list_update)
    qed
    have "\<exists>b. selection_loop ?b arr_sz (i + 1) = Some b \<and> perm_seg 0 arr_sz ?b b \<and> sorted_seg 0 arr_sz b"
      using True "1.prems" m inv by (intro "1.IH"[of m]) auto
    moreover have "selection_loop arr arr_sz i = selection_loop ?b arr_sz (i + 1)"
      using True m "1.prems" by (subst selection_loop.simps) simp
    moreover have "perm_seg 0 arr_sz arr ?b" using p by (rule perm_seg_mono) auto
    ultimately show ?thesis using perm_seg_trans by metis
  next
    case False
    then have "sorted_seg 0 arr_sz arr" using "1.prems" by (auto simp: sorted_seg_def)
    with False show ?thesis by (subst selection_loop.simps) simp
  qed
qed

lemma selectionsort_eq_sort:
  "n \<le> length a \<Longrightarrow> selectionsort a n = Some (sort (take n a) @ drop n a)"
  using selection_loop_spec[of n a 0] sorted_perm_seg_eq unfolding selectionsort_def by blast

interpretation selection: in_place_sort "CHR ''d''" selectionsort "\<lambda>xs. True"
  by unfold_locales (auto intro: selectionsort_eq_sort)

subsection \<open>The program\<close>

text \<open>
  \<open>selectionsort\<close> sorts in place: on any prefix of a buffer it returns
  the buffer with that prefix sorted and the rest untouched, so it makes no access outside the buffer,
  and ends. The whole program, on any sequence of well-formed test cases that fit the
  static buffer, prints each array as received and then sorted.
\<close>

lemma selectionsort_correct:
  "(\<forall>a n. n \<le> length a \<longrightarrow> selectionsort a n = Some (sort (take n a) @ drop n a))
   \<and> (\<forall>xss. (\<forall>xs\<in>set xss. length xs \<le> MAX_ARR_SZ \<and> list_all in_int xs) \<longrightarrow>
        selectionsort_main (concat (map show_case xss)) = Some (sort_banner @ concat (map expected_case xss)))"
proof (intro conjI allI impI)
  show "selectionsort a n = Some (sort (take n a) @ drop n a)" if "n \<le> length a" for a n
    using that by (auto intro: selectionsort_eq_sort)
  show "selectionsort_main (concat (map show_case xss)) = Some (sort_banner @ concat (map expected_case xss))"
    if "\<forall>xs\<in>set xss. length xs \<le> MAX_ARR_SZ \<and> list_all in_int xs" for xss
    unfolding selectionsort_main_def using that
    by (intro selection.main_correct) (auto simp: list_all_iff conv_ok_def)
qed

end
