(* ===== verification/Insertion_Sort.thy ===== *)
theory Insertion_Sort
  imports Sort_Driver
begin

text \<open>
  \<open>DS_Algos/sorting/insertionsort/insertionsort.c\<close>: the inner loop shifts greater elements one
  place up and returns the free place; the outer loop stores the element there.
\<close>

fun shift_loop :: "int list \<Rightarrow> int \<Rightarrow> nat \<Rightarrow> (int list \<times> nat) c" where
  "shift_loop arr v j =
     (if j > 0 then
        do { x \<leftarrow> rd arr (j - 1);
             if v < x then do { arr' \<leftarrow> wr arr j x; shift_loop arr' v (j - 1) }
             else Some (arr, j) }
      else Some (arr, j))"

declare shift_loop.simps [simp del]

function insertion_loop :: "int list \<Rightarrow> nat \<Rightarrow> nat \<Rightarrow> int list c" where
  "insertion_loop arr arr_sz i =
     (if i < arr_sz then
        do { v \<leftarrow> rd arr i;
             (arr', j) \<leftarrow> shift_loop arr v i;
             arr'' \<leftarrow> wr arr' j v;
             insertion_loop arr'' arr_sz (i + 1) }
      else Some arr)"
  by pat_completeness auto
termination by (relation "measure (\<lambda>(arr, arr_sz, i). arr_sz - i)") auto

declare insertion_loop.simps [simp del]

definition insertionsort :: "int list \<Rightarrow> nat \<Rightarrow> int list c" where
  "insertionsort arr arr_sz = insertion_loop arr arr_sz 1"

definition insertionsort_main :: "string \<Rightarrow> string c" where
  "insertionsort_main input = sort_main CHR ''d'' insertionsort input"

text \<open>
  The shift, in closed form: with \<open>v\<close> thought of as still standing at the free place, every
  iteration is an exchange of neighbours.
\<close>

lemma shift_loop_spec:
  assumes "i < length arr" "j \<le> i" "sorted_seg 0 j arr" "sorted_seg (Suc j) (Suc i) arr"
    "\<And>k l. k < j \<Longrightarrow> j < l \<Longrightarrow> l \<le> i \<Longrightarrow> arr ! k \<le> arr ! l"
    "\<And>l. j < l \<Longrightarrow> l \<le> i \<Longrightarrow> v < arr ! l"
  shows "\<exists>b j'. shift_loop arr v j = Some (b, j') \<and> j' \<le> j
      \<and> perm_seg 0 (Suc i) (arr[j := v]) (b[j' := v]) \<and> sorted_seg 0 (Suc i) (b[j' := v])
      \<and> length b = length arr"
  using assms
proof (induction arr v j rule: shift_loop.induct)
  case (1 arr v j)
  have cross: "arr ! k \<le> arr ! l" if kl: "k \<le> l" "l \<le> i" "k \<noteq> j" "l \<noteq> j" for k l
  proof -
    consider "l < j" | "k < j" "j < l" | "j < k" using kl by linarith
    then show ?thesis
      using kl "1.prems"(3-5) by cases (auto simp: sorted_seg_def)
  qed
  show ?case
  proof (cases "j > 0 \<and> v < arr ! (j - 1)")
    case True
    let ?a = "arr[j := arr ! (j - 1)]"
    have ex: "\<exists>b j'. shift_loop ?a v (j - 1) = Some (b, j') \<and> j' \<le> j - 1
      \<and> perm_seg 0 (Suc i) (?a[j - 1 := v]) (b[j' := v]) \<and> sorted_seg 0 (Suc i) (b[j' := v])
      \<and> length b = length ?a"
    proof (rule "1.IH"[of "arr ! (j - 1)"])
      show "sorted_seg 0 (j - 1) ?a"
        unfolding sorted_seg_def using "1.prems"(1,2) by (auto intro!: cross)
      show "sorted_seg (Suc (j - 1)) (Suc i) ?a"
        unfolding sorted_seg_def using "1.prems"(1,2) True by (auto simp: nth_list_update intro!: cross)
      show "?a ! k \<le> ?a ! l" if "k < j - 1" "j - 1 < l" "l \<le> i" for k l
        using that "1.prems"(1,2) by (auto simp: nth_list_update intro!: cross)
      show "v < ?a ! l" if "j - 1 < l" "l \<le> i" for l
        using that "1.prems"(1,2,6) True by (auto simp: nth_list_update)
    qed (use True "1.prems" in auto)
    have step: "shift_loop arr v j = shift_loop ?a v (j - 1)"
      using True "1.prems" by (subst shift_loop.simps) simp
    have "perm_seg 0 (Suc i) (arr[j := v]) ((arr[j := v])[j := (arr[j := v]) ! (j - 1), j - 1 := (arr[j := v]) ! j])"
      using True "1.prems" by (intro perm_seg_swap) auto
    moreover have "arr[j := v] ! (j - 1) = arr ! (j - 1)"
      using True by (intro nth_list_update_neq) arith
    ultimately have "perm_seg 0 (Suc i) (arr[j := v]) (?a[j - 1 := v])"
      using "1.prems" by simp
    with ex step show ?thesis by (metis diff_le_self le_trans length_list_update perm_seg_trans)
  next
    case False
    have "sorted_seg 0 (Suc i) (arr[j := v])"
      unfolding sorted_seg_def
    proof (intro allI impI)
      fix k l assume kl: "0 \<le> k \<and> k \<le> l \<and> l < Suc i"
      consider "k = j" | "l = j" "k < j" | "k \<noteq> j" "l \<noteq> j" using kl by linarith
      then show "arr[j := v] ! k \<le> arr[j := v] ! l"
      proof cases
        case 1
        then show ?thesis using kl "1.prems"(1,2) "1.prems"(6)[of l] by (cases "l = j") auto
      next
        case 2
        then have "arr ! k \<le> arr ! (j - 1)" using kl "1.prems"(2) by (intro cross) auto
        with 2 False show ?thesis using "1.prems"(1,2) by auto
      next
        case 3
        then show ?thesis using kl cross by simp
      qed
    qed
    moreover have "shift_loop arr v j = Some (arr, j)"
      using False "1.prems" by (subst shift_loop.simps) auto
    ultimately show ?thesis by simp
  qed
qed

lemma insertion_loop_spec:
  assumes "arr_sz \<le> length arr" "sorted_seg 0 i arr"
  shows "\<exists>b. insertion_loop arr arr_sz i = Some b \<and> perm_seg 0 arr_sz arr b \<and> sorted_seg 0 arr_sz b"
  using assms
proof (induction arr arr_sz i rule: insertion_loop.induct)
  case (1 arr arr_sz i)
  show ?case
  proof (cases "i < arr_sz")
    case True
    obtain b j where sh: "shift_loop arr (arr ! i) i = Some (b, j)" "j \<le> i" "length b = length arr"
      and p: "perm_seg 0 (Suc i) (arr[i := arr ! i]) (b[j := arr ! i])"
      and s: "sorted_seg 0 (Suc i) (b[j := arr ! i])"
      using shift_loop_spec[of i arr i "arr ! i"] True "1.prems" by auto
    let ?b = "b[j := arr ! i]"
    have "\<exists>r. insertion_loop ?b arr_sz (i + 1) = Some r \<and> perm_seg 0 arr_sz ?b r \<and> sorted_seg 0 arr_sz r"
      using True sh s "1.prems" by (intro "1.IH"[of "arr ! i" "(b, j)" b j]) auto
    moreover have "insertion_loop arr arr_sz i = insertion_loop ?b arr_sz (i + 1)"
      using True sh "1.prems" by (subst insertion_loop.simps) simp
    moreover have "perm_seg 0 arr_sz arr ?b"
      using p True by (auto intro: perm_seg_mono)
    ultimately show ?thesis using perm_seg_trans by metis
  next
    case False
    then have "sorted_seg 0 arr_sz arr" using "1.prems" sorted_seg_mono by fastforce
    with False show ?thesis by (subst insertion_loop.simps) simp
  qed
qed

lemma insertionsort_eq_sort:
  "n \<le> length a \<Longrightarrow> insertionsort a n = Some (sort (take n a) @ drop n a)"
  using insertion_loop_spec[of n a 1] sorted_perm_seg_eq unfolding insertionsort_def by fastforce

interpretation insertion: in_place_sort "CHR ''d''" insertionsort "\<lambda>xs. True"
  by unfold_locales (auto intro: insertionsort_eq_sort)

subsection \<open>The program\<close>

text \<open>
  \<open>insertionsort\<close> sorts in place: on any prefix of a buffer it returns
  the buffer with that prefix sorted and the rest untouched, so it makes no access outside the buffer,
  and ends. The whole program, on any sequence of well-formed test cases that fit the
  static buffer, prints each array as received and then sorted.
\<close>

lemma insertionsort_correct:
  "(\<forall>a n. n \<le> length a \<longrightarrow> insertionsort a n = Some (sort (take n a) @ drop n a))
   \<and> (\<forall>xss. (\<forall>xs\<in>set xss. length xs \<le> MAX_ARR_SZ \<and> list_all in_int xs) \<longrightarrow>
        insertionsort_main (concat (map show_case xss)) = Some (sort_banner @ concat (map expected_case xss)))"
proof (intro conjI allI impI)
  show "insertionsort a n = Some (sort (take n a) @ drop n a)" if "n \<le> length a" for a n
    using that by (auto intro: insertionsort_eq_sort)
  show "insertionsort_main (concat (map show_case xss)) = Some (sort_banner @ concat (map expected_case xss))"
    if "\<forall>xs\<in>set xss. length xs \<le> MAX_ARR_SZ \<and> list_all in_int xs" for xss
    unfolding insertionsort_main_def using that
    by (intro insertion.main_correct) (auto simp: list_all_iff conv_ok_def)
qed

end
