(* ===== verification/Quick_Sort.thy ===== *)
theory Quick_Sort
  imports Sort_Driver
begin

text \<open>
  \<open>DS_Algos/sorting/quicksort/quicksort.c\<close>: the partition around the middle element, its
  assertion included, and the recursion over half-open index ranges.
\<close>

function partition_loop :: "int list \<Rightarrow> nat \<Rightarrow> nat \<Rightarrow> nat \<Rightarrow> nat \<Rightarrow> (int list \<times> nat) c" where
  "partition_loop arr low high i cursor =
     (if i < high then
        do { x \<leftarrow> rd arr i;
             p \<leftarrow> rd arr low;
             if x \<le> p
             then do { arr' \<leftarrow> swap arr i cursor; partition_loop arr' low high (i + 1) (cursor + 1) }
             else partition_loop arr low high (i + 1) cursor }
      else Some (arr, cursor))"
  by pat_completeness auto
termination by (relation "measure (\<lambda>(arr, low, high, i, cursor). high - i)") auto

declare partition_loop.simps [simp del]

definition partition_c :: "int list \<Rightarrow> nat \<Rightarrow> nat \<Rightarrow> nat \<Rightarrow> (int list \<times> nat) c" where
  "partition_c arr low high pivot =
     do { _ \<leftarrow> c_assert (low \<le> pivot \<and> pivot < high);
          arr1 \<leftarrow> swap arr low pivot;
          (arr2, cursor) \<leftarrow> partition_loop arr1 low high (low + 1) (low + 1);
          arr3 \<leftarrow> swap arr2 low (cursor - 1);
          Some (arr3, cursor - 1) }"

lemma partition_loop_cursor:
  "partition_loop arr low high i cursor = Some (b, c) \<Longrightarrow> cursor \<le> i \<Longrightarrow> i \<le> high \<Longrightarrow> cursor \<le> c \<and> c \<le> high"
proof (induction arr low high i cursor rule: partition_loop.induct)
  case (1 arr low high i cursor)
  show ?case
  proof (cases "i < high")
    case False
    with "1.prems" show ?thesis by (subst (asm) partition_loop.simps) simp
  next
    case True
    from "1.prems"(1) True obtain x p where xp: "rd arr i = Some x" "rd arr low = Some p"
      "(if x \<le> p then swap arr i cursor \<bind> (\<lambda>arr'. partition_loop arr' low high (i + 1) (cursor + 1))
        else partition_loop arr low high (i + 1) cursor) = Some (b, c)"
      by (subst (asm) partition_loop.simps) (auto simp: bind_eq_Some_conv)
    show ?thesis
    proof (cases "x \<le> p")
      case le: True
      with xp obtain arr' where "swap arr i cursor = Some arr'"
        "partition_loop arr' low high (i + 1) (cursor + 1) = Some (b, c)" by (auto simp: bind_eq_Some_conv)
      with "1.IH"(1)[OF True xp(1,2) le, of arr'] "1.prems" True show ?thesis by simp
    next
      case False
      with xp "1.IH"(2)[OF True xp(1,2) False] "1.prems" True show ?thesis by simp
    qed
  qed
qed

lemma partition_c_range: "partition_c arr low high p = Some (b, c) \<Longrightarrow> low \<le> c \<and> c < high"
  using partition_loop_cursor[of _ low high "low + 1" "low + 1"]
  by (fastforce simp: partition_c_def bind_eq_Some_conv c_assert_eq_Some_iff)

function quicksort_aux :: "int list \<Rightarrow> nat \<Rightarrow> nat \<Rightarrow> int list c" where
  "quicksort_aux arr low high =
     (if high < low \<or> high - low \<le> 1 then Some arr
      else do { (arr1, pivot) \<leftarrow> partition_c arr low high ((low + high) div 2);
                arr2 \<leftarrow> quicksort_aux arr1 low pivot;
                quicksort_aux arr2 (pivot + 1) high })"
  by pat_completeness auto
termination
  by (relation "measure (\<lambda>(arr, low, high). high - low)") (auto dest: partition_c_range)

declare quicksort_aux.simps [simp del]

definition quicksort :: "int list \<Rightarrow> nat \<Rightarrow> int list c" where
  "quicksort arr arr_sz = quicksort_aux arr 0 arr_sz"

definition quicksort_main :: "string \<Rightarrow> string c" where
  "quicksort_main input = sort_main CHR ''d'' quicksort input"

subsection \<open>The partition\<close>

lemma partition_loop_spec:
  assumes "high \<le> length arr" "low < cursor" "cursor \<le> i" "i \<le> high"
    "\<And>k. low < k \<Longrightarrow> k < cursor \<Longrightarrow> arr ! k \<le> arr ! low"
    "\<And>k. cursor \<le> k \<Longrightarrow> k < i \<Longrightarrow> arr ! low < arr ! k"
  shows "\<exists>b c. partition_loop arr low high i cursor = Some (b, c) \<and> perm_seg (low + 1) high arr b
      \<and> low < c \<and> c \<le> high \<and> (\<forall>k. low < k \<and> k < c \<longrightarrow> b ! k \<le> arr ! low)
      \<and> (\<forall>k. c \<le> k \<and> k < high \<longrightarrow> arr ! low < b ! k)"
  using assms
proof (induction arr low high i cursor rule: partition_loop.induct)
  case (1 arr low high i cursor)
  consider (exit) "\<not> i < high" | (le) "i < high" "arr ! i \<le> arr ! low" | (gt) "i < high" "\<not> arr ! i \<le> arr ! low"
    by blast
  then show ?case
  proof cases
    case exit
    with "1.prems" show ?thesis by (subst partition_loop.simps) auto
  next
    case le
    let ?a = "arr[i := arr ! cursor, cursor := arr ! i]"
    have sw: "swap arr i cursor = Some ?a" and lo: "?a ! low = arr ! low"
      using le "1.prems" by simp_all
    have p: "perm_seg (low + 1) high arr ?a" using le "1.prems" by (intro perm_seg_swap) auto
    have "\<exists>b c. partition_loop ?a low high (i + 1) (cursor + 1) = Some (b, c) \<and> perm_seg (low + 1) high ?a b
      \<and> low < c \<and> c \<le> high \<and> (\<forall>k. low < k \<and> k < c \<longrightarrow> b ! k \<le> ?a ! low)
      \<and> (\<forall>k. c \<le> k \<and> k < high \<longrightarrow> ?a ! low < b ! k)"
    proof (rule "1.IH"(1)[of "arr ! i" "arr ! low"])
      show "?a ! k \<le> ?a ! low" if "low < k" "k < cursor + 1" for k
        using that le "1.prems" by (auto simp: lo nth_list_update less_Suc_eq)
      show "?a ! low < ?a ! k" if "cursor + 1 \<le> k" "k < i + 1" for k
        using that le "1.prems" by (auto simp: lo nth_list_update less_Suc_eq)
    qed (use le "1.prems" in auto)
    moreover have "partition_loop arr low high i cursor = partition_loop ?a low high (i + 1) (cursor + 1)"
      using le "1.prems" by (subst partition_loop.simps) simp
    ultimately show ?thesis using p lo by (auto intro: perm_seg_trans)
  next
    case gt
    have "\<exists>b c. partition_loop arr low high (i + 1) cursor = Some (b, c) \<and> perm_seg (low + 1) high arr b
      \<and> low < c \<and> c \<le> high \<and> (\<forall>k. low < k \<and> k < c \<longrightarrow> b ! k \<le> arr ! low)
      \<and> (\<forall>k. c \<le> k \<and> k < high \<longrightarrow> arr ! low < b ! k)"
      using gt "1.prems" by (intro "1.IH"(2)[of "arr ! i" "arr ! low"]) (auto simp: less_Suc_eq)
    moreover have "partition_loop arr low high i cursor = partition_loop arr low high (i + 1) cursor"
      using gt "1.prems" by (subst partition_loop.simps) simp
    ultimately show ?thesis by simp
  qed
qed

lemma partition_c_spec:
  assumes "high \<le> length arr" "low \<le> pivot" "pivot < high"
  shows "\<exists>b c. partition_c arr low high pivot = Some (b, c) \<and> perm_seg low high arr b
      \<and> low \<le> c \<and> c < high \<and> (\<forall>k. low \<le> k \<and> k < c \<longrightarrow> b ! k \<le> b ! c)
      \<and> (\<forall>k. c < k \<and> k < high \<longrightarrow> b ! c < b ! k)"
proof -
  let ?a = "arr[low := arr ! pivot, pivot := arr ! low]"
  have p1: "perm_seg low high arr ?a" using assms by (intro perm_seg_swap) auto
  obtain b c where l: "partition_loop ?a low high (low + 1) (low + 1) = Some (b, c)"
    "perm_seg (low + 1) high ?a b" "low < c" "c \<le> high"
    "\<And>k. low < k \<Longrightarrow> k < c \<Longrightarrow> b ! k \<le> ?a ! low" "\<And>k. c \<le> k \<Longrightarrow> k < high \<Longrightarrow> ?a ! low < b ! k"
    using partition_loop_spec[of high ?a low "low + 1" "low + 1"] assms by auto
  have lb: "length b = length arr" using perm_seg_length[OF l(2)] by simp
  have lo: "b ! low = ?a ! low" using perm_seg_outside[OF l(2), of low] assms by simp
  let ?b = "b[low := b ! (c - 1), c - 1 := b ! low]"
  have "partition_c arr low high pivot = Some (?b, c - 1)"
    using assms l lb by (simp add: partition_c_def)
  moreover have "perm_seg low high b ?b" using assms l lb by (intro perm_seg_swap) auto
  then have "perm_seg low high arr ?b"
    using p1 perm_seg_mono[OF l(2), of low high] by (meson le_add1 order_refl perm_seg_trans)
  moreover have "?b ! k \<le> ?b ! (c - 1)" if "low \<le> k" "k < c - 1" for k
    using that l(3-5) lb assms lo by (cases "k = low") (auto simp: nth_list_update)
  moreover have "?b ! (c - 1) < ?b ! k" if "c - 1 < k" "k < high" for k
    using that l(3,4,6) lb assms lo by (auto simp: nth_list_update)
  moreover have "low \<le> c - 1" "c - 1 < high" using l(3,4) by arith+
  ultimately show ?thesis by blast
qed

subsection \<open>The recursion\<close>

lemma quicksort_aux_spec:
  assumes "high \<le> length arr"
  shows "\<exists>b. quicksort_aux arr low high = Some b \<and> perm_seg low high arr b \<and> sorted_seg low high b"
  using assms
proof (induction "high - low" arbitrary: arr low high rule: less_induct)
  case less
  show ?case
  proof (cases "high < low \<or> high - low \<le> 1")
    case True
    then show ?thesis by (subst quicksort_aux.simps) auto
  next
    case False
    then have mid: "low \<le> (low + high) div 2" "(low + high) div 2 < high" by arith+
    obtain a p where part: "partition_c arr low high ((low + high) div 2) = Some (a, p)"
      and p: "low \<le> p" "p < high" and pa: "perm_seg low high arr a"
      and below: "\<And>k. low \<le> k \<Longrightarrow> k < p \<Longrightarrow> a ! k \<le> a ! p"
      and above: "\<And>k. p < k \<Longrightarrow> k < high \<Longrightarrow> a ! p < a ! k"
      using partition_c_spec[OF less.prems mid] by auto
    have la: "length a = length arr" using pa by (rule perm_seg_length)
    obtain b where b: "quicksort_aux a low p = Some b" "perm_seg low p a b" "sorted_seg low p b"
      using less.hyps[of p low a] p less.prems la by (metis diff_less_mono dual_order.strict_trans1 less_imp_le order.trans)
    have lb: "length b = length arr" using perm_seg_length[OF b(2)] la by simp
    have dec: "high - (p + 1) < high - low" using p by arith
    obtain d where d: "quicksort_aux b (p + 1) high = Some d" "perm_seg (p + 1) high b d"
      "sorted_seg (p + 1) high d"
      using less.hyps[OF dec, of b] less.prems lb by auto
    have "quicksort_aux arr low high = Some d"
      using False part b d by (subst quicksort_aux.simps) simp
    moreover have "perm_seg low high arr d"
      using pa perm_seg_mono[OF b(2), of low high] perm_seg_mono[OF d(2), of low high] p
      by (meson le_add1 le_trans less_imp_le order_refl perm_seg_trans)
    moreover have "sorted_seg low high d"
    proof -
      have pv: "b ! p = a ! p" "d ! p = a ! p"
        using perm_seg_outside[OF b(2), of p] perm_seg_outside[OF d(2), of p] p less.prems la lb by auto
      have left: "d ! k = b ! k" if "k \<le> p" for k
        using perm_seg_outside[OF d(2), of k] that p less.prems lb by simp
      have lo: "d ! k \<le> d ! p" if "low \<le> k" "k < p" for k
        using perm_seg_ball[OF b(2), of "\<lambda>x. x \<le> a ! p" k] below that p less.prems la
        by (simp add: left pv)
      have right: "b ! k = a ! k" if "p \<le> k" "k < high" for k
        using perm_seg_outside[OF b(2), of k] that less.prems la by simp
      have hi: "d ! p \<le> d ! k" if "p < k" "k < high" for k
        using perm_seg_ball[OF d(2), of "\<lambda>x. a ! p < x" k] above right that p less.prems lb
        by (simp add: pv less_imp_le)
      show ?thesis
        unfolding sorted_seg_def
      proof (intro allI impI)
        fix i j assume ij: "low \<le> i \<and> i \<le> j \<and> j < high"
        consider "j < p" | "i \<le> p" "p \<le> j" | "p < i" using ij by linarith
        then show "d ! i \<le> d ! j"
        proof cases
          case 1
          then show ?thesis using ij b(3) by (simp add: left sorted_seg_def)
        next
          case 2
          have "d ! i \<le> d ! p" using lo[of i] ij 2 by (cases "i = p") auto
          also have "d ! p \<le> d ! j" using hi[of j] ij 2 by (cases "j = p") auto
          finally show ?thesis .
        next
          case 3
          then show ?thesis using ij d(3) by (simp add: sorted_seg_def)
        qed
      qed
    qed
    ultimately show ?thesis by blast
  qed
qed

lemma quicksort_eq_sort: "n \<le> length a \<Longrightarrow> quicksort a n = Some (sort (take n a) @ drop n a)"
  using quicksort_aux_spec[of n a 0] sorted_perm_seg_eq unfolding quicksort_def by blast

interpretation quick: in_place_sort "CHR ''d''" quicksort "\<lambda>xs. True"
  by unfold_locales (auto intro: quicksort_eq_sort)

subsection \<open>The program\<close>

text \<open>
  Property C22. \<open>quicksort\<close> sorts in place: on any prefix of a buffer it returns
  the buffer with that prefix sorted and the rest untouched, so it makes no access outside the buffer,
  fails none of its assertions and ends. The whole program, on any sequence of well-formed test cases that fit the
  static buffer, prints each array as received and then sorted.
\<close>

theorem quicksort_correct:
  "(\<forall>a n. n \<le> length a \<longrightarrow> quicksort a n = Some (sort (take n a) @ drop n a))
   \<and> (\<forall>xss. (\<forall>xs\<in>set xss. length xs \<le> MAX_ARR_SZ \<and> list_all in_int xs) \<longrightarrow>
        quicksort_main (concat (map show_case xss)) = Some (sort_banner @ concat (map expected_case xss)))"
proof (intro conjI allI impI)
  show "quicksort a n = Some (sort (take n a) @ drop n a)" if "n \<le> length a" for a n
    using that by (auto intro: quicksort_eq_sort)
  show "quicksort_main (concat (map show_case xss)) = Some (sort_banner @ concat (map expected_case xss))"
    if "\<forall>xs\<in>set xss. length xs \<le> MAX_ARR_SZ \<and> list_all in_int xs" for xss
    unfolding quicksort_main_def using that
    by (intro quick.main_correct) (auto simp: list_all_iff conv_ok_def)
qed

theorem quicksort_correct_witness:
  "quicksort [3, 1, 2, 0] 3 = Some [1, 2, 3, 0]
   \<and> quicksort_main ''3 30 -1 2\<newline>1 7\<newline>'' = Some (sort_banner
        @ ''Received: 30 -1 2 \<newline>Sorted: -1 2 30 \<newline>Received: 7 \<newline>Sorted: 7 \<newline>'')"
proof
  show "quicksort [3, 1, 2, 0] 3 = Some [1, 2, 3, 0]"
    using conjunct1[OF quicksort_correct, rule_format, of 3 "[3, 1, 2, 0]"] by simp
  show "quicksort_main ''3 30 -1 2\<newline>1 7\<newline>'' = Some (sort_banner
        @ ''Received: 30 -1 2 \<newline>Sorted: -1 2 30 \<newline>Received: 7 \<newline>Sorted: 7 \<newline>'')"
    using conjunct2[OF quicksort_correct, rule_format, of sample_cases] sample_cases_ok
    by (simp add: sample_cases_text)
qed

end
