(* ===== verification/Merge_Sort.thy ===== *)
theory Merge_Sort
  imports Sort_Driver
begin

text \<open>
  \<open>DS_Algos/sorting/mergesort/mergesort.c\<close>. The auxiliary array is allocated uninitialised, so
  its elements are \<open>option\<close> values: \<open>None\<close> is an indeterminate value, whose use is
  undefined. The two merge loops are \<open>merge_loop\<close> and \<open>copy_loop\<close>; together they
  compute the list function \<open>merge2\<close>, which breaks ties the way the code does.
\<close>

definition rd_init :: "int option list \<Rightarrow> nat \<Rightarrow> int c" where
  "rd_init h i = do { x \<leftarrow> rd h i; x }"

text \<open>\<open>memcpy(&helper[low], &arr[low], sizeof(arr[0])*n)\<close>\<close>

definition memcpy_at :: "int option list \<Rightarrow> int list \<Rightarrow> nat \<Rightarrow> nat \<Rightarrow> int option list c" where
  "memcpy_at helper arr low n =
     (if low + n \<le> length helper \<and> low + n \<le> length arr
      then Some (take low helper @ map Some (take n (drop low arr)) @ drop (low + n) helper)
      else None)"

function merge_loop ::
  "int list \<Rightarrow> int option list \<Rightarrow> nat \<Rightarrow> nat \<Rightarrow> nat \<Rightarrow> nat \<Rightarrow> nat \<Rightarrow> (int list \<times> nat \<times> nat) c" where
  "merge_loop arr helper middle high left_i right_i cursor =
     (if left_i < middle + 1 \<and> right_i < high + 1 then
        do { x \<leftarrow> rd_init helper left_i;
             y \<leftarrow> rd_init helper right_i;
             if x < y
             then do { arr' \<leftarrow> wr arr cursor x;
                       merge_loop arr' helper middle high (left_i + 1) right_i (cursor + 1) }
             else do { arr' \<leftarrow> wr arr cursor y;
                       merge_loop arr' helper middle high left_i (right_i + 1) (cursor + 1) } }
      else Some (arr, left_i, cursor))"
  by pat_completeness auto
termination
  by (relation "measure (\<lambda>(arr, helper, middle, high, left_i, right_i, cursor).
        (middle + 1 - left_i) + (high + 1 - right_i))") auto

function copy_loop :: "int list \<Rightarrow> int option list \<Rightarrow> nat \<Rightarrow> nat \<Rightarrow> nat \<Rightarrow> int list c" where
  "copy_loop arr helper middle left_i cursor =
     (if left_i < middle + 1 then
        do { x \<leftarrow> rd_init helper left_i;
             arr' \<leftarrow> wr arr cursor x;
             copy_loop arr' helper middle (left_i + 1) (cursor + 1) }
      else Some arr)"
  by pat_completeness auto
termination by (relation "measure (\<lambda>(arr, helper, middle, left_i, cursor). middle + 1 - left_i)") auto

declare merge_loop.simps [simp del]
declare copy_loop.simps [simp del]

function mergesort_aux ::
  "int list \<Rightarrow> nat \<Rightarrow> nat \<Rightarrow> int option list \<Rightarrow> (int list \<times> int option list) c" where
  "mergesort_aux arr low high helper =
     (if low \<ge> high then Some (arr, helper)
      else do { let middle = (low + high) div 2;
                (arr1, helper1) \<leftarrow> mergesort_aux arr low middle helper;
                (arr2, helper2) \<leftarrow> mergesort_aux arr1 (middle + 1) high helper1;
                helper3 \<leftarrow> memcpy_at helper2 arr2 low (high - low + 1);
                (arr3, left_i, cursor) \<leftarrow> merge_loop arr2 helper3 middle high low (middle + 1) low;
                arr4 \<leftarrow> copy_loop arr3 helper3 middle left_i cursor;
                Some (arr4, helper3) })"
  by pat_completeness auto
termination by (relation "measure (\<lambda>(arr, low, high, helper). high - low)") auto

declare mergesort_aux.simps [simp del]

definition mergesort :: "int list \<Rightarrow> nat \<Rightarrow> int list c" where
  "mergesort arr arr_sz =
     do { _ \<leftarrow> c_assert (arr_sz > 0);
          (arr', aux) \<leftarrow> mergesort_aux arr 0 (arr_sz - 1) (replicate arr_sz None);
          Some arr' }"

definition mergesort_main :: "string \<Rightarrow> string c" where
  "mergesort_main input = sort_main CHR ''d'' mergesort input"

subsection \<open>The merge as a list function\<close>

fun merge2 :: "int list \<Rightarrow> int list \<Rightarrow> int list" where
  "merge2 [] ys = ys"
| "merge2 xs [] = xs"
| "merge2 (x # xs) (y # ys) = (if x < y then x # merge2 xs (y # ys) else y # merge2 (x # xs) ys)"

lemma merge2_Nil [simp]: "merge2 xs [] = xs"
  by (cases xs) simp_all

lemma mset_merge2: "mset (merge2 xs ys) = mset xs + mset ys"
  by (induction xs ys rule: merge2.induct) auto

lemma set_merge2: "set (merge2 xs ys) = set xs \<union> set ys"
  by (metis mset_merge2 set_mset_mset set_mset_union)

lemma sorted_merge2: "sorted xs \<Longrightarrow> sorted ys \<Longrightarrow> sorted (merge2 xs ys)"
  by (induction xs ys rule: merge2.induct) (auto simp: set_merge2)

text \<open>\<open>helper\<close> holds the values of \<open>a\<close> at the indices from \<open>lo\<close> below \<open>hi\<close>.\<close>

definition holds :: "int option list \<Rightarrow> int list \<Rightarrow> nat \<Rightarrow> nat \<Rightarrow> bool" where
  "holds helper a lo hi \<longleftrightarrow> hi \<le> length a \<and> (\<forall>k. lo \<le> k \<and> k < hi \<longrightarrow> rd_init helper k = Some (a ! k))"

lemma holds_rd: "holds h a lo hi \<Longrightarrow> lo \<le> k \<Longrightarrow> k < hi \<Longrightarrow> rd_init h k = Some (a ! k)"
  by (simp add: holds_def)

lemma holds_mono: "holds h a lo hi \<Longrightarrow> lo \<le> lo' \<Longrightarrow> holds h a lo' hi"
  by (simp add: holds_def)

lemma holds_memcpy:
  assumes "memcpy_at helper a low n = Some h"
  shows "holds h a low (low + n)" "length h = length helper"
proof -
  have b: "low + n \<le> length helper" "low + n \<le> length a"
    and h: "h = take low helper @ map Some (take n (drop low a)) @ drop (low + n) helper"
    using assms by (auto simp: memcpy_at_def split: if_splits)
  show "length h = length helper" using b by (simp add: h)
  have "h ! k = Some (a ! k) \<and> k < length h" if "low \<le> k" "k < low + n" for k
    using that b by (auto simp: h nth_append)
  then show "holds h a low (low + n)" using b by (simp add: holds_def rd_init_def)
qed

lemma copy_loop_eq:
  assumes "holds h a left_i (middle + 1)" "cursor + (middle + 1 - left_i) \<le> length arr"
  shows "copy_loop arr h middle left_i cursor
      = Some (splice_seg cursor (cursor + (middle + 1 - left_i)) arr (seg left_i (middle + 1) a))"
  using assms
proof (induction arr h middle left_i cursor rule: copy_loop.induct)
  case (1 arr h middle left_i cursor)
  show ?case
  proof (cases "left_i < middle + 1")
    case True
    let ?x = "a ! left_i" and ?e = "cursor + (middle + 1 - left_i)"
    have x: "rd_init h left_i = Some ?x" using True "1.prems" by (simp add: holds_rd)
    have "copy_loop arr h middle left_i cursor = copy_loop (arr[cursor := ?x]) h middle (left_i + 1) (cursor + 1)"
      using True "1.prems" x by (subst copy_loop.simps) simp
    also have "\<dots> = Some (splice_seg (cursor + 1) (cursor + 1 + (middle + 1 - (left_i + 1)))
        (arr[cursor := ?x]) (seg (left_i + 1) (middle + 1) a))"
      using True "1.prems" x by (intro "1.IH"[of ?x]) (auto intro: holds_mono)
    also have "\<dots> = Some (splice_seg cursor ?e arr (?x # seg (left_i + 1) (middle + 1) a))"
      using True "1.prems" by (simp add: splice_seg_def take_Suc_conv_app_nth Suc_diff_le)
    also have "?x # seg (left_i + 1) (middle + 1) a = seg left_i (middle + 1) a"
      using True "1.prems" by (simp add: seg_Cons holds_def)
    finally show ?thesis .
  next
    case False
    then show ?thesis by (subst copy_loop.simps) (simp add: splice_seg_def)
  qed
qed

definition merge_loops :: "int list \<Rightarrow> int option list \<Rightarrow> nat \<Rightarrow> nat \<Rightarrow> nat \<Rightarrow> nat \<Rightarrow> nat \<Rightarrow> int list c" where
  "merge_loops arr helper middle high left_i right_i cursor =
     do { (arr', left_i', cursor') \<leftarrow> merge_loop arr helper middle high left_i right_i cursor;
          copy_loop arr' helper middle left_i' cursor' }"

lemma merge_loops_step:
  assumes "left_i < middle + 1" "right_i < high + 1"
    "rd_init h left_i = Some x" "rd_init h right_i = Some y" "cursor < length arr"
  shows "merge_loops arr h middle high left_i right_i cursor =
     (if x < y then merge_loops (arr[cursor := x]) h middle high (left_i + 1) right_i (cursor + 1)
      else merge_loops (arr[cursor := y]) h middle high left_i (right_i + 1) (cursor + 1))"
  unfolding merge_loops_def using assms by (subst merge_loop.simps) simp

lemma splice_seg_write:
  "c < hi \<Longrightarrow> hi \<le> length a \<Longrightarrow> splice_seg (c + 1) hi (a[c := x]) xs = splice_seg c hi a (x # xs)"
  by (simp add: splice_seg_def take_Suc_conv_app_nth)

lemma merge_loops_eq:
  assumes "holds h a left_i (middle + 1)" "holds h a right_i (high + 1)" "high < length arr"
    "left_i \<le> middle + 1" "middle + 1 \<le> right_i" "right_i \<le> high + 1"
    "cursor + (middle + 1) = left_i + right_i" "seg right_i (high + 1) arr = seg right_i (high + 1) a"
  shows "merge_loops arr h middle high left_i right_i cursor
      = Some (splice_seg cursor (high + 1) arr
          (merge2 (seg left_i (middle + 1) a) (seg right_i (high + 1) a)))"
  using assms
proof (induction "(middle + 1 - left_i) + (high + 1 - right_i)" arbitrary: arr left_i right_i cursor rule: less_induct)
  case less
  let ?L = "seg left_i (middle + 1) a" and ?R = "seg right_i (high + 1) a"
  have hi: "high + 1 \<le> length a" "middle + 1 \<le> length a" using less.prems by (simp_all add: holds_def)
  show ?case
  proof (cases "left_i < middle + 1 \<and> right_i < high + 1")
    case True
    define x y where "x = a ! left_i" and "y = a ! right_i"
    have L: "?L = x # seg (left_i + 1) (middle + 1) a"
      and R: "?R = y # seg (right_i + 1) (high + 1) a"
      using True hi by (simp_all add: seg_Cons x_def y_def)
    have c: "cursor < right_i" "cursor < length arr" using True less.prems by linarith+
    have keep: "seg k (high + 1) (arr[cursor := v]) = seg k (high + 1) a" if "right_i \<le> k" for k v
    proof -
      have "seg k (high + 1) b = drop (k - right_i) (seg right_i (high + 1) b)" for b :: "int list"
        using that by (simp add: seg_def drop_take)
      moreover have "seg right_i (high + 1) (arr[cursor := v]) = seg right_i (high + 1) arr"
        using c by (simp add: seg_def)
      ultimately show ?thesis using less.prems(8) by simp
    qed
    have step: "merge_loops arr h middle high left_i right_i cursor =
     (if x < y then merge_loops (arr[cursor := x]) h middle high (left_i + 1) right_i (cursor + 1)
      else merge_loops (arr[cursor := y]) h middle high left_i (right_i + 1) (cursor + 1))"
      using True c less.prems by (intro merge_loops_step) (simp_all add: holds_rd x_def y_def)
    show ?thesis
    proof (cases "x < y")
      case True
      have "merge_loops (arr[cursor := x]) h middle high (left_i + 1) right_i (cursor + 1)
        = Some (splice_seg (cursor + 1) (high + 1) (arr[cursor := x]) (merge2 (seg (left_i + 1) (middle + 1) a) ?R))"
        using \<open>left_i < middle + 1 \<and> _\<close> less.prems keep[of right_i]
        by (intro less.hyps) (auto intro: holds_mono)
      with True step c less.prems L R show ?thesis by (simp add: splice_seg_write del: One_nat_def)
    next
      case False
      have "merge_loops (arr[cursor := y]) h middle high left_i (right_i + 1) (cursor + 1)
        = Some (splice_seg (cursor + 1) (high + 1) (arr[cursor := y]) (merge2 ?L (seg (right_i + 1) (high + 1) a)))"
        using \<open>left_i < middle + 1 \<and> _\<close> less.prems keep[of "right_i + 1"]
        by (intro less.hyps) (auto intro: holds_mono)
      with False step c less.prems L R show ?thesis by (simp add: splice_seg_write del: One_nat_def)
    qed
  next
    case False
    then have "merge_loops arr h middle high left_i right_i cursor = copy_loop arr h middle left_i cursor"
      unfolding merge_loops_def by (subst merge_loop.simps) auto
    also have "\<dots> = Some (splice_seg cursor right_i arr ?L)"
      using less.prems copy_loop_eq[of h a left_i middle cursor arr] by simp
    also have "splice_seg cursor right_i arr ?L = splice_seg cursor (high + 1) arr (merge2 ?L ?R)"
    proof (cases "left_i < middle + 1")
      case True
      with False less.prems have "right_i = high + 1" by simp
      then show ?thesis by simp
    next
      case no_left: False
      then have "cursor = right_i" using less.prems by linarith
      moreover have "drop right_i arr = ?R @ drop (high + 1) arr"
        using append_seg[of right_i "high + 1" arr] less.prems(6,8)
        by (metis append_eq_append_conv append_take_drop_id)
      ultimately show ?thesis using no_left by (simp add: splice_seg_def)
    qed
    finally show ?thesis .
  qed
qed

lemma mergesort_aux_unfold:
  "low < high \<Longrightarrow> mergesort_aux arr low high helper =
     do { (arr1, helper1) \<leftarrow> mergesort_aux arr low ((low + high) div 2) helper;
          (arr2, helper2) \<leftarrow> mergesort_aux arr1 ((low + high) div 2 + 1) high helper1;
          helper3 \<leftarrow> memcpy_at helper2 arr2 low (high - low + 1);
          arr4 \<leftarrow> merge_loops arr2 helper3 ((low + high) div 2) high low ((low + high) div 2 + 1) low;
          Some (arr4, helper3) }"
  by (subst mergesort_aux.simps) (simp add: merge_loops_def Let_def split_def)

lemma mergesort_aux_spec:
  assumes "high < length arr" "high < length helper"
  shows "\<exists>b h. mergesort_aux arr low high helper = Some (b, h) \<and> length h = length helper
      \<and> perm_seg low (high + 1) arr b \<and> sorted_seg low (high + 1) b"
  using assms
proof (induction "high - low" arbitrary: arr low high helper rule: less_induct)
  case less
  show ?case
  proof (cases "low < high")
    case False
    then show ?thesis by (subst mergesort_aux.simps) simp
  next
    case True
    define mid where "mid = (low + high) div 2"
    have mid: "low \<le> mid" "mid < high" using True by (simp_all add: mid_def)
    then have dec: "mid - low < high - low" "high - (mid + 1) < high - low" by arith+
    obtain a1 h1 where 1: "mergesort_aux arr low mid helper = Some (a1, h1)" "length h1 = length helper"
      "perm_seg low (mid + 1) arr a1" "sorted_seg low (mid + 1) a1"
      using less.hyps[OF dec(1), of arr helper] mid less.prems by auto
    have l1: "length a1 = length arr" using 1(3) by (rule perm_seg_length)
    obtain a2 h2 where 2: "mergesort_aux a1 (mid + 1) high h1 = Some (a2, h2)" "length h2 = length helper"
      "perm_seg (mid + 1) (high + 1) a1 a2" "sorted_seg (mid + 1) (high + 1) a2"
      using less.hyps[OF dec(2), of a1 h1] mid less.prems 1 l1 by auto
    have l2: "length a2 = length arr" using perm_seg_length[OF 2(3)] l1 by simp
    have s1: "sorted_seg low (mid + 1) a2"
      using 1(4) perm_seg_outside[OF 2(3)] l1 less.prems mid by (auto simp: sorted_seg_def)
    obtain h3 where 3: "memcpy_at h2 a2 low (high - low + 1) = Some h3"
      using True less.prems l2 2(2) by (simp add: memcpy_at_def)
    have hold: "holds h3 a2 low (high + 1)" "length h3 = length helper"
      using holds_memcpy[OF 3] True 2(2) by simp_all
    define xs where "xs = merge2 (seg low (mid + 1) a2) (seg (mid + 1) (high + 1) a2)"
    have "merge_loops a2 h3 mid high low (mid + 1) low = Some (splice_seg low (high + 1) a2 xs)"
      unfolding xs_def using hold mid less.prems l2
      by (intro merge_loops_eq) (auto simp: holds_def)
    then have "mergesort_aux arr low high helper = Some (splice_seg low (high + 1) a2 xs, h3)"
      using True 1 2 3 by (simp add: mergesort_aux_unfold mid_def)
    moreover have ms: "mset xs = mset (seg low (high + 1) a2)"
      using mid seg_append[of low "mid + 1" "high + 1" a2] by (simp add: xs_def mset_merge2 flip: mset_append)
    then have "perm_seg low (high + 1) a2 (splice_seg low (high + 1) a2 xs)"
      using mid less.prems l2 by (intro splice_seg_perm) auto
    then have "perm_seg low (high + 1) arr (splice_seg low (high + 1) a2 xs)"
      using perm_seg_mono[OF 1(3), of low "high + 1"] perm_seg_mono[OF 2(3), of low "high + 1"] mid
      by (metis add_le_mono1 le_refl less_imp_le perm_seg_trans trans_le_add1)
    moreover have "sorted_seg low (high + 1) (splice_seg low (high + 1) a2 xs)"
    proof -
      have "sorted xs" unfolding xs_def using s1 2(4) mid less.prems l2
        by (intro sorted_merge2) (simp_all add: sorted_seg_iff)
      moreover have "length xs = high + 1 - low"
        using mset_eq_length[OF ms] less.prems l2 by simp
      ultimately show ?thesis
        using mid less.prems l2
        by (subst sorted_seg_iff[symmetric]) (simp_all add: seg_splice_seg, simp add: splice_seg_def)
    qed
    ultimately show ?thesis using hold(2) by blast
  qed
qed

lemma mergesort_eq_sort:
  assumes "n \<le> length a" "0 < n"
  shows "mergesort a n = Some (sort (take n a) @ drop n a)"
proof -
  have "n - 1 < length a" using assms by arith
  then obtain b h where "mergesort_aux a 0 (n - 1) (replicate n None) = Some (b, h)"
    "perm_seg 0 n a b" "sorted_seg 0 n b"
    using mergesort_aux_spec[of "n - 1" a "replicate n None" 0] assms by auto
  with assms show ?thesis by (simp add: mergesort_def sorted_perm_seg_eq)
qed

interpretation merge: in_place_sort "CHR ''d''" mergesort "\<lambda>xs. xs \<noteq> []"
  by unfold_locales (auto intro!: mergesort_eq_sort)

subsection \<open>The program\<close>

text \<open>
  Property C23. \<open>mergesort\<close> sorts in place: on any non-empty prefix of a buffer it returns
  the buffer with that prefix sorted and the rest untouched, so it makes no access outside the buffer,
  reads no uninitialised element of its scratch array, fails no assertion and ends. The whole program, on any sequence of well-formed test cases that fit the
  static buffer and are not empty, prints each array as received and then sorted.
\<close>

theorem mergesort_correct:
  "(\<forall>a n. n \<le> length a \<and> 0 < n \<longrightarrow> mergesort a n = Some (sort (take n a) @ drop n a))
   \<and> (\<forall>xss. (\<forall>xs\<in>set xss. length xs \<le> MAX_ARR_SZ \<and> xs \<noteq> [] \<and> list_all in_int xs) \<longrightarrow>
        mergesort_main (concat (map show_case xss)) = Some (sort_banner @ concat (map expected_case xss)))"
proof (intro conjI allI impI)
  show "mergesort a n = Some (sort (take n a) @ drop n a)" if "n \<le> length a \<and> 0 < n" for a n
    using that by (auto intro: mergesort_eq_sort)
  show "mergesort_main (concat (map show_case xss)) = Some (sort_banner @ concat (map expected_case xss))"
    if "\<forall>xs\<in>set xss. length xs \<le> MAX_ARR_SZ \<and> xs \<noteq> [] \<and> list_all in_int xs" for xss
    unfolding mergesort_main_def using that
    by (intro merge.main_correct) (auto simp: list_all_iff conv_ok_def)
qed

theorem mergesort_correct_witness:
  "mergesort [3, 1, 2, 0] 3 = Some [1, 2, 3, 0]
   \<and> mergesort_main ''3 30 -1 2\<newline>1 7\<newline>'' = Some (sort_banner
        @ ''Received: 30 -1 2 \<newline>Sorted: -1 2 30 \<newline>Received: 7 \<newline>Sorted: 7 \<newline>'')"
proof
  show "mergesort [3, 1, 2, 0] 3 = Some [1, 2, 3, 0]"
    using conjunct1[OF mergesort_correct, rule_format, of 3 "[3, 1, 2, 0]"] by simp
  show "mergesort_main ''3 30 -1 2\<newline>1 7\<newline>'' = Some (sort_banner
        @ ''Received: 30 -1 2 \<newline>Sorted: -1 2 30 \<newline>Received: 7 \<newline>Sorted: 7 \<newline>'')"
    using conjunct2[OF mergesort_correct, rule_format, of sample_cases] sample_cases_ok
    by (simp add: sample_cases_text)
qed

end
