(* ===== verification/Heap_Sort.thy ===== *)
theory Heap_Sort
  imports Sort_Driver
begin

text \<open>
  \<open>DS_Algos/sorting/heapsort/heapsort.c\<close>: a binary max-heap in an array, built bottom-up and
  emptied from the root. \<open>pick_largest\<close> is the choice among a node and its children that the
  source writes before and at the end of the body of the \<open>while\<close> loop of
  \<open>max_heapify\<close>; the loop itself is the recursion.
\<close>

definition pick_largest :: "int list \<Rightarrow> nat \<Rightarrow> nat \<Rightarrow> nat c" where
  "pick_largest arr arr_sz i =
     do { let left = i * 2 + 1;
          let right = left + 1;
          largest \<leftarrow> (if left < arr_sz
                      then do { l \<leftarrow> rd arr left; x \<leftarrow> rd arr i; Some (if l \<ge> x then left else i) }
                      else Some i);
          (if right < arr_sz
           then do { r \<leftarrow> rd arr right; x \<leftarrow> rd arr largest; Some (if r \<ge> x then right else largest) }
           else Some largest) }"

lemma pick_largest_range:
  "pick_largest arr arr_sz i = Some l \<Longrightarrow> l = i \<or> i < l \<and> l < arr_sz"
  by (auto simp: pick_largest_def bind_eq_Some_conv split: if_splits)

function max_heapify :: "int list \<Rightarrow> nat \<Rightarrow> nat \<Rightarrow> int list c" where
  "max_heapify arr arr_sz i =
     do { largest \<leftarrow> pick_largest arr arr_sz i;
          if largest \<noteq> i
          then do { arr' \<leftarrow> swap arr i largest; max_heapify arr' arr_sz largest }
          else Some arr }"
  by pat_completeness auto
termination
  by (relation "measure (\<lambda>(arr, arr_sz, i). arr_sz - i)") (auto dest!: pick_largest_range)

declare max_heapify.simps [simp del]

fun build_loop :: "int list \<Rightarrow> nat \<Rightarrow> nat \<Rightarrow> int list c" where
  "build_loop arr arr_sz i =
     (if i > 0 then do { arr' \<leftarrow> max_heapify arr arr_sz i; build_loop arr' arr_sz (i - 1) }
      else max_heapify arr arr_sz i)"

declare build_loop.simps [simp del]

definition build_max_heap :: "int list \<Rightarrow> nat \<Rightarrow> int list c" where
  "build_max_heap arr arr_sz =
     do { _ \<leftarrow> c_assert (arr_sz > 0); build_loop arr arr_sz ((arr_sz - 1) div 2) }"

fun heapsort_loop :: "int list \<Rightarrow> nat \<Rightarrow> int list c" where
  "heapsort_loop arr arr_sz =
     (if arr_sz > 0 then
        do { arr' \<leftarrow> swap arr 0 (arr_sz - 1);
             arr'' \<leftarrow> max_heapify arr' (arr_sz - 1) 0;
             heapsort_loop arr'' (arr_sz - 1) }
      else Some arr)"

declare heapsort_loop.simps [simp del]

definition heapsort :: "int list \<Rightarrow> nat \<Rightarrow> int list c" where
  "heapsort arr arr_sz = do { arr' \<leftarrow> build_max_heap arr arr_sz; heapsort_loop arr' arr_sz }"

definition heapsort_main :: "string \<Rightarrow> string c" where
  "heapsort_main input = sort_main CHR ''d'' heapsort input"

subsection \<open>The heap order\<close>

text \<open>
  \<open>heap_from arr n m\<close>: among the first \<open>n\<close> elements, every child of a node from
  \<open>m\<close> on is at most its parent. \<open>heap_except\<close> excuses the children of \<open>i\<close>, which
  must then be at most the parent of \<open>i\<close>.
\<close>

definition child :: "nat \<Rightarrow> nat \<Rightarrow> bool" where
  "child p c \<longleftrightarrow> c = 2 * p + 1 \<or> c = 2 * p + 2"

definition heap_from :: "int list \<Rightarrow> nat \<Rightarrow> nat \<Rightarrow> bool" where
  "heap_from arr n m \<longleftrightarrow> (\<forall>p c. child p c \<and> m \<le> p \<and> c < n \<longrightarrow> arr ! c \<le> arr ! p)"

definition heap_except :: "int list \<Rightarrow> nat \<Rightarrow> nat \<Rightarrow> nat \<Rightarrow> bool" where
  "heap_except arr n m i \<longleftrightarrow>
     (\<forall>p c. child p c \<and> m \<le> p \<and> c < n \<and> p \<noteq> i \<longrightarrow> arr ! c \<le> arr ! p)
     \<and> (\<forall>p c. child p i \<and> child i c \<and> m \<le> p \<and> c < n \<longrightarrow> arr ! c \<le> arr ! p)"

lemma child_less: "child p c \<Longrightarrow> p < c"
  by (auto simp: child_def)

lemma child_unique: "child p c \<Longrightarrow> child q c \<Longrightarrow> p = q"
  by (auto simp: child_def)

lemma heap_from_except: "heap_from arr n (Suc i) \<Longrightarrow> heap_except arr n i i"
  by (auto simp: heap_from_def heap_except_def dest: child_less)

lemma pick_largest_spec:
  assumes "n \<le> length arr" "i < n \<or> n = 0"
  obtains l where "pick_largest arr n i = Some l" "l = i \<or> child i l \<and> l < n"
    "arr ! i \<le> arr ! l" "\<And>c. child i c \<Longrightarrow> c < n \<Longrightarrow> arr ! c \<le> arr ! l"
proof -
  consider (none) "n \<le> 2 * i + 1" | (one) "n = 2 * i + 2" | (two) "2 * i + 2 < n" by linarith
  then have "\<exists>l. pick_largest arr n i = Some l \<and> (l = i \<or> child i l \<and> l < n)
      \<and> arr ! i \<le> arr ! l \<and> (\<forall>c. child i c \<and> c < n \<longrightarrow> arr ! c \<le> arr ! l)"
  proof cases
    case none
    then show ?thesis by (auto simp: pick_largest_def child_def mult.commute)
  next
    case one
    with assms show ?thesis by (auto simp: pick_largest_def child_def mult.commute)
  next
    case two
    with assms show ?thesis by (auto simp: pick_largest_def child_def mult.commute)
  qed
  then show ?thesis using that by blast
qed

lemma heap_except_swap:
  assumes "heap_except arr n m i" "child i l" "l < n" "n \<le> length arr" "m \<le> i"
    "arr ! i \<le> arr ! l" "\<And>c. child i c \<Longrightarrow> c < n \<Longrightarrow> arr ! c \<le> arr ! l"
  shows "heap_except (arr[i := arr ! l, l := arr ! i]) n m l"
proof -
  let ?b = "arr[i := arr ! l, l := arr ! i]"
  have il: "i < l" using assms(2) by (rule child_less)
  have nth: "?b ! k = (if k = l then arr ! i else if k = i then arr ! l else arr ! k)" for k
    using il assms(3,4) by (auto simp: nth_list_update)
  have "?b ! c \<le> ?b ! p" if pc: "child p c" "m \<le> p" "c < n" "p \<noteq> l" for p c
  proof -
    consider "p = i" | "p \<noteq> i" "c = i" | "p \<noteq> i" "c \<noteq> i" by blast
    then show ?thesis
    proof cases
      case 1
      then show ?thesis using pc assms(6,7) il by (auto simp: nth)
    next
      case 2
      then have "arr ! l \<le> arr ! p" using pc assms(1-3) by (auto simp: heap_except_def)
      with 2 pc il show ?thesis by (simp add: nth)
    next
      case 3
      then have "c \<noteq> l" using pc assms(2) child_unique by blast
      with 3 pc assms(1) show ?thesis by (auto simp: nth heap_except_def)
    qed
  qed
  moreover have "?b ! c \<le> ?b ! p" if pc: "child p l" "child l c" "m \<le> p" "c < n" for p c
  proof -
    have "p = i" using pc(1) assms(2) by (rule child_unique)
    moreover have "arr ! c \<le> arr ! l" using pc assms(1,5) il by (auto simp: heap_except_def)
    ultimately show ?thesis using il child_less[OF pc(2)] by (simp add: nth)
  qed
  ultimately show ?thesis by (auto simp: heap_except_def)
qed

lemma max_heapify_spec:
  assumes "n \<le> length arr" "heap_except arr n m i" "m \<le> i" "i < n \<or> n = 0"
  shows "\<exists>b. max_heapify arr n i = Some b \<and> perm_seg i n arr b \<and> heap_from b n m"
  using assms
proof (induction arr n i rule: max_heapify.induct)
  case (1 arr n i)
  obtain l where l: "pick_largest arr n i = Some l" "l = i \<or> child i l \<and> l < n" "arr ! i \<le> arr ! l"
    "\<And>c. child i c \<Longrightarrow> c < n \<Longrightarrow> arr ! c \<le> arr ! l"
    using pick_largest_spec[OF "1.prems"(1,4)] by blast
  show ?case
  proof (cases "l = i")
    case True
    then have "heap_from arr n m" using l "1.prems"(2) by (auto simp: heap_from_def heap_except_def)
    with True l(1) show ?thesis by (subst max_heapify.simps) simp
  next
    case False
    let ?b = "arr[i := arr ! l, l := arr ! i]"
    have ch: "child i l" "l < n" "i < l" using False l(2) child_less by auto
    have sw: "swap arr i l = Some ?b" using ch "1.prems"(1) by simp
    have "heap_except ?b n m l" using "1.prems" ch l by (intro heap_except_swap) auto
    then obtain b where b: "max_heapify ?b n l = Some b" "perm_seg l n ?b b" "heap_from b n m"
      using "1.IH"[OF l(1) False sw] "1.prems" ch by auto
    have "max_heapify arr n i = Some b"
      using False l(1) sw b(1) by (subst max_heapify.simps) simp
    moreover have "perm_seg i n arr ?b" using ch "1.prems"(1) by (intro perm_seg_swap) auto
    then have "perm_seg i n arr b" using perm_seg_mono[OF b(2), of i n] ch by (auto intro: perm_seg_trans)
    ultimately show ?thesis using b(3) by blast
  qed
qed

lemma build_loop_spec:
  assumes "n \<le> length arr" "heap_from arr n (Suc i)" "i < n"
  shows "\<exists>b. build_loop arr n i = Some b \<and> perm_seg 0 n arr b \<and> heap_from b n 0"
  using assms
proof (induction arr n i rule: build_loop.induct)
  case (1 arr n i)
  obtain b where b: "max_heapify arr n i = Some b" "perm_seg i n arr b" "heap_from b n i"
    using max_heapify_spec[OF "1.prems"(1) heap_from_except[OF "1.prems"(2)]] "1.prems"(3) by auto
  have pb: "perm_seg 0 n arr b" using b(2) by (rule perm_seg_mono) auto
  show ?case
  proof (cases "i > 0")
    case True
    then have "\<exists>d. build_loop b n (i - 1) = Some d \<and> perm_seg 0 n b d \<and> heap_from d n 0"
      using b perm_seg_length[OF pb] "1.prems" by (intro "1.IH") auto
    with True b pb show ?thesis by (subst build_loop.simps) (auto intro: perm_seg_trans)
  next
    case False
    with b pb show ?thesis by (subst build_loop.simps) simp
  qed
qed

lemma heap_root_max:
  assumes "heap_from arr n 0" "i < n"
  shows "arr ! i \<le> arr ! 0"
  using assms(2)
proof (induction i rule: less_induct)
  case (less i)
  show ?case
  proof (cases "i = 0")
    case False
    then have c: "child ((i - 1) div 2) i" by (auto simp: child_def)
    then have "arr ! i \<le> arr ! ((i - 1) div 2)" using assms(1) less.prems by (auto simp: heap_from_def)
    also have "\<dots> \<le> arr ! 0" using less.IH[OF child_less[OF c]] less.prems child_less[OF c] by simp
    finally show ?thesis .
  qed simp
qed

subsection \<open>Emptying the heap\<close>

lemma heapsort_loop_spec:
  assumes "m \<le> n" "n \<le> length arr" "heap_from arr m 0" "sorted_seg m n arr"
    "\<And>i j. i < m \<Longrightarrow> m \<le> j \<Longrightarrow> j < n \<Longrightarrow> arr ! i \<le> arr ! j"
  shows "\<exists>b. heapsort_loop arr m = Some b \<and> perm_seg 0 n arr b \<and> sorted_seg 0 n b"
  using assms
proof (induction m arbitrary: arr)
  case 0
  then show ?case by (subst heapsort_loop.simps) simp
next
  case (Suc m)
  let ?a = "arr[0 := arr ! m, m := arr ! 0]"
  have len: "0 < length arr" "m < length arr" using Suc.prems by auto
  have pa: "perm_seg 0 n arr ?a" using len Suc.prems by (intro perm_seg_swap) auto
  have nth: "?a ! k = (if k = m then arr ! 0 else if k = 0 then arr ! m else arr ! k)" for k
    using len by (auto simp: nth_list_update)
  have "heap_except ?a m 0 0"
    unfolding heap_except_def
  proof (intro conjI allI impI)
    fix p c assume "child p c \<and> 0 \<le> p \<and> c < m \<and> p \<noteq> 0"
    then show "?a ! c \<le> ?a ! p"
      using Suc.prems(3) child_less[of p c] by (auto simp: nth heap_from_def)
  qed (auto dest: child_less)
  then obtain b where b: "max_heapify ?a m 0 = Some b" "perm_seg 0 m ?a b" "heap_from b m 0"
    using max_heapify_spec[of m ?a 0 0] Suc.prems by auto
  have out: "b ! k = ?a ! k" if "m \<le> k" "k < n" for k
    using perm_seg_outside[OF b(2), of k] that Suc.prems by simp
  have bound: "b ! i \<le> b ! j" if ij: "i < m" "m \<le> j" "j < n" for i j
  proof -
    have "?a ! k \<le> ?a ! j" if "k < m" for k
      using that ij heap_root_max[OF Suc.prems(3)] Suc.prems(5)[of _ j] by (cases "j = m") (auto simp: nth)
    then have "b ! i \<le> ?a ! j"
      using perm_seg_ball[OF b(2), of "\<lambda>x. x \<le> ?a ! j" i] ij Suc.prems by auto
    with out ij show ?thesis by simp
  qed
  have "sorted_seg m n b"
    unfolding sorted_seg_def
  proof (intro allI impI)
    fix i j assume ij: "m \<le> i \<and> i \<le> j \<and> j < n"
    then have "?a ! i \<le> ?a ! j"
      using Suc.prems(4) Suc.prems(5)[of 0 j] by (auto simp: nth sorted_seg_def)
    with ij out show "b ! i \<le> b ! j" by simp
  qed
  then obtain d where d: "heapsort_loop b m = Some d" "perm_seg 0 n b d" "sorted_seg 0 n d"
    using Suc.IH[of b] b(3) bound Suc.prems perm_seg_length[OF b(2)] by auto
  have "heapsort_loop arr (Suc m) = Some d"
    using b(1) d(1) len by (subst heapsort_loop.simps) simp
  moreover have "perm_seg 0 n arr d"
    using pa perm_seg_mono[OF b(2), of 0 n] d(2) Suc.prems(1) by (auto intro: perm_seg_trans)
  ultimately show ?case using d(3) by blast
qed

lemma heapsort_eq_sort:
  assumes "n \<le> length a" "0 < n"
  shows "heapsort a n = Some (sort (take n a) @ drop n a)"
proof -
  have "heap_from a n (Suc ((n - 1) div 2))" by (auto simp: heap_from_def child_def)
  moreover have "(n - 1) div 2 < n" using assms by linarith
  ultimately obtain h where h: "build_loop a n ((n - 1) div 2) = Some h" "perm_seg 0 n a h" "heap_from h n 0"
    using build_loop_spec[OF assms(1)] by blast
  obtain b where b: "heapsort_loop h n = Some b" "perm_seg 0 n h b" "sorted_seg 0 n b"
    using heapsort_loop_spec[of n n h] h assms(1) perm_seg_length[OF h(2)] by auto
  have "heapsort a n = Some b" using h(1) b(1) assms by (simp add: heapsort_def build_max_heap_def)
  with sorted_perm_seg_eq[OF perm_seg_trans[OF h(2) b(2)] b(3) assms(1)] show ?thesis by simp
qed

interpretation heap: in_place_sort "CHR ''d''" heapsort "\<lambda>xs. xs \<noteq> []"
  by unfold_locales (auto intro!: heapsort_eq_sort)

subsection \<open>The program\<close>

text \<open>
  Property C24. \<open>heapsort\<close> sorts in place: on any non-empty prefix of a buffer it returns
  the buffer with that prefix sorted and the rest untouched, so it makes no access outside the buffer,
  fails no assertion and ends. The whole program, on any sequence of well-formed test cases that fit the
  static buffer and are not empty, prints each array as received and then sorted.
\<close>

theorem heapsort_correct:
  "(\<forall>a n. n \<le> length a \<and> 0 < n \<longrightarrow> heapsort a n = Some (sort (take n a) @ drop n a))
   \<and> (\<forall>xss. (\<forall>xs\<in>set xss. length xs \<le> MAX_ARR_SZ \<and> xs \<noteq> [] \<and> list_all in_int xs) \<longrightarrow>
        heapsort_main (concat (map show_case xss)) = Some (sort_banner @ concat (map expected_case xss)))"
proof (intro conjI allI impI)
  show "heapsort a n = Some (sort (take n a) @ drop n a)" if "n \<le> length a \<and> 0 < n" for a n
    using that by (auto intro: heapsort_eq_sort)
  show "heapsort_main (concat (map show_case xss)) = Some (sort_banner @ concat (map expected_case xss))"
    if "\<forall>xs\<in>set xss. length xs \<le> MAX_ARR_SZ \<and> xs \<noteq> [] \<and> list_all in_int xs" for xss
    unfolding heapsort_main_def using that
    by (intro heap.main_correct) (auto simp: list_all_iff conv_ok_def)
qed

theorem heapsort_correct_witness:
  "heapsort [3, 1, 2, 0] 3 = Some [1, 2, 3, 0]
   \<and> heapsort_main ''3 30 -1 2\<newline>1 7\<newline>'' = Some (sort_banner
        @ ''Received: 30 -1 2 \<newline>Sorted: -1 2 30 \<newline>Received: 7 \<newline>Sorted: 7 \<newline>'')"
proof
  show "heapsort [3, 1, 2, 0] 3 = Some [1, 2, 3, 0]"
    using conjunct1[OF heapsort_correct, rule_format, of 3 "[3, 1, 2, 0]"] by simp
  show "heapsort_main ''3 30 -1 2\<newline>1 7\<newline>'' = Some (sort_banner
        @ ''Received: 30 -1 2 \<newline>Sorted: -1 2 30 \<newline>Received: 7 \<newline>Sorted: 7 \<newline>'')"
    using conjunct2[OF heapsort_correct, rule_format, of sample_cases] sample_cases_ok
    by (simp add: sample_cases_text)
qed

end
