(* ===== verification/Counting_Sort.thy ===== *)
theory Counting_Sort
  imports Sort_Driver "HOL-Library.Word"
begin

text \<open>
  \<open>DS_Algos/sorting/countingsort/countingsort.c\<close>: sorting distinct numbers below
  \<open>MAX_INPUT_SZ\<close> with a bit vector. A byte of the vector is an \<open>8 word\<close>; \<open>marked\<close>
  abstracts the vector to the set of numbers whose bit is set.
\<close>

unbundle bit_operations_syntax

definition MAX_INPUT_SZ :: nat where "MAX_INPUT_SZ = 10000000"

definition BIT_VECTOR_SZ :: nat where "BIT_VECTOR_SZ = (MAX_INPUT_SZ - 1) div 8 + 1"

type_synonym bit_vector = "8 word list"

definition set_bit_c :: "bit_vector \<Rightarrow> nat \<Rightarrow> bit_vector c" where
  "set_bit_c a x = do { b \<leftarrow> rd a (x div 8); wr a (x div 8) (b OR push_bit (x mod 8) 1) }"

definition is_set_c :: "bit_vector \<Rightarrow> nat \<Rightarrow> bool c" where
  "is_set_c a x = do { b \<leftarrow> rd a (x div 8); Some (b AND push_bit (x mod 8) 1 \<noteq> 0) }"

function clear_loop :: "bit_vector \<Rightarrow> nat \<Rightarrow> nat \<Rightarrow> bit_vector c" where
  "clear_loop bv sz i =
     (if i < sz then do { bv' \<leftarrow> wr bv i 0; clear_loop bv' sz (i + 1) } else Some bv)"
  by pat_completeness auto
termination by (relation "measure (\<lambda>(bv, sz, i). sz - i)") auto

declare clear_loop.simps [simp del]

definition clear_bit_vector :: "bit_vector \<Rightarrow> nat \<Rightarrow> bit_vector c" where
  "clear_bit_vector bv sz = clear_loop bv sz 0"

function mark_loop :: "bit_vector \<Rightarrow> int list \<Rightarrow> nat \<Rightarrow> nat \<Rightarrow> bit_vector c" where
  "mark_loop bv arr arr_sz i =
     (if i < arr_sz then
        do { x \<leftarrow> rd arr i;
             _ \<leftarrow> c_assert (0 \<le> x \<and> x < int MAX_INPUT_SZ);
             bv' \<leftarrow> set_bit_c bv (nat x);
             mark_loop bv' arr arr_sz (i + 1) }
      else Some bv)"
  by pat_completeness auto
termination by (relation "measure (\<lambda>(bv, arr, arr_sz, i). arr_sz - i)") auto

declare mark_loop.simps [simp del]

function collect_loop :: "bit_vector \<Rightarrow> int list \<Rightarrow> nat \<Rightarrow> nat \<Rightarrow> int list c" where
  "collect_loop bv arr i j =
     (if i < MAX_INPUT_SZ then
        do { s \<leftarrow> is_set_c bv i;
             if s then do { arr' \<leftarrow> wr arr j (int i); collect_loop bv arr' (i + 1) (j + 1) }
             else collect_loop bv arr (i + 1) j }
      else Some arr)"
  by pat_completeness auto
termination by (relation "measure (\<lambda>(bv, arr, i, j). MAX_INPUT_SZ - i)") auto

declare collect_loop.simps [simp del]

text \<open>
  The static bit vector keeps its contents between calls, but every call clears all of it first; the
  model starts from an arbitrary vector \<open>bv0\<close> of the declared size.
\<close>

definition countingsort_from :: "bit_vector \<Rightarrow> int list \<Rightarrow> nat \<Rightarrow> int list c" where
  "countingsort_from bv0 arr arr_sz =
     do { bv \<leftarrow> clear_bit_vector bv0 BIT_VECTOR_SZ;
          bv' \<leftarrow> mark_loop bv arr arr_sz 0;
          collect_loop bv' arr 0 0 }"

definition countingsort :: "int list \<Rightarrow> nat \<Rightarrow> int list c" where
  "countingsort arr arr_sz = countingsort_from (replicate BIT_VECTOR_SZ 0) arr arr_sz"

definition countingsort_main :: "string \<Rightarrow> string c" where
  "countingsort_main input = sort_main CHR ''u'' countingsort input"

subsection \<open>The bit vector as a set\<close>

definition marked :: "bit_vector \<Rightarrow> nat set" where
  "marked bv = {x. x div 8 < length bv \<and> bit (bv ! (x div 8)) (x mod 8)}"

lemma is_set_c_marked: "x div 8 < length bv \<Longrightarrow> is_set_c bv x = Some (x \<in> marked bv)"
  by (simp add: is_set_c_def marked_def and_exp_eq_0_iff_not_bit)

lemma set_bit_c_marked:
  assumes "x div 8 < length bv"
  obtains bv' where "set_bit_c bv x = Some bv'" "length bv' = length bv" "marked bv' = insert x (marked bv)"
proof
  let ?bv = "bv[x div 8 := bv ! (x div 8) OR push_bit (x mod 8) 1]"
  show "set_bit_c bv x = Some ?bv" "length ?bv = length bv" using assms by (simp_all add: set_bit_c_def)
  have "x mod 8 < 8" by simp
  then show "marked ?bv = insert x (marked bv)"
    using assms by (auto simp: marked_def nth_list_update bit_simps split: if_splits)
      (metis div_mult_mod_eq)+
qed

lemma clear_loop_spec:
  assumes "i \<le> sz" "sz \<le> length bv" "\<And>k. k < i \<Longrightarrow> bv ! k = 0"
  shows "\<exists>bv'. clear_loop bv sz i = Some bv' \<and> length bv' = length bv \<and> (\<forall>k. k < sz \<longrightarrow> bv' ! k = 0)"
  using assms
proof (induction bv sz i rule: clear_loop.induct)
  case (1 bv sz i)
  show ?case
  proof (cases "i < sz")
    case True
    then have "\<exists>bv'. clear_loop (bv[i := 0]) sz (i + 1) = Some bv' \<and> length bv' = length (bv[i := 0]) \<and> (\<forall>k. k < sz \<longrightarrow> bv' ! k = 0)"
      using "1.prems" by (intro "1.IH") (auto simp: nth_list_update less_Suc_eq)
    with True "1.prems" show ?thesis by (subst clear_loop.simps) simp
  next
    case False
    with "1.prems" show ?thesis by (subst clear_loop.simps) simp
  qed
qed

lemma clear_bit_vector_spec:
  assumes "length bv = BIT_VECTOR_SZ"
  obtains bv' where "clear_bit_vector bv BIT_VECTOR_SZ = Some bv'" "length bv' = BIT_VECTOR_SZ" "marked bv' = {}"
  using clear_loop_spec[of 0 BIT_VECTOR_SZ bv] assms
  by (auto simp: clear_bit_vector_def marked_def)

lemma below_vector: "x < MAX_INPUT_SZ \<Longrightarrow> x div 8 < BIT_VECTOR_SZ"
  unfolding BIT_VECTOR_SZ_def by (simp add: less_Suc_eq_le div_le_mono)

subsection \<open>Marking and collecting\<close>

lemma mark_loop_spec:
  assumes "length bv = BIT_VECTOR_SZ" "arr_sz \<le> length arr" "i \<le> arr_sz"
    "\<And>x. x \<in> set (seg i arr_sz arr) \<Longrightarrow> 0 \<le> x \<and> x < int MAX_INPUT_SZ"
  shows "\<exists>bv'. mark_loop bv arr arr_sz i = Some bv' \<and> length bv' = BIT_VECTOR_SZ
      \<and> marked bv' = marked bv \<union> nat ` set (seg i arr_sz arr)"
  using assms
proof (induction bv arr arr_sz i rule: mark_loop.induct)
  case (1 bv arr arr_sz i)
  show ?case
  proof (cases "i < arr_sz")
    case True
    have sl: "seg i arr_sz arr = arr ! i # seg (i + 1) arr_sz arr"
      using True "1.prems"(2) by (simp add: seg_Cons)
    then have x: "0 \<le> arr ! i" "arr ! i < int MAX_INPUT_SZ" using "1.prems"(4)[of "arr ! i"] by simp_all
    then have "nat (arr ! i) div 8 < length bv" using below_vector[of "nat (arr ! i)"] "1.prems"(1) by simp
    then obtain bv1 where bv1: "set_bit_c bv (nat (arr ! i)) = Some bv1" "length bv1 = length bv"
      "marked bv1 = insert (nat (arr ! i)) (marked bv)" by (rule set_bit_c_marked)
    have "\<exists>bv'. mark_loop bv1 arr arr_sz (i + 1) = Some bv' \<and> length bv' = BIT_VECTOR_SZ
      \<and> marked bv' = marked bv1 \<union> nat ` set (seg (i + 1) arr_sz arr)"
      using True "1.prems" bv1 x sl by (intro "1.IH"[of "arr ! i"]) auto
    with True bv1 x sl "1.prems"(2) show ?thesis by (subst mark_loop.simps) auto
  next
    case False
    with "1.prems" show ?thesis by (subst mark_loop.simps) simp
  qed
qed

lemma collect_loop_eq:
  assumes "length bv = BIT_VECTOR_SZ" "i \<le> MAX_INPUT_SZ"
    "j + length (filter (\<lambda>x. x \<in> marked bv) [i..<MAX_INPUT_SZ]) \<le> length arr"
  shows "collect_loop bv arr i j = Some (splice_seg j (j + length (filter (\<lambda>x. x \<in> marked bv) [i..<MAX_INPUT_SZ]))
      arr (map int (filter (\<lambda>x. x \<in> marked bv) [i..<MAX_INPUT_SZ])))"
  using assms
proof (induction bv arr i j rule: collect_loop.induct)
  case (1 bv arr i j)
  show ?case
  proof (cases "i < MAX_INPUT_SZ")
    case True
    let ?F = "\<lambda>k. filter (\<lambda>x. x \<in> marked bv) [k..<MAX_INPUT_SZ]"
    have up: "[i..<MAX_INPUT_SZ] = i # [i + 1..<MAX_INPUT_SZ]" using True by (simp add: upt_conv_Cons)
    have isb: "is_set_c bv i = Some (i \<in> marked bv)"
      using True "1.prems"(1) below_vector by (intro is_set_c_marked) simp
    show ?thesis
    proof (cases "i \<in> marked bv")
      case mem: True
      then have F: "?F i = i # ?F (i + 1)" using up by simp
      then have "collect_loop bv (arr[j := int i]) (i + 1) (j + 1)
        = Some (splice_seg (j + 1) (j + 1 + length (?F (i + 1))) (arr[j := int i]) (map int (?F (i + 1))))"
        using True mem isb "1.prems" by (intro "1.IH"(1)) auto
      moreover have "j < length arr" using F "1.prems"(3) by simp
      ultimately show ?thesis using True mem isb "1.prems" F
        by (subst collect_loop.simps) (simp add: splice_seg_def take_Suc_conv_app_nth)
    next
      case False
      then have F: "?F i = ?F (i + 1)" using up by simp
      then have "collect_loop bv arr (i + 1) j
        = Some (splice_seg j (j + length (?F (i + 1))) arr (map int (?F (i + 1))))"
        using True False isb "1.prems" by (intro "1.IH"(2)) auto
      then show ?thesis using True False isb F by (subst collect_loop.simps) simp
    qed
  next
    case False
    with "1.prems" show ?thesis by (subst collect_loop.simps) (simp add: splice_seg_def)
  qed
qed

lemma collected_eq_sort:
  assumes "distinct xs" "\<And>x. x \<in> set xs \<Longrightarrow> 0 \<le> x \<and> x < int n"
  shows "map int (filter (\<lambda>k. k \<in> nat ` set xs) [0..<n]) = sort xs"
proof (rule sorted_distinct_set_unique)
  show "sorted (map int (filter (\<lambda>k. k \<in> nat ` set xs) [0..<n]))"
    by (intro sorted_map_mono sorted_wrt_filter) (simp_all add: monotone_on_def)
  show "distinct (map int (filter (\<lambda>k. k \<in> nat ` set xs) [0..<n]))"
    by (simp add: distinct_map)
  show "set (map int (filter (\<lambda>k. k \<in> nat ` set xs) [0..<n])) = set (sort xs)"
    using assms(2) by (force simp: image_iff)
qed (use assms in simp_all)

lemma countingsort_from_eq_sort:
  assumes "length bv0 = BIT_VECTOR_SZ" "n \<le> length a" "distinct (take n a)"
    "\<And>x. x \<in> set (take n a) \<Longrightarrow> 0 \<le> x \<and> x < int MAX_INPUT_SZ"
  shows "countingsort_from bv0 a n = Some (sort (take n a) @ drop n a)"
proof -
  obtain bv where bv: "clear_bit_vector bv0 BIT_VECTOR_SZ = Some bv" "length bv = BIT_VECTOR_SZ" "marked bv = {}"
    using assms(1) by (rule clear_bit_vector_spec)
  obtain bv' where bv': "mark_loop bv a n 0 = Some bv'" "length bv' = BIT_VECTOR_SZ"
    "marked bv' = nat ` set (take n a)"
    using mark_loop_spec[of bv n a 0] bv assms by (auto simp: seg_def)
  have xs: "map int (filter (\<lambda>x. x \<in> marked bv') [0..<MAX_INPUT_SZ]) = sort (take n a)"
    unfolding bv'(3) using assms by (intro collected_eq_sort) auto
  have "length (filter (\<lambda>x. x \<in> marked bv') [0..<MAX_INPUT_SZ]) = n"
    using arg_cong[OF xs, of length] assms(2) by simp
  then have "collect_loop bv' a 0 0 = Some (splice_seg 0 n a (sort (take n a)))"
    using collect_loop_eq[OF bv'(2), of 0 0 a] assms(2) xs by simp
  with bv bv' show ?thesis by (simp add: countingsort_from_def splice_seg_def)
qed

interpretation counting: in_place_sort "CHR ''u''" countingsort
  "\<lambda>xs. distinct xs \<and> (\<forall>x\<in>set xs. 0 \<le> x \<and> x < int MAX_INPUT_SZ)"
  by unfold_locales (auto simp: countingsort_def intro!: countingsort_from_eq_sort)

subsection \<open>The program\<close>

text \<open>
  \<open>countingsort\<close>, whatever an earlier call left in the static bit vector, sorts
  any prefix of a buffer that holds distinct numbers below \<open>MAX_INPUT_SZ\<close>, the precondition its
  comment states: no access outside the buffer or the bit vector, no failed assertion. The whole
  program prints such arrays as received and then sorted.
\<close>

lemma countingsort_correct:
  "(\<forall>bv a n. length bv = BIT_VECTOR_SZ \<and> n \<le> length a \<and> distinct (take n a)
        \<and> (\<forall>x\<in>set (take n a). 0 \<le> x \<and> x < int MAX_INPUT_SZ)
      \<longrightarrow> countingsort_from bv a n = Some (sort (take n a) @ drop n a))
   \<and> (\<forall>xss. (\<forall>xs\<in>set xss. length xs \<le> MAX_ARR_SZ \<and> distinct xs \<and> (\<forall>x\<in>set xs. 0 \<le> x \<and> x < int MAX_INPUT_SZ)) \<longrightarrow>
        countingsort_main (concat (map show_case xss)) = Some (sort_banner @ concat (map expected_case xss)))"
proof (intro conjI allI impI)
  show "countingsort_from bv a n = Some (sort (take n a) @ drop n a)"
    if "length bv = BIT_VECTOR_SZ \<and> n \<le> length a \<and> distinct (take n a)
        \<and> (\<forall>x\<in>set (take n a). 0 \<le> x \<and> x < int MAX_INPUT_SZ)" for bv a n
    using that by (auto intro!: countingsort_from_eq_sort)
  show "countingsort_main (concat (map show_case xss)) = Some (sort_banner @ concat (map expected_case xss))"
    if "\<forall>xs\<in>set xss. length xs \<le> MAX_ARR_SZ \<and> distinct xs \<and> (\<forall>x\<in>set xs. 0 \<le> x \<and> x < int MAX_INPUT_SZ)" for xss
    unfolding countingsort_main_def using that
    by (intro counting.main_correct) (force simp: list_all_iff conv_ok_def MAX_INPUT_SZ_def)
qed

end
