(* ===== verification/Binary_Search.thy ===== *)
theory Binary_Search
  imports C_Stdio Array_Perm Sort_Driver
begin

text \<open>
  \<open>DS_Algos/bin_search/binary_search.c\<close>: the four searches and the query driver.
  \<open>ssize_t\<close> indices are \<open>int\<close>. The \<open>while (l <= r)\<close> loop that two of the searches
  share is \<open>bsearch_loop\<close>: \<open>Inr mid\<close> is the early return, \<open>Inl (l, r)\<close> the exit.
  The loops of the other two have no obvious bound and are partial functions.
\<close>

function bsearch_loop :: "int list \<Rightarrow> int \<Rightarrow> int \<Rightarrow> int \<Rightarrow> (int \<times> int + int) c" where
  "bsearch_loop arr l r val =
     (if l \<le> r then
        do { let mid = l + cdiv (r - l) 2;
             x \<leftarrow> rdi arr mid;
             if x = val then Some (Inr mid)
             else if x < val then bsearch_loop arr (mid + 1) r val
             else bsearch_loop arr l (mid - 1) val }
      else Some (Inl (l, r)))"
  by pat_completeness auto
termination by (relation "measure (\<lambda>(arr, l, r, val). nat (r - l + 1))") auto

declare bsearch_loop.simps [simp del]

definition binary_search :: "int list \<Rightarrow> nat \<Rightarrow> int \<Rightarrow> int c" where
  "binary_search arr arr_sz val =
     do { res \<leftarrow> bsearch_loop arr 0 (int arr_sz - 1) val;
          Some (case res of Inr mid \<Rightarrow> mid | Inl (l, r) \<Rightarrow> - 1) }"

text \<open>\<open>abs(val-arr[l])\<close>: neither the subtraction nor the negation may overflow.\<close>

definition abs_diff :: "int \<Rightarrow> int \<Rightarrow> int c" where
  "abs_diff a b = do { _ \<leftarrow> c_assert (in_int (a - b)); _ \<leftarrow> c_assert (in_int \<bar>a - b\<bar>); Some \<bar>a - b\<bar> }"

text \<open>Comparing \<open>ssize_t\<close> with \<open>size_t\<close> converts the signed side to \<open>size_t\<close>.\<close>

definition as_size :: "int \<Rightarrow> int" where
  "as_size i = i mod 2 ^ 64"

definition bin_search_closest :: "int list \<Rightarrow> nat \<Rightarrow> int \<Rightarrow> int c" where
  "bin_search_closest arr arr_sz val =
     do { res \<leftarrow> bsearch_loop arr 0 (int arr_sz - 1) val;
          (case res of Inr mid \<Rightarrow> Some mid
           | Inl (l, r) \<Rightarrow>
               if as_size l < int arr_sz \<and> r \<ge> 0 then
                 do { x \<leftarrow> rdi arr l; diff_l \<leftarrow> abs_diff val x;
                      y \<leftarrow> rdi arr r; diff_r \<leftarrow> abs_diff val y;
                      Some (if diff_l < diff_r then l else r) }
               else if as_size l = int arr_sz then Some r
               else if r < 0 then Some l
               else None) }"

partial_function (option) first_loop :: "int list \<Rightarrow> int \<Rightarrow> int \<Rightarrow> int \<Rightarrow> (int \<times> int) c" where
  "first_loop arr l r val =
     (if l + 1 \<noteq> r then
        do { let m = l + cdiv (r - l) 2;
             x \<leftarrow> rdi arr m;
             if x < val then first_loop arr m r val else first_loop arr l m val }
      else Some (l, r))"

declare first_loop.simps [code]

definition bin_search_first_occurrence :: "int list \<Rightarrow> nat \<Rightarrow> int \<Rightarrow> int c" where
  "bin_search_first_occurrence arr arr_sz val =
     do { (l, r) \<leftarrow> first_loop arr (- 1) (int arr_sz) val;
          if as_size r = int arr_sz then Some (- 1)
          else do { x \<leftarrow> rdi arr r; Some (if x \<noteq> val then - 1 else r) } }"

partial_function (option) last_loop :: "int list \<Rightarrow> int \<Rightarrow> int \<Rightarrow> int \<Rightarrow> (int \<times> int) c" where
  "last_loop arr l r val =
     (if l + 1 \<noteq> r then
        do { let m = l + cdiv (r - l) 2;
             x \<leftarrow> rdi arr m;
             if val < x then last_loop arr l m val else last_loop arr m r val }
      else Some (l, r))"

declare last_loop.simps [code]

definition bin_search_last_occurrence :: "int list \<Rightarrow> nat \<Rightarrow> int \<Rightarrow> int c" where
  "bin_search_last_occurrence arr arr_sz val =
     do { (l, r) \<leftarrow> last_loop arr (- 1) (int arr_sz) val;
          if as_size l = int arr_sz then Some (- 1)
          else do { x \<leftarrow> rdi arr l; Some (if x \<noteq> val then - 1 else l) } }"

subsection \<open>The driver\<close>

definition run_query :: "int list \<Rightarrow> nat \<Rightarrow> int \<Rightarrow> string c" where
  "run_query arr arr_sz val =
     do { res \<leftarrow> binary_search arr arr_sz val;
          let o1 = printf ''Traditional binary search: '' []
            @ (if res = - 1 then printf ''%d not found\<newline>'' [IntA val]
               else printf ''%d found at i = %zd\<newline>'' [IntA val, IntA res]);
          first \<leftarrow> bin_search_first_occurrence arr arr_sz val;
          let o2 = printf ''First occurrence: '' []
            @ (if first = - 1 then printf ''%d not found\<newline>'' [IntA val]
               else printf ''%d occurs for the first time at i = %zd\<newline>'' [IntA val, IntA first]);
          last \<leftarrow> bin_search_last_occurrence arr arr_sz val;
          let o3 = printf ''Last occurrence: '' []
            @ (if last = - 1 then printf ''%d not found\<newline>'' [IntA val]
               else printf ''%d occurs for the last time at i = %zd\<newline>'' [IntA val, IntA last]);
          closest \<leftarrow> bin_search_closest arr arr_sz val;
          x \<leftarrow> rdi arr closest;
          Some (o1 @ o2 @ o3 @ printf ''Closest match: '' [] @ printf ''%d\<newline>\<newline>'' [IntA x]) }"

fun query_loop :: "int list \<Rightarrow> nat \<Rightarrow> nat \<Rightarrow> string \<Rightarrow> (string \<times> string) c" where
  "query_loop arr arr_sz 0 s = Some ([], s)"
| "query_loop arr arr_sz (Suc q) s =
     do { r \<leftarrow> scanf ''%d'' s;
          _ \<leftarrow> c_assert (scan_ret r = 1); \<comment> \<open>otherwise \<open>val\<close> is used uninitialised\<close>
          o1 \<leftarrow> run_query arr arr_sz (arg_int (sr_args r ! 0));
          (o2, s') \<leftarrow> query_loop arr arr_sz q (sr_rest r);
          Some (o1 @ o2, s') }"

lemma query_loop_le: "query_loop arr n q s = Some (out, s') \<Longrightarrow> length s' \<le> length s"
proof (induction q arbitrary: s out)
  case (Suc q)
  then obtain r o2 where "scanf ''%d'' s = Some r" "query_loop arr n q (sr_rest r) = Some (o2, s')"
    by (auto simp: bind_eq_Some_conv)
  with Suc.IH[of "sr_rest r" o2] scanf_rest_le[of "''%d''" s r] show ?case by simp
qed simp

function search_loop :: "int list \<Rightarrow> string \<Rightarrow> string c" where
  "search_loop sorted_arr s =
     do { r \<leftarrow> scanf ''%zu'' s;
          if scan_ret r \<noteq> 1 then Some []
          else do { let arr_sz = nat (arg_int (sr_args r ! 0));
                    (arr, s1) \<leftarrow> read_array CHR ''d'' sorted_arr arr_sz 0 (sr_rest r);
                    q \<leftarrow> scanf ''%zu'' s1;
                    _ \<leftarrow> c_assert (scan_ret q = 1); \<comment> \<open>otherwise \<open>queries\<close> is used uninitialised\<close>
                    (out, s2) \<leftarrow> query_loop arr arr_sz (nat (arg_int (sr_args q ! 0))) (sr_rest q);
                    rest \<leftarrow> search_loop arr s2;
                    Some (out @ rest) } }"
  by pat_completeness auto
termination
proof (relation "measure (\<lambda>(arr, s). length s)", simp)
  fix sorted_arr s r n x arr s1 q u y out s2
  assume "scanf ''%zu'' s = Some r" "\<not> scan_ret r \<noteq> 1"
    "read_array CHR ''d'' sorted_arr n 0 (sr_rest r) = Some x" "(arr, s1) = x" "scanf ''%zu'' s1 = Some q"
    "query_loop arr n (nat (arg_int (sr_args q ! 0))) (sr_rest q) = Some y" "(out, s2) = y"
  then show "((arr, s2), sorted_arr, s) \<in> measure (\<lambda>(arr, s). length s)"
    using read_array_le[of "CHR ''d''" sorted_arr n 0 "sr_rest r" arr s1] scanf_ret_less[of "''%zu''" s r]
      scanf_rest_le[of "''%zu''" s1 q] query_loop_le[of arr n _ "sr_rest q" out s2] by fastforce
qed

declare search_loop.simps [simp del]

definition search_main :: "string \<Rightarrow> string c" where
  "search_main input =
     do { out \<leftarrow> search_loop (replicate 256 0) input;
          Some (printf ''Enter number of elements in array, followed by the elements (sorted), followed by the number of queries, followed by each query.\<newline>'' [] @ out) }"

subsection \<open>The classic loop\<close>

text \<open>\<open>val\<close> can only be at an index from \<open>l\<close> to \<open>r\<close>.\<close>

definition narrowed :: "int list \<Rightarrow> nat \<Rightarrow> int \<Rightarrow> int \<Rightarrow> int \<Rightarrow> bool" where
  "narrowed arr n val l r \<longleftrightarrow> 0 \<le> l \<and> l \<le> r + 1 \<and> r < int n
     \<and> (\<forall>k. int k < l \<longrightarrow> arr ! k < val) \<and> (\<forall>k<n. r < int k \<longrightarrow> val < arr ! k)"

lemma narrowed_init: "narrowed arr n val 0 (int n - 1)"
  by (auto simp: narrowed_def)

lemma mid_bounds:
  assumes "l \<le> r"
  shows "l \<le> l + cdiv (r - l) 2" "l + cdiv (r - l) 2 \<le> r"
  using assms by simp_all

lemma bsearch_loop_spec:
  assumes "sorted_seg 0 n arr" "n \<le> length arr" "narrowed arr n val l r"
  shows "(\<exists>m. bsearch_loop arr l r val = Some (Inr m) \<and> 0 \<le> m \<and> m < int n \<and> arr ! nat m = val)
      \<or> (\<exists>l' r'. bsearch_loop arr l r val = Some (Inl (l', r')) \<and> l' = r' + 1 \<and> narrowed arr n val l' r')"
  using assms
proof (induction arr l r val rule: bsearch_loop.induct)
  case (1 arr l r val)
  show ?case
  proof (cases "l \<le> r")
    case False
    with "1.prems"(3) have "l = r + 1" by (simp add: narrowed_def)
    with False "1.prems"(3) show ?thesis by (subst (1 2) bsearch_loop.simps) simp
  next
    case True
    define mid where "mid = l + cdiv (r - l) 2"
    have mid: "l \<le> mid" "mid \<le> r" unfolding mid_def using mid_bounds[OF True] by simp_all
    have bnd: "0 \<le> mid" "mid < int n" using mid "1.prems"(3) by (simp_all add: narrowed_def)
    then have rd: "rdi arr mid = Some (arr ! nat mid)" using "1.prems"(2) by (intro rdi_Some) simp_all
    have step: "bsearch_loop arr l r val =
       (if arr ! nat mid = val then Some (Inr mid)
        else if arr ! nat mid < val then bsearch_loop arr (mid + 1) r val
        else bsearch_loop arr l (mid - 1) val)"
      using True rd by (subst bsearch_loop.simps) (simp add: mid_def)
    have mono: "arr ! i \<le> arr ! j" if "i \<le> j" "j < n" for i j
      using that "1.prems"(1) by (simp add: sorted_seg_def)
    consider "arr ! nat mid = val" | "arr ! nat mid < val" | "val < arr ! nat mid" by linarith
    then show ?thesis
    proof cases
      case 1
      with step bnd show ?thesis by simp
    next
      case 2
      have "arr ! k < val" if "int k < mid + 1" for k
        using mono[of k "nat mid"] that bnd 2 by (simp add: nat_less_iff) linarith
      then have "narrowed arr n val (mid + 1) r" using "1.prems"(3) mid by (simp add: narrowed_def)
      with 2 step "1.IH"(1)[OF True mid_def rd] "1.prems" show ?thesis by simp
    next
      case 3
      have "val < arr ! k" if "k < n" "mid - 1 < int k" for k
        using mono[of "nat mid" k] that bnd 3 by (simp add: nat_le_iff)
      then have "narrowed arr n val l (mid - 1)" using "1.prems"(3) mid bnd by (simp add: narrowed_def)
      with 3 step "1.IH"(2)[OF True mid_def rd] "1.prems" show ?thesis by simp
    qed
  qed
qed

lemma mem_take_iff: "n \<le> length arr \<Longrightarrow> x \<in> set (take n arr) \<longleftrightarrow> (\<exists>k<n. arr ! k = x)"
  by (auto simp: in_set_conv_nth)

lemma sorted_sample: "sorted_seg 0 4 [1, 3, 3, 8 :: int]"
  by (auto simp: sorted_seg_def less_Suc_eq numeral_eq_Suc le_Suc_eq)

text \<open>
  \<open>binary_search\<close> on a sorted array returns the index of an occurrence of the value, or
  -1 when the array has none; it reads inside the array only, and ends.
\<close>

lemma binary_search_spec:
  assumes "sorted_seg 0 n arr" "n \<le> length arr"
  shows "\<exists>res. binary_search arr n val = Some res
      \<and> (if val \<in> set (take n arr) then 0 \<le> res \<and> res < int n \<and> arr ! nat res = val else res = - 1)"
proof -
  from bsearch_loop_spec[OF assms narrowed_init, of val] show ?thesis
  proof (elim disjE exE conjE)
    fix m assume "bsearch_loop arr 0 (int n - 1) val = Some (Inr m)" "0 \<le> m" "m < int n" "arr ! nat m = val"
    then show ?thesis using assms(2) by (force simp: binary_search_def mem_take_iff nat_less_iff)
  next
    fix l r assume e: "bsearch_loop arr 0 (int n - 1) val = Some (Inl (l, r))" "l = r + 1" "narrowed arr n val l r"
    then have "val \<notin> set (take n arr)"
      using assms(2) by (auto simp: mem_take_iff narrowed_def) (metis add1_zle_eq int_one_le_iff_zero_less less_irrefl not_le)
    with e show ?thesis by (simp add: binary_search_def)
  qed
qed

lemma closest_at_exit:
  assumes "sorted_seg 0 n arr" "narrowed arr n val l r" "l = r + 1" "k < n"
  shows "l < int n \<Longrightarrow> val < arr ! k \<Longrightarrow> arr ! nat l \<le> arr ! k" "0 \<le> r \<Longrightarrow> arr ! k < val \<Longrightarrow> arr ! k \<le> arr ! nat r"
proof -
  have mono: "arr ! i \<le> arr ! j" if "i \<le> j" "j < n" for i j
    using that assms(1) by (simp add: sorted_seg_def)
  show "arr ! nat l \<le> arr ! k" if "l < int n" "val < arr ! k"
  proof -
    have "\<not> int k < l" using that assms(2) by (auto simp: narrowed_def)
    then show ?thesis using assms(4) by (intro mono) auto
  qed
  show "arr ! k \<le> arr ! nat r" if "0 \<le> r" "arr ! k < val"
  proof -
    have "\<not> r < int k" using that assms(2,4) by (auto simp: narrowed_def)
    then show ?thesis using assms(2) that by (intro mono) (auto simp: narrowed_def nat_less_iff)
  qed
qed

lemma as_size_id: "0 \<le> i \<Longrightarrow> i < 2 ^ 64 \<Longrightarrow> as_size i = i"
  by (simp add: as_size_def)

text \<open>
  \<open>bin_search_closest\<close> on a non-empty sorted array returns the index of an element at
  minimal distance from the value, provided that the differences it computes fit an \<open>int\<close>; its
  last branch, an \<open>assert(0)\<close>, is never reached.
\<close>

lemma bin_search_closest_spec:
  assumes "sorted_seg 0 n arr" "n \<le> length arr" "0 < n" "n < 2 ^ 63"
    "\<And>k. k < n \<Longrightarrow> \<bar>val - arr ! k\<bar> \<le> INT_MAX"
  shows "\<exists>res. bin_search_closest arr n val = Some res \<and> 0 \<le> res \<and> res < int n
      \<and> (\<forall>k<n. \<bar>val - arr ! nat res\<bar> \<le> \<bar>val - arr ! k\<bar>)"
proof -
  from bsearch_loop_spec[OF assms(1,2) narrowed_init, of val] show ?thesis
  proof (elim disjE exE conjE)
    fix m assume "bsearch_loop arr 0 (int n - 1) val = Some (Inr m)" "0 \<le> m" "m < int n" "arr ! nat m = val"
    then show ?thesis by (simp add: bin_search_closest_def)
  next
    fix l r assume e: "bsearch_loop arr 0 (int n - 1) val = Some (Inl (l, r))" "l = r + 1" "narrowed arr n val l r"
    have lr: "0 \<le> l" "r < int n" "as_size l = l" using e(2,3) assms(4) by (auto simp: narrowed_def intro!: as_size_id)
    have out: "arr ! k < val" if "int k < l" for k using that e(3) by (simp add: narrowed_def)
    have out': "val < arr ! k" if "k < n" "r < int k" for k using that e(3) by (simp add: narrowed_def)
    have ne: "arr ! k \<noteq> val" if "k < n" for k using out[of k] out'[of k] that e(2) by fastforce
    note at_exit = closest_at_exit[OF assms(1) e(3,2)]
    have best: "\<bar>val - arr ! nat l\<bar> \<le> \<bar>val - arr ! k\<bar> \<or> 0 \<le> r \<and> \<bar>val - arr ! nat r\<bar> \<le> \<bar>val - arr ! k\<bar>"
      if "l < int n" "k < n" for k
    proof (cases "val < arr ! k")
      case True
      then show ?thesis using at_exit(1)[OF that(2) that(1)] out'[of "nat l"] that lr(1) e(2) by (simp add: nat_less_iff)
    next
      case False
      then have "arr ! k < val" using ne that by force
      moreover from this have "0 \<le> r" using out'[of k] that by force
      ultimately show ?thesis using at_exit(2)[OF that(2)] out[of "nat r"] e(2) by simp
    qed
    consider (both) "l < int n" "0 \<le> r" | (right) "l = int n" | (left) "l < int n" "r < 0" using e(2) lr by linarith
    then show ?thesis
    proof cases
      case both
      then have nl: "nat l < n" "nat r < n" using lr by (simp_all add: nat_less_iff)
      let ?dl = "\<bar>val - arr ! nat l\<bar>" and ?dr = "\<bar>val - arr ! nat r\<bar>"
      have "in_int (val - arr ! k)" "in_int \<bar>val - arr ! k\<bar>" if "k < n" for k
        using assms(5)[OF that] by (auto simp: in_int_def INT_MIN_def INT_MAX_def)
      then have "bin_search_closest arr n val = Some (if ?dl < ?dr then l else r)"
        using e(1) both lr nl assms(2) by (simp add: bin_search_closest_def abs_diff_def)
      moreover have "\<forall>k<n. \<bar>val - arr ! nat (if ?dl < ?dr then l else r)\<bar> \<le> \<bar>val - arr ! k\<bar>"
        using best[OF both(1)] by fastforce
      ultimately show ?thesis using both lr by auto
    next
      case right
      then have "0 \<le> r" using assms(3) e(2) by simp
      moreover have "\<bar>val - arr ! nat r\<bar> \<le> \<bar>val - arr ! k\<bar>" if "k < n" for k
        using out[of k] out[of "nat r"] at_exit(2)[OF that \<open>0 \<le> r\<close>] that right lr e(2) by simp
      ultimately show ?thesis using e(1) lr right by (simp add: bin_search_closest_def)
    next
      case left
      then have "bin_search_closest arr n val = Some l"
        using e(1) lr by (simp add: bin_search_closest_def)
      moreover have "\<bar>val - arr ! nat l\<bar> \<le> \<bar>val - arr ! k\<bar>" if "k < n" for k
        using best[OF left(1) that] left by simp
      ultimately show ?thesis using left lr by simp
    qed
  qed
qed

subsection \<open>First and last occurrence\<close>

lemma first_loop_spec:
  assumes "n \<le> length arr" "sorted_seg 0 n arr" "- 1 \<le> l" "l < r" "r \<le> int n"
    "\<And>k. int k \<le> l \<Longrightarrow> arr ! k < val" "\<And>k. k < n \<Longrightarrow> r \<le> int k \<Longrightarrow> val \<le> arr ! k"
  shows "\<exists>r'. first_loop arr l r val = Some (r' - 1, r') \<and> 0 \<le> r' \<and> r' \<le> int n
      \<and> (\<forall>k. int k < r' \<longrightarrow> arr ! k < val) \<and> (\<forall>k<n. r' \<le> int k \<longrightarrow> val \<le> arr ! k)"
  using assms
proof (induction "nat (r - l)" arbitrary: l r rule: less_induct)
  case less
  have mono: "arr ! i \<le> arr ! j" if "i \<le> j" "j < n" for i j
    using that less.prems(2) by (simp add: sorted_seg_def)
  show ?case
  proof (cases "l + 1 = r")
    case True
    then have "first_loop arr l r val = Some (r - 1, r)" by (subst first_loop.simps) simp
    with True less.prems show ?thesis by (auto simp: zless_iff_Suc_zadd)
  next
    case False
    define m where "m = l + cdiv (r - l) 2"
    have m: "l < m" "m < r" unfolding m_def using False less.prems(4) by simp_all
    have b: "0 \<le> m" "nat m < n" "int (nat m) = m" using m less.prems(3,5) by (simp_all add: nat_less_iff)
    then have rd: "rdi arr m = Some (arr ! nat m)" using less.prems(1) by (intro rdi_Some) linarith+
    show ?thesis
    proof (cases "arr ! nat m < val")
      case True
      then have "first_loop arr l r val = first_loop arr m r val"
        using False rd by (subst first_loop.simps) (simp add: m_def)
      moreover have "arr ! k < val" if "int k \<le> m" for k
        using mono[of k "nat m"] that b True by force
      ultimately show ?thesis using less.hyps[of r m] less.prems m by simp
    next
      case ge: False
      then have "first_loop arr l r val = first_loop arr l m val"
        using False rd by (subst first_loop.simps) (simp add: m_def)
      moreover have "val \<le> arr ! k" if "k < n" "m \<le> int k" for k
        using mono[of "nat m" k] that b ge by force
      ultimately show ?thesis using less.hyps[of m l] less.prems m by simp
    qed
  qed
qed

text \<open>
  \<open>bin_search_first_occurrence\<close> on a sorted array returns the first index at which the
  value occurs, or -1 when the array has none.
\<close>

lemma bin_search_first_spec:
  assumes "sorted_seg 0 n arr" "n \<le> length arr" "n < 2 ^ 63"
  shows "\<exists>res. bin_search_first_occurrence arr n val = Some res
      \<and> (if val \<in> set (take n arr)
         then 0 \<le> res \<and> res < int n \<and> arr ! nat res = val \<and> (\<forall>k<nat res. arr ! k \<noteq> val)
         else res = - 1)"
proof -
  obtain r where r: "first_loop arr (- 1) (int n) val = Some (r - 1, r)" "0 \<le> r" "r \<le> int n"
    "\<And>k. int k < r \<Longrightarrow> arr ! k < val" "\<And>k. k < n \<Longrightarrow> r \<le> int k \<Longrightarrow> val \<le> arr ! k"
    using first_loop_spec[OF assms(2,1), of "- 1" "int n" val] by auto
  have s: "as_size r = r" using r(2,3) assms(3) by (auto intro!: as_size_id)
  have mem: "val \<in> set (take n arr) \<longleftrightarrow> r < int n \<and> arr ! nat r = val"
  proof
    assume "val \<in> set (take n arr)"
    then obtain k where k: "k < n" "arr ! k = val" using assms(2) by (auto simp: mem_take_iff)
    then have "r \<le> int k" using r(4)[of k] by force
    then have "arr ! nat r \<le> val" using assms(1) k by (auto simp: sorted_seg_def nat_le_iff)
    with r(5)[of "nat r"] \<open>r \<le> int k\<close> k r(2) show "r < int n \<and> arr ! nat r = val" by (simp add: nat_less_iff)
  qed (use assms(2) r(2) in \<open>auto simp: mem_take_iff nat_less_iff intro!: exI[of _ "nat r"]\<close>)
  have "bin_search_first_occurrence arr n val
      = Some (if r < int n \<and> arr ! nat r = val then r else - 1)"
    using r s assms(2) by (auto simp: bin_search_first_occurrence_def)
  moreover have "arr ! k \<noteq> val" if "k < nat r" for k using r(4)[of k] that by force
  ultimately show ?thesis using mem r(2) by auto
qed

text \<open>
  Property C33. On a sorted array \<open>binary_search\<close> returns the index of an occurrence of the value and
  \<open>bin_search_first_occurrence\<close> the first such index, or both return -1 when the array has none; they read inside
  the array only, and end.
\<close>

theorem binary_search_finds:
  assumes "sorted_seg 0 n arr" "n \<le> length arr" "n < 2 ^ 63"
  shows "\<exists>any first. binary_search arr n val = Some any \<and> bin_search_first_occurrence arr n val = Some first
      \<and> (if val \<in> set (take n arr)
         then 0 \<le> first \<and> first \<le> any \<and> any < int n \<and> arr ! nat any = val \<and> arr ! nat first = val
           \<and> (\<forall>k<nat first. arr ! k \<noteq> val)
         else any = - 1 \<and> first = - 1)"
proof -
  obtain x where x: "binary_search arr n val = Some x"
      "if val \<in> set (take n arr) then 0 \<le> x \<and> x < int n \<and> arr ! nat x = val else x = - 1"
    using binary_search_spec[OF assms(1,2), of val] by blast
  obtain y where y: "bin_search_first_occurrence arr n val = Some y"
      "if val \<in> set (take n arr) then 0 \<le> y \<and> y < int n \<and> arr ! nat y = val \<and> (\<forall>k<nat y. arr ! k \<noteq> val) else y = - 1"
    using bin_search_first_spec[OF assms, of val] by blast
  have "y \<le> x" if m: "val \<in> set (take n arr)"
  proof (rule ccontr)
    assume "\<not> y \<le> x"
    then have "nat x < nat y" using x(2) m by simp
    then show False using x(2) y(2) m by simp
  qed
  with x y show ?thesis by auto
qed

theorem binary_search_finds_witness:
  "\<exists>any first. binary_search [1, 3, 3, 8] 4 3 = Some any \<and> bin_search_first_occurrence [1, 3, 3, 8] 4 3 = Some first
      \<and> 0 \<le> first \<and> first \<le> any \<and> any < 4 \<and> [1, 3, 3, 8] ! nat any = (3::int) \<and> [1, 3, 3, 8] ! nat first = (3::int)
      \<and> (\<forall>k<nat first. [1, 3, 3, 8] ! k \<noteq> (3::int))"
  using binary_search_finds[OF sorted_sample, of 3] by simp

lemma last_loop_spec:
  assumes "n \<le> length arr" "sorted_seg 0 n arr" "- 1 \<le> l" "l < r" "r \<le> int n"
    "\<And>k. int k \<le> l \<Longrightarrow> arr ! k \<le> val" "\<And>k. k < n \<Longrightarrow> r \<le> int k \<Longrightarrow> val < arr ! k"
  shows "\<exists>l'. last_loop arr l r val = Some (l', l' + 1) \<and> - 1 \<le> l' \<and> l' < int n
      \<and> (\<forall>k. int k \<le> l' \<longrightarrow> arr ! k \<le> val) \<and> (\<forall>k<n. l' < int k \<longrightarrow> val < arr ! k)"
  using assms
proof (induction "nat (r - l)" arbitrary: l r rule: less_induct)
  case less
  have mono: "arr ! i \<le> arr ! j" if "i \<le> j" "j < n" for i j
    using that less.prems(2) by (simp add: sorted_seg_def)
  show ?case
  proof (cases "l + 1 = r")
    case True
    then have "last_loop arr l r val = Some (l, l + 1)" by (subst last_loop.simps) simp
    with True less.prems show ?thesis by (auto simp: add1_zle_eq)
  next
    case False
    define m where "m = l + cdiv (r - l) 2"
    have m: "l < m" "m < r" unfolding m_def using False less.prems(4) by simp_all
    have b: "0 \<le> m" "nat m < n" "int (nat m) = m" using m less.prems(3,5) by (simp_all add: nat_less_iff)
    then have rd: "rdi arr m = Some (arr ! nat m)" using less.prems(1) by (intro rdi_Some) linarith+
    show ?thesis
    proof (cases "val < arr ! nat m")
      case True
      then have "last_loop arr l r val = last_loop arr l m val"
        using False rd by (subst last_loop.simps) (simp add: m_def)
      moreover have "val < arr ! k" if "k < n" "m \<le> int k" for k
        using mono[of "nat m" k] that b True by force
      ultimately show ?thesis using less.hyps[of m l] less.prems m by simp
    next
      case le: False
      then have "last_loop arr l r val = last_loop arr m r val"
        using False rd by (subst last_loop.simps) (simp add: m_def)
      moreover have "arr ! k \<le> val" if "int k \<le> m" for k
        using mono[of k "nat m"] that b le by force
      ultimately show ?thesis using less.hyps[of r m] less.prems m by simp
    qed
  qed
qed

text \<open>
  Property C34. \<open>bin_search_last_occurrence\<close> on a sorted array returns the last index at which the value
  occurs, or -1 when the array has none, except when the array is empty or the value is below its
  least element: then the function reads the element before the array, against the comment that says
  it never does, and has no defined behaviour.
\<close>

theorem bin_search_last_spec:
  assumes "sorted_seg 0 n arr" "n \<le> length arr" "n < 2 ^ 63"
  shows "if n = 0 \<or> val < arr ! 0 then bin_search_last_occurrence arr n val = None
      else \<exists>res. bin_search_last_occurrence arr n val = Some res
      \<and> (if val \<in> set (take n arr)
         then 0 \<le> res \<and> res < int n \<and> arr ! nat res = val \<and> (\<forall>k<n. nat res < k \<longrightarrow> arr ! k \<noteq> val)
         else res = - 1)"
proof -
  obtain l where l: "last_loop arr (- 1) (int n) val = Some (l, l + 1)" "- 1 \<le> l" "l < int n"
    "\<And>k. int k \<le> l \<Longrightarrow> arr ! k \<le> val" "\<And>k. k < n \<Longrightarrow> l < int k \<Longrightarrow> val < arr ! k"
    using last_loop_spec[OF assms(2,1), of "- 1" "int n" val] by auto
  show ?thesis
  proof (cases "n = 0 \<or> val < arr ! 0")
    case True
    then have neg: "l < 0" using l(3) l(4)[of 0] by force
    then have "l = - 1" using l(2) by simp
    then have "as_size l = 2 ^ 64 - 1" by (simp add: as_size_def)
    then have "as_size l \<noteq> int n" using assms(3) by auto
    with True l(1) neg show ?thesis by (simp add: bin_search_last_occurrence_def)
  next
    case False
    then have pos: "0 \<le> l" using l(5)[of 0] l(2) by force
    have "as_size l = l" using pos l(3) assms(3) by (auto intro!: as_size_id)
    then have res: "bin_search_last_occurrence arr n val = Some (if arr ! nat l = val then l else - 1)"
      using l pos assms(2) by (auto simp: bin_search_last_occurrence_def)
    have mem: "val \<in> set (take n arr) \<longleftrightarrow> arr ! nat l = val"
    proof
      assume "val \<in> set (take n arr)"
      then obtain k where k: "k < n" "arr ! k = val" using assms(2) by (auto simp: mem_take_iff)
      then have "int k \<le> l" using l(5)[of k] by force
      then have "val \<le> arr ! nat l" using assms(1) k l(3) pos by (auto simp: sorted_seg_def nat_less_iff le_nat_iff)
      with l(4)[of "nat l"] pos show "arr ! nat l = val" by simp
    qed (use assms(2) pos l(3) in \<open>auto simp: mem_take_iff nat_less_iff intro!: exI[of _ "nat l"]\<close>)
    have "arr ! k \<noteq> val" if "k < n" "nat l < k" for k using l(5)[of k] that pos by force
    then show ?thesis using res mem False pos l(3) by auto
  qed
qed

theorem bin_search_last_spec_witness:
  "(\<exists>res. bin_search_last_occurrence [1, 3, 3, 8] 4 3 = Some res
      \<and> 0 \<le> res \<and> res < 4 \<and> [1, 3, 3, 8] ! nat res = (3::int) \<and> (\<forall>k<4. nat res < k \<longrightarrow> [1, 3, 3, 8] ! k \<noteq> (3::int)))
   \<and> bin_search_last_occurrence [1, 3, 3, 8] 4 0 = None"
  using bin_search_last_spec[OF sorted_sample, of 3] bin_search_last_spec[OF sorted_sample, of 0] by simp

end
