(* ===== verification/C_Heap.thy ===== *)
theory C_Heap
  imports Prelude
begin

text \<open>
  Dynamic memory for programs with linked structures: a store of cells of one C \<open>struct\<close> type,
  with \<open>malloc\<close> and \<open>free\<close>. A pointer is an optional address, \<open>None\<close> the null
  pointer. Addresses are never handed out twice, so an access through a pointer whose cell was freed
  finds no cell: using null or dangling pointers and freeing twice are all \<open>None\<close>, the abnormal
  end. Whether the \<open>n\<close>-th allocation fails is up to the environment, the function \<open>oom\<close>.
\<close>

type_synonym ptr = "nat option"

record 'n heap =
  cells :: "nat \<rightharpoonup> 'n"
  fresh :: nat
  oom :: "nat \<Rightarrow> bool"

definition empty_heap :: "(nat \<Rightarrow> bool) \<Rightarrow> 'n heap" where
  "empty_heap f = \<lparr>cells = Map.empty, fresh = 0, oom = f\<rparr>"

definition malloc :: "'n heap \<Rightarrow> 'n \<Rightarrow> ptr \<times> 'n heap" where
  "malloc h n =
     (if oom h (fresh h) then (None, h\<lparr>fresh := Suc (fresh h)\<rparr>)
      else (Some (fresh h), h\<lparr>cells := (cells h)(fresh h \<mapsto> n), fresh := Suc (fresh h)\<rparr>))"

definition deref :: "'n heap \<Rightarrow> ptr \<Rightarrow> 'n c" where
  "deref h p = (case p of None \<Rightarrow> None | Some a \<Rightarrow> cells h a)"

definition store :: "'n heap \<Rightarrow> ptr \<Rightarrow> ('n \<Rightarrow> 'n) \<Rightarrow> 'n heap c" where
  "store h p f =
     (case p of None \<Rightarrow> None
      | Some a \<Rightarrow> (case cells h a of None \<Rightarrow> None
                   | Some n \<Rightarrow> Some (h\<lparr>cells := (cells h)(a \<mapsto> f n)\<rparr>)))"

definition free :: "'n heap \<Rightarrow> ptr \<Rightarrow> 'n heap c" where
  "free h p =
     (case p of None \<Rightarrow> Some h
      | Some a \<Rightarrow> if cells h a = None then None else Some (h\<lparr>cells := (cells h)(a := None)\<rparr>))"

text \<open>Every allocated cell was handed out before.\<close>

definition heap_ok :: "'n heap \<Rightarrow> bool" where
  "heap_ok h \<longleftrightarrow> (\<forall>a. cells h a \<noteq> None \<longrightarrow> a < fresh h)"

lemma heap_ok_dom: "heap_ok h \<longleftrightarrow> dom (cells h) \<subseteq> {..<fresh h}"
  by (auto simp: heap_ok_def)

lemma heap_ok_fresh: "heap_ok h \<Longrightarrow> cells h (fresh h) = None"
  by (auto simp: heap_ok_def)

lemma heap_ok_empty [simp]: "heap_ok (empty_heap f)"
  by (simp add: heap_ok_def empty_heap_def)

lemma heap_ok_malloc: "heap_ok h \<Longrightarrow> malloc h n = (p, h') \<Longrightarrow> heap_ok h'"
  by (auto simp: heap_ok_def malloc_def less_Suc_eq split: if_splits)

lemma heap_ok_store: "heap_ok h \<Longrightarrow> store h p f = Some h' \<Longrightarrow> heap_ok h'"
  by (auto simp: heap_ok_def store_def split: option.splits if_splits)

lemma heap_ok_free: "heap_ok h \<Longrightarrow> free h p = Some h' \<Longrightarrow> heap_ok h'"
  by (auto simp: heap_ok_def free_def split: option.splits if_splits)

lemma deref_Some [simp, c_simps]: "deref h (Some a) = cells h a"
  by (simp add: deref_def)

lemma deref_None [simp]: "deref h None = None"
  by (simp add: deref_def)

lemma store_Some [simp, c_simps]:
  "cells h a = Some n \<Longrightarrow> store h (Some a) f = Some (h\<lparr>cells := (cells h)(a \<mapsto> f n)\<rparr>)"
  by (simp add: store_def)

lemma free_Some [simp, c_simps]:
  "cells h a = Some n \<Longrightarrow> free h (Some a) = Some (h\<lparr>cells := (cells h)(a := None)\<rparr>)"
  by (simp add: free_def)

end
