(* ===== verification/Bst.thy ===== *)
theory Bst
  imports C_Stdio C_Heap "HOL-Library.Tree"
begin

text \<open>
  \<open>DS_Algos/BST/unbalanced/bst.c\<close>: an unbalanced binary search tree with parent pointers on the
  heap, and the command interpreter around it. Loops and recursions that follow pointers would not
  return on a cyclic heap; they are partial functions in the option monad.

  Functions that may change the heap return the new heap along with their result.
\<close>

record tree_node =
  key :: int
  parent :: ptr
  left :: ptr
  right :: ptr

type_synonym tree_heap = "tree_node heap"

definition new_tree_node :: "tree_heap \<Rightarrow> int \<Rightarrow> ptr \<Rightarrow> ptr \<Rightarrow> ptr \<Rightarrow> ptr \<times> tree_heap" where
  "new_tree_node h k l r p = malloc h \<lparr>key = k, parent = p, left = l, right = r\<rparr>"

definition destroy_tree_node :: "tree_heap \<Rightarrow> ptr \<Rightarrow> tree_heap c" where
  "destroy_tree_node h n = free h n"

partial_function (option) minimum_loop :: "tree_heap \<Rightarrow> ptr \<Rightarrow> ptr c" where
  "minimum_loop h root =
     do { n \<leftarrow> deref h root; if left n \<noteq> None then minimum_loop h (left n) else Some root }"

definition tree_minimum :: "tree_heap \<Rightarrow> ptr \<Rightarrow> ptr c" where
  "tree_minimum h root = (if root = None then Some None else minimum_loop h root)"

partial_function (option) maximum_loop :: "tree_heap \<Rightarrow> ptr \<Rightarrow> ptr c" where
  "maximum_loop h root =
     do { n \<leftarrow> deref h root; if right n \<noteq> None then maximum_loop h (right n) else Some root }"

definition tree_maximum :: "tree_heap \<Rightarrow> ptr \<Rightarrow> ptr c" where
  "tree_maximum h root = (if root = None then Some None else maximum_loop h root)"

partial_function (option) insert_loop :: "tree_heap \<Rightarrow> int \<Rightarrow> ptr \<Rightarrow> ptr \<Rightarrow> ptr c" where
  "insert_loop h k prev cur =
     (if cur = None then Some prev
      else do { n \<leftarrow> deref h cur;
                insert_loop h k cur (if k < key n then left n else right n) })"

definition tree_insert :: "tree_heap \<Rightarrow> ptr \<Rightarrow> int \<Rightarrow> (ptr \<times> tree_heap) c" where
  "tree_insert h root k =
     do { prev \<leftarrow> insert_loop h k None root;
          if prev = None then Some (new_tree_node h k None None None)
          else do { let (to_insert, h1) = new_tree_node h k None None prev;
                    if to_insert = None then Some (None, h1)
                    else do { n \<leftarrow> deref h1 prev;
                              h2 \<leftarrow> (if k < key n
                                     then store h1 prev (\<lambda>x. x\<lparr>left := to_insert\<rparr>)
                                     else store h1 prev (\<lambda>x. x\<lparr>right := to_insert\<rparr>));
                              Some (root, h2) } } }"

partial_function (option) tree_find :: "tree_heap \<Rightarrow> ptr \<Rightarrow> int \<Rightarrow> ptr c" where
  "tree_find h root k =
     (if root = None then Some None
      else do { n \<leftarrow> deref h root;
                if key n \<noteq> k then tree_find h (if k < key n then left n else right n) k
                else Some root })"

definition transplant :: "tree_heap \<Rightarrow> ptr \<Rightarrow> ptr \<Rightarrow> tree_heap c" where
  "transplant h u v =
     do { un \<leftarrow> deref h u;
          h1 \<leftarrow> (if parent un \<noteq> None
                 then do { pn \<leftarrow> deref h (parent un);
                           if u = left pn then store h (parent un) (\<lambda>x. x\<lparr>left := v\<rparr>)
                           else store h (parent un) (\<lambda>x. x\<lparr>right := v\<rparr>) }
                 else Some h);
          if v \<noteq> None
          then do { un1 \<leftarrow> deref h1 u; store h1 v (\<lambda>x. x\<lparr>parent := parent un1\<rparr>) }
          else Some h1 }"

definition tree_delete_internal :: "tree_heap \<Rightarrow> ptr \<Rightarrow> ptr \<Rightarrow> (ptr \<times> tree_heap) c" where
  "tree_delete_internal h root to_del =
     do { d \<leftarrow> deref h to_del;
          (newroot, h1) \<leftarrow>
            (if left d = None then
               do { h1 \<leftarrow> transplant h to_del (right d);
                    d1 \<leftarrow> deref h1 to_del;
                    Some (if parent d1 = None then right d1 else root, h1) }
             else if right d = None then
               do { h1 \<leftarrow> transplant h to_del (left d);
                    d1 \<leftarrow> deref h1 to_del;
                    Some (if parent d1 = None then left d1 else root, h1) }
             else
               do { successor \<leftarrow> tree_minimum h (right d);
                    h1 \<leftarrow>
                      (if successor = right d then
                         do { h1 \<leftarrow> store h successor (\<lambda>x. x\<lparr>left := left d\<rparr>);
                              transplant h1 to_del successor }
                       else
                         do { s \<leftarrow> deref h successor;
                              h1 \<leftarrow> transplant h successor (right s);
                              d1 \<leftarrow> deref h1 to_del;
                              h2 \<leftarrow> store h1 successor (\<lambda>x. x\<lparr>right := right d1\<rparr>);
                              d2 \<leftarrow> deref h2 to_del;
                              h3 \<leftarrow> store h2 successor (\<lambda>x. x\<lparr>left := left d2\<rparr>);
                              s3 \<leftarrow> deref h3 successor;
                              h4 \<leftarrow> store h3 (right s3) (\<lambda>x. x\<lparr>parent := successor\<rparr>);
                              s4 \<leftarrow> deref h4 successor;
                              h5 \<leftarrow> store h4 (left s4) (\<lambda>x. x\<lparr>parent := successor\<rparr>);
                              transplant h5 to_del successor });
                    s1 \<leftarrow> deref h1 successor;
                    Some (if parent s1 = None then successor else root, h1) });
          h2 \<leftarrow> destroy_tree_node h1 to_del;
          Some (newroot, h2) }"

definition tree_delete :: "tree_heap \<Rightarrow> ptr \<Rightarrow> int \<Rightarrow> (ptr \<times> tree_heap) c" where
  "tree_delete h root k =
     do { to_delete \<leftarrow> tree_find h root k;
          if to_delete = None then Some (root, h) else tree_delete_internal h root to_delete }"

partial_function (option) successor_loop :: "tree_heap \<Rightarrow> ptr \<Rightarrow> ptr \<Rightarrow> ptr c" where
  "successor_loop h root p =
     (if p = None then Some p
      else do { pn \<leftarrow> deref h p;
                if root \<noteq> left pn then successor_loop h p (parent pn) else Some p })"

definition tree_successor :: "tree_heap \<Rightarrow> ptr \<Rightarrow> ptr c" where
  "tree_successor h root =
     (if root = None then Some None
      else do { n \<leftarrow> deref h root;
                if right n \<noteq> None then tree_minimum h (right n)
                else successor_loop h root (parent n) })"

partial_function (option) predecessor_loop :: "tree_heap \<Rightarrow> ptr \<Rightarrow> ptr \<Rightarrow> ptr c" where
  "predecessor_loop h root p =
     (if p = None then Some p
      else do { pn \<leftarrow> deref h p;
                if root \<noteq> right pn then predecessor_loop h p (parent pn) else Some p })"

definition tree_predecessor :: "tree_heap \<Rightarrow> ptr \<Rightarrow> ptr c" where
  "tree_predecessor h root =
     (if root = None then Some None
      else do { n \<leftarrow> deref h root;
                if left n \<noteq> None then tree_maximum h (left n)
                else predecessor_loop h root (parent n) })"

partial_function (option) destroy_tree :: "tree_heap \<Rightarrow> ptr \<Rightarrow> tree_heap c" where
  "destroy_tree h root =
     (if root = None then Some h
      else do { n \<leftarrow> deref h root;
                h1 \<leftarrow> destroy_tree h (left n);
                n1 \<leftarrow> deref h1 root;
                h2 \<leftarrow> destroy_tree h1 (right n1);
                destroy_tree_node h2 root })"

partial_function (option) pre_order_traversal :: "tree_heap \<Rightarrow> ptr \<Rightarrow> string c" where
  "pre_order_traversal h root =
     (if root = None then Some []
      else do { n \<leftarrow> deref h root;
                l \<leftarrow> pre_order_traversal h (left n);
                r \<leftarrow> pre_order_traversal h (right n);
                Some (printf ''*** Entered %d\<newline>'' [IntA (key n)] @ printf ''    L:\<newline>'' [] @ l
                      @ printf ''    R:\<newline>'' [] @ r @ printf ''*** Leaving %d\<newline>'' [IntA (key n)]) })"

declare minimum_loop.simps [code] maximum_loop.simps [code] insert_loop.simps [code]
declare tree_find.simps [code] successor_loop.simps [code] predecessor_loop.simps [code]
declare destroy_tree.simps [code] pre_order_traversal.simps [code]

subsection \<open>The command interpreter\<close>

text \<open>
  One iteration of the loop of \<open>main\<close>, on the line it read: the new root and heap, what goes to
  standard output and to standard error, and whether the loop goes on.
\<close>

record bst_result =
  br_root :: ptr
  br_heap :: tree_heap
  br_out :: string
  br_err :: string
  br_go :: bool

definition show_child :: "tree_heap \<Rightarrow> ptr \<Rightarrow> string c" where
  "show_child h p =
     (if p \<noteq> None then do { n \<leftarrow> deref h p; Some (printf ''%d; '' [IntA (key n)]) }
      else Some (printf ''N/A; '' []))"

definition bst_find_cmd :: "tree_heap \<Rightarrow> ptr \<Rightarrow> int \<Rightarrow> bst_result c" where
  "bst_find_cmd h root k =
     do { n \<leftarrow> tree_find h root k;
          if n = None
          then Some \<lparr>br_root = root, br_heap = h, br_out = printf ''No such key: %d\<newline>'' [IntA k], br_err = [], br_go = True\<rparr>
          else do { x \<leftarrow> deref h n;
                    l \<leftarrow> show_child h (left x);
                    r \<leftarrow> show_child h (right x);
                    p \<leftarrow> show_child h (parent x);
                    Some \<lparr>br_root = root, br_heap = h,
                          br_out = printf ''Found key %d. Left = '' [IntA k] @ l @ printf ''Right = '' [] @ r
                                   @ printf ''Parent = '' [] @ p @ printf ''\<newline>'' [],
                          br_err = [], br_go = True\<rparr> } }"

text \<open>
  The commands \<open>P\<close>, \<open>S\<close>, \<open>H\<close> and \<open>L\<close>: find the key, apply the query to
  its node and print the answer. Only the first two allow the null pointer as an answer.
\<close>

definition bst_query_cmd ::
  "(tree_heap \<Rightarrow> ptr \<Rightarrow> ptr c) \<Rightarrow> string \<Rightarrow> string option \<Rightarrow> tree_heap \<Rightarrow> ptr \<Rightarrow> int \<Rightarrow> bst_result c" where
  "bst_query_cmd query found absent h root k =
     do { n1 \<leftarrow> tree_find h root k;
          if n1 = None
          then Some \<lparr>br_root = root, br_heap = h, br_out = [], br_err = printf ''No such key: %d\<newline>'' [IntA k], br_go = True\<rparr>
          else do { n2 \<leftarrow> query h n1;
                    x1 \<leftarrow> deref h n1;
                    out \<leftarrow> (case (n2, absent) of
                              (None, Some fmt) \<Rightarrow> Some (printf fmt [IntA (key x1)])
                            | _ \<Rightarrow> do { x2 \<leftarrow> deref h n2; Some (printf found [IntA (key x1), IntA (key x2)]) });
                    Some \<lparr>br_root = root, br_heap = h, br_out = out, br_err = [], br_go = True\<rparr> } }"

definition bst_command :: "tree_heap \<Rightarrow> ptr \<Rightarrow> string \<Rightarrow> bst_result c" where
  "bst_command h root line =
     do { i \<leftarrow> sscanf line '' I %d'';
          if scan_ret i = 1 then
            do { (new_root, h1) \<leftarrow> tree_insert h root (arg_int (sr_args i ! 0));
                 Some (if new_root = None
                       then \<lparr>br_root = root, br_heap = h1, br_out = [], br_err = printf ''Out of memory; couldn't insert node.\<newline>'' [], br_go = True\<rparr>
                       else \<lparr>br_root = new_root, br_heap = h1, br_out = [], br_err = [], br_go = True\<rparr>) }
          else do { r \<leftarrow> sscanf line '' R %d'';
          if scan_ret r = 1 then
            do { (new_root, h1) \<leftarrow> tree_delete h root (arg_int (sr_args r ! 0));
                 Some \<lparr>br_root = new_root, br_heap = h1, br_out = [], br_err = [], br_go = True\<rparr> }
          else do { f \<leftarrow> sscanf line '' F %d'';
          if scan_ret f = 1 then bst_find_cmd h root (arg_int (sr_args f ! 0))
          else do { p \<leftarrow> sscanf line '' P %d'';
          if scan_ret p = 1 then
            bst_query_cmd tree_predecessor ''Predecessor of %d is %d\<newline>'' (Some ''Node %d has no predecessor.\<newline>'')
              h root (arg_int (sr_args p ! 0))
          else do { s \<leftarrow> sscanf line '' S %d'';
          if scan_ret s = 1 then
            bst_query_cmd tree_successor ''Successor of %d is %d\<newline>'' (Some ''Node %d has no successor.\<newline>'')
              h root (arg_int (sr_args s ! 0))
          else do { m \<leftarrow> sscanf line '' H %d'';
          if scan_ret m = 1 then
            bst_query_cmd tree_maximum ''Subtree rooted at %d has maximum = %d\<newline>'' None
              h root (arg_int (sr_args m ! 0))
          else do { l \<leftarrow> sscanf line '' L %d'';
          if scan_ret l = 1 then
            bst_query_cmd tree_minimum ''Subtree rooted at %d has minimum = %d\<newline>'' None
              h root (arg_int (sr_args l ! 0))
          else do { e \<leftarrow> sscanf line '' %c'';
          if scan_ret e = 1 then
            (let op = arg_chr (sr_args e ! 0) in
             if op = CHR ''D'' then
               do { out \<leftarrow> pre_order_traversal h root;
                    Some \<lparr>br_root = root, br_heap = h, br_out = out, br_err = [], br_go = True\<rparr> }
             else if op = CHR ''Q'' then
               Some \<lparr>br_root = root, br_heap = h, br_out = [], br_err = [], br_go = False\<rparr>
             else
               Some \<lparr>br_root = root, br_heap = h, br_out = [], br_err = printf ''Invalid input\<newline>'' [], br_go = True\<rparr>)
          else Some \<lparr>br_root = root, br_heap = h, br_out = [], br_err = printf ''Invalid input\<newline>'' [], br_go = False\<rparr>
          } } } } } } } }"

function bst_loop :: "tree_heap \<Rightarrow> ptr \<Rightarrow> string \<Rightarrow> bst_result c" where
  "bst_loop h root s =
     (case fgets 1024 s of
        None \<Rightarrow> Some \<lparr>br_root = root, br_heap = h, br_out = printf ''> '' [], br_err = [], br_go = False\<rparr>
      | Some (line, s') \<Rightarrow>
          do { r \<leftarrow> bst_command h root line;
               if br_go r
               then do { t \<leftarrow> bst_loop (br_heap r) (br_root r) s';
                         Some (t\<lparr>br_out := printf ''> '' [] @ br_out r @ br_out t, br_err := br_err r @ br_err t\<rparr>) }
               else Some (r\<lparr>br_out := printf ''> '' [] @ br_out r\<rparr>) })"
  by pat_completeness auto
termination
  by (relation "measure (\<lambda>(h, root, s). length s)") (auto dest: fgets_less)

declare bst_loop.simps [simp del]

definition bst_banner :: string where
  "bst_banner = ''The available commands are:\<newline>''
     @ ''I K - Inserts a key with the value K\<newline>''
     @ ''R K - Removes the key with value K\<newline>''
     @ ''F K - Finds the entry with value K\<newline>''
     @ ''P K - Searches for the predecessor of K\<newline>''
     @ ''S K - Searches for the successor of K\<newline>''
     @ ''H K - Finds the maximum key of the subtree rooted at K\<newline>''
     @ ''L K - Finds the minimum key of the subtree rooted at K\<newline>''
     @ ''D - Dumps the tree (pre-order traversal)\<newline>''
     @ ''Q - Quit\<newline>''"

definition bst_main :: "(nat \<Rightarrow> bool) \<Rightarrow> string \<Rightarrow> (string \<times> string) c" where
  "bst_main fails input =
     do { r \<leftarrow> bst_loop (empty_heap fails) None input;
          h \<leftarrow> destroy_tree (br_heap r) (br_root r);
          Some (printf bst_banner [] @ br_out r, br_err r) }"

end
