(* ===== verification/Bst_Proofs.thy ===== *)
theory Bst_Proofs
  imports Bst
begin

text \<open>
  The pointer tree of \<open>bst.c\<close> refines a functional tree. A functional tree carries the address
  and the key of every node; \<open>is_shape\<close> says that the heap holds it (keys and child pointers),
  \<open>is_tree\<close> that the parent pointers are right as well. A position in a tree is a context
  (a zipper): the path from the node up to the root, with the subtrees hanging off it.
\<close>

type_synonym atree = "(nat \<times> int) tree"
type_synonym store = "nat \<rightharpoonup> tree_node"

fun rootp :: "atree \<Rightarrow> ptr" where
  "rootp \<langle>\<rangle> = None"
| "rootp \<langle>l, x, r\<rangle> = Some (fst x)"

abbreviation addrs :: "atree \<Rightarrow> nat set" where
  "addrs t \<equiv> fst ` set_tree t"

abbreviation keys :: "atree \<Rightarrow> int list" where
  "keys t \<equiv> map snd (inorder t)"

abbreviation addr_list :: "atree \<Rightarrow> nat list" where
  "addr_list t \<equiv> map fst (inorder t)"

fun is_shape :: "store \<Rightarrow> atree \<Rightarrow> bool" where
  "is_shape c \<langle>\<rangle> = True"
| "is_shape c \<langle>l, x, r\<rangle> =
     (\<exists>p. c (fst x) = Some \<lparr>key = snd x, parent = p, left = rootp l, right = rootp r\<rparr>
      \<and> is_shape c l \<and> is_shape c r)"

fun is_tree :: "store \<Rightarrow> ptr \<Rightarrow> atree \<Rightarrow> bool" where
  "is_tree c p \<langle>\<rangle> = True"
| "is_tree c p \<langle>l, x, r\<rangle> =
     (c (fst x) = Some \<lparr>key = snd x, parent = p, left = rootp l, right = rootp r\<rparr>
      \<and> is_tree c (Some (fst x)) l \<and> is_tree c (Some (fst x)) r)"

lemma is_tree_shape: "is_tree c p t \<Longrightarrow> is_shape c t"
  by (induction t arbitrary: p) auto

lemma rootp_None [simp]: "rootp t = None \<longleftrightarrow> t = \<langle>\<rangle>"
  by (cases t) auto

lemma rootp_addrs: "rootp t = Some a \<Longrightarrow> a \<in> addrs t"
  by (cases t) auto

lemma addrs_inorder: "addrs t = set (addr_list t)"
  by simp

lemma is_tree_frame: "(\<And>a. a \<in> addrs t \<Longrightarrow> c' a = c a) \<Longrightarrow> is_tree c p t \<Longrightarrow> is_tree c' p t"
  by (induction t arbitrary: p) auto

lemma is_shape_frame: "(\<And>a. a \<in> addrs t \<Longrightarrow> c' a = c a) \<Longrightarrow> is_shape c t \<Longrightarrow> is_shape c' t"
  by (induction t) auto

subsection \<open>Queries that follow child pointers\<close>

lemma minimum_loop_eq:
  "is_shape (cells h) t \<Longrightarrow> t \<noteq> \<langle>\<rangle> \<Longrightarrow> minimum_loop h (rootp t) = Some (Some (fst (hd (inorder t))))"
proof (induction t)
  case (Node l x r)
  show ?case
    using Node by (subst minimum_loop.simps) (cases "l = \<langle>\<rangle>", auto)
qed simp

lemma maximum_loop_eq:
  "is_shape (cells h) t \<Longrightarrow> t \<noteq> \<langle>\<rangle> \<Longrightarrow> maximum_loop h (rootp t) = Some (Some (fst (last (inorder t))))"
proof (induction t)
  case (Node l x r)
  show ?case
    using Node by (subst maximum_loop.simps) (cases "r = \<langle>\<rangle>", auto)
qed simp

definition first_addr :: "(nat \<times> int) list \<Rightarrow> ptr" where
  "first_addr xs = (case xs of [] \<Rightarrow> None | x # _ \<Rightarrow> Some (fst x))"

definition last_addr :: "(nat \<times> int) list \<Rightarrow> ptr" where
  "last_addr xs = (if xs = [] then None else Some (fst (last xs)))"

lemma first_addr_simps [simp]:
  "first_addr [] = None" "first_addr (x # xs) = Some (fst x)"
  by (simp_all add: first_addr_def)

lemma first_addr_hd: "xs \<noteq> [] \<Longrightarrow> first_addr xs = Some (fst (hd xs))"
  by (cases xs) simp_all

lemma first_addr_append: "first_addr (xs @ ys) = (if xs = [] then first_addr ys else first_addr xs)"
  by (cases xs) simp_all

lemma last_addr_append: "last_addr (xs @ ys) = (if ys = [] then last_addr xs else last_addr ys)"
  by (simp add: last_addr_def)

lemma tree_minimum_eq: "is_shape (cells h) t \<Longrightarrow> tree_minimum h (rootp t) = Some (first_addr (inorder t))"
  by (cases "inorder t") (auto simp: tree_minimum_def minimum_loop_eq)

lemma tree_maximum_eq: "is_shape (cells h) t \<Longrightarrow> tree_maximum h (rootp t) = Some (last_addr (inorder t))"
  by (auto simp: tree_maximum_def maximum_loop_eq last_addr_def)

subsection \<open>Contexts\<close>

datatype ctx = Top | CL ctx "nat \<times> int" atree | CR atree "nat \<times> int" ctx

fun plug :: "ctx \<Rightarrow> atree \<Rightarrow> atree" where
  "plug Top t = t"
| "plug (CL C x r) t = plug C \<langle>t, x, r\<rangle>"
| "plug (CR l x C) t = plug C \<langle>l, x, t\<rangle>"

fun cpar :: "ctx \<Rightarrow> ptr" where
  "cpar Top = None"
| "cpar (CL C x r) = Some (fst x)"
| "cpar (CR l x C) = Some (fst x)"

fun pre :: "ctx \<Rightarrow> (nat \<times> int) list" where
  "pre Top = []"
| "pre (CL C x r) = pre C"
| "pre (CR l x C) = pre C @ inorder l @ [x]"

fun post :: "ctx \<Rightarrow> (nat \<times> int) list" where
  "post Top = []"
| "post (CL C x r) = x # inorder r @ post C"
| "post (CR l x C) = post C"

abbreviation caddrs :: "ctx \<Rightarrow> nat set" where
  "caddrs C \<equiv> fst ` (set (pre C) \<union> set (post C))"

fun is_ctx :: "store \<Rightarrow> ctx \<Rightarrow> ptr \<Rightarrow> bool" where
  "is_ctx c Top q = True"
| "is_ctx c (CL C x r) q =
     (c (fst x) = Some \<lparr>key = snd x, parent = cpar C, left = q, right = rootp r\<rparr>
      \<and> is_tree c (Some (fst x)) r \<and> is_ctx c C (Some (fst x)))"
| "is_ctx c (CR l x C) q =
     (c (fst x) = Some \<lparr>key = snd x, parent = cpar C, left = rootp l, right = q\<rparr>
      \<and> is_tree c (Some (fst x)) l \<and> is_ctx c C (Some (fst x)))"

lemma inorder_plug [simp]: "inorder (plug C t) = pre C @ inorder t @ post C"
  by (induction C arbitrary: t) auto

lemma set_tree_plug [simp]: "set_tree (plug C t) = set (pre C) \<union> set_tree t \<union> set (post C)"
  by (simp add: Un_assoc flip: set_inorder)

lemma is_tree_plug: "is_tree c None (plug C t) \<longleftrightarrow> is_ctx c C (rootp t) \<and> is_tree c (cpar C) t"
  by (induction C arbitrary: t) auto

lemma is_ctx_frame: "(\<And>a. a \<in> caddrs C \<Longrightarrow> c' a = c a) \<Longrightarrow> is_ctx c C q \<Longrightarrow> is_ctx c' C q"
proof (induction C arbitrary: q)
  case (CL C x r)
  then have "is_tree c' (Some (fst x)) r" by (intro is_tree_frame[of r c' c]) auto
  with CL show ?case by auto
next
  case (CR l x C)
  then have "is_tree c' (Some (fst x)) l" by (intro is_tree_frame[of l c' c]) auto
  with CR show ?case by auto
qed simp

lemma is_tree_upd [simp]: "a \<notin> addrs t \<Longrightarrow> is_tree (c(a := v)) p t = is_tree c p t"
  by (induction t arbitrary: p) auto

lemma is_shape_upd [simp]: "a \<notin> addrs t \<Longrightarrow> is_shape (c(a := v)) t = is_shape c t"
  by (induction t) auto

lemma is_ctx_upd [simp]: "a \<notin> caddrs C \<Longrightarrow> is_ctx (c(a := v)) C q = is_ctx c C q"
  by (induction C arbitrary: q) (auto simp: image_Un)

lemma cpar_caddrs: "cpar C = Some a \<Longrightarrow> a \<in> caddrs C"
  by (cases C) auto

lemma rootp_plug: "rootp (plug C t) = (case C of Top \<Rightarrow> rootp t | _ \<Rightarrow> rootp (plug C \<langle>\<rangle>))"
proof (induction C arbitrary: t)
  case (CL C x r)
  from CL[of "\<langle>t, x, r\<rangle>"] CL[of "\<langle>\<langle>\<rangle>, x, r\<rangle>"] show ?case by (cases C) auto
next
  case (CR l x C)
  from CR[of "\<langle>l, x, t\<rangle>"] CR[of "\<langle>l, x, \<langle>\<rangle>\<rangle>"] show ?case by (cases C) auto
qed simp

lemma rootp_plug_cong: "C \<noteq> Top \<or> rootp t = rootp u \<Longrightarrow> rootp (plug C t) = rootp (plug C u)"
  by (cases C) (metis rootp_plug ctx.simps(10,11,12) plug.simps(1))+

subsection \<open>Finding a key\<close>

fun focus :: "int \<Rightarrow> ctx \<Rightarrow> atree \<Rightarrow> ctx \<times> atree" where
  "focus k C \<langle>\<rangle> = (C, \<langle>\<rangle>)"
| "focus k C \<langle>l, x, r\<rangle> =
     (if snd x \<noteq> k then if k < snd x then focus k (CL C x r) l else focus k (CR l x C) r
      else (C, \<langle>l, x, r\<rangle>))"

lemma focus_plug: "focus k C t = (D, u) \<Longrightarrow> plug D u = plug C t"
  by (induction t arbitrary: C) (auto split: if_splits)

lemma focus_root: "focus k C t = (D, \<langle>l, x, r\<rangle>) \<Longrightarrow> snd x = k"
  by (induction t arbitrary: C) (auto split: if_splits)

lemma focus_Leaf:
  "focus k C t = (D, \<langle>\<rangle>) \<Longrightarrow> sorted (keys t) \<Longrightarrow> k \<notin> set (keys t)"
proof (induction t arbitrary: C)
  case (Node l x r)
  from Node.prems(2) have s: "sorted (keys l)" "sorted (keys r)"
    "\<And>v. v \<in> set (keys l) \<Longrightarrow> v \<le> snd x" "\<And>v. v \<in> set (keys r) \<Longrightarrow> snd x \<le> v"
    by (auto simp: sorted_append)
  from Node.prems(1) consider "k < snd x" "focus k (CL C x r) l = (D, \<langle>\<rangle>)"
    | "snd x < k" "focus k (CR l x C) r = (D, \<langle>\<rangle>)"
    by (auto split: if_splits)
  then show ?case
  proof cases
    case 1
    with Node.IH(1) s(1) have "k \<notin> set (keys l)" by blast
    moreover have "k \<notin> set (keys r)" using s(4)[of k] 1(1) by linarith
    ultimately show ?thesis using 1(1) by auto
  next
    case 2
    with Node.IH(2) s(2) have "k \<notin> set (keys r)" by blast
    moreover have "k \<notin> set (keys l)" using s(3)[of k] 2(1) by linarith
    ultimately show ?thesis using 2(1) by auto
  qed
qed simp

lemma tree_find_eq: "is_shape (cells h) t \<Longrightarrow> tree_find h (rootp t) k = Some (rootp (snd (focus k C t)))"
proof (induction t arbitrary: C)
  case Leaf
  then show ?case by (subst tree_find.simps) simp
next
  case (Node l x r)
  then show ?case by (subst tree_find.simps) auto
qed

lemma tree_find_cases:
  assumes "is_shape (cells h) t" "sorted (keys t)"
  obtains "k \<notin> set (keys t)" "tree_find h (rootp t) k = Some None"
  | C l a r where "t = plug C \<langle>l, (a, k), r\<rangle>" "tree_find h (rootp t) k = Some (Some a)"
proof (cases "focus k Top t")
  case (Pair C u)
  note find = tree_find_eq[OF assms(1), of k Top]
  show ?thesis
  proof (cases u)
    case Leaf
    with Pair assms(2) focus_Leaf find show ?thesis by (intro that(1)) auto
  next
    case (Node l x r)
    with Pair have "snd x = k" "t = plug C \<langle>l, x, r\<rangle>" using focus_root focus_plug[of k Top t] by auto
    with Node Pair find show ?thesis by (intro that(2)[of C l "fst x" r]) auto
  qed
qed

subsection \<open>Inorder neighbours\<close>

lemma successor_loop_eq:
  assumes "is_ctx (cells h) C (Some a)" "distinct (map fst (pre C) @ a # map fst (post C))"
  shows "successor_loop h (Some a) (cpar C) = Some (first_addr (post C))"
  using assms
proof (induction C arbitrary: a)
  case (CR l x C)
  then have "rootp l \<noteq> Some a" using rootp_addrs[of l a] by auto
  moreover have "successor_loop h (Some (fst x)) (cpar C) = Some (first_addr (post C))"
    using CR by (intro CR.IH) auto
  ultimately show ?case using CR.prems by (subst successor_loop.simps) auto
qed (subst successor_loop.simps; auto)+

lemma predecessor_loop_eq:
  assumes "is_ctx (cells h) C (Some a)" "distinct (map fst (pre C) @ a # map fst (post C))"
  shows "predecessor_loop h (Some a) (cpar C) = Some (last_addr (pre C))"
  using assms
proof (induction C arbitrary: a)
  case (CL C x r)
  then have "rootp r \<noteq> Some a" using rootp_addrs[of r a] by auto
  moreover have "predecessor_loop h (Some (fst x)) (cpar C) = Some (last_addr (pre C))"
    using CL by (intro CL.IH) auto
  ultimately show ?case using CL.prems by (subst predecessor_loop.simps) auto
qed (subst predecessor_loop.simps; auto simp: last_addr_def)+

lemma tree_successor_eq:
  assumes "is_tree (cells h) None (plug C \<langle>l, (a, k), r\<rangle>)" "distinct (addr_list (plug C \<langle>l, (a, k), r\<rangle>))"
  shows "tree_successor h (Some a) = Some (first_addr (inorder r @ post C))"
proof -
  have t: "is_ctx (cells h) C (Some a)" "is_tree (cells h) (Some a) r"
    and a: "cells h a = Some \<lparr>key = k, parent = cpar C, left = rootp l, right = rootp r\<rparr>"
    using assms(1) by (auto simp: is_tree_plug)
  have "successor_loop h (Some a) (cpar C) = Some (first_addr (post C))"
    using t(1) assms(2) by (intro successor_loop_eq) auto
  moreover have "tree_minimum h (rootp r) = Some (first_addr (inorder r))"
    using t(2) by (intro tree_minimum_eq is_tree_shape)
  ultimately show ?thesis using a by (auto simp: tree_successor_def first_addr_append)
qed

lemma tree_predecessor_eq:
  assumes "is_tree (cells h) None (plug C \<langle>l, (a, k), r\<rangle>)" "distinct (addr_list (plug C \<langle>l, (a, k), r\<rangle>))"
  shows "tree_predecessor h (Some a) = Some (last_addr (pre C @ inorder l))"
proof -
  have t: "is_ctx (cells h) C (Some a)" "is_tree (cells h) (Some a) l"
    and a: "cells h a = Some \<lparr>key = k, parent = cpar C, left = rootp l, right = rootp r\<rparr>"
    using assms(1) by (auto simp: is_tree_plug)
  have "predecessor_loop h (Some a) (cpar C) = Some (last_addr (pre C))"
    using t(1) assms(2) by (intro predecessor_loop_eq) auto
  moreover have "tree_maximum h (rootp l) = Some (last_addr (inorder l))"
    using t(2) by (intro tree_maximum_eq is_tree_shape)
  ultimately show ?thesis using a by (auto simp: tree_predecessor_def last_addr_append)
qed

subsection \<open>Insertion\<close>

fun ins_focus :: "int \<Rightarrow> ctx \<Rightarrow> atree \<Rightarrow> ctx" where
  "ins_focus k C \<langle>\<rangle> = C"
| "ins_focus k C \<langle>l, x, r\<rangle> = (if k < snd x then ins_focus k (CL C x r) l else ins_focus k (CR l x C) r)"

lemma ins_focus_plug: "plug (ins_focus k C t) \<langle>\<rangle> = plug C t"
  by (induction t arbitrary: C) auto

lemma insert_loop_eq:
  "is_shape (cells h) t \<Longrightarrow> insert_loop h k (cpar C) (rootp t) = Some (cpar (ins_focus k C t))"
proof (induction t arbitrary: C)
  case Leaf
  then show ?case by (subst insert_loop.simps) simp
next
  case (Node l x r)
  note IH = Node.IH(1)[of "CL C x r"] Node.IH(2)[of "CR l x C"]
  from Node.prems IH show ?case by (subst insert_loop.simps) auto
qed

text \<open>The path that insertion takes keeps the keys to its left at most \<open>k\<close> and those to its right above.\<close>

lemma ins_focus_bounds:
  assumes "sorted (keys t)" "\<forall>x\<in>set (pre C). snd x \<le> k" "\<forall>x\<in>set (post C). k < snd x"
  shows "(\<forall>x\<in>set (pre (ins_focus k C t)). snd x \<le> k) \<and> (\<forall>x\<in>set (post (ins_focus k C t)). k < snd x)"
  using assms
proof (induction t arbitrary: C)
  case (Node l x r)
  from Node.prems(1) have s: "sorted (keys l)" "sorted (keys r)"
    "\<And>y. y \<in> set (inorder l) \<Longrightarrow> snd y \<le> snd x" "\<And>y. y \<in> set (inorder r) \<Longrightarrow> snd x \<le> snd y"
    by (auto simp: sorted_append)
  show ?case
  proof (cases "k < snd x")
    case True
    then show ?thesis using Node.IH(1)[of "CL C x r"] Node.prems s by fastforce
  next
    case False
    then show ?thesis using Node.IH(2)[of "CR l x C"] Node.prems s by fastforce
  qed
qed auto

text \<open>Which way the last step of the path went is the comparison \<open>tree_insert\<close> makes again.\<close>

lemma ins_focus_side:
  assumes "case C of Top \<Rightarrow> True | CL _ x _ \<Rightarrow> k < snd x | CR _ x _ \<Rightarrow> \<not> k < snd x"
  shows "case ins_focus k C t of Top \<Rightarrow> True | CL _ x _ \<Rightarrow> k < snd x | CR _ x _ \<Rightarrow> \<not> k < snd x"
  using assms by (induction t arbitrary: C) auto

subsection \<open>Updates at a position\<close>

definition link :: "ctx \<Rightarrow> ptr \<Rightarrow> store \<Rightarrow> store" where
  "link C q c =
     (case C of Top \<Rightarrow> c
      | CL _ x _ \<Rightarrow> c(fst x \<mapsto> (the (c (fst x)))\<lparr>left := q\<rparr>)
      | CR _ x _ \<Rightarrow> c(fst x \<mapsto> (the (c (fst x)))\<lparr>right := q\<rparr>))"

definition set_par :: "ptr \<Rightarrow> ptr \<Rightarrow> store \<Rightarrow> store" where
  "set_par v q c = (case v of None \<Rightarrow> c | Some b \<Rightarrow> c(b \<mapsto> (the (c b))\<lparr>parent := q\<rparr>))"

lemma link_other: "cpar C \<noteq> Some a \<Longrightarrow> link C q c a = c a"
  by (cases C) (auto simp: link_def)

lemma set_par_other: "v \<noteq> Some a \<Longrightarrow> set_par v q c a = c a"
  by (cases v) (auto simp: set_par_def)

lemma link_dom: "is_ctx c C p \<Longrightarrow> dom (link C q c) = dom c"
  by (cases C) (auto simp: link_def split: if_splits)

lemma set_par_dom: "v = None \<or> the v \<in> dom c \<Longrightarrow> dom (set_par v q c) = dom c"
  by (cases v) (auto simp: set_par_def split: if_splits)

lemma is_ctx_link:
  assumes "is_ctx c C p" "distinct (map fst (pre C @ post C))"
  shows "is_ctx (link C q c) C q"
proof (cases C)
  case (CL D x r)
  moreover have "is_tree (link C q c) (Some (fst x)) r"
    using assms CL by (intro is_tree_frame[of r "link C q c" c] link_other) auto
  moreover have "is_ctx (link C q c) D (Some (fst x))"
    using assms CL by (intro is_ctx_frame[of D "link C q c" c] link_other) auto
  ultimately show ?thesis using assms(1) by (simp add: link_def)
next
  case (CR l x D)
  moreover have "is_tree (link C q c) (Some (fst x)) l"
    using assms CR by (intro is_tree_frame[of l "link C q c" c] link_other) auto
  moreover have "is_ctx (link C q c) D (Some (fst x))"
    using assms CR by (intro is_ctx_frame[of D "link C q c" c] link_other) auto
  ultimately show ?thesis using assms(1) by (simp add: link_def)
qed simp

lemma is_tree_set_par:
  assumes "is_tree c p t" "distinct (addr_list t)"
  shows "is_tree (set_par (rootp t) q c) q t"
proof (cases t)
  case (Node l x r)
  moreover have "is_tree (set_par (rootp t) q c) (Some (fst x)) l" "is_tree (set_par (rootp t) q c) (Some (fst x)) r"
    using assms Node by (auto simp: set_par_def)
  ultimately show ?thesis using assms(1) by (simp add: set_par_def)
qed simp

lemma transplant_eq:
  assumes "is_ctx (cells h) C (Some a)" "cells h a = Some n" "parent n = cpar C" "a \<notin> caddrs C"
    and "v = None \<or> the v \<in> dom (cells h)"
  shows "transplant h (Some a) v = Some (h\<lparr>cells := set_par v (cpar C) (link C v (cells h))\<rparr>)"
proof -
  have link: "(if parent n \<noteq> None
         then do { pn \<leftarrow> deref h (parent n);
                   if Some a = left pn then store h (parent n) (\<lambda>x. x\<lparr>left := v\<rparr>)
                   else store h (parent n) (\<lambda>x. x\<lparr>right := v\<rparr>) }
         else Some h) = Some (h\<lparr>cells := link C v (cells h)\<rparr>)"
  proof (cases C)
    case (CR l x D)
    then have "rootp l \<noteq> Some a" using assms(4) rootp_addrs[of l a] by auto
    with CR assms show ?thesis by (auto simp: link_def store_def)
  qed (use assms in \<open>auto simp: link_def store_def\<close>)
  have "link C v (cells h) a = Some n" using assms(2,4) cpar_caddrs[of C a] by (subst link_other) auto
  moreover have "\<exists>m. link C v (cells h) b = Some m" if "v = Some b" for b
    using that assms(5) link_dom[OF assms(1), of v] by auto
  moreover have "transplant h (Some a) v
      = (let h1 = h\<lparr>cells := link C v (cells h)\<rparr> in
         if v \<noteq> None then do { un1 \<leftarrow> deref h1 (Some a); store h1 v (\<lambda>x. x\<lparr>parent := parent un1\<rparr>) } else Some h1)"
    by (simp only: transplant_def deref_Some assms(2) Option.bind.bind_lunit link Let_def)
  ultimately show ?thesis
    using assms(3) by (cases v) (auto simp: set_par_def)
qed

lemma is_shape_dom: "is_shape c t \<Longrightarrow> addrs t \<subseteq> dom c"
  by (induction t) auto

subsection \<open>Insertion keeps the tree\<close>

definition ins :: "nat \<Rightarrow> int \<Rightarrow> atree \<Rightarrow> atree" where
  "ins a k t = plug (ins_focus k Top t) \<langle>\<langle>\<rangle>, (a, k), \<langle>\<rangle>\<rangle>"

lemma keys_ins:
  assumes "sorted (keys t)"
  shows "keys (ins a k t) = insort k (keys t)"
proof -
  let ?C = "ins_focus k Top t"
  have t: "inorder t = pre ?C @ post ?C" using inorder_plug[of ?C "\<langle>\<rangle>"] ins_focus_plug[of k Top t] by simp
  have "sorted (keys (ins a k t))"
    using assms ins_focus_bounds[OF assms, of Top k] t by (auto simp: ins_def sorted_append)
  moreover have "mset (keys (ins a k t)) = mset (k # keys t)" by (simp add: ins_def t)
  ultimately have "keys (ins a k t) = sort (k # keys t)" by (rule sort_unique[rotated])
  with assms show ?thesis by (simp add: sort_key_id_if_sorted)
qed

lemma inorder_ins: "set (inorder (ins a k t)) = insert (a, k) (set (inorder t))"
  "distinct (addr_list t) \<Longrightarrow> a \<notin> addrs t \<Longrightarrow> distinct (addr_list (ins a k t))"
proof -
  have t: "t = plug (ins_focus k Top t) \<langle>\<rangle>" using ins_focus_plug[of k Top t] by simp
  have i: "inorder t = pre (ins_focus k Top t) @ post (ins_focus k Top t)"
    using arg_cong[OF t, of inorder] by simp
  show "set (inorder (ins a k t)) = insert (a, k) (set (inorder t))"
    unfolding i ins_def by auto
  show "distinct (addr_list t) \<Longrightarrow> a \<notin> addrs t \<Longrightarrow> distinct (addr_list (ins a k t))"
    unfolding addrs_inorder i ins_def by auto
qed

lemma tree_insert_oom:
  assumes "is_shape (cells h) t" "oom h (fresh h)"
  shows "tree_insert h (rootp t) k = Some (None, h\<lparr>fresh := Suc (fresh h)\<rparr>)"
  using insert_loop_eq[OF assms(1), of k Top] assms(2)
  by (auto simp: tree_insert_def new_tree_node_def malloc_def)

lemma tree_insert_eq:
  fixes k :: int
  assumes "is_tree (cells h) None t" "distinct (addr_list t)" "heap_ok h" "\<not> oom h (fresh h)"
  defines "t' \<equiv> ins (fresh h) k t"
  obtains c where "tree_insert h (rootp t) k = Some (rootp t', h\<lparr>cells := c, fresh := Suc (fresh h)\<rparr>)"
    "is_tree c None t'" "dom c = insert (fresh h) (dom (cells h))"
proof -
  let ?C = "ins_focus k Top t" and ?a = "fresh h"
  let ?n = "\<lparr>key = k, parent = cpar ?C, left = None, right = None\<rparr>"
  let ?c = "(cells h)(?a \<mapsto> ?n)"
  have t: "t = plug ?C \<langle>\<rangle>" using ins_focus_plug[of k Top t] by simp
  have fresh: "?a \<notin> addrs t"
    using heap_ok_fresh[OF assms(3)] is_shape_dom[OF is_tree_shape[OF assms(1)]] by auto
  have i: "inorder t = pre ?C @ post ?C" using arg_cong[OF t, of inorder] by simp
  have dist: "distinct (map fst (pre ?C @ post ?C))" "?a \<notin> caddrs ?C"
    using assms(2) fresh unfolding addrs_inorder i by auto
  have C0: "is_ctx (cells h) ?C None" 
    using assms(1) is_tree_plug[of "cells h" ?C "\<langle>\<rangle>"] ins_focus_plug[of k Top t] by simp
  then have C: "is_ctx ?c ?C None" using dist(2) by simp
  have link: "is_ctx (link ?C (Some ?a) ?c) ?C (Some ?a)" using C dist(1) by (rule is_ctx_link)
  have a: "link ?C (Some ?a) ?c ?a = Some ?n" using dist(2) cpar_caddrs[of ?C ?a] by (subst link_other) auto
  have tree: "is_tree (link ?C (Some ?a) ?c) None t'"
    using link a by (simp add: t'_def ins_def is_tree_plug)
  have eq: "tree_insert h (rootp t) k
      = Some (rootp t', h\<lparr>cells := link ?C (Some ?a) ?c, fresh := Suc ?a\<rparr>)"
  proof (cases ?C)
    case Top
    then have "t = \<langle>\<rangle>" using ins_focus_plug[of k Top t] by simp
    then show ?thesis using Top assms(4) insert_loop_eq[of h t k Top]
      by (simp add: tree_insert_def new_tree_node_def malloc_def t'_def ins_def link_def)
  next
    case (CL D x r)
    then have "rootp t = rootp t'" unfolding t'_def ins_def by (subst t, intro rootp_plug_cong) simp
    moreover have "k < snd x" using ins_focus_side[where C = Top and k = k and t = t] CL by simp
    ultimately show ?thesis using CL C C0 assms(4) insert_loop_eq[OF is_tree_shape[OF assms(1)], of k Top] dist(2)
      by (auto simp: tree_insert_def new_tree_node_def malloc_def link_def)
  next
    case (CR l x D)
    then have "rootp t = rootp t'" unfolding t'_def ins_def by (subst t, intro rootp_plug_cong) simp
    moreover have "\<not> k < snd x" using ins_focus_side[where C = Top and k = k and t = t] CR by simp
    ultimately show ?thesis using CR C C0 assms(4) insert_loop_eq[OF is_tree_shape[OF assms(1)], of k Top] dist(2)
      by (auto simp: tree_insert_def new_tree_node_def malloc_def link_def)
  qed
  show thesis
  proof (rule that[OF eq tree])
    show "dom (link ?C (Some ?a) ?c) = insert ?a (dom (cells h))" using link_dom[OF C] by simp
  qed
qed

subsection \<open>Deletion\<close>

fun del_min :: "atree \<Rightarrow> atree" where
  "del_min \<langle>\<rangle> = \<langle>\<rangle>"
| "del_min \<langle>l, x, r\<rangle> = (if l = \<langle>\<rangle> then r else \<langle>del_min l, x, r\<rangle>)"

fun del_root :: "atree \<Rightarrow> atree" where
  "del_root \<langle>\<rangle> = \<langle>\<rangle>"
| "del_root \<langle>l, x, r\<rangle> =
     (if l = \<langle>\<rangle> then r else if r = \<langle>\<rangle> then l else \<langle>l, hd (inorder r), del_min r\<rangle>)"

lemma inorder_del_min [simp]: "inorder (del_min t) = tl (inorder t)"
  by (induction t) auto

lemma set_del_min: "set_tree (del_min t) = set (tl (inorder t))"
  by (metis inorder_del_min set_inorder)

lemma inorder_del_root: "inorder (del_root \<langle>l, x, r\<rangle>) = inorder l @ inorder r"
  by simp

fun min_focus :: "ctx \<Rightarrow> atree \<Rightarrow> ctx \<times> atree" where
  "min_focus C \<langle>\<rangle> = (C, \<langle>\<rangle>)"
| "min_focus C \<langle>l, x, r\<rangle> = (if l = \<langle>\<rangle> then (C, r) else min_focus (CL C x r) l)"

lemma min_focus_plug:
  "t \<noteq> \<langle>\<rangle> \<Longrightarrow> min_focus C t = (D, sr) \<Longrightarrow>
     plug D \<langle>\<langle>\<rangle>, hd (inorder t), sr\<rangle> = plug C t \<and> plug D sr = plug C (del_min t)"
  by (induction t arbitrary: C) (auto split: if_splits)

lemma graft:
  assumes "is_ctx c C p" "is_tree c q v" "distinct (map fst (pre C) @ addr_list v @ map fst (post C))"
  shows "is_tree (set_par (rootp v) (cpar C) (link C (rootp v) c)) None (plug C v)"
proof -
  have "is_tree (link C (rootp v) c) q v"
  proof (rule is_tree_frame[OF _ assms(2)])
    show "link C (rootp v) c a = c a" if "a \<in> addrs v" for a
      using that assms(3) cpar_caddrs[of C a] by (intro link_other) auto
  qed
  then have "is_tree (set_par (rootp v) (cpar C) (link C (rootp v) c)) (cpar C) v"
    using assms(3) by (intro is_tree_set_par) auto
  moreover have "is_ctx (set_par (rootp v) (cpar C) (link C (rootp v) c)) C (rootp v)"
  proof (rule is_ctx_frame)
    show "is_ctx (link C (rootp v) c) C (rootp v)" using assms by (intro is_ctx_link) auto
    show "set_par (rootp v) (cpar C) (link C (rootp v) c) a = link C (rootp v) c a" if "a \<in> caddrs C" for a
      using that assms(3) rootp_addrs[of v a] by (intro set_par_other) auto
  qed
  ultimately show ?thesis by (simp add: is_tree_plug)
qed

lemma graft_other:
  "a \<notin> caddrs C \<Longrightarrow> a \<notin> addrs v \<Longrightarrow> set_par (rootp v) q (link C (rootp v) c) a = c a"
  using cpar_caddrs[of C a] rootp_addrs[of v a] by (metis link_other set_par_other)

lemma graft_dom:
  assumes "is_ctx c C p" "is_shape c v"
  shows "dom (set_par (rootp v) q (link C (rootp v) c)) = dom c"
proof -
  have "rootp v = None \<or> the (rootp v) \<in> dom (link C (rootp v) c)"
    using is_shape_dom[OF assms(2)] link_dom[OF assms(1), of "rootp v"] by (cases v) auto
  then show ?thesis using link_dom[OF assms(1)] by (simp add: set_par_dom)
qed

lemma is_shape_plug: "is_ctx c C (rootp t) \<Longrightarrow> is_shape c t \<Longrightarrow> is_shape c (plug C t)"
proof (induction C arbitrary: t)
  case (CL C x r)
  then have "is_shape c \<langle>t, x, r\<rangle>" by (auto intro: is_tree_shape)
  with CL show ?case by simp
next
  case (CR l x C)
  then have "is_shape c \<langle>l, x, t\<rangle>" by (auto intro: is_tree_shape)
  with CR show ?case by simp
qed simp

lemma new_root_eq:
  "rootp (plug C \<langle>l, (a, k), r\<rangle>) = root \<Longrightarrow> (if cpar C = None then rootp v else root) = rootp (plug C v)"
  using rootp_plug_cong[of C v "\<langle>l, (a, k), r\<rangle>"] by (cases C) auto

lemma delete_one_child:
  assumes t: "is_tree (cells h) None (plug C \<langle>l, (a, k), r\<rangle>)" "distinct (addr_list (plug C \<langle>l, (a, k), r\<rangle>))"
    and "l = \<langle>\<rangle> \<or> r = \<langle>\<rangle>"
  defines "v \<equiv> (if l = \<langle>\<rangle> then r else l)"
  defines "c \<equiv> (set_par (rootp v) (cpar C) (link C (rootp v) (cells h)))(a := None)"
  shows "tree_delete_internal h (rootp (plug C \<langle>l, (a, k), r\<rangle>)) (Some a) = Some (rootp (plug C v), h\<lparr>cells := c\<rparr>)"
    and "is_tree c None (plug C v)" and "dom c = dom (cells h) - {a}"
proof -
  let ?c1 = "set_par (rootp v) (cpar C) (link C (rootp v) (cells h))"
  have C: "is_ctx (cells h) C (Some a)" and v: "is_tree (cells h) (Some a) v"
    and a: "cells h a = Some \<lparr>key = k, parent = cpar C, left = rootp l, right = rootp r\<rparr>"
    using t(1) by (auto simp: is_tree_plug v_def)
  have dist: "distinct (map fst (pre C) @ addr_list v @ map fst (post C))" "a \<notin> caddrs C" "a \<notin> addrs v"
    using t(2) by (auto simp: v_def)
  have dom: "rootp v = None \<or> the (rootp v) \<in> dom (cells h)"
    using is_shape_dom[OF is_tree_shape[OF v]] by (cases v) auto
  have tr: "transplant h (Some a) (rootp v) = Some (h\<lparr>cells := ?c1\<rparr>)"
    using C a dist(2) dom by (intro transplant_eq) auto
  have a1: "?c1 a = cells h a" using dist by (intro graft_other)
  have "rootp v = (if l = \<langle>\<rangle> then rootp r else rootp l)" by (simp add: v_def)
  then show "tree_delete_internal h (rootp (plug C \<langle>l, (a, k), r\<rangle>)) (Some a) = Some (rootp (plug C v), h\<lparr>cells := c\<rparr>)"
    using a a1 tr assms(3) new_root_eq[OF refl, of C v]
    by (auto simp: tree_delete_internal_def destroy_tree_node_def c_def v_def)
  show "is_tree c None (plug C v)" using graft[OF C v dist(1)] dist by (simp add: c_def image_Un)
  show "dom c = dom (cells h) - {a}" using graft_dom[OF C is_tree_shape[OF v]] by (simp add: c_def)
qed

lemma min_focus_successor:
  assumes t: "is_tree (cells h) None (plug C \<langle>l, (a, k), r\<rangle>)" "distinct (addr_list (plug C \<langle>l, (a, k), r\<rangle>))"
    and r: "r = \<langle>rl, y, rr\<rangle>" "rl \<noteq> \<langle>\<rangle>"
  defines "s \<equiv> hd (inorder r)"
  obtains D sr where "plug D \<langle>\<langle>\<rangle>, s, sr\<rangle> = plug C \<langle>l, (a, k), r\<rangle>" "plug D sr = plug C \<langle>l, (a, k), del_min r\<rangle>"
    "s \<in> set_tree rl" "fst s \<noteq> fst y" "fst s \<notin> caddrs D" "fst s \<notin> addrs sr"
    "distinct (map fst (pre D) @ addr_list sr @ map fst (post D))"
proof -
  obtain D sr where f: "min_focus (CR l (a, k) C) r = (D, sr)" by fastforce
  then have p: "plug D \<langle>\<langle>\<rangle>, s, sr\<rangle> = plug C \<langle>l, (a, k), r\<rangle>" "plug D sr = plug C \<langle>l, (a, k), del_min r\<rangle>"
    using min_focus_plug[OF _ f] r(1) by (simp_all add: s_def)
  have s: "s \<in> set_tree rl" using r by (simp add: s_def flip: set_inorder)
  have "fst s \<in> addrs rl" using s by simp
  moreover have "fst y \<notin> addrs rl" using t(2) by (simp add: r(1))
  ultimately have sy: "fst s \<noteq> fst y" by metis
  have d: "distinct (addr_list (plug D \<langle>\<langle>\<rangle>, s, sr\<rangle>))" using p(1) t(2) by simp
  show thesis by (rule that[OF p s sy]) (use d in auto)
qed

text \<open>
  The steps between the two transplants: the successor takes over both children of the node to delete,
  and their parent pointers.
\<close>

lemma adopt_children:
  fixes kb :: int and q :: ptr
  assumes t: "is_tree c None (plug C \<langle>l, (a, k), r\<rangle>)" "distinct (addr_list (plug C \<langle>l, (a, k), r\<rangle>))"
    and b: "b \<notin> addrs (plug C \<langle>l, (a, k), r\<rangle>)" and ne: "l \<noteq> \<langle>\<rangle>" "r \<noteq> \<langle>\<rangle>"
  defines "c2 \<equiv> c(b \<mapsto> \<lparr>key = kb, parent = q, left = rootp l, right = rootp r\<rparr>)"
  defines "c4 \<equiv> set_par (rootp l) (Some b) (set_par (rootp r) (Some b) c2)"
  shows "is_ctx c4 C (Some a)" "c4 a = c a" "is_tree c4 q \<langle>l, (b, kb), r\<rangle>" "dom c4 = insert b (dom c)"
proof -
  have dist: "distinct (map fst (pre C) @ addr_list l @ a # addr_list r @ map fst (post C))"
    "b \<notin> caddrs C" "b \<notin> addrs l" "b \<notin> addrs r" "a \<noteq> b"
    using t(2) b by (auto simp: image_Un)
  have C: "is_ctx c C (Some a)" and l: "is_tree c (Some a) l" and r: "is_tree c (Some a) r"
    using t(1) by (auto simp: is_tree_plug)
  obtain e f where ef: "rootp l = Some e" "rootp r = Some f" using ne by (cases l; cases r) auto
  have in_lr: "e \<in> addrs l" "f \<in> addrs r" using ef rootp_addrs by blast+
  have other: "c4 d = c d" if "d \<notin> {e, f, b}" for d
    using that by (simp add: c4_def c2_def ef set_par_def)
  show "is_ctx c4 C (Some a)"
    using C dist in_lr by (intro is_ctx_frame[of C c4 c] other) auto
  show "c4 a = c a" using dist in_lr by (intro other) auto
  have "is_tree (set_par (rootp r) (Some b) c2) (Some b) r"
    using r dist by (intro is_tree_set_par[of _ "Some a"]) (auto simp: c2_def)
  moreover have "e \<notin> addrs r" using dist(1) in_lr by auto
  ultimately have r4: "is_tree c4 (Some b) r"
    by (subst c4_def, subst ef(1), subst set_par_def) simp
  have "f \<notin> addrs l" using dist(1) in_lr by auto
  then have "is_tree (set_par (rootp r) (Some b) c2) (Some a) l"
    using l dist(3) by (subst ef(2), subst set_par_def) (simp add: c2_def)
  then have l4: "is_tree c4 (Some b) l"
    unfolding c4_def using dist by (intro is_tree_set_par[of _ "Some a"]) auto
  have "c4 b = c2 b" using dist in_lr by (auto simp: c4_def ef set_par_def)
  then show "is_tree c4 q \<langle>l, (b, kb), r\<rangle>" using l4 r4 by (simp add: c2_def)
  have "e \<in> dom c" "f \<in> dom c"
    using is_shape_dom[OF is_tree_shape[OF l]] is_shape_dom[OF is_tree_shape[OF r]] in_lr by auto
  then show "dom c4 = insert b (dom c)" by (auto simp: c4_def c2_def ef set_par_def)
qed

lemma delete_deep_successor:
  assumes t: "is_tree (cells h) None (plug C \<langle>l, (a, k), r\<rangle>)" "distinct (addr_list (plug C \<langle>l, (a, k), r\<rangle>))"
    and ne: "l \<noteq> \<langle>\<rangle>" and r: "r = \<langle>rl, y, rr\<rangle>" "rl \<noteq> \<langle>\<rangle>"
  defines "t' \<equiv> plug C \<langle>l, hd (inorder r), del_min r\<rangle>"
  obtains c where
    "tree_delete_internal h (rootp (plug C \<langle>l, (a, k), r\<rangle>)) (Some a) = Some (rootp t', h\<lparr>cells := c\<rparr>)"
    "is_tree c None t'" "dom c = dom (cells h) - {a}"
proof -
  define s where "s = hd (inorder r)"
  obtain D sr where D: "plug D \<langle>\<langle>\<rangle>, s, sr\<rangle> = plug C \<langle>l, (a, k), r\<rangle>" "plug D sr = plug C \<langle>l, (a, k), del_min r\<rangle>"
    "s \<in> set_tree rl" "fst s \<noteq> fst y" "fst s \<notin> caddrs D" "fst s \<notin> addrs sr"
    "distinct (map fst (pre D) @ addr_list sr @ map fst (post D))"
    using min_focus_successor[OF t r] unfolding s_def by metis
  have tD: "is_tree (cells h) None (plug D \<langle>\<langle>\<rangle>, s, sr\<rangle>)" using D(1) t(1) by simp
  then have isD: "is_ctx (cells h) D (Some (fst s))" and sr: "is_tree (cells h) (Some (fst s)) sr"
    and s: "cells h (fst s) = Some \<lparr>key = snd s, parent = cpar D, left = None, right = rootp sr\<rparr>"
    by (auto simp: is_tree_plug)
  have a: "cells h a = Some \<lparr>key = k, parent = cpar C, left = rootp l, right = rootp r\<rparr>"
    using t(1) by (auto simp: is_tree_plug)
  define c1 where "c1 = set_par (rootp sr) (cpar D) (link D (rootp sr) (cells h))"
  have t1: "is_tree c1 None (plug C \<langle>l, (a, k), del_min r\<rangle>)"
    unfolding c1_def using graft[OF isD sr D(7)] D(2) by simp
  have d1: "distinct (addr_list (plug C \<langle>l, (a, k), del_min r\<rangle>))"
    using D(7) unfolding D(2)[symmetric] by simp
  have s1: "fst s \<notin> addrs (plug C \<langle>l, (a, k), del_min r\<rangle>)"
    using D(5,6) unfolding D(2)[symmetric] by (auto simp: image_Un)
  have c1s: "c1 (fst s) = cells h (fst s)" unfolding c1_def using D(5,6) by (rule graft_other)
  have dom1: "dom c1 = dom (cells h)" unfolding c1_def using graft_dom[OF isD is_tree_shape[OF sr]] .
  have "rootp sr = None \<or> the (rootp sr) \<in> dom (cells h)"
    using is_shape_dom[OF is_tree_shape[OF sr]] by (cases sr) auto
  then have tr1: "transplant h (Some (fst s)) (rootp sr) = Some (h\<lparr>cells := c1\<rparr>)"
    unfolding c1_def using isD s D(5) by (intro transplant_eq) auto
  have ner: "del_min r \<noteq> \<langle>\<rangle>" "rootp (del_min r) = rootp r" using r by auto
  define c2 where "c2 = c1(fst s \<mapsto> \<lparr>key = snd s, parent = cpar D, left = rootp l, right = rootp (del_min r)\<rparr>)"
  define c4 where "c4 = set_par (rootp l) (Some (fst s)) (set_par (rootp (del_min r)) (Some (fst s)) c2)"
  have c4: "is_ctx c4 C (Some a)" "c4 a = c1 a" "is_tree c4 (cpar D) \<langle>l, (fst s, snd s), del_min r\<rangle>"
    "dom c4 = insert (fst s) (dom c1)"
    using adopt_children[OF t1 d1 s1 ne ner(1)] unfolding c2_def c4_def by blast+
  have a1: "c1 a = Some \<lparr>key = k, parent = cpar C, left = rootp l, right = rootp r\<rparr>"
    using t1 ner(2) by (auto simp: is_tree_plug)
  define c5 where "c5 = set_par (Some (fst s)) (cpar C) (link C (Some (fst s)) c4)"
  have notin: "fst s \<notin> caddrs C" "fst s \<noteq> a" "a \<notin> caddrs C" "a \<notin> addrs l" "a \<notin> addrs (del_min r)"
    "distinct (map fst (pre C) @ addr_list \<langle>l, (fst s, snd s), del_min r\<rangle> @ map fst (post C))"
    using s1 d1 by (auto simp: image_Un set_del_min)
  have tr5: "transplant (h\<lparr>cells := c4\<rparr>) (Some a) (Some (fst s)) = Some (h\<lparr>cells := c5\<rparr>)"
    using transplant_eq[of "h\<lparr>cells := c4\<rparr>" C a "\<lparr>key = k, parent = cpar C, left = rootp l, right = rootp r\<rparr>" "Some (fst s)"]
      c4 a1 notin by (simp add: c5_def)
  have t5: "is_tree c5 None t'"
    using graft[OF c4(1,3) notin(6)] by (simp add: c5_def t'_def s_def)
  then have s5: "\<exists>n. c5 (fst s) = Some n \<and> parent n = cpar C" by (auto simp: t'_def s_def is_tree_plug)
  have a5: "c5 a = c1 a"
    using graft_other[of a C "\<langle>l, (fst s, snd s), del_min r\<rangle>"] c4(2) notin by (simp add: c5_def image_Un)
  obtain e f where ef: "rootp l = Some e" "rootp (del_min r) = Some f" using ne ner(1) by (cases l; cases "del_min r") auto
  have "e \<in> addrs l" "f \<in> addrs (del_min r)" using ef rootp_addrs by blast+
  moreover have "fst s \<notin> addrs l" "fst s \<notin> addrs (del_min r)" "addrs l \<inter> addrs (del_min r) = {}"
    using notin by (simp_all add: set_del_min) blast
  ultimately have efs: "e \<noteq> fst s" "f \<noteq> fst s" "e \<noteq> f" "e \<noteq> a" "f \<noteq> a"
    using notin(4,5) by (metis disjoint_iff)+
  have "e \<in> dom c1" "f \<in> dom c1"
    using is_shape_dom[OF is_tree_shape[OF t1]] \<open>e \<in> addrs l\<close> \<open>f \<in> addrs (del_min r)\<close> by (auto simp: image_Un)
  then obtain ne nf where nef: "c1 e = Some ne" "c1 f = Some nf" by auto
  have min: "tree_minimum h (rootp r) = Some (Some (fst s))"
    using t(1) r(1) tree_minimum_eq[of h r] first_addr_hd[of "inorder r"]
    by (auto simp: is_tree_plug is_tree_shape s_def)
  show thesis
  proof (rule that[of "c5(a := None)"])
    show "tree_delete_internal h (rootp (plug C \<langle>l, (a, k), r\<rangle>)) (Some a) = Some (rootp t', h\<lparr>cells := c5(a := None)\<rparr>)"
    proof -
      obtain n5 where n5: "c5 (fst s) = Some n5" "parent n5 = cpar C" using s5 by auto
      have root: "rootp (plug C \<langle>l, (a, k), r\<rangle>) = rootp t'" if "C \<noteq> Top"
        unfolding t'_def using that by (intro rootp_plug_cong) simp
      have top: "rootp t' = Some (fst s)" if "C = Top" using that by (simp add: t'_def s_def)
      have cpar: "cpar C = None \<longleftrightarrow> C = Top" by (cases C) simp_all
      show ?thesis
        using a a1 c1s s efs nef ef ner(2) notin(2) min tr1 tr5 n5 a5 root top cpar D(4) r(1)
        by (auto simp: tree_delete_internal_def destroy_tree_node_def c4_def c2_def set_par_def fun_upd_twist)
    qed
    show "is_tree (c5(a := None)) None t'"
      using t5 notin by (auto simp: t'_def s_def image_Un)
    have "dom c5 = dom c4"
      using graft_dom[OF c4(1) is_tree_shape[OF c4(3)]] by (simp add: c5_def)
    moreover have "fst s \<in> dom (cells h)" using s by auto
    ultimately show "dom (c5(a := None)) = dom (cells h) - {a}" using c4(4) dom1 by auto
  qed
qed

text \<open>
  The node to delete has two children and the right one has no left child: \<open>tree_delete_internal\<close>
  moves the right child up and hangs the left subtree below it, but does not update the parent pointer
  of the left child, which keeps pointing to the node that is then freed.
\<close>

lemma delete_shallow_successor:
  assumes t: "is_tree (cells h) None (plug C \<langle>l, (a, k), r\<rangle>)" "distinct (addr_list (plug C \<langle>l, (a, k), r\<rangle>))"
    and ne: "rootp l = Some e" and r: "r = \<langle>\<langle>\<rangle>, y, rr\<rangle>"
  defines "t' \<equiv> plug C \<langle>l, y, rr\<rangle>"
  obtains c n where
    "tree_delete_internal h (rootp (plug C \<langle>l, (a, k), r\<rangle>)) (Some a) = Some (rootp t', h\<lparr>cells := c\<rparr>)"
    "is_shape c t'" "dom c = dom (cells h) - {a}" "c e = Some n" "parent n = Some a"
proof -
  define c1 where "c1 = (cells h)(fst y \<mapsto> \<lparr>key = snd y, parent = Some a, left = rootp l, right = rootp rr\<rparr>)"
  define c2 where "c2 = set_par (Some (fst y)) (cpar C) (link C (Some (fst y)) c1)"
  have C: "is_ctx (cells h) C (Some a)" and l: "is_tree (cells h) (Some a) l"
    and rr: "is_tree (cells h) (Some (fst y)) rr"
    and a: "cells h a = Some \<lparr>key = k, parent = cpar C, left = rootp l, right = Some (fst y)\<rparr>"
    and y: "cells h (fst y) = Some \<lparr>key = snd y, parent = Some a, left = None, right = rootp rr\<rparr>"
    using t(1) r by (auto simp: is_tree_plug)
  have notin: "fst y \<notin> caddrs C" "fst y \<noteq> a" "a \<notin> caddrs C" "a \<notin> addrs l" "a \<notin> addrs rr"
    "fst y \<notin> addrs l" "fst y \<notin> addrs rr" "addrs l \<inter> caddrs C = {}" "addrs rr \<inter> caddrs C = {}"
    "distinct (map fst (pre C @ post C))"
    using t(2) r by (auto simp: image_Un)
  have C1: "is_ctx c1 C (Some a)" using C notin(1) by (simp add: c1_def)
  have c2_other: "c2 d = cells h d" if "d \<notin> caddrs C" "d \<noteq> fst y" for d
    using that cpar_caddrs[of C d] link_other[of C d _ c1] by (auto simp: c2_def set_par_def c1_def)
  have c2y: "c2 (fst y) = Some \<lparr>key = snd y, parent = cpar C, left = rootp l, right = rootp rr\<rparr>"
  proof -
    have "cpar C \<noteq> Some (fst y)" using notin(1) cpar_caddrs by blast
    then show ?thesis by (simp add: c2_def set_par_def link_other) (simp add: c1_def)
  qed
  have tr: "transplant (h\<lparr>cells := c1\<rparr>) (Some a) (Some (fst y)) = Some (h\<lparr>cells := c2\<rparr>)"
    using transplant_eq[of "h\<lparr>cells := c1\<rparr>" C a "\<lparr>key = k, parent = cpar C, left = rootp l, right = Some (fst y)\<rparr>" "Some (fst y)"]
      C1 a notin by (simp add: c2_def c1_def)
  have C2: "is_ctx c2 C (Some (fst y))"
    using is_ctx_link[OF C1 notin(10)] notin(1) by (simp add: c2_def set_par_def)
  have l2: "is_tree c2 (Some a) l" using l notin(6,8) by (intro is_tree_frame[OF c2_other]) (blast+)
  have rr2: "is_tree c2 (Some (fst y)) rr" using rr notin(7,9) by (intro is_tree_frame[OF c2_other]) (blast+)
  have root: "rootp (plug C \<langle>l, (a, k), r\<rangle>) = rootp t'" if "C \<noteq> Top"
    unfolding t'_def using that by (intro rootp_plug_cong) simp
  have top: "rootp t' = Some (fst y)" if "C = Top" using that by (simp add: t'_def)
  have cpar: "cpar C = None \<longleftrightarrow> C = Top" by (cases C) simp_all
  have min: "tree_minimum h (Some (fst y)) = Some (Some (fst y))"
    using tree_minimum_eq[of h r] rr y r by (auto simp: is_tree_shape)
  have dom2: "dom c2 = dom (cells h)"
    using link_dom[OF C1] y by (subst c2_def, subst set_par_dom) (auto simp: c1_def)
  obtain ne where e: "c2 e = Some ne" "parent ne = Some a" using ne l2 by (cases l) auto
  show thesis
  proof (rule that[of "c2(a := None)" ne])
    show "tree_delete_internal h (rootp (plug C \<langle>l, (a, k), r\<rangle>)) (Some a) = Some (rootp t', h\<lparr>cells := c2(a := None)\<rparr>)"
      using a y ne min tr c2y c2_other[of a] root top cpar notin
      by (auto simp: tree_delete_internal_def destroy_tree_node_def c1_def)
    have "is_ctx (c2(a := None)) C (Some (fst y))" using C2 notin(3) by simp
    then show "is_shape (c2(a := None)) t'"
      unfolding t'_def using l2 rr2 c2y notin by (intro is_shape_plug) (auto intro: is_tree_shape)
    show "dom (c2(a := None)) = dom (cells h) - {a}" using dom2 by auto
    have "e \<noteq> a" using ne rootp_addrs notin(4) by blast
    with e show "(c2(a := None)) e = Some ne" by simp
    show "parent ne = Some a" using e(2) .
  qed
qed

subsection \<open>Destroying a tree\<close>

lemma destroy_tree_eq:
  "is_shape (cells h) t \<Longrightarrow> distinct (addr_list t)
     \<Longrightarrow> destroy_tree h (rootp t) = Some (h\<lparr>cells := (cells h) |` (- addrs t)\<rparr>)"
proof (induction t arbitrary: h)
  case Leaf
  then show ?case by (subst destroy_tree.simps) (simp add: restrict_map_def)
next
  case (Node l x r)
  let ?c1 = "(cells h) |` (- addrs l)" and ?c2 = "(cells h) |` (- addrs l) |` (- addrs r)"
  have d: "fst x \<notin> addrs l" "fst x \<notin> addrs r" "addrs l \<inter> addrs r = {}" using Node.prems(2) by auto
  have l: "destroy_tree h (rootp l) = Some (h\<lparr>cells := ?c1\<rparr>)" using Node by auto
  have "is_shape ?c1 r"
    using Node.prems d by (intro is_shape_frame[of r ?c1 "cells h"]) (auto simp: restrict_map_def)
  then have r: "destroy_tree (h\<lparr>cells := ?c1\<rparr>) (rootp r) = Some (h\<lparr>cells := ?c2\<rparr>)"
    using Node.IH(2)[of "h\<lparr>cells := ?c1\<rparr>"] Node.prems(2) by simp
  obtain p where x: "cells h (fst x) = Some \<lparr>key = snd x, parent = p, left = rootp l, right = rootp r\<rparr>"
    using Node.prems(1) by auto
  have "?c2(fst x := None) = (cells h) |` (- addrs \<langle>l, x, r\<rangle>)"
    by (auto simp: restrict_map_def fun_eq_iff)
  then show ?case
    using l r x d by (subst destroy_tree.simps) (simp add: destroy_tree_node_def restrict_map_def)
qed

lemma pre_order_total: "is_shape (cells h) t \<Longrightarrow> \<exists>out. pre_order_traversal h (rootp t) = Some out"
proof (induction t)
  case Leaf
  then show ?case by (subst pre_order_traversal.simps) simp
next
  case (Node l x r)
  then obtain ol rl where "pre_order_traversal h (rootp l) = Some ol" "pre_order_traversal h (rootp r) = Some rl"
    by auto
  with Node.prems show ?case by (subst pre_order_traversal.simps) auto
qed

subsection \<open>The invariant and the contract of the tree\<close>

text \<open>
  The heap holds exactly the nodes of a search tree with correct parent pointers: no leak, no
  dangling pointer, no sharing.
\<close>

definition bst_inv :: "tree_heap \<Rightarrow> ptr \<Rightarrow> atree \<Rightarrow> bool" where
  "bst_inv h root t \<longleftrightarrow>
     root = rootp t \<and> is_tree (cells h) None t \<and> distinct (addr_list t) \<and> sorted (keys t)
     \<and> heap_ok h \<and> dom (cells h) = addrs t"

lemma bst_invD:
  assumes "bst_inv h root t"
  shows "root = rootp t" "is_tree (cells h) None t" "distinct (addr_list t)" "sorted (keys t)" "heap_ok h"
    "dom (cells h) = addrs t" "is_shape (cells h) t"
  using assms by (auto simp: bst_inv_def is_tree_shape)

lemma bst_inv_empty: "bst_inv (empty_heap f) None \<langle>\<rangle>"
  by (simp add: bst_inv_def) (simp add: empty_heap_def)

lemma bst_inv_insert:
  assumes "bst_inv h root t" "\<not> oom h (fresh h)"
  shows "\<exists>root' h'. tree_insert h root k = Some (root', h') \<and> bst_inv h' root' (ins (fresh h) k t)
    \<and> root' \<noteq> None \<and> oom h' = oom h"
proof -
  note inv = bst_invD[OF assms(1)]
  obtain c where c: "tree_insert h (rootp t) k = Some (rootp (ins (fresh h) k t), h\<lparr>cells := c, fresh := Suc (fresh h)\<rparr>)"
    "is_tree c None (ins (fresh h) k t)" "dom c = insert (fresh h) (dom (cells h))"
    using tree_insert_eq[OF inv(2,3,5) assms(2)] by blast
  have fresh: "fresh h \<notin> addrs t" using heap_ok_fresh[OF inv(5)] inv(6) by auto
  have "heap_ok (h\<lparr>cells := c, fresh := Suc (fresh h)\<rparr>)"
    using inv(5) c(3) by (auto simp: heap_ok_dom lessThan_Suc)
  moreover have "addrs (ins (fresh h) k t) = insert (fresh h) (addrs t)"
    using inorder_ins(1)[of "fresh h" k t] by simp
  moreover have "ins (fresh h) k t \<noteq> \<langle>\<rangle>"
    using inorder_ins(1)[of "fresh h" k t] by (metis empty_iff inorder.simps(1) insertI1 list.set(1))
  ultimately show ?thesis
    using c inv fresh inorder_ins(2)[of t "fresh h" k] by (auto simp: bst_inv_def keys_ins sorted_insort)
qed

lemma bst_inv_oom: "bst_inv h root t \<Longrightarrow> bst_inv (h\<lparr>fresh := Suc (fresh h)\<rparr>) root t"
  by (auto simp: bst_inv_def heap_ok_def less_SucI)

text \<open>Deletion is safe at a node unless the node has two children and its right one no left child.\<close>

fun unlinks_child :: "atree \<Rightarrow> bool" where
  "unlinks_child \<langle>l, x, r\<rangle> = (l \<noteq> \<langle>\<rangle> \<and> r \<noteq> \<langle>\<rangle> \<and> Tree.left r = \<langle>\<rangle>)"
| "unlinks_child \<langle>\<rangle> = False"

lemma tree_delete_internal_cases:
  assumes "is_tree (cells h) None (plug C u)" "distinct (addr_list (plug C u))" "u = \<langle>l, (a, k), r\<rangle>"
  obtains c where "tree_delete_internal h (rootp (plug C u)) (Some a) = Some (rootp (plug C (del_root u)), h\<lparr>cells := c\<rparr>)"
    "is_shape c (plug C (del_root u))" "dom c = dom (cells h) - {a}"
    "\<not> unlinks_child u \<Longrightarrow> is_tree c None (plug C (del_root u))"
    "unlinks_child u \<Longrightarrow> \<exists>n. c (the (rootp l)) = Some n \<and> parent n = Some a"
proof -
  note t = assms(1,2)[unfolded assms(3)]
  consider "l = \<langle>\<rangle> \<or> r = \<langle>\<rangle>" | e y rr where "rootp l = Some e" "r = \<langle>\<langle>\<rangle>, y, rr\<rangle>"
    | rl y rr where "l \<noteq> \<langle>\<rangle>" "r = \<langle>rl, y, rr\<rangle>" "rl \<noteq> \<langle>\<rangle>"
    by (cases l; cases r) auto
  then show thesis
  proof cases
    case 1
    then have "del_root u = (if l = \<langle>\<rangle> then r else l)" "\<not> unlinks_child u" using assms(3) by auto
    then show thesis
      using delete_one_child[OF t 1] by (intro that) (simp_all add: assms(3) is_tree_shape)
  next
    case 2
    obtain c n where "tree_delete_internal h (rootp (plug C u)) (Some a) = Some (rootp (plug C \<langle>l, y, rr\<rangle>), h\<lparr>cells := c\<rparr>)"
      "is_shape c (plug C \<langle>l, y, rr\<rangle>)" "dom c = dom (cells h) - {a}" "c e = Some n" "parent n = Some a"
      using delete_shallow_successor[OF t 2] unfolding assms(3) by blast
    moreover have "del_root u = \<langle>l, y, rr\<rangle>" "unlinks_child u" using assms(3) 2 by auto
    ultimately show thesis using 2 by (intro that) auto
  next
    case 3
    obtain c where "tree_delete_internal h (rootp (plug C u)) (Some a)
        = Some (rootp (plug C \<langle>l, hd (inorder r), del_min r\<rangle>), h\<lparr>cells := c\<rparr>)"
      "is_tree c None (plug C \<langle>l, hd (inorder r), del_min r\<rangle>)" "dom c = dom (cells h) - {a}"
      using delete_deep_successor[OF t 3] unfolding assms(3) by blast
    moreover have "del_root u = \<langle>l, hd (inorder r), del_min r\<rangle>" "\<not> unlinks_child u" using assms(3) 3 by auto
    ultimately show thesis by (intro that) (simp_all add: is_tree_shape)
  qed
qed

lemma bst_inv_delete:
  assumes "bst_inv h root t" "tree_find h root k = Some p"
  obtains "p = None" "k \<notin> set (keys t)" "tree_delete h root k = Some (root, h)"
  | C l a r c where "p = Some a" "t = plug C \<langle>l, (a, k), r\<rangle>"
    "tree_delete h root k = Some (rootp (plug C (del_root \<langle>l, (a, k), r\<rangle>)), h\<lparr>cells := c\<rparr>)"
    "is_shape c (plug C (del_root \<langle>l, (a, k), r\<rangle>))" "dom c = addrs t - {a}"
    "\<not> unlinks_child \<langle>l, (a, k), r\<rangle> \<Longrightarrow> bst_inv (h\<lparr>cells := c\<rparr>) (rootp (plug C (del_root \<langle>l, (a, k), r\<rangle>))) (plug C (del_root \<langle>l, (a, k), r\<rangle>))"
    "unlinks_child \<langle>l, (a, k), r\<rangle> \<Longrightarrow> \<exists>n. c (the (rootp l)) = Some n \<and> parent n = Some a"
proof -
  note inv = bst_invD[OF assms(1)]
  show thesis
  proof (rule tree_find_cases[OF inv(7,4), of k])
    assume "k \<notin> set (keys t)" "tree_find h (rootp t) k = Some None"
    with assms inv(1) show thesis by (intro that(1)) (auto simp: tree_delete_def)
  next
    fix C l a r assume t: "t = plug C \<langle>l, (a, k), r\<rangle>" and f: "tree_find h (rootp t) k = Some (Some a)"
    let ?t' = "plug C (del_root \<langle>l, (a, k), r\<rangle>)"
    obtain c where c: "tree_delete_internal h (rootp t) (Some a) = Some (rootp ?t', h\<lparr>cells := c\<rparr>)"
      "is_shape c ?t'" "dom c = dom (cells h) - {a}"
      "\<not> unlinks_child \<langle>l, (a, k), r\<rangle> \<Longrightarrow> is_tree c None ?t'"
      "unlinks_child \<langle>l, (a, k), r\<rangle> \<Longrightarrow> \<exists>n. c (the (rootp l)) = Some n \<and> parent n = Some a"
      using tree_delete_internal_cases[OF _ _ refl, of h C l a k r] inv(2,3) unfolding t by blast
    have i: "inorder ?t' = pre C @ (inorder l @ inorder r) @ post C"
      unfolding inorder_plug inorder_del_root ..
    have t': "distinct (addr_list ?t')" "sorted (keys ?t')" "addrs ?t' = addrs t - {a}"
      using inv(3,4) unfolding addrs_inorder i unfolding t by (auto simp: sorted_append image_Un)
    have "heap_ok (h\<lparr>cells := c\<rparr>)" using inv(5) c(3) by (auto simp: heap_ok_dom)
    then have "bst_inv (h\<lparr>cells := c\<rparr>) (rootp ?t') ?t'" if "\<not> unlinks_child \<langle>l, (a, k), r\<rangle>"
      using c(3,4) that t' inv(6) by (simp add: bst_inv_def del: del_root.simps)
    then show thesis
      using assms(2) f c inv(1,6) t by (intro that(2)[of a C l r c]) (auto simp: tree_delete_def simp del: del_root.simps)
  qed
qed

end
