(* ===== verification/Bst_Main.thy ===== *)
theory Bst_Main
  imports Bst_Proofs
begin

text \<open>
  The search tree as a whole: the properties of its operations, the contract they offer to a client
  (the locale \<open>sorted_bag\<close>), and the command interpreter.
\<close>

subsection \<open>The operations\<close>

text \<open>
  \<open>tree_insert\<close> on a well-formed search tree returns a well-formed search tree whose
  sorted sequence of keys has gained the new one; when the allocation fails it returns the null pointer
  and leaves the tree as it was.
\<close>

lemma tree_insert_correct:
  assumes "bst_inv h root t"
  shows "if oom h (fresh h)
    then \<exists>h'. tree_insert h root k = Some (None, h') \<and> cells h' = cells h \<and> bst_inv h' root t
    else \<exists>root' h' t'. tree_insert h root k = Some (root', h') \<and> bst_inv h' root' t'
           \<and> keys t' = insort k (keys t)"
proof (cases "oom h (fresh h)")
  case True
  then show ?thesis
    using tree_insert_oom[OF bst_invD(7)[OF assms], of k] bst_inv_oom[OF assms] bst_invD(1)[OF assms] by auto
next
  case False
  then show ?thesis
    using bst_inv_insert[OF assms False, of k] keys_ins[OF bst_invD(4)[OF assms], of "fresh h" k] by auto
qed

text \<open>A concrete tree: the node with key 5 over a node with key 3.\<close>

definition sample_tree :: atree where
  "sample_tree = \<langle>\<langle>\<langle>\<rangle>, (1, 3), \<langle>\<rangle>\<rangle>, (0, 5), \<langle>\<rangle>\<rangle>"

definition sample_heap :: tree_heap where
  "sample_heap = \<lparr>cells = [0 \<mapsto> \<lparr>key = 5, parent = None, left = Some 1, right = None\<rparr>,
                            1 \<mapsto> \<lparr>key = 3, parent = Some 0, left = None, right = None\<rparr>],
                  fresh = 2, oom = \<lambda>_. False\<rparr>"

lemma sample_inv: "bst_inv sample_heap (Some 0) sample_tree"
  by (auto simp: bst_inv_def sample_tree_def sample_heap_def heap_ok_def split: if_splits)

text \<open>
  \<open>tree_find\<close> returns the null pointer exactly when the key is not in the tree,
  and otherwise the address of a node with that key.
\<close>

lemma tree_find_correct:
  assumes "bst_inv h root t"
  shows "\<exists>p. tree_find h root k = Some p \<and> (p = None \<longleftrightarrow> k \<notin> set (keys t))
    \<and> (\<forall>a. p = Some a \<longrightarrow> (a, k) \<in> set (inorder t))"
  by (rule tree_find_cases[OF bst_invD(7,4)[OF assms], of k])
     (auto simp: bst_invD(1)[OF assms] simp flip: set_inorder)

lemma mem_plug: "x \<in> set_tree t \<Longrightarrow> \<exists>C l r. plug D t = plug C \<langle>l, x, r\<rangle>"
proof (induction t arbitrary: D)
  case (Node l y r)
  then consider "x \<in> set_tree l" | "x = y" | "x \<in> set_tree r" by auto
  then show ?case
  proof cases
    case 1
    with Node.IH(1)[of "CL D y r"] show ?thesis by simp
  next
    case 2
    then show ?thesis by blast
  next
    case 3
    with Node.IH(2)[of "CR l y D"] show ?thesis by simp
  qed
qed simp

lemma distinct_split_unique:
  "xs @ x # ys = us @ x # vs \<Longrightarrow> distinct (xs @ x # ys) \<Longrightarrow> xs = us \<and> ys = vs"
proof (induction xs arbitrary: us)
  case Nil
  then show ?case by (cases us) auto
next
  case (Cons a xs)
  then show ?case by (cases us) auto
qed

text \<open>
  \<open>tree_successor\<close> and \<open>tree_predecessor\<close> at a node return its neighbours in
  the sorted sequence of nodes, or the null pointer at its ends; climbing the parent pointers always ends.
\<close>

lemma tree_neighbours_correct:
  assumes "bst_inv h root t" "inorder t = xs @ (a, k) # ys"
  shows "tree_successor h (Some a) = Some (first_addr ys) \<and> tree_predecessor h (Some a) = Some (last_addr xs)"
proof -
  note inv = bst_invD[OF assms(1)]
  have "(a, k) \<in> set_tree t" using assms(2) by (simp flip: set_inorder)
  then obtain C l r where t: "t = plug C \<langle>l, (a, k), r\<rangle>" using mem_plug[of "(a, k)" t Top] by auto
  have "distinct (inorder t)" using inv(3) by (simp add: distinct_map)
  then have "xs = pre C @ inorder l" "ys = inorder r @ post C"
    using distinct_split_unique[of xs "(a, k)" ys "pre C @ inorder l" "inorder r @ post C"] assms(2) t by auto
  then show ?thesis
    using tree_successor_eq[of h C l a k r] tree_predecessor_eq[of h C l a k r] inv(2,3) t by auto
qed

text \<open>
  Property C4. \<open>tree_delete\<close> removes one node with the key from a well-formed search tree and frees
  exactly its cell: the result has the remaining keys in order. The result is well formed again, parent
  pointers included, unless the removed node had two children and its right child no left child; then
  the left child keeps a parent pointer to the freed node.
\<close>

theorem tree_delete_correct:
  assumes "bst_inv h root t"
  shows "if k \<notin> set (keys t) then tree_delete h root k = Some (root, h)
    else \<exists>C l a r h' t'. t = plug C \<langle>l, (a, k), r\<rangle>
      \<and> tree_delete h root k = Some (rootp t', h')
      \<and> inorder t' = pre C @ inorder l @ inorder r @ post C
      \<and> is_shape (cells h') t' \<and> dom (cells h') = addrs t - {a}
      \<and> (if l \<noteq> \<langle>\<rangle> \<and> r \<noteq> \<langle>\<rangle> \<and> Tree.left r = \<langle>\<rangle>
         then \<exists>n. cells h' (the (rootp l)) = Some n \<and> parent n = Some a
         else bst_inv h' (rootp t') t')"
proof -
  note inv = bst_invD[OF assms(1)]
  obtain p where p: "tree_find h root k = Some p"
    by (rule tree_find_cases[OF inv(7,4), of k]) (auto simp: inv(1))
  from assms p show ?thesis
  proof (cases rule: bst_inv_delete)
    case 1
    then show ?thesis by simp
  next
    case (2 C l a r c)
    let ?t' = "plug C (del_root \<langle>l, (a, k), r\<rangle>)"
    have i: "inorder ?t' = pre C @ inorder l @ inorder r @ post C"
      unfolding inorder_plug inorder_del_root by simp
    have "k \<in> set (keys t)" using 2(2) by auto
    moreover have "if l \<noteq> \<langle>\<rangle> \<and> r \<noteq> \<langle>\<rangle> \<and> Tree.left r = \<langle>\<rangle>
         then \<exists>n. c (the (rootp l)) = Some n \<and> parent n = Some a
         else bst_inv (h\<lparr>cells := c\<rparr>) (rootp ?t') ?t'"
      using 2(6,7) by (simp del: del_root.simps)
    ultimately show ?thesis
      using 2(2,3,4,5) i by (intro if_not_P[THEN iffD2] exI[of _ C] exI[of _ l] exI[of _ a] exI[of _ r]
          exI[of _ "h\<lparr>cells := c\<rparr>"] exI[of _ ?t']) (simp_all del: del_root.simps)
  qed
qed

theorem tree_delete_correct_witness:
  "\<exists>h' t'. tree_delete sample_heap (Some 0) 5 = Some (rootp t', h') \<and> keys t' = [3] \<and> bst_inv h' (rootp t') t'"
proof -
  have k: "5 \<in> set (keys sample_tree)" by (simp add: sample_tree_def)
  obtain C l a r h' t' where d: "sample_tree = plug C \<langle>l, (a, 5), r\<rangle>"
    "tree_delete sample_heap (Some 0) 5 = Some (rootp t', h')"
    "inorder t' = pre C @ inorder l @ inorder r @ post C"
    "if l \<noteq> \<langle>\<rangle> \<and> r \<noteq> \<langle>\<rangle> \<and> Tree.left r = \<langle>\<rangle>
     then \<exists>n. cells h' (the (rootp l)) = Some n \<and> parent n = Some a else bst_inv h' (rootp t') t'"
    using tree_delete_correct[OF sample_inv, of 5] k by auto
  have "(pre C @ inorder l) @ (a, 5) # inorder r @ post C = [(1, 3)] @ (0, 5) # []"
    using arg_cong[OF d(1), of inorder] by (simp add: sample_tree_def)
  then have "pre C @ inorder l = [(1, 3)] \<and> inorder r @ post C = []"
    by (auto simp: append_eq_Cons_conv Cons_eq_append_conv append_eq_append_conv2)
  then show ?thesis using d by (auto split: if_splits)
qed

subsection \<open>The contract for clients\<close>

primrec add_all :: "(int \<Rightarrow> 's \<Rightarrow> 's c) \<Rightarrow> int list \<Rightarrow> 's \<Rightarrow> 's c" where
  "add_all add [] s = Some s"
| "add_all add (k # ks) s = do { s' \<leftarrow> add k s; add_all add ks s' }"

locale sorted_bag =
  fixes represents :: "'s \<Rightarrow> int list \<Rightarrow> bool" and empty_bag :: 's
    and add :: "int \<Rightarrow> 's \<Rightarrow> 's c" and member :: "int \<Rightarrow> 's \<Rightarrow> bool c"
  assumes represents_empty: "represents empty_bag []"
    and represents_add: "represents s ks \<Longrightarrow> \<exists>s'. add k s = Some s' \<and> represents s' (insort k ks)"
    and represents_member: "represents s ks \<Longrightarrow> member k s = Some (k \<in> set ks)"
begin

lemma add_all_represents:
  "represents s ks \<Longrightarrow> \<exists>s'. add_all add xs s = Some s' \<and> represents s' (fold insort xs ks)"
proof (induction xs arbitrary: s ks)
  case (Cons x xs)
  obtain s1 where "add x s = Some s1" "represents s1 (insort x ks)" using represents_add[OF Cons.prems] by blast
  with Cons.IH[of s1] show ?case by auto
qed simp

lemma add_all_sorts:
  "\<exists>s. add_all add xs empty_bag = Some s \<and> represents s (sort xs)
     \<and> (\<forall>k. member k s = Some (k \<in> set xs))"
proof -
  obtain s where s: "add_all add xs empty_bag = Some s" "represents s (fold insort xs [])"
    using add_all_represents[OF represents_empty] by blast
  have "fold insort xs [] = sort xs"
    by (simp add: sort_conv_fold)
  with s represents_member show ?thesis by (metis set_sort)
qed

end

definition bst_represents :: "tree_heap \<times> ptr \<Rightarrow> int list \<Rightarrow> bool" where
  "bst_represents s ks \<longleftrightarrow> (\<exists>t. bst_inv (fst s) (snd s) t \<and> keys t = ks \<and> oom (fst s) = (\<lambda>_. False))"

definition bst_add :: "int \<Rightarrow> tree_heap \<times> ptr \<Rightarrow> (tree_heap \<times> ptr) c" where
  "bst_add k s = map_option prod.swap (tree_insert (fst s) (snd s) k)"

definition bst_member :: "int \<Rightarrow> tree_heap \<times> ptr \<Rightarrow> bool c" where
  "bst_member k s = map_option (\<lambda>p. p \<noteq> None) (tree_find (fst s) (snd s) k)"

interpretation bst: sorted_bag bst_represents "(empty_heap (\<lambda>_. False), None)" bst_add bst_member
proof
  show "bst_represents (empty_heap (\<lambda>_. False), None) []"
    using bst_inv_empty by (auto simp: bst_represents_def empty_heap_def)
  show "\<exists>s'. bst_add k s = Some s' \<and> bst_represents s' (insort k ks)" if s: "bst_represents s ks" for s ks k
  proof -
    obtain t where t: "bst_inv (fst s) (snd s) t" "keys t = ks" "oom (fst s) = (\<lambda>_. False)"
      using s by (auto simp: bst_represents_def)
    then obtain root' h' where "tree_insert (fst s) (snd s) k = Some (root', h')"
      "bst_inv h' root' (ins (fresh (fst s)) k t)" "oom h' = oom (fst s)"
      using bst_inv_insert[OF t(1), of k] by auto
    moreover have "keys (ins (fresh (fst s)) k t) = insort k ks"
      using keys_ins bst_invD(4)[OF t(1)] t(2) by blast
    ultimately show ?thesis using t(3) by (auto simp: bst_add_def bst_represents_def intro!: exI)
  qed
  show "bst_member k s = Some (k \<in> set ks)" if s: "bst_represents s ks" for s ks k
  proof -
    obtain t where t: "bst_inv (fst s) (snd s) t" "keys t = ks" using s by (auto simp: bst_represents_def)
    note inv = bst_invD[OF t(1)]
    show ?thesis
      by (rule tree_find_cases[OF inv(7,4), of k]) (use inv(1) t(2) in \<open>auto simp: bst_member_def\<close>)
  qed
qed

text \<open>
  Inserting any sequence of keys one by one into an empty tree never goes wrong (as long as
  memory lasts) and yields a tree whose inorder sequence is the sorted sequence, duplicates kept, in which
  \<open>tree_find\<close> finds exactly the inserted keys.
\<close>

theorem bst_insert_all:
  "\<exists>h root t. add_all bst_add xs (empty_heap (\<lambda>_. False), None) = Some (h, root)
     \<and> bst_inv h root t \<and> keys t = sort xs
     \<and> (\<forall>k. bst_member k (h, root) = Some (k \<in> set xs))"
  using bst.add_all_sorts[of xs] by (auto simp: bst_represents_def)

subsection \<open>The command interpreter\<close>

text \<open>Every command except removal, as the user types it.\<close>

datatype bst_cmd = Key_Cmd char int | Dump

definition cmd_ok :: "bst_cmd \<Rightarrow> bool" where
  "cmd_ok c = (case c of Key_Cmd op k \<Rightarrow> op \<in> set ''IFPSHL'' \<and> in_int k | Dump \<Rightarrow> True)"

fun show_cmd :: "bst_cmd \<Rightarrow> string" where
  "show_cmd (Key_Cmd op k) = op # '' '' @ show_int k @ ''\<newline>''"
| "show_cmd Dump = ''D\<newline>''"

lemma sscanf_key_line:
  assumes "in_int k" "\<not> isspace op" "\<not> isspace op'" "op \<noteq> CHR 0x00" "op' \<noteq> CHR ''%''"
  shows "sscanf (op # '' '' @ show_int k @ ''\<newline>'') (CHR '' '' # op' # '' %d'')
    = Some (if op = op' then \<lparr>sr_args = [IntA k], sr_eof = False, sr_rest = ''\<newline>''\<rparr>
            else \<lparr>sr_args = [], sr_eof = False, sr_rest = op # '' '' @ show_int k @ ''\<newline>''\<rparr>)"
proof -
  let ?l = "op # '' '' @ show_int k @ ''\<newline>''"
  have c: "cstr ?l = ?l" using assms show_int_plain by (intro cstr_line) auto
  have "skip_ws ?l = ?l" using assms(2) by (simp add: skip_ws_def)
  moreover have "skip_ws (CHR '' '' # show_int k @ ''\<newline>'') = show_int k @ ''\<newline>''"
    using skip_ws_append[of "'' ''" "show_int k @ ''\<newline>''"] by simp
  moreover have "scanf ''%d'' (show_int k @ ''\<newline>'') = Some \<lparr>sr_args = [IntA k], sr_eof = False, sr_rest = ''\<newline>''\<rparr>"
    using scanf_d_elem[of "[]" "''\<newline>''" k] assms(1) by simp
  ultimately show ?thesis
    unfolding sscanf_def c using assms by (simp add: scanf.simps scan_stop_def)
qed

lemma query_total:
  assumes "bst_inv h root t" "\<And>a x. (a, x) \<in> set (inorder t) \<Longrightarrow> \<exists>q. query h (Some a) = Some q
      \<and> (q = None \<longrightarrow> absent \<noteq> None) \<and> (\<forall>b. q = Some b \<longrightarrow> b \<in> addrs t)"
  shows "\<exists>out err. bst_query_cmd query found absent h root k
    = Some \<lparr>br_root = root, br_heap = h, br_out = out, br_err = err, br_go = True\<rparr>"
proof -
  note inv = bst_invD[OF assms(1)]
  have node: "\<exists>n. cells h b = Some n" if "b \<in> addrs t" for b using that inv(6) by auto
  show ?thesis
  proof (rule tree_find_cases[OF inv(7,4), of k])
    assume "tree_find h (rootp t) k = Some None"
    then show ?thesis by (simp add: bst_query_cmd_def inv(1))
  next
    fix C l a r assume t: "t = plug C \<langle>l, (a, k), r\<rangle>" and f: "tree_find h (rootp t) k = Some (Some a)"
    then have "(a, k) \<in> set (inorder t)" by simp
    then obtain q where "query h (Some a) = Some q" "q = None \<longrightarrow> absent \<noteq> None" "\<forall>b. q = Some b \<longrightarrow> b \<in> addrs t"
      using assms(2) by blast
    moreover have "a \<in> addrs t" using t by (simp add: image_Un)
    ultimately show ?thesis
      using f node[of a] node[of "the q"] by (cases q) (auto simp: bst_query_cmd_def inv(1) split: option.splits)
  qed
qed

lemma first_addr_mem: "first_addr xs = Some b \<Longrightarrow> b \<in> fst ` set xs"
  by (cases xs) auto

lemma last_addr_mem: "last_addr xs = Some b \<Longrightarrow> b \<in> fst ` set xs"
  by (auto simp: last_addr_def split: if_splits)

lemma node_queries:
  assumes "bst_inv h root t" "(a, k) \<in> set (inorder t)"
  obtains q1 q2 b3 b4 where
    "tree_successor h (Some a) = Some q1" "\<forall>b. q1 = Some b \<longrightarrow> b \<in> addrs t"
    "tree_predecessor h (Some a) = Some q2" "\<forall>b. q2 = Some b \<longrightarrow> b \<in> addrs t"
    "tree_maximum h (Some a) = Some (Some b3)" "b3 \<in> addrs t"
    "tree_minimum h (Some a) = Some (Some b4)" "b4 \<in> addrs t"
proof -
  note inv = bst_invD[OF assms(1)]
  obtain C l r where t: "t = plug C \<langle>l, (a, k), r\<rangle>" using mem_plug[of "(a, k)" t Top] assms(2) by auto
  have sub: "is_shape (cells h) \<langle>l, (a, k), r\<rangle>"
    using inv(2) t by (metis is_tree_plug is_tree_shape)
  let ?u = "\<langle>l, (a, k), r\<rangle>"
  have "tree_maximum h (Some a) = Some (last_addr (inorder ?u))" "tree_minimum h (Some a) = Some (first_addr (inorder ?u))"
    using tree_maximum_eq[OF sub] tree_minimum_eq[OF sub] by simp_all
  then have mm: "tree_maximum h (Some a) = Some (Some (fst (last (inorder ?u))))"
    "tree_minimum h (Some a) = Some (Some (fst (hd (inorder ?u))))"
    by (simp_all add: last_addr_def first_addr_hd)
  have mem: "last (inorder ?u) \<in> set (inorder ?u)" "hd (inorder ?u) \<in> set (inorder ?u)"
    "set (inorder ?u) \<subseteq> set_tree t"
    by (rule last_in_set, simp) (rule hd_in_set, simp, auto simp: t)
  show thesis
  proof (rule that[OF _ _ _ _ mm(1) _ mm(2)])
    show "tree_successor h (Some a) = Some (first_addr (inorder r @ post C))"
      "tree_predecessor h (Some a) = Some (last_addr (pre C @ inorder l))"
      using tree_successor_eq[of h C l a k r] tree_predecessor_eq[of h C l a k r] inv(2,3) t by auto
    show "\<forall>b. first_addr (inorder r @ post C) = Some b \<longrightarrow> b \<in> addrs t"
      using first_addr_mem[of "inorder r @ post C"] by (auto simp: t image_Un)
    show "\<forall>b. last_addr (pre C @ inorder l) = Some b \<longrightarrow> b \<in> addrs t"
      using last_addr_mem[of "pre C @ inorder l"] by (auto simp: t image_Un)
    show "fst (last (inorder ?u)) \<in> addrs t" "fst (hd (inorder ?u)) \<in> addrs t"
      using mem by (meson imageI subsetD)+
  qed
qed

lemma find_cmd_total:
  assumes "bst_inv h root t"
  shows "\<exists>out. bst_find_cmd h root k = Some \<lparr>br_root = root, br_heap = h, br_out = out, br_err = [], br_go = True\<rparr>"
proof -
  note inv = bst_invD[OF assms(1)]
  show ?thesis
  proof (rule tree_find_cases[OF inv(7,4), of k])
    assume "tree_find h (rootp t) k = Some None"
    then show ?thesis by (simp add: bst_find_cmd_def inv(1))
  next
    fix C l a r assume t: "t = plug C \<langle>l, (a, k), r\<rangle>" and f: "tree_find h (rootp t) k = Some (Some a)"
    have u: "is_ctx (cells h) C (Some a)" "is_tree (cells h) (cpar C) \<langle>l, (a, k), r\<rangle>"
      using inv(2) by (auto simp: t is_tree_plug)
    have child: "\<exists>s. show_child h (rootp v) = Some s" if "is_tree (cells h) p v" for p v
      using that by (cases v) (auto simp: show_child_def)
    have par: "\<exists>s. show_child h (cpar C) = Some s"
      using u(1) by (cases C) (auto simp: show_child_def)
    from u(2) child[of "Some a" l] child[of "Some a" r] par f show ?thesis
      by (auto simp: bst_find_cmd_def inv(1))
  qed
qed

lemma bst_command_total:
  assumes "bst_inv h root t" "cmd_ok c"
  shows "\<exists>r t'. bst_command h root (show_cmd c) = Some r \<and> br_go r \<and> bst_inv (br_heap r) (br_root r) t'"
proof (cases c)
  case Dump
  then show ?thesis
    using pre_order_total[OF bst_invD(7)[OF assms(1)]] assms(1) bst_invD(1)[OF assms(1)]
    by (auto simp: bst_command_def sscanf_def cstr_def scanf_eval skip_ws_def isspace_def scan_ret_def)
next
  case (Key_Cmd op k)
  then have op: "op \<in> set ''IFPSHL''" and k: "in_int k" using assms(2) by (auto simp: cmd_ok_def)
  have sc: "sscanf (show_cmd c) (CHR '' '' # op' # '' %d'')
    = Some (if op = op' then \<lparr>sr_args = [IntA k], sr_eof = False, sr_rest = ''\<newline>''\<rparr>
            else \<lparr>sr_args = [], sr_eof = False, sr_rest = show_cmd c\<rparr>)"
    if "op' \<in> set ''IRFPSHL''" for op'
    using sscanf_key_line[OF k, of op op'] that op Key_Cmd by (auto simp: isspace_def)
  have q: "\<exists>out err. bst_query_cmd query found absent h root k
      = Some \<lparr>br_root = root, br_heap = h, br_out = out, br_err = err, br_go = True\<rparr>"
    if "query \<in> {tree_successor, tree_predecessor} \<and> absent \<noteq> None \<or> query \<in> {tree_maximum, tree_minimum}"
    for query absent found
    using that by (intro query_total[OF assms(1)]) (erule node_queries[OF assms(1)], auto)
  have insert: "\<exists>r t'. (case tree_insert h root k of None \<Rightarrow> None | Some (new_root, h1) \<Rightarrow>
        Some (if new_root = None then \<lparr>br_root = root, br_heap = h1, br_out = [], br_err = printf ''Out of memory; couldn't insert node.\<newline>'' [], br_go = True\<rparr>
              else \<lparr>br_root = new_root, br_heap = h1, br_out = [], br_err = [], br_go = True\<rparr>)) = Some r
      \<and> br_go r \<and> bst_inv (br_heap r) (br_root r) t'"
  proof (cases "oom h (fresh h)")
    case True
    then show ?thesis
      using tree_insert_oom[OF bst_invD(7)[OF assms(1)], of k] bst_inv_oom[OF assms(1)] bst_invD(1)[OF assms(1)] by auto
  next
    case False
    then show ?thesis using bst_inv_insert[OF assms(1), of k] by auto
  qed
  from op consider "op = CHR ''I''" | "op = CHR ''F''" | "op = CHR ''P''" | "op = CHR ''S''" | "op = CHR ''H''" | "op = CHR ''L''"
    by auto
  then show ?thesis
  proof cases
    case 1
    then show ?thesis using insert sc by (simp add: bst_command_def split: option.splits)
  next
    case 2
    then have "bst_command h root (show_cmd c) = bst_find_cmd h root k" by (simp add: bst_command_def sc)
    then show ?thesis using find_cmd_total[OF assms(1), of k] assms(1) by auto
  next
    case 3
    then have "bst_command h root (show_cmd c) = bst_query_cmd tree_predecessor ''Predecessor of %d is %d\<newline>'' (Some ''Node %d has no predecessor.\<newline>'') h root k"
      by (simp add: bst_command_def sc)
    then show ?thesis using q[of tree_predecessor "(Some ''Node %d has no predecessor.\<newline>'')" "''Predecessor of %d is %d\<newline>''"] assms(1) by auto
  next
    case 4
    then have "bst_command h root (show_cmd c) = bst_query_cmd tree_successor ''Successor of %d is %d\<newline>'' (Some ''Node %d has no successor.\<newline>'') h root k"
      by (simp add: bst_command_def sc)
    then show ?thesis using q[of tree_successor "(Some ''Node %d has no successor.\<newline>'')" "''Successor of %d is %d\<newline>''"] assms(1) by auto
  next
    case 5
    then have "bst_command h root (show_cmd c) = bst_query_cmd tree_maximum ''Subtree rooted at %d has maximum = %d\<newline>'' None h root k"
      by (simp add: bst_command_def sc)
    then show ?thesis using q[of tree_maximum None "''Subtree rooted at %d has maximum = %d\<newline>''"] assms(1) by auto
  next
    case 6
    then have "bst_command h root (show_cmd c) = bst_query_cmd tree_minimum ''Subtree rooted at %d has minimum = %d\<newline>'' None h root k"
      by (simp add: bst_command_def sc)
    then show ?thesis using q[of tree_minimum None "''Subtree rooted at %d has minimum = %d\<newline>''"] assms(1) by auto
  qed
qed

lemma fgets_cmd: "cmd_ok c \<Longrightarrow> fgets 1024 (show_cmd c @ s) = Some (show_cmd c, s)"
proof (cases c)
  case (Key_Cmd op k)
  assume "cmd_ok c"
  with Key_Cmd have "fgets_aux 1023 ((op # '' '' @ show_int k) @ CHR 0x0A # s) = ((op # '' '' @ show_int k) @ [CHR 0x0A], s)"
    using length_show_int[of k] show_int_plain[of _ k] by (intro fgets_aux_line) (auto simp: cmd_ok_def)
  with Key_Cmd show ?thesis by (simp add: fgets_def)
next
  case Dump
  then show ?thesis using fgets_aux_line[of "''D''" 1023 s] by (simp add: fgets_def)
qed

lemma bst_loop_total:
  assumes "bst_inv h root t" "list_all cmd_ok cs"
  shows "\<exists>r t'. bst_loop h root (concat (map show_cmd cs)) = Some r \<and> bst_inv (br_heap r) (br_root r) t'"
  using assms
proof (induction cs arbitrary: h root t)
  case Nil
  then show ?case by (subst bst_loop.simps) (auto simp: fgets_def)
next
  case (Cons c cs)
  then obtain r t1 where r: "bst_command h root (show_cmd c) = Some r" "br_go r" "bst_inv (br_heap r) (br_root r) t1"
    using bst_command_total[of h root t c] by auto
  obtain r2 t2 where "bst_loop (br_heap r) (br_root r) (concat (map show_cmd cs)) = Some r2"
    "bst_inv (br_heap r2) (br_root r2) t2"
    using Cons.IH[OF r(3)] Cons.prems(2) by auto
  with r Cons.prems(2) show ?case by (subst bst_loop.simps) (auto simp: fgets_cmd)
qed

text \<open>
  The program never goes wrong on commands other than removal: whatever sequence of
  insertions, searches, neighbour, minimum and maximum queries and dumps the user types, and whichever
  allocations fail, \<open>main\<close> runs to its end, where it frees every node.
\<close>

lemma bst_main_safe:
  assumes "list_all cmd_ok cs"
  shows "\<exists>out err. bst_main fails (concat (map show_cmd cs)) = Some (out, err)"
proof -
  obtain r t where r: "bst_loop (empty_heap fails) None (concat (map show_cmd cs)) = Some r"
    "bst_inv (br_heap r) (br_root r) t"
    using bst_loop_total[OF bst_inv_empty assms] by blast
  then show ?thesis
    using destroy_tree_eq[OF bst_invD(7,3)[OF r(2)]] bst_invD(1)[OF r(2)] by (simp add: bst_main_def)
qed

end
