(* ===== verification/Bst_Dangling.thy ===== *)
theory Bst_Dangling
  imports Bst_Proofs
begin

text \<open>
  The defect of the removal in \<open>bst.c\<close>: when the right child moves up and has no left child, the parent pointer of the
  left child is not updated. What that means for the next removal.
\<close>

subsection \<open>The dangling parent pointer\<close>

text \<open>The parent of the node \<open>b\<close> is the freed node \<open>a\<close>, and no write of a removal of \<open>b\<close> repairs that.\<close>

definition dangling :: "tree_heap \<Rightarrow> nat \<Rightarrow> nat \<Rightarrow> bool" where
  "dangling h b a \<longleftrightarrow> cells h a = None \<and>
     (\<exists>n. cells h b = Some n \<and> parent n = Some a \<and> left n \<noteq> Some b \<and> right n \<noteq> Some b)"

lemma dangling_transplant: "dangling h b a \<Longrightarrow> transplant h (Some b) v = None"
  by (auto simp: dangling_def transplant_def deref_def)

lemma dangling_store:
  assumes "dangling h b a" "store h p f = Some h'"
    "p = Some b \<Longrightarrow> \<forall>n. parent (f n) = parent n \<and> (left n \<noteq> Some b \<longrightarrow> left (f n) \<noteq> Some b) \<and> (right n \<noteq> Some b \<longrightarrow> right (f n) \<noteq> Some b)"
  shows "dangling h' b a"
  using assms by (cases p) (auto simp: dangling_def store_def split: option.splits)

lemma dangling_transplant_other:
  assumes "dangling h b a" "transplant h (Some s) v = Some h'" "s \<noteq> b" "v \<noteq> Some b"
  shows "dangling h' b a"
proof -
  obtain un :: tree_node and h1 where un: "(if parent un \<noteq> None
         then do { pn \<leftarrow> deref h (parent un);
                   if Some s = left pn then store h (parent un) (\<lambda>x. x\<lparr>left := v\<rparr>) else store h (parent un) (\<lambda>x. x\<lparr>right := v\<rparr>) }
         else Some h) = Some h1"
    and v: "(if v \<noteq> None then do { un1 \<leftarrow> deref h1 (Some s); store h1 v (\<lambda>x. x\<lparr>parent := parent un1\<rparr>) } else Some h1) = Some h'"
    using assms(2) unfolding transplant_def bind_eq_Some_conv by blast
  have "dangling h1 b a"
  proof (cases "parent un")
    case (Some q)
    then obtain pn :: tree_node where "(if Some s = left pn then store h (Some q) (\<lambda>x. x\<lparr>left := v\<rparr>) else store h (Some q) (\<lambda>x. x\<lparr>right := v\<rparr>)) = Some h1"
      using un by (auto simp only: bind_eq_Some_conv option.simps if_True not_False_eq_True)
    then show ?thesis using dangling_store[OF assms(1), of "Some q" _ h1] assms(4) by (auto simp del: store_Some split: if_splits)
  qed (use un assms(1) in simp)
  then show ?thesis
    using v dangling_store[of h1 b a v _ h'] assms(4) by (auto simp: bind_eq_Some_conv simp del: store_Some split: if_splits)
qed

lemma shape_right: "is_shape c t \<Longrightarrow> s \<in> addrs t \<Longrightarrow> \<exists>m. c s = Some m \<and> (\<forall>q. right m = Some q \<longrightarrow> q \<in> addrs t)"
proof (induction t)
  case (Node l x r)
  then have c: "\<exists>p. c (fst x) = Some \<lparr>key = snd x, parent = p, left = rootp l, right = rootp r\<rparr>" "is_shape c l" "is_shape c r" by auto
  consider "s = fst x" | "s \<in> addrs l" | "s \<in> addrs r" using Node.prems(2) by auto
  then show ?case
  proof cases
    case 1
    have "q \<in> addrs \<langle>l, x, r\<rangle>" if "rootp r = Some q" for q using rootp_addrs[OF that] by (simp add: image_Un)
    then show ?thesis using 1 c(1) by auto
  qed (use Node.IH c in \<open>fastforce simp: image_Un\<close>)+
qed simp

lemma dangling_delete:
  assumes d: "dangling h b a" and t: "is_shape (cells h) \<langle>l, (b, j), r\<rangle>" "distinct (addr_list \<langle>l, (b, j), r\<rangle>)"
  shows "tree_delete_internal h root (Some b) = None"
proof -
  obtain p where n: "cells h b = Some \<lparr>key = j, parent = p, left = rootp l, right = rootp r\<rparr>" and r: "is_shape (cells h) r"
    using t(1) by auto
  have notin: "b \<notin> addrs l" "b \<notin> addrs r" using t(2) by auto
  note none = dangling_transplant
  show ?thesis
  proof (cases "l = \<langle>\<rangle> \<or> r = \<langle>\<rangle>")
    case True
    then show ?thesis using n none[OF d] by (auto simp: tree_delete_internal_def)
  next
    case False
    then obtain s where s: "tree_minimum h (rootp r) = Some (Some s)" "s \<in> addrs r"
      using tree_minimum_eq[OF r] first_addr_hd[of "inorder r"] by (metis eq_inorder_Nil hd_in_set image_eqI set_inorder)
    obtain m where m: "cells h s = Some m" "right m \<noteq> Some b" using shape_right[OF r s(2)] notin by auto
    have sb: "s \<noteq> b" using s(2) notin by auto
    have shallow: "(do { h1 \<leftarrow> store h (Some s) (\<lambda>x. x\<lparr>left := q\<rparr>); transplant h1 (Some b) (Some s) }) = None" for q
    proof (cases "store h (Some s) (\<lambda>x. x\<lparr>left := q\<rparr>)")
      case (Some h1)
      then show ?thesis using none dangling_store[OF d Some] sb by simp
    qed simp
    have deep: "(do { s' \<leftarrow> deref h (Some s);
                      h1 \<leftarrow> transplant h (Some s) (right s');
                      d1 \<leftarrow> deref h1 (Some b);
                      h2 \<leftarrow> store h1 (Some s) (\<lambda>x. x\<lparr>right := right d1\<rparr>);
                      d2 \<leftarrow> deref h2 (Some b);
                      h3 \<leftarrow> store h2 (Some s) (\<lambda>x. x\<lparr>left := left d2\<rparr>);
                      s3 \<leftarrow> deref h3 (Some s);
                      h4 \<leftarrow> store h3 (right s3) (\<lambda>x. x\<lparr>parent := Some s\<rparr>);
                      s4 \<leftarrow> deref h4 (Some s);
                      h5 \<leftarrow> store h4 (left s4) (\<lambda>x. x\<lparr>parent := Some s\<rparr>);
                      transplant h5 (Some b) (Some s) }) = None" (is "?deep = None")
    proof (rule ccontr)
      assume "?deep \<noteq> None"
      then obtain h1 d1 h2 d2 h3 s3 h4 s4 h5 h6 where x: "transplant h (Some s) (right m) = Some h1" "deref h1 (Some b) = Some d1"
        "store h1 (Some s) (\<lambda>x. x\<lparr>right := right d1\<rparr>) = Some h2" "deref h2 (Some b) = Some d2"
        "store h2 (Some s) (\<lambda>x. x\<lparr>left := left d2\<rparr>) = Some h3" "deref h3 (Some s) = Some s3"
        "store h3 (right s3) (\<lambda>x. x\<lparr>parent := Some s\<rparr>) = Some h4" "deref h4 (Some s) = Some s4"
        "store h4 (left s4) (\<lambda>x. x\<lparr>parent := Some s\<rparr>) = Some h5" "transplant h5 (Some b) (Some s) = Some h6"
        using m by (auto simp: bind_eq_Some_conv)
      have k1: "dangling h1 b a" using dangling_transplant_other[OF d x(1) sb m(2)] .
      have k2: "dangling h2 b a" using dangling_store[OF k1 x(3)] sb by simp
      have k3: "dangling h3 b a" using dangling_store[OF k2 x(5)] sb by simp
      have c: "right d1 \<noteq> Some b" "left d2 \<noteq> Some b" using k1 k2 x(2,4) by (auto simp: dangling_def deref_def)
      have s3: "right s3 = right d1" "left s3 = left d2"
        using x(3,5,6) by (auto simp: store_def deref_def split: option.splits)
      then have k4: "dangling h4 b a" using dangling_store[OF k3 x(7)] c by simp
      have "left s4 = left s3" using x(6,7,8) by (auto simp: store_def deref_def split: option.splits if_splits)
      then have "dangling h5 b a" using dangling_store[OF k4 x(9)] c s3 by simp
      then show False using none x(10) by simp
    qed
    have "rootp l \<noteq> None" "rootp r \<noteq> None" using False by simp_all
    then show ?thesis unfolding tree_delete_internal_def
      by (simp only: deref_Some n s(1) shallow deep[unfolded deref_Some] Option.bind.bind_lunit Option.bind.bind_lzero tree_node.simps if_False if_cancel)
  qed
qed

lemma is_shape_plugged: "is_shape c (plug C t) \<Longrightarrow> is_shape c t"
proof (induction C arbitrary: t)
  case (CL C x r)
  from CL.IH[of "\<langle>t, x, r\<rangle>"] CL.prems show ?case by auto
next
  case (CR l x C)
  from CR.IH[of "\<langle>l, x, t\<rangle>"] CR.prems show ?case by auto
qed simp

text \<open>With distinct keys a search can only end at the node that has the key.\<close>

lemma tree_find_unique:
  assumes "is_shape (cells h) t" "sorted (keys t)" "distinct (keys t)" "(a, k) \<in> set_tree t"
  shows "tree_find h (rootp t) k = Some (Some a)"
proof (rule tree_find_cases[OF assms(1,2), of k])
  assume "k \<notin> set (keys t)"
  then show ?thesis using assms(4) by (force simp flip: set_inorder)
next
  fix C l b r assume t: "t = plug C \<langle>l, (b, k), r\<rangle>" and f: "tree_find h (rootp t) k = Some (Some b)"
  have "(b, k) \<in> set (inorder t)" "(a, k) \<in> set (inorder t)" using assms(4) t by auto
  then have "a = b" using assms(3) by (metis distinct_map inj_onD prod.inject snd_conv)
  then show ?thesis using f by simp
qed

text \<open>
  Property C35. In every well-formed tree with distinct keys: when the node \<open>a\<close> has a left child \<open>b\<close> and a right child
  without a left child, the removal of \<open>a\<close> succeeds and frees it, but leaves it as the parent of \<open>b\<close>; every
  \<open>transplant\<close> at \<open>b\<close> then accesses the freed node, and the removal of the key of \<open>b\<close> is undefined.
\<close>

theorem bst_use_after_free:
  assumes "bst_inv h root (plug C \<langle>\<langle>l, (b, j), m\<rangle>, (a, k), \<langle>\<langle>\<rangle>, y, r\<rangle>\<rangle>)"
    and "distinct (keys (plug C \<langle>\<langle>l, (b, j), m\<rangle>, (a, k), \<langle>\<langle>\<rangle>, y, r\<rangle>\<rangle>))"
  shows "\<exists>root' h' n. tree_delete h root k = Some (root', h') \<and> cells h' a = None
    \<and> cells h' b = Some n \<and> parent n = Some a \<and> key n = j
    \<and> (\<forall>v. transplant h' (Some b) v = None) \<and> tree_delete h' root' j = None"
proof -
  let ?L = "\<langle>l, (b, j), m\<rangle>"
  let ?u = "\<langle>?L, (a, k), \<langle>\<langle>\<rangle>, y, r\<rangle>\<rangle>"
  let ?t' = "plug C \<langle>?L, y, r\<rangle>"
  note inv = bst_invD[OF assms(1)]
  obtain c where c: "tree_delete_internal h (rootp (plug C ?u)) (Some a) = Some (rootp ?t', h\<lparr>cells := c\<rparr>)"
    "is_shape c ?t'" "dom c = dom (cells h) - {a}" "\<exists>n. c b = Some n \<and> parent n = Some a"
    using tree_delete_internal_cases[OF inv(2,3) refl] by (auto split: if_splits)
  let ?h = "h\<lparr>cells := c\<rparr>"
  have "tree_find h root k = Some (Some a)" using tree_find_unique[OF inv(7,4) assms(2), of a k] inv(1) by simp
  then have del: "tree_delete h root k = Some (rootp ?t', ?h)" using c(1) inv(1) by (simp add: tree_delete_def)
  have L: "is_shape c ?L" using is_shape_plugged[OF c(2)] by simp
  have dist: "distinct (addr_list ?L)" "b \<notin> addrs l" "b \<notin> addrs m" using inv(3) by auto
  have freed: "c a = None" using c(3) by (auto simp: domIff)
  obtain n where n: "c b = Some n" "parent n = Some a" "key n = j" "left n \<noteq> Some b" "right n \<noteq> Some b"
  proof -
    have "rootp l \<noteq> Some b" "rootp m \<noteq> Some b" using dist rootp_addrs by blast+
    moreover have "c b = Some \<lparr>key = j, parent = Some a, left = rootp l, right = rootp m\<rparr>" using c(4) L by auto
    ultimately show thesis by (intro that[of "\<lparr>key = j, parent = Some a, left = rootp l, right = rootp m\<rparr>"]) simp_all
  qed
  then have d: "dangling ?h b a" using freed by (simp add: dangling_def)
  have "sorted (keys ?t')" "distinct (keys ?t')" using inv(4) assms(2) by (auto simp: sorted_append)
  then have "tree_find ?h (rootp ?t') j = Some (Some b)" using c(2) by (intro tree_find_unique) auto
  then have "tree_delete ?h (rootp ?t') j = None" using dangling_delete[OF d, of l j m] L dist(1) by (simp add: tree_delete_def)
  then show ?thesis using del freed n dangling_transplant[OF d] by (intro exI[of _ "rootp ?t'"] exI[of _ ?h] exI[of _ n]) simp
qed

text \<open>The tree with the keys 2, 1 and 3.\<close>

definition three_keys :: tree_heap where
  "three_keys = \<lparr>cells = [0 \<mapsto> \<lparr>key = 2, parent = None, left = Some 1, right = Some 2\<rparr>,
     1 \<mapsto> \<lparr>key = 1, parent = Some 0, left = None, right = None\<rparr>, 2 \<mapsto> \<lparr>key = 3, parent = Some 0, left = None, right = None\<rparr>],
     fresh = 3, oom = \<lambda>_. False\<rparr>"

lemma three_keys_inv: "bst_inv three_keys (Some 0) (plug Top \<langle>\<langle>\<langle>\<rangle>, (1, 1), \<langle>\<rangle>\<rangle>, (0, 2), \<langle>\<langle>\<rangle>, (2, 3), \<langle>\<rangle>\<rangle>\<rangle>)"
  by (auto simp: bst_inv_def three_keys_def heap_ok_def split: if_splits)

theorem bst_use_after_free_witness:
  "\<exists>root' h'. tree_delete three_keys (Some 0) 2 = Some (root', h') \<and> tree_delete h' root' 1 = None"
  using bst_use_after_free[OF three_keys_inv] by auto

end
