(* ===== verification/Hash_Table.thy ===== *)
theory Hash_Table
  imports C_Stdio C_Heap
begin

text \<open>
  \<open>DS_Algos/hash_table/impl.c\<close>: a hash table of 941 circular doubly linked lists with sentinels,
  and the command interpreter around it. The sentinels are the elements of the array inside the table,
  one allocation of 941 consecutive cells; a list node is an allocation of its own. A field is
  \<open>None\<close> before it is initialised, and reading it then is an error.
\<close>

definition HASH_TABLE_SZ :: nat where "HASH_TABLE_SZ = 941"

record ht_node =
  item :: "int option"
  hkey :: "int option"
  next_p :: ptr
  prev_p :: ptr

type_synonym ht_heap = "ht_node heap"

definition new_node :: "ht_heap \<Rightarrow> int \<Rightarrow> int \<Rightarrow> (ptr \<times> ht_heap) c" where
  "new_node h v k =
     (case malloc h \<lparr>item = None, hkey = None, next_p = None, prev_p = None\<rparr> of
        (None, h1) \<Rightarrow> Some (None, h1)
      | (res, h1) \<Rightarrow>
          do { h2 \<leftarrow> store h1 res (\<lambda>n. n\<lparr>item := Some v, hkey := Some k, prev_p := res, next_p := res\<rparr>);
               Some (res, h2) })"

text \<open>
  \<open>free\<close> takes what \<open>malloc\<close> returned: the address of a node, or of the whole table (the
  address of its first sentinel), but not that of another sentinel.
\<close>

definition free_node :: "nat \<Rightarrow> ht_heap \<Rightarrow> ptr \<Rightarrow> ht_heap c" where
  "free_node table h p =
     (case p of None \<Rightarrow> Some h
      | Some a \<Rightarrow>
          if a = table
          then (if cells h table = None then None
                else Some (h\<lparr>cells := (cells h) |` (- {table..<table + HASH_TABLE_SZ})\<rparr>))
          else if table \<le> a \<and> a < table + HASH_TABLE_SZ then None
          else free h p)"

definition insert_after :: "ht_heap \<Rightarrow> ptr \<Rightarrow> ptr \<Rightarrow> ht_heap c" where
  "insert_after h new head =
     do { hn \<leftarrow> deref h head;
          h1 \<leftarrow> store h new (\<lambda>n. n\<lparr>next_p := next_p hn\<rparr>);
          h2 \<leftarrow> store h1 new (\<lambda>n. n\<lparr>prev_p := head\<rparr>);
          hn2 \<leftarrow> deref h2 head;
          h3 \<leftarrow> store h2 (next_p hn2) (\<lambda>n. n\<lparr>prev_p := new\<rparr>);
          store h3 head (\<lambda>n. n\<lparr>next_p := new\<rparr>) }"

definition delete_node :: "nat \<Rightarrow> ht_heap \<Rightarrow> ptr \<Rightarrow> ht_heap c" where
  "delete_node table h node =
     do { n \<leftarrow> deref h node;
          h1 \<leftarrow> store h (prev_p n) (\<lambda>x. x\<lparr>next_p := next_p n\<rparr>);
          n1 \<leftarrow> deref h1 node;
          h2 \<leftarrow> store h1 (next_p n1) (\<lambda>x. x\<lparr>prev_p := prev_p n1\<rparr>);
          free_node table h2 node }"

partial_function (option) destroy_loop :: "nat \<Rightarrow> ht_heap \<Rightarrow> ptr \<Rightarrow> ptr \<Rightarrow> ht_heap c" where
  "destroy_loop table h head cursor =
     (if cursor \<noteq> head
      then do { n \<leftarrow> deref h cursor;
                let next_cursor = next_p n;
                h1 \<leftarrow> free_node table h next_cursor;
                destroy_loop table h1 head next_cursor }
      else Some h)"

definition destroy_list :: "nat \<Rightarrow> ht_heap \<Rightarrow> ptr \<Rightarrow> ht_heap c" where
  "destroy_list table h head =
     do { n \<leftarrow> deref h head;
          h1 \<leftarrow> destroy_loop table h head (next_p n);
          store h1 head (\<lambda>x. x\<lparr>prev_p := head, next_p := head\<rparr>) }"

text \<open>The conversion to \<open>unsigned\<close> is modulo \<open>2 ^ 32\<close>.\<close>

definition hash_key :: "int \<Rightarrow> nat" where
  "hash_key k = nat ((k mod 2 ^ 32) mod 941)"

function new_table_loop :: "ht_heap \<Rightarrow> nat \<Rightarrow> nat \<Rightarrow> ht_heap c" where
  "new_table_loop h table i =
     (if i < HASH_TABLE_SZ
      then do { h1 \<leftarrow> store h (Some (table + i)) (\<lambda>n. n\<lparr>prev_p := Some (table + i), next_p := Some (table + i)\<rparr>);
                new_table_loop h1 table (i + 1) }
      else Some h)"
  by pat_completeness auto
termination by (relation "measure (\<lambda>(h, table, i). HASH_TABLE_SZ - i)") auto

declare new_table_loop.simps [simp del]

definition malloc_table :: "ht_heap \<Rightarrow> ptr \<times> ht_heap" where
  "malloc_table h =
     (if oom h (fresh h) then (None, h\<lparr>fresh := Suc (fresh h)\<rparr>)
      else (Some (fresh h),
            h\<lparr>cells := (\<lambda>a. if fresh h \<le> a \<and> a < fresh h + HASH_TABLE_SZ
                             then Some \<lparr>item = None, hkey = None, next_p = None, prev_p = None\<rparr> else cells h a),
              fresh := fresh h + HASH_TABLE_SZ\<rparr>))"

definition new_table :: "ht_heap \<Rightarrow> (ptr \<times> ht_heap) c" where
  "new_table h =
     (case malloc_table h of
        (None, h1) \<Rightarrow> Some (None, h1)
      | (Some table, h1) \<Rightarrow> do { h2 \<leftarrow> new_table_loop h1 table 0; Some (Some table, h2) })"

function free_table_loop :: "nat \<Rightarrow> ht_heap \<Rightarrow> nat \<Rightarrow> ht_heap c" where
  "free_table_loop table h slot =
     (if slot < HASH_TABLE_SZ
      then do { h1 \<leftarrow> destroy_list table h (Some (table + slot)); free_table_loop table h1 (slot + 1) }
      else Some h)"
  by pat_completeness auto
termination by (relation "measure (\<lambda>(table, h, slot). HASH_TABLE_SZ - slot)") auto

declare free_table_loop.simps [simp del]

definition free_table :: "nat \<Rightarrow> ht_heap \<Rightarrow> ht_heap c" where
  "free_table table h = free_table_loop table h 0"

definition ht_insert :: "ht_heap \<Rightarrow> ptr \<Rightarrow> int \<Rightarrow> int \<Rightarrow> (bool \<times> ht_heap) c" where
  "ht_insert h table k value =
     do { _ \<leftarrow> c_assert (table \<noteq> None);
          let slot = hash_key k;
          _ \<leftarrow> c_assert (slot < HASH_TABLE_SZ);
          (node, h1) \<leftarrow> new_node h value k;
          if node = None then Some (False, h1)
          else do { h2 \<leftarrow> insert_after h1 node (Some (the table + slot)); Some (True, h2) } }"

partial_function (option) find_loop :: "ht_heap \<Rightarrow> ptr \<Rightarrow> int \<Rightarrow> ptr \<Rightarrow> ptr c" where
  "find_loop h head k cursor =
     (if cursor \<noteq> head
      then do { n \<leftarrow> deref h cursor;
                k' \<leftarrow> hkey n;
                if k' \<noteq> k then find_loop h head k (next_p n) else Some cursor }
      else Some cursor)"

definition find_internal :: "ht_heap \<Rightarrow> ptr \<Rightarrow> int \<Rightarrow> ptr c" where
  "find_internal h head k = do { n \<leftarrow> deref h head; find_loop h head k (next_p n) }"

text \<open>\<open>find\<close> returns 0, or 1 and the value through its last argument.\<close>

definition ht_find :: "ht_heap \<Rightarrow> ptr \<Rightarrow> int \<Rightarrow> int option c" where
  "ht_find h table k =
     do { _ \<leftarrow> c_assert (table \<noteq> None);
          let slot = hash_key k;
          _ \<leftarrow> c_assert (slot < HASH_TABLE_SZ);
          let head = Some (the table + slot);
          element \<leftarrow> find_internal h head k;
          if element = head then Some None
          else do { n \<leftarrow> deref h element; v \<leftarrow> item n; Some (Some v) } }"

definition ht_delete :: "ht_heap \<Rightarrow> ptr \<Rightarrow> int \<Rightarrow> ht_heap c" where
  "ht_delete h table k =
     do { _ \<leftarrow> c_assert (table \<noteq> None);
          let slot = hash_key k;
          _ \<leftarrow> c_assert (slot < HASH_TABLE_SZ);
          let head = Some (the table + slot);
          element \<leftarrow> find_internal h head k;
          if element \<noteq> head then delete_node (the table) h element else Some h }"

declare destroy_loop.simps [code] find_loop.simps [code]

subsection \<open>The command interpreter\<close>

text \<open>What goes to standard output and to standard error, and whether the loop goes on.\<close>

record ht_result =
  hr_heap :: ht_heap
  hr_out :: string
  hr_err :: string
  hr_go :: bool

definition ht_command :: "ht_heap \<Rightarrow> ptr \<Rightarrow> string \<Rightarrow> ht_result c" where
  "ht_command h table line =
     do { i \<leftarrow> sscanf line ''I %d %d'';
          if scan_ret i = 2 then
            do { (ok, h1) \<leftarrow> ht_insert h table (arg_int (sr_args i ! 0)) (arg_int (sr_args i ! 1));
                 Some (if \<not> ok
                       then \<lparr>hr_heap = h1, hr_out = [], hr_err = printf ''Couldn't insert new element - out of memory.\<newline>'' [], hr_go = False\<rparr>
                       else \<lparr>hr_heap = h1, hr_out = [], hr_err = [], hr_go = True\<rparr>) }
          else do { d \<leftarrow> sscanf line ''D %d'';
          if scan_ret d = 1 then
            do { h1 \<leftarrow> ht_delete h table (arg_int (sr_args d ! 0));
                 Some \<lparr>hr_heap = h1, hr_out = [], hr_err = [], hr_go = True\<rparr> }
          else do { s \<leftarrow> sscanf line ''S %d'';
          if scan_ret s = 1 then
            do { let k = arg_int (sr_args s ! 0);
                 f \<leftarrow> ht_find h table k;
                 Some (case f of
                         Some v \<Rightarrow> \<lparr>hr_heap = h, hr_out = printf ''%d: %d\<newline>'' [IntA k, IntA v], hr_err = [], hr_go = True\<rparr>
                       | None \<Rightarrow> \<lparr>hr_heap = h, hr_out = printf ''No item with key %d\<newline>'' [IntA k], hr_err = [], hr_go = True\<rparr>) }
          else None } } }"

function ht_loop :: "ht_heap \<Rightarrow> ptr \<Rightarrow> string \<Rightarrow> (string \<times> string) c" where
  "ht_loop h table s =
     (case fgets 256 s of
        None \<Rightarrow> Some ([], [])
      | Some (line, s') \<Rightarrow>
          do { r \<leftarrow> ht_command h table line;
               if hr_go r
               then do { (out, err) \<leftarrow> ht_loop (hr_heap r) table s'; Some (hr_out r @ out, hr_err r @ err) }
               else Some (hr_out r, hr_err r) })"
  by pat_completeness auto
termination
  by (relation "measure (\<lambda>(h, table, s). length s)") (auto dest: fgets_less)

declare ht_loop.simps [simp del]

definition ht_banner :: string where
  "ht_banner = ''I K V - Inserts the key K with value V in the hash table\<newline>''
     @ ''D K - Deletes the key K from the hash table\<newline>''
     @ ''S K - Searches the hash table for this key and prints the result\<newline>''"

definition ht_main :: "(nat \<Rightarrow> bool) \<Rightarrow> string \<Rightarrow> (string \<times> string) c" where
  "ht_main fails input =
     do { (htable, h) \<leftarrow> new_table (empty_heap fails);
          if htable = None
          then Some (printf ht_banner [], printf ''Cannot create hash table: out of memory\<newline>'' [])
          else do { (out, err) \<leftarrow> ht_loop h htable input; Some (printf ht_banner [] @ out, err) } }"

end
