(* ===== verification/Hash_Table_Proofs.thy ===== *)
theory Hash_Table_Proofs
  imports Hash_Table
begin

text \<open>
  The hash table refines a function from keys to the stacks of their values: \<open>insert\<close> pushes,
  \<open>find\<close> returns the top, \<open>delete\<close> pops. The linked lists are described by what can be
  observed of a cell: its two links and its data.
\<close>

type_synonym ht_store = "nat \<rightharpoonup> ht_node"
type_synonym chain = "(nat \<times> int \<times> int) list"

definition nxt :: "ht_store \<Rightarrow> nat \<Rightarrow> ptr" where
  "nxt c a = Option.bind (c a) next_p"

definition prv :: "ht_store \<Rightarrow> nat \<Rightarrow> ptr" where
  "prv c a = Option.bind (c a) prev_p"

definition dat :: "ht_store \<Rightarrow> nat \<Rightarrow> (int option \<times> int option) option" where
  "dat c a = map_option (\<lambda>n. (hkey n, item n)) (c a)"

lemmas observe = nxt_def prv_def dat_def

abbreviation forward :: "ht_store \<Rightarrow> nat list \<Rightarrow> bool" where
  "forward c \<equiv> successively (\<lambda>p q. nxt c p = Some q)"

abbreviation backward :: "ht_store \<Rightarrow> nat list \<Rightarrow> bool" where
  "backward c \<equiv> successively (\<lambda>p q. prv c q = Some p)"

definition bucket :: "ht_store \<Rightarrow> nat \<Rightarrow> chain \<Rightarrow> bool" where
  "bucket c s xs \<longleftrightarrow>
     forward c (s # map fst xs @ [s]) \<and> backward c (s # map fst xs @ [s])
     \<and> (\<forall>x\<in>set xs. dat c (fst x) = Some (Some (fst (snd x)), Some (snd (snd x))))"

lemma forward_frame: "(\<And>p. p \<in> set (butlast ps) \<Longrightarrow> nxt c' p = nxt c p) \<Longrightarrow> forward c ps \<Longrightarrow> forward c' ps"
  by (induction ps rule: induct_list012) auto

lemma backward_frame: "(\<And>q. q \<in> set (tl ps) \<Longrightarrow> prv c' q = prv c q) \<Longrightarrow> backward c ps \<Longrightarrow> backward c' ps"
  by (induction ps rule: induct_list012) auto

lemma bucket_frame:
  assumes "bucket c s xs" "\<And>a. a \<in> insert s (fst ` set xs) \<Longrightarrow> c' a = c a"
  shows "bucket c' s xs"
proof -
  have o: "nxt c' a = nxt c a" "prv c' a = prv c a" "dat c' a = dat c a" if "a \<in> insert s (fst ` set xs)" for a
    using assms(2)[OF that] by (simp_all add: observe)
  have "forward c' (s # map fst xs @ [s])"
    using assms(1) o(1) by (intro forward_frame[of _ c' c]) (auto simp: bucket_def butlast_append)
  moreover have "backward c' (s # map fst xs @ [s])"
    using assms(1) o(2) by (intro backward_frame[of _ c' c]) (auto simp: bucket_def)
  ultimately show ?thesis using assms(1) o(3) by (simp add: bucket_def)
qed

subsection \<open>Insertion into a list\<close>

lemma insert_after_observe:
  assumes "cells h s = Some ns" "next_p ns = Some q" "cells h a = Some na" "cells h q = Some nq" "a \<noteq> s" "a \<noteq> q"
  obtains c where "insert_after h (Some a) (Some s) = Some (h\<lparr>cells := c\<rparr>)" "dom c = dom (cells h)"
    "\<And>x. nxt c x = (if x = s then Some a else if x = a then Some q else nxt (cells h) x)"
    "\<And>x. prv c x = (if x = q then Some a else if x = a then Some s else prv (cells h) x)"
    "\<And>x. dat c x = dat (cells h) x" "\<And>x. x \<notin> {a, s, q} \<Longrightarrow> c x = cells h x"
proof (cases "q = s")
  case True
  then show thesis
    using assms by (intro that[of "(cells h)(a \<mapsto> na\<lparr>next_p := Some q, prev_p := Some s\<rparr>, s \<mapsto> ns\<lparr>prev_p := Some a, next_p := Some a\<rparr>)"])
      (auto simp: insert_after_def observe fun_upd_twist)
next
  case False
  then show thesis
    using assms by (intro that[of "(cells h)(a \<mapsto> na\<lparr>next_p := Some q, prev_p := Some s\<rparr>, q \<mapsto> nq\<lparr>prev_p := Some a\<rparr>, s \<mapsto> ns\<lparr>next_p := Some a\<rparr>)"])
      (auto simp: insert_after_def observe)
qed

lemma bucket_first:
  assumes "bucket c s xs"
  shows "nxt c s = Some (hd (map fst xs @ [s]))"
  using assms by (cases xs) (auto simp: bucket_def)

lemma bucket_dom:
  assumes "bucket c s xs" "a \<in> insert s (fst ` set xs)"
  shows "a \<in> dom c"
proof (cases "a = s")
  case True
  with bucket_first[OF assms(1)] show ?thesis by (auto simp: nxt_def bind_eq_Some_conv)
next
  case False
  with assms show ?thesis by (auto simp: bucket_def dat_def)
qed

lemma bucket_insert:
  assumes "bucket c s xs" "distinct (s # map fst xs)" "a \<notin> insert s (fst ` set xs)"
    and q: "q = hd (map fst xs @ [s])"
    and "\<And>x. nxt c' x = (if x = s then Some a else if x = a then Some q else nxt c x)"
    and "\<And>x. prv c' x = (if x = q then Some a else if x = a then Some s else prv c x)"
    and "\<And>x. dat c' x = (if x = a then Some (Some k, Some v) else dat c x)"
  shows "bucket c' s ((a, k, v) # xs)"
proof -
  let ?l = "map fst xs @ [s]"
  have l: "?l = q # tl ?l" using q by (metis Nil_is_append_conv list.collapse list.simps(3))
  have f: "forward c (s # ?l)" and b: "backward c (s # ?l)" using assms(1) by (simp_all add: bucket_def)
  have "forward c ?l" "backward c ?l" using f b by (cases xs; simp)+
  have d: "distinct ?l" "a \<notin> set ?l" using assms(2,3) by auto
  have "a \<noteq> q" using d(2) l by (metis list.set_intros(1))
  have "forward c' ?l"
    using \<open>forward c ?l\<close> d assms(2,3) by (intro forward_frame[of ?l c' c]) (auto simp: assms(5) butlast_append)
  moreover have "backward c' ?l"
  proof (rule backward_frame[OF _ \<open>backward c ?l\<close>])
    fix x assume "x \<in> set (tl ?l)"
    then have "x \<noteq> q" "x \<noteq> a" using d l by (metis distinct.simps(2), metis list.set_intros(2))
    then show "prv c' x = prv c x" by (simp add: assms(6))
  qed
  moreover have "nxt c' s = Some a" "nxt c' a = Some q" "prv c' a = Some s" "prv c' q = Some a"
    using assms(3) \<open>a \<noteq> q\<close> by (auto simp: assms(5,6))
  ultimately have "forward c' (s # a # ?l)" "backward c' (s # a # ?l)"
    using q by (simp_all add: successively_Cons)
  moreover have "\<forall>x\<in>set ((a, k, v) # xs). dat c' (fst x) = Some (Some (fst (snd x)), Some (snd (snd x)))"
    using assms(1,3) by (auto simp: bucket_def assms(7))
  ultimately show ?thesis by (simp add: bucket_def)
qed

subsection \<open>Searching a list\<close>

fun addr_of_key :: "int \<Rightarrow> nat \<Rightarrow> chain \<Rightarrow> nat" where
  "addr_of_key k s [] = s"
| "addr_of_key k s ((a, k', v) # xs) = (if k' = k then a else addr_of_key k s xs)"

lemma find_loop_eq:
  assumes "forward (cells h) (map fst xs @ [s])" "s \<notin> fst ` set xs"
    and "\<forall>x\<in>set xs. dat (cells h) (fst x) = Some (Some (fst (snd x)), Some (snd (snd x)))"
  shows "find_loop h (Some s) k (Some (hd (map fst xs @ [s]))) = Some (Some (addr_of_key k s xs))"
  using assms
proof (induction xs)
  case Nil
  then show ?case by (subst find_loop.simps) simp
next
  case (Cons x xs)
  obtain a k' v where x: "x = (a, k', v)" by (cases x)
  have f: "forward (cells h) (map fst xs @ [s])" "nxt (cells h) a = Some (hd (map fst xs @ [s]))"
    using Cons.prems(1) x by (cases xs; simp)+
  obtain n where "cells h a = Some n" "next_p n = Some (hd (map fst xs @ [s]))" "hkey n = Some k'"
    using Cons.prems(3) f(2) x by (auto simp: dat_def nxt_def bind_eq_Some_conv)
  with Cons f(1) x show ?case by (subst find_loop.simps) simp
qed

lemma find_internal_eq:
  assumes "bucket (cells h) s xs" "distinct (s # map fst xs)"
  shows "find_internal h (Some s) k = Some (Some (addr_of_key k s xs))"
proof -
  have "forward (cells h) (map fst xs @ [s])" using assms(1) by (cases xs) (auto simp: bucket_def)
  then have "find_loop h (Some s) k (Some (hd (map fst xs @ [s]))) = Some (Some (addr_of_key k s xs))"
    using assms by (intro find_loop_eq) (auto simp: bucket_def)
  then show ?thesis
    using bucket_first[OF assms(1)] by (auto simp: find_internal_def nxt_def bind_eq_Some_conv)
qed

fun del_key :: "int \<Rightarrow> chain \<Rightarrow> chain" where
  "del_key k [] = []"
| "del_key k ((a, k', v) # xs) = (if k' = k then xs else (a, k', v) # del_key k xs)"

lemma key_cases:
  obtains "addr_of_key k s xs = s" "del_key k xs = xs" "k \<notin> (fst \<circ> snd) ` set xs"
  | ys a v zs where "xs = ys @ (a, k, v) # zs" "addr_of_key k s xs = a" "del_key k xs = ys @ zs" "k \<notin> (fst \<circ> snd) ` set ys"
proof (induction xs arbitrary: thesis)
  case Nil
  then show ?case by simp
next
  case (Cons x xs)
  obtain a k' v where x: "x = (a, k', v)" by (cases x)
  show ?case
  proof (cases "k' = k")
    case True
    then show ?thesis using x by (intro Cons.prems(2)[of "[]" a v xs]) auto
  next
    case False
    note prems = Cons.prems
    show ?thesis
    proof (rule Cons.IH)
      assume "addr_of_key k s xs = s" "del_key k xs = xs" "k \<notin> (fst \<circ> snd) ` set xs"
      then show ?thesis using x False by (intro prems(1)) auto
    next
      fix ys b w zs assume "xs = ys @ (b, k, w) # zs" "addr_of_key k s xs = b" "del_key k xs = ys @ zs"
        "k \<notin> (fst \<circ> snd) ` set ys"
      then show ?thesis using x False by (intro prems(2)[of "x # ys" b w zs]) auto
    qed
  qed
qed

subsection \<open>Removal from a list\<close>

lemma free_node_other: "a \<notin> {table..<table + HASH_TABLE_SZ} \<Longrightarrow> free_node table h (Some a) = free h (Some a)"
  by (auto simp: free_node_def HASH_TABLE_SZ_def)

lemma delete_node_observe:
  assumes "cells h a = Some na" "prev_p na = Some p" "next_p na = Some q" "cells h p = Some np" "cells h q = Some nq"
    and "a \<noteq> p" "a \<noteq> q" "a \<notin> {table..<table + HASH_TABLE_SZ}"
  obtains c where "delete_node table h (Some a) = Some (h\<lparr>cells := c\<rparr>)" "dom c = dom (cells h) - {a}"
    "\<And>x. x \<noteq> a \<Longrightarrow> nxt c x = (if x = p then Some q else nxt (cells h) x)"
    "\<And>x. x \<noteq> a \<Longrightarrow> prv c x = (if x = q then Some p else prv (cells h) x)"
    "\<And>x. x \<noteq> a \<Longrightarrow> dat c x = dat (cells h) x" "\<And>x. x \<notin> {a, p, q} \<Longrightarrow> c x = cells h x"
proof (cases "p = q")
  case True
  then show thesis
    using assms by (intro that[of "(cells h)(p \<mapsto> np\<lparr>next_p := Some q, prev_p := Some p\<rparr>, a := None)"])
      (auto simp: delete_node_def free_node_other observe)
next
  case False
  then show thesis
    using assms by (intro that[of "(cells h)(p \<mapsto> np\<lparr>next_p := Some q\<rparr>, q \<mapsto> nq\<lparr>prev_p := Some p\<rparr>, a := None)"])
      (auto simp: delete_node_def free_node_other observe)
qed

lemma bucket_neighbours:
  assumes "bucket c s (ys @ (a, k, v) # zs)"
  shows "prv c a = Some (last (s # map fst ys))" "nxt c a = Some (hd (map fst zs @ [s]))"
proof -
  have "s # map fst (ys @ (a, k, v) # zs) @ [s] = (s # map fst ys) @ a # (map fst zs @ [s])" by simp
  then have "forward c ((s # map fst ys) @ a # (map fst zs @ [s]))" "backward c ((s # map fst ys) @ a # (map fst zs @ [s]))"
    using assms by (simp_all add: bucket_def)
  then show "prv c a = Some (last (s # map fst ys))" "nxt c a = Some (hd (map fst zs @ [s]))"
    by (simp_all add: successively_append_iff successively_Cons del: last.simps append_Cons)
qed

lemma bucket_delete:
  assumes "bucket c s (ys @ (a, k, v) # zs)" "distinct (s # map fst (ys @ (a, k, v) # zs))"
    and p: "p = last (s # map fst ys)" and q: "q = hd (map fst zs @ [s])"
    and "\<And>x. x \<noteq> a \<Longrightarrow> nxt c' x = (if x = p then Some q else nxt c x)"
    and "\<And>x. x \<noteq> a \<Longrightarrow> prv c' x = (if x = q then Some p else prv c x)"
    and "\<And>x. x \<noteq> a \<Longrightarrow> dat c' x = dat c x"
  shows "bucket c' s (ys @ zs)"
proof -
  let ?l = "s # map fst ys" and ?r = "map fst zs @ [s]"
  have split: "s # map fst (ys @ (a, k, v) # zs) @ [s] = ?l @ a # ?r" "s # map fst (ys @ zs) @ [s] = ?l @ ?r" by simp_all
  have fb: "forward c ?l" "forward c ?r" "backward c ?l" "backward c ?r"
    using assms(1) unfolding bucket_def split
    by (simp_all add: successively_append_iff successively_Cons del: append_Cons last.simps)
  have l: "?l = butlast ?l @ [p]" using p by (metis append_butlast_last_id list.simps(3))
  have r: "?r = q # tl ?r" using q by (metis Nil_is_append_conv list.collapse list.simps(3))
  have d: "distinct ?l" "distinct ?r" "a \<notin> set ?l" "a \<notin> set ?r" "fst ` set ys \<inter> fst ` set zs = {}" using assms(2) by auto
  have pb: "p \<notin> set (butlast ?l)" using d(1) l by (metis distinct_append distinct_butlast not_distinct_conv_prefix append_Nil2)
  have qt: "q \<notin> set (tl ?r)" using d(2) r by (metis distinct.simps(2))
  have "p \<in> set ?l" using l by (metis in_set_conv_decomp)
  then have pr: "p \<notin> set (butlast ?r)" using d(5) assms(2) by (auto simp: butlast_append)
  have ql: "q \<notin> set (tl ?l)" using q d assms(2) by (cases zs) auto
  have "forward c' ?l"
  proof (rule forward_frame[OF _ fb(1)])
    fix x assume x: "x \<in> set (butlast ?l)"
    then have "x \<noteq> a" using d(3) in_set_butlastD by fast
    with x pb show "nxt c' x = nxt c x" by (auto simp: assms(5))
  qed
  moreover have "forward c' ?r"
  proof (rule forward_frame[OF _ fb(2)])
    fix x assume x: "x \<in> set (butlast ?r)"
    then have "x \<noteq> a" using d(4) in_set_butlastD by fast
    with x pr show "nxt c' x = nxt c x" by (auto simp: assms(5))
  qed
  moreover have "backward c' ?l"
  proof (rule backward_frame[OF _ fb(3)])
    fix x assume x: "x \<in> set (tl ?l)"
    then have "x \<noteq> a" using d(3) by auto
    with x ql show "prv c' x = prv c x" by (auto simp: assms(6))
  qed
  moreover have "backward c' ?r"
  proof (rule backward_frame[OF _ fb(4)])
    fix x assume x: "x \<in> set (tl ?r)"
    then have "x \<noteq> a" using d(4) by (metis list.set_sel(2) list.sel(2))
    with x qt show "prv c' x = prv c x" by (auto simp: assms(6))
  qed
  moreover have "p \<noteq> a" "q \<noteq> a" using l r d(3,4) by (metis in_set_conv_decomp, metis list.set_intros(1))
  ultimately have "forward c' (?l @ ?r)" "backward c' (?l @ ?r)"
    using p q by (simp_all add: successively_append_iff assms(5,6) del: last.simps append_Cons)
  moreover have "\<forall>x\<in>set (ys @ zs). dat c' (fst x) = Some (Some (fst (snd x)), Some (snd (snd x)))"
  proof
    fix x assume x: "x \<in> set (ys @ zs)"
    then have "fst x \<noteq> a" using d(3,4) by force
    then show "dat c' (fst x) = Some (Some (fst (snd x)), Some (snd (snd x)))"
      using assms(1,7) x by (auto simp: bucket_def)
  qed
  ultimately show ?thesis unfolding bucket_def split by blast
qed

subsection \<open>The table\<close>

definition ht_inv :: "ht_heap \<Rightarrow> nat \<Rightarrow> (nat \<Rightarrow> chain) \<Rightarrow> bool" where
  "ht_inv h table T \<longleftrightarrow>
     heap_ok h
     \<and> (\<forall>i<HASH_TABLE_SZ. bucket (cells h) (table + i) (T i) \<and> distinct (map fst (T i))
          \<and> (\<forall>x\<in>set (T i). hash_key (fst (snd x)) = i \<and> fst x \<notin> {table..<table + HASH_TABLE_SZ}))
     \<and> (\<forall>i<HASH_TABLE_SZ. \<forall>j<HASH_TABLE_SZ. i \<noteq> j \<longrightarrow> fst ` set (T i) \<inter> fst ` set (T j) = {})"

lemma hash_key_less: "hash_key k < HASH_TABLE_SZ"
  by (simp add: hash_key_def HASH_TABLE_SZ_def nat_less_iff)

lemma ht_invD:
  assumes "ht_inv h table T" "i < HASH_TABLE_SZ"
  shows "bucket (cells h) (table + i) (T i)" "distinct ((table + i) # map fst (T i))"
    "\<And>x. x \<in> set (T i) \<Longrightarrow> hash_key (fst (snd x)) = i" "\<And>a. a \<in> fst ` set (T i) \<Longrightarrow> a \<notin> {table..<table + HASH_TABLE_SZ}"
proof -
  show b: "bucket (cells h) (table + i) (T i)" "\<And>x. x \<in> set (T i) \<Longrightarrow> hash_key (fst (snd x)) = i"
    "\<And>a. a \<in> fst ` set (T i) \<Longrightarrow> a \<notin> {table..<table + HASH_TABLE_SZ}"
    using assms by (auto simp: ht_inv_def)
  have "table + i \<notin> fst ` set (T i)" using b(3)[of "table + i"] assms(2) by auto
  then show "distinct ((table + i) # map fst (T i))" using assms by (auto simp: ht_inv_def)
qed

text \<open>A change to one list, and at most to the cells of that list, keeps the others.\<close>

lemma ht_inv_update:
  assumes inv: "ht_inv h table T" and s: "s < HASH_TABLE_SZ" and ok: "heap_ok h'"
    and b: "bucket (cells h') (table + s) xs" "distinct (map fst xs)"
    and xs: "\<And>x. x \<in> set xs \<Longrightarrow> hash_key (fst (snd x)) = s \<and> fst x \<notin> {table..<table + HASH_TABLE_SZ}"
    and new: "\<And>a. a \<in> fst ` set xs \<Longrightarrow> a \<in> fst ` set (T s) \<or> cells h a = None"
    and frame: "\<And>a. a \<in> dom (cells h) \<Longrightarrow> a \<notin> insert (table + s) (fst ` set (T s)) \<Longrightarrow> cells h' a = cells h a"
  shows "ht_inv h' table (T(s := xs))"
proof -
  note D = ht_invD[OF inv]
  have disj: "fst ` set (T i) \<inter> fst ` set (T s) = {}" if "i < HASH_TABLE_SZ" "i \<noteq> s" for i
    using inv s that by (auto simp: ht_inv_def)
  have other: "bucket (cells h') (table + i) (T i)" if "i < HASH_TABLE_SZ" "i \<noteq> s" for i
  proof (rule bucket_frame[OF D(1)[OF that(1)]])
    fix a assume a: "a \<in> insert (table + i) (fst ` set (T i))"
    have "table + i \<notin> fst ` set (T s)" "table + s \<notin> fst ` set (T i)"
      using D(4)[OF s, of "table + i"] D(4)[OF that(1), of "table + s"] s that by fastforce+
    with a disj[OF that] that(2) have "a \<notin> insert (table + s) (fst ` set (T s))"
      by (metis add_left_cancel disjoint_iff insert_iff)
    with frame bucket_dom[OF D(1)[OF that(1)] a] show "cells h' a = cells h a" by blast
  qed
  have fresh: "fst ` set (T i) \<inter> fst ` set xs = {}" if i: "i < HASH_TABLE_SZ" "i \<noteq> s" for i
  proof -
    have "a \<notin> fst ` set xs" if a: "a \<in> fst ` set (T i)" for a
      using new[of a] a disj[OF i] bucket_dom[OF D(1)[OF i(1)], of a] by blast
    then show ?thesis by blast
  qed
  have old: "distinct (map fst (T i))" "\<forall>x\<in>set (T i). hash_key (fst (snd x)) = i \<and> fst x \<notin> {table..<table + HASH_TABLE_SZ}"
    if "i < HASH_TABLE_SZ" for i using inv that by (simp_all add: ht_inv_def)
  have disj2: "fst ` set (T i) \<inter> fst ` set (T j) = {}" if "i < HASH_TABLE_SZ" "j < HASH_TABLE_SZ" "i \<noteq> j" for i j
    using inv that by (simp add: ht_inv_def)
  show ?thesis
    unfolding ht_inv_def
  proof (intro conjI allI impI)
    show "heap_ok h'" by (rule ok)
    fix i assume i: "i < HASH_TABLE_SZ"
    show "bucket (cells h') (table + i) ((T(s := xs)) i)" using b(1) other[OF i] by (cases "i = s") simp_all
    show "distinct (map fst ((T(s := xs)) i))" using b(2) old[OF i] by (cases "i = s") simp_all
    show "\<forall>x\<in>set ((T(s := xs)) i). hash_key (fst (snd x)) = i \<and> fst x \<notin> {table..<table + HASH_TABLE_SZ}"
      using xs old[OF i] by (cases "i = s") simp_all
    fix j assume j: "j < HASH_TABLE_SZ" "i \<noteq> j"
    show "fst ` set ((T(s := xs)) i) \<inter> fst ` set ((T(s := xs)) j) = {}"
    proof (cases "i = s \<or> j = s")
      case True
      then show ?thesis using fresh[OF i] fresh[OF j(1)] j(2) by auto
    next
      case False
      then show ?thesis using disj2[OF i j] by simp
    qed
  qed
qed

text \<open>What the table stands for: the values stored under a key, the latest first.\<close>

definition ht_abs :: "(nat \<Rightarrow> chain) \<Rightarrow> int \<Rightarrow> int list" where
  "ht_abs T k = map (snd \<circ> snd) (filter (\<lambda>x. fst (snd x) = k) (T (hash_key k)))"

lemma ht_abs_insert: "ht_abs (T(hash_key k := (a, k, v) # T (hash_key k))) = (ht_abs T)(k := v # ht_abs T k)"
  by (auto simp: ht_abs_def fun_eq_iff)

lemma filter_del_key:
  "filter (\<lambda>x. fst (snd x) = k') (del_key k xs)
     = (if k' = k then tl (filter (\<lambda>x. fst (snd x) = k) xs) else filter (\<lambda>x. fst (snd x) = k') xs)"
  by (induction k xs rule: del_key.induct) auto

lemma ht_abs_delete: "ht_abs (T(hash_key k := del_key k (T (hash_key k)))) = (ht_abs T)(k := tl (ht_abs T k))"
  by (auto simp: ht_abs_def fun_eq_iff filter_del_key map_tl)

subsection \<open>The operations refine the abstract ones\<close>

lemma ht_insert_oom:
  assumes "oom h (fresh h)"
  shows "ht_insert h (Some table) k v = Some (False, h\<lparr>fresh := Suc (fresh h)\<rparr>)"
  using assms hash_key_less[of k] by (simp add: ht_insert_def new_node_def malloc_def)

lemma new_node_eq:
  assumes "\<not> oom h (fresh h)"
  shows "new_node h v k = Some (Some (fresh h), h\<lparr>cells := (cells h)(fresh h \<mapsto>
      \<lparr>item = Some v, hkey = Some k, next_p = Some (fresh h), prev_p = Some (fresh h)\<rparr>), fresh := Suc (fresh h)\<rparr>)"
  using assms by (simp add: new_node_def malloc_def)

lemma ht_insert_eq:
  assumes inv: "ht_inv h table T" and mem: "\<not> oom h (fresh h)"
  obtains h' where "ht_insert h (Some table) k v = Some (True, h')" "oom h' = oom h"
    "ht_inv h' table (T(hash_key k := (fresh h, k, v) # T (hash_key k)))"
proof -
  let ?s = "hash_key k" and ?a = "fresh h"
  let ?n = "\<lparr>item = Some v, hkey = Some k, next_p = Some ?a, prev_p = Some ?a\<rparr>"
  let ?h1 = "h\<lparr>cells := (cells h)(?a \<mapsto> ?n), fresh := Suc ?a\<rparr>"
  note D = ht_invD[OF inv hash_key_less[of k]]
  have ok: "heap_ok h" using inv by (simp add: ht_inv_def)
  have new: "?a \<notin> insert (table + ?s) (fst ` set (T ?s))"
    using bucket_dom[OF D(1), of ?a] heap_ok_fresh[OF ok] by (auto simp: domIff)
  have b1: "bucket (cells ?h1) (table + ?s) (T ?s)"
  proof (rule bucket_frame[OF D(1)])
    show "cells ?h1 x = cells h x" if "x \<in> insert (table + ?s) (fst ` set (T ?s))" for x using that new by auto
  qed
  define q where "q = hd (map fst (T ?s) @ [table + ?s])"
  have q: "q \<in> insert (table + ?s) (fst ` set (T ?s))" by (cases "T ?s") (auto simp: q_def)
  obtain ns where ns: "cells ?h1 (table + ?s) = Some ns" "next_p ns = Some q"
    using bucket_first[OF b1] by (auto simp: nxt_def bind_eq_Some_conv q_def)
  obtain nq where nq: "cells ?h1 q = Some nq" using bucket_dom[OF b1 q] unfolding dom_def by blast
  have "cells ?h1 ?a = Some ?n" "?a \<noteq> table + ?s" "?a \<noteq> q" using new q by auto
  from insert_after_observe[OF ns this(1) nq this(2,3)] obtain c where
    c: "insert_after ?h1 (Some ?a) (Some (table + ?s)) = Some (?h1\<lparr>cells := c\<rparr>)" "dom c = dom (cells ?h1)"
    "\<And>x. nxt c x = (if x = table + ?s then Some ?a else if x = ?a then Some q else nxt (cells ?h1) x)"
    "\<And>x. prv c x = (if x = q then Some ?a else if x = ?a then Some (table + ?s) else prv (cells ?h1) x)"
    "\<And>x. dat c x = dat (cells ?h1) x" "\<And>x. x \<notin> {?a, table + ?s, q} \<Longrightarrow> c x = cells ?h1 x" by blast
  have b: "bucket c (table + ?s) ((?a, k, v) # T ?s)"
    by (rule bucket_insert[OF b1 D(2) new q_def c(3,4)]) (subst c(5), simp add: dat_def)
  have tb: "?a \<notin> {table..<table + HASH_TABLE_SZ}"
  proof
    assume "?a \<in> {table..<table + HASH_TABLE_SZ}"
    then obtain i where i: "i < HASH_TABLE_SZ" "?a = table + i" by (auto simp: le_iff_add)
    then show False using bucket_dom[OF ht_invD(1)[OF inv i(1)], of "table + i"] heap_ok_fresh[OF ok] by auto
  qed
  have "ht_inv (?h1\<lparr>cells := c\<rparr>) table (T(?s := (?a, k, v) # T ?s))"
  proof (rule ht_inv_update[OF inv hash_key_less])
    show "heap_ok (?h1\<lparr>cells := c\<rparr>)" using ok c(2) by (auto simp: heap_ok_dom lessThan_Suc)
    show "bucket (cells (?h1\<lparr>cells := c\<rparr>)) (table + ?s) ((?a, k, v) # T ?s)" using b by simp
    show "distinct (map fst ((?a, k, v) # T ?s))" using new D(2) by auto
    show "hash_key (fst (snd x)) = ?s \<and> fst x \<notin> {table..<table + HASH_TABLE_SZ}" if "x \<in> set ((?a, k, v) # T ?s)" for x
      using that tb D(3)[of x] D(4)[of "fst x"] by auto
    show "x \<in> fst ` set (T ?s) \<or> cells h x = None" if "x \<in> fst ` set ((?a, k, v) # T ?s)" for x
      using that heap_ok_fresh[OF ok] by auto
    show "cells (?h1\<lparr>cells := c\<rparr>) x = cells h x" if "x \<in> dom (cells h)" "x \<notin> insert (table + ?s) (fst ` set (T ?s))" for x
    proof -
      have "x \<noteq> ?a" using that(1) heap_ok_fresh[OF ok] by auto
      moreover have "x \<noteq> q" "x \<noteq> table + ?s" using that(2) q by blast+
      ultimately show ?thesis using c(6)[of x] by simp
    qed
  qed
  then show thesis
    using c(1) hash_key_less[of k] new_node_eq[OF mem, of v k]
    by (intro that[of "?h1\<lparr>cells := c\<rparr>"]) (auto simp: ht_insert_def)
qed

lemma ht_find_eq:
  assumes inv: "ht_inv h table T"
  shows "ht_find h (Some table) k = Some (case ht_abs T k of [] \<Rightarrow> None | v # _ \<Rightarrow> Some v)"
proof -
  let ?s = "hash_key k"
  note D = ht_invD[OF inv hash_key_less[of k]]
  note f = find_internal_eq[OF D(1,2), of k]
  show ?thesis
  proof (rule key_cases[of k "table + ?s" "T ?s"], goal_cases)
    case 1
    then have "ht_abs T k = []" by (auto simp: ht_abs_def filter_empty_conv)
    with 1 f hash_key_less[of k] show ?thesis by (simp add: ht_find_def)
  next
    case (2 ys a v zs)
    then have "filter (\<lambda>x. fst (snd x) = k) ys = []" by (auto simp: filter_empty_conv)
    then have abs: "\<exists>vs. ht_abs T k = v # vs" using 2(1) by (simp add: ht_abs_def)
    obtain n where "cells h a = Some n" "item n = Some v" using D(1) 2(1) by (auto simp: bucket_def dat_def)
    moreover have "a \<noteq> table + ?s" using D(2) 2(1) by auto
    ultimately show ?thesis using 2(2) f abs hash_key_less[of k] by (auto simp: ht_find_def)
  qed
qed

lemma ht_delete_eq:
  assumes inv: "ht_inv h table T"
  obtains h' where "ht_delete h (Some table) k = Some h'" "oom h' = oom h"
    "ht_inv h' table (T(hash_key k := del_key k (T (hash_key k))))"
proof -
  let ?s = "hash_key k"
  note D = ht_invD[OF inv hash_key_less[of k]]
  note f = find_internal_eq[OF D(1,2), of k]
  show thesis
  proof (rule key_cases[of k "table + ?s" "T ?s"], goal_cases)
    case 1
    then have "ht_delete h (Some table) k = Some h" using f hash_key_less[of k] by (simp add: ht_delete_def)
    moreover have "T(?s := del_key k (T ?s)) = T" using 1 by auto
    ultimately show thesis using inv by (intro that) simp_all
  next
    case (2 ys a v zs)
    define p where "p = last ((table + ?s) # map fst ys)"
    define q where "q = hd (map fst zs @ [table + ?s])"
    have bk: "bucket (cells h) (table + ?s) (ys @ (a, k, v) # zs)" and ds: "distinct ((table + ?s) # map fst (ys @ (a, k, v) # zs))"
      using D(1,2) unfolding 2(1) by blast+
    have pq: "p \<in> insert (table + ?s) (fst ` set ys)" "q \<in> insert (table + ?s) (fst ` set zs)"
      by (auto simp: p_def q_def last_map dest: last_in_set) (cases zs; auto)
    have ne: "a \<noteq> p" "a \<noteq> q" "a \<noteq> table + ?s" using pq ds by auto
    have dm: "a \<in> dom (cells h)" "p \<in> dom (cells h)" "q \<in> dom (cells h)"
      using bucket_dom[OF bk] pq by auto
    then obtain na np nq where n: "cells h a = Some na" "cells h p = Some np" "cells h q = Some nq" by auto
    have lk: "prev_p na = Some p" "next_p na = Some q"
      using bucket_neighbours[OF bk] n(1) by (auto simp: prv_def nxt_def p_def q_def)
    have tb: "a \<notin> {table..<table + HASH_TABLE_SZ}" using D(4)[of a] 2(1) by simp
    obtain c where c: "delete_node table h (Some a) = Some (h\<lparr>cells := c\<rparr>)" "dom c = dom (cells h) - {a}"
      "\<And>x. x \<noteq> a \<Longrightarrow> nxt c x = (if x = p then Some q else nxt (cells h) x)"
      "\<And>x. x \<noteq> a \<Longrightarrow> prv c x = (if x = q then Some p else prv (cells h) x)"
      "\<And>x. x \<noteq> a \<Longrightarrow> dat c x = dat (cells h) x" "\<And>x. x \<notin> {a, p, q} \<Longrightarrow> c x = cells h x"
      using delete_node_observe[OF n(1) lk n(2,3) ne(1,2) tb] by blast
    have "ht_inv (h\<lparr>cells := c\<rparr>) table (T(?s := ys @ zs))"
    proof (rule ht_inv_update[OF inv hash_key_less])
      show "heap_ok (h\<lparr>cells := c\<rparr>)" using inv c(2) by (auto simp: ht_inv_def heap_ok_dom)
      show "bucket (cells (h\<lparr>cells := c\<rparr>)) (table + ?s) (ys @ zs)"
        using bucket_delete[OF bk ds p_def q_def c(3,4,5)] by simp
      show "distinct (map fst (ys @ zs))" using ds by auto
      show "hash_key (fst (snd x)) = ?s \<and> fst x \<notin> {table..<table + HASH_TABLE_SZ}" if "x \<in> set (ys @ zs)" for x
        using that D(3)[of x] D(4)[of "fst x"] unfolding 2(1) by auto
      show "x \<in> fst ` set (T ?s) \<or> cells h x = None" if "x \<in> fst ` set (ys @ zs)" for x
        using that unfolding 2(1) by auto
      show "cells (h\<lparr>cells := c\<rparr>) x = cells h x" if "x \<in> dom (cells h)" "x \<notin> insert (table + ?s) (fst ` set (T ?s))" for x
        using that pq c(6)[of x] unfolding 2(1) by auto
    qed
    then show thesis
      using c(1) 2(2,3) f ne(3) hash_key_less[of k] by (intro that[of "h\<lparr>cells := c\<rparr>"]) (auto simp: ht_delete_def)
  qed
qed

subsection \<open>A new table\<close>

lemma new_table_loop_eq:
  assumes "\<And>j. i \<le> j \<Longrightarrow> j < HASH_TABLE_SZ \<Longrightarrow> table + j \<in> dom (cells h)"
  shows "\<exists>c. new_table_loop h table i = Some (h\<lparr>cells := c\<rparr>) \<and> dom c = dom (cells h)
    \<and> (\<forall>j. i \<le> j \<longrightarrow> j < HASH_TABLE_SZ \<longrightarrow> nxt c (table + j) = Some (table + j) \<and> prv c (table + j) = Some (table + j))
    \<and> (\<forall>a<table + i. c a = cells h a)"
  using assms
proof (induction h table i rule: new_table_loop.induct)
  case (1 h table i)
  show ?case
  proof (cases "i < HASH_TABLE_SZ")
    case True
    obtain n where n: "cells h (table + i) = Some n" using "1.prems"[of i] True by auto
    let ?n = "n\<lparr>prev_p := Some (table + i), next_p := Some (table + i)\<rparr>"
    let ?h = "h\<lparr>cells := (cells h)(table + i \<mapsto> ?n)\<rparr>"
    have st: "store h (Some (table + i)) (\<lambda>n. n\<lparr>prev_p := Some (table + i), next_p := Some (table + i)\<rparr>) = Some ?h"
      using n by simp
    have "table + j \<in> dom (cells ?h)" if "i + 1 \<le> j" "j < HASH_TABLE_SZ" for j
      using "1.prems"[of j] that by auto
    then obtain c where c: "new_table_loop ?h table (i + 1) = Some (?h\<lparr>cells := c\<rparr>)" "dom c = dom (cells ?h)"
      "\<And>j. i + 1 \<le> j \<Longrightarrow> j < HASH_TABLE_SZ \<Longrightarrow> nxt c (table + j) = Some (table + j) \<and> prv c (table + j) = Some (table + j)"
      "\<And>a. a < table + (i + 1) \<Longrightarrow> c a = cells ?h a"
      using "1.IH"[OF True st] by blast
    have "new_table_loop h table i = Some (h\<lparr>cells := c\<rparr>)"
      using True st c(1) by (subst new_table_loop.simps) simp
    moreover have "dom c = dom (cells h)" using c(2) n by auto
    moreover have "nxt c (table + j) = Some (table + j) \<and> prv c (table + j) = Some (table + j)"
      if "i \<le> j" "j < HASH_TABLE_SZ" for j
      using c(3)[of j] c(4)[of "table + i"] that by (cases "j = i") (auto simp: nxt_def prv_def)
    moreover have "\<forall>a<table + i. c a = cells h a" using c(4) by simp
    ultimately show ?thesis by blast
  next
    case False
    then show ?thesis by (intro exI[of _ "cells h"], subst new_table_loop.simps) simp
  qed
qed

lemma new_table_eq:
  assumes "\<not> fails 0"
  obtains h where "new_table (empty_heap fails) = Some (Some 0, h)" "ht_inv h 0 (\<lambda>_. [])" "oom h = fails"
proof -
  define h1 where "h1 = snd (malloc_table (empty_heap fails))"
  have m: "malloc_table (empty_heap fails) = (Some 0, h1)" "oom h1 = fails" "fresh h1 = HASH_TABLE_SZ"
    "dom (cells h1) = {0..<HASH_TABLE_SZ}"
    using assms by (auto simp: h1_def malloc_table_def empty_heap_def split: if_splits)
  obtain c where c: "new_table_loop h1 0 0 = Some (h1\<lparr>cells := c\<rparr>)" "dom c = dom (cells h1)"
    "\<And>j. j < HASH_TABLE_SZ \<Longrightarrow> nxt c j = Some j \<and> prv c j = Some j"
    using new_table_loop_eq[of 0 0 h1] m(4) by auto
  have "ht_inv (h1\<lparr>cells := c\<rparr>) 0 (\<lambda>_. [])"
    using c(2,3) m(3,4) by (auto simp: ht_inv_def heap_ok_dom bucket_def)
  then show thesis
    using m(1,2) c(1) by (intro that[of "h1\<lparr>cells := c\<rparr>"]) (simp_all add: new_table_def)
qed

subsection \<open>Destroying a table\<close>

text \<open>
  \<open>destroy_list\<close> frees the successor of the node at hand instead of the node itself. On a list
  with one node or more it ends up freeing the sentinel or reading a freed node: it has no defined
  behaviour.
\<close>

lemma free_then_stuck:
  assumes "free_node table h (Some a) = Some h'" shows "cells h' a = None"
  using assms by (auto simp: free_node_def free_def HASH_TABLE_SZ_def split: if_splits)

lemma destroy_list_stuck:
  assumes "bucket (cells h) s xs" "xs \<noteq> []" "distinct (s # map fst xs)"
  shows "destroy_list table h (Some s) = None"
proof -
  obtain a k v ys where xs: "xs = (a, k, v) # ys" using assms(2) by (cases xs) auto
  have a: "nxt (cells h) s = Some a" "a \<noteq> s" "nxt (cells h) a = Some (hd (map fst ys @ [s]))"
    using bucket_first[OF assms(1)] bucket_neighbours(2)[of "cells h" s "[]" a k v ys] assms(1,3) xs by auto
  let ?q = "hd (map fst ys @ [s])"
  obtain ns na where n: "cells h s = Some ns" "next_p ns = Some a" "cells h a = Some na" "next_p na = Some ?q"
    using a by (auto simp: nxt_def bind_eq_Some_conv)
  have "destroy_list table h (Some s)
      = do { h1 \<leftarrow> destroy_loop table h (Some s) (Some a); store h1 (Some s) (\<lambda>x. x\<lparr>prev_p := Some s, next_p := Some s\<rparr>) }"
    using n(1,2) by (simp add: destroy_list_def)
  also have "destroy_loop table h (Some s) (Some a)
      = do { h1 \<leftarrow> free_node table h (Some ?q); destroy_loop table h1 (Some s) (Some ?q) }"
    using n(3,4) a(2) by (subst destroy_loop.simps) (simp add: Let_def)
  also have "\<dots> \<bind> (\<lambda>h1. store h1 (Some s) (\<lambda>x. x\<lparr>prev_p := Some s, next_p := Some s\<rparr>)) = None"
  proof (cases "free_node table h (Some ?q)")
    case (Some h1)
    note gone = free_then_stuck[OF Some]
    show ?thesis
    proof (cases "?q = s")
      case True
      then show ?thesis using Some gone by (subst destroy_loop.simps) (simp add: store_def)
    next
      case False
      then show ?thesis using Some gone by (subst destroy_loop.simps) simp
    qed
  qed simp
  finally show ?thesis .
qed

end
