(* ===== verification/Hash_Table_Main.thy ===== *)
theory Hash_Table_Main
  imports Hash_Table_Proofs
begin

text \<open>
  The hash table as a whole: its contract (the locale \<open>key_stacks\<close>), the program's commands
  against the abstract table, and what is wrong with its destructor.
\<close>

subsection \<open>The contract\<close>

locale key_stacks =
  fixes represents :: "'s \<Rightarrow> (int \<Rightarrow> int list) \<Rightarrow> bool"
    and put :: "int \<Rightarrow> int \<Rightarrow> 's \<Rightarrow> 's c" and get :: "int \<Rightarrow> 's \<Rightarrow> int option c" and drop_key :: "int \<Rightarrow> 's \<Rightarrow> 's c"
  assumes put: "represents s S \<Longrightarrow> \<exists>s'. put k v s = Some s' \<and> represents s' (S(k := v # S k))"
    and get: "represents s S \<Longrightarrow> get k s = Some (case S k of [] \<Rightarrow> None | v # _ \<Rightarrow> Some v)"
    and drop_key: "represents s S \<Longrightarrow> \<exists>s'. drop_key k s = Some s' \<and> represents s' (S(k := tl (S k)))"
begin

lemma get_put:
  assumes "represents s S"
  shows "\<exists>s'. put k v s = Some s' \<and> get k s' = Some (Some v) \<and> (\<forall>k'. k' \<noteq> k \<longrightarrow> get k' s' = get k' s)"
proof -
  obtain s' where s': "put k v s = Some s'" "represents s' (S(k := v # S k))" using put[OF assms] by blast
  then show ?thesis using get[OF s'(2)] get[OF assms] by simp
qed

lemma put_drop:
  assumes "represents s S"
  shows "\<exists>s' s''. put k v s = Some s' \<and> drop_key k s' = Some s'' \<and> (\<forall>k'. get k' s'' = get k' s)"
proof -
  obtain s' where s': "put k v s = Some s'" "represents s' (S(k := v # S k))" using put[OF assms] by blast
  obtain s'' where s'': "drop_key k s' = Some s''" "represents s'' ((S(k := v # S k))(k := tl ((S(k := v # S k)) k)))"
    using drop_key[OF s'(2)] by blast
  then have "represents s'' S" by simp
  then show ?thesis using s'(1) s''(1) get[OF assms] get[of s'' S] by auto
qed

lemma get_drop:
  assumes "represents s S" "length (S k) \<le> 1"
  shows "\<exists>s'. drop_key k s = Some s' \<and> get k s' = Some None \<and> (\<forall>k'. k' \<noteq> k \<longrightarrow> get k' s' = get k' s)"
proof -
  obtain s' where s': "drop_key k s = Some s'" "represents s' (S(k := tl (S k)))" using drop_key[OF assms(1)] by blast
  have "tl (S k) = []" using assms(2) by (cases "S k") auto
  then show ?thesis using s' get[OF s'(2)] get[OF assms(1)] by simp
qed

end

definition ht_represents :: "ht_heap \<times> nat \<Rightarrow> (int \<Rightarrow> int list) \<Rightarrow> bool" where
  "ht_represents s S \<longleftrightarrow> (\<exists>T. ht_inv (fst s) (snd s) T \<and> ht_abs T = S \<and> oom (fst s) = (\<lambda>_. False))"

definition ht_put :: "int \<Rightarrow> int \<Rightarrow> ht_heap \<times> nat \<Rightarrow> (ht_heap \<times> nat) c" where
  "ht_put k v s = map_option (\<lambda>(ok, h). (h, snd s)) (ht_insert (fst s) (Some (snd s)) k v)"

definition ht_get :: "int \<Rightarrow> ht_heap \<times> nat \<Rightarrow> int option c" where
  "ht_get k s = ht_find (fst s) (Some (snd s)) k"

definition ht_drop :: "int \<Rightarrow> ht_heap \<times> nat \<Rightarrow> (ht_heap \<times> nat) c" where
  "ht_drop k s = map_option (\<lambda>h. (h, snd s)) (ht_delete (fst s) (Some (snd s)) k)"

lemma ht_put_represents:
  assumes "ht_represents s S"
  shows "\<exists>s'. ht_put k v s = Some s' \<and> ht_represents s' (S(k := v # S k))"
proof -
  obtain T where T: "ht_inv (fst s) (snd s) T" "ht_abs T = S" "oom (fst s) = (\<lambda>_. False)"
    using assms by (auto simp: ht_represents_def)
  obtain h' where "ht_insert (fst s) (Some (snd s)) k v = Some (True, h')" "oom h' = oom (fst s)"
    "ht_inv h' (snd s) (T(hash_key k := (fresh (fst s), k, v) # T (hash_key k)))"
    using ht_insert_eq[OF T(1), of k v] T(3) by auto
  then show ?thesis
    using T(2,3) ht_abs_insert[of T k "fresh (fst s)" v] by (auto simp: ht_put_def ht_represents_def)
qed

lemma ht_drop_represents:
  assumes "ht_represents s S"
  shows "\<exists>s'. ht_drop k s = Some s' \<and> ht_represents s' (S(k := tl (S k)))"
proof -
  obtain T where T: "ht_inv (fst s) (snd s) T" "ht_abs T = S" "oom (fst s) = (\<lambda>_. False)"
    using assms by (auto simp: ht_represents_def)
  obtain h' where "ht_delete (fst s) (Some (snd s)) k = Some h'" "oom h' = oom (fst s)"
    "ht_inv h' (snd s) (T(hash_key k := del_key k (T (hash_key k))))"
    using ht_delete_eq[OF T(1), of k] by blast
  then show ?thesis
    using T(2,3) ht_abs_delete[of T k] by (auto simp: ht_drop_def ht_represents_def)
qed

interpretation ht: key_stacks ht_represents ht_put ht_get ht_drop
  using ht_put_represents ht_drop_represents ht_find_eq
  by unfold_locales (auto simp: ht_get_def ht_represents_def)

text \<open>
  The operations of the hash table refine those of a table of stacks, one per key, on every
  reachable state: \<open>insert\<close> pushes a value, \<open>find\<close> returns the top, \<open>delete\<close> pops it,
  the links and sentinels of all 941 lists stay intact, and a failed allocation changes nothing.
\<close>

lemma hash_table_refines:
  assumes "ht_inv h table T"
  shows "(if oom h (fresh h) then \<exists>h'. ht_insert h (Some table) k v = Some (False, h') \<and> ht_inv h' table T
          else \<exists>h' T'. ht_insert h (Some table) k v = Some (True, h') \<and> ht_inv h' table T'
                 \<and> ht_abs T' = (ht_abs T)(k := v # ht_abs T k))
    \<and> ht_find h (Some table) k = Some (case ht_abs T k of [] \<Rightarrow> None | x # _ \<Rightarrow> Some x)
    \<and> (\<exists>h' T'. ht_delete h (Some table) k = Some h' \<and> ht_inv h' table T'
         \<and> ht_abs T' = (ht_abs T)(k := tl (ht_abs T k)))"
proof (intro conjI)
  show "if oom h (fresh h) then \<exists>h'. ht_insert h (Some table) k v = Some (False, h') \<and> ht_inv h' table T
          else \<exists>h' T'. ht_insert h (Some table) k v = Some (True, h') \<and> ht_inv h' table T'
                 \<and> ht_abs T' = (ht_abs T)(k := v # ht_abs T k)"
  proof (cases "oom h (fresh h)")
    case True
    have "ht_inv (h\<lparr>fresh := Suc (fresh h)\<rparr>) table T" using assms by (auto simp: ht_inv_def heap_ok_def less_SucI)
    with True show ?thesis using ht_insert_oom[OF True, of table k v] by auto
  next
    case False
    then show ?thesis
      using ht_insert_eq[OF assms False, of k v] ht_abs_insert[of T k "fresh h" v] by metis
  qed
  show "ht_find h (Some table) k = Some (case ht_abs T k of [] \<Rightarrow> None | x # _ \<Rightarrow> Some x)"
    by (rule ht_find_eq[OF assms])
  show "\<exists>h' T'. ht_delete h (Some table) k = Some h' \<and> ht_inv h' table T' \<and> ht_abs T' = (ht_abs T)(k := tl (ht_abs T k))"
    using ht_delete_eq[OF assms, of k] ht_abs_delete[of T k] by metis
qed

text \<open>
  Used as its comments ask, with no key inserted twice, the table is a dictionary: after an
  insertion \<open>find\<close> returns the value and is unchanged on other keys; deleting a key just inserted
  restores every lookup; a key inserted once is gone after its deletion.
\<close>

theorem hash_table_dictionary:
  assumes "ht_represents s S"
  shows "(\<exists>s'. ht_put k v s = Some s' \<and> ht_get k s' = Some (Some v) \<and> (\<forall>k'. k' \<noteq> k \<longrightarrow> ht_get k' s' = ht_get k' s))
    \<and> (\<exists>s' s''. ht_put k v s = Some s' \<and> ht_drop k s' = Some s'' \<and> (\<forall>k'. ht_get k' s'' = ht_get k' s))
    \<and> (length (S k) \<le> 1 \<longrightarrow>
      (\<exists>s'. ht_drop k s = Some s' \<and> ht_get k s' = Some None \<and> (\<forall>k'. k' \<noteq> k \<longrightarrow> ht_get k' s' = ht_get k' s)))"
  using ht.get_put[OF assms] ht.put_drop[OF assms] ht.get_drop[OF assms] by (intro conjI impI) blast+

theorem hash_table_dictionary_witness:
  "\<exists>s s'. ht_put 5 6 s = Some s' \<and> ht_get 5 s' = Some (Some 6)"
proof -
  obtain h where "ht_inv h 0 (\<lambda>_. [])" "oom h = (\<lambda>_. False)"
    by (rule new_table_eq[of "\<lambda>_. False"]) auto
  then have "ht_represents (h, 0) (ht_abs (\<lambda>_. []))" by (auto simp: ht_represents_def)
  from hash_table_dictionary[OF this, of 5 6] show ?thesis by blast
qed

lemma destroy_empty_list:
  assumes "bucket (cells h) s []"
  shows "destroy_list table h (Some s) = Some h"
proof -
  obtain n where n: "cells h s = Some n" "next_p n = Some s" "prev_p n = Some s"
    using assms by (auto simp: bucket_def nxt_def prv_def bind_eq_Some_conv)
  then have "destroy_list table h (Some s) = Some (h\<lparr>cells := (cells h)(s \<mapsto> n\<lparr>prev_p := Some s, next_p := Some s\<rparr>)\<rparr>)"
    by (subst destroy_list_def, subst destroy_loop.simps) simp
  moreover have "n\<lparr>prev_p := Some s, next_p := Some s\<rparr> = n" using n by simp
  moreover have "(cells h)(s \<mapsto> n) = cells h" using n(1) by auto
  ultimately show ?thesis by simp
qed

text \<open>
  Property C36. \<open>free_table\<close> never works on a table that holds an element: \<open>destroy_list\<close>
  frees the successor of each node instead of the node, so that it reads a freed node or frees a
  sentinel.
\<close>

theorem free_table_undefined:
  assumes "ht_inv h table T" "ht_abs T k \<noteq> []"
  shows "free_table table h = None"
proof -
  have ne: "T (hash_key k) \<noteq> []" using assms(2) by (auto simp: ht_abs_def)
  have "free_table_loop table h i = None" if "i \<le> hash_key k" for i
    using that
  proof (induction rule: inc_induct)
    case base
    have "destroy_list table h (Some (table + hash_key k)) = None"
      using ht_invD(1,2)[OF assms(1) hash_key_less] ne by (intro destroy_list_stuck) auto
    then show ?case using hash_key_less[of k] by (subst free_table_loop.simps) simp
  next
    case (step i)
    then have i: "i < HASH_TABLE_SZ" using hash_key_less[of k] by simp
    note D = ht_invD(1,2)[OF assms(1) i]
    have "destroy_list table h (Some (table + i)) = (if T i = [] then Some h else None)"
      using D destroy_list_stuck[OF D(1) _ D(2), of table] destroy_empty_list[of h "table + i" table] by auto
    then show ?case using i step.IH by (subst free_table_loop.simps) simp
  qed
  then show ?thesis by (simp add: free_table_def)
qed

theorem free_table_undefined_witness:
  "\<exists>h h'. new_table (empty_heap (\<lambda>_. False)) = Some (Some 0, h)
     \<and> ht_insert h (Some 0) 1 2 = Some (True, h') \<and> free_table 0 h' = None"
proof -
  obtain h where h: "new_table (empty_heap (\<lambda>_. False)) = Some (Some 0, h)" "ht_inv h 0 (\<lambda>_. [])" "oom h = (\<lambda>_. False)"
    by (rule new_table_eq[of "\<lambda>_. False"]) auto
  obtain h' where h': "ht_insert h (Some 0) 1 2 = Some (True, h')"
    "ht_inv h' 0 ((\<lambda>_. [])(hash_key 1 := [(fresh h, 1, 2)]))"
    using ht_insert_eq[OF h(2), of 1 2] h(3) by auto
  have "ht_abs ((\<lambda>_. [])(hash_key 1 := [(fresh h, 1, 2)])) 1 \<noteq> []" by (simp add: ht_abs_def)
  with free_table_undefined[OF h'(2)] h(1) h'(1) show ?thesis by blast
qed

subsection \<open>The program\<close>

datatype ht_cmd = Ins int int | Del int | Search int

fun ht_cmd_ok :: "ht_cmd \<Rightarrow> bool" where
  "ht_cmd_ok (Ins k v) = (in_int k \<and> in_int v)"
| "ht_cmd_ok (Del k) = in_int k"
| "ht_cmd_ok (Search k) = in_int k"

fun show_ht_cmd :: "ht_cmd \<Rightarrow> string" where
  "show_ht_cmd (Ins k v) = ''I '' @ show_int k @ '' '' @ show_int v @ ''\<newline>''"
| "show_ht_cmd (Del k) = ''D '' @ show_int k @ ''\<newline>''"
| "show_ht_cmd (Search k) = ''S '' @ show_int k @ ''\<newline>''"

text \<open>The abstract program: a table of stacks.\<close>

fun ht_spec :: "(int \<Rightarrow> int list) \<Rightarrow> ht_cmd list \<Rightarrow> string" where
  "ht_spec S [] = []"
| "ht_spec S (Ins k v # cs) = ht_spec (S(k := v # S k)) cs"
| "ht_spec S (Del k # cs) = ht_spec (S(k := tl (S k))) cs"
| "ht_spec S (Search k # cs) =
     (case S k of [] \<Rightarrow> ''No item with key '' @ show_int k @ ''\<newline>''
      | v # _ \<Rightarrow> show_int k @ '': '' @ show_int v @ ''\<newline>'') @ ht_spec S cs"

lemma fgets_ht_cmd:
  assumes "ht_cmd_ok c"
  shows "fgets 256 (show_ht_cmd c @ s) = Some (show_ht_cmd c, s)"
proof (cases c)
  case (Ins k v)
  then show ?thesis
    using fgets_line[of "''I '' @ show_int k @ '' '' @ show_int v" 256 s] assms
      length_show_int[of k] length_show_int[of v] show_int_plain[of _ k] show_int_plain[of _ v] by auto
next
  case (Del k)
  then show ?thesis
    using fgets_line[of "''D '' @ show_int k" 256 s] assms length_show_int[of k] show_int_plain[of _ k] by auto
next
  case (Search k)
  then show ?thesis
    using fgets_line[of "''S '' @ show_int k" 256 s] assms length_show_int[of k] show_int_plain[of _ k] by auto
qed

lemma cstr_ht_cmd: "cstr (show_ht_cmd c) = show_ht_cmd c"
  by (rule cstr_line) (cases c; auto dest: show_int_plain)

lemma scanf_space_d:
  assumes "in_int k" "no_digit r"
  shows "scanf (CHR '' '' # CHR ''%'' # CHR ''d'' # fmt) (CHR '' '' # show_int k @ r) = scan_push (IntA k) (scanf fmt r)"
proof -
  have "skip_ws (CHR '' '' # show_int k @ r) = show_int k @ r"
    using skip_ws_append[of "'' ''" "show_int k @ r"] by simp
  then have "scanf (CHR '' '' # CHR ''%'' # CHR ''d'' # fmt) (CHR '' '' # show_int k @ r)
      = scanf (CHR ''%'' # CHR ''d'' # fmt) (show_int k @ r)"
    by (subst scanf.simps) simp
  with scanf_d_show[of "[]" r k fmt] assms show ?thesis by simp
qed

lemma sscanf_ht_cmd:
  "in_int k \<Longrightarrow> in_int v \<Longrightarrow> sscanf (show_ht_cmd (Ins k v)) ''I %d %d''
     = Some \<lparr>sr_args = [IntA k, IntA v], sr_eof = False, sr_rest = ''\<newline>''\<rparr>"
  "in_int k \<Longrightarrow> sscanf (show_ht_cmd (Del k)) ''D %d'' = Some \<lparr>sr_args = [IntA k], sr_eof = False, sr_rest = ''\<newline>''\<rparr>"
  "in_int k \<Longrightarrow> sscanf (show_ht_cmd (Search k)) ''S %d'' = Some \<lparr>sr_args = [IntA k], sr_eof = False, sr_rest = ''\<newline>''\<rparr>"
  unfolding sscanf_def cstr_ht_cmd
  by (simp_all add: scanf.simps(2)[of "CHR ''I''"] scanf.simps(2)[of "CHR ''D''"] scanf.simps(2)[of "CHR ''S''"]
      scanf_space_d isspace_def scanf.simps(1) scan_stop_def scan_push_def)

lemma sscanf_ht_other:
  "sscanf (show_ht_cmd (Del k)) ''I %d %d'' = Some \<lparr>sr_args = [], sr_eof = False, sr_rest = show_ht_cmd (Del k)\<rparr>"
  "sscanf (show_ht_cmd (Search k)) ''I %d %d'' = Some \<lparr>sr_args = [], sr_eof = False, sr_rest = show_ht_cmd (Search k)\<rparr>"
  "sscanf (show_ht_cmd (Search k)) ''D %d'' = Some \<lparr>sr_args = [], sr_eof = False, sr_rest = show_ht_cmd (Search k)\<rparr>"
  unfolding sscanf_def cstr_ht_cmd by (simp_all add: scanf.simps(2) isspace_def scan_stop_def)

lemma ht_loop_refines:
  assumes "ht_represents (h, table) S" "list_all ht_cmd_ok cs"
  shows "ht_loop h (Some table) (concat (map show_ht_cmd cs)) = Some (ht_spec S cs, [])"
  using assms
proof (induction cs arbitrary: h S)
  case Nil
  then show ?case by (subst ht_loop.simps) (simp add: fgets_def)
next
  case (Cons c cs)
  have ok: "ht_cmd_ok c" using Cons.prems(2) by simp
  note fg = fgets_ht_cmd[OF ok, of "concat (map show_ht_cmd cs)"]
  show ?case
  proof (cases c)
    case (Ins k v)
    obtain b h1 where p: "ht_insert h (Some table) k v = Some (b, h1)" "ht_represents (h1, table) (S(k := v # S k))"
      using ht_put_represents[OF Cons.prems(1), of k v] by (auto simp: ht_put_def)
    have b: b
    proof -
      obtain T where "ht_inv h table T" "oom h = (\<lambda>_. False)" using Cons.prems(1) by (auto simp: ht_represents_def)
      then show b using ht_insert_eq[of h table T k v] p(1) by auto
    qed
    have "ht_loop h1 (Some table) (concat (map show_ht_cmd cs)) = Some (ht_spec (S(k := v # S k)) cs, [])"
      using Cons.IH[OF p(2)] Cons.prems(2) by (simp add: fun_upd_def)
    then show ?thesis
      using Ins p(1) b ok fg by (subst ht_loop.simps) (simp add: ht_command_def sscanf_ht_cmd del: show_ht_cmd.simps)
  next
    case (Del k)
    obtain h1 where p: "ht_delete h (Some table) k = Some h1" "ht_represents (h1, table) (S(k := tl (S k)))"
      using ht_drop_represents[OF Cons.prems(1), of k] by (auto simp: ht_drop_def)
    have "ht_loop h1 (Some table) (concat (map show_ht_cmd cs)) = Some (ht_spec (S(k := tl (S k))) cs, [])"
      using Cons.IH[OF p(2)] Cons.prems(2) by (simp add: fun_upd_def)
    then show ?thesis
      using Del p(1) ok fg
      by (subst ht_loop.simps) (simp add: ht_command_def sscanf_ht_cmd sscanf_ht_other del: show_ht_cmd.simps)
  next
    case (Search k)
    have f: "ht_find h (Some table) k = Some (case S k of [] \<Rightarrow> None | v # _ \<Rightarrow> Some v)"
      using ht.get[OF Cons.prems(1), of k] by (simp add: ht_get_def)
    have "ht_loop h (Some table) (concat (map show_ht_cmd cs)) = Some (ht_spec S cs, [])"
      using Cons by simp
    then show ?thesis
      using Search f ok fg
      by (subst ht_loop.simps) (simp add: ht_command_def sscanf_ht_cmd sscanf_ht_other show_conv_def Let_def
          del: show_ht_cmd.simps split: list.splits)
  qed
qed

text \<open>
  Property C5. The program implements the abstract table: on every sequence of well-formed insert, delete
  and search commands, as long as memory lasts, it prints exactly what the table of stacks answers, and
  none of its assertions fails.
\<close>

theorem ht_main_refines:
  assumes "list_all ht_cmd_ok cs"
  shows "ht_main (\<lambda>_. False) (concat (map show_ht_cmd cs)) = Some (ht_banner @ ht_spec (\<lambda>_. []) cs, [])"
proof -
  obtain h where h: "new_table (empty_heap (\<lambda>_. False)) = Some (Some 0, h)" "ht_inv h 0 (\<lambda>_. [])" "oom h = (\<lambda>_. False)"
    by (rule new_table_eq[of "\<lambda>_. False"]) auto
  have "ht_abs (\<lambda>_. []) = (\<lambda>_. [])" by (simp add: ht_abs_def fun_eq_iff)
  then have "ht_represents (h, 0) (\<lambda>_. [])" using h(2,3) by (auto simp: ht_represents_def)
  from ht_loop_refines[OF this assms] h(1) show ?thesis by (simp add: ht_main_def ht_banner_def)
qed

theorem ht_main_refines_witness:
  "ht_main (\<lambda>_. False) ''I 944 4\<newline>I 3 5\<newline>S 944\<newline>D 944\<newline>S 944\<newline>S 3\<newline>''
     = Some (ht_banner @ ''944: 4\<newline>No item with key 944\<newline>3: 5\<newline>'', [])"
proof -
  let ?cs = "[Ins 944 4, Ins 3 5, Search 944, Del 944, Search 944, Search 3]"
  have i: "concat (map show_ht_cmd ?cs) = ''I 944 4\<newline>I 3 5\<newline>S 944\<newline>D 944\<newline>S 944\<newline>S 3\<newline>''" by code_simp
  have o: "ht_spec (\<lambda>_. []) ?cs = ''944: 4\<newline>No item with key 944\<newline>3: 5\<newline>''" by code_simp
  have "list_all ht_cmd_ok ?cs" by code_simp
  then show ?thesis using ht_main_refines[of ?cs] unfolding i o by blast
qed

end
