(* ===== verification/Bits_Set.thy ===== *)
theory Bits_Set
  imports Sort_Driver "HOL-Library.Word"
begin

text \<open>
  \<open>bit_manipulation/bits_set/solution.c\<close>: counting the one-bits of a byte array with a table of
  256 entries, and the driver that reads arrays and prints the counts.
\<close>

definition bits_table_low :: "int list" where
  "bits_table_low =
     [0, 1, 1, 2, 1, 2, 2, 3, 1, 2, 2, 3, 2, 3, 3, 4, 1, 2, 2, 3, 2, 3, 3, 4, 2, 3, 3, 4, 3, 4, 4, 5,
      1, 2, 2, 3, 2, 3, 3, 4, 2, 3, 3, 4, 3, 4, 4, 5, 2, 3, 3, 4, 3, 4, 4, 5, 3, 4, 4, 5, 4, 5, 5, 6,
      1, 2, 2, 3, 2, 3, 3, 4, 2, 3, 3, 4, 3, 4, 4, 5, 2, 3, 3, 4, 3, 4, 4, 5, 3, 4, 4, 5, 4, 5, 5, 6,
      2, 3, 3, 4, 3, 4, 4, 5, 3, 4, 4, 5, 4, 5, 5, 6, 3, 4, 4, 5, 4, 5, 5, 6, 4, 5, 5, 6, 5, 6, 6, 7]"

definition bits_table_high :: "int list" where
  "bits_table_high =
     [1, 2, 2, 3, 2, 3, 3, 4, 2, 3, 3, 4, 3, 4, 4, 5, 2, 3, 3, 4, 3, 4, 4, 5, 3, 4, 4, 5, 4, 5, 5, 6,
      2, 3, 3, 4, 3, 4, 4, 5, 3, 4, 4, 5, 4, 5, 5, 6, 3, 4, 4, 5, 4, 5, 5, 6, 4, 5, 5, 6, 5, 6, 6, 7,
      2, 3, 3, 4, 3, 4, 4, 5, 3, 4, 4, 5, 4, 5, 5, 6, 3, 4, 4, 5, 4, 5, 5, 6, 4, 5, 5, 6, 5, 6, 6, 7,
      3, 4, 4, 5, 4, 5, 5, 6, 4, 5, 5, 6, 5, 6, 6, 7, 4, 5, 5, 6, 5, 6, 6, 7, 5, 6, 6, 7, 6, 7, 7, 8]"

definition bits_table :: "int list" where
  "bits_table = bits_table_low @ bits_table_high"

text \<open>The sum is an \<open>int\<close>: its overflow has no defined behaviour.\<close>

function bits_set_loop :: "8 word list \<Rightarrow> nat \<Rightarrow> nat \<Rightarrow> int \<Rightarrow> int c" where
  "bits_set_loop arr n i res =
     (if i < n
      then do { x \<leftarrow> rd arr i;
                b \<leftarrow> rd bits_table (unat x);
                _ \<leftarrow> c_assert (in_int (res + b));
                bits_set_loop arr n (i + 1) (res + b) }
      else Some res)"
  by pat_completeness auto
termination by (relation "measure (\<lambda>(arr, n, i, res). n - i)") auto

declare bits_set_loop.simps [simp del]

definition bits_set :: "nat \<Rightarrow> 8 word list \<Rightarrow> int c" where
  "bits_set n arr = bits_set_loop arr n 0 0"

text \<open>A value that could not be read stays uninitialised, and storing it is an error.\<close>

function bits_read_loop :: "8 word list \<Rightarrow> nat \<Rightarrow> nat \<Rightarrow> string \<Rightarrow> (8 word list \<times> string) c" where
  "bits_read_loop input n i s =
     (if i < n
      then do { r \<leftarrow> scanf ''%u'' s;
                _ \<leftarrow> c_assert (scan_ret r = 1);
                input' \<leftarrow> wr input i (word_of_int (arg_int (sr_args r ! 0)));
                bits_read_loop input' n (i + 1) (sr_rest r) }
      else Some (input, s))"
  by pat_completeness auto
termination by (relation "measure (\<lambda>(input, n, i, s). n - i)") auto

declare bits_read_loop.simps [simp del]

lemma bits_read_loop_le: "bits_read_loop input n i s = Some (input', s') \<Longrightarrow> length s' \<le> length s"
proof (induction input n i s rule: bits_read_loop.induct)
  case (1 input n i s)
  show ?case
  proof (cases "i < n")
    case True
    with "1.prems" obtain r a where "scanf ''%u'' s = Some r" "c_assert (scan_ret r = 1) = Some ()"
      "wr input i (word_of_int (arg_int (sr_args r ! 0))) = Some a"
      "bits_read_loop a n (i + 1) (sr_rest r) = Some (input', s')"
      by (subst (asm) bits_read_loop.simps) (auto simp: bind_eq_Some_conv)
    with "1.IH"[OF True] scanf_rest_le[of "''%u''" s r] show ?thesis by fastforce
  next
    case False
    with "1.prems" show ?thesis by (subst (asm) bits_read_loop.simps) simp
  qed
qed

function bits_loop :: "8 word list \<Rightarrow> string \<Rightarrow> string c" where
  "bits_loop input s =
     do { r \<leftarrow> scanf ''%zu'' s;
          if scan_ret r \<noteq> 1 then Some []
          else do { let n = nat (arg_int (sr_args r ! 0));
                    (input1, s1) \<leftarrow> bits_read_loop input n 0 (sr_rest r);
                    b \<leftarrow> bits_set n input1;
                    out \<leftarrow> bits_loop input1 s1;
                    Some (printf ''Bits set = %d\<newline>'' [IntA b] @ printf ''> '' [] @ out) } }"
  by pat_completeness auto
termination
proof (relation "measure (\<lambda>(input, s). length s)", simp)
  fix input s r n x input1 s1 b
  assume "scanf ''%zu'' s = Some r" "\<not> scan_ret r \<noteq> 1" "bits_read_loop input n 0 (sr_rest r) = Some x" "(input1, s1) = x"
  then show "((input1, s1), input, s) \<in> measure (\<lambda>(input, s). length s)"
    using bits_read_loop_le[of input n 0 "sr_rest r" input1 s1] scanf_ret_less[of "''%zu''" s r] by auto
qed

declare bits_loop.simps [simp del]

definition bits_set_main :: "string \<Rightarrow> string c" where
  "bits_set_main input =
     do { out \<leftarrow> bits_loop (replicate 512 0) input;
          Some (printf ''Enter the number of entries in the array, followed by each entry (>= 0 and < 256)\<newline>'' []
                @ printf ''> '' [] @ out) }"

subsection \<open>The table is right\<close>

definition popcount :: "8 word \<Rightarrow> nat" where
  "popcount w = card {i. bit w i}"

fun popc :: "nat \<Rightarrow> nat" where
  "popc n = (if n = 0 then 0 else n mod 2 + popc (n div 2))"

declare popc.simps [simp del]

lemma popc_0 [simp]: "popc 0 = 0"
  by (subst popc.simps) simp

lemma popc_double [simp]: "popc (2 * n) = popc n" "popc (Suc (2 * n)) = Suc (popc n)"
proof -
  show "popc (2 * n) = popc n" by (cases "n = 0", simp) (subst popc.simps, simp)
  show "popc (Suc (2 * n)) = Suc (popc n)" by (subst popc.simps) simp
qed

lemma card_bits: "card {i. bit n i} = popc n" for n :: nat
proof (induction n rule: popc.induct)
  case (1 n)
  show ?case
  proof (cases "n = 0")
    case False
    have eq: "{i. bit n i} = (if odd n then {0} else {}) \<union> Suc ` {i. bit (n div 2) i}"
    proof (intro set_eqI)
      fix i show "i \<in> {i. bit n i} \<longleftrightarrow> i \<in> (if odd n then {0} else {}) \<union> Suc ` {i. bit (n div 2) i}"
        by (cases i) (auto simp: bit_Suc bit_0)
    qed
    have "i < m" if "bit m i" for m i :: nat
    proof -
      have "2 ^ i \<le> m" using that by (metis bit_iff_odd div_less even_zero not_less)
      with less_exp[of i] show ?thesis by (rule less_le_trans)
    qed
    then have "{i. bit (n div 2) i} \<subseteq> {..<n div 2}" by auto
    then have fin: "finite {i. bit (n div 2) i}" by (rule finite_subset) simp
    have "card {i. bit n i} = (if odd n then 1 else 0) + card {i. bit (n div 2) i}"
      unfolding eq using fin by (auto simp: card_image card_insert_if)
    also have "\<dots> = n mod 2 + popc (n div 2)" using 1 False by (simp add: odd_iff_mod_2_eq_one)
    finally show ?thesis using False by (simp add: popc.simps[of n])
  qed (simp add: popc.simps)
qed

lemma popcount_eq: "popcount w = popc (unat w)"
proof -
  have "{i. bit w i} = {i. bit (unat w) i}" by (auto simp: bit_unsigned_iff)
  then show ?thesis by (simp add: popcount_def card_bits)
qed

text \<open>The table of twice the size: every entry, and one more.\<close>

definition popc_table :: "nat \<Rightarrow> int list" where
  "popc_table m = map (\<lambda>n. int (popc n)) [0..<m]"

lemma popc_table_double: "popc_table (2 * m) = concat (map (\<lambda>x. [x, x + 1]) (popc_table m))"
  by (induction m) (simp_all add: popc_table_def)

lemma bits_table_eq: "bits_table = popc_table 256"
proof -
  have "popc_table 1 = [0]" by (simp add: popc_table_def)
  then have "popc_table (2 * (2 * (2 * (2 * (2 * (2 * (2 * (2 * 1)))))))) = bits_table"
    by (simp only: popc_table_double) (simp add: bits_table_def bits_table_low_def bits_table_high_def)
  then show ?thesis by simp
qed

lemma bits_table_popcount: "rd bits_table (unat w) = Some (int (popcount w))"
proof -
  have "unat w < 2 ^ LENGTH(8)" by (rule unsigned_less)
  then show ?thesis by (simp add: rd_def bits_table_eq popc_table_def popcount_eq)
qed

lemma popcount_le: "popcount w \<le> 8"
proof -
  have "{i. bit w i} \<subseteq> {..<8}" using bit_imp_le_length[of w] by auto
  from card_mono[OF _ this] show ?thesis by (simp add: popcount_def)
qed

abbreviation total_bits :: "8 word list \<Rightarrow> int" where
  "total_bits ws \<equiv> int (sum_list (map popcount ws))"

lemma total_bits_le: "sum_list (map popcount ws) \<le> 8 * length ws"
  using popcount_le by (induction ws) (auto intro: add_mono order_trans)

lemma bits_set_loop_eq:
  assumes "n \<le> length arr" "i \<le> n" "0 \<le> res" "res + 8 * int (n - i) \<le> INT_MAX"
  shows "bits_set_loop arr n i res = Some (res + total_bits (seg i n arr))"
  using assms
proof (induction arr n i res rule: bits_set_loop.induct)
  case (1 arr n i res)
  show ?case
  proof (cases "i < n")
    case True
    let ?p = "int (popcount (arr ! i))"
    have p: "?p \<le> 8" using popcount_le[of "arr ! i"] by linarith
    have int: "in_int (res + ?p)" using "1.prems" p True by (auto simp: in_int_def INT_MIN_def)
    have "bits_set_loop arr n (i + 1) (res + ?p) = Some (res + ?p + total_bits (seg (i + 1) n arr))"
      using "1.prems" True p int by (intro "1.IH") (auto simp: bits_table_popcount of_nat_diff)
    then show ?thesis
      using True "1.prems"(1) int by (subst bits_set_loop.simps) (simp add: bits_table_popcount seg_Cons)
  next
    case False
    then show ?thesis using "1.prems" by (subst bits_set_loop.simps) (simp add: seg_def)
  qed
qed

lemma bits_set_eq: "n \<le> length arr \<Longrightarrow> 8 * int n \<le> INT_MAX \<Longrightarrow> bits_set n arr = Some (total_bits (take n arr))"
  using bits_set_loop_eq[of n arr 0 0] by (simp add: bits_set_def seg_def)

subsection \<open>The program\<close>

lemma bits_read_elems:
  assumes "list_all (conv_ok CHR ''u'') xs" "i + length xs = n" "n \<le> length input" "no_digit r"
  shows "bits_read_loop input n i (show_elems xs @ r) = Some (take i input @ map word_of_int xs @ drop n input, r)"
  using assms
proof (induction xs arbitrary: input i)
  case Nil
  then show ?case by (subst bits_read_loop.simps) simp
next
  case (Cons x xs)
  have "bits_read_loop input n i (show_elems (x # xs) @ r)
      = bits_read_loop (input[i := word_of_int x]) n (i + 1) (show_elems xs @ r)"
    using Cons.prems scanf_elem[of r "CHR ''u''" x xs] by (subst bits_read_loop.simps) simp
  also have "\<dots> = Some (take (i + 1) (input[i := word_of_int x]) @ map word_of_int xs @ drop n (input[i := word_of_int x]), r)"
    using Cons.prems by (intro Cons.IH) auto
  also have "take (i + 1) (input[i := word_of_int x]) = take i input @ [word_of_int x]"
    using Cons.prems by (simp add: take_Suc_conv_app_nth)
  finally show ?case using Cons.prems by simp
qed

definition bits_answer :: "int list \<Rightarrow> string" where
  "bits_answer xs = ''Bits set = '' @ show_int (total_bits (map word_of_int xs)) @ ''\<newline>> ''"

lemma bits_loop_eq:
  assumes "length input = 512" "list_all isspace w"
    and "\<And>xs. xs \<in> set xss \<Longrightarrow> length xs \<le> 512 \<and> (\<forall>x\<in>set xs. 0 \<le> x \<and> x < 256)"
  shows "bits_loop input (w @ concat (map show_case xss)) = Some (concat (map bits_answer xss))"
  using assms
proof (induction xss arbitrary: input w)
  case Nil
  then show ?case by (subst bits_loop.simps) (simp add: scanf_num_end)
next
  case (Cons xs xss)
  let ?n = "length xs" and ?r = "''\<newline>'' @ concat (map show_case xss)"
  have n: "?n \<le> length input" "?n < 2 ^ 64" "8 * int ?n \<le> INT_MAX" and ok: "list_all (conv_ok CHR ''u'') xs"
    using Cons.prems(3)[of xs] Cons.prems(1) by (auto simp: list_all_iff conv_ok_def INT_MAX_def)
  let ?in = "map word_of_int xs @ drop ?n input"
  have "scanf ''%zu'' (w @ show_nat ?n @ show_elems xs @ ?r)
      = Some \<lparr>sr_args = [IntA (int ?n)], sr_eof = False, sr_rest = show_elems xs @ ?r\<rparr>"
    using Cons.prems(2) n by (intro scanf_zu_elem) (simp_all add: no_digit_show_elems)
  moreover have "bits_read_loop input ?n 0 (show_elems xs @ ?r) = Some (?in, ?r)"
    using bits_read_elems[OF ok, of 0 ?n input ?r] n by simp
  moreover have "bits_set ?n ?in = Some (total_bits (map word_of_int xs))"
    using n by (subst bits_set_eq) simp_all
  moreover have "bits_loop ?in ?r = Some (concat (map bits_answer xss))"
    using Cons.prems(1,3) n by (intro Cons.IH) auto
  ultimately show ?case
    by (subst bits_loop.simps) (simp add: show_case_def bits_answer_def show_conv_def)
qed

text \<open>
  The 256 entries of \<open>bits_table\<close> are the numbers of one-bits of their indices, and
  \<open>bits_set\<close> returns the total number of one-bits of a byte array of any length whose count fits an
  \<open>int\<close>. The program prints that number for every test case that fits its buffer.
\<close>

lemma bits_set_correct:
  "(\<forall>w. rd bits_table (unat w) = Some (int (popcount w)))
   \<and> (\<forall>n arr. n \<le> length arr \<and> 8 * int n \<le> INT_MAX \<longrightarrow>
        bits_set n arr = Some (int (sum_list (map popcount (take n arr)))))
   \<and> (\<forall>xss. (\<forall>xs\<in>set xss. length xs \<le> 512 \<and> (\<forall>x\<in>set xs. 0 \<le> x \<and> x < 256)) \<longrightarrow>
        bits_set_main (concat (map show_case xss))
          = Some (''Enter the number of entries in the array, followed by each entry (>= 0 and < 256)\<newline>> ''
                  @ concat (map bits_answer xss)))"
  using bits_table_popcount bits_set_eq bits_loop_eq[of "replicate 512 0" "[]"]
  by (auto simp: bits_set_main_def)

end
