(* ===== verification/Bt_Successor.thy ===== *)
theory Bt_Successor
  imports Bst_Main
begin

text \<open>
  \<open>trees_graphs/bt_successor/solution.c\<close>: the inorder successor in a binary search tree with
  parent pointers. The file repeats the tree functions of \<open>bst.c\<close> word for word (only a local
  variable of \<open>tree_successor\<close> is named differently), so its functions are the same functions of
  the model; its command interpreter is its own.
\<close>

type_synonym bt_tree_node = tree_node

definition bt_tree_minimum :: "tree_heap \<Rightarrow> ptr \<Rightarrow> ptr c" where
  "bt_tree_minimum h node = (if node = None then Some None else minimum_loop h node)"

partial_function (option) bt_successor_loop :: "tree_heap \<Rightarrow> ptr \<Rightarrow> ptr \<Rightarrow> ptr c" where
  "bt_successor_loop h node p =
     (if p = None then Some p
      else do { pn \<leftarrow> deref h p;
                if node \<noteq> left pn then bt_successor_loop h p (parent pn) else Some p })"

definition bt_tree_successor :: "tree_heap \<Rightarrow> ptr \<Rightarrow> ptr c" where
  "bt_tree_successor h node =
     (if node = None then Some None
      else do { n \<leftarrow> deref h node;
                if right n \<noteq> None then bt_tree_minimum h (right n)
                else bt_successor_loop h node (parent n) })"

definition bt_new_tree_node :: "tree_heap \<Rightarrow> int \<Rightarrow> ptr \<Rightarrow> ptr \<Rightarrow> ptr \<Rightarrow> ptr \<times> tree_heap" where
  "bt_new_tree_node = new_tree_node"

definition bt_destroy_tree_node :: "tree_heap \<Rightarrow> ptr \<Rightarrow> tree_heap c" where
  "bt_destroy_tree_node = destroy_tree_node"

definition bt_tree_insert :: "tree_heap \<Rightarrow> ptr \<Rightarrow> int \<Rightarrow> (ptr \<times> tree_heap) c" where
  "bt_tree_insert = tree_insert"

definition bt_tree_find :: "tree_heap \<Rightarrow> ptr \<Rightarrow> int \<Rightarrow> ptr c" where
  "bt_tree_find = tree_find"

definition bt_destroy_tree :: "tree_heap \<Rightarrow> ptr \<Rightarrow> tree_heap c" where
  "bt_destroy_tree = destroy_tree"

definition bt_pre_order_traversal :: "tree_heap \<Rightarrow> ptr \<Rightarrow> string c" where
  "bt_pre_order_traversal = pre_order_traversal"

declare bt_successor_loop.simps [code]

text \<open>
  One iteration of the loop of \<open>main\<close>. The commands \<open>F\<close> and \<open>S\<close> are coded as in
  \<open>bst.c\<close>; there is no removal, no predecessor, minimum or maximum.
\<close>

definition bt_command :: "tree_heap \<Rightarrow> ptr \<Rightarrow> string \<Rightarrow> bst_result c" where
  "bt_command h root line =
     do { i \<leftarrow> sscanf line '' I %d'';
          if scan_ret i = 1 then
            do { (new_root, h1) \<leftarrow> bt_tree_insert h root (arg_int (sr_args i ! 0));
                 Some (if new_root = None
                       then \<lparr>br_root = root, br_heap = h1, br_out = [], br_err = printf ''Out of memory; couldn't insert node.\<newline>'' [], br_go = True\<rparr>
                       else \<lparr>br_root = new_root, br_heap = h1, br_out = [], br_err = [], br_go = True\<rparr>) }
          else do { f \<leftarrow> sscanf line '' F %d'';
          if scan_ret f = 1 then bst_find_cmd h root (arg_int (sr_args f ! 0))
          else do { s \<leftarrow> sscanf line '' S %d'';
          if scan_ret s = 1 then
            bst_query_cmd bt_tree_successor ''Successor of %d is %d\<newline>'' (Some ''Node %d has no successor.\<newline>'')
              h root (arg_int (sr_args s ! 0))
          else do { e \<leftarrow> sscanf line '' %c'';
          if scan_ret e = 1 then
            (let op = arg_chr (sr_args e ! 0) in
             if op = CHR ''D'' then
               do { out \<leftarrow> bt_pre_order_traversal h root;
                    Some \<lparr>br_root = root, br_heap = h, br_out = out, br_err = [], br_go = True\<rparr> }
             else if op = CHR ''Q'' then
               Some \<lparr>br_root = root, br_heap = h, br_out = [], br_err = [], br_go = False\<rparr>
             else
               Some \<lparr>br_root = root, br_heap = h, br_out = [], br_err = printf ''Invalid input\<newline>'' [], br_go = True\<rparr>)
          else Some \<lparr>br_root = root, br_heap = h, br_out = [], br_err = printf ''Invalid input\<newline>'' [], br_go = False\<rparr>
          } } } }"

function bt_loop :: "tree_heap \<Rightarrow> ptr \<Rightarrow> string \<Rightarrow> bst_result c" where
  "bt_loop h root s =
     (case fgets 1024 s of
        None \<Rightarrow> Some \<lparr>br_root = root, br_heap = h, br_out = printf ''> '' [], br_err = [], br_go = False\<rparr>
      | Some (line, s') \<Rightarrow>
          do { r \<leftarrow> bt_command h root line;
               if br_go r
               then do { t \<leftarrow> bt_loop (br_heap r) (br_root r) s';
                         Some (t\<lparr>br_out := printf ''> '' [] @ br_out r @ br_out t, br_err := br_err r @ br_err t\<rparr>) }
               else Some (r\<lparr>br_out := printf ''> '' [] @ br_out r\<rparr>) })"
  by pat_completeness auto
termination
  by (relation "measure (\<lambda>(h, root, s). length s)") (auto dest: fgets_less)

declare bt_loop.simps [simp del]

definition bt_banner :: string where
  "bt_banner = ''The available commands are:\<newline>''
     @ ''I K - Inserts a key with the value K\<newline>''
     @ ''F K - Finds the entry with value K\<newline>''
     @ ''S K - Searches for the successor of K\<newline>''
     @ ''D - Dumps the tree (pre-order traversal)\<newline>''
     @ ''Q - Quit\<newline>''"

definition bt_main :: "(nat \<Rightarrow> bool) \<Rightarrow> string \<Rightarrow> (string \<times> string) c" where
  "bt_main fails input =
     do { r \<leftarrow> bt_loop (empty_heap fails) None input;
          h \<leftarrow> bt_destroy_tree (br_heap r) (br_root r);
          Some (printf bt_banner [] @ br_out r, br_err r) }"

subsection \<open>The successor\<close>

lemma bt_successor_loop_eq:
  assumes "is_ctx (cells h) C (Some a)" "distinct (map fst (pre C) @ a # map fst (post C))"
  shows "bt_successor_loop h (Some a) (cpar C) = Some (first_addr (post C))"
  using assms
proof (induction C arbitrary: a)
  case (CR l x C)
  then have "rootp l \<noteq> Some a" using rootp_addrs[of l a] by auto
  moreover have "bt_successor_loop h (Some (fst x)) (cpar C) = Some (first_addr (post C))"
    using CR by (intro CR.IH) auto
  ultimately show ?case using CR.prems by (subst bt_successor_loop.simps) auto
qed (subst bt_successor_loop.simps; auto)+

lemma bt_successor_eq:
  assumes "bst_inv h root t" "inorder t = xs @ (a, k) # ys"
  shows "bt_tree_successor h (Some a) = Some (first_addr ys)"
proof -
  note inv = bst_invD[OF assms(1)]
  have "(a, k) \<in> set_tree t" using assms(2) by (simp flip: set_inorder)
  then obtain C l r where t: "t = plug C \<langle>l, (a, k), r\<rangle>" using mem_plug[of "(a, k)" t Top] by auto
  have "distinct (inorder t)" using inv(3) by (simp add: distinct_map)
  then have ys: "ys = inorder r @ post C"
    using distinct_split_unique[of xs "(a, k)" ys "pre C @ inorder l" "inorder r @ post C"] assms(2) t by auto
  have tr: "is_ctx (cells h) C (Some a)" "is_tree (cells h) (Some a) r"
    and a: "cells h a = Some \<lparr>key = k, parent = cpar C, left = rootp l, right = rootp r\<rparr>"
    using inv(2) t by (auto simp: is_tree_plug)
  have "bt_successor_loop h (Some a) (cpar C) = Some (first_addr (post C))"
    using tr(1) inv(3) t by (intro bt_successor_loop_eq) auto
  moreover have "bt_tree_minimum h (rootp r) = Some (first_addr (inorder r))"
    using tree_minimum_eq[OF is_tree_shape[OF tr(2)]] by (simp add: bt_tree_minimum_def tree_minimum_def)
  ultimately show ?thesis using a ys by (auto simp: bt_tree_successor_def first_addr_append)
qed

subsection \<open>The program\<close>

lemma bt_insert_step:
  assumes "bst_inv h root t" "oom h = (\<lambda>_. False)" "in_int k"
  obtains h' root' where "bt_command h root (show_cmd (Key_Cmd CHR ''I'' k))
      = Some \<lparr>br_root = root', br_heap = h', br_out = [], br_err = [], br_go = True\<rparr>"
    "bst_inv h' root' (ins (fresh h) k t)" "oom h' = (\<lambda>_. False)" "keys (ins (fresh h) k t) = insort k (keys t)"
proof -
  obtain root' h' where i: "tree_insert h root k = Some (root', h')" "bst_inv h' root' (ins (fresh h) k t)"
    "root' \<noteq> None" "oom h' = oom h"
    using bst_inv_insert[OF assms(1), of k] assms(2) by auto
  have "sscanf (show_cmd (Key_Cmd CHR ''I'' k)) '' I %d'' = Some \<lparr>sr_args = [IntA k], sr_eof = False, sr_rest = ''\<newline>''\<rparr>"
    using sscanf_key_line[OF assms(3), of "CHR ''I''" "CHR ''I''"] by (simp add: isspace_def)
  with i have "bt_command h root (show_cmd (Key_Cmd CHR ''I'' k))
      = Some \<lparr>br_root = root', br_heap = h', br_out = [], br_err = [], br_go = True\<rparr>"
    by (simp add: bt_command_def bt_tree_insert_def)
  with that i(2,4) assms(2) keys_ins[OF bst_invD(4)[OF assms(1)]] show thesis by simp
qed

lemma bt_loop_inserts:
  assumes "bst_inv h root t" "oom h = (\<lambda>_. False)" "list_all in_int ks"
  obtains h' root' t' where "bst_inv h' root' t'" "keys t' = fold insort ks (keys t)"
    "bt_loop h root (concat (map (\<lambda>k. show_cmd (Key_Cmd CHR ''I'' k)) ks) @ s)
      = map_option (\<lambda>r. r\<lparr>br_out := concat (replicate (length ks) ''> '') @ br_out r\<rparr>) (bt_loop h' root' s)"
  using assms
proof (induction ks arbitrary: h root t thesis)
  case Nil
  then show ?case by (intro Nil(1)[of h root t]) (simp_all add: option.map_ident)
next
  case (Cons k ks)
  have k: "in_int k" using Cons.prems(4) by simp
  obtain h1 root1 where c: "bt_command h root (show_cmd (Key_Cmd CHR ''I'' k))
      = Some \<lparr>br_root = root1, br_heap = h1, br_out = [], br_err = [], br_go = True\<rparr>"
    "bst_inv h1 root1 (ins (fresh h) k t)" "oom h1 = (\<lambda>_. False)" "keys (ins (fresh h) k t) = insort k (keys t)"
    using bt_insert_step[OF Cons.prems(2,3) k] .
  obtain h2 root2 t2 where r: "bst_inv h2 root2 t2" "keys t2 = fold insort ks (insort k (keys t))"
    "bt_loop h1 root1 (concat (map (\<lambda>k. show_cmd (Key_Cmd CHR ''I'' k)) ks) @ s)
      = map_option (\<lambda>r. r\<lparr>br_out := concat (replicate (length ks) ''> '') @ br_out r\<rparr>) (bt_loop h2 root2 s)"
    using Cons.IH[OF _ c(2,3)] Cons.prems(4) c(4) by auto
  have fg: "fgets 1024 (show_cmd (Key_Cmd CHR ''I'' k) @ w) = Some (show_cmd (Key_Cmd CHR ''I'' k), w)" for w
    using fgets_cmd[of "Key_Cmd CHR ''I'' k"] k by (simp add: cmd_ok_def)
  have "bt_loop h root (concat (map (\<lambda>k. show_cmd (Key_Cmd CHR ''I'' k)) (k # ks)) @ s)
      = map_option (\<lambda>r. r\<lparr>br_out := concat (replicate (length (k # ks)) ''> '') @ br_out r\<rparr>) (bt_loop h2 root2 s)"
    using fg c(1) r(3) by (subst bt_loop.simps) (cases "bt_loop h2 root2 s"; simp del: show_cmd.simps)
  with r show ?case by (intro Cons.prems(1)[of h2 root2 t2]) simp_all
qed

definition successor_answer :: "int set \<Rightarrow> int \<Rightarrow> string" where
  "successor_answer K k =
     (if {x \<in> K. k < x} = {} then ''Node '' @ show_int k @ '' has no successor.\<newline>''
      else ''Successor of '' @ show_int k @ '' is '' @ show_int (Min {x \<in> K. k < x}) @ ''\<newline>'')"

lemma above_in_sorted:
  fixes k :: int
  assumes "sorted (us @ k # vs)" "distinct (us @ k # vs)"
  shows "{x \<in> set (us @ k # vs). k < x} = set vs"
proof -
  have "u \<le> k" if "u \<in> set us" for u using that assms(1) by (auto simp: sorted_append)
  moreover have "k < v" if "v \<in> set vs" for v using that assms by (auto simp: sorted_append less_le)
  ultimately show ?thesis by force
qed

lemma bt_successor_cmd:
  assumes "bst_inv h root t" "distinct (keys t)" "k \<in> set (keys t)"
  shows "bst_query_cmd bt_tree_successor ''Successor of %d is %d\<newline>'' (Some ''Node %d has no successor.\<newline>'') h root k
    = Some \<lparr>br_root = root, br_heap = h, br_out = successor_answer (set (keys t)) k, br_err = [], br_go = True\<rparr>"
proof -
  note inv = bst_invD[OF assms(1)]
  obtain C l a r where t: "t = plug C \<langle>l, (a, k), r\<rangle>" and f: "tree_find h root k = Some (Some a)"
    using tree_find_cases[OF inv(7,4), of k] inv(1) assms(3) by metis
  let ?xs = "pre C @ inorder l" and ?ys = "inorder r @ post C"
  have i: "inorder t = ?xs @ (a, k) # ?ys" by (simp add: t)
  have s: "bt_tree_successor h (Some a) = Some (first_addr ?ys)" using bt_successor_eq[OF assms(1) i] .
  obtain n where n: "cells h a = Some n" "key n = k" using inv(2) t by (auto simp: is_tree_plug)
  have "sorted (map snd ?xs @ k # map snd ?ys)" "distinct (map snd ?xs @ k # map snd ?ys)"
    using inv(4) assms(2) by (simp_all add: i)
  then have gt: "{x \<in> set (keys t). k < x} = set (map snd ?ys)" "sorted (map snd ?ys)"
    using above_in_sorted[of "map snd ?xs" k "map snd ?ys"] by (simp_all add: i sorted_append)
  show ?thesis
  proof (cases ?ys)
    case Nil
    then have "successor_answer (set (keys t)) k = ''Node '' @ show_int k @ '' has no successor.\<newline>''"
      using gt(1) by (simp add: successor_answer_def)
    with f s n Nil show ?thesis by (simp add: bst_query_cmd_def show_conv_def)
  next
    case (Cons y zs)
    then have "Min (set (map snd ?ys)) = snd y" using gt(2) by (intro Min_eqI) auto
    then have ans: "successor_answer (set (keys t)) k
        = ''Successor of '' @ show_int k @ '' is '' @ show_int (snd y) @ ''\<newline>''"
      using gt(1) Cons by (simp add: successor_answer_def)
    have "y \<in> set (inorder t)" using i Cons by simp
    then obtain D l' r' where "t = plug D \<langle>l', y, r'\<rangle>" using mem_plug[of y t Top] by auto
    then have "\<exists>m. cells h (fst y) = Some m \<and> key m = snd y" using inv(2) by (auto simp: is_tree_plug)
    with f s n Cons ans show ?thesis by (auto simp: bst_query_cmd_def show_conv_def)
  qed
qed

text \<open>
  The program answers successor queries right: after any distinct keys were inserted in any
  order, the query for one of them prints the least larger key, or that there is none; then \<open>main\<close>
  frees the tree and ends.
\<close>

lemma bt_main_successor:
  assumes "list_all in_int ks" "distinct ks" "k \<in> set ks"
  shows "bt_main (\<lambda>_. False) (concat (map (\<lambda>k. show_cmd (Key_Cmd CHR ''I'' k)) ks) @ show_cmd (Key_Cmd CHR ''S'' k))
    = Some (bt_banner @ concat (replicate (length ks) ''> '') @ ''> '' @ successor_answer (set ks) k @ ''> '', [])"
proof -
  have k: "in_int k" using assms(1,3) by (auto simp: list_all_iff)
  have e: "oom (empty_heap (\<lambda>_. False) :: tree_heap) = (\<lambda>_. False)" by (simp add: empty_heap_def)
  obtain h root t where t: "bst_inv h root t" "keys t = fold insort ks (keys \<langle>\<rangle>)"
    and loop: "bt_loop (empty_heap (\<lambda>_. False)) None
        (concat (map (\<lambda>k. show_cmd (Key_Cmd CHR ''I'' k)) ks) @ show_cmd (Key_Cmd CHR ''S'' k))
      = map_option (\<lambda>r. r\<lparr>br_out := concat (replicate (length ks) ''> '') @ br_out r\<rparr>) (bt_loop h root (show_cmd (Key_Cmd CHR ''S'' k)))"
    using bt_loop_inserts[OF bst_inv_empty e assms(1)] by blast
  have ks: "keys t = sort ks" using t(2) by (simp add: sort_conv_fold)
  have sc: "sscanf (show_cmd (Key_Cmd CHR ''S'' k)) (CHR '' '' # op' # '' %d'')
    = Some (if CHR ''S'' = op' then \<lparr>sr_args = [IntA k], sr_eof = False, sr_rest = ''\<newline>''\<rparr>
            else \<lparr>sr_args = [], sr_eof = False, sr_rest = show_cmd (Key_Cmd CHR ''S'' k)\<rparr>)" if "op' \<in> set ''IFS''" for op'
    using sscanf_key_line[OF k, of "CHR ''S''" op'] that by (auto simp: isspace_def)
  have "bt_command h root (show_cmd (Key_Cmd CHR ''S'' k))
      = Some \<lparr>br_root = root, br_heap = h, br_out = successor_answer (set ks) k, br_err = [], br_go = True\<rparr>"
    using bt_successor_cmd[OF t(1), of k] assms(2,3) ks by (simp add: bt_command_def sc del: show_cmd.simps)
  moreover have "fgets 1024 (show_cmd (Key_Cmd CHR ''S'' k)) = Some (show_cmd (Key_Cmd CHR ''S'' k), [])"
    using fgets_cmd[of "Key_Cmd CHR ''S'' k" "[]"] k by (simp add: cmd_ok_def)
  moreover have "bt_loop h root [] = Some \<lparr>br_root = root, br_heap = h, br_out = ''> '', br_err = [], br_go = False\<rparr>"
    by (subst bt_loop.simps) (simp add: fgets_def)
  ultimately have "bt_loop h root (show_cmd (Key_Cmd CHR ''S'' k))
      = Some \<lparr>br_root = root, br_heap = h, br_out = ''> '' @ successor_answer (set ks) k @ ''> '', br_err = [], br_go = False\<rparr>"
    by (subst bt_loop.simps) simp
  with loop destroy_tree_eq[OF bst_invD(7,3)[OF t(1)]] bst_invD(1)[OF t(1)] show ?thesis
    by (simp add: bt_main_def bt_destroy_tree_def bt_banner_def del: show_cmd.simps)
qed

end
