(* ===== verification/Kleene_Star.thy ===== *)
theory Kleene_Star
  imports C_Stdio
begin

text \<open>
  \<open>recursion_dp/kleene_star/solution.c\<close>: a deterministic automaton run over a string, the
  epsilon closure of a node of a non-deterministic one, and the driver. Node pointers are indices into
  the static node arrays. Only the \<open>visited\<close> flags of the nodes ever change: the state is the
  node array with its flags.
\<close>

definition BUFF_SZ :: nat where "BUFF_SZ = 512"

subsection \<open>The deterministic automaton\<close>

record dfa_node =
  dnext :: "nat list"
  daccept :: bool

definition simple_dfa :: "dfa_node list" where
  "simple_dfa =
     [\<lparr>dnext = [4, 1], daccept = False\<rparr>,
      \<lparr>dnext = [2, 1], daccept = False\<rparr>,
      \<lparr>dnext = [3, 4], daccept = False\<rparr>,
      \<lparr>dnext = [3, 3], daccept = True\<rparr>,
      \<lparr>dnext = [4, 4], daccept = False\<rparr>]"

definition dfa_start_state :: nat where "dfa_start_state = 0"

text \<open>The argument is \<open>unsigned\<close>: a character below the digit 0 becomes a huge number.\<close>

definition dfa_step :: "int \<Rightarrow> nat \<Rightarrow> nat c" where
  "dfa_step input cur =
     do { let u = input mod 2 ^ 32;
          n \<leftarrow> rd simple_dfa cur;
          _ \<leftarrow> c_assert (u < int (length (dnext n)));
          rd (dnext n) (nat u) }"

text \<open>The characters are plain \<open>char\<close>, which is signed here.\<close>

definition char_val :: "char \<Rightarrow> int" where
  "char_val x = (let n = int (of_char x) in if n < 128 then n else n - 256)"

fun dfa_loop :: "string \<Rightarrow> nat \<Rightarrow> nat c" where
  "dfa_loop [] curr_state = Some curr_state"
| "dfa_loop (x # input) curr_state =
     do { curr' \<leftarrow> dfa_step (char_val x - char_val CHR ''0'') curr_state; dfa_loop input curr' }"

definition dfa :: "string \<Rightarrow> nat \<Rightarrow> bool c" where
  "dfa input start = do { s \<leftarrow> dfa_loop input start; n \<leftarrow> rd simple_dfa s; Some (daccept n) }"

subsection \<open>The non-deterministic automaton\<close>

record nfa_node =
  nnext :: "nat option list list"
  epsilon :: "nat option list"
  naccept :: bool
  visited :: bool
  ident :: char

definition simple_nfa :: "nfa_node list" where
  "simple_nfa =
     [\<lparr>nnext = [[None], [None]], epsilon = [Some 1, Some 2, None], naccept = False, visited = False, ident = CHR ''A''\<rparr>,
      \<lparr>nnext = [[None], [Some 3, None]], epsilon = [None], naccept = False, visited = False, ident = CHR ''B''\<rparr>,
      \<lparr>nnext = [[Some 4, None], [None]], epsilon = [None], naccept = False, visited = False, ident = CHR ''C''\<rparr>,
      \<lparr>nnext = [[None], [Some 5, None]], epsilon = [None], naccept = False, visited = False, ident = CHR ''D''\<rparr>,
      \<lparr>nnext = [[Some 6, None], [None]], epsilon = [None], naccept = False, visited = False, ident = CHR ''E''\<rparr>,
      \<lparr>nnext = [[None], [None]], epsilon = [Some 0, Some 7, None], naccept = False, visited = False, ident = CHR ''F''\<rparr>,
      \<lparr>nnext = [[None], [None]], epsilon = [Some 0, Some 7, None], naccept = False, visited = False, ident = CHR ''G''\<rparr>,
      \<lparr>nnext = [[None], [None]], epsilon = [None], naccept = True, visited = False, ident = CHR ''H''\<rparr>]"

definition nfa_prepare_visit :: "nfa_node list \<Rightarrow> nfa_node list" where
  "nfa_prepare_visit nfa = map (\<lambda>n. n\<lparr>visited := False\<rparr>) nfa"

text \<open>
  The loop over the epsilon transitions of \<open>curr_node\<close> from the \<open>i\<close>-th on, with the recursive
  calls it makes; the string is what \<open>sprintf\<close> appends to the buffer.
\<close>

partial_function (option) closure_loop :: "nfa_node list \<Rightarrow> nat \<Rightarrow> nat \<Rightarrow> (nfa_node list \<times> string) c" where
  "closure_loop nfa cur i =
     do { n \<leftarrow> rd nfa cur;
          e \<leftarrow> rd (epsilon n) i;
          case e of
            None \<Rightarrow> Some (nfa, [])
          | Some m \<Rightarrow>
              do { en \<leftarrow> rd nfa m;
                   (nfa1, out1) \<leftarrow>
                     (if \<not> visited en
                      then do { nfa0 \<leftarrow> wr nfa m (en\<lparr>visited := True\<rparr>);
                                (nfa1, out) \<leftarrow> closure_loop nfa0 m 0;
                                Some (nfa1, printf ''%c '' [ChrA (ident en)] @ out) }
                      else Some (nfa, []));
                   (nfa2, out2) \<leftarrow> closure_loop nfa1 cur (i + 1);
                   Some (nfa2, out1 @ out2) } }"

definition kleene_closure_aux :: "nfa_node list \<Rightarrow> nat \<Rightarrow> (nfa_node list \<times> string) c" where
  "kleene_closure_aux nfa cur =
     do { n \<leftarrow> rd nfa cur;
          nfa0 \<leftarrow> wr nfa cur (n\<lparr>visited := True\<rparr>);
          (nfa1, out) \<leftarrow> closure_loop nfa0 cur 0;
          Some (nfa1, printf ''%c '' [ChrA (ident n)] @ out) }"

definition kleene_closure :: "nfa_node list \<Rightarrow> nat \<Rightarrow> (nfa_node list \<times> string) c" where
  "kleene_closure nfa node = kleene_closure_aux (nfa_prepare_visit nfa) node"

declare closure_loop.simps [code]

subsection \<open>The driver\<close>

text \<open>
  The state of the loop of \<open>main\<close>: the nodes and the contents of \<open>input_buff\<close>, which
  \<open>scanf\<close> leaves alone when it reads nothing. What does not fit the buffer is written past its end.
\<close>

text \<open>The conversion of a failed \<open>scanf(" %c", &node)\<close> leaves \<open>node\<close> uninitialised.\<close>

function kleene_loop :: "nfa_node list \<Rightarrow> string \<Rightarrow> string \<Rightarrow> (string \<times> string) c" where
  "kleene_loop nfa buff s =
     do { r \<leftarrow> scanf '' %c'' s;
          if scan_ret r \<noteq> 1 then Some ([], [])
          else let op = arg_chr (sr_args r ! 0) in
            if op = CHR ''A'' then
              do { r2 \<leftarrow> scanf ''%s'' (sr_rest r);
                   let buff' = (if scan_ret r2 = 1 then arg_str (sr_args r2 ! 0) else buff);
                   _ \<leftarrow> c_assert (length buff' < BUFF_SZ);
                   acc \<leftarrow> dfa (cstr buff') dfa_start_state;
                   (out, err) \<leftarrow> kleene_loop nfa (cstr buff') (sr_rest r2);
                   Some (printf ''Input string: %s\<newline>'' [StrA (cstr buff')]
                         @ (if acc then printf ''Accepted\<newline>'' [] else printf ''Not accepted\<newline>'' [])
                         @ printf ''> '' [] @ out, err) }
            else if op = CHR ''K'' then
              do { r2 \<leftarrow> scanf '' %c'' (sr_rest r);
                   _ \<leftarrow> c_assert (scan_ret r2 = 1);
                   let node = arg_chr (sr_args r2 ! 0);
                   _ \<leftarrow> c_assert (char_val CHR ''a'' \<le> char_val node \<and> char_val node \<le> char_val CHR ''h'');
                   (nfa', buff') \<leftarrow> kleene_closure nfa (nat (char_val node - char_val CHR ''a''));
                   (out, err) \<leftarrow> kleene_loop nfa' buff' (sr_rest r2);
                   Some (printf ''Kleene closure for node %c: %s\<newline>'' [ChrA node, StrA buff'] @ printf ''> '' [] @ out, err) }
            else if op = CHR ''Q'' then Some ([], [])
            else do { (out, err) \<leftarrow> kleene_loop nfa buff (sr_rest r);
                      Some (printf ''> '' [] @ out, printf ''Unknown command: %c\<newline>'' [ChrA op] @ err) } }"
  by pat_completeness auto
termination
proof (relation "measure (\<lambda>(nfa, buff, s). length s)", simp, goal_cases)
  case (1 nfa buff s r x r2)
  then show ?case using scanf_ret_less[of "'' %c''" s r] scanf_rest_le[of "''%s''" "sr_rest r" r2] by fastforce
next
  case (2 nfa buff s r x r2)
  then show ?case using scanf_ret_less[of "'' %c''" s r] scanf_rest_le[of "'' %c''" "sr_rest r" r2] by fastforce
next
  case (3 nfa buff s r x)
  then show ?case using scanf_ret_less[of "'' %c''" s r] by fastforce
qed

declare kleene_loop.simps [simp del]

definition kleene_banner :: string where
  "kleene_banner = ''Available commands are:\<newline>''
     @ ''A <input> - Run the DFA of question (a) with a given input. The input must be a string with no spaces and only 0s and 1s\<newline>''
     @ ''K <node> - Compute the kleene closure of node <node>. Can be any node in the range [a-h]\<newline>''
     @ ''Q - Quit\<newline>''
     @ ''> ''"

definition kleene_main :: "string \<Rightarrow> (string \<times> string) c" where
  "kleene_main input =
     do { (out, err) \<leftarrow> kleene_loop simple_nfa [] input; Some (printf kleene_banner [] @ out, err) }"

subsection \<open>What the deterministic automaton accepts\<close>

lemma wrap_inj:
  fixes a b :: int
  assumes "(if a < 128 then a else a - 256) = (if b < 128 then b else b - 256)" "0 \<le> a" "a < 256" "0 \<le> b" "b < 256"
  shows "a = b"
  using assms by (auto split: if_splits)

lemma bit_char_iff: "(char_val x - char_val CHR ''0'') mod 2 ^ 32 < 2 \<longleftrightarrow> x = CHR ''0'' \<or> x = CHR ''1''"
proof -
  have b: "int (of_char y) < 256" for y :: char using nat_of_char_less_256[of y] by linarith
  have zero: "char_val CHR ''0'' = 48" "char_val CHR ''1'' = 49" by (simp_all add: char_val_def)
  have r: "- 128 \<le> char_val x" "char_val x < 128" 
    using b[of x] by (simp_all only: char_val_def Let_def split: if_split) linarith+
  have eq: "char_val x = char_val y \<longleftrightarrow> x = y" for y
  proof
    assume "char_val x = char_val y"
    then have "int (of_char x) = int (of_char y)"
      unfolding char_val_def Let_def by (rule wrap_inj[OF _ of_nat_0_le_iff b of_nat_0_le_iff b])
    then show "x = y" by (metis of_char_eq_iff of_nat_eq_iff)
  qed simp
  have "(char_val x - 48) mod 2 ^ 32 < 2 \<longleftrightarrow> char_val x = 48 \<or> char_val x = 49"
  proof (cases "char_val x < 48")
    case True
    then have "(char_val x - 48) mod 2 ^ 32 = char_val x - 48 + 2 ^ 32"
      using r by (subst mod_add_self2[symmetric], subst mod_pos_pos_trivial) auto
    then show ?thesis using True r by simp
  qed (use r in \<open>auto simp: mod_pos_pos_trivial\<close>)
  then show ?thesis using eq zero by metis
qed

lemma dfa_loop_bit:
  "c < 5 \<Longrightarrow> dfa_loop (CHR ''0'' # s) c = dfa_loop s ([4, 2, 3, 3, 4] ! c)"
  "c < 5 \<Longrightarrow> dfa_loop (CHR ''1'' # s) c = dfa_loop s ([1, 1, 4, 3, 4] ! c)"
  by (auto simp: dfa_step_def simple_dfa_def char_val_def less_Suc_eq numeral_eq_Suc)

lemma dfa_step_other:
  assumes "x \<noteq> CHR ''0''" "x \<noteq> CHR ''1''" "c < 5"
  shows "dfa_step (char_val x - char_val CHR ''0'') c = None"
proof -
  have "\<not> (char_val x - char_val CHR ''0'') mod 2 ^ 32 < 2" using assms(1,2) by (simp only: bit_char_iff) simp
  moreover have "length (dnext (simple_dfa ! c)) = 2" "c < length simple_dfa"
    using assms(3) by (auto simp: simple_dfa_def less_Suc_eq numeral_eq_Suc)
  ultimately show ?thesis by (simp add: dfa_step_def Let_def)
qed

abbreviation bits01 :: "string \<Rightarrow> bool" where
  "bits01 s \<equiv> set s \<subseteq> {CHR ''0'', CHR ''1''}"

lemma dfa_Nil: "c < 5 \<Longrightarrow> dfa [] c = Some (c = 3)"
  by (auto simp: dfa_def simple_dfa_def less_Suc_eq numeral_eq_Suc)

lemma dfa_Cons:
  "c < 5 \<Longrightarrow> dfa (CHR ''0'' # s) c = dfa s ([4, 2, 3, 3, 4] ! c)"
  "c < 5 \<Longrightarrow> dfa (CHR ''1'' # s) c = dfa s ([1, 1, 4, 3, 4] ! c)"
  by (simp_all add: dfa_def dfa_loop_bit del: dfa_loop.simps)

lemma dfa_sink: "bits01 s \<Longrightarrow> dfa s 3 = Some True" "bits01 s \<Longrightarrow> dfa s 4 = Some False"
  by (induction s) (auto simp: dfa_Nil dfa_Cons)

lemma dfa_from_B: "bits01 s \<Longrightarrow> dfa s 1 = Some (\<exists>n t. s = replicate n CHR ''1'' @ ''00'' @ t)"
proof (induction s)
  case Nil
  then show ?case by (simp add: dfa_Nil)
next
  case (Cons x s)
  consider "x = CHR ''1''" | "x = CHR ''0''" using Cons.prems by auto
  then show ?case
  proof cases
    case 1
    have "(\<exists>n t. x # s = replicate n CHR ''1'' @ ''00'' @ t) \<longleftrightarrow> (\<exists>n t. s = replicate n CHR ''1'' @ ''00'' @ t)"
    proof
      assume "\<exists>n t. x # s = replicate n CHR ''1'' @ ''00'' @ t"
      then obtain n t where "x # s = replicate n CHR ''1'' @ ''00'' @ t" by blast
      with 1 show "\<exists>n t. s = replicate n CHR ''1'' @ ''00'' @ t" by (cases n) auto
    next
      assume "\<exists>n t. s = replicate n CHR ''1'' @ ''00'' @ t"
      then obtain n t where "s = replicate n CHR ''1'' @ ''00'' @ t" by blast
      with 1 show "\<exists>n t. x # s = replicate n CHR ''1'' @ ''00'' @ t" by (intro exI[of _ "Suc n"] exI[of _ t]) simp
    qed
    with 1 Cons show ?thesis by (simp add: dfa_Cons)
  next
    case 2
    have "(\<exists>n t. x # s = replicate n CHR ''1'' @ ''00'' @ t) \<longleftrightarrow> (\<exists>t. s = CHR ''0'' # t)"
    proof
      assume "\<exists>n t. x # s = replicate n CHR ''1'' @ ''00'' @ t"
      then obtain n t where "x # s = replicate n CHR ''1'' @ ''00'' @ t" by blast
      with 2 show "\<exists>t. s = CHR ''0'' # t" by (cases n) auto
    qed (use 2 in \<open>auto intro!: exI[of _ 0]\<close>)
    moreover have "dfa s 2 = Some (\<exists>t. s = CHR ''0'' # t)"
    proof (cases s)
      case Nil
      then show ?thesis by (simp add: dfa_Nil)
    next
      case (Cons y u)
      then have "y = CHR ''0'' \<or> y = CHR ''1''" "bits01 u" using \<open>bits01 (x # s)\<close> by auto
      then show ?thesis using Cons dfa_sink[of u] by (auto simp: dfa_Cons)
    qed
    ultimately show ?thesis using 2 by (simp add: dfa_Cons)
  qed
qed

lemma dfa_other: "\<not> bits01 s \<Longrightarrow> c < 5 \<Longrightarrow> dfa_loop s c = None"
proof (induction s arbitrary: c)
  case (Cons x s)
  show ?case
  proof (cases "x = CHR ''0'' \<or> x = CHR ''1''")
    case True
    then have "\<not> bits01 s" using Cons.prems(1) by auto
    note IH = Cons.IH[OF this]
    have "[4, 2, 3, 3, 4] ! c < (5 :: nat)" "[1, 1, 4, 3, 4] ! c < (5 :: nat)"
      using Cons.prems(2) by (auto simp: less_Suc_eq numeral_eq_Suc)
    then show ?thesis using True Cons.prems(2) IH by (elim disjE) (simp_all only: dfa_loop_bit)
  qed (use Cons.prems dfa_step_other in simp)
qed simp

text \<open>
  The automaton of question (a) accepts exactly the strings of binary digits that start with
  one or more ones followed by two zeros; on a string with any other character the assertion of
  \<open>step\<close> fails.
\<close>

lemma dfa_language:
  "dfa s dfa_start_state =
     (if bits01 s then Some (\<exists>n t. 0 < n \<and> s = replicate n CHR ''1'' @ ''00'' @ t) else None)"
proof (cases "bits01 s")
  case True
  show ?thesis
  proof (cases s)
    case Nil
    then show ?thesis by (simp add: dfa_Nil dfa_start_state_def)
  next
    case (Cons x u)
    consider "x = CHR ''1''" | "x = CHR ''0''" using Cons True by auto
    then show ?thesis
    proof cases
      case 1
      have "(\<exists>n t. 0 < n \<and> s = replicate n CHR ''1'' @ ''00'' @ t) \<longleftrightarrow> (\<exists>n t. u = replicate n CHR ''1'' @ ''00'' @ t)"
      proof
        assume "\<exists>n t. 0 < n \<and> s = replicate n CHR ''1'' @ ''00'' @ t"
        then obtain n t where "0 < n" "s = replicate n CHR ''1'' @ ''00'' @ t" by blast
        with 1 Cons show "\<exists>n t. u = replicate n CHR ''1'' @ ''00'' @ t" by (cases n) auto
      next
        assume "\<exists>n t. u = replicate n CHR ''1'' @ ''00'' @ t"
        then obtain n t where "u = replicate n CHR ''1'' @ ''00'' @ t" by blast
        with 1 Cons show "\<exists>n t. 0 < n \<and> s = replicate n CHR ''1'' @ ''00'' @ t"
          by (intro exI[of _ "Suc n"] exI[of _ t]) simp
      qed
      with 1 Cons True dfa_from_B[of u] show ?thesis by (simp add: dfa_start_state_def dfa_Cons)
    next
      case 2
      have "\<not> (\<exists>n t. 0 < n \<and> s = replicate n CHR ''1'' @ ''00'' @ t)"
      proof (intro notI, elim exE conjE)
        fix n t assume "0 < n" "s = replicate n CHR ''1'' @ ''00'' @ t"
        then show False using 2 Cons by (cases n) auto
      qed
      moreover have "dfa u 4 = Some False" using dfa_sink(2)[of u] Cons True by simp
      ultimately show ?thesis using 2 Cons True by (simp add: dfa_start_state_def dfa_Cons)
    qed
  qed
next
  case False
  then show ?thesis by (simp add: dfa_def dfa_start_state_def dfa_other)
qed

subsection \<open>The epsilon closure\<close>

text \<open>
  For any automaton: the epsilon lists are null terminated, and their entries before the terminator point to nodes of
  the automaton. The transitions may have cycles.
\<close>

definition eps_list :: "nfa_node \<Rightarrow> nat list" where
  "eps_list n = map the (takeWhile (\<lambda>e. e \<noteq> None) (epsilon n))"

definition nfa_ok :: "nfa_node list \<Rightarrow> bool" where
  "nfa_ok nfa \<longleftrightarrow> (\<forall>n \<in> set nfa. None \<in> set (epsilon n) \<and> (\<forall>j \<in> set (eps_list n). j < length nfa))"

definition eps :: "nfa_node list \<Rightarrow> (nat \<times> nat) set" where
  "eps nfa = {(i, j). i < length nfa \<and> j \<in> set (eps_list (nfa ! i))}"

definition show_nodes :: "nfa_node list \<Rightarrow> nat list \<Rightarrow> string" where
  "show_nodes nfa js = concat (map (\<lambda>j. [ident (nfa ! j), CHR '' '']) js)"

text \<open>The automaton after the nodes \<open>js\<close> were marked.\<close>

definition mark :: "nat list \<Rightarrow> nfa_node list \<Rightarrow> nfa_node list" where
  "mark js nfa = map (\<lambda>k. (nfa ! k)\<lparr>visited := visited (nfa ! k) \<or> k \<in> set js\<rparr>) [0..<length nfa]"

definition unseen :: "nfa_node list \<Rightarrow> nat set" where
  "unseen nfa = {k. k < length nfa \<and> \<not> visited (nfa ! k)}"

lemma length_mark [simp]: "length (mark js nfa) = length nfa"
  by (simp add: mark_def)

lemma mark_nth: "k < length nfa \<Longrightarrow> mark js nfa ! k = (nfa ! k)\<lparr>visited := visited (nfa ! k) \<or> k \<in> set js\<rparr>"
  by (simp add: mark_def)

lemma mark_simps [simp]: "mark [] nfa = nfa" "mark ys (mark xs nfa) = mark (xs @ ys) nfa"
  by (auto intro!: nth_equalityI simp: mark_nth)

lemma mark_one: "m < length nfa \<Longrightarrow> nfa[m := (nfa ! m)\<lparr>visited := True\<rparr>] = mark [m] nfa"
  by (auto intro!: nth_equalityI simp: mark_nth nth_list_update)

lemma eps_list_visited [simp]: "eps_list (n\<lparr>visited := b\<rparr>) = eps_list n"
  by (simp add: eps_list_def)

lemma eps_mark [simp]: "eps (mark js nfa) = eps nfa"
  by (auto simp: eps_def mark_nth)

lemma nfa_ok_mark [simp]: "nfa_ok (mark js nfa) = nfa_ok nfa"
  by (auto simp: nfa_ok_def all_set_conv_all_nth mark_nth)

lemma show_nodes_mark [simp]: "set js \<subseteq> {..<length nfa} \<Longrightarrow> show_nodes (mark ks nfa) js = show_nodes nfa js"
  unfolding show_nodes_def by (intro arg_cong[where f = concat] map_cong) (auto simp: mark_nth)

lemma show_nodes_simps [simp]: "show_nodes nfa [] = []" "show_nodes nfa (xs @ ys) = show_nodes nfa xs @ show_nodes nfa ys"
  "show_nodes nfa (j # js) = ident (nfa ! j) # CHR '' '' # show_nodes nfa js"
  by (simp_all add: show_nodes_def)

lemma unseen_mark: "unseen (mark js nfa) = unseen nfa - set js"
  by (auto simp: unseen_def mark_nth)

lemma finite_unseen [simp]: "finite (unseen nfa)"
  by (simp add: unseen_def)

text \<open>The entry of an epsilon list at \<open>i\<close>.\<close>

lemma eps_entry:
  assumes "nfa_ok nfa" "cur < length nfa" "i \<le> length (eps_list (nfa ! cur))"
  shows "rd (epsilon (nfa ! cur)) i = Some (if i < length (eps_list (nfa ! cur)) then Some (eps_list (nfa ! cur) ! i) else None)"
proof -
  let ?e = "epsilon (nfa ! cur)" let ?t = "takeWhile (\<lambda>e. e \<noteq> None) ?e"
  have "None \<in> set ?e" using assms(1,2) by (simp add: nfa_ok_def)
  then have l: "length ?t < length ?e" using takeWhile_eq_all_conv[of "\<lambda>e. e \<noteq> None" ?e] length_takeWhile_le[of "\<lambda>e. e \<noteq> None" ?e]
    by (metis le_neq_implies_less takeWhile_eq_take take_all_iff le_refl)
  have len: "length (eps_list (nfa ! cur)) = length ?t" by (simp add: eps_list_def)
  show ?thesis
  proof (cases "i < length ?t")
    case True
    then have "?e ! i = ?t ! i" "?t ! i \<noteq> None" using takeWhile_nth[OF True] nth_mem[OF True] set_takeWhileD by force+
    then show ?thesis using True l len by (simp add: eps_list_def)
  next
    case False
    then have "i = length ?t" using assms(3) len by simp
    moreover from this have "?e ! i = None" using nth_length_takeWhile[OF l] by simp
    ultimately show ?thesis using l len by simp
  qed
qed

text \<open>
  What a call of the loop does: it marks nodes that were not marked, writes them, and leaves marked everything the rest of
  the list points to and everything the new nodes point to. Every one of them is reachable from the rest of the list.
\<close>

definition visits :: "nfa_node list \<Rightarrow> nat set \<Rightarrow> nat list \<Rightarrow> bool" where
  "visits nfa S js \<longleftrightarrow> distinct js \<and> set js \<subseteq> unseen nfa \<and> S \<inter> unseen nfa \<subseteq> set js
     \<and> eps nfa `` set js \<inter> unseen nfa \<subseteq> set js \<and> set js \<subseteq> (eps nfa)\<^sup>* `` S"

lemma visits_seq:
  assumes "visits nfa S xs" "visits (mark xs nfa) T ys"
  shows "visits nfa (S \<union> T) (xs @ ys)"
proof -
  have "set js \<subseteq> (eps nfa)\<^sup>* `` R \<Longrightarrow> R \<subseteq> Q \<Longrightarrow> set js \<subseteq> (eps nfa)\<^sup>* `` Q" for js R Q by blast
  then show ?thesis using assms unfolding visits_def unseen_mark eps_mark by auto
qed

lemma visits_node:
  assumes "m \<in> unseen nfa" "visits (mark [m] nfa) (set (eps_list (nfa ! m))) js"
  shows "visits nfa {m} (m # js)"
proof -
  have m: "eps nfa `` {m} = set (eps_list (nfa ! m))" using assms(1) by (auto simp: eps_def unseen_def)
  have "(eps nfa)\<^sup>* `` (eps nfa `` {m}) \<subseteq> (eps nfa)\<^sup>* `` {m}" by (auto intro: converse_rtrancl_into_rtrancl)
  moreover have "set js \<subseteq> (eps nfa)\<^sup>* `` (eps nfa `` {m})" using assms(2) m by (simp add: visits_def)
  ultimately have "set js \<subseteq> (eps nfa)\<^sup>* `` {m}" by (rule subset_trans[rotated])
  then show ?thesis using assms m unfolding visits_def unseen_mark eps_mark by auto
qed

lemma closure_loop_visits:
  "nfa_ok nfa \<Longrightarrow> cur < length nfa \<Longrightarrow> i \<le> length (eps_list (nfa ! cur)) \<Longrightarrow>
    \<exists>js. closure_loop nfa cur i = Some (mark js nfa, show_nodes nfa js) \<and> visits nfa (set (drop i (eps_list (nfa ! cur)))) js"
proof (induction "card (unseen nfa)" arbitrary: nfa cur i rule: less_induct)
  case less
  note outer = less.hyps and ok = less.prems(1) and cur = less.prems(2)
  show ?case using less.prems(3)
  proof (induction "length (eps_list (nfa ! cur)) - i" arbitrary: i)
    case 0
    then have "drop i (eps_list (nfa ! cur)) = []" by simp
    moreover have "closure_loop nfa cur i = Some (mark [] nfa, show_nodes nfa [])"
      using eps_entry[OF ok cur, of i] cur 0 by (subst closure_loop.simps) simp
    ultimately show ?case by (intro exI[of _ "[]"]) (simp add: visits_def)
  next
    case (Suc k)
    let ?es = "eps_list (nfa ! cur)"
    let ?m = "?es ! i"
    have i: "i < length ?es" using Suc.hyps(2) by simp
    have m: "?m < length nfa" using ok cur nth_mem[OF i] nth_mem[OF cur] unfolding nfa_ok_def by blast
    have d: "drop i ?es = ?m # drop (i + 1) ?es" using i by (simp add: Cons_nth_drop_Suc)
    show ?case
    proof (cases "visited (nfa ! ?m)")
      case True
      obtain js where js: "closure_loop nfa cur (i + 1) = Some (mark js nfa, show_nodes nfa js)" "visits nfa (set (drop (i + 1) ?es)) js"
      proof -
        have "k = length ?es - (i + 1)" "i + 1 \<le> length ?es" using Suc.hyps(2) i by linarith+
        from Suc.hyps(1)[OF this] that show thesis by blast
      qed
      have "closure_loop nfa cur i = Some (mark js nfa, show_nodes nfa js)"
        using eps_entry[OF ok cur Suc.prems] i m cur True js(1) by (subst closure_loop.simps) simp
      moreover have "visits nfa {?m} []" using True by (simp add: visits_def unseen_def)
      from visits_seq[OF this, of "set (drop (i + 1) ?es)" js] js(2) have "visits nfa (set (drop i ?es)) js" unfolding d by simp
      ultimately show ?thesis by blast
    next
      case False
      then have mu: "?m \<in> unseen nfa" using m by (simp add: unseen_def)
      have less1: "card (unseen (mark [?m] nfa)) < card (unseen nfa)" using mu by (intro psubset_card_mono) (auto simp: unseen_mark)
      obtain xs where xs: "closure_loop (mark [?m] nfa) ?m 0 = Some (mark xs (mark [?m] nfa), show_nodes (mark [?m] nfa) xs)"
        "visits (mark [?m] nfa) (set (eps_list (nfa ! ?m))) xs"
        using outer[OF less1, of ?m 0] ok m by (auto simp: mark_nth)
      have vx: "visits nfa {?m} (?m # xs)" by (rule visits_node[OF mu xs(2)])
      let ?nfa = "mark (?m # xs) nfa"
      have "card (unseen ?nfa) < card (unseen nfa)" using mu by (intro psubset_card_mono) (auto simp: unseen_mark)
      from outer[OF this, of cur "i + 1"] obtain ys where ys: "closure_loop ?nfa cur (i + 1) = Some (mark ys ?nfa, show_nodes ?nfa ys)"
        "visits ?nfa (set (drop (i + 1) ?es)) ys" using ok cur i by (auto simp: mark_nth)
      have sub: "set xs \<subseteq> {..<length nfa}" "set ys \<subseteq> {..<length nfa}" using vx ys(2) by (auto simp: visits_def unseen_def)
      have "closure_loop nfa cur i = Some (mark ((?m # xs) @ ys) nfa, show_nodes nfa ((?m # xs) @ ys))"
        using eps_entry[OF ok cur Suc.prems] i m cur False xs(1) ys(1) sub mark_one[OF m]
        by (subst closure_loop.simps) (simp add: show_conv_def)
      moreover have "visits nfa (set (drop i ?es)) ((?m # xs) @ ys)" using visits_seq[OF vx ys(2)] unfolding d by simp
      ultimately show ?thesis by blast
    qed
  qed
qed

lemma image_closed: "r `` X \<subseteq> X \<Longrightarrow> i \<in> X \<Longrightarrow> r\<^sup>* `` {i} \<subseteq> X"
  using Image_closed_trancl[of r X] by blast

text \<open>
  Property C21: on every automaton, with cycles of epsilon transitions or without, and whatever flags an earlier call left,
  \<open>kleene_closure\<close> ends and writes exactly the nodes reachable by epsilon transitions, each once; in the end the marked
  nodes are exactly these.
\<close>

theorem kleene_closure_correct:
  assumes "nfa_ok nfa" "i < length nfa"
  shows "\<exists>js. kleene_closure nfa i = Some (mark js (nfa_prepare_visit nfa), show_nodes nfa js)
    \<and> distinct js \<and> set js = (eps nfa)\<^sup>* `` {i}"
proof -
  let ?p = "nfa_prepare_visit nfa"
  have p: "length ?p = length nfa" "\<And>k. k < length nfa \<Longrightarrow> ?p ! k = (nfa ! k)\<lparr>visited := False\<rparr>" by (simp_all add: nfa_prepare_visit_def)
  have ok: "nfa_ok ?p" using assms(1) by (auto simp: nfa_ok_def nfa_prepare_visit_def)
  have e: "eps ?p = eps nfa" by (auto simp: eps_def p)
  have sh: "show_nodes ?p js = show_nodes nfa js" if "set js \<subseteq> {..<length nfa}" for js
    unfolding show_nodes_def using that by (intro arg_cong[where f = concat] map_cong) (auto simp: p)
  have u: "unseen ?p = {..<length nfa}" by (auto simp: unseen_def p)
  obtain js where js: "closure_loop (mark [i] ?p) i 0 = Some (mark js (mark [i] ?p), show_nodes (mark [i] ?p) js)"
    "visits (mark [i] ?p) (set (eps_list (?p ! i))) js"
    using closure_loop_visits[of "mark [i] ?p" i 0] ok assms(2) p by (auto simp: mark_nth)
  have v: "visits ?p {i} (i # js)" using visits_node[OF _ js(2)] u assms(2) by simp
  then have sub: "set (i # js) \<subseteq> {..<length nfa}" using u by (auto simp: visits_def)
  have "kleene_closure nfa i = Some (mark (i # js) ?p, show_nodes nfa (i # js))"
    using js(1) assms(2) p mark_one[of i ?p] sh[of js] sub by (simp add: kleene_closure_def kleene_closure_aux_def show_conv_def)
  moreover have "eps nfa `` set (i # js) \<subseteq> set (i # js)"
  proof -
    have "eps nfa `` set (i # js) \<subseteq> {..<length nfa}" using assms(1) by (auto simp: eps_def nfa_ok_def)
    then show ?thesis using v unfolding visits_def e u by blast
  qed
  then have "(eps nfa)\<^sup>* `` {i} \<subseteq> set (i # js)" by (rule image_closed) simp
  moreover have "distinct (i # js)" "set (i # js) \<subseteq> (eps nfa)\<^sup>* `` {i}" using v unfolding visits_def e by auto
  ultimately show ?thesis by blast
qed

text \<open>The automaton of question (b), and one in which the epsilon transitions make a cycle.\<close>

definition cyclic_nfa :: "nfa_node list" where
  "cyclic_nfa =
     [\<lparr>nnext = [[None], [None]], epsilon = [Some 1, Some 2, None], naccept = False, visited = True, ident = CHR ''A''\<rparr>,
      \<lparr>nnext = [[None], [None]], epsilon = [Some 2, Some 0, None], naccept = False, visited = False, ident = CHR ''B''\<rparr>,
      \<lparr>nnext = [[None], [None]], epsilon = [Some 1, None], naccept = True, visited = False, ident = CHR ''C''\<rparr>]"

theorem kleene_closure_correct_witness:
  "(\<exists>js. kleene_closure simple_nfa 5 = Some (mark js simple_nfa, show_nodes simple_nfa js) \<and> distinct js \<and> set js = (eps simple_nfa)\<^sup>* `` {5})
   \<and> (\<exists>js nfa. kleene_closure cyclic_nfa 2 = Some (nfa, show_nodes cyclic_nfa js) \<and> distinct js \<and> set js = {0, 1, 2})"
proof
  have "nfa_ok simple_nfa" "5 < length simple_nfa" "nfa_prepare_visit simple_nfa = simple_nfa" by code_simp+
  then show "\<exists>js. kleene_closure simple_nfa 5 = Some (mark js simple_nfa, show_nodes simple_nfa js) \<and> distinct js \<and> set js = (eps simple_nfa)\<^sup>* `` {5}"
    using kleene_closure_correct[of simple_nfa 5] by simp
  have ok: "nfa_ok cyclic_nfa" "2 < length cyclic_nfa" by code_simp+
  have e: "eps cyclic_nfa = {(0, 1), (0, 2), (1, 2), (1, 0), (2, 1)}"
    by (auto simp: eps_def eps_list_def cyclic_nfa_def less_Suc_eq numeral_eq_Suc)
  have "(2, 1) \<in> eps cyclic_nfa" "(1, 0) \<in> eps cyclic_nfa" by (simp_all add: e)
  then have "(2, 1) \<in> (eps cyclic_nfa)\<^sup>*" "(2, 0) \<in> (eps cyclic_nfa)\<^sup>*" by (blast, meson r_into_rtrancl rtrancl_trans)
  then have "(eps cyclic_nfa)\<^sup>* `` {2} = {0, 1, 2}" using image_closed[of "eps cyclic_nfa" "{0, 1, 2}" 2] by (auto simp: e)
  then show "\<exists>js nfa. kleene_closure cyclic_nfa 2 = Some (nfa, show_nodes cyclic_nfa js) \<and> distinct js \<and> set js = {0, 1, 2}"
    using kleene_closure_correct[OF ok] by metis
qed

end
