(* ===== verification/Lcs.thy ===== *)
theory Lcs
  imports C_Stdio "HOL-Library.Sublist"
begin

text \<open>
  \<open>DS_Algos/LCS/lcs.c\<close>: the longest common subsequence of two strings by dynamic programming. The
  table is static: it starts zeroed and keeps what earlier calls wrote. The two loops that clear its
  margins stop one short of the last row and column that the main loops read; nothing ever writes
  another value there.
\<close>

definition MAX_STR_SZ :: nat where "MAX_STR_SZ = 1024"

type_synonym lcs_table = "nat list list"

definition rd2 :: "'a list list \<Rightarrow> nat \<Rightarrow> nat \<Rightarrow> 'a c" where
  "rd2 t i j = do { row \<leftarrow> rd t i; rd row j }"

definition wr2 :: "'a list list \<Rightarrow> nat \<Rightarrow> nat \<Rightarrow> 'a \<Rightarrow> 'a list list c" where
  "wr2 t i j v = do { row \<leftarrow> rd t i; row' \<leftarrow> wr row j v; wr t i row' }"

function reverse_loop :: "string \<Rightarrow> nat \<Rightarrow> nat \<Rightarrow> string c" where
  "reverse_loop str i j =
     (if i < j
      then do { tmp \<leftarrow> rd str i;
                y \<leftarrow> rd str j;
                str1 \<leftarrow> wr str i y;
                str2 \<leftarrow> wr str1 j tmp;
                reverse_loop str2 (i + 1) (j - 1) }
      else Some str)"
  by pat_completeness auto
termination by (relation "measure (\<lambda>(str, i, j). j - i)") auto

declare reverse_loop.simps [simp del]

definition reverse_str :: "string \<Rightarrow> nat \<Rightarrow> string c" where
  "reverse_str str str_sz = (if str_sz \<le> 1 then Some str else reverse_loop str 0 (str_sz - 1))"

function build_loop :: "string \<Rightarrow> string \<Rightarrow> lcs_table \<Rightarrow> string \<Rightarrow> nat \<Rightarrow> nat \<Rightarrow> nat \<Rightarrow> (string \<times> nat) c" where
  "build_loop str1 str2 table out out_i i j =
     (if 0 < i \<and> 0 < j
      then do { x \<leftarrow> rd str1 (i - 1);
                y \<leftarrow> rd str2 (j - 1);
                if x = y
                then do { out' \<leftarrow> wr out out_i x; build_loop str1 str2 table out' (out_i + 1) (i - 1) (j - 1) }
                else do { a \<leftarrow> rd2 table i (j - 1);
                          b \<leftarrow> rd2 table (i - 1) j;
                          if b < a then build_loop str1 str2 table out out_i i (j - 1)
                          else build_loop str1 str2 table out out_i (i - 1) j } }
      else Some (out, out_i))"
  by pat_completeness auto
termination by (relation "measure (\<lambda>(str1, str2, table, out, out_i, i, j). i + j)") auto

declare build_loop.simps [simp del]

definition build_lcs_str :: "string \<Rightarrow> nat \<Rightarrow> string \<Rightarrow> nat \<Rightarrow> lcs_table \<Rightarrow> string \<Rightarrow> string c" where
  "build_lcs_str str1 str1_sz str2 str2_sz table out =
     do { (out1, out_i) \<leftarrow> build_loop str1 str2 table out 0 str1_sz str2_sz;
          out2 \<leftarrow> wr out1 out_i (CHR 0x00);
          reverse_str out2 out_i }"

function clear_col :: "lcs_table \<Rightarrow> nat \<Rightarrow> nat \<Rightarrow> lcs_table c" where
  "clear_col t m i = (if i < m then do { t' \<leftarrow> wr2 t i 0 0; clear_col t' m (i + 1) } else Some t)"
  by pat_completeness auto
termination by (relation "measure (\<lambda>(t, m, i). m - i)") auto

function clear_row :: "lcs_table \<Rightarrow> nat \<Rightarrow> nat \<Rightarrow> lcs_table c" where
  "clear_row t n i = (if i < n then do { t' \<leftarrow> wr2 t 0 i 0; clear_row t' n (i + 1) } else Some t)"
  by pat_completeness auto
termination by (relation "measure (\<lambda>(t, n, i). n - i)") auto

text \<open>The inner loop over the columns and the outer one over the rows; entries are \<open>unsigned\<close>.\<close>

function fill_row :: "string \<Rightarrow> string \<Rightarrow> nat \<Rightarrow> nat \<Rightarrow> lcs_table \<Rightarrow> nat \<Rightarrow> lcs_table c" where
  "fill_row str1 str2 n i t j =
     (if j < n + 1
      then do { x \<leftarrow> rd str1 (i - 1);
                y \<leftarrow> rd str2 (j - 1);
                d \<leftarrow> rd2 t (i - 1) (j - 1);
                if x = y
                then do { t' \<leftarrow> wr2 t i j ((d + 1) mod 2 ^ 32); fill_row str1 str2 n i t' (j + 1) }
                else do { l \<leftarrow> rd2 t i (j - 1);
                          u \<leftarrow> rd2 t (i - 1) j;
                          t' \<leftarrow> wr2 t i j (max (max l u) d);
                          fill_row str1 str2 n i t' (j + 1) } }
      else Some t)"
  by pat_completeness auto
termination by (relation "measure (\<lambda>(str1, str2, n, i, t, j). n + 1 - j)") auto

function fill_table :: "string \<Rightarrow> string \<Rightarrow> nat \<Rightarrow> nat \<Rightarrow> lcs_table \<Rightarrow> nat \<Rightarrow> lcs_table c" where
  "fill_table str1 str2 m n t i =
     (if i < m + 1 then do { t' \<leftarrow> fill_row str1 str2 n i t 1; fill_table str1 str2 m n t' (i + 1) } else Some t)"
  by pat_completeness auto
termination by (relation "measure (\<lambda>(str1, str2, m, n, t, i). m + 1 - i)") auto

declare clear_col.simps [simp del] clear_row.simps [simp del] fill_row.simps [simp del] fill_table.simps [simp del]

text \<open>The arguments are C strings; the result is the new table, the contents of \<open>out\<close> and the length.\<close>

definition lcs :: "lcs_table \<Rightarrow> string \<Rightarrow> string \<Rightarrow> string \<Rightarrow> (lcs_table \<times> string \<times> nat) c" where
  "lcs lcs_table str1 str2 out =
     do { let m = length str1;
          let n = length str2;
          _ \<leftarrow> c_assert (m \<le> MAX_STR_SZ);
          _ \<leftarrow> c_assert (n \<le> MAX_STR_SZ);
          t1 \<leftarrow> clear_col lcs_table m 0;
          t2 \<leftarrow> clear_row t1 n 0;
          t3 \<leftarrow> fill_table str1 str2 m n t2 1;
          out' \<leftarrow> build_lcs_str str1 m str2 n t3 out;
          r \<leftarrow> rd2 t3 m n;
          Some (t3, out', r) }"

text \<open>
  The loop of \<open>main\<close>: a word that does not fit its buffer of 1025 bytes is written past the end.
\<close>

function lcs_loop :: "lcs_table \<Rightarrow> string \<Rightarrow> string \<Rightarrow> string c" where
  "lcs_loop t res s =
     do { r \<leftarrow> scanf ''%s%s'' s;
          _ \<leftarrow> c_assert (\<forall>a\<in>set (sr_args r). length (arg_str a) \<le> MAX_STR_SZ);
          if scan_ret r \<noteq> 2 then Some []
          else do { (t', res', lcs_sz) \<leftarrow> lcs t (cstr (arg_str (sr_args r ! 0))) (cstr (arg_str (sr_args r ! 1))) res;
                    out \<leftarrow> lcs_loop t' res' (sr_rest r);
                    Some (printf ''LCS size = %zu\<newline>'' [IntA (int lcs_sz)]
                          @ (if 0 < lcs_sz then printf ''%s\<newline>'' [StrA (cstr res')] else [])
                          @ printf ''> '' [] @ out) } }"
  by pat_completeness auto
termination
  by (relation "measure (\<lambda>(t, res, s). length s)") (auto dest!: scanf_ret_less[of "''%s%s''"])

declare lcs_loop.simps [simp del]

definition lcs_main :: "string \<Rightarrow> string c" where
  "lcs_main input =
     do { out \<leftarrow> lcs_loop (replicate (MAX_STR_SZ + 1) (replicate (MAX_STR_SZ + 1) 0)) (replicate (MAX_STR_SZ + 1) (CHR 0x00)) input;
          Some (printf ''Enter two strings to find out the longest common subsequence\<newline>'' []
                @ printf ''> '' [] @ out) }"

end
