(* ===== verification/Lcs_Proofs.thy ===== *)
theory Lcs_Proofs
  imports Lcs
begin

text \<open>
  The table of \<open>lcs.c\<close> holds the lengths of the longest common subsequences of all pairs of
  prefixes, and the string built from it is a longest common subsequence.
\<close>

subsection \<open>The recurrence is right\<close>

fun lcs_len :: "'a list \<Rightarrow> 'a list \<Rightarrow> nat \<Rightarrow> nat \<Rightarrow> nat" where
  "lcs_len xs ys 0 j = 0"
| "lcs_len xs ys i 0 = 0"
| "lcs_len xs ys (Suc i) (Suc j) =
     (if xs ! i = ys ! j then Suc (lcs_len xs ys i j)
      else max (max (lcs_len xs ys (Suc i) j) (lcs_len xs ys i (Suc j))) (lcs_len xs ys i j))"

definition common :: "'a list \<Rightarrow> 'a list \<Rightarrow> 'a list \<Rightarrow> bool" where
  "common xs ys w \<longleftrightarrow> subseq w xs \<and> subseq w ys"

definition is_lcs :: "'a list \<Rightarrow> 'a list \<Rightarrow> 'a list \<Rightarrow> bool" where
  "is_lcs xs ys w \<longleftrightarrow> common xs ys w \<and> (\<forall>v. common xs ys v \<longrightarrow> length v \<le> length w)"

lemma lcs_len_0 [simp]: "lcs_len xs ys i 0 = 0"
  by (cases i) simp_all

lemma lcs_len_le: "lcs_len xs ys i j \<le> i"
  by (induction xs ys i j rule: lcs_len.induct) auto

lemma subseq_snoc_iff: "subseq w (xs @ [x]) \<longleftrightarrow> subseq w xs \<or> (\<exists>v. w = v @ [x] \<and> subseq v xs)"
proof
  assume "subseq w (xs @ [x])"
  then obtain u v where w: "w = u @ v" "subseq u xs" "subseq v [x]" by (rule subseq_appendE)
  then have "v = [] \<or> v = [x]" by (cases v) (auto split: if_splits)
  with w show "subseq w xs \<or> (\<exists>v. w = v @ [x] \<and> subseq v xs)" by auto
qed (auto intro: subseq_rev_drop_many)

lemma subseq_butlast: "subseq w xs \<Longrightarrow> subseq (butlast w) xs"
  by (metis append_butlast_last_id butlast.simps(1) list_emb_append2 subseq_order.order_trans subseq_order.refl subseq_rev_drop_many)

lemma lcs_len_upper:
  assumes "i \<le> length xs" "j \<le> length ys" "common (take i xs) (take j ys) w"
  shows "length w \<le> lcs_len xs ys i j"
  using assms
proof (induction xs ys i j arbitrary: w rule: lcs_len.induct)
  case (3 xs ys i j)
  have t: "take (Suc i) xs = take i xs @ [xs ! i]" "take (Suc j) ys = take j ys @ [ys ! j]"
    using "3.prems"(1,2) by (simp_all add: take_Suc_conv_app_nth)
  have w: "subseq w (take i xs) \<or> (\<exists>v. w = v @ [xs ! i] \<and> subseq v (take i xs))"
    "subseq w (take j ys) \<or> (\<exists>v. w = v @ [ys ! j] \<and> subseq v (take j ys))"
    using "3.prems"(3) unfolding common_def t subseq_snoc_iff by simp_all
  show ?case
  proof (cases "xs ! i = ys ! j")
    case True
    have "subseq (butlast w) (take i xs)" "subseq (butlast w) (take j ys)"
      using w by (auto dest: subseq_butlast)
    then have "length (butlast w) \<le> lcs_len xs ys i j"
      using "3.IH"(1)[OF True, of "butlast w"] "3.prems"(1,2) by (simp add: common_def)
    then show ?thesis using True by simp
  next
    case False
    then have "subseq w (take i xs) \<or> subseq w (take j ys)" using w by auto
    then show ?thesis
    proof
      assume "subseq w (take i xs)"
      then have "length w \<le> lcs_len xs ys i (Suc j)"
        using "3.IH"(3)[OF False, of w] "3.prems" by (simp add: common_def)
      then show ?thesis using False by simp
    next
      assume "subseq w (take j ys)"
      then have "length w \<le> lcs_len xs ys (Suc i) j"
        using "3.IH"(2)[OF False, of w] "3.prems" by (simp add: common_def)
      then show ?thesis using False by simp
    qed
  qed
qed (auto simp: common_def)

lemma subseq_take_mono: "i \<le> j \<Longrightarrow> subseq w (take i xs) \<Longrightarrow> subseq w (take j xs)"
  by (metis subseq_rev_drop_many take_add le_Suc_ex)

lemma lcs_len_attained:
  assumes "i \<le> length xs" "j \<le> length ys"
  shows "\<exists>w. common (take i xs) (take j ys) w \<and> length w = lcs_len xs ys i j"
  using assms
proof (induction xs ys i j rule: lcs_len.induct)
  case (3 xs ys i j)
  have t: "take (Suc i) xs = take i xs @ [xs ! i]" "take (Suc j) ys = take j ys @ [ys ! j]"
    using "3.prems"(1,2) by (simp_all add: take_Suc_conv_app_nth)
  show ?case
  proof (cases "xs ! i = ys ! j")
    case True
    obtain w where "common (take i xs) (take j ys) w" "length w = lcs_len xs ys i j"
      using "3.IH"(1)[OF True] "3.prems" by auto
    then show ?thesis
      using True unfolding common_def t by (intro exI[of _ "w @ [xs ! i]"]) (auto simp: subseq_append)
  next
    case False
    obtain u v w where
      "common (take (Suc i) xs) (take j ys) u" "length u = lcs_len xs ys (Suc i) j"
      "common (take i xs) (take (Suc j) ys) v" "length v = lcs_len xs ys i (Suc j)"
      "common (take i xs) (take j ys) w" "length w = lcs_len xs ys i j"
      using "3.IH"(2,3,4)[OF False] "3.prems" by auto
    then have "common (take (Suc i) xs) (take (Suc j) ys) u" "common (take (Suc i) xs) (take (Suc j) ys) v"
      "common (take (Suc i) xs) (take (Suc j) ys) w" "length u = lcs_len xs ys (Suc i) j"
      "length v = lcs_len xs ys i (Suc j)" "length w = lcs_len xs ys i j"
      unfolding common_def using subseq_take_mono[of i "Suc i"] subseq_take_mono[of j "Suc j"] by auto
    then show ?thesis using False by (auto simp: max_def)
  qed
qed (auto simp: common_def intro: exI[of _ "[]"])

lemma lcs_len_mono:
  assumes "i \<le> i'" "j \<le> j'" "i' \<le> length xs" "j' \<le> length ys"
  shows "lcs_len xs ys i j \<le> lcs_len xs ys i' j'"
proof -
  obtain w where w: "common (take i xs) (take j ys) w" "length w = lcs_len xs ys i j"
    using lcs_len_attained[of i xs j ys] assms by auto
  then have "common (take i' xs) (take j' ys) w"
    unfolding common_def using subseq_take_mono[OF assms(1)] subseq_take_mono[OF assms(2)] by auto
  with lcs_len_upper[of i' xs j' ys w] w(2) assms show ?thesis by simp
qed

subsection \<open>The table\<close>

definition dims :: "lcs_table \<Rightarrow> bool" where
  "dims t \<longleftrightarrow> length t = MAX_STR_SZ + 1 \<and> (\<forall>row\<in>set t. length row = MAX_STR_SZ + 1)"

definition margins :: "lcs_table \<Rightarrow> bool" where
  "margins t \<longleftrightarrow> (\<forall>i\<le>MAX_STR_SZ. t ! i ! 0 = 0 \<and> t ! 0 ! i = 0)"

lemma rd2_Some [simp]: "dims t \<Longrightarrow> i \<le> MAX_STR_SZ \<Longrightarrow> j \<le> MAX_STR_SZ \<Longrightarrow> rd2 t i j = Some (t ! i ! j)"
  by (simp add: rd2_def dims_def)

lemma wr2_Some [simp]:
  "dims t \<Longrightarrow> i \<le> MAX_STR_SZ \<Longrightarrow> j \<le> MAX_STR_SZ \<Longrightarrow> wr2 t i j v = Some (t[i := (t ! i)[j := v]])"
  by (simp add: wr2_def dims_def)

lemma dims_upd [simp]: "dims t \<Longrightarrow> i \<le> MAX_STR_SZ \<Longrightarrow> dims (t[i := (t ! i)[j := v]])"
  by (auto simp: dims_def dest!: subsetD[OF set_update_subset_insert])

lemma nth_upd:
  "dims t \<Longrightarrow> i \<le> MAX_STR_SZ \<Longrightarrow> j \<le> MAX_STR_SZ \<Longrightarrow>
   t[i := (t ! i)[j := v]] ! i' ! j' = (if i' = i \<and> j' = j then v else t ! i' ! j')"
  by (auto simp: dims_def nth_list_update)

lemma margins_upd:
  "dims t \<Longrightarrow> margins t \<Longrightarrow> i \<le> MAX_STR_SZ \<Longrightarrow> j \<le> MAX_STR_SZ \<Longrightarrow> v = 0 \<or> 0 < i \<and> 0 < j
     \<Longrightarrow> margins (t[i := (t ! i)[j := v]])"
  by (auto simp: margins_def nth_upd)

lemma clear_col_ok:
  assumes "dims t" "margins t" "m \<le> MAX_STR_SZ"
  shows "\<exists>t'. clear_col t m i = Some t' \<and> dims t' \<and> margins t'"
  using assms
proof (induction t m i rule: clear_col.induct)
  case (1 t m i)
  then show ?case by (subst clear_col.simps) (auto simp: margins_upd)
qed

lemma clear_row_ok:
  assumes "dims t" "margins t" "n \<le> MAX_STR_SZ"
  shows "\<exists>t'. clear_row t n i = Some t' \<and> dims t' \<and> margins t'"
  using assms
proof (induction t n i rule: clear_row.induct)
  case (1 t n i)
  then show ?case by (subst clear_row.simps) (auto simp: margins_upd)
qed

lemma fill_row_ok:
  assumes "dims t" "margins t" "length xs \<le> MAX_STR_SZ" "length ys \<le> MAX_STR_SZ" "0 < i" "i \<le> length xs"
    and "0 < j" "j \<le> length ys + 1" "\<And>j'. j' < j \<Longrightarrow> t ! i ! j' = lcs_len xs ys i j'"
    and "\<And>i' j'. i' < i \<Longrightarrow> j' \<le> length ys \<Longrightarrow> t ! i' ! j' = lcs_len xs ys i' j'"
  shows "\<exists>t'. fill_row xs ys (length ys) i t j = Some t' \<and> dims t' \<and> margins t'
    \<and> (\<forall>i' j'. i' \<le> i \<longrightarrow> j' \<le> length ys \<longrightarrow> t' ! i' ! j' = lcs_len xs ys i' j')"
  using assms
proof (induction xs ys "length ys" i t j rule: fill_row.induct)
  case (1 xs ys i t j)
  show ?case
  proof (cases "j < length ys + 1")
    case True
    obtain i0 j0 where ij: "i = Suc i0" "j = Suc j0" using "1.prems" by (cases i; cases j) auto
    let ?v = "lcs_len xs ys i j" and ?t = "t[i := (t ! i)[j := lcs_len xs ys i j]]"
    have b: "i \<le> MAX_STR_SZ" "j \<le> MAX_STR_SZ" using "1.prems" True by simp_all
    have "?v \<le> 1024" using lcs_len_le[of xs ys i j] b(1) by (simp add: MAX_STR_SZ_def)
    then have small: "?v mod 2 ^ 32 = ?v" by simp
    have vals: "t ! i0 ! j0 = lcs_len xs ys i0 j0" "t ! i ! j0 = lcs_len xs ys i j0" "t ! i0 ! j = lcs_len xs ys i0 j"
      using "1.prems" ij True by auto
    have step: "fill_row xs ys (length ys) i t j = fill_row xs ys (length ys) i ?t (j + 1)"
      using True "1.prems" b ij vals small by (subst fill_row.simps) (auto simp: max.assoc)
    have "\<exists>t'. fill_row xs ys (length ys) i ?t (j + 1) = Some t' \<and> dims t' \<and> margins t'
      \<and> (\<forall>i' j'. i' \<le> i \<longrightarrow> j' \<le> length ys \<longrightarrow> t' ! i' ! j' = lcs_len xs ys i' j')"
    proof (cases "xs ! i0 = ys ! j0")
      case eq: True
      have "(lcs_len xs ys i0 j0 + 1) mod 2 ^ 32 = ?v" using eq ij small by simp
      then show ?thesis
        using True "1.prems" b ij vals eq
        by (intro "1.hyps"(1)[of "xs ! i0" "ys ! j0" "lcs_len xs ys i0 j0"]) (auto simp: nth_upd margins_upd)
    next
      case False
      then show ?thesis
        using True "1.prems" b ij vals
        by (intro "1.hyps"(2)[of "xs ! i0" "ys ! j0" "lcs_len xs ys i0 j0" "lcs_len xs ys i j0" "lcs_len xs ys i0 j"])
          (auto simp: nth_upd margins_upd)
    qed
    with step show ?thesis by simp
  next
    case False
    then have "t ! i' ! j' = lcs_len xs ys i' j'" if "i' \<le> i" "j' \<le> length ys" for i' j'
      using that "1.prems"(8) "1.prems"(9)[of j'] "1.prems"(10)[of i' j'] by (cases "i' = i") auto
    with False "1.prems" show ?thesis by (subst fill_row.simps) auto
  qed
qed

lemma fill_table_ok:
  assumes "dims t" "margins t" "length xs \<le> MAX_STR_SZ" "length ys \<le> MAX_STR_SZ" "0 < i" "i \<le> length xs + 1"
    and "\<And>i' j'. i' < i \<Longrightarrow> j' \<le> length ys \<Longrightarrow> t ! i' ! j' = lcs_len xs ys i' j'"
  shows "\<exists>t'. fill_table xs ys (length xs) (length ys) t i = Some t' \<and> dims t' \<and> margins t'
    \<and> (\<forall>i' j'. i' \<le> length xs \<longrightarrow> j' \<le> length ys \<longrightarrow> t' ! i' ! j' = lcs_len xs ys i' j')"
  using assms
proof (induction xs ys "length xs" "length ys" t i rule: fill_table.induct)
  case (1 xs ys t i)
  show ?case
  proof (cases "i < length xs + 1")
    case True
    have "t ! i ! 0 = 0" using "1.prems"(2,3) True by (simp add: margins_def)
    then obtain t' where t': "fill_row xs ys (length ys) i t 1 = Some t'" "dims t'" "margins t'"
      "\<And>i' j'. i' \<le> i \<Longrightarrow> j' \<le> length ys \<Longrightarrow> t' ! i' ! j' = lcs_len xs ys i' j'"
      using fill_row_ok[of t xs ys i 1] "1.prems" True by auto
    have "\<exists>t''. fill_table xs ys (length xs) (length ys) t' (i + 1) = Some t'' \<and> dims t'' \<and> margins t''
      \<and> (\<forall>i' j'. i' \<le> length xs \<longrightarrow> j' \<le> length ys \<longrightarrow> t'' ! i' ! j' = lcs_len xs ys i' j')"
      using t' "1.prems" True by (intro "1.hyps") auto
    with t'(1) True show ?thesis by (subst fill_table.simps) simp
  next
    case False
    with "1.prems" show ?thesis by (subst fill_table.simps) auto
  qed
qed

subsection \<open>The string\<close>

lemma build_loop_ok:
  assumes "dims t" "length xs \<le> MAX_STR_SZ" "length ys \<le> MAX_STR_SZ"
    and "\<And>i' j'. i' \<le> length xs \<Longrightarrow> j' \<le> length ys \<Longrightarrow> t ! i' ! j' = lcs_len xs ys i' j'"
    and "i \<le> length xs" "j \<le> length ys" "out_i + lcs_len xs ys i j < length out"
  shows "\<exists>w out'. build_loop xs ys t out out_i i j = Some (out', out_i + length w) \<and> length out' = length out
    \<and> common (take i xs) (take j ys) w \<and> length w = lcs_len xs ys i j
    \<and> take (out_i + length w) out' = take out_i out @ rev w"
  using assms
proof (induction xs ys t out out_i i j rule: build_loop.induct)
  case (1 xs ys t out out_i i j)
  show ?case
  proof (cases "0 < i \<and> 0 < j")
    case True
    then obtain i0 j0 where ij: "i = Suc i0" "j = Suc j0" by (cases i; cases j) auto
    have tk: "take i xs = take i0 xs @ [xs ! i0]" "take j ys = take j0 ys @ [ys ! j0]"
      using "1.prems" ij by (simp_all add: take_Suc_conv_app_nth)
    have b: "i \<le> MAX_STR_SZ" "j \<le> MAX_STR_SZ" using "1.prems" by simp_all
    show ?thesis
    proof (cases "xs ! i0 = ys ! j0")
      case eq: True
      let ?out = "out[out_i := xs ! i0]"
      have "out_i + 1 + lcs_len xs ys i0 j0 < length ?out" using "1.prems"(7) ij eq by simp
      then obtain w out' where w: "build_loop xs ys t ?out (out_i + 1) i0 j0 = Some (out', out_i + 1 + length w)"
        "length out' = length ?out" "common (take i0 xs) (take j0 ys) w" "length w = lcs_len xs ys i0 j0"
        "take (out_i + 1 + length w) out' = take (out_i + 1) ?out @ rev w"
        using "1.IH"(1)[OF True, of "xs ! i0" "ys ! j0" ?out] "1.prems" ij eq by auto
      have "build_loop xs ys t out out_i i j = Some (out', out_i + length (w @ [xs ! i0]))"
        using True ij eq "1.prems" w(1) by (subst build_loop.simps) simp
      moreover have "take (out_i + length (w @ [xs ! i0])) out' = take out_i out @ rev (w @ [xs ! i0])"
        using w(5) "1.prems"(7) by (simp add: take_Suc_conv_app_nth)
      moreover have "common (take i xs) (take j ys) (w @ [xs ! i0])"
        using w(3) eq unfolding tk common_def by (auto simp: subseq_append)
      ultimately show ?thesis using w(2,4) ij eq by (intro exI[of _ "w @ [xs ! i0]"] exI[of _ out']) simp
    next
      case ne: False
      have vals: "t ! i ! j0 = lcs_len xs ys i j0" "t ! i0 ! j = lcs_len xs ys i0 j" using "1.prems" ij by auto
      have mono: "lcs_len xs ys i0 j0 \<le> lcs_len xs ys i0 j" "lcs_len xs ys i0 j0 \<le> lcs_len xs ys i j0"
        using "1.prems"(5,6) ij by (auto intro!: lcs_len_mono)
      show ?thesis
      proof (cases "lcs_len xs ys i0 j < lcs_len xs ys i j0")
        case less: True
        then have len: "lcs_len xs ys i j = lcs_len xs ys i j0" using ne ij mono by simp
        obtain w out' where w: "build_loop xs ys t out out_i i j0 = Some (out', out_i + length w)"
          "length out' = length out" "common (take i xs) (take j0 ys) w" "length w = lcs_len xs ys i j0"
          "take (out_i + length w) out' = take out_i out @ rev w"
          using "1.IH"(2)[OF True, of "xs ! i0" "ys ! j0" "t ! i ! j0" "t ! i0 ! j"] "1.prems" ij ne b less vals len by auto
        have "build_loop xs ys t out out_i i j = build_loop xs ys t out out_i i j0"
          using True ij ne "1.prems" b less vals by (subst build_loop.simps) simp
        moreover have "common (take i xs) (take j ys) w"
          using w(3) subseq_take_mono[of j0 j] ij by (auto simp: common_def)
        ultimately show ?thesis using w(1,2,4,5) len by (intro exI[of _ w] exI[of _ out']) simp
      next
        case ge: False
        then have len: "lcs_len xs ys i j = lcs_len xs ys i0 j" using ne ij mono by simp
        obtain w out' where w: "build_loop xs ys t out out_i i0 j = Some (out', out_i + length w)"
          "length out' = length out" "common (take i0 xs) (take j ys) w" "length w = lcs_len xs ys i0 j"
          "take (out_i + length w) out' = take out_i out @ rev w"
          using "1.IH"(3)[OF True, of "xs ! i0" "ys ! j0" "t ! i ! j0" "t ! i0 ! j"] "1.prems" ij ne b ge vals len by auto
        have "build_loop xs ys t out out_i i j = build_loop xs ys t out out_i i0 j"
          using True ij ne "1.prems" b ge vals by (subst build_loop.simps) simp
        moreover have "common (take i xs) (take j ys) w"
          using w(3) subseq_take_mono[of i0 i] ij by (auto simp: common_def)
        ultimately show ?thesis using w(1,2,4,5) len by (intro exI[of _ w] exI[of _ out']) simp
      qed
    qed
  next
    case False
    then show ?thesis by (subst build_loop.simps) (auto simp: common_def)
  qed
qed

lemma reverse_loop_ok:
  "reverse_loop (us @ ws @ vs) (length us) (length us + length ws - 1) = Some (us @ rev ws @ vs)"
proof (induction "length ws" arbitrary: us ws vs rule: less_induct)
  case less
  consider "ws = []" | x where "ws = [x]" | x m y where "ws = x # m @ [y]"
    by (cases ws; cases "tl ws" rule: rev_cases) auto
  then show ?case
  proof cases
    case (3 x m y)
    let ?s = "us @ ws @ vs"
    have j: "length us + length ws - 1 = length us + Suc (length m)" using 3 by simp
    have "?s ! length us = x" "?s ! (length us + Suc (length m)) = y"
      "?s[length us := y, length us + Suc (length m) := x] = (us @ [y]) @ m @ x # vs"
      using 3 by (simp_all add: nth_append list_update_append)
    then have "reverse_loop ?s (length us) (length us + length ws - 1)
        = reverse_loop ((us @ [y]) @ m @ x # vs) (length (us @ [y])) (length (us @ [y]) + length m - 1)"
      unfolding j using 3 by (subst reverse_loop.simps) simp
    also have "\<dots> = Some ((us @ [y]) @ rev m @ x # vs)" using less[of m "us @ [y]" "x # vs"] 3 by simp
    finally show ?thesis using 3 by simp
  next
    case 1
    then have "\<not> length us < length us + length ws - 1" by simp
    with 1 show ?thesis by (subst reverse_loop.simps) simp
  next
    case 2
    then show ?thesis by (subst reverse_loop.simps) simp
  qed
qed

lemma reverse_str_ok:
  assumes "k \<le> length str"
  shows "reverse_str str k = Some (rev (take k str) @ drop k str)"
proof (cases "k \<le> 1")
  case True
  then have "rev (take k str) = take k str" by (cases str; cases k) (auto simp: le_Suc_eq)
  with True show ?thesis by (simp add: reverse_str_def)
next
  case False
  with reverse_loop_ok[of "[]" "take k str" "drop k str"] assms show ?thesis by (simp add: reverse_str_def min_absorb2)
qed

text \<open>A buffer that holds a C string, from the null byte on.\<close>

lemma cstr_append: "CHR 0x00 \<notin> set w \<Longrightarrow> cstr (w @ CHR 0x00 # r) = w"
  unfolding cstr_def by (subst takeWhile_append2) auto

lemma lcs_ok:
  assumes "dims t" "margins t" "length xs \<le> MAX_STR_SZ" "length ys \<le> MAX_STR_SZ" "length out = MAX_STR_SZ + 1"
    and "CHR 0x00 \<notin> set xs"
  shows "\<exists>t' out' w. lcs t xs ys out = Some (t', out', length w) \<and> dims t' \<and> margins t' \<and> length out' = length out
    \<and> cstr out' = w \<and> is_lcs xs ys w"
proof -
  obtain t1 where t1: "clear_col t (length xs) 0 = Some t1" "dims t1" "margins t1"
    using clear_col_ok[OF assms(1,2,3)] by blast
  obtain t2 where t2: "clear_row t1 (length ys) 0 = Some t2" "dims t2" "margins t2"
    using clear_row_ok[OF t1(2,3) assms(4)] by blast
  have "t2 ! 0 ! j = 0" if "j \<le> length ys" for j using t2(3) assms(4) that by (simp add: margins_def)
  then obtain t3 where t3: "fill_table xs ys (length xs) (length ys) t2 1 = Some t3" "dims t3" "margins t3"
    "\<And>i j. i \<le> length xs \<Longrightarrow> j \<le> length ys \<Longrightarrow> t3 ! i ! j = lcs_len xs ys i j"
    using fill_table_ok[OF t2(2,3) assms(3,4), of 1] by auto
  let ?l = "lcs_len xs ys (length xs) (length ys)"
  have small: "?l < length out" using lcs_len_le[of xs ys "length xs" "length ys"] assms(3,5) by simp
  obtain w o1 where w: "build_loop xs ys t3 out 0 (length xs) (length ys) = Some (o1, length w)" "length o1 = length out"
    "common xs ys w" "length w = ?l" "take (length w) o1 = rev w"
    using build_loop_ok[OF t3(2) assms(3,4) t3(4), of "length xs" "length ys" 0 out] small by auto
  have "length w < length o1" using w(2,4) small by simp
  then have "build_lcs_str xs (length xs) ys (length ys) t3 out = Some (w @ CHR 0x00 # drop (Suc (length w)) o1)"
    using w(1,5) by (simp add: build_lcs_str_def reverse_str_ok drop_update_swap take_update_swap Cons_nth_drop_Suc[symmetric] list_update_beyond)
  moreover have "CHR 0x00 \<notin> set w"
    using w(3) assms(6) by (auto simp: common_def elim: list_emb_set)
  moreover have "is_lcs xs ys w"
    using w(3,4) lcs_len_upper[of "length xs" xs "length ys" ys] by (auto simp: is_lcs_def)
  ultimately have o: "build_lcs_str xs (length xs) ys (length ys) t3 out = Some (w @ CHR 0x00 # drop (Suc (length w)) o1)"
    "cstr (w @ CHR 0x00 # drop (Suc (length w)) o1) = w" "is_lcs xs ys w" by (simp_all add: cstr_append)
  have "rd2 t3 (length xs) (length ys) = Some (length w)"
    using t3(2,4) w(4) assms(3,4) by (simp add: rd2_def dims_def)
  then have "lcs t xs ys out = Some (t3, w @ CHR 0x00 # drop (Suc (length w)) o1, length w)"
    using t1(1) t2(1) t3(1) o(1) assms(3,4) by (simp add: lcs_def Let_def)
  with o(2,3) t3(2,3) show ?thesis using \<open>length w < length o1\<close> w(2) by simp
qed

subsection \<open>The program\<close>

definition word_ok :: "string \<Rightarrow> bool" where
  "word_ok xs \<longleftrightarrow> xs \<noteq> [] \<and> length xs \<le> MAX_STR_SZ \<and> (\<forall>x\<in>set xs. \<not> isspace x \<and> x \<noteq> CHR 0x00)"

definition pair_line :: "string \<times> string \<Rightarrow> string" where
  "pair_line p = fst p @ '' '' @ snd p @ ''\<newline>''"

definition lcs_answer :: "string \<Rightarrow> string" where
  "lcs_answer w = ''LCS size = '' @ show_nat (length w) @ ''\<newline>''
     @ (if w = [] then [] else w @ ''\<newline>'') @ ''> ''"

lemma scan_pair:
  assumes "word_ok xs" "word_ok ys" "list_all isspace b"
  shows "scanf ''%s%s'' (b @ pair_line (xs, ys) @ r)
    = Some \<lparr>sr_args = [StrA xs, StrA ys], sr_eof = False, sr_rest = ''\<newline>'' @ r\<rparr>"
  using scan_word[of xs "CHR '' ''" b "''%s''" "ys @ CHR 0x0A # r"] scan_word[of ys "CHR 0x0A" "'' ''" "[]" r] assms
  by (simp add: word_ok_def pair_line_def scanf.simps scan_stop_def scan_push_def)

lemma lcs_loop_ok:
  assumes "dims t" "margins t" "length res = MAX_STR_SZ + 1" "list_all isspace b"
    and "\<And>xs ys. (xs, ys) \<in> set ps \<Longrightarrow> word_ok xs \<and> word_ok ys"
  shows "\<exists>ws. list_all2 (\<lambda>(xs, ys) w. is_lcs xs ys w) ps ws
    \<and> lcs_loop t res (b @ concat (map pair_line ps)) = Some (concat (map lcs_answer ws))"
  using assms
proof (induction ps arbitrary: t res b)
  case Nil
  then have "scanf ''%s%s'' b = Some \<lparr>sr_args = [], sr_eof = True, sr_rest = []\<rparr>"
    by (simp add: scanf_eval skip_ws_all)
  then show ?case by (subst lcs_loop.simps) simp
next
  case (Cons p ps)
  obtain xs ys where p: "p = (xs, ys)" by fastforce
  have ok: "word_ok xs" "word_ok ys" using Cons.prems(5)[of xs ys] p by auto
  then have z: "CHR 0x00 \<notin> set xs" "CHR 0x00 \<notin> set ys" "length xs \<le> MAX_STR_SZ" "length ys \<le> MAX_STR_SZ"
    by (auto simp: word_ok_def)
  obtain t' res' w where w: "lcs t xs ys res = Some (t', res', length w)" "dims t'" "margins t'" "length res' = length res"
    "cstr res' = w" "is_lcs xs ys w"
    using lcs_ok[OF Cons.prems(1,2) z(3,4) Cons.prems(3) z(1)] by blast
  have "list_all isspace ''\<newline>''" "length res' = MAX_STR_SZ + 1" using w(4) Cons.prems(3) by simp_all
  moreover have "\<And>xs ys. (xs, ys) \<in> set ps \<Longrightarrow> word_ok xs \<and> word_ok ys" using Cons.prems(5) by (meson list.set_intros(2))
  ultimately obtain ws where ws: "list_all2 (\<lambda>(xs, ys) w. is_lcs xs ys w) ps ws"
    "lcs_loop t' res' (''\<newline>'' @ concat (map pair_line ps)) = Some (concat (map lcs_answer ws))"
    using Cons.IH[OF w(2,3)] by blast
  have "lcs_loop t res (b @ concat (map pair_line (p # ps))) = Some (concat (map lcs_answer (w # ws)))"
    using scan_pair[OF ok Cons.prems(4), of "concat (map pair_line ps)"] w(1,5) ws(2) z
    by (subst lcs_loop.simps) (simp add: p cstr_line lcs_answer_def show_conv_def show_int_def)
  with ws(1) w(6) p show ?case by (intro exI[of _ "w # ws"]) simp
qed

lemma zero_table: "dims (replicate (MAX_STR_SZ + 1) (replicate (MAX_STR_SZ + 1) 0))"
  "margins (replicate (MAX_STR_SZ + 1) (replicate (MAX_STR_SZ + 1) 0))"
  by (auto simp: dims_def margins_def less_Suc_eq_le simp del: replicate_Suc)

text \<open>
  Property C20. On every sequence of pairs of words that fit the buffers the program terminates without
  an error and answers each pair with a longest common subsequence: a common subsequence such that no
  other is longer, and its length. The static table is shared by all the calls and the loops that clear
  its margins stop one entry short; the answers are right nevertheless.
\<close>

theorem lcs_main_correct:
  assumes "\<forall>(xs, ys)\<in>set ps. word_ok xs \<and> word_ok ys"
  shows "\<exists>ws. list_all2 (\<lambda>(xs, ys) w. is_lcs xs ys w) ps ws
    \<and> lcs_main (concat (map pair_line ps))
      = Some (''Enter two strings to find out the longest common subsequence\<newline>> '' @ concat (map lcs_answer ws))"
proof -
  have "\<And>xs ys. (xs, ys) \<in> set ps \<Longrightarrow> word_ok xs \<and> word_ok ys" using assms by auto
  then obtain ws where "list_all2 (\<lambda>(xs, ys) w. is_lcs xs ys w) ps ws"
    "lcs_loop (replicate (MAX_STR_SZ + 1) (replicate (MAX_STR_SZ + 1) 0)) (replicate (MAX_STR_SZ + 1) (CHR 0x00))
       ([] @ concat (map pair_line ps)) = Some (concat (map lcs_answer ws))"
    using lcs_loop_ok[OF zero_table, of "replicate (MAX_STR_SZ + 1) (CHR 0x00)" "[]" ps] by fastforce
  then show ?thesis by (intro exI[of _ ws]) (simp add: lcs_main_def del: replicate_Suc)
qed

theorem lcs_main_correct_witness:
  "\<exists>w v. is_lcs ''abcd'' ''xbyd'' w \<and> is_lcs ''ab'' ''ba'' v
    \<and> lcs_main ''abcd xbyd\<newline>ab ba\<newline>''
      = Some (''Enter two strings to find out the longest common subsequence\<newline>> '' @ lcs_answer w @ lcs_answer v)"
proof -
  let ?ps = "[(''abcd'', ''xbyd''), (''ab'', ''ba'')]"
  have "\<forall>(xs, ys)\<in>set ?ps. word_ok xs \<and> word_ok ys" by (simp add: word_ok_def MAX_STR_SZ_def isspace_def)
  from lcs_main_correct[OF this] obtain ws where ws: "list_all2 (\<lambda>(xs, ys) w. is_lcs xs ys w) ?ps ws"
    "lcs_main (concat (map pair_line ?ps))
      = Some (''Enter two strings to find out the longest common subsequence\<newline>> '' @ concat (map lcs_answer ws))"
    by blast
  from ws(1) obtain w v where "ws = [w, v]" "is_lcs ''abcd'' ''xbyd'' w" "is_lcs ''ab'' ''ba'' v"
    by (auto simp: list_all2_Cons1)
  moreover have "concat (map pair_line ?ps) = ''abcd xbyd\<newline>ab ba\<newline>''" by (simp add: pair_line_def)
  ultimately show ?thesis using ws(2) by (intro exI[of _ w] exI[of _ v]) simp
qed

end
