(* ===== verification/Three_Stacks.thy ===== *)
theory Three_Stacks
  imports C_Stdio
begin

text \<open>
  \<open>stacks_queues/array_as_3stacks/solution.c\<close>: three stacks in one array of 1024 nodes. The nodes are
  linked by pointers into the array, modelled as indices; a fourth stack holds the free nodes. A datum
  that was never written is \<open>None\<close>, and reading it has no defined behaviour.
\<close>

definition ARRAY_SZ :: nat where "ARRAY_SZ = 1024"

record stack_node =
  data :: "int option"
  below :: "nat option"

record stacks =
  stacks_array :: "stack_node list"
  top :: "nat option list"

definition push_internal :: "stacks \<Rightarrow> nat \<Rightarrow> nat \<Rightarrow> stacks c" where
  "push_internal s stack_no n =
     do { t \<leftarrow> rd (top s) stack_no;
          node \<leftarrow> rd (stacks_array s) n;
          arr \<leftarrow> wr (stacks_array s) n (node\<lparr>below := t\<rparr>);
          tops \<leftarrow> wr (top s) stack_no (Some n);
          Some \<lparr>stacks_array = arr, top = tops\<rparr> }"

definition pop_internal :: "stacks \<Rightarrow> nat \<Rightarrow> (nat \<times> stacks) c" where
  "pop_internal s stack_no =
     do { ret \<leftarrow> rd (top s) stack_no;
          case ret of
            None \<Rightarrow> None
          | Some a \<Rightarrow> do { node \<leftarrow> rd (stacks_array s) a;
                           tops \<leftarrow> wr (top s) stack_no (below node);
                           Some (a, s\<lparr>top := tops\<rparr>) } }"

text \<open>The two loops of \<open>create_stacks\<close>; what \<open>malloc\<close> returned is arbitrary.\<close>

function clear_tops :: "stacks \<Rightarrow> nat \<Rightarrow> stacks c" where
  "clear_tops s i =
     (if i < 4 then do { tops \<leftarrow> wr (top s) i None; clear_tops (s\<lparr>top := tops\<rparr>) (i + 1) } else Some s)"
  by pat_completeness auto
termination by (relation "measure (\<lambda>(s, i). 4 - i)") auto

function fill_free :: "stacks \<Rightarrow> nat \<Rightarrow> stacks c" where
  "fill_free s i =
     (if i < ARRAY_SZ then do { s' \<leftarrow> push_internal s 3 i; fill_free s' (i + 1) } else Some s)"
  by pat_completeness auto
termination by (relation "measure (\<lambda>(s, i). ARRAY_SZ - i)") auto

declare clear_tops.simps [simp del] fill_free.simps [simp del]

definition create_stacks :: "stacks option \<Rightarrow> stacks option c" where
  "create_stacks mem =
     (case mem of
        None \<Rightarrow> Some None
      | Some s \<Rightarrow> do { s1 \<leftarrow> clear_tops s 0; s2 \<leftarrow> fill_free s1 0; Some (Some s2) })"

definition push :: "stacks \<Rightarrow> nat \<Rightarrow> int \<Rightarrow> stacks c" where
  "push s stack_no value =
     do { (n, s1) \<leftarrow> pop_internal s 3;
          node \<leftarrow> rd (stacks_array s1) n;
          arr \<leftarrow> wr (stacks_array s1) n (node\<lparr>data := Some value\<rparr>);
          push_internal (s1\<lparr>stacks_array := arr\<rparr>) stack_no n }"

definition pop :: "stacks \<Rightarrow> nat \<Rightarrow> (int \<times> stacks) c" where
  "pop s stack_no =
     do { (popped, s1) \<leftarrow> pop_internal s stack_no;
          s2 \<leftarrow> push_internal s1 3 popped;
          node \<leftarrow> rd (stacks_array s2) popped;
          d \<leftarrow> data node;
          Some (d, s2) }"

subsection \<open>The driver\<close>

text \<open>
  One line of input: the new stacks, whether to finish, and what is written to standard output and to
  standard error. On a blank line the last \<open>sscanf\<close> returns \<open>EOF\<close>, which is not 0, and
  \<open>op\<close> is read uninitialised.
\<close>

definition stacks_command :: "stacks \<Rightarrow> string \<Rightarrow> (stacks \<times> bool \<times> string \<times> string) c" where
  "stacks_command s line =
     do { r \<leftarrow> sscanf line '' I %zu %d'';
          if scan_ret r = 2
          then do { let stack_no = nat (arg_int (sr_args r ! 0));
                    let value = arg_int (sr_args r ! 1);
                    s' \<leftarrow> push s stack_no value;
                    Some (s', False, printf ''Pushed %d into stack %zu\<newline>'' [IntA value, IntA (int stack_no)], []) }
          else do { r2 \<leftarrow> sscanf line '' P %zu'';
                    if scan_ret r2 = 1
                    then do { let stack_no = nat (arg_int (sr_args r2 ! 0));
                              (popped, s') \<leftarrow> pop s stack_no;
                              Some (s', False, printf ''Popped from %zu: %d\<newline>'' [IntA (int stack_no), IntA popped], []) }
                    else do { r3 \<leftarrow> sscanf line '' %c'';
                              _ \<leftarrow> c_assert (scan_ret r3 = 1);
                              if arg_chr (sr_args r3 ! 0) \<noteq> CHR ''Q''
                              then Some (s, False, [], printf ''Invalid input line, ignoring (%s)\<newline>'' [StrA (cstr line)])
                              else Some (s, True, [], []) } } }"

function stacks_loop :: "stacks \<Rightarrow> string \<Rightarrow> (string \<times> string) c" where
  "stacks_loop s input =
     (case fgets 256 input of
        None \<Rightarrow> Some (printf ''> '' [], [])
      | Some (line, rest) \<Rightarrow>
          do { (s', finish, out, err) \<leftarrow> stacks_command s line;
               (out', err') \<leftarrow> (if finish then Some ([], []) else stacks_loop s' rest);
               Some (printf ''> '' [] @ out @ out', err @ err') })"
  by pat_completeness auto
termination by (relation "measure (\<lambda>(s, input). length input)") (auto dest: fgets_less)

declare stacks_loop.simps [simp del]

definition stacks_banner :: string where
  "stacks_banner = printf (''Available commands:\<newline>''
     @ ''I s v - Pushes the value v into stack s. 0 <= s < < 3\<newline>''
     @ ''P s - Pops from stack s. 0 <= s < 3\<newline>''
     @ ''Q - quit\<newline>'') []"

definition stacks_main :: "stacks option \<Rightarrow> string \<Rightarrow> (int \<times> string \<times> string) c" where
  "stacks_main mem input =
     do { s \<leftarrow> create_stacks mem;
          case s of
            None \<Rightarrow> Some (1, stacks_banner, ''Couldn't create stacks - out of memory.\<newline>'')
          | Some s \<Rightarrow> do { (out, err) \<leftarrow> stacks_loop s input; Some (0, stacks_banner @ out, err) } }"

subsection \<open>The nodes of the four stacks\<close>

fun chain :: "stack_node list \<Rightarrow> nat option \<Rightarrow> nat list \<Rightarrow> bool" where
  "chain arr p [] \<longleftrightarrow> p = None"
| "chain arr p (a # as) \<longleftrightarrow> p = Some a \<and> a < length arr \<and> chain arr (below (arr ! a)) as"

definition stacks_inv :: "stacks \<Rightarrow> nat list list \<Rightarrow> bool" where
  "stacks_inv s as \<longleftrightarrow> length (stacks_array s) = ARRAY_SZ \<and> length (top s) = 4 \<and> length as = 4
     \<and> (\<forall>k<4. chain (stacks_array s) (top s ! k) (as ! k)) \<and> distinct (concat as)"

text \<open>The first three stacks hold the values \<open>xs\<close>, and every node is in one of the four.\<close>

definition stacks_rep :: "stacks \<Rightarrow> int list list \<Rightarrow> bool" where
  "stacks_rep s xs \<longleftrightarrow> (\<exists>as. stacks_inv s as \<and> length (concat as) = ARRAY_SZ \<and> length xs = 3
     \<and> (\<forall>k<3. map (\<lambda>a. data (stacks_array s ! a)) (as ! k) = map Some (xs ! k)))"

lemma chain_cong:
  "length arr' = length arr \<Longrightarrow> (\<And>a. a \<in> set as \<Longrightarrow> below (arr' ! a) = below (arr ! a)) \<Longrightarrow>
   chain arr' p as = chain arr p as"
  by (induction as arbitrary: p) auto

lemma chain_bound: "chain arr p as \<Longrightarrow> a \<in> set as \<Longrightarrow> a < length arr"
  by (induction as arbitrary: p) auto

lemma mset_concat_tl:
  "k < length as \<Longrightarrow> as ! k = a # r \<Longrightarrow> mset (concat as) = add_mset a (mset (concat (as[k := r])))"
  by (induction as arbitrary: k) (auto split: nat.splits)

lemma mset_concat_Cons:
  "k < length as \<Longrightarrow> mset (concat (as[k := a # as ! k])) = add_mset a (mset (concat as))"
  using mset_concat_tl[of k "as[k := a # as ! k]" a "as ! k"] by simp

lemma length_concat_tl: "k < length as \<Longrightarrow> as ! k = a # r \<Longrightarrow> length (concat as) = Suc (length (concat (as[k := r])))"
  using mset_concat_tl by (metis size_add_mset size_mset)

lemma length_concat_Cons: "k < length as \<Longrightarrow> length (concat (as[k := a # as ! k])) = Suc (length (concat as))"
  using mset_concat_Cons by (metis size_add_mset size_mset)

lemma nth_update_field: "f y = f (xs ! a) \<Longrightarrow> f (xs[a := y] ! i) = f (xs ! i)"
  by (cases "a < length xs") (auto simp: nth_list_update list_update_beyond)

lemma distinct_add_mset: "mset xs = add_mset a (mset ys) \<Longrightarrow> distinct xs \<longleftrightarrow> a \<notin> set ys \<and> distinct ys"
  using mset_eq_imp_distinct_iff[of xs "a # ys"] by simp

lemma set_concat_nth: "k < length as \<Longrightarrow> a \<in> set (as ! k) \<Longrightarrow> a \<in> set (concat as)"
  using nth_mem[of k as] by (simp only: set_concat) blast

lemma stacks_inv_set: "stacks_inv s as \<Longrightarrow> a \<in> set (concat as) \<Longrightarrow> a < ARRAY_SZ"
  unfolding stacks_inv_def by (fastforce simp: in_set_conv_nth dest: chain_bound)

lemma push_internal_inv:
  assumes inv: "stacks_inv s as" and k: "k < 4" and a: "a < ARRAY_SZ" "a \<notin> set (concat as)"
  shows "\<exists>s'. push_internal s k a = Some s' \<and> stacks_inv s' (as[k := a # as ! k])
    \<and> map data (stacks_array s') = map data (stacks_array s)"
proof -
  let ?arr = "(stacks_array s)[a := (stacks_array s ! a)\<lparr>below := top s ! k\<rparr>]"
  let ?s = "\<lparr>stacks_array = ?arr, top = (top s)[k := Some a]\<rparr>"
  have len: "length (stacks_array s) = ARRAY_SZ" "length (top s) = 4" "length as = 4"
    using inv by (auto simp: stacks_inv_def)
  have old: "chain ?arr p (as ! j) = chain (stacks_array s) p (as ! j)" if "j < 4" for j p
  proof (rule chain_cong)
    fix b assume "b \<in> set (as ! j)"
    with that len a(2) set_concat_nth[of j as b] have "b \<noteq> a" by auto
    then show "below (?arr ! b) = below (stacks_array s ! b)" by simp
  qed simp
  have "stacks_inv ?s (as[k := a # as ! k])"
    using inv k a old len distinct_add_mset[OF mset_concat_Cons[of k as a]]
    by (auto simp: stacks_inv_def nth_list_update)
  moreover have "map data ?arr = map data (stacks_array s)"
    by (rule nth_equalityI) (auto intro: nth_update_field)
  ultimately show ?thesis
    using k a len by (auto simp: push_internal_def)
qed

lemma pop_internal_inv:
  assumes inv: "stacks_inv s as" and k: "k < 4" and a: "as ! k = a # r"
  shows "\<exists>s'. pop_internal s k = Some (a, s') \<and> stacks_inv s' (as[k := r]) \<and> a < ARRAY_SZ
    \<and> a \<notin> set (concat (as[k := r])) \<and> stacks_array s' = stacks_array s"
proof -
  have len: "length (stacks_array s) = ARRAY_SZ" "length (top s) = 4" "length as = 4" "distinct (concat as)"
    using inv by (auto simp: stacks_inv_def)
  have c: "chain (stacks_array s) (top s ! k) (a # r)"
    using inv k a by (metis stacks_inv_def)
  have d: "a \<notin> set (concat (as[k := r]))" "distinct (concat (as[k := r]))"
    using distinct_add_mset[OF mset_concat_tl[of k as a r]] k a len by auto
  then have "stacks_inv (s\<lparr>top := (top s)[k := below (stacks_array s ! a)]\<rparr>) (as[k := r])"
    using inv c k len by (auto simp: stacks_inv_def nth_list_update)
  with c d k len show ?thesis by (auto simp: pop_internal_def)
qed

lemma pop_internal_Nil: "stacks_inv s as \<Longrightarrow> k < 4 \<Longrightarrow> as ! k = [] \<Longrightarrow> pop_internal s k = None"
  by (auto simp: stacks_inv_def pop_internal_def)

lemma data_nth:
  "map data arr' = map data arr \<Longrightarrow> a < length arr \<Longrightarrow> data (arr' ! a) = data (arr ! a)"
  by (metis length_map nth_map)

text \<open>Building the stacks.\<close>

lemma fill_free_ok:
  assumes "stacks_inv s [[], [], [], fs]" and "set fs = {..<i}" and "i \<le> ARRAY_SZ"
  shows "\<exists>s' fs'. fill_free s i = Some s' \<and> stacks_inv s' [[], [], [], fs'] \<and> set fs' = {..<ARRAY_SZ}"
  using assms
proof (induction s i arbitrary: fs rule: fill_free.induct)
  case (1 s i)
  show ?case
  proof (cases "i < ARRAY_SZ")
    case True
    obtain s' where s': "push_internal s 3 i = Some s'" "stacks_inv s' [[], [], [], i # fs]"
      using push_internal_inv[OF "1.prems"(1), of 3 i] True "1.prems"(2) by auto
    from "1.IH"[OF True s'] "1.prems"(2) True s' show ?thesis
      by (subst fill_free.simps) (auto simp: lessThan_Suc)
  next
    case False
    with "1.prems" show ?thesis by (subst fill_free.simps) auto
  qed
qed

lemma clear_tops_ok: "length (top s) = 4 \<Longrightarrow> clear_tops s 0 = Some (s\<lparr>top := [None, None, None, None]\<rparr>)"
  by (cases "top s" rule: list.exhaust)
     (auto simp: clear_tops.simps numeral_eq_Suc length_Suc_conv)

lemma create_stacks_rep:
  assumes "length (stacks_array s) = ARRAY_SZ" and "length (top s) = 4"
  shows "\<exists>s'. create_stacks (Some s) = Some (Some s') \<and> stacks_rep s' [[], [], []]"
proof -
  let ?s = "s\<lparr>top := [None, None, None, None]\<rparr>"
  have "stacks_inv ?s [[], [], [], []]"
    using assms by (auto simp: stacks_inv_def numeral_eq_Suc less_Suc_eq)
  then obtain s' fs where s': "fill_free ?s 0 = Some s'" "stacks_inv s' [[], [], [], fs]" "set fs = {..<ARRAY_SZ}"
    using fill_free_ok[of ?s "[]" 0] by auto
  then have "length fs = ARRAY_SZ"
    using distinct_card[of fs] by (simp add: stacks_inv_def)
  with s' have "stacks_rep s' [[], [], []]"
    unfolding stacks_rep_def by (intro exI[of _ "[[], [], [], fs]"]) (auto simp: numeral_eq_Suc less_Suc_eq)
  with s' assms show ?thesis by (simp add: create_stacks_def clear_tops_ok)
qed

text \<open>Pushing and popping.\<close>

lemma stacks_rep_size:
  assumes "stacks_inv s as" and "\<forall>k<3. map (\<lambda>a. data (stacks_array s ! a)) (as ! k) = map Some (xs ! k)"
    and "length xs = 3"
  shows "length (concat as) = length (concat xs) + length (as ! 3)"
proof -
  obtain a0 a1 a2 a3 where as: "as = [a0, a1, a2, a3]"
    using assms(1) by (auto simp: stacks_inv_def numeral_eq_Suc length_Suc_conv)
  obtain x0 x1 x2 where xs: "xs = [x0, x1, x2]"
    using assms(3) by (auto simp: numeral_eq_Suc length_Suc_conv)
  have "length (as ! k) = length (xs ! k)" if "k < 3" for k
    using assms(2) that by (metis length_map)
  from this[of 0] this[of 1] this[of 2] show ?thesis by (simp add: as xs)
qed

lemma stacks_inv_data:
  assumes "stacks_inv s as"
  shows "stacks_inv (s\<lparr>stacks_array := (stacks_array s)[a := (stacks_array s ! a)\<lparr>data := v\<rparr>]\<rparr>) as"
proof -
  have "chain ((stacks_array s)[a := (stacks_array s ! a)\<lparr>data := v\<rparr>]) p bs = chain (stacks_array s) p bs" for p bs
    by (rule chain_cong) (auto intro: nth_update_field)
  with assms show ?thesis by (simp add: stacks_inv_def)
qed

lemma push_rep:
  assumes rep: "stacks_rep s xs" and k: "k < 3" and room: "length (concat xs) < ARRAY_SZ"
  shows "\<exists>s'. push s k v = Some s' \<and> stacks_rep s' (xs[k := v # xs ! k])"
proof -
  obtain as where as: "stacks_inv s as" "length (concat as) = ARRAY_SZ" "length xs = 3"
    "\<forall>k<3. map (\<lambda>a. data (stacks_array s ! a)) (as ! k) = map Some (xs ! k)"
    using rep by (auto simp: stacks_rep_def)
  then obtain a fs where fs: "as ! 3 = a # fs"
    using stacks_rep_size[OF as(1,4,3)] room by (cases "as ! 3") auto
  let ?as1 = "as[3 := fs]"
  let ?as2 = "?as1[k := a # ?as1 ! k]"
  obtain s1 where s1: "pop_internal s 3 = Some (a, s1)" "stacks_inv s1 ?as1" "a < ARRAY_SZ"
    "a \<notin> set (concat ?as1)" "stacks_array s1 = stacks_array s"
    using pop_internal_inv[OF as(1) _ fs] by auto
  let ?arr = "(stacks_array s1)[a := (stacks_array s1 ! a)\<lparr>data := Some v\<rparr>]"
  obtain s2 where s2: "push_internal (s1\<lparr>stacks_array := ?arr\<rparr>) k a = Some s2" "stacks_inv s2 ?as2"
    "map data (stacks_array s2) = map data ?arr"
    using push_internal_inv[OF stacks_inv_data[OF s1(2), of a "Some v"], of k a] k s1 by auto
  have len: "length (stacks_array s) = ARRAY_SZ" "length as = 4" using as(1) by (auto simp: stacks_inv_def)
  have new: "data (stacks_array s2 ! b) = (if b = a then Some v else data (stacks_array s ! b))" if "b < ARRAY_SZ" for b
    using data_nth[OF s2(3), of b] that len s1(5) by (auto simp: nth_list_update)
  have "length (concat ?as2) = ARRAY_SZ"
    using length_concat_Cons[of k ?as1 a] length_concat_tl[of 3 as a fs] fs as(2) k len by simp
  moreover have "map (\<lambda>b. data (stacks_array s2 ! b)) (?as2 ! j) = map Some (xs[k := v # xs ! k] ! j)" if j: "j < 3" for j
  proof -
    have "b \<noteq> a \<and> b < ARRAY_SZ" if "b \<in> set (as ! j)" for b
      using that j len s1(4) set_concat_nth[of j as b] stacks_inv_set[OF as(1), of b] set_concat_nth[of j ?as1 b]
      by auto
    then have "map (\<lambda>b. data (stacks_array s2 ! b)) (as ! j) = map Some (xs ! j)"
      unfolding as(4)[rule_format, OF j, symmetric] using new by (auto simp: map_eq_conv)
    then show ?thesis using j k new[OF s1(3)] len as(3) by (auto simp: nth_list_update)
  qed
  ultimately have "stacks_rep s2 (xs[k := v # xs ! k])"
    using s2(2) as(3) by (auto simp: stacks_rep_def)
  with s1 s2 len show ?thesis by (auto simp: push_def)
qed

lemma push_full: "stacks_rep s xs \<Longrightarrow> \<not> length (concat xs) < ARRAY_SZ \<Longrightarrow> push s k v = None"
proof -
  assume rep: "stacks_rep s xs" and full: "\<not> length (concat xs) < ARRAY_SZ"
  then obtain as where as: "stacks_inv s as" "length (concat as) = ARRAY_SZ" "length xs = 3"
    "\<forall>k<3. map (\<lambda>a. data (stacks_array s ! a)) (as ! k) = map Some (xs ! k)"
    by (auto simp: stacks_rep_def)
  have "length (as ! 3) = 0" using stacks_rep_size[OF as(1,4,3)] full as(2) by linarith
  then have "as ! 3 = []" by simp
  with as(1) show "push s k v = None" by (simp add: push_def pop_internal_Nil)
qed

lemma pop_rep:
  assumes rep: "stacks_rep s xs" and k: "k < 3" and v: "xs ! k = v # vs"
  shows "\<exists>s'. pop s k = Some (v, s') \<and> stacks_rep s' (xs[k := vs])"
proof -
  obtain as where as: "stacks_inv s as" "length (concat as) = ARRAY_SZ" "length xs = 3"
    "\<forall>k<3. map (\<lambda>a. data (stacks_array s ! a)) (as ! k) = map Some (xs ! k)"
    using rep by (auto simp: stacks_rep_def)
  have len: "length (stacks_array s) = ARRAY_SZ" "length as = 4" using as(1) by (auto simp: stacks_inv_def)
  obtain a r where a: "as ! k = a # r" "data (stacks_array s ! a) = Some v"
    "map (\<lambda>a. data (stacks_array s ! a)) r = map Some vs"
    using as(4)[rule_format, OF k] v by (cases "as ! k") auto
  let ?as1 = "as[k := r]"
  let ?as2 = "?as1[3 := a # ?as1 ! 3]"
  obtain s1 where s1: "pop_internal s k = Some (a, s1)" "stacks_inv s1 ?as1" "a < ARRAY_SZ"
    "a \<notin> set (concat ?as1)" "stacks_array s1 = stacks_array s"
    using pop_internal_inv[OF as(1) _ a(1)] k by auto
  obtain s2 where s2: "push_internal s1 3 a = Some s2" "stacks_inv s2 ?as2"
    "map data (stacks_array s2) = map data (stacks_array s1)"
    using push_internal_inv[OF s1(2), of 3 a] s1 by auto
  have same: "data (stacks_array s2 ! b) = data (stacks_array s ! b)" if "b < ARRAY_SZ" for b
    using data_nth[OF s2(3), of b] that len s1(5) by simp
  have "length (concat ?as2) = ARRAY_SZ"
    using length_concat_Cons[of 3 ?as1 a] length_concat_tl[of k as a r] a(1) as(2) k len by simp
  moreover have "map (\<lambda>b. data (stacks_array s2 ! b)) (?as2 ! j) = map Some (xs[k := vs] ! j)" if j: "j < 3" for j
  proof -
    have "b < ARRAY_SZ" if "b \<in> set (as ! j)" for b
      using that j len set_concat_nth[of j as b] stacks_inv_set[OF as(1), of b] by auto
    then have "map (\<lambda>b. data (stacks_array s2 ! b)) (as ! j) = map Some (xs ! j)"
      unfolding as(4)[rule_format, OF j, symmetric] using same by (auto simp: map_eq_conv)
    then show ?thesis using j k len as(3) a v by (auto simp: nth_list_update)
  qed
  ultimately have "stacks_rep s2 (xs[k := vs])"
    using s2(2) as(3) by (auto simp: stacks_rep_def)
  moreover have "length (stacks_array s2) = ARRAY_SZ" using s2(2) by (simp add: stacks_inv_def)
  ultimately show ?thesis using s1 s2 same[OF s1(3)] a(2) by (auto simp: pop_def)
qed

lemma pop_empty: "stacks_rep s xs \<Longrightarrow> k < 3 \<Longrightarrow> xs ! k = [] \<Longrightarrow> pop s k = None"
proof -
  assume "stacks_rep s xs" and k: "k < 3" and "xs ! k = []"
  then obtain as where "stacks_inv s as" "as ! k = []"
    by (auto simp: stacks_rep_def)
  with k show "pop s k = None" by (simp add: pop_def pop_internal_Nil)
qed

subsection \<open>The program\<close>

datatype stack_op = Push nat int | Pop nat

fun stack_op_line :: "stack_op \<Rightarrow> string" where
  "stack_op_line (Push k v) = ''I '' @ show_nat k @ '' '' @ show_int v @ ''\<newline>''"
| "stack_op_line (Pop k) = ''P '' @ show_nat k @ ''\<newline>''"

fun stack_op_ok :: "stack_op \<Rightarrow> bool" where
  "stack_op_ok (Push k v) \<longleftrightarrow> k < 3 \<and> in_int v"
| "stack_op_ok (Pop k) \<longleftrightarrow> k < 3"

text \<open>
  What the program is to print: three lists, and an assertion that fails when all the 1024 nodes are
  used or the stack is empty.
\<close>

fun stacks_spec :: "int list list \<Rightarrow> stack_op list \<Rightarrow> string c" where
  "stacks_spec xs [] = Some ''> ''"
| "stacks_spec xs (Push k v # ops) =
     (if length (concat xs) < ARRAY_SZ
      then map_option (\<lambda>out. ''> Pushed '' @ show_int v @ '' into stack '' @ show_nat k @ ''\<newline>'' @ out)
             (stacks_spec (xs[k := v # xs ! k]) ops)
      else None)"
| "stacks_spec xs (Pop k # ops) =
     (case xs ! k of
        [] \<Rightarrow> None
      | v # vs \<Rightarrow> map_option (\<lambda>out. ''> Popped from '' @ show_nat k @ '': '' @ show_int v @ ''\<newline>'' @ out)
                    (stacks_spec (xs[k := vs]) ops))"

lemma cstr_stack_op_line [simp]: "cstr (stack_op_line op) = stack_op_line op"
  by (rule cstr_line, cases op) (auto dest: show_nat_plain show_int_plain)

lemma sscanf_push_line:
  "k < 3 \<Longrightarrow> in_int v \<Longrightarrow> sscanf (stack_op_line (Push k v)) '' I %zu %d''
     = Some \<lparr>sr_args = [IntA (int k), IntA v], sr_eof = False, sr_rest = ''\<newline>''\<rparr>"
  unfolding sscanf_def cstr_stack_op_line by (simp add: scan_line_simps)

lemma sscanf_pop_line:
  assumes "k < 3"
  shows "sscanf (stack_op_line (Pop k)) '' I %zu %d'' = Some \<lparr>sr_args = [], sr_eof = False, sr_rest = stack_op_line (Pop k)\<rparr>"
    and "sscanf (stack_op_line (Pop k)) '' P %zu'' = Some \<lparr>sr_args = [IntA (int k)], sr_eof = False, sr_rest = ''\<newline>''\<rparr>"
  using assms unfolding sscanf_def cstr_stack_op_line by (simp_all add: scan_line_simps)

lemma printf_pushed:
  "printf ''Pushed %d into stack %zu\<newline>'' [IntA v, IntA (int k)]
     = ''Pushed '' @ show_int v @ '' into stack '' @ show_nat k @ ''\<newline>''"
  by (simp add: show_conv_def)

lemma printf_popped:
  "printf ''Popped from %zu: %d\<newline>'' [IntA (int k), IntA v]
     = ''Popped from '' @ show_nat k @ '': '' @ show_int v @ ''\<newline>''"
  by (simp add: show_conv_def)

text \<open>One line does what the specification says.\<close>

lemma fgets_op_line:
  assumes "stack_op_ok op"
  shows "fgets 256 (stack_op_line op @ rest) = Some (stack_op_line op, rest)"
proof -
  obtain l where l: "stack_op_line op = l @ ''\<newline>''" "CHR 0x0A \<notin> set l" "length l \<le> 100"
  proof (cases op)
    case (Push k v)
    with assms length_show_nat[of k 1] length_show_int[of v] show ?thesis
      by (intro that[of "''I '' @ show_nat k @ '' '' @ show_int v"]) (auto dest: show_nat_plain show_int_plain)
  next
    case (Pop k)
    with assms length_show_nat[of k 1] show ?thesis
      by (intro that[of "''P '' @ show_nat k"]) (auto dest: show_nat_plain)
  qed
  then show ?thesis using fgets_line[of l 256 rest] by simp
qed

lemma stacks_loop_spec:
  "stacks_rep s xs \<Longrightarrow> list_all stack_op_ok ops \<Longrightarrow>
   stacks_loop s (concat (map stack_op_line ops)) = map_option (\<lambda>out. (out, [])) (stacks_spec xs ops)"
proof (induction xs ops arbitrary: s rule: stacks_spec.induct)
  case (1 xs)
  then show ?case by (simp add: stacks_loop.simps[of s "[]"] fgets_def)
next
  case (2 xs k v ops)
  then have ok: "k < 3" "in_int v" "stack_op_ok (Push k v)" by auto
  show ?case
  proof (cases "length (concat xs) < ARRAY_SZ")
    case True
    obtain s' where s': "push s k v = Some s'" "stacks_rep s' (xs[k := v # xs ! k])"
      using push_rep[OF "2.prems"(1) ok(1) True] by blast
    have "stacks_command s (stack_op_line (Push k v))
      = Some (s', False, ''Pushed '' @ show_int v @ '' into stack '' @ show_nat k @ ''\<newline>'', [])"
      by (simp add: stacks_command_def sscanf_push_line[OF ok(1,2)] s' printf_pushed del: stack_op_line.simps printf.simps)
    with "2.IH"[OF True s'(2)] "2.prems"(2) True show ?thesis
      by (subst stacks_loop.simps, cases "stacks_spec (xs[k := v # xs ! k]) ops")
         (simp_all add: fgets_op_line[OF ok(3)] del: stack_op_line.simps)
  next
    case False
    then have "stacks_command s (stack_op_line (Push k v)) = None"
      by (simp add: stacks_command_def sscanf_push_line[OF ok(1,2)] push_full[OF "2.prems"(1) False] del: stack_op_line.simps)
    with False show ?thesis
      by (subst stacks_loop.simps) (simp add: fgets_op_line[OF ok(3)] del: stack_op_line.simps)
  qed
next
  case (3 xs k ops)
  then have ok: "k < 3" "stack_op_ok (Pop k)" by auto
  note scans = sscanf_pop_line[OF ok(1)]
  show ?case
  proof (cases "xs ! k")
    case Nil
    then have "stacks_command s (stack_op_line (Pop k)) = None"
      by (simp add: stacks_command_def scans pop_empty[OF "3.prems"(1) ok(1)] del: stack_op_line.simps)
    with Nil show ?thesis
      by (subst stacks_loop.simps) (simp add: fgets_op_line[OF ok(2)] del: stack_op_line.simps)
  next
    case (Cons v vs)
    obtain s' where s': "pop s k = Some (v, s')" "stacks_rep s' (xs[k := vs])"
      using pop_rep[OF "3.prems"(1) ok(1) Cons] by blast
    have "stacks_command s (stack_op_line (Pop k))
      = Some (s', False, ''Popped from '' @ show_nat k @ '': '' @ show_int v @ ''\<newline>'', [])"
      by (simp add: stacks_command_def scans s' printf_popped del: stack_op_line.simps printf.simps)
    with "3.IH"[OF Cons s'(2)] "3.prems"(2) Cons show ?thesis
      by (subst stacks_loop.simps, cases "stacks_spec (xs[k := vs]) ops")
         (simp_all add: fgets_op_line[OF ok(2)] del: stack_op_line.simps)
  qed
qed

text \<open>
  Property C28. Whatever the memory that \<open>malloc\<close> returned holds, the program behaves on every
  sequence of pushes and pops as three unbounded lists that share a capacity of 1024 elements: it prints
  what was pushed and popped, last in first out in each stack, without undefined behaviour, and its
  assertions fail exactly when the array is full or the stack is empty.
\<close>

theorem three_stacks_refine:
  assumes "length (stacks_array mem) = ARRAY_SZ" and "length (top mem) = 4"
    and "list_all stack_op_ok ops"
  shows "stacks_main (Some mem) (concat (map stack_op_line ops))
    = map_option (\<lambda>out. (0, stacks_banner @ out, [])) (stacks_spec [[], [], []] ops)"
proof -
  obtain s where s: "create_stacks (Some mem) = Some (Some s)" "stacks_rep s [[], [], []]"
    using create_stacks_rep[OF assms(1,2)] by blast
  with stacks_loop_spec[OF s(2) assms(3)] show ?thesis
    by (cases "stacks_spec [[], [], []] ops") (simp_all add: stacks_main_def)
qed

theorem three_stacks_refine_witness:
  "stacks_main (Some \<lparr>stacks_array = replicate ARRAY_SZ \<lparr>data = None, below = None\<rparr>, top = replicate 4 (Some 5)\<rparr>)
      (concat (map stack_op_line [Push 0 7, Push 2 8, Push 0 9, Pop 0, Pop 2]))
    = Some (0, stacks_banner @ ''> Pushed 7 into stack 0\<newline>> Pushed 8 into stack 2\<newline>> Pushed 9 into stack 0\<newline>> Popped from 0: 9\<newline>> Popped from 2: 8\<newline>> '', [])"
  using three_stacks_refine[of "\<lparr>stacks_array = replicate ARRAY_SZ \<lparr>data = None, below = None\<rparr>, top = replicate 4 (Some 5)\<rparr>"
      "[Push 0 7, Push 2 8, Push 0 9, Pop 0, Pop 2]"]
  by (simp add: in_int_def INT_MIN_def INT_MAX_def ARRAY_SZ_def show_eval del: stack_op_line.simps)

end
