(* ===== verification/Int_Stack.thy ===== *)
theory Int_Stack
  imports C_Stdio
begin

text \<open>
  The contract of a bounded stack of integers that asserts its preconditions: a push fails exactly when
  the stack is full, a pop exactly when it is empty, and values come out last in first out. Three
  programs implement it by an array and a counter; what they hold is described by \<open>stack_holds\<close>.
\<close>

definition stack_holds :: "int list \<Rightarrow> nat \<Rightarrow> nat \<Rightarrow> int list \<Rightarrow> bool" where
  "stack_holds arr n cap xs \<longleftrightarrow> length arr = cap \<and> n = length xs \<and> n \<le> cap \<and> take n arr = rev xs"

lemma stack_holds_empty [simp]: "stack_holds arr 0 cap xs \<longleftrightarrow> length arr = cap \<and> xs = []"
  by (auto simp: stack_holds_def)

lemma stack_holds_push:
  "stack_holds arr n cap xs \<Longrightarrow> n < cap \<Longrightarrow> n < length arr \<and> stack_holds (arr[n := v]) (Suc n) cap (v # xs)"
  by (auto simp: stack_holds_def take_Suc_conv_app_nth)

lemma stack_holds_pop:
  assumes "stack_holds arr n cap (x # xs)"
  shows "0 < n" and "n - 1 < length arr" and "arr ! (n - 1) = x" and "stack_holds arr (n - 1) cap xs"
proof -
  from assms have n: "n = Suc (length xs)" "n \<le> length arr" "length arr = cap" "take n arr = rev xs @ [x]"
    by (auto simp: stack_holds_def)
  then have "take (length xs) arr @ [arr ! length xs] = rev xs @ [x]"
    by (simp add: take_Suc_conv_app_nth)
  with n show "0 < n" "n - 1 < length arr" "arr ! (n - 1) = x" "stack_holds arr (n - 1) cap xs"
    by (auto simp: stack_holds_def)
qed

lemma stack_holds_Nil [simp]: "stack_holds arr n cap [] \<longleftrightarrow> n = 0 \<and> length arr = cap"
  by (auto simp: stack_holds_def)

subsection \<open>The commands of the drivers\<close>

text \<open>The string \<open>sscanf\<close> stores in a buffer of \<open>n\<close> characters.\<close>

definition scan_word :: "nat \<Rightarrow> string \<Rightarrow> string c" where
  "scan_word n line =
     do { r \<leftarrow> sscanf line '' %s'';
          _ \<leftarrow> c_assert (scan_ret r = 1);
          _ \<leftarrow> c_assert (length (arg_str (sr_args r ! 0)) < n);
          Some (arg_str (sr_args r ! 0)) }"

definition push_line :: "int \<Rightarrow> string" where
  "push_line v = ''PUSH '' @ show_int v @ ''\<newline>''"

lemma fgets_push_line: "in_int v \<Longrightarrow> fgets 256 (push_line v @ rest) = Some (push_line v, rest)"
  using fgets_line[of "''PUSH '' @ show_int v" 256 rest] length_show_int[of v]
  by (auto simp: push_line_def dest: show_int_plain)

lemma sscanf_push_cmd:
  assumes "in_int v"
  shows "sscanf (push_line v) '' PUSH %d'' = Some \<lparr>sr_args = [IntA v], sr_eof = False, sr_rest = ''\<newline>''\<rparr>"
proof -
  have "cstr (push_line v) = push_line v"
    by (rule cstr_line) (auto simp: push_line_def dest: show_int_plain)
  with assms show ?thesis by (simp add: sscanf_def) (simp add: push_line_def scan_line_simps)
qed

subsection \<open>The contract\<close>

locale int_stack =
  fixes holds :: "'s \<Rightarrow> int list \<Rightarrow> bool"
    and cap :: nat
    and push :: "'s \<Rightarrow> int \<Rightarrow> 's c"
    and pop :: "'s \<Rightarrow> (int \<times> 's) c"
  assumes holds_bound: "holds s xs \<Longrightarrow> length xs \<le> cap"
    and push_ok: "holds s xs \<Longrightarrow> length xs < cap \<Longrightarrow> \<exists>s'. push s v = Some s' \<and> holds s' (v # xs)"
    and push_full: "holds s xs \<Longrightarrow> length xs = cap \<Longrightarrow> push s v = None"
    and pop_ok: "holds s (x # xs) \<Longrightarrow> \<exists>s'. pop s = Some (x, s') \<and> holds s' xs"
    and pop_empty: "holds s [] \<Longrightarrow> pop s = None"
begin

lemma push_pop:
  assumes "holds s xs" and "push s v = Some s'"
  shows "\<exists>s''. pop s' = Some (v, s'') \<and> holds s'' xs"
proof -
  have "length xs < cap"
    using assms push_full holds_bound by (metis le_neq_implies_less option.discI)
  with assms push_ok pop_ok show ?thesis by (metis option.inject)
qed

lemma push_Some_iff: "holds s xs \<Longrightarrow> (\<exists>s'. push s v = Some s') \<longleftrightarrow> length xs < cap"
  using push_ok push_full holds_bound by (metis le_neq_implies_less option.discI)

lemma pop_Some_iff: "holds s xs \<Longrightarrow> (\<exists>r. pop s = Some r) \<longleftrightarrow> xs \<noteq> []"
  using pop_ok pop_empty by (cases xs) fastforce+

end

end
