(* ===== verification/Min_Stack.thy ===== *)
theory Min_Stack
  imports Int_Stack
begin

text \<open>
  \<open>stacks_queues/stack_with_min/solution.c\<close>: a stack with a constant-time minimum, kept in a second
  stack. The memory \<open>malloc\<close> returns is arbitrary. In the driver, a word that does not fit
  \<open>op\<close> overflows it, and on a blank line \<open>op\<close> is read uninitialised: both are \<open>None\<close>.
\<close>

definition MAX_STACK_SZ :: nat where "MAX_STACK_SZ = 1024"

record stack_with_min =
  stack :: "int list"
  top :: nat
  mins :: "int list"
  mins_top :: nat

definition new_stack :: "stack_with_min option \<Rightarrow> stack_with_min option" where
  "new_stack mem = map_option (\<lambda>res. res\<lparr>top := 0, mins_top := 0\<rparr>) mem"

definition push :: "stack_with_min \<Rightarrow> int \<Rightarrow> stack_with_min c" where
  "push s element =
     do { _ \<leftarrow> c_assert (top s < MAX_STACK_SZ);
          st \<leftarrow> wr (stack s) (top s) element;
          let s = s\<lparr>stack := st, top := top s + 1\<rparr>;
          add \<leftarrow> (if mins_top s = 0 then Some True
                  else do { m \<leftarrow> rd (mins s) (mins_top s - 1); Some (element \<le> m) });
          if add
          then do { ms \<leftarrow> wr (mins s) (mins_top s) element;
                    Some (s\<lparr>mins := ms, mins_top := mins_top s + 1\<rparr>) }
          else Some s }"

definition pop :: "stack_with_min \<Rightarrow> (int \<times> stack_with_min) c" where
  "pop s =
     do { _ \<leftarrow> c_assert (top s > 0);
          let s = s\<lparr>top := top s - 1\<rparr>;
          ret \<leftarrow> rd (stack s) (top s);
          _ \<leftarrow> c_assert (mins_top s > 0);
          drop_min \<leftarrow> (if top s = 0 then Some True
                       else do { m \<leftarrow> rd (mins s) (mins_top s - 1); Some (ret = m) });
          Some (ret, if drop_min then s\<lparr>mins_top := mins_top s - 1\<rparr> else s) }"

definition min_of :: "stack_with_min \<Rightarrow> int c" where
  "min_of s = do { _ \<leftarrow> c_assert (mins_top s > 0); rd (mins s) (mins_top s - 1) }"

subsection \<open>The driver\<close>

definition min_command :: "stack_with_min \<Rightarrow> string \<Rightarrow> (stack_with_min \<times> bool \<times> string) c" where
  "min_command s line =
     do { r \<leftarrow> sscanf line '' PUSH %d'';
          if scan_ret r = 1
          then do { let value = arg_int (sr_args r ! 0);
                    s' \<leftarrow> push s value;
                    Some (s', False, printf ''Pushed %d.\<newline>'' [IntA value]) }
          else do { op \<leftarrow> scan_word 4 line;
                    if op = ''POP''
                    then do { (v, s') \<leftarrow> pop s; Some (s', False, printf ''Popped: %d\<newline>'' [IntA v]) }
                    else if op = ''MIN''
                    then do { m \<leftarrow> min_of s; Some (s, False, printf ''Min: %d\<newline>'' [IntA m]) }
                    else Some (s, True, []) } }"

function min_loop :: "stack_with_min \<Rightarrow> string \<Rightarrow> string c" where
  "min_loop s input =
     (case fgets 256 input of
        None \<Rightarrow> Some (printf ''> '' [])
      | Some (line, rest) \<Rightarrow>
          do { (s', finish, out) \<leftarrow> min_command s line;
               out' \<leftarrow> (if finish then Some [] else min_loop s' rest);
               Some (printf ''> '' [] @ out @ out') })"
  by pat_completeness auto
termination by (relation "measure (\<lambda>(s, input). length input)") (auto dest: fgets_less)

declare min_loop.simps [simp del]

definition min_banner :: string where
  "min_banner = printf (''Available commands:\<newline>''
     @ ''PUSH v - Pushes the value v.\<newline>''
     @ ''POP - Pops from the stack.\<newline>''
     @ ''MIN - Returns the minimum value currently in the stack.\<newline>''
     @ ''Q - quit\<newline>'') []"

definition min_main :: "stack_with_min option \<Rightarrow> string \<Rightarrow> (int \<times> string \<times> string) c" where
  "min_main mem input =
     (case new_stack mem of
        None \<Rightarrow> Some (1, min_banner, ''Couldn't create stack - out of memory.\<newline>'')
      | Some s \<Rightarrow> do { out \<leftarrow> min_loop s input; Some (0, min_banner @ out, []) })"

subsection \<open>The two stacks\<close>

text \<open>The second stack holds the values that were minimal when they were pushed.\<close>

fun mins_of :: "int list \<Rightarrow> int list" where
  "mins_of [] = []"
| "mins_of (x # xs) = (if mins_of xs = [] \<or> x \<le> hd (mins_of xs) then x # mins_of xs else mins_of xs)"

definition min_holds :: "stack_with_min \<Rightarrow> int list \<Rightarrow> bool" where
  "min_holds s xs \<longleftrightarrow> stack_holds (stack s) (top s) MAX_STACK_SZ xs
     \<and> stack_holds (mins s) (mins_top s) MAX_STACK_SZ (mins_of xs)"

lemma mins_of_Nil [simp]: "mins_of xs = [] \<longleftrightarrow> xs = []"
  by (induction xs) auto

lemma length_mins_of: "length (mins_of xs) \<le> length xs"
  by (induction xs) auto

lemma hd_mins_of: "xs \<noteq> [] \<Longrightarrow> hd (mins_of xs) = Min (set xs)"
proof (induction xs)
  case (Cons x xs)
  then show ?case by (cases "xs = []") (auto simp: min_def)
qed simp

lemma mins_top_nth:
  assumes "min_holds s xs" and "xs \<noteq> []"
  shows "0 < mins_top s" and "mins_top s - 1 < length (mins s)" and "mins s ! (mins_top s - 1) = Min (set xs)"
proof -
  obtain m ms where "mins_of xs = m # ms" using assms(2) by (cases "mins_of xs") auto
  with assms hd_mins_of[of xs] stack_holds_pop[of "mins s" "mins_top s" MAX_STACK_SZ m ms]
  show "0 < mins_top s" "mins_top s - 1 < length (mins s)" "mins s ! (mins_top s - 1) = Min (set xs)"
    by (auto simp: min_holds_def)
qed

lemma min_push:
  assumes "min_holds s xs" and "length xs < MAX_STACK_SZ"
  shows "\<exists>s'. push s v = Some s' \<and> min_holds s' (v # xs)"
proof -
  have h: "stack_holds (stack s) (top s) MAX_STACK_SZ xs" "stack_holds (mins s) (mins_top s) MAX_STACK_SZ (mins_of xs)"
    using assms(1) by (auto simp: min_holds_def)
  have t: "top s = length xs" "mins_top s = length (mins_of xs)"
    using h by (auto simp: stack_holds_def)
  have lt: "mins_top s < MAX_STACK_SZ" using t length_mins_of[of xs] assms(2) by linarith
  have lt': "top s < MAX_STACK_SZ" using t assms(2) by simp
  note ps = stack_holds_push[OF h(1) lt', of v] stack_holds_push[OF h(2) lt, of v]
  show ?thesis
  proof (cases "xs = []")
    case True
    with ps h lt' show ?thesis by (auto simp: push_def Let_def min_holds_def)
  next
    case False
    with ps h lt' mins_top_nth[OF assms(1) False] hd_mins_of[OF False] show ?thesis
      by (auto simp: push_def Let_def min_holds_def)
  qed
qed

lemma min_pop:
  assumes "min_holds s (x # xs)"
  shows "\<exists>s'. pop s = Some (x, s') \<and> min_holds s' xs"
proof -
  have h: "stack_holds (stack s) (top s) MAX_STACK_SZ (x # xs)"
    "stack_holds (mins s) (mins_top s) MAX_STACK_SZ (mins_of (x # xs))"
    using assms by (auto simp: min_holds_def)
  note st = stack_holds_pop[OF h(1)] and mt = mins_top_nth[OF assms]
  have t: "top s - 1 = 0 \<longleftrightarrow> xs = []" using h(1) by (auto simp: stack_holds_def)
  have m: "stack_holds (mins s) (if xs = [] \<or> x = Min (set (x # xs)) then mins_top s - 1 else mins_top s) MAX_STACK_SZ (mins_of xs)"
    using h(2) stack_holds_pop(4)[of "mins s" "mins_top s" MAX_STACK_SZ x "mins_of xs"] hd_mins_of[of xs]
    by (cases "xs = []") (auto simp: min_def split: if_splits)
  show ?thesis
  proof (cases "xs = []")
    case True
    with st mt m t show ?thesis by (auto simp: pop_def Let_def min_holds_def)
  next
    case False
    with st mt m t show ?thesis by (auto simp: pop_def Let_def min_holds_def split: if_splits)
  qed
qed

interpretation wm: int_stack min_holds MAX_STACK_SZ push pop
proof unfold_locales
  show "length xs \<le> MAX_STACK_SZ" if "min_holds s xs" for s xs
    using that by (auto simp: min_holds_def stack_holds_def)
  show "push s v = None" if "min_holds s xs" "length xs = MAX_STACK_SZ" for s xs v
    using that by (auto simp: push_def min_holds_def stack_holds_def)
  show "pop s = None" if "min_holds s []" for s
    using that by (auto simp: pop_def min_holds_def)
qed (simp_all add: min_push min_pop)

lemma min_of_ok: "min_holds s xs \<Longrightarrow> min_of s = (if xs = [] then None else Some (Min (set xs)))"
  using mins_top_nth[of s xs] by (auto simp: min_of_def min_holds_def)

subsection \<open>The program\<close>

datatype min_op = Push int | Pop | Minimum

fun min_op_line :: "min_op \<Rightarrow> string" where
  "min_op_line (Push v) = push_line v"
| "min_op_line Pop = ''POP\<newline>''"
| "min_op_line Minimum = ''MIN\<newline>''"

fun min_op_ok :: "min_op \<Rightarrow> bool" where
  "min_op_ok (Push v) \<longleftrightarrow> in_int v"
| "min_op_ok op \<longleftrightarrow> True"

fun min_spec :: "int list \<Rightarrow> min_op list \<Rightarrow> string c" where
  "min_spec xs [] = Some ''> ''"
| "min_spec xs (Push v # ops) =
     (if length xs < MAX_STACK_SZ
      then map_option (\<lambda>out. ''> Pushed '' @ show_int v @ ''.\<newline>'' @ out) (min_spec (v # xs) ops) else None)"
| "min_spec xs (Pop # ops) =
     (case xs of [] \<Rightarrow> None
      | v # vs \<Rightarrow> map_option (\<lambda>out. ''> Popped: '' @ show_int v @ ''\<newline>'' @ out) (min_spec vs ops))"
| "min_spec xs (Minimum # ops) =
     (if xs = [] then None
      else map_option (\<lambda>out. ''> Min: '' @ show_int (Min (set xs)) @ ''\<newline>'' @ out) (min_spec xs ops))"

lemma fgets_min_line: "min_op_ok op \<Longrightarrow> fgets 256 (min_op_line op @ rest) = Some (min_op_line op, rest)"
  using fgets_push_line fgets_line[of "''POP''" 256 rest] fgets_line[of "''MIN''" 256 rest] by (cases op) auto

lemma min_command_push:
  assumes "min_holds s xs" and "in_int v"
  shows "length xs < MAX_STACK_SZ \<Longrightarrow>
      \<exists>s'. min_command s (min_op_line (Push v)) = Some (s', False, ''Pushed '' @ show_int v @ ''.\<newline>'') \<and> min_holds s' (v # xs)"
    and "\<not> length xs < MAX_STACK_SZ \<Longrightarrow> min_command s (min_op_line (Push v)) = None"
  using wm.push_ok[OF assms(1), of v] wm.push_Some_iff[OF assms(1), of v] sscanf_push_cmd[OF assms(2)]
  by (auto simp: min_command_def show_conv_def)

lemma min_command_pop:
  assumes "min_holds s xs"
  shows "xs = v # vs \<Longrightarrow>
      \<exists>s'. min_command s (min_op_line Pop) = Some (s', False, ''Popped: '' @ show_int v @ ''\<newline>'') \<and> min_holds s' vs"
    and "xs = [] \<Longrightarrow> min_command s (min_op_line Pop) = None"
  using wm.pop_ok[of s v vs] wm.pop_empty[of s] assms
  by (auto simp: min_command_def show_conv_def scan_word_def sscanf_def cstr_def scan_line_simps)

lemma min_command_min:
  assumes "min_holds s xs"
  shows "min_command s (min_op_line Minimum)
    = (if xs = [] then None else Some (s, False, ''Min: '' @ show_int (Min (set xs)) @ ''\<newline>''))"
  using min_of_ok[OF assms]
  by (auto simp: min_command_def show_conv_def scan_word_def sscanf_def cstr_def scan_line_simps)

lemma min_loop_step:
  assumes "min_command s (min_op_line op) = Some (s', False, out)" and "min_op_ok op"
  shows "min_loop s (min_op_line op @ rest) = map_option (\<lambda>o'. ''> '' @ out @ o') (min_loop s' rest)"
  using assms by (subst min_loop.simps, cases "min_loop s' rest") (simp_all add: fgets_min_line)

lemma min_loop_stop:
  assumes "min_command s (min_op_line op) = None" and "min_op_ok op"
  shows "min_loop s (min_op_line op @ rest) = None"
  using assms by (subst min_loop.simps) (simp add: fgets_min_line)

lemma min_loop_spec:
  "min_holds s xs \<Longrightarrow> list_all min_op_ok ops \<Longrightarrow> min_loop s (concat (map min_op_line ops)) = min_spec xs ops"
proof (induction xs ops arbitrary: s rule: min_spec.induct)
  case (1 xs)
  then show ?case by (simp add: min_loop.simps[of s "[]"] fgets_def)
next
  case (2 xs v ops)
  then have v: "in_int v" by simp
  note c = min_command_push[OF "2.prems"(1) v]
  show ?case
  proof (cases "length xs < MAX_STACK_SZ")
    case True
    obtain s' where s': "min_command s (min_op_line (Push v)) = Some (s', False, ''Pushed '' @ show_int v @ ''.\<newline>'')"
      "min_holds s' (v # xs)" using c(1)[OF True] by blast
    from "2.IH"[OF True s'(2)] "2.prems"(2) True v show ?thesis
      by (simp add: min_loop_step[OF s'(1)] del: min_op_line.simps)
  qed (use c(2) v in \<open>simp add: min_loop_stop del: min_op_line.simps\<close>)
next
  case (3 xs ops)
  note c = min_command_pop[OF "3.prems"(1)]
  show ?case
  proof (cases xs)
    case Nil
    with c(2) show ?thesis by (simp add: min_loop_stop del: min_op_line.simps)
  next
    case (Cons v vs)
    obtain s' where s': "min_command s (min_op_line Pop) = Some (s', False, ''Popped: '' @ show_int v @ ''\<newline>'')"
      "min_holds s' vs" using c(1)[OF Cons] by blast
    from "3.IH"[OF Cons s'(2)] "3.prems"(2) Cons show ?thesis
      by (simp add: min_loop_step[OF s'(1)] del: min_op_line.simps)
  qed
next
  case (4 xs ops)
  note c = min_command_min[OF "4.prems"(1)]
  show ?case
  proof (cases "xs = []")
    case True
    with c show ?thesis by (simp add: min_loop_stop del: min_op_line.simps)
  next
    case False
    from c False have c': "min_command s (min_op_line Minimum) = Some (s, False, ''Min: '' @ show_int (Min (set xs)) @ ''\<newline>'')"
      by simp
    from "4.IH"[OF False "4.prems"(1)] "4.prems"(2) False show ?thesis
      by (simp add: min_loop_step[OF c'] del: min_op_line.simps)
  qed
qed

text \<open>
  Property C29. Whatever the memory that \<open>malloc\<close> returned holds, on every sequence of commands the
  program with its two arrays behaves as one list: it pops what was pushed last, its minimum is the least
  element on the stack at that moment, no array is accessed out of bounds, and an assertion fails exactly
  on a push to 1024 elements or a pop or minimum of the empty stack.
\<close>

theorem min_stack_refine:
  assumes "length (stack mem) = MAX_STACK_SZ" and "length (mins mem) = MAX_STACK_SZ"
    and "list_all min_op_ok ops"
  shows "min_main (Some mem) (concat (map min_op_line ops))
    = map_option (\<lambda>out. (0, min_banner @ out, [])) (min_spec [] ops)"
proof -
  have "min_holds (mem\<lparr>top := 0, mins_top := 0\<rparr>) []"
    using assms by (simp add: min_holds_def)
  from min_loop_spec[OF this assms(3)] show ?thesis
    by (cases "min_spec [] ops") (simp_all add: min_main_def new_stack_def)
qed

theorem min_stack_refine_witness:
  "min_main (Some \<lparr>stack = replicate MAX_STACK_SZ 3, top = 9, mins = replicate MAX_STACK_SZ 4, mins_top = 1\<rparr>)
      (concat (map min_op_line [Push 5, Push 7, Push 2, Minimum, Pop, Minimum, Pop]))
    = Some (0, min_banner @ ''> Pushed 5.\<newline>> Pushed 7.\<newline>> Pushed 2.\<newline>> Min: 2\<newline>> Popped: 2\<newline>> Min: 5\<newline>> Popped: 7\<newline>> '', [])"
  using min_stack_refine[of "\<lparr>stack = replicate MAX_STACK_SZ 3, top = 9, mins = replicate MAX_STACK_SZ 4, mins_top = 1\<rparr>"
      "[Push 5, Push 7, Push 2, Minimum, Pop, Minimum, Pop]"]
  by (simp add: in_int_def INT_MIN_def INT_MAX_def MAX_STACK_SZ_def show_eval del: min_op_line.simps)

end
