(* ===== verification/Sort_Stack.thy ===== *)
theory Sort_Stack
  imports Int_Stack
begin

text \<open>
  \<open>stacks_queues/sort_stack/solution.c\<close>: sorting a stack with the help of one other stack. Each
  \<open>while\<close> loop of \<open>sort_stack\<close> is one function; its termination proof is about the number
  of elements on the stacks. The counter \<open>popped\<close> is never more than 256 and does not overflow.
\<close>

definition STACK_SZ :: nat where "STACK_SZ = 256"

record stack =
  "values" :: "int list"
  top :: nat

definition init_stack :: "stack \<Rightarrow> stack" where
  "init_stack s = s\<lparr>top := 0\<rparr>"

definition push :: "stack \<Rightarrow> int \<Rightarrow> stack c" where
  "push s val =
     do { _ \<leftarrow> c_assert (top s < STACK_SZ);
          vs \<leftarrow> wr (values s) (top s) val;
          Some (s\<lparr>values := vs, top := top s + 1\<rparr>) }"

definition pop :: "stack \<Rightarrow> (int \<times> stack) c" where
  "pop s =
     do { _ \<leftarrow> c_assert (top s > 0);
          v \<leftarrow> rd (values s) (top s - 1);
          Some (v, s\<lparr>top := top s - 1\<rparr>) }"

definition peek :: "stack \<Rightarrow> int c" where
  "peek s = do { _ \<leftarrow> c_assert (top s > 0); rd (values s) (top s - 1) }"

definition is_empty :: "stack \<Rightarrow> bool" where
  "is_empty s \<longleftrightarrow> top s = 0"

fun print_from :: "stack \<Rightarrow> nat \<Rightarrow> string c" where
  "print_from s 0 = Some []"
| "print_from s (Suc i) =
     do { v \<leftarrow> rd (values s) i; out \<leftarrow> print_from s i; Some (printf ''%d\<newline>'' [IntA v] @ out) }"

definition print_stack :: "stack \<Rightarrow> string c" where
  "print_stack s =
     do { out \<leftarrow> print_from s (top s);
          Some (printf ''%zu elements are in the stack:\<newline>'' [IntA (int (top s))] @ out) }"

subsection \<open>Sorting\<close>

lemma pop_top: "pop s = Some (v, s') \<Longrightarrow> 0 < top s \<and> top s' = top s - 1"
  by (auto simp: pop_def c_Some_iff)

lemma push_top: "push s v = Some s' \<Longrightarrow> top s' = top s + 1"
  by (auto simp: push_def c_Some_iff)

text \<open>The first loop: everything goes to \<open>aux\<close>.\<close>

function move_all :: "stack \<Rightarrow> stack \<Rightarrow> (stack \<times> stack) c" where
  "move_all st aux =
     (if is_empty st then Some (st, aux)
      else do { (v, st') \<leftarrow> pop st; aux' \<leftarrow> push aux v; move_all st' aux' })"
  by pat_completeness auto
termination by (relation "measure (\<lambda>(st, aux). top st)") (auto dest: pop_top)

text \<open>The first inner loop: the greater elements go to \<open>aux\<close> and are counted.\<close>

function unload :: "int \<Rightarrow> stack \<Rightarrow> stack \<Rightarrow> nat \<Rightarrow> (stack \<times> stack \<times> nat) c" where
  "unload to_insert st aux popped =
     do { more \<leftarrow> (if is_empty st then Some False else do { v \<leftarrow> peek st; Some (v > to_insert) });
          if more
          then do { (v, st') \<leftarrow> pop st; aux' \<leftarrow> push aux v; unload to_insert st' aux' (popped + 1) }
          else Some (st, aux, popped) }"
  by pat_completeness auto
termination by (relation "measure (\<lambda>(t, st, aux, n). top st)") (auto dest: pop_top)

text \<open>The second inner loop: as many come back.\<close>

fun reload :: "stack \<Rightarrow> stack \<Rightarrow> nat \<Rightarrow> (stack \<times> stack) c" where
  "reload st aux 0 = Some (st, aux)"
| "reload st aux (Suc popped) = do { (v, aux') \<leftarrow> pop aux; st' \<leftarrow> push st v; reload st' aux' popped }"

declare move_all.simps [simp del] unload.simps [simp del]

definition insert_one :: "stack \<Rightarrow> stack \<Rightarrow> (stack \<times> stack) c" where
  "insert_one st aux =
     do { (to_insert, aux1) \<leftarrow> pop aux;
          (st1, aux2, popped) \<leftarrow> unload to_insert st aux1 0;
          st2 \<leftarrow> push st1 to_insert;
          reload st2 aux2 popped }"

lemma unload_top: "unload t st aux n = Some (st', aux', n') \<Longrightarrow> top aux' + n = top aux + n'"
proof (induction t st aux n rule: unload.induct)
  case (1 t st aux n)
  from "1.prems" consider "(st, aux, n) = (st', aux', n')"
    | v st1 aux1 where "\<not> is_empty st" "pop st = Some (v, st1)" "push aux v = Some aux1" "unload t st1 aux1 (n + 1) = Some (st', aux', n')"
      "(if is_empty st then Some False else do { v \<leftarrow> peek st; Some (v > t) }) = Some True"
    by (subst (asm) unload.simps) (auto simp: bind_eq_Some_conv split: if_splits)
  then show ?case
  proof cases
    case 2
    from "1.IH"[OF 2(5) _ 2(2) refl 2(3) 2(4)] push_top[OF 2(3)] show ?thesis by simp
  qed auto
qed

lemma reload_top: "reload st aux n = Some (st', aux') \<Longrightarrow> top aux' + n = top aux"
  by (induction n arbitrary: st aux) (fastforce simp: bind_eq_Some_conv dest: pop_top)+

lemma insert_one_top: "insert_one st aux = Some (st', aux') \<Longrightarrow> 0 < top aux \<and> top aux' = top aux - 1"
  by (auto simp: insert_one_def bind_eq_Some_conv dest!: pop_top unload_top reload_top)

function insert_all :: "stack \<Rightarrow> stack \<Rightarrow> (stack \<times> stack) c" where
  "insert_all st aux =
     (if is_empty aux then Some (st, aux)
      else do { (st', aux') \<leftarrow> insert_one st aux; insert_all st' aux' })"
  by pat_completeness auto
termination by (relation "measure (\<lambda>(st, aux). top aux)") (auto dest: insert_one_top)

declare insert_all.simps [simp del]

definition sort_stack :: "stack \<Rightarrow> stack \<Rightarrow> (stack \<times> stack) c" where
  "sort_stack st aux = do { (st', aux') \<leftarrow> move_all st aux; insert_all st' aux' }"

subsection \<open>The driver\<close>

definition sort_command :: "stack \<Rightarrow> stack \<Rightarrow> string \<Rightarrow> (stack \<times> stack \<times> bool \<times> string) c" where
  "sort_command main_stack aux_stack line =
     do { r \<leftarrow> sscanf line '' PUSH %d'';
          if scan_ret r = 1
          then do { let value = arg_int (sr_args r ! 0);
                    s' \<leftarrow> push main_stack value;
                    Some (s', aux_stack, False, printf ''Pushed %d.\<newline>'' [IntA value]) }
          else do { op \<leftarrow> scan_word 5 line;
                    if op = ''POP''
                    then do { (v, s') \<leftarrow> pop main_stack;
                              Some (s', aux_stack, False, printf ''Popped: %d\<newline>'' [IntA v]) }
                    else if op = ''SORT''
                    then do { (s', aux') \<leftarrow> sort_stack main_stack (init_stack aux_stack);
                              out \<leftarrow> print_stack s';
                              Some (s', aux', False, printf ''Sorted stack.\<newline>'' [] @ out) }
                    else Some (main_stack, aux_stack, True, []) } }"

function sort_cmd_loop :: "stack \<Rightarrow> stack \<Rightarrow> string \<Rightarrow> string c" where
  "sort_cmd_loop main_stack aux_stack input =
     (case fgets 256 input of
        None \<Rightarrow> Some (printf ''> '' [])
      | Some (line, rest) \<Rightarrow>
          do { (s', aux', finish, out) \<leftarrow> sort_command main_stack aux_stack line;
               out' \<leftarrow> (if finish then Some [] else sort_cmd_loop s' aux' rest);
               Some (printf ''> '' [] @ out @ out') })"
  by pat_completeness auto
termination by (relation "measure (\<lambda>(s, aux, input). length input)") (auto dest: fgets_less)

declare sort_cmd_loop.simps [simp del]

definition sort_cmds_banner :: string where
  "sort_cmds_banner = printf (''Available commands:\<newline>''
     @ ''PUSH v - Pushes the value v.\<newline>''
     @ ''POP - Pops from the stack.\<newline>''
     @ ''SORT - Sorts the stack (biggest item on top) using an auxiliary stack.\<newline>''
     @ ''Q - quit\<newline>'') []"

text \<open>The stacks are static variables, zero before \<open>main\<close> runs.\<close>

definition zero_stack :: stack where
  "zero_stack = \<lparr>values = replicate STACK_SZ 0, top = 0\<rparr>"

definition sort_stack_main :: "string \<Rightarrow> string c" where
  "sort_stack_main input =
     do { out \<leftarrow> sort_cmd_loop (init_stack zero_stack) zero_stack input; Some (sort_cmds_banner @ out) }"

subsection \<open>The stacks as lists\<close>

definition holds :: "stack \<Rightarrow> int list \<Rightarrow> bool" where
  "holds s xs \<longleftrightarrow> stack_holds (values s) (top s) STACK_SZ xs"

interpretation ss: int_stack holds STACK_SZ push pop
proof unfold_locales
  show "length xs \<le> STACK_SZ" if "holds s xs" for s xs
    using that by (auto simp: holds_def stack_holds_def)
  show "\<exists>s'. push s v = Some s' \<and> holds s' (v # xs)" if "holds s xs" "length xs < STACK_SZ" for s xs v
    using that stack_holds_push[of "values s" "top s" STACK_SZ xs v]
    by (auto simp: push_def holds_def) (auto simp: stack_holds_def)
  show "push s v = None" if "holds s xs" "length xs = STACK_SZ" for s xs v
    using that by (auto simp: push_def holds_def stack_holds_def)
  show "\<exists>s'. pop s = Some (x, s') \<and> holds s' xs" if "holds s (x # xs)" for s x xs
    using that stack_holds_pop[of "values s" "top s" STACK_SZ x xs] by (auto simp: pop_def holds_def)
  show "pop s = None" if "holds s []" for s
    using that by (auto simp: pop_def holds_def)
qed

lemma is_empty_holds: "holds s xs \<Longrightarrow> is_empty s \<longleftrightarrow> xs = []"
  by (auto simp: is_empty_def holds_def stack_holds_def)

lemma peek_holds: "holds s (x # xs) \<Longrightarrow> peek s = Some x"
  using stack_holds_pop[of "values s" "top s" STACK_SZ x xs] by (auto simp: peek_def holds_def)

lemma move_all_holds:
  "holds st xs \<Longrightarrow> holds aux ys \<Longrightarrow> length xs + length ys \<le> STACK_SZ \<Longrightarrow>
   \<exists>st' aux'. move_all st aux = Some (st', aux') \<and> holds st' [] \<and> holds aux' (rev xs @ ys)"
proof (induction xs arbitrary: st aux ys)
  case Nil
  then show ?case by (subst move_all.simps) (auto simp: is_empty_holds)
next
  case (Cons x xs)
  obtain st1 where st1: "pop st = Some (x, st1)" "holds st1 xs" using ss.pop_ok[OF Cons.prems(1)] by blast
  obtain aux1 where aux1: "push aux x = Some aux1" "holds aux1 (x # ys)"
    using ss.push_ok[OF Cons.prems(2), of x] Cons.prems(3) by auto
  from Cons.IH[OF st1(2) aux1(2)] Cons.prems st1(1) aux1(1) show ?case
    by (subst move_all.simps) (simp add: is_empty_holds)
qed

lemma unload_holds:
  "holds st xs \<Longrightarrow> holds aux ys \<Longrightarrow> length xs + length ys \<le> STACK_SZ \<Longrightarrow>
   \<exists>st' aux'. unload t st aux n = Some (st', aux', n + length (takeWhile (\<lambda>v. v > t) xs))
     \<and> holds st' (dropWhile (\<lambda>v. v > t) xs) \<and> holds aux' (rev (takeWhile (\<lambda>v. v > t) xs) @ ys)"
proof (induction xs arbitrary: st aux ys n)
  case Nil
  then show ?case by (subst unload.simps) (auto simp: is_empty_holds)
next
  case (Cons x xs)
  note e = is_empty_holds[OF Cons.prems(1)] peek_holds[OF Cons.prems(1)]
  show ?case
  proof (cases "x > t")
    case True
    obtain st1 where st1: "pop st = Some (x, st1)" "holds st1 xs" using ss.pop_ok[OF Cons.prems(1)] by blast
    obtain aux1 where aux1: "push aux x = Some aux1" "holds aux1 (x # ys)"
      using ss.push_ok[OF Cons.prems(2), of x] Cons.prems(3) by auto
    from Cons.IH[OF st1(2) aux1(2), of "n + 1"] Cons.prems(3) st1(1) aux1(1) e True show ?thesis
      by (subst unload.simps) simp
  next
    case False
    with Cons.prems e show ?thesis by (subst unload.simps) simp
  qed
qed

lemma reload_holds:
  "holds st xs \<Longrightarrow> holds aux (zs @ ys) \<Longrightarrow> length xs + length zs \<le> STACK_SZ \<Longrightarrow>
   \<exists>st' aux'. reload st aux (length zs) = Some (st', aux') \<and> holds st' (rev zs @ xs) \<and> holds aux' ys"
proof (induction zs arbitrary: st aux xs)
  case (Cons z zs)
  obtain aux1 where aux1: "pop aux = Some (z, aux1)" "holds aux1 (zs @ ys)"
    using ss.pop_ok[of aux z "zs @ ys"] Cons.prems(2) by auto
  obtain st1 where st1: "push st z = Some st1" "holds st1 (z # xs)"
    using ss.push_ok[OF Cons.prems(1), of z] Cons.prems(3) by auto
  from Cons.IH[OF st1(2) aux1(2)] Cons.prems(3) st1(1) aux1(1) show ?case by simp
qed auto

definition insert_below :: "int \<Rightarrow> int list \<Rightarrow> int list" where
  "insert_below t xs = takeWhile (\<lambda>v. v > t) xs @ t # dropWhile (\<lambda>v. v > t) xs"

lemma insert_one_holds:
  assumes "holds st xs" and "holds aux (t # ys)" and "length xs + length ys < STACK_SZ"
  shows "\<exists>st' aux'. insert_one st aux = Some (st', aux') \<and> holds st' (insert_below t xs) \<and> holds aux' ys"
proof -
  let ?tw = "takeWhile (\<lambda>v. v > t) xs" and ?dw = "dropWhile (\<lambda>v. v > t) xs"
  have len: "length ?tw + length ?dw = length xs" by (metis length_append takeWhile_dropWhile_id)
  obtain aux1 where aux1: "pop aux = Some (t, aux1)" "holds aux1 ys" using ss.pop_ok[OF assms(2)] by blast
  obtain st1 aux2 where u: "unload t st aux1 0 = Some (st1, aux2, length ?tw)" "holds st1 ?dw" "holds aux2 (rev ?tw @ ys)"
    using unload_holds[OF assms(1) aux1(2), of t 0] assms(3) by auto
  obtain st2 where st2: "push st1 t = Some st2" "holds st2 (t # ?dw)"
    using ss.push_ok[OF u(2), of t] len assms(3) by auto
  obtain st3 aux3 where "reload st2 aux2 (length ?tw) = Some (st3, aux3)" "holds st3 (?tw @ t # ?dw)" "holds aux3 ys"
    using reload_holds[OF st2(2) u(3)] len assms(3) by auto
  with aux1 u st2 show ?thesis by (auto simp: insert_one_def insert_below_def)
qed

lemma mset_insert_below [simp]: "mset (insert_below t xs) = add_mset t (mset xs)"
  by (induction xs) (auto simp: insert_below_def)

lemma sorted_insert_below: "sorted (rev xs) \<Longrightarrow> sorted (rev (insert_below t xs))"
proof (induction xs)
  case (Cons x xs)
  have "set (insert_below t xs) = insert t (set xs)"
    using mset_insert_below[of t xs] by (metis set_mset_add_mset_insert set_mset_mset)
  with Cons show ?case
    by (auto simp: insert_below_def sorted_append dest: set_takeWhileD)
qed (simp add: insert_below_def)

lemma insert_all_holds:
  "holds st xs \<Longrightarrow> holds aux ys \<Longrightarrow> length xs + length ys \<le> STACK_SZ \<Longrightarrow> sorted (rev xs) \<Longrightarrow>
   \<exists>st' aux' zs. insert_all st aux = Some (st', aux') \<and> holds st' zs \<and> holds aux' []
     \<and> sorted (rev zs) \<and> mset zs = mset xs + mset ys"
proof (induction ys arbitrary: st aux xs)
  case Nil
  then show ?case by (subst insert_all.simps) (auto simp: is_empty_holds)
next
  case (Cons y ys)
  obtain st1 aux1 where i: "insert_one st aux = Some (st1, aux1)" "holds st1 (insert_below y xs)" "holds aux1 ys"
    using insert_one_holds[OF Cons.prems(1,2)] Cons.prems(3) by auto
  have "length (insert_below y xs) = Suc (length xs)"
    using mset_insert_below[of y xs] by (metis size_add_mset size_mset)
  with Cons.IH[OF i(2,3)] Cons.prems sorted_insert_below[OF Cons.prems(4)] i(1) show ?case
    by (subst insert_all.simps) (auto simp: is_empty_holds)
qed

lemma sort_stack_holds:
  assumes "holds st xs" and "length (values aux) = STACK_SZ"
  shows "\<exists>st' aux'. sort_stack st (init_stack aux) = Some (st', aux') \<and> holds st' (rev (sort xs))
    \<and> length (values aux') = STACK_SZ"
proof -
  have "holds (init_stack aux) []" using assms(2) by (simp add: init_stack_def holds_def)
  then obtain st1 aux1 where m: "move_all st (init_stack aux) = Some (st1, aux1)" "holds st1 []" "holds aux1 (rev xs)"
    using move_all_holds[OF assms(1)] ss.holds_bound[OF assms(1)] by force
  then obtain st2 aux2 zs where z: "insert_all st1 aux1 = Some (st2, aux2)" "holds st2 zs" "holds aux2 []"
      "sorted (rev zs)" "mset zs = mset xs"
    using insert_all_holds[OF m(2,3)] ss.holds_bound[OF assms(1)] by auto
  have "rev zs = sort xs" using z by (intro sort_unique) auto
  then have "zs = rev (sort xs)" by (metis rev_rev_ident)
  with m z show ?thesis by (auto simp: sort_stack_def holds_def)
qed

lemma print_stack_holds:
  assumes "holds s xs"
  shows "print_stack s = Some (show_nat (length xs) @ '' elements are in the stack:\<newline>'' @ concat (map (\<lambda>v. show_int v @ ''\<newline>'') xs))"
proof -
  have "print_from s i = Some (concat (map (\<lambda>v. show_int v @ ''\<newline>'') (rev (take i (values s)))))" if "i \<le> length (values s)" for i
    using that by (induction i) (simp_all add: take_Suc_conv_app_nth show_conv_def)
  moreover have "top s = length xs" "top s \<le> length (values s)" "take (length xs) (values s) = rev xs"
    using assms by (auto simp: holds_def stack_holds_def)
  ultimately show ?thesis by (simp add: print_stack_def show_conv_def)
qed

subsection \<open>The program\<close>

datatype sort_op = Push int | Pop | Sort

fun sort_op_line :: "sort_op \<Rightarrow> string" where
  "sort_op_line (Push v) = push_line v"
| "sort_op_line Pop = ''POP\<newline>''"
| "sort_op_line Sort = ''SORT\<newline>''"

fun sort_op_ok :: "sort_op \<Rightarrow> bool" where
  "sort_op_ok (Push v) \<longleftrightarrow> in_int v"
| "sort_op_ok op \<longleftrightarrow> True"

fun sort_spec :: "int list \<Rightarrow> sort_op list \<Rightarrow> string c" where
  "sort_spec xs [] = Some ''> ''"
| "sort_spec xs (Push v # ops) =
     (if length xs < STACK_SZ
      then map_option (\<lambda>out. ''> Pushed '' @ show_int v @ ''.\<newline>'' @ out) (sort_spec (v # xs) ops) else None)"
| "sort_spec xs (Pop # ops) =
     (case xs of [] \<Rightarrow> None
      | v # vs \<Rightarrow> map_option (\<lambda>out. ''> Popped: '' @ show_int v @ ''\<newline>'' @ out) (sort_spec vs ops))"
| "sort_spec xs (Sort # ops) =
     map_option (\<lambda>out. ''> Sorted stack.\<newline>'' @ show_nat (length xs) @ '' elements are in the stack:\<newline>''
         @ concat (map (\<lambda>v. show_int v @ ''\<newline>'') (rev (sort xs))) @ out) (sort_spec (rev (sort xs)) ops)"

lemma fgets_sort_line: "sort_op_ok op \<Longrightarrow> fgets 256 (sort_op_line op @ rest) = Some (sort_op_line op, rest)"
  using fgets_push_line fgets_line[of "''POP''" 256 rest] fgets_line[of "''SORT''" 256 rest] by (cases op) auto

text \<open>What one command does, as a relation between the lists before and after.\<close>

definition sort_step :: "stack \<Rightarrow> stack \<Rightarrow> sort_op \<Rightarrow> string \<Rightarrow> int list \<Rightarrow> bool" where
  "sort_step s aux op out xs' \<longleftrightarrow> (\<exists>s' aux'. sort_command s aux (sort_op_line op) = Some (s', aux', False, out)
     \<and> holds s' xs' \<and> length (values aux') = STACK_SZ)"

lemma sort_step_push:
  assumes "holds s xs" and "in_int v" and "length (values aux) = STACK_SZ"
  shows "length xs < STACK_SZ \<Longrightarrow> sort_step s aux (Push v) (''Pushed '' @ show_int v @ ''.\<newline>'') (v # xs)"
    and "\<not> length xs < STACK_SZ \<Longrightarrow> sort_command s aux (sort_op_line (Push v)) = None"
  using ss.push_ok[OF assms(1), of v] ss.push_Some_iff[OF assms(1), of v] sscanf_push_cmd[OF assms(2)] assms(3)
  by (auto simp: sort_command_def sort_step_def show_conv_def)

lemma sort_step_pop:
  assumes "holds s xs" and "length (values aux) = STACK_SZ"
  shows "xs = v # vs \<Longrightarrow> sort_step s aux Pop (''Popped: '' @ show_int v @ ''\<newline>'') vs"
    and "xs = [] \<Longrightarrow> sort_command s aux (sort_op_line Pop) = None"
  using ss.pop_ok[of s v vs] ss.pop_empty[of s] assms
  by (auto simp: sort_command_def sort_step_def show_conv_def scan_word_def sscanf_def cstr_def scan_line_simps)

lemma sort_step_sort:
  assumes "holds s xs" and "length (values aux) = STACK_SZ"
  shows "sort_step s aux Sort (''Sorted stack.\<newline>'' @ show_nat (length xs) @ '' elements are in the stack:\<newline>''
    @ concat (map (\<lambda>v. show_int v @ ''\<newline>'') (rev (sort xs)))) (rev (sort xs))"
proof -
  obtain s' aux' where s': "sort_stack s (init_stack aux) = Some (s', aux')" "holds s' (rev (sort xs))"
      "length (values aux') = STACK_SZ" using sort_stack_holds[OF assms] by blast
  from s'(1,3) print_stack_holds[OF s'(2)] s'(2) show ?thesis
    by (auto simp: sort_command_def sort_step_def scan_word_def sscanf_def cstr_def scan_line_simps)
qed

lemma sort_cmd_step:
  assumes "sort_step s aux op out xs'" and "sort_op_ok op"
    and IH: "\<And>s' aux'. holds s' xs' \<Longrightarrow> length (values aux') = STACK_SZ \<Longrightarrow> sort_cmd_loop s' aux' rest = r"
  shows "sort_cmd_loop s aux (sort_op_line op @ rest) = map_option (\<lambda>o'. ''> '' @ out @ o') r"
proof -
  obtain s' aux' where "sort_command s aux (sort_op_line op) = Some (s', aux', False, out)" "holds s' xs'"
    "length (values aux') = STACK_SZ" using assms(1) by (auto simp: sort_step_def)
  with IH assms(2) show ?thesis
    by (subst sort_cmd_loop.simps, cases r) (simp_all add: fgets_sort_line)
qed

lemma sort_cmd_stop:
  assumes "sort_command s aux (sort_op_line op) = None" and "sort_op_ok op"
  shows "sort_cmd_loop s aux (sort_op_line op @ rest) = None"
  using assms by (subst sort_cmd_loop.simps) (simp add: fgets_sort_line)

lemma sort_cmd_spec:
  "holds s xs \<Longrightarrow> length (values aux) = STACK_SZ \<Longrightarrow> list_all sort_op_ok ops \<Longrightarrow>
   sort_cmd_loop s aux (concat (map sort_op_line ops)) = sort_spec xs ops"
proof (induction xs ops arbitrary: s aux rule: sort_spec.induct)
  case (1 xs)
  then show ?case by (simp add: sort_cmd_loop.simps[of s aux "[]"] fgets_def)
next
  case (2 xs v ops)
  then have v: "in_int v" "list_all sort_op_ok ops" by auto
  note c = sort_step_push[OF "2.prems"(1) v(1) "2.prems"(2)]
  show ?case
  proof (cases "length xs < STACK_SZ")
    case True
    from sort_cmd_step[OF c(1)[OF True] _ "2.IH"[OF True _ _ v(2)]] True v show ?thesis
      by (simp del: sort_op_line.simps)
  qed (use c(2) v in \<open>simp add: sort_cmd_stop del: sort_op_line.simps\<close>)
next
  case (3 xs ops)
  then have ok: "list_all sort_op_ok ops" by simp
  note c = sort_step_pop[OF "3.prems"(1,2)]
  show ?case
  proof (cases xs)
    case Nil
    with c(2) show ?thesis by (simp add: sort_cmd_stop del: sort_op_line.simps)
  next
    case (Cons v vs)
    from sort_cmd_step[OF c(1)[OF Cons] _ "3.IH"[OF Cons _ _ ok]] Cons show ?thesis
      by (simp del: sort_op_line.simps)
  qed
next
  case (4 xs ops)
  then have ok: "list_all sort_op_ok ops" by simp
  from sort_cmd_step[OF sort_step_sort[OF "4.prems"(1,2)] _ "4.IH"[OF _ _ ok]] show ?case
    by (simp del: sort_op_line.simps)
qed

text \<open>
  Property C30. On every sequence of commands the program behaves as one list whose \<open>SORT\<close>
  sorts it with the greatest element on top and prints it: \<open>sort_stack\<close> terminates, never
  overflows the auxiliary stack and leaves a sorted permutation, whatever earlier sorts left in the
  auxiliary stack. An assertion fails exactly on a push to 256 elements or a pop of the empty stack.
\<close>

theorem sort_stack_refine:
  assumes "list_all sort_op_ok ops"
  shows "sort_stack_main (concat (map sort_op_line ops)) = map_option (\<lambda>out. sort_cmds_banner @ out) (sort_spec [] ops)"
proof -
  have "holds (init_stack zero_stack) []" "length (values zero_stack) = STACK_SZ"
    by (simp_all add: holds_def init_stack_def zero_stack_def)
  from sort_cmd_spec[OF this assms] show ?thesis
    by (cases "sort_spec [] ops") (simp_all add: sort_stack_main_def)
qed

theorem sort_stack_refine_witness:
  "sort_stack_main (concat (map sort_op_line [Push 2, Push 7, Push 5, Sort, Pop]))
    = Some (sort_cmds_banner @ ''> Pushed 2.\<newline>> Pushed 7.\<newline>> Pushed 5.\<newline>> Sorted stack.\<newline>3 elements are in the stack:\<newline>7\<newline>5\<newline>2\<newline>> Popped: 7\<newline>> '')"
  using sort_stack_refine[of "[Push 2, Push 7, Push 5, Sort, Pop]"]
  by (simp add: in_int_def INT_MIN_def INT_MAX_def STACK_SZ_def show_eval del: sort_op_line.simps)

end
