(* ===== verification/Rpn.thy ===== *)
theory Rpn
  imports Int_Stack
begin

text \<open>
  \<open>stacks_queues/rpn_calculator/solution.c\<close>: evaluation of postfix expressions with a static stack,
  which lives on from one line to the next. Arithmetic on \<open>int\<close> that overflows has no defined
  behaviour. The text not yet read is passed along in place of \<open>&expr[offset]\<close>.
\<close>

definition STACK_SZ :: nat where "STACK_SZ = 1024"

record rpn_stack =
  stack :: "int list"
  stack_pointer :: nat

definition rpn_stack0 :: rpn_stack where
  "rpn_stack0 = \<lparr>stack = replicate STACK_SZ 0, stack_pointer = 0\<rparr>"

definition push :: "rpn_stack \<Rightarrow> int \<Rightarrow> rpn_stack c" where
  "push s n =
     do { _ \<leftarrow> c_assert (stack_pointer s < STACK_SZ);
          st \<leftarrow> wr (stack s) (stack_pointer s) n;
          Some (s\<lparr>stack := st, stack_pointer := stack_pointer s + 1\<rparr>) }"

definition pop :: "rpn_stack \<Rightarrow> (int \<times> rpn_stack) c" where
  "pop s =
     do { _ \<leftarrow> c_assert (stack_pointer s > 0);
          v \<leftarrow> rd (stack s) (stack_pointer s - 1);
          Some (v, s\<lparr>stack_pointer := stack_pointer s - 1\<rparr>) }"

text \<open>The \<open>switch\<close> on the operator.\<close>

definition apply_op :: "char \<Rightarrow> int \<Rightarrow> int \<Rightarrow> int c" where
  "apply_op op left right =
     (if op = CHR ''+'' then c_int (left + right)
      else if op = CHR ''-'' then c_int (left - right)
      else if op = CHR ''*'' then c_int (left * right)
      else if op = CHR ''/'' then do { _ \<leftarrow> c_assert (right \<noteq> 0); c_int (cdiv left right) }
      else None)"

function eval_loop :: "rpn_stack \<Rightarrow> string \<Rightarrow> rpn_stack c" where
  "eval_loop s expr =
     do { r \<leftarrow> sscanf expr '' %d%n'';
          if scan_ret r = 1
          then do { s' \<leftarrow> push s (arg_int (sr_args r ! 0)); eval_loop s' (sr_rest r) }
          else do { r2 \<leftarrow> sscanf expr '' %c%n'';
                    if scan_ret r2 = 1
                    then do { (right, s1) \<leftarrow> pop s;
                              (left, s2) \<leftarrow> pop s1;
                              v \<leftarrow> apply_op (arg_chr (sr_args r2 ! 0)) left right;
                              s3 \<leftarrow> push s2 v;
                              eval_loop s3 (sr_rest r2) }
                    else Some s } }"
  by pat_completeness auto
termination by (relation "measure (\<lambda>(s, expr). length expr)") (auto dest: sscanf_ret_less)

declare eval_loop.simps [simp del]

definition eval_expr :: "rpn_stack \<Rightarrow> string \<Rightarrow> (int \<times> rpn_stack) c" where
  "eval_expr s expr = do { s' \<leftarrow> eval_loop s expr; pop s' }"

function rpn_loop :: "rpn_stack \<Rightarrow> string \<Rightarrow> string c" where
  "rpn_loop s input =
     (case fgets STACK_SZ input of
        None \<Rightarrow> Some []
      | Some (line, rest) \<Rightarrow>
          do { r \<leftarrow> sscanf line '' %n'';
               (out, s') \<leftarrow> (if sr_rest r \<noteq> []
                 then do { (v, s') \<leftarrow> eval_expr s line; Some (printf ''%d\<newline>'' [IntA v], s') }
                 else Some ([], s));
               out' \<leftarrow> rpn_loop s' rest;
               Some (out @ printf ''> '' [] @ out') })"
  by pat_completeness auto
termination by (relation "measure (\<lambda>(s, input). length input)") (auto dest: fgets_less simp: STACK_SZ_def)

declare rpn_loop.simps [simp del]

definition rpn_main :: "string \<Rightarrow> string c" where
  "rpn_main input =
     do { out \<leftarrow> rpn_loop rpn_stack0 input;
          Some (printf ''Enter an RPN expression.\<newline>'' [] @ printf ''> '' [] @ out) }"

subsection \<open>The stack\<close>

definition holds :: "rpn_stack \<Rightarrow> int list \<Rightarrow> bool" where
  "holds s xs \<longleftrightarrow> stack_holds (stack s) (stack_pointer s) STACK_SZ xs"

interpretation rs: int_stack holds STACK_SZ push pop
proof unfold_locales
  show "length xs \<le> STACK_SZ" if "holds s xs" for s xs
    using that by (auto simp: holds_def stack_holds_def)
  show "\<exists>s'. push s v = Some s' \<and> holds s' (v # xs)" if "holds s xs" "length xs < STACK_SZ" for s xs v
    using that stack_holds_push[of "stack s" "stack_pointer s" STACK_SZ xs v]
    by (auto simp: push_def holds_def) (auto simp: stack_holds_def)
  show "push s v = None" if "holds s xs" "length xs = STACK_SZ" for s xs v
    using that by (auto simp: push_def holds_def stack_holds_def)
  show "\<exists>s'. pop s = Some (x, s') \<and> holds s' xs" if "holds s (x # xs)" for s x xs
    using that stack_holds_pop[of "stack s" "stack_pointer s" STACK_SZ x xs] by (auto simp: pop_def holds_def)
  show "pop s = None" if "holds s []" for s
    using that by (auto simp: pop_def holds_def)
qed

end
