(* ===== verification/Rpn_Recursive.thy ===== *)
theory Rpn_Recursive
  imports Rpn C_Heap
begin

text \<open>
  \<open>stacks_queues/rpn_calculator/solution_recursive.c\<close>: evaluation of postfix expressions on a circular
  list of tokens. The sentinel \<open>head\<close>, a local variable of \<open>main\<close>, is the cell at address 0;
  a field that was never written is \<open>None\<close>. Reading the member of the union that was not written
  last has no defined value and is \<open>None\<close> too.
\<close>

definition MAX_EXPR_SZ :: nat where "MAX_EXPR_SZ = 1024"

datatype token_type = OPERATOR | VALUE

datatype token = Op char | Val int

record list_node =
  "type" :: "token_type option"
  token :: "token option"
  link :: ptr

definition raw_node :: list_node where
  "raw_node = \<lparr>type = None, token = None, link = None\<rparr>"

definition token_op :: "list_node \<Rightarrow> char c" where
  "token_op n = (case token n of Some (Op x) \<Rightarrow> Some x | _ \<Rightarrow> None)"

definition token_val :: "list_node \<Rightarrow> int c" where
  "token_val n = (case token n of Some (Val v) \<Rightarrow> Some v | _ \<Rightarrow> None)"

definition calc :: "char \<Rightarrow> int \<Rightarrow> int \<Rightarrow> int c" where
  "calc op l r =
     (if op = CHR ''+'' then c_int (l + r)
      else if op = CHR ''-'' then c_int (l - r)
      else if op = CHR ''*'' then c_int (l * r)
      else if op = CHR ''/'' then if r = 0 then None else c_int (cdiv l r)
      else None)"

partial_function (option) eval_expr_aux :: "list_node heap \<Rightarrow> ptr \<Rightarrow> ptr \<Rightarrow> list_node heap option" where
  "eval_expr_aux h head cur =
     do { c \<leftarrow> deref h cur;
          stop \<leftarrow> (if link c = head then Some True
                   else do { n \<leftarrow> deref h (link c); t \<leftarrow> type n; Some (t = OPERATOR) });
          if stop then Some h
          else do { h1 \<leftarrow> eval_expr_aux h head (link c);
                    c1 \<leftarrow> deref h1 cur;
                    n1 \<leftarrow> deref h1 (link c1);
                    m1 \<leftarrow> deref h1 (link n1);
                    op \<leftarrow> token_op m1;
                    l \<leftarrow> token_val c1;
                    r \<leftarrow> token_val n1;
                    res \<leftarrow> calc op l r;
                    h2 \<leftarrow> store h1 cur (\<lambda>c. c\<lparr>token := Some (Val res)\<rparr>);
                    c2 \<leftarrow> deref h2 cur;
                    let old_next = link c2;
                    n2 \<leftarrow> deref h2 old_next;
                    m2 \<leftarrow> deref h2 (link n2);
                    h3 \<leftarrow> store h2 cur (\<lambda>c. c\<lparr>link := link m2\<rparr>);
                    n3 \<leftarrow> deref h3 old_next;
                    h4 \<leftarrow> free h3 (link n3);
                    h5 \<leftarrow> free h4 old_next;
                    eval_expr_aux h5 head cur } }"

definition eval_expr :: "list_node heap \<Rightarrow> ptr \<Rightarrow> (int \<times> list_node heap) c" where
  "eval_expr h head =
     do { hd0 \<leftarrow> deref h head;
          h1 \<leftarrow> eval_expr_aux h head (link hd0);
          hd1 \<leftarrow> deref h1 head;
          first \<leftarrow> deref h1 (link hd1);
          val \<leftarrow> token_val first;
          h2 \<leftarrow> free h1 (link hd1);
          h3 \<leftarrow> store h2 head (\<lambda>n. n\<lparr>link := head\<rparr>);
          Some (val, h3) }"

text \<open>The loop of \<open>read_expr\<close>.\<close>

definition append_node :: "list_node heap \<Rightarrow> ptr \<Rightarrow> ptr \<Rightarrow> ptr \<Rightarrow> token_type \<Rightarrow> token \<Rightarrow> list_node heap c" where
  "append_node h head prev p ty tk =
     do { h1 \<leftarrow> store h p (\<lambda>n. n\<lparr>type := Some ty\<rparr>);
          h2 \<leftarrow> store h1 p (\<lambda>n. n\<lparr>token := Some tk\<rparr>);
          h3 \<leftarrow> store h2 prev (\<lambda>n. n\<lparr>link := p\<rparr>);
          store h3 p (\<lambda>n. n\<lparr>link := head\<rparr>) }"

function read_loop :: "list_node heap \<Rightarrow> ptr \<Rightarrow> ptr \<Rightarrow> string \<Rightarrow> list_node heap c" where
  "read_loop h head prev line =
     (case malloc h raw_node of
        (None, h0) \<Rightarrow> None
      | (Some p, h0) \<Rightarrow>
          do { r \<leftarrow> sscanf line '' %d%n'';
               if scan_ret r = 1
               then do { h1 \<leftarrow> append_node h0 head prev (Some p) VALUE (Val (arg_int (sr_args r ! 0)));
                         read_loop h1 head (Some p) (sr_rest r) }
               else do { r2 \<leftarrow> sscanf line '' %c%n'';
                         if scan_ret r2 = 1
                         then do { let op = arg_chr (sr_args r2 ! 0);
                                   _ \<leftarrow> c_assert (op = CHR ''+'' \<or> op = CHR ''-'' \<or> op = CHR ''*'' \<or> op = CHR ''/'');
                                   h1 \<leftarrow> append_node h0 head prev (Some p) OPERATOR (Op op);
                                   read_loop h1 head (Some p) (sr_rest r2) }
                         else free h0 (Some p) } })"
  by pat_completeness auto
termination by (relation "measure (\<lambda>(h, head, prev, line). length line)") (auto dest: sscanf_ret_less)

declare read_loop.simps [simp del]

text \<open>\<open>None\<close> inside the result: end of input.\<close>

definition read_expr :: "list_node heap \<Rightarrow> ptr \<Rightarrow> string \<Rightarrow> (list_node heap \<times> string) option c" where
  "read_expr h head input =
     (case fgets MAX_EXPR_SZ input of
        None \<Rightarrow> Some None
      | Some (line, rest) \<Rightarrow>
          do { h1 \<leftarrow> store h head (\<lambda>n. n\<lparr>link := head\<rparr>);
               h2 \<leftarrow> read_loop h1 head head line;
               Some (Some (h2, rest)) })"

function rec_loop :: "list_node heap \<Rightarrow> ptr \<Rightarrow> string \<Rightarrow> string c" where
  "rec_loop h head input =
     (case read_expr h head input of
        None \<Rightarrow> None
      | Some None \<Rightarrow> Some []
      | Some (Some (h1, rest)) \<Rightarrow>
          do { hd0 \<leftarrow> deref h1 head;
               (out, h2) \<leftarrow> (if link hd0 \<noteq> head
                 then do { (v, h2) \<leftarrow> eval_expr h1 head; Some (printf ''%d\<newline>'' [IntA v], h2) }
                 else Some ([], h1));
               out' \<leftarrow> rec_loop h2 head rest;
               Some (out @ printf ''> '' [] @ out') })"
  by pat_completeness auto
termination
  by (relation "measure (\<lambda>(h, head, input). length input)")
     (auto simp: read_expr_def MAX_EXPR_SZ_def bind_eq_Some_conv split: option.splits dest: fgets_less)

declare rec_loop.simps [simp del]

definition rpn_heap :: "(nat \<Rightarrow> bool) \<Rightarrow> list_node heap" where
  "rpn_heap f = \<lparr>cells = [0 \<mapsto> raw_node], fresh = 1, oom = f\<rparr>"

definition rpn_rec_main :: "(nat \<Rightarrow> bool) \<Rightarrow> string \<Rightarrow> string c" where
  "rpn_rec_main f input =
     do { out \<leftarrow> rec_loop (rpn_heap f) (Some 0) input;
          Some (printf ''Enter an RPN expression.\<newline>'' [] @ printf ''> '' [] @ out) }"

end
