(* ===== verification/Rpn_Equiv.thy ===== *)
theory Rpn_Equiv
  imports Rpn_Recursive
begin

text \<open>
  The two calculators against one specification, the value of an expression tree, and so against each
  other. The recursive program works along the left spine of the tree: the leftmost leaf, then pairs of
  a right operand and its operator.
\<close>

datatype expr = Num int | Bin char expr expr

fun eval :: "expr \<Rightarrow> int c" where
  "eval (Num v) = Some v"
| "eval (Bin op l r) = do { a \<leftarrow> eval l; b \<leftarrow> eval r; calc op a b }"

fun tokens :: "expr \<Rightarrow> token list" where
  "tokens (Num v) = [Val v]"
| "tokens (Bin op l r) = tokens l @ tokens r @ [Op op]"

fun expr_ok :: "expr \<Rightarrow> bool" where
  "expr_ok (Num v) \<longleftrightarrow> in_int v"
| "expr_ok (Bin op l r) \<longleftrightarrow> op \<in> set ''+-*/'' \<and> expr_ok l \<and> expr_ok r"

fun show_token :: "token \<Rightarrow> string" where
  "show_token (Op op) = [op]"
| "show_token (Val v) = show_int v"

fun token_ok :: "token \<Rightarrow> bool" where
  "token_ok (Op op) \<longleftrightarrow> op \<in> set ''+-*/''"
| "token_ok (Val v) \<longleftrightarrow> in_int v"

definition show_tokens :: "token list \<Rightarrow> string" where
  "show_tokens ts = concat (map (\<lambda>t. CHR '' '' # show_token t) ts)"

definition expr_line :: "expr \<Rightarrow> string" where
  "expr_line e = show_tokens (tokens e) @ ''\<newline>''"

text \<open>What the calculators are to print for a sequence of expressions.\<close>

fun rpn_spec :: "expr list \<Rightarrow> string c" where
  "rpn_spec [] = Some []"
| "rpn_spec (e # es) = do { v \<leftarrow> eval e; out \<leftarrow> rpn_spec es; Some (show_int v @ ''\<newline>> '' @ out) }"

lemma tokens_ok: "expr_ok e \<Longrightarrow> list_all token_ok (tokens e)"
  by (induction e) auto

lemma apply_op_calc: "apply_op op l r = calc op l r"
  by (simp add: apply_op_def calc_def)

subsection \<open>Reading tokens\<close>

lemma show_token_plain: "token_ok t \<Longrightarrow> x \<in> set (show_token t) \<Longrightarrow> x \<noteq> CHR 0x00 \<and> x \<noteq> CHR 0x0A"
  by (cases t) (auto dest: show_int_plain)

lemma show_tokens_simps [simp]:
  "show_tokens [] = []" "show_tokens (t # ts) = CHR '' '' # show_token t @ show_tokens ts"
  "show_tokens (ts @ us) = show_tokens ts @ show_tokens us"
  by (simp_all add: show_tokens_def)

lemma show_tokens_plain: "list_all token_ok ts \<Longrightarrow> x \<in> set (show_tokens ts) \<Longrightarrow> x \<noteq> CHR 0x00 \<and> x \<noteq> CHR 0x0A"
  by (induction ts) (auto dest: show_token_plain)

lemma cstr_tokens: "list_all token_ok ts \<Longrightarrow> cstr (show_tokens ts @ ''\<newline>'') = show_tokens ts @ ''\<newline>''"
  by (rule cstr_line) (auto dest: show_tokens_plain)

lemma no_digit_tokens [simp]: "no_digit (show_tokens ts @ ''\<newline>'')"
  by (cases ts) simp_all

lemma scan_num_op:
  assumes "op \<in> set ''+-*/''" and "no_digit rest"
  shows "fst (scan_num (op # rest)) = None"
proof -
  have "\<not> isspace op" "\<not> isdigit op" using assms(1) by (auto simp: isspace_def isdigit_def)
  moreover have "takeWhile isdigit rest = []" using assms(2) by (cases rest) auto
  ultimately show ?thesis by (simp add: scan_num_def skip_ws_Cons Let_def)
qed

lemma scan_val:
  assumes "list_all token_ok (Val v # ts)"
  shows "sscanf (show_tokens (Val v # ts) @ ''\<newline>'') '' %d%n''
    = Some \<lparr>sr_args = [IntA v], sr_eof = False, sr_rest = show_tokens ts @ ''\<newline>''\<rparr>"
proof -
  have "in_int v" using assms by simp
  then show ?thesis unfolding sscanf_def cstr_tokens[OF assms] by (simp add: scan_line_simps)
qed

lemma scan_op:
  assumes "list_all token_ok (Op op # ts)"
  shows "\<exists>r. sscanf (show_tokens (Op op # ts) @ ''\<newline>'') '' %d%n'' = Some r \<and> scan_ret r \<noteq> 1"
    and "sscanf (show_tokens (Op op # ts) @ ''\<newline>'') '' %c%n''
      = Some \<lparr>sr_args = [ChrA op], sr_eof = False, sr_rest = show_tokens ts @ ''\<newline>''\<rparr>"
proof -
  have op: "op \<in> set ''+-*/''" using assms by simp
  then have "\<not> isspace op" by (auto simp: isspace_def)
  then show "sscanf (show_tokens (Op op # ts) @ ''\<newline>'') '' %c%n''
      = Some \<lparr>sr_args = [ChrA op], sr_eof = False, sr_rest = show_tokens ts @ ''\<newline>''\<rparr>"
    unfolding sscanf_def cstr_tokens[OF assms] by (simp add: scanf_eval skip_ws_Cons)
  obtain rest where "scan_num (op # show_tokens ts @ ''\<newline>'') = (None, rest)"
    using scan_num_op[OF op no_digit_tokens[of ts]] by (metis prod.collapse)
  with \<open>\<not> isspace op\<close> show "\<exists>r. sscanf (show_tokens (Op op # ts) @ ''\<newline>'') '' %d%n'' = Some r \<and> scan_ret r \<noteq> 1"
    unfolding sscanf_def cstr_tokens[OF assms] by (simp add: scanf_eval skip_ws_Cons scan_ret_def)
qed

lemma scan_end:
  "sscanf ''\<newline>'' '' %d%n'' = Some \<lparr>sr_args = [], sr_eof = True, sr_rest = []\<rparr>"
  "sscanf ''\<newline>'' '' %c%n'' = Some \<lparr>sr_args = [], sr_eof = True, sr_rest = []\<rparr>"
  by (simp_all add: sscanf_def cstr_def scanf_eval skip_ws_Cons skip_ws_all scan_num_all)

text \<open>The lines fit the buffers of both programs.\<close>

definition line_ok :: "expr \<Rightarrow> bool" where
  "line_ok e \<longleftrightarrow> expr_ok e \<and> length (expr_line e) < STACK_SZ"

lemma fgets_expr_line: "line_ok e \<Longrightarrow> fgets STACK_SZ (expr_line e @ rest) = Some (expr_line e, rest)"
  using fgets_line[of "show_tokens (tokens e)" STACK_SZ rest] tokens_ok[of e] show_tokens_plain[of "tokens e" "CHR 0x0A"]
  by (auto simp: line_ok_def expr_line_def)

lemma length_tokens_line: "2 * length ts \<le> length (show_tokens ts)"
proof (induction ts)
  case (Cons t ts)
  have "show_token t \<noteq> []" by (cases t) (auto simp: show_int_def)
  then have "1 \<le> length (show_token t)" by (cases "show_token t") auto
  with Cons show ?case by simp
qed simp

subsection \<open>The calculator with a stack\<close>

text \<open>One expression pushes its value, or fails as its evaluation does.\<close>

lemma eval_loop_op:
  assumes "list_all token_ok (Op op # ts)" and "holds s (b # a # xs)"
  shows "case calc op a b of
      None \<Rightarrow> eval_loop s (show_tokens (Op op # ts) @ ''\<newline>'') = None
    | Some v \<Rightarrow> \<exists>s'. holds s' (v # xs)
        \<and> eval_loop s (show_tokens (Op op # ts) @ ''\<newline>'') = eval_loop s' (show_tokens ts @ ''\<newline>'')"
proof -
  obtain s1 where s1: "pop s = Some (b, s1)" "holds s1 (a # xs)" using rs.pop_ok[OF assms(2)] by blast
  obtain s2 where s2: "pop s1 = Some (a, s2)" "holds s2 xs" using rs.pop_ok[OF s1(2)] by blast
  obtain r where r: "sscanf (show_tokens (Op op # ts) @ ''\<newline>'') '' %d%n'' = Some r" "scan_ret r \<noteq> 1"
    using scan_op(1)[OF assms(1)] by blast
  have step: "eval_loop s (show_tokens (Op op # ts) @ ''\<newline>'')
    = do { v \<leftarrow> calc op a b; s3 \<leftarrow> push s2 v; eval_loop s3 (show_tokens ts @ ''\<newline>'') }"
    using r s1(1) s2(1) scan_op(2)[OF assms(1)]
    by (subst eval_loop.simps) (simp add: apply_op_calc del: show_tokens_simps)
  show ?thesis
  proof (cases "calc op a b")
    case (Some v)
    have "length xs < STACK_SZ" using rs.holds_bound[OF assms(2)] by simp
    then obtain s3 where "push s2 v = Some s3" "holds s3 (v # xs)" using rs.push_ok[OF s2(2)] by blast
    with step Some show ?thesis by (auto simp del: show_tokens_simps)
  qed (simp add: step del: show_tokens_simps)
qed

lemma eval_loop_expr:
  "expr_ok e \<Longrightarrow> list_all token_ok ts \<Longrightarrow> holds s xs \<Longrightarrow> length xs + length (tokens e) \<le> STACK_SZ \<Longrightarrow>
   (case eval e of
      None \<Rightarrow> eval_loop s (show_tokens (tokens e @ ts) @ ''\<newline>'') = None
    | Some v \<Rightarrow> \<exists>s'. holds s' (v # xs)
        \<and> eval_loop s (show_tokens (tokens e @ ts) @ ''\<newline>'') = eval_loop s' (show_tokens ts @ ''\<newline>''))"
proof (induction e arbitrary: s xs ts)
  case (Num v)
  obtain s' where s': "push s v = Some s'" "holds s' (v # xs)" using rs.push_ok[OF Num(3), of v] Num(4) by auto
  have "eval_loop s (show_tokens (Val v # ts) @ ''\<newline>'') = eval_loop s' (show_tokens ts @ ''\<newline>'')"
    using scan_val[of v ts] Num(1,2) s'(1)
    by (subst eval_loop.simps) (simp del: show_tokens_simps)
  with s'(2) show ?case by (simp del: show_tokens_simps) blast
next
  case (Bin op l r)
  let ?rest = "tokens r @ Op op # ts"
  have ok: "expr_ok l" "expr_ok r" "list_all token_ok (Op op # ts)" "list_all token_ok ?rest"
    using Bin.prems tokens_ok by auto
  note L = Bin.IH(1)[OF ok(1,4) Bin.prems(3)]
  show ?case
  proof (cases "eval l")
    case None
    with L Bin.prems(4) show ?thesis by (simp del: show_tokens_simps)
  next
    case (Some a)
    then obtain s1 where s1: "holds s1 (a # xs)"
      "eval_loop s (show_tokens (tokens l @ ?rest) @ ''\<newline>'') = eval_loop s1 (show_tokens ?rest @ ''\<newline>'')"
      using L Bin.prems(4) by (auto simp del: show_tokens_simps)
    have "length xs < STACK_SZ" using Bin.prems(4) by simp
    have "1 \<le> length (tokens l)" by (induction l) auto
    then have R: "case eval r of None \<Rightarrow> eval_loop s1 (show_tokens ?rest @ ''\<newline>'') = None
      | Some v \<Rightarrow> \<exists>s'. holds s' (v # a # xs) \<and> eval_loop s1 (show_tokens ?rest @ ''\<newline>'') = eval_loop s' (show_tokens (Op op # ts) @ ''\<newline>'')"
      using Bin.IH(2)[OF ok(2,3) s1(1)] Bin.prems(4) by (simp del: show_tokens_simps)
    show ?thesis
    proof (cases "eval r")
      case None
      with R s1 Some show ?thesis by (simp del: show_tokens_simps)
    next
      case (Some b)
      then obtain s2 where "holds s2 (b # a # xs)"
        "eval_loop s1 (show_tokens ?rest @ ''\<newline>'') = eval_loop s2 (show_tokens (Op op # ts) @ ''\<newline>'')"
        using R by (auto simp del: show_tokens_simps)
      with eval_loop_op[OF ok(3) this(1)] s1(2) Some \<open>eval l = Some a\<close> show ?thesis
        by (cases "calc op a b") (simp_all del: show_tokens_simps)
    qed
  qed
qed

text \<open>The stack is empty again after each line.\<close>

lemma eval_expr_line:
  assumes "line_ok e" and "holds s []"
  shows "case eval e of None \<Rightarrow> Rpn.eval_expr s (expr_line e) = None
    | Some v \<Rightarrow> \<exists>s'. Rpn.eval_expr s (expr_line e) = Some (v, s') \<and> holds s' []"
proof -
  have "length (tokens e) \<le> STACK_SZ" "expr_ok e"
    using assms(1) length_tokens_line[of "tokens e"] by (auto simp: line_ok_def expr_line_def)
  with eval_loop_expr[of e "[]" s "[]"] assms(2) have *: "case eval e of None \<Rightarrow> eval_loop s (expr_line e) = None
    | Some v \<Rightarrow> \<exists>s'. holds s' [v] \<and> eval_loop s (expr_line e) = eval_loop s' ''\<newline>''"
    by (cases "eval e") (simp_all add: expr_line_def)
  have "eval_loop s' ''\<newline>'' = Some s'" for s'
    by (subst eval_loop.simps) (simp add: scan_end)
  with * rs.pop_ok show ?thesis
    by (cases "eval e") (fastforce simp: Rpn.eval_expr_def)+
qed

lemma sscanf_expr_line: "line_ok e \<Longrightarrow> \<exists>r. sscanf (expr_line e) '' %n'' = Some r \<and> sr_rest r \<noteq> []"
proof -
  assume e: "line_ok e"
  then have ok: "list_all token_ok (tokens e)" by (simp add: line_ok_def tokens_ok)
  obtain t ts where t: "tokens e = t # ts" by (induction e) auto
  have "skip_ws (show_token t @ s) \<noteq> []" for s
    using ok t by (cases t) (auto simp: skip_ws_Cons isspace_def show_int_def)
  then show ?thesis
    unfolding sscanf_def expr_line_def cstr_tokens[OF ok] by (simp add: t scanf_eval skip_ws_Cons)
qed

lemma rpn_loop_spec:
  "list_all line_ok es \<Longrightarrow> holds s [] \<Longrightarrow> rpn_loop s (concat (map expr_line es)) = rpn_spec es"
proof (induction es arbitrary: s)
  case Nil
  then show ?case by (subst rpn_loop.simps) (simp add: fgets_def)
next
  case (Cons e es)
  then have e: "line_ok e" by simp
  obtain r where r: "sscanf (expr_line e) '' %n'' = Some r" "sr_rest r \<noteq> []" using sscanf_expr_line[OF e] by blast
  note ev = eval_expr_line[OF e Cons.prems(2)]
  show ?case
  proof (cases "eval e")
    case None
    with ev r e show ?thesis by (subst rpn_loop.simps) (simp add: fgets_expr_line)
  next
    case (Some v)
    with ev obtain s' where s': "Rpn.eval_expr s (expr_line e) = Some (v, s')" "holds s' []" by auto
    from Cons.IH[OF _ s'(2)] Cons.prems(1) s'(1) r e Some show ?thesis
      by (subst rpn_loop.simps) (simp add: fgets_expr_line show_conv_def)
  qed
qed

subsection \<open>The calculator on a list\<close>

text \<open>The cells from \<open>p\<close> to the sentinel, with their tokens.\<close>

fun seg :: "list_node heap \<Rightarrow> nat \<Rightarrow> ptr \<Rightarrow> (nat \<times> token) list \<Rightarrow> bool" where
  "seg h z p [] \<longleftrightarrow> p = Some z"
| "seg h z p ((a, t) # ns) \<longleftrightarrow> p = Some a \<and> a \<noteq> z
     \<and> (\<exists>q. cells h a = Some \<lparr>type = Some (case t of Op _ \<Rightarrow> OPERATOR | Val _ \<Rightarrow> VALUE), token = Some t, link = q\<rparr>
          \<and> seg h z q ns)"

lemma seg_cong: "(\<And>a. a \<in> fst ` set ns \<Longrightarrow> cells h' a = cells h a) \<Longrightarrow> seg h' z p ns = seg h z p ns"
  by (induction ns arbitrary: p) auto

text \<open>The left spine of an expression.\<close>

fun leaf :: "expr \<Rightarrow> int" where
  "leaf (Num v) = v"
| "leaf (Bin op l r) = leaf l"

fun spine :: "expr \<Rightarrow> (expr \<times> char) list" where
  "spine (Num v) = []"
| "spine (Bin op l r) = spine l @ [(r, op)]"

fun spine_tokens :: "(expr \<times> char) list \<Rightarrow> token list" where
  "spine_tokens [] = []"
| "spine_tokens ((r, op) # as) = tokens r @ Op op # spine_tokens as"

fun spine_eval :: "int \<Rightarrow> (expr \<times> char) list \<Rightarrow> int c" where
  "spine_eval v [] = Some v"
| "spine_eval v ((r, op) # as) = do { w \<leftarrow> eval r; u \<leftarrow> calc op v w; spine_eval u as }"

lemma spine_tokens_append [simp]: "spine_tokens (as @ bs) = spine_tokens as @ spine_tokens bs"
  by (induction as rule: spine_tokens.induct) auto

lemma spine_eval_append: "spine_eval v (as @ bs) = do { u \<leftarrow> spine_eval v as; spine_eval u bs }"
  by (induction v as rule: spine_eval.induct) (auto split: bind_splits)

lemma tokens_spine: "tokens e = Val (leaf e) # spine_tokens (spine e)"
  by (induction e) auto

lemma eval_spine: "eval e = spine_eval (leaf e) (spine e)"
  by (induction e) (simp_all add: spine_eval_append)

text \<open>
  What a call on the cell \<open>a\<close> with value \<open>v\<close> and the operands \<open>as\<close> after it leaves: the value
  there, the operands freed, all other cells as they were.
\<close>

definition aux_post :: "list_node heap \<Rightarrow> nat \<Rightarrow> nat \<Rightarrow> (nat \<times> token) list \<Rightarrow> (nat \<times> token) list \<Rightarrow> int \<Rightarrow> list_node heap \<Rightarrow> bool" where
  "aux_post h z a ns us v h' \<longleftrightarrow> seg h' z (Some a) ((a, Val v) # us)
     \<and> (\<forall>x\<in>fst ` set ns. cells h' x = None) \<and> (\<forall>x. x \<noteq> a \<longrightarrow> x \<notin> fst ` set ns \<longrightarrow> cells h' x = cells h x)
     \<and> fresh h' = fresh h \<and> oom h' = oom h"

definition ends :: "(nat \<times> token) list \<Rightarrow> bool" where
  "ends us \<longleftrightarrow> (case us of [] \<Rightarrow> True | (_, Op _) # _ \<Rightarrow> True | _ \<Rightarrow> False)"

lemma aux_stop:
  assumes "seg h z (Some a) ((a, Val v) # us)" and "ends us"
  shows "eval_expr_aux h (Some z) (Some a) = Some h"
  using assms by (subst eval_expr_aux.simps) (auto simp: ends_def split: list.splits prod.splits token.splits)

text \<open>The part between the two recursive calls.\<close>

definition combine :: "list_node heap \<Rightarrow> ptr \<Rightarrow> list_node heap c" where
  "combine h1 cur =
     do { c1 \<leftarrow> deref h1 cur;
          n1 \<leftarrow> deref h1 (link c1);
          m1 \<leftarrow> deref h1 (link n1);
          op \<leftarrow> token_op m1;
          l \<leftarrow> token_val c1;
          r \<leftarrow> token_val n1;
          res \<leftarrow> calc op l r;
          h2 \<leftarrow> store h1 cur (\<lambda>c. c\<lparr>token := Some (Val res)\<rparr>);
          c2 \<leftarrow> deref h2 cur;
          let old_next = link c2;
          n2 \<leftarrow> deref h2 old_next;
          m2 \<leftarrow> deref h2 (link n2);
          h3 \<leftarrow> store h2 cur (\<lambda>c. c\<lparr>link := link m2\<rparr>);
          n3 \<leftarrow> deref h3 old_next;
          h4 \<leftarrow> free h3 (link n3);
          free h4 old_next }"

lemma aux_step:
  assumes "seg h z (Some a) ((a, Val v) # (b, Val w) # ns)"
  shows "eval_expr_aux h (Some z) (Some a)
    = do { h1 \<leftarrow> eval_expr_aux h (Some z) (Some b); h5 \<leftarrow> combine h1 (Some a); eval_expr_aux h5 (Some z) (Some a) }"
  using assms by (subst eval_expr_aux.simps) (auto simp: combine_def Let_def)

lemma combine_ok:
  assumes "seg h z (Some a) ((a, Val v) # (b, Val w) # (c, Op op) # ns)" and "distinct (a # b # c # map fst ns)"
  shows "case calc op v w of None \<Rightarrow> combine h (Some a) = None
    | Some u \<Rightarrow> \<exists>h'. combine h (Some a) = Some h' \<and> aux_post h z a [(b, Val w), (c, Op op)] ns u h'"
proof (cases "calc op v w")
  case None
  with assms show ?thesis by (auto simp: combine_def token_op_def token_val_def)
next
  case (Some u)
  obtain q where q: "cells h a = Some \<lparr>type = Some VALUE, token = Some (Val v), link = Some b\<rparr>"
    "cells h b = Some \<lparr>type = Some VALUE, token = Some (Val w), link = Some c\<rparr>"
    "cells h c = Some \<lparr>type = Some OPERATOR, token = Some (Op op), link = q\<rparr>" "seg h z q ns" "a \<noteq> z"
    using assms(1) by auto
  let ?h = "h\<lparr>cells := (cells h)(a \<mapsto> \<lparr>type = Some VALUE, token = Some (Val u), link = q\<rparr>, c := None, b := None)\<rparr>"
  have "combine h (Some a) = Some ?h"
    using q assms(2) Some by (simp add: combine_def token_op_def token_val_def Let_def fun_upd_twist)
  moreover have "seg ?h z q ns"
    using q(4) assms(2) by (subst seg_cong[of ns ?h h]) auto
  ultimately show ?thesis using Some q(5) assms(2) by (auto simp: aux_post_def)
qed

lemma aux_post_chain:
  assumes "aux_post h z b nr us1 w h1" and "aux_post h1 z a [(b, t1), (c, t2)] us2 u h2"
    and "aux_post h2 z a ns us v h3" and d: "distinct (a # b # map fst nr @ c # map fst ns)"
  shows "aux_post h z a ((b, t) # nr @ (c, t') # ns) us v h3"
proof -
  have c1: "cells h1 x = (if x \<in> fst ` set nr then None else cells h x)" if "x \<noteq> b" for x
    using assms(1) that unfolding aux_post_def by auto
  have c2: "cells h2 x = (if x \<in> {b, c} then None else cells h1 x)" if "x \<noteq> a" for x
    using assms(2) that unfolding aux_post_def by auto
  have c3: "cells h3 x = (if x \<in> fst ` set ns then None else cells h2 x)" if "x \<noteq> a" for x
    using assms(3) that unfolding aux_post_def by auto
  let ?S = "fst ` set ((b, t) # nr @ (c, t') # ns)"
  have "cells h3 x = (if x \<in> ?S then None else cells h x)" if "x \<noteq> a" for x
    using that d by (auto simp: c1 c2 c3)
  moreover have "x \<noteq> a" if "x \<in> ?S" for x using that d by auto
  ultimately have "\<forall>x\<in>?S. cells h3 x = None" "\<forall>x. x \<noteq> a \<longrightarrow> x \<notin> ?S \<longrightarrow> cells h3 x = cells h x"
    by meson+
  with assms(1-3) show ?thesis unfolding aux_post_def by simp
qed

lemma spine_nodes:
  assumes "map snd ns = spine_tokens ((r, op) # as)"
  obtains b nr c ns' where "ns = (b, Val (leaf r)) # nr @ (c, Op op) # ns'"
    "map snd nr = spine_tokens (spine r)" "map snd ns' = spine_tokens as"
  using assms by (auto simp: tokens_spine map_eq_Cons_conv map_eq_append_conv)

lemma seg_update_first:
  assumes "seg h z (Some a) ((a, Val v) # (b, t) # ns)" and "seg h1 z (Some b) ((b, t') # ns')" and "cells h1 a = cells h a"
  shows "seg h1 z (Some a) ((a, Val v) # (b, t') # ns')"
  using assms by auto

lemma aux_ok:
  "seg h z (Some a) ((a, Val v) # ns @ us) \<Longrightarrow> map snd ns = spine_tokens as \<Longrightarrow> ends us \<Longrightarrow>
   distinct (a # map fst (ns @ us)) \<Longrightarrow>
   (case spine_eval v as of None \<Rightarrow> eval_expr_aux h (Some z) (Some a) = None
    | Some u \<Rightarrow> \<exists>h'. eval_expr_aux h (Some z) (Some a) = Some h' \<and> aux_post h z a ns us u h')"
proof (induction "length ns" arbitrary: h a v ns us as rule: less_induct)
  case less
  show ?case
  proof (cases as)
    case Nil
    with less.prems aux_stop[of h z a v us] show ?thesis by (auto simp: aux_post_def)
  next
    case (Cons p as')
    obtain r op where p: "p = (r, op)" by (cases p)
    obtain b nr c ns' where ns: "ns = (b, Val (leaf r)) # nr @ (c, Op op) # ns'"
      "map snd nr = spine_tokens (spine r)" "map snd ns' = spine_tokens as'"
      using spine_nodes less.prems(2) Cons p by metis
    note d = less.prems(4)[unfolded ns(1)]
    have st: "seg h z (Some a) ((a, Val v) # (b, Val (leaf r)) # nr @ (c, Op op) # ns' @ us)"
      using less.prems(1) by (simp add: ns(1))
    note step = aux_step[OF st]
    have IH1: "case eval r of None \<Rightarrow> eval_expr_aux h (Some z) (Some b) = None
      | Some u \<Rightarrow> \<exists>h'. eval_expr_aux h (Some z) (Some b) = Some h' \<and> aux_post h z b nr ((c, Op op) # ns' @ us) u h'"
      unfolding eval_spine using st d
      by (intro less.hyps[OF _ _ ns(2), where a = b]) (auto simp: ns(1) ends_def)
    show ?thesis
    proof (cases "eval r")
      case None
      with IH1 step show ?thesis by (simp add: Cons p)
    next
      case (Some w)
      then obtain h1 where h1: "eval_expr_aux h (Some z) (Some b) = Some h1" "aux_post h z b nr ((c, Op op) # ns' @ us) w h1"
        using IH1 by auto
      have s1: "seg h1 z (Some a) ((a, Val v) # (b, Val w) # (c, Op op) # ns' @ us)"
      proof (rule seg_update_first[OF st])
        show "seg h1 z (Some b) ((b, Val w) # (c, Op op) # ns' @ us)" using h1(2) by (simp only: aux_post_def)
        show "cells h1 a = cells h a" using h1(2) d by (simp add: aux_post_def)
      qed
      note cmb = combine_ok[OF s1]
      show ?thesis
      proof (cases "calc op v w")
        case None
        with cmb d step h1(1) Some show ?thesis by (simp add: Cons p)
      next
        case (Some u)
        then obtain h5 where h5: "combine h1 (Some a) = Some h5" "aux_post h1 z a [(b, Val w), (c, Op op)] (ns' @ us) u h5"
          using cmb d by auto
        have "case spine_eval u as' of None \<Rightarrow> eval_expr_aux h5 (Some z) (Some a) = None
          | Some x \<Rightarrow> \<exists>h'. eval_expr_aux h5 (Some z) (Some a) = Some h' \<and> aux_post h5 z a ns' us x h'"
          using h5(2) d less.prems(3) by (intro less.hyps[OF _ _ ns(3)]) (auto simp: ns(1) aux_post_def)
        moreover have "aux_post h z a ns us x h'" if "aux_post h5 z a ns' us x h'" for x h'
          unfolding ns(1) using d by (intro aux_post_chain[OF h1(2) h5(2) that]) auto
        ultimately show ?thesis
          using step h1(1) h5(1) Some \<open>eval r = Some w\<close> by (cases "spine_eval u as'") (auto simp: Cons p)
      qed
    qed
  qed
qed

text \<open>Reading a line builds the list.\<close>

definition ready :: "list_node heap \<Rightarrow> nat \<Rightarrow> bool" where
  "ready h z \<longleftrightarrow> heap_ok h \<and> oom h = (\<lambda>_. False) \<and> cells h z \<noteq> None"

definition tok_list :: "list_node heap \<Rightarrow> nat \<Rightarrow> (nat \<times> token) list \<Rightarrow> bool" where
  "tok_list h z ns \<longleftrightarrow> ready h z \<and> (\<exists>n. cells h z = Some n \<and> seg h z (link n) ns) \<and> distinct (map fst ns)"

lemma seg_cells: "seg h z q ns \<Longrightarrow> a \<in> fst ` set ns \<Longrightarrow> cells h a \<noteq> None \<and> a \<noteq> z"
  by (induction ns arbitrary: q) (fastforce intro: rev_image_eqI)+

lemma tok_list_cells: "tok_list h z ns \<Longrightarrow> a \<in> insert z (fst ` set ns) \<Longrightarrow> cells h a \<noteq> None"
  unfolding tok_list_def ready_def using seg_cells by fastforce

definition tok_node :: "token \<Rightarrow> ptr \<Rightarrow> list_node" where
  "tok_node t q = \<lparr>type = Some (case t of Op _ \<Rightarrow> OPERATOR | Val _ \<Rightarrow> VALUE), token = Some t, link = q\<rparr>"

lemma seg_snoc:
  assumes "seg h z q ns" and "ns \<noteq> []" and "distinct (map fst ns)" and "p \<notin> fst ` set ns" and "l = fst (last ns)"
    and "cells h l = Some n" and "p \<noteq> z"
    and h': "cells h' = (cells h)(l \<mapsto> n\<lparr>link := Some p\<rparr>, p \<mapsto> tok_node t (Some z))"
  shows "seg h' z q (ns @ [(p, t)])"
  using assms(1-5)
proof (induction ns arbitrary: q)
  case (Cons x ns)
  obtain a u where x: "x = (a, u)" by (cases x)
  show ?case
  proof (cases "ns = []")
    case True
    with Cons.prems x assms(6-) show ?thesis by (auto simp: tok_node_def)
  next
    case False
    with Cons.prems have "a \<noteq> l" using nth_mem[of "length ns - 1" ns] by (auto simp: x last_conv_nth)
    with Cons False x h' show ?thesis by (auto split: if_splits)
  qed
qed simp

lemma append_node_ok:
  assumes tl: "tok_list h z ns" and ty: "ty = (case t of Op _ \<Rightarrow> OPERATOR | Val _ \<Rightarrow> VALUE)"
  shows "\<exists>p h0 h1. malloc h raw_node = (Some p, h0)
    \<and> append_node h0 (Some z) (Some (last (z # map fst ns))) (Some p) ty t = Some h1
    \<and> tok_list h1 z (ns @ [(p, t)]) \<and> p = last (z # map fst (ns @ [(p, t)]))"
proof -
  let ?p = "fresh h" and ?l = "last (z # map fst ns)"
  have r: "heap_ok h" "oom h = (\<lambda>_. False)" "distinct (map fst ns)"
    using tl by (auto simp: tok_list_def ready_def)
  have l: "?l \<in> insert z (fst ` set ns)" by (cases ns rule: rev_cases) auto
  then obtain n where n: "cells h ?l = Some n" using tok_list_cells[OF tl] by blast
  have p: "cells h ?p = None" "?p \<notin> insert z (fst ` set ns)"
    using heap_ok_fresh[OF r(1)] tok_list_cells[OF tl] by (simp, metis)
  then have "?p \<noteq> ?l" using l by metis
  define h1 where "h1 = h\<lparr>cells := (cells h)(?l \<mapsto> n\<lparr>link := Some ?p\<rparr>, ?p \<mapsto> tok_node t (Some z)), fresh := Suc ?p\<rparr>"
  let ?h0 = "h\<lparr>cells := (cells h)(?p \<mapsto> raw_node), fresh := Suc ?p\<rparr>"
  have m: "malloc h raw_node = (Some ?p, ?h0)" using r(2) by (simp add: malloc_def)
  have a: "append_node ?h0 (Some z) (Some ?l) (Some ?p) ty t = Some h1"
    using n \<open>?p \<noteq> ?l\<close> by (simp add: append_node_def h1_def tok_node_def raw_node_def ty fun_upd_twist)
  have "heap_ok h1" using r(1) n by (auto simp: heap_ok_def h1_def less_Suc_eq)
  moreover have "\<exists>n'. cells h1 z = Some n' \<and> seg h1 z (link n') (ns @ [(?p, t)])"
  proof (cases "ns = []")
    case True
    with n p show ?thesis by (simp add: h1_def tok_node_def)
  next
    case False
    obtain zn where zn: "cells h z = Some zn" "seg h z (link zn) ns" using tl by (auto simp: tok_list_def)
    have "?l = fst (last ns)" using False by (simp add: last_map)
    moreover have "fst (last ns) \<noteq> z" using seg_cells[OF zn(2), of "fst (last ns)"] False by simp
    moreover have "seg h1 z (link zn) (ns @ [(?p, t)])"
      using zn False r(3) p n \<open>?l = fst (last ns)\<close> by (intro seg_snoc[where n = n]) (auto simp: h1_def)
    ultimately show ?thesis using zn(1) p by (simp add: h1_def)
  qed
  ultimately have "tok_list h1 z (ns @ [(?p, t)])"
    using r p by (auto simp: tok_list_def ready_def h1_def)
  with m a show ?thesis by (intro exI[of _ ?p]) auto
qed

lemma read_loop_end:
  assumes "tok_list h z ns"
  shows "\<exists>h'. read_loop h (Some z) prev ''\<newline>'' = Some h' \<and> tok_list h' z ns"
proof -
  let ?h = "h\<lparr>fresh := Suc (fresh h)\<rparr>"
  have r: "heap_ok h" "oom h = (\<lambda>_. False)" using assms by (auto simp: tok_list_def ready_def)
  have "(cells h)(fresh h := None) = cells h" using heap_ok_fresh[OF r(1)] by auto
  then have "read_loop h (Some z) prev ''\<newline>'' = Some ?h"
    using r(2) by (subst read_loop.simps) (simp add: malloc_def scan_end)
  moreover have "seg ?h z q ns = seg h z q ns" for q by (rule seg_cong) simp
  then have "tok_list ?h z ns" using assms by (auto simp: tok_list_def ready_def heap_ok_def less_Suc_eq)
  ultimately show ?thesis by blast
qed

lemma read_loop_ok:
  "list_all token_ok ts \<Longrightarrow> tok_list h z ns \<Longrightarrow>
   \<exists>h' ns'. read_loop h (Some z) (Some (last (z # map fst ns))) (show_tokens ts @ ''\<newline>'') = Some h'
     \<and> tok_list h' z (ns @ ns') \<and> map snd ns' = ts"
proof (induction ts arbitrary: h ns)
  case Nil
  with read_loop_end show ?case by force
next
  case (Cons t ts)
  let ?ty = "case t of Op _ \<Rightarrow> OPERATOR | Val _ \<Rightarrow> VALUE"
  obtain p h0 h1 where p: "malloc h raw_node = (Some p, h0)"
    "append_node h0 (Some z) (Some (last (z # map fst ns))) (Some p) ?ty t = Some h1"
    "tok_list h1 z (ns @ [(p, t)])" "p = last (z # map fst (ns @ [(p, t)]))"
    using append_node_ok[OF Cons.prems(2) refl] by blast
  have "read_loop h (Some z) (Some (last (z # map fst ns))) (show_tokens (t # ts) @ ''\<newline>'')
    = read_loop h1 (Some z) (Some p) (show_tokens ts @ ''\<newline>'')"
  proof (cases t)
    case (Op op)
    obtain r where "sscanf (show_tokens (Op op # ts) @ ''\<newline>'') '' %d%n'' = Some r" "scan_ret r \<noteq> 1"
      using scan_op(1)[of op ts] Cons.prems(1) Op by auto
    with scan_op(2)[of op ts] Op Cons.prems(1) p(1,2) show ?thesis
      by (subst read_loop.simps) (simp del: show_tokens_simps)
  next
    case (Val v)
    with scan_val[of v ts] Cons.prems(1) p(1,2) show ?thesis
      by (subst read_loop.simps) (simp del: show_tokens_simps)
  qed
  moreover obtain h' ns' where "read_loop h1 (Some z) (Some p) (show_tokens ts @ ''\<newline>'') = Some h'"
    "tok_list h' z ((ns @ [(p, t)]) @ ns')" "map snd ns' = ts"
    using Cons.IH[OF _ p(3)] Cons.prems(1) p(4) by auto
  ultimately show ?case by (intro exI[of _ h'] exI[of _ "(p, t) # ns'"]) (simp del: show_tokens_simps)
qed

text \<open>Evaluating the list frees all of it but the sentinel.\<close>

lemma eval_expr_list:
  assumes "tok_list h z ns" and "map snd ns = tokens e"
  shows "case eval e of None \<Rightarrow> eval_expr h (Some z) = None
    | Some v \<Rightarrow> \<exists>h'. eval_expr h (Some z) = Some (v, h') \<and> ready h' z"
proof -
  obtain a ns' where ns: "ns = (a, Val (leaf e)) # ns'" "map snd ns' = spine_tokens (spine e)"
    using assms(2) by (auto simp: tokens_spine map_eq_Cons_conv)
  obtain n where n: "cells h z = Some n" "seg h z (link n) ns" using assms(1) by (auto simp: tok_list_def)
  have sg: "seg h z (Some a) ((a, Val (leaf e)) # ns' @ [])" "link n = Some a" "a \<noteq> z" using n(2) by (auto simp: ns(1))
  have d: "distinct (a # map fst (ns' @ []))" using assms(1) by (simp add: tok_list_def ns(1))
  note ok = aux_ok[OF sg(1) ns(2) _ d, folded eval_spine]
  show ?thesis
  proof (cases "eval e")
    case None
    with ok n(1) sg(2) show ?thesis by (simp add: ends_def eval_expr_def)
  next
    case (Some v)
    then obtain h1 where h1: "eval_expr_aux h (Some z) (Some a) = Some h1" "aux_post h z a ns' [] v h1"
      using ok by (auto simp: ends_def)
    have "z \<notin> fst ` set ns'" using seg_cells[OF n(2), of z] by (auto simp: ns(1))
    then have zc: "cells h1 z = Some n" using h1(2) n(1) sg(3) unfolding aux_post_def by auto
    obtain an where an: "cells h1 a = Some an" "token_val an = Some v"
      using h1(2) by (auto simp: aux_post_def token_val_def)
    let ?h = "h1\<lparr>cells := (cells h1)(a := None, z \<mapsto> n\<lparr>link := Some z\<rparr>)\<rparr>"
    have "eval_expr h (Some z) = Some (v, ?h)"
      using n(1) sg(2,3) h1(1) zc an by (simp add: eval_expr_def)
    moreover have dom: "cells h x \<noteq> None" if "cells h1 x \<noteq> None" "x \<noteq> a" for x
      using h1(2) that unfolding aux_post_def by (metis option.distinct(1))
    have "ready ?h z"
      using assms(1) dom h1(2) n(1) by (auto simp: tok_list_def ready_def heap_ok_def aux_post_def)
    ultimately show ?thesis using Some by auto
  qed
qed

lemma rec_loop_spec:
  "list_all line_ok es \<Longrightarrow> ready h z \<Longrightarrow> rec_loop h (Some z) (concat (map expr_line es)) = rpn_spec es"
proof (induction es arbitrary: h)
  case Nil
  then show ?case by (subst rec_loop.simps) (simp add: read_expr_def fgets_def)
next
  case (Cons e es)
  let ?rest = "concat (map expr_line es)"
  have e: "line_ok e" "list_all token_ok (tokens e)" using Cons.prems(1) by (auto simp: line_ok_def tokens_ok)
  obtain n where n: "cells h z = Some n" using Cons.prems(2) by (auto simp: ready_def)
  let ?h = "h\<lparr>cells := (cells h)(z \<mapsto> n\<lparr>link := Some z\<rparr>)\<rparr>"
  have "tok_list ?h z []" using Cons.prems(2) n by (auto simp: tok_list_def ready_def heap_ok_def)
  then obtain h2 ns where h2: "read_loop ?h (Some z) (Some z) (expr_line e) = Some h2" "tok_list h2 z ns" "map snd ns = tokens e"
    using read_loop_ok[OF e(2)] by (force simp: expr_line_def)
  have "fgets MAX_EXPR_SZ (expr_line e @ ?rest) = Some (expr_line e, ?rest)"
    using fgets_expr_line[OF e(1)] by (simp add: MAX_EXPR_SZ_def STACK_SZ_def)
  then have rd: "read_expr h (Some z) (expr_line e @ ?rest) = Some (Some (h2, ?rest))"
    using n h2(1) by (simp add: read_expr_def)
  obtain n2 where n2: "cells h2 z = Some n2" "link n2 \<noteq> Some z"
    using h2(2,3) by (cases ns) (auto simp: tok_list_def tokens_spine)
  note ev = eval_expr_list[OF h2(2,3)]
  show ?case
  proof (cases "eval e")
    case None
    with ev rd n2 show ?thesis by (subst rec_loop.simps) simp
  next
    case (Some v)
    then obtain h3 where h3: "eval_expr h2 (Some z) = Some (v, h3)" "ready h3 z" using ev by auto
    from Cons.IH[OF _ h3(2)] Cons.prems(1) h3(1) rd n2 Some show ?thesis
      by (subst rec_loop.simps) (simp add: show_conv_def)
  qed
qed

text \<open>
  Property C14. The two calculators agree: on every sequence of postfix expressions whose lines fit the
  buffers, and as long as memory is not exhausted, the program with a stack and the program that
  rewrites a list both print the values of the expressions, and neither returns normally when an
  expression divides by zero or overflows. Both terminate, and the recursive one accesses no freed node.
\<close>

theorem rpn_programs_agree:
  assumes "list_all line_ok es"
  shows "rpn_main (concat (map expr_line es)) = rpn_rec_main (\<lambda>_. False) (concat (map expr_line es))
    \<and> rpn_main (concat (map expr_line es))
      = map_option (\<lambda>out. ''Enter an RPN expression.\<newline>> '' @ out) (rpn_spec es)"
proof -
  have "holds rpn_stack0 []" by (simp add: holds_def rpn_stack0_def)
  moreover have "ready (rpn_heap (\<lambda>_. False)) 0" by (auto simp: ready_def heap_ok_def rpn_heap_def)
  ultimately have "rpn_loop rpn_stack0 (concat (map expr_line es)) = rpn_spec es"
    "rec_loop (rpn_heap (\<lambda>_. False)) (Some 0) (concat (map expr_line es)) = rpn_spec es"
    using rpn_loop_spec rec_loop_spec assms by blast+
  then show ?thesis
    by (cases "rpn_spec es") (simp_all add: rpn_main_def rpn_rec_main_def)
qed

theorem rpn_programs_agree_witness:
  "rpn_main '' 3 4 + 5 3 - *\<newline>'' = Some ''Enter an RPN expression.\<newline>> 14\<newline>> ''
    \<and> rpn_rec_main (\<lambda>_. False) '' 3 4 + 5 3 - *\<newline>'' = Some ''Enter an RPN expression.\<newline>> 14\<newline>> ''"
  using rpn_programs_agree[of "[Bin CHR ''*'' (Bin CHR ''+'' (Num 3) (Num 4)) (Bin CHR ''-'' (Num 5) (Num 3))]"]
  by (auto simp: line_ok_def expr_line_def STACK_SZ_def calc_def c_int_def in_int_def INT_MIN_def INT_MAX_def show_eval)

end
