(* ===== verification/Posix_Files.thy ===== *)
theory Posix_Files
  imports C_Stdio "HOL-Library.Word"
begin

unbundle bit_operations_syntax

text \<open>
  The system calls on files that a program of the collection makes: \<open>open\<close>, \<open>close\<close>,
  \<open>read\<close> and \<open>write\<close> on a table of open files, as POSIX describes them. What the
  environment decides is part of the state: how many bytes a read or write transfers at most, and whether
  a call or an allocation fails. The flags have the values of Linux.
\<close>

definition O_RDONLY :: int where "O_RDONLY = 0"
definition O_WRONLY :: int where "O_WRONLY = 1"
definition O_RDWR :: int where "O_RDWR = 2"
definition O_CREAT :: int where "O_CREAT = 64"
definition O_TRUNC :: int where "O_TRUNC = 512"
definition O_APPEND :: int where "O_APPEND = 1024"

lemmas oflag_defs = O_RDONLY_def O_WRONLY_def O_RDWR_def O_CREAT_def O_TRUNC_def O_APPEND_def

record open_file =
  fname :: string
  pos :: nat
  oflag :: int

text \<open>
  The \<open>n\<close>-th call: a read gets at most \<open>k + 1\<close> bytes if \<open>rsched n = Some k\<close>, a write puts at most
  \<open>k\<close> if \<open>wsched n = Some k\<close>; \<open>None\<close> is an error.
\<close>

record world =
  files :: "string \<Rightarrow> string option"
  fds :: "open_file option list"
  calls :: nat
  rsched :: "nat \<Rightarrow> nat option"
  wsched :: "nat \<Rightarrow> nat option"
  ofail :: "nat \<Rightarrow> bool"
  mfail :: "nat \<Rightarrow> bool"

definition tick :: "world \<Rightarrow> world" where
  "tick w = w\<lparr>calls := Suc (calls w)\<rparr>"

definition fd_entry :: "world \<Rightarrow> int \<Rightarrow> open_file option" where
  "fd_entry w fd = (if 0 \<le> fd \<and> nat fd < length (fds w) then fds w ! nat fd else None)"

definition set_fd :: "world \<Rightarrow> int \<Rightarrow> open_file option \<Rightarrow> world" where
  "set_fd w fd e = w\<lparr>fds := (fds w)[nat fd := e]\<rparr>"

definition sys_read :: "world \<Rightarrow> int \<Rightarrow> nat \<Rightarrow> int \<times> string \<times> world" where
  "sys_read w fd n =
     (case fd_entry w fd of
        None \<Rightarrow> (- 1, [], tick w)
      | Some e \<Rightarrow>
          (case (rsched w (calls w), files w (fname e)) of
             (Some k, Some s) \<Rightarrow>
               if oflag e AND 3 = O_WRONLY then (- 1, [], tick w)
               else let bs = take (min n (Suc k)) (drop (pos e) s)
                    in (int (length bs), bs, tick (set_fd w fd (Some (e\<lparr>pos := pos e + length bs\<rparr>))))
           | _ \<Rightarrow> (- 1, [], tick w)))"

definition write_at :: "string \<Rightarrow> nat \<Rightarrow> string \<Rightarrow> string" where
  "write_at s p bs = take p (s @ replicate (p - length s) CHR 0x00) @ bs @ drop (p + length bs) s"

definition sys_write :: "world \<Rightarrow> int \<Rightarrow> string \<Rightarrow> int \<times> world" where
  "sys_write w fd bs =
     (case fd_entry w fd of
        None \<Rightarrow> (- 1, tick w)
      | Some e \<Rightarrow>
          (case (wsched w (calls w), files w (fname e)) of
             (Some k, Some s) \<Rightarrow>
               if oflag e AND 3 = O_RDONLY then (- 1, tick w)
               else let put = take k bs;
                        p = (if oflag e AND O_APPEND \<noteq> 0 then length s else pos e)
                    in (int (length put),
                        tick (set_fd (w\<lparr>files := (files w)(fname e \<mapsto> write_at s p put)\<rparr>) fd
                               (Some (e\<lparr>pos := p + length put\<rparr>))))
           | _ \<Rightarrow> (- 1, tick w)))"

text \<open>A new file gets the lowest free descriptor.\<close>

definition alloc_fd :: "open_file option list \<Rightarrow> open_file \<Rightarrow> int \<times> open_file option list" where
  "alloc_fd ds e =
     (let i = length (takeWhile (\<lambda>d. d \<noteq> None) ds)
      in (int i, if i < length ds then ds[i := Some e] else ds @ [Some e]))"

definition sys_open :: "world \<Rightarrow> string \<Rightarrow> int \<Rightarrow> int \<times> world" where
  "sys_open w name oflags =
     (if ofail w (calls w) \<or> (files w name = None \<and> oflags AND O_CREAT = 0) then (- 1, tick w)
      else let s = (case files w name of None \<Rightarrow> [] | Some s \<Rightarrow> if oflags AND O_TRUNC \<noteq> 0 then [] else s);
               (fd, ds) = alloc_fd (fds w) \<lparr>fname = name, pos = 0, oflag = oflags\<rparr>
           in (fd, tick (w\<lparr>files := (files w)(name \<mapsto> s), fds := ds\<rparr>)))"

definition sys_close :: "world \<Rightarrow> int \<Rightarrow> int \<times> world" where
  "sys_close w fd = (if fd_entry w fd = None then (- 1, tick w) else (0, tick (set_fd w fd None)))"

text \<open>An environment without errors and short writes; reads may be short.\<close>

definition env_ok :: "world \<Rightarrow> bool" where
  "env_ok w \<longleftrightarrow> (\<forall>n. rsched w n \<noteq> None \<and> (\<exists>k\<ge>1024. wsched w n = Some k) \<and> \<not> ofail w n \<and> \<not> mfail w n)"

text \<open>The environment does not change, and a step on one descriptor leaves the others alone.\<close>

definition same_env :: "world \<Rightarrow> world \<Rightarrow> bool" where
  "same_env w w' \<longleftrightarrow> rsched w' = rsched w \<and> wsched w' = wsched w \<and> ofail w' = ofail w \<and> mfail w' = mfail w"

definition fd_step :: "world \<Rightarrow> int \<Rightarrow> world \<Rightarrow> bool" where
  "fd_step w fd w' \<longleftrightarrow> same_env w w' \<and> length (fds w') = length (fds w)
     \<and> (\<forall>d. d \<noteq> fd \<longrightarrow> fd_entry w' d = fd_entry w d)"

lemma same_env_refl [simp]: "same_env w w"
  by (simp add: same_env_def)

lemma same_env_trans: "same_env w w1 \<Longrightarrow> same_env w1 w2 \<Longrightarrow> same_env w w2"
  by (simp add: same_env_def)

lemma env_ok_same: "same_env w w' \<Longrightarrow> env_ok w \<Longrightarrow> env_ok w'"
  by (simp add: same_env_def env_ok_def)

lemma env_ok_tick [simp]: "env_ok (tick w) \<longleftrightarrow> env_ok w"
  by (simp add: env_ok_def tick_def)

lemma fd_step_refl [simp]: "fd_step w fd w"
  by (simp add: fd_step_def)

lemma fd_step_trans: "fd_step w d w1 \<Longrightarrow> fd_step w1 d w2 \<Longrightarrow> fd_step w d w2"
  by (simp add: fd_step_def same_env_def)

lemma fd_step_tick [simp]: "fd_step w fd (tick w)"
  by (simp add: fd_step_def same_env_def tick_def fd_entry_def)

lemma tick_simps [simp]: "files (tick w) = files w" "fds (tick w) = fds w" "fd_entry (tick w) d = fd_entry w d"
  by (simp_all add: tick_def fd_entry_def)

lemma fd_entry_set [simp]:
  "fd_entry w fd \<noteq> None \<Longrightarrow> 0 \<le> d \<Longrightarrow> fd_entry (set_fd w fd e) d = (if d = fd then e else fd_entry w d)"
  by (auto simp: fd_entry_def set_fd_def nth_list_update nat_eq_iff split: if_splits)

lemma fd_entry_files [simp]: "fd_entry (w\<lparr>files := f\<rparr>) d = fd_entry w d"
  by (simp add: fd_entry_def)

lemma fd_step_set: "fd_entry w fd \<noteq> None \<Longrightarrow> fd_step w fd (tick (set_fd (w\<lparr>files := f\<rparr>) fd e))"
  by (auto simp: fd_step_def same_env_def tick_def set_fd_def fd_entry_def nth_list_update split: if_splits)

lemma fd_step_set': "fd_entry w fd \<noteq> None \<Longrightarrow> fd_step w fd (tick (set_fd w fd e))"
  using fd_step_set[of w fd "files w" e] by simp

text \<open>Reading on from the position.\<close>

lemma sys_read_ok:
  assumes "env_ok w" and "fd_entry w fd = Some e" and "0 \<le> fd" and "files w (fname e) = Some s"
    and "oflag e AND 3 \<noteq> O_WRONLY" and "0 < n"
  shows "\<exists>bs w'. sys_read w fd n = (int (length bs), bs, w') \<and> length bs \<le> n \<and> (bs = [] \<longleftrightarrow> drop (pos e) s = [])
    \<and> bs @ drop (pos e + length bs) s = drop (pos e) s \<and> fd_entry w' fd = Some (e\<lparr>pos := pos e + length bs\<rparr>)
    \<and> files w' = files w \<and> fd_step w fd w'"
proof -
  obtain k where k: "rsched w (calls w) = Some k" using assms(1) by (auto simp: env_ok_def)
  define bs where "bs = take (min n (Suc k)) (drop (pos e) s)"
  let ?w = "tick (set_fd w fd (Some (e\<lparr>pos := pos e + length bs\<rparr>)))"
  have len: "length bs = min (min n (Suc k)) (length s - pos e)" by (simp add: bs_def)
  have "sys_read w fd n = (int (length bs), bs, ?w)"
    using assms k by (simp add: sys_read_def bs_def Let_def)
  moreover have "bs @ drop (pos e + length bs) s = drop (pos e) s"
    using append_take_drop_id[of "length bs" "drop (pos e) s"] len by (simp add: bs_def add.commute min_def split: if_splits)
  moreover have "fd_entry ?w fd = Some (e\<lparr>pos := pos e + length bs\<rparr>)" using assms by simp
  moreover have "fd_step w fd ?w" using assms by (simp add: fd_step_set')
  moreover have "bs = [] \<longleftrightarrow> drop (pos e) s = []" using assms(6) by (auto simp: bs_def)
  ultimately show ?thesis using len by (auto simp: set_fd_def)
qed

text \<open>Writing at the end.\<close>

lemma sys_write_ok:
  assumes "env_ok w" and "fd_entry w fd = Some e" and "0 \<le> fd" and "files w (fname e) = Some s"
    and "oflag e AND 3 \<noteq> O_RDONLY" and "pos e = length s" and "length bs \<le> 1024"
  shows "\<exists>w'. sys_write w fd bs = (int (length bs), w') \<and> files w' = (files w)(fname e \<mapsto> s @ bs)
    \<and> fd_entry w' fd = Some (e\<lparr>pos := length (s @ bs)\<rparr>) \<and> fd_step w fd w'"
proof -
  obtain k where k: "wsched w (calls w) = Some k" "1024 \<le> k" using assms(1) unfolding env_ok_def by blast
  let ?w = "tick (set_fd (w\<lparr>files := (files w)(fname e \<mapsto> s @ bs)\<rparr>) fd (Some (e\<lparr>pos := length s + length bs\<rparr>)))"
  have "sys_write w fd bs = (int (length bs), ?w)"
    using assms k by (simp add: sys_write_def write_at_def Let_def)
  moreover have "fd_step w fd ?w" using assms by (simp add: fd_step_set)
  moreover have "fd_entry ?w fd = Some (e\<lparr>pos := length (s @ bs)\<rparr>)" using assms by simp
  ultimately show ?thesis by (auto simp: set_fd_def)
qed

end
