(* ===== verification/Stdio_Lib.thy ===== *)
theory Stdio_Lib
  imports Posix_Files
begin

text \<open>
  \<open>knowledge_based/linux_internals/stdio/stdio.c\<close>: a buffered input/output library over the system calls,
  and the program that copies standard input to standard output and its own source to a second file.

  A \<open>FILE*\<close> is an index into \<open>iob\<close>. A buffer is \<open>Null\<close>, its bytes, or \<open>Freed\<close> after
  \<open>free\<close>, when it must not be used; \<open>next\<close> is an offset into it. A plain \<open>char\<close> is
  signed, as on the platforms the program is written for.
\<close>

definition OPEN_MAX :: nat where "OPEN_MAX = 20"
definition BUFF_SIZE :: nat where "BUFF_SIZE = 1024"
definition EOF :: int where "EOF = - 1"

datatype buffer = Null | Buf string | Freed

record FILE =
  buff_cnt :: int
  nxt :: nat
  buff :: buffer
  flags :: int
  fd :: int
  last_op :: int

definition FL_READ :: int where "FL_READ = 1"
definition FL_WRITE :: int where "FL_WRITE = 2"
definition FL_EOF :: int where "FL_EOF = 4"
definition FL_ERR :: int where "FL_ERR = 8"
definition FL_UNBUF :: int where "FL_UNBUF = 16"

record io =
  iob :: "FILE list"
  wld :: world

definition iob0 :: "FILE list" where
  "iob0 = [\<lparr>buff_cnt = 0, nxt = 0, buff = Null, flags = FL_READ, fd = 0, last_op = 0\<rparr>,
           \<lparr>buff_cnt = 0, nxt = 0, buff = Null, flags = FL_WRITE, fd = 1, last_op = 0\<rparr>,
           \<lparr>buff_cnt = 0, nxt = 0, buff = Null, flags = FL_WRITE OR FL_UNBUF, fd = 2, last_op = 0\<rparr>]
     @ replicate (OPEN_MAX - 3) \<lparr>buff_cnt = 0, nxt = 0, buff = Null, flags = 0, fd = 0, last_op = 0\<rparr>"

definition put_file :: "io \<Rightarrow> nat \<Rightarrow> FILE \<Rightarrow> io" where
  "put_file io f F = io\<lparr>iob := (iob io)[f := F]\<rparr>"

definition buf_read :: "buffer \<Rightarrow> nat \<Rightarrow> char c" where
  "buf_read b i = (case b of Buf s \<Rightarrow> rd s i | _ \<Rightarrow> None)"

definition buf_write :: "buffer \<Rightarrow> nat \<Rightarrow> char \<Rightarrow> buffer c" where
  "buf_write b i x = (case b of Buf s \<Rightarrow> map_option Buf (wr s i x) | _ \<Rightarrow> None)"

definition to_char :: "int \<Rightarrow> char" where
  "to_char c = char_of (nat (c mod 256))"

definition uchar :: "char \<Rightarrow> int" where
  "uchar x = int (of_char x)"

definition schar :: "char \<Rightarrow> int" where
  "schar x = (if uchar x < 128 then uchar x else uchar x - 256)"

text \<open>\<open>malloc\<close> of a buffer: \<open>Null\<close> when the environment says so; what it holds before it is written, which no function reads, is taken to be zeros.\<close>

definition malloc_buf :: "world \<Rightarrow> nat \<Rightarrow> buffer \<times> world" where
  "malloc_buf w n = (if mfail w (calls w) then Null else Buf (replicate n CHR 0x00), tick w)"

definition free_buf :: "buffer \<Rightarrow> buffer c" where
  "free_buf b = (case b of Null \<Rightarrow> Some Null | Buf _ \<Rightarrow> Some Freed | Freed \<Rightarrow> None)"

definition fillbuff :: "io \<Rightarrow> nat \<Rightarrow> (int \<times> io) c" where
  "fillbuff io f =
     do { F \<leftarrow> rd (iob io) f;
          if flags F AND (FL_READ OR FL_EOF OR FL_ERR) \<noteq> FL_READ then Some (EOF, io)
          else do {
            let buffsize = (if flags F AND FL_UNBUF \<noteq> 0 then 1 else BUFF_SIZE);
            let (b, w1) = (if buff F = Null then malloc_buf (wld io) buffsize else (buff F, wld io));
            let F1 = F\<lparr>buff := b\<rparr>;
            if b = Null then Some (EOF, (put_file io f F1)\<lparr>wld := w1\<rparr>)
            else do {
              old \<leftarrow> (case b of Buf s \<Rightarrow> Some s | _ \<Rightarrow> None);
              let (n, bs, w2) = sys_read w1 (fd F1) buffsize;
              let F2 = F1\<lparr>nxt := 0, buff := Buf (bs @ drop (length bs) old), buff_cnt := n\<rparr>;
              if n = 0 then Some (EOF, (put_file io f (F2\<lparr>flags := flags F2 OR FL_EOF\<rparr>))\<lparr>wld := w2\<rparr>)
              else if n < 0 then Some (EOF, (put_file io f (F2\<lparr>flags := flags F2 OR FL_ERR\<rparr>))\<lparr>wld := w2\<rparr>)
              else do {
                x \<leftarrow> buf_read (buff F2) (nxt F2);
                Some (uchar x, (put_file io f (F2\<lparr>buff_cnt := buff_cnt F2 - 1, nxt := nxt F2 + 1\<rparr>))\<lparr>wld := w2\<rparr>) } } } }"

definition flushbuf :: "io \<Rightarrow> int \<Rightarrow> nat \<Rightarrow> (int \<times> io) c" where
  "flushbuf io c f =
     do { F \<leftarrow> rd (iob io) f;
          if flags F AND (FL_WRITE OR FL_EOF OR FL_ERR) \<noteq> FL_WRITE then Some (EOF, io)
          else if flags F AND FL_UNBUF \<noteq> 0
          then let (n, w1) = sys_write (wld io) (fd F) [to_char c]
               in if n \<noteq> 1 then Some (EOF, (put_file io f (F\<lparr>flags := flags F OR FL_ERR\<rparr>))\<lparr>wld := w1\<rparr>)
                  else Some (c, io\<lparr>wld := w1\<rparr>)
          else do {
            let (F1, w1) = (if buff F = Null
              then (let (b, w1) = malloc_buf (wld io) BUFF_SIZE
                    in (F\<lparr>buff := b, buff_cnt := int BUFF_SIZE, nxt := 0\<rparr>, w1))
              else (F, wld io));
            if buff F1 = Null then Some (EOF, (put_file io f F1)\<lparr>wld := w1\<rparr>)
            else do {
              s \<leftarrow> (case buff F1 of Buf s \<Rightarrow> Some s | _ \<Rightarrow> None);
              let (n, w2) = (if nxt F1 > 0 then sys_write w1 (fd F1) (take (nxt F1) s) else (int (nxt F1), w1));
              if n \<noteq> int (nxt F1) then Some (EOF, (put_file io f (F1\<lparr>flags := flags F1 OR FL_ERR\<rparr>))\<lparr>wld := w2\<rparr>)
              else do {
                let F2 = (if nxt F1 > 0 then F1\<lparr>nxt := 0, buff_cnt := int BUFF_SIZE\<rparr> else F1);
                b \<leftarrow> buf_write (buff F2) (nxt F2) (to_char c);
                Some (uchar (to_char c),
                  (put_file io f (F2\<lparr>buff_cnt := buff_cnt F2 - 1, buff := b, nxt := nxt F2 + 1\<rparr>))\<lparr>wld := w2\<rparr>) } } } }"

definition getc :: "io \<Rightarrow> nat \<Rightarrow> (int \<times> io) c" where
  "getc io f =
     do { F0 \<leftarrow> rd (iob io) f;
          let F = F0\<lparr>last_op := FL_READ\<rparr>;
          if buff_cnt F > 0
          then do { x \<leftarrow> buf_read (buff F) (nxt F);
                    Some (uchar x, put_file io f (F\<lparr>buff_cnt := buff_cnt F - 1, nxt := nxt F + 1\<rparr>)) }
          else fillbuff (put_file io f F) f }"

definition putc :: "io \<Rightarrow> int \<Rightarrow> nat \<Rightarrow> (int \<times> io) c" where
  "putc io c f =
     do { F0 \<leftarrow> rd (iob io) f;
          let F = F0\<lparr>last_op := FL_WRITE\<rparr>;
          if buff_cnt F > 0
          then do { b \<leftarrow> buf_write (buff F) (nxt F) (to_char c);
                    Some (schar (to_char c), put_file io f (F\<lparr>buff_cnt := buff_cnt F - 1, buff := b, nxt := nxt F + 1\<rparr>)) }
          else flushbuf (put_file io f F) c f }"

definition fflush :: "io \<Rightarrow> nat \<Rightarrow> (int \<times> io) c" where
  "fflush io f =
     do { F \<leftarrow> rd (iob io) f;
          if flags F AND FL_WRITE \<noteq> 0 \<and> flags F AND FL_UNBUF = 0 \<and> buff F \<noteq> Null
             \<and> nxt F > 0 \<and> last_op F = FL_WRITE
          then do { s \<leftarrow> (case buff F of Buf s \<Rightarrow> Some s | _ \<Rightarrow> None);
                    let (write_res, w1) = sys_write (wld io) (fd F) (take (nxt F) s);
                    Some (if write_res = 0 then 0 else EOF,
                      (put_file io f (F\<lparr>nxt := 0, buff_cnt := int BUFF_SIZE\<rparr>))\<lparr>wld := w1\<rparr>) }
          else Some (EOF, io) }"

text \<open>The mode string: flags for \<open>open\<close> and for the library.\<close>

definition fopen_mode :: "string \<Rightarrow> (int \<times> int) option" where
  "fopen_mode mode =
     (if mode \<in> {''r'', ''rb''} then Some (O_RDONLY, FL_READ)
      else if mode \<in> {''r+'', ''r+b'', ''rb+''} then Some (O_RDWR, FL_READ)
      else if mode \<in> {''w'', ''wb''} then Some (O_WRONLY OR O_CREAT OR O_TRUNC, FL_WRITE)
      else if mode \<in> {''w+'', ''w+b'', ''wb+''} then Some (O_RDWR OR O_CREAT OR O_TRUNC, FL_WRITE)
      else if mode \<in> {''a'', ''ab''} then Some (O_WRONLY OR O_CREAT OR O_APPEND, FL_WRITE)
      else if mode \<in> {''a+'', ''a+b'', ''ab+''} then Some (O_RDWR OR O_CREAT OR O_APPEND, FL_WRITE)
      else None)"

definition free_slot :: "FILE list \<Rightarrow> nat" where
  "free_slot fs = length (takeWhile (\<lambda>F. flags F \<noteq> 0) (take OPEN_MAX fs))"

definition fopen :: "io \<Rightarrow> string \<Rightarrow> string \<Rightarrow> nat option \<times> io" where
  "fopen io name mode =
     (case fopen_mode mode of
        None \<Rightarrow> (None, io)
      | Some (oflags, iolib_flags) \<Rightarrow>
          let slot = free_slot (iob io)
          in if slot = OPEN_MAX then (None, io)
             else let (d, w1) = sys_open (wld io) name oflags
                  in if d < 0 then (None, io\<lparr>wld := w1\<rparr>)
                     else (Some slot, (put_file io slot ((iob io ! slot)\<lparr>buff_cnt := 0, nxt := 0, buff := Null,
                             flags := iolib_flags, fd := d\<rparr>))\<lparr>wld := w1\<rparr>))"

definition fclose :: "io \<Rightarrow> nat option \<Rightarrow> (int \<times> io) c" where
  "fclose io p =
     (case p of
        None \<Rightarrow> Some (EOF, io)
      | Some f \<Rightarrow>
          do { (flush_res, io1) \<leftarrow> fflush io f;
               F \<leftarrow> rd (iob io1) f;
               let (close_res, w1) = sys_close (wld io1) (fd F);
               b \<leftarrow> free_buf (buff F);
               Some (if flush_res = 0 \<and> close_res = 0 then 0 else EOF, (put_file io1 f (F\<lparr>buff := b\<rparr>))\<lparr>wld := w1\<rparr>) })"

text \<open>The loop that copies one file to another; \<open>None\<close> if it did not end.\<close>

partial_function (option) copy_file :: "io \<Rightarrow> nat \<Rightarrow> nat \<Rightarrow> io option" where
  "copy_file io src dst =
     do { (x, io1) \<leftarrow> getc io src;
          if x = EOF then Some io1
          else do { (_, io2) \<leftarrow> putc io1 x dst; copy_file io2 src dst } }"

definition stdio_main :: "world \<Rightarrow> io c" where
  "stdio_main w0 =
     do { io1 \<leftarrow> copy_file \<lparr>iob = iob0, wld = w0\<rparr> 0 1;
          (_, io2) \<leftarrow> fflush io1 1;
          (case fopen io2 ''stdio.c'' ''r'' of
             (None, io3) \<Rightarrow> Some io3
           | (Some src, io3) \<Rightarrow>
               (case fopen io3 ''stdio_copy.c'' ''w'' of
                  (None, io4) \<Rightarrow> Some io4
                | (Some dst, io4) \<Rightarrow>
                    do { io5 \<leftarrow> copy_file io4 src dst;
                         (_, io6) \<leftarrow> fclose io5 (Some src);
                         (_, io7) \<leftarrow> fclose io6 (Some dst);
                         Some io7 })) }"

end
