(* ===== verification/Stdio_Copy.thy ===== *)
theory Stdio_Copy
  imports Stdio_Lib
begin

text \<open>
  What a \<open>FILE\<close> of the library stands for: a file open for reading is the sequence of the bytes still
  to be delivered, in its buffer and beyond; a file open for writing is the sequence of the bytes accepted
  so far, on disk and in its buffer. Reading and writing refine these, and copying is exact.
\<close>

lemmas fl_defs = FL_READ_def FL_WRITE_def FL_EOF_def FL_ERR_def FL_UNBUF_def

lemma uchar_range: "0 \<le> uchar x \<and> uchar x < 256"
  using nat_of_char_less_256[of x] by (simp add: uchar_def)

lemma to_char_uchar [simp]: "to_char (uchar x) = x"
  using uchar_range[of x] by (simp add: to_char_def uchar_def)

lemma uchar_not_EOF [simp]: "uchar x \<noteq> EOF"
  using uchar_range[of x] by (simp add: EOF_def)

lemma put_file_same: "f < length (iob io) \<Longrightarrow> put_file io f (iob io ! f) = io"
  by (cases io) (simp add: put_file_def)

definition reading :: "FILE \<Rightarrow> world \<Rightarrow> string \<Rightarrow> string \<Rightarrow> bool" where
  "reading F w nm s \<longleftrightarrow> 0 \<le> fd F \<and> (\<exists>e c. fd_entry w (fd F) = Some e \<and> fname e = nm \<and> files w nm = Some c
     \<and> oflag e AND 3 \<noteq> O_WRONLY
     \<and> (flags F = FL_READ \<or> flags F = (FL_READ OR FL_EOF) \<and> s = [] \<and> buff_cnt F = 0)
     \<and> (case buff F of
          Null \<Rightarrow> buff_cnt F = 0 \<and> s = drop (pos e) c
        | Buf b \<Rightarrow> 0 \<le> buff_cnt F \<and> nxt F + nat (buff_cnt F) \<le> length b \<and> length b = BUFF_SIZE
            \<and> s = take (nat (buff_cnt F)) (drop (nxt F) b) @ drop (pos e) c
        | Freed \<Rightarrow> False))"

definition writing :: "FILE \<Rightarrow> world \<Rightarrow> string \<Rightarrow> string \<Rightarrow> bool" where
  "writing F w nm t \<longleftrightarrow> 0 \<le> fd F \<and> flags F = FL_WRITE \<and> (\<exists>e c. fd_entry w (fd F) = Some e \<and> fname e = nm
     \<and> files w nm = Some c \<and> oflag e AND 3 \<noteq> O_RDONLY \<and> pos e = length c
     \<and> (case buff F of
          Null \<Rightarrow> buff_cnt F = 0 \<and> t = c
        | Buf b \<Rightarrow> length b = BUFF_SIZE \<and> nxt F \<le> BUFF_SIZE \<and> buff_cnt F = int BUFF_SIZE - int (nxt F)
            \<and> t = c @ take (nxt F) b \<and> last_op F = FL_WRITE
        | Freed \<Rightarrow> False))"

lemma reading_frame:
  "reading F w nm s \<Longrightarrow> fd_entry w' (fd F) = fd_entry w (fd F) \<Longrightarrow> files w' nm = files w nm \<Longrightarrow> reading F w' nm s"
  unfolding reading_def by auto

lemma writing_frame:
  "writing F w nm s \<Longrightarrow> fd_entry w' (fd F) = fd_entry w (fd F) \<Longrightarrow> files w' nm = files w nm \<Longrightarrow> writing F w' nm s"
  unfolding writing_def by auto

lemma reading_last_op [simp]: "reading (F\<lparr>last_op := p\<rparr>) w nm s \<longleftrightarrow> reading F w nm s"
  by (cases "buff F") (simp_all add: reading_def)

subsection \<open>Reading a character\<close>

text \<open>The next character, taken from the buffer.\<close>

lemma reading_pop:
  assumes "reading F w nm s" and "0 < buff_cnt F"
  shows "\<exists>x s'. s = x # s' \<and> buf_read (buff F) (nxt F) = Some x
    \<and> reading (F\<lparr>buff_cnt := buff_cnt F - 1, nxt := nxt F + 1\<rparr>) w nm s'"
proof -
  obtain b where b: "buff F = Buf b" using assms by (cases "buff F") (auto simp: reading_def)
  obtain e c where *: "fd_entry w (fd F) = Some e" "fname e = nm" "files w nm = Some c" "oflag e AND 3 \<noteq> O_WRONLY"
    "0 \<le> fd F" "flags F = FL_READ" "buff F = Buf b" "nxt F + nat (buff_cnt F) \<le> length b" "length b = BUFF_SIZE"
    "s = take (nat (buff_cnt F)) (drop (nxt F) b) @ drop (pos e) c"
    using assms b by (auto simp: reading_def)
  obtain n where n: "nat (buff_cnt F) = Suc n" using assms(2) by (cases "nat (buff_cnt F)") auto
  then have cnt: "buff_cnt F = 1 + int n" by simp
  have lt: "nxt F < length b" using * n by simp
  then have "drop (nxt F) b = b ! nxt F # drop (Suc (nxt F)) b" by (simp add: Cons_nth_drop_Suc)
  with * n have "s = b ! nxt F # take n (drop (Suc (nxt F)) b) @ drop (pos e) c" by simp
  moreover have "reading (F\<lparr>buff_cnt := buff_cnt F - 1, nxt := nxt F + 1\<rparr>) w nm
      (take n (drop (Suc (nxt F)) b) @ drop (pos e) c)"
    using * n by (simp add: reading_def cnt)
  ultimately show ?thesis using *(7) lt by (auto simp: buf_read_def)
qed

text \<open>The next buffer from the file.\<close>

definition next_char :: "string \<Rightarrow> int" where
  "next_char s = (case s of [] \<Rightarrow> EOF | x # _ \<Rightarrow> uchar x)"

lemma fillbuff_ok:
  assumes f: "f < length (iob io)" "iob io ! f = F" and rdg: "reading F (wld io) nm s" and ok: "env_ok (wld io)"
    and cnt: "buff_cnt F = 0"
  shows "\<exists>F' w'. fillbuff io f = Some (next_char s, (put_file io f F')\<lparr>wld := w'\<rparr>)
    \<and> reading F' w' nm (tl s) \<and> fd F' = fd F \<and> files w' = files (wld io) \<and> fd_step (wld io) (fd F) w'"
proof -
  obtain e c where e: "0 \<le> fd F" "fd_entry (wld io) (fd F) = Some e" "fname e = nm" "files (wld io) nm = Some c" "oflag e AND 3 \<noteq> O_WRONLY"
    "flags F = FL_READ \<or> flags F = (FL_READ OR FL_EOF) \<and> s = []"
    and s: "s = drop (pos e) c" and nf: "buff F \<noteq> Freed" "\<And>b. buff F = Buf b \<Longrightarrow> length b = BUFF_SIZE"
    using rdg cnt by (cases "buff F") (auto simp: reading_def)
  show ?thesis
  proof (cases "flags F = FL_READ")
    case False
    with e(6) have "fillbuff io f = Some (EOF, io)" using f by (simp add: fillbuff_def fl_defs)
    moreover have "s = []" "put_file io f F = io" using False e(6) f put_file_same[of f io] by auto
    ultimately show ?thesis using rdg by (intro exI[of _ F] exI[of _ "wld io"]) (auto simp: next_char_def)
  next
    case True
    obtain old w1 where mb: "(if buff F = Null then malloc_buf (wld io) BUFF_SIZE else (buff F, wld io)) = (Buf old, w1)"
      and old: "length old = BUFF_SIZE" and w1: "w1 = wld io \<or> w1 = tick (wld io)"
      using nf ok by (cases "buff F") (auto simp: malloc_buf_def env_ok_def)
    have w1': "env_ok w1" "fd_entry w1 (fd F) = Some e" "files w1 = files (wld io)" "fd_step (wld io) (fd F) w1"
      using w1 ok e(2) by auto
    obtain bs w2 where r: "sys_read w1 (fd F) BUFF_SIZE = (int (length bs), bs, w2)" "length bs \<le> BUFF_SIZE"
      "bs = [] \<longleftrightarrow> drop (pos e) c = []" "bs @ drop (pos e + length bs) c = drop (pos e) c"
      "fd_entry w2 (fd F) = Some (e\<lparr>pos := pos e + length bs\<rparr>)" "files w2 = files w1" "fd_step w1 (fd F) w2"
      using sys_read_ok[OF w1'(1,2) e(1) _ e(5), of c BUFF_SIZE] w1'(3) e(3,4) by (auto simp: BUFF_SIZE_def)
    define F2 where "F2 = F\<lparr>nxt := 0, buff := Buf (bs @ drop (length bs) old), buff_cnt := int (length bs)\<rparr>"
    have fr: "files w2 = files (wld io)" "fd_step (wld io) (fd F) w2" "fd F2 = fd F" "flags F2 = FL_READ"
      using r w1' True fd_step_trans by (auto simp: F2_def)
    have call: "fillbuff io f = (if bs = [] then Some (EOF, (put_file io f (F2\<lparr>flags := flags F2 OR FL_EOF\<rparr>))\<lparr>wld := w2\<rparr>)
      else do { x \<leftarrow> buf_read (buff F2) (nxt F2);
                Some (uchar x, (put_file io f (F2\<lparr>buff_cnt := buff_cnt F2 - 1, nxt := nxt F2 + 1\<rparr>))\<lparr>wld := w2\<rparr>) })"
      using f True mb r(1) by (simp add: fillbuff_def fl_defs F2_def Let_def)
    have rdg2: "reading F2 w2 nm s"
      using e r s old fr(1) True by (auto simp: reading_def F2_def)
    show ?thesis
    proof (cases "bs = []")
      case True
      then have "s = []" using r(3) s by simp
      moreover have "reading (F2\<lparr>flags := flags F2 OR FL_EOF\<rparr>) w2 nm []"
        using rdg2 True \<open>s = []\<close> fr(4) by (auto simp: reading_def F2_def)
      ultimately show ?thesis using call True fr
        by (intro exI[of _ "F2\<lparr>flags := flags F2 OR FL_EOF\<rparr>"] exI[of _ w2]) (simp add: next_char_def)
    next
      case False
      obtain x s' where "s = x # s'" "buf_read (buff F2) (nxt F2) = Some x"
        "reading (F2\<lparr>buff_cnt := buff_cnt F2 - 1, nxt := nxt F2 + 1\<rparr>) w2 nm s'"
        using reading_pop[OF rdg2] False by (auto simp: F2_def)
      with call False fr show ?thesis
        by (intro exI[of _ "F2\<lparr>buff_cnt := buff_cnt F2 - 1, nxt := nxt F2 + 1\<rparr>"] exI[of _ w2]) (simp add: next_char_def)
    qed
  qed
qed

lemma getc_ok:
  assumes f: "f < length (iob io)" "iob io ! f = F" and rdg: "reading F (wld io) nm s" and ok: "env_ok (wld io)"
  shows "\<exists>F' w'. getc io f = Some (next_char s, (put_file io f F')\<lparr>wld := w'\<rparr>)
    \<and> reading F' w' nm (tl s) \<and> fd F' = fd F \<and> files w' = files (wld io) \<and> fd_step (wld io) (fd F) w'"
proof (cases "buff_cnt F > 0")
  case True
  obtain x s' where "s = x # s'" "buf_read (buff F) (nxt F) = Some x"
    "reading (F\<lparr>last_op := FL_READ, buff_cnt := buff_cnt F - 1, nxt := nxt F + 1\<rparr>) (wld io) nm s'"
    using reading_pop[of "F\<lparr>last_op := FL_READ\<rparr>"] rdg True by force
  moreover have "io\<lparr>wld := wld io\<rparr> = io" by simp
  ultimately show ?thesis using True f
    by (intro exI[of _ "F\<lparr>last_op := FL_READ, buff_cnt := buff_cnt F - 1, nxt := nxt F + 1\<rparr>"] exI[of _ "wld io"])
       (simp add: getc_def next_char_def put_file_def Let_def)
next
  case False
  let ?F = "F\<lparr>last_op := FL_READ\<rparr>" and ?io = "put_file io f (F\<lparr>last_op := FL_READ\<rparr>)"
  have "buff_cnt F = 0" using rdg False by (cases "buff F") (auto simp: reading_def)
  moreover have "reading ?F (wld ?io) nm s" using rdg by (simp add: put_file_def)
  ultimately obtain F' w' where "fillbuff ?io f = Some (next_char s, (put_file ?io f F')\<lparr>wld := w'\<rparr>)"
    "reading F' w' nm (tl s)" "fd F' = fd F" "files w' = files (wld io)" "fd_step (wld io) (fd F) w'"
    using fillbuff_ok[of f ?io ?F nm s] f ok by (auto simp: put_file_def)
  moreover have "(put_file ?io f F') = put_file io f F'" by (simp add: put_file_def)
  ultimately show ?thesis using f False by (auto simp: getc_def Let_def)
qed

subsection \<open>Writing a character\<close>

lemma writing_last_op: "writing F w nm t \<Longrightarrow> writing (F\<lparr>last_op := FL_WRITE\<rparr>) w nm t"
  by (cases "buff F") (auto simp: writing_def)

lemma writing_push:
  assumes "writing F w nm t" and "0 < buff_cnt F"
  shows "\<exists>b. buf_write (buff F) (nxt F) x = Some b
    \<and> writing (F\<lparr>buff_cnt := buff_cnt F - 1, buff := b, nxt := nxt F + 1\<rparr>) w nm (t @ [x])"
proof -
  obtain b where b: "buff F = Buf b" using assms by (cases "buff F") (auto simp: writing_def)
  then have "nxt F < length b" using assms by (auto simp: writing_def)
  with assms b show ?thesis
    by (auto simp: writing_def buf_write_def take_Suc_conv_app_nth)
qed

lemma flushbuf_ok:
  assumes f: "f < length (iob io)" "iob io ! f = F" and wrg: "writing F (wld io) nm t" and ok: "env_ok (wld io)"
    and cnt: "\<not> 0 < buff_cnt F" and lo: "last_op F = FL_WRITE"
  shows "\<exists>F' w' r. flushbuf io x f = Some (r, (put_file io f F')\<lparr>wld := w'\<rparr>)
    \<and> writing F' w' nm (t @ [to_char x]) \<and> fd F' = fd F \<and> (\<forall>k. k \<noteq> nm \<longrightarrow> files w' k = files (wld io) k)
    \<and> fd_step (wld io) (fd F) w'"
proof -
  obtain e c where e: "0 \<le> fd F" "fd_entry (wld io) (fd F) = Some e" "fname e = nm" "files (wld io) nm = Some c"
    "oflag e AND 3 \<noteq> O_RDONLY" "pos e = length c" and fl: "flags F = FL_WRITE"
    using wrg by (auto simp: writing_def)
  obtain F2 w2 where F2: "writing F2 w2 nm t" "0 < buff_cnt F2" "fd F2 = fd F"
    "\<forall>k. k \<noteq> nm \<longrightarrow> files w2 k = files (wld io) k" "fd_step (wld io) (fd F) w2"
    and call: "flushbuf io x f = do { b \<leftarrow> buf_write (buff F2) (nxt F2) (to_char x);
        Some (uchar (to_char x), (put_file io f (F2\<lparr>buff_cnt := buff_cnt F2 - 1, buff := b, nxt := nxt F2 + 1\<rparr>))\<lparr>wld := w2\<rparr>) }"
  proof (cases "buff F")
    case Null
    let ?F = "F\<lparr>buff := Buf (replicate BUFF_SIZE CHR 0x00), buff_cnt := int BUFF_SIZE, nxt := 0\<rparr>"
    have m: "malloc_buf (wld io) BUFF_SIZE = (Buf (replicate BUFF_SIZE CHR 0x00), tick (wld io))"
      using ok by (simp add: malloc_buf_def env_ok_def)
    show ?thesis
    proof (rule that[of ?F "tick (wld io)"])
      show "writing ?F (tick (wld io)) nm t" using wrg Null lo by (auto simp: writing_def)
      show "flushbuf io x f = do { b \<leftarrow> buf_write (buff ?F) (nxt ?F) (to_char x);
        Some (uchar (to_char x), (put_file io f (?F\<lparr>buff_cnt := buff_cnt ?F - 1, buff := b, nxt := nxt ?F + 1\<rparr>))\<lparr>wld := tick (wld io)\<rparr>) }"
        using f fl Null m by (simp add: flushbuf_def fl_defs)
    qed (simp_all add: BUFF_SIZE_def)
  next
    case (Buf b)
    then have b: "length b = BUFF_SIZE" "nxt F = BUFF_SIZE" "t = c @ b" using wrg cnt e(4) by (auto simp: writing_def)
    obtain w' where w': "sys_write (wld io) (fd F) b = (int (length b), w')" "files w' = (files (wld io))(nm \<mapsto> c @ b)"
      "fd_entry w' (fd F) = Some (e\<lparr>pos := length (c @ b)\<rparr>)" "fd_step (wld io) (fd F) w'"
      using sys_write_ok[OF ok e(2,1) _ e(5,6), of b] e(3,4) b by (auto simp: BUFF_SIZE_def)
    let ?F = "F\<lparr>nxt := 0, buff_cnt := int BUFF_SIZE\<rparr>"
    have "writing ?F w' nm t" using e fl Buf b w' lo by (auto simp: writing_def)
    moreover have "flushbuf io x f = do { y \<leftarrow> buf_write (buff ?F) (nxt ?F) (to_char x);
        Some (uchar (to_char x), (put_file io f (?F\<lparr>buff_cnt := buff_cnt ?F - 1, buff := y, nxt := nxt ?F + 1\<rparr>))\<lparr>wld := w'\<rparr>) }"
      using f fl Buf b w'(1) by (simp add: flushbuf_def fl_defs) (simp add: BUFF_SIZE_def)
    ultimately show ?thesis using w' by (intro that[of ?F w']) (simp_all add: BUFF_SIZE_def)
  next
    case Freed
    with wrg show ?thesis by (simp add: writing_def)
  qed
  obtain b where "buf_write (buff F2) (nxt F2) (to_char x) = Some b"
    "writing (F2\<lparr>buff_cnt := buff_cnt F2 - 1, buff := b, nxt := nxt F2 + 1\<rparr>) w2 nm (t @ [to_char x])"
    using writing_push[OF F2(1,2)] by blast
  with call F2(3-5) show ?thesis
    by (intro exI[of _ "F2\<lparr>buff_cnt := buff_cnt F2 - 1, buff := b, nxt := nxt F2 + 1\<rparr>"] exI[of _ w2]) simp
qed

lemma putc_ok:
  assumes f: "f < length (iob io)" "iob io ! f = F" and wrg: "writing F (wld io) nm t" and ok: "env_ok (wld io)"
  shows "\<exists>F' w' r. putc io x f = Some (r, (put_file io f F')\<lparr>wld := w'\<rparr>)
    \<and> writing F' w' nm (t @ [to_char x]) \<and> fd F' = fd F \<and> (\<forall>k. k \<noteq> nm \<longrightarrow> files w' k = files (wld io) k)
    \<and> fd_step (wld io) (fd F) w'"
proof (cases "buff_cnt F > 0")
  case True
  let ?F = "F\<lparr>last_op := FL_WRITE\<rparr>"
  obtain b where "buf_write (buff F) (nxt F) (to_char x) = Some b"
    "writing (?F\<lparr>buff_cnt := buff_cnt F - 1, buff := b, nxt := nxt F + 1\<rparr>) (wld io) nm (t @ [to_char x])"
    using writing_push[OF writing_last_op[OF wrg], of "to_char x"] True by auto
  then show ?thesis using True f
    by (intro exI[of _ "?F\<lparr>buff_cnt := buff_cnt F - 1, buff := b, nxt := nxt F + 1\<rparr>"] exI[of _ "wld io"])
       (auto simp: putc_def put_file_def Let_def)
next
  case False
  let ?F = "F\<lparr>last_op := FL_WRITE\<rparr>" and ?io = "put_file io f (F\<lparr>last_op := FL_WRITE\<rparr>)"
  have "writing ?F (wld ?io) nm t" using writing_last_op[OF wrg] by (simp add: put_file_def)
  then obtain F' w' r where "flushbuf ?io x f = Some (r, (put_file ?io f F')\<lparr>wld := w'\<rparr>)"
    "writing F' w' nm (t @ [to_char x])" "fd F' = fd F" "\<forall>k. k \<noteq> nm \<longrightarrow> files w' k = files (wld io) k" "fd_step (wld io) (fd F) w'"
    using flushbuf_ok[of f ?io ?F nm t x] f ok False by (auto simp: put_file_def)
  moreover have "put_file ?io f F' = put_file io f F'" by (simp add: put_file_def)
  ultimately show ?thesis using f False by (auto simp: putc_def Let_def)
qed

text \<open>Flushing puts all that was accepted on disk.\<close>

lemma fflush_ok:
  assumes f: "f < length (iob io)" "iob io ! f = F" and wrg: "writing F (wld io) nm t" and ok: "env_ok (wld io)"
  shows "\<exists>F' w' r. fflush io f = Some (r, (put_file io f F')\<lparr>wld := w'\<rparr>)
    \<and> writing F' w' nm t \<and> fd F' = fd F \<and> files w' = (files (wld io))(nm \<mapsto> t) \<and> fd_step (wld io) (fd F) w'"
proof -
  obtain e c where e: "0 \<le> fd F" "fd_entry (wld io) (fd F) = Some e" "fname e = nm" "files (wld io) nm = Some c"
    "oflag e AND 3 \<noteq> O_RDONLY" "pos e = length c" and fl: "flags F = FL_WRITE"
    using wrg by (auto simp: writing_def)
  show ?thesis
  proof (cases "buff F = Null \<or> nxt F = 0")
    case True
    then have "t = c" using wrg e by (auto simp: writing_def split: buffer.splits)
    with e(4) have "files (wld io) = (files (wld io))(nm \<mapsto> t)" by auto
    moreover have "fflush io f = Some (EOF, io)" using True f by (auto simp: fflush_def)
    moreover have "(put_file io f F)\<lparr>wld := wld io\<rparr> = io" using f put_file_same[of f io] by simp
    ultimately show ?thesis using wrg by (intro exI[of _ F] exI[of _ "wld io"]) auto
  next
    case False
    then obtain b where b: "buff F = Buf b" using wrg by (cases "buff F") (auto simp: writing_def)
    then have n: "nxt F \<le> BUFF_SIZE" "length b = BUFF_SIZE" "t = c @ take (nxt F) b" "last_op F = FL_WRITE"
      using wrg e(4) by (auto simp: writing_def)
    obtain w' where w': "sys_write (wld io) (fd F) (take (nxt F) b) = (int (length (take (nxt F) b)), w')"
      "files w' = (files (wld io))(nm \<mapsto> t)" "fd_entry w' (fd F) = Some (e\<lparr>pos := length t\<rparr>)" "fd_step (wld io) (fd F) w'"
      using sys_write_ok[OF ok e(2,1) _ e(5,6), of "take (nxt F) b"] e(3,4) n by (auto simp: BUFF_SIZE_def)
    let ?F = "F\<lparr>nxt := 0, buff_cnt := int BUFF_SIZE\<rparr>"
    have "writing ?F w' nm t" using e fl b n w' by (auto simp: writing_def)
    moreover have "fflush io f = Some (if int (nxt F) = 0 then 0 else EOF, (put_file io f ?F)\<lparr>wld := w'\<rparr>)"
      using f fl b n w'(1) False by (simp add: fflush_def fl_defs)
    ultimately show ?thesis using w' by (intro exI[of _ ?F] exI[of _ w'] exI) (rule conjI, assumption, simp)
  qed
qed

subsection \<open>Copying a file\<close>

text \<open>What the copying of one file to another leaves as it was.\<close>

definition copy_frame :: "world \<Rightarrow> int \<Rightarrow> int \<Rightarrow> string \<Rightarrow> world \<Rightarrow> bool" where
  "copy_frame w d1 d2 nm w' \<longleftrightarrow> same_env w w' \<and> length (fds w') = length (fds w)
     \<and> (\<forall>k. k \<noteq> nm \<longrightarrow> files w' k = files w k) \<and> (\<forall>d. d \<noteq> d1 \<longrightarrow> d \<noteq> d2 \<longrightarrow> fd_entry w' d = fd_entry w d)"

lemma copy_frame_read: "fd_step w d1 w' \<Longrightarrow> files w' = files w \<Longrightarrow> copy_frame w d1 d2 nm w'"
  by (simp add: copy_frame_def fd_step_def)

lemma copy_frame_write: "fd_step w d2 w' \<Longrightarrow> \<forall>k. k \<noteq> nm \<longrightarrow> files w' k = files w k \<Longrightarrow> copy_frame w d1 d2 nm w'"
  by (simp add: copy_frame_def fd_step_def)

lemma copy_frame_trans: "copy_frame w d1 d2 nm w1 \<Longrightarrow> copy_frame w1 d1 d2 nm w2 \<Longrightarrow> copy_frame w d1 d2 nm w2"
  by (auto simp: copy_frame_def same_env_def)

lemma copy_frame_env: "copy_frame w d1 d2 nm w' \<Longrightarrow> env_ok w \<Longrightarrow> env_ok w'"
  by (auto simp: copy_frame_def intro: env_ok_same)

lemma put_file_simps [simp]:
  "iob (put_file io f F) = (iob io)[f := F]" "wld (put_file io f F) = wld io"
  by (simp_all add: put_file_def)

lemma copy_file_ok:
  assumes "src \<noteq> dst" and "src < length (iob io)" and "dst < length (iob io)"
    and "reading (iob io ! src) (wld io) ns s" and "writing (iob io ! dst) (wld io) nd t"
    and "fd (iob io ! src) = d1" and "fd (iob io ! dst) = d2" and "d1 \<noteq> d2" and "ns \<noteq> nd" and "env_ok (wld io)"
  shows "\<exists>F G w'. copy_file io src dst = Some \<lparr>iob = (iob io)[src := F, dst := G], wld = w'\<rparr>
    \<and> reading F w' ns [] \<and> writing G w' nd (t @ s) \<and> fd F = d1 \<and> fd G = d2 \<and> copy_frame (wld io) d1 d2 nd w'"
  using assms(2-7,10)
proof (induction s arbitrary: io t)
  case Nil
  obtain F w1 where g: "getc io src = Some (EOF, (put_file io src F)\<lparr>wld := w1\<rparr>)" "reading F w1 ns []" "fd F = d1"
    "files w1 = files (wld io)" "fd_step (wld io) d1 w1"
    using getc_ok[OF Nil.prems(1) refl Nil.prems(3,7)] Nil.prems(5) by (auto simp: next_char_def)
  have "writing (iob io ! dst) w1 nd t"
    using Nil.prems(6) g(4,5) assms(8) by (intro writing_frame[OF Nil.prems(4)]) (auto simp: fd_step_def)
  moreover have "(put_file io src F)\<lparr>wld := w1\<rparr> = \<lparr>iob = (iob io)[src := F, dst := iob io ! dst], wld = w1\<rparr>"
    using list_update_id[of "(iob io)[src := F]" dst] assms(1) by (cases io) (simp add: put_file_def)
  moreover have "copy_file io src dst = Some ((put_file io src F)\<lparr>wld := w1\<rparr>)"
    by (subst copy_file.simps) (simp add: g(1))
  ultimately show ?case using g(2,3) Nil.prems(6) copy_frame_read[OF g(5,4)]
    by (intro exI[of _ F] exI[of _ "iob io ! dst"] exI[of _ w1]) simp
next
  case (Cons x s)
  obtain F w1 where g: "getc io src = Some (uchar x, (put_file io src F)\<lparr>wld := w1\<rparr>)" "reading F w1 ns s" "fd F = d1"
    "files w1 = files (wld io)" "fd_step (wld io) d1 w1"
    using getc_ok[OF Cons.prems(1) refl Cons.prems(3,7)] Cons.prems(5) by (auto simp: next_char_def)
  let ?io1 = "(put_file io src F)\<lparr>wld := w1\<rparr>"
  have w1: "writing (iob ?io1 ! dst) (wld ?io1) nd t" "env_ok (wld ?io1)"
    using Cons.prems(6,7) g(4,5) assms(1,8) writing_frame[OF Cons.prems(4)] env_ok_same[of "wld io" w1]
    by (simp_all add: fd_step_def)
  obtain G w2 r where p: "putc ?io1 (uchar x) dst = Some (r, (put_file ?io1 dst G)\<lparr>wld := w2\<rparr>)"
    "writing G w2 nd (t @ [x])" "fd G = d2" "\<forall>k. k \<noteq> nd \<longrightarrow> files w2 k = files w1 k" "fd_step w1 d2 w2"
    using putc_ok[OF _ refl w1, of "uchar x"] Cons.prems(2,6) assms(1) by (auto simp: to_char_uchar)
  let ?io2 = "(put_file ?io1 dst G)\<lparr>wld := w2\<rparr>"
  have f: "copy_frame (wld io) d1 d2 nd w2"
    using copy_frame_trans copy_frame_read[OF g(5,4)] copy_frame_write[OF p(5,4)] by blast
  have rf: "reading F w2 ns s"
    using g(3) p(4,5) assms(8,9) by (intro reading_frame[OF g(2)]) (auto simp: fd_step_def)
  obtain F' G' w' where "copy_file ?io2 src dst = Some \<lparr>iob = (iob ?io2)[src := F', dst := G'], wld = w'\<rparr>"
    "reading F' w' ns []" "writing G' w' nd ((t @ [x]) @ s)" "fd F' = d1" "fd G' = d2" "copy_frame w2 d1 d2 nd w'"
    using Cons.IH[of ?io2 "t @ [x]"] Cons.prems(1,2) assms(1) rf p(2,3) g(3) copy_frame_env[OF f Cons.prems(7)]
    by (auto simp: nth_list_update)
  moreover have "(iob ?io2)[src := F', dst := G'] = (iob io)[src := F', dst := G']"
    using assms(1) by (simp add: list_update_swap[of src dst])
  moreover have "copy_file io src dst = copy_file ?io2 src dst"
    by (subst copy_file.simps) (simp add: g(1) p(1))
  ultimately show ?case using copy_frame_trans[OF f]
    by (intro exI[of _ F'] exI[of _ G'] exI[of _ w']) simp
qed

end
