(* ===== verification/Stdio_Main.thy ===== *)
theory Stdio_Main
  imports Stdio_Copy
begin

text \<open>
  Opening and closing files, and the program of \<open>stdio.c\<close> as a whole.
\<close>

subsection \<open>Opening a file\<close>

definition fds_open :: "world \<Rightarrow> bool" where
  "fds_open w \<longleftrightarrow> (\<forall>i<length (fds w). fds w ! i \<noteq> None)"

lemma alloc_fd_full:
  assumes "\<forall>i<length ds. ds ! i \<noteq> None"
  shows "alloc_fd ds e = (int (length ds), ds @ [Some e])"
proof -
  have t: "takeWhile (\<lambda>d. d \<noteq> None) ds = ds"
    using assms by (simp add: takeWhile_eq_all_conv all_set_conv_all_nth)
  show ?thesis unfolding alloc_fd_def t Let_def by simp
qed

definition opened :: "world \<Rightarrow> string \<Rightarrow> int \<Rightarrow> string \<Rightarrow> world \<Rightarrow> bool" where
  "opened w nm fl s w' \<longleftrightarrow> same_env w w' \<and> files w' = (files w)(nm \<mapsto> s) \<and> length (fds w') = Suc (length (fds w))
     \<and> fds_open w' \<and> fd_entry w' (int (length (fds w))) = Some \<lparr>fname = nm, pos = 0, oflag = fl\<rparr>
     \<and> (\<forall>d. d \<noteq> int (length (fds w)) \<longrightarrow> fd_entry w' d = fd_entry w d)"

lemma sys_open_ok:
  assumes "fds_open w" and "env_ok w" and "files w nm \<noteq> None \<or> fl AND O_CREAT \<noteq> 0"
    and "s = (case files w nm of None \<Rightarrow> [] | Some s \<Rightarrow> if fl AND O_TRUNC \<noteq> 0 then [] else s)"
  shows "\<exists>w'. sys_open w nm fl = (int (length (fds w)), w') \<and> opened w nm fl s w'"
proof -
  let ?e = "\<lparr>fname = nm, pos = 0, oflag = fl\<rparr>"
  let ?w = "tick (w\<lparr>files := (files w)(nm \<mapsto> s), fds := fds w @ [Some ?e]\<rparr>)"
  have a: "alloc_fd (fds w) ?e = (int (length (fds w)), fds w @ [Some ?e])"
    using assms(1) by (simp add: alloc_fd_full fds_open_def)
  have "sys_open w nm fl = (int (length (fds w)), ?w)"
    using assms(2-4) a by (auto simp: sys_open_def env_ok_def Let_def)
  moreover have "opened w nm fl s ?w"
    using assms(1) by (auto simp: opened_def same_env_def fds_open_def fd_entry_def nth_append tick_def less_Suc_eq)
  ultimately show ?thesis by blast
qed

lemma fopen_ok:
  assumes "free_slot (iob io) = k" and "k < OPEN_MAX" and "fopen_mode m = Some (fl, lf)"
    and "fds_open (wld io)" and "env_ok (wld io)" and "files (wld io) nm \<noteq> None \<or> fl AND O_CREAT \<noteq> 0"
    and "s = (case files (wld io) nm of None \<Rightarrow> [] | Some s \<Rightarrow> if fl AND O_TRUNC \<noteq> 0 then [] else s)"
  shows "\<exists>F w'. fopen io nm m = (Some k, \<lparr>iob = (iob io)[k := F], wld = w'\<rparr>) \<and> opened (wld io) nm fl s w'
    \<and> buff_cnt F = 0 \<and> buff F = Null \<and> flags F = lf \<and> fd F = int (length (fds (wld io)))"
proof -
  obtain w' where w': "sys_open (wld io) nm fl = (int (length (fds (wld io))), w')" "opened (wld io) nm fl s w'"
    using sys_open_ok[OF assms(4-7)] by blast
  let ?F = "(iob io ! k)\<lparr>buff_cnt := 0, nxt := 0, buff := Null, flags := lf, fd := int (length (fds (wld io)))\<rparr>"
  have "fopen io nm m = (Some k, (put_file io k ?F)\<lparr>wld := w'\<rparr>)"
    using assms(1-3) w'(1) by (simp add: fopen_def)
  moreover have "(put_file io k ?F)\<lparr>wld := w'\<rparr> = \<lparr>iob = (iob io)[k := ?F], wld = w'\<rparr>"
    by (cases io) (simp add: put_file_def)
  ultimately show ?thesis using w'(2) by (intro exI[of _ ?F] exI[of _ w']) simp
qed

lemma opened_reading:
  "opened w nm O_RDONLY s w' \<Longrightarrow> buff_cnt F = 0 \<Longrightarrow> buff F = Null \<Longrightarrow> flags F = FL_READ \<Longrightarrow> fd F = int (length (fds w)) \<Longrightarrow>
   reading F w' nm s"
  by (simp add: opened_def reading_def O_RDONLY_def O_WRONLY_def)

lemma opened_writing:
  "opened w nm (O_WRONLY OR O_CREAT OR O_TRUNC) [] w' \<Longrightarrow> buff_cnt F = 0 \<Longrightarrow> buff F = Null \<Longrightarrow> flags F = FL_WRITE \<Longrightarrow>
   fd F = int (length (fds w)) \<Longrightarrow> writing F w' nm []"
  by (simp add: opened_def writing_def oflag_defs)

lemma fopen_r:
  assumes "free_slot (iob io) = k" and "k < OPEN_MAX" and "fds_open (wld io)" and "env_ok (wld io)" and "files (wld io) nm = Some s"
  shows "\<exists>F w'. fopen io nm ''r'' = (Some k, \<lparr>iob = (iob io)[k := F], wld = w'\<rparr>) \<and> opened (wld io) nm O_RDONLY s w'
    \<and> flags F = FL_READ \<and> fd F = int (length (fds (wld io))) \<and> reading F w' nm s"
proof -
  have m: "fopen_mode ''r'' = Some (O_RDONLY, FL_READ)" by (simp add: fopen_mode_def)
  have s: "files (wld io) nm \<noteq> None \<or> O_RDONLY AND O_CREAT \<noteq> 0"
    "s = (case files (wld io) nm of None \<Rightarrow> [] | Some s \<Rightarrow> if O_RDONLY AND O_TRUNC \<noteq> 0 then [] else s)"
    using assms(5) by (simp_all add: oflag_defs)
  from fopen_ok[OF assms(1,2) m assms(3,4) s] opened_reading show ?thesis by blast
qed

lemma fopen_w:
  assumes "free_slot (iob io) = k" and "k < OPEN_MAX" and "fds_open (wld io)" and "env_ok (wld io)"
  shows "\<exists>F w'. fopen io nm ''w'' = (Some k, \<lparr>iob = (iob io)[k := F], wld = w'\<rparr>)
    \<and> opened (wld io) nm (O_WRONLY OR O_CREAT OR O_TRUNC) [] w'
    \<and> fd F = int (length (fds (wld io))) \<and> writing F w' nm []"
proof -
  have m: "fopen_mode ''w'' = Some (O_WRONLY OR O_CREAT OR O_TRUNC, FL_WRITE)" by (simp add: fopen_mode_def)
  let ?fl = "O_WRONLY OR O_CREAT OR O_TRUNC"
  have s: "files (wld io) nm \<noteq> None \<or> ?fl AND O_CREAT \<noteq> 0"
    "[] = (case files (wld io) nm of None \<Rightarrow> [] | Some s \<Rightarrow> if ?fl AND O_TRUNC \<noteq> 0 then [] else s)"
    by (simp_all add: oflag_defs split: option.splits)
  from fopen_ok[OF assms(1,2) m assms(3,4) s] opened_writing show ?thesis by blast
qed

subsection \<open>Closing a file\<close>

lemma sys_close_files: "files (snd (sys_close w d)) = files w"
  by (simp add: sys_close_def set_fd_def)

lemma sys_close_other: "0 \<le> d' \<Longrightarrow> d' \<noteq> d \<Longrightarrow> fd_entry (snd (sys_close w d)) d' = fd_entry w d'"
  by (simp add: sys_close_def)

lemma sys_close_env: "env_ok w \<Longrightarrow> env_ok (snd (sys_close w d))"
  by (simp add: sys_close_def set_fd_def env_ok_def tick_def)

lemma fclose_reading:
  assumes "f < length (iob io)" and "reading (iob io ! f) (wld io) nm s"
  shows "\<exists>F. fclose io (Some f) = Some (EOF, \<lparr>iob = (iob io)[f := F], wld = snd (sys_close (wld io) (fd (iob io ! f)))\<rparr>)"
proof -
  let ?F = "iob io ! f"
  have fl: "flags ?F AND FL_WRITE = 0" using assms(2) by (auto simp: reading_def fl_defs)
  obtain b where b: "free_buf (buff ?F) = Some b"
    using assms(2) by (cases "buff ?F") (auto simp: reading_def free_buf_def)
  obtain r w' where c: "sys_close (wld io) (fd ?F) = (r, w')" by (cases "sys_close (wld io) (fd ?F)")
  have "fclose io (Some f) = Some (EOF, (put_file io f (?F\<lparr>buff := b\<rparr>))\<lparr>wld := w'\<rparr>)"
    using assms(1) fl b c by (simp add: fclose_def fflush_def EOF_def)
  then show ?thesis using c by (cases io) (auto simp: put_file_def)
qed

lemma fclose_writing:
  assumes "f < length (iob io)" and "writing (iob io ! f) (wld io) nm t" and "env_ok (wld io)"
  shows "\<exists>r io'. fclose io (Some f) = Some (r, io') \<and> files (wld io') = (files (wld io))(nm \<mapsto> t)"
proof -
  obtain F w' r where f: "fflush io f = Some (r, (put_file io f F)\<lparr>wld := w'\<rparr>)" "writing F w' nm t"
    "files w' = (files (wld io))(nm \<mapsto> t)"
    using fflush_ok[OF assms(1) refl assms(2,3)] by blast
  obtain b where b: "free_buf (buff F) = Some b"
    using f(2) by (cases "buff F") (auto simp: writing_def free_buf_def)
  obtain x w2 where c: "sys_close w' (fd F) = (x, w2)" by (cases "sys_close w' (fd F)")
  with sys_close_files[of w' "fd F"] f b assms(1) show ?thesis by (auto simp: fclose_def)
qed

subsection \<open>The program\<close>

text \<open>The state in which a process is started, with the bytes \<open>inp\<close> on its standard input.\<close>

definition started :: "world \<Rightarrow> string \<Rightarrow> bool" where
  "started w inp \<longleftrightarrow> env_ok w \<and> fds w = [Some \<lparr>fname = ''<stdin>'', pos = 0, oflag = O_RDONLY\<rparr>,
       Some \<lparr>fname = ''<stdout>'', pos = 0, oflag = O_WRONLY\<rparr>, Some \<lparr>fname = ''<stderr>'', pos = 0, oflag = O_WRONLY\<rparr>]
     \<and> files w ''<stdin>'' = Some inp \<and> files w ''<stdout>'' = Some []"

lemma started_files:
  assumes "started w inp"
  shows "reading (iob0 ! 0) w ''<stdin>'' inp" and "writing (iob0 ! 1) w ''<stdout>'' []"
  using assms by (simp_all add: started_def iob0_def reading_def writing_def fd_entry_def oflag_defs)

lemma length_iob0 [simp]: "length iob0 = OPEN_MAX"
  by (simp add: iob0_def OPEN_MAX_def)

text \<open>The first half: standard input to standard output.\<close>

lemma stdio_first_copy:
  assumes "started w inp"
  shows "\<exists>A B w' io1 r. copy_file \<lparr>iob = iob0, wld = w\<rparr> 0 1 = Some io1
    \<and> fflush io1 1 = Some (r, \<lparr>iob = iob0[0 := A, 1 := B], wld = w'\<rparr>) \<and> flags A \<noteq> 0 \<and> flags B \<noteq> 0
    \<and> env_ok w' \<and> fds_open w' \<and> length (fds w') = 3
    \<and> files w' ''<stdout>'' = Some inp \<and> (\<forall>k. k \<noteq> ''<stdout>'' \<longrightarrow> files w' k = files w k)"
proof -
  let ?io = "\<lparr>iob = iob0, wld = w\<rparr>"
  have ok: "env_ok w" and fd01: "fd (iob0 ! 0) = 0" "fd (iob0 ! 1) = 1" and len: "length (fds w) = 3"
    using assms by (auto simp: started_def iob0_def)
  obtain A B w1 where c: "copy_file ?io 0 1 = Some \<lparr>iob = iob0[0 := A, 1 := B], wld = w1\<rparr>"
    "reading A w1 ''<stdin>'' []" "writing B w1 ''<stdout>'' inp" "fd A = 0" "fd B = 1" "copy_frame w 0 1 ''<stdout>'' w1"
    using copy_file_ok[of 0 1 ?io "''<stdin>''" inp "''<stdout>''" "[]" 0 1] started_files[OF assms] fd01 ok
    by (auto simp: OPEN_MAX_def)
  let ?io1 = "\<lparr>iob = iob0[0 := A, 1 := B], wld = w1\<rparr>"
  have ok1: "env_ok w1" using copy_frame_env[OF c(6) ok] .
  obtain B' w' r where f: "fflush ?io1 1 = Some (r, (put_file ?io1 1 B')\<lparr>wld := w'\<rparr>)" "writing B' w' ''<stdout>'' inp"
    "fd B' = 1" "files w' = (files w1)(''<stdout>'' \<mapsto> inp)" "fd_step w1 1 w'"
    using fflush_ok[of 1 ?io1 B "''<stdout>''" inp] c(3,5) ok1 by (auto simp: OPEN_MAX_def)
  have len': "length (fds w') = 3" using f(5) c(6) len by (simp add: fd_step_def copy_frame_def)
  have e: "fd_entry w' 0 \<noteq> None" "fd_entry w' 1 \<noteq> None" "fd_entry w' 2 \<noteq> None"
    using c(2,4,6) f(2,3,5) assms by (auto simp: reading_def writing_def fd_step_def copy_frame_def started_def fd_entry_def[of w])
  have "fds_open w'"
    using e len' by (auto simp: fds_open_def fd_entry_def numeral_eq_Suc less_Suc_eq)
  moreover have "env_ok w'" using f(5) ok1 env_ok_same by (auto simp: fd_step_def)
  moreover have "flags A \<noteq> 0" "flags B' \<noteq> 0" using c(2) f(2) by (auto simp: reading_def writing_def fl_defs)
  moreover have "(put_file ?io1 1 B')\<lparr>wld := w'\<rparr> = \<lparr>iob = iob0[0 := A, 1 := B'], wld = w'\<rparr>" by (simp add: put_file_def)
  moreover have "files w' ''<stdout>'' = Some inp" "\<forall>k. k \<noteq> ''<stdout>'' \<longrightarrow> files w' k = files w k"
    using f(4) c(6) by (auto simp: copy_frame_def)
  ultimately show ?thesis using c(1) f(1) len'
    by (intro exI[of _ A] exI[of _ B'] exI[of _ w'] exI[of _ ?io1] exI[of _ r]) simp
qed

lemma free_slot_iob0:
  assumes "flags A \<noteq> 0" and "flags B \<noteq> 0"
  shows "free_slot (iob0[0 := A, 1 := B]) = 3" and "flags S \<noteq> 0 \<Longrightarrow> free_slot (iob0[0 := A, 1 := B, 3 := S]) = 4"
  using assms by (simp_all add: free_slot_def iob0_def OPEN_MAX_def fl_defs numeral_eq_Suc)

text \<open>The second half: one named file to another.\<close>

lemma stdio_second_copy:
  assumes fl: "flags A \<noteq> 0" "flags B \<noteq> 0" and w: "env_ok w" "fds_open w" "length (fds w) = 3"
    and src: "files w ''stdio.c'' = Some s"
  shows "\<exists>io3 io4 io5 r6 io6 r7 io7. fopen \<lparr>iob = iob0[0 := A, 1 := B], wld = w\<rparr> ''stdio.c'' ''r'' = (Some 3, io3)
    \<and> fopen io3 ''stdio_copy.c'' ''w'' = (Some 4, io4) \<and> copy_file io4 3 4 = Some io5
    \<and> fclose io5 (Some 3) = Some (r6, io6) \<and> fclose io6 (Some 4) = Some (r7, io7)
    \<and> files (wld io7) = (files w)(''stdio_copy.c'' \<mapsto> s)"
proof -
  let ?io = "\<lparr>iob = iob0[0 := A, 1 := B], wld = w\<rparr>"
  have lt: "3 < OPEN_MAX" "4 < OPEN_MAX" by (simp_all add: OPEN_MAX_def)
  obtain S w3 where S: "fopen ?io ''stdio.c'' ''r'' = (Some 3, \<lparr>iob = (iob ?io)[3 := S], wld = w3\<rparr>)"
    "opened w ''stdio.c'' O_RDONLY s w3" "flags S = FL_READ" "fd S = 3" "reading S w3 ''stdio.c'' s"
    using fopen_r[of ?io 3 "''stdio.c''" s] free_slot_iob0(1)[OF fl] lt w src by auto
  let ?io3 = "\<lparr>iob = (iob ?io)[3 := S], wld = w3\<rparr>"
  have f3: "files w3 = files w" using S(2) src by (auto simp: opened_def)
  have w3: "env_ok w3" "fds_open w3" "length (fds w3) = 4"
    using S(2) w env_ok_same[of w w3] by (simp_all add: opened_def)
  have "flags S \<noteq> 0" using S(3) by (simp add: fl_defs)
  then obtain D w4 where D: "fopen ?io3 ''stdio_copy.c'' ''w'' = (Some 4, \<lparr>iob = (iob ?io3)[4 := D], wld = w4\<rparr>)"
    "opened w3 ''stdio_copy.c'' (O_WRONLY OR O_CREAT OR O_TRUNC) [] w4" "fd D = 4" "writing D w4 ''stdio_copy.c'' []"
    using fopen_w[of ?io3 4 "''stdio_copy.c''"] free_slot_iob0(2)[OF fl] lt w3 by auto
  let ?io4 = "\<lparr>iob = (iob ?io3)[4 := D], wld = w4\<rparr>"
  have r: "reading S w4 ''stdio.c'' s"
    using D(2) S(4) w3(3) by (intro reading_frame[OF S(5)]) (auto simp: opened_def)
  have ok4: "env_ok w4" using D(2) w3(1) env_ok_same[of w3 w4] by (auto simp: opened_def)
  obtain S' D' w5 where c: "copy_file ?io4 3 4 = Some \<lparr>iob = (iob ?io4)[3 := S', 4 := D'], wld = w5\<rparr>"
    "reading S' w5 ''stdio.c'' []" "writing D' w5 ''stdio_copy.c'' s" "fd S' = 3" "fd D' = 4" "copy_frame w4 3 4 ''stdio_copy.c'' w5"
    using copy_file_ok[of 3 4 ?io4 "''stdio.c''" s "''stdio_copy.c''" "[]" 3 4] r D(3,4) S(4) ok4
    by (auto simp: OPEN_MAX_def nth_list_update)
  let ?io5 = "\<lparr>iob = (iob ?io4)[3 := S', 4 := D'], wld = w5\<rparr>"
  obtain S'' where fs: "fclose ?io5 (Some 3) = Some (EOF, \<lparr>iob = (iob ?io5)[3 := S''], wld = snd (sys_close w5 3)\<rparr>)"
    using fclose_reading[of 3 ?io5 "''stdio.c''" "[]"] c(2,4) by (auto simp: OPEN_MAX_def nth_list_update)
  let ?io6 = "\<lparr>iob = (iob ?io5)[3 := S''], wld = snd (sys_close w5 3)\<rparr>"
  have "writing D' (snd (sys_close w5 3)) ''stdio_copy.c'' s"
    using c(5) by (intro writing_frame[OF c(3)]) (simp_all add: sys_close_other sys_close_files)
  then obtain r7 io7 where "fclose ?io6 (Some 4) = Some (r7, io7)" "files (wld io7) = (files w5)(''stdio_copy.c'' \<mapsto> s)"
    using fclose_writing[of 4 ?io6 "''stdio_copy.c''" s] sys_close_env[OF copy_frame_env[OF c(6) ok4]]
    by (auto simp: OPEN_MAX_def nth_list_update sys_close_files)
  moreover have "(files w5)(''stdio_copy.c'' \<mapsto> s) = (files w)(''stdio_copy.c'' \<mapsto> s)"
    using c(6) D(2) f3 by (auto simp: copy_frame_def opened_def)
  ultimately show ?thesis using S(1) D(1) c(1) fs by (metis)
qed

lemma fopen_missing:
  assumes "files (wld io) nm = None"
  shows "\<exists>io'. fopen io nm ''r'' = (None, io') \<and> files (wld io') = files (wld io)"
  using assms by (simp add: fopen_def fopen_mode_def sys_open_def oflag_defs Let_def)

text \<open>
  Property C1. When no call of the environment fails, the library gives back exactly the bytes it was given:
  whatever standard input and \<open>stdio.c\<close> hold (any bytes, any length, also empty), and however the
  reads are cut up, the program ends, has no undefined behaviour, has written its standard input to its
  standard output, and has written \<open>stdio.c\<close>, if there is one, to \<open>stdio_copy.c\<close>; no other
  file changed.
\<close>

theorem stdio_copy_exact:
  assumes "started w inp"
  shows "\<exists>io. stdio_main w = Some io
    \<and> files (wld io) = (case files w ''stdio.c'' of
         None \<Rightarrow> (files w)(''<stdout>'' \<mapsto> inp)
       | Some s \<Rightarrow> (files w)(''<stdout>'' \<mapsto> inp, ''stdio_copy.c'' \<mapsto> s))"
proof -
  obtain A B w' io1 r where c: "copy_file \<lparr>iob = iob0, wld = w\<rparr> 0 1 = Some io1"
    "fflush io1 1 = Some (r, \<lparr>iob = iob0[0 := A, 1 := B], wld = w'\<rparr>)" "flags A \<noteq> 0" "flags B \<noteq> 0"
    "env_ok w'" "fds_open w'" "length (fds w') = 3"
    "files w' ''<stdout>'' = Some inp" "\<forall>k. k \<noteq> ''<stdout>'' \<longrightarrow> files w' k = files w k"
    using stdio_first_copy[OF assms] by (elim exE conjE) (rule that)
  let ?io2 = "\<lparr>iob = iob0[0 := A, 1 := B], wld = w'\<rparr>"
  have "files w' k = ((files w)(''<stdout>'' \<mapsto> inp)) k" for k
    using c(8) c(9)[rule_format, of k] by (cases "k = ''<stdout>''") simp_all
  then have f: "files w' = (files w)(''<stdout>'' \<mapsto> inp)" "files w' ''stdio.c'' = files w ''stdio.c''" by (auto intro: ext)
  show ?thesis
  proof (cases "files w ''stdio.c''")
    case None
    then obtain io3 where "fopen ?io2 ''stdio.c'' ''r'' = (None, io3)" "files (wld io3) = files w'"
      using fopen_missing[of ?io2 "''stdio.c''"] f(2) by auto
    then have "stdio_main w = Some io3" using c(1,2) by (simp add: stdio_main_def)
    then show ?thesis using None f(1) \<open>files (wld io3) = files w'\<close> by simp
  next
    case (Some s)
    obtain io3 io4 io5 r6 io6 r7 io7 where d: "fopen ?io2 ''stdio.c'' ''r'' = (Some 3, io3)"
      "fopen io3 ''stdio_copy.c'' ''w'' = (Some 4, io4)" "copy_file io4 3 4 = Some io5"
      "fclose io5 (Some 3) = Some (r6, io6)" "fclose io6 (Some 4) = Some (r7, io7)"
      "files (wld io7) = (files w')(''stdio_copy.c'' \<mapsto> s)"
      using stdio_second_copy[OF c(3-7) f(2)[unfolded Some]] by (elim exE conjE) (rule that)
    have "stdio_main w = Some io7" using c(1,2) d(1-5) by (simp add: stdio_main_def)
    then show ?thesis using Some d(6) f(1) by simp
  qed
qed

theorem stdio_copy_exact_witness:
  "\<exists>io. stdio_main \<lparr>files = [''<stdin>'' \<mapsto> ''abc'', ''<stdout>'' \<mapsto> [], ''stdio.c'' \<mapsto> ''int x;''],
       fds = [Some \<lparr>fname = ''<stdin>'', pos = 0, oflag = O_RDONLY\<rparr>, Some \<lparr>fname = ''<stdout>'', pos = 0, oflag = O_WRONLY\<rparr>,
              Some \<lparr>fname = ''<stderr>'', pos = 0, oflag = O_WRONLY\<rparr>],
       calls = 0, rsched = \<lambda>n. Some (n mod 3), wsched = \<lambda>n. Some 4096, ofail = \<lambda>_. False, mfail = \<lambda>_. False\<rparr> = Some io
     \<and> files (wld io) ''<stdout>'' = Some ''abc'' \<and> files (wld io) ''stdio_copy.c'' = Some ''int x;''"
  using stdio_copy_exact[of "\<lparr>files = [''<stdin>'' \<mapsto> ''abc'', ''<stdout>'' \<mapsto> [], ''stdio.c'' \<mapsto> ''int x;''],
       fds = [Some \<lparr>fname = ''<stdin>'', pos = 0, oflag = O_RDONLY\<rparr>, Some \<lparr>fname = ''<stdout>'', pos = 0, oflag = O_WRONLY\<rparr>,
              Some \<lparr>fname = ''<stderr>'', pos = 0, oflag = O_WRONLY\<rparr>],
       calls = 0, rsched = \<lambda>n. Some (n mod 3), wsched = \<lambda>n. Some 4096, ofail = \<lambda>_. False, mfail = \<lambda>_. False\<rparr>" "''abc''"]
  by (auto simp: started_def env_ok_def)

end
