(* ===== verification/Rtable.thy ===== *)
theory Rtable
  imports C_Stdio C_Heap "HOL-Library.Word"
begin

unbundle bit_operations_syntax

text \<open>
  \<open>knowledge_based/networking/routing/rtable.c\<close>: a routing table with longest prefix matching, as a
  binary trie on the heap. The static root is the cell at address 0; a field never written is
  \<open>None\<close>. The shifts \<open>1 << 31\<close> and \<open>blocks[0] << 24\<close> overflow a signed
  \<open>int\<close>; they are modelled as the compilers compile them, as shifts of the 32-bit pattern.
\<close>

type_synonym u32 = "32 word"

record trie_node =
  is_end :: nat
  dest :: "u32 option"
  children :: "ptr list"

definition rtable0 :: "(nat \<Rightarrow> bool) \<Rightarrow> trie_node heap" where
  "rtable0 f = \<lparr>cells = [0 \<mapsto> \<lparr>is_end = 1, dest = Some (NOT 0), children = [None, None]\<rparr>], fresh = 1, oom = f\<rparr>"

definition set_defl_gateway :: "trie_node heap \<Rightarrow> u32 \<Rightarrow> trie_node heap c" where
  "set_defl_gateway h ip = store h (Some 0) (\<lambda>n. n\<lparr>dest := Some ip\<rparr>)"

definition curr_val :: "u32 \<Rightarrow> u32 \<Rightarrow> nat" where
  "curr_val ip curr_mask = (if ip AND curr_mask \<noteq> 0 then 1 else 0)"

text \<open>The two loops of \<open>add_entry\<close>: down the nodes that exist, then new nodes.\<close>

partial_function (option) descend :: "trie_node heap \<Rightarrow> u32 \<Rightarrow> u32 \<Rightarrow> u32 \<Rightarrow> ptr \<Rightarrow> (u32 \<times> ptr) option" where
  "descend h ip mask_lim curr_mask curr_node =
     do { n \<leftarrow> deref h curr_node;
          child \<leftarrow> rd (children n) (curr_val ip curr_mask);
          if curr_mask \<noteq> mask_lim \<and> child \<noteq> None
          then descend h ip mask_lim (drop_bit 1 curr_mask) child
          else Some (curr_mask, curr_node) }"

definition new_trie_node :: trie_node where
  "new_trie_node = \<lparr>is_end = 0, dest = None, children = [None, None]\<rparr>"

partial_function (option) extend :: "trie_node heap \<Rightarrow> u32 \<Rightarrow> u32 \<Rightarrow> u32 \<Rightarrow> ptr \<Rightarrow> (trie_node heap \<times> ptr) option" where
  "extend h ip mask_lim curr_mask curr_node =
     (if curr_mask = mask_lim then Some (h, curr_node)
      else case malloc h new_trie_node of
             (None, h1) \<Rightarrow> None
           | (Some p, h1) \<Rightarrow>
               do { h2 \<leftarrow> store h1 curr_node (\<lambda>n. n\<lparr>children := (children n)[curr_val ip curr_mask := Some p]\<rparr>);
                    extend h2 ip mask_lim (drop_bit 1 curr_mask) (Some p) })"

definition add_entry :: "trie_node heap \<Rightarrow> u32 \<Rightarrow> 8 word \<Rightarrow> u32 \<Rightarrow> trie_node heap c" where
  "add_entry h ip cidr_val d =
     do { let curr_mask = push_bit 31 1;
          let mask_lim = (if cidr_val < 32 then push_bit (31 - unat cidr_val) 1 else 0);
          (curr_mask, curr_node) \<leftarrow> descend h ip mask_lim curr_mask (Some 0);
          (h1, curr_node) \<leftarrow> extend h ip mask_lim curr_mask curr_node;
          store h1 curr_node (\<lambda>n. n\<lparr>is_end := 1, dest := Some d\<rparr>) }"

partial_function (option) lookup_loop :: "trie_node heap \<Rightarrow> u32 \<Rightarrow> u32 \<Rightarrow> ptr \<Rightarrow> ptr \<Rightarrow> ptr option" where
  "lookup_loop h ip curr_mask curr_node last_word =
     do { n \<leftarrow> deref h curr_node;
          child \<leftarrow> rd (children n) (curr_val ip curr_mask);
          if child \<noteq> None
          then do { m \<leftarrow> deref h child;
                    lookup_loop h ip (drop_bit 1 curr_mask) child (if is_end m \<noteq> 0 then child else last_word) }
          else Some last_word }"

definition lookup :: "trie_node heap \<Rightarrow> u32 \<Rightarrow> u32 c" where
  "lookup h ip =
     do { last_word \<leftarrow> lookup_loop h ip (push_bit 31 1) (Some 0) (Some 0);
          n \<leftarrow> deref h last_word;
          dest n }"

subsection \<open>The driver\<close>

definition read_ip :: "string \<Rightarrow> (u32 \<times> string) c" where
  "read_ip input =
     do { r \<leftarrow> scanf ''%d.%d.%d.%d'' input;
          _ \<leftarrow> c_assert (scan_ret r = 4);
          let blocks = map (\<lambda>a. word_of_int (arg_int a)) (sr_args r);
          Some (push_bit 24 (blocks ! 0) OR push_bit 16 (blocks ! 1) OR push_bit 8 (blocks ! 2) OR blocks ! 3, sr_rest r) }"

definition read_ip_mask :: "string \<Rightarrow> (u32 \<times> u32 \<times> string) c" where
  "read_ip_mask input =
     do { (ip, rest) \<leftarrow> read_ip input;
          r \<leftarrow> scanf ''/%d'' rest;
          _ \<leftarrow> c_assert (scan_ret r = 1);
          Some (ip, word_of_int (arg_int (sr_args r ! 0)), sr_rest r) }"

definition ip_text :: "u32 \<Rightarrow> string" where
  "ip_text ip = printf ''%u.%u.%u.%u''
     (map (\<lambda>k. IntA (uint (drop_bit k ip AND 255))) [24, 16, 8, 0])"

text \<open>The text and its terminator have to fit the 12 bytes of \<open>buf\<close>.\<close>

definition ip_to_str :: "u32 \<Rightarrow> string c" where
  "ip_to_str ip = do { _ \<leftarrow> c_assert (length (ip_text ip) < 12); Some (ip_text ip) }"

partial_function (option) print_table :: "trie_node heap \<Rightarrow> ptr \<Rightarrow> nat \<Rightarrow> string option" where
  "print_table h node depth =
     do { n \<leftarrow> deref h node;
          let spaces = replicate (4 * depth) CHR '' '';
          d \<leftarrow> (if is_end n \<noteq> 0
                then do { x \<leftarrow> dest n; t \<leftarrow> ip_to_str x; Some (printf '' (dest = %s)'' [StrA t]) } else Some []);
          c0 \<leftarrow> rd (children n) 0;
          out0 \<leftarrow> (if c0 = None then Some []
                   else do { t \<leftarrow> print_table h c0 (depth + 1); Some (printf ''%s%d:\<newline>'' [StrA spaces, IntA 0] @ t) });
          c1 \<leftarrow> rd (children n) 1;
          out1 \<leftarrow> (if c1 = None then Some []
                   else do { t \<leftarrow> print_table h c1 (depth + 1); Some (printf ''%s%d:\<newline>'' [StrA spaces, IntA 1] @ t) });
          Some (printf ''%sis_end = %d'' [StrA spaces, IntA (int (is_end n))] @ d @ printf ''\<newline>'' [] @ out0 @ out1) }"

text \<open>One command: the new table, the rest of the input, what is written to the two outputs.\<close>

definition rtable_command :: "trie_node heap \<Rightarrow> char \<Rightarrow> string \<Rightarrow> (trie_node heap \<times> string \<times> string \<times> string) c" where
  "rtable_command h op input =
     (if op = CHR ''D'' then
        do { (ip, rest) \<leftarrow> read_ip input; h' \<leftarrow> set_defl_gateway h ip; Some (h', rest, [], []) }
      else if op = CHR ''I'' then
        do { (ip, mask, rest) \<leftarrow> read_ip_mask input;
             (d, rest') \<leftarrow> read_ip rest;
             h' \<leftarrow> add_entry h ip (ucast mask) d;
             Some (h', rest', [], []) }
      else if op = CHR ''L'' then
        do { (ip, rest) \<leftarrow> read_ip input;
             res \<leftarrow> lookup h ip;
             t1 \<leftarrow> ip_to_str ip;
             t2 \<leftarrow> ip_to_str res;
             Some (h, rest, printf ''Dest = %s'' [StrA t1] @ printf '', Next hop = %s\<newline>'' [StrA t2], []) }
      else if op = CHR ''P'' then
        do { t \<leftarrow> print_table h (Some 0) 0; Some (h, input, t, []) }
      else Some (h, input, [], printf ''Unrecognized command: %c\<newline>'' [ChrA op]))"

partial_function (option) rtable_loop :: "trie_node heap \<Rightarrow> string \<Rightarrow> (string \<times> string) option" where
  "rtable_loop h input =
     do { r \<leftarrow> scanf '' %c'' input;
          if scan_ret r \<noteq> 1 \<or> arg_chr (sr_args r ! 0) = CHR ''Q'' then Some ([], [])
          else do { (h', rest, out, err) \<leftarrow> rtable_command h (arg_chr (sr_args r ! 0)) (sr_rest r);
                    (out', err') \<leftarrow> rtable_loop h' rest;
                    Some (out @ printf ''> '' [] @ out', err @ err') } }"

definition rtable_banner :: string where
  "rtable_banner =
     printf ''This is a simulation of a router's forwarding table.\<newline>'' []
     @ printf ''The commands available are:\<newline>'' []
     @ printf ''D ip - Set the default gateway to `ip`. This should be the first step before any other query\<newline>'' []
     @ printf ''I ip/mask destination - Insert a new entry for the CIDR-ized address ip/mask to be forwarded to `destination`\<newline>'' []
     @ printf ''                        Example: I 192.168.1.0/24 192.168.1.254 will forward 192.168.1.0/24 to the router 192.168.1.254\<newline>'' []
     @ printf ''L ip - Find the next hop for a packet with the destination `ip`. As usual, longest prefix matching is used.\<newline>'' []
     @ printf ''P - Print the routing table\<newline>'' []
     @ printf ''Q - quit\<newline>'' []
     @ printf ''\<newline>> '' []"

definition rtable_main :: "(nat \<Rightarrow> bool) \<Rightarrow> string \<Rightarrow> (string \<times> string) c" where
  "rtable_main f input =
     do { (out, err) \<leftarrow> rtable_loop (rtable0 f) input; Some (rtable_banner @ out, err) }"

end
