(* ===== verification/Rtable_Proofs.thy ===== *)
theory Rtable_Proofs
  imports Rtable
begin

unbundle bit_operations_syntax

text \<open>
  The routing table refines a map from bit strings to destinations: the path of child pointers a bit string
  selects is a partial function \<open>walk\<close>, and the destination stored at its end is the abstraction
  function. Inserting updates the map at one prefix, and the lookup finds the longest prefix in its domain.
\<close>

subsection \<open>Masks and bits\<close>

definition mask_at :: "nat \<Rightarrow> u32" where
  "mask_at n = drop_bit n (push_bit 31 1)"

definition ip_bits :: "u32 \<Rightarrow> bool list" where
  "ip_bits ip = map (\<lambda>n. bit ip (31 - n)) [0..<32]"

lemma length_ip_bits [simp]: "length (ip_bits ip) = 32"
  by (simp add: ip_bits_def)

lemma bit_top: "bit (push_bit 31 (1 :: u32)) i \<longleftrightarrow> i = 31"
  unfolding bit_push_bit_iff bit_1_iff possible_bit_word by auto

lemma bit_mask_at: "bit (mask_at n) i \<longleftrightarrow> n + i = 31"
  unfolding mask_at_def bit_drop_bit_eq comp_def bit_top ..

lemma mask_at_exp: "n \<le> 31 \<Longrightarrow> mask_at n = 2 ^ (31 - n)"
  by (rule bit_word_eqI) (auto simp: bit_mask_at bit_exp_iff)

lemma mask_at_32 [simp]: "mask_at 32 = 0"
  by (rule bit_word_eqI) (simp add: bit_mask_at)

lemma mask_at_0: "push_bit 31 1 = mask_at 0" "2147483648 = mask_at 0"
  by (simp_all add: mask_at_def)

lemma mask_at_Suc: "drop_bit (Suc 0) (mask_at n) = mask_at (Suc n)"
  by (rule bit_word_eqI) (simp add: bit_mask_at bit_drop_bit_eq)

lemma mask_at_eq_iff:
  assumes "n \<le> 32" and "m \<le> 32"
  shows "mask_at n = mask_at m \<longleftrightarrow> n = m"
proof
  assume eq: "mask_at n = mask_at m"
  show "n = m"
  proof (cases "n = 32")
    case True
    then show ?thesis using eq bit_mask_at[of m "31 - m"] bit_mask_at[of n "31 - m"] assms by (cases "m = 32") auto
  next
    case False
    then show ?thesis using eq bit_mask_at[of m "31 - n"] bit_mask_at[of n "31 - n"] assms by auto
  qed
qed simp

lemma curr_val_bits: "n < 32 \<Longrightarrow> curr_val ip (mask_at n) = of_bool (ip_bits ip ! n)"
  by (simp add: curr_val_def mask_at_exp and_exp_eq_0_iff_not_bit ip_bits_def)

lemma curr_val_less: "curr_val ip m < 2"
  by (simp add: curr_val_def)

subsection \<open>Walking down the trie\<close>

definition child :: "trie_node heap \<Rightarrow> nat \<Rightarrow> bool \<Rightarrow> ptr" where
  "child h a b = (case cells h a of None \<Rightarrow> None | Some n \<Rightarrow> children n ! of_bool b)"

definition walk :: "trie_node heap \<Rightarrow> bool list \<Rightarrow> ptr" where
  "walk h bs = foldl (\<lambda>p b. Option.bind p (\<lambda>a. child h a b)) (Some 0) bs"

lemma walk_Nil [simp]: "walk h [] = Some 0"
  by (simp add: walk_def)

lemma walk_snoc: "walk h (bs @ [b]) = Option.bind (walk h bs) (\<lambda>a. child h a b)"
  by (simp add: walk_def)

lemma walk_take_Suc: "n < 32 \<Longrightarrow> walk h (take (Suc n) (ip_bits ip)) = Option.bind (walk h (take n (ip_bits ip))) (\<lambda>a. child h a (ip_bits ip ! n))"
  by (simp add: take_Suc_conv_app_nth walk_snoc)

text \<open>The tree shape: every node is reached by one path of at most 32 bits.\<close>

definition trie_ok :: "trie_node heap \<Rightarrow> bool" where
  "trie_ok h \<longleftrightarrow> heap_ok h
     \<and> (\<forall>bs a. walk h bs = Some a \<longrightarrow> length bs \<le> 32
          \<and> (\<exists>n. cells h a = Some n \<and> length (children n) = 2 \<and> (is_end n \<noteq> 0 \<longrightarrow> dest n \<noteq> None)))
     \<and> (\<forall>bs cs a. walk h bs = Some a \<longrightarrow> walk h cs = Some a \<longrightarrow> bs = cs)
     \<and> (\<exists>n. cells h 0 = Some n \<and> is_end n \<noteq> 0)"

text \<open>The table as a map.\<close>

definition routes :: "trie_node heap \<Rightarrow> bool list \<Rightarrow> u32 option" where
  "routes h bs = (case walk h bs of None \<Rightarrow> None
     | Some a \<Rightarrow> (case cells h a of None \<Rightarrow> None | Some n \<Rightarrow> if is_end n \<noteq> 0 then dest n else None))"

lemma trie_ok_node:
  "trie_ok h \<Longrightarrow> walk h bs = Some a \<Longrightarrow> \<exists>n. cells h a = Some n \<and> length (children n) = 2 \<and> (is_end n \<noteq> 0 \<longrightarrow> dest n \<noteq> None)"
  by (simp add: trie_ok_def)

lemma trie_ok_length: "trie_ok h \<Longrightarrow> walk h bs = Some a \<Longrightarrow> length bs \<le> 32"
  by (simp add: trie_ok_def)

lemma trie_ok_inj: "trie_ok h \<Longrightarrow> walk h bs = Some a \<Longrightarrow> walk h cs = Some a \<Longrightarrow> bs = cs"
  by (simp add: trie_ok_def)

subsection \<open>Writing a destination\<close>

lemma walk_cong: "(\<And>a b. child h' a b = child h a b) \<Longrightarrow> walk h' bs = walk h bs"
  by (simp add: walk_def)

lemma store_dest:
  assumes ok: "trie_ok h" and p: "walk h p = Some a" and n: "cells h a = Some n" and e: "e \<noteq> 0"
    and h': "cells h' = (cells h)(a \<mapsto> n\<lparr>is_end := e, dest := Some d\<rparr>)" and fr: "fresh h' = fresh h"
  shows "trie_ok h'" and "routes h' = (routes h)(p \<mapsto> d)"
proof -
  have w: "walk h' bs = walk h bs" for bs
    using n by (intro walk_cong) (auto simp: child_def h')
  have "heap_ok h'" using ok n fr by (auto simp: trie_ok_def heap_ok_def h')
  moreover have "\<exists>m. cells h' x = Some m \<and> length (children m) = 2 \<and> (is_end m \<noteq> 0 \<longrightarrow> dest m \<noteq> None)"
    if "walk h bs = Some x" for bs x
    using trie_ok_node[OF ok that] trie_ok_node[OF ok p] n by (cases "x = a") (auto simp: h')
  moreover have "\<exists>m. cells h' 0 = Some m \<and> is_end m \<noteq> 0"
    using ok e n by (auto simp: trie_ok_def h')
  ultimately show "trie_ok h'" using ok unfolding trie_ok_def w by blast
  show "routes h' = (routes h)(p \<mapsto> d)"
  proof
    fix bs
    show "routes h' bs = ((routes h)(p \<mapsto> d)) bs"
      using p n e trie_ok_inj[OF ok p, of bs] by (cases "walk h bs") (auto simp: routes_def w h')
  qed
qed

subsection \<open>Adding a node\<close>

lemma attach_walk:
  assumes ok: "trie_ok h" and p: "walk h p = Some a" and n: "cells h a = Some n" and none: "child h a b = None"
    and f: "cells h f = None"
    and h': "cells h' = (cells h)(a \<mapsto> n\<lparr>children := (children n)[of_bool b := Some f]\<rparr>, f \<mapsto> new_trie_node)"
  shows "walk h' cs = (if cs = p @ [b] then Some f else walk h cs)"
proof (induction cs rule: rev_induct)
  case Nil
  then show ?case by simp
next
  case (snoc c cs)
  have len: "length (children n) = 2" using trie_ok_node[OF ok p] n by auto
  have "a \<noteq> f" using n f by auto
  show ?case
  proof (cases "cs = p @ [b]")
    case True
    have "child h' f c = None" by (cases c) (simp_all add: child_def h' new_trie_node_def)
    moreover have "walk h cs = None" using True none p by (simp add: walk_snoc)
    ultimately show ?thesis using True snoc by (simp only: walk_snoc) simp
  next
    case False
    show ?thesis
    proof (cases "cs = p")
      case True
      have "child h' a c = (if c = b then Some f else child h a c)"
        using n len \<open>a \<noteq> f\<close> by (cases c; cases b) (auto simp: child_def h' nth_list_update)
      then show ?thesis using True False snoc p by (simp add: walk_snoc)
    next
      case False': False
      have "child h' x c = child h x c" if "walk h cs = Some x" for x
      proof -
        have "x \<noteq> a" using trie_ok_inj[OF ok p] that False' by auto
        moreover have "x \<noteq> f" using trie_ok_node[OF ok that] f by auto
        ultimately show ?thesis by (simp add: child_def h')
      qed
      then show ?thesis using False False' snoc by (cases "walk h cs") (auto simp: walk_snoc)
    qed
  qed
qed

lemma attach_ok:
  assumes ok: "trie_ok h" and p: "walk h p = Some a" and none: "child h a b = None" and len: "length p < 32"
    and oom: "oom h = (\<lambda>_. False)"
  shows "\<exists>f h1 h2. malloc h new_trie_node = (Some f, h1)
    \<and> store h1 (Some a) (\<lambda>n. n\<lparr>children := (children n)[of_bool b := Some f]\<rparr>) = Some h2
    \<and> trie_ok h2 \<and> routes h2 = routes h \<and> walk h2 (p @ [b]) = Some f \<and> (\<forall>c. child h2 f c = None) \<and> oom h2 = oom h"
proof -
  let ?f = "fresh h"
  obtain n where n: "cells h a = Some n" "length (children n) = 2" using trie_ok_node[OF ok p] by blast
  have hok: "heap_ok h" using ok by (simp add: trie_ok_def)
  have f: "cells h ?f = None" using heap_ok_fresh[OF hok] .
  then have af: "a \<noteq> ?f" using n by auto
  define h2 where "h2 = h\<lparr>cells := (cells h)(?f \<mapsto> new_trie_node, a \<mapsto> n\<lparr>children := (children n)[of_bool b := Some ?f]\<rparr>), fresh := Suc ?f\<rparr>"
  have c2: "cells h2 = (cells h)(a \<mapsto> n\<lparr>children := (children n)[of_bool b := Some ?f]\<rparr>, ?f \<mapsto> new_trie_node)"
    using af by (simp add: h2_def fun_upd_twist)
  note w = attach_walk[OF ok p n(1) none f c2]
  have nw: "walk h cs \<noteq> Some ?f" for cs using trie_ok_node[OF ok, of cs ?f] f by auto
  have "heap_ok h2" using hok n(1) by (auto simp: heap_ok_def h2_def less_Suc_eq)
  moreover have "length cs \<le> 32 \<and> (\<exists>m. cells h2 x = Some m \<and> length (children m) = 2 \<and> (is_end m \<noteq> 0 \<longrightarrow> dest m \<noteq> None))"
    if "walk h2 cs = Some x" for cs x
  proof (cases "cs = p @ [b]")
    case True
    with that w len show ?thesis by (simp add: c2 new_trie_node_def)
  next
    case False
    with that w have x: "walk h cs = Some x" by simp
    with nw have "x \<noteq> ?f" by auto
    then show ?thesis using trie_ok_node[OF ok x] trie_ok_length[OF ok x] trie_ok_node[OF ok p] n by (cases "x = a") (auto simp: c2)
  qed
  moreover have "bs = cs" if "walk h2 bs = Some x" "walk h2 cs = Some x" for bs cs x
    using that w nw trie_ok_inj[OF ok, of bs x cs] by (auto split: if_splits)
  moreover have "\<exists>m. cells h2 0 = Some m \<and> is_end m \<noteq> 0"
    using ok n f by (auto simp: trie_ok_def c2)
  ultimately have "trie_ok h2" unfolding trie_ok_def by blast
  moreover have "routes h2 bs = routes h bs" for bs
  proof (cases "bs = p @ [b]")
    case True
    then have "walk h2 bs = Some ?f" "walk h bs = None" using w p none by (simp_all add: walk_snoc[of h])
    then show ?thesis by (simp add: routes_def c2 new_trie_node_def)
  next
    case False
    then show ?thesis using w nw[of bs] n by (cases "walk h bs") (auto simp: routes_def c2)
  qed
  moreover have "child h2 ?f c = None" for c by (cases c) (simp_all add: child_def c2 new_trie_node_def)
  moreover have "malloc h new_trie_node = (Some ?f, h\<lparr>cells := (cells h)(?f \<mapsto> new_trie_node), fresh := Suc ?f\<rparr>)"
    using oom by (simp add: malloc_def)
  moreover have "store (h\<lparr>cells := (cells h)(?f \<mapsto> new_trie_node), fresh := Suc ?f\<rparr>) (Some a)
      (\<lambda>n. n\<lparr>children := (children n)[of_bool b := Some ?f]\<rparr>) = Some h2"
    using n(1) af by (simp add: h2_def)
  moreover have "oom h2 = oom h" by (simp add: h2_def)
  ultimately show ?thesis using w by (auto intro!: exI[of _ ?f] ext)
qed

subsection \<open>Inserting an entry\<close>

lemma rd_child:
  assumes "trie_ok h" and "walk h bs = Some a" and "cells h a = Some n" and "m < 32"
  shows "rd (children n) (curr_val ip (mask_at m)) = Some (child h a (ip_bits ip ! m))"
  using trie_ok_node[OF assms(1,2)] assms(3,4) by (auto simp: curr_val_bits child_def)

lemma rd_child_end:
  assumes "trie_ok h" and "walk h bs = Some a" and "cells h a = Some n"
  shows "\<exists>x. rd (children n) (curr_val ip mk) = Some x"
  using trie_ok_node[OF assms(1,2)] assms(3) curr_val_less[of ip mk] by auto

lemma descend_ok:
  assumes ok: "trie_ok h" and k: "k \<le> 32"
  shows "walk h (take n (ip_bits ip)) = Some a \<Longrightarrow> n \<le> k \<Longrightarrow>
    \<exists>n' a'. descend h ip (mask_at k) (mask_at n) (Some a) = Some (mask_at n', Some a') \<and> n \<le> n' \<and> n' \<le> k
      \<and> walk h (take n' (ip_bits ip)) = Some a' \<and> (n' < k \<longrightarrow> child h a' (ip_bits ip ! n') = None)"
proof (induction "k - n" arbitrary: n a rule: less_induct)
  case less
  obtain nd where nd: "cells h a = Some nd" using trie_ok_node[OF ok less.prems(1)] by blast
  show ?case
  proof (cases "n < k")
    case True
    then have n: "n < 32" "mask_at n \<noteq> mask_at k" using k mask_at_eq_iff[of n k] by auto
    note r = rd_child[OF ok less.prems(1) nd n(1), of ip]
    show ?thesis
    proof (cases "child h a (ip_bits ip ! n)")
      case None
      with r n(2) nd less.prems True show ?thesis
        by (subst descend.simps) (intro exI[of _ n] exI[of _ a], simp)
    next
      case (Some a1)
      have "walk h (take (Suc n) (ip_bits ip)) = Some a1" using n(1) less.prems(1) Some by (simp add: walk_take_Suc)
      moreover have "k - Suc n < k - n" using True by arith
      ultimately obtain n' a' where "descend h ip (mask_at k) (mask_at (Suc n)) (Some a1) = Some (mask_at n', Some a')" "Suc n \<le> n'" "n' \<le> k"
        "walk h (take n' (ip_bits ip)) = Some a'" "n' < k \<longrightarrow> child h a' (ip_bits ip ! n') = None"
        using less.hyps[of "Suc n" a1] True by auto
      moreover have "descend h ip (mask_at k) (mask_at n) (Some a) = descend h ip (mask_at k) (mask_at (Suc n)) (Some a1)"
        using r n(2) nd Some by (subst descend.simps) (simp add: mask_at_Suc)
      ultimately show ?thesis using Suc_leD by metis
    qed
  next
    case False
    then have "n = k" using less.prems(2) by simp
    moreover obtain x where "rd (children nd) (curr_val ip (mask_at n)) = Some x"
      using rd_child_end[OF ok less.prems(1) nd] by blast
    ultimately show ?thesis using nd less.prems
      by (subst descend.simps) (intro exI[of _ n] exI[of _ a], simp)
  qed
qed

lemma extend_ok:
  assumes k: "k \<le> 32"
  shows "trie_ok h \<Longrightarrow> oom h = (\<lambda>_. False) \<Longrightarrow> walk h (take n (ip_bits ip)) = Some a \<Longrightarrow> n \<le> k \<Longrightarrow>
    (n < k \<longrightarrow> child h a (ip_bits ip ! n) = None) \<Longrightarrow>
    \<exists>h' a'. extend h ip (mask_at k) (mask_at n) (Some a) = Some (h', Some a') \<and> trie_ok h' \<and> oom h' = oom h
      \<and> routes h' = routes h \<and> walk h' (take k (ip_bits ip)) = Some a'"
proof (induction "k - n" arbitrary: h n a rule: less_induct)
  case less
  show ?case
  proof (cases "n < k")
    case True
    then have n: "n < 32" "mask_at n \<noteq> mask_at k" using k mask_at_eq_iff[of n k] by auto
    obtain f h1 h2 where m: "malloc h new_trie_node = (Some f, h1)"
      "store h1 (Some a) (\<lambda>x. x\<lparr>children := (children x)[of_bool (ip_bits ip ! n) := Some f]\<rparr>) = Some h2"
      "trie_ok h2" "routes h2 = routes h" "walk h2 (take n (ip_bits ip) @ [ip_bits ip ! n]) = Some f"
      "\<forall>c. child h2 f c = None" "oom h2 = oom h"
      using attach_ok[OF less.prems(1,3), of "ip_bits ip ! n"] less.prems(2,5) True n(1) by auto
    have "walk h2 (take (Suc n) (ip_bits ip)) = Some f" using m(5) n(1) by (simp add: take_Suc_conv_app_nth)
    moreover have "k - Suc n < k - n" using True by arith
    ultimately obtain h' a' where "extend h2 ip (mask_at k) (mask_at (Suc n)) (Some f) = Some (h', Some a')" "trie_ok h'" "oom h' = oom h"
      "routes h' = routes h" "walk h' (take k (ip_bits ip)) = Some a'"
      using less.hyps[of "Suc n" h2 f] True m less.prems(2) by auto
    moreover have "extend h ip (mask_at k) (mask_at n) (Some a) = extend h2 ip (mask_at k) (mask_at (Suc n)) (Some f)"
      using n m(1,2) by (subst extend.simps) (simp add: curr_val_bits mask_at_Suc)
    ultimately show ?thesis by auto
  next
    case False
    with less.prems show ?thesis by (subst extend.simps) auto
  qed
qed

text \<open>Inserting an entry updates the map at its prefix; a mask length above 32 counts as 32.\<close>

lemma add_entry_ok:
  assumes "trie_ok h" and "oom h = (\<lambda>_. False)"
  shows "\<exists>h'. add_entry h ip c d = Some h' \<and> trie_ok h' \<and> oom h' = oom h
    \<and> routes h' = (routes h)(take (unat c) (ip_bits ip) \<mapsto> d)"
proof -
  define k where "k = min (unat c) 32"
  have k: "k \<le> 32" "take k (ip_bits ip) = take (unat c) (ip_bits ip)" by (auto simp: k_def min_def)
  have lim: "(if c < 32 then push_bit (31 - unat c) 1 else 0) = mask_at k"
  proof (cases "c < 32")
    case True
    then have "unat c < 32" by (simp add: word_less_nat_alt)
    then show ?thesis using True by (simp add: k_def mask_at_exp push_bit_eq_mult)
  next
    case False
    then have "32 \<le> unat c" by (simp add: word_less_nat_alt)
    then show ?thesis using False by (simp add: k_def)
  qed
  obtain n a where n: "descend h ip (mask_at k) (mask_at 0) (Some 0) = Some (mask_at n, Some a)" "n \<le> k"
    "walk h (take n (ip_bits ip)) = Some a" "n < k \<longrightarrow> child h a (ip_bits ip ! n) = None"
    using descend_ok[OF assms(1) k(1), of 0 ip 0] by auto
  obtain h1 a1 where e: "extend h ip (mask_at k) (mask_at n) (Some a) = Some (h1, Some a1)" "trie_ok h1" "oom h1 = oom h"
    "routes h1 = routes h" "walk h1 (take k (ip_bits ip)) = Some a1"
    using extend_ok[OF k(1) assms n(3,2,4)] by blast
  obtain nd where nd: "cells h1 a1 = Some nd" using trie_ok_node[OF e(2,5)] by blast
  let ?h = "h1\<lparr>cells := (cells h1)(a1 \<mapsto> nd\<lparr>is_end := 1, dest := Some d\<rparr>)\<rparr>"
  have "add_entry h ip c d = Some ?h"
    using n(1) e(1) nd lim by (simp add: add_entry_def mask_at_0 Let_def)
  moreover have "trie_ok ?h" "routes ?h = (routes h1)(take k (ip_bits ip) \<mapsto> d)"
    by (rule store_dest[OF e(2,5) nd, where e = 1 and d = d]; simp)+
  ultimately show ?thesis using e(3,4) k(2) by auto
qed

subsection \<open>Looking up an address\<close>

text \<open>The longest prefix of the address that the map knows.\<close>

fun longest_match :: "(bool list \<Rightarrow> u32 option) \<Rightarrow> bool list \<Rightarrow> nat \<Rightarrow> u32 option" where
  "longest_match T bs 0 = T []"
| "longest_match T bs (Suc n) = (case T (take (Suc n) bs) of Some d \<Rightarrow> Some d | None \<Rightarrow> longest_match T bs n)"

lemma walk_None_longer:
  assumes "walk h (take n bs) = None" and "n \<le> m" and "m \<le> length bs"
  shows "walk h (take m bs) = None"
  using assms(2,3,1) by (induction m rule: dec_induct) (auto simp: take_Suc_conv_app_nth walk_snoc)

lemma longest_match_stop:
  assumes "\<forall>m. n < m \<longrightarrow> m \<le> k \<longrightarrow> T (take m bs) = None" and "n \<le> k"
  shows "longest_match T bs k = longest_match T bs n"
  using assms(2,1) by (induction k rule: dec_induct) auto

lemma lookup_loop_ok:
  assumes ok: "trie_ok h"
  shows "walk h (take n (ip_bits ip)) = Some a \<Longrightarrow> n \<le> 32 \<Longrightarrow> cells h l = Some ln \<Longrightarrow>
    longest_match (routes h) (ip_bits ip) n = dest ln \<Longrightarrow> dest ln \<noteq> None \<Longrightarrow>
    \<exists>l' ln'. lookup_loop h ip (mask_at n) (Some a) (Some l) = Some (Some l') \<and> cells h l' = Some ln'
      \<and> longest_match (routes h) (ip_bits ip) 32 = dest ln' \<and> dest ln' \<noteq> None"
proof (induction "32 - n" arbitrary: n a l ln rule: less_induct)
  case less
  obtain nd where nd: "cells h a = Some nd" using trie_ok_node[OF ok less.prems(1)] by blast
  obtain x where x: "rd (children nd) (curr_val ip (mask_at n)) = Some x"
    using rd_child_end[OF ok less.prems(1) nd] by blast
  show ?case
  proof (cases x)
    case None
    have "walk h (take m (ip_bits ip)) = None" if "n < m" "m \<le> 32" for m
    proof (rule walk_None_longer[of h "Suc n"])
      have n: "n < 32" using that by simp
      then show "walk h (take (Suc n) (ip_bits ip)) = None"
        using rd_child[OF ok less.prems(1) nd n] x None less.prems(1) by (simp add: walk_take_Suc)
    qed (use that in auto)
    then have "longest_match (routes h) (ip_bits ip) 32 = dest ln"
      using longest_match_stop[of n 32 "routes h" "ip_bits ip"] less.prems(2,4) by (auto simp: routes_def)
    with less.prems(3,5) nd x None show ?thesis by (subst lookup_loop.simps) auto
  next
    case (Some a1)
    have n: "n < 32"
    proof (rule ccontr)
      assume "\<not> n < 32"
      then have "walk h (ip_bits ip @ [curr_val ip (mask_at n) = 1]) = Some a1"
        using less.prems(1,2) nd x Some by (auto simp: walk_snoc child_def curr_val_def rd_eq_Some_iff)
      from trie_ok_length[OF ok this] show False by simp
    qed
    have w1: "walk h (take (Suc n) (ip_bits ip)) = Some a1"
      using rd_child[OF ok less.prems(1) nd n] x Some less.prems(1) n by (simp add: walk_take_Suc)
    obtain n1 where n1: "cells h a1 = Some n1" "is_end n1 \<noteq> 0 \<longrightarrow> dest n1 \<noteq> None" using trie_ok_node[OF ok w1] by blast
    let ?l = "if is_end n1 \<noteq> 0 then a1 else l" and ?ln = "if is_end n1 \<noteq> 0 then n1 else ln"
    have "longest_match (routes h) (ip_bits ip) (Suc n) = dest ?ln"
      using w1 n1 less.prems(4) by (auto simp: routes_def)
    moreover have "32 - Suc n < 32 - n" using n by arith
    moreover have "cells h ?l = Some ?ln" "dest ?ln \<noteq> None" using n1 less.prems(3,5) by auto
    ultimately obtain l' ln' where "lookup_loop h ip (mask_at (Suc n)) (Some a1) (Some ?l) = Some (Some l')" "cells h l' = Some ln'"
      "longest_match (routes h) (ip_bits ip) 32 = dest ln'" "dest ln' \<noteq> None"
      using less.hyps[of "Suc n" a1 ?l ?ln] w1 n by (metis Suc_leI)
    moreover have "lookup_loop h ip (mask_at n) (Some a) (Some l) = lookup_loop h ip (mask_at (Suc n)) (Some a1) (Some ?l)"
      using nd x Some n1(1) by (subst lookup_loop.simps) (simp add: mask_at_Suc)
    ultimately show ?thesis by auto
  qed
qed

lemma lookup_ok:
  assumes "trie_ok h"
  shows "\<exists>d. lookup h ip = Some d \<and> longest_match (routes h) (ip_bits ip) 32 = Some d"
proof -
  obtain n where n: "cells h 0 = Some n" "is_end n \<noteq> 0" using assms by (auto simp: trie_ok_def)
  moreover have "dest n \<noteq> None" using trie_ok_node[OF assms walk_Nil] n by auto
  ultimately show ?thesis
    using lookup_loop_ok[OF assms, of 0 ip 0 0 n] by (auto simp: lookup_def mask_at_0 routes_def)
qed

end
