(* ===== verification/Rtable_Main.thy ===== *)
theory Rtable_Main
  imports Rtable_Proofs
begin

unbundle bit_operations_syntax

text \<open>
  Addresses as text, and the routing program as a whole: on every sequence of commands it prints what a map
  from prefixes to destinations gives.
\<close>

subsection \<open>Addresses in dotted notation\<close>

lemma four_bytes:
  fixes ip :: u32
  shows "push_bit 24 (drop_bit 24 ip AND 255) OR push_bit 16 (drop_bit 16 ip AND 255)
    OR push_bit 8 (drop_bit 8 ip AND 255) OR (ip AND 255) = ip"
proof -
  have m: "(255 :: u32) = mask 8" by (simp add: mask_eq_exp_minus_1)
  show ?thesis unfolding m
  proof (rule bit_word_eqI)
    fix i assume "i < LENGTH(32)"
    then consider "i < 8" | "8 \<le> i" "i < 16" | "16 \<le> i" "i < 24" | "24 \<le> i" "i < 32" by fastforce
    then show "bit (push_bit 24 (drop_bit 24 ip AND mask 8) OR push_bit 16 (drop_bit 16 ip AND mask 8)
      OR push_bit 8 (drop_bit 8 ip AND mask 8) OR (ip AND mask 8)) i = bit ip i"
      by cases (auto simp: bit_or_iff bit_and_iff bit_push_bit_iff bit_drop_bit_eq bit_mask_iff)
  qed
qed

definition ip_byte :: "u32 \<Rightarrow> nat \<Rightarrow> nat" where
  "ip_byte ip k = unat (drop_bit k ip AND 255)"

lemma ip_byte_less: "ip_byte ip k < 256"
proof -
  have "drop_bit k ip AND 255 \<le> 255" by (rule word_and_le1)
  then show ?thesis unfolding ip_byte_def by (simp add: word_le_nat_alt)
qed

lemma ip_text_bytes:
  "ip_text ip = show_nat (ip_byte ip 24) @ ''.'' @ show_nat (ip_byte ip 16) @ ''.''
     @ show_nat (ip_byte ip 8) @ ''.'' @ show_nat (ip_byte ip 0)"
proof -
  have "show_int (uint x) = show_nat (unat x)" for x :: u32 unfolding uint_nat by (rule show_int_nat)
  then show ?thesis by (simp add: ip_text_def ip_byte_def show_conv_def)
qed

lemma isdigit_dot [simp]: "\<not> isdigit CHR ''.''" "\<not> isdigit CHR ''/''"
  by (simp_all add: isdigit_def)

text \<open>Reading back an address gives the address.\<close>

lemma read_ip_text:
  assumes "list_all isspace w" and "no_digit r"
  shows "read_ip (w @ ip_text ip @ r) = Some (ip, r)"
proof -
  let ?b = "ip_byte ip"
  have i: "in_int (int (?b k))" for k using ip_byte_less[of ip k] by (simp add: in_int_def INT_MIN_def INT_MAX_def)
  have s: "scanf ''%d.%d.%d.%d'' (w @ ip_text ip @ r) = Some \<lparr>sr_args = map (\<lambda>k. IntA (int (?b k))) [24, 16, 8, 0], sr_eof = False, sr_rest = r\<rparr>"
    using scanf_d_show[OF assms(1) _ i[of 24]] scanf_d_show[OF _ _ i, of "[]"] assms(2)
    by (simp add: ip_text_bytes scanf.simps isspace_def scan_push_def scan_stop_def)
  define B where "B = map (\<lambda>a. word_of_int (arg_int a) :: u32) (map (\<lambda>k. IntA (int (?b k))) [24, 16, 8, 0])"
  have "word_of_int (int (?b k)) = drop_bit k ip AND 255" for k
    by (simp add: ip_byte_def)
  then have B: "B ! 0 = drop_bit 24 ip AND 255" "B ! 1 = drop_bit 16 ip AND 255" "B ! 2 = drop_bit 8 ip AND 255" "B ! 3 = ip AND 255"
    by (simp_all add: B_def numeral_2_eq_2 numeral_3_eq_3)
  have "push_bit 24 (B ! 0) OR push_bit 16 (B ! 1) OR push_bit 8 (B ! 2) OR B ! 3 = ip"
    unfolding B by (rule four_bytes)
  with s show ?thesis by (simp add: read_ip_def B_def)
qed

subsection \<open>The program\<close>

datatype route_cmd = Default u32 | Route u32 nat u32 | Lookup u32

fun route_line :: "route_cmd \<Rightarrow> string" where
  "route_line (Default ip) = ''D '' @ ip_text ip @ ''\<newline>''"
| "route_line (Route ip k d) = ''I '' @ ip_text ip @ ''/'' @ show_nat k @ '' '' @ ip_text d @ ''\<newline>''"
| "route_line (Lookup ip) = ''L '' @ ip_text ip @ ''\<newline>''"

fun route_ok :: "route_cmd \<Rightarrow> bool" where
  "route_ok (Route ip k d) \<longleftrightarrow> k \<le> 32"
| "route_ok c \<longleftrightarrow> True"

text \<open>The table as a map, and the buffer of 12 bytes for an address.\<close>

fun route_spec :: "(bool list \<Rightarrow> u32 option) \<Rightarrow> route_cmd list \<Rightarrow> string c" where
  "route_spec T [] = Some []"
| "route_spec T (Default ip # cs) = map_option (\<lambda>out. ''> '' @ out) (route_spec (T([] \<mapsto> ip)) cs)"
| "route_spec T (Route ip k d # cs) = map_option (\<lambda>out. ''> '' @ out) (route_spec (T(take k (ip_bits ip) \<mapsto> d)) cs)"
| "route_spec T (Lookup ip # cs) =
     (case longest_match T (ip_bits ip) 32 of
        None \<Rightarrow> None
      | Some d \<Rightarrow>
          if length (ip_text ip) < 12 \<and> length (ip_text d) < 12
          then map_option (\<lambda>out. ''Dest = '' @ ip_text ip @ '', Next hop = '' @ ip_text d @ ''\<newline>> '' @ out) (route_spec T cs)
          else None)"

lemma read_ip_line: "read_ip (CHR '' '' # ip_text ip @ CHR 0x0A # r) = Some (ip, CHR 0x0A # r)"
  using read_ip_text[of "'' ''" "CHR 0x0A # r" ip] by simp

lemma read_mask_line:
  assumes "k \<le> 32"
  shows "read_ip_mask (CHR '' '' # ip_text ip @ CHR ''/'' # show_nat k @ CHR '' '' # r) = Some (ip, of_nat k, CHR '' '' # r)"
proof -
  have "in_int (int k)" using assms by (simp add: in_int_def INT_MIN_def INT_MAX_def)
  then have "scanf ''/%d'' (CHR ''/'' # show_nat k @ CHR '' '' # r) = Some \<lparr>sr_args = [IntA (int k)], sr_eof = False, sr_rest = CHR '' '' # r\<rparr>"
    using scanf_d_elem[of "[]" "CHR '' '' # r" "int k"] by (simp add: scanf.simps(2) isspace_def)
  then show ?thesis
    using read_ip_text[of "'' ''" "CHR ''/'' # show_nat k @ CHR '' '' # r" ip] by (simp add: read_ip_mask_def)
qed

lemma ucast_small: "k \<le> 32 \<Longrightarrow> unat (ucast (of_nat k :: u32) :: 8 word) = k"
  by (simp add: unsigned_ucast_eq unsigned_of_nat take_bit_nat_eq_self)

text \<open>The state between two commands: the rest of the line before is a newline at most.\<close>

definition table_rep :: "trie_node heap \<Rightarrow> (bool list \<Rightarrow> u32 option) \<Rightarrow> bool" where
  "table_rep h T \<longleftrightarrow> trie_ok h \<and> oom h = (\<lambda>_. False) \<and> routes h = T"

lemma default_step:
  assumes "table_rep h T"
  shows "\<exists>h'. rtable_command h CHR ''D'' (CHR '' '' # ip_text ip @ CHR 0x0A # r) = Some (h', CHR 0x0A # r, [], [])
    \<and> table_rep h' (T([] \<mapsto> ip))"
proof -
  have ok: "trie_ok h" "oom h = (\<lambda>_. False)" "routes h = T" using assms by (auto simp: table_rep_def)
  obtain n where n: "cells h 0 = Some n" "is_end n \<noteq> 0" using ok(1) by (auto simp: trie_ok_def)
  let ?h = "h\<lparr>cells := (cells h)(0 \<mapsto> n\<lparr>dest := Some ip\<rparr>)\<rparr>"
  have "n\<lparr>dest := Some ip\<rparr> = n\<lparr>is_end := is_end n, dest := Some ip\<rparr>" by simp
  then have "trie_ok ?h" "routes ?h = (routes h)([] \<mapsto> ip)"
    using store_dest[OF ok(1) walk_Nil n(1,2), of ?h ip] by auto
  with ok n(1) show ?thesis
    by (auto simp: rtable_command_def read_ip_line set_defl_gateway_def table_rep_def)
qed

lemma route_step:
  assumes "table_rep h T" and "k \<le> 32"
  shows "\<exists>h'. rtable_command h CHR ''I'' (CHR '' '' # ip_text ip @ CHR ''/'' # show_nat k @ CHR '' '' # ip_text d @ CHR 0x0A # r)
      = Some (h', CHR 0x0A # r, [], []) \<and> table_rep h' (T(take k (ip_bits ip) \<mapsto> d))"
proof -
  have ok: "trie_ok h" "oom h = (\<lambda>_. False)" "routes h = T" using assms(1) by (auto simp: table_rep_def)
  obtain h' where "add_entry h ip (ucast (of_nat k :: u32)) d = Some h'" "trie_ok h'" "oom h' = oom h"
    "routes h' = (routes h)(take k (ip_bits ip) \<mapsto> d)"
    using add_entry_ok[OF ok(1,2), of ip "ucast (of_nat k :: u32)" d] ucast_small[OF assms(2)] by auto
  with ok show ?thesis
    by (auto simp: rtable_command_def read_mask_line[OF assms(2)] read_ip_line table_rep_def)
qed

lemma lookup_step:
  assumes "table_rep h T"
  shows "rtable_command h CHR ''L'' (CHR '' '' # ip_text ip @ CHR 0x0A # r) =
    (case longest_match T (ip_bits ip) 32 of None \<Rightarrow> None
     | Some d \<Rightarrow> if length (ip_text ip) < 12 \<and> length (ip_text d) < 12
         then Some (h, CHR 0x0A # r, ''Dest = '' @ ip_text ip @ '', Next hop = '' @ ip_text d @ ''\<newline>'', []) else None)"
proof -
  obtain d where "lookup h ip = Some d" "longest_match T (ip_bits ip) 32 = Some d"
    using lookup_ok[of h ip] assms by (auto simp: table_rep_def)
  then show ?thesis
    by (auto simp: rtable_command_def read_ip_line ip_to_str_def show_conv_def)
qed

lemma scanf_cmd: "list_all isspace w \<Longrightarrow> \<not> isspace x \<Longrightarrow>
  scanf '' %c'' (w @ x # r) = Some \<lparr>sr_args = [ChrA x], sr_eof = False, sr_rest = r\<rparr>"
  by (simp add: scanf_eval skip_ws_Cons)

lemma scanf_cmd_end: "list_all isspace w \<Longrightarrow> scanf '' %c'' w = Some \<lparr>sr_args = [], sr_eof = True, sr_rest = []\<rparr>"
  by (simp add: scanf_eval skip_ws_all)

lemma isspace_letters [simp]: "\<not> isspace CHR ''D''" "\<not> isspace CHR ''I''" "\<not> isspace CHR ''L''"
  by (simp_all add: isspace_def)

lemma rtable_loop_step:
  assumes "list_all isspace w" and "\<not> isspace op" and "op \<noteq> CHR ''Q''"
  shows "rtable_loop h (w @ op # r) =
    do { (h', rest, out, err) \<leftarrow> rtable_command h op r;
         (out', err') \<leftarrow> rtable_loop h' rest;
         Some (out @ ''> '' @ out', err @ err') }"
  using assms by (subst rtable_loop.simps) (simp add: scanf_cmd split: bind_splits)

lemma rtable_loop_spec:
  "table_rep h T \<Longrightarrow> list_all route_ok cs \<Longrightarrow> list_all isspace w \<Longrightarrow>
   rtable_loop h (w @ concat (map route_line cs)) = map_option (\<lambda>out. (out, [])) (route_spec T cs)"
proof (induction T cs arbitrary: h w rule: route_spec.induct)
  case (1 T)
  then show ?case by (subst rtable_loop.simps) (simp add: scanf_cmd_end)
next
  case (2 T ip cs)
  let ?r = "concat (map route_line cs)"
  obtain h' where h': "rtable_command h CHR ''D'' (CHR '' '' # ip_text ip @ CHR 0x0A # ?r) = Some (h', CHR 0x0A # ?r, [], [])"
    "table_rep h' (T([] \<mapsto> ip))" using default_step[OF "2.prems"(1)] by blast
  have "rtable_loop h' (CHR 0x0A # ?r) = map_option (\<lambda>out. (out, [])) (route_spec (T([] \<mapsto> ip)) cs)"
    using "2.IH"[OF h'(2), of "''\<newline>''"] "2.prems"(2) by (simp add: fun_upd_def)
  with h'(1) "2.prems"(3) show ?case
    by (cases "route_spec (T([] \<mapsto> ip)) cs") (simp_all add: rtable_loop_step)
next
  case (3 T ip k d cs)
  let ?r = "concat (map route_line cs)" and ?T = "T(take k (ip_bits ip) \<mapsto> d)"
  obtain h' where h': "rtable_command h CHR ''I'' (CHR '' '' # ip_text ip @ CHR ''/'' # show_nat k @ CHR '' '' # ip_text d @ CHR 0x0A # ?r)
      = Some (h', CHR 0x0A # ?r, [], [])" "table_rep h' ?T"
    using route_step[OF "3.prems"(1)] "3.prems"(2) by fastforce
  have "rtable_loop h' (CHR 0x0A # ?r) = map_option (\<lambda>out. (out, [])) (route_spec ?T cs)"
    using "3.IH"[OF h'(2), of "''\<newline>''"] "3.prems"(2) by (simp add: fun_upd_def)
  with h'(1) "3.prems"(3) show ?case
    by (cases "route_spec ?T cs") (simp_all add: rtable_loop_step)
next
  case (4 T ip cs)
  let ?r = "concat (map route_line cs)"
  note st = lookup_step[OF "4.prems"(1), of ip ?r]
  show ?case
  proof (cases "longest_match T (ip_bits ip) 32")
    case None
    with st "4.prems"(3) show ?thesis by (simp add: rtable_loop_step)
  next
    case (Some d)
    show ?thesis
    proof (cases "length (ip_text ip) < 12 \<and> length (ip_text d) < 12")
      case True
      have "rtable_loop h (CHR 0x0A # ?r) = map_option (\<lambda>out. (out, [])) (route_spec T cs)"
        using "4.IH"[OF Some True "4.prems"(1), of "''\<newline>''"] "4.prems"(2) by simp
      with st Some True "4.prems"(3) show ?thesis
        by (cases "route_spec T cs") (simp_all add: rtable_loop_step)
    next
      case False
      with st Some "4.prems"(3) show ?thesis by (auto simp: rtable_loop_step)
    qed
  qed
qed

lemma rtable0_rep: "table_rep (rtable0 (\<lambda>_. False)) [[] \<mapsto> NOT 0]"
proof -
  let ?h = "rtable0 (\<lambda>_. False)"
  have c: "child ?h a b = None" for a b by (cases b) (simp_all add: child_def rtable0_def)
  have w: "walk ?h bs = (if bs = [] then Some 0 else None)" for bs
    by (cases bs rule: rev_cases) (auto simp: walk_snoc c split: bind_splits)
  have "routes ?h = [[] \<mapsto> NOT 0]" by (rule ext) (simp add: routes_def w, simp add: rtable0_def)
  moreover have "trie_ok ?h" unfolding trie_ok_def w by (auto simp: rtable0_def heap_ok_def)
  ultimately show ?thesis by (simp add: table_rep_def rtable0_def)
qed

text \<open>
  Property C2. On every sequence of commands that set the default gateway, insert routes and look up
  addresses, as long as memory lasts, the program answers each lookup with the destination of the longest
  prefix inserted for the address (the last one inserted for that prefix), and the default gateway when
  there is none. If the text of an address has 12 characters or more, it overflows the buffer it is written to, and the
  behaviour is undefined; it is not for all other lookups, provided that the shifts of signed numbers in the program
  have the meaning that compilers give them (see \<open>Rtable\<close>): by the letter of the standard those overflow too.
\<close>

theorem rtable_longest_prefix:
  assumes "list_all route_ok cs"
  shows "rtable_main (\<lambda>_. False) (concat (map route_line cs))
    = map_option (\<lambda>out. (rtable_banner @ out, [])) (route_spec [[] \<mapsto> NOT 0] cs)"
  using rtable_loop_spec[OF rtable0_rep assms, of "[]"]
  by (cases "route_spec [[] \<mapsto> NOT 0] cs") (simp_all add: rtable_main_def)

lemma sample_routes:
  "route_spec [[] \<mapsto> NOT 0] [Default 1, Route 0x0A000000 8 2, Route 0x0A010000 16 3, Lookup 0x0A020001, Lookup 0x0A010001]
    = Some ''> > > Dest = 10.2.0.1, Next hop = 0.0.0.2\<newline>> Dest = 10.1.0.1, Next hop = 0.0.0.3\<newline>> ''"
  "route_spec [[] \<mapsto> NOT 0] [Lookup 0xC0A80164] = None"
  by code_simp+

theorem rtable_longest_prefix_witness:
  "rtable_main (\<lambda>_. False) (concat (map route_line [Default 1, Route 0x0A000000 8 2, Route 0x0A010000 16 3, Lookup 0x0A020001, Lookup 0x0A010001]))
    = Some (rtable_banner @ ''> > > Dest = 10.2.0.1, Next hop = 0.0.0.2\<newline>> Dest = 10.1.0.1, Next hop = 0.0.0.3\<newline>> '', [])
   \<and> rtable_main (\<lambda>_. False) (concat (map route_line [Lookup 0xC0A80164])) = None"
  using rtable_longest_prefix[of "[Default 1, Route 0x0A000000 8 2, Route 0x0A010000 16 3, Lookup 0x0A020001, Lookup 0x0A010001]"]
    rtable_longest_prefix[of "[Lookup 0xC0A80164]"]
  unfolding sample_routes by simp

end
