(* ===== verification/Adj_List.thy ===== *)
theory Adj_List
  imports C_Stdio
begin

text \<open>
  \<open>DS_Algos/graphs/adj_list/adjacency_list.c\<close>: directed graphs as adjacency lists, with depth-first and
  breadth-first traversal. The circular lists of neighbours are made of nodes of a static store and of the
  sentinels inside the vertices; a pointer to a list node is a reference to one or the other, a pointer to a
  vertex its index. A field never written is \<open>None\<close>. Standard output is part of the state. The loops
  that follow pointers may not end on a damaged list and are partial functions.
\<close>

definition MAX_LIST_NODES :: nat where "MAX_LIST_NODES = 256"
definition MAX_VERTICES :: nat where "MAX_VERTICES = 128"
definition QUEUE_CAPACITY :: nat where "QUEUE_CAPACITY = MAX_VERTICES"

datatype node_ref = Head nat | Node nat

record list_node =
  vertex :: "nat option"
  nxt :: "node_ref option"

record graph_vertex =
  "value" :: "int option"
  visited :: "int option"
  neighbors :: list_node

record graph =
  vertices :: "graph_vertex list"
  vertices_sz :: nat

record bfs_queue =
  slots :: "nat option list"
  head :: nat
  tail :: nat
  elem_count :: nat

record gst =
  g :: graph
  nodes_store :: "list_node list"
  next_alloc :: nat
  queue :: bfs_queue
  out :: string

definition emit :: "gst \<Rightarrow> string \<Rightarrow> gst" where
  "emit st s = st\<lparr>out := out st @ s\<rparr>"

definition rd_vertex :: "gst \<Rightarrow> nat \<Rightarrow> graph_vertex c" where
  "rd_vertex st v = rd (vertices (g st)) v"

definition wr_vertex :: "gst \<Rightarrow> nat \<Rightarrow> graph_vertex \<Rightarrow> gst c" where
  "wr_vertex st v x = do { vs \<leftarrow> wr (vertices (g st)) v x; Some (st\<lparr>g := (g st)\<lparr>vertices := vs\<rparr>\<rparr>) }"

definition rd_node :: "gst \<Rightarrow> node_ref \<Rightarrow> list_node c" where
  "rd_node st r = (case r of Head v \<Rightarrow> map_option neighbors (rd_vertex st v) | Node i \<Rightarrow> rd (nodes_store st) i)"

definition wr_node :: "gst \<Rightarrow> node_ref \<Rightarrow> list_node \<Rightarrow> gst c" where
  "wr_node st r n =
     (case r of
        Head v \<Rightarrow> do { x \<leftarrow> rd_vertex st v; wr_vertex st v (x\<lparr>neighbors := n\<rparr>) }
      | Node i \<Rightarrow> do { ns \<leftarrow> wr (nodes_store st) i n; Some (st\<lparr>nodes_store := ns\<rparr>) })"

subsection \<open>The list library\<close>

definition list_insert_after :: "gst \<Rightarrow> node_ref \<Rightarrow> node_ref \<Rightarrow> gst c" where
  "list_insert_after st new_node after_this =
     do { a \<leftarrow> rd_node st after_this;
          n \<leftarrow> rd_node st new_node;
          st1 \<leftarrow> wr_node st new_node (n\<lparr>nxt := nxt a\<rparr>);
          a1 \<leftarrow> rd_node st1 after_this;
          wr_node st1 after_this (a1\<lparr>nxt := Some new_node\<rparr>) }"

definition list_init_node :: "gst \<Rightarrow> nat option \<Rightarrow> node_ref \<Rightarrow> gst c" where
  "list_init_node st v r = wr_node st r \<lparr>vertex = v, nxt = Some r\<rparr>"

definition new_list_node :: "gst \<Rightarrow> nat \<Rightarrow> (node_ref \<times> gst) c" where
  "new_list_node st v =
     do { _ \<leftarrow> c_assert (next_alloc st < MAX_LIST_NODES);
          let ret = Node (next_alloc st);
          st1 \<leftarrow> list_init_node st (Some v) ret;
          Some (ret, st1\<lparr>next_alloc := next_alloc st1 + 1\<rparr>) }"

subsection \<open>The graph\<close>

function prepare_loop :: "gst \<Rightarrow> nat \<Rightarrow> gst c" where
  "prepare_loop st i =
     (if i < vertices_sz (g st)
      then do { x \<leftarrow> rd_vertex st i; st1 \<leftarrow> wr_vertex st i (x\<lparr>visited := Some 0\<rparr>); prepare_loop st1 (i + 1) }
      else Some st)"
  by pat_completeness auto
termination
  by (relation "measure (\<lambda>(st, i). vertices_sz (g st) - i)") (auto simp: wr_vertex_def bind_eq_Some_conv)

definition prepare_traversal :: "gst \<Rightarrow> gst c" where
  "prepare_traversal st = prepare_loop st 0"

function init_loop :: "gst \<Rightarrow> nat \<Rightarrow> gst c" where
  "init_loop st i =
     (if i < vertices_sz (g st)
      then do { x \<leftarrow> rd_vertex st i;
                st1 \<leftarrow> wr_vertex st i (x\<lparr>value := Some (int i)\<rparr>);
                st2 \<leftarrow> list_init_node st1 None (Head i);
                init_loop st2 (i + 1) }
      else Some st)"
  by pat_completeness auto
termination
  by (relation "measure (\<lambda>(st, i). vertices_sz (g st) - i)")
     (auto simp: wr_vertex_def list_init_node_def wr_node_def bind_eq_Some_conv)

declare prepare_loop.simps [simp del] init_loop.simps [simp del]

definition initialize_graph :: "gst \<Rightarrow> nat \<Rightarrow> gst c" where
  "initialize_graph st n =
     do { _ \<leftarrow> c_assert (n > 0 \<and> n \<le> MAX_VERTICES);
          init_loop (st\<lparr>g := (g st)\<lparr>vertices_sz := n\<rparr>\<rparr>) 0 }"

definition add_edge :: "gst \<Rightarrow> nat \<Rightarrow> nat \<Rightarrow> gst c" where
  "add_edge st from to =
     do { _ \<leftarrow> c_assert (from < vertices_sz (g st));
          _ \<leftarrow> c_assert (to < vertices_sz (g st));
          (node, st1) \<leftarrow> new_list_node st to;
          list_insert_after st1 node (Head from) }"

subsection \<open>Depth-first traversal\<close>

text \<open>A call on a vertex, or the loop over its neighbours from a cursor on.\<close>

datatype dfs_call = Visit nat | Each nat node_ref

partial_function (option) dfs_aux :: "gst \<Rightarrow> dfs_call \<Rightarrow> gst option" where
  "dfs_aux st call =
     (case call of
        Visit v \<Rightarrow>
          do { x \<leftarrow> rd_vertex st v;
               val \<leftarrow> value x;
               let st1 = emit st (printf ''DFS entered vertex: %d\<newline>'' [IntA val]);
               st2 \<leftarrow> wr_vertex st1 v (x\<lparr>visited := Some 1\<rparr>);
               h \<leftarrow> rd_node st2 (Head v);
               cursor \<leftarrow> nxt h;
               st3 \<leftarrow> dfs_aux st2 (Each v cursor);
               y \<leftarrow> rd_vertex st3 v;
               val' \<leftarrow> value y;
               Some (emit st3 (printf ''DFS exited vertex: %d\<newline>'' [IntA val'])) }
      | Each v cursor \<Rightarrow>
          if cursor = Head v then Some st
          else do { n \<leftarrow> rd_node st cursor;
                    u \<leftarrow> vertex n;
                    x \<leftarrow> rd_vertex st u;
                    vis \<leftarrow> visited x;
                    st1 \<leftarrow> (if vis = 0 then dfs_aux st (Visit u) else Some st);
                    n' \<leftarrow> rd_node st1 cursor;
                    cursor' \<leftarrow> nxt n';
                    dfs_aux st1 (Each v cursor') })"

partial_function (option) dfs_loop :: "gst \<Rightarrow> nat \<Rightarrow> gst option" where
  "dfs_loop st i =
     (if i < vertices_sz (g st)
      then do { x \<leftarrow> rd_vertex st i;
                vis \<leftarrow> visited x;
                st1 \<leftarrow> (if vis = 0 then dfs_aux st (Visit i) else Some st);
                dfs_loop st1 (i + 1) }
      else Some st)"

definition dfs :: "gst \<Rightarrow> gst c" where
  "dfs st = do { st1 \<leftarrow> prepare_traversal st; dfs_loop st1 0 }"

subsection \<open>Breadth-first traversal\<close>

definition enqueue :: "gst \<Rightarrow> nat \<Rightarrow> gst c" where
  "enqueue st v =
     do { let q = queue st;
          _ \<leftarrow> c_assert (elem_count q < QUEUE_CAPACITY);
          sl \<leftarrow> wr (slots q) (tail q) (Some v);
          Some (st\<lparr>queue := q\<lparr>elem_count := elem_count q + 1, slots := sl, tail := (tail q + 1) mod MAX_VERTICES\<rparr>\<rparr>) }"

definition dequeue :: "gst \<Rightarrow> (nat \<times> gst) c" where
  "dequeue st =
     do { let q = queue st;
          _ \<leftarrow> c_assert (elem_count q > 0);
          ret \<leftarrow> rd (slots q) (head q);
          v \<leftarrow> ret;
          Some (v, st\<lparr>queue := q\<lparr>elem_count := elem_count q - 1, head := (head q + 1) mod MAX_VERTICES\<rparr>\<rparr>) }"

definition is_queue_empty :: "gst \<Rightarrow> bool" where
  "is_queue_empty st \<longleftrightarrow> elem_count (queue st) = 0"

partial_function (option) bfs_each :: "gst \<Rightarrow> nat \<Rightarrow> node_ref \<Rightarrow> gst option" where
  "bfs_each st v cursor =
     (if cursor = Head v then Some st
      else do { n \<leftarrow> rd_node st cursor;
                u \<leftarrow> vertex n;
                x \<leftarrow> rd_vertex st u;
                vis \<leftarrow> visited x;
                st1 \<leftarrow> (if vis = 0
                  then do { st' \<leftarrow> wr_vertex st u (x\<lparr>visited := Some 1\<rparr>); enqueue st' u } else Some st);
                n' \<leftarrow> rd_node st1 cursor;
                cursor' \<leftarrow> nxt n';
                bfs_each st1 v cursor' })"

partial_function (option) bfs_while :: "gst \<Rightarrow> gst option" where
  "bfs_while st =
     (if is_queue_empty st then Some st
      else do { (v, st1) \<leftarrow> dequeue st;
                x \<leftarrow> rd_vertex st1 v;
                val \<leftarrow> value x;
                let st2 = emit st1 (printf ''BFS Entered vertex: %d\<newline>'' [IntA val]);
                h \<leftarrow> rd_node st2 (Head v);
                cursor \<leftarrow> nxt h;
                st3 \<leftarrow> bfs_each st2 v cursor;
                y \<leftarrow> rd_vertex st3 v;
                val' \<leftarrow> value y;
                bfs_while (emit st3 (printf ''BFS exited vertex: %d\<newline>'' [IntA val'])) })"

definition bfs_aux :: "gst \<Rightarrow> nat \<Rightarrow> gst c" where
  "bfs_aux st v =
     do { st1 \<leftarrow> enqueue st v;
          x \<leftarrow> rd_vertex st1 v;
          st2 \<leftarrow> wr_vertex st1 v (x\<lparr>visited := Some 1\<rparr>);
          bfs_while st2 }"

partial_function (option) bfs_loop :: "gst \<Rightarrow> nat \<Rightarrow> gst option" where
  "bfs_loop st i =
     (if i < vertices_sz (g st)
      then do { x \<leftarrow> rd_vertex st i;
                vis \<leftarrow> visited x;
                st1 \<leftarrow> (if vis = 0 then bfs_aux st i else Some st);
                bfs_loop st1 (i + 1) }
      else Some st)"

definition bfs :: "gst \<Rightarrow> gst c" where
  "bfs st = do { st1 \<leftarrow> prepare_traversal st; bfs_loop st1 0 }"

subsection \<open>The driver\<close>

text \<open>
  The loop that reads the edges. When the input ends early, \<open>from\<close> and \<open>to\<close> are used uninitialised.
\<close>

fun edges_loop :: "gst \<Rightarrow> nat \<Rightarrow> string \<Rightarrow> (gst \<times> string) c" where
  "edges_loop st 0 input = Some (st, input)"
| "edges_loop st (Suc edges) input =
     do { r \<leftarrow> scanf ''%zu %zu'' input;
          _ \<leftarrow> c_assert (scan_ret r = 2);
          st1 \<leftarrow> add_edge st (nat (arg_int (sr_args r ! 0))) (nat (arg_int (sr_args r ! 1)));
          edges_loop st1 edges (sr_rest r) }"

text \<open>The graph is a local variable of the loop body, uninitialised at its start.\<close>

definition raw_graph :: graph where
  "raw_graph = \<lparr>vertices = replicate MAX_VERTICES \<lparr>value = None, visited = None, neighbors = \<lparr>vertex = None, nxt = None\<rparr>\<rparr>,
     vertices_sz = 0\<rparr>"

definition graph_case :: "gst \<Rightarrow> nat \<Rightarrow> nat \<Rightarrow> string \<Rightarrow> (gst \<times> string) c" where
  "graph_case st n edges input =
     do { st1 \<leftarrow> initialize_graph (st\<lparr>g := raw_graph\<rparr>) n;
          (st2, rest) \<leftarrow> edges_loop st1 edges input;
          st3 \<leftarrow> dfs (emit st2 (printf ''~~~ DFS ~~~\<newline>'' []));
          let st4 = emit st3 (printf ''~~~ END DFS ~~~\<newline>\<newline>'' []);
          st5 \<leftarrow> bfs (emit st4 (printf ''~~~ BFS ~~~\<newline>'' []));
          Some (emit st5 (printf ''~~~ END BFS ~~~\<newline>'' []), rest) }"

partial_function (option) graph_loop :: "gst \<Rightarrow> string \<Rightarrow> gst option" where
  "graph_loop st input =
     do { r \<leftarrow> scanf ''%zu %zu'' input;
          if scan_ret r = 2
          then do { (st1, rest) \<leftarrow> graph_case st (nat (arg_int (sr_args r ! 0))) (nat (arg_int (sr_args r ! 1))) (sr_rest r);
                    graph_loop st1 rest }
          else Some st }"

text \<open>The static variables are zero before \<open>main\<close>.\<close>

definition gst0 :: gst where
  "gst0 = \<lparr>g = raw_graph, nodes_store = replicate MAX_LIST_NODES \<lparr>vertex = None, nxt = None\<rparr>, next_alloc = 0,
     queue = \<lparr>slots = replicate QUEUE_CAPACITY None, head = 0, tail = 0, elem_count = 0\<rparr>, out = []\<rparr>"

definition graph_banner :: string where
  "graph_banner =
     printf ''Enter number V of vertices, followed by number E of edges,\<newline>'' []
     @ printf ''followed by E lines of the form: source_node target_node to describe the edges.\<newline>'' []
     @ printf ''Vertices are numbered from 0 to V-1\<newline>'' []"

definition graph_main :: "string \<Rightarrow> string c" where
  "graph_main input = do { st \<leftarrow> graph_loop (emit gst0 graph_banner) input; Some (out st) }"

end
