(* ===== verification/Adj_List_Proofs.thy ===== *)
theory Adj_List_Proofs
  imports Adj_List
begin

text \<open>
  The traversals of \<^verbatim>\<open>adjacency_list.c\<close> against their textbook definitions. The abstract graph is the
  list of the neighbour lists; \<open>dfs_ns\<close> and \<open>bfs_q\<close> are the traversals as rules over it, whose
  events are what the program prints. The state of the program is related to the abstract graph and to the
  set of visited vertices by \<open>trav\<close>, and the circular queue to the list of its elements by \<open>qrep\<close>.
\<close>

subsection \<open>The traversals as rules\<close>

type_synonym adj = "nat list list"

datatype event = Enter nat | Exit nat

inductive dfs_ns :: "adj \<Rightarrow> nat set \<Rightarrow> nat list \<Rightarrow> event list \<Rightarrow> nat set \<Rightarrow> bool" for adj where
  dfs_done: "dfs_ns adj V [] [] V"
| dfs_skip: "u \<in> V \<Longrightarrow> dfs_ns adj V us es V' \<Longrightarrow> dfs_ns adj V (u # us) es V'"
| dfs_visit: "u \<notin> V \<Longrightarrow> dfs_ns adj (insert u V) (adj ! u) es1 V1 \<Longrightarrow> dfs_ns adj V1 us es2 V2
    \<Longrightarrow> dfs_ns adj V (u # us) (Enter u # es1 @ Exit u # es2) V2"

text \<open>The neighbours a breadth-first step queues: the first occurrences of those not yet visited.\<close>

fun news :: "nat set \<Rightarrow> nat list \<Rightarrow> nat list" where
  "news V [] = []"
| "news V (u # us) = (if u \<in> V then news V us else u # news (insert u V) us)"

inductive bfs_q :: "adj \<Rightarrow> nat set \<Rightarrow> nat list \<Rightarrow> event list \<Rightarrow> nat set \<Rightarrow> bool" for adj where
  bfs_q_done: "bfs_q adj V [] [] V"
| bfs_q_step: "bfs_q adj (V \<union> set (news V (adj ! v))) (q @ news V (adj ! v)) es V'
    \<Longrightarrow> bfs_q adj V (v # q) (Enter v # Exit v # es) V'"

inductive bfs_ns :: "adj \<Rightarrow> nat set \<Rightarrow> nat list \<Rightarrow> event list \<Rightarrow> nat set \<Rightarrow> bool" for adj where
  bfs_done: "bfs_ns adj V [] [] V"
| bfs_skip: "u \<in> V \<Longrightarrow> bfs_ns adj V us es V' \<Longrightarrow> bfs_ns adj V (u # us) es V'"
| bfs_visit: "u \<notin> V \<Longrightarrow> bfs_q adj (insert u V) [u] es1 V1 \<Longrightarrow> bfs_ns adj V1 us es2 V2
    \<Longrightarrow> bfs_ns adj V (u # us) (es1 @ es2) V2"

fun entered :: "event list \<Rightarrow> nat list" where
  "entered [] = []"
| "entered (Enter u # es) = u # entered es"
| "entered (Exit u # es) = entered es"

lemma entered_append [simp]: "entered (xs @ ys) = entered xs @ entered ys"
  by (induction xs rule: entered.induct) auto

lemma dfs_entered:
  "dfs_ns adj V us es V' \<Longrightarrow>
   distinct (entered es) \<and> set (entered es) \<inter> V = {} \<and> V' = V \<union> set (entered es) \<and> set us \<subseteq> V'"
  by (induction rule: dfs_ns.induct) auto

lemma news_props: "distinct (news V us) \<and> set (news V us) = set us - V"
  by (induction V us rule: news.induct) auto

lemma bfs_q_entered:
  "bfs_q adj V q es V' \<Longrightarrow> distinct q \<Longrightarrow> set q \<subseteq> V \<Longrightarrow>
   distinct (entered es) \<and> set (entered es) = set q \<union> (V' - V) \<and> V \<subseteq> V'"
proof (induction rule: bfs_q.induct)
  case (bfs_q_step V v q es V')
  let ?N = "news V (adj ! v)"
  have "distinct (q @ ?N)" "set (q @ ?N) \<subseteq> V \<union> set ?N" "v \<notin> set ?N" "V \<inter> set ?N = {}"
    using bfs_q_step.prems news_props[of V "adj ! v"] by auto
  with bfs_q_step.IH bfs_q_step.prems show ?case by auto
qed auto

lemma bfs_entered:
  "bfs_ns adj V us es V' \<Longrightarrow>
   distinct (entered es) \<and> set (entered es) \<inter> V = {} \<and> V' = V \<union> set (entered es) \<and> set us \<subseteq> V'"
proof (induction rule: bfs_ns.induct)
  case (bfs_visit u V es1 V1 us es2 V2)
  have "distinct (entered es1) \<and> set (entered es1) = {u} \<union> (V1 - insert u V) \<and> insert u V \<subseteq> V1"
    using bfs_q_entered[OF bfs_visit.hyps(2)] by simp
  with bfs_visit show ?case by auto
qed auto

text \<open>What the program prints for an event.\<close>

fun dfs_line :: "event \<Rightarrow> string" where
  "dfs_line (Enter u) = ''DFS entered vertex: '' @ show_nat u @ ''\<newline>''"
| "dfs_line (Exit u) = ''DFS exited vertex: '' @ show_nat u @ ''\<newline>''"

fun bfs_line :: "event \<Rightarrow> string" where
  "bfs_line (Enter u) = ''BFS Entered vertex: '' @ show_nat u @ ''\<newline>''"
| "bfs_line (Exit u) = ''BFS exited vertex: '' @ show_nat u @ ''\<newline>''"

definition dfs_text :: "event list \<Rightarrow> string" where "dfs_text es = concat (map dfs_line es)"
definition bfs_text :: "event list \<Rightarrow> string" where "bfs_text es = concat (map bfs_line es)"

lemma event_lines:
  "printf ''DFS entered vertex: %d\<newline>'' [IntA (int u)] = dfs_line (Enter u)"
  "printf ''DFS exited vertex: %d\<newline>'' [IntA (int u)] = dfs_line (Exit u)"
  "printf ''BFS Entered vertex: %d\<newline>'' [IntA (int u)] = bfs_line (Enter u)"
  "printf ''BFS exited vertex: %d\<newline>'' [IntA (int u)] = bfs_line (Exit u)"
  by (simp_all add: show_conv_def)

declare dfs_line.simps [simp del] bfs_line.simps [simp del] printf.simps [simp del]

lemma text_simps [simp]:
  "dfs_text [] = []" "dfs_text (e # es) = dfs_line e @ dfs_text es" "dfs_text (es @ es') = dfs_text es @ dfs_text es'"
  "bfs_text [] = []" "bfs_text (e # es) = bfs_line e @ bfs_text es" "bfs_text (es @ es') = bfs_text es @ bfs_text es'"
  by (simp_all add: dfs_text_def bfs_text_def)

subsection \<open>The state of a traversal\<close>

fun chain :: "nat \<Rightarrow> list_node list \<Rightarrow> nat \<Rightarrow> node_ref \<Rightarrow> nat list \<Rightarrow> bool" where
  "chain k ns v r [] \<longleftrightarrow> r = Head v"
| "chain k ns v r (u # us) \<longleftrightarrow>
     (\<exists>i r'. r = Node i \<and> i < k \<and> ns ! i = \<lparr>vertex = Some u, nxt = Some r'\<rparr> \<and> chain k ns v r' us)"

lemma chain_alloc: "chain k ns v r us \<Longrightarrow> chain (Suc k) (ns[k := x]) v r us"
  by (induction us arbitrary: r) auto

definition shaped :: "gst \<Rightarrow> nat \<Rightarrow> bool" where
  "shaped st n \<longleftrightarrow> vertices_sz (g st) = n \<and> n \<le> MAX_VERTICES \<and> length (vertices (g st)) = MAX_VERTICES
     \<and> length (nodes_store st) = MAX_LIST_NODES \<and> next_alloc st \<le> MAX_LIST_NODES"

definition vertex_ok :: "gst \<Rightarrow> adj \<Rightarrow> nat \<Rightarrow> bool" where
  "vertex_ok st adj v \<longleftrightarrow> value (vertices (g st) ! v) = Some (int v)
     \<and> (\<exists>r. nxt (neighbors (vertices (g st) ! v)) = Some r \<and> chain (next_alloc st) (nodes_store st) v r (adj ! v))"

definition graph_ok :: "gst \<Rightarrow> adj \<Rightarrow> nat \<Rightarrow> bool" where
  "graph_ok st adj n \<longleftrightarrow> shaped st n \<and> length adj = n \<and> (\<forall>us \<in> set adj. set us \<subseteq> {..<n})
     \<and> (\<forall>v<n. vertex_ok st adj v)"

definition trav :: "gst \<Rightarrow> adj \<Rightarrow> nat \<Rightarrow> nat set \<Rightarrow> bool" where
  "trav st adj n V \<longleftrightarrow> graph_ok st adj n \<and> V \<subseteq> {..<n}
     \<and> (\<forall>v<n. visited (vertices (g st) ! v) = Some (of_bool (v \<in> V)))"

text \<open>A vertex marked as visited, as both traversals do it.\<close>

definition set_visited :: "gst \<Rightarrow> nat \<Rightarrow> int \<Rightarrow> gst" where
  "set_visited st v b = st\<lparr>g := (g st)\<lparr>vertices := (vertices (g st))[v := (vertices (g st) ! v)\<lparr>visited := Some b\<rparr>]\<rparr>\<rparr>"

lemma rd_vertex_Some: "shaped st n \<Longrightarrow> v < n \<Longrightarrow> rd_vertex st v = Some (vertices (g st) ! v)"
  by (simp add: rd_vertex_def shaped_def)

lemma wr_visited: "shaped st n \<Longrightarrow> v < n \<Longrightarrow>
    wr_vertex st v ((vertices (g st) ! v)\<lparr>visited := Some b\<rparr>) = Some (set_visited st v b)"
  by (simp add: wr_vertex_def set_visited_def shaped_def)

lemma set_visited_shaped [simp]: "shaped (set_visited st v b) n = shaped st n"
  by (auto simp: shaped_def set_visited_def)

lemma set_visited_simps [simp]:
  "nodes_store (set_visited st v b) = nodes_store st" "next_alloc (set_visited st v b) = next_alloc st"
  "queue (set_visited st v b) = queue st" "out (set_visited st v b) = out st"
  "vertices_sz (g (set_visited st v b)) = vertices_sz (g st)"
  "length (vertices (g (set_visited st v b))) = length (vertices (g st))"
  by (auto simp: set_visited_def)

lemma nth_set_visited: "w < length (vertices (g st)) \<Longrightarrow>
    vertices (g (set_visited st v b)) ! w =
      (if w = v then (vertices (g st) ! v)\<lparr>visited := Some b\<rparr> else vertices (g st) ! w)"
  by (auto simp: set_visited_def nth_list_update)

lemma set_visited_ok: "graph_ok st adj n \<Longrightarrow> graph_ok (set_visited st v b) adj n"
  by (auto simp: graph_ok_def vertex_ok_def nth_set_visited shaped_def)

lemma trav_mark: "trav st adj n V \<Longrightarrow> u < n \<Longrightarrow> trav (set_visited st u 1) adj n (insert u V)"
  using set_visited_ok[of st adj n u 1]
  by (auto simp: trav_def nth_set_visited) (auto simp: nth_set_visited graph_ok_def shaped_def)

lemma graph_ok_cong: "g st' = g st \<Longrightarrow> nodes_store st' = nodes_store st \<Longrightarrow> next_alloc st' = next_alloc st \<Longrightarrow>
    graph_ok st' adj n = graph_ok st adj n"
  by (simp add: graph_ok_def vertex_ok_def shaped_def)

lemma trav_emit: "trav (emit st s) adj n V = trav st adj n V"
  by (simp add: trav_def emit_def graph_ok_def vertex_ok_def shaped_def)

lemma trav_queue [simp]: "trav (st\<lparr>queue := q\<rparr>) adj n V = trav st adj n V"
  by (simp add: trav_def graph_ok_def vertex_ok_def shaped_def)

lemma travD:
  assumes "trav st adj n V" "v < n"
  shows "rd_vertex st v = Some (vertices (g st) ! v)" "value (vertices (g st) ! v) = Some (int v)"
    "visited (vertices (g st) ! v) = Some (of_bool (v \<in> V))" "set (adj ! v) \<subseteq> {..<n}"
    "wr_vertex st v ((vertices (g st) ! v)\<lparr>visited := Some b\<rparr>) = Some (set_visited st v b)"
    "\<exists>r. nxt (neighbors (vertices (g st) ! v)) = Some r \<and> chain (next_alloc st) (nodes_store st) v r (adj ! v)"
  using assms by (auto simp: trav_def graph_ok_def vertex_ok_def rd_vertex_Some wr_visited)

lemma trav_rd_node: "trav st adj n V \<Longrightarrow> i < next_alloc st \<Longrightarrow> rd_node st (Node i) = Some (nodes_store st ! i)"
  by (simp add: trav_def graph_ok_def shaped_def rd_node_def)

subsection \<open>Depth-first traversal\<close>

text \<open>What a traversal leaves alone.\<close>

definition frame :: "gst \<Rightarrow> gst \<Rightarrow> string \<Rightarrow> bool" where
  "frame st st' s \<longleftrightarrow> nodes_store st' = nodes_store st \<and> next_alloc st' = next_alloc st
     \<and> vertices_sz (g st') = vertices_sz (g st) \<and> out st' = out st @ s"

lemma frame_simps [simp]: "frame st st []" "frame st (emit st' s') (s @ s') = frame st st' s"
  "frame (set_visited st v b) st' s = frame st st' s"
  by (auto simp: frame_def emit_def)

lemma frame_emit: "frame (emit st s0) st' s \<longleftrightarrow> frame st st' (s0 @ s)"
  by (auto simp: frame_def emit_def)

lemma frame_trans: "frame st st1 s1 \<Longrightarrow> frame st1 st2 s2 \<Longrightarrow> frame st st2 (s1 @ s2)"
  by (auto simp: frame_def)

definition dfs_result :: "adj \<Rightarrow> nat \<Rightarrow> nat set \<Rightarrow> nat list \<Rightarrow> gst \<Rightarrow> gst option \<Rightarrow> bool" where
  "dfs_result adj n V us st r \<longleftrightarrow>
     (\<exists>st' es V'. r = Some st' \<and> dfs_ns adj V us es V' \<and> trav st' adj n V' \<and> frame st st' (dfs_text es)
        \<and> queue st' = queue st)"

lemma dfs_resultI:
  "r = Some st' \<Longrightarrow> dfs_ns adj V us es V' \<Longrightarrow> trav st' adj n V' \<Longrightarrow> frame st st' (dfs_text es) \<Longrightarrow>
   queue st' = queue st \<Longrightarrow> dfs_result adj n V us st r"
  unfolding dfs_result_def by blast

lemma dfs_resultE:
  assumes "dfs_result adj n V us st r"
  obtains st' es V' where "r = Some st'" "dfs_ns adj V us es V'" "trav st' adj n V'" "frame st st' (dfs_text es)"
    "queue st' = queue st"
  using assms unfolding dfs_result_def by blast

lemma unvisited_less:
  fixes n :: nat
  assumes "V \<subseteq> V'" "u \<in> V'" "u \<notin> V" "V' \<subseteq> {..<n}"
  shows "card ({..<n} - V') < card ({..<n} - V)"
  using assms by (intro psubset_card_mono finite_Diff) auto

lemma dfs_visit_result:
  assumes each: "\<And>st v cursor us V. trav st adj n V \<Longrightarrow> card ({..<n} - V) < m \<Longrightarrow>
      chain (next_alloc st) (nodes_store st) v cursor us \<Longrightarrow> set us \<subseteq> {..<n} \<Longrightarrow>
      dfs_result adj n V us st (dfs_aux st (Each v cursor))"
    and t: "trav st adj n V" and m: "card ({..<n} - V) = m" and u: "u < n" "u \<notin> V"
  shows "dfs_result adj n V [u] st (dfs_aux st (Visit u))"
proof -
  let ?s1 = "emit st (dfs_line (Enter u))" let ?s2 = "set_visited ?s1 u 1"
  have t2: "trav ?s2 adj n (insert u V)" using trav_mark[of ?s1 adj n V u] t u by (simp add: trav_emit)
  have V: "insert u V \<subseteq> {..<n}" using t u by (auto simp: trav_def)
  obtain r where r: "nxt (neighbors (vertices (g ?s2) ! u)) = Some r"
      "chain (next_alloc ?s2) (nodes_store ?s2) u r (adj ! u)"
    using travD(6)[OF t2 u(1)] by blast
  have "dfs_result adj n (insert u V) (adj ! u) ?s2 (dfs_aux ?s2 (Each u r))"
    using unvisited_less[OF _ _ u(2) V] m V by (intro each t2 r(2) travD(4)[OF t u(1)]) auto
  then obtain st3 es V' where s3: "dfs_aux ?s2 (Each u r) = Some st3" "dfs_ns adj (insert u V) (adj ! u) es V'"
      "trav st3 adj n V'" "frame ?s2 st3 (dfs_text es)" "queue st3 = queue ?s2"
    unfolding dfs_result_def by blast
  have vs: "vertices (g ?s1) = vertices (g st)" by (simp add: emit_def)
  have run: "dfs_aux st (Visit u) = Some (emit st3 (dfs_line (Exit u)))"
    using travD[OF t u(1)] travD(5)[of ?s1 adj n V u 1] travD[OF s3(3) u(1)] travD(1)[OF t2 u(1)] t u r(1) s3(1)
    by (subst dfs_aux.simps) (simp add: vs rd_node_def event_lines trav_emit)
  have ns: "dfs_ns adj V [u] (Enter u # es @ Exit u # []) V'"
    by (rule dfs_visit[OF u(2) s3(2) dfs_done])
  have fr: "frame st (emit st3 (dfs_line (Exit u))) (dfs_text (Enter u # es @ Exit u # []))"
    using s3(4) by (simp add: frame_def emit_def)
  show ?thesis using s3(3,5) by (intro dfs_resultI[OF run ns _ fr]) (simp_all add: trav_emit, simp add: emit_def)
qed

lemma dfs_cons:
  assumes u: "dfs_ns adj V [u] es1 V1" and us: "dfs_ns adj V1 us es2 V2"
  shows "dfs_ns adj V (u # us) (es1 @ es2) V2"
  using u us by (auto elim!: dfs_ns.cases[of _ _ "_ # _"] dfs_ns.cases[of _ _ "[]"] intro: dfs_ns.intros)

lemma frame_store: "frame st st' s \<Longrightarrow> nodes_store st' = nodes_store st \<and> next_alloc st' = next_alloc st"
  by (simp add: frame_def)

lemma dfs_each_result:
  assumes "trav st adj n V" "chain (next_alloc st) (nodes_store st) v cursor us" "set us \<subseteq> {..<n}"
  shows "dfs_result adj n V us st (dfs_aux st (Each v cursor))"
  using assms
proof (induction m \<equiv> "card ({..<n} - V)" arbitrary: st V v cursor us rule: less_induct)
  case less
  from less.prems less.hyps show ?case
  proof (induction us arbitrary: st cursor V)
    case Nil
    then show ?case by (intro dfs_resultI[OF _ dfs_done]) (auto simp: dfs_aux.simps)
  next
    case (Cons u us)
    obtain i r' where c: "cursor = Node i" "i < next_alloc st" "nodes_store st ! i = \<lparr>vertex = Some u, nxt = Some r'\<rparr>"
        "chain (next_alloc st) (nodes_store st) v r' us" using Cons.prems(2) by auto
    have u: "u < n" and us: "set us \<subseteq> {..<n}" using Cons.prems(3) by auto
    note t = Cons.prems(1)
    have step: "dfs_aux st (Each v cursor) =
        (if u \<in> V then dfs_aux st (Each v r')
         else do { st1 \<leftarrow> dfs_aux st (Visit u); n' \<leftarrow> rd_node st1 (Node i); r \<leftarrow> nxt n'; dfs_aux st1 (Each v r) })"
      using c travD[OF t u] trav_rd_node[OF t c(2)] by (subst dfs_aux.simps) simp
    show ?case
    proof (cases "u \<in> V")
      case True
      have "dfs_result adj n V us st (dfs_aux st (Each v r'))" by (rule Cons.IH[OF t c(4) us Cons.prems(4)])
      with True step show ?thesis by (auto elim!: dfs_resultE intro: dfs_resultI dfs_skip)
    next
      case False
      have "dfs_result adj n V [u] st (dfs_aux st (Visit u))"
        by (rule dfs_visit_result[OF _ t refl u False]) (rule Cons.prems(4))
      then obtain st1 es1 V1 where s1: "dfs_aux st (Visit u) = Some st1" "dfs_ns adj V [u] es1 V1" "trav st1 adj n V1"
          "frame st st1 (dfs_text es1)" "queue st1 = queue st" by (rule dfs_resultE)
      have V1: "V \<subseteq> V1" "u \<in> V1" "V1 \<subseteq> {..<n}" using dfs_entered[OF s1(2)] s1(3) by (auto simp: trav_def)
      have c1: "chain (next_alloc st1) (nodes_store st1) v r' us" using c(4) frame_store[OF s1(4)] by simp
      have "dfs_result adj n V1 us st1 (dfs_aux st1 (Each v r'))"
        by (rule Cons.prems(4)[OF unvisited_less[OF V1(1,2) False V1(3)] s1(3) c1 us])
      moreover have "dfs_aux st (Each v cursor) = dfs_aux st1 (Each v r')"
        using step False s1(1) c(2,3) trav_rd_node[OF s1(3), of i] frame_store[OF s1(4)] by simp
      ultimately show ?thesis using s1
        by (auto elim!: dfs_resultE intro!: dfs_resultI dfs_cons dest: frame_trans)
    qed
  qed
qed

lemma dfs_vertex_result:
  assumes "trav st adj n V" "u < n" "u \<notin> V"
  shows "dfs_result adj n V [u] st (dfs_aux st (Visit u))"
  using dfs_each_result by (intro dfs_visit_result[OF _ assms(1) refl assms(2,3)])

lemma dfs_loop_result:
  assumes "trav st adj n V" "i \<le> n"
  shows "dfs_result adj n V [i..<n] st (dfs_loop st i)"
  using assms
proof (induction k \<equiv> "n - i" arbitrary: i st V)
  case 0
  then show ?case by (intro dfs_resultI[of _ st]) (auto simp: dfs_loop.simps trav_def graph_ok_def shaped_def intro: dfs_done)
next
  case (Suc k)
  then have i: "i < n" "[i..<n] = i # [Suc i..<n]" "k = n - Suc i" by (auto simp: upt_conv_Cons)
  have sz: "vertices_sz (g st) = n" using Suc.prems by (simp add: trav_def graph_ok_def shaped_def)
  show ?case
  proof (cases "i \<in> V")
    case True
    have "dfs_result adj n V [Suc i..<n] st (dfs_loop st (Suc i))" using Suc i by simp
    moreover have "dfs_loop st i = dfs_loop st (Suc i)"
      using travD[OF Suc.prems(1) i(1)] i True sz by (subst dfs_loop.simps) simp
    ultimately show ?thesis using True i by (auto elim!: dfs_resultE intro: dfs_resultI dfs_skip)
  next
    case False
    obtain st1 es1 V1 where s1: "dfs_aux st (Visit i) = Some st1" "dfs_ns adj V [i] es1 V1" "trav st1 adj n V1"
        "frame st st1 (dfs_text es1)" "queue st1 = queue st"
      by (rule dfs_resultE[OF dfs_vertex_result[OF Suc.prems(1) i(1) False]])
    have "dfs_result adj n V1 [Suc i..<n] st1 (dfs_loop st1 (Suc i))" using Suc i s1(3) by simp
    moreover have "dfs_loop st i = dfs_loop st1 (Suc i)"
      using travD[OF Suc.prems(1) i(1)] i False sz s1(1) by (subst dfs_loop.simps) simp
    ultimately show ?thesis using s1 i
      by (auto elim!: dfs_resultE intro!: dfs_resultI dfs_cons dest: frame_trans)
  qed
qed

end
