(* ===== verification/Adj_List_Bfs.thy ===== *)
theory Adj_List_Bfs
  imports Adj_List_Proofs
begin

text \<open>
  The breadth-first traversal of \<^verbatim>\<open>adjacency_list.c\<close>: the circular queue as the list of its
  elements, the loop over the neighbours as \<open>news\<close>, the loop on the queue as \<open>bfs_q\<close>. The queue never
  overflows, because its elements are distinct visited vertices.
\<close>

subsection \<open>The circular queue\<close>

definition qrep :: "bfs_queue \<Rightarrow> nat list \<Rightarrow> bool" where
  "qrep qu q \<longleftrightarrow> length (slots qu) = QUEUE_CAPACITY \<and> head qu < MAX_VERTICES \<and> length q \<le> QUEUE_CAPACITY
     \<and> elem_count qu = length q \<and> tail qu = (head qu + length q) mod MAX_VERTICES
     \<and> (\<forall>j<length q. slots qu ! ((head qu + j) mod MAX_VERTICES) = Some (q ! j))"

lemma mod_add_less: "i \<le> j \<Longrightarrow> j < m \<Longrightarrow> (h + j) mod m = (h + i) mod m \<Longrightarrow> i = j" for h :: nat
  using mod_eq_dvd_iff_nat[of "h + i" "h + j" m] nat_dvd_not_less[of "j - i" m] by (cases "i < j") (auto simp: less_imp_diff_less)

lemma mod_add_inj: "i < m \<Longrightarrow> j < m \<Longrightarrow> (h + i) mod m = (h + j) mod m \<Longrightarrow> i = j" for h :: nat
  using mod_add_less[of i j m h] mod_add_less[of j i m h] by (cases "i \<le> j") auto

lemma qrep_enqueue:
  assumes q: "qrep (queue st) q" and room: "length q < QUEUE_CAPACITY"
  shows "\<exists>qu. enqueue st u = Some (st\<lparr>queue := qu\<rparr>) \<and> qrep qu (q @ [u])"
proof -
  let ?qu = "queue st"
  let ?qu' = "?qu\<lparr>elem_count := elem_count ?qu + 1, slots := (slots ?qu)[tail ?qu := Some u],
    tail := (tail ?qu + 1) mod MAX_VERTICES\<rparr>"
  have pos: "0 < MAX_VERTICES" by (simp add: MAX_VERTICES_def)
  have t: "tail ?qu = (head ?qu + length q) mod MAX_VERTICES" "tail ?qu < MAX_VERTICES"
    using q pos by (simp_all add: qrep_def)
  have "slots ?qu' ! ((head ?qu + j) mod MAX_VERTICES) = Some ((q @ [u]) ! j)" if "j < Suc (length q)" for j
  proof (cases "j = length q")
    case True
    then show ?thesis using t q by (simp add: qrep_def QUEUE_CAPACITY_def)
  next
    case False
    then have "(head ?qu + j) mod MAX_VERTICES \<noteq> tail ?qu"
      using that room t mod_add_inj[of j MAX_VERTICES "length q" "head ?qu"] by (auto simp: QUEUE_CAPACITY_def)
    with False that q show ?thesis by (simp add: qrep_def nth_append)
  qed
  then have "qrep ?qu' (q @ [u])"
    using q room t by (simp add: qrep_def mod_Suc_eq)
  moreover have "enqueue st u = Some (st\<lparr>queue := ?qu'\<rparr>)"
    using q room t by (simp add: enqueue_def Let_def qrep_def QUEUE_CAPACITY_def)
  ultimately show ?thesis by blast
qed

lemma qrep_dequeue:
  assumes q: "qrep (queue st) (v # q)"
  shows "\<exists>qu. dequeue st = Some (v, st\<lparr>queue := qu\<rparr>) \<and> qrep qu q"
proof -
  let ?qu = "queue st"
  let ?qu' = "?qu\<lparr>elem_count := elem_count ?qu - 1, head := (head ?qu + 1) mod MAX_VERTICES\<rparr>"
  have "slots ?qu ! ((head ?qu + Suc j) mod MAX_VERTICES) = Some (q ! j)" if "j < length q" for j
    using q that unfolding qrep_def by (metis Suc_less_eq length_Cons nth_Cons_Suc)
  then have "qrep ?qu' q"
    using q by (simp add: qrep_def mod_simps)
  moreover have "slots ?qu ! head ?qu = Some v"
    using q unfolding qrep_def by (metis Nat.add_0_right length_Cons mod_less nth_Cons_0 zero_less_Suc)
  then have "dequeue st = Some (v, st\<lparr>queue := ?qu'\<rparr>)"
    using q by (simp add: dequeue_def Let_def qrep_def QUEUE_CAPACITY_def)
  ultimately show ?thesis by blast
qed

lemma qrep_empty: "qrep (queue st) q \<Longrightarrow> is_queue_empty st \<longleftrightarrow> q = []"
  by (simp add: qrep_def is_queue_empty_def)

subsection \<open>One vertex: its neighbours are marked and queued\<close>

definition bfs_at :: "gst \<Rightarrow> adj \<Rightarrow> nat \<Rightarrow> nat set \<Rightarrow> nat list \<Rightarrow> bool" where
  "bfs_at st adj n V q \<longleftrightarrow> trav st adj n V \<and> qrep (queue st) q \<and> distinct q \<and> set q \<subseteq> V"

lemma bfs_at_room:
  assumes "bfs_at st adj n V q" "u < n" "u \<notin> V"
  shows "length q < QUEUE_CAPACITY"
proof -
  have "length q = card (set q)" using assms by (simp add: bfs_at_def distinct_card)
  also have "\<dots> < card {..<n}"
    using assms by (intro psubset_card_mono) (auto simp: bfs_at_def trav_def)
  also have "\<dots> \<le> QUEUE_CAPACITY"
    using assms by (simp add: bfs_at_def trav_def graph_ok_def shaped_def QUEUE_CAPACITY_def)
  finally show ?thesis .
qed

lemma bfs_at_enqueue:
  assumes "bfs_at st adj n V q" "u < n" "u \<notin> V"
  shows "\<exists>st'. enqueue (set_visited st u 1) u = Some st' \<and> bfs_at st' adj n (insert u V) (q @ [u]) \<and> frame st st' []"
proof -
  have "qrep (queue (set_visited st u 1)) q" using assms by (simp add: bfs_at_def)
  then obtain qu where "enqueue (set_visited st u 1) u = Some ((set_visited st u 1)\<lparr>queue := qu\<rparr>)" "qrep qu (q @ [u])"
    using qrep_enqueue bfs_at_room[OF assms] by blast
  moreover have "frame st ((set_visited st u 1)\<lparr>queue := qu\<rparr>) []" by (simp add: frame_def)
  ultimately show ?thesis using assms trav_mark[of st adj n V u] by (auto simp: bfs_at_def)
qed

lemma bfs_each_result:
  assumes "bfs_at st adj n V q" "chain (next_alloc st) (nodes_store st) v cursor us" "set us \<subseteq> {..<n}"
  shows "\<exists>st'. bfs_each st v cursor = Some st' \<and> frame st st' []
    \<and> bfs_at st' adj n (V \<union> set (news V us)) (q @ news V us)"
  using assms
proof (induction us arbitrary: st cursor V q)
  case Nil
  then show ?case by (intro exI[of _ st]) (simp add: bfs_each.simps)
next
  case (Cons u us)
  obtain i r' where c: "cursor = Node i" "i < next_alloc st" "nodes_store st ! i = \<lparr>vertex = Some u, nxt = Some r'\<rparr>"
      "chain (next_alloc st) (nodes_store st) v r' us" using Cons.prems(2) by auto
  have u: "u < n" and us: "set us \<subseteq> {..<n}" using Cons.prems(3) by auto
  have t: "trav st adj n V" using Cons.prems(1) by (simp add: bfs_at_def)
  have step: "bfs_each st v cursor =
      (if u \<in> V then bfs_each st v r'
       else do { st1 \<leftarrow> enqueue (set_visited st u 1) u; n' \<leftarrow> rd_node st1 (Node i); r \<leftarrow> nxt n'; bfs_each st1 v r })"
    using c travD[OF t u] trav_rd_node[OF t c(2)] by (subst bfs_each.simps) simp
  show ?case
  proof (cases "u \<in> V")
    case True
    then show ?thesis using Cons.IH[OF Cons.prems(1) c(4) us] step by simp
  next
    case False
    then obtain st1 where s1: "enqueue (set_visited st u 1) u = Some st1" "bfs_at st1 adj n (insert u V) (q @ [u])"
        "frame st st1 []" using bfs_at_enqueue[OF Cons.prems(1) u] by blast
    have c1: "chain (next_alloc st1) (nodes_store st1) v r' us" using c(4) frame_store[OF s1(3)] by simp
    obtain st2 where s2: "bfs_each st1 v r' = Some st2" "frame st1 st2 []"
        "bfs_at st2 adj n (insert u V \<union> set (news (insert u V) us)) ((q @ [u]) @ news (insert u V) us)"
      using Cons.IH[OF s1(2) c1 us] by blast
    have "trav st1 adj n (insert u V)" using s1(2) by (simp add: bfs_at_def)
    then have "bfs_each st v cursor = Some st2"
      using step False s1(1) s2(1) c(2,3) trav_rd_node[of st1 adj n "insert u V" i] frame_store[OF s1(3)] by simp
    then show ?thesis using s2(3) False frame_trans[OF s1(3) s2(2)] by (intro exI[of _ st2]) simp
  qed
qed

subsection \<open>The loop on the queue, and the loop on the vertices\<close>

definition bfs_result :: "adj \<Rightarrow> nat \<Rightarrow> (event list \<Rightarrow> nat set \<Rightarrow> bool) \<Rightarrow> gst \<Rightarrow> gst option \<Rightarrow> bool" where
  "bfs_result adj n R st r \<longleftrightarrow>
     (\<exists>st' es V'. r = Some st' \<and> R es V' \<and> bfs_at st' adj n V' [] \<and> frame st st' (bfs_text es))"

lemma bfs_resultI:
  "r = Some st' \<Longrightarrow> R es V' \<Longrightarrow> bfs_at st' adj n V' [] \<Longrightarrow> frame st st' (bfs_text es) \<Longrightarrow> bfs_result adj n R st r"
  unfolding bfs_result_def by blast

lemma bfs_resultE:
  assumes "bfs_result adj n R st r"
  obtains st' es V' where "r = Some st'" "R es V'" "bfs_at st' adj n V' []" "frame st st' (bfs_text es)"
  using assms unfolding bfs_result_def by blast

lemma bfs_at_emit [simp]: "bfs_at (emit st s) adj n V q = bfs_at st adj n V q"
  by (simp add: bfs_at_def trav_emit) (simp add: emit_def)

lemma bfs_step:
  assumes a: "bfs_at st adj n V (v # q)"
  shows "\<exists>st'. bfs_while st = bfs_while st' \<and> frame st st' (bfs_line (Enter v) @ bfs_line (Exit v))
    \<and> bfs_at st' adj n (V \<union> set (news V (adj ! v))) (q @ news V (adj ! v))"
proof -
  have t: "trav st adj n V" and v: "v < n" using a by (auto simp: bfs_at_def trav_def)
  obtain qu where d: "dequeue st = Some (v, st\<lparr>queue := qu\<rparr>)" "qrep qu q" using a qrep_dequeue[of st v q] by (auto simp: bfs_at_def)
  let ?s2 = "emit (st\<lparr>queue := qu\<rparr>) (bfs_line (Enter v))"
  have a2: "bfs_at (st\<lparr>queue := qu\<rparr>) adj n V q" using a d by (simp add: bfs_at_def)
  have f2: "frame st ?s2 (bfs_line (Enter v))" and vs: "vertices (g ?s2) = vertices (g st)"
    by (simp_all add: frame_def emit_def)
  obtain r where r: "nxt (neighbors (vertices (g st) ! v)) = Some r" "chain (next_alloc st) (nodes_store st) v r (adj ! v)"
    using travD(6)[OF t v] by blast
  have c2: "chain (next_alloc ?s2) (nodes_store ?s2) v r (adj ! v)" using r(2) frame_store[OF f2] by simp
  obtain st3 where s3: "bfs_each ?s2 v r = Some st3" "frame ?s2 st3 []"
      "bfs_at st3 adj n (V \<union> set (news V (adj ! v))) (q @ news V (adj ! v))"
    using bfs_each_result[of ?s2 adj n V q, OF _ c2 travD(4)[OF t v]] a2 by auto
  have t3: "trav st3 adj n (V \<union> set (news V (adj ! v)))" using s3(3) by (simp add: bfs_at_def)
  have t2: "trav (st\<lparr>queue := qu\<rparr>) adj n V" "trav ?s2 adj n V" using a2 by (simp_all add: bfs_at_def trav_emit)
  have "bfs_while st = bfs_while (emit st3 (bfs_line (Exit v)))"
    using d(1) qrep_empty[of st "v # q"] a travD(1)[OF t2(1) v] travD(1)[OF t2(2) v] travD(2)[OF t v]
      travD(1,2)[OF t3 v] r(1) s3(1) vs
    by (subst bfs_while.simps) (simp add: bfs_at_def event_lines rd_node_def)
  moreover have "frame st (emit st3 (bfs_line (Exit v))) (bfs_line (Enter v) @ bfs_line (Exit v))"
    using frame_trans[OF f2 s3(2)] by simp
  ultimately show ?thesis using s3(3) by (intro exI[of _ "emit st3 (bfs_line (Exit v))"]) simp
qed

lemma bfs_while_result:
  assumes "bfs_at st adj n V q"
  shows "bfs_result adj n (bfs_q adj V q) st (bfs_while st)"
  using assms
proof (induction m \<equiv> "card ({..<n} - V) + length q" arbitrary: st V q rule: less_induct)
  case less
  show ?case
  proof (cases q)
    case Nil
    then have "bfs_while st = Some st" using less.prems qrep_empty[of st q] by (subst bfs_while.simps) (simp add: bfs_at_def)
    with Nil less.prems show ?thesis by (intro bfs_resultI) (auto intro: bfs_q_done)
  next
    case (Cons v q')
    let ?N = "news V (adj ! v)"
    obtain st' where s: "bfs_while st = bfs_while st'" "frame st st' (bfs_line (Enter v) @ bfs_line (Exit v))"
        "bfs_at st' adj n (V \<union> set ?N) (q' @ ?N)" using bfs_step less.prems Cons by blast
    have N: "distinct ?N" "set ?N \<inter> V = {}" "set ?N \<subseteq> {..<n}" using news_props[of V "adj ! v"] s(3) by (auto simp: bfs_at_def trav_def)
    have "card ({..<n} - V) = card ({..<n} - (V \<union> set ?N)) + card (set ?N)"
      using N by (subst card_Un_disjoint[symmetric]) (auto intro: arg_cong[of _ _ card])
    then have "card ({..<n} - (V \<union> set ?N)) + length (q' @ ?N) < card ({..<n} - V) + length q"
      using N Cons by (simp add: distinct_card)
    then have "bfs_result adj n (bfs_q adj (V \<union> set ?N) (q' @ ?N)) st' (bfs_while st')" using less.hyps s(3) by blast
    then obtain st2 es V' where r: "bfs_while st' = Some st2" "bfs_q adj (V \<union> set ?N) (q' @ ?N) es V'"
        "bfs_at st2 adj n V' []" "frame st' st2 (bfs_text es)" by (rule bfs_resultE)
    have "frame st st2 (bfs_text (Enter v # Exit v # es))" using frame_trans[OF s(2) r(4)] by simp
    then show ?thesis using s(1) r(1,3) bfs_q_step[OF r(2)] Cons by (intro bfs_resultI) auto
  qed
qed

lemma bfs_vertex_result:
  assumes a: "bfs_at st adj n V []" and u: "u < n" "u \<notin> V"
  shows "bfs_result adj n (bfs_q adj (insert u V) [u]) st (bfs_aux st u)"
proof -
  obtain qu where e: "enqueue st u = Some (st\<lparr>queue := qu\<rparr>)" "qrep qu [u]"
    using qrep_enqueue[of st "[]" u] a by (auto simp: bfs_at_def QUEUE_CAPACITY_def MAX_VERTICES_def)
  let ?s1 = "st\<lparr>queue := qu\<rparr>"
  have t1: "trav ?s1 adj n V" using a by (simp add: bfs_at_def)
  have a2: "bfs_at (set_visited ?s1 u 1) adj n (insert u V) [u]"
    using trav_mark[OF t1 u(1)] e(2) by (simp add: bfs_at_def)
  have "bfs_aux st u = bfs_while (set_visited ?s1 u 1)"
    using e(1) travD(1,5)[OF t1 u(1)] by (simp add: bfs_aux_def)
  moreover have "frame st st' s" if "frame (set_visited ?s1 u 1) st' s" for st' s using that by (simp add: frame_def)
  ultimately show ?thesis using bfs_while_result[OF a2] by (auto elim!: bfs_resultE intro: bfs_resultI)
qed

lemma bfs_loop_result:
  assumes "bfs_at st adj n V []" "i \<le> n"
  shows "bfs_result adj n (bfs_ns adj V [i..<n]) st (bfs_loop st i)"
  using assms
proof (induction k \<equiv> "n - i" arbitrary: i st V)
  case 0
  then show ?case
    by (intro bfs_resultI[of _ st]) (auto simp: bfs_loop.simps bfs_at_def trav_def graph_ok_def shaped_def intro: bfs_done)
next
  case (Suc k)
  then have i: "i < n" "[i..<n] = i # [Suc i..<n]" "k = n - Suc i" by (auto simp: upt_conv_Cons)
  have t: "trav st adj n V" and sz: "vertices_sz (g st) = n"
    using Suc.prems by (simp_all add: bfs_at_def trav_def graph_ok_def shaped_def)
  show ?case
  proof (cases "i \<in> V")
    case True
    have "bfs_result adj n (bfs_ns adj V [Suc i..<n]) st (bfs_loop st (Suc i))" using Suc i by simp
    moreover have "bfs_loop st i = bfs_loop st (Suc i)"
      using travD[OF t i(1)] i True sz by (subst bfs_loop.simps) simp
    ultimately show ?thesis using True i by (auto elim!: bfs_resultE intro: bfs_resultI bfs_skip)
  next
    case False
    obtain st1 es1 V1 where s1: "bfs_aux st i = Some st1" "bfs_q adj (insert i V) [i] es1 V1" "bfs_at st1 adj n V1 []"
        "frame st st1 (bfs_text es1)" by (rule bfs_resultE[OF bfs_vertex_result[OF Suc.prems(1) i(1) False]])
    have "bfs_result adj n (bfs_ns adj V1 [Suc i..<n]) st1 (bfs_loop st1 (Suc i))" using Suc i s1(3) by simp
    moreover have "bfs_loop st i = bfs_loop st1 (Suc i)"
      using travD[OF t i(1)] i False sz s1(1) by (subst bfs_loop.simps) simp
    ultimately show ?thesis using s1 i False
      by (auto elim!: bfs_resultE intro!: bfs_resultI bfs_visit dest: frame_trans)
  qed
qed

end
