(* ===== verification/Adj_List_Main.thy ===== *)
theory Adj_List_Main
  imports Adj_List_Bfs
begin

text \<open>
  \<^verbatim>\<open>adjacency_list.c\<close> as a whole: building the graph, the two traversals of a test case, and what
  the program prints for an input made of test cases.
\<close>

subsection \<open>Building the graph\<close>

lemma init_loop_result:
  assumes "shaped st n" "\<forall>v<i. vertex_ok st (replicate n []) v" "i \<le> n"
  shows "\<exists>st'. init_loop st i = Some st' \<and> graph_ok st' (replicate n []) n \<and> frame st st' [] \<and> queue st' = queue st"
  using assms
proof (induction k \<equiv> "n - i" arbitrary: i st)
  case 0
  then show ?case
    by (intro exI[of _ st]) (auto simp: init_loop.simps graph_ok_def shaped_def)
next
  case (Suc k)
  then have i: "i < n" "i < length (vertices (g st))" "k = n - Suc i" "vertices_sz (g st) = n"
    by (auto simp: shaped_def)
  let ?x = "(vertices (g st) ! i)\<lparr>value := Some (int i), neighbors := \<lparr>vertex = None, nxt = Some (Head i)\<rparr>\<rparr>"
  let ?st = "st\<lparr>g := (g st)\<lparr>vertices := (vertices (g st))[i := ?x]\<rparr>\<rparr>"
  have "init_loop st i = init_loop ?st (Suc i)"
    using i by (subst init_loop.simps)
      (simp add: rd_vertex_def wr_vertex_def list_init_node_def wr_node_def)
  moreover have "\<exists>st'. init_loop ?st (Suc i) = Some st' \<and> graph_ok st' (replicate n []) n \<and> frame ?st st' [] \<and> queue st' = queue ?st"
    using Suc.prems i by (intro Suc.hyps(1)) (auto simp: shaped_def vertex_ok_def nth_list_update less_Suc_eq)
  ultimately show ?case by (auto simp: frame_def)
qed

lemma initialize_graph_result:
  assumes "shaped (st\<lparr>g := (g st)\<lparr>vertices_sz := n\<rparr>\<rparr>) n" "0 < n"
  shows "\<exists>st'. initialize_graph st n = Some st' \<and> graph_ok st' (replicate n []) n
    \<and> next_alloc st' = next_alloc st \<and> queue st' = queue st \<and> out st' = out st"
  using init_loop_result[OF assms(1), of 0] assms by (auto simp: initialize_graph_def shaped_def frame_def)

lemma add_edge_result:
  assumes ok: "graph_ok st adj n" and a: "a < n" and b: "b < n" and room: "next_alloc st < MAX_LIST_NODES"
  shows "\<exists>st'. add_edge st a b = Some st' \<and> graph_ok st' (adj[a := b # adj ! a]) n
    \<and> next_alloc st' = Suc (next_alloc st) \<and> queue st' = queue st \<and> out st' = out st"
proof -
  let ?k = "next_alloc st" let ?vs = "vertices (g st)"
  have sh: "?k < length (nodes_store st)" "a < length ?vs" "vertices_sz (g st) = n" "length ?vs = MAX_VERTICES" "n \<le> MAX_VERTICES"
    using ok a room by (auto simp: graph_ok_def shaped_def)
  obtain r where r: "nxt (neighbors (?vs ! a)) = Some r" "chain ?k (nodes_store st) a r (adj ! a)"
    using ok a by (auto simp: graph_ok_def vertex_ok_def)
  let ?node = "\<lparr>vertex = Some b, nxt = Some r\<rparr>"
  let ?x = "(?vs ! a)\<lparr>neighbors := (neighbors (?vs ! a))\<lparr>nxt := Some (Node ?k)\<rparr>\<rparr>"
  let ?st = "st\<lparr>g := (g st)\<lparr>vertices := ?vs[a := ?x]\<rparr>, nodes_store := (nodes_store st)[?k := ?node], next_alloc := Suc ?k\<rparr>"
  have "add_edge st a b = Some ?st"
    using sh r(1) a b room
    by (simp add: add_edge_def new_list_node_def list_init_node_def wr_node_def list_insert_after_def rd_node_def
        rd_vertex_def wr_vertex_def Let_def)
  moreover have "vertex_ok ?st (adj[a := b # adj ! a]) v" if v: "v < n" for v
  proof (cases "v = a")
    case True
    then show ?thesis using ok a sh r by (auto simp: vertex_ok_def graph_ok_def intro!: chain_alloc)
  next
    case False
    moreover have "vertex_ok st adj v" using ok v by (simp add: graph_ok_def)
    ultimately show ?thesis by (auto simp: vertex_ok_def intro: chain_alloc)
  qed
  moreover have "\<forall>us \<in> set (adj[a := b # adj ! a]). set us \<subseteq> {..<n}"
    using ok a b set_update_subset_insert[of adj a "b # adj ! a"] by (fastforce simp: graph_ok_def)
  ultimately have "add_edge st a b = Some ?st \<and> graph_ok ?st (adj[a := b # adj ! a]) n"
    using ok room by (simp add: graph_ok_def shaped_def)
  then show ?thesis by (intro exI[of _ ?st]) simp
qed

text \<open>The neighbours of a vertex, the last one added first.\<close>

definition adj_of :: "nat \<Rightarrow> (nat \<times> nat) list \<Rightarrow> adj" where
  "adj_of n es = map (\<lambda>v. rev (map snd (filter (\<lambda>e. fst e = v) es))) [0..<n]"

lemma adj_of_snoc: "a < n \<Longrightarrow> adj_of n (es @ [(a, b)]) = (adj_of n es)[a := b # adj_of n es ! a]"
  by (intro nth_equalityI) (auto simp: adj_of_def nth_list_update)

definition edge_line :: "nat \<times> nat \<Rightarrow> string" where
  "edge_line e = show_nat (fst e) @ '' '' @ show_nat (snd e) @ ''\<newline>''"

lemma scanf_zu_zu:
  assumes "list_all isspace w" "a < 2 ^ 64" "b < 2 ^ 64" "no_digit r"
  shows "scanf ''%zu %zu'' (w @ show_nat a @ CHR '' '' # show_nat b @ r)
    = Some \<lparr>sr_args = [IntA (int a), IntA (int b)], sr_eof = False, sr_rest = r\<rparr>"
  using assms scanf_zu_show[of w "CHR '' '' # show_nat b @ r" a "'' %zu''"] scanf_zu_show[of "[]" r b "[]"]
  by (simp add: scanf_eval skip_ws_Cons)

lemma edges_loop_result:
  assumes "graph_ok st (adj_of n es0) n" "\<forall>(a, b) \<in> set es. a < n \<and> b < n" "next_alloc st + length es \<le> MAX_LIST_NODES"
  shows "\<exists>st'. edges_loop st (length es) (CHR 0x0A # concat (map edge_line es) @ s) = Some (st', CHR 0x0A # s)
    \<and> graph_ok st' (adj_of n (es0 @ es)) n \<and> next_alloc st' = next_alloc st + length es \<and> queue st' = queue st \<and> out st' = out st"
  using assms
proof (induction es arbitrary: es0 st)
  case Nil
  then show ?case by simp
next
  case (Cons e es)
  obtain a b where e: "e = (a, b)" by fastforce
  then have ab: "a < n" "b < n" using Cons.prems by auto
  have n: "n < 2 ^ 64" using Cons.prems by (simp add: graph_ok_def shaped_def MAX_VERTICES_def)
  obtain st1 where s1: "add_edge st a b = Some st1" "graph_ok st1 (adj_of n (es0 @ [e])) n"
      "next_alloc st1 = Suc (next_alloc st)" "queue st1 = queue st" "out st1 = out st"
    using add_edge_result[OF Cons.prems(1) ab] Cons.prems(3) e ab by (auto simp: adj_of_snoc)
  have "edges_loop st (length (e # es)) (CHR 0x0A # concat (map edge_line (e # es)) @ s)
      = edges_loop st1 (length es) (CHR 0x0A # concat (map edge_line es) @ s)"
    using scanf_zu_zu[of "[CHR 0x0A]" a b "CHR 0x0A # concat (map edge_line es) @ s"] e s1(1) ab n
    by (simp add: edge_line_def)
  moreover note Cons.IH[OF s1(2), simplified s1]
  ultimately show ?case using Cons.prems by auto
qed

subsection \<open>A test case\<close>

lemma prepare_loop_result:
  assumes "graph_ok st adj n" "\<forall>v<i. visited (vertices (g st) ! v) = Some 0" "i \<le> n"
  shows "\<exists>st'. prepare_loop st i = Some st' \<and> trav st' adj n {} \<and> frame st st' [] \<and> queue st' = queue st"
  using assms
proof (induction k \<equiv> "n - i" arbitrary: i st)
  case 0
  then show ?case by (intro exI[of _ st]) (auto simp: prepare_loop.simps graph_ok_def shaped_def trav_def)
next
  case (Suc k)
  then have sh: "shaped st n" "i < n" "k = n - Suc i" by (auto simp: graph_ok_def)
  then have "prepare_loop st i = prepare_loop (set_visited st i 0) (Suc i)"
    by (subst prepare_loop.simps) (simp add: rd_vertex_Some wr_visited, simp add: shaped_def)
  moreover have "\<exists>st'. prepare_loop (set_visited st i 0) (Suc i) = Some st' \<and> trav st' adj n {}
      \<and> frame (set_visited st i 0) st' [] \<and> queue st' = queue (set_visited st i 0)"
    using Suc.prems sh by (intro Suc.hyps(1)) (auto simp: set_visited_ok shaped_def nth_set_visited less_Suc_eq)
  ultimately show ?case by simp
qed

lemma prepare_traversal_result:
  "graph_ok st adj n \<Longrightarrow> \<exists>st'. prepare_traversal st = Some st' \<and> trav st' adj n {} \<and> frame st st' [] \<and> queue st' = queue st"
  using prepare_loop_result[of st adj n 0] by (simp add: prepare_traversal_def)

text \<open>
  What the two traversals of a graph are: the rules run from no visited vertex over all vertices in order, and
  so enter each vertex exactly once.
\<close>

definition dfs_of :: "nat \<Rightarrow> adj \<Rightarrow> event list \<Rightarrow> bool" where
  "dfs_of n adj es \<longleftrightarrow> dfs_ns adj {} [0..<n] es {..<n} \<and> distinct (entered es) \<and> set (entered es) = {..<n}"

definition bfs_of :: "nat \<Rightarrow> adj \<Rightarrow> event list \<Rightarrow> bool" where
  "bfs_of n adj es \<longleftrightarrow> bfs_ns adj {} [0..<n] es {..<n} \<and> distinct (entered es) \<and> set (entered es) = {..<n}"

lemma dfs_ofI: "dfs_ns adj {} [0..<n] es V \<Longrightarrow> V \<subseteq> {..<n} \<Longrightarrow> dfs_of n adj es"
  using dfs_entered[of adj "{}" "[0..<n]" es V] by (auto simp: dfs_of_def atLeast0LessThan)

lemma bfs_ofI: "bfs_ns adj {} [0..<n] es V \<Longrightarrow> V \<subseteq> {..<n} \<Longrightarrow> bfs_of n adj es"
  using bfs_entered[of adj "{}" "[0..<n]" es V] by (auto simp: bfs_of_def atLeast0LessThan)

lemma dfs_total:
  assumes "graph_ok st adj n"
  shows "\<exists>st' es. dfs st = Some st' \<and> dfs_of n adj es \<and> graph_ok st' adj n \<and> frame st st' (dfs_text es) \<and> queue st' = queue st"
proof -
  obtain st1 where s1: "prepare_traversal st = Some st1" "trav st1 adj n {}" "frame st st1 []" "queue st1 = queue st"
    using prepare_traversal_result[OF assms] by blast
  obtain st2 es V where s2: "dfs_loop st1 0 = Some st2" "dfs_ns adj {} [0..<n] es V" "trav st2 adj n V"
      "frame st1 st2 (dfs_text es)" "queue st2 = queue st1"
    by (rule dfs_resultE[OF dfs_loop_result[OF s1(2), of 0]]) simp
  then show ?thesis using s1 frame_trans[OF s1(3) s2(4)]
    by (intro exI[of _ st2] exI[of _ es]) (auto simp: dfs_def trav_def intro: dfs_ofI)
qed

lemma bfs_total:
  assumes "graph_ok st adj n" "qrep (queue st) []"
  shows "\<exists>st' es. bfs st = Some st' \<and> bfs_of n adj es \<and> graph_ok st' adj n \<and> frame st st' (bfs_text es) \<and> qrep (queue st') []"
proof -
  obtain st1 where s1: "prepare_traversal st = Some st1" "trav st1 adj n {}" "frame st st1 []" "queue st1 = queue st"
    using prepare_traversal_result[OF assms(1)] by blast
  have "bfs_at st1 adj n {} []" using s1 assms(2) by (simp add: bfs_at_def)
  then obtain st2 es V where s2: "bfs_loop st1 0 = Some st2" "bfs_ns adj {} [0..<n] es V" "bfs_at st2 adj n V []"
      "frame st1 st2 (bfs_text es)" by (rule bfs_resultE[OF bfs_loop_result[of st1 adj n "{}" 0]]) simp
  then show ?thesis using s1 frame_trans[OF s1(3) s2(4)]
    by (intro exI[of _ st2] exI[of _ es]) (auto simp: bfs_def bfs_at_def trav_def intro: bfs_ofI)
qed

definition case_text :: "nat \<Rightarrow> (nat \<times> nat) list \<Rightarrow> string \<Rightarrow> bool" where
  "case_text n es t \<longleftrightarrow> (\<exists>ds bs. dfs_of n (adj_of n es) ds \<and> bfs_of n (adj_of n es) bs \<and>
     t = ''~~~ DFS ~~~\<newline>'' @ dfs_text ds @ ''~~~ END DFS ~~~\<newline>\<newline>'' @ ''~~~ BFS ~~~\<newline>'' @ bfs_text bs @ ''~~~ END BFS ~~~\<newline>'')"

text \<open>What the program keeps between two test cases: the nodes already handed out, and an empty queue.\<close>

definition between :: "gst \<Rightarrow> nat \<Rightarrow> bool" where
  "between st k \<longleftrightarrow> length (nodes_store st) = MAX_LIST_NODES \<and> next_alloc st = k \<and> qrep (queue st) []"

lemma plain_printf:
  "printf ''~~~ DFS ~~~\<newline>'' [] = ''~~~ DFS ~~~\<newline>''" "printf ''~~~ END DFS ~~~\<newline>\<newline>'' [] = ''~~~ END DFS ~~~\<newline>\<newline>''"
  "printf ''~~~ BFS ~~~\<newline>'' [] = ''~~~ BFS ~~~\<newline>''" "printf ''~~~ END BFS ~~~\<newline>'' [] = ''~~~ END BFS ~~~\<newline>''"
  by (simp_all add: printf.simps)

lemma emit_simps [simp]: "graph_ok (emit st s) adj n = graph_ok st adj n" "queue (emit st s) = queue st"
  "nodes_store (emit st s) = nodes_store st" "next_alloc (emit st s) = next_alloc st" "out (emit st s) = out st @ s"
  by (simp_all add: emit_def graph_ok_def vertex_ok_def shaped_def)

lemma graph_case_result:
  assumes b: "between st k" and n: "0 < n" "n \<le> MAX_VERTICES" and es: "\<forall>(a, b) \<in> set es. a < n \<and> b < n"
    and room: "k + length es \<le> MAX_LIST_NODES"
  shows "\<exists>st' t. graph_case st n (length es) (CHR 0x0A # concat (map edge_line es) @ s) = Some (st', CHR 0x0A # s)
    \<and> between st' (k + length es) \<and> case_text n es t \<and> out st' = out st @ t"
proof -
  have "shaped ((st\<lparr>g := raw_graph\<rparr>)\<lparr>g := (g (st\<lparr>g := raw_graph\<rparr>))\<lparr>vertices_sz := n\<rparr>\<rparr>) n"
    using b n room by (simp add: shaped_def raw_graph_def between_def)
  from initialize_graph_result[OF this n(1)]
  obtain st1 where s1: "initialize_graph (st\<lparr>g := raw_graph\<rparr>) n = Some st1" "graph_ok st1 (replicate n []) n"
      "next_alloc st1 = k" "queue st1 = queue st" "out st1 = out st" using b by (auto simp: between_def)
  have "graph_ok st1 (adj_of n []) n" using s1(2) by (simp add: adj_of_def map_replicate_const)
  from edges_loop_result[OF this es] obtain st2 where
      s2: "edges_loop st1 (length es) (CHR 0x0A # concat (map edge_line es) @ s) = Some (st2, CHR 0x0A # s)"
      "graph_ok st2 (adj_of n es) n" "next_alloc st2 = k + length es" "queue st2 = queue st" "out st2 = out st"
    using s1 room by auto
  obtain st3 ds where s3: "dfs (emit st2 (printf ''~~~ DFS ~~~\<newline>'' [])) = Some st3" "dfs_of n (adj_of n es) ds"
      "graph_ok st3 (adj_of n es) n" "frame (emit st2 (printf ''~~~ DFS ~~~\<newline>'' [])) st3 (dfs_text ds)" "queue st3 = queue st"
    using dfs_total[of "emit st2 (printf ''~~~ DFS ~~~\<newline>'' [])" "adj_of n es" n] s2 by auto
  let ?s4 = "emit (emit st3 (printf ''~~~ END DFS ~~~\<newline>\<newline>'' [])) (printf ''~~~ BFS ~~~\<newline>'' [])"
  obtain st5 bs where s5: "bfs ?s4 = Some st5" "bfs_of n (adj_of n es) bs" "graph_ok st5 (adj_of n es) n"
      "frame ?s4 st5 (bfs_text bs)" "qrep (queue st5) []"
    using bfs_total[of ?s4 "adj_of n es" n] s3 b by (auto simp: between_def)
  let ?t = "''~~~ DFS ~~~\<newline>'' @ dfs_text ds @ ''~~~ END DFS ~~~\<newline>\<newline>'' @ ''~~~ BFS ~~~\<newline>'' @ bfs_text bs @ ''~~~ END BFS ~~~\<newline>''"
  let ?st = "emit st5 (printf ''~~~ END BFS ~~~\<newline>'' [])"
  have "graph_case st n (length es) (CHR 0x0A # concat (map edge_line es) @ s) = Some (?st, CHR 0x0A # s)"
    using s1(1) s2(1) s3(1) s5(1) by (simp add: graph_case_def Let_def)
  moreover have "out ?st = out st @ ?t" using s2(5) s3(4) s5(4) by (simp add: frame_def plain_printf)
  moreover have "between ?st (k + length es)"
    using s2(3) s3(4) s5 by (simp add: between_def frame_def graph_ok_def shaped_def)
  moreover have "case_text n es ?t" unfolding case_text_def using s3(2) s5(2) by blast
  ultimately show ?thesis by blast
qed

subsection \<open>The program\<close>

definition graph_text :: "nat \<times> (nat \<times> nat) list \<Rightarrow> string" where
  "graph_text c = edge_line (fst c, length (snd c)) @ concat (map edge_line (snd c))"

definition valid_case :: "nat \<times> (nat \<times> nat) list \<Rightarrow> bool" where
  "valid_case c \<longleftrightarrow> 0 < fst c \<and> fst c \<le> MAX_VERTICES \<and> (\<forall>(a, b) \<in> set (snd c). a < fst c \<and> b < fst c)"

lemma graph_loop_result:
  assumes "between st k" "list_all valid_case cs" "k + sum_list (map (length \<circ> snd) cs) \<le> MAX_LIST_NODES" "list_all isspace w"
  shows "\<exists>st' ts. graph_loop st (w @ concat (map graph_text cs)) = Some st'
    \<and> out st' = out st @ concat ts \<and> list_all2 (\<lambda>(n, es) t. case_text n es t) cs ts"
  using assms
proof (induction cs arbitrary: st k w)
  case Nil
  then have "scanf ''%zu %zu'' w = Some \<lparr>sr_args = [], sr_eof = True, sr_rest = []\<rparr>"
    by (simp add: scanf_eval scan_num_all skip_ws_all)
  then show ?case by (subst graph_loop.simps) simp
next
  case (Cons c cs)
  obtain n es where c: "c = (n, es)" by fastforce
  have v: "0 < n" "n \<le> MAX_VERTICES" "\<forall>(a, b) \<in> set es. a < n \<and> b < n" using Cons.prems c by (auto simp: valid_case_def)
  have small: "n < 2 ^ 64" "length es < 2 ^ 64"
    using v(2) Cons.prems(3) c by (simp_all add: MAX_VERTICES_def MAX_LIST_NODES_def)
  let ?r = "concat (map graph_text cs)"
  obtain st1 t where s1: "graph_case st n (length es) (CHR 0x0A # concat (map edge_line es) @ ?r) = Some (st1, CHR 0x0A # ?r)"
      "between st1 (k + length es)" "case_text n es t" "out st1 = out st @ t"
    using graph_case_result[OF Cons.prems(1) v] Cons.prems(3) c by fastforce
  have "graph_loop st (w @ concat (map graph_text (c # cs))) = graph_loop st1 ([CHR 0x0A] @ ?r)"
    using scanf_zu_zu[OF Cons.prems(4) small, of "CHR 0x0A # concat (map edge_line es) @ ?r"] s1(1) c
    by (subst graph_loop.simps) (simp add: graph_text_def edge_line_def)
  moreover obtain st' ts where "graph_loop st1 ([CHR 0x0A] @ ?r) = Some st'" "out st' = out st1 @ concat ts"
      "list_all2 (\<lambda>(n, es) t. case_text n es t) cs ts"
    using Cons.IH[OF s1(2), of "[CHR 0x0A]"] Cons.prems c by auto
  ultimately show ?case using s1(3,4) c by (intro exI[of _ st'] exI[of _ "t # ts"]) simp
qed

text \<open>
  Property C3. On every input made of test cases with 1 to 128 vertices and edges between existing vertices, and
  with at most 256 edges altogether, \<^verbatim>\<open>main\<close> of \<^verbatim>\<open>adjacency_list.c\<close> returns (no assertion
  fails, the queue never overflows, the traversals end), and prints for each test case the trace of a depth-first
  and of a breadth-first traversal of the graph described, with the neighbours taken in the reverse order of
  the input; each of the two traversals enters every vertex exactly once.
\<close>

theorem graph_traversals:
  assumes "list_all valid_case cs" "sum_list (map (length \<circ> snd) cs) \<le> MAX_LIST_NODES"
  shows "\<exists>ts. graph_main (concat (map graph_text cs)) = Some (graph_banner @ concat ts)
    \<and> list_all2 (\<lambda>(n, es) t. case_text n es t) cs ts"
proof -
  have "between (emit gst0 graph_banner) 0"
    by (simp add: between_def gst0_def qrep_def MAX_VERTICES_def)
  from graph_loop_result[OF this assms(1), of "[]"] assms(2) show ?thesis
    by (auto simp: graph_main_def gst0_def)
qed

theorem graph_traversals_witness:
  "\<exists>ts. graph_main (concat (map graph_text [(3, [(0, 1), (1, 2), (2, 0)]), (1, [])])) = Some (graph_banner @ concat ts)
    \<and> list_all2 (\<lambda>(n, es) t. case_text n es t) [(3, [(0, 1), (1, 2), (2, 0)]), (1, [])] ts"
  by (rule graph_traversals) (simp_all add: valid_case_def MAX_VERTICES_def MAX_LIST_NODES_def)

end
