(* ===== verification/Malloc.thy ===== *)
theory Malloc
  imports C_Stdio
begin

text \<open>
  \<^verbatim>\<open>knowledge_based/linux_internals/malloc/malloc.c\<close>: a storage allocator over \<^verbatim>\<open>sbrk\<close>. The
  free blocks form a doubly linked circular list in the order of their addresses.

  An address is a number of bytes. The fields of the headers in memory are three partial maps from addresses, and
  the characters the client stores a fourth; a field never written has no value. The state also holds the address
  of the static header \<open>free_lst\<close>, the start and the end (the break) of the data segment, which grows with
  \<^verbatim>\<open>sbrk\<close> only, the answers \<^verbatim>\<open>sbrk\<close> will give, and standard output. An access outside of the
  static header and the data segment is an error. \<^verbatim>\<open>size_t\<close> has 64 bits, and its wrap-around is written
  out; addresses of the process are below \<open>2 ^ 63\<close>. The write of \<^verbatim>\<open>printf\<close> is assumed not to
  allocate memory.
\<close>

definition HEADER_SZ :: nat where "HEADER_SZ = 24"
definition ALLOC_MIN_UNITS :: nat where "ALLOC_MIN_UNITS = 1024"

record mst =
  nxt :: "nat \<rightharpoonup> nat"
  prv :: "nat \<rightharpoonup> nat"
  bsize :: "nat \<rightharpoonup> nat"
  bytes :: "nat \<rightharpoonup> char"
  free_lst :: nat
  heap_start :: nat
  brk :: nat
  grants :: "bool list"
  out :: string

definition emit :: "mst \<Rightarrow> string \<Rightarrow> mst" where
  "emit st s = st\<lparr>out := out st @ s\<rparr>"

definition valid :: "mst \<Rightarrow> nat \<Rightarrow> bool" where
  "valid st a \<longleftrightarrow> a = free_lst st \<or> heap_start st \<le> a \<and> a + HEADER_SZ \<le> brk st"

definition get_next :: "mst \<Rightarrow> nat \<Rightarrow> nat c" where "get_next st a = (if valid st a then nxt st a else None)"
definition get_prev :: "mst \<Rightarrow> nat \<Rightarrow> nat c" where "get_prev st a = (if valid st a then prv st a else None)"
definition get_size :: "mst \<Rightarrow> nat \<Rightarrow> nat c" where "get_size st a = (if valid st a then bsize st a else None)"

definition set_next :: "mst \<Rightarrow> nat \<Rightarrow> nat \<Rightarrow> mst c" where
  "set_next st a v = (if valid st a then Some (st\<lparr>nxt := (nxt st)(a \<mapsto> v)\<rparr>) else None)"
definition set_prev :: "mst \<Rightarrow> nat \<Rightarrow> nat \<Rightarrow> mst c" where
  "set_prev st a v = (if valid st a then Some (st\<lparr>prv := (prv st)(a \<mapsto> v)\<rparr>) else None)"
definition set_size :: "mst \<Rightarrow> nat \<Rightarrow> nat \<Rightarrow> mst c" where
  "set_size st a v = (if valid st a then Some (st\<lparr>bsize := (bsize st)(a \<mapsto> v)\<rparr>) else None)"

text \<open>
  \<^verbatim>\<open>sbrk\<close> moves the break up by \<open>n\<close> bytes and returns the old one, or fails. A request of half the
  address space or more is a negative increment, which takes memory away from the process.
\<close>

definition sbrk :: "mst \<Rightarrow> nat \<Rightarrow> (nat option \<times> mst) c" where
  "sbrk st n =
     (if n \<ge> 2 ^ 63 then None
      else if grants st \<noteq> [] \<and> hd (grants st) \<and> brk st + n \<le> 2 ^ 63
      then Some (Some (brk st), st\<lparr>brk := brk st + n, grants := tl (grants st)\<rparr>)
      else Some (None, st\<lparr>grants := tl (grants st)\<rparr>))"

partial_function (option) find_fit :: "mst \<Rightarrow> nat \<Rightarrow> nat \<Rightarrow> nat option" where
  "find_fit st units block =
     (if block = free_lst st then Some block
      else do { s \<leftarrow> get_size st block;
                if s < units then do { n \<leftarrow> get_next st block; find_fit st units n } else Some block })"

partial_function (option) find_right :: "mst \<Rightarrow> nat \<Rightarrow> nat \<Rightarrow> nat option" where
  "find_right st to_free right =
     (if right \<noteq> free_lst st \<and> right < to_free
      then do { n \<leftarrow> get_next st right; find_right st to_free n }
      else Some right)"

definition coalesce_right :: "mst \<Rightarrow> nat \<Rightarrow> nat \<Rightarrow> mst c" where
  "coalesce_right st to_free right =
     do { s \<leftarrow> get_size st to_free;
          if to_free + s * HEADER_SZ = right
          then do { rs \<leftarrow> get_size st right;
                    st1 \<leftarrow> set_size st to_free ((s + rs) mod 2 ^ 64);
                    rn \<leftarrow> get_next st1 right;
                    st2 \<leftarrow> set_prev st1 rn to_free;
                    rn' \<leftarrow> get_next st2 right;
                    set_next st2 to_free rn' }
          else Some st }"

definition coalesce_left :: "mst \<Rightarrow> nat \<Rightarrow> mst c" where
  "coalesce_left st to_free =
     do { p \<leftarrow> get_prev st to_free;
          ps \<leftarrow> get_size st p;
          if p + ps * HEADER_SZ = to_free
          then do { s \<leftarrow> get_size st to_free;
                    st1 \<leftarrow> set_size st p ((ps + s) mod 2 ^ 64);
                    p1 \<leftarrow> get_prev st1 to_free;
                    n1 \<leftarrow> get_next st1 to_free;
                    st2 \<leftarrow> set_next st1 p1 n1;
                    n2 \<leftarrow> get_next st2 to_free;
                    p2 \<leftarrow> get_prev st2 to_free;
                    set_prev st2 n2 p2 }
          else Some st }"

definition free_c :: "mst \<Rightarrow> nat \<Rightarrow> mst c" where
  "free_c st ptr =
     do { let st0 = emit st (printf ''*** Inside free ***\<newline>'' []);
          let to_free = ptr - HEADER_SZ;
          r0 \<leftarrow> get_next st0 (free_lst st0);
          right \<leftarrow> find_right st0 to_free r0;
          st1 \<leftarrow> set_next st0 to_free right;
          rp \<leftarrow> get_prev st1 right;
          st2 \<leftarrow> set_prev st1 to_free rp;
          st3 \<leftarrow> set_prev st2 right to_free;
          p \<leftarrow> get_prev st3 to_free;
          st4 \<leftarrow> set_next st3 p to_free;
          st5 \<leftarrow> coalesce_right st4 to_free right;
          coalesce_left st5 to_free }"

definition alloc_mem :: "mst \<Rightarrow> nat \<Rightarrow> (nat option \<times> mst) c" where
  "alloc_mem st units =
     do { let to_alloc = (if units < ALLOC_MIN_UNITS then ALLOC_MIN_UNITS else units);
          (allocated, st1) \<leftarrow> sbrk st (to_alloc * HEADER_SZ mod 2 ^ 64);
          case allocated of
            None \<Rightarrow> Some (None, st1)
          | Some a \<Rightarrow> do { st2 \<leftarrow> set_size st1 a units;
                           st3 \<leftarrow> free_c st2 (a + HEADER_SZ);
                           Some (Some a, st3) } }"

definition units_of :: "nat \<Rightarrow> nat" where
  "units_of nbytes = ((nbytes + HEADER_SZ - 1) mod 2 ^ 64) div HEADER_SZ + 1"

text \<open>The block found is taken out of the free list, or cut in two of which the first part is handed out.\<close>

definition take_block :: "mst \<Rightarrow> nat \<Rightarrow> nat \<Rightarrow> mst c" where
  "take_block st block units =
     do { s \<leftarrow> get_size st block;
          if s = units
          then do { p \<leftarrow> get_prev st block;
                    n \<leftarrow> get_next st block;
                    st1 \<leftarrow> set_next st p n;
                    n1 \<leftarrow> get_next st1 block;
                    p1 \<leftarrow> get_prev st1 block;
                    set_prev st1 n1 p1 }
          else do { let new_block = block + units * HEADER_SZ;
                    st1 \<leftarrow> set_size st new_block (s - units);
                    p \<leftarrow> get_prev st1 block;
                    st2 \<leftarrow> set_prev st1 new_block p;
                    n \<leftarrow> get_next st2 block;
                    st3 \<leftarrow> set_next st2 new_block n;
                    p3 \<leftarrow> get_prev st3 block;
                    st4 \<leftarrow> set_next st3 p3 new_block;
                    n4 \<leftarrow> get_next st4 block;
                    set_prev st4 n4 new_block } }"

partial_function (option) malloc :: "mst \<Rightarrow> nat \<Rightarrow> (nat option \<times> mst) option" where
  "malloc st nbytes =
     do { let st0 = emit st (printf ''*** Inside malloc ***\<newline>'' []);
          let units = units_of nbytes;
          b0 \<leftarrow> get_next st0 (free_lst st0);
          block \<leftarrow> find_fit st0 units b0;
          if block \<noteq> free_lst st0
          then do { st1 \<leftarrow> take_block st0 block units; Some (Some (block + HEADER_SZ), st1) }
          else do { (r, st1) \<leftarrow> alloc_mem st0 units;
                    if r = None then Some (None, st1) else malloc st1 nbytes } }"

subsection \<open>The program\<close>

text \<open>A character the client stores destroys a header that extends over its address.\<close>

definition poke :: "mst \<Rightarrow> nat \<Rightarrow> char \<Rightarrow> mst c" where
  "poke st a x =
     (if heap_start st \<le> a \<and> a < brk st
      then (let keep = (\<lambda>m h. if a < h \<or> h + HEADER_SZ \<le> a then m h else None)
            in Some (st\<lparr>bytes := (bytes st)(a \<mapsto> x), nxt := keep (nxt st), prv := keep (prv st), bsize := keep (bsize st)\<rparr>))
      else None)"

fun strcpy :: "mst \<Rightarrow> nat \<Rightarrow> string \<Rightarrow> mst c" where
  "strcpy st a [] = poke st a (CHR 0x00)"
| "strcpy st a (x # s) = do { st1 \<leftarrow> poke st a x; strcpy st1 (a + 1) s }"

partial_function (option) read_str :: "mst \<Rightarrow> nat \<Rightarrow> string option" where
  "read_str st a = do { x \<leftarrow> bytes st a; if x = CHR 0x00 then Some [] else do { s \<leftarrow> read_str st (a + 1); Some (x # s) } }"

definition malloc_main :: "mst \<Rightarrow> mst c" where
  "malloc_main st =
     do { (r, st1) \<leftarrow> malloc st 27;
          my_dynamic_buffer \<leftarrow> r;
          st2 \<leftarrow> strcpy st1 my_dynamic_buffer ''abcdefghijklmnopqrstuvwxyz'';
          let st3 = emit st2 (printf ''Hello, world!\<newline>'' []);
          s \<leftarrow> read_str st3 my_dynamic_buffer;
          free_c (emit st3 (printf ''%s\<newline>'' [StrA s])) my_dynamic_buffer }"

text \<open>The static header before \<^verbatim>\<open>main\<close>: a list of its own.\<close>

definition mst0 :: "nat \<Rightarrow> nat \<Rightarrow> bool list \<Rightarrow> mst" where
  "mst0 lst start gs = \<lparr>nxt = [lst \<mapsto> lst], prv = [lst \<mapsto> lst], bsize = [lst \<mapsto> 0], bytes = Map.empty, free_lst = lst,
     heap_start = start, brk = start, grants = gs, out = []\<rparr>"

end
