(* ===== verification/Malloc_Proofs.thy ===== *)
theory Malloc_Proofs
  imports Malloc
begin

text \<open>
  The allocator against the list of free blocks and the list of live blocks, each a pair of an address and a number
  of units. \<open>ring\<close> says that the free blocks are linked in order both ways, \<open>heap_ok\<close> that all blocks are apart
  and no two free blocks touch.
\<close>

subsection \<open>Links\<close>

fun links :: "(nat \<rightharpoonup> nat) \<Rightarrow> nat list \<Rightarrow> bool" where
  "links f (x # y # zs) \<longleftrightarrow> f x = Some y \<and> links f (y # zs)"
| "links f _ \<longleftrightarrow> True"

lemma links_append: "links f (A @ x # B) \<longleftrightarrow> links f (A @ [x]) \<and> links f (x # B)"
proof (induction A)
  case (Cons a A)
  then show ?case by (cases A) auto
qed simp

lemma links_cong: "(\<And>x. x \<in> set (butlast A) \<Longrightarrow> f x = g x) \<Longrightarrow> links f A = links g A"
  by (induction f A rule: links.induct) auto

definition linked :: "mst \<Rightarrow> nat list \<Rightarrow> bool" where
  "linked st R \<longleftrightarrow> links (nxt st) R \<and> links (prv st) (rev R)"

lemma linked_simps [simp]: "linked st [x]" "linked st [x, y] \<longleftrightarrow> nxt st x = Some y \<and> prv st y = Some x"
  by (auto simp: linked_def)

lemma linked_append: "linked st (A @ x # B) \<longleftrightarrow> linked st (A @ [x]) \<and> linked st (x # B)"
  using links_append[of "nxt st" A x B] links_append[of "prv st" "rev B" x "rev A"] by (auto simp: linked_def)

lemma linked_Cons: "linked st (x # y # zs) \<longleftrightarrow> nxt st x = Some y \<and> prv st y = Some x \<and> linked st (y # zs)"
  using linked_append[of st "[x]" y zs] by auto

lemma linked_cong:
  assumes "\<And>x. x \<in> set (butlast R) \<Longrightarrow> nxt st' x = nxt st x" "\<And>x. x \<in> set (tl R) \<Longrightarrow> prv st' x = prv st x"
  shows "linked st' R = linked st R"
proof -
  have "set (butlast (rev R)) = set (tl R)" by (cases R) (auto simp: butlast_append)
  with assms links_cong[of R "nxt st'" "nxt st"] links_cong[of "rev R" "prv st'" "prv st"] show ?thesis
    by (auto simp: linked_def)
qed

text \<open>A part of a circular list replaced by another: only the links at the seams and inside the parts may change.\<close>

lemma splice:
  assumes lk: "linked st (f # xs @ zs @ ys @ [f])" and d: "distinct (f # xs @ ys)"
    and new: "set (zs @ ms) \<inter> set (f # xs @ ys) = {}"
    and nx: "\<And>x. x \<noteq> last (f # xs) \<Longrightarrow> x \<notin> set (zs @ ms) \<Longrightarrow> nxt st' x = nxt st x"
    and pv: "\<And>x. x \<noteq> hd (ys @ [f]) \<Longrightarrow> x \<notin> set (zs @ ms) \<Longrightarrow> prv st' x = prv st x"
    and mid: "linked st' (last (f # xs) # ms @ [hd (ys @ [f])])"
  shows "linked st' (f # xs @ ms @ ys @ [f])"
proof -
  obtain A l where A: "f # xs = A @ [l]" by (metis append_butlast_last_id list.distinct(1))
  obtain r C where C: "ys @ [f] = r # C" by (metis append_is_Nil_conv list.exhaust not_Cons_self2)
  have l: "last (f # xs) = l" and r: "hd (ys @ [f]) = r" using A C by (metis last_snoc, metis list.sel(1))
  have sA: "insert l (set A) = insert f (set xs)" "l \<notin> set A" "set (tl (A @ [l])) = set xs" "set (butlast (A @ [l])) = set A"
  proof -
    show "insert l (set A) = insert f (set xs)" using arg_cong[OF A, of set] by simp
    have "distinct (A @ [l])" using d unfolding A[symmetric] by auto
    then show "l \<notin> set A" by simp
    show "set (tl (A @ [l])) = set xs" unfolding A[symmetric] by simp
  qed simp
  have sC: "insert r (set C) = insert f (set ys)" "r \<notin> set C" "set (butlast (r # C)) = set ys" "set (tl (r # C)) = set C"
  proof -
    show "insert r (set C) = insert f (set ys)" using arg_cong[OF C, of set] by simp
    have "distinct (r # C)" using d unfolding C[symmetric] by auto
    then show "r \<notin> set C" by simp
    show "set (butlast (r # C)) = set ys" unfolding C[symmetric] by simp
  qed simp
  have "f # xs @ zs @ ys @ [f] = A @ l # (zs @ r # C)" "f # xs @ ms @ ys @ [f] = A @ l # (ms @ r # C)"
    using A C by (metis append_Cons append_assoc append_Nil)+
  note eqs = this
  have "linked st (A @ [l])" "linked st (r # C)"
    using lk linked_append[of st A l "zs @ r # C"] linked_append[of st "l # zs" r C] unfolding eqs by auto
  moreover have "linked st' (A @ [l]) = linked st (A @ [l])"
    using d new sA sC by (intro linked_cong nx[unfolded l] pv[unfolded r]) auto
  moreover have "linked st' (r # C) = linked st (r # C)"
    using d new sA sC by (intro linked_cong nx[unfolded l] pv[unfolded r]) auto
  ultimately show ?thesis
    using mid linked_append[of st' A l "ms @ r # C"] linked_append[of st' "l # ms" r C] unfolding eqs l r by auto
qed

subsection \<open>The free list\<close>

type_synonym block = "nat \<times> nat"

definition span :: "block \<Rightarrow> nat set" where "span b = {fst b..<fst b + snd b * HEADER_SZ}"

definition before :: "block \<Rightarrow> block \<Rightarrow> bool" where "before b c \<longleftrightarrow> fst b + snd b * HEADER_SZ \<le> fst c"
definition gap :: "block \<Rightarrow> block \<Rightarrow> bool" where "gap b c \<longleftrightarrow> fst b + snd b * HEADER_SZ < fst c"

definition inside :: "mst \<Rightarrow> block \<Rightarrow> bool" where
  "inside st b \<longleftrightarrow> 1 \<le> snd b \<and> heap_start st \<le> fst b \<and> fst b + snd b * HEADER_SZ \<le> brk st"

definition space :: "mst \<Rightarrow> bool" where
  "space st \<longleftrightarrow> free_lst st + HEADER_SZ \<le> heap_start st \<and> heap_start st \<le> brk st \<and> brk st \<le> 2 ^ 63"

definition free_ok :: "mst \<Rightarrow> block list \<Rightarrow> bool" where
  "free_ok st F \<longleftrightarrow> space st \<and> linked st (free_lst st # map fst F @ [free_lst st]) \<and> bsize st (free_lst st) = Some 0
     \<and> sorted_wrt before F \<and> (\<forall>b\<in>set F. inside st b \<and> bsize st (fst b) = Some (snd b))"

text \<open>What the operations leave alone besides the headers.\<close>

definition same :: "mst \<Rightarrow> mst \<Rightarrow> bool" where
  "same st st' \<longleftrightarrow> free_lst st' = free_lst st \<and> heap_start st' = heap_start st \<and> brk st' = brk st
     \<and> grants st' = grants st \<and> bytes st' = bytes st"

lemma sz_pos [simp]: "0 < HEADER_SZ" by (simp add: HEADER_SZ_def)

lemma inside_valid: "inside st b \<Longrightarrow> valid st (fst b)"
proof -
  assume i: "inside st b"
  have "HEADER_SZ * 1 \<le> snd b * HEADER_SZ" using i by (simp add: inside_def)
  then show ?thesis using i unfolding inside_def valid_def by linarith
qed

lemma free_lst_valid [simp]: "valid st (free_lst st)" by (simp add: valid_def)

lemma inside_above: "space st \<Longrightarrow> inside st b \<Longrightarrow> free_lst st < fst b"
  by (simp add: space_def inside_def HEADER_SZ_def)

lemma before_less: "before b c \<Longrightarrow> inside st b \<Longrightarrow> fst b < fst c"
  by (simp add: before_def inside_def HEADER_SZ_def)

lemma before_distinct: "sorted_wrt before F \<Longrightarrow> \<forall>b\<in>set F. inside st b \<Longrightarrow> distinct (map fst F)"
  by (induction F) (fastforce dest: before_less)+

lemma free_ok_distinct: "free_ok st F \<Longrightarrow> distinct (free_lst st # map fst F)"
  using before_distinct[of F st] inside_above[of st] by (fastforce simp: free_ok_def)

lemma free_ok_valid: "free_ok st F \<Longrightarrow> x \<in> set (free_lst st # map fst F) \<Longrightarrow> valid st x"
  using inside_valid[of st] by (auto simp: free_ok_def)

text \<open>The two neighbours of a place in the list.\<close>

definition left_of :: "mst \<Rightarrow> block list \<Rightarrow> nat" where "left_of st F = last (free_lst st # map fst F)"
definition right_of :: "mst \<Rightarrow> block list \<Rightarrow> nat" where "right_of st F = hd (map fst F @ [free_lst st])"

lemma left_mem: "left_of st F \<in> set (free_lst st # map fst F)"
  unfolding left_of_def by (rule last_in_set) simp

lemma right_mem: "right_of st F \<in> set (free_lst st # map fst F)"
  by (cases F) (auto simp: right_of_def)

lemma right_link: "linked st (x # map fst F @ [free_lst st]) \<Longrightarrow> nxt st x = Some (right_of st F) \<and> prv st (right_of st F) = Some x"
  by (cases F) (auto simp: right_of_def linked_Cons)

lemma left_link:
  assumes "linked st (free_lst st # map fst F @ x # C)"
  shows "nxt st (left_of st F) = Some x \<and> prv st x = Some (left_of st F)"
proof -
  obtain A where A: "free_lst st # map fst F = A @ [left_of st F]"
    unfolding left_of_def by (metis append_butlast_last_id list.distinct(1))
  have eq: "free_lst st # map fst F @ x # C = A @ left_of st F # x # C" using A by (metis append_Cons append_assoc append_Nil)
  show ?thesis using assms[unfolded eq] linked_append[of st A "left_of st F" "x # C"] by (simp add: linked_Cons)
qed

lemma find_right_result:
  assumes "linked st (map fst (F1 @ F2) @ [free_lst st])" "\<forall>b\<in>set F1. fst b < a" "\<forall>b\<in>set F2. a \<le> fst b"
    "\<forall>b\<in>set (F1 @ F2). valid st (fst b) \<and> fst b \<noteq> free_lst st"
  shows "find_right st a (right_of st (F1 @ F2)) = Some (right_of st F2)"
  using assms
proof (induction F1)
  case Nil
  then show ?case by (subst find_right.simps) (cases F2; auto simp: right_of_def)
next
  case (Cons b F1)
  have "nxt st (fst b) = Some (right_of st (F1 @ F2))" using Cons.prems(1) right_link[of st "fst b" "F1 @ F2"] by simp
  moreover have "linked st (map fst (F1 @ F2) @ [free_lst st])"
    using Cons.prems(1) by (cases "F1 @ F2") (auto simp: linked_Cons)
  ultimately show ?case using Cons by (subst find_right.simps) (simp add: right_of_def get_next_def)
qed

subsection \<open>Putting a block in, and merging it with its neighbours\<close>

lemma upd_others: "a \<notin> fst ` set F \<Longrightarrow> \<forall>x\<in>set F. f (fst x) = Some (snd x) \<Longrightarrow> \<forall>x\<in>set F. (f(a \<mapsto> u)) (fst x) = Some (snd x)"
  by force

definition free_list_with :: "mst \<Rightarrow> nat \<Rightarrow> block list \<Rightarrow> block list \<Rightarrow> mst" where
  "free_list_with st a F1 F2 = st\<lparr>prv := (prv st)(a \<mapsto> left_of st F1, right_of st F2 \<mapsto> a),
     nxt := (nxt st)(a \<mapsto> right_of st F2, left_of st F1 \<mapsto> a)\<rparr>"

lemma insert_result:
  assumes ok: "free_ok st (F1 @ F2)" and b: "inside st b" "bsize st (fst b) = Some (snd b)"
    and F1: "\<forall>c\<in>set F1. before c b" and F2: "\<forall>c\<in>set F2. before b c"
  shows "free_ok (free_list_with st (fst b) F1 F2) (F1 @ b # F2)"
proof -
  let ?st = "free_list_with st (fst b) F1 F2"
  have sp: "space st" and ins: "\<forall>c\<in>set (F1 @ F2). inside st c" using ok by (auto simp: free_ok_def)
  have fresh: "fst b \<notin> set (free_lst st # map fst (F1 @ F2))"
    using inside_above[OF sp b(1)] F1 F2 ins before_less[OF _ b(1)] before_less[of _ b st] by fastforce
  have "left_of st F1 \<in> set (free_lst st # map fst (F1 @ F2))" "right_of st F2 \<in> set (free_lst st # map fst (F1 @ F2))"
    using left_mem[of st F1] right_mem[of st F2] by auto
  then have "left_of st F1 \<noteq> fst b" "right_of st F2 \<noteq> fst b" using fresh by metis+
  then have "linked ?st (last (free_lst st # map fst F1) # [fst b] @ [hd (map fst F2 @ [free_lst st])])"
    unfolding left_of_def[symmetric] right_of_def[symmetric] by (simp add: free_list_with_def linked_Cons)
  then have "linked ?st (free_lst st # map fst F1 @ [fst b] @ map fst F2 @ [free_lst st])"
  proof (rule splice[where st = st and zs = "[]", rotated -1])
    show "linked st (free_lst st # map fst F1 @ [] @ map fst F2 @ [free_lst st])"
      using ok by (simp add: free_ok_def)
    show "distinct (free_lst st # map fst F1 @ map fst F2)" using free_ok_distinct[OF ok] by simp
    show "set ([] @ [fst b]) \<inter> set (free_lst st # map fst F1 @ map fst F2) = {}" using fresh by simp
  qed (simp_all only: free_list_with_def left_of_def right_of_def, simp_all)
  moreover have "sorted_wrt before (F1 @ b # F2)" using ok F1 F2 by (auto simp: free_ok_def sorted_wrt_append)
  ultimately show ?thesis using ok b
    by (auto simp: free_ok_def free_list_with_def space_def inside_def)
qed

fun join_right :: "block \<Rightarrow> block list \<Rightarrow> block list" where
  "join_right b [] = [b]"
| "join_right b (c # F) = (if fst b + snd b * HEADER_SZ = fst c then (fst b, snd b + snd c) # F else b # c # F)"

definition unlink :: "mst \<Rightarrow> nat \<Rightarrow> nat \<Rightarrow> nat \<Rightarrow> nat \<Rightarrow> mst" where
  "unlink st l r a u = st\<lparr>nxt := (nxt st)(l \<mapsto> r), prv := (prv st)(r \<mapsto> l), bsize := (bsize st)(a \<mapsto> u)\<rparr>"

lemma merge_result:
  assumes ok: "free_ok st (F1 @ b # c # F2)" and adj: "fst b + snd b * HEADER_SZ = fst c"
  shows "free_ok (unlink st (fst b) (right_of st F2) (fst b) (snd b + snd c)) (F1 @ (fst b, snd b + snd c) # F2)"
    (is "free_ok ?st _")
proof -
  have d: "distinct (free_lst st # map fst (F1 @ b # c # F2))" by (rule free_ok_distinct[OF ok])
  have "linked ?st (last (free_lst st # map fst (F1 @ [b])) # [] @ [hd (map fst F2 @ [free_lst st])])"
    by (simp add: unlink_def right_of_def)
  then have "linked ?st (free_lst st # map fst (F1 @ [b]) @ [] @ map fst F2 @ [free_lst st])"
  proof (rule splice[where st = st and zs = "[fst c]", rotated -1])
    show "linked st (free_lst st # map fst (F1 @ [b]) @ [fst c] @ map fst F2 @ [free_lst st])"
      using ok by (simp add: free_ok_def)
    show "distinct (free_lst st # map fst (F1 @ [b]) @ map fst F2)"
      "set ([fst c] @ []) \<inter> set (free_lst st # map fst (F1 @ [b]) @ map fst F2) = {}"
      using d by simp_all
  qed (simp_all add: unlink_def right_of_def)
  moreover have "sorted_wrt before (F1 @ (fst b, snd b + snd c) # F2)"
    using ok adj by (auto simp: free_ok_def sorted_wrt_append before_def algebra_simps)
  moreover have "bsize ?st (free_lst st) = Some 0" "\<forall>x\<in>set (F1 @ F2). bsize ?st (fst x) = Some (snd x)"
    using ok d upd_others[of "fst b" "F1 @ F2" "bsize st" "snd b + snd c"]
    by (simp_all add: free_ok_def unlink_def image_Un)
  moreover have "inside st (fst b, snd b + snd c)" using ok adj by (auto simp: free_ok_def inside_def algebra_simps)
  ultimately show ?thesis using ok by (auto simp: free_ok_def unlink_def space_def inside_def)
qed

lemma space_small: "space st \<Longrightarrow> inside st b \<Longrightarrow> snd b < 2 ^ 63"
  by (simp add: space_def inside_def HEADER_SZ_def)

lemma sizes_mod:
  assumes "free_ok st (F1 @ b # c # F2)"
  shows "(snd b + snd c) mod 2 ^ 64 = snd b + snd c"
proof -
  have "snd b < 2 ^ 63" "snd c < 2 ^ 63" using assms space_small[of st] by (auto simp: free_ok_def)
  then show ?thesis by simp
qed

definition keeps :: "mst \<Rightarrow> mst \<Rightarrow> nat set \<Rightarrow> bool" where
  "keeps st st' X \<longleftrightarrow> same st st' \<and> (\<forall>x. x \<notin> X \<longrightarrow> bsize st' x = bsize st x)"

lemma keeps_unlink [simp]: "a \<in> X \<Longrightarrow> keeps st (unlink st l r a u) X"
  by (auto simp: keeps_def same_def unlink_def)

lemma keeps_refl [simp]: "keeps st st X"
  by (simp add: keeps_def same_def)

lemma keeps_trans: "keeps st st1 X \<Longrightarrow> keeps st1 st2 Y \<Longrightarrow> Y \<subseteq> X \<Longrightarrow> keeps st st2 X"
  by (auto simp: keeps_def same_def)

lemma coalesce_right_result:
  assumes ok: "free_ok st (F1 @ b # F2)"
  shows "\<exists>st'. coalesce_right st (fst b) (right_of st F2) = Some st' \<and> free_ok st' (F1 @ join_right b F2) \<and> keeps st st' {fst b}"
proof (cases F2)
  case Nil
  have "free_lst st < fst b" using ok inside_above by (auto simp: free_ok_def)
  moreover have "get_size st (fst b) = Some (snd b)" using ok inside_valid[of st b] by (simp add: free_ok_def get_size_def)
  ultimately show ?thesis using ok Nil by (simp add: coalesce_right_def right_of_def)
next
  case (Cons c F)
  note ok' = ok[unfolded Cons]
  have v: "valid st (fst b)" "valid st (fst c)" "valid st (right_of st F)"
    using free_ok_valid[OF ok'] right_mem[of st F] by auto
  have g: "get_size st (fst b) = Some (snd b)" "get_size st (fst c) = Some (snd c)"
    using ok' v by (simp_all add: free_ok_def get_size_def)
  have "linked st ((free_lst st # map fst F1 @ [fst b]) @ fst c # map fst F @ [free_lst st])" using ok' by (simp add: free_ok_def)
  then have n: "nxt st (fst c) = Some (right_of st F)"
    using linked_append[of st "free_lst st # map fst F1 @ [fst b]" "fst c" "map fst F @ [free_lst st]"] right_link by blast
  show ?thesis
  proof (cases "fst b + snd b * HEADER_SZ = fst c")
    case True
    have "coalesce_right st (fst b) (fst c) = Some (unlink st (fst b) (right_of st F) (fst b) (snd b + snd c))"
      using g n v sizes_mod[OF ok'] True
      by (simp add: coalesce_right_def set_size_def get_next_def set_prev_def set_next_def unlink_def valid_def)
    then show ?thesis using merge_result[OF ok' True] Cons True by (simp add: right_of_def)
  next
    case False
    then show ?thesis using ok' Cons g by (simp add: coalesce_right_def right_of_def)
  qed
qed

definition join_left :: "block list \<Rightarrow> block \<Rightarrow> block list" where
  "join_left F b = (if F \<noteq> [] \<and> fst (last F) + snd (last F) * HEADER_SZ = fst b
     then butlast F @ [(fst (last F), snd (last F) + snd b)] else F @ [b])"

lemma coalesce_left_result:
  assumes ok: "free_ok st (F1 @ b # F2)"
  shows "\<exists>st'. coalesce_left st (fst b) = Some st' \<and> free_ok st' (join_left F1 b @ F2) \<and> keeps st st' (fst ` set F1)"
proof -
  have vb: "valid st (fst b)" and p: "prv st (fst b) = Some (left_of st F1)"
    using free_ok_valid[OF ok] ok left_link[of st F1 "fst b"] by (auto simp: free_ok_def)
  have gp: "get_prev st (fst b) = Some (left_of st F1)" using vb p by (simp add: get_prev_def)
  show ?thesis
  proof (cases F1 rule: rev_cases)
    case Nil
    have "free_lst st < fst b" using ok inside_above by (auto simp: free_ok_def)
    then have "coalesce_left st (fst b) = Some st"
      using ok Nil gp by (simp add: coalesce_left_def left_of_def get_size_def free_ok_def)
    then show ?thesis using ok Nil by (simp add: join_left_def)
  next
    case (snoc F0 q)
    have l: "left_of st F1 = fst q" using snoc by (simp add: left_of_def)
    have ok': "free_ok st (F0 @ q # b # F2)" using ok snoc by simp
    have v: "valid st (fst q)" "valid st (right_of st F2)" using free_ok_valid[OF ok'] right_mem[of st F2] by auto
    have g: "get_size st (fst q) = Some (snd q)" "bsize st (fst b) = Some (snd b)"
      using ok' v by (simp_all add: free_ok_def get_size_def)
    have "linked st ((free_lst st # map fst F1) @ fst b # map fst F2 @ [free_lst st])" using ok by (simp add: free_ok_def)
    then have n: "nxt st (fst b) = Some (right_of st F2)"
      using linked_append[of st "free_lst st # map fst F1" "fst b" "map fst F2 @ [free_lst st]"] right_link by blast
    have ne: "fst q \<noteq> fst b" using free_ok_distinct[OF ok'] by auto
    show ?thesis
    proof (cases "fst q + snd q * HEADER_SZ = fst b")
      case True
      have "coalesce_left st (fst b) = Some (unlink st (fst q) (right_of st F2) (fst q) (snd q + snd b))"
        using gp g n v vb sizes_mod[OF ok'] True l ne
        by (simp add: coalesce_left_def get_size_def set_size_def get_next_def get_prev_def set_prev_def set_next_def unlink_def valid_def)
      then show ?thesis using merge_result[OF ok' True] snoc True by (simp add: join_left_def)
    next
      case False
      then show ?thesis using ok snoc g gp l by (simp add: coalesce_left_def join_left_def)
    qed
  qed
qed

end
