(* ===== verification/Malloc_Main.thy ===== *)
theory Malloc_Main
  imports Malloc_Proofs
begin

text \<open>
  The contracts of \<^verbatim>\<open>malloc\<close> and \<^verbatim>\<open>free\<close>, and where they do not meet: \<^verbatim>\<open>malloc\<close> does not
  store the size of a block it has cut off, and \<^verbatim>\<open>free\<close> relies on it.
\<close>

definition spans :: "block set \<Rightarrow> nat set" where "spans B = (\<Union>b\<in>B. span b)"

text \<open>The state of the allocator: the free blocks in order, no two of them touching, and the live blocks.\<close>

definition heap_ok :: "mst \<Rightarrow> block list \<Rightarrow> block set \<Rightarrow> bool" where
  "heap_ok st F L \<longleftrightarrow> free_ok st F \<and> sorted_wrt gap F \<and> (\<forall>b\<in>L. inside st b) \<and> spans (set F) \<inter> spans L = {}
     \<and> (\<forall>b\<in>L. \<forall>c\<in>L. b \<noteq> c \<longrightarrow> span b \<inter> span c = {})"

lemma spans_simps [simp]: "spans {} = {}" "spans (insert b B) = span b \<union> spans B" "spans (A \<union> B) = spans A \<union> spans B"
  by (auto simp: spans_def)

lemma inside_span: "inside st b \<Longrightarrow> fst b \<in> span b"
  by (simp add: inside_def span_def HEADER_SZ_def)

lemma disjoint_before:
  assumes "inside st b" "inside st c" "span b \<inter> span c = {}" "fst b \<le> fst c"
  shows "before b c"
proof (rule ccontr)
  assume "\<not> before b c"
  then have "fst c \<in> span b" using assms(4) by (simp add: before_def span_def)
  then show False using assms(3) inside_span[OF assms(2)] by blast
qed

lemma dropWhile_above:
  "sorted_wrt before F \<Longrightarrow> \<forall>c\<in>set F. inside st c \<Longrightarrow> c \<in> set (dropWhile (\<lambda>c. fst c < a) F) \<Longrightarrow> a \<le> fst c"
  by (induction F) (fastforce split: if_splits dest: before_less)+

lemma insertion_point:
  assumes "heap_ok st F L" "b \<in> L"
  shows "\<exists>F1 F2. F = F1 @ F2 \<and> (\<forall>c\<in>set F1. before c b \<and> fst c < fst b) \<and> (\<forall>c\<in>set F2. before b c \<and> fst b \<le> fst c)"
proof (intro exI conjI)
  let ?F1 = "takeWhile (\<lambda>c. fst c < fst b) F" let ?F2 = "dropWhile (\<lambda>c. fst c < fst b) F"
  have ok: "sorted_wrt before F" "\<forall>c\<in>set F. inside st c" "inside st b" using assms by (auto simp: heap_ok_def free_ok_def)
  have dis: "span b \<inter> span c = {}" "span c \<inter> span b = {}" if "c \<in> set F" for c
    using assms that by (fastforce simp: heap_ok_def spans_def)+
  show "F = ?F1 @ ?F2" by simp
  show "\<forall>c\<in>set ?F1. before c b \<and> fst c < fst b"
  proof
    fix c assume "c \<in> set ?F1"
    then have "c \<in> set F" "fst c < fst b" by (auto dest: set_takeWhileD)
    then show "before c b \<and> fst c < fst b" using disjoint_before[of st c b] ok dis by auto
  qed
  show "\<forall>c\<in>set ?F2. before b c \<and> fst b \<le> fst c"
  proof
    fix c assume c: "c \<in> set ?F2"
    then have "c \<in> set F" "fst b \<le> fst c" using dropWhile_above[OF ok(1,2)] by (auto dest: set_dropWhileD)
    then show "before b c \<and> fst b \<le> fst c" using disjoint_before[of st b c] ok dis by auto
  qed
qed

subsection \<open>Merging keeps the free blocks apart and loses no byte\<close>

lemma span_join: "fst b + snd b * HEADER_SZ = fst c \<Longrightarrow> span (fst b, snd b + snd c) = span b \<union> span c"
  by (auto simp: span_def algebra_simps)

lemma before_gap: "before b c \<Longrightarrow> gap c d \<Longrightarrow> gap b d"
  by (simp add: before_def gap_def)

lemma merged_gap: "fst b + snd b * HEADER_SZ = fst c \<Longrightarrow> gap (fst b, snd b + snd c) d = gap c d"
  by (auto simp: gap_def add_mult_distrib)

lemma merged_before: "gap d (fst b, u) = gap d b"
  by (simp add: gap_def)

lemma join_right_result:
  assumes "sorted_wrt gap F" "\<forall>c\<in>set F. before b c"
  shows "\<exists>b' F'. join_right b F = b' # F' \<and> fst b' = fst b \<and> snd b \<le> snd b' \<and> sorted_wrt gap (b' # F')
    \<and> spans (set (b' # F')) = span b \<union> spans (set F)"
proof (cases F)
  case (Cons c G)
  show ?thesis
  proof (cases "fst b + snd b * HEADER_SZ = fst c")
    case True
    then show ?thesis using assms Cons
      by (intro exI[of _ "(fst b, snd b + snd c)"] exI[of _ G]) (auto simp: span_join merged_gap)
  next
    case False
    then have "gap b c" using assms Cons by (simp add: gap_def before_def)
    moreover have "\<forall>d\<in>set G. gap b d" using assms Cons by (auto intro: before_gap[of b c])
    ultimately show ?thesis using assms Cons False by simp
  qed
qed simp

lemma join_left_result:
  assumes s: "sorted_wrt gap F1" and bf: "\<forall>c\<in>set F1. before c b" and b: "sorted_wrt gap (b # F2)"
  shows "sorted_wrt gap (join_left F1 b @ F2) \<and> spans (set (join_left F1 b)) = spans (set F1) \<union> span b
    \<and> (\<exists>c\<in>set (join_left F1 b). snd b \<le> snd c)"
proof (cases F1 rule: rev_cases)
  case Nil
  then show ?thesis using b by (simp add: join_left_def)
next
  case (snoc F0 q)
  have F0: "sorted_wrt gap F0" "\<forall>c\<in>set F0. gap c q" "\<forall>c\<in>set F0. before c b" "before q b"
    using s bf snoc by (auto simp: sorted_wrt_append)
  have F2: "\<forall>c\<in>set F0. \<forall>d\<in>set F2. gap c d" "\<forall>d\<in>set F2. gap q d" using F0(3,4) b by (auto intro: before_gap[of _ b])
  show ?thesis
  proof (cases "fst q + snd q * HEADER_SZ = fst b")
    case True
    then show ?thesis using snoc F0 F2 b span_join[OF True]
      by (auto simp: join_left_def sorted_wrt_append merged_gap merged_before)
  next
    case False
    then have "gap q b" using F0(4) by (simp add: gap_def before_def)
    moreover have "\<forall>c\<in>set F0. gap c b" using F0(2) \<open>gap q b\<close> by (auto simp: gap_def)
    ultimately show ?thesis using snoc F0 F2 b False
      by (auto simp: join_left_def sorted_wrt_append)
  qed
qed

subsection \<open>\<^verbatim>\<open>free\<close>\<close>

lemma log_simps [simp]: "free_lst (emit st s) = free_lst st" "valid (emit st s) = valid st" "nxt (emit st s) = nxt st"
  "prv (emit st s) = prv st" "bsize (emit st s) = bsize st" "free_ok (emit st s) = free_ok st" "inside (emit st s) = inside st"
  "brk (emit st s) = brk st" "heap_start (emit st s) = heap_start st" "grants (emit st s) = grants st" "bytes (emit st s) = bytes st"
  "linked (emit st s) = linked st" "left_of (emit st s) = left_of st" "right_of (emit st s) = right_of st"
  by (auto simp: emit_def left_of_def right_of_def valid_def free_ok_def inside_def space_def linked_def fun_eq_iff)

lemma valid_updates [simp]: "valid (st\<lparr>nxt := n\<rparr>) = valid st" "valid (st\<lparr>prv := n\<rparr>) = valid st"
  "valid (st\<lparr>bsize := n\<rparr>) = valid st"
  by (auto simp: valid_def fun_eq_iff)

lemma linked_tl: "linked st (x # R) \<Longrightarrow> linked st R"
  by (cases R) (simp add: linked_def, simp add: linked_Cons)

lemma free_links:
  assumes ok: "free_ok st (F1 @ F2)" and b: "inside st b"
    and F1: "\<forall>c\<in>set F1. before c b \<and> fst c < fst b" and F2: "\<forall>c\<in>set F2. before b c \<and> fst b \<le> fst c"
  shows "free_c st (fst b + HEADER_SZ) =
    (let s4 = free_list_with (emit st (printf ''*** Inside free ***\<newline>'' [])) (fst b) F1 F2
     in do { st5 \<leftarrow> coalesce_right s4 (fst b) (right_of st F2); coalesce_left st5 (fst b) })"
proof -
  let ?s0 = "emit st (printf ''*** Inside free ***\<newline>'' [])"
  let ?l = "left_of st F1" let ?r = "right_of st F2"
  have ring: "linked st (free_lst st # map fst F1 @ map fst F2 @ [free_lst st])" and sp: "space st"
    using ok by (auto simp: free_ok_def)
  have ne: "fst b \<noteq> free_lst st" using inside_above[OF sp b] by simp
  have v: "valid st (fst b)" "valid st ?l" "valid st ?r"
    using inside_valid[OF b] free_ok_valid[OF ok] left_mem[of st F1] right_mem[of st F2] by auto
  have r: "?r \<noteq> fst b" "?l \<noteq> fst b"
    using ne left_mem[of st F1] right_mem[of st F2] F1 F2 before_less[OF _ b] by fastforce+
  have p: "prv st ?r = Some ?l" using ring left_link[of st F1 ?r] by (cases F2) (auto simp: right_of_def)
  have "get_next st (free_lst st) = Some (right_of st (F1 @ F2))"
    using right_link[of st "free_lst st" "F1 @ F2"] ring by (simp add: get_next_def)
  moreover have "find_right ?s0 (fst b) (right_of ?s0 (F1 @ F2)) = Some (right_of ?s0 F2)"
  proof (rule find_right_result)
    show "linked ?s0 (map fst (F1 @ F2) @ [free_lst ?s0])" using linked_tl[OF ring] by simp
    show "\<forall>c\<in>set (F1 @ F2). valid ?s0 (fst c) \<and> fst c \<noteq> free_lst ?s0"
      using ok inside_valid[of st] inside_above[OF sp] by (fastforce simp: free_ok_def)
  qed (use F1 F2 in auto)
  ultimately show ?thesis using v r p
    by (simp add: free_c_def Let_def get_next_def get_prev_def set_next_def set_prev_def free_list_with_def)
qed

lemma heap_ok_spans: "heap_ok st F L \<Longrightarrow> b \<in> L \<Longrightarrow> fst b \<notin> spans (set F)"
  using inside_span[of st b] by (auto simp: heap_ok_def spans_def)

lemma live_apart: "heap_ok st F L \<Longrightarrow> b \<in> L \<Longrightarrow> span b \<inter> spans (L - {b}) = {}"
proof -
  assume "heap_ok st F L" "b \<in> L"
  then have "span b \<inter> span c = {}" if "c \<in> L - {b}" for c using that unfolding heap_ok_def by blast
  then show ?thesis unfolding spans_def by blast
qed

lemma spans_mono: "A \<subseteq> B \<Longrightarrow> spans A \<subseteq> spans B"
  by (auto simp: spans_def)

lemma free_list_keeps: "keeps st (free_list_with st a F1 F2) X"
  by (simp add: keeps_def same_def free_list_with_def)

lemma free_result:
  assumes ok: "heap_ok st F L" and b: "b \<in> L" and sz: "bsize st (fst b) = Some (snd b)"
  shows "\<exists>st' F'. free_c st (fst b + HEADER_SZ) = Some st' \<and> heap_ok st' F' (L - {b}) \<and> spans (set F') = spans (set F) \<union> span b
    \<and> (\<exists>c\<in>set F'. snd b \<le> snd c) \<and> keeps st st' (insert (fst b) (fst ` set F))"
proof -
  obtain F1 F2 where F: "F = F1 @ F2" and F1: "\<forall>c\<in>set F1. before c b \<and> fst c < fst b" and F2: "\<forall>c\<in>set F2. before b c \<and> fst b \<le> fst c"
    using insertion_point[OF ok b] by blast
  have fo: "free_ok st (F1 @ F2)" and ins: "inside st b" and srt: "sorted_wrt gap F1" "sorted_wrt gap F2"
    using ok b F by (auto simp: heap_ok_def sorted_wrt_append)
  let ?s0 = "emit st (printf ''*** Inside free ***\<newline>'' [])" let ?s4 = "free_list_with ?s0 (fst b) F1 F2"
  have "free_ok ?s4 (F1 @ b # F2)" using insert_result[of ?s0 F1 F2 b] fo ins sz F1 F2 by simp
  from coalesce_right_result[OF this] obtain s5 where
    s5: "coalesce_right ?s4 (fst b) (right_of ?s4 F2) = Some s5" "free_ok s5 (F1 @ join_right b F2)" "keeps ?s4 s5 {fst b}" by blast
  obtain b' F2' where j: "join_right b F2 = b' # F2'" "fst b' = fst b" "snd b \<le> snd b'" "sorted_wrt gap (b' # F2')"
      "spans (set (b' # F2')) = span b \<union> spans (set F2)" using join_right_result[OF srt(2), of b] F2 by blast
  obtain s6 where s6: "coalesce_left s5 (fst b) = Some s6" "free_ok s6 (join_left F1 b' @ F2')" "keeps s5 s6 (fst ` set F1)"
    using coalesce_left_result[of s5 F1 b' F2'] s5(2) j by auto
  have "\<forall>c\<in>set F1. before c b'" using F1 j(2) by (auto simp: before_def)
  note l = join_left_result[OF srt(1) this j(4)]
  have "right_of ?s4 F2 = right_of st F2" by (simp add: right_of_def free_list_with_def)
  then have run: "free_c st (fst b + HEADER_SZ) = Some s6" using free_links[OF fo ins F1 F2] s5(1) s6(1) by simp
  have k4: "keeps st ?s4 (insert (fst b) (fst ` set F))" using free_list_keeps[of ?s0 "fst b" F1 F2 "insert (fst b) (fst ` set F)"] by (simp add: keeps_def same_def)
  have k: "keeps st s6 (insert (fst b) (fst ` set F))"
    using F by (intro keeps_trans[OF keeps_trans[OF k4 s5(3)] s6(3)]) auto
  have sp: "spans (set (join_left F1 b' @ F2')) = spans (set F) \<union> span b" using l j(5) F by auto
  have "heap_ok s6 (join_left F1 b' @ F2') (L - {b})"
  proof -
    have "inside s6 c" if "c \<in> L" for c using k that ok by (simp add: keeps_def same_def heap_ok_def inside_def)
    moreover have "spans (set (join_left F1 b' @ F2')) \<inter> spans (L - {b}) = {}"
      unfolding sp using ok live_apart[OF ok b] spans_mono[of "L - {b}" L] unfolding heap_ok_def by blast
    ultimately show ?thesis using ok s6(2) l by (simp add: heap_ok_def)
  qed
  moreover have "\<exists>c\<in>set (join_left F1 b' @ F2'). snd b \<le> snd c" using l j(3) by (auto intro: le_trans)
  ultimately show ?thesis using run k sp by blast
qed

subsection \<open>\<^verbatim>\<open>malloc\<close>\<close>

lemma find_fit_result:
  assumes "linked st (map fst (F1 @ F2) @ [free_lst st])" "\<forall>c\<in>set F1. snd c < u" "F2 = [] \<or> u \<le> snd (hd F2)"
    "\<forall>c\<in>set (F1 @ F2). get_size st (fst c) = Some (snd c) \<and> fst c \<noteq> free_lst st"
  shows "find_fit st u (right_of st (F1 @ F2)) = Some (right_of st F2)"
  using assms
proof (induction F1)
  case Nil
  then show ?case by (subst find_fit.simps) (cases F2; auto simp: right_of_def)
next
  case (Cons c F1)
  have n: "nxt st (fst c) = Some (right_of st (F1 @ F2))" using Cons.prems(1) right_link[of st "fst c" "F1 @ F2"] by simp
  have v: "valid st (fst c)" using Cons.prems(4) by (auto simp: get_size_def split: if_splits)
  have "linked st (map fst (F1 @ F2) @ [free_lst st])" using Cons.prems(1) linked_tl by simp
  then have "find_fit st u (right_of st (F1 @ F2)) = Some (right_of st F2)" using Cons by simp
  then show ?case using Cons.prems n v by (subst find_fit.simps) (simp add: right_of_def get_next_def)
qed

definition remainder :: "block \<Rightarrow> nat \<Rightarrow> block list" where
  "remainder b u = (if snd b = u then [] else [(fst b + u * HEADER_SZ, snd b - u)])"

definition cut_off :: "mst \<Rightarrow> nat \<Rightarrow> nat \<Rightarrow> nat \<Rightarrow> nat \<Rightarrow> mst" where
  "cut_off st l r nb s = st\<lparr>bsize := (bsize st)(nb \<mapsto> s), nxt := (nxt st)(nb \<mapsto> r, l \<mapsto> nb), prv := (prv st)(nb \<mapsto> l, r \<mapsto> nb)\<rparr>"

lemma free_list_parts:
  assumes ok: "free_ok st (F1 @ b # F2)"
  shows "nxt st (fst b) = Some (right_of st F2)" "prv st (fst b) = Some (left_of st F1)"
    "valid st (fst b)" "valid st (left_of st F1)" "valid st (right_of st F2)" "left_of st F1 \<noteq> fst b" "right_of st F2 \<noteq> fst b"
proof -
  have lk: "linked st (free_lst st # map fst F1 @ fst b # map fst F2 @ [free_lst st])" using ok by (simp add: free_ok_def)
  then have "linked st (fst b # map fst F2 @ [free_lst st])"
    using linked_append[of st "free_lst st # map fst F1" "fst b" "map fst F2 @ [free_lst st]"] by simp
  then show "nxt st (fst b) = Some (right_of st F2)" by (simp add: right_link)
  show "prv st (fst b) = Some (left_of st F1)" using left_link[OF lk] by simp
  show "valid st (fst b)" "valid st (left_of st F1)" "valid st (right_of st F2)"
    using free_ok_valid[OF ok] left_mem[of st F1] right_mem[of st F2] by auto
  have "fst b \<notin> set (free_lst st # map fst F1)" "fst b \<notin> set (free_lst st # map fst F2)"
    using free_ok_distinct[OF ok] by auto
  then show "left_of st F1 \<noteq> fst b" "right_of st F2 \<noteq> fst b" using left_mem[of st F1] right_mem[of st F2] by metis+
qed

lemma cut_fresh:
  assumes ok: "free_ok st (F1 @ b # F2)" and u: "1 \<le> u" "u < snd b"
  shows "fst b + u * HEADER_SZ \<notin> set (free_lst st # map fst (F1 @ b # F2))"
proof -
  let ?nb = "fst b + u * HEADER_SZ"
  have b: "inside st b" "space st" and F1: "\<forall>c\<in>set F1. before c b \<and> inside st c" and F2: "\<forall>c\<in>set F2. before b c"
    using ok by (auto simp: free_ok_def sorted_wrt_append)
  have nb: "fst b < ?nb" "?nb < fst b + snd b * HEADER_SZ" using u by (simp_all add: HEADER_SZ_def)
  have "?nb \<noteq> fst c" if "c \<in> set F1" for c using F1 that before_less[of c b st] nb by fastforce
  moreover have "?nb \<noteq> fst c" if "c \<in> set F2" for c using F2 that nb by (fastforce simp: before_def)
  moreover have "?nb \<noteq> free_lst st" using inside_above[OF b(2,1)] nb by simp
  ultimately show ?thesis using nb by auto
qed

lemma take_exact:
  assumes ok: "free_ok st (F1 @ b # F2)"
  shows "free_ok (st\<lparr>nxt := (nxt st)(left_of st F1 \<mapsto> right_of st F2), prv := (prv st)(right_of st F2 \<mapsto> left_of st F1)\<rparr>) (F1 @ F2)"
    (is "free_ok ?st _")
proof -
  have d: "distinct (free_lst st # map fst (F1 @ b # F2))" by (rule free_ok_distinct[OF ok])
  have "linked ?st (last (free_lst st # map fst F1) # [] @ [hd (map fst F2 @ [free_lst st])])"
    unfolding left_of_def[symmetric] right_of_def[symmetric] by simp
  then have "linked ?st (free_lst st # map fst F1 @ [] @ map fst F2 @ [free_lst st])"
  proof (rule splice[where st = st and zs = "[fst b]", rotated -1])
    show "linked st (free_lst st # map fst F1 @ [fst b] @ map fst F2 @ [free_lst st])" using ok by (simp add: free_ok_def)
    show "distinct (free_lst st # map fst F1 @ map fst F2)"
      "set ([fst b] @ []) \<inter> set (free_lst st # map fst F1 @ map fst F2) = {}" using d by simp_all
  qed (simp_all only: left_of_def right_of_def, simp_all)
  then show ?thesis using ok by (auto simp: free_ok_def space_def inside_def sorted_wrt_append)
qed

lemma take_part:
  assumes ok: "free_ok st (F1 @ b # F2)" and u: "1 \<le> u" "u < snd b"
  shows "free_ok (cut_off st (left_of st F1) (right_of st F2) (fst b + u * HEADER_SZ) (snd b - u))
    (F1 @ (fst b + u * HEADER_SZ, snd b - u) # F2)" (is "free_ok ?st (F1 @ ?n # F2)")
proof -
  have d: "distinct (free_lst st # map fst (F1 @ b # F2))" by (rule free_ok_distinct[OF ok])
  note fresh = cut_fresh[OF ok u]
  have "left_of st F1 \<in> set (free_lst st # map fst (F1 @ b # F2))" "right_of st F2 \<in> set (free_lst st # map fst (F1 @ b # F2))"
    using left_mem[of st F1] right_mem[of st F2] by auto
  then have "left_of st F1 \<noteq> fst ?n" "right_of st F2 \<noteq> fst ?n" unfolding fst_conv using fresh by metis+
  then have "linked ?st (last (free_lst st # map fst F1) # [fst ?n] @ [hd (map fst F2 @ [free_lst st])])"
    unfolding left_of_def[symmetric] right_of_def[symmetric] by (simp add: cut_off_def linked_Cons)
  then have "linked ?st (free_lst st # map fst F1 @ [fst ?n] @ map fst F2 @ [free_lst st])"
  proof (rule splice[where st = st and zs = "[fst b]", rotated -1])
    show "linked st (free_lst st # map fst F1 @ [fst b] @ map fst F2 @ [free_lst st])" using ok by (simp add: free_ok_def)
    show "distinct (free_lst st # map fst F1 @ map fst F2)"
      "set ([fst b] @ [fst ?n]) \<inter> set (free_lst st # map fst F1 @ map fst F2) = {}" using d fresh by simp_all
  qed (simp_all only: left_of_def right_of_def cut_off_def, simp_all)
  moreover have "sorted_wrt before (F1 @ ?n # F2)"
    using ok u by (auto simp: free_ok_def sorted_wrt_append before_def HEADER_SZ_def)
  moreover have "\<forall>c\<in>set (F1 @ F2). bsize ?st (fst c) = Some (snd c)" "bsize ?st (free_lst st) = Some 0"
    using ok fresh upd_others[of "fst ?n" "F1 @ F2" "bsize st" "snd b - u"] by (simp_all add: free_ok_def cut_off_def image_Un)
  moreover have "inside st ?n" using ok u by (auto simp: free_ok_def inside_def HEADER_SZ_def)
  ultimately show ?thesis using ok by (auto simp: free_ok_def cut_off_def space_def inside_def)
qed

lemma take_block_result:
  assumes ok: "free_ok st (F1 @ b # F2)" and u: "1 \<le> u" "u \<le> snd b"
  shows "\<exists>st'. take_block st (fst b) u = Some st' \<and> free_ok st' (F1 @ remainder b u @ F2) \<and> keeps st st' (span b)"
proof -
  note p = free_list_parts[OF ok]
  have g: "get_size st (fst b) = Some (snd b)" using ok p(3) by (simp add: free_ok_def get_size_def)
  show ?thesis
  proof (cases "snd b = u")
    case True
    let ?st = "st\<lparr>nxt := (nxt st)(left_of st F1 \<mapsto> right_of st F2), prv := (prv st)(right_of st F2 \<mapsto> left_of st F1)\<rparr>"
    have "take_block st (fst b) u = Some ?st"
      using True g p by (simp add: take_block_def get_next_def get_prev_def set_next_def set_prev_def)
    then show ?thesis using take_exact[OF ok] True by (simp add: remainder_def keeps_def same_def)
  next
    case False
    then have lt: "u < snd b" using u by simp
    let ?nb = "fst b + u * HEADER_SZ"
    let ?st = "cut_off st (left_of st F1) (right_of st F2) ?nb (snd b - u)"
    have nb: "?nb \<noteq> fst b" "?nb \<in> span b" using lt u by (auto simp: span_def HEADER_SZ_def)
    have "fst b + snd b * HEADER_SZ \<le> brk st" "heap_start st \<le> fst b" using ok by (auto simp: free_ok_def inside_def)
    then have "valid st ?nb" using lt by (simp add: valid_def HEADER_SZ_def)
    then have "take_block st (fst b) u = Some ?st"
      using lt g p nb
      by (simp add: take_block_def Let_def cut_off_def get_next_def get_prev_def set_next_def set_prev_def set_size_def)
    moreover have "keeps st ?st (span b)" using nb by (auto simp: keeps_def same_def cut_off_def)
    ultimately show ?thesis using take_part[OF ok u(1) lt] lt by (simp add: remainder_def)
  qed
qed

lemma remainder_spans:
  assumes "u \<le> snd b"
  shows "span b = span (fst b, u) \<union> spans (set (remainder b u))" "span (fst b, u) \<inter> spans (set (remainder b u)) = {}"
  using assms by (auto simp: remainder_def span_def spans_def HEADER_SZ_def)

lemma remainder_gap:
  assumes "sorted_wrt gap (F1 @ b # F2)" "u \<le> snd b"
  shows "sorted_wrt gap (F1 @ remainder b u @ F2)"
  using assms by (auto simp: remainder_def sorted_wrt_append gap_def HEADER_SZ_def)

lemma before_disjoint: "before b c \<Longrightarrow> span b \<inter> span c = {}"
  by (auto simp: before_def span_def)

text \<open>Cutting a block off the free list, as seen from outside.\<close>

lemma take_heap:
  assumes ok: "heap_ok st (F1 @ b # F2) L" and u: "1 \<le> u" "u \<le> snd b"
  shows "\<exists>st'. take_block st (fst b) u = Some st' \<and> heap_ok st' (F1 @ remainder b u @ F2) (insert (fst b, u) L)
    \<and> (\<forall>c\<in>L. span (fst b, u) \<inter> span c = {}) \<and> keeps st st' (span b)"
proof -
  have fo: "free_ok st (F1 @ b # F2)" and g: "sorted_wrt gap (F1 @ b # F2)" using ok by (auto simp: heap_ok_def)
  obtain st' where s: "take_block st (fst b) u = Some st'" "free_ok st' (F1 @ remainder b u @ F2)" "keeps st st' (span b)"
    using take_block_result[OF fo u] by blast
  note r = remainder_spans[OF u(2)]
  have out: "span b \<inter> spans (set F1) = {}" "span b \<inter> spans (set F2) = {}"
    using fo before_disjoint[of _ b] before_disjoint[of b] by (fastforce simp: free_ok_def sorted_wrt_append spans_def)+
  have live: "(span b \<union> spans (set F1) \<union> spans (set F2)) \<inter> spans L = {}" using ok by (auto simp: heap_ok_def)
  have "spans (set (F1 @ remainder b u @ F2)) \<inter> spans (insert (fst b, u) L) = {}"
    using r out live by auto
  moreover have "\<forall>c\<in>L. inside st' c" "inside st' (fst b, u)"
    using ok s(3) u by (auto simp: heap_ok_def free_ok_def keeps_def same_def inside_def HEADER_SZ_def)
  moreover have "\<forall>c\<in>L. span (fst b, u) \<inter> span c = {}" using live r(1) by (fastforce simp: spans_def)
  ultimately show ?thesis using s ok remainder_gap[OF g u(2)] by (auto simp: heap_ok_def Int_commute)
qed

lemma heap_ok_emit [simp]: "heap_ok (emit st s) F L = heap_ok st F L"
  by (simp add: heap_ok_def)

lemma sbrk_block:
  assumes ok: "heap_ok st F L" and u: "1 \<le> u" "u * HEADER_SZ \<le> n" "brk st + n \<le> 2 ^ 63"
  shows "heap_ok (st\<lparr>brk := brk st + n, grants := gs, bsize := (bsize st)(brk st \<mapsto> u)\<rparr>) F (insert (brk st, u) L)" (is "heap_ok ?st _ _")
proof -
  have fo: "free_ok st F" and L: "\<forall>c\<in>L. inside st c" using ok by (auto simp: heap_ok_def)
  have F: "\<forall>c\<in>set F. inside st c" and sp: "space st" using fo by (auto simp: free_ok_def)
  have "brk st \<notin> fst ` set F" using F by (fastforce simp: inside_def HEADER_SZ_def)
  moreover have "free_lst st \<noteq> brk st" using sp by (simp add: space_def HEADER_SZ_def)
  moreover have more: "inside ?st c" if "inside st c" for c using that by (simp add: inside_def)
  ultimately have "free_ok ?st F"
    using fo u upd_others[of "brk st" F "bsize st" u] by (simp add: free_ok_def space_def linked_def inside_def trans_le_add1)
  moreover have "span (brk st, u) \<inter> span c = {}" if "inside st c" for c
    using that by (auto simp: span_def inside_def)
  moreover have "inside ?st (brk st, u)" using u sp by (simp add: inside_def space_def)
  ultimately show ?thesis using ok F L more by (auto simp: heap_ok_def spans_def Int_commute) (fastforce+)?
qed

lemma alloc_mem_result:
  assumes ok: "heap_ok st F L" and u: "1 \<le> u" "u * HEADER_SZ < 2 ^ 63"
  shows "(\<exists>st'. alloc_mem st u = Some (None, st') \<and> heap_ok st' F L \<and> keeps st (st'\<lparr>grants := grants st\<rparr>) {}
      \<and> (grants st = [] \<or> \<not> hd (grants st) \<or> 2 ^ 63 < brk st + max u ALLOC_MIN_UNITS * HEADER_SZ))
    \<or> (\<exists>a st' F' c. alloc_mem st u = Some (Some a, st') \<and> heap_ok st' F' L \<and> c \<in> set F' \<and> u \<le> snd c
      \<and> bytes st' = bytes st \<and> (\<forall>c\<in>L. bsize st' (fst c) = bsize st (fst c)))"
proof -
  let ?n = "max u ALLOC_MIN_UNITS * HEADER_SZ"
  have n: "(if u < ALLOC_MIN_UNITS then ALLOC_MIN_UNITS else u) * HEADER_SZ mod 2 ^ 64 = ?n" "?n < 2 ^ 63" "u * HEADER_SZ \<le> ?n"
    using u by (auto simp: ALLOC_MIN_UNITS_def HEADER_SZ_def)
  show ?thesis
  proof (cases "grants st \<noteq> [] \<and> hd (grants st) \<and> brk st + ?n \<le> 2 ^ 63")
    case False
    then have "alloc_mem st u = Some (None, st\<lparr>grants := tl (grants st)\<rparr>)"
      using n by (auto simp: alloc_mem_def sbrk_def)
    moreover have "heap_ok (st\<lparr>grants := tl (grants st)\<rparr>) F L" using ok
      by (simp add: heap_ok_def free_ok_def space_def inside_def linked_def)
    ultimately show ?thesis using False by (auto simp: keeps_def same_def)
  next
    case True
    let ?st = "st\<lparr>brk := brk st + ?n, grants := tl (grants st), bsize := (bsize st)(brk st \<mapsto> u)\<rparr>"
    have h: "heap_ok ?st F (insert (brk st, u) L)" using sbrk_block[OF ok u(1) n(3)] True by simp
    obtain st' F' where s: "free_c ?st (brk st + HEADER_SZ) = Some st'" "heap_ok st' F' (insert (brk st, u) L - {(brk st, u)})"
        "\<exists>c\<in>set F'. u \<le> snd c" "keeps ?st st' (insert (brk st) (fst ` set F))"
      using free_result[OF h, of "(brk st, u)"] by auto
    have L: "fst c < brk st" "fst c \<notin> fst ` set F" if "c \<in> L" for c
    proof -
      show "fst c < brk st" using ok that by (auto simp: heap_ok_def inside_def HEADER_SZ_def)
      show "fst c \<notin> fst ` set F" using heap_ok_spans[OF ok that] ok inside_span[of st]
        by (fastforce simp: heap_ok_def free_ok_def spans_def)
    qed
    have "insert (brk st, u) L - {(brk st, u)} = L" using L(1) by fastforce
    then have "heap_ok st' F' L" using s(2) by simp
    moreover have "\<forall>c\<in>L. bsize st' (fst c) = bsize st (fst c)" "bytes st' = bytes st"
      using s(4) L by (auto simp: keeps_def same_def) (metis less_irrefl)?
    moreover have "alloc_mem st u = Some (Some (brk st), st')"
      using n True s(1) u ok by (simp add: alloc_mem_def sbrk_def set_size_def valid_def heap_ok_def free_ok_def space_def HEADER_SZ_def)
    ultimately show ?thesis using s(3) by blast
  qed
qed

lemma units_of_small:
  assumes "n \<le> 2 ^ 62"
  shows "1 \<le> units_of n" "units_of n * HEADER_SZ < 2 ^ 63" "n \<le> (units_of n - 1) * HEADER_SZ"
  using assms by (auto simp: units_of_def HEADER_SZ_def)

lemma first_fit: "\<exists>F1 F2. F = F1 @ F2 \<and> (\<forall>c\<in>set F1. snd c < u) \<and> (F2 = [] \<or> u \<le> snd (hd F2))" for F :: "block list"
proof (intro exI conjI)
  show "F = takeWhile (\<lambda>c. snd c < u) F @ dropWhile (\<lambda>c. snd c < u) F" by simp
  show "\<forall>c\<in>set (takeWhile (\<lambda>c. snd c < u) F). snd c < u" by (auto dest: set_takeWhileD)
  show "dropWhile (\<lambda>c. snd c < u) F = [] \<or> u \<le> snd (hd (dropWhile (\<lambda>c. snd c < u) F))"
    by (metis (lifting) hd_dropWhile not_less)
qed

text \<open>One round of \<^verbatim>\<open>malloc\<close>: it serves the request from the first block that fits, or asks for memory.\<close>

definition served :: "mst \<Rightarrow> block set \<Rightarrow> nat \<Rightarrow> (nat option \<times> mst) option \<Rightarrow> bool" where
  "served st L u r \<longleftrightarrow> (\<exists>a st' F'. r = Some (Some (a + HEADER_SZ), st') \<and> heap_ok st' F' (insert (a, u) L)
     \<and> (\<forall>c\<in>L. span (a, u) \<inter> span c = {}) \<and> bytes st' = bytes st \<and> (\<forall>c\<in>L. bsize st' (fst c) = bsize st (fst c)))"

lemma find_fit_free:
  assumes ok: "heap_ok st (F1 @ F2) L" and F: "\<forall>c\<in>set F1. snd c < u" "F2 = [] \<or> u \<le> snd (hd F2)"
  shows "get_next st (free_lst st) = Some (right_of st (F1 @ F2))" "find_fit st u (right_of st (F1 @ F2)) = Some (right_of st F2)"
proof -
  have fo: "free_ok st (F1 @ F2)" using ok by (simp add: heap_ok_def)
  have ring: "linked st (free_lst st # map fst (F1 @ F2) @ [free_lst st])" using fo by (simp add: free_ok_def)
  show "get_next st (free_lst st) = Some (right_of st (F1 @ F2))" using right_link[OF ring] by (simp add: get_next_def)
  show "find_fit st u (right_of st (F1 @ F2)) = Some (right_of st F2)"
  proof (rule find_fit_result[OF linked_tl[OF ring] F])
    show "\<forall>c\<in>set (F1 @ F2). get_size st (fst c) = Some (snd c) \<and> fst c \<noteq> free_lst st"
      using fo inside_above[of st] inside_valid[of st] by (fastforce simp: free_ok_def get_size_def)
  qed
qed

lemma malloc_fit:
  assumes ok: "heap_ok st F L" and n: "n \<le> 2 ^ 62" and fit: "\<exists>c\<in>set F. units_of n \<le> snd c"
  shows "served st L (units_of n) (malloc st n)"
proof -
  let ?s0 = "emit st (printf ''*** Inside malloc ***\<newline>'' [])"
  obtain F1 F2 where F: "F = F1 @ F2" "\<forall>c\<in>set F1. snd c < units_of n" "F2 = [] \<or> units_of n \<le> snd (hd F2)"
    using first_fit by blast
  then obtain b G where b: "F2 = b # G" "units_of n \<le> snd b" using fit by (cases F2) fastforce+
  have h: "heap_ok ?s0 (F1 @ b # G) L" using ok F b by simp
  obtain st' where s: "take_block ?s0 (fst b) (units_of n) = Some st'" "heap_ok st' (F1 @ remainder b (units_of n) @ G) (insert (fst b, units_of n) L)"
      "\<forall>c\<in>L. span (fst b, units_of n) \<inter> span c = {}" "keeps ?s0 st' (span b)" using take_heap[OF h units_of_small(1)[OF n] b(2)] by blast
  have "free_lst st \<noteq> fst b" using h inside_above[of st b] by (auto simp: heap_ok_def free_ok_def)
  then have "malloc st n = Some (Some (fst b + HEADER_SZ), st')"
    using find_fit_free[OF h[folded b(1)] F(2,3)] b(1) s(1) by (subst malloc.simps) (simp add: Let_def right_of_def)
  moreover have "fst c \<notin> span b" if "c \<in> L" for c using heap_ok_spans[OF h that] by simp
  then have "\<forall>c\<in>L. bsize st' (fst c) = bsize st (fst c)" "bytes st' = bytes st" using s(4) by (auto simp: keeps_def same_def)
  ultimately show ?thesis unfolding served_def using s(2,3) by blast
qed

lemma malloc_result:
  assumes ok: "heap_ok st F L" and n: "n \<le> 2 ^ 62"
  shows "served st L (units_of n) (malloc st n)
    \<or> (\<exists>st'. malloc st n = Some (None, st') \<and> heap_ok st' F L
        \<and> (grants st = [] \<or> \<not> hd (grants st) \<or> 2 ^ 63 < brk st + max (units_of n) ALLOC_MIN_UNITS * HEADER_SZ))"
proof (cases "\<exists>c\<in>set F. units_of n \<le> snd c")
  case True
  then show ?thesis using malloc_fit[OF ok n] by blast
next
  case False
  let ?s0 = "emit st (printf ''*** Inside malloc ***\<newline>'' [])" let ?u = "units_of n"
  have h: "heap_ok ?s0 (F @ []) L" using ok by simp
  have "\<forall>c\<in>set F. snd c < ?u" using False by (auto simp: not_le)
  then have step: "malloc st n = do { (r, st1) \<leftarrow> alloc_mem ?s0 ?u; if r = None then Some (None, st1) else malloc st1 n }"
    using find_fit_free[OF h] by (subst malloc.simps) (simp add: Let_def right_of_def)
  have "heap_ok ?s0 F L" using ok by simp
  from alloc_mem_result[OF this units_of_small(1,2)[OF n]] show ?thesis
  proof (elim disjE exE conjE, goal_cases)
    case (4 a st1 F' c)
    then have "served st1 L ?u (malloc st1 n)" using malloc_fit[OF _ n] by blast
    then show ?thesis using 4 step by (simp add: served_def)
  qed (auto simp: step)
qed

lemma heap_ok_start:
  assumes "lst + HEADER_SZ \<le> start" "start \<le> 2 ^ 63"
  shows "heap_ok (mst0 lst start gs) [] {}"
  using assms by (simp add: heap_ok_def free_ok_def space_def mst0_def linked_Cons)

text \<open>
  Property C6. \<^verbatim>\<open>malloc\<close> on a well-formed heap and a request of at most \<open>2 ^ 62\<close> bytes always returns: either
  a block that is big enough and apart from every live block and every free block, with the heap well-formed
  again and the live blocks untouched, or null with the heap as it was, and this only when \<^verbatim>\<open>sbrk\<close> refuses
  more memory.
\<close>

theorem malloc_correct:
  assumes "heap_ok st F L" "n \<le> 2 ^ 62"
  shows "\<exists>r st'. malloc st n = Some (r, st') \<and>
    (case r of
       Some p \<Rightarrow> \<exists>a u F'. p = a + HEADER_SZ \<and> n \<le> (u - 1) * HEADER_SZ \<and> heap_ok st' F' (insert (a, u) L)
         \<and> (\<forall>c\<in>L. span (a, u) \<inter> span c = {}) \<and> bytes st' = bytes st \<and> (\<forall>c\<in>L. bsize st' (fst c) = bsize st (fst c))
     | None \<Rightarrow> heap_ok st' F L
         \<and> (grants st = [] \<or> \<not> hd (grants st) \<or> 2 ^ 63 < brk st + max (units_of n) ALLOC_MIN_UNITS * HEADER_SZ))"
  using malloc_result[OF assms]
proof (elim disjE exE conjE)
  assume s: "served st L (units_of n) (malloc st n)"
  then obtain a st' F' where "malloc st n = Some (Some (a + HEADER_SZ), st')" "heap_ok st' F' (insert (a, units_of n) L)"
      "\<forall>c\<in>L. span (a, units_of n) \<inter> span c = {}" "bytes st' = bytes st" "\<forall>c\<in>L. bsize st' (fst c) = bsize st (fst c)"
    unfolding served_def by blast
  then show ?thesis using units_of_small(3)[OF assms(2)] by auto
qed auto

theorem malloc_correct_witness:
  "\<exists>r st'. malloc (mst0 1000 4096 [True]) 27 = Some (r, st') \<and>
    (case r of
       Some p \<Rightarrow> \<exists>a u F'. p = a + HEADER_SZ \<and> 27 \<le> (u - 1) * HEADER_SZ \<and> heap_ok st' F' {(a, u)}
         \<and> (\<forall>c\<in>{}. span (a, u) \<inter> span c = {}) \<and> bytes st' = Map.empty
         \<and> (\<forall>c\<in>{}. bsize st' (fst c) = bsize (mst0 1000 4096 [True]) (fst c))
     | None \<Rightarrow> heap_ok st' [] {} \<and> False)"
proof -
  have "heap_ok (mst0 1000 4096 [True]) [] {}" by (rule heap_ok_start) (simp_all add: HEADER_SZ_def)
  from malloc_correct[OF this, of 27] show ?thesis
    by (simp add: mst0_def units_of_def ALLOC_MIN_UNITS_def HEADER_SZ_def cong: option.case_cong)
qed

text \<open>
  Property C7. \<^verbatim>\<open>free\<close> on a live block whose header holds its size returns, puts exactly the bytes of the block
  back into the free list, which stays sorted, linked both ways and without two blocks that touch, and leaves the
  other live blocks alone.
\<close>

theorem free_correct:
  assumes "heap_ok st F L" "b \<in> L" "bsize st (fst b) = Some (snd b)"
  shows "\<exists>st' F'. free_c st (fst b + HEADER_SZ) = Some st' \<and> heap_ok st' F' (L - {b}) \<and> spans (set F') = spans (set F) \<union> span b
    \<and> bytes st' = bytes st \<and> brk st' = brk st"
  using free_result[OF assms] by (auto simp: keeps_def same_def)

theorem free_correct_witness:
  "\<exists>st' F'. free_c ((mst0 1000 4096 [])\<lparr>brk := 4216, grants := [], bsize := [1000 \<mapsto> 0, 4096 \<mapsto> 5]\<rparr>) 4120 = Some st'
    \<and> heap_ok st' F' {} \<and> spans (set F') = {4096..<4216}"
proof -
  have "heap_ok (mst0 1000 4096 []) [] {}" by (rule heap_ok_start) (simp_all add: HEADER_SZ_def)
  from sbrk_block[OF this, of 5 120 "[]"]
  have "heap_ok ((mst0 1000 4096 [])\<lparr>brk := 4216, grants := [], bsize := [1000 \<mapsto> 0, 4096 \<mapsto> 5]\<rparr>) [] {(4096, 5)}"
    by (simp add: mst0_def HEADER_SZ_def)
  from free_correct[OF this, of "(4096, 5)"] show ?thesis by (auto simp: span_def HEADER_SZ_def)
qed

text \<open>
  Property C8. \<^verbatim>\<open>malloc\<close> leaves the old size in the header of a block it cuts off a bigger one. After the
  requests \<^verbatim>\<open>malloc(96)\<close>, \<^verbatim>\<open>free\<close>, \<^verbatim>\<open>malloc(24)\<close>, \<^verbatim>\<open>free\<close>, \<^verbatim>\<open>malloc(96)\<close>,
  \<^verbatim>\<open>malloc(48)\<close> the last two blocks, both live, overlap.
\<close>

definition overlap_run :: "mst \<Rightarrow> (nat \<times> nat) c" where
  "overlap_run st =
     do { (p1, st1) \<leftarrow> malloc st 96; a1 \<leftarrow> p1; st2 \<leftarrow> free_c st1 a1;
          (p2, st3) \<leftarrow> malloc st2 24; a2 \<leftarrow> p2; st4 \<leftarrow> free_c st3 a2;
          (p3, st5) \<leftarrow> malloc st4 96; a3 \<leftarrow> p3;
          (p4, st6) \<leftarrow> malloc st5 48; a4 \<leftarrow> p4;
          Some (a3, a4) }"

lemmas malloc_eval = malloc.simps find_fit.simps find_right.simps free_c_def coalesce_right_def coalesce_left_def
  alloc_mem_def take_block_def sbrk_def get_next_def get_prev_def get_size_def set_next_def set_prev_def set_size_def
  valid_def emit_def units_of_def HEADER_SZ_def ALLOC_MIN_UNITS_def Let_def mst0_def

theorem malloc_overlap:
  assumes "lst + HEADER_SZ \<le> start" "start + ALLOC_MIN_UNITS * HEADER_SZ \<le> 2 ^ 63"
  shows "\<exists>a b. overlap_run (mst0 lst start (True # gs)) = Some (a, b) \<and> {a..<a + 96} \<inter> {b..<b + 48} \<noteq> {}"
proof -
  have "overlap_run (mst0 lst start (True # gs)) = Some (start + 24, start + 72)"
    using assms by (simp add: overlap_run_def malloc_eval)
  moreover have "start + 72 \<in> {start + 24..<start + 24 + 96} \<inter> {start + 72..<start + 72 + 48}" by simp
  ultimately show ?thesis by blast
qed

theorem malloc_overlap_witness:
  "\<exists>a b. overlap_run (mst0 1000 4096 [True]) = Some (a, b) \<and> {a..<a + 96} \<inter> {b..<b + 48} \<noteq> {}"
  by (rule malloc_overlap) (simp_all add: HEADER_SZ_def ALLOC_MIN_UNITS_def)

text \<open>The program itself stays clear of this: it prints its line, or, without memory, stores through a null pointer.\<close>

lemma malloc_main_output:
  assumes "lst + HEADER_SZ \<le> start" "start + ALLOC_MIN_UNITS * HEADER_SZ \<le> 2 ^ 63"
  shows "map_option out (malloc_main (mst0 lst start (True # gs))) =
      Some (''*** Inside malloc ***\<newline>*** Inside free ***\<newline>*** Inside malloc ***\<newline>''
        @ ''Hello, world!\<newline>abcdefghijklmnopqrstuvwxyz\<newline>*** Inside free ***\<newline>'')"
    and "malloc_main (mst0 lst start []) = None"
  using assms by (simp_all add: malloc_main_def malloc_eval poke_def read_str.simps printf.simps show_conv_def)

end
