(* ===== verification/Morris.thy ===== *)
theory Morris
  imports C_Stdio C_Heap "HOL-Library.Tree"
begin

text \<open>
  \<^verbatim>\<open>trees_graphs/traversal_without_recursion/solution.c\<close>: in-order and pre-order traversal of a binary search
  tree in constant space. The traversals thread the tree: they make the right pointer of the last node of a left
  subtree point back to the node above it, and take that link away when they come back along it. The traversals and
  the other loops that follow pointers are partial functions. What the traversals print is returned with the heap.
\<close>

record mt_tree_node =
  mkey :: int
  left :: ptr
  right :: ptr

type_synonym mt_heap = "mt_tree_node heap"

text \<open>The inner loop: down the right links of the left subtree, to its last node or to one that links back.\<close>

partial_function (option) morris_predecessor :: "mt_heap \<Rightarrow> ptr \<Rightarrow> ptr \<Rightarrow> ptr option" where
  "morris_predecessor h cur predecessor =
     do { p \<leftarrow> deref h predecessor;
          if right p \<noteq> None \<and> right p \<noteq> cur then morris_predecessor h cur (right p) else Some predecessor }"

partial_function (option) morris_in_order :: "mt_heap \<Rightarrow> ptr \<Rightarrow> string \<Rightarrow> (mt_heap \<times> string) option" where
  "morris_in_order h cur out =
     (if cur = None then Some (h, out)
      else do { n \<leftarrow> deref h cur;
                if left n = None then morris_in_order h (right n) (out @ printf ''%d\<newline>'' [IntA (mkey n)])
                else do { predecessor \<leftarrow> morris_predecessor h cur (left n);
                          p \<leftarrow> deref h predecessor;
                          if right p \<noteq> None
                          then do { h1 \<leftarrow> store h predecessor (\<lambda>x. x\<lparr>right := None\<rparr>);
                                    n1 \<leftarrow> deref h1 cur;
                                    morris_in_order h1 (right n1) (out @ printf ''%d\<newline>'' [IntA (mkey n)]) }
                          else do { h1 \<leftarrow> store h predecessor (\<lambda>x. x\<lparr>right := cur\<rparr>);
                                    n1 \<leftarrow> deref h1 cur;
                                    morris_in_order h1 (left n1) out } } })"

partial_function (option) morris_pre_order :: "mt_heap \<Rightarrow> ptr \<Rightarrow> string \<Rightarrow> (mt_heap \<times> string) option" where
  "morris_pre_order h cur out =
     (if cur = None then Some (h, out)
      else do { n \<leftarrow> deref h cur;
                if left n = None then morris_pre_order h (right n) (out @ printf ''%d\<newline>'' [IntA (mkey n)])
                else do { predecessor \<leftarrow> morris_predecessor h cur (left n);
                          p \<leftarrow> deref h predecessor;
                          if right p \<noteq> None
                          then do { h1 \<leftarrow> store h predecessor (\<lambda>x. x\<lparr>right := None\<rparr>);
                                    n1 \<leftarrow> deref h1 cur;
                                    morris_pre_order h1 (right n1) out }
                          else do { h1 \<leftarrow> store h predecessor (\<lambda>x. x\<lparr>right := cur\<rparr>);
                                    n1 \<leftarrow> deref h1 cur;
                                    morris_pre_order h1 (left n1) (out @ printf ''%d\<newline>'' [IntA (mkey n)]) } } })"

subsection \<open>The tree\<close>

definition mt_new_tree_node :: "mt_heap \<Rightarrow> int \<Rightarrow> ptr \<Rightarrow> ptr \<Rightarrow> ptr \<times> mt_heap" where
  "mt_new_tree_node h k l r = malloc h \<lparr>mkey = k, left = l, right = r\<rparr>"

definition mt_destroy_tree_node :: "mt_heap \<Rightarrow> ptr \<Rightarrow> mt_heap c" where
  "mt_destroy_tree_node h n = free h n"

partial_function (option) mt_insert_loop :: "mt_heap \<Rightarrow> int \<Rightarrow> ptr \<Rightarrow> ptr \<Rightarrow> ptr option" where
  "mt_insert_loop h k prev cur =
     (if cur = None then Some prev
      else do { n \<leftarrow> deref h cur; mt_insert_loop h k cur (if k < mkey n then left n else right n) })"

definition mt_tree_insert :: "mt_heap \<Rightarrow> ptr \<Rightarrow> int \<Rightarrow> (ptr \<times> mt_heap) c" where
  "mt_tree_insert h root k =
     do { prev \<leftarrow> mt_insert_loop h k None root;
          let (to_insert, h1) = mt_new_tree_node h k None None;
          if prev = None \<or> to_insert = None then Some (to_insert, h1)
          else do { n \<leftarrow> deref h1 prev;
                    h2 \<leftarrow> (if k < mkey n
                           then store h1 prev (\<lambda>x. x\<lparr>left := to_insert\<rparr>)
                           else store h1 prev (\<lambda>x. x\<lparr>right := to_insert\<rparr>));
                    Some (root, h2) } }"

partial_function (option) mt_destroy_tree :: "mt_heap \<Rightarrow> ptr \<Rightarrow> mt_heap option" where
  "mt_destroy_tree h root =
     (if root = None then Some h
      else do { n \<leftarrow> deref h root;
                h1 \<leftarrow> mt_destroy_tree h (left n);
                n1 \<leftarrow> deref h1 root;
                h2 \<leftarrow> mt_destroy_tree h1 (right n1);
                mt_destroy_tree_node h2 root })"

subsection \<open>The driver\<close>

record mt_state =
  m_heap :: mt_heap
  m_root :: ptr
  m_out :: string
  m_err :: string

definition mt_dump :: "mt_state \<Rightarrow> mt_state c" where
  "mt_dump s =
     do { let out0 = m_out s @ printf ''Pre-order traversal:\<newline>'' [];
          (h1, out1) \<leftarrow> morris_pre_order (m_heap s) (m_root s) out0;
          (h2, out2) \<leftarrow> morris_in_order h1 (m_root s) (out1 @ printf ''In-order traversal:\<newline>'' []);
          Some (s\<lparr>m_heap := h2, m_out := out2\<rparr>) }"

text \<open>One iteration of the loop; the flag says whether the program goes on.\<close>

definition mt_command :: "mt_state \<Rightarrow> string \<Rightarrow> (mt_state \<times> bool) c" where
  "mt_command s line =
     do { r \<leftarrow> sscanf line '' I %d'';
          if scan_ret r = 1
          then do { (new_root, h1) \<leftarrow> mt_tree_insert (m_heap s) (m_root s) (arg_int (sr_args r ! 0));
                    Some (if new_root = None
                          then s\<lparr>m_heap := h1, m_err := m_err s @ printf ''Out of memory; couldn't insert node.\<newline>'' []\<rparr>
                          else s\<lparr>m_heap := h1, m_root := new_root\<rparr>, True) }
          else do { r' \<leftarrow> sscanf line '' %c'';
                    if scan_ret r' = 1
                    then (let op = arg_chr (sr_args r' ! 0)
                          in if op = CHR ''D'' then do { s1 \<leftarrow> mt_dump s; Some (s1, True) }
                             else if op = CHR ''Q'' then Some (s, False)
                             else Some (s\<lparr>m_err := m_err s @ printf ''Invalid input\<newline>'' []\<rparr>, True))
                    else Some (s\<lparr>m_err := m_err s @ printf ''Invalid input\<newline>'' []\<rparr>, False) } }"

function mt_loop :: "mt_state \<Rightarrow> string \<Rightarrow> mt_state c" where
  "mt_loop s input =
     (let s0 = s\<lparr>m_out := m_out s @ printf ''> '' []\<rparr>
      in case fgets 1024 input of
           None \<Rightarrow> Some s0
         | Some (line, rest) \<Rightarrow>
             do { (s1, go) \<leftarrow> mt_command s0 line; if go then mt_loop s1 rest else Some s1 })"
  by pat_completeness auto
termination
  by (relation "measure (\<lambda>(s, input). length input)") (auto dest: fgets_less)

declare mt_loop.simps [simp del]

definition mt_banner :: string where
  "mt_banner = ''The available commands are:\<newline>'' @ ''I K - Inserts a key with the value K\<newline>''
     @ ''D - Dumps the tree (pre-order and then in-order)\<newline>'' @ ''Q - Quit\<newline>''"

text \<open>What is left in the heap at the end is returned with the output and the error output.\<close>

definition mt_main :: "(nat \<Rightarrow> bool) \<Rightarrow> string \<Rightarrow> (mt_heap \<times> string \<times> string) c" where
  "mt_main fails input =
     do { s \<leftarrow> mt_loop \<lparr>m_heap = empty_heap fails, m_root = None, m_out = printf mt_banner [], m_err = []\<rparr> input;
          h \<leftarrow> mt_destroy_tree (m_heap s) (m_root s);
          Some (h, m_out s, m_err s) }"

end
