(* ===== verification/Morris_Proofs.thy ===== *)
theory Morris_Proofs
  imports Morris
begin

text \<open>
  The traversals print the in-order and the pre-order of the tree and leave the heap as it was; the program prints
  what an abstract binary search tree with the same insertions holds. The proof follows a subtree whose last right
  link is a thread: \<open>seg c t q\<close> is the tree \<open>t\<close> in the heap \<open>c\<close> with the thread \<open>q\<close>.
\<close>

subsection \<open>Threaded trees\<close>

type_synonym mtree = "(nat \<times> int) tree"

fun root_or :: "mtree \<Rightarrow> ptr \<Rightarrow> ptr" where
  "root_or \<langle>\<rangle> q = q"
| "root_or \<langle>l, x, r\<rangle> q = Some (fst x)"

abbreviation root_of :: "mtree \<Rightarrow> ptr" where "root_of t \<equiv> root_or t None"

fun seg :: "(nat \<rightharpoonup> mt_tree_node) \<Rightarrow> mtree \<Rightarrow> ptr \<Rightarrow> bool" where
  "seg c \<langle>\<rangle> q \<longleftrightarrow> True"
| "seg c \<langle>l, x, r\<rangle> q \<longleftrightarrow> c (fst x) = Some \<lparr>mkey = snd x, left = root_of l, right = root_or r q\<rparr> \<and> seg c l None \<and> seg c r q"

abbreviation addresses :: "mtree \<Rightarrow> nat list" where "addresses t \<equiv> map fst (inorder t)"

text \<open>The last node in order, whose right link the thread is.\<close>

fun last_of :: "mtree \<Rightarrow> nat" where
  "last_of \<langle>l, x, r\<rangle> = (if r = \<langle>\<rangle> then fst x else last_of r)"

lemma root_or_None [simp]: "root_or t None = None \<longleftrightarrow> t = \<langle>\<rangle>"
  by (cases t) auto

lemma root_or_Node: "t \<noteq> \<langle>\<rangle> \<Longrightarrow> root_or t (Some b) = root_of t"
  by (cases t) auto

lemma root_or_any: "t \<noteq> \<langle>\<rangle> \<Longrightarrow> root_or t q = root_or t q'"
  by (cases t) auto

lemma root_mem: "root_of t = Some a \<Longrightarrow> a \<in> set (addresses t)"
  by (cases t) auto

lemma last_mem: "t \<noteq> \<langle>\<rangle> \<Longrightarrow> last_of t \<in> set (addresses t)"
  by (induction t) auto

lemma seg_frame: "(\<And>a. a \<in> set (addresses t) \<Longrightarrow> c' a = c a) \<Longrightarrow> seg c' t q = seg c t q"
  by (induction t arbitrary: q) auto

lemma seg_upd [simp]: "a \<notin> set (addresses t) \<Longrightarrow> seg (c(a := v)) t q = seg c t q"
  by (rule seg_frame) auto

lemma seg_upd' [simp]: "a \<notin> set (addresses t) \<Longrightarrow> seg (\<lambda>b. if b = a then v else c b) t q = seg c t q"
  by (rule seg_frame) auto

lemma seg_last:
  assumes "seg c t q" "t \<noteq> \<langle>\<rangle>"
  shows "\<exists>n. c (last_of t) = Some n \<and> right n = q"
  using assms
proof (induction t)
  case (Node l x r)
  then show ?case by (cases "r = \<langle>\<rangle>") auto
qed simp

text \<open>Setting and removing the thread.\<close>

lemma seg_thread:
  assumes "seg c t q" "t \<noteq> \<langle>\<rangle>" "distinct (addresses t)" "c (last_of t) = Some n"
  shows "seg (c(last_of t \<mapsto> n\<lparr>right := q'\<rparr>)) t q'"
  using assms
proof (induction t)
  case (Node l x r)
  show ?case
  proof (cases "r = \<langle>\<rangle>")
    case True
    then show ?thesis using Node.prems by (auto simp del: fun_upd_apply simp: fun_upd_same)
  next
    case False
    then have "last_of r \<in> set (addresses r)" by (rule last_mem)
    then have "last_of r \<noteq> fst x" "last_of r \<notin> set (addresses l)"
      using Node.prems(3) unfolding inorder.simps map_append list.map distinct_append by force+
    then show ?thesis using Node False root_or_any[OF False, of q q'] by simp
  qed
qed simp

lemma predecessor_result:
  assumes "seg (cells h) t q" "t \<noteq> \<langle>\<rangle>" "a \<notin> set (addresses t)" "q = None \<or> q = Some a"
  shows "morris_predecessor h (Some a) (root_of t) = Some (Some (last_of t))"
  using assms
proof (induction t)
  case (Node l x r)
  show ?case
  proof (cases "r = \<langle>\<rangle>")
    case True
    then show ?thesis using Node.prems by (subst morris_predecessor.simps) auto
  next
    case False
    then have ne: "root_of r \<noteq> Some a" "root_of r \<noteq> None" using Node.prems root_mem[of r a] by auto
    have "cells h (fst x) = Some \<lparr>mkey = snd x, left = root_of l, right = root_of r\<rparr>"
      using Node.prems(1) root_or_any[OF False, of q None] by simp
    then have "morris_predecessor h (Some a) (root_of \<langle>l, x, r\<rangle>) = morris_predecessor h (Some a) (root_of r)"
      using ne by (subst morris_predecessor.simps) simp
    then show ?thesis using Node.IH(2) Node.prems False by simp
  qed
qed simp

subsection \<open>The traversals\<close>

definition key_line :: "int \<Rightarrow> string" where "key_line k = show_int k @ ''\<newline>''"
definition keys_text :: "(nat \<times> int) list \<Rightarrow> string" where "keys_text xs = concat (map (key_line \<circ> snd) xs)"

lemma keys_text_simps [simp]: "keys_text [] = []" "keys_text (x # xs) = key_line (snd x) @ keys_text xs"
  "keys_text (xs @ ys) = keys_text xs @ keys_text ys"
  by (simp_all add: keys_text_def)

lemma printf_key: "printf ''%d\<newline>'' [IntA k] = key_line k"
  by (simp add: key_line_def show_conv_def)

declare printf.simps [simp del]

text \<open>A heap in which the left subtree of a node has got its thread.\<close>

lemma thread_left:
  assumes s: "seg (cells h) \<langle>l, (a, k), r\<rangle> q" and d: "distinct (addresses \<langle>l, (a, k), r\<rangle>)" and l: "l \<noteq> \<langle>\<rangle>"
  obtains p h1 where "cells h (last_of l) = Some p" "right p = None"
    "morris_predecessor h (Some a) (root_of l) = Some (Some (last_of l))"
    "store h (Some (last_of l)) (\<lambda>x. x\<lparr>right := Some a\<rparr>) = Some h1"
    "seg (cells h1) l (Some a)" "cells h1 a = cells h a" "cells h1 (last_of l) = Some (p\<lparr>right := Some a\<rparr>)"
    "morris_predecessor h1 (Some a) (root_of l) = Some (Some (last_of l))"
    "store h1 (Some (last_of l)) (\<lambda>x. x\<lparr>right := None\<rparr>) = Some h"
proof -
  obtain p where p: "cells h (last_of l) = Some p" "right p = None" using seg_last[of "cells h" l None] s l by auto
  let ?h1 = "h\<lparr>cells := (cells h)(last_of l \<mapsto> p\<lparr>right := Some a\<rparr>)\<rparr>"
  have a: "a \<notin> set (addresses l)" using d by auto
  then have ne: "last_of l \<noteq> a" using last_mem[OF l] by auto
  have seg1: "seg (cells ?h1) l (Some a)" using seg_thread[of "cells h" l None p "Some a"] s d l p(1) by simp
  have "(cells h)(last_of l \<mapsto> p\<lparr>right := None\<rparr>) = cells h" using p by (cases p) (auto simp: fun_eq_iff)
  then have "store ?h1 (Some (last_of l)) (\<lambda>x. x\<lparr>right := None\<rparr>) = Some h"
    by (simp add: store_def)
  then show thesis
    using that[of p ?h1] p ne seg1 predecessor_result[of h l None a] predecessor_result[OF seg1 l a] s l a by simp
qed

lemma in_order_seg:
  assumes "seg (cells h) t q" "distinct (addresses t)" "\<And>b. q = Some b \<Longrightarrow> b \<notin> set (addresses t)"
  shows "morris_in_order h (root_or t q) out = morris_in_order h q (out @ keys_text (inorder t))"
  using assms
proof (induction t arbitrary: h q out)
  case (Node l x r)
  obtain a k where x: "x = (a, k)" by fastforce
  have cell: "cells h a = Some \<lparr>mkey = k, left = root_of l, right = root_or r q\<rparr>" using Node.prems(1) x by simp
  have R: "morris_in_order h (root_or r q) out' = morris_in_order h q (out' @ keys_text (inorder r))" for out'
    using Node.prems by (intro Node.IH(2)) auto
  show ?case
  proof (cases "l = \<langle>\<rangle>")
    case True
    then have "morris_in_order h (Some a) out = morris_in_order h (root_or r q) (out @ key_line k)"
      using cell by (subst morris_in_order.simps) (simp add: printf_key)
    then show ?thesis using R True x by simp
  next
    case False
    obtain p h1 where t: "cells h (last_of l) = Some p" "right p = None"
      "morris_predecessor h (Some a) (root_of l) = Some (Some (last_of l))"
      "store h (Some (last_of l)) (\<lambda>x. x\<lparr>right := Some a\<rparr>) = Some h1"
      "seg (cells h1) l (Some a)" "cells h1 a = cells h a" "cells h1 (last_of l) = Some (p\<lparr>right := Some a\<rparr>)"
      "morris_predecessor h1 (Some a) (root_of l) = Some (Some (last_of l))"
      "store h1 (Some (last_of l)) (\<lambda>x. x\<lparr>right := None\<rparr>) = Some h"
      using thread_left[of h l a k r q] Node.prems x False by auto
    have "morris_in_order h (Some a) out = morris_in_order h1 (root_of l) out"
      using cell t False by (subst morris_in_order.simps) simp
    also have "\<dots> = morris_in_order h1 (Some a) (out @ keys_text (inorder l))"
      using Node.IH(1)[OF t(5)] Node.prems x False by (auto simp: root_or_Node)
    also have "\<dots> = morris_in_order h (root_or r q) (out @ keys_text (inorder l) @ key_line k)"
      using cell t False by (subst morris_in_order.simps) (simp add: printf_key)
    finally show ?thesis using R x by simp
  qed
qed simp

lemma pre_order_seg:
  assumes "seg (cells h) t q" "distinct (addresses t)" "\<And>b. q = Some b \<Longrightarrow> b \<notin> set (addresses t)"
  shows "morris_pre_order h (root_or t q) out = morris_pre_order h q (out @ keys_text (preorder t))"
  using assms
proof (induction t arbitrary: h q out)
  case (Node l x r)
  obtain a k where x: "x = (a, k)" by fastforce
  have cell: "cells h a = Some \<lparr>mkey = k, left = root_of l, right = root_or r q\<rparr>" using Node.prems(1) x by simp
  have R: "morris_pre_order h (root_or r q) out' = morris_pre_order h q (out' @ keys_text (preorder r))" for out'
    using Node.prems by (intro Node.IH(2)) auto
  show ?case
  proof (cases "l = \<langle>\<rangle>")
    case True
    then have "morris_pre_order h (Some a) out = morris_pre_order h (root_or r q) (out @ key_line k)"
      using cell by (subst morris_pre_order.simps) (simp add: printf_key)
    then show ?thesis using R True x by simp
  next
    case False
    obtain p h1 where t: "cells h (last_of l) = Some p" "right p = None"
      "morris_predecessor h (Some a) (root_of l) = Some (Some (last_of l))"
      "store h (Some (last_of l)) (\<lambda>x. x\<lparr>right := Some a\<rparr>) = Some h1"
      "seg (cells h1) l (Some a)" "cells h1 a = cells h a" "cells h1 (last_of l) = Some (p\<lparr>right := Some a\<rparr>)"
      "morris_predecessor h1 (Some a) (root_of l) = Some (Some (last_of l))"
      "store h1 (Some (last_of l)) (\<lambda>x. x\<lparr>right := None\<rparr>) = Some h"
      using thread_left[of h l a k r q] Node.prems x False by auto
    have "morris_pre_order h (Some a) out = morris_pre_order h1 (root_of l) (out @ key_line k)"
      using cell t False by (subst morris_pre_order.simps) (simp add: printf_key)
    also have "\<dots> = morris_pre_order h1 (Some a) (out @ key_line k @ keys_text (preorder l))"
      using Node.IH(1)[OF t(5)] Node.prems x False by (auto simp: root_or_Node)
    also have "\<dots> = morris_pre_order h (root_or r q) (out @ key_line k @ keys_text (preorder l))"
      using cell t False by (subst morris_pre_order.simps) simp
    finally show ?thesis using R x by simp
  qed
qed simp

lemma morris_result:
  assumes "seg (cells h) t None" "distinct (addresses t)"
  shows "morris_in_order h (root_of t) out = Some (h, out @ keys_text (inorder t))"
    and "morris_pre_order h (root_of t) out = Some (h, out @ keys_text (preorder t))"
  using in_order_seg[OF assms, of out] pre_order_seg[OF assms, of out]
  by (simp_all add: morris_in_order.simps[of h None] morris_pre_order.simps[of h None])


subsection \<open>Insertion and destruction\<close>

fun bst_ins :: "nat \<Rightarrow> int \<Rightarrow> mtree \<Rightarrow> mtree" where
  "bst_ins a k \<langle>\<rangle> = \<langle>\<langle>\<rangle>, (a, k), \<langle>\<rangle>\<rangle>"
| "bst_ins a k \<langle>l, x, r\<rangle> = (if k < snd x then \<langle>bst_ins a k l, x, r\<rangle> else \<langle>l, x, bst_ins a k r\<rangle>)"

lemma set_bst_ins: "set (inorder (bst_ins a k t)) = insert (a, k) (set (inorder t))"
  by (induction t) auto

lemma distinct_bst_ins: "distinct (addresses t) \<Longrightarrow> a \<notin> set (addresses t) \<Longrightarrow> distinct (addresses (bst_ins a k t))"
proof (induction t)
  case (Node l x r)
  have "set (addresses (bst_ins a k t)) = insert a (set (addresses t))" for t using set_bst_ins[of a k t] by simp
  with Node show ?case by (auto simp del: set_inorder set_map) 
qed simp

lemma root_bst_ins: "root_of (bst_ins a k t) = (if t = \<langle>\<rangle> then Some a else root_of t)"
  by (cases t) auto

text \<open>The node below which a key goes.\<close>

fun parent_of :: "int \<Rightarrow> mtree \<Rightarrow> nat" where
  "parent_of k \<langle>l, x, r\<rangle> =
     (if k < snd x then (if l = \<langle>\<rangle> then fst x else parent_of k l) else (if r = \<langle>\<rangle> then fst x else parent_of k r))"

lemma parent_mem: "t \<noteq> \<langle>\<rangle> \<Longrightarrow> parent_of k t \<in> set (addresses t)"
  by (induction t) auto

lemma insert_loop_result:
  "seg (cells h) t None \<Longrightarrow> mt_insert_loop h k p (root_of t) = Some (if t = \<langle>\<rangle> then p else Some (parent_of k t))"
proof (induction t arbitrary: p)
  case Leaf
  then show ?case by (subst mt_insert_loop.simps) simp
next
  case (Node l x r)
  then show ?case by (subst mt_insert_loop.simps) auto
qed

definition hang :: "int \<Rightarrow> nat \<Rightarrow> mt_tree_node \<Rightarrow> mt_tree_node" where
  "hang k a n = (if k < mkey n then n\<lparr>left := Some a\<rparr> else n\<lparr>right := Some a\<rparr>)"

lemma seg_insert:
  assumes "seg c t None" "t \<noteq> \<langle>\<rangle>" "distinct (addresses t)" "a \<notin> set (addresses t)" "c (parent_of k t) = Some n"
  shows "seg (c(a \<mapsto> \<lparr>mkey = k, left = None, right = None\<rparr>, parent_of k t \<mapsto> hang k a n)) (bst_ins a k t) None"
  using assms
proof (induction t)
  case (Node l x r)
  let ?c = "\<lambda>p. c(a \<mapsto> \<lparr>mkey = k, left = None, right = None\<rparr>, p \<mapsto> hang k a n)"
  have x: "fst x \<noteq> a" "fst x \<notin> set (addresses l)" "fst x \<notin> set (addresses r)" "a \<notin> set (addresses l)" "a \<notin> set (addresses r)"
    and dj: "set (addresses l) \<inter> set (addresses r) = {}" and d: "distinct (addresses l)" "distinct (addresses r)"
    using Node.prems(3,4) by (simp_all del: set_map set_inorder)
  have other: "seg (?c p) u None = seg c u None" if "p \<notin> set (addresses u)" "a \<notin> set (addresses u)" for p u
    using that by (intro seg_frame) auto
  have cx: "c (fst x) = Some \<lparr>mkey = snd x, left = root_of l, right = root_of r\<rparr>" "seg c l None" "seg c r None"
    using Node.prems(1) by simp_all
  have below: "seg (?c (fst x)) l None" "seg (?c (fst x)) r None" "seg (?c (fst x)) \<langle>\<langle>\<rangle>, (a, k), \<langle>\<rangle>\<rangle> None"
    using other cx x by (simp_all del: set_map set_inorder)
  show ?case
  proof (cases "k < snd x")
    case True
    show ?thesis
    proof (cases "l = \<langle>\<rangle>")
      case True
      with \<open>k < snd x\<close> Node.prems(5) cx x below show ?thesis by (simp add: hang_def del: fun_upd_apply) (auto simp: hang_def)
    next
      case False
      then have p: "parent_of k l \<in> set (addresses l)" by (rule parent_mem)
      then have ne: "parent_of k l \<noteq> fst x" "parent_of k l \<notin> set (addresses r)"
        using dj x(2) by (metis, metis disjoint_iff)
      have "seg (?c (parent_of k l)) (bst_ins a k l) None"
        using Node.IH(1)[OF cx(2) False d(1) x(4)] Node.prems(5) True False by (simp add: fun_upd_def)
      moreover have "seg (?c (parent_of k l)) r None" using other[OF ne(2) x(5)] cx(3) by simp
      ultimately show ?thesis using True False cx(1) x(1) ne(1) by (simp add: root_bst_ins fun_upd_def)
    qed
  next
    case False
    note k = this
    show ?thesis
    proof (cases "r = \<langle>\<rangle>")
      case True
      with k Node.prems(5) cx x below show ?thesis by (simp add: hang_def del: fun_upd_apply) (auto simp: hang_def)
    next
      case False
      then have p: "parent_of k r \<in> set (addresses r)" by (rule parent_mem)
      then have ne: "parent_of k r \<noteq> fst x" "parent_of k r \<notin> set (addresses l)"
        using dj x(3) by (metis, metis disjoint_iff)
      have "seg (?c (parent_of k r)) (bst_ins a k r) None"
        using Node.IH(2)[OF cx(3) False d(2) x(5)] Node.prems(5) k False by (simp add: fun_upd_def)
      moreover have "seg (?c (parent_of k r)) l None" using other[OF ne(2) x(4)] cx(2) by simp
      ultimately show ?thesis using k False cx(1) x(1) ne(1) by (simp add: root_bst_ins fun_upd_def)
    qed
  qed
qed simp

text \<open>The tree the program holds; nothing else is in its heap.\<close>

definition holds_tree :: "mt_heap \<Rightarrow> ptr \<Rightarrow> mtree \<Rightarrow> bool" where
  "holds_tree h root t \<longleftrightarrow> root = root_of t \<and> seg (cells h) t None \<and> distinct (addresses t)
     \<and> dom (cells h) = set (addresses t) \<and> (\<forall>a\<in>set (addresses t). a < fresh h)"

lemma mt_insert_result:
  assumes ht: "holds_tree h root t"
  shows "\<exists>root' h'. mt_tree_insert h root k = Some (root', h') \<and> fresh h' = Suc (fresh h) \<and> oom h' = oom h
    \<and> (if oom h (fresh h) then root' = None \<and> holds_tree h' root t
        else root' \<noteq> None \<and> holds_tree h' root' (bst_ins (fresh h) k t))"
proof -
  let ?a = "fresh h" let ?n = "\<lparr>mkey = k, left = None, right = None\<rparr>"
  have root: "root = root_of t" and s: "seg (cells h) t None" and d: "distinct (addresses t)" and dm: "dom (cells h) = set (addresses t)"
    and fr: "\<forall>a\<in>set (addresses t). a < fresh h" using ht by (auto simp: holds_tree_def)
  have new: "?a \<notin> set (addresses t)" using fr by blast
  have loop: "mt_insert_loop h k None root = Some (if t = \<langle>\<rangle> then None else Some (parent_of k t))"
    using insert_loop_result[OF s] root by simp
  show ?thesis
  proof (cases "oom h ?a")
    case True
    then have "mt_tree_insert h root k = Some (None, h\<lparr>fresh := Suc ?a\<rparr>)"
      using loop by (simp add: mt_tree_insert_def mt_new_tree_node_def malloc_def)
    then show ?thesis using True ht by (auto simp: holds_tree_def)
  next
    case False
    note new_node = mt_new_tree_node_def malloc_def
    have mem: "set (addresses (bst_ins ?a k t)) = insert ?a (set (addresses t))" using set_bst_ins[of ?a k t] by simp
    have d': "distinct (addresses (bst_ins ?a k t))" by (rule distinct_bst_ins[OF d new])
    show ?thesis
    proof (cases "t = \<langle>\<rangle>")
      case True
      then have "mt_tree_insert h root k = Some (Some ?a, h\<lparr>cells := (cells h)(?a \<mapsto> ?n), fresh := Suc ?a\<rparr>)"
        using loop False by (simp add: mt_tree_insert_def new_node)
      then show ?thesis using True False dm by (simp add: holds_tree_def)
    next
      case Node: False
      have p: "parent_of k t \<in> set (addresses t)" by (rule parent_mem[OF Node])
      then obtain n where n: "cells h (parent_of k t) = Some n" using dm by blast
      have ne: "parent_of k t \<noteq> ?a" using p new by metis
      let ?h = "h\<lparr>cells := (cells h)(?a \<mapsto> ?n, parent_of k t \<mapsto> hang k ?a n), fresh := Suc ?a\<rparr>"
      have "mt_tree_insert h root k = Some (root, ?h)"
        using loop False Node n ne by (simp add: mt_tree_insert_def new_node hang_def)
      moreover have "holds_tree ?h root (bst_ins ?a k t)"
        unfolding holds_tree_def using seg_insert[OF s Node d new n] d' mem root Node dm fr p by (auto simp: root_bst_ins)
      ultimately show ?thesis using False root Node by (cases t) auto
    qed
  qed
qed

lemma destroy_result:
  assumes "seg (cells h) t None" "distinct (addresses t)"
  shows "mt_destroy_tree h (root_of t) = Some (h\<lparr>cells := (cells h) |` (- set (addresses t))\<rparr>)"
  using assms
proof (induction t arbitrary: h)
  case Leaf
  then show ?case by (subst mt_destroy_tree.simps) (simp add: restrict_map_def)
next
  case (Node l x r)
  have x: "fst x \<notin> set (addresses l)" "fst x \<notin> set (addresses r)" and dj: "set (addresses l) \<inter> set (addresses r) = {}"
    and d: "distinct (addresses l)" "distinct (addresses r)" using Node.prems(2) by (simp_all del: set_map set_inorder)
  have c: "cells h (fst x) = Some \<lparr>mkey = snd x, left = root_of l, right = root_of r\<rparr>" "seg (cells h) l None" "seg (cells h) r None"
    using Node.prems(1) by simp_all
  let ?h1 = "h\<lparr>cells := (cells h) |` (- set (addresses l))\<rparr>"
  have "mt_destroy_tree h (root_of l) = Some ?h1" by (rule Node.IH(1)[OF c(2) d(1)])
  moreover have "cells ?h1 a = cells h a" if "a \<in> set (addresses r)" for a
    using dj that by (simp add: restrict_map_def disjoint_iff del: set_map set_inorder) metis
  then have "seg (cells ?h1) r None" using c(3) seg_frame by blast
  then have "mt_destroy_tree ?h1 (root_of r) = Some (?h1\<lparr>cells := (cells ?h1) |` (- set (addresses r))\<rparr>)"
    by (rule Node.IH(2)[OF _ d(2)])
  moreover have "cells ?h1 (fst x) = cells h (fst x)" "(cells ?h1 |` (- set (addresses r))) (fst x) = cells h (fst x)"
    using x by (simp_all add: restrict_map_def del: set_map set_inorder)
  ultimately show ?case using c(1)
    by (subst mt_destroy_tree.simps)
       (auto simp: mt_destroy_tree_node_def free_def restrict_map_def fun_eq_iff intro!: arg_cong[of _ _ "\<lambda>c. h\<lparr>cells := c\<rparr>"])
qed


subsection \<open>The program\<close>

datatype mt_cmd = Ins int | Dump

fun mt_line :: "mt_cmd \<Rightarrow> string" where
  "mt_line (Ins k) = ''I '' @ show_int k @ ''\<newline>''"
| "mt_line Dump = ''D\<newline>''"

fun mt_cmd_ok :: "mt_cmd \<Rightarrow> bool" where
  "mt_cmd_ok (Ins k) = in_int k"
| "mt_cmd_ok Dump = True"

text \<open>
  What the program does on a sequence of commands: a search tree of keys, the number of the next allocation, and the
  output and error output.
\<close>

fun key_ins :: "int \<Rightarrow> int tree \<Rightarrow> int tree" where
  "key_ins k \<langle>\<rangle> = \<langle>\<langle>\<rangle>, k, \<langle>\<rangle>\<rangle>"
| "key_ins k \<langle>l, x, r\<rangle> = (if k < x then \<langle>key_ins k l, x, r\<rangle> else \<langle>l, x, key_ins k r\<rangle>)"

definition dump_text :: "int tree \<Rightarrow> string" where
  "dump_text t = ''Pre-order traversal:\<newline>'' @ concat (map key_line (preorder t))
     @ ''In-order traversal:\<newline>'' @ concat (map key_line (sort (preorder t)))"

fun mt_spec :: "(nat \<Rightarrow> bool) \<Rightarrow> nat \<Rightarrow> int tree \<Rightarrow> mt_cmd list \<Rightarrow> string \<times> string" where
  "mt_spec fails n t [] = (''> '', [])"
| "mt_spec fails n t (Ins k # cs) =
     (let (out, err) = mt_spec fails (Suc n) (if fails n then t else key_ins k t) cs
      in (''> '' @ out, (if fails n then ''Out of memory; couldn't insert node.\<newline>'' else []) @ err))"
| "mt_spec fails n t (Dump # cs) = (let (out, err) = mt_spec fails n t cs in (''> '' @ dump_text t @ out, err))"

lemma map_bst_ins: "map_tree snd (bst_ins a k t) = key_ins k (map_tree snd t)"
  by (induction t) auto

lemma sorted_inorder: "sorted (inorder t) \<Longrightarrow> sort (preorder t) = inorder t"
proof -
  have "mset (preorder t) = mset (inorder t)" by (induction t) (auto simp: ac_simps)
  then show "sorted (inorder t) \<Longrightarrow> sort (preorder t) = inorder t" by (metis properties_for_sort)
qed

lemma set_key_ins [simp]: "set_tree (key_ins k t) = insert k (set_tree t)"
  by (induction t) auto

lemma key_ins_sorted: "sorted (inorder t) \<Longrightarrow> sorted (inorder (key_ins k t))"
  by (induction t) (auto simp: sorted_append)

lemma keys_text_map: "keys_text xs = concat (map key_line (map snd xs))"
  by (simp add: keys_text_def comp_def)

lemma dump_result:
  assumes "holds_tree (m_heap s) (m_root s) t" "sorted (inorder (map_tree snd t))"
  shows "mt_dump s = Some (s\<lparr>m_out := m_out s @ dump_text (map_tree snd t)\<rparr>)"
proof -
  have p: "printf ''Pre-order traversal:\<newline>'' [] = ''Pre-order traversal:\<newline>''" "printf ''In-order traversal:\<newline>'' [] = ''In-order traversal:\<newline>''"
    by (simp_all add: printf.simps)
  have t: "seg (cells (m_heap s)) t None" "distinct (addresses t)" "m_root s = root_of t" using assms by (auto simp: holds_tree_def)
  have "dump_text (map_tree snd t) = ''Pre-order traversal:\<newline>'' @ keys_text (preorder t) @ ''In-order traversal:\<newline>'' @ keys_text (inorder t)"
    unfolding dump_text_def sorted_inorder[OF assms(2)] by (simp add: keys_text_map preorder_map inorder_map)
  then show ?thesis unfolding mt_dump_def t(3) Let_def p by (simp add: morris_result[OF t(1,2)])
qed

lemma sscanf_lines:
  "in_int k \<Longrightarrow> sscanf (mt_line (Ins k)) '' I %d'' = Some \<lparr>sr_args = [IntA k], sr_eof = False, sr_rest = ''\<newline>''\<rparr>"
  "sscanf (mt_line Dump) '' I %d'' = Some \<lparr>sr_args = [], sr_eof = False, sr_rest = ''D\<newline>''\<rparr>"
  "sscanf (mt_line Dump) '' %c'' = Some \<lparr>sr_args = [ChrA CHR ''D''], sr_eof = False, sr_rest = ''\<newline>''\<rparr>"
proof -
  have "cstr (mt_line (Ins k)) = mt_line (Ins k)" "cstr (mt_line Dump) = mt_line Dump"
    by (rule cstr_line; auto dest: show_int_plain)+
  then show "in_int k \<Longrightarrow> sscanf (mt_line (Ins k)) '' I %d'' = Some \<lparr>sr_args = [IntA k], sr_eof = False, sr_rest = ''\<newline>''\<rparr>"
    "sscanf (mt_line Dump) '' I %d'' = Some \<lparr>sr_args = [], sr_eof = False, sr_rest = ''D\<newline>''\<rparr>"
    "sscanf (mt_line Dump) '' %c'' = Some \<lparr>sr_args = [ChrA CHR ''D''], sr_eof = False, sr_rest = ''\<newline>''\<rparr>"
    by (simp_all add: sscanf_def scan_line_simps)
qed

lemma fgets_mt_line: "mt_cmd_ok c \<Longrightarrow> fgets 1024 (mt_line c @ rest) = Some (mt_line c, rest)"
proof (cases c)
  case (Ins k)
  assume "mt_cmd_ok c"
  then show ?thesis using Ins fgets_line[of "''I '' @ show_int k" 1024 rest] length_show_int[of k] by (auto dest: show_int_plain)
next
  case Dump
  then show ?thesis using fgets_line[of "''D''" 1024 rest] by simp
qed

lemma command_result:
  assumes ht: "holds_tree (m_heap s) (m_root s) t" and srt: "sorted (inorder (map_tree snd t))" and c: "mt_cmd_ok c"
  shows "\<exists>s' t'. mt_command s (mt_line c) = Some (s', True) \<and> holds_tree (m_heap s') (m_root s') t' \<and> oom (m_heap s') = oom (m_heap s)
    \<and> (case c of
         Ins k \<Rightarrow> let e = oom (m_heap s) (fresh (m_heap s)) in
           map_tree snd t' = (if e then map_tree snd t else key_ins k (map_tree snd t)) \<and> fresh (m_heap s') = Suc (fresh (m_heap s))
           \<and> m_out s' = m_out s \<and> m_err s' = m_err s @ (if e then ''Out of memory; couldn't insert node.\<newline>'' else [])
       | Dump \<Rightarrow> t' = t \<and> m_heap s' = m_heap s \<and> m_out s' = m_out s @ dump_text (map_tree snd t) \<and> m_err s' = m_err s)"
proof (cases c)
  case (Ins k)
  obtain root' h' where i: "mt_tree_insert (m_heap s) (m_root s) k = Some (root', h')" "fresh h' = Suc (fresh (m_heap s))"
      "oom h' = oom (m_heap s)"
      "if oom (m_heap s) (fresh (m_heap s)) then root' = None \<and> holds_tree h' (m_root s) t
       else root' \<noteq> None \<and> holds_tree h' root' (bst_ins (fresh (m_heap s)) k t)"
    using mt_insert_result[OF ht] by blast
  have m: "printf ''Out of memory; couldn't insert node.\<newline>'' [] = ''Out of memory; couldn't insert node.\<newline>''" by (simp add: printf.simps)
  have "mt_command s (mt_line c) = Some (if root' = None
      then s\<lparr>m_heap := h', m_err := m_err s @ ''Out of memory; couldn't insert node.\<newline>''\<rparr> else s\<lparr>m_heap := h', m_root := root'\<rparr>, True)"
    using Ins c i(1) unfolding mt_command_def m by (simp add: sscanf_lines(1) del: mt_line.simps)
  then show ?thesis using i Ins
    by (cases "oom (m_heap s) (fresh (m_heap s))") (auto simp: Let_def map_bst_ins intro: exI[of _ t] exI[of _ "bst_ins (fresh (m_heap s)) k t"])
next
  case Dump
  have "mt_command s (mt_line c) = Some (s\<lparr>m_out := m_out s @ dump_text (map_tree snd t)\<rparr>, True)"
    using Dump dump_result[OF ht srt] by (simp add: mt_command_def sscanf_lines(2,3) del: mt_line.simps)
  then show ?thesis using Dump ht by auto
qed

lemma loop_result:
  assumes "holds_tree (m_heap s) (m_root s) t" "sorted (inorder (map_tree snd t))" "list_all mt_cmd_ok cs"
  shows "\<exists>s' t'. mt_loop s (concat (map mt_line cs)) = Some s' \<and> holds_tree (m_heap s') (m_root s') t'
    \<and> (m_out s', m_err s') = (let (out, err) = mt_spec (oom (m_heap s)) (fresh (m_heap s)) (map_tree snd t) cs in (m_out s @ out, m_err s @ err))"
  using assms
proof (induction cs arbitrary: s t)
  case Nil
  then show ?case by (subst mt_loop.simps) (auto simp: fgets_def Let_def printf.simps)
next
  case (Cons c cs)
  let ?s0 = "s\<lparr>m_out := m_out s @ ''> ''\<rparr>"
  have h: "holds_tree (m_heap ?s0) (m_root ?s0) t" and c: "mt_cmd_ok c" using Cons.prems by auto
  obtain s1 t1 where r: "mt_command ?s0 (mt_line c) = Some (s1, True)" "holds_tree (m_heap s1) (m_root s1) t1" "oom (m_heap s1) = oom (m_heap s)"
     and o: "case c of
         Ins k \<Rightarrow> let e = oom (m_heap ?s0) (fresh (m_heap ?s0)) in
           map_tree snd t1 = (if e then map_tree snd t else key_ins k (map_tree snd t)) \<and> fresh (m_heap s1) = Suc (fresh (m_heap ?s0))
           \<and> m_out s1 = m_out ?s0 \<and> m_err s1 = m_err ?s0 @ (if e then ''Out of memory; couldn't insert node.\<newline>'' else [])
       | Dump \<Rightarrow> t1 = t \<and> m_heap s1 = m_heap ?s0 \<and> m_out s1 = m_out ?s0 @ dump_text (map_tree snd t) \<and> m_err s1 = m_err ?s0"
    using command_result[OF h Cons.prems(2) c] by auto
  have "printf ''> '' [] = ''> ''" by (simp add: printf.simps)
  then have step: "mt_loop s (concat (map mt_line (c # cs))) = mt_loop s1 (concat (map mt_line cs))"
    using r(1) fgets_mt_line[OF c, of "concat (map mt_line cs)"] by (subst mt_loop.simps) (simp add: Let_def del: mt_line.simps)
  have srt: "sorted (inorder (map_tree snd t1))"
    using o Cons.prems(2) key_ins_sorted[of "map_tree snd t"] by (cases c) (auto simp: Let_def split: if_splits)
  from Cons.IH[OF r(2) srt] Cons.prems(3) obtain s' t' where
    "mt_loop s1 (concat (map mt_line cs)) = Some s'" "holds_tree (m_heap s') (m_root s') t'"
    "(m_out s', m_err s') = (let (out, err) = mt_spec (oom (m_heap s1)) (fresh (m_heap s1)) (map_tree snd t1) cs in (m_out s1 @ out, m_err s1 @ err))"
    by auto
  then show ?case unfolding step using o r(3)
    by (intro exI[of _ s'] exI[of _ t']) (cases c; auto simp: Let_def split: prod.splits if_splits)
qed

text \<open>
  Property C9. On every sequence of insertions and dumps, whichever allocations fail, \<^verbatim>\<open>main\<close> of
  \<^verbatim>\<open>traversal_without_recursion\<close> returns, each dump prints the keys in pre-order of the search tree and then in
  ascending order, failed insertions are reported and change nothing, and at the end no node is left in the heap: the
  threads the traversals put into the tree are all taken out again.
\<close>

theorem morris_main_correct:
  assumes "list_all mt_cmd_ok cs"
  shows "\<exists>h. mt_main fails (concat (map mt_line cs)) = Some (h, mt_banner @ fst (mt_spec fails 0 \<langle>\<rangle> cs), snd (mt_spec fails 0 \<langle>\<rangle> cs))
    \<and> cells h = Map.empty"
proof -
  let ?s = "\<lparr>m_heap = empty_heap fails, m_root = None, m_out = mt_banner, m_err = []\<rparr>"
  have b: "printf mt_banner [] = mt_banner" by (simp add: mt_banner_def printf.simps)
  have "holds_tree (m_heap ?s) (m_root ?s) \<langle>\<rangle>" by (simp add: holds_tree_def empty_heap_def)
  from loop_result[OF this _ assms] obtain s t where s: "mt_loop ?s (concat (map mt_line cs)) = Some s" "holds_tree (m_heap s) (m_root s) t"
    "(m_out s, m_err s) = (let (out, err) = mt_spec fails 0 \<langle>\<rangle> cs in (mt_banner @ out, err))"
    by (auto simp: empty_heap_def)
  have t: "seg (cells (m_heap s)) t None" "distinct (addresses t)" "m_root s = root_of t" "dom (cells (m_heap s)) = set (addresses t)"
    using s(2) by (auto simp: holds_tree_def)
  let ?h = "(m_heap s)\<lparr>cells := cells (m_heap s) |` (- set (addresses t))\<rparr>"
  have "cells ?h = Map.empty" using t(4) by (auto simp: restrict_map_def fun_eq_iff dom_def)
  moreover have "mt_main fails (concat (map mt_line cs)) = Some (?h, m_out s, m_err s)"
    unfolding mt_main_def b using s(1) destroy_result[OF t(1,2)] t(3) by simp
  ultimately show ?thesis using s(3) by (auto split: prod.splits)
qed

theorem morris_main_correct_witness:
  "\<exists>h. mt_main (\<lambda>n. n = 2) (concat (map mt_line [Ins 5, Ins 3, Ins 9, Dump]))
      = Some (h, mt_banner @ fst (mt_spec (\<lambda>n. n = 2) 0 \<langle>\<rangle> [Ins 5, Ins 3, Ins 9, Dump]), ''Out of memory; couldn't insert node.\<newline>'')
    \<and> cells h = Map.empty"
  using morris_main_correct[of "[Ins 5, Ins 3, Ins 9, Dump]" "\<lambda>n. n = 2"] by (simp add: in_int_def INT_MIN_def INT_MAX_def Let_def split_def)

end
