(* ===== verification/Expr_Syntax.thy ===== *)
theory Expr_Syntax
  imports C_Stdio
begin

text \<open>
  Arithmetic expressions as text, and the recursive descent over them that two programs of \<open>recursion_dp\<close>
  share. The grammar is the left-recursive one their comments start from; a syntax tree keeps its
  parentheses and the digits of its numerals, so that it stands for one text (\<open>etext\<close>).

  The programs implement the grammar by five functions on a cursor, \<open>expr\<close>, \<open>expr_r\<close>,
  \<open>term\<close>, \<open>term_r\<close> and \<open>factor\<close>, which call each other. The locale \<open>descent\<close>
  states what these functions do at each character, with the operations on values (\<open>num\<close>, \<open>bin\<close>) and the
  action at a closing parenthesis (\<open>par\<close>) as parameters; under it the text of a tree is parsed to the value
  of the tree (\<open>parse_text\<close>).
\<close>

subsection \<open>Trees\<close>

datatype aexpr = Single aterm | Add aexpr aterm | Sub aexpr aterm
  and aterm = Factor1 afactor | Mul aterm afactor | Div aterm afactor
  and afactor = Num bool string | Par aexpr

primrec etext :: "aexpr \<Rightarrow> string" and ttext :: "aterm \<Rightarrow> string" and ftext :: "afactor \<Rightarrow> string" where
  "etext (Single t) = ttext t"
| "etext (Add e t) = etext e @ CHR ''+'' # ttext t"
| "etext (Sub e t) = etext e @ CHR ''-'' # ttext t"
| "ttext (Factor1 f) = ftext f"
| "ttext (Mul t f) = ttext t @ CHR ''*'' # ftext f"
| "ttext (Div t f) = ttext t @ CHR ''/'' # ftext f"
| "ftext (Num neg ds) = (if neg then ''-'' else []) @ ds"
| "ftext (Par e) = CHR ''('' # etext e @ '')''"

text \<open>The numerals of a tree are made of the characters that satisfy \<open>P\<close>, one at least.\<close>

primrec wf_e :: "(char \<Rightarrow> bool) \<Rightarrow> aexpr \<Rightarrow> bool" and wf_t :: "(char \<Rightarrow> bool) \<Rightarrow> aterm \<Rightarrow> bool"
  and wf_f :: "(char \<Rightarrow> bool) \<Rightarrow> afactor \<Rightarrow> bool" where
  "wf_e P (Single t) \<longleftrightarrow> wf_t P t"
| "wf_e P (Add e t) \<longleftrightarrow> wf_e P e \<and> wf_t P t"
| "wf_e P (Sub e t) \<longleftrightarrow> wf_e P e \<and> wf_t P t"
| "wf_t P (Factor1 f) \<longleftrightarrow> wf_f P f"
| "wf_t P (Mul t f) \<longleftrightarrow> wf_t P t \<and> wf_f P f"
| "wf_t P (Div t f) \<longleftrightarrow> wf_t P t \<and> wf_f P f"
| "wf_f P (Num neg ds) \<longleftrightarrow> ds \<noteq> [] \<and> list_all P ds"
| "wf_f P (Par e) \<longleftrightarrow> wf_e P e"

definition num_val :: "bool \<Rightarrow> string \<Rightarrow> int" where
  "num_val neg ds = (if neg then - int (dec_val ds) else int (dec_val ds))"

text \<open>The binary operations of \<open>int\<close>; division truncates and is not defined by zero.\<close>

definition arith :: "char \<Rightarrow> int \<Rightarrow> int \<Rightarrow> int c" where
  "arith op l r =
     (if op = CHR ''+'' then c_int (l + r)
      else if op = CHR ''-'' then c_int (l - r)
      else if op = CHR ''*'' then c_int (l * r)
      else if r = 0 then None else c_int (cdiv l r))"

primrec evalue :: "aexpr \<Rightarrow> int c" and tvalue :: "aterm \<Rightarrow> int c" and fvalue :: "afactor \<Rightarrow> int c" where
  "evalue (Single t) = tvalue t"
| "evalue (Add e t) = do { v \<leftarrow> evalue e; w \<leftarrow> tvalue t; arith (CHR ''+'') v w }"
| "evalue (Sub e t) = do { v \<leftarrow> evalue e; w \<leftarrow> tvalue t; arith (CHR ''-'') v w }"
| "tvalue (Factor1 f) = fvalue f"
| "tvalue (Mul t f) = do { v \<leftarrow> tvalue t; w \<leftarrow> fvalue f; arith (CHR ''*'') v w }"
| "tvalue (Div t f) = do { v \<leftarrow> tvalue t; w \<leftarrow> fvalue f; arith (CHR ''/'') v w }"
| "fvalue (Num neg ds) = c_int (num_val neg ds)"
| "fvalue (Par e) = evalue e"

lemmas value_eval = arith_def c_int_def in_int_def INT_MIN_def INT_MAX_def num_val_def dec_val_def digit_val_def

subsection \<open>The actions of a parser along a tree\<close>

type_synonym ('v, 's) act = "string \<Rightarrow> nat \<Rightarrow> nat \<Rightarrow> 'v \<Rightarrow> 's \<Rightarrow> ('v \<times> 's) c"

definition no_act :: "('v, 's) act" where
  "no_act s l r v st = Some (v, st)"

primrec esem :: "(int \<Rightarrow> 'v) \<Rightarrow> (char \<Rightarrow> 'v \<Rightarrow> 'v \<Rightarrow> 'v c) \<Rightarrow> ('v, 's) act \<Rightarrow> string \<Rightarrow> aexpr \<Rightarrow> nat \<Rightarrow> 's \<Rightarrow> ('v \<times> 's) c"
  and tsem :: "(int \<Rightarrow> 'v) \<Rightarrow> (char \<Rightarrow> 'v \<Rightarrow> 'v \<Rightarrow> 'v c) \<Rightarrow> ('v, 's) act \<Rightarrow> string \<Rightarrow> aterm \<Rightarrow> nat \<Rightarrow> 's \<Rightarrow> ('v \<times> 's) c"
  and fsem :: "(int \<Rightarrow> 'v) \<Rightarrow> (char \<Rightarrow> 'v \<Rightarrow> 'v \<Rightarrow> 'v c) \<Rightarrow> ('v, 's) act \<Rightarrow> string \<Rightarrow> afactor \<Rightarrow> nat \<Rightarrow> 's \<Rightarrow> ('v \<times> 's) c"
where
  "esem num bin par s (Single t) p st = tsem num bin par s t p st"
| "esem num bin par s (Add e t) p st =
     do { (v, st1) \<leftarrow> esem num bin par s e p st;
          (w, st2) \<leftarrow> tsem num bin par s t (p + length (etext e) + 1) st1;
          u \<leftarrow> bin (CHR ''+'') v w; Some (u, st2) }"
| "esem num bin par s (Sub e t) p st =
     do { (v, st1) \<leftarrow> esem num bin par s e p st;
          (w, st2) \<leftarrow> tsem num bin par s t (p + length (etext e) + 1) st1;
          u \<leftarrow> bin (CHR ''-'') v w; Some (u, st2) }"
| "tsem num bin par s (Factor1 f) p st = fsem num bin par s f p st"
| "tsem num bin par s (Mul t f) p st =
     do { (v, st1) \<leftarrow> tsem num bin par s t p st;
          (w, st2) \<leftarrow> fsem num bin par s f (p + length (ttext t) + 1) st1;
          u \<leftarrow> bin (CHR ''*'') v w; Some (u, st2) }"
| "tsem num bin par s (Div t f) p st =
     do { (v, st1) \<leftarrow> tsem num bin par s t p st;
          (w, st2) \<leftarrow> fsem num bin par s f (p + length (ttext t) + 1) st1;
          u \<leftarrow> bin (CHR ''/'') v w; Some (u, st2) }"
| "fsem num bin par s (Num neg ds) p st = do { v \<leftarrow> c_int (num_val neg ds); Some (num v, st) }"
| "fsem num bin par s (Par e) p st =
     do { (v, st1) \<leftarrow> esem num bin par s e (p + 1) st; par s p (p + 1 + length (etext e)) v st1 }"

subsection \<open>Recursive descent\<close>

text \<open>Which of the five functions is called, with its last argument.\<close>

datatype 'v call = Expr | Expr_r 'v | Term | Term_r 'v | Factor

text \<open>A character of a C string, the terminating one included.\<close>

definition ch :: "string \<Rightarrow> nat \<Rightarrow> char c" where
  "ch s i = (if i < length s then Some (s ! i) else if i = length s then Some (CHR 0x00) else None)"

definition is_add :: "char \<Rightarrow> bool" where "is_add x \<longleftrightarrow> x = CHR ''+'' \<or> x = CHR ''-''"
definition is_mul :: "char \<Rightarrow> bool" where "is_mul x \<longleftrightarrow> x = CHR ''*'' \<or> x = CHR ''/''"

lemma op_simps [simp]:
  "is_add (CHR ''+'')" "is_add (CHR ''-'')" "\<not> is_add (CHR ''*'')" "\<not> is_add (CHR ''/'')" "\<not> is_add (CHR '')'')" "\<not> is_add (CHR 0x00)"
  "\<not> is_mul (CHR ''+'')" "\<not> is_mul (CHR ''-'')" "is_mul (CHR ''*'')" "is_mul (CHR ''/'')" "\<not> is_mul (CHR '')'')" "\<not> is_mul (CHR 0x00)"
  by (simp_all add: is_add_def is_mul_def)

text \<open>What may follow an expression, and what may follow a term or a factor.\<close>

definition follow_e :: "string \<Rightarrow> bool" where
  "follow_e b \<longleftrightarrow> (b = [] \<or> is_add (hd b) \<or> hd b = CHR '')'')"

definition follow_t :: "string \<Rightarrow> bool" where
  "follow_t b \<longleftrightarrow> follow_e b \<or> is_mul (hd b)"

lemma follow_simps [simp]:
  "follow_e []" "follow_e (x # b) \<longleftrightarrow> is_add x \<or> x = CHR '')''"
  "follow_t []" "follow_t (x # b) \<longleftrightarrow> is_add x \<or> is_mul x \<or> x = CHR '')''"
  by (auto simp: follow_e_def follow_t_def)

lemma follow_et: "follow_e b \<Longrightarrow> follow_t b"
  by (simp add: follow_t_def)

lemma follow_no_digit: "follow_t b \<Longrightarrow> no_digit b"
  by (cases b) (auto simp: is_add_def is_mul_def isdigit_def)

lemma ch_append [simp]: "ch (a @ b) (length a) = Some (if b = [] then CHR 0x00 else hd b)"
  by (simp add: ch_def nth_append hd_conv_nth)

lemma ch_at: "s = a @ b \<Longrightarrow> n = length a \<Longrightarrow> ch s n = Some (if b = [] then CHR 0x00 else hd b)"
  by simp

text \<open>A numeral is converted up to its last digit.\<close>

lemma scan_num_digits:
  assumes "ds \<noteq> []" "list_all isdigit ds" "no_digit r"
  shows "scan_num ((if neg then ''-'' else []) @ ds @ r) = (Some (num_val neg ds), r)"
proof -
  obtain d ds' where ds: "ds = d # ds'" "isdigit d" using assms(1,2) by (cases ds) auto
  then have d: "\<not> isspace d" "d \<noteq> CHR ''-''" "d \<noteq> CHR ''+''" by (auto simp: isdigit_def isspace_def)
  have "takeWhile isdigit (ds @ r) = ds" "dropWhile isdigit (ds @ r) = r"
    using assms(2,3) by (cases r; simp add: takeWhile_append2 dropWhile_append2 list_all_iff takeWhile_eq_all_conv)+
  moreover have "skip_ws (ds @ r) = ds @ r" using ds(1) d(1) by (simp add: skip_ws_Cons)
  ultimately show ?thesis using ds(1) d by (simp add: scan_num_def num_val_def Let_def)
qed

lemma sscanf_digits:
  assumes "ds \<noteq> []" "list_all isdigit ds" "no_digit r" "CHR 0x00 \<notin> set r"
  shows "sscanf ((if neg then ''-'' else []) @ ds @ r) ''%d%n'' =
    map_option (\<lambda>v. \<lparr>sr_args = [IntA v], sr_eof = False, sr_rest = r\<rparr>) (c_int (num_val neg ds))"
proof -
  have "CHR 0x00 \<notin> set ds" using assms(2) by (auto simp: list_all_iff isdigit_def)
  then have "CHR 0x00 \<notin> set ((if neg then ''-'' else []) @ ds @ r)" using assms(4) by simp
  then show ?thesis unfolding sscanf_def by (simp add: cstr_line scanf_eval scan_num_digits[OF assms(1-3)] c_int_def)
qed

lemma text_chars:
  "wf_e P e \<Longrightarrow> x \<in> set (etext e) \<Longrightarrow> P x \<or> x \<in> set ''+-*/()''"
  "wf_t P t \<Longrightarrow> x \<in> set (ttext t) \<Longrightarrow> P x \<or> x \<in> set ''+-*/()''"
  "wf_f P f \<Longrightarrow> x \<in> set (ftext f) \<Longrightarrow> P x \<or> x \<in> set ''+-*/()''"
  by (induction e and t and f) (auto simp: list_all_iff)

lemma text_no_nul: "wf_e isdigit e \<Longrightarrow> CHR 0x00 \<notin> set (etext e)"
  using text_chars(1)[of isdigit e "CHR 0x00"] by (auto simp: isdigit_def)

lemma text_nonempty: "wf_e P e \<Longrightarrow> etext e \<noteq> []" "wf_t P t \<Longrightarrow> ttext t \<noteq> []" "wf_f P f \<Longrightarrow> ftext f \<noteq> []"
  by (induction e and t and f) auto

locale descent =
  fixes parse :: "string \<Rightarrow> 'v call \<Rightarrow> nat \<Rightarrow> 's \<Rightarrow> ('v \<times> nat \<times> 's) c"
    and num :: "int \<Rightarrow> 'v" and bin :: "char \<Rightarrow> 'v \<Rightarrow> 'v \<Rightarrow> 'v c" and par :: "('v, 's) act"
  assumes expr: "parse s Expr c st = do { (v, c', st') \<leftarrow> parse s Term c st; parse s (Expr_r v) c' st' }"
    and expr_op: "ch s c = Some x \<Longrightarrow> is_add x \<Longrightarrow> parse s (Expr_r v) c st =
      do { (w, c', st') \<leftarrow> parse s Term (c + 1) st; u \<leftarrow> bin x v w; parse s (Expr_r u) c' st' }"
    and expr_end: "ch s c = Some x \<Longrightarrow> \<not> is_add x \<Longrightarrow> parse s (Expr_r v) c st = Some (v, c, st)"
    and trm: "parse s Term c st = do { (v, c', st') \<leftarrow> parse s Factor c st; parse s (Term_r v) c' st' }"
    and trm_op: "ch s c = Some x \<Longrightarrow> is_mul x \<Longrightarrow> parse s (Term_r v) c st =
      do { (w, c', st') \<leftarrow> parse s Factor (c + 1) st; u \<leftarrow> bin x v w; parse s (Term_r u) c' st' }"
    and trm_end: "ch s c = Some x \<Longrightarrow> \<not> is_mul x \<Longrightarrow> parse s (Term_r v) c st = Some (v, c, st)"
    and factor_par: "ch s c = Some (CHR ''('') \<Longrightarrow> parse s Factor c st =
      do { (v, c', st') \<leftarrow> parse s Expr (c + 1) st; y \<leftarrow> ch s c'; _ \<leftarrow> c_assert (y = CHR '')'');
           (u, st2) \<leftarrow> par s c c' v st'; Some (u, c' + 1, st2) }"
    and factor_num: "ch s c = Some x \<Longrightarrow> x \<noteq> CHR ''('' \<Longrightarrow> parse s Factor c st =
      do { r \<leftarrow> sscanf (drop c s) ''%d%n'';
           if scan_ret r = 1
           then Some (num (arg_int (sr_args r ! 0)), c + (length (cstr (drop c s)) - length (sr_rest r)), st)
           else None }"
begin

lemma factor_text_num:
  assumes "wf_f isdigit (Num neg ds)" "s = a @ ftext (Num neg ds) @ b" "follow_t b" "CHR 0x00 \<notin> set s"
  shows "parse s Factor (length a) st =
    do { (v, st') \<leftarrow> fsem num bin par s (Num neg ds) (length a) st; Some (v, length a + length (ftext (Num neg ds)), st') }"
proof -
  obtain d ds' where ds: "ds = d # ds'" "isdigit d" using assms(1) by (cases ds) auto
  obtain x where x: "ch s (length a) = Some x" "x \<noteq> CHR ''(''"
    using ds assms(2) by (cases neg; cases "d = CHR ''(''") (auto simp: isdigit_def)
  have z: "CHR 0x00 \<notin> set b" "CHR 0x00 \<notin> set (drop (length a) s)" using assms(2,4) by auto
  have "sscanf (drop (length a) s) ''%d%n'' = map_option (\<lambda>v. \<lparr>sr_args = [IntA v], sr_eof = False, sr_rest = b\<rparr>) (c_int (num_val neg ds))"
    using sscanf_digits[of ds b neg] assms(1,2) z(1) follow_no_digit[OF assms(3)] by simp
  then show ?thesis using factor_num[OF x] cstr_line[OF z(2)] assms(2) by (simp add: c_int_def)
qed

lemma term_stops:
  assumes "s = a @ x @ b" "follow_e b"
  shows "parse s (Term_r v) (length a + length x) st = Some (v, length a + length x, st)"
proof (rule trm_end)
  show "ch s (length a + length x) = Some (if b = [] then CHR 0x00 else hd b)"
    using assms(1) ch_at[of s "a @ x" b] by simp
qed (use assms(2) in \<open>auto simp: follow_e_def is_add_def is_mul_def\<close>)

theorem parse_text:
  "wf_e isdigit e \<Longrightarrow> s = a @ etext e @ b \<Longrightarrow> follow_e b \<Longrightarrow> CHR 0x00 \<notin> set s \<Longrightarrow> parse s Expr (length a) st =
     do { (v, st') \<leftarrow> esem num bin par s e (length a) st; parse s (Expr_r v) (length a + length (etext e)) st' }"
  "wf_t isdigit t \<Longrightarrow> s = a @ ttext t @ b \<Longrightarrow> follow_t b \<Longrightarrow> CHR 0x00 \<notin> set s \<Longrightarrow> parse s Term (length a) st =
     do { (v, st') \<leftarrow> tsem num bin par s t (length a) st; parse s (Term_r v) (length a + length (ttext t)) st' }"
  "wf_f isdigit f \<Longrightarrow> s = a @ ftext f @ b \<Longrightarrow> follow_t b \<Longrightarrow> CHR 0x00 \<notin> set s \<Longrightarrow> parse s Factor (length a) st =
     do { (v, st') \<leftarrow> fsem num bin par s f (length a) st; Some (v, length a + length (ftext f), st') }"
proof (induction e and t and f arbitrary: a b st and a b st and a b st)
  case (Single t)
  then show ?case using term_stops[of s a "ttext t" b] by (subst expr) (simp add: bind_assoc split_def follow_et)
next
  case (Add e t)
  have s: "s = (a @ etext e @ ''+'') @ ttext t @ b" using Add.prems by simp
  have c: "ch s (length a + length (etext e)) = Some (CHR ''+'')"
    using Add.prems(2) ch_at[of s "a @ etext e"] by simp
  show ?case
    using Add.IH(1)[of a "CHR ''+'' # ttext t @ b" st] Add.IH(2)[OF _ s] Add.prems expr_op[OF c] term_stops[OF s]
    by (simp add: split_def bind_assoc add.assoc follow_et)
next
  case (Sub e t)
  have s: "s = (a @ etext e @ ''-'') @ ttext t @ b" using Sub.prems by simp
  have c: "ch s (length a + length (etext e)) = Some (CHR ''-'')"
    using Sub.prems(2) ch_at[of s "a @ etext e"] by simp
  show ?case
    using Sub.IH(1)[of a "CHR ''-'' # ttext t @ b" st] Sub.IH(2)[OF _ s] Sub.prems expr_op[OF c] term_stops[OF s]
    by (simp add: split_def bind_assoc add.assoc follow_et)
next
  case (Factor1 f)
  then show ?case by (subst trm) (simp add: bind_assoc split_def)
next
  case (Mul t f)
  have s: "s = (a @ ttext t @ ''*'') @ ftext f @ b" using Mul.prems by simp
  have c: "ch s (length a + length (ttext t)) = Some (CHR ''*'')"
    using Mul.prems(2) ch_at[of s "a @ ttext t"] by simp
  show ?case
    using Mul.IH(1)[of a "CHR ''*'' # ftext f @ b" st] Mul.IH(2)[OF _ s] Mul.prems trm_op[OF c]
    by (simp add: split_def bind_assoc add.assoc)
next
  case (Div t f)
  have s: "s = (a @ ttext t @ ''/'') @ ftext f @ b" using Div.prems by simp
  have c: "ch s (length a + length (ttext t)) = Some (CHR ''/'')"
    using Div.prems(2) ch_at[of s "a @ ttext t"] by simp
  show ?case
    using Div.IH(1)[of a "CHR ''/'' # ftext f @ b" st] Div.IH(2)[OF _ s] Div.prems trm_op[OF c]
    by (simp add: split_def bind_assoc add.assoc)
next
  case (Num neg ds)
  then show ?case using factor_text_num by blast
next
  case (Par e)
  have s: "s = (a @ ''('') @ etext e @ '')'' @ b" using Par.prems by simp
  have c: "ch s (length a) = Some (CHR ''('')" "ch s (length a + 1 + length (etext e)) = Some (CHR '')'')"
    using Par.prems(2) ch_at[of s "a @ CHR ''('' # etext e" "'')'' @ b"] by simp_all
  show ?case
    using Par.IH[of "a @ ''(''" "'')'' @ b" st] Par.prems s factor_par[OF c(1), of st]
      expr_end[OF c(2)] c(2)
    by (simp add: split_def bind_assoc)
qed

lemma parse_whole:
  assumes "wf_e isdigit e"
  shows "parse (etext e) Expr 0 st = do { (v, st') \<leftarrow> esem num bin par (etext e) e 0 st; Some (v, length (etext e), st') }"
proof -
  have "parse (etext e) (Expr_r v) (length (etext e)) st' = Some (v, length (etext e), st')" for v st'
    by (rule expr_end[of _ _ "CHR 0x00"]) (simp_all add: ch_def)
  then show ?thesis using parse_text(1)[OF assms, of "etext e" "[]" "[]" st] text_no_nul[OF assms] by simp
qed

end

end
