(* ===== verification/Magic_Numbers.thy ===== *)
theory Magic_Numbers
  imports Expr_Syntax
begin

text \<open>
  \<open>recursion_dp/magic_numbers/solution_followup.c\<close>: finds the digits from 1 to 9 that solve an equation
  with missing digits, by trying all of them. The expression is evaluated by recursive descent; the five functions
  that call each other are one definition, \<open>mg_parse\<close>, with the function that is called as an argument, and a
  character after the end of the string, an \<open>int\<close> that overflows or a number that is not there give \<open>None\<close>. Whether
  \<open>strdup\<close> has memory is the argument \<open>mem\<close>.
\<close>

subsection \<open>The expression parser\<close>

partial_function (option) mg_parse :: "string \<Rightarrow> int call \<Rightarrow> nat \<Rightarrow> (int \<times> nat) option" where
  "mg_parse expr_str k cursor =
     (case k of
        Expr \<Rightarrow> do { (t, c) \<leftarrow> mg_parse expr_str Term cursor; mg_parse expr_str (Expr_r t) c }
      | Expr_r res_so_far \<Rightarrow>
          do { x \<leftarrow> ch expr_str cursor;
               if x = CHR ''+'' \<or> x = CHR ''-''
               then do { (term_val, c) \<leftarrow> mg_parse expr_str Term (cursor + 1);
                         r \<leftarrow> (if x = CHR ''+'' then c_int (res_so_far + term_val) else c_int (res_so_far - term_val));
                         mg_parse expr_str (Expr_r r) c }
               else Some (res_so_far, cursor) }
      | Term \<Rightarrow> do { (f, c) \<leftarrow> mg_parse expr_str Factor cursor; mg_parse expr_str (Term_r f) c }
      | Term_r res_so_far \<Rightarrow>
          do { x \<leftarrow> ch expr_str cursor;
               if x = CHR ''*'' \<or> x = CHR ''/''
               then do { (factor_val, c) \<leftarrow> mg_parse expr_str Factor (cursor + 1);
                         r \<leftarrow> (if x = CHR ''*'' then c_int (res_so_far * factor_val)
                              else if factor_val = 0 then None else c_int (cdiv res_so_far factor_val));
                         mg_parse expr_str (Term_r r) c }
               else Some (res_so_far, cursor) }
      | Factor \<Rightarrow>
          do { x \<leftarrow> ch expr_str cursor;
               if x = CHR ''(''
               then do { (val, c) \<leftarrow> mg_parse expr_str Expr (cursor + 1);
                         y \<leftarrow> ch expr_str c;
                         _ \<leftarrow> c_assert (y = CHR '')'');
                         Some (val, c + 1) }
               else do { r \<leftarrow> sscanf (drop cursor expr_str) ''%d%n'';
                         if scan_ret r = 1
                         then Some (arg_int (sr_args r ! 0),
                                    cursor + (length (cstr (drop cursor expr_str)) - length (sr_rest r)))
                         else None } })"

subsection \<open>Trying the digits\<close>

function init_possibilities :: "nat \<Rightarrow> int list \<Rightarrow> nat \<Rightarrow> int list c" where
  "init_possibilities n arr i = (if i < n then do { a \<leftarrow> wr arr i 1; init_possibilities n a (i + 1) } else Some arr)"
  by pat_completeness auto
termination by (relation "measure (\<lambda>(n, arr, i). n - i)") auto

declare init_possibilities.simps [simp del]

text \<open>The \<open>while\<close> loop of \<open>next_possibility\<close>; the index of the source is one less than \<open>n\<close>.\<close>

fun next_loop :: "nat \<Rightarrow> int list \<Rightarrow> (nat \<times> int list) c" where
  "next_loop 0 arr = Some (0, arr)"
| "next_loop (Suc i) arr = do { x \<leftarrow> rd arr i; if x = 9 then do { a \<leftarrow> wr arr i 1; next_loop i a } else Some (Suc i, arr) }"

definition next_possibility :: "nat \<Rightarrow> int list \<Rightarrow> (bool \<times> int list) c" where
  "next_possibility n arr =
     do { (i, a) \<leftarrow> next_loop n arr;
          if i = 0 then Some (False, a)
          else do { x \<leftarrow> rd a (i - 1); a' \<leftarrow> wr a (i - 1) (x + 1); Some (True, a') } }"

definition digit_of :: "int \<Rightarrow> char" where
  "digit_of v = char_of (nat (v + 48))"

function generate :: "string \<Rightarrow> int list \<Rightarrow> nat \<Rightarrow> nat \<Rightarrow> string c" where
  "generate generated vars expr_i var_i =
     do { x \<leftarrow> ch generated expr_i;
          if x \<noteq> CHR ''=''
          then if x = CHR ''_''
               then do { v \<leftarrow> rd vars var_i;
                         g \<leftarrow> wr generated expr_i (digit_of v);
                         generate g vars (expr_i + 1) (var_i + 1) }
               else generate generated vars (expr_i + 1) var_i
          else Some (take expr_i generated) }"
  by pat_completeness auto
termination
  by (relation "measure (\<lambda>(g, vars, i, j). length g + 1 - i)") (auto simp: ch_def c_Some_iff split: if_splits)

declare generate.simps [simp del]

definition mg_eval_expr :: "bool \<Rightarrow> string \<Rightarrow> int list \<Rightarrow> int \<Rightarrow> bool c" where
  "mg_eval_expr mem expr_str vars target =
     do { _ \<leftarrow> c_assert mem;
          generated \<leftarrow> generate expr_str vars 0 0;
          (res, _) \<leftarrow> mg_parse generated Expr 0;
          Some (res = target) }"

function print_solution :: "string \<Rightarrow> int list \<Rightarrow> nat \<Rightarrow> nat \<Rightarrow> string c" where
  "print_solution expr_str vars expr_i var_i =
     do { x \<leftarrow> ch expr_str expr_i;
          if x \<noteq> CHR ''=''
          then if x = CHR ''_''
               then do { v \<leftarrow> rd vars var_i;
                         out \<leftarrow> print_solution expr_str vars (expr_i + 1) (var_i + 1);
                         Some (digit_of v # out) }
               else do { out \<leftarrow> print_solution expr_str vars (expr_i + 1) var_i; Some (x # out) }
          else Some (printf ''%s\<newline>'' [StrA (cstr (drop expr_i expr_str))]) }"
  by pat_completeness auto
termination
  by (relation "measure (\<lambda>(s, vars, i, j). length s + 1 - i)") (auto simp: ch_def split: if_splits)

declare print_solution.simps [simp del]

function count_vars :: "string \<Rightarrow> nat \<Rightarrow> nat \<Rightarrow> (nat \<times> nat) c" where
  "count_vars expr_str i vars_sz =
     do { x \<leftarrow> ch expr_str i;
          if x \<noteq> CHR ''='' then count_vars expr_str (i + 1) (if x = CHR ''_'' then vars_sz + 1 else vars_sz)
          else Some (i, vars_sz) }"
  by pat_completeness auto
termination by (relation "measure (\<lambda>(s, i, n). length s + 1 - i)") (auto simp: ch_def split: if_splits)

declare count_vars.simps [simp del]

partial_function (option) try_loop :: "bool \<Rightarrow> string \<Rightarrow> int \<Rightarrow> nat \<Rightarrow> int list \<Rightarrow> nat \<Rightarrow> (nat \<times> string) option" where
  "try_loop mem expr_str target vars_sz vars matches =
     do { (more, a) \<leftarrow> next_possibility vars_sz vars;
          if more
          then do { hit \<leftarrow> mg_eval_expr mem expr_str a target;
                    out \<leftarrow> (if hit then print_solution expr_str a 0 0 else Some []);
                    (m, out') \<leftarrow> try_loop mem expr_str target vars_sz a ((matches + of_bool hit) mod 2 ^ 32);
                    Some (m, out @ out') }
          else Some (matches, []) }"

text \<open>
  The result and the text printed. The target is not initialised when no number follows \<open>=\<close>.
\<close>

definition magic_numbers :: "bool \<Rightarrow> string \<Rightarrow> (nat \<times> string) c" where
  "magic_numbers mem expr_str =
     do { (i, vars_sz) \<leftarrow> count_vars expr_str 0 0;
          r \<leftarrow> sscanf (drop (i + 1) expr_str) ''%d'';
          if scan_ret r \<noteq> 1 then None
          else do {
            let target = arg_int (sr_args r ! 0);
            if vars_sz = 0
            then do { hit \<leftarrow> mg_eval_expr mem expr_str [] target;
                      if hit then do { out \<leftarrow> print_solution expr_str [] 0 0; Some (1, out) } else Some (0, []) }
            else do { vars \<leftarrow> init_possibilities vars_sz (replicate vars_sz 0) 0;
                      hit \<leftarrow> mg_eval_expr mem expr_str vars target;
                      out \<leftarrow> (if hit then print_solution expr_str vars 0 0 else Some []);
                      (matches, out') \<leftarrow> try_loop mem expr_str target vars_sz vars 0;
                      Some (matches, out @ out') } } }"

text \<open>The loop of \<open>main\<close>; the buffer has 512 bytes.\<close>

function magic_loop :: "bool \<Rightarrow> string \<Rightarrow> string c" where
  "magic_loop mem s =
     do { r \<leftarrow> scanf ''%s'' s;
          _ \<leftarrow> c_assert (\<forall>a\<in>set (sr_args r). length (arg_str a) < 512);
          if scan_ret r = 1
          then do { (found, out) \<leftarrow> magic_numbers mem (cstr (arg_str (sr_args r ! 0)));
                    out' \<leftarrow> magic_loop mem (sr_rest r);
                    Some (out @ (if found = 0 then printf ''No matches found.\<newline>'' []
                                 else printf ''Total: %u\<newline>'' [IntA (int found)])
                          @ printf ''> '' [] @ out') }
          else Some [] }"
  by pat_completeness auto
termination by (relation "measure (\<lambda>(mem, s). length s)") (auto dest!: scanf_ret_less[of "''%s''"])

declare magic_loop.simps [simp del]

definition magic_main :: "bool \<Rightarrow> string \<Rightarrow> string c" where
  "magic_main mem input =
     do { out \<leftarrow> magic_loop mem input;
          Some (printf ''Enter an expression pattern to find matches.\<newline>'' [] @ printf ''> '' [] @ out) }"

end
