(* ===== verification/Magic_Numbers_Proofs.thy ===== *)
theory Magic_Numbers_Proofs
  imports Magic_Numbers
begin

text \<open>
  The program of \<open>magic_numbers/solution_followup.c\<close> prints exactly the solutions of every equation, in the order of
  their digits; what it prints as their number leaves out the first candidate.
\<close>

subsection \<open>The parser evaluates expressions\<close>

interpretation mg: descent "\<lambda>s k c (st :: unit). map_option (\<lambda>(v, c'). (v, c', st)) (mg_parse s k c)"
  "\<lambda>v. v" arith no_act
proof (unfold_locales, goal_cases)
  case (1 s c st)
  show ?case by (subst mg_parse.simps) (simp add: bind_map_option map_option_bind split_def comp_def)
next
  case (2 s c x v st)
  then show ?case by (subst mg_parse.simps) (auto simp: arith_def is_add_def bind_map_option map_option_bind split_def comp_def)
next
  case (3 s c x v st)
  then show ?case by (subst mg_parse.simps) (simp add: is_add_def)
next
  case (4 s c st)
  show ?case by (subst mg_parse.simps) (simp add: bind_map_option map_option_bind split_def comp_def)
next
  case (5 s c x v st)
  then show ?case by (subst mg_parse.simps) (auto simp: arith_def is_mul_def bind_map_option map_option_bind split_def comp_def cong: if_cong)
next
  case (6 s c x v st)
  then show ?case by (subst mg_parse.simps) (simp add: is_mul_def)
next
  case (7 s c st)
  then show ?case by (subst mg_parse.simps) (simp add: no_act_def bind_map_option map_option_bind split_def comp_def)
next
  case (8 s c x st)
  then show ?case by (subst mg_parse.simps) (simp add: map_option_bind comp_def if_distrib cong: if_cong)
qed

lemma mg_sem:
  "esem (\<lambda>v. v) arith no_act s e p st = map_option (\<lambda>v. (v, st)) (evalue e)"
  "tsem (\<lambda>v. v) arith no_act s t p st = map_option (\<lambda>v. (v, st)) (tvalue t)"
  "fsem (\<lambda>v. v) arith no_act s f p st = map_option (\<lambda>v. (v, st)) (fvalue f)"
  by (induction e and t and f arbitrary: p st and p st and p st)
     (simp_all add: no_act_def bind_map_option map_option_bind comp_def map_conv_bind_option)

lemma mg_parse_value:
  assumes "wf_e isdigit e"
  shows "mg_parse (etext e) Expr 0 = map_option (\<lambda>v. (v, length (etext e))) (evalue e)"
  using mg.parse_whole[OF assms, of "()"]
  by (cases "mg_parse (etext e) Expr 0"; cases "evalue e") (auto simp: mg_sem)

subsection \<open>Patterns\<close>

definition pat_char :: "char \<Rightarrow> bool" where
  "pat_char x \<longleftrightarrow> isdigit x \<or> x = CHR ''_''"

definition holes :: "string \<Rightarrow> nat" where
  "holes s = length (filter (\<lambda>x. x = CHR ''_'') s)"

fun fill :: "string \<Rightarrow> int list \<Rightarrow> string" where
  "fill [] vs = []"
| "fill (x # s) vs = (if x = CHR ''_'' then digit_of (hd vs) # fill s (tl vs) else x # fill s vs)"

text \<open>A tree with holes in its numerals, filled from left to right.\<close>

primrec fill_e :: "aexpr \<Rightarrow> int list \<Rightarrow> aexpr" and fill_t :: "aterm \<Rightarrow> int list \<Rightarrow> aterm" and fill_f :: "afactor \<Rightarrow> int list \<Rightarrow> afactor" where
  "fill_e (Single t) vs = Single (fill_t t vs)"
| "fill_e (Add e t) vs = Add (fill_e e (take (holes (etext e)) vs)) (fill_t t (drop (holes (etext e)) vs))"
| "fill_e (Sub e t) vs = Sub (fill_e e (take (holes (etext e)) vs)) (fill_t t (drop (holes (etext e)) vs))"
| "fill_t (Factor1 f) vs = Factor1 (fill_f f vs)"
| "fill_t (Mul t f) vs = Mul (fill_t t (take (holes (ttext t)) vs)) (fill_f f (drop (holes (ttext t)) vs))"
| "fill_t (Div t f) vs = Div (fill_t t (take (holes (ttext t)) vs)) (fill_f f (drop (holes (ttext t)) vs))"
| "fill_f (Num neg ds) vs = Num neg (fill ds vs)"
| "fill_f (Par e) vs = Par (fill_e e vs)"

lemma holes_simps [simp]: "holes [] = 0" "holes (x # s) = (if x = CHR ''_'' then Suc (holes s) else holes s)" "holes (s @ t) = holes s + holes t"
  by (simp_all add: holes_def)

lemma fill_append: "fill (s @ t) vs = fill s (take (holes s) vs) @ fill t (drop (holes s) vs)"
proof (induction s vs rule: fill.induct)
  case (2 x s vs)
  then show ?case by (cases vs) auto
qed simp

lemma fill_text:
  "length vs = holes (etext e) \<Longrightarrow> etext (fill_e e vs) = fill (etext e) vs"
  "length vs = holes (ttext t) \<Longrightarrow> ttext (fill_t t vs) = fill (ttext t) vs"
  "length vs = holes (ftext f) \<Longrightarrow> ftext (fill_f f vs) = fill (ftext f) vs"
  by (induction e and t and f arbitrary: vs and vs and vs) (simp_all add: fill_append)

definition digits_ok :: "int list \<Rightarrow> bool" where
  "digits_ok vs \<longleftrightarrow> (\<forall>v\<in>set vs. 1 \<le> v \<and> v \<le> 9)"

lemma digit_of_digit: "1 \<le> v \<Longrightarrow> v \<le> 9 \<Longrightarrow> isdigit (digit_of v)"
  by (simp add: isdigit_def digit_of_def nat_le_iff le_nat_iff)

lemma fill_digits: "list_all pat_char s \<Longrightarrow> length vs = holes s \<Longrightarrow> digits_ok vs \<Longrightarrow> list_all isdigit (fill s vs)"
proof (induction s vs rule: fill.induct)
  case (2 x s vs)
  then show ?case by (cases vs) (auto simp: digits_ok_def pat_char_def digit_of_digit)
qed simp

lemma digits_ok_split: "digits_ok vs \<Longrightarrow> digits_ok (take n vs)" "digits_ok vs \<Longrightarrow> digits_ok (drop n vs)"
  by (auto simp: digits_ok_def dest: in_set_takeD in_set_dropD)

lemma fill_wf:
  "wf_e pat_char e \<Longrightarrow> length vs = holes (etext e) \<Longrightarrow> digits_ok vs \<Longrightarrow> wf_e isdigit (fill_e e vs)"
  "wf_t pat_char t \<Longrightarrow> length vs = holes (ttext t) \<Longrightarrow> digits_ok vs \<Longrightarrow> wf_t isdigit (fill_t t vs)"
  "wf_f pat_char f \<Longrightarrow> length vs = holes (ftext f) \<Longrightarrow> digits_ok vs \<Longrightarrow> wf_f isdigit (fill_f f vs)"
proof (induction e and t and f arbitrary: vs and vs and vs)
  case (Num neg ds)
  then have "fill ds vs \<noteq> []" by (cases ds) auto
  then show ?case using Num fill_digits[of ds vs] by (auto split: if_splits)
qed (simp_all add: digits_ok_split)

subsection \<open>The passes over an equation\<close>

lemma generate_eq:
  "CHR ''='' \<notin> set p \<Longrightarrow> holes p \<le> length vs - j \<Longrightarrow> generate (a @ p @ CHR ''='' # b) vs (length a) j = Some (a @ fill p (drop j vs))"
proof (induction p arbitrary: a j)
  case Nil
  then show ?case by (subst generate.simps) simp
next
  case (Cons x p)
  have ne: "x \<noteq> CHR ''=''" using Cons.prems(1) by auto
  show ?case
  proof (cases "x = CHR ''_''")
    case True
    then have j: "j < length vs" using Cons.prems(2) by simp
    then have "hd (drop j vs) = vs ! j" "tl (drop j vs) = drop (Suc j) vs" by (simp_all add: hd_drop_conv_nth drop_Suc tl_drop)
    then show ?thesis using True j Cons.prems Cons.IH[where a = "a @ [digit_of (vs ! j)]" and j = "Suc j"]
      by (subst generate.simps) (simp add: list_update_append)
  next
    case False
    then show ?thesis using Cons.prems ne Cons.IH[where a = "a @ [x]" and j = j] by (subst generate.simps) simp
  qed
qed

lemma print_eq:
  "CHR ''='' \<notin> set p \<Longrightarrow> CHR 0x00 \<notin> set b \<Longrightarrow> holes p \<le> length vs - j \<Longrightarrow>
   print_solution (a @ p @ CHR ''='' # b) vs (length a) j = Some (fill p (drop j vs) @ CHR ''='' # b @ ''\<newline>'')"
proof (induction p arbitrary: a j)
  case Nil
  then show ?case using cstr_line[of "CHR ''='' # b"] by (subst print_solution.simps) (simp add: show_conv_def)
next
  case (Cons x p)
  have ne: "x \<noteq> CHR ''=''" using Cons.prems(1) by auto
  show ?case
  proof (cases "x = CHR ''_''")
    case True
    then have j: "j < length vs" using Cons.prems(3) by simp
    then have "hd (drop j vs) = vs ! j" "tl (drop j vs) = drop (Suc j) vs" by (simp_all add: hd_drop_conv_nth drop_Suc tl_drop)
    then show ?thesis using True j Cons.prems Cons.IH[where a = "a @ [x]" and j = "Suc j"]
      by (subst print_solution.simps) simp
  next
    case False
    then show ?thesis using Cons.prems ne Cons.IH[where a = "a @ [x]" and j = j] by (subst print_solution.simps) simp
  qed
qed

lemma count_eq:
  "CHR ''='' \<notin> set p \<Longrightarrow> count_vars (a @ p @ CHR ''='' # b) (length a) n = Some (length a + length p, n + holes p)"
proof (induction p arbitrary: a n)
  case Nil
  then show ?case by (subst count_vars.simps) simp
next
  case (Cons x p)
  have "x \<noteq> CHR ''=''" using Cons.prems(1) by auto
  then show ?case using Cons.prems Cons.IH[where a = "a @ [x]" and n = "if x = CHR ''_'' then n + 1 else n"] by (subst count_vars.simps) simp
qed

subsection \<open>All candidates\<close>

fun assignments :: "nat \<Rightarrow> int list list" where
  "assignments 0 = [[]]"
| "assignments (Suc n) = concat (map (\<lambda>d. map ((#) d) (assignments n)) [1..9])"

text \<open>\<open>next_possibility\<close> steps from \<open>xs\<close> through \<open>zs\<close> and then reports the end.\<close>

fun steps_through :: "nat \<Rightarrow> int list \<Rightarrow> int list list \<Rightarrow> bool" where
  "steps_through n xs [] \<longleftrightarrow> next_possibility n xs = Some (False, replicate n 1)"
| "steps_through n xs (z # zs) \<longleftrightarrow> next_possibility n xs = Some (True, z) \<and> steps_through n z zs"

lemma next_loop_Cons:
  "i \<le> length xs \<Longrightarrow> next_loop (Suc i) (d # xs) =
     do { (j, a) \<leftarrow> next_loop i xs;
          if j = 0 then (if d = 9 then Some (0, 1 # a) else Some (1, d # a)) else Some (Suc j, d # a) }"
proof (induction i arbitrary: xs)
  case (Suc i)
  then show ?case using Suc.IH[of "xs[i := 1]"] by (subst next_loop.simps(2)) simp
qed simp

lemma next_loop_bound: "i \<le> length xs \<Longrightarrow> next_loop i xs = Some (j, a) \<Longrightarrow> j \<le> i \<and> length a = length xs"
proof (induction i arbitrary: xs)
  case (Suc i)
  then show ?case using Suc.IH[of "xs[i := 1]"] by (fastforce split: if_splits)
qed simp

lemma next_Cons:
  "next_possibility (Suc (length xs)) (d # xs) =
     do { (more, a) \<leftarrow> next_possibility (length xs) xs;
          if more then Some (True, d # a) else if d = 9 then Some (False, 1 # a) else Some (True, (d + 1) # a) }"
proof (cases "next_loop (length xs) xs")
  case None
  then show ?thesis by (simp add: next_possibility_def next_loop_Cons del: next_loop.simps)
next
  case (Some p)
  obtain j a where p: "p = (j, a)" by fastforce
  with Some have "j \<le> length a" using next_loop_bound[of "length xs" xs j a] by simp
  then show ?thesis using Some p by (cases j) (simp_all add: next_possibility_def next_loop_Cons del: next_loop.simps)
qed

lemma steps_length: "steps_through n xs zs \<Longrightarrow> length xs = n \<Longrightarrow> z \<in> set zs \<Longrightarrow> length z = n"
proof (induction zs arbitrary: xs)
  case (Cons y zs)
  have "length y = n"
    using Cons.prems(1,2) next_loop_bound[of n xs] by (auto simp: next_possibility_def c_Some_iff split: if_splits)
  then show ?case using Cons by auto
qed simp

lemma steps_Cons:
  assumes "steps_through n xs zs" "length xs = n"
    "if d = 9 then ws = [] else \<exists>ws'. ws = ((d + 1) # replicate n 1) # ws' \<and> steps_through (Suc n) ((d + 1) # replicate n 1) ws'"
  shows "steps_through (Suc n) (d # xs) (map ((#) d) zs @ ws)"
  using assms
proof (induction zs arbitrary: xs)
  case Nil
  then show ?case using next_Cons[of xs d] by (auto split: if_splits)
next
  case (Cons z zs)
  have "length z = n" using steps_length[OF Cons.prems(1,2)] by simp
  then show ?case using Cons next_Cons[of xs d] by simp
qed

lemma assignments_Cons: "assignments n = replicate n 1 # tl (assignments n)"
proof (induction n)
  case (Suc n)
  have "[1..9] = 1 # [2..9 :: int]" by (simp add: upto_rec1)
  then have "assignments (Suc n) = map ((#) 1) (assignments n) @ concat (map (\<lambda>d. map ((#) d) (assignments n)) [2..9])" by simp
  moreover have "map ((#) 1) (assignments n) = (1 # replicate n 1) # map ((#) 1) (tl (assignments n))"
    using Suc by (metis list.simps(9))
  ultimately show ?case by simp
qed simp

lemma assignments_from:
  assumes "steps_through n (replicate n 1) (tl (assignments n))" "1 \<le> d" "d \<le> 9"
  shows "\<exists>ws. concat (map (\<lambda>d. map ((#) d) (assignments n)) [d..9]) = (d # replicate n 1) # ws
    \<and> steps_through (Suc n) (d # replicate n 1) ws"
  using assms(2,3)
proof (induction "nat (9 - d)" arbitrary: d)
  case 0
  then have d: "d = 9" by simp
  have "concat (map (\<lambda>d. map ((#) d) (assignments n)) [9..9]) = map ((#) 9) (replicate n 1 # tl (assignments n))"
    using assignments_Cons[of n] by simp
  then show ?case using d steps_Cons[OF assms(1), of 9 "[]"] by (intro exI[of _ "map ((#) 9) (tl (assignments n))"]) simp
next
  case (Suc k)
  have "k = nat (9 - (d + 1))" "1 \<le> d + 1" "d + 1 \<le> 9" using Suc.hyps(2) Suc.prems by linarith+
  from Suc.hyps(1)[OF this] obtain ws where ws: "concat (map (\<lambda>d. map ((#) d) (assignments n)) [d + 1..9]) = ((d + 1) # replicate n 1) # ws"
    "steps_through (Suc n) ((d + 1) # replicate n 1) ws" by blast
  have "concat (map (\<lambda>d. map ((#) d) (assignments n)) [d..9])
    = map ((#) d) (replicate n 1 # tl (assignments n)) @ concat (map (\<lambda>d. map ((#) d) (assignments n)) [d + 1..9])"
    using assignments_Cons[of n] Suc.prems by (simp add: upto_rec1)
  then show ?case using ws Suc.hyps(2) steps_Cons[OF assms(1), of d "((d + 1) # replicate n 1) # ws"]
    by (intro exI[of _ "map ((#) d) (tl (assignments n)) @ ((d + 1) # replicate n 1) # ws"]) auto
qed

lemma steps_assignments: "steps_through n (replicate n 1) (tl (assignments n))"
proof (induction n)
  case 0
  then show ?case by (simp add: next_possibility_def)
next
  case (Suc n)
  from assignments_from[OF this, of 1] show ?case by auto
qed

lemma assignments_ok: "vs \<in> set (assignments n) \<longleftrightarrow> length vs = n \<and> digits_ok vs"
proof (induction n arbitrary: vs)
  case (Suc n)
  show ?case by (cases vs) (auto simp: Suc digits_ok_def image_iff)
qed (auto simp: digits_ok_def)

lemma distinct_Cons_all: "distinct ds \<Longrightarrow> distinct as \<Longrightarrow> distinct (concat (map (\<lambda>d. map ((#) d) as) ds))"
  by (induction ds) (auto simp: distinct_map)

lemma assignments_distinct: "distinct (assignments n)"
  by (induction n) (simp_all add: distinct_Cons_all)

lemma init_eq: "i \<le> n \<Longrightarrow> length arr = n \<Longrightarrow> init_possibilities n arr i = Some (take i arr @ replicate (n - i) 1)"
proof (induction "n - i" arbitrary: i arr)
  case 0
  then show ?case by (subst init_possibilities.simps) simp
next
  case (Suc k)
  then have "init_possibilities n (arr[i := 1]) (i + 1) = Some (take (i + 1) (arr[i := 1]) @ replicate (n - (i + 1)) 1)" by simp
  moreover have "take (i + 1) (arr[i := 1]) @ replicate (n - (i + 1)) 1 = take i arr @ replicate (n - i) 1"
    using Suc by (simp add: take_Suc_conv_app_nth Suc_diff_le flip: replicate_Suc)
  ultimately show ?case using Suc.prems Suc.hyps(2) by (subst init_possibilities.simps) simp
qed

subsection \<open>The program\<close>

text \<open>An equation: a pattern and its right-hand side.\<close>

definition eqn_text :: "aexpr \<times> int \<Rightarrow> string" where
  "eqn_text q = etext (fst q) @ CHR ''='' # show_int (snd q)"

definition eqn_ok :: "aexpr \<times> int \<Rightarrow> bool" where
  "eqn_ok q \<longleftrightarrow> wf_e pat_char (fst q) \<and> in_int (snd q) \<and> length (eqn_text q) < 512
     \<and> (\<forall>vs\<in>set (assignments (holes (etext (fst q)))). evalue (fill_e (fst q) vs) \<noteq> None)"

text \<open>The solutions, in the order of their digits, and the number that is printed.\<close>

definition solutions :: "aexpr \<times> int \<Rightarrow> int list list" where
  "solutions q = filter (\<lambda>vs. evalue (fill_e (fst q) vs) = Some (snd q)) (assignments (holes (etext (fst q))))"

definition magic_count :: "aexpr \<times> int \<Rightarrow> nat" where
  "magic_count q = (let n = holes (etext (fst q)) in
     (if n = 0 then length (solutions q) else length (removeAll (replicate n 1) (solutions q))) mod 2 ^ 32)"

definition solution_line :: "aexpr \<times> int \<Rightarrow> int list \<Rightarrow> string" where
  "solution_line q vs = fill (etext (fst q)) vs @ CHR ''='' # show_int (snd q) @ ''\<newline>''"

definition eqn_answer :: "aexpr \<times> int \<Rightarrow> string" where
  "eqn_answer q = concat (map (solution_line q) (solutions q))
     @ (if magic_count q = 0 then ''No matches found.\<newline>'' else ''Total: '' @ show_nat (magic_count q) @ ''\<newline>'') @ ''> ''"

lemma eqn_chars:
  assumes "eqn_ok q"
  shows "CHR ''='' \<notin> set (etext (fst q))" "CHR 0x00 \<notin> set (eqn_text q)" "\<forall>x\<in>set (eqn_text q). \<not> isspace x"
proof -
  have wf: "wf_e pat_char (fst q)" using assms by (simp add: eqn_ok_def)
  have t: "pat_char x \<or> x \<in> set ''+-*/()''" if "x \<in> set (etext (fst q))" for x using text_chars(1)[OF wf that] .
  have i: "isdigit x \<or> x = CHR ''-''" if "x \<in> set (show_int k)" for x k
    using that show_nat_digits by (auto simp: show_int_def split: if_splits)
  have d: "\<not> isspace x" "x \<noteq> CHR 0x00" "x \<noteq> CHR ''=''" if "pat_char x \<or> x \<in> set ''+-*/()''" for x
    using that by (auto simp: pat_char_def isdigit_def isspace_def)
  show "CHR ''='' \<notin> set (etext (fst q))" using t d(3) by blast
  show "CHR 0x00 \<notin> set (eqn_text q)" using t[THEN d(2)] i[of "CHR 0x00"] by (auto simp: eqn_text_def isdigit_def)
  show "\<forall>x\<in>set (eqn_text q). \<not> isspace x"
    using t[THEN d(1)] i by (fastforce simp: eqn_text_def isspace_def isdigit_def)
qed

lemma eval_eq:
  assumes "eqn_ok q" "vs \<in> set (assignments (holes (etext (fst q))))"
  shows "mg_eval_expr True (eqn_text q) vs (snd q) = Some (evalue (fill_e (fst q) vs) = Some (snd q))"
proof -
  have vs: "length vs = holes (etext (fst q))" "digits_ok vs" using assms(2) by (simp_all add: assignments_ok)
  have "generate (eqn_text q) vs 0 0 = Some (fill (etext (fst q)) vs)"
    using generate_eq[OF eqn_chars(1)[OF assms(1)], of vs 0 "[]"] vs by (simp add: eqn_text_def)
  moreover have "fill (etext (fst q)) vs = etext (fill_e (fst q) vs)" using fill_text(1)[of vs] vs by simp
  moreover have "wf_e isdigit (fill_e (fst q) vs)" using fill_wf(1)[of "fst q" vs] assms(1) vs by (simp add: eqn_ok_def)
  ultimately show ?thesis using mg_parse_value assms by (auto simp: mg_eval_expr_def eqn_ok_def)
qed

lemma print_line:
  assumes "eqn_ok q" "vs \<in> set (assignments (holes (etext (fst q))))"
  shows "print_solution (eqn_text q) vs 0 0 = Some (solution_line q vs)"
  using print_eq[OF eqn_chars(1)[OF assms(1)], of "show_int (snd q)" vs 0 "[]"] eqn_chars(2)[OF assms(1)] assms(2)
  by (simp add: eqn_text_def solution_line_def assignments_ok)

text \<open>What one candidate contributes.\<close>

abbreviation hit :: "aexpr \<times> int \<Rightarrow> int list \<Rightarrow> bool" where
  "hit q vs \<equiv> evalue (fill_e (fst q) vs) = Some (snd q)"

lemma try_loop_eq:
  assumes "eqn_ok q" "steps_through (holes (etext (fst q))) xs zs" "set zs \<subseteq> set (assignments (holes (etext (fst q))))" "m < 2 ^ 32"
  shows "try_loop True (eqn_text q) (snd q) (holes (etext (fst q))) xs m
    = Some ((m + length (filter (hit q) zs)) mod 2 ^ 32, concat (map (solution_line q) (filter (hit q) zs)))"
  using assms(2-4)
proof (induction zs arbitrary: xs m)
  case Nil
  then show ?case by (subst try_loop.simps) simp
next
  case (Cons z zs)
  have z: "z \<in> set (assignments (holes (etext (fst q))))" using Cons.prems(2) by simp
  have "(m + of_bool (hit q z)) mod 2 ^ 32 < (2 :: nat) ^ 32" by simp
  note IH = Cons.IH[OF _ _ this]
  show ?case using Cons.prems IH eval_eq[OF assms(1) z] print_line[OF assms(1) z]
    by (subst try_loop.simps) (simp add: mod_simps)
qed

lemma magic_numbers_eq:
  assumes "eqn_ok q"
  shows "magic_numbers True (eqn_text q) = Some (magic_count q, concat (map (solution_line q) (solutions q)))"
proof -
  let ?n = "holes (etext (fst q))" and ?o = "replicate (holes (etext (fst q))) (1 :: int)"
  have c: "count_vars (eqn_text q) 0 0 = Some (length (etext (fst q)), ?n)"
    using count_eq[OF eqn_chars(1)[OF assms], of "[]" "show_int (snd q)" 0] by (simp add: eqn_text_def)
  have "cstr (show_int (snd q)) = show_int (snd q)" using eqn_chars(2)[OF assms] by (intro cstr_line) (auto simp: eqn_text_def)
  then have t: "sscanf (drop (length (etext (fst q)) + 1) (eqn_text q)) ''%d'' = Some \<lparr>sr_args = [IntA (snd q)], sr_eof = False, sr_rest = []\<rparr>"
    using assms scanf_d_elem[of "[]" "[]" "snd q"] by (simp add: sscanf_def eqn_text_def eqn_ok_def)
  have as: "assignments ?n = ?o # tl (assignments ?n)" by (rule assignments_Cons)
  then have o: "?o \<in> set (assignments ?n)" and tl: "set (tl (assignments ?n)) \<subseteq> set (assignments ?n)"
    by (metis list.set_intros(1), metis set_subset_Cons)
  have sol: "solutions q = (if hit q ?o then [?o] else []) @ filter (hit q) (tl (assignments ?n))"
    unfolding solutions_def by (subst as) simp
  show ?thesis
  proof (cases "?n = 0")
    case True
    then show ?thesis using c t eval_eq[OF assms o] print_line[OF assms o] sol
      by (simp add: magic_numbers_def magic_count_def)
  next
    case False
    have "?o \<notin> set (tl (assignments ?n))" using assignments_distinct[of ?n] by (subst (asm) as) simp
    then have "removeAll ?o (solutions q) = filter (hit q) (tl (assignments ?n))" unfolding sol by (auto simp: removeAll_id)
    then show ?thesis
      using False c t eval_eq[OF assms o] print_line[OF assms o] sol try_loop_eq[OF assms steps_assignments tl, of 0] init_eq[of 0 ?n "replicate ?n 0"]
      by (simp add: magic_numbers_def magic_count_def Let_def)
  qed
qed

lemma magic_loop_eq:
  assumes "\<forall>q\<in>set qs. eqn_ok q" "list_all isspace b"
  shows "magic_loop True (b @ concat (map (\<lambda>q. eqn_text q @ ''\<newline>'') qs)) = Some (concat (map eqn_answer qs))"
  using assms
proof (induction qs arbitrary: b)
  case Nil
  then show ?case using scan_word_end[of b] by (subst magic_loop.simps) simp
next
  case (Cons q qs)
  have q: "eqn_ok q" using Cons.prems by simp
  have "eqn_text q \<noteq> []" by (simp add: eqn_text_def)
  note w = scan_word_line[OF this eqn_chars(3)[OF q] Cons.prems(2)]
  have "length (eqn_text q) < 512" using q by (simp add: eqn_ok_def)
  then show ?case using w Cons.IH[of "''\<newline>''"] Cons.prems(1) cstr_line[OF eqn_chars(2)[OF q]] magic_numbers_eq[OF q]
    by (subst magic_loop.simps) (simp add: eqn_answer_def[of q] show_conv_def)
qed

text \<open>
  Property C11. On every sequence of equations whose left-hand sides are expressions with missing digits, the
  program prints for each equation exactly its solutions, each once and in the order of their digits, whatever the
  operators and parentheses of the expression, provided that no candidate divides by zero or overflows. The number it
  prints after them leaves out the candidate with all digits 1 (modulo \<open>2\<^sup>3\<^sup>2\<close>), and it reports that there is
  no match when this candidate is the only solution.
\<close>

theorem magic_main_correct:
  assumes "\<forall>q\<in>set qs. eqn_ok q"
  shows "magic_main True (concat (map (\<lambda>q. eqn_text q @ ''\<newline>'') qs))
    = Some (''Enter an expression pattern to find matches.\<newline>> '' @ concat (map eqn_answer qs))"
  using magic_loop_eq[OF assms, of "[]"] by (simp add: magic_main_def)

theorem magic_main_correct_witness:
  "magic_main True ''(_+13)*2=28\<newline>_*2+3=11\<newline>'' =
     Some (''Enter an expression pattern to find matches.\<newline>> (1+13)*2=28\<newline>No matches found.\<newline>> 4*2+3=11\<newline>Total: 1\<newline>> '')"
proof -
  let ?e = "Single (Mul (Factor1 (Par (Add (Single (Factor1 (Num False ''_''))) (Factor1 (Num False ''13''))))) (Num False ''2''))"
  let ?f = "Add (Single (Mul (Factor1 (Num False ''_'')) (Num False ''2''))) (Factor1 (Num False ''3''))"
  let ?qs = "[(?e, 28), (?f, 11)]"
  have i: "eqn_text (?e, 28) = ''(_+13)*2=28''" "eqn_text (?f, 11) = ''_*2+3=11''" by (simp_all add: eqn_text_def show_eval)
  have "eqn_ok (?e, 28)" by (simp add: eqn_ok_def i value_eval digit_of_def upto_rec1 pat_char_def isdigit_def)
  moreover have "eqn_ok (?f, 11)" by (simp add: eqn_ok_def i value_eval digit_of_def upto_rec1 pat_char_def isdigit_def)
  ultimately have ok: "\<forall>q\<in>set ?qs. eqn_ok q" by simp
  have s: "solutions (?e, 28) = [[1]]" by (simp add: solutions_def value_eval digit_of_def upto_rec1)
  have s2: "solutions (?f, 11) = [[4]]" by (simp add: solutions_def value_eval digit_of_def upto_rec1)
  have l: "solution_line (?e, 28) [1] = ''(1+13)*2=28\<newline>''" "solution_line (?f, 11) [4] = ''4*2+3=11\<newline>''" "show_nat (Suc 0) = ''1''"
    by (simp_all add: solution_line_def show_eval digit_of_def)
  have o: "eqn_answer (?e, 28) = ''(1+13)*2=28\<newline>No matches found.\<newline>> ''"
    "eqn_answer (?f, 11) = ''4*2+3=11\<newline>Total: 1\<newline>> ''" by (simp_all add: eqn_answer_def magic_count_def s s2 l)
  show ?thesis using magic_main_correct[OF ok] by (simp add: i o)
qed

end
