(* ===== verification/Redundant_Parens.thy ===== *)
theory Redundant_Parens
  imports Expr_Syntax
begin

text \<open>
  \<open>recursion_dp/redundant_parens/solution.c\<close>: evaluates an expression and prints it without its redundant
  parentheses. The recursive descent is that of \<open>Expr_Syntax\<close>; its values are the number and the operators seen
  outside of parentheses that are kept, and it marks the parentheses to leave out in the array \<open>ign\<close>. As in
  \<open>Magic_Numbers\<close> the five functions that call each other are one definition, \<open>rp_parse\<close>.
\<close>

definition PLUS :: int where "PLUS = 0"
definition MINUS :: int where "MINUS = 1"
definition MUL :: int where "MUL = 2"
definition DIV :: int where "DIV = 3"

record ops_list =
  seen :: "bool list"
  res :: int

definition char_to_op :: "char \<Rightarrow> int" where
  "char_to_op c =
     (if c = CHR ''+'' then PLUS
      else if c = CHR ''-'' then MINUS
      else if c = CHR ''*'' then MUL
      else if c = CHR ''/'' then DIV
      else - 1)"

definition higher_prio :: "int \<Rightarrow> int \<Rightarrow> bool" where
  "higher_prio op1 op2 \<longleftrightarrow> op1 \<ge> MUL \<and> op2 \<le> MINUS"

function merge_seen :: "ops_list \<Rightarrow> ops_list \<Rightarrow> nat \<Rightarrow> ops_list c" where
  "merge_seen dest other i =
     (if i < 4
      then do { x \<leftarrow> rd (seen dest) i;
                y \<leftarrow> rd (seen other) i;
                s \<leftarrow> (if x \<or> y then wr (seen dest) i True else Some (seen dest));
                merge_seen (dest\<lparr>seen := s\<rparr>) other (i + 1) }
      else Some dest)"
  by pat_completeness auto
termination by (relation "measure (\<lambda>(d, e, i). 4 - i)") auto

function first_seen :: "bool list \<Rightarrow> nat \<Rightarrow> nat c" where
  "first_seen sn i =
     (if i < 4 then do { x \<leftarrow> rd sn i; if x then Some i else first_seen sn (i + 1) } else Some i)"
  by pat_completeness auto
termination by (relation "measure (\<lambda>(s, i). 4 - i)") auto

declare merge_seen.simps [simp del] first_seen.simps [simp del]

definition redundant_parens :: "string \<Rightarrow> nat \<Rightarrow> nat \<Rightarrow> ops_list \<Rightarrow> bool c" where
  "redundant_parens expr_str l r ops =
     do { i \<leftarrow> first_seen (seen ops) 0;
          if i = 4 then Some True
          else do { y \<leftarrow> ch expr_str (r + 1);
                    op_l \<leftarrow> (if 0 < l then do { x \<leftarrow> ch expr_str (l - 1); Some (char_to_op x) } else Some (- 1));
                    let op_r = char_to_op y;
                    Some (\<not> ((op_l \<noteq> - 1 \<and> higher_prio op_l (int i))
                            \<or> (op_r \<noteq> - 1 \<and> higher_prio op_r (int i))
                            \<or> (op_l = MINUS \<and> int i \<le> MINUS)
                            \<or> op_l = DIV)) } }"

text \<open>The step of \<open>expr_r\<close> and \<open>term_r\<close> after the second operand was read, with the operator \<open>x\<close>.\<close>

definition merge_ops :: "char \<Rightarrow> ops_list \<Rightarrow> ops_list \<Rightarrow> ops_list c" where
  "merge_ops x first_term second_term =
     do { m \<leftarrow> merge_seen first_term second_term 0;
          v \<leftarrow> arith x (res m) (res second_term);
          s \<leftarrow> wr (seen m) (nat (char_to_op x)) True;
          Some \<lparr>seen = s, res = v\<rparr> }"

text \<open>What \<open>factor\<close> does at the closing parenthesis.\<close>

definition close_paren :: "string \<Rightarrow> nat \<Rightarrow> nat \<Rightarrow> ops_list \<Rightarrow> bool list \<Rightarrow> (ops_list \<times> bool list) c" where
  "close_paren expr_str saved_cursor cursor expr_res ign =
     do { red \<leftarrow> redundant_parens expr_str saved_cursor cursor expr_res;
          if red
          then do { g \<leftarrow> wr ign cursor True; g' \<leftarrow> wr g saved_cursor True; Some (expr_res, g') }
          else Some (expr_res\<lparr>seen := replicate 4 False\<rparr>, ign) }"

partial_function (option) rp_parse :: "string \<Rightarrow> ops_list call \<Rightarrow> nat \<Rightarrow> bool list \<Rightarrow> (ops_list \<times> nat \<times> bool list) option" where
  "rp_parse expr_str k cursor ign =
     (case k of
        Expr \<Rightarrow> do { (t, c, g) \<leftarrow> rp_parse expr_str Term cursor ign; rp_parse expr_str (Expr_r t) c g }
      | Expr_r first_term \<Rightarrow>
          do { x \<leftarrow> ch expr_str cursor;
               if x = CHR ''+'' \<or> x = CHR ''-''
               then do { (second_term, c, g) \<leftarrow> rp_parse expr_str Term (cursor + 1) ign;
                         r \<leftarrow> merge_ops x first_term second_term;
                         rp_parse expr_str (Expr_r r) c g }
               else Some (first_term, cursor, ign) }
      | Term \<Rightarrow> do { (f, c, g) \<leftarrow> rp_parse expr_str Factor cursor ign; rp_parse expr_str (Term_r f) c g }
      | Term_r first_term \<Rightarrow>
          do { x \<leftarrow> ch expr_str cursor;
               if x = CHR ''*'' \<or> x = CHR ''/''
               then do { (second_term, c, g) \<leftarrow> rp_parse expr_str Factor (cursor + 1) ign;
                         r \<leftarrow> merge_ops x first_term second_term;
                         rp_parse expr_str (Term_r r) c g }
               else Some (first_term, cursor, ign) }
      | Factor \<Rightarrow>
          do { x \<leftarrow> ch expr_str cursor;
               if x = CHR ''(''
               then do { (expr_res, c, g) \<leftarrow> rp_parse expr_str Expr (cursor + 1) ign;
                         y \<leftarrow> ch expr_str c;
                         _ \<leftarrow> c_assert (y = CHR '')'');
                         (r, g') \<leftarrow> close_paren expr_str cursor c expr_res g;
                         Some (r, c + 1, g') }
               else do { r \<leftarrow> sscanf (drop cursor expr_str) ''%d%n'';
                         if scan_ret r = 1
                         then Some (\<lparr>seen = replicate 4 False, res = arg_int (sr_args r ! 0)\<rparr>,
                                    cursor + (length (cstr (drop cursor expr_str)) - length (sr_rest r)), ign)
                         else None } })"

function strip_loop :: "string \<Rightarrow> bool list \<Rightarrow> string \<Rightarrow> nat \<Rightarrow> nat \<Rightarrow> string c" where
  "strip_loop expr_str ignore new_expr i j =
     do { x \<leftarrow> ch expr_str i;
          if x \<noteq> CHR 0x00
          then do { g \<leftarrow> rd ignore i;
                    if \<not> g then do { n \<leftarrow> wr new_expr j x; strip_loop expr_str ignore n (i + 1) (j + 1) }
                    else strip_loop expr_str ignore new_expr (i + 1) j }
          else wr new_expr j (CHR 0x00) }"
  by pat_completeness auto
termination by (relation "measure (\<lambda>(s, ign, n, i, j). length s + 1 - i)") (auto simp: ch_def split: if_splits)

declare strip_loop.simps [simp del]

text \<open>
  The new string, which is null if there is no memory for it (\<open>mem\<close> is false), and the value. What
  \<open>malloc\<close> returned is overwritten before it is read.
\<close>

definition rp_eval_expr :: "bool \<Rightarrow> string \<Rightarrow> (string option \<times> int) c" where
  "rp_eval_expr mem expr_str =
     do { let expr_len = length expr_str;
          (r, cursor, ignore) \<leftarrow> rp_parse expr_str Expr 0 (replicate expr_len False);
          if \<not> mem then Some (None, res r)
          else do { new_expr \<leftarrow> strip_loop expr_str ignore (replicate (expr_len + 1) (CHR 0x00)) 0 0;
                    Some (Some (cstr new_expr), res r) } }"

text \<open>
  The loop of \<open>main\<close>, with what is written to standard output and to the standard error stream. Whether the
  \<open>n\<close>-th allocation succeeds is up to \<open>mem\<close>; the buffer has 512 bytes.
\<close>

function rp_loop :: "(nat \<Rightarrow> bool) \<Rightarrow> nat \<Rightarrow> string \<Rightarrow> (string \<times> string) c" where
  "rp_loop mem n s =
     do { r \<leftarrow> scanf ''%s'' s;
          _ \<leftarrow> c_assert (\<forall>a\<in>set (sr_args r). length (arg_str a) < 512);
          if scan_ret r = 1
          then do { (canonical, result) \<leftarrow> rp_eval_expr (mem n) (cstr (arg_str (sr_args r ! 0)));
                    (out, err) \<leftarrow> rp_loop mem (n + 1) (sr_rest r);
                    Some (case canonical of
                            None \<Rightarrow> (printf ''> '' [] @ out,
                                     printf ''Error evaluating expression - out of memory?\<newline>'' [] @ err)
                          | Some t \<Rightarrow> (printf ''%s = %d\<newline>'' [StrA t, IntA result] @ printf ''> '' [] @ out, err)) }
          else Some ([], []) }"
  by pat_completeness auto
termination by (relation "measure (\<lambda>(mem, n, s). length s)") (auto dest!: scanf_ret_less[of "''%s''"])

declare rp_loop.simps [simp del]

definition rp_main :: "(nat \<Rightarrow> bool) \<Rightarrow> string \<Rightarrow> (string \<times> string) c" where
  "rp_main mem input =
     do { (out, err) \<leftarrow> rp_loop mem 0 input;
          Some (printf ''Enter an expression to remove redundant parentheses and evaluate it.\<newline>'' []
                @ printf ''> '' [] @ out, err) }"

end
