(* ===== verification/Redundant_Parens_Proofs.thy ===== *)
theory Redundant_Parens_Proofs
  imports Redundant_Parens
begin

text \<open>
  What the program of \<open>redundant_parens/solution.c\<close> prints is the text of an expression again. It has the value of
  the input when there is no division; with divisions it may have another one.
\<close>

subsection \<open>The expression without the parentheses that are left out\<close>

text \<open>An operator and an operand appended to a tree: texts are put together, the tree associates to the left.\<close>

primrec mul_join :: "aterm \<Rightarrow> char \<Rightarrow> aterm \<Rightarrow> aterm" where
  "mul_join t op (Factor1 f) = (if op = CHR ''*'' then Mul t f else Div t f)"
| "mul_join t op (Mul u f) = Mul (mul_join t op u) f"
| "mul_join t op (Div u f) = Div (mul_join t op u) f"

primrec add_join :: "aexpr \<Rightarrow> char \<Rightarrow> aexpr \<Rightarrow> aexpr" where
  "add_join e op (Single t) = (if op = CHR ''+'' then Add e t else Sub e t)"
| "add_join e op (Add d t) = Add (add_join e op d) t"
| "add_join e op (Sub d t) = Sub (add_join e op d) t"

text \<open>The operators of an expression that are not inside of parentheses.\<close>

primrec tops :: "aterm \<Rightarrow> char set" where
  "tops (Factor1 f) = {}"
| "tops (Mul t f) = insert (CHR ''*'') (tops t)"
| "tops (Div t f) = insert (CHR ''/'') (tops t)"

primrec eops :: "aexpr \<Rightarrow> char set" where
  "eops (Single t) = tops t"
| "eops (Add e t) = insert (CHR ''+'') (eops e \<union> tops t)"
| "eops (Sub e t) = insert (CHR ''-'') (eops e \<union> tops t)"

definition has_sum :: "aexpr \<Rightarrow> bool" where
  "has_sum e \<longleftrightarrow> (case e of Single t \<Rightarrow> False | _ \<Rightarrow> True)"

definition the_term :: "aexpr \<Rightarrow> aterm" where
  "the_term e = (case e of Single t \<Rightarrow> t | Add d t \<Rightarrow> t | Sub d t \<Rightarrow> t)"

text \<open>
  When parentheses around \<open>e\<close> are kept between the characters \<open>lo\<close> and \<open>ro\<close>: around an expression with an operator,
  after a division; around a sum, also next to a product and after a difference.
\<close>

definition keep :: "char \<Rightarrow> char \<Rightarrow> aexpr \<Rightarrow> bool" where
  "keep lo ro e \<longleftrightarrow> eops e \<noteq> {} \<and> lo = CHR ''/'' \<or> has_sum e \<and> (is_mul lo \<or> is_mul ro \<or> lo = CHR ''-'')"

primrec canon_e :: "char \<Rightarrow> char \<Rightarrow> aexpr \<Rightarrow> aexpr" and canon_t :: "char \<Rightarrow> char \<Rightarrow> aterm \<Rightarrow> aexpr"
  and canon_f :: "char \<Rightarrow> char \<Rightarrow> afactor \<Rightarrow> aexpr" where
  "canon_e lo ro (Single t) = canon_t lo ro t"
| "canon_e lo ro (Add e t) = add_join (canon_e lo (CHR ''+'') e) (CHR ''+'') (canon_t (CHR ''+'') ro t)"
| "canon_e lo ro (Sub e t) = add_join (canon_e lo (CHR ''-'') e) (CHR ''-'') (canon_t (CHR ''-'') ro t)"
| "canon_t lo ro (Factor1 f) = canon_f lo ro f"
| "canon_t lo ro (Mul t f) = Single (mul_join (the_term (canon_t lo (CHR ''*'') t)) (CHR ''*'') (the_term (canon_f (CHR ''*'') ro f)))"
| "canon_t lo ro (Div t f) = Single (mul_join (the_term (canon_t lo (CHR ''/'') t)) (CHR ''/'') (the_term (canon_f (CHR ''/'') ro f)))"
| "canon_f lo ro (Num neg ds) = Single (Factor1 (Num neg ds))"
| "canon_f lo ro (Par e) = (let c = canon_e (CHR ''('') (CHR '')'') e in if keep lo ro c then Single (Factor1 (Par c)) else c)"

text \<open>Which characters of the text are left out.\<close>

primrec mask_e :: "char \<Rightarrow> char \<Rightarrow> aexpr \<Rightarrow> bool list" and mask_t :: "char \<Rightarrow> char \<Rightarrow> aterm \<Rightarrow> bool list"
  and mask_f :: "char \<Rightarrow> char \<Rightarrow> afactor \<Rightarrow> bool list" where
  "mask_e lo ro (Single t) = mask_t lo ro t"
| "mask_e lo ro (Add e t) = mask_e lo (CHR ''+'') e @ False # mask_t (CHR ''+'') ro t"
| "mask_e lo ro (Sub e t) = mask_e lo (CHR ''-'') e @ False # mask_t (CHR ''-'') ro t"
| "mask_t lo ro (Factor1 f) = mask_f lo ro f"
| "mask_t lo ro (Mul t f) = mask_t lo (CHR ''*'') t @ False # mask_f (CHR ''*'') ro f"
| "mask_t lo ro (Div t f) = mask_t lo (CHR ''/'') t @ False # mask_f (CHR ''/'') ro f"
| "mask_f lo ro (Num neg ds) = replicate (length (ftext (Num neg ds))) False"
| "mask_f lo ro (Par e) =
     (let r = \<not> keep lo ro (canon_e (CHR ''('') (CHR '')'') e) in r # mask_e (CHR ''('') (CHR '')'') e @ [r])"

definition strip :: "string \<Rightarrow> bool list \<Rightarrow> string" where
  "strip s m = map fst (filter (\<lambda>(x, b). \<not> b) (zip s m))"

lemma strip_simps [simp]:
  "strip [] m = []" "strip (x # s) (b # m) = (if b then strip s m else x # strip s m)"
  "length s = length m \<Longrightarrow> strip (s @ t) (m @ n) = strip s m @ strip t n"
  by (simp_all add: strip_def)

lemma strip_none [simp]: "strip s (replicate (length s) False) = s"
  by (induction s) simp_all

lemma join_text:
  "ttext (mul_join t op u) = ttext t @ (if op = CHR ''*'' then CHR ''*'' else CHR ''/'') # ttext u"
  "etext (add_join e op d) = etext e @ (if op = CHR ''+'' then CHR ''+'' else CHR ''-'') # etext d"
  by (induction u, simp_all) (induction d, simp_all)

lemma single: "\<not> has_sum e \<Longrightarrow> e = Single (the_term e)"
  by (cases e) (simp_all add: has_sum_def the_term_def)

lemma the_term_text: "\<not> has_sum e \<Longrightarrow> ttext (the_term e) = etext e"
  using single[of e] by (metis etext.simps(1))

lemma canon_f_single: "is_mul lo \<or> is_mul ro \<or> lo = CHR ''-'' \<Longrightarrow> \<not> has_sum (canon_f lo ro f)"
  by (cases f) (auto simp: keep_def Let_def has_sum_def)

lemma canon_t_single: "is_mul lo \<or> is_mul ro \<or> lo = CHR ''-'' \<Longrightarrow> \<not> has_sum (canon_t lo ro t)"
  by (cases t) (auto simp: canon_f_single has_sum_def[of "Single _"])

lemma mask_length:
  "length (mask_e lo ro e) = length (etext e)" "length (mask_t lo ro t) = length (ttext t)" "length (mask_f lo ro f) = length (ftext f)"
  by (induction e and t and f arbitrary: lo ro and lo ro and lo ro) (simp_all add: Let_def)

text \<open>Only parentheses are left out.\<close>

definition only_parens :: "string \<Rightarrow> bool list \<Rightarrow> bool" where
  "only_parens = list_all2 (\<lambda>x b. b \<longrightarrow> x = CHR ''('' \<or> x = CHR '')'')"

lemma mask_parens:
  "only_parens (etext e) (mask_e lo ro e)" "only_parens (ttext t) (mask_t lo ro t)" "only_parens (ftext f) (mask_f lo ro f)"
proof (induction e and t and f arbitrary: lo ro and lo ro and lo ro)
  case (Num neg ds)
  show ?case by (simp add: only_parens_def list_all2_conv_all_nth)
qed (simp_all add: only_parens_def Let_def list_all2_appendI)

lemma canon_text:
  "strip (etext e) (mask_e lo ro e) = etext (canon_e lo ro e)"
  "strip (ttext t) (mask_t lo ro t) = etext (canon_t lo ro t)"
  "strip (ftext f) (mask_f lo ro f) = etext (canon_f lo ro f)"
  by (induction e and t and f arbitrary: lo ro and lo ro and lo ro)
     (simp_all add: Let_def mask_length join_text the_term_text canon_t_single canon_f_single del: ftext.simps(1))

subsection \<open>It is an expression again, with the same value\<close>

lemma mul_join_wf: "wf_t P (mul_join t op u) \<longleftrightarrow> wf_t P t \<and> wf_t P u"
  by (induction u) auto

lemma add_join_wf: "wf_e P (add_join e op d) \<longleftrightarrow> wf_e P e \<and> wf_e P d"
  by (induction d) auto

lemma the_term_wf: "wf_e P e \<Longrightarrow> wf_t P (the_term e)"
  by (cases e) (simp_all add: the_term_def)

lemma canon_wf:
  "wf_e P e \<Longrightarrow> wf_e P (canon_e lo ro e)" "wf_t P t \<Longrightarrow> wf_e P (canon_t lo ro t)" "wf_f P f \<Longrightarrow> wf_e P (canon_f lo ro f)"
  by (induction e and t and f arbitrary: lo ro and lo ro and lo ro) (simp_all add: Let_def mul_join_wf add_join_wf the_term_wf)

text \<open>The value as an integer, without bounds.\<close>

primrec eint :: "aexpr \<Rightarrow> int" and tint :: "aterm \<Rightarrow> int" and fint :: "afactor \<Rightarrow> int" where
  "eint (Single t) = tint t"
| "eint (Add e t) = eint e + tint t"
| "eint (Sub e t) = eint e - tint t"
| "tint (Factor1 f) = fint f"
| "tint (Mul t f) = tint t * fint f"
| "tint (Div t f) = cdiv (tint t) (fint f)"
| "fint (Num neg ds) = num_val neg ds"
| "fint (Par e) = eint e"

lemma arith_Some: "arith op l r = Some v \<Longrightarrow>
  v = (if op = CHR ''+'' then l + r else if op = CHR ''-'' then l - r else if op = CHR ''*'' then l * r else cdiv l r)"
  by (auto simp: arith_def c_int_def split: if_splits)

lemma value_int:
  "evalue e = Some v \<Longrightarrow> eint e = v" "tvalue t = Some v \<Longrightarrow> tint t = v" "fvalue f = Some v \<Longrightarrow> fint f = v"
  by (induction e and t and f arbitrary: v and v and v)
     (auto simp: bind_eq_Some_conv c_int_def dest!: arith_Some split: if_splits)

primrec nodiv_e :: "aexpr \<Rightarrow> bool" and nodiv_t :: "aterm \<Rightarrow> bool" and nodiv_f :: "afactor \<Rightarrow> bool" where
  "nodiv_e (Single t) \<longleftrightarrow> nodiv_t t"
| "nodiv_e (Add e t) \<longleftrightarrow> nodiv_e e \<and> nodiv_t t"
| "nodiv_e (Sub e t) \<longleftrightarrow> nodiv_e e \<and> nodiv_t t"
| "nodiv_t (Factor1 f) \<longleftrightarrow> nodiv_f f"
| "nodiv_t (Mul t f) \<longleftrightarrow> nodiv_t t \<and> nodiv_f f"
| "nodiv_t (Div t f) \<longleftrightarrow> False"
| "nodiv_f (Num neg ds) \<longleftrightarrow> True"
| "nodiv_f (Par e) \<longleftrightarrow> nodiv_e e"

lemma mul_join_nodiv: "nodiv_t (mul_join t (CHR ''*'') u) \<longleftrightarrow> nodiv_t t \<and> nodiv_t u"
  by (induction u) auto

lemma add_join_nodiv: "nodiv_e (add_join e op d) \<longleftrightarrow> nodiv_e e \<and> nodiv_e d"
  by (induction d) auto

lemma join_int:
  "nodiv_t u \<Longrightarrow> tint (mul_join t (CHR ''*'') u) = tint t * tint u"
  "eint (add_join e (CHR ''+'') d) = eint e + eint d"
  "\<not> has_sum d \<Longrightarrow> eint (add_join e (CHR ''-'') d) = eint e - eint d"
  by (induction u, simp_all add: mult.assoc) (induction d, simp_all, cases d, simp_all add: has_sum_def)

lemma the_term_int: "\<not> has_sum e \<Longrightarrow> tint (the_term e) = eint e" "\<not> has_sum e \<Longrightarrow> nodiv_t (the_term e) \<longleftrightarrow> nodiv_e e"
  by (cases e; simp add: has_sum_def the_term_def)+

lemma canon_int:
  "nodiv_e e \<Longrightarrow> nodiv_e (canon_e lo ro e) \<and> eint (canon_e lo ro e) = eint e"
  "nodiv_t t \<Longrightarrow> nodiv_e (canon_t lo ro t) \<and> eint (canon_t lo ro t) = tint t"
  "nodiv_f f \<Longrightarrow> nodiv_e (canon_f lo ro f) \<and> eint (canon_f lo ro f) = fint f"
  by (induction e and t and f arbitrary: lo ro and lo ro and lo ro)
     (simp_all add: Let_def mul_join_nodiv add_join_nodiv join_int the_term_int canon_t_single canon_f_single)

subsection \<open>The operators seen\<close>

definition flags :: "char set \<Rightarrow> bool list" where
  "flags ops = map (\<lambda>x. x \<in> ops) ''+-*/''"

lemma mul_join_ops: "tops (mul_join t op u) = insert (if op = CHR ''*'' then CHR ''*'' else CHR ''/'') (tops t \<union> tops u)"
  by (induction u) auto

lemma add_join_ops: "eops (add_join e op d) = insert (if op = CHR ''+'' then CHR ''+'' else CHR ''-'') (eops e \<union> eops d)"
  by (induction d) auto

lemma the_term_ops: "\<not> has_sum e \<Longrightarrow> tops (the_term e) = eops e"
  by (cases e) (simp_all add: has_sum_def the_term_def)

lemma tops_mul: "x \<in> tops t \<Longrightarrow> is_mul x"
  by (induction t) auto

lemma has_sum_iff: "has_sum e \<longleftrightarrow> CHR ''+'' \<in> eops e \<or> CHR ''-'' \<in> eops e"
  by (cases e) (auto simp: has_sum_def dest: tops_mul)

lemma eops_chars: "eops e \<subseteq> set ''+-*/''"
proof -
  have "tops t \<subseteq> set ''+-*/''" for t by (induction t) simp_all
  then show ?thesis by (induction e) (simp_all add: subset_insertI2)
qed

lemma flags_merge: "merge_seen \<lparr>seen = flags A, res = v\<rparr> \<lparr>seen = flags B, res = w\<rparr> 0 = Some \<lparr>seen = flags (A \<union> B), res = v\<rparr>"
  by (simp add: merge_seen.simps flags_def)

lemma flags_set: "x \<in> set ''+-*/'' \<Longrightarrow> wr (flags A) (nat (char_to_op x)) True = Some (flags (insert x A))"
  by (auto simp: flags_def char_to_op_def PLUS_def MINUS_def MUL_def DIV_def wr_def numeral_2_eq_2 numeral_3_eq_3)

lemma merge_ops_eq:
  assumes "x \<in> set ''+-*/''"
  shows "merge_ops x \<lparr>seen = flags A, res = v\<rparr> \<lparr>seen = flags B, res = w\<rparr>
    = map_option (\<lambda>u. \<lparr>seen = flags (insert x (A \<union> B)), res = u\<rparr>) (arith x v w)"
  using flags_set[OF assms] by (cases "arith x v w") (simp_all add: merge_ops_def flags_merge)

lemma first_seen_eq:
  "first_seen (flags A) 0 = Some (if CHR ''+'' \<in> A then 0 else if CHR ''-'' \<in> A then 1 else if CHR ''*'' \<in> A then 2
     else if CHR ''/'' \<in> A then 3 else 4)"
  by (simp add: first_seen.simps flags_def)

definition before :: "string \<Rightarrow> char" where "before a = (if a = [] then CHR 0x00 else last a)"
definition after :: "string \<Rightarrow> char" where "after b = (if b = [] then CHR 0x00 else hd b)"

lemma redundant_eq:
  assumes "s = a @ CHR ''('' # x @ CHR '')'' # b"
  shows "redundant_parens s (length a) (length a + 1 + length x) \<lparr>seen = flags (eops e), res = v\<rparr> = Some (\<not> keep (before a) (after b) e)"
proof -
  have r: "ch s (length a + 1 + length x + 1) = Some (after b)"
    using ch_at[of s "a @ CHR ''('' # x @ '')''" b] assms by (simp add: after_def)
  have l: "ch s (length a - 1) = Some (before a)" if "a \<noteq> []"
    using that assms by (cases a rule: rev_cases) (simp_all add: ch_def before_def nth_append)
  have n: "eops e = {} \<longleftrightarrow> (\<forall>x\<in>set ''+-*/''. x \<notin> eops e)" using eops_chars[of e] by blast
  show ?thesis
    using r l n by (cases "a = []")
      (auto simp: redundant_parens_def first_seen_eq keep_def has_sum_iff Let_def char_to_op_def higher_prio_def is_mul_def
        before_def PLUS_def MINUS_def MUL_def DIV_def)
qed

lemma close_eq:
  assumes "s = a @ CHR ''('' # x @ CHR '')'' # b" "length g = length a" "length m = length x"
  shows "close_paren s (length a) (length a + 1 + length x) \<lparr>seen = flags (eops e), res = v\<rparr> (g @ False # m @ False # h)
    = (let k = keep (before a) (after b) e in
       Some (\<lparr>seen = (if k then replicate 4 False else flags (eops e)), res = v\<rparr>, g @ (\<not> k) # m @ (\<not> k) # h))"
proof -
  have "(g @ False # m @ False # h)[length a + 1 + length x := True, length a := True] = g @ True # m @ True # h"
    using assms(2,3) by (simp add: list_update_append)
  then show ?thesis using redundant_eq[OF assms(1), of e v] assms(2,3)
    by (simp add: close_paren_def Let_def)
qed

lemma flags_none: "replicate 4 False = flags {}"
  by (simp add: flags_def numeral_eq_Suc)

subsection \<open>The parser\<close>

definition num_ops :: "int \<Rightarrow> ops_list" where
  "num_ops v = \<lparr>seen = replicate 4 False, res = v\<rparr>"

interpretation rp: descent rp_parse num_ops merge_ops close_paren
proof (unfold_locales, goal_cases)
  case (1 s c st)
  show ?case by (subst rp_parse.simps) simp
next
  case (2 s c x v st)
  then show ?case by (subst rp_parse.simps) (simp add: is_add_def)
next
  case (3 s c x v st)
  then show ?case by (subst rp_parse.simps) (simp add: is_add_def)
next
  case (4 s c st)
  show ?case by (subst rp_parse.simps) simp
next
  case (5 s c x v st)
  then show ?case by (subst rp_parse.simps) (simp add: is_mul_def)
next
  case (6 s c x v st)
  then show ?case by (subst rp_parse.simps) (simp add: is_mul_def)
next
  case (7 s c st)
  then show ?case by (subst rp_parse.simps) simp
next
  case (8 s c x st)
  then show ?case by (subst rp_parse.simps) (simp add: num_ops_def cong: if_cong)
qed

text \<open>The value of a subexpression that stands between \<open>a\<close> and \<open>b\<close>, and the marks on its part of the array.\<close>

abbreviation seen_val :: "aexpr \<Rightarrow> int \<Rightarrow> ops_list" where
  "seen_val c v \<equiv> \<lparr>seen = flags (eops c), res = v\<rparr>"

lemma before_after [simp]: "before (a @ [x]) = x" "before (a @ x # y @ [z]) = z" "after (x # b) = x" "before (a @ y @ [z]) = z"
  by (simp_all add: before_def after_def)

lemma blanks_split:
  "replicate (length (x @ c # y)) False @ h = replicate (length x) False @ False # replicate (length y) False @ h"
  "replicate (length (c # x @ [d])) False @ h = False # replicate (length x) False @ False # h"
  by (induction x) simp_all

lemma rp_sem:
  "s = a @ etext e @ b \<Longrightarrow> length g = length a \<Longrightarrow>
   esem num_ops merge_ops close_paren s e (length a) (g @ replicate (length (etext e)) False @ h)
     = map_option (\<lambda>v. (seen_val (canon_e (before a) (after b) e) v, g @ mask_e (before a) (after b) e @ h)) (evalue e)"
  "s = a @ ttext t @ b \<Longrightarrow> length g = length a \<Longrightarrow>
   tsem num_ops merge_ops close_paren s t (length a) (g @ replicate (length (ttext t)) False @ h)
     = map_option (\<lambda>v. (seen_val (canon_t (before a) (after b) t) v, g @ mask_t (before a) (after b) t @ h)) (tvalue t)"
  "s = a @ ftext f @ b \<Longrightarrow> length g = length a \<Longrightarrow>
   fsem num_ops merge_ops close_paren s f (length a) (g @ replicate (length (ftext f)) False @ h)
     = map_option (\<lambda>v. (seen_val (canon_f (before a) (after b) f) v, g @ mask_f (before a) (after b) f @ h)) (fvalue f)"
proof (induction e and t and f arbitrary: a b g h and a b g h and a b g h)
  case (Single t)
  then show ?case by simp
next
  case (Add e t)
  have s: "s = a @ etext e @ (CHR ''+'' # ttext t @ b)" "s = (a @ etext e @ ''+'') @ ttext t @ b" using Add.prems by simp_all
  let ?m = "mask_e (before a) (CHR ''+'') e"
  have g: "length (g @ ?m @ [False]) = length (a @ etext e @ ''+'')" using Add.prems(2) by (simp add: mask_length)
  show ?case unfolding etext.simps blanks_split
    using Add.IH(1)[OF s(1) Add.prems(2), of "False # replicate (length (ttext t)) False @ h"] Add.IH(2)[OF s(2) g, of h]
    by (cases "evalue e"; cases "tvalue t") (simp_all add: merge_ops_eq add_join_ops map_conv_bind_option comp_def)
next
  case (Sub e t)
  have s: "s = a @ etext e @ (CHR ''-'' # ttext t @ b)" "s = (a @ etext e @ ''-'') @ ttext t @ b" using Sub.prems by simp_all
  let ?m = "mask_e (before a) (CHR ''-'') e"
  have g: "length (g @ ?m @ [False]) = length (a @ etext e @ ''-'')" using Sub.prems(2) by (simp add: mask_length)
  show ?case unfolding etext.simps blanks_split
    using Sub.IH(1)[OF s(1) Sub.prems(2), of "False # replicate (length (ttext t)) False @ h"] Sub.IH(2)[OF s(2) g, of h]
    by (cases "evalue e"; cases "tvalue t") (simp_all add: merge_ops_eq add_join_ops map_conv_bind_option comp_def)
next
  case (Factor1 f)
  then show ?case by simp
next
  case (Mul t f)
  have s: "s = a @ ttext t @ (CHR ''*'' # ftext f @ b)" "s = (a @ ttext t @ ''*'') @ ftext f @ b" using Mul.prems by simp_all
  let ?m = "mask_t (before a) (CHR ''*'') t"
  have g: "length (g @ ?m @ [False]) = length (a @ ttext t @ ''*'')" using Mul.prems(2) by (simp add: mask_length)
  show ?case unfolding ttext.simps blanks_split
    using Mul.IH(1)[OF s(1) Mul.prems(2), of "False # replicate (length (ftext f)) False @ h"] Mul.IH(2)[OF s(2) g, of h]
    by (cases "tvalue t"; cases "fvalue f")
       (simp_all add: merge_ops_eq mul_join_ops the_term_ops canon_t_single canon_f_single map_conv_bind_option comp_def)
next
  case (Div t f)
  have s: "s = a @ ttext t @ (CHR ''/'' # ftext f @ b)" "s = (a @ ttext t @ ''/'') @ ftext f @ b" using Div.prems by simp_all
  let ?m = "mask_t (before a) (CHR ''/'') t"
  have g: "length (g @ ?m @ [False]) = length (a @ ttext t @ ''/'')" using Div.prems(2) by (simp add: mask_length)
  show ?case unfolding ttext.simps blanks_split
    using Div.IH(1)[OF s(1) Div.prems(2), of "False # replicate (length (ftext f)) False @ h"] Div.IH(2)[OF s(2) g, of h]
    by (cases "tvalue t"; cases "fvalue f")
       (simp_all add: merge_ops_eq mul_join_ops the_term_ops canon_t_single canon_f_single map_conv_bind_option comp_def)
next
  case (Num neg ds)
  then show ?case by (cases "c_int (num_val neg ds)") (simp_all add: num_ops_def flags_none)
next
  case (Par e)
  have s: "s = (a @ ''('') @ etext e @ CHR '')'' # b" "s = a @ CHR ''('' # etext e @ CHR '')'' # b" using Par.prems by simp_all
  have g: "length (g @ [False]) = length (a @ ''('')" using Par.prems(2) by simp
  show ?case unfolding ftext.simps blanks_split
    using Par.IH[OF s(1) g, of "False # h"] close_eq[OF s(2) Par.prems(2), of "mask_e (CHR ''('') (CHR '')'') e"]
    by (cases "evalue e") (simp_all add: mask_length flags_none Let_def replicate_append_same)
qed

lemma rp_parse_value:
  assumes "wf_e isdigit e"
  shows "rp_parse (etext e) Expr 0 (replicate (length (etext e)) False)
    = map_option (\<lambda>v. (seen_val (canon_e (CHR 0x00) (CHR 0x00) e) v, length (etext e), mask_e (CHR 0x00) (CHR 0x00) e)) (evalue e)"
  using rp.parse_whole[OF assms] rp_sem(1)[of "etext e" "[]" e "[]" "[]" "[]"]
  by (cases "evalue e") (simp_all add: before_def after_def)

lemma strip_loop_eq:
  "CHR 0x00 \<notin> set s \<Longrightarrow> length m = length s \<Longrightarrow> length n = length (strip s m) + k \<Longrightarrow> 0 < k \<Longrightarrow>
   strip_loop (a @ s) (b @ m) (c @ n) (length a) (length c) = Some (c @ strip s m @ CHR 0x00 # tl (drop (length (strip s m)) n))"
  if "length a = length b"
  using that
proof (induction s arbitrary: a b c m n)
  case Nil
  then show ?case by (subst strip_loop.simps) (cases n; simp add: ch_def)
next
  case (Cons x s)
  obtain y m' where m: "m = y # m'" using Cons.prems(2) by (cases m) auto
  have x: "x \<noteq> CHR 0x00" "CHR 0x00 \<notin> set s" "ch (a @ x # s) (length b) = Some x"
    using Cons.prems(1,5) by (auto simp: ch_def nth_append)
  show ?case
  proof (cases y)
    case True
    then show ?thesis using Cons.IH[of m' n "a @ [x]" "b @ [y]" c] Cons.prems m x
      by (subst strip_loop.simps) (simp add: nth_append)
  next
    case False
    then obtain z n' where n: "n = z # n'" using Cons.prems(3) m by (cases n) auto
    then show ?thesis using False Cons.IH[of m' n' "a @ [x]" "b @ [y]" "c @ [x]"] Cons.prems m x
      by (subst strip_loop.simps) (simp add: nth_append list_update_append)
  qed
qed

lemma strip_length: "length (strip s m) \<le> length s"
  by (simp add: strip_def) (metis length_filter_le length_zip min.boundedE)

definition canonical :: "aexpr \<Rightarrow> aexpr" where
  "canonical e = canon_e (CHR 0x00) (CHR 0x00) e"

lemma rp_eval_eq:
  assumes "wf_e isdigit e" "evalue e = Some v"
  shows "rp_eval_expr mem (etext e) = Some (if mem then Some (etext (canonical e)) else None, v)"
proof -
  let ?m = "mask_e (CHR 0x00) (CHR 0x00) e"
  have c: "strip (etext e) ?m = etext (canonical e)" by (simp add: canon_text canonical_def)
  have "length (etext (canonical e)) \<le> length (etext e)" using strip_length[of "etext e" ?m] c by simp
  then obtain k where k: "length (etext e) + 1 = length (etext (canonical e)) + k" "0 < k"
    by (intro that[of "length (etext e) + 1 - length (etext (canonical e))"]) simp_all
  obtain b where "strip_loop (etext e) ?m (replicate (length (etext e) + 1) (CHR 0x00)) 0 0 = Some (etext (canonical e) @ CHR 0x00 # b)"
    using strip_loop_eq[of "[]" "[]" "etext e" ?m "replicate (length (etext e) + 1) (CHR 0x00)" k "[]"]
      text_no_nul[OF assms(1)] k c by (simp add: mask_length)
  moreover have "CHR 0x00 \<notin> set (etext (canonical e))"
    using text_no_nul[OF canon_wf(1)[OF assms(1)]] by (simp add: canonical_def)
  then have "cstr (etext (canonical e) @ CHR 0x00 # b) = etext (canonical e)"
    unfolding cstr_def by (subst takeWhile_append2) auto
  ultimately show ?thesis using rp_parse_value[OF assms(1)] assms(2) by (simp add: rp_eval_expr_def)
qed

subsection \<open>The program\<close>

definition rp_ok :: "aexpr \<Rightarrow> bool" where
  "rp_ok e \<longleftrightarrow> wf_e isdigit e \<and> length (etext e) < 512 \<and> evalue e \<noteq> None"

definition rp_input :: "aexpr list \<Rightarrow> string" where
  "rp_input es = concat (map (\<lambda>e. etext e @ ''\<newline>'') es)"

definition rp_answer :: "bool \<Rightarrow> aexpr \<Rightarrow> string" where
  "rp_answer mem e = (if mem then etext (canonical e) @ '' = '' @ show_int (eint e) @ ''\<newline>> '' else ''> '')"

definition rp_error :: "bool \<Rightarrow> string" where
  "rp_error mem = (if mem then [] else ''Error evaluating expression - out of memory?\<newline>'')"

lemma rp_chars: "wf_e isdigit e \<Longrightarrow> x \<in> set (etext e) \<Longrightarrow> \<not> isspace x"
  using text_chars(1)[of isdigit e x] by (auto simp: isdigit_def isspace_def)

lemma rp_loop_eq:
  assumes "\<forall>e\<in>set es. rp_ok e" "list_all isspace b"
  shows "rp_loop mem n (b @ rp_input es)
    = Some (concat (map (\<lambda>(i, e). rp_answer (mem i) e) (enumerate n es)), concat (map (\<lambda>(i, e). rp_error (mem i)) (enumerate n es)))"
  using assms
proof (induction es arbitrary: b n)
  case Nil
  then show ?case using scan_word_end[of b] by (subst rp_loop.simps) (simp add: rp_input_def)
next
  case (Cons e es)
  have e: "wf_e isdigit e" "length (etext e) < 512" using Cons.prems(1) by (simp_all add: rp_ok_def)
  obtain v where v: "evalue e = Some v" using Cons.prems(1) by (auto simp: rp_ok_def)
  have "\<forall>x\<in>set (etext e). \<not> isspace x" using rp_chars[OF e(1)] by blast
  note w = scan_word_line[OF text_nonempty(1)[OF e(1)] this Cons.prems(2)]
  show ?case using w e(2) v Cons.IH[of "''\<newline>''" "Suc n"] Cons.prems(1) cstr_line[OF text_no_nul[OF e(1)]] rp_eval_eq[OF e(1) v, of "mem n"]
    by (subst rp_loop.simps) (simp add: rp_input_def rp_answer_def[of _ e] rp_error_def show_conv_def value_int(1)[OF v])
qed

lemma rp_main_eq:
  assumes "\<forall>e\<in>set es. rp_ok e"
  shows "rp_main mem (rp_input es)
    = Some (''Enter an expression to remove redundant parentheses and evaluate it.\<newline>> ''
            @ concat (map (\<lambda>(i, e). rp_answer (mem i) e) (enumerate 0 es)), concat (map (\<lambda>(i, e). rp_error (mem i)) (enumerate 0 es)))"
  using rp_loop_eq[OF assms, of "[]" mem 0] by (simp add: rp_main_def)

text \<open>
  Property C12. On every sequence of expressions that neither divide by zero nor overflow, the program prints each
  expression without some of its parentheses, and its value. What it prints is an expression again, and an expression with
  the same value if the given one has no division. A failed allocation is reported and does not disturb the others.
\<close>

theorem rp_main_correct:
  assumes "\<forall>e\<in>set es. rp_ok e"
  shows "rp_main mem (rp_input es)
    = Some (''Enter an expression to remove redundant parentheses and evaluate it.\<newline>> ''
            @ concat (map (\<lambda>(i, e). rp_answer (mem i) e) (enumerate 0 es)), concat (map (\<lambda>(i, e). rp_error (mem i)) (enumerate 0 es)))
    \<and> (\<forall>e\<in>set es. evalue e = Some (eint e) \<and> wf_e isdigit (canonical e)
         \<and> (\<exists>m. only_parens (etext e) m \<and> etext (canonical e) = strip (etext e) m)
         \<and> (nodiv_e e \<longrightarrow> eint (canonical e) = eint e))"
proof (intro conjI ballI impI)
  fix e assume "e \<in> set es"
  then have "rp_ok e" using assms by blast
  then obtain v where wf: "wf_e isdigit e" and v: "evalue e = Some v" by (auto simp: rp_ok_def)
  show "evalue e = Some (eint e)" using v value_int(1)[OF v] by simp
  show "wf_e isdigit (canonical e)" unfolding canonical_def by (rule canon_wf(1)[OF wf])
  show "eint (canonical e) = eint e" if "nodiv_e e" using canon_int(1)[OF that] by (simp add: canonical_def)
  show "\<exists>m. only_parens (etext e) m \<and> etext (canonical e) = strip (etext e) m"
    using canon_text(1) mask_parens(1) unfolding canonical_def by metis
qed (rule rp_main_eq[OF assms])

theorem rp_main_correct_witness:
  "rp_main (\<lambda>i. i = 0) ''((4*8)+3)\<newline>4*(8+3)\<newline>''
    = Some (''Enter an expression to remove redundant parentheses and evaluate it.\<newline>> 4*8+3 = 35\<newline>> > '',
            ''Error evaluating expression - out of memory?\<newline>'')"
proof -
  let ?e = "Single (Factor1 (Par (Add (Single (Factor1 (Par (Single (Mul (Factor1 (Num False ''4'')) (Num False ''8'')))))) (Factor1 (Num False ''3'')))))"
  let ?f = "Single (Mul (Factor1 (Num False ''4'')) (Par (Add (Single (Factor1 (Num False ''8''))) (Factor1 (Num False ''3'')))))"
  have "rp_ok ?e" "rp_ok ?f" by (simp_all add: rp_ok_def value_eval isdigit_def)
  then have "\<forall>e\<in>set [?e, ?f]. rp_ok e" by simp
  from rp_main_correct[OF this, of "\<lambda>i. i = 0"] show ?thesis
    by (simp add: rp_input_def rp_answer_def rp_error_def canonical_def keep_def has_sum_def the_term_def value_eval show_eval)
qed

end
