(* ===== verification/Boggle.thy ===== *)
theory Boggle
  imports C_Stdio C_Heap
begin

text \<open>
  \<open>recursion_dp/boggle_board/solution.c\<close>: a board of letters, a dictionary with scores, and the search for the word
  on the board with the best score. The dictionary is a trie on the heap, one of whose allocations may fail (\<open>oom\<close>);
  whether there is memory for the board and for the copies of words is the argument \<open>mem\<close>. What \<open>rand\<close> returns is
  the sequence \<open>R\<close>. An index into an array of 26 that is not below 26 gives \<open>None\<close>.
\<close>

definition ALPHABET_SZ :: nat where "ALPHABET_SZ = 26"
definition MAX_WORD_SZ :: nat where "MAX_WORD_SZ = 512"

text \<open>\<open>(unsigned char) (c-'a')\<close>\<close>

definition letter_index :: "char \<Rightarrow> nat" where
  "letter_index c = nat ((of_char c - 97) mod 256)"

subsection \<open>The board\<close>

type_synonym board = "char list list"

definition get_rand_letter :: "(nat \<Rightarrow> nat) \<Rightarrow> nat \<Rightarrow> (char \<times> nat) c" where
  "get_rand_letter R k = Some (char_of (R k mod 26 + 97), k + 1)"

text \<open>At the end of the input the letter is not initialised.\<close>

definition inject_letter :: "string \<Rightarrow> (char \<times> string) c" where
  "inject_letter input =
     do { r \<leftarrow> scanf '' %c'' input;
          if scan_ret r = 1 then Some (arg_chr (sr_args r ! 0), sr_rest r) else None }"

partial_function (option) usable_letter :: "('s \<Rightarrow> (char \<times> 's) option) \<Rightarrow> nat \<Rightarrow> nat list \<Rightarrow> char \<Rightarrow> 's \<Rightarrow> (char \<times> 's) option" where
  "usable_letter letter_gen n letters_used letter st =
     do { u \<leftarrow> rd letters_used (letter_index letter);
          if u > n then do { (l, st') \<leftarrow> letter_gen st; usable_letter letter_gen n letters_used l st' }
          else Some (letter, st) }"

text \<open>The body of the inner loop, and the two loops over a board that is filled row by row.\<close>

definition place_letter :: "('s \<Rightarrow> (char \<times> 's) option) \<Rightarrow> nat \<Rightarrow> nat list \<Rightarrow> 's \<Rightarrow> (char \<times> nat list \<times> 's) c" where
  "place_letter letter_gen n letters_used st =
     do { (l0, st0) \<leftarrow> letter_gen st;
          (l, st1) \<leftarrow> usable_letter letter_gen n letters_used l0 st0;
          u \<leftarrow> rd letters_used (letter_index l);
          used \<leftarrow> wr letters_used (letter_index l) ((u + 1) mod 2 ^ 32);
          Some (l, used, st1) }"

fun fill_board_row :: "('s \<Rightarrow> (char \<times> 's) option) \<Rightarrow> nat \<Rightarrow> nat \<Rightarrow> nat list \<Rightarrow> 's \<Rightarrow> (string \<times> nat list \<times> 's) c" where
  "fill_board_row letter_gen n 0 letters_used st = Some ([], letters_used, st)"
| "fill_board_row letter_gen n (Suc k) letters_used st =
     do { (l, used, st1) \<leftarrow> place_letter letter_gen n letters_used st;
          (ls, used2, st2) \<leftarrow> fill_board_row letter_gen n k used st1;
          Some (l # ls, used2, st2) }"

fun fill_board :: "('s \<Rightarrow> (char \<times> 's) option) \<Rightarrow> nat \<Rightarrow> nat \<Rightarrow> nat list \<Rightarrow> 's \<Rightarrow> (board \<times> 's) c" where
  "fill_board letter_gen n 0 letters_used st = Some ([], st)"
| "fill_board letter_gen n (Suc k) letters_used st =
     do { (row, used, st1) \<leftarrow> fill_board_row letter_gen n n letters_used st;
          (rows, st2) \<leftarrow> fill_board letter_gen n k used st1;
          Some (row # rows, st2) }"

definition generate_board_aux :: "bool \<Rightarrow> nat \<Rightarrow> ('s \<Rightarrow> (char \<times> 's) option) \<Rightarrow> 's \<Rightarrow> (board \<times> 's) c" where
  "generate_board_aux mem n letter_gen st =
     do { _ \<leftarrow> c_assert mem; fill_board letter_gen n n (replicate ALPHABET_SZ 0) st }"

definition generate_board :: "bool \<Rightarrow> nat \<Rightarrow> (nat \<Rightarrow> nat) \<Rightarrow> nat \<Rightarrow> (board \<times> nat) c" where
  "generate_board mem n R k = generate_board_aux mem n (get_rand_letter R) k"

definition inject_board :: "bool \<Rightarrow> nat \<Rightarrow> string \<Rightarrow> (board \<times> string) c" where
  "inject_board mem n input = generate_board_aux mem n inject_letter input"

text \<open>A board that has been given back is no longer there; \<open>n\<close> rows are freed.\<close>

definition destroy_board :: "board option \<Rightarrow> nat \<Rightarrow> board option c" where
  "destroy_board b n = (case b of None \<Rightarrow> Some None | Some rows \<Rightarrow> do { _ \<leftarrow> those (map (rd rows) [0..<n]); Some None })"

subsection \<open>The search\<close>

definition board_at :: "board \<Rightarrow> int \<Rightarrow> int \<Rightarrow> char c" where
  "board_at b row col = do { r \<leftarrow> rdi b row; rdi r col }"

definition neighbours :: "(int \<times> int) list" where
  "neighbours = [(-1, -1), (-1, 0), (-1, 1), (0, -1), (0, 0), (0, 1), (1, -1), (1, 0), (1, 1)]"

text \<open>
  \<open>find_best_word_aux\<close> and its two loops over the neighbours. They return the word, its score and the contents of
  the buffer of \<open>buff_sz\<close> bytes; \<open>sc\<close> is the function \<open>score\<close>. A step that would write behind the end of
  the buffer gives \<open>None\<close>; the test \<open>buff_i + 1 < buff_sz\<close> says so once more and makes the recursion end.
\<close>

function find_best_word_aux ::
    "bool \<Rightarrow> (string \<Rightarrow> int c) \<Rightarrow> board \<Rightarrow> nat \<Rightarrow> nat \<Rightarrow> int \<Rightarrow> int \<Rightarrow> string \<Rightarrow> nat \<Rightarrow> (string option \<times> int \<times> string) c"
  and try_neighbours ::
    "bool \<Rightarrow> (string \<Rightarrow> int c) \<Rightarrow> board \<Rightarrow> nat \<Rightarrow> nat \<Rightarrow> int \<Rightarrow> int \<Rightarrow> string \<Rightarrow> nat \<Rightarrow> (int \<times> int) list \<Rightarrow> string option \<Rightarrow> int
      \<Rightarrow> (string option \<times> int \<times> string) c"
where
  "find_best_word_aux mem sc b board_dims buff_sz row col word_buff buff_i =
     (if row < 0 \<or> row = int board_dims \<or> col < 0 \<or> col = int board_dims then Some (None, - 1, word_buff)
      else if buff_i = buff_sz - 1
      then do { buf \<leftarrow> wr word_buff buff_i (CHR 0x00);
                best_score \<leftarrow> sc (cstr buf);
                if best_score = - 1 then Some (None, - 1, buf)
                else do { _ \<leftarrow> c_assert mem; Some (Some (cstr buf), best_score, buf) } }
      else if buff_i + 1 < buff_sz
      then do { x \<leftarrow> board_at b row col;
                buf1 \<leftarrow> wr word_buff buff_i x;
                buf \<leftarrow> wr buf1 (buff_i + 1) (CHR 0x00);
                best_so_far \<leftarrow> sc (cstr buf);
                if best_so_far = - 1 then Some (None, - 1, buf)
                else do { _ \<leftarrow> c_assert mem;
                          try_neighbours mem sc b board_dims buff_sz row col buf buff_i neighbours (Some (cstr buf)) best_so_far } }
      else None)"
| "try_neighbours mem sc b board_dims buff_sz row col word_buff buff_i [] best_word best_so_far = Some (best_word, best_so_far, word_buff)"
| "try_neighbours mem sc b board_dims buff_sz row col word_buff buff_i ((i, j) # ds) best_word best_so_far =
     (if i = 0 \<and> j = 0 then try_neighbours mem sc b board_dims buff_sz row col word_buff buff_i ds best_word best_so_far
      else if buff_i + 1 < buff_sz
      then do { (w, score, buf) \<leftarrow> find_best_word_aux mem sc b board_dims buff_sz (row + i) (col + j) word_buff (buff_i + 1);
                if score > best_so_far
                then try_neighbours mem sc b board_dims buff_sz row col buf buff_i ds w score
                else try_neighbours mem sc b board_dims buff_sz row col buf buff_i ds best_word best_so_far }
      else None)"
  by pat_completeness auto
termination
  by (relation "measures [\<lambda>x. case x of Inl (mem, sc, b, n, sz, r, c, buf, i) \<Rightarrow> 2 * (sz - i)
                              | Inr (mem, sc, b, n, sz, r, c, buf, i, ds, w, s) \<Rightarrow> 2 * (sz - i) - 1,
                           \<lambda>x. case x of Inl _ \<Rightarrow> 0 | Inr (mem, sc, b, n, sz, r, c, buf, i, ds, w, s) \<Rightarrow> length ds]")
     auto

declare find_best_word_aux.simps [simp del] try_neighbours.simps(2) [simp del]

definition WORD_BUFFER_SZ :: nat where "WORD_BUFFER_SZ = 1024"

fun best_of_cells :: "bool \<Rightarrow> (string \<Rightarrow> int c) \<Rightarrow> board \<Rightarrow> nat \<Rightarrow> (nat \<times> nat) list \<Rightarrow> string \<Rightarrow> string option \<Rightarrow> int \<Rightarrow> (string option \<times> string) c" where
  "best_of_cells mem sc b board_dim [] word_buffer word best_score = Some (word, word_buffer)"
| "best_of_cells mem sc b board_dim ((i, j) # cs) word_buffer word best_score =
     do { (w, score, buf) \<leftarrow> find_best_word_aux mem sc b board_dim WORD_BUFFER_SZ (int i) (int j) word_buffer 0;
          if score > best_score then best_of_cells mem sc b board_dim cs buf w score
          else best_of_cells mem sc b board_dim cs buf word best_score }"

text \<open>The two loops visit the cells row by row.\<close>

definition find_best_word :: "bool \<Rightarrow> (string \<Rightarrow> int c) \<Rightarrow> board \<Rightarrow> nat \<Rightarrow> string \<Rightarrow> (string option \<times> string) c" where
  "find_best_word mem sc b board_dim word_buffer =
     best_of_cells mem sc b board_dim (List.product [0..<board_dim] [0..<board_dim]) word_buffer None (- 1)"

subsection \<open>The dictionary\<close>

record bg_trie_node =
  score :: int
  children_count :: nat
  children :: "ptr list"

type_synonym trie_heap = "bg_trie_node heap"

definition new_node :: "trie_heap \<Rightarrow> ptr \<times> trie_heap" where
  "new_node h = malloc h \<lparr>score = - 1, children_count = 0, children = replicate ALPHABET_SZ None\<rparr>"

definition new_trie :: "trie_heap \<Rightarrow> ptr \<times> trie_heap" where
  "new_trie h = new_node h"

text \<open>A call of \<open>destroy_trie\<close>, or its loop for the node \<open>a\<close> from the child \<open>i\<close> on.\<close>

datatype destroy_call = Destroy ptr | Destroy_children ptr nat

partial_function (option) destroy_trie :: "trie_heap \<Rightarrow> destroy_call \<Rightarrow> trie_heap option" where
  "destroy_trie h k =
     (case k of
        Destroy root \<Rightarrow>
          (if root = None then Some h else do { h1 \<leftarrow> destroy_trie h (Destroy_children root 0); free h1 root })
      | Destroy_children root i \<Rightarrow>
          (if i < ALPHABET_SZ
           then do { n \<leftarrow> deref h root;
                     c \<leftarrow> rd (children n) i;
                     h1 \<leftarrow> destroy_trie h (Destroy c);
                     destroy_trie h1 (Destroy_children root (i + 1)) }
           else Some h))"

text \<open>The two loops of \<open>insert_word\<close>, with the letters from \<open>word[word_i]\<close> on.\<close>

fun find_prefix :: "trie_heap \<Rightarrow> ptr \<Rightarrow> string \<Rightarrow> (ptr \<times> string) c" where
  "find_prefix h curr_node [] = Some (curr_node, [])"
| "find_prefix h curr_node (x # w) =
     do { n \<leftarrow> deref h curr_node;
          c \<leftarrow> rd (children n) (letter_index x);
          if c \<noteq> None then find_prefix h c w else Some (curr_node, x # w) }"

fun add_suffix :: "trie_heap \<Rightarrow> ptr \<Rightarrow> string \<Rightarrow> (trie_heap \<times> ptr) c" where
  "add_suffix h curr_node [] = Some (h, curr_node)"
| "add_suffix h curr_node (x # w) =
     do { let (n, h1) = new_node h;
          _ \<leftarrow> c_assert (n \<noteq> None);
          m \<leftarrow> deref h1 curr_node;
          cs \<leftarrow> wr (children m) (letter_index x) n;
          h2 \<leftarrow> store h1 curr_node (\<lambda>k. k\<lparr>children := cs, children_count := (children_count k + 1) mod 2 ^ 32\<rparr>);
          add_suffix h2 n w }"

definition insert_word :: "trie_heap \<Rightarrow> ptr \<Rightarrow> string \<Rightarrow> int \<Rightarrow> trie_heap c" where
  "insert_word h root word s =
     do { (curr_node, rest) \<leftarrow> find_prefix h root word;
          if rest = [] then store h curr_node (\<lambda>n. n\<lparr>score := s\<rparr>)
          else do { (h1, last_node) \<leftarrow> add_suffix h curr_node rest; store h1 last_node (\<lambda>n. n\<lparr>score := s\<rparr>) } }"

fun delete_word_aux :: "trie_heap \<Rightarrow> ptr \<Rightarrow> string \<Rightarrow> (bool \<times> trie_heap) c" where
  "delete_word_aux h root [] =
     do { n \<leftarrow> deref h root;
          if score n \<noteq> - 1 then do { h' \<leftarrow> store h root (\<lambda>n. n\<lparr>score := - 1\<rparr>); Some (True, h') } else Some (False, h) }"
| "delete_word_aux h root (x # w) =
     do { n \<leftarrow> deref h root;
          c \<leftarrow> rd (children n) (letter_index x);
          if c = None then Some (False, h)
          else do { (ret, h1) \<leftarrow> delete_word_aux h c w;
                    m \<leftarrow> deref h1 c;
                    if ret \<and> children_count m = 0 \<and> score m \<noteq> - 1
                    then do { h2 \<leftarrow> free h1 c;
                              k \<leftarrow> deref h2 root;
                              cs \<leftarrow> wr (children k) (letter_index x) None;
                              h3 \<leftarrow> store h2 root (\<lambda>k. k\<lparr>children := cs, children_count := (children_count k + 2 ^ 32 - 1) mod 2 ^ 32\<rparr>);
                              Some (ret, h3) }
                    else Some (ret, h1) } }"

definition delete_word :: "trie_heap \<Rightarrow> ptr \<Rightarrow> string \<Rightarrow> trie_heap c" where
  "delete_word h root word = do { (_, h') \<leftarrow> delete_word_aux h root word; Some h' }"

definition word_score :: "trie_heap \<Rightarrow> ptr \<Rightarrow> string \<Rightarrow> int c" where
  "word_score h root word =
     do { (curr_node, rest) \<leftarrow> find_prefix h root word;
          if curr_node = None \<or> rest \<noteq> [] then Some (- 1) else do { n \<leftarrow> deref h curr_node; Some (score n) } }"

text \<open>A call of \<open>print_words\<close>, or its loop; the buffer \<open>curr_word\<close> is static.\<close>

datatype print_call = Print_node ptr nat | Print_children ptr nat nat

partial_function (option) print_words :: "trie_heap \<Rightarrow> string \<Rightarrow> print_call \<Rightarrow> (string \<times> string) option" where
  "print_words h curr_word k =
     (case k of
        Print_node root buff_i \<Rightarrow>
          (if root = None then Some (curr_word, [])
           else do { n \<leftarrow> deref h root;
                     (buf, out) \<leftarrow> (if score n \<noteq> - 1
                       then do { b \<leftarrow> wr curr_word buff_i (CHR 0x00);
                                 Some (b, printf ''%s -> %d\<newline>'' [StrA (cstr b), IntA (score n)]) }
                       else Some (curr_word, []));
                     (buf', out') \<leftarrow> print_words h buf (Print_children root buff_i 0);
                     Some (buf', out @ out') })
      | Print_children root buff_i i \<Rightarrow>
          (if i < ALPHABET_SZ
           then do { b \<leftarrow> wr curr_word buff_i (char_of (97 + i));
                     n \<leftarrow> deref h root;
                     c \<leftarrow> rd (children n) i;
                     (buf, out) \<leftarrow> print_words h b (Print_node c (buff_i + 1));
                     (buf', out') \<leftarrow> print_words h buf (Print_children root buff_i (i + 1));
                     Some (buf', out @ out') }
           else Some (curr_word, [])))"

definition print_known_words :: "trie_heap \<Rightarrow> string \<Rightarrow> ptr \<Rightarrow> (string \<times> string) c" where
  "print_known_words h curr_word root = print_words h curr_word (Print_node root 0)"

definition print_board :: "board \<Rightarrow> nat \<Rightarrow> string c" where
  "print_board b n =
     do { rows \<leftarrow> those (map (\<lambda>i. do { r \<leftarrow> rd b i; those (map (rd r) [0..<n]) }) [0..<n]);
          Some (concat (map (\<lambda>row. row @ ''\<newline>'') rows)) }"

subsection \<open>The commands\<close>

record bg_state =
  tr_heap :: trie_heap
  trie :: ptr
  brd :: "board option"
  board_dim :: nat
  word_buff :: string
  word_buffer :: string
  curr_word :: string
  inp :: string
  rnd :: nat

text \<open>The conversion of the score from \<open>size_t\<close> to \<open>int\<close> keeps its low 32 bits.\<close>

definition to_int :: "int \<Rightarrow> int" where
  "to_int v = (v + 2 ^ 31) mod 2 ^ 32 - 2 ^ 31"

definition read_dim :: "bg_state \<Rightarrow> bg_state c" where
  "read_dim st =
     do { r \<leftarrow> scanf ''%zu'' (inp st);
          Some (st\<lparr>board_dim := (if scan_ret r = 1 then nat (arg_int (sr_args r ! 0)) else board_dim st), inp := sr_rest r\<rparr>) }"

definition read_word :: "bg_state \<Rightarrow> bg_state c" where
  "read_word st =
     do { r \<leftarrow> scanf ''%s'' (inp st);
          if scan_ret r = 1
          then do { let w = arg_str (sr_args r ! 0);
                    _ \<leftarrow> c_assert (length w < MAX_WORD_SZ);
                    Some (st\<lparr>word_buff := cstr w, inp := sr_rest r\<rparr>) }
          else Some (st\<lparr>inp := sr_rest r\<rparr>) }"

text \<open>Without a number the score is not initialised; without a word the buffer keeps what it has.\<close>

definition read_scored_word :: "bg_state \<Rightarrow> (int \<times> bg_state) c" where
  "read_scored_word st =
     do { r \<leftarrow> scanf ''%zu%s'' (inp st);
          if scan_ret r = 2
          then do { let w = arg_str (sr_args r ! 1);
                    _ \<leftarrow> c_assert (length w < MAX_WORD_SZ);
                    Some (to_int (arg_int (sr_args r ! 0)), st\<lparr>word_buff := cstr w, inp := sr_rest r\<rparr>) }
          else if scan_ret r = 1 then Some (to_int (arg_int (sr_args r ! 0)), st\<lparr>inp := sr_rest r\<rparr>)
          else None }"

fun insert_prefixes :: "trie_heap \<Rightarrow> ptr \<Rightarrow> string \<Rightarrow> nat list \<Rightarrow> trie_heap c" where
  "insert_prefixes h root w [] = Some h"
| "insert_prefixes h root w (i # is) = do { h1 \<leftarrow> insert_word h root (take i w) 0; insert_prefixes h1 root w is }"

text \<open>One command: the new state and what is written to the two outputs.\<close>

definition bg_command :: "bool \<Rightarrow> (nat \<Rightarrow> nat) \<Rightarrow> bg_state \<Rightarrow> char \<Rightarrow> (bg_state \<times> string \<times> string) c" where
  "bg_command mem R st op =
     (if op = CHR ''I'' then
        do { gone \<leftarrow> destroy_board (brd st) (board_dim st);
             st1 \<leftarrow> read_dim (st\<lparr>brd := gone\<rparr>);
             (b, rest) \<leftarrow> inject_board mem (board_dim st1) (inp st1);
             Some (st1\<lparr>brd := Some b, inp := rest\<rparr>, [], []) }
      else if op = CHR ''P'' then
        (case brd st of
           None \<Rightarrow> Some (st, printf ''No board at the moment\<newline>'' [], [])
         | Some b \<Rightarrow> do { t \<leftarrow> print_board b (board_dim st); Some (st, t, []) })
      else if op = CHR ''G'' then
        do { gone \<leftarrow> destroy_board (brd st) (board_dim st);
             st1 \<leftarrow> read_dim (st\<lparr>brd := gone\<rparr>);
             (b, k) \<leftarrow> generate_board mem (board_dim st1) R (rnd st1);
             Some (st1\<lparr>brd := Some b, rnd := k\<rparr>, [], []) }
      else if op = CHR ''W'' then
        do { (s, st1) \<leftarrow> read_scored_word st;
             h \<leftarrow> insert_word (tr_heap st1) (trie st1) (word_buff st1) s;
             Some (st1\<lparr>tr_heap := h\<rparr>, [], []) }
      else if op = CHR ''A'' then
        do { (s, st1) \<leftarrow> read_scored_word st;
             let w = word_buff st1;
             h \<leftarrow> insert_prefixes (tr_heap st1) (trie st1) w [1..<length w];
             h' \<leftarrow> insert_word h (trie st1) w s;
             Some (st1\<lparr>tr_heap := h'\<rparr>, [], []) }
      else if op = CHR ''R'' then
        do { st1 \<leftarrow> read_word st;
             h \<leftarrow> delete_word (tr_heap st1) (trie st1) (word_buff st1);
             Some (st1\<lparr>tr_heap := h\<rparr>, [], []) }
      else if op = CHR ''S'' then
        do { st1 \<leftarrow> read_word st;
             s \<leftarrow> word_score (tr_heap st1) (trie st1) (word_buff st1);
             Some (st1, if s = - 1 then printf ''No such word: %s\<newline>'' [StrA (word_buff st1)]
                        else printf ''score(%s) = %d\<newline>'' [StrA (word_buff st1), IntA s], []) }
      else if op = CHR ''D'' then
        do { (b, t) \<leftarrow> print_known_words (tr_heap st) (curr_word st) (trie st);
             Some (st\<lparr>curr_word := b\<rparr>, t, []) }
      else if op = CHR ''B'' then
        do { (w, buf) \<leftarrow> find_best_word mem (word_score (tr_heap st) (trie st)) (case brd st of None \<Rightarrow> [] | Some b \<Rightarrow> b)
               (board_dim st) (word_buffer st);
             Some (st\<lparr>word_buffer := buf\<rparr>,
                   (case w of None \<Rightarrow> printf ''No words found\<newline>'' [] | Some t \<Rightarrow> printf ''Best word: %s\<newline>'' [StrA t]), []) }
      else Some (st, [], printf ''Unrecognized operation: %c\<newline>'' [ChrA op]))"

text \<open>The loop of \<open>main\<close>, which destroys the trie and the board at its end.\<close>

partial_function (option) bg_loop :: "bool \<Rightarrow> (nat \<Rightarrow> nat) \<Rightarrow> bg_state \<Rightarrow> (bg_state \<times> string \<times> string) option" where
  "bg_loop mem R st =
     do { r \<leftarrow> scanf '' %c'' (inp st);
          let st0 = st\<lparr>inp := sr_rest r\<rparr>;
          if scan_ret r \<noteq> 1 \<or> arg_chr (sr_args r ! 0) = CHR ''Q'' then Some (st0, [], [])
          else do { (st1, out, err) \<leftarrow> bg_command mem R st0 (arg_chr (sr_args r ! 0));
                    (st2, out', err') \<leftarrow> bg_loop mem R st1;
                    Some (st2, out @ printf ''> '' [] @ out', err @ err') } }"

definition bg_banner :: string where
  "bg_banner =
     printf (''The available commands are:\<newline>''
       @ ''I N - Inject an NxN board. This command will scan NxN letters to form a board\<newline>''
       @ ''G N - Generates a new NxN board where a letter doesn't appear more than N times\<newline>''
       @ ''P - Print the current board\<newline>''
       @ ''W N word - Insert a word into the dictionary with score N\<newline>''
       @ ''A N word - Insert a word and all prefixes in the dictionary. Non-proper prefixes get a score of 0\<newline>''
       @ ''R word - Delete a word\<newline>''
       @ ''S word - Search for a word and return its score (-1 if no such word exists)\<newline>''
       @ ''D - Dump the dictionary with the corresponding scores\<newline>''
       @ ''B - Find the best word (word with the highest score)\<newline>''
       @ ''Q - Quit\<newline>''
       @ ''> '') []"

definition bg_start :: "(nat \<Rightarrow> bool) \<Rightarrow> string \<Rightarrow> bg_state" where
  "bg_start f input =
     (let (root, h) = new_trie (empty_heap f) in
      \<lparr>tr_heap = h, trie = root, brd = None, board_dim = 0, word_buff = [], word_buffer = replicate WORD_BUFFER_SZ (CHR 0x00),
       curr_word = replicate MAX_WORD_SZ (CHR 0x00), inp = input, rnd = 0\<rparr>)"

text \<open>The cells that are still allocated at the end, and the two outputs.\<close>

definition bg_main :: "bool \<Rightarrow> (nat \<Rightarrow> bool) \<Rightarrow> (nat \<Rightarrow> nat) \<Rightarrow> string \<Rightarrow> (trie_heap \<times> string \<times> string) c" where
  "bg_main mem f R input =
     do { (st, out, err) \<leftarrow> bg_loop mem R (bg_start f input);
          h \<leftarrow> destroy_trie (tr_heap st) (Destroy (trie st));
          _ \<leftarrow> destroy_board (brd st) (board_dim st);
          Some (h, bg_banner @ out, err) }"

end
