(* ===== verification/Boggle_Trie.thy ===== *)
theory Boggle_Trie
  imports Boggle
begin

text \<open>
  The dictionary of the boggle program is a map from words to scores. A word is followed down the trie as the list of
  the indices of its letters; the score at the end of its path is the abstraction. Insertion and deletion update the map
  at one word; the dump lists the words in alphabetical order; the destruction frees all cells.
\<close>

subsection \<open>Letters\<close>

definition lower :: "char \<Rightarrow> bool" where
  "lower c \<longleftrightarrow> 97 \<le> (of_char c :: nat) \<and> (of_char c :: nat) \<le> 122"

definition lower_word :: "string \<Rightarrow> bool" where
  "lower_word w \<longleftrightarrow> list_all lower w"

definition letter :: "nat \<Rightarrow> char" where
  "letter i = char_of (97 + i)"

abbreviation indices :: "string \<Rightarrow> nat list" where
  "indices w \<equiv> map letter_index w"

lemma letter_index_lower: "lower c \<Longrightarrow> letter_index c = of_char c - 97"
proof -
  assume l: "lower c"
  have "int (of_char c) = (of_char c :: int)" by (rule of_nat_of_char)
  then have "(of_char c :: int) - 97 = int (of_char c - 97)" using l by (simp add: lower_def)
  then show ?thesis using l by (simp add: letter_index_def lower_def)
qed

lemma letter_index_less: "lower c \<Longrightarrow> letter_index c < 26"
  by (auto simp: letter_index_lower lower_def)

lemma letter_letter_index: "lower c \<Longrightarrow> letter (letter_index c) = c"
  by (simp add: letter_def letter_index_lower) (simp add: lower_def)

lemma lower_letter: "i < 26 \<Longrightarrow> lower (letter i)" "i < 26 \<Longrightarrow> letter_index (letter i) = i"
proof -
  assume i: "i < 26"
  then have o: "of_char (letter i) = 97 + i" by (simp add: letter_def)
  then show "lower (letter i)" using i by (simp add: lower_def)
  then show "letter_index (letter i) = i" using o by (simp add: letter_index_lower)
qed

lemma letters_indices: "lower_word w \<Longrightarrow> map letter (indices w) = w"
  by (induction w) (simp_all add: lower_word_def letter_letter_index)

lemma indices_inj: "lower_word v \<Longrightarrow> lower_word w \<Longrightarrow> indices v = indices w \<longleftrightarrow> v = w"
  using letters_indices by metis

subsection \<open>Paths\<close>

definition child :: "trie_heap \<Rightarrow> nat \<Rightarrow> nat \<Rightarrow> ptr" where
  "child h a i = (case cells h a of None \<Rightarrow> None | Some n \<Rightarrow> if i < ALPHABET_SZ then children n ! i else None)"

definition trail :: "trie_heap \<Rightarrow> nat \<Rightarrow> nat list \<Rightarrow> ptr" where
  "trail h r is = foldl (\<lambda>p i. Option.bind p (\<lambda>a. child h a i)) (Some r) is"

lemma trail_Nil [simp]: "trail h r [] = Some r"
  by (simp add: trail_def)

lemma trail_snoc: "trail h r (is @ [i]) = Option.bind (trail h r is) (\<lambda>a. child h a i)"
  by (simp add: trail_def)

lemma trail_prefix: "trail h r (is @ js) = Some a \<Longrightarrow> \<exists>b. trail h r is = Some b"
proof (induction js arbitrary: a rule: rev_induct)
  case (snoc j js)
  then show ?case by (metis append_assoc bind_eq_Some_conv trail_snoc)
qed simp

lemma trail_None: "trail h r is = None \<Longrightarrow> trail h r (is @ js) = None"
  using trail_prefix[of h r "is" js] by (cases "trail h r (is @ js)") auto

lemma trail_index: "trail h r (is @ [i]) = Some a \<Longrightarrow> i < ALPHABET_SZ"
  by (auto simp: trail_snoc child_def bind_eq_Some_conv split: option.splits if_splits)

text \<open>The shape: every cell is reached by exactly one path, of at most 511 letters, and counts its children.\<close>

definition node_ok :: "bg_trie_node \<Rightarrow> bool" where
  "node_ok n \<longleftrightarrow> length (children n) = ALPHABET_SZ \<and> children_count n = length (filter (\<lambda>p. p \<noteq> None) (children n))"

definition trie_ok :: "trie_heap \<Rightarrow> nat \<Rightarrow> bool" where
  "trie_ok h r \<longleftrightarrow> heap_ok h
     \<and> (\<forall>is a. trail h r is = Some a \<longrightarrow> length is < MAX_WORD_SZ \<and> (\<exists>n. cells h a = Some n \<and> node_ok n))
     \<and> (\<forall>is js a. trail h r is = Some a \<longrightarrow> trail h r js = Some a \<longrightarrow> is = js)
     \<and> (\<forall>a. cells h a \<noteq> None \<longrightarrow> (\<exists>is. trail h r is = Some a))"

definition dict :: "trie_heap \<Rightarrow> nat \<Rightarrow> nat list \<Rightarrow> int" where
  "dict h r is = (case trail h r is of None \<Rightarrow> - 1 | Some a \<Rightarrow> (case cells h a of None \<Rightarrow> - 1 | Some n \<Rightarrow> score n))"

lemma trie_okD:
  assumes "trie_ok h r" "trail h r is = Some a"
  shows "\<exists>n. cells h a = Some n \<and> node_ok n" "length is < MAX_WORD_SZ" "trail h r js = Some a \<Longrightarrow> js = is"
  using assms unfolding trie_ok_def by blast+

lemma dict_None: "trail h r is = None \<Longrightarrow> dict h r is = - 1"
  by (simp add: dict_def)

lemma child_Some: "cells h a = Some n \<Longrightarrow> i < ALPHABET_SZ \<Longrightarrow> child h a i = children n ! i"
  by (simp add: child_def)

lemma find_prefix_eq:
  assumes "trie_ok h r" "trail h r p = Some a" "lower_word w"
  shows "\<exists>u rest b. w = u @ rest \<and> find_prefix h (Some a) w = Some (Some b, rest) \<and> trail h r (p @ indices u) = Some b
    \<and> (rest \<noteq> [] \<longrightarrow> trail h r (p @ indices (u @ [hd rest])) = None)"
  using assms(2,3)
proof (induction w arbitrary: p a)
  case (Cons x w)
  obtain n where n: "cells h a = Some n" "node_ok n" using trie_okD(1)[OF assms(1) Cons.prems(1)] by blast
  have x: "letter_index x < ALPHABET_SZ" using Cons.prems(2) by (simp add: lower_word_def ALPHABET_SZ_def letter_index_less)
  have wx: "trail h r (p @ [letter_index x]) = children n ! letter_index x"
    using Cons.prems(1) n(1) x by (simp add: trail_snoc child_Some)
  show ?case
  proof (cases "children n ! letter_index x")
    case None
    then show ?thesis using n x wx Cons.prems(1) by (intro exI[of _ "[]"] exI[of _ "x # w"] exI[of _ a]) (simp add: node_ok_def)
  next
    case (Some c)
    then obtain u rest b where "w = u @ rest" "find_prefix h (Some c) w = Some (Some b, rest)"
      "trail h r ((p @ [letter_index x]) @ indices u) = Some b"
      "rest \<noteq> [] \<longrightarrow> trail h r ((p @ [letter_index x]) @ indices (u @ [hd rest])) = None"
      using Cons.IH[of "p @ [letter_index x]" c] wx Cons.prems(2) by (auto simp: lower_word_def)
    then show ?thesis using n x Some by (intro exI[of _ "x # u"] exI[of _ rest] exI[of _ b]) (simp add: node_ok_def)
  qed
qed (use assms in simp)

lemma word_score_eq:
  assumes "trie_ok h r" "lower_word w"
  shows "word_score h (Some r) w = Some (dict h r (indices w))"
proof -
  obtain u rest b where u: "w = u @ rest" "find_prefix h (Some r) w = Some (Some b, rest)" "trail h r (indices u) = Some b"
    "rest \<noteq> [] \<longrightarrow> trail h r (indices (u @ [hd rest])) = None"
    using find_prefix_eq[OF assms(1) _ assms(2), of "[]" r] by auto
  obtain n where "cells h b = Some n" using trie_okD(1)[OF assms(1) u(3)] by blast
  moreover have "trail h r (indices w) = None" if "rest \<noteq> []"
    using trail_None[of h r "indices (u @ [hd rest])" "indices (tl rest)"] u that by (cases rest) auto
  ultimately show ?thesis using u by (cases "rest = []") (auto simp: word_score_def dict_def)
qed

subsection \<open>Changing a score\<close>

lemma trail_cong: "(\<And>a i. child h' a i = child h a i) \<Longrightarrow> trail h' r is = trail h r is"
  by (simp add: trail_def)

lemma store_score:
  assumes ok: "trie_ok h r" and p: "trail h r p = Some a" and n: "cells h a = Some n"
    and h': "cells h' = (cells h)(a \<mapsto> n\<lparr>score := s\<rparr>)" "fresh h' = fresh h"
  shows "trie_ok h' r" "dict h' r = (dict h r)(p := s)" "trail h' r = trail h r"
proof -
  have w: "trail h' r is = trail h r is" for "is"
    using n by (intro trail_cong) (auto simp: child_def h')
  have "heap_ok h'" using ok n h' by (auto simp: trie_ok_def heap_ok_def)
  moreover have "\<exists>m. cells h' x = Some m \<and> node_ok m" if "trail h r is = Some x" for "is" x
    using trie_okD(1)[OF ok that] trie_okD(1)[OF ok p] n by (cases "x = a") (auto simp: h' node_ok_def)
  moreover have "cells h' x \<noteq> None \<longleftrightarrow> cells h x \<noteq> None" for x using n by (auto simp: h')
  ultimately show "trie_ok h' r" using ok unfolding trie_ok_def w by simp
  show "trail h' r = trail h r" using w by blast
  show "dict h' r = (dict h r)(p := s)"
  proof
    fix "is"
    show "dict h' r is = ((dict h r)(p := s)) is"
      using p n trie_okD(3)[OF ok p, of "is"] by (cases "trail h r is") (auto simp: dict_def w h')
  qed
qed

subsection \<open>Adding a node\<close>

definition empty_node :: bg_trie_node where
  "empty_node = \<lparr>score = - 1, children_count = 0, children = replicate ALPHABET_SZ None\<rparr>"

lemma node_ok_empty [simp]: "node_ok empty_node" "score empty_node = - 1"
  by (simp_all add: node_ok_def empty_node_def)

lemma filter_update: "i < length cs \<Longrightarrow> cs ! i = None \<Longrightarrow>
    length (filter (\<lambda>p. p \<noteq> None) (cs[i := Some f])) = Suc (length (filter (\<lambda>p. p \<noteq> None) cs))"
  by (induction cs arbitrary: i) (auto split: nat.splits)

lemma node_ok_add:
  assumes "node_ok n" "i < ALPHABET_SZ" "children n ! i = None"
  shows "node_ok (n\<lparr>children := (children n)[i := Some f], children_count := (children_count n + 1) mod 2 ^ 32\<rparr>)"
proof -
  let ?P = "\<lambda>p. p \<noteq> (None :: ptr)"
  have "length (filter ?P ((children n)[i := Some f])) = Suc (length (filter ?P (children n)))"
    using assms by (simp add: filter_update node_ok_def del: not_None_eq)
  moreover have "length (filter ?P ((children n)[i := Some f])) \<le> 26"
    using assms(1) length_filter_le[of ?P "(children n)[i := Some f]"] by (simp add: node_ok_def ALPHABET_SZ_def)
  ultimately show ?thesis using assms(1) by (simp add: node_ok_def)
qed

lemma add_node_trail:
  assumes ok: "trie_ok h r" and p: "trail h r p = Some a" and n: "cells h a = Some n" and i: "i < ALPHABET_SZ"
    and none: "child h a i = None" and f: "cells h f = None"
    and h': "cells h' = (cells h)(a \<mapsto> n\<lparr>children := (children n)[i := Some f], children_count := k\<rparr>, f \<mapsto> empty_node)"
  shows "trail h' r cs = (if cs = p @ [i] then Some f else trail h r cs)"
proof (induction cs rule: rev_induct)
  case Nil
  then show ?case by simp
next
  case (snoc c cs)
  have len: "length (children n) = ALPHABET_SZ" using trie_okD(1)[OF ok p] n by (auto simp: node_ok_def)
  have "a \<noteq> f" using n f by auto
  show ?case
  proof (cases "cs = p @ [i]")
    case True
    have "child h' f c = None" by (simp add: child_def h' empty_node_def)
    moreover have "trail h r cs = None" using True none p by (simp add: trail_snoc)
    ultimately show ?thesis using True snoc by (simp only: trail_snoc) simp
  next
    case False
    show ?thesis
    proof (cases "cs = p")
      case True
      have "child h' a c = (if c = i then Some f else child h a c)"
        using n len i \<open>a \<noteq> f\<close> by (auto simp: child_def h' nth_list_update)
      then show ?thesis using True False snoc p by (simp add: trail_snoc)
    next
      case False': False
      have "child h' x c = child h x c" if "trail h r cs = Some x" for x
      proof -
        have "x \<noteq> a" using trie_okD(3)[OF ok p, of cs] that False' by auto
        moreover have "x \<noteq> f" using trie_okD(1)[OF ok that] f by auto
        ultimately show ?thesis by (simp add: child_def h')
      qed
      then show ?thesis using False False' snoc by (cases "trail h r cs") (auto simp: trail_snoc)
    qed
  qed
qed

lemma add_node_ok:
  assumes ok: "trie_ok h r" and p: "trail h r p = Some a" and n: "cells h a = Some n" and i: "i < ALPHABET_SZ"
    and none: "child h a i = None" and len: "length p + 1 < MAX_WORD_SZ" and fr: "fresh h' = Suc (fresh h)"
    and h': "cells h' = (cells h)(a \<mapsto> n\<lparr>children := (children n)[i := Some (fresh h)], children_count := (children_count n + 1) mod 2 ^ 32\<rparr>,
      fresh h \<mapsto> empty_node)"
  shows "trie_ok h' r" "dict h' r = dict h r" "trail h' r (p @ [i]) = Some (fresh h)" "child h' (fresh h) j = None"
proof -
  let ?f = "fresh h"
  have hok: "heap_ok h" using ok by (simp add: trie_ok_def)
  have f: "cells h ?f = None" using heap_ok_fresh[OF hok] .
  then have af: "a \<noteq> ?f" using n by auto
  note w = add_node_trail[OF ok p n i none f h']
  have nok: "node_ok n" using trie_okD(1)[OF ok p] n by auto
  have nw: "trail h r cs \<noteq> Some ?f" for cs using trie_okD(1)[OF ok, of cs ?f] f by auto
  have "children n ! i = None" using none n i by (simp add: child_Some)
  note new = node_ok_add[OF nok i this, of ?f]
  have "heap_ok h'" using hok n(1) fr by (auto simp: heap_ok_def h' less_Suc_eq)
  moreover have "length cs < MAX_WORD_SZ \<and> (\<exists>m. cells h' x = Some m \<and> node_ok m)"
    if "trail h' r cs = Some x" for cs x
  proof (cases "cs = p @ [i]")
    case True
    with that w len show ?thesis by (simp add: h')
  next
    case False
    with that w have x: "trail h r cs = Some x" by simp
    with nw have "x \<noteq> ?f" by auto
    then show ?thesis using trie_okD(1,2)[OF ok x] new n by (cases "x = a") (auto simp: h')
  qed
  moreover have "bs = cs" if "trail h' r bs = Some x" "trail h' r cs = Some x" for bs cs x
    using that w nw trie_okD(3)[OF ok, of cs x bs] by (auto split: if_splits)
  moreover have "\<exists>cs. trail h' r cs = Some x" if "cells h' x \<noteq> None" for x
  proof (cases "x = ?f")
    case False
    then have "cells h x \<noteq> None" using that n by (auto simp: h' split: if_splits)
    then obtain cs where c: "trail h r cs = Some x" using ok unfolding trie_ok_def by blast
    moreover have "cs \<noteq> p @ [i]" using c p none by (auto simp: trail_snoc)
    ultimately show ?thesis using w[of cs] by metis
  qed (use w[of "p @ [i]"] in auto)
  ultimately show "trie_ok h' r" unfolding trie_ok_def by blast
  show "trail h' r (p @ [i]) = Some ?f" "child h' ?f j = None" using w[of "p @ [i]"] by (simp_all add: child_def h' empty_node_def)
  show "dict h' r = dict h r"
  proof
    fix bs
    show "dict h' r bs = dict h r bs"
    proof (cases "bs = p @ [i]")
      case True
      then have "trail h' r bs = Some ?f" "trail h r bs = None" using w[of bs] p none by (simp_all add: trail_snoc[of h])
      then show ?thesis by (simp add: dict_def h')
    next
      case False
      then show ?thesis using w[of bs] nw[of bs] n by (cases "trail h r bs") (auto simp: dict_def h')
    qed
  qed
qed

lemma add_suffix_eq:
  assumes "trie_ok h r" "trail h r p = Some a" "oom h = (\<lambda>_. False)" "lower_word w" "length p + length w < MAX_WORD_SZ"
    and "w \<noteq> [] \<longrightarrow> child h a (letter_index (hd w)) = None"
  shows "\<exists>h' b. add_suffix h (Some a) w = Some (h', Some b) \<and> trie_ok h' r \<and> dict h' r = dict h r
    \<and> trail h' r (p @ indices w) = Some b \<and> oom h' = (\<lambda>_. False)"
  using assms
proof (induction w arbitrary: h p a)
  case (Cons x w)
  let ?i = "letter_index x"
  obtain n where n: "cells h a = Some n" "node_ok n" using trie_okD(1)[OF Cons.prems(1,2)] by blast
  have i: "?i < ALPHABET_SZ" using Cons.prems(4) by (simp add: lower_word_def ALPHABET_SZ_def letter_index_less)
  have "heap_ok h" using Cons.prems(1) by (simp add: trie_ok_def)
  then have f: "cells h (fresh h) = None" by (rule heap_ok_fresh)
  then have af: "a \<noteq> fresh h" using n by auto
  define h2 where "h2 = h\<lparr>fresh := Suc (fresh h), cells := (cells h)(fresh h \<mapsto> empty_node,
    a \<mapsto> n\<lparr>children := (children n)[?i := Some (fresh h)], children_count := (children_count n + 1) mod 2 ^ 32\<rparr>)\<rparr>"
  have c2: "cells h2 = (cells h)(a \<mapsto> n\<lparr>children := (children n)[?i := Some (fresh h)], children_count := (children_count n + 1) mod 2 ^ 32\<rparr>,
      fresh h \<mapsto> empty_node)" "fresh h2 = Suc (fresh h)" "oom h2 = (\<lambda>_. False)"
    using af Cons.prems(3) by (simp_all add: h2_def fun_upd_twist)
  have none: "child h a ?i = None" and len: "length p + 1 < MAX_WORD_SZ" using Cons.prems(5,6) by simp_all
  note A = add_node_ok[OF Cons.prems(1,2) n(1) i none len c2(2,1)]
  have "add_suffix h (Some a) (x # w) = add_suffix h2 (Some (fresh h)) w"
    using n i af Cons.prems(3) by (simp add: new_node_def malloc_def node_ok_def h2_def empty_node_def fun_upd_twist)
  moreover have "lower_word w" "length (p @ [?i]) + length w < MAX_WORD_SZ" using Cons.prems(4,5) by (simp_all add: lower_word_def)
  ultimately show ?case using Cons.IH[OF A(1,3) c2(3)] A(2,4) by auto
qed (use assms in auto)

lemma insert_word_eq:
  assumes "trie_ok h r" "oom h = (\<lambda>_. False)" "lower_word w" "length w < MAX_WORD_SZ"
  shows "\<exists>h'. insert_word h (Some r) w s = Some h' \<and> trie_ok h' r \<and> dict h' r = (dict h r)(indices w := s) \<and> oom h' = (\<lambda>_. False)"
proof -
  obtain u rest b where u: "w = u @ rest" "find_prefix h (Some r) w = Some (Some b, rest)" "trail h r (indices u) = Some b"
    "rest \<noteq> [] \<longrightarrow> trail h r (indices (u @ [hd rest])) = None"
    using find_prefix_eq[OF assms(1) _ assms(3), of "[]" r] by auto
  have c: "rest \<noteq> [] \<longrightarrow> child h b (letter_index (hd rest)) = None" using u(3,4) by (simp add: trail_snoc)
  have rest: "lower_word rest" "length (indices u) + length rest < MAX_WORD_SZ" using assms(3,4) u(1) by (simp_all add: lower_word_def)
  obtain h1 d where h1: "add_suffix h (Some b) rest = Some (h1, Some d)" "trie_ok h1 r" "dict h1 r = dict h r"
    "trail h1 r (indices w) = Some d" "oom h1 = (\<lambda>_. False)"
    using add_suffix_eq[OF assms(1) u(3) assms(2) rest c] u(1) by auto
  obtain n where n: "cells h1 d = Some n" using trie_okD(1)[OF h1(2,4)] by blast
  have i: "insert_word h (Some r) w s = store h1 (Some d) (\<lambda>n. n\<lparr>score := s\<rparr>)"
    using u(2) h1(1) by (cases rest) (simp_all add: insert_word_def)
  show ?thesis unfolding i using store_score[OF h1(2,4) n, of "h1\<lparr>cells := (cells h1)(d \<mapsto> n\<lparr>score := s\<rparr>)\<rparr>" s] n h1(3,5) by simp
qed

subsection \<open>Deleting a word\<close>

text \<open>A node with a child has a positive count, so that the branch that frees a node is never taken.\<close>

lemma child_count: "node_ok n \<Longrightarrow> i < ALPHABET_SZ \<Longrightarrow> children n ! i = Some c \<Longrightarrow> children_count n \<noteq> 0"
  using nth_mem[of i "children n"] by (auto simp: node_ok_def filter_empty_conv)

lemma delete_word_aux_eq:
  assumes "trie_ok h r" "trail h r p = Some a" "lower_word w"
  shows "\<exists>ret h'. delete_word_aux h (Some a) w = Some (ret, h') \<and> trie_ok h' r \<and> dict h' r = (dict h r)(p @ indices w := - 1)
    \<and> trail h' r = trail h r \<and> oom h' = oom h
    \<and> (ret \<longrightarrow> (\<exists>n. cells h' a = Some n \<and> (children_count n \<noteq> 0 \<or> score n = - 1)))"
  using assms(2,3)
proof (induction w arbitrary: p a)
  case Nil
  obtain n where n: "cells h a = Some n" using trie_okD(1)[OF assms(1) Nil(1)] by blast
  have d: "dict h r p = score n" using n Nil by (simp add: dict_def)
  show ?case
  proof (cases "score n = - 1")
    case True
    then show ?thesis using n assms(1) d by (intro exI[of _ False] exI[of _ h]) (simp add: fun_upd_idem)
  next
    case False
    then show ?thesis using n store_score[OF assms(1) Nil(1) n, of "h\<lparr>cells := (cells h)(a \<mapsto> n\<lparr>score := - 1\<rparr>)\<rparr>" "- 1"] by auto
  qed
next
  case (Cons x w)
  let ?i = "letter_index x"
  obtain n where n: "cells h a = Some n" "node_ok n" using trie_okD(1)[OF assms(1) Cons.prems(1)] by blast
  have i: "?i < ALPHABET_SZ" using Cons.prems(2) by (simp add: lower_word_def ALPHABET_SZ_def letter_index_less)
  have wx: "trail h r (p @ [?i]) = children n ! ?i" using Cons.prems(1) n(1) i by (simp add: trail_snoc child_Some)
  show ?case
  proof (cases "children n ! ?i")
    case None
    then have "dict h r (p @ indices (x # w)) = - 1" using wx trail_None[of h r "p @ [?i]" "indices w"] by (intro dict_None) simp
    then show ?thesis using None n i assms(1) by (intro exI[of _ False] exI[of _ h]) (simp add: node_ok_def fun_upd_idem)
  next
    case (Some c)
    have "trail h r (p @ [?i]) = Some c" "lower_word w" using wx Some Cons.prems(2) by (simp_all add: lower_word_def)
    from Cons.IH[OF this] obtain ret h1 where h1: "delete_word_aux h (Some c) w = Some (ret, h1)" "trie_ok h1 r"
      "dict h1 r = (dict h r)((p @ [?i]) @ indices w := - 1)"
      "trail h1 r = trail h r" "oom h1 = oom h" "ret \<longrightarrow> (\<exists>n. cells h1 c = Some n \<and> (children_count n \<noteq> 0 \<or> score n = - 1))"
      by blast
    have "trail h1 r (p @ [?i]) = Some c" "trail h1 r p = Some a" using wx Some Cons.prems(1) h1(4) by simp_all
    then obtain m k where m: "cells h1 c = Some m" and k: "cells h1 a = Some k" "node_ok k" "child h1 a ?i = Some c"
      using trie_okD(1)[OF h1(2)] by (metis bind.bind_lunit trail_snoc)
    have "children k ! ?i = Some c" using k(1,3) i by (simp add: child_Some)
    then have "children_count k \<noteq> 0" by (rule child_count[OF k(2) i])
    moreover have "\<not> (ret \<and> children_count m = 0 \<and> score m \<noteq> - 1)" using h1(6) m by simp
    then have "delete_word_aux h (Some a) (x # w) = Some (ret, h1)" using n i Some h1(1) m by (auto simp: node_ok_def)
    moreover have "(p @ [?i]) @ indices w = p @ indices (x # w)" by simp
    ultimately show ?thesis using h1(2-5) k(1) by metis
  qed
qed

lemma delete_word_eq:
  assumes "trie_ok h r" "lower_word w"
  shows "\<exists>h'. delete_word h (Some r) w = Some h' \<and> trie_ok h' r \<and> dict h' r = (dict h r)(indices w := - 1) \<and> oom h' = oom h"
  using delete_word_aux_eq[OF assms(1) _ assms(2), of "[]" r] by (auto simp: delete_word_def)

end
