(* ===== verification/Boggle_Words.thy ===== *)
theory Boggle_Words
  imports Boggle_Trie
begin

text \<open>
  The dictionary as a whole: its contract for the rest of the program (the locale \<open>word_scores\<close>), the dump of all
  words in alphabetical order, and the destruction of the trie.
\<close>

subsection \<open>The contract\<close>

text \<open>A store of scores for words of small letters. A word that is not there has the score -1.\<close>

definition good_word :: "string \<Rightarrow> bool" where
  "good_word w \<longleftrightarrow> lower_word w \<and> length w < MAX_WORD_SZ"

text \<open>Some prefixes of a word are given the score 0.\<close>

fun put_all :: "('s \<Rightarrow> string \<Rightarrow> int \<Rightarrow> 's c) \<Rightarrow> 's \<Rightarrow> string \<Rightarrow> nat list \<Rightarrow> 's c" where
  "put_all put s w [] = Some s"
| "put_all put s w (i # is) = do { s1 \<leftarrow> put s (take i w) 0; put_all put s1 w is }"

locale word_scores =
  fixes rep :: "'s \<Rightarrow> (string \<Rightarrow> int) \<Rightarrow> bool" and empty :: 's
    and put :: "'s \<Rightarrow> string \<Rightarrow> int \<Rightarrow> 's c" and del :: "'s \<Rightarrow> string \<Rightarrow> 's c" and get :: "'s \<Rightarrow> string \<Rightarrow> int c"
  assumes rep_empty: "rep empty (\<lambda>w. - 1)"
    and rep_put: "rep s d \<Longrightarrow> good_word w \<Longrightarrow> \<exists>s'. put s w v = Some s' \<and> rep s' (d(w := v))"
    and rep_del: "rep s d \<Longrightarrow> good_word w \<Longrightarrow> \<exists>s'. del s w = Some s' \<and> rep s' (d(w := - 1))"
    and rep_get: "rep s d \<Longrightarrow> lower_word w \<Longrightarrow> get s w = Some (d w)"
begin

lemma get_after_put:
  assumes "rep s d" "good_word w" "lower_word u"
  shows "\<exists>s'. put s w v = Some s' \<and> get s' u = Some (if u = w then v else d u)"
proof -
  obtain s' where s': "put s w v = Some s'" "rep s' (d(w := v))" using rep_put[OF assms(1,2)] by blast
  then show ?thesis using rep_get[OF s'(2) assms(3)] by simp
qed

lemma rep_put_all:
  assumes "rep s d" "good_word w"
  shows "\<exists>s'. put_all put s w is = Some s' \<and> rep s' (\<lambda>u. if u \<in> (\<lambda>i. take i w) ` set is then 0 else d u)"
  using assms(1)
proof (induction "is" arbitrary: s d)
  case (Cons i "is")
  have "good_word (take i w)" using assms(2) by (auto simp: good_word_def lower_word_def list_all_iff dest: in_set_takeD)
  then obtain s1 where s1: "put s (take i w) 0 = Some s1" "rep s1 (d(take i w := 0))" using rep_put[OF Cons.prems] by blast
  from Cons.IH[OF s1(2)] obtain s2 where s2: "put_all put s1 w is = Some s2"
    "rep s2 (\<lambda>u. if u \<in> (\<lambda>i. take i w) ` set is then 0 else (d(take i w := 0)) u)" by blast
  moreover have "(\<lambda>u. if u \<in> (\<lambda>i. take i w) ` set is then 0 else (d(take i w := 0)) u)
    = (\<lambda>u. if u \<in> (\<lambda>i. take i w) ` set (i # is) then 0 else d u)" by auto
  ultimately show ?case using s1(1) by auto
qed simp

end

text \<open>The trie of the program, a heap with the root.\<close>

definition trie_rep :: "trie_heap \<times> ptr \<Rightarrow> (string \<Rightarrow> int) \<Rightarrow> bool" where
  "trie_rep s d \<longleftrightarrow> (\<exists>h r. s = (h, Some r) \<and> trie_ok h r \<and> oom h = (\<lambda>_. False)
     \<and> (\<forall>w. d w = (if lower_word w then dict h r (indices w) else - 1)))"

lemma trie_repI:
  assumes "trie_ok h r" "oom h = (\<lambda>_. False)" "\<And>w. lower_word w \<Longrightarrow> d w = dict h r (indices w)" "\<And>w. \<not> lower_word w \<Longrightarrow> d w = - 1"
  shows "trie_rep (h, Some r) d"
  using assms by (auto simp: trie_rep_def)

lemma trie_repD:
  "trie_rep s d \<Longrightarrow> \<exists>h r. s = (h, Some r) \<and> trie_ok h r \<and> oom h = (\<lambda>_. False)
     \<and> (\<forall>w. d w = (if lower_word w then dict h r (indices w) else - 1))"
  by (simp add: trie_rep_def)

definition trie_empty :: "trie_heap \<times> ptr" where
  "trie_empty = (let (root, h) = new_trie (empty_heap (\<lambda>_. False)) in (h, root))"

lemma trail_root: "cells h r = Some empty_node \<Longrightarrow> trail h r is = (if is = [] then Some r else None)"
proof (induction "is" rule: rev_induct)
  case (snoc i "is")
  then show ?case by (simp add: trail_snoc child_def empty_node_def)
qed simp

lemma trie_rep_empty: "trie_rep trie_empty (\<lambda>w. - 1)"
proof -
  let ?h = "\<lparr>cells = [0 \<mapsto> empty_node], fresh = Suc 0, oom = \<lambda>_. False\<rparr>"
  have e: "trie_empty = (?h, Some 0)"
    by (simp add: trie_empty_def new_trie_def new_node_def malloc_def empty_heap_def empty_node_def)
  have w: "trail ?h 0 is = (if is = [] then Some 0 else None)" for "is" by (rule trail_root) simp
  have "trie_ok ?h 0" unfolding trie_ok_def w by (auto simp: heap_ok_def MAX_WORD_SZ_def)
  then show ?thesis unfolding e by (rule trie_repI) (simp_all add: dict_def w)
qed

interpretation tw: word_scores trie_rep trie_empty
  "\<lambda>(h, root) w v. map_option (\<lambda>h'. (h', root)) (insert_word h root w v)"
  "\<lambda>(h, root) w. map_option (\<lambda>h'. (h', root)) (delete_word h root w)"
  "\<lambda>(h, root) w. word_score h root w"
proof (unfold_locales, goal_cases)
  case 1
  show ?case by (rule trie_rep_empty)
next
  case (2 s d w v)
  from 2(1) obtain h r where s: "s = (h, Some r)" "trie_ok h r" "oom h = (\<lambda>_. False)" and d: "\<forall>w. d w = (if lower_word w then dict h r (indices w) else - 1)"
    using trie_repD by blast
  have w: "lower_word w" "length w < MAX_WORD_SZ" using 2(2) by (simp_all add: good_word_def)
  obtain h' where h': "insert_word h (Some r) w v = Some h'" "trie_ok h' r" "dict h' r = (dict h r)(indices w := v)" "oom h' = (\<lambda>_. False)"
    using insert_word_eq[OF s(2,3) w] by blast
  have "trie_rep (h', Some r) (d(w := v))"
    by (rule trie_repI[OF h'(2,4)]) (use h'(3) d w indices_inj in auto)
  then show ?case using s(1) h'(1) by simp
next
  case (3 s d w)
  from 3(1) obtain h r where s: "s = (h, Some r)" "trie_ok h r" "oom h = (\<lambda>_. False)" and d: "\<forall>w. d w = (if lower_word w then dict h r (indices w) else - 1)"
    using trie_repD by blast
  have w: "lower_word w" using 3(2) by (simp add: good_word_def)
  obtain h' where h': "delete_word h (Some r) w = Some h'" "trie_ok h' r" "dict h' r = (dict h r)(indices w := - 1)" "oom h' = oom h"
    using delete_word_eq[OF s(2) w] by blast
  have "oom h' = (\<lambda>_. False)" using h'(4) s(3) by simp
  then have "trie_rep (h', Some r) (d(w := - 1))"
    by (rule trie_repI[OF h'(2)]) (use h'(3) d w indices_inj in auto)
  then show ?case using s(1) h'(1) by simp
next
  case (4 s d w)
  then show ?case by (auto dest!: trie_repD simp: word_score_eq)
qed

subsection \<open>The dump\<close>

definition word_line :: "nat list \<Rightarrow> int \<Rightarrow> string" where
  "word_line p v = map letter p @ '' -> '' @ show_int v @ ''\<newline>''"

fun dump :: "nat \<Rightarrow> (nat list \<Rightarrow> int) \<Rightarrow> nat list \<Rightarrow> nat list list" where
  "dump 0 d p = []"
| "dump (Suc k) d p = (if d p \<noteq> - 1 then [p] else []) @ concat (map (\<lambda>i. dump k d (p @ [i])) [0..<26])"

definition dump_text :: "(nat list \<Rightarrow> int) \<Rightarrow> nat list list \<Rightarrow> string" where
  "dump_text d ps = concat (map (\<lambda>p. word_line p (d p)) ps)"

lemma dump_text_append [simp]: "dump_text d [] = []" "dump_text d (ps @ qs) = dump_text d ps @ dump_text d qs"
  by (simp_all add: dump_text_def)

lemma dump_none: "(\<And>q. d (p @ q) = - 1) \<Longrightarrow> dump k d p = []"
proof (induction k arbitrary: p)
  case (Suc k)
  have "d p = - 1" using Suc.prems[of "[]"] by simp
  then show ?case using Suc by simp
qed simp

lemma dump_walk_none: "trail h r p = None \<Longrightarrow> dump k (dict h r) p = []"
  by (intro dump_none dict_None trail_None)

text \<open>The words come in alphabetical order, and are all there.\<close>

lemma set_dump: "set (dump k d p) = {p @ q | q. d (p @ q) \<noteq> - 1 \<and> length q < k \<and> (\<forall>i\<in>set q. i < 26)}"
proof (induction k arbitrary: p)
  case (Suc k)
  have "p @ q \<in> set (dump (Suc k) d p) \<longleftrightarrow> d (p @ q) \<noteq> - 1 \<and> length q < Suc k \<and> (\<forall>i\<in>set q. i < 26)" for q
    by (cases q) (auto simp: Suc)
  moreover have "u \<in> set (dump (Suc k) d p) \<Longrightarrow> \<exists>q. u = p @ q" for u by (auto simp: Suc split: if_splits)
  ultimately show ?case by blast
qed simp

abbreviation lex_less :: "nat list \<Rightarrow> nat list \<Rightarrow> bool" where
  "lex_less \<equiv> ord_class.lexordp"

lemma dump_sorted: "sorted_wrt lex_less (dump k d p)"
proof (induction k arbitrary: p)
  case (Suc k)
  have inner: "sorted_wrt lex_less (concat (map (\<lambda>i. dump k d (p @ [i])) [j..<n]))" if "j \<le> n" for j n
    using that
  proof (induction n)
    case (Suc n)
    have "lex_less (p @ i # u) (p @ n # v)" if "i < n" for i u v
      using that by (induction p) simp_all
    then have "lex_less x y" if "x \<in> set (concat (map (\<lambda>i. dump k d (p @ [i])) [j..<n]))" "y \<in> set (dump k d (p @ [n]))" for x y
      using that by (auto simp: set_dump)
    then show ?case using Suc \<open>\<And>p. sorted_wrt lex_less (dump k d p)\<close> by (cases "j \<le> n") (auto simp: sorted_wrt_append le_Suc_eq)
  qed simp
  have "lex_less p (p @ i # u)" for i u by (induction p) simp_all
  then show ?case using inner[of 0 26] by (auto simp: sorted_wrt_append set_dump)
qed simp

lemma print_null: "print_words h buf (Print_node None n) = Some (buf, [])"
  by (subst print_words.simps) simp

lemma print_children:
  assumes ok: "trie_ok h r" and p: "trail h r p = Some a"
    and node: "\<And>buf j c. length buf = MAX_WORD_SZ \<Longrightarrow> take (length p + 1) buf = map letter (p @ [j]) \<Longrightarrow> trail h r (p @ [j]) = Some c \<Longrightarrow>
      \<exists>buf'. print_words h buf (Print_node (Some c) (length p + 1)) = Some (buf', dump_text (dict h r) (dump k (dict h r) (p @ [j])))
        \<and> length buf' = MAX_WORD_SZ \<and> take (length p + 1) buf' = take (length p + 1) buf"
  shows "length buf = MAX_WORD_SZ \<Longrightarrow> take (length p) buf = map letter p \<Longrightarrow>
    \<exists>buf'. print_words h buf (Print_children (Some a) (length p) i)
        = Some (buf', dump_text (dict h r) (concat (map (\<lambda>j. dump k (dict h r) (p @ [j])) [i..<26])))
      \<and> length buf' = MAX_WORD_SZ \<and> take (length p) buf' = take (length p) buf"
proof (induction "26 - i" arbitrary: i buf)
  case 0
  then show ?case by (subst print_words.simps) (simp add: ALPHABET_SZ_def)
next
  case (Suc m)
  let ?d = "dict h r"
  have i: "i < 26" "[i..<26] = i # [Suc i..<26]" using Suc.hyps(2) by (simp_all add: upt_rec)
  obtain n where n: "cells h a = Some n" "node_ok n" using trie_okD(1)[OF ok p] by blast
  have lp: "length p < MAX_WORD_SZ" using trie_okD(2)[OF ok p] .
  define b where "b = buf[length p := char_of (97 + i)]"
  have b: "length b = MAX_WORD_SZ" "take (length p + 1) b = map letter (p @ [i])" "take (length p) b = take (length p) buf"
    using Suc.prems lp by (simp_all add: b_def take_Suc_conv_app_nth letter_def)
  have wi: "trail h r (p @ [i]) = children n ! i" using p n(1) i(1) by (simp add: trail_snoc child_Some ALPHABET_SZ_def)
  obtain buf1 where b1: "print_words h b (Print_node (children n ! i) (length p + 1)) = Some (buf1, dump_text ?d (dump k ?d (p @ [i])))"
    "length buf1 = MAX_WORD_SZ" "take (length p) buf1 = take (length p) buf"
  proof (cases "children n ! i")
    case None
    then have "dump k ?d (p @ [i]) = []" using wi by (intro dump_walk_none) simp
    then show thesis using that[of b] None b by (simp add: print_null)
  next
    case (Some c)
    from node[OF b(1,2) wi[unfolded Some]] obtain buf1 where n1: "print_words h b (Print_node (Some c) (length p + 1)) = Some (buf1, dump_text ?d (dump k ?d (p @ [i])))"
      "length buf1 = MAX_WORD_SZ" "take (length p + 1) buf1 = take (length p + 1) b" by blast
    have "take (length p) buf1 = take (length p) (take (length p + 1) buf1)" by simp
    also have "\<dots> = take (length p) b" using n1(3) by simp
    finally show thesis using that[of buf1] n1(1,2) Some b(3) by simp
  qed
  have "take (length p) buf1 = map letter p" using b1(3) Suc.prems(2) by simp
  moreover have "m = 26 - (i + 1)" using Suc.hyps(2) by simp
  ultimately obtain buf2 where b2: "print_words h buf1 (Print_children (Some a) (length p) (i + 1))
        = Some (buf2, dump_text ?d (concat (map (\<lambda>j. dump k ?d (p @ [j])) [i + 1..<26])))"
      "length buf2 = MAX_WORD_SZ" "take (length p) buf2 = take (length p) buf1"
    using Suc.hyps(1)[of "i + 1" buf1] b1(2) by blast
  have "print_words h buf (Print_children (Some a) (length p) i) = Some (buf2, dump_text ?d (concat (map (\<lambda>j. dump k ?d (p @ [j])) [i..<26])))"
    using i n lp Suc.prems(1) b1(1) b2(1) by (subst print_words.simps) (simp add: ALPHABET_SZ_def node_ok_def flip: b_def)
  then show ?case using b2(2,3) b1(3) by simp
qed

lemma cstr_at: "n < length b \<Longrightarrow> CHR 0x00 \<notin> set (take n b) \<Longrightarrow> cstr (b[n := CHR 0x00]) = take n b"
  unfolding cstr_def by (subst upd_conv_take_nth_drop, simp, subst takeWhile_append2, auto)

lemma letter_not_nul: "i < 26 \<Longrightarrow> letter i \<noteq> CHR 0x00"
  using lower_letter(1)[of i] by (auto simp: lower_def)

lemma trail_less: "trail h r p = Some a \<Longrightarrow> i \<in> set p \<Longrightarrow> i < 26"
proof (induction p arbitrary: a rule: rev_induct)
  case (snoc j p)
  then show ?case using trail_index[OF snoc.prems(1)] by (auto simp: trail_snoc bind_eq_Some_conv ALPHABET_SZ_def)
qed simp

lemma print_node:
  assumes "trie_ok h r"
  shows "trail h r p = Some a \<Longrightarrow> length buf = MAX_WORD_SZ \<Longrightarrow> take (length p) buf = map letter p \<Longrightarrow>
    \<exists>buf'. print_words h buf (Print_node (Some a) (length p))
        = Some (buf', dump_text (dict h r) (dump (MAX_WORD_SZ - length p) (dict h r) p))
      \<and> length buf' = MAX_WORD_SZ \<and> take (length p) buf' = take (length p) buf"
proof (induction "MAX_WORD_SZ - length p" arbitrary: p a buf)
  case 0
  then show ?case using trie_okD(2)[OF assms 0(2)] by simp
next
  case (Suc k)
  let ?d = "dict h r"
  obtain n where n: "cells h a = Some n" using trie_okD(1)[OF assms Suc.prems(1)] by blast
  have lp: "length p < MAX_WORD_SZ" and k: "k = MAX_WORD_SZ - (length p + 1)" using Suc.hyps(2) by simp_all
  have dp: "?d p = score n" using n Suc.prems(1) by (simp add: dict_def)
  define b where "b = (if score n \<noteq> - 1 then buf[length p := CHR 0x00] else buf)"
  have b: "length b = MAX_WORD_SZ" "take (length p) b = map letter p" using Suc.prems(2,3) by (simp_all add: b_def)
  have "CHR 0x00 \<notin> set (map letter p)" using trail_less[OF Suc.prems(1)] letter_not_nul by (metis image_iff list.set_map)
  then have t: "cstr b = map letter p" if "score n \<noteq> - 1"
    using that cstr_at[of "length p" buf] Suc.prems(2,3) lp by (simp add: b_def)
  have "\<exists>buf'. print_words h b (Print_children (Some a) (length p) 0)
        = Some (buf', dump_text ?d (concat (map (\<lambda>j. dump k ?d (p @ [j])) [0..<26])))
      \<and> length buf' = MAX_WORD_SZ \<and> take (length p) buf' = take (length p) b"
  proof (rule print_children[OF assms Suc.prems(1) _ b])
    fix buf j c assume "length buf = MAX_WORD_SZ" "take (length p + 1) buf = map letter (p @ [j])" "trail h r (p @ [j]) = Some c"
    then show "\<exists>buf'. print_words h buf (Print_node (Some c) (length p + 1)) = Some (buf', dump_text ?d (dump k ?d (p @ [j])))
        \<and> length buf' = MAX_WORD_SZ \<and> take (length p + 1) buf' = take (length p + 1) buf"
      using Suc.hyps(1)[of "p @ [j]" c buf] k by simp
  qed
  then obtain buf' where b': "print_words h b (Print_children (Some a) (length p) 0)
        = Some (buf', dump_text ?d (concat (map (\<lambda>j. dump k ?d (p @ [j])) [0..<26])))"
      "length buf' = MAX_WORD_SZ" "take (length p) buf' = take (length p) b" by blast
  have sz: "MAX_WORD_SZ - length p = Suc k" using Suc.hyps(2) by simp
  let ?cs = "concat (map (\<lambda>j. dump k ?d (p @ [j])) [0..<26])"
  have "print_words h buf (Print_node (Some a) (length p)) = Some (buf', dump_text ?d (dump (Suc k) ?d p))"
  proof (cases "score n = - 1")
    case True
    then have "print_words h buf (Print_children (Some a) (length p) 0) = Some (buf', dump_text ?d ?cs)"
      using b'(1) by (simp only: b_def not_True_eq_False if_False simp_thms)
    then show ?thesis using n dp True by (subst print_words.simps) (simp del: upt_rec_numeral upt_conv_Cons_Cons)
  next
    case False
    then have "print_words h (buf[length p := CHR 0x00]) (Print_children (Some a) (length p) 0) = Some (buf', dump_text ?d ?cs)"
      "cstr (buf[length p := CHR 0x00]) = map letter p"
      using b'(1) t by (simp_all only: b_def if_True not_False_eq_True simp_thms)
    then show ?thesis using n dp False lp Suc.prems(2)
      by (subst print_words.simps) (simp add: dump_text_def word_line_def show_conv_def del: upt_rec_numeral upt_conv_Cons_Cons)
  qed
  then have "print_words h buf (Print_node (Some a) (length p)) = Some (buf', dump_text ?d (dump (MAX_WORD_SZ - length p) ?d p))"
    by (simp only: sz)
  then show ?case using b'(2,3) b Suc.prems(3) by simp
qed

text \<open>All words of a dictionary in alphabetical order, and the text of the dump.\<close>

definition all_words :: "(string \<Rightarrow> int) \<Rightarrow> string list" where
  "all_words d = map (map letter) (dump MAX_WORD_SZ (\<lambda>p. d (map letter p)) [])"

definition words_text :: "(string \<Rightarrow> int) \<Rightarrow> string" where
  "words_text d = concat (map (\<lambda>w. w @ '' -> '' @ show_int (d w) @ ''\<newline>'') (all_words d))"

text \<open>The list is determined by the words with a score and the order.\<close>

lemma all_words_spec:
  assumes "\<And>w. d w \<noteq> - 1 \<Longrightarrow> good_word w"
  shows "set (all_words d) = {w. d w \<noteq> - 1}" "sorted_wrt (\<lambda>v w. lex_less (indices v) (indices w)) (all_words d)"
proof -
  let ?D = "dump MAX_WORD_SZ (\<lambda>p. d (map letter p)) []"
  have ltr: "indices (map letter p) = p" if "\<forall>i\<in>set p. i < 26" for p
    using that by (induction p) (simp_all add: lower_letter(2))
  have D: "p \<in> set ?D \<longleftrightarrow> d (map letter p) \<noteq> - 1 \<and> length p < MAX_WORD_SZ \<and> (\<forall>i\<in>set p. i < 26)" for p
    by (simp add: set_dump)
  show "set (all_words d) = {w. d w \<noteq> - 1}"
  proof (intro equalityI subsetI CollectI)
    fix w assume "w \<in> {w. d w \<noteq> - 1}"
    then have w: "d w \<noteq> - 1" "lower_word w" "length w < MAX_WORD_SZ" using assms[of w] by (simp_all add: good_word_def)
    then have "indices w \<in> set ?D"
      unfolding D using letters_indices[OF w(2)] letter_index_less by (auto simp: lower_word_def list_all_iff)
    then show "w \<in> set (all_words d)" unfolding all_words_def using letters_indices[OF w(2)] by force
  qed (use D in \<open>auto simp: all_words_def\<close>)
  have "sorted_wrt (\<lambda>p q. lex_less (indices (map letter p)) (indices (map letter q))) ?D"
    by (rule sorted_wrt_mono_rel[OF _ dump_sorted]) (use D ltr in auto)
  then show "sorted_wrt (\<lambda>v w. lex_less (indices v) (indices w)) (all_words d)" by (simp add: all_words_def sorted_wrt_map)
qed

lemma dump_cong: "(\<And>q. (\<forall>i\<in>set q. i < 26) \<Longrightarrow> d (p @ q) = e (p @ q)) \<Longrightarrow> dump k d p = dump k e p"
proof (induction k arbitrary: p)
  case (Suc k)
  have "d p = e p" using Suc.prems[of "[]"] by simp
  moreover have "dump k d (p @ [i]) = dump k e (p @ [i])" if "i < 26" for i
    using that Suc.prems[of "i # _"] by (intro Suc.IH) simp
  then have "map (\<lambda>i. dump k d (p @ [i])) [0..<26] = map (\<lambda>i. dump k e (p @ [i])) [0..<26]" by (intro map_cong) simp_all
  ultimately show ?case by (simp only: dump.simps)
qed simp

lemma print_known_words_eq:
  assumes "trie_rep (h, root) d" "length buf = MAX_WORD_SZ"
  shows "\<exists>buf'. print_known_words h buf root = Some (buf', words_text d) \<and> length buf' = MAX_WORD_SZ"
proof -
  obtain r where r: "root = Some r" "trie_ok h r" and d: "\<forall>w. d w = (if lower_word w then dict h r (indices w) else - 1)"
    using trie_repD[OF assms(1)] by auto
  have e: "dict h r p = d (map letter p)" if "\<forall>i\<in>set p. i < 26" for p
  proof -
    have "indices (map letter p) = p" using that by (induction p) (simp_all add: lower_letter(2))
    moreover have "lower_word (map letter p)" using that lower_letter(1) by (simp add: lower_word_def list_all_iff)
    ultimately show ?thesis using d by simp
  qed
  have "dump MAX_WORD_SZ (dict h r) [] = dump MAX_WORD_SZ (\<lambda>p. d (map letter p)) []" by (rule dump_cong) (simp add: e)
  moreover have "dict h r p = d (map letter p)" if "p \<in> set (dump MAX_WORD_SZ (dict h r) [])" for p
    using that by (intro e) (auto simp: set_dump)
  ultimately have "dump_text (dict h r) (dump MAX_WORD_SZ (dict h r) []) = words_text d"
    by (simp add: dump_text_def words_text_def all_words_def word_line_def comp_def cong: map_cong)
  then show ?thesis using print_node[OF r(2), of "[]" r buf] assms(2) r(1) by (simp add: print_known_words_def)
qed

subsection \<open>Destroying the trie\<close>

definition below :: "trie_heap \<Rightarrow> nat \<Rightarrow> nat list \<Rightarrow> nat set" where
  "below h r p = {b. \<exists>q. trail h r (p @ q) = Some b}"

lemma below_None: "trail h r p = None \<Longrightarrow> below h r p = {}"
  using trail_None[of h r p] by (auto simp: below_def)

lemma below_unfold:
  assumes "trail h r p = Some a"
  shows "below h r p = insert a (\<Union>i<26. below h r (p @ [i]))"
proof (intro equalityI subsetI)
  fix b assume "b \<in> below h r p"
  then obtain q where q: "trail h r (p @ q) = Some b" by (auto simp: below_def)
  show "b \<in> insert a (\<Union>i<26. below h r (p @ [i]))"
  proof (cases q)
    case (Cons i q')
    then have "i < 26" using trail_less[OF q, of i] by simp
    then show ?thesis using q Cons by (auto simp: below_def)
  qed (use q assms in simp)
next
  fix b assume "b \<in> insert a (\<Union>i<26. below h r (p @ [i]))"
  then show "b \<in> below h r p"
  proof (elim insertE UN_E)
    assume "b = a" then show ?thesis using assms by (auto simp: below_def intro!: exI[of _ "[]"])
  next
    fix i assume "b \<in> below h r (p @ [i])"
    then obtain q where "trail h r (p @ i # q) = Some b" by (auto simp: below_def)
    then show ?thesis unfolding below_def by blast
  qed
qed

lemma below_disjoint:
  assumes "trie_ok h r" "trail h r p = Some a"
  shows "a \<notin> below h r (p @ [i])" "i \<noteq> j \<Longrightarrow> below h r (p @ [i]) \<inter> below h r (p @ [j]) = {}"
  using trie_okD(3)[OF assms] trie_okD(3)[OF assms(1)] by (fastforce simp: below_def)+

lemma restrict_map_UNIV: "m |` UNIV = m"
  by (simp add: restrict_map_def)

lemma destroy_children:
  assumes ok: "trie_ok h r" and p: "trail h r p = Some a"
    and node: "\<And>g j. j < 26 \<Longrightarrow> (\<And>b. b \<in> below h r (p @ [j]) \<Longrightarrow> cells g b = cells h b) \<Longrightarrow>
      \<exists>g'. destroy_trie g (Destroy (trail h r (p @ [j]))) = Some g' \<and> cells g' = cells g |` (- below h r (p @ [j]))"
  shows "i \<le> 26 \<Longrightarrow> cells g a = cells h a \<Longrightarrow> (\<And>b j. i \<le> j \<Longrightarrow> b \<in> below h r (p @ [j]) \<Longrightarrow> cells g b = cells h b) \<Longrightarrow>
    \<exists>g'. destroy_trie g (Destroy_children (Some a) i) = Some g' \<and> cells g' = cells g |` (- (\<Union>j\<in>{i..<26}. below h r (p @ [j])))"
proof (induction "26 - i" arbitrary: i g)
  case 0
  then have "i = 26" by simp
  then show ?case by (subst destroy_trie.simps) (simp add: ALPHABET_SZ_def restrict_map_UNIV)
next
  case (Suc m)
  then have i: "i < 26" by simp
  obtain n where n: "cells h a = Some n" "node_ok n" using trie_okD(1)[OF ok p] by blast
  have wi: "trail h r (p @ [i]) = children n ! i" using p n(1) i by (simp add: trail_snoc child_Some ALPHABET_SZ_def)
  obtain g1 where g1: "destroy_trie g (Destroy (children n ! i)) = Some g1" "cells g1 = cells g |` (- below h r (p @ [i]))"
    using node[OF i, of g] Suc.prems(3) wi by auto
  have a: "cells g1 a = cells h a" using g1(2) below_disjoint(1)[OF ok p] Suc.prems(2) by simp
  have rest: "cells g1 b = cells h b" if "i + 1 \<le> j" "b \<in> below h r (p @ [j])" for b j
  proof -
    have "b \<notin> below h r (p @ [i])" using below_disjoint(2)[OF ok p, of i j] that by auto
    then have "cells g1 b = cells g b" by (simp add: g1(2))
    also have "\<dots> = cells h b" using Suc.prems(3)[of j b] that by simp
    finally show ?thesis .
  qed
  obtain g2 where g2: "destroy_trie g1 (Destroy_children (Some a) (i + 1)) = Some g2"
    "cells g2 = cells g1 |` (- (\<Union>j\<in>{i + 1..<26}. below h r (p @ [j])))"
  proof -
    have "m = 26 - (i + 1)" "i + 1 \<le> 26" using Suc.hyps(2) i by simp_all
    from Suc.hyps(1)[OF this a] rest have "\<exists>g'. destroy_trie g1 (Destroy_children (Some a) (i + 1)) = Some g'
      \<and> cells g' = cells g1 |` (- (\<Union>j\<in>{i + 1..<26}. below h r (p @ [j])))" by presburger
    then show thesis using that by blast
  qed
  have "{i..<26} = insert i {i + 1..<26}" using i by auto
  then have "cells g2 = cells g |` (- (\<Union>j\<in>{i..<26}. below h r (p @ [j])))"
    using g1(2) g2(2) by (simp add: restrict_restrict Compl_Un Un_commute Int_commute)
  moreover have "destroy_trie g (Destroy_children (Some a) i) = Some g2"
    using i n Suc.prems(2) g1(1) g2(1) by (subst destroy_trie.simps) (simp add: ALPHABET_SZ_def node_ok_def)
  ultimately show ?case by blast
qed

lemma destroy_node:
  assumes "trie_ok h r"
  shows "(\<And>b. b \<in> below h r p \<Longrightarrow> cells g b = cells h b) \<Longrightarrow>
    \<exists>g'. destroy_trie g (Destroy (trail h r p)) = Some g' \<and> cells g' = cells g |` (- below h r p)"
proof (induction "MAX_WORD_SZ - length p" arbitrary: p g)
  case 0
  then have "trail h r p = None" using trie_okD(2)[OF assms, of p] by (cases "trail h r p") auto
  then show ?case using below_None[of h r p] by (subst destroy_trie.simps) (simp add: restrict_map_UNIV)
next
  case (Suc k)
  show ?case
  proof (cases "trail h r p")
    case None
    then show ?thesis using below_None[of h r p] by (subst destroy_trie.simps) (simp add: restrict_map_UNIV)
  next
    case (Some a)
    note bel = below_unfold[OF Some]
    have node: "\<exists>g'. destroy_trie g (Destroy (trail h r (p @ [j]))) = Some g' \<and> cells g' = cells g |` (- below h r (p @ [j]))"
      if "j < 26" "\<And>b. b \<in> below h r (p @ [j]) \<Longrightarrow> cells g b = cells h b" for g j
      using Suc.hyps(1)[of "p @ [j]" g] Suc.hyps(2) that(2) by simp
    have "below h r (p @ [j]) \<subseteq> below h r p" for j by (auto simp: below_def)
    then obtain g1 where g1: "destroy_trie g (Destroy_children (Some a) 0) = Some g1"
      "cells g1 = cells g |` (- (\<Union>j\<in>{0..<26}. below h r (p @ [j])))"
      using destroy_children[OF assms Some node, of 0 g] Suc.prems bel by blast
    obtain n where n: "cells h a = Some n" using trie_okD(1)[OF assms Some] by blast
    have "cells g1 a = Some n" using g1(2) below_disjoint(1)[OF assms Some] Suc.prems[of a] bel n by simp
    moreover have "(cells g1)(a := None) = cells g |` (- below h r p)"
      using g1(2) bel by (auto simp: fun_eq_iff restrict_map_def atLeast0LessThan)
    ultimately show ?thesis using g1(1) Some by (subst destroy_trie.simps) simp
  qed
qed

lemma destroy_all:
  assumes "trie_rep (h, root) d"
  shows "\<exists>h'. destroy_trie h (Destroy root) = Some h' \<and> cells h' = Map.empty"
proof -
  obtain r where r: "root = Some r" "trie_ok h r" using trie_repD[OF assms(1)] by auto
  obtain h' where h': "destroy_trie h (Destroy (Some r)) = Some h'" "cells h' = cells h |` (- below h r [])"
    using destroy_node[OF r(2), of "[]" h] by auto
  have "cells h' a = None" for a
    using h'(2) r(2) by (cases "a \<in> below h r []") (auto simp: trie_ok_def below_def restrict_map_def)
  then have "cells h' = Map.empty" by (rule ext)
  with h'(1) r(1) show ?thesis by blast
qed

end
