(* ===== verification/Boggle_Search.thy ===== *)
theory Boggle_Search
  imports Boggle_Words
begin

text \<open>
  The search of the boggle program visits the words on the board in a fixed order and keeps the first one of the
  highest score. The words visited are those traced by a path over adjacent cells every prefix of which has a score.
\<close>

subsection \<open>The first word of the highest score\<close>

definition better :: "(string \<Rightarrow> int) \<Rightarrow> string option \<times> int \<Rightarrow> string \<Rightarrow> string option \<times> int" where
  "better f a x = (if f x > snd a then (Some x, f x) else a)"

abbreviation best :: "(string \<Rightarrow> int) \<Rightarrow> string option \<times> int \<Rightarrow> string list \<Rightarrow> string option \<times> int" where
  "best f \<equiv> foldl (better f)"

lemma best_join:
  assumes "- 1 \<le> snd a"
  shows "best f a ws = (if snd (best f (None, - 1) ws) > snd a then best f (None, - 1) ws else a)"
  using assms by (induction ws rule: rev_induct) (auto simp: better_def)

lemma best_ge: "- 1 \<le> snd a \<Longrightarrow> - 1 \<le> snd (best f a ws)"
  by (induction ws arbitrary: a) (simp_all add: better_def)

lemma best_max: "snd a \<le> snd (best f a ws) \<and> (\<forall>x \<in> set ws. f x \<le> snd (best f a ws))
    \<and> (best f a ws = a \<or> (\<exists>x \<in> set ws. best f a ws = (Some x, f x)))"
  by (induction ws rule: rev_induct) (auto simp: better_def)

subsection \<open>The words in the order of the search\<close>

definition inside :: "nat \<Rightarrow> int \<times> int \<Rightarrow> bool" where
  "inside n rc \<longleftrightarrow> 0 \<le> fst rc \<and> fst rc < int n \<and> 0 \<le> snd rc \<and> snd rc < int n"

abbreviation cell :: "board \<Rightarrow> int \<times> int \<Rightarrow> char" where
  "cell b rc \<equiv> b ! nat (fst rc) ! nat (snd rc)"

definition steps :: "(int \<times> int) list \<Rightarrow> int \<times> int \<Rightarrow> (int \<times> int) list" where
  "steps ds rc = map (\<lambda>d. (fst rc + fst d, snd rc + snd d)) (filter (\<lambda>d. d \<noteq> (0, 0)) ds)"

fun board_words :: "(string \<Rightarrow> int) \<Rightarrow> board \<Rightarrow> nat \<Rightarrow> nat \<Rightarrow> string \<Rightarrow> int \<times> int \<Rightarrow> string list" where
  "board_words f b n 0 p rc = []"
| "board_words f b n (Suc k) p rc =
     (if inside n rc \<and> f (p @ [cell b rc]) \<noteq> - 1
      then (p @ [cell b rc]) # concat (map (board_words f b n k (p @ [cell b rc])) (steps neighbours rc))
      else [])"

definition board_ok :: "board \<Rightarrow> nat \<Rightarrow> bool" where
  "board_ok b n \<longleftrightarrow> length b = n \<and> (\<forall>row \<in> set b. length row = n \<and> lower_word row)"

lemma board_cell:
  assumes "board_ok b n" "inside n (r, c)"
  shows "board_at b r c = Some (cell b (r, c))" "lower (cell b (r, c))"
proof -
  have r: "nat r < n" "nat c < n" "0 \<le> r" "r < int n" "0 \<le> c" "c < int n" using assms(2) by (auto simp: inside_def)
  then have row: "length (b ! nat r) = n" "lower_word (b ! nat r)" using assms(1) by (auto simp: board_ok_def)
  then show "board_at b r c = Some (cell b (r, c))" using r assms(1) by (simp add: board_at_def board_ok_def)
  show "lower (cell b (r, c))" using row r by (auto simp: lower_word_def list_all_length)
qed

text \<open>What the search needs of the scores: words of more than \<open>L\<close> letters have none, and no score is below -1.\<close>

definition scores_ok :: "(string \<Rightarrow> int c) \<Rightarrow> (string \<Rightarrow> int) \<Rightarrow> nat \<Rightarrow> bool" where
  "scores_ok sc f L \<longleftrightarrow> (\<forall>w. lower_word w \<longrightarrow> sc w = Some (f w)) \<and> (\<forall>w. - 1 \<le> f w) \<and> (\<forall>w. L < length w \<longrightarrow> f w = - 1)"

definition found :: "(string option \<times> int \<times> string) c \<Rightarrow> string option \<times> int \<Rightarrow> nat \<Rightarrow> string \<Rightarrow> bool" where
  "found res a sz p \<longleftrightarrow> (\<exists>buf. res = Some (fst a, snd a, buf) \<and> length buf = sz \<and> take (length p) buf = p)"

lemma foundI: "res = Some (w, s, buf) \<Longrightarrow> a = (w, s) \<Longrightarrow> length buf = sz \<Longrightarrow> take (length p) buf = p \<Longrightarrow> found res a sz p"
  by (auto simp: found_def)

lemma lower_not_nul: "lower_word w \<Longrightarrow> CHR 0x00 \<notin> set w"
  by (auto simp: lower_word_def list_all_iff lower_def)

lemma try_neighbours_words:
  assumes child: "\<And>buf r c. length buf = sz \<Longrightarrow> take (length q) buf = q \<Longrightarrow> (r, c) \<in> set (steps ds (row, col)) \<Longrightarrow>
      found (find_best_word_aux True sc b n sz r c buf (length q)) (best f (None, - 1) (W (r, c))) sz q"
    and q: "length q = i + 1" "i + 1 < sz"
  shows "length buf = sz \<Longrightarrow> take (length q) buf = q \<Longrightarrow> - 1 \<le> s \<Longrightarrow>
    found (try_neighbours True sc b n sz row col buf i ds w s) (best f (w, s) (concat (map W (steps ds (row, col))))) sz q"
  using child
proof (induction ds arbitrary: buf w s)
  case Nil
  then show ?case by (intro foundI) (simp_all add: steps_def)
next
  case (Cons d ds)
  obtain x y where d: "d = (x, y)" by (cases d)
  have ds: "found (find_best_word_aux True sc b n sz r c buf (length q)) (best f (None, - 1) (W (r, c))) sz q"
    if "length buf = sz" "take (length q) buf = q" "(r, c) \<in> set (steps ds (row, col))" for buf r c
    using that by (intro Cons.prems(4)) (auto simp: steps_def)
  show ?case
  proof (cases "x = 0 \<and> y = 0")
    case True
    then show ?thesis using Cons.IH[OF Cons.prems(1-3) ds] d by (simp add: try_neighbours.simps(2) steps_def)
  next
    case False
    let ?c = "(row + x, col + y)"
    let ?a = "best f (None, - 1) (W ?c)"
    have st: "steps (d # ds) (row, col) = ?c # steps ds (row, col)" using d False by (auto simp: steps_def)
    from Cons.prems(4)[OF Cons.prems(1,2), of "row + x" "col + y"] st
    obtain buf1 where b1: "find_best_word_aux True sc b n sz (row + x) (col + y) buf (length q) = Some (fst ?a, snd ?a, buf1)"
      "length buf1 = sz" "take (length q) buf1 = q" unfolding found_def by auto
    define a where "a = (if snd ?a > s then ?a else (w, s))"
    have a: "a = best f (w, s) (W ?c)" using best_join[of "(w, s)" f "W ?c"] Cons.prems(3) by (simp add: a_def)
    have "- 1 \<le> snd a" using Cons.prems(3) by (auto simp: a_def)
    from Cons.IH[OF b1(2,3) this ds, of "fst a"]
    have "found (try_neighbours True sc b n sz row col buf1 i ds (fst a) (snd a)) (best f a (concat (map W (steps ds (row, col))))) sz q" by simp
    moreover have "try_neighbours True sc b n sz row col buf i (d # ds) w s = try_neighbours True sc b n sz row col buf1 i ds (fst a) (snd a)"
      using False q b1(1) by (auto simp: d a_def try_neighbours.simps(2))
    moreover have "best f (w, s) (concat (map W (steps (d # ds) (row, col)))) = best f a (concat (map W (steps ds (row, col))))"
      unfolding st a by simp
    ultimately show ?thesis by simp
  qed
qed

text \<open>What one call does before the loops.\<close>

lemma aux_outside:
  "\<not> inside n (r, c) \<Longrightarrow> - 1 \<le> r \<and> r \<le> int n \<and> - 1 \<le> c \<and> c \<le> int n \<Longrightarrow>
    find_best_word_aux mem sc b n sz r c buf i = Some (None, - 1, buf)"
  by (subst find_best_word_aux.simps) (auto simp: inside_def)

lemma aux_inside:
  assumes sc: "scores_ok sc f L" "board_ok b n" "inside n (r, c)" "length p + 1 < sz" "lower_word p" "length buf = sz" "take (length p) buf = p"
  shows "\<exists>buf'. length buf' = sz \<and> take (length p + 1) buf' = p @ [cell b (r, c)]
    \<and> find_best_word_aux True sc b n sz r c buf (length p) =
        (if f (p @ [cell b (r, c)]) = - 1 then Some (None, - 1, buf')
         else try_neighbours True sc b n sz r c buf' (length p) neighbours (Some (p @ [cell b (r, c)])) (f (p @ [cell b (r, c)])))"
proof -
  let ?x = "cell b (r, c)"
  let ?q = "p @ [?x]"
  define buf1 where "buf1 = buf[length p := ?x]"
  define buf' where "buf' = buf1[length p + 1 := CHR 0x00]"
  have q: "lower_word ?q" using assms(5) board_cell(2)[OF sc(2,3)] by (simp add: lower_word_def)
  have t1: "take (length p + 1) buf1 = ?q" using assms(4,6,7) by (simp add: buf1_def take_Suc_conv_app_nth)
  then have "cstr buf' = ?q"
    using cstr_at[of "length p + 1" buf1] lower_not_nul[OF q] assms(4,6) by (simp add: buf'_def buf1_def)
  then have s: "cstr buf' = ?q" "sc ?q = Some (f ?q)" using sc(1) q by (simp_all add: scores_ok_def)
  have i: "\<not> (r < 0 \<or> r = int n \<or> c < 0 \<or> c = int n)" "length p \<noteq> sz - 1" using sc(3,4) by (auto simp: inside_def)
  have w: "wr buf (length p) ?x = Some buf1" "wr buf1 (length p + 1) (CHR 0x00) = Some buf'"
    using assms(4,6) by (simp_all add: buf1_def buf'_def)
  have "find_best_word_aux True sc b n sz r c buf (length p) =
      (if f ?q = - 1 then Some (None, - 1, buf') else try_neighbours True sc b n sz r c buf' (length p) neighbours (Some ?q) (f ?q))"
    by (subst find_best_word_aux.simps)
       (simp only: i if_False if_True assms(4) board_cell(1)[OF sc(2,3)] w bind.bind_lunit s c_assert_True)
  moreover have "length buf' = sz" "take (length p + 1) buf' = ?q" using t1 assms(6) by (simp_all add: buf'_def buf1_def)
  ultimately show ?thesis by blast
qed

lemma steps_range: "inside n (row, col) \<Longrightarrow> (r, c) \<in> set (steps neighbours (row, col)) \<Longrightarrow> - 1 \<le> r \<and> r \<le> int n \<and> - 1 \<le> c \<and> c \<le> int n"
  by (auto simp: steps_def neighbours_def inside_def)

lemma find_best_word_aux_words:
  assumes sc: "scores_ok sc f L" "board_ok b n" "L + 1 < sz"
  shows "length p + k = L \<Longrightarrow> lower_word p \<Longrightarrow> length buf = sz \<Longrightarrow> take (length p) buf = p \<Longrightarrow>
      - 1 \<le> r \<and> r \<le> int n \<and> - 1 \<le> c \<and> c \<le> int n \<Longrightarrow>
    found (find_best_word_aux True sc b n sz r c buf (length p)) (best f (None, - 1) (board_words f b n k p (r, c))) sz p"
proof (induction k arbitrary: p buf r c)
  case 0
  show ?case
  proof (cases "inside n (r, c)")
    case True
    obtain buf' where b': "length buf' = sz" "take (length p + 1) buf' = p @ [cell b (r, c)]"
      "find_best_word_aux True sc b n sz r c buf (length p) = Some (None, - 1, buf')"
      using aux_inside[OF sc(1,2) True _ 0(2-4)] 0(1) sc(1,3) by (auto simp: scores_ok_def)
    have "take (length p) buf' = take (length p) (take (length p + 1) buf')" by simp
    then show ?thesis using b' by (intro foundI) (simp_all del: take_take)
  qed (use 0 in \<open>simp add: aux_outside found_def\<close>)
next
  case (Suc k)
  show ?case
  proof (cases "inside n (r, c)")
    case True
    let ?q = "p @ [cell b (r, c)]"
    have q: "lower_word ?q" "length ?q = length p + 1" "length p + 1 < sz"
      using Suc.prems(1,2) board_cell(2)[OF sc(2) True] sc(3) by (simp_all add: lower_word_def)
    obtain buf' where b': "length buf' = sz" "take (length ?q) buf' = ?q"
      "find_best_word_aux True sc b n sz r c buf (length p) =
        (if f ?q = - 1 then Some (None, - 1, buf') else try_neighbours True sc b n sz r c buf' (length p) neighbours (Some ?q) (f ?q))"
      using aux_inside[OF sc(1,2) True q(3) Suc.prems(2-4)] by auto
    have t: "take (length p) b0 = p" if "take (length ?q) b0 = ?q" for b0
      using arg_cong[OF that, of "take (length p)"] by simp
    show ?thesis
    proof (cases "f ?q = - 1")
      case True
      then show ?thesis using b' t by (intro foundI) simp_all
    next
      case False
      have fnd: "found (try_neighbours True sc b n sz r c buf' (length p) neighbours (Some ?q) (f ?q))
          (best f (Some ?q, f ?q) (concat (map (board_words f b n k ?q) (steps neighbours (r, c))))) sz ?q"
        by (rule try_neighbours_words[OF _ q(2,3) b'(1,2)])
           (use Suc.IH[of ?q] Suc.prems(1) q sc(1) steps_range[OF True] in \<open>simp_all add: scores_ok_def\<close>)
      have "- 1 < f ?q" using False sc(1) by (simp add: scores_ok_def order.not_eq_order_implies_strict)
      then have "better f (None, - 1) ?q = (Some ?q, f ?q)" by (simp add: better_def)
      then have "best f (None, - 1) (board_words f b n (Suc k) p (r, c))
          = best f (Some ?q, f ?q) (concat (map (board_words f b n k ?q) (steps neighbours (r, c))))" using True False by simp
      moreover have "find_best_word_aux True sc b n sz r c buf (length p)
          = try_neighbours True sc b n sz r c buf' (length p) neighbours (Some ?q) (f ?q)" using False b'(3) by simp
      ultimately show ?thesis using fnd t unfolding found_def by fastforce
    qed
  qed (use Suc.prems in \<open>simp add: aux_outside found_def\<close>)
qed

text \<open>All cells.\<close>

definition all_board_words :: "(string \<Rightarrow> int) \<Rightarrow> board \<Rightarrow> nat \<Rightarrow> nat \<Rightarrow> string list" where
  "all_board_words f b n L = concat (map (\<lambda>(i, j). board_words f b n L [] (int i, int j)) (List.product [0..<n] [0..<n]))"

lemma best_of_cells_words:
  assumes sc: "scores_ok sc f L" "board_ok b n" "L + 1 < WORD_BUFFER_SZ"
  shows "list_all (\<lambda>(i, j). i < n \<and> j < n) cs \<Longrightarrow> length buf = WORD_BUFFER_SZ \<Longrightarrow> - 1 \<le> s \<Longrightarrow>
    \<exists>buf'. best_of_cells True sc b n cs buf w s
        = Some (fst (best f (w, s) (concat (map (\<lambda>(i, j). board_words f b n L [] (int i, int j)) cs))), buf') \<and> length buf' = WORD_BUFFER_SZ"
proof (induction cs arbitrary: buf w s)
  case (Cons ij cs)
  obtain i j where ij: "ij = (i, j)" by (cases ij)
  let ?a = "best f (None, - 1) (board_words f b n L [] (int i, int j))"
  obtain buf1 where b1: "find_best_word_aux True sc b n WORD_BUFFER_SZ (int i) (int j) buf 0 = Some (fst ?a, snd ?a, buf1)" "length buf1 = WORD_BUFFER_SZ"
    using find_best_word_aux_words[OF sc, of "[]" L buf "int i" "int j"] Cons.prems ij by (auto simp: found_def lower_word_def)
  define a where "a = (if snd ?a > s then ?a else (w, s))"
  have a: "a = best f (w, s) (board_words f b n L [] (int i, int j))" using best_join[of "(w, s)" f] Cons.prems(3) by (simp add: a_def)
  have "- 1 \<le> snd a" using Cons.prems(3) by (auto simp: a_def)
  moreover have "list_all (\<lambda>(i, j). i < n \<and> j < n) cs" using Cons.prems(1) by simp
  ultimately obtain buf' where "best_of_cells True sc b n cs buf1 (fst a) (snd a)
      = Some (fst (best f a (concat (map (\<lambda>(i, j). board_words f b n L [] (int i, int j)) cs))), buf')" "length buf' = WORD_BUFFER_SZ"
    using Cons.IH[OF _ b1(2), of "snd a" "fst a"] by auto
  moreover have "best_of_cells True sc b n (ij # cs) buf w s = best_of_cells True sc b n cs buf1 (fst a) (snd a)"
    using b1(1) by (simp add: ij a_def)
  ultimately show ?case by (simp add: ij a)
qed simp

lemma find_best_word_words:
  assumes "scores_ok sc f L" "board_ok b n" "L + 1 < WORD_BUFFER_SZ" "length buf = WORD_BUFFER_SZ"
  shows "\<exists>buf'. find_best_word True sc b n buf = Some (fst (best f (None, - 1) (all_board_words f b n L)), buf') \<and> length buf' = WORD_BUFFER_SZ"
  unfolding find_best_word_def all_board_words_def
  by (rule best_of_cells_words[OF assms(1-3) _ assms(4)]) (auto simp: list_all_iff)

subsection \<open>The words traced on the board\<close>

definition adjacent :: "int \<times> int \<Rightarrow> int \<times> int \<Rightarrow> bool" where
  "adjacent x y \<longleftrightarrow> \<bar>fst x - fst y\<bar> \<le> 1 \<and> \<bar>snd x - snd y\<bar> \<le> 1 \<and> x \<noteq> y"

fun board_path :: "nat \<Rightarrow> (int \<times> int) list \<Rightarrow> bool" where
  "board_path n [] \<longleftrightarrow> False"
| "board_path n [x] \<longleftrightarrow> inside n x"
| "board_path n (x # y # ys) \<longleftrightarrow> inside n x \<and> adjacent x y \<and> board_path n (y # ys)"

text \<open>The path spells a word, and every nonempty prefix of the word has a score.\<close>

definition traces :: "(string \<Rightarrow> int) \<Rightarrow> board \<Rightarrow> nat \<Rightarrow> string \<Rightarrow> bool" where
  "traces f b n w \<longleftrightarrow> (\<exists>xs. board_path n xs \<and> w = map (cell b) xs) \<and> (\<forall>j. 0 < j \<and> j \<le> length w \<longrightarrow> f (take j w) \<noteq> - 1)"

lemma steps_adjacent: "y \<in> set (steps neighbours x) \<longleftrightarrow> adjacent x y"
proof -
  have "\<bar>a\<bar> \<le> 1 \<longleftrightarrow> a = - 1 \<or> a = 0 \<or> a = 1" for a :: int by auto
  moreover obtain a b where x: "x = (a, b)" by (cases x)
  moreover obtain c d where y: "y = (a + c, b + d)" by (metis add_diff_cancel_left' diff_add_cancel prod.collapse add.commute)
  ultimately show ?thesis
    by (simp add: steps_def neighbours_def adjacent_def) auto
qed

lemma board_words_iff:
  "w \<in> set (board_words f b n k p x) \<longleftrightarrow>
    (\<exists>xs. board_path n (x # xs) \<and> length (x # xs) \<le> k \<and> w = p @ map (cell b) (x # xs)
      \<and> (\<forall>j \<le> length xs. f (p @ map (cell b) (take (Suc j) (x # xs))) \<noteq> - 1))"
proof (induction k arbitrary: p x)
  case (Suc k)
  let ?q = "p @ [cell b x]"
  show ?case
  proof
    assume "w \<in> set (board_words f b n (Suc k) p x)"
    then have x: "inside n x" "f ?q \<noteq> - 1" and "w = ?q \<or> (\<exists>y. adjacent x y \<and> w \<in> set (board_words f b n k ?q y))"
      by (auto simp: steps_adjacent split: if_splits)
    then consider "w = ?q" | y ys where "adjacent x y" "board_path n (y # ys)" "length (y # ys) \<le> k" "w = ?q @ map (cell b) (y # ys)"
      "\<forall>j \<le> length ys. f (?q @ map (cell b) (take (Suc j) (y # ys))) \<noteq> - 1" unfolding Suc.IH by blast
    then show "\<exists>xs. board_path n (x # xs) \<and> length (x # xs) \<le> Suc k \<and> w = p @ map (cell b) (x # xs)
      \<and> (\<forall>j \<le> length xs. f (p @ map (cell b) (take (Suc j) (x # xs))) \<noteq> - 1)"
    proof cases
      case 1
      then show ?thesis using x by (intro exI[of _ "[]"]) simp
    next
      case 2
      have "f (p @ map (cell b) (take (Suc j) (x # y # ys))) \<noteq> - 1" if "j \<le> length (y # ys)" for j
        using that x(2) 2(5) by (cases j) auto
      then show ?thesis using 2 x by (intro exI[of _ "y # ys"]) simp
    qed
  next
    assume "\<exists>xs. board_path n (x # xs) \<and> length (x # xs) \<le> Suc k \<and> w = p @ map (cell b) (x # xs)
      \<and> (\<forall>j \<le> length xs. f (p @ map (cell b) (take (Suc j) (x # xs))) \<noteq> - 1)"
    then obtain xs where xs: "board_path n (x # xs)" "length (x # xs) \<le> Suc k" "w = p @ map (cell b) (x # xs)"
      and f: "\<And>j. j \<le> length xs \<Longrightarrow> f (p @ map (cell b) (take (Suc j) (x # xs))) \<noteq> - 1" by blast
    show "w \<in> set (board_words f b n (Suc k) p x)"
    proof (cases xs)
      case Nil
      then show ?thesis using xs f[of 0] by simp
    next
      case (Cons y ys)
      have "f (?q @ map (cell b) (take (Suc j) (y # ys))) \<noteq> - 1" if "j \<le> length ys" for j
        using f[of "Suc j"] that Cons by simp
      then have "w \<in> set (board_words f b n k ?q y)" unfolding Suc.IH using xs Cons by (intro exI[of _ ys]) auto
      then show ?thesis using xs(1) f[of 0] Cons by (auto simp: steps_adjacent)
    qed
  qed
qed simp

lemma path_inside: "board_path n xs \<Longrightarrow> x \<in> set xs \<Longrightarrow> inside n x"
  by (induction n xs rule: board_path.induct) auto

lemma set_all_board_words:
  assumes "\<And>w. L < length w \<Longrightarrow> f w = - 1"
  shows "w \<in> set (all_board_words f b n L) \<longleftrightarrow> traces f b n w"
proof -
  have all: "(\<forall>j \<le> length xs. f (map (cell b) (take (Suc j) (x # xs))) \<noteq> - 1) \<longleftrightarrow>
      (\<forall>j. 0 < j \<and> j \<le> length (map (cell b) (x # xs)) \<longrightarrow> f (take j (map (cell b) (x # xs))) \<noteq> - 1)" for x xs
    unfolding take_map by (auto simp: gr0_conv_Suc)
  have len: "length (x # xs) \<le> L" if "\<forall>j \<le> length xs. f (map (cell b) (take (Suc j) (x # xs))) \<noteq> - 1" for x xs
    using that[rule_format, of "length xs"] assms[of "map (cell b) (x # xs)"] by fastforce
  have "w \<in> set (all_board_words f b n L) \<longleftrightarrow> (\<exists>x. inside n x \<and> w \<in> set (board_words f b n L [] x))"
  proof
    assume "\<exists>x. inside n x \<and> w \<in> set (board_words f b n L [] x)"
    then obtain r c where rc: "inside n (r, c)" "w \<in> set (board_words f b n L [] (r, c))" by auto
    then have "(nat r, nat c) \<in> set (List.product [0..<n] [0..<n])" "int (nat r) = r" "int (nat c) = c" by (auto simp: inside_def)
    then show "w \<in> set (all_board_words f b n L)" using rc(2) unfolding all_board_words_def
      by (simp only: set_concat set_map UN_iff image_image) (rule bexI[of _ "(nat r, nat c)"], simp_all)
  next
    assume "w \<in> set (all_board_words f b n L)"
    then obtain i j where "i < n" "j < n" "w \<in> set (board_words f b n L [] (int i, int j))" by (auto simp: all_board_words_def)
    then show "\<exists>x. inside n x \<and> w \<in> set (board_words f b n L [] x)" by (intro exI[of _ "(int i, int j)"]) (simp add: inside_def)
  qed
  also have "\<dots> \<longleftrightarrow> traces f b n w"
  proof
    assume "\<exists>x. inside n x \<and> w \<in> set (board_words f b n L [] x)"
    then show "traces f b n w" unfolding board_words_iff traces_def using all by (auto simp del: list.map) 
  next
    assume t: "traces f b n w"
    then obtain xs where xs: "board_path n xs" "w = map (cell b) xs" by (auto simp: traces_def)
    then obtain x ys where c: "xs = x # ys" by (cases xs) auto
    then show "\<exists>x. inside n x \<and> w \<in> set (board_words f b n L [] x)"
      using xs t all[of ys x] len[of ys x] path_inside[OF xs(1), of x]
      unfolding board_words_iff traces_def by (intro exI[of _ x] conjI exI[of _ ys]) simp_all
  qed
  finally show ?thesis .
qed

end
