(* ===== verification/Boggle_Board.thy ===== *)
theory Boggle_Board
  imports Boggle_Trie Boggle_Search
begin

text \<open>
  The boards of the boggle program. Whatever the source of the letters, a finished board has lower-case letters only and
  no letter more than \<open>n + 1\<close> times. Random letters fill a board up to size 26 if every letter keeps coming up, and never
  a larger one; a board that is typed in is read as it is.
\<close>

subsection \<open>The counters\<close>

definition used_ok :: "nat \<Rightarrow> nat list \<Rightarrow> string \<Rightarrow> bool" where
  "used_ok n U P \<longleftrightarrow> length U = ALPHABET_SZ \<and> n + 1 < 2 ^ 32 \<and> lower_word P \<and> sum_list U = length P
     \<and> (\<forall>i<ALPHABET_SZ. U ! i = count_list (indices P) i \<and> U ! i \<le> n + 1)"

lemma used_ok_start: "n + 1 < 2 ^ 32 \<Longrightarrow> used_ok n (replicate ALPHABET_SZ 0) []"
  by (simp add: used_ok_def lower_word_def sum_list_replicate)

lemma letter_index_26: "letter_index c < 26 \<Longrightarrow> lower c"
proof -
  define x :: int where "x = of_char c"
  assume "letter_index c < 26"
  then have a: "(x - 97) mod 256 < 26" by (simp add: letter_index_def x_def)
  have x: "x = int (of_char c)" unfolding x_def by (rule of_nat_of_char[symmetric])
  have "(of_char c :: nat) < 256" by simp
  then have x01: "0 \<le> x" "x < 256" using x by simp_all
  have "97 \<le> x \<and> x \<le> 122"
  proof (cases "x < 97")
    case True
    have "(x - 97) mod 256 = (x - 97 + 256) mod 256" by (simp only: mod_add_self2)
    also have "\<dots> = x + 159" using True x01 by (simp add: mod_pos_pos_trivial)
    finally show ?thesis using a x01 by simp
  next
    case False
    then have "(x - 97) mod 256 = x - 97" using x01 by (intro mod_pos_pos_trivial) simp_all
    then show ?thesis using a False by simp
  qed
  then show "lower c" using x by (simp add: lower_def)
qed

lemma used_ok_place:
  assumes "used_ok n U P" "rd U (letter_index l) = Some u" "u \<le> n"
  shows "lower l" "\<exists>V. wr U (letter_index l) ((u + 1) mod 2 ^ 32) = Some V \<and> used_ok n V (P @ [l])"
proof -
  let ?i = "letter_index l"
  have i: "?i < length U" "U ! ?i = u" "length U = 26" using assms by (auto simp: rd_eq_Some_iff used_ok_def ALPHABET_SZ_def)
  then show l: "lower l" by (intro letter_index_26) simp
  have u: "(u + 1) mod 2 ^ 32 = u + 1" using assms(1,3) by (intro mod_less) (simp add: used_ok_def)
  have "sum_list (U[?i := u + 1]) + u = sum_list U + (u + 1)" using sum_list_update_add[of ?i U id "u + 1"] i by simp
  then have "used_ok n (U[?i := u + 1]) (P @ [l])"
    using assms i l by (auto simp: used_ok_def lower_word_def nth_list_update)
  then show "\<exists>V. wr U ?i ((u + 1) mod 2 ^ 32) = Some V \<and> used_ok n V (P @ [l])" unfolding u using i by simp
qed

subsection \<open>What is on a board\<close>

lemma usable_letter_usable:
  "usable_letter gen n U l st = Some y \<Longrightarrow> \<exists>u. rd U (letter_index (fst y)) = Some u \<and> u \<le> n"
  by (erule usable_letter.raw_induct[where P = "\<lambda>gen n U l st y. \<exists>u. rd U (letter_index (fst y)) = Some u \<and> u \<le> n", rotated])
     (fastforce simp: bind_eq_Some_conv split: if_splits)

lemma place_letter_ok:
  assumes "place_letter gen n U st = Some (l, V, st')" "used_ok n U P"
  shows "used_ok n V (P @ [l])"
proof -
  obtain l0 st0 u where p: "usable_letter gen n U l0 st0 = Some (l, st')" "rd U (letter_index l) = Some u"
    "wr U (letter_index l) ((u + 1) mod 2 ^ 32) = Some V"
    using assms(1) by (auto simp: place_letter_def bind_eq_Some_conv)
  then have "u \<le> n" using usable_letter_usable[OF p(1)] by simp
  then show ?thesis using used_ok_place(2)[OF assms(2) p(2)] p(3) by simp
qed

lemma fill_board_row_ok:
  "fill_board_row gen n m U st = Some (ls, V, st') \<Longrightarrow> used_ok n U P \<Longrightarrow> length ls = m \<and> used_ok n V (P @ ls)"
proof (induction m arbitrary: U st ls P)
  case (Suc m)
  then obtain l U1 st1 ls' where r: "place_letter gen n U st = Some (l, U1, st1)" "fill_board_row gen n m U1 st1 = Some (ls', V, st')" "ls = l # ls'"
    by (auto simp: bind_eq_Some_conv)
  then show ?case using Suc.IH[OF r(2) place_letter_ok[OF r(1) Suc.prems(2)]] by simp
qed simp

lemma fill_board_ok:
  "fill_board gen n m U st = Some (b, st') \<Longrightarrow> used_ok n U P \<Longrightarrow>
    length b = m \<and> (\<forall>row \<in> set b. length row = n) \<and> (\<exists>V. used_ok n V (P @ concat b))"
proof (induction m arbitrary: U st b P)
  case (Suc m)
  then obtain row U1 st1 b' where r: "fill_board_row gen n n U st = Some (row, U1, st1)" "fill_board gen n m U1 st1 = Some (b', st')" "b = row # b'"
    by (auto simp: bind_eq_Some_conv)
  then show ?case using Suc.IH[OF r(2)] fill_board_row_ok[OF r(1) Suc.prems(2)] by fastforce
qed auto

definition letters_limited :: "nat \<Rightarrow> board \<Rightarrow> bool" where
  "letters_limited n b \<longleftrightarrow> (\<forall>l. lower l \<longrightarrow> count_list (concat b) l \<le> n + 1)"

lemma count_indices: "lower_word P \<Longrightarrow> lower l \<Longrightarrow> count_list (indices P) (letter_index l) = count_list P l"
  using letter_letter_index by (induction P) (auto simp: lower_word_def, metis)

lemma generate_board_aux_ok:
  assumes "generate_board_aux mem n gen st = Some (b, st')" "n + 1 < 2 ^ 32"
  shows "board_ok b n" "letters_limited n b" "\<exists>V. used_ok n V (concat b)"
proof -
  have "fill_board gen n n (replicate ALPHABET_SZ 0) st = Some (b, st')"
    using assms(1) by (auto simp: generate_board_aux_def bind_eq_Some_conv)
  from fill_board_ok[OF this used_ok_start[OF assms(2)]] obtain V
    where b: "length b = n" "\<forall>row \<in> set b. length row = n" and V: "used_ok n V (concat b)" by auto
  have l: "lower_word (concat b)" using V by (simp add: used_ok_def)
  then show "board_ok b n" using b by (auto simp: board_ok_def lower_word_def list_all_iff)
  show "\<exists>V. used_ok n V (concat b)" using V by blast
  show "letters_limited n b" unfolding letters_limited_def
  proof (intro allI impI)
    fix x assume "lower x"
    then show "count_list (concat b) x \<le> n + 1"
      using V count_indices[OF l] letter_index_less[of x] by (fastforce simp: used_ok_def ALPHABET_SZ_def)
  qed
qed

subsection \<open>Random letters\<close>

text \<open>Every letter comes up again and again.\<close>

definition fair :: "(nat \<Rightarrow> nat) \<Rightarrow> bool" where
  "fair R \<longleftrightarrow> (\<forall>k. \<forall>i<26. \<exists>k'\<ge>k. R k' mod 26 = i)"

lemma rand_letter: "letter_index (char_of (R k mod 26 + 97)) = R k mod 26" "get_rand_letter R k = Some (char_of (R k mod 26 + 97), k + 1)"
proof -
  have "letter_index (letter (R k mod 26)) = R k mod 26" by (rule lower_letter(2)) simp
  then show "letter_index (char_of (R k mod 26 + 97)) = R k mod 26" by (simp add: letter_def add.commute)
qed (simp add: get_rand_letter_def)

lemma usable_letter_returns:
  assumes U: "length U = 26" and i: "U ! (R k' mod 26) \<le> n"
  shows "k \<le> k' \<Longrightarrow> \<exists>l k''. usable_letter (get_rand_letter R) n U (char_of (R k mod 26 + 97)) (k + 1) = Some (l, k'')"
proof (induction "k' - k" arbitrary: k)
  case 0
  then show ?case using i U by (subst usable_letter.simps) (simp add: rand_letter)
next
  case (Suc m)
  then obtain l k'' where "usable_letter (get_rand_letter R) n U (char_of (R (k + 1) mod 26 + 97)) (k + 1 + 1) = Some (l, k'')"
    using Suc.hyps(1)[of "k + 1"] Suc.hyps(2) Suc.prems by fastforce
  then show ?case using U by (subst usable_letter.simps) (auto simp: rand_letter)
qed

lemma place_letter_returns:
  assumes "used_ok n U P" "fair R" "length P < 26 * (n + 1)"
  shows "\<exists>l V k'. place_letter (get_rand_letter R) n U k = Some (l, V, k')"
proof -
  have U: "length U = 26" "sum_list U = length P" using assms(1) by (simp_all add: used_ok_def ALPHABET_SZ_def)
  have "\<exists>i<26. U ! i \<le> n"
  proof (rule ccontr)
    assume a: "\<not> (\<exists>i<26. U ! i \<le> n)"
    then have "n + 1 \<le> u" if "u \<in> set U" for u using that U(1) by (fastforce simp: in_set_conv_nth not_le)
    then have "length U * (n + 1) \<le> sum_list U" using sum_list_mono[of U "\<lambda>_. n + 1" "\<lambda>u. u"] by (simp add: sum_list_triv)
    then show False using U assms(3) by simp
  qed
  then obtain i where i: "i < 26" "U ! i \<le> n" by blast
  obtain k' where "k' \<ge> k" "R k' mod 26 = i" using assms(2) i(1) unfolding fair_def by blast
  then obtain l k'' where l: "usable_letter (get_rand_letter R) n U (char_of (R k mod 26 + 97)) (k + 1) = Some (l, k'')"
    using usable_letter_returns[OF U(1), of R k' n k] i(2) by auto
  obtain u where u: "rd U (letter_index l) = Some u" "u \<le> n" using usable_letter_usable[OF l] by auto
  then show ?thesis using l used_ok_place(2)[OF assms(1) u] by (auto simp: place_letter_def rand_letter(2))
qed

lemma fill_board_row_returns:
  "used_ok n U P \<Longrightarrow> fair R \<Longrightarrow> length P + m \<le> 26 * (n + 1) \<Longrightarrow>
    \<exists>ls V k'. fill_board_row (get_rand_letter R) n m U k = Some (ls, V, k')"
proof (induction m arbitrary: U P k)
  case (Suc m)
  obtain l V k' where p: "place_letter (get_rand_letter R) n U k = Some (l, V, k')"
    using place_letter_returns[OF Suc.prems(1,2), of k] Suc.prems(3) by auto
  then show ?case using Suc.IH[OF place_letter_ok[OF p Suc.prems(1)] Suc.prems(2), of k'] Suc.prems(3) by auto
qed simp

lemma fill_board_returns:
  "used_ok n U P \<Longrightarrow> fair R \<Longrightarrow> length P + m * n \<le> 26 * (n + 1) \<Longrightarrow>
    \<exists>b k'. fill_board (get_rand_letter R) n m U k = Some (b, k')"
proof (induction m arbitrary: U P k)
  case (Suc m)
  obtain ls V k' where r: "fill_board_row (get_rand_letter R) n n U k = Some (ls, V, k')"
    using fill_board_row_returns[OF Suc.prems(1,2), of n k] Suc.prems(3) by auto
  then have "length ls = n" "used_ok n V (P @ ls)" using fill_board_row_ok[OF r Suc.prems(1)] by simp_all
  then show ?case using r Suc.IH[OF _ Suc.prems(2), of V "P @ ls" k'] Suc.prems(3) by auto
qed simp

lemma generate_board_iff:
  assumes "fair R" "n + 1 < 2 ^ 32"
  shows "(\<exists>b k'. generate_board True n R k = Some (b, k')) \<longleftrightarrow> n \<le> 26"
proof
  assume "\<exists>b k'. generate_board True n R k = Some (b, k')"
  then obtain b k' where g: "generate_board_aux True n (get_rand_letter R) k = Some (b, k')" by (auto simp: generate_board_def)
  obtain V where V: "used_ok n V (concat b)" using generate_board_aux_ok(3)[OF g assms(2)] by blast
  have "\<forall>row \<in> set b. length row = n" "length b = n" using generate_board_aux_ok(1)[OF g assms(2)] by (auto simp: board_ok_def)
  then have "length (concat b) = n * n" by (simp add: length_concat sum_list_triv cong: map_cong)
  then have "n * n = sum_list V" using V by (simp add: used_ok_def)
  also have "\<dots> \<le> 26 * (n + 1)"
    using V sum_list_mono[of V "\<lambda>u. u" "\<lambda>_. n + 1"] by (auto simp: used_ok_def ALPHABET_SZ_def sum_list_triv in_set_conv_nth)
  finally have "n * n \<le> 26 * n + 26" by simp
  then show "n \<le> 26"
  proof (rule contrapos_pp)
    assume "\<not> n \<le> 26"
    then have "27 * n \<le> n * n" "26 < n" by simp_all
    then show "\<not> n * n \<le> 26 * n + 26" by linarith
  qed
next
  assume "n \<le> 26"
  then have "n * n \<le> 26 * n" by (rule mult_le_mono1)
  also have "\<dots> \<le> 26 * (n + 1)" by simp
  finally have "n * n \<le> 26 * (n + 1)" .
  then show "\<exists>b k'. generate_board True n R k = Some (b, k')"
    using fill_board_returns[OF used_ok_start[OF assms(2)] assms(1), of n k]
    by (simp add: generate_board_def generate_board_aux_def)
qed

subsection \<open>A board that is typed in\<close>

definition rows_text :: "board \<Rightarrow> string" where
  "rows_text b = concat (map (\<lambda>row. CHR 0x0A # row) b)"

lemma lower_not_space: "lower c \<Longrightarrow> \<not> isspace c"
  by (auto simp: lower_def isspace_def)

lemma place_typed:
  assumes "used_ok n U P" "list_all isspace ws" "lower x" "count_list (P @ [x]) x \<le> n + 1"
  shows "\<exists>V. place_letter inject_letter n U (ws @ x # rest) = Some (x, V, rest) \<and> used_ok n V (P @ [x])"
proof -
  have i: "inject_letter (ws @ x # rest) = Some (x, rest)"
    using assms(2) lower_not_space[OF assms(3)] by (simp add: inject_letter_def scanf_eval skip_ws_Cons)
  have "letter_index x < 26" using assms(3) by (rule letter_index_less)
  then have U: "rd U (letter_index x) = Some (count_list P x)"
    using assms(1) count_indices[of P x] assms(3) by (simp add: used_ok_def rd_def ALPHABET_SZ_def)
  have "count_list P x \<le> n" using assms(4) by simp
  then show ?thesis using i U used_ok_place(2)[OF assms(1) U] by (subst place_letter_def, subst usable_letter.simps) auto
qed

lemma row_typed:
  "used_ok n U P \<Longrightarrow> list_all isspace ws \<Longrightarrow> lower_word ls \<Longrightarrow> (\<forall>l. count_list (P @ ls) l \<le> n + 1) \<Longrightarrow>
    \<exists>V. fill_board_row inject_letter n (length ls) U (ws @ ls @ rest) = Some (ls, V, (if ls = [] then ws @ rest else rest)) \<and> used_ok n V (P @ ls)"
proof (induction ls arbitrary: U P ws)
  case (Cons x ls)
  have x: "lower x" "lower_word ls" using Cons.prems(3) by (simp_all add: lower_word_def)
  have "count_list (P @ [x]) x \<le> n + 1" using spec[OF Cons.prems(4), of x] by simp
  from place_typed[OF Cons.prems(1,2) x(1) this, of "ls @ rest"] obtain V
    where V: "place_letter inject_letter n U (ws @ x # ls @ rest) = Some (x, V, ls @ rest)" "used_ok n V (P @ [x])" by blast
  have "\<forall>l. count_list ((P @ [x]) @ ls) l \<le> n + 1" using Cons.prems(4) by simp
  from Cons.IH[OF V(2) _ x(2) this, of "[]"] V(1) show ?case by auto
qed auto

lemma board_typed:
  "used_ok n U P \<Longrightarrow> \<forall>row \<in> set b. length row = n \<and> row \<noteq> [] \<and> lower_word row \<Longrightarrow> (\<forall>l. count_list (P @ concat b) l \<le> n + 1) \<Longrightarrow>
    fill_board inject_letter n (length b) U (rows_text b @ rest) = Some (b, rest)"
proof (induction b arbitrary: U P)
  case (Cons row b)
  have "count_list (P @ row) l \<le> n + 1" for l using spec[OF Cons.prems(3), of l] by simp
  with row_typed[OF Cons.prems(1), of "''\<newline>''" row "rows_text b @ rest"] Cons.prems(2) obtain V
    where "fill_board_row inject_letter n n U (CHR 0x0A # row @ rows_text b @ rest) = Some (row, V, rows_text b @ rest)" "used_ok n V (P @ row)"
    by auto
  then show ?case using Cons.IH[of V "P @ row"] Cons.prems(2,3) by (simp add: rows_text_def)
qed (simp add: rows_text_def)

lemma inject_board_typed:
  assumes "board_ok b n" "letters_limited n b" "n + 1 < 2 ^ 32"
  shows "inject_board True n (rows_text b @ rest) = Some (b, rest)"
proof -
  have l: "lower_word (concat b)" using assms(1) by (auto simp: board_ok_def lower_word_def list_all_iff)
  have "count_list (concat b) x \<le> n + 1" for x
  proof (cases "lower x")
    case False
    then have "x \<notin> set (concat b)" using l by (auto simp: lower_word_def list_all_iff)
    then show ?thesis using count_notin[of x "concat b"] by linarith
  qed (use assms(2) in \<open>simp add: letters_limited_def\<close>)
  moreover have "\<forall>row \<in> set b. length row = n \<and> row \<noteq> [] \<and> lower_word row" "length b = n"
    using assms(1) by (auto simp: board_ok_def)
  ultimately show ?thesis
    using board_typed[OF used_ok_start[OF assms(3)], of b rest] by (simp add: inject_board_def generate_board_aux_def)
qed

lemma those_rd: "those (map (rd r) [0..<length r]) = Some r"
proof -
  have "those (map (rd r) [0..<m]) = Some (take m r)" if "m \<le> length r" for m
    using that
  proof (induction m)
    case (Suc m)
    have "those (xs @ [y]) = (case those xs of None \<Rightarrow> None | Some a \<Rightarrow> (case y of None \<Rightarrow> None | Some z \<Rightarrow> Some (a @ [z])))" for xs and y :: "'a option"
      by (induction xs) (auto split: option.splits)
    then show ?case using Suc by (simp add: take_Suc_conv_app_nth)
  qed simp
  from this[of "length r"] show ?thesis by simp
qed

lemma print_board_eq: "board_ok b n \<Longrightarrow> print_board b n = Some (concat (map (\<lambda>row. row @ ''\<newline>'') b))"
proof -
  assume ok: "board_ok b n"
  have "(do { r \<leftarrow> rd b i; those (map (rd r) [0..<n]) }) = rd b i" if "i < n" for i
    using that ok those_rd[of "b ! i"] by (auto simp: board_ok_def)
  then have "map (\<lambda>i. do { r \<leftarrow> rd b i; those (map (rd r) [0..<n]) }) [0..<n] = map (rd b) [0..<length b]"
    using ok by (simp add: board_ok_def)
  then show ?thesis by (simp only: print_board_def those_rd bind.bind_lunit)
qed

end
