(* ===== verification/Boggle_Main.thy ===== *)
theory Boggle_Main
  imports Boggle_Board
begin

text \<open>
  The boggle program as a whole: for every sequence of well-formed commands its output is the one of an abstract
  machine whose state is a map from words to scores, a board, and the number of letters drawn; at the end
  no cell of the trie is left.
\<close>

subsection \<open>The abstract machine\<close>

datatype bg_cmd = Inject board | Generate nat | Print_board | Insert nat string | Insert_all nat string
  | Remove string | Search string | Dump | Best | Unknown char

fun cmd_op :: "bg_cmd \<Rightarrow> char" where
  "cmd_op (Inject b) = CHR ''I''"
| "cmd_op (Generate n) = CHR ''G''"
| "cmd_op Print_board = CHR ''P''"
| "cmd_op (Insert v w) = CHR ''W''"
| "cmd_op (Insert_all v w) = CHR ''A''"
| "cmd_op (Remove w) = CHR ''R''"
| "cmd_op (Search w) = CHR ''S''"
| "cmd_op Dump = CHR ''D''"
| "cmd_op Best = CHR ''B''"
| "cmd_op (Unknown x) = x"

fun cmd_args :: "bg_cmd \<Rightarrow> string" where
  "cmd_args (Inject b) = '' '' @ show_nat (length b) @ rows_text b"
| "cmd_args (Generate n) = '' '' @ show_nat n"
| "cmd_args (Insert v w) = '' '' @ show_nat v @ '' '' @ w"
| "cmd_args (Insert_all v w) = '' '' @ show_nat v @ '' '' @ w"
| "cmd_args (Remove w) = '' '' @ w"
| "cmd_args (Search w) = '' '' @ w"
| "cmd_args _ = []"

definition cmd_text :: "bg_cmd \<Rightarrow> string" where
  "cmd_text c = cmd_op c # cmd_args c @ ''\<newline>''"

fun cmd_ok :: "bg_cmd \<Rightarrow> bool" where
  "cmd_ok (Inject b) \<longleftrightarrow> board_ok b (length b) \<and> letters_limited (length b) b \<and> length b + 1 < 2 ^ 32"
| "cmd_ok (Generate n) \<longleftrightarrow> n \<le> 26"
| "cmd_ok (Insert v w) \<longleftrightarrow> v < 2 ^ 31 \<and> w \<noteq> [] \<and> good_word w"
| "cmd_ok (Insert_all v w) \<longleftrightarrow> v < 2 ^ 31 \<and> w \<noteq> [] \<and> good_word w"
| "cmd_ok (Remove w) \<longleftrightarrow> w \<noteq> [] \<and> good_word w"
| "cmd_ok (Search w) \<longleftrightarrow> w \<noteq> [] \<and> good_word w"
| "cmd_ok (Unknown x) \<longleftrightarrow> \<not> isspace x \<and> x \<notin> set ''IPGWARSDBQ''"
| "cmd_ok _ \<longleftrightarrow> True"

type_synonym bg_abs = "(string \<Rightarrow> int) \<times> board option \<times> nat"

definition best_word :: "(string \<Rightarrow> int) \<Rightarrow> board option \<Rightarrow> string option" where
  "best_word d b = (case b of None \<Rightarrow> None | Some x \<Rightarrow> fst (best d (None, - 1) (all_board_words d x (length x) (MAX_WORD_SZ - 1))))"

fun bg_step :: "(nat \<Rightarrow> nat) \<Rightarrow> bg_abs \<Rightarrow> bg_cmd \<Rightarrow> bg_abs \<times> string \<times> string" where
  "bg_step R (d, b, k) (Inject x) = ((d, Some x, k), [], [])"
| "bg_step R (d, b, k) (Generate n) = (case the (generate_board True n R k) of (x, k') \<Rightarrow> ((d, Some x, k'), [], []))"
| "bg_step R (d, b, k) Print_board =
     ((d, b, k), (case b of None \<Rightarrow> ''No board at the moment\<newline>'' | Some x \<Rightarrow> concat (map (\<lambda>row. row @ ''\<newline>'') x)), [])"
| "bg_step R (d, b, k) (Insert v w) = ((d(w := int v), b, k), [], [])"
| "bg_step R (d, b, k) (Insert_all v w) =
     ((\<lambda>u. if u = w then int v else if u \<in> (\<lambda>i. take i w) ` {1..<length w} then 0 else d u, b, k), [], [])"
| "bg_step R (d, b, k) (Remove w) = ((d(w := - 1), b, k), [], [])"
| "bg_step R (d, b, k) (Search w) =
     ((d, b, k), (if d w = - 1 then ''No such word: '' @ w @ ''\<newline>'' else ''score('' @ w @ '') = '' @ show_int (d w) @ ''\<newline>''), [])"
| "bg_step R (d, b, k) Dump = ((d, b, k), words_text d, [])"
| "bg_step R (d, b, k) Best =
     ((d, b, k), (case best_word d b of None \<Rightarrow> ''No words found\<newline>'' | Some w \<Rightarrow> ''Best word: '' @ w @ ''\<newline>''), [])"
| "bg_step R (d, b, k) (Unknown x) = ((d, b, k), [], ''Unrecognized operation: '' @ [x] @ ''\<newline>'')"

fun bg_run :: "(nat \<Rightarrow> nat) \<Rightarrow> bg_abs \<Rightarrow> bg_cmd list \<Rightarrow> string \<times> string" where
  "bg_run R a [] = ([], [])"
| "bg_run R a (c # cs) =
     (case bg_step R a c of (a1, out, err) \<Rightarrow> (case bg_run R a1 cs of (out', err') \<Rightarrow> (out @ ''> '' @ out', err @ err')))"

subsection \<open>The state of the program\<close>

definition dim_ok :: "board option \<Rightarrow> nat \<Rightarrow> bool" where
  "dim_ok b n \<longleftrightarrow> (case b of None \<Rightarrow> n = 0 | Some x \<Rightarrow> board_ok x n)"

lemma dim_ok_simps [simp]: "dim_ok None n \<longleftrightarrow> n = 0" "dim_ok (Some x) n \<longleftrightarrow> board_ok x n"
  by (simp_all add: dim_ok_def)

lemma destroy_board_eq: "dim_ok b n \<Longrightarrow> destroy_board b n = Some None"
  by (cases b) (auto simp: destroy_board_def board_ok_def those_rd)

fun bg_rep :: "bg_state \<Rightarrow> bg_abs \<Rightarrow> bool" where
  "bg_rep st (d, b, k) \<longleftrightarrow> trie_rep (tr_heap st, trie st) d \<and> (\<forall>w. - 1 \<le> d w) \<and> brd st = b
     \<and> dim_ok b (board_dim st) \<and> length (word_buffer st) = WORD_BUFFER_SZ \<and> length (curr_word st) = MAX_WORD_SZ \<and> rnd st = k"

lemma board_ok_length: "board_ok b n \<Longrightarrow> length b = n"
  by (simp add: board_ok_def)

lemma trie_rep_good: "trie_rep s d \<Longrightarrow> d w \<noteq> - 1 \<Longrightarrow> good_word w"
proof -
  assume "trie_rep s d" and w: "d w \<noteq> - 1"
  then obtain h r where t: "trie_ok h r" and d: "\<forall>w. d w = (if lower_word w then dict h r (indices w) else - 1)"
    using trie_repD by blast
  have l: "lower_word w" "dict h r (indices w) \<noteq> - 1" using d w by (auto split: if_splits)
  then obtain a where "trail h r (indices w) = Some a" using dict_None by fastforce
  then show "good_word w" using trie_okD(2)[OF t] l(1) by (fastforce simp: good_word_def)
qed

lemma trie_scores:
  assumes "trie_rep (h, root) d" "\<forall>w. - 1 \<le> d w"
  shows "scores_ok (word_score h root) d (MAX_WORD_SZ - 1)"
proof -
  have "d w = - 1" if "MAX_WORD_SZ - 1 < length w" for w
    using trie_rep_good[OF assms(1), of w] that by (cases "d w = - 1") (auto simp: good_word_def)
  then show ?thesis using tw.rep_get[OF assms(1)] assms(2) by (simp add: scores_ok_def)
qed

lemma find_best_word_eq:
  assumes "trie_rep (h, root) d" "\<forall>w. - 1 \<le> d w" "board_ok b n" "length buf = WORD_BUFFER_SZ"
  shows "\<exists>buf'. find_best_word True (word_score h root) b n buf = Some (best_word d (Some b), buf') \<and> length buf' = WORD_BUFFER_SZ"
  using find_best_word_words[OF trie_scores[OF assms(1,2)] assms(3) _ assms(4)] board_ok_length[OF assms(3)]
  by (simp add: best_word_def MAX_WORD_SZ_def WORD_BUFFER_SZ_def)

lemma best_word_traces:
  assumes "\<And>w. d w \<noteq> - 1 \<Longrightarrow> good_word w" "\<forall>w. - 1 \<le> d w" "length b = n"
  shows "case best_word d (Some b) of None \<Rightarrow> \<not> (\<exists>v. traces d b n v) | Some v \<Rightarrow> traces d b n v \<and> (\<forall>u. traces d b n u \<longrightarrow> d u \<le> d v)"
proof -
  let ?ws = "all_board_words d b n (MAX_WORD_SZ - 1)"
  have "d w = - 1" if "MAX_WORD_SZ - 1 < length w" for w using assms(1)[of w] that by (cases "d w = - 1") (auto simp: good_word_def)
  note ws = set_all_board_words[of "MAX_WORD_SZ - 1" d _ b n, OF this]
  have pos: "- 1 < d u" if "traces d b n u" for u
  proof -
    have "u \<noteq> []" using that board_path.simps(1) by (auto simp: traces_def)
    then have "d u \<noteq> - 1" using that by (auto simp: traces_def dest: spec[of _ "length u"])
    then show ?thesis using assms(2)[rule_format, of u] by simp
  qed
  let ?B = "best d (None, - 1) ?ws"
  have B: "- 1 \<le> snd ?B" "\<forall>x \<in> set ?ws. d x \<le> snd ?B" "?B = (None, - 1) \<or> (\<exists>x \<in> set ?ws. ?B = (Some x, d x))"
    using best_max[of "(None, - 1)" d ?ws] by auto
  show ?thesis
  proof (cases "?B = (None, - 1)")
    case True
    then show ?thesis using B(2) pos ws assms(3) by (fastforce simp: best_word_def)
  next
    case False
    then obtain x where "x \<in> set ?ws" "?B = (Some x, d x)" using B(3) by blast
    then show ?thesis using B(2) ws assms(3) by (simp add: best_word_def)
  qed
qed

subsection \<open>Reading the arguments\<close>

lemma scan_command: "list_all isspace ws \<Longrightarrow> \<not> isspace x \<Longrightarrow> scanf '' %c'' (ws @ x # r) = Some \<lparr>sr_args = [ChrA x], sr_eof = False, sr_rest = r\<rparr>"
  by (simp add: scanf_eval skip_ws_Cons)

lemma good_word_plain: "good_word w \<Longrightarrow> \<forall>x\<in>set w. \<not> isspace x" "good_word w \<Longrightarrow> cstr w = w"
  using lower_not_space lower_not_nul[of w] cstr_line[of w] by (auto simp: good_word_def lower_word_def list_all_iff)

lemma read_word_eq:
  assumes "inp st = '' '' @ w @ ''\<newline>'' @ r" "w \<noteq> []" "good_word w"
  shows "read_word st = Some (st\<lparr>word_buff := w, inp := ''\<newline>'' @ r\<rparr>)"
  using scan_word_line[of w "'' ''" r] assms good_word_plain[OF assms(3)] by (simp add: read_word_def good_word_def)

lemma read_scored_word_eq:
  assumes "inp st = '' '' @ show_nat v @ '' '' @ w @ ''\<newline>'' @ r" "w \<noteq> []" "good_word w" "v < 2 ^ 31"
  shows "read_scored_word st = Some (int v, st\<lparr>word_buff := w, inp := ''\<newline>'' @ r\<rparr>)"
proof -
  have "scanf ''%s'' ('' '' @ w @ CHR 0x0A # r) = Some \<lparr>sr_args = [StrA w], sr_eof = False, sr_rest = ''\<newline>'' @ r\<rparr>"
    using scan_word_line[of w "'' ''" r] assms(2) good_word_plain[OF assms(3)] by simp
  then have "scanf ''%zu%s'' (inp st) = Some \<lparr>sr_args = [IntA (int v), StrA w], sr_eof = False, sr_rest = ''\<newline>'' @ r\<rparr>"
    using scanf_zu_show[of "'' ''" "'' '' @ w @ ''\<newline>'' @ r" v "''%s''"] assms(1,4) by (simp add: scan_push_def)
  moreover have "to_int (int v) = int v" using assms(4) by (simp add: to_int_def)
  ultimately show ?thesis using good_word_plain[OF assms(3)] assms(3) by (simp add: read_scored_word_def good_word_def)
qed

lemma read_dim_eq:
  assumes "inp st = '' '' @ show_nat n @ r" "no_digit r" "n < 2 ^ 64"
  shows "read_dim st = Some (st\<lparr>board_dim := n, inp := r\<rparr>)"
  using scanf_zu_elem[of "'' ''" r n] assms by (simp add: read_dim_def)

lemma insert_prefixes_put_all:
  "put_all (\<lambda>(h, root) w v. map_option (\<lambda>h'. (h', root)) (insert_word h root w v)) (h, root) w is
    = map_option (\<lambda>h'. (h', root)) (insert_prefixes h root w is)"
proof (induction "is" arbitrary: h)
  case (Cons i "is")
  then show ?case by (cases "insert_word h root (take i w) 0") simp_all
qed simp

lemma insert_rep:
  "trie_rep (h, root) d \<Longrightarrow> good_word w \<Longrightarrow> \<exists>h'. insert_word h root w v = Some h' \<and> trie_rep (h', root) (d(w := v))"
  using tw.rep_put[of "(h, root)" d w v] by auto

lemma delete_rep:
  "trie_rep (h, root) d \<Longrightarrow> good_word w \<Longrightarrow> \<exists>h'. delete_word h root w = Some h' \<and> trie_rep (h', root) (d(w := - 1))"
  using tw.rep_del[of "(h, root)" d w] by auto

lemma insert_prefixes_rep:
  "trie_rep (h, root) d \<Longrightarrow> good_word w \<Longrightarrow>
    \<exists>h'. insert_prefixes h root w is = Some h' \<and> trie_rep (h', root) (\<lambda>u. if u \<in> (\<lambda>i. take i w) ` set is then 0 else d u)"
  using tw.rep_put_all[of "(h, root)" d w "is"] unfolding insert_prefixes_put_all by auto

subsection \<open>One command\<close>

text \<open>A command does what the machine says, and leaves the end of its line in the input.\<close>

definition command_ok :: "(nat \<Rightarrow> nat) \<Rightarrow> bg_state \<Rightarrow> bg_abs \<Rightarrow> bg_cmd \<Rightarrow> string \<Rightarrow> bool" where
  "command_ok R st a c r \<longleftrightarrow> (case bg_step R a c of (a', out, err) \<Rightarrow>
     \<exists>st'. bg_command True R st (cmd_op c) = Some (st', out, err) \<and> bg_rep st' a' \<and> inp st' = ''\<newline>'' @ r)"

lemma command_okI:
  "bg_command True R st (cmd_op c) = Some (st', out, err) \<Longrightarrow> snd (bg_step R a c) = (out, err) \<Longrightarrow> bg_rep st' (fst (bg_step R a c)) \<Longrightarrow>
    inp st' = ''\<newline>'' @ r \<Longrightarrow> command_ok R st a c r"
  by (cases "bg_step R a c") (auto simp: command_ok_def)

lemma command_inject:
  assumes "bg_rep st (d, b, k)" "cmd_ok (Inject x)" "inp st = cmd_args (Inject x) @ ''\<newline>'' @ r"
  shows "command_ok R st (d, b, k) (Inject x) r"
proof -
  have x: "board_ok x (length x)" "letters_limited (length x) x" "length x + 1 < 2 ^ 32" using assms(2) by simp_all
  have nd: "no_digit (rows_text x @ ''\<newline>'' @ r)" by (cases x) (simp_all add: rows_text_def)
  have "read_dim (st\<lparr>brd := None\<rparr>) = Some (st\<lparr>brd := None, board_dim := length x, inp := rows_text x @ ''\<newline>'' @ r\<rparr>)"
    by (rule read_dim_eq[OF _ nd]) (use assms(3) x(3) in simp_all)
  then have "bg_command True R st (cmd_op (Inject x)) = Some (st\<lparr>brd := Some x, board_dim := length x, inp := ''\<newline>'' @ r\<rparr>, [], [])"
    using destroy_board_eq assms(1) inject_board_typed[OF x, of "''\<newline>'' @ r"] by (simp add: bg_command_def)
  then show ?thesis by (rule command_okI) (use assms(1) x(1) in simp_all)
qed

lemma command_generate:
  assumes "bg_rep st (d, b, k)" "cmd_ok (Generate n)" "fair R" "inp st = cmd_args (Generate n) @ ''\<newline>'' @ r"
  shows "command_ok R st (d, b, k) (Generate n) r"
proof -
  have "n \<le> 26" using assms(2) by simp
  then have n: "n + 1 < 2 ^ 32" by simp
  obtain x k' where g: "generate_board True n R k = Some (x, k')" using generate_board_iff[OF assms(3) n] \<open>n \<le> 26\<close> by blast
  then have x: "board_ok x n" using generate_board_aux_ok(1)[OF _ n] by (simp add: generate_board_def)
  have "read_dim (st\<lparr>brd := None\<rparr>) = Some (st\<lparr>brd := None, board_dim := n, inp := ''\<newline>'' @ r\<rparr>)"
    by (rule read_dim_eq) (use assms(2,4) in simp_all)
  then have "bg_command True R st (cmd_op (Generate n)) = Some (st\<lparr>brd := Some x, board_dim := n, inp := ''\<newline>'' @ r, rnd := k'\<rparr>, [], [])"
    using destroy_board_eq g assms(1) by (simp add: bg_command_def)
  then show ?thesis by (rule command_okI) (use assms(1) x g in simp_all)
qed

lemma command_print:
  assumes "bg_rep st (d, b, k)" "inp st = cmd_args Print_board @ ''\<newline>'' @ r"
  shows "command_ok R st (d, b, k) Print_board r"
proof (cases b)
  case None
  then have "bg_command True R st (cmd_op Print_board) = Some (st, ''No board at the moment\<newline>'', [])"
    using assms(1) by (simp add: bg_command_def)
  then show ?thesis by (rule command_okI) (use assms None in simp_all)
next
  case (Some x)
  then have "bg_command True R st (cmd_op Print_board) = Some (st, concat (map (\<lambda>row. row @ ''\<newline>'') x), [])"
    using assms(1) print_board_eq by (simp add: bg_command_def)
  then show ?thesis by (rule command_okI) (use assms Some in simp_all)
qed

lemma command_insert:
  assumes "bg_rep st (d, b, k)" "cmd_ok (Insert v w)" "inp st = cmd_args (Insert v w) @ ''\<newline>'' @ r"
  shows "command_ok R st (d, b, k) (Insert v w) r"
proof -
  have w: "w \<noteq> []" "good_word w" "v < 2 ^ 31" using assms(2) by simp_all
  obtain h where h: "insert_word (tr_heap st) (trie st) w (int v) = Some h" "trie_rep (h, trie st) (d(w := int v))"
    using insert_rep[OF _ w(2), of "tr_heap st" "trie st" d "int v"] assms(1) by auto
  then have "bg_command True R st (cmd_op (Insert v w)) = Some (st\<lparr>word_buff := w, inp := ''\<newline>'' @ r, tr_heap := h\<rparr>, [], [])"
    using read_scored_word_eq[OF _ w, of st r] assms(3) by (simp add: bg_command_def)
  then show ?thesis by (rule command_okI) (use assms(1) h(2) in simp_all)
qed

lemma command_insert_all:
  assumes "bg_rep st (d, b, k)" "cmd_ok (Insert_all v w)" "inp st = cmd_args (Insert_all v w) @ ''\<newline>'' @ r"
  shows "command_ok R st (d, b, k) (Insert_all v w) r"
proof -
  have w: "w \<noteq> []" "good_word w" "v < 2 ^ 31" using assms(2) by simp_all
  let ?d = "\<lambda>u. if u \<in> (\<lambda>i. take i w) ` {1..<length w} then 0 else d u"
  have t: "trie_rep (tr_heap st, trie st) d" using assms(1) by simp
  obtain h where h: "insert_prefixes (tr_heap st) (trie st) w [1..<length w] = Some h" "trie_rep (h, trie st) ?d"
    using insert_prefixes_rep[OF t w(2), of "[1..<length w]"] by auto
  obtain h' where h': "insert_word h (trie st) w (int v) = Some h'" "trie_rep (h', trie st) (?d(w := int v))"
    using insert_rep[OF h(2) w(2)] by blast
  have e: "?d(w := int v) = (\<lambda>u. if u = w then int v else ?d u)" by auto
  have "bg_command True R st (cmd_op (Insert_all v w)) = Some (st\<lparr>word_buff := w, inp := ''\<newline>'' @ r, tr_heap := h'\<rparr>, [], [])"
    using read_scored_word_eq[OF _ w, of st r] assms(3) h(1) h'(1) by (simp add: bg_command_def)
  then show ?thesis by (rule command_okI) (use assms(1) h'(2) e in \<open>simp_all del: fun_upd_apply\<close>)
qed

lemma command_remove:
  assumes "bg_rep st (d, b, k)" "cmd_ok (Remove w)" "inp st = cmd_args (Remove w) @ ''\<newline>'' @ r"
  shows "command_ok R st (d, b, k) (Remove w) r"
proof -
  have w: "w \<noteq> []" "good_word w" using assms(2) by simp_all
  obtain h where h: "delete_word (tr_heap st) (trie st) w = Some h" "trie_rep (h, trie st) (d(w := - 1))"
    using delete_rep[OF _ w(2), of "tr_heap st" "trie st" d] assms(1) by auto
  then have "bg_command True R st (cmd_op (Remove w)) = Some (st\<lparr>word_buff := w, inp := ''\<newline>'' @ r, tr_heap := h\<rparr>, [], [])"
    using read_word_eq[OF _ w, of st r] assms(3) by (simp add: bg_command_def)
  then show ?thesis by (rule command_okI) (use assms(1) h(2) in simp_all)
qed

lemma command_search:
  assumes "bg_rep st (d, b, k)" "cmd_ok (Search w)" "inp st = cmd_args (Search w) @ ''\<newline>'' @ r"
  shows "command_ok R st (d, b, k) (Search w) r"
proof -
  have w: "w \<noteq> []" "good_word w" using assms(2) by simp_all
  then have "word_score (tr_heap st) (trie st) w = Some (d w)"
    using tw.rep_get[of "(tr_heap st, trie st)" d w] assms(1) by (simp add: good_word_def)
  then have "bg_command True R st (cmd_op (Search w)) = Some (st\<lparr>word_buff := w, inp := ''\<newline>'' @ r\<rparr>,
      if d w = - 1 then printf ''No such word: %s\<newline>'' [StrA w] else printf ''score(%s) = %d\<newline>'' [StrA w, IntA (d w)], [])"
    using read_word_eq[OF _ w, of st r] assms(3) by (simp add: bg_command_def)
  then show ?thesis by (rule command_okI) (use assms(1) in \<open>simp_all add: show_conv_def\<close>)
qed

lemma command_dump:
  assumes "bg_rep st (d, b, k)" "inp st = cmd_args Dump @ ''\<newline>'' @ r"
  shows "command_ok R st (d, b, k) Dump r"
proof -
  obtain buf where buf: "print_known_words (tr_heap st) (curr_word st) (trie st) = Some (buf, words_text d)" "length buf = MAX_WORD_SZ"
    using print_known_words_eq[of "tr_heap st" "trie st" d "curr_word st"] assms(1) by auto
  then have "bg_command True R st (cmd_op Dump) = Some (st\<lparr>curr_word := buf\<rparr>, words_text d, [])" by (simp add: bg_command_def)
  then show ?thesis by (rule command_okI) (use assms buf(2) in simp_all)
qed

lemma command_best:
  assumes "bg_rep st (d, b, k)" "inp st = cmd_args Best @ ''\<newline>'' @ r"
  shows "command_ok R st (d, b, k) Best r"
proof -
  obtain buf where buf: "find_best_word True (word_score (tr_heap st) (trie st)) (case b of None \<Rightarrow> [] | Some x \<Rightarrow> x) (board_dim st) (word_buffer st)
      = Some (best_word d b, buf)" "length buf = WORD_BUFFER_SZ"
  proof (cases b)
    case None
    then show thesis using that[of "word_buffer st"] assms(1) by (simp add: find_best_word_def best_word_def)
  next
    case (Some x)
    then show thesis using that find_best_word_eq[of "tr_heap st" "trie st" d x "board_dim st" "word_buffer st"] assms(1) by auto
  qed
  then have "bg_command True R st (cmd_op Best) = Some (st\<lparr>word_buffer := buf\<rparr>,
      (case best_word d b of None \<Rightarrow> printf ''No words found\<newline>'' [] | Some t \<Rightarrow> printf ''Best word: %s\<newline>'' [StrA t]), [])"
    using assms(1) by (simp add: bg_command_def)
  then show ?thesis by (rule command_okI) (use assms buf(2) in \<open>simp_all add: show_conv_def split: option.splits\<close>)
qed

lemma command_unknown:
  assumes "bg_rep st (d, b, k)" "cmd_ok (Unknown x)" "inp st = cmd_args (Unknown x) @ ''\<newline>'' @ r"
  shows "command_ok R st (d, b, k) (Unknown x) r"
proof -
  have "bg_command True R st (cmd_op (Unknown x)) = Some (st, [], ''Unrecognized operation: '' @ [x] @ ''\<newline>'')"
    using assms(2) by (simp add: bg_command_def show_conv_def)
  then show ?thesis by (rule command_okI) (use assms in simp_all)
qed

lemmas command_cases = command_inject command_generate command_print command_insert command_insert_all
  command_remove command_search command_dump command_best command_unknown

lemma command_step:
  assumes "bg_rep st a" "cmd_ok c" "fair R" "inp st = cmd_args c @ ''\<newline>'' @ r"
  shows "command_ok R st a c r"
proof -
  obtain d b k where a: "a = (d, b, k)" by (cases a)
  show ?thesis using assms unfolding a by (cases c; simp only: command_cases)
qed

subsection \<open>The program\<close>

lemma cmd_op_plain: "cmd_ok c \<Longrightarrow> \<not> isspace (cmd_op c) \<and> cmd_op c \<noteq> CHR ''Q''"
  by (cases c) (simp_all add: isspace_def)

lemma bg_loop_run:
  assumes "fair R" "e = [] \<or> hd e = CHR ''Q''"
  shows "list_all cmd_ok cs \<Longrightarrow> bg_rep st a \<Longrightarrow> list_all isspace ws \<Longrightarrow> inp st = ws @ concat (map cmd_text cs) @ e \<Longrightarrow>
    \<exists>st' d. bg_loop True R st = Some (st', fst (bg_run R a cs), snd (bg_run R a cs)) \<and> trie_rep (tr_heap st', trie st') d
      \<and> dim_ok (brd st') (board_dim st')"
proof (induction cs arbitrary: st a ws)
  case Nil
  have t: "\<exists>d. trie_rep (tr_heap st, trie st) d" "dim_ok (brd st) (board_dim st)" using Nil(2) by (cases a; auto)+
  show ?case
  proof (cases e)
    case Nil': Nil
    then have "scanf '' %c'' (inp st) = Some \<lparr>sr_args = [], sr_eof = True, sr_rest = []\<rparr>"
      using Nil(3,4) by (simp add: scanf_eval skip_ws_all)
    then show ?thesis using t by (subst bg_loop.simps) simp
  next
    case (Cons x e')
    moreover have "\<not> isspace (CHR ''Q'')" by (simp add: isspace_def)
    ultimately have "scanf '' %c'' (inp st) = Some \<lparr>sr_args = [ChrA (CHR ''Q'')], sr_eof = False, sr_rest = e'\<rparr>"
      using Nil(3,4) assms(2) scan_command[of ws "CHR ''Q''" e'] by simp
    then show ?thesis using t by (subst bg_loop.simps) simp
  qed
next
  case (Cons c cs)
  let ?r = "concat (map cmd_text cs) @ e"
  let ?st = "st\<lparr>inp := cmd_args c @ ''\<newline>'' @ ?r\<rparr>"
  have c: "cmd_ok c" "list_all cmd_ok cs" using Cons.prems(1) by simp_all
  note op = cmd_op_plain[OF c(1)]
  have sc: "scanf '' %c'' (inp st) = Some \<lparr>sr_args = [ChrA (cmd_op c)], sr_eof = False, sr_rest = cmd_args c @ ''\<newline>'' @ ?r\<rparr>"
    using scan_command[OF Cons.prems(3), of "cmd_op c"] op Cons.prems(4) by (simp add: cmd_text_def[of c])
  have "bg_rep ?st a" using Cons.prems(2) by (cases a) simp
  then have "command_ok R ?st a c ?r" by (rule command_step[OF _ c(1) assms(1)]) simp
  then obtain a1 out err st1 where s1: "bg_step R a c = (a1, out, err)" "bg_command True R ?st (cmd_op c) = Some (st1, out, err)"
    "bg_rep st1 a1" "inp st1 = ''\<newline>'' @ ?r" by (auto simp: command_ok_def)
  obtain st2 d where s2: "bg_loop True R st1 = Some (st2, fst (bg_run R a1 cs), snd (bg_run R a1 cs))" "trie_rep (tr_heap st2, trie st2) d"
    "dim_ok (brd st2) (board_dim st2)"
    using Cons.IH[OF c(2) s1(3) _ s1(4)] by auto
  have "bg_loop True R st = Some (st2, out @ ''> '' @ fst (bg_run R a1 cs), err @ snd (bg_run R a1 cs))"
    using sc op s1(2) s2(1) by (subst bg_loop.simps) (simp split: prod.splits)
  then show ?case using s1(1) s2(2,3) by (auto split: prod.splits)
qed

lemma bg_start_rep: "bg_rep (bg_start (\<lambda>_. False) input) (\<lambda>w. - 1, None, 0)" "inp (bg_start f input) = input"
  using trie_rep_empty by (simp_all add: bg_start_def trie_empty_def split: prod.splits)

text \<open>
  Property C10: for every sequence of well-formed commands, ended by the end of the input or by \<open>Q\<close>, and letters that keep
  coming up, the program writes to its two outputs what the abstract machine says, and frees all nodes of the dictionary.
\<close>

theorem boggle_main_correct:
  assumes "fair R" "list_all cmd_ok cs" "e = [] \<or> hd e = CHR ''Q''"
  shows "\<exists>h. bg_main True (\<lambda>_. False) R (concat (map cmd_text cs) @ e)
      = Some (h, bg_banner @ fst (bg_run R (\<lambda>w. - 1, None, 0) cs), snd (bg_run R (\<lambda>w. - 1, None, 0) cs)) \<and> cells h = Map.empty"
proof -
  obtain st' d where l: "bg_loop True R (bg_start (\<lambda>_. False) (concat (map cmd_text cs) @ e))
      = Some (st', fst (bg_run R (\<lambda>w. - 1, None, 0) cs), snd (bg_run R (\<lambda>w. - 1, None, 0) cs))" "trie_rep (tr_heap st', trie st') d"
    "dim_ok (brd st') (board_dim st')" using bg_loop_run[OF assms(1,3,2) bg_start_rep(1), of "[]"] bg_start_rep(2) by auto
  show ?thesis using destroy_all[OF l(2)] l(1) destroy_board_eq[OF l(3)] by (auto simp: bg_main_def split: prod.splits)
qed

lemma fair_id: "fair (\<lambda>k. k)"
  unfolding fair_def by (intro allI impI, rule_tac x = "26 * k + i" in exI) simp

lemma board_words_rec:
  "board_words f b n k p rc =
     (if k > 0 \<and> inside n rc \<and> f (p @ [cell b rc]) \<noteq> - 1
      then (p @ [cell b rc]) # concat (map (board_words f b n (k - 1) (p @ [cell b rc])) (steps neighbours rc)) else [])"
  by (cases k) simp_all

lemmas boggle_eval = all_board_words_def board_words_rec inside_def steps_def neighbours_def best_word_def better_def MAX_WORD_SZ_def
  good_word_def lower_word_def lower_def board_ok_def letters_limited_def isspace_def product_def

theorem boggle_main_correct_witness:
  "\<exists>h. bg_main True (\<lambda>_. False) (\<lambda>k. k) (concat (map cmd_text [Insert 3 ''a'', Insert 5 ''ab'', Inject [''ba'', ''ba''], Best, Remove ''ab'', Best,
      Search ''ab'', Print_board, Unknown CHR ''x'']) @ ''Q'')
    = Some (h, bg_banner @ ''> > > Best word: ab\<newline>> > Best word: a\<newline>> No such word: ab\<newline>> ba\<newline>ba\<newline>> > '',
        ''Unrecognized operation: x\<newline>'') \<and> cells h = Map.empty"
proof -
  let ?cs = "[Insert 3 ''a'', Insert 5 ''ab'', Inject [''ba'', ''ba''], Best, Remove ''ab'', Best,
      Search ''ab'', Print_board, Unknown CHR ''x'']"
  have "list_all cmd_ok ?cs" by (simp add: boggle_eval)
  moreover have "fst (bg_run (\<lambda>k. k) (\<lambda>w. - 1, None, 0) ?cs) =
      ''> > > Best word: ab\<newline>> > Best word: a\<newline>> No such word: ab\<newline>> ba\<newline>ba\<newline>> > ''"
    by (simp add: boggle_eval)
  moreover have "snd (bg_run (\<lambda>k. k) (\<lambda>w. - 1, None, 0) ?cs) = ''Unrecognized operation: x\<newline>''"
    by (simp add: boggle_eval)
  ultimately show ?thesis using boggle_main_correct[OF fair_id, of ?cs "''Q''"] by (simp only: list.sel simp_thms)
qed

text \<open>
  Property C13: on any dictionary and board the search finds a word traced by a path over adjacent cells, all of whose
  prefixes have a score, with the highest score among these words; it finds none only if there is none.
\<close>

theorem boggle_best_word:
  assumes "trie_rep (h, root) d" "\<forall>w. - 1 \<le> d w" "board_ok b n" "length buf = WORD_BUFFER_SZ"
  shows "\<exists>w buf'. find_best_word True (word_score h root) b n buf = Some (w, buf')
    \<and> (case w of None \<Rightarrow> \<not> (\<exists>v. traces d b n v) | Some v \<Rightarrow> traces d b n v \<and> (\<forall>u. traces d b n u \<longrightarrow> d u \<le> d v))"
  using find_best_word_eq[OF assms] best_word_traces[OF trie_rep_good[OF assms(1)] assms(2) board_ok_length[OF assms(3)]] by auto

theorem boggle_best_word_witness:
  "\<exists>h buf. insert_word (fst trie_empty) (snd trie_empty) ''a'' 3 = Some h
    \<and> find_best_word True (word_score h (snd trie_empty)) [''ab'', ''cd''] 2 (replicate WORD_BUFFER_SZ CHR 0x00) = Some (Some ''a'', buf)"
proof -
  let ?d = "(\<lambda>w. - 1)(''a'' := 3 :: int)"
  let ?b = "[''ab'', ''cd'']"
  have "good_word ''a''" by (simp add: boggle_eval)
  then obtain h where h: "insert_word (fst trie_empty) (snd trie_empty) ''a'' 3 = Some h" "trie_rep (h, snd trie_empty) ?d"
    using insert_rep[of "fst trie_empty" "snd trie_empty" "\<lambda>w. - 1" "''a''" 3] trie_rep_empty by auto
  have b: "board_ok ?b 2" "\<forall>w. - 1 \<le> ?d w" by (simp_all add: boggle_eval)
  from boggle_best_word[OF h(2) b(2,1) length_replicate]
  obtain w buf' where w: "find_best_word True (word_score h (snd trie_empty)) ?b 2 (replicate WORD_BUFFER_SZ CHR 0x00) = Some (w, buf')"
    "case w of None \<Rightarrow> \<not> (\<exists>v. traces ?d ?b 2 v) | Some v \<Rightarrow> traces ?d ?b 2 v \<and> (\<forall>u. traces ?d ?b 2 u \<longrightarrow> ?d u \<le> ?d v)"
    by blast
  have t: "traces ?d ?b 2 v \<longleftrightarrow> v = ''a''" for v
  proof
    assume "traces ?d ?b 2 v"
    then have "v \<noteq> []" "\<And>j. 0 < j \<and> j \<le> length v \<Longrightarrow> ?d (take j v) \<noteq> - 1" using board_path.simps(1) by (auto simp: traces_def)
    from this(1) this(2)[of "length v"] show "v = ''a''" by (auto split: if_splits)
  qed (auto simp: traces_def inside_def le_Suc_eq intro!: exI[of _ "[(0, 0)]"])
  show ?thesis using h(1) w t by (auto split: option.splits)
qed

text \<open>
  Property C32: if every letter keeps coming up, \<open>generate_board\<close> makes a board of size up to 26, of small letters none of which
  is there more than \<open>n + 1\<close> times; for a larger size it never returns.
\<close>

theorem random_board_correct:
  assumes "fair R" "n + 1 < 2 ^ 32"
  shows "(n \<le> 26 \<longrightarrow> (\<exists>b k'. generate_board True n R k = Some (b, k') \<and> board_ok b n \<and> letters_limited n b))
    \<and> (26 < n \<longrightarrow> generate_board True n R k = None)"
proof -
  have "board_ok b n \<and> letters_limited n b" if "generate_board True n R k = Some (b, k')" for b k'
    using generate_board_aux_ok(1,2)[OF _ assms(2)] that by (auto simp: generate_board_def)
  then show ?thesis using generate_board_iff[OF assms, of k] by (cases "generate_board True n R k") auto
qed

theorem random_board_correct_witness:
  "generate_board True 27 (\<lambda>k. k) 0 = None \<and> (\<exists>b k'. generate_board True 26 (\<lambda>k. k) 0 = Some (b, k') \<and> board_ok b 26 \<and> letters_limited 26 b)"
  using random_board_correct[OF fair_id, of 27 0] random_board_correct[OF fair_id, of 26 0] by simp

end
