(* ===== verification/Flatten.thy ===== *)
theory Flatten
  imports C_Stdio C_Heap
begin

text \<open>
  \<open>linked_lists/flatten/solution.c\<close>: linked lists some of whose nodes have a list of their own as a child, a parser
  for their text, and the routine that makes one list of them in place.
\<close>

record fl_node =
  fl_data :: int
  fl_next :: ptr
  fl_child :: ptr

type_synonym fl_heap = "fl_node heap"

subsection \<open>Flattening\<close>

text \<open>The loop of \<open>flatten_aux\<close> with its two variables.\<close>

partial_function (option) flatten_loop :: "fl_heap \<Rightarrow> ptr \<Rightarrow> ptr \<Rightarrow> (ptr \<times> fl_heap) option" where
  "flatten_loop h node prev =
     (if node = None then Some (prev, h)
      else do { n \<leftarrow> deref h node;
                (node', h') \<leftarrow>
                  (if fl_child n \<noteq> None
                   then do { (flattened_last, h1) \<leftarrow> flatten_loop h (fl_child n) None;
                             n1 \<leftarrow> deref h1 node;
                             h2 \<leftarrow> store h1 flattened_last (\<lambda>x. x\<lparr>fl_next := fl_next n1\<rparr>);
                             n2 \<leftarrow> deref h2 node;
                             h3 \<leftarrow> store h2 node (\<lambda>x. x\<lparr>fl_next := fl_child n2\<rparr>);
                             h4 \<leftarrow> store h3 node (\<lambda>x. x\<lparr>fl_child := None\<rparr>);
                             Some (flattened_last, h4) }
                   else Some (node, h));
                m \<leftarrow> deref h' node';
                flatten_loop h' (fl_next m) node' })"

definition flatten_aux :: "fl_heap \<Rightarrow> ptr \<Rightarrow> (ptr \<times> fl_heap) c" where
  "flatten_aux h node = flatten_loop h node None"

definition flatten :: "fl_heap \<Rightarrow> ptr \<Rightarrow> (ptr \<times> fl_heap) c" where
  "flatten h head = do { (_, h') \<leftarrow> flatten_aux h head; Some (head, h') }"

subsection \<open>The parser\<close>

text \<open>A character or the end of the input, which is what the tokenizer makes of most characters, or a number.\<close>

datatype fl_token = CharTok "char option" | IdTok int

abbreviation tok_eof :: fl_token where "tok_eof \<equiv> CharTok None"

definition next_token :: "string \<Rightarrow> (fl_token \<times> string) c" where
  "next_token s =
     (case s of
        [] \<Rightarrow> Some (tok_eof, [])
      | x # r \<Rightarrow>
          if isdigit x
          then do { i \<leftarrow> scanf ''%d'' s; Some (IdTok (arg_int (sr_args i ! 0)), sr_rest i) }
          else do { let r' = (if x = CHR 0x0D then drop 1 r else r);
                    Some (if x \<noteq> CHR ''>'' \<and> x \<noteq> CHR ''('' \<and> x \<noteq> CHR '')'' then tok_eof else CharTok (Some x), r') })"

definition is_char :: "fl_token \<Rightarrow> bool" where
  "is_char t = (case t of CharTok _ \<Rightarrow> True | IdTok _ \<Rightarrow> False)"

text \<open>
  What \<open>md_list\<close> shares with its caller: the last token, the rest of the input and the heap. Without memory it writes
  through a null pointer.
\<close>

type_synonym md_state = "fl_token \<times> string \<times> fl_heap"

partial_function (option) md_list :: "md_state \<Rightarrow> (ptr \<times> md_state) option" where
  "md_list st =
     (case st of (last_token, s, h) \<Rightarrow>
        (case last_token of
           CharTok _ \<Rightarrow> None
         | IdTok k \<Rightarrow>
             do { let (n, h1) = malloc h \<lparr>fl_data = k, fl_next = None, fl_child = None\<rparr>;
                  _ \<leftarrow> c_assert (n \<noteq> None);
                  (t, s1) \<leftarrow> next_token s;
                  _ \<leftarrow> c_assert (is_char t);
                  if t = tok_eof \<or> t = CharTok (Some (CHR '')'')) then Some (n, t, s1, h1)
                  else if t = CharTok (Some (CHR ''>''))
                  then do { (t2, s2) \<leftarrow> next_token s1;
                            (m, t3, s3, h3) \<leftarrow> md_list (t2, s2, h1);
                            h4 \<leftarrow> store h3 n (\<lambda>x. x\<lparr>fl_next := m\<rparr>);
                            Some (n, t3, s3, h4) }
                  else do { (t2, s2) \<leftarrow> next_token s1;
                            (m, t3, s3, h3) \<leftarrow> md_list (t2, s2, h1);
                            h4 \<leftarrow> store h3 n (\<lambda>x. x\<lparr>fl_child := m\<rparr>);
                            _ \<leftarrow> c_assert (t3 = CharTok (Some (CHR '')'')));
                            (t4, s4) \<leftarrow> next_token s3;
                            _ \<leftarrow> c_assert (is_char t4);
                            if t4 = CharTok (Some (CHR ''>''))
                            then do { (t5, s5) \<leftarrow> next_token s4;
                                      (m', t6, s6, h6) \<leftarrow> md_list (t5, s5, h4);
                                      h7 \<leftarrow> store h6 n (\<lambda>x. x\<lparr>fl_next := m'\<rparr>);
                                      Some (n, t6, s6, h7) }
                            else Some (n, t4, s4, h4) } }))"

partial_function (option) destroy_md_list :: "fl_heap \<Rightarrow> ptr \<Rightarrow> fl_heap option" where
  "destroy_md_list h head =
     (if head = None then Some h
      else do { n \<leftarrow> deref h head;
                h1 \<leftarrow> destroy_md_list h (fl_child n);
                n1 \<leftarrow> deref h1 head;
                h2 \<leftarrow> destroy_md_list h1 (fl_next n1);
                free h2 head })"

partial_function (option) print_md_list :: "fl_heap \<Rightarrow> ptr \<Rightarrow> string option" where
  "print_md_list h head =
     (if head = None then Some []
      else do { n \<leftarrow> deref h head;
                c \<leftarrow> (if fl_child n \<noteq> None then do { t \<leftarrow> print_md_list h (fl_child n); Some (''('' @ t @ '')'') } else Some []);
                r \<leftarrow> (if fl_next n \<noteq> None then do { t \<leftarrow> print_md_list h (fl_next n); Some (''>'' @ t) } else Some []);
                Some (printf ''%d'' [IntA (fl_data n)] @ c @ r) })"

text \<open>The loop of \<open>main\<close>.\<close>

partial_function (option) fl_loop :: "string \<Rightarrow> fl_heap \<Rightarrow> (fl_heap \<times> string) option" where
  "fl_loop s h =
     do { (t, s1) \<leftarrow> next_token s;
          if t = tok_eof then Some (h, [])
          else do { (head, _, s2, h1) \<leftarrow> md_list (t, s1, h);
                    out1 \<leftarrow> print_md_list h1 head;
                    (head', h2) \<leftarrow> flatten h1 head;
                    out2 \<leftarrow> print_md_list h2 head';
                    h3 \<leftarrow> destroy_md_list h2 head;
                    (h', out) \<leftarrow> fl_loop s2 h3;
                    Some (h', ''Received: '' @ out1 @ ''\<newline>'' @ ''Flattened: '' @ out2 @ ''\<newline>'' @ ''> '' @ out) } }"

definition fl_main :: "(nat \<Rightarrow> bool) \<Rightarrow> string \<Rightarrow> (fl_heap \<times> string) c" where
  "fl_main f input = do { (h, out) \<leftarrow> fl_loop input (empty_heap f); Some (h, ''> '' @ out) }"

end
