(* ===== verification/Flatten_Proofs.thy ===== *)
theory Flatten_Proofs
  imports Flatten "HOL-Library.Tree"
begin

text \<open>
  A list of lists is a binary tree: the child of a node is its left subtree, the rest of the list its right one. The
  text of the program is the printed form of the tree, and flattening gives the list of the nodes in preorder.
\<close>

subsection \<open>The shape in the heap\<close>

type_synonym mtree = "(nat \<times> int) tree"

fun mtop :: "mtree \<Rightarrow> ptr" where
  "mtop \<langle>\<rangle> = None"
| "mtop \<langle>l, x, r\<rangle> = Some (fst x)"

abbreviation locs :: "mtree \<Rightarrow> nat set" where
  "locs t \<equiv> fst ` set_tree t"

fun is_md :: "(nat \<rightharpoonup> fl_node) \<Rightarrow> mtree \<Rightarrow> bool" where
  "is_md m \<langle>\<rangle> \<longleftrightarrow> True"
| "is_md m \<langle>l, x, r\<rangle> \<longleftrightarrow> m (fst x) = Some \<lparr>fl_data = snd x, fl_next = mtop r, fl_child = mtop l\<rparr> \<and> is_md m l \<and> is_md m r"

text \<open>Every cell belongs to one node only.\<close>

definition md_ok :: "mtree \<Rightarrow> bool" where
  "md_ok t \<longleftrightarrow> distinct (map fst (preorder t))"

lemma md_ok_simps [simp]:
  "md_ok \<langle>\<rangle>"
  "md_ok \<langle>l, x, r\<rangle> \<longleftrightarrow> fst x \<notin> locs l \<and> fst x \<notin> locs r \<and> locs l \<inter> locs r = {} \<and> md_ok l \<and> md_ok r"
  by (auto simp: md_ok_def simp flip: set_preorder)

lemma mtop_None [simp]: "mtop t = None \<longleftrightarrow> t = \<langle>\<rangle>"
  by (cases t) auto

lemma mtop_locs: "mtop t = Some a \<Longrightarrow> a \<in> locs t"
  by (cases t) auto

lemma is_md_frame: "(\<And>a. a \<in> locs t \<Longrightarrow> m' a = m a) \<Longrightarrow> is_md m t \<Longrightarrow> is_md m' t"
  by (induction t) auto

lemma is_md_upd [simp]: "a \<notin> locs t \<Longrightarrow> is_md (m(a := v)) t = is_md m t"
  by (induction t) auto

text \<open>The list of some nodes, and a part of it that ends with the pointer \<open>q\<close>.\<close>

fun fspine :: "(nat \<times> int) list \<Rightarrow> mtree" where
  "fspine [] = \<langle>\<rangle>"
| "fspine (x # xs) = \<langle>\<langle>\<rangle>, x, fspine xs\<rangle>"

fun fseg :: "(nat \<rightharpoonup> fl_node) \<Rightarrow> ptr \<Rightarrow> (nat \<times> int) list \<Rightarrow> ptr \<Rightarrow> bool" where
  "fseg m p [] q \<longleftrightarrow> p = q"
| "fseg m p (x # xs) q \<longleftrightarrow> p = Some (fst x) \<and> (\<exists>p'. m (fst x) = Some \<lparr>fl_data = snd x, fl_next = p', fl_child = None\<rparr> \<and> fseg m p' xs q)"

lemma fseg_spine: "fseg m p xs None \<longleftrightarrow> p = mtop (fspine xs) \<and> is_md m (fspine xs)"
proof (induction xs arbitrary: p)
  case (Cons x xs)
  have "mtop (fspine (x # xs)) = Some (fst x)" by simp
  then show ?case using Cons by auto
qed auto

lemma fseg_frame: "(\<And>a. a \<in> fst ` set xs \<Longrightarrow> m' a = m a) \<Longrightarrow> fseg m p xs q \<Longrightarrow> fseg m' p xs q"
  by (induction xs arbitrary: p) auto

lemma fseg_append: "fseg m p xs r \<Longrightarrow> fseg m r ys q \<Longrightarrow> fseg m p (xs @ ys) q"
  by (induction xs arbitrary: p) auto

lemma fseg_redirect:
  assumes "fseg m p (xs @ [x]) q" "fst x \<notin> fst ` set xs"
  shows "\<exists>n. m (fst x) = Some n \<and> fseg (m(fst x \<mapsto> n\<lparr>fl_next := r\<rparr>)) p (xs @ [x]) r"
  using assms
proof (induction xs arbitrary: p)
  case (Cons y xs)
  then obtain p' where p': "m (fst y) = Some \<lparr>fl_data = snd y, fl_next = p', fl_child = None\<rparr>" "fseg m p' (xs @ [x]) q" "p = Some (fst y)" by auto
  from Cons.IH[OF p'(2)] Cons.prems(2) p'(1,3) show ?case by auto
qed auto

lemma preorder_spine [simp]: "preorder (fspine xs) = xs"
  by (induction xs) auto

lemma fspine_ok: "md_ok t \<Longrightarrow> md_ok (fspine (preorder t))"
  by (simp add: md_ok_def)

lemma mtop_spine: "mtop (fspine (preorder t)) = mtop t"
  by (cases t) auto

subsection \<open>Flattening\<close>

definition last_node :: "mtree \<Rightarrow> ptr \<Rightarrow> ptr" where
  "last_node t prev = (if t = \<langle>\<rangle> then prev else Some (fst (last (preorder t))))"

text \<open>What flattening a list does to the heap.\<close>

definition flattened :: "fl_heap \<Rightarrow> mtree \<Rightarrow> fl_heap \<Rightarrow> bool" where
  "flattened h t h' \<longleftrightarrow> fseg (cells h') (mtop t) (preorder t) None \<and> (\<forall>a. a \<notin> locs t \<longrightarrow> cells h' a = cells h a)
     \<and> fresh h' = fresh h \<and> oom h' = oom h"

lemma flattenedD:
  assumes "flattened h t h'"
  shows "fseg (cells h') (mtop t) (preorder t) None" "a \<notin> locs t \<Longrightarrow> cells h' a = cells h a" "fresh h' = fresh h" "oom h' = oom h"
  using assms by (auto simp: flattened_def)

text \<open>The child of a node goes between the node and the rest of its list.\<close>

lemma flattened_child:
  assumes md: "is_md (cells h) \<langle>l, (a, k), r\<rangle>" "md_ok \<langle>l, (a, k), r\<rangle>" and l: "l \<noteq> \<langle>\<rangle>" and h1: "flattened h l h1"
  shows "\<exists>h4 m. last_node l None = Some (fst (last (preorder l)))
    \<and> do { n1 \<leftarrow> deref h1 (Some a);
           h2 \<leftarrow> store h1 (last_node l None) (\<lambda>x. x\<lparr>fl_next := fl_next n1\<rparr>);
           n2 \<leftarrow> deref h2 (Some a);
           h3 \<leftarrow> store h2 (Some a) (\<lambda>x. x\<lparr>fl_next := fl_child n2\<rparr>);
           h4 \<leftarrow> store h3 (Some a) (\<lambda>x. x\<lparr>fl_child := None\<rparr>);
           Some (last_node l None, h4) } = Some (last_node l None, h4)
    \<and> deref h4 (last_node l None) = Some m \<and> fl_next m = mtop r
    \<and> fseg (cells h4) (Some a) ((a, k) # preorder l) (mtop r) \<and> is_md (cells h4) r
    \<and> (\<forall>b. b \<notin> insert a (locs l) \<longrightarrow> cells h4 b = cells h b) \<and> fresh h4 = fresh h \<and> oom h4 = oom h"
proof -
  have a: "cells h a = Some \<lparr>fl_data = k, fl_next = mtop r, fl_child = mtop l\<rparr>" "is_md (cells h) r" using md(1) by auto
  have ok: "a \<notin> locs l" "a \<notin> locs r" "locs l \<inter> locs r = {}" "md_ok l" using md(2) by auto
  obtain ys y where ys: "preorder l = ys @ [y]" using l by (metis append_butlast_last_id preorder_eq_Nil_iff)
  let ?b = "fst y"
  have b: "?b \<in> locs l" "last_node l None = Some ?b" using ys set_preorder[of l] l by (auto simp: last_node_def)
  have ab: "a \<noteq> ?b" using b(1) ok(1) by auto
  have y: "?b \<notin> fst ` set ys" using ok(4) ys by (simp add: md_ok_def)
  obtain n where n: "cells h1 ?b = Some n" "fseg ((cells h1)(?b \<mapsto> n\<lparr>fl_next := mtop r\<rparr>)) (mtop l) (preorder l) (mtop r)"
    using fseg_redirect[OF _ y, of "cells h1" "mtop l" None "mtop r"] flattenedD(1)[OF h1] ys by auto
  have a1: "cells h1 a = Some \<lparr>fl_data = k, fl_next = mtop r, fl_child = mtop l\<rparr>" using flattenedD(2)[OF h1 ok(1)] a(1) by simp
  define h4 where "h4 = h1\<lparr>cells := (cells h1)(?b \<mapsto> n\<lparr>fl_next := mtop r\<rparr>, a \<mapsto> \<lparr>fl_data = k, fl_next = mtop l, fl_child = None\<rparr>)\<rparr>"
  have "fseg (cells h4) (mtop l) (preorder l) (mtop r)"
    by (rule fseg_frame[OF _ n(2)]) (use ok(1) in \<open>auto simp: h4_def simp flip: set_preorder\<close>)
  moreover have "is_md (cells h4) r"
  proof (rule is_md_frame[OF _ a(2)])
    fix c assume "c \<in> locs r"
    then have "c \<noteq> ?b" "c \<noteq> a" "c \<notin> locs l" using b(1) ok(2,3) by blast+
    then show "cells h4 c = cells h c" using flattenedD(2)[OF h1] by (simp add: h4_def)
  qed
  moreover have "cells h4 c = cells h c" if "c \<notin> insert a (locs l)" for c
    using that b(1) flattenedD(2)[OF h1, of c] by (auto simp: h4_def)
  ultimately show ?thesis using n(1) a1 ab b(2) flattenedD(3,4)[OF h1]
    by (intro exI[of _ h4] exI[of _ "n\<lparr>fl_next := mtop r\<rparr>"]) (simp add: h4_def ys fun_upd_twist)
qed

lemma flatten_loop_eq:
  "is_md (cells h) t \<Longrightarrow> md_ok t \<Longrightarrow> \<exists>h'. flatten_loop h (mtop t) prev = Some (last_node t prev, h') \<and> flattened h t h'"
proof (induction t arbitrary: h prev)
  case Leaf
  show ?case by (subst flatten_loop.simps) (simp add: last_node_def flattened_def)
next
  case (Node l x r)
  obtain a k where x: "x = (a, k)" by (cases x)
  have a: "cells h a = Some \<lparr>fl_data = k, fl_next = mtop r, fl_child = mtop l\<rparr>" "is_md (cells h) l" "is_md (cells h) r"
    and ok: "a \<notin> locs l" "a \<notin> locs r" "locs l \<inter> locs r = {}" "md_ok l" "md_ok r" using Node.prems x by auto
  show ?case
  proof (cases "l = \<langle>\<rangle>")
    case True
    obtain h' where h': "flatten_loop h (mtop r) (Some a) = Some (last_node r (Some a), h')" "flattened h r h'"
      using Node.IH(2)[OF a(3) ok(5)] by blast
    have "flatten_loop h (mtop \<langle>l, x, r\<rangle>) prev = Some (last_node \<langle>l, x, r\<rangle> prev, h')"
      using a(1) h'(1) True x by (subst flatten_loop.simps) (simp add: last_node_def)
    moreover have "flattened h \<langle>l, x, r\<rangle> h'"
      using flattenedD[OF h'(2)] ok(2) a(1) True x by (simp add: flattened_def)
    ultimately show ?thesis by blast
  next
    case False
    obtain h1 where h1: "flatten_loop h (mtop l) None = Some (last_node l None, h1)" "flattened h l h1"
      using Node.IH(1)[OF a(2) ok(4)] by blast
    obtain h4 m where h4: "last_node l None = Some (fst (last (preorder l)))"
      "do { n1 \<leftarrow> deref h1 (Some a);
           h2 \<leftarrow> store h1 (last_node l None) (\<lambda>x. x\<lparr>fl_next := fl_next n1\<rparr>);
           n2 \<leftarrow> deref h2 (Some a);
           h3 \<leftarrow> store h2 (Some a) (\<lambda>x. x\<lparr>fl_next := fl_child n2\<rparr>);
           h4 \<leftarrow> store h3 (Some a) (\<lambda>x. x\<lparr>fl_child := None\<rparr>);
           Some (last_node l None, h4) } = Some (last_node l None, h4)"
      "deref h4 (last_node l None) = Some m" "fl_next m = mtop r"
      "fseg (cells h4) (Some a) ((a, k) # preorder l) (mtop r)" "is_md (cells h4) r"
      "\<forall>b. b \<notin> insert a (locs l) \<longrightarrow> cells h4 b = cells h b" "fresh h4 = fresh h" "oom h4 = oom h"
      using flattened_child[OF Node.prems[unfolded x] False h1(2)] by blast
    obtain h' where h': "flatten_loop h4 (mtop r) (last_node l None) = Some (last_node r (last_node l None), h')" "flattened h4 r h'"
      using Node.IH(2)[OF h4(6) ok(5)] by blast
    have "flatten_loop h (mtop \<langle>l, x, r\<rangle>) prev = flatten_loop h4 (mtop r) (last_node l None)"
      using a(1) False h1(1) h4(2-4) x by (subst flatten_loop.simps) (simp add: deref_Some[of h a] del: deref_Some)
    moreover have "last_node r (last_node l None) = last_node \<langle>l, x, r\<rangle> prev" using False h4(1) x by (auto simp: last_node_def)
    moreover have "flattened h \<langle>l, x, r\<rangle> h'"
    proof -
      have "fseg (cells h') (Some a) ((a, k) # preorder l) (mtop r)"
        by (rule fseg_frame[OF flattenedD(2)[OF h'(2)] h4(5)]) (use ok in auto)
      from fseg_append[OF this flattenedD(1)[OF h'(2)]] show ?thesis
        using flattenedD(2-4)[OF h'(2)] h4(7-9) x by (simp add: flattened_def image_Un)
    qed
    ultimately show ?thesis using h'(1) by auto
  qed
qed

lemma flatten_eq:
  assumes "is_md (cells h) t" "md_ok t"
  shows "\<exists>h'. flatten h (mtop t) = Some (mtop t, h') \<and> is_md (cells h') (fspine (preorder t)) \<and> (\<forall>a. a \<notin> locs t \<longrightarrow> cells h' a = cells h a)
    \<and> fresh h' = fresh h \<and> oom h' = oom h"
  using flatten_loop_eq[OF assms, of None] by (auto simp: flatten_def flatten_aux_def flattened_def fseg_spine)

subsection \<open>Printing and destroying\<close>

fun md_text :: "int tree \<Rightarrow> string" where
  "md_text \<langle>\<rangle> = []"
| "md_text \<langle>l, k, r\<rangle> = show_int k @ (if l = \<langle>\<rangle> then [] else ''('' @ md_text l @ '')'') @ (if r = \<langle>\<rangle> then [] else ''>'' @ md_text r)"

fun flat_text :: "int list \<Rightarrow> string" where
  "flat_text [] = []"
| "flat_text [k] = show_int k"
| "flat_text (k # ks) = show_int k @ ''>'' @ flat_text ks"

lemma map_tree_Leaf [simp]: "map_tree f t = \<langle>\<rangle> \<longleftrightarrow> t = \<langle>\<rangle>"
  by (cases t) auto

lemma print_md_list_eq: "is_md (cells h) t \<Longrightarrow> print_md_list h (mtop t) = Some (md_text (map_tree snd t))"
proof (induction t)
  case Leaf
  show ?case by (subst print_md_list.simps) simp
next
  case (Node l x r)
  then show ?case by (subst print_md_list.simps) (simp add: show_conv_def)
qed

lemma fspine_text: "md_text (map_tree snd (fspine xs)) = flat_text (map snd xs)"
proof (induction xs)
  case (Cons x xs)
  then show ?case by (cases xs) auto
qed simp

lemma destroy_md_list_eq:
  "is_md (cells h) t \<Longrightarrow> md_ok t \<Longrightarrow>
    \<exists>h'. destroy_md_list h (mtop t) = Some h' \<and> cells h' = cells h |` (- locs t) \<and> fresh h' = fresh h \<and> oom h' = oom h"
proof (induction t arbitrary: h)
  case Leaf
  show ?case by (subst destroy_md_list.simps) (simp add: restrict_map_def)
next
  case (Node l x r)
  obtain a k where x: "x = (a, k)" by (cases x)
  have a: "cells h a = Some \<lparr>fl_data = k, fl_next = mtop r, fl_child = mtop l\<rparr>" "is_md (cells h) l" "is_md (cells h) r"
    and ok: "a \<notin> locs l" "a \<notin> locs r" "locs l \<inter> locs r = {}" "md_ok l" "md_ok r" using Node.prems x by auto
  obtain h1 where h1: "destroy_md_list h (mtop l) = Some h1" "cells h1 = cells h |` (- locs l)" "fresh h1 = fresh h" "oom h1 = oom h"
    using Node.IH(1)[OF a(2) ok(4)] by blast
  have a1: "cells h1 a = Some \<lparr>fl_data = k, fl_next = mtop r, fl_child = mtop l\<rparr>" using h1(2) a(1) ok(1) by (simp add: restrict_map_def)
  have "is_md (cells h1) r"
  proof (rule is_md_frame[OF _ a(3)])
    fix b assume "b \<in> locs r"
    then have "b \<notin> locs l" using ok(3) by blast
    then show "cells h1 b = cells h b" by (simp add: h1(2) restrict_map_def)
  qed
  then obtain h2 where h2: "destroy_md_list h1 (mtop r) = Some h2" "cells h2 = cells h1 |` (- locs r)" "fresh h2 = fresh h1" "oom h2 = oom h1"
    using Node.IH(2)[OF _ ok(5)] by blast
  have a2: "cells h2 a = Some \<lparr>fl_data = k, fl_next = mtop r, fl_child = mtop l\<rparr>" using h2(2) a1 ok(2) by (simp add: restrict_map_def)
  have "(cells h2)(a := None) = cells h |` (- locs \<langle>l, x, r\<rangle>)"
    unfolding h2(2) h1(2) x by (auto simp: fun_eq_iff restrict_map_def)
  then show ?case using a(1) a1 a2 h1(1,3,4) h2(1,3,4) x by (subst destroy_md_list.simps) simp
qed

subsection \<open>The parser\<close>

definition md_keys_ok :: "int tree \<Rightarrow> bool" where
  "md_keys_ok t \<longleftrightarrow> (\<forall>k \<in> set_tree t. 0 \<le> k \<and> k \<le> INT_MAX)"

text \<open>A list ends where the next token is the end of a line or a closing parenthesis.\<close>

definition stops :: "string \<Rightarrow> fl_token \<Rightarrow> string \<Rightarrow> bool" where
  "stops s tok s' \<longleftrightarrow> no_digit s \<and> next_token s = Some (tok, s') \<and> (tok = tok_eof \<or> tok = CharTok (Some (CHR '')'')))"

lemma stops_paren: "stops (CHR '')'' # s) (CharTok (Some (CHR '')''))) s"
  by (simp add: stops_def next_token_def isdigit_def)

lemma next_token_punct:
  "next_token (CHR ''>'' # s) = Some (CharTok (Some (CHR ''>'')), s)" "next_token (CHR ''('' # s) = Some (CharTok (Some (CHR ''('')), s)"
  "next_token (CHR '')'' # s) = Some (CharTok (Some (CHR '')'')), s)" "no_digit (CHR ''>'' # s)" "no_digit (CHR ''('' # s)"
  by (simp_all add: next_token_def isdigit_def)

lemma next_token_number:
  assumes "0 \<le> k" "k \<le> INT_MAX" "no_digit s"
  shows "next_token (show_int k @ s) = Some (IdTok k, s)"
proof -
  have "show_int k = show_nat (nat k)" using assms(1) by (simp add: show_int_def)
  moreover obtain x r where x: "show_nat (nat k) = x # r" by (cases "show_nat (nat k)") auto
  moreover have "isdigit x" using show_nat_digits[of x "nat k"] x by simp
  moreover have "scanf ''%d'' (show_int k @ s) = Some \<lparr>sr_args = [IntA k], sr_eof = False, sr_rest = s\<rparr>"
    using scanf_d_elem[of "[]" s k] assms by (simp add: in_int_def INT_MIN_def INT_MAX_def)
  ultimately show ?thesis by (simp add: next_token_def)
qed

text \<open>What parsing a list does to the heap: its nodes are new cells, and nothing else changes.\<close>

definition parsed :: "fl_heap \<Rightarrow> mtree \<Rightarrow> fl_heap \<Rightarrow> bool" where
  "parsed h t h' \<longleftrightarrow> is_md (cells h') t \<and> md_ok t \<and> locs t \<subseteq> {fresh h..<fresh h'} \<and> fresh h \<le> fresh h'
     \<and> (\<forall>a. a \<notin> locs t \<longrightarrow> cells h' a = cells h a) \<and> oom h' = (\<lambda>_. False)"

lemma parsed_new:
  "oom h = (\<lambda>_. False) \<Longrightarrow> malloc h \<lparr>fl_data = k, fl_next = None, fl_child = None\<rparr> = (Some (fresh h), h1) \<Longrightarrow>
    parsed h \<langle>\<langle>\<rangle>, (fresh h, k), \<langle>\<rangle>\<rangle> h1"
  by (auto simp: malloc_def parsed_def)

lemma parsed_apart:
  assumes "parsed h t h1" "parsed h1 u h2"
  shows "locs t \<inter> locs u = {}" "a \<in> locs t \<Longrightarrow> cells h2 a = cells h1 a" "is_md (cells h2) t"
proof -
  have lt: "a < fresh h1" if "a \<in> locs t" for a using assms(1) that unfolding parsed_def by fastforce
  have ge: "fresh h1 \<le> a" if "a \<in> locs u" for a using assms(2) that unfolding parsed_def by fastforce
  show d: "locs t \<inter> locs u = {}" using lt ge by (meson disjoint_iff not_le)
  show e: "cells h2 a = cells h1 a" if "a \<in> locs t" for a using d that assms(2) unfolding parsed_def by blast
  show "is_md (cells h2) t" by (rule is_md_frame[OF e]) (use assms(1) in \<open>simp_all add: parsed_def\<close>)
qed

lemma parsed_child:
  assumes "parsed h \<langle>\<langle>\<rangle>, (a, k), \<langle>\<rangle>\<rangle> h1" "parsed h1 l h2"
  shows "\<exists>h3. store h2 (Some a) (\<lambda>x. x\<lparr>fl_child := mtop l\<rparr>) = Some h3 \<and> parsed h \<langle>l, (a, k), \<langle>\<rangle>\<rangle> h3"
proof -
  note ap = parsed_apart[OF assms]
  have "cells h2 a = Some \<lparr>fl_data = k, fl_next = None, fl_child = None\<rparr>" using ap(3) by simp
  moreover have "a \<notin> locs l" using ap(1) by simp
  moreover have "locs l \<subseteq> {fresh h..<fresh h2}" "a \<in> {fresh h..<fresh h2}" using assms by (auto simp: parsed_def)
  ultimately show ?thesis using assms by (auto simp: parsed_def)
qed

lemma parsed_next:
  assumes "parsed h \<langle>l, (a, k), \<langle>\<rangle>\<rangle> h1" "parsed h1 r h2"
  shows "\<exists>h3. store h2 (Some a) (\<lambda>x. x\<lparr>fl_next := mtop r\<rparr>) = Some h3 \<and> parsed h \<langle>l, (a, k), r\<rangle> h3"
proof -
  note ap = parsed_apart[OF assms]
  have a: "cells h2 a = Some \<lparr>fl_data = k, fl_next = None, fl_child = mtop l\<rparr>" "is_md (cells h2) l" using ap(3) by simp_all
  have ok: "a \<notin> locs l" "a \<notin> locs r" "locs l \<inter> locs r = {}" "md_ok l" using ap(1) assms(1) by (auto simp: parsed_def)
  have f: "locs r \<subseteq> {fresh h..<fresh h2}" "locs l \<subseteq> {fresh h..<fresh h2}" "a \<in> {fresh h..<fresh h2}" "fresh h \<le> fresh h2"
    using assms by (auto simp: parsed_def)
  have "\<forall>b. b \<notin> insert a (locs l \<union> locs r) \<longrightarrow> cells h2 b = cells h b" using assms by (auto simp: parsed_def)
  then show ?thesis using a ok f assms(2)
    by (intro exI[of _ "h2\<lparr>cells := (cells h2)(a \<mapsto> \<lparr>fl_data = k, fl_next = mtop r, fl_child = mtop l\<rparr>)\<rparr>"])
       (auto simp: parsed_def image_Un)
qed

end
