(* ===== verification/Flatten_Main.thy ===== *)
theory Flatten_Main
  imports Flatten_Proofs
begin

text \<open>
  The flattening program as a whole: it reads back the text of every list of lists, prints it, prints the nodes in
  preorder after flattening, and frees everything.
\<close>

subsection \<open>Reading a list\<close>

text \<open>What \<open>md_list\<close> does with the rest \<open>r\<close> of a list after a node at \<open>a\<close> and its child.\<close>

definition read_rest :: "int tree \<Rightarrow> string \<Rightarrow> fl_token \<Rightarrow> string \<Rightarrow> nat \<Rightarrow> fl_heap \<Rightarrow> (ptr \<times> md_state) c" where
  "read_rest r s tok s' a h =
     (if r = \<langle>\<rangle> then Some (Some a, tok, s', h)
      else do { (t2, s2) \<leftarrow> next_token (md_text r @ s);
                (m, t3, s3, h3) \<leftarrow> md_list (t2, s2, h);
                h4 \<leftarrow> store h3 (Some a) (\<lambda>x. x\<lparr>fl_next := m\<rparr>);
                Some (Some a, t3, s3, h4) })"

definition next_text :: "int tree \<Rightarrow> string" where
  "next_text r = (if r = \<langle>\<rangle> then [] else ''>'' @ md_text r)"

definition reads :: "int tree \<Rightarrow> string \<Rightarrow> fl_heap \<Rightarrow> fl_token \<Rightarrow> string \<Rightarrow> mtree \<Rightarrow> fl_heap \<Rightarrow> bool" where
  "reads t s h tok s' t' h' \<longleftrightarrow>
     (\<exists>k s0. next_token (md_text t @ s) = Some (IdTok k, s0) \<and> md_list (IdTok k, s0, h) = Some (mtop t', tok, s', h'))
     \<and> map_tree snd t' = t \<and> parsed h t' h'"

lemma next_text_no_digit: "stops s tok s' \<Longrightarrow> no_digit (next_text r @ s)"
  by (simp add: next_text_def stops_def isdigit_def)

lemma stops_char: "stops s tok s' \<Longrightarrow> is_char tok \<and> tok \<noteq> CharTok (Some (CHR ''>'')) \<and> next_token s = Some (tok, s')"
  by (auto simp: stops_def is_char_def)

lemma read_node_plain:
  assumes "stops s tok s'" "malloc h \<lparr>fl_data = k, fl_next = None, fl_child = None\<rparr> = (Some a, h1)"
  shows "md_list (IdTok k, next_text r @ s, h) = read_rest r s tok s' a h1"
proof (cases "r = \<langle>\<rangle>")
  case True
  then show ?thesis using assms stops_char[OF assms(1)] by (subst md_list.simps) (auto simp: next_text_def read_rest_def stops_def)
next
  case False
  then show ?thesis using assms by (subst md_list.simps) (simp add: next_text_def read_rest_def next_token_punct is_char_def)
qed

lemma read_node_child:
  assumes s: "stops s tok s'" "malloc h \<lparr>fl_data = k, fl_next = None, fl_child = None\<rparr> = (Some a, h1)"
    and l: "reads l ('')'' @ next_text r @ s) h1 (CharTok (Some (CHR '')''))) (next_text r @ s) l' h2"
    and h3: "store h2 (Some a) (\<lambda>x. x\<lparr>fl_child := mtop l'\<rparr>) = Some h3"
  shows "md_list (IdTok k, ''('' @ md_text l @ '')'' @ next_text r @ s, h) = read_rest r s tok s' a h3"
proof -
  obtain kl s0 where l0: "next_token (md_text l @ '')'' @ next_text r @ s) = Some (IdTok kl, s0)"
    "md_list (IdTok kl, s0, h1) = Some (mtop l', CharTok (Some (CHR '')'')), next_text r @ s, h2)" using l unfolding reads_def by blast
  show ?thesis
  proof (cases "r = \<langle>\<rangle>")
    case True
    then show ?thesis using s l0 h3 stops_char[OF s(1)]
      by (subst md_list.simps) (auto simp: next_text_def read_rest_def next_token_punct is_char_def[of "CharTok _"])
  next
    case False
    then show ?thesis using s(2) l0 h3
      by (subst md_list.simps) (simp add: next_text_def read_rest_def next_token_punct is_char_def)
  qed
qed

lemma md_list_reads:
  "t \<noteq> \<langle>\<rangle> \<Longrightarrow> md_keys_ok t \<Longrightarrow> stops s tok s' \<Longrightarrow> oom h = (\<lambda>_. False) \<Longrightarrow> \<exists>t' h'. reads t s h tok s' t' h'"
proof (induction t arbitrary: s tok s' h)
  case (Node l k r)
  let ?a = "fresh h"
  obtain h1 where m: "malloc h \<lparr>fl_data = k, fl_next = None, fl_child = None\<rparr> = (Some ?a, h1)" using Node.prems(4) by (simp add: malloc_def)
  have n: "parsed h \<langle>\<langle>\<rangle>, (?a, k), \<langle>\<rangle>\<rangle> h1" by (rule parsed_new[OF Node.prems(4) m])
  have ok: "md_keys_ok l" "md_keys_ok r" "0 \<le> k" "k \<le> INT_MAX" using Node.prems(2) by (auto simp: md_keys_ok_def)
  note nd = next_text_no_digit[OF Node.prems(3), of r]
  let ?c = "if l = \<langle>\<rangle> then [] else ''('' @ md_text l @ '')''"
  obtain l' h3 where l': "md_list (IdTok k, ?c @ next_text r @ s, h) = read_rest r s tok s' ?a h3" "map_tree snd l' = l"
    "parsed h \<langle>l', (?a, k), \<langle>\<rangle>\<rangle> h3"
  proof (cases "l = \<langle>\<rangle>")
    case True
    then show thesis using that[of h1 "\<langle>\<rangle>"] read_node_plain[OF Node.prems(3) m] n by simp
  next
    case False
    have "oom h1 = (\<lambda>_. False)" using n by (simp add: parsed_def)
    then obtain l' h2 where l: "reads l ('')'' @ next_text r @ s) h1 (CharTok (Some (CHR '')''))) (next_text r @ s) l' h2"
      using Node.IH(1)[OF False ok(1)] stops_paren[of "next_text r @ s"] by (metis append_Cons append_Nil)
    then obtain h3 where "store h2 (Some ?a) (\<lambda>x. x\<lparr>fl_child := mtop l'\<rparr>) = Some h3" "parsed h \<langle>l', (?a, k), \<langle>\<rangle>\<rangle> h3"
      using parsed_child[OF n, of l' h2] by (auto simp: reads_def)
    then show thesis using that[of h3 l'] read_node_child[OF Node.prems(3) m l] l False by (simp add: reads_def)
  qed
  have "\<exists>r' h'. read_rest r s tok s' ?a h3 = Some (Some ?a, tok, s', h') \<and> map_tree snd r' = r \<and> parsed h \<langle>l', (?a, k), r'\<rangle> h'"
  proof (cases "r = \<langle>\<rangle>")
    case True
    then show ?thesis using l'(3) by (intro exI[of _ "\<langle>\<rangle>"]) (simp add: read_rest_def)
  next
    case False
    have "oom h3 = (\<lambda>_. False)" using l'(3) by (simp add: parsed_def)
    then obtain r' h4 where r: "reads r s h3 tok s' r' h4" using Node.IH(2)[OF False ok(2) Node.prems(3)] by blast
    then obtain h5 where "store h4 (Some ?a) (\<lambda>x. x\<lparr>fl_next := mtop r'\<rparr>) = Some h5" "parsed h \<langle>l', (?a, k), r'\<rangle> h5"
      using parsed_next[OF l'(3), of r' h4] by (auto simp: reads_def)
    then show ?thesis using r False by (auto simp: reads_def read_rest_def)
  qed
  then obtain r' h' where r': "read_rest r s tok s' ?a h3 = Some (Some ?a, tok, s', h')" "map_tree snd r' = r" "parsed h \<langle>l', (?a, k), r'\<rangle> h'" by blast
  have "md_text \<langle>l, k, r\<rangle> @ s = show_int k @ ?c @ next_text r @ s" by (simp add: next_text_def)
  moreover have "no_digit (?c @ next_text r @ s)" using nd by (simp add: isdigit_def)
  ultimately have "next_token (md_text \<langle>l, k, r\<rangle> @ s) = Some (IdTok k, ?c @ next_text r @ s)" using next_token_number[OF ok(3,4)] by simp
  then have "reads \<langle>l, k, r\<rangle> s h tok s' \<langle>l', (?a, k), r'\<rangle> h'" using l'(1,2) r' by (auto simp: reads_def)
  then show ?case by blast
qed simp

subsection \<open>The program\<close>

text \<open>A line is the text of a list and the end of the line, of either kind.\<close>

definition fl_line_ok :: "int tree \<times> string \<Rightarrow> bool" where
  "fl_line_ok l \<longleftrightarrow> fst l \<noteq> \<langle>\<rangle> \<and> md_keys_ok (fst l) \<and> (snd l = [CHR 0x0A] \<or> snd l = [CHR 0x0D, CHR 0x0A])"

definition fl_line_text :: "int tree \<times> string \<Rightarrow> string" where
  "fl_line_text l = md_text (fst l) @ snd l"

definition fl_line_out :: "int tree \<times> string \<Rightarrow> string" where
  "fl_line_out l = ''Received: '' @ md_text (fst l) @ ''\<newline>Flattened: '' @ flat_text (preorder (fst l)) @ ''\<newline>> ''"

lemma stops_line: "fl_line_ok l \<Longrightarrow> stops (snd l @ s) tok_eof s"
  by (auto simp: fl_line_ok_def stops_def next_token_def isdigit_def)

lemma fl_step:
  assumes "fl_line_ok l" "cells h = Map.empty" "oom h = (\<lambda>_. False)"
  shows "\<exists>h'. fl_loop (fl_line_text l @ s) h = do { (h2, out) \<leftarrow> fl_loop s h'; Some (h2, fl_line_out l @ out) }
    \<and> cells h' = Map.empty \<and> oom h' = (\<lambda>_. False)"
proof -
  have t: "fst l \<noteq> \<langle>\<rangle>" "md_keys_ok (fst l)" using assms(1) by (simp_all add: fl_line_ok_def)
  obtain t' h1 where r: "reads (fst l) (snd l @ s) h tok_eof s t' h1" using md_list_reads[OF t stops_line[OF assms(1)] assms(3)] by blast
  then have t': "is_md (cells h1) t'" "md_ok t'" "map_tree snd t' = fst l" "\<forall>a. a \<notin> locs t' \<longrightarrow> cells h1 a = None" "oom h1 = (\<lambda>_. False)"
    using assms(2) by (auto simp: reads_def parsed_def)
  let ?u = "fspine (preorder t')"
  obtain h2 where h2: "flatten h1 (mtop t') = Some (mtop t', h2)" "is_md (cells h2) ?u" "\<forall>a. a \<notin> locs t' \<longrightarrow> cells h2 a = cells h1 a"
    "oom h2 = oom h1" using flatten_eq[OF t'(1,2)] by blast
  have "locs ?u = locs t'" using set_preorder[of ?u] set_preorder[of t'] by simp
  then obtain h3 where h3: "destroy_md_list h2 (mtop t') = Some h3" "cells h3 = cells h2 |` (- locs t')" "oom h3 = oom h2"
    using destroy_md_list_eq[OF h2(2) fspine_ok[OF t'(2)]] mtop_spine[of t'] by auto
  have p: "print_md_list h1 (mtop t') = Some (md_text (fst l))" using print_md_list_eq[OF t'(1)] t'(3) by simp
  have "map snd (preorder t') = preorder (fst l)" using preorder_map[of snd t'] t'(3) by simp
  then have q: "print_md_list h2 (mtop t') = Some (flat_text (preorder (fst l)))"
    using print_md_list_eq[OF h2(2)] mtop_spine[of t'] fspine_text[of "preorder t'"] by simp
  obtain k s0 where "next_token (fl_line_text l @ s) = Some (IdTok k, s0)" "md_list (IdTok k, s0, h) = Some (mtop t', tok_eof, s, h1)"
    using r by (auto simp: reads_def fl_line_text_def)
  then have "fl_loop (fl_line_text l @ s) h = do { (h', out) \<leftarrow> fl_loop s h3; Some (h', fl_line_out l @ out) }"
    using p q h2(1) h3(1) by (subst fl_loop.simps) (simp add: fl_line_out_def)
  moreover have "cells h3 = Map.empty" using h3(2) h2(3) t'(4) by (auto simp: fun_eq_iff restrict_map_def)
  ultimately show ?thesis using h3(3) h2(4) t'(5) by auto
qed

text \<open>
  Property C25: on every sequence of nonempty lists of lists with numbers that fit \<open>int\<close>, one on a line, ended by the end of
  the input or a character that starts no list, the program prints each list as it was typed and the list of its nodes in
  preorder, and frees all nodes.
\<close>

theorem flatten_main_correct:
  assumes "list_all fl_line_ok ls" "e = [] \<or> \<not> isdigit (hd e) \<and> hd e \<notin> set ''>()''"
  shows "\<exists>h. fl_main (\<lambda>_. False) (concat (map fl_line_text ls) @ e) = Some (h, ''> '' @ concat (map fl_line_out ls)) \<and> cells h = Map.empty"
proof -
  have "\<exists>h'. fl_loop (concat (map fl_line_text ls) @ e) h = Some (h', concat (map fl_line_out ls)) \<and> cells h' = Map.empty"
    if "cells h = Map.empty" "oom h = (\<lambda>_. False)" for h
    using assms(1) that
  proof (induction ls arbitrary: h)
    case Nil
    have "\<exists>s. next_token e = Some (tok_eof, s)" using assms(2) by (cases e) (auto simp: next_token_def)
    then show ?case using Nil by (subst fl_loop.simps) auto
  next
    case (Cons l ls)
    have "fl_line_ok l" using Cons.prems(1) by simp
    from fl_step[OF this Cons.prems(2,3)] obtain h' where h': "fl_loop (fl_line_text l @ concat (map fl_line_text ls) @ e) h
        = do { (h2, out) \<leftarrow> fl_loop (concat (map fl_line_text ls) @ e) h'; Some (h2, fl_line_out l @ out) }"
      "cells h' = Map.empty" "oom h' = (\<lambda>_. False)" by blast
    then show ?case using Cons.IH[OF _ h'(2,3)] Cons.prems(1) by auto
  qed
  from this[of "empty_heap (\<lambda>_. False)"] show ?thesis by (auto simp: fl_main_def empty_heap_def)
qed

theorem flatten_main_correct_witness:
  "\<exists>h. fl_main (\<lambda>_. False) ''1>2(6>7(9>10>11))>3>4(8)>5\<newline>7\<newline>''
    = Some (h, ''> Received: 1>2(6>7(9>10>11))>3>4(8)>5\<newline>Flattened: 1>2>6>7>9>10>11>3>4>8>5\<newline>> Received: 7\<newline>Flattened: 7\<newline>> '')
      \<and> cells h = Map.empty"
proof -
  let ?n = "\<lambda>k :: int. \<lambda>r. \<langle>\<langle>\<rangle>, k, r\<rangle>"
  let ?ls = "[(?n 1 \<langle>?n 6 \<langle>?n 9 (?n 10 (?n 11 \<langle>\<rangle>)), 7, \<langle>\<rangle>\<rangle>, 2, ?n 3 \<langle>?n 8 \<langle>\<rangle>, 4, ?n 5 \<langle>\<rangle>\<rangle>\<rangle>, ''\<newline>''), (?n 7 \<langle>\<rangle>, ''\<newline>'')]"
  have "list_all fl_line_ok ?ls" by (simp add: fl_line_ok_def md_keys_ok_def INT_MAX_def)
  moreover have "concat (map fl_line_text ?ls) @ [] = ''1>2(6>7(9>10>11))>3>4(8)>5\<newline>7\<newline>''" by (simp add: fl_line_text_def show_eval)
  moreover have "''> '' @ concat (map fl_line_out ?ls)
      = ''> Received: 1>2(6>7(9>10>11))>3>4(8)>5\<newline>Flattened: 1>2>6>7>9>10>11>3>4>8>5\<newline>> Received: 7\<newline>Flattened: 7\<newline>> ''"
    by (simp add: fl_line_out_def show_eval)
  ultimately show ?thesis using flatten_main_correct[of ?ls "[]"] by (simp only: simp_thms)
qed

end
