(* ===== verification/Bigint_Sum.thy ===== *)
theory Bigint_Sum
  imports C_Stdio
begin

text \<open>
  \<open>linked_lists/bigint_sum/follow_up.c\<close>: the sum of two numbers whose digits, the first one first, are in linked lists.
  The nodes are elements of three static arrays; the shorter operand gets leading zeros, and these and the nodes of the
  sum are taken from the third array.
\<close>

subsection \<open>Nodes in arrays\<close>

datatype arr = Operand1 | Operand2 | Result

type_synonym bi_ptr = "(arr \<times> nat) option"

record bi_node =
  bi_value :: int
  bi_next :: bi_ptr

type_synonym bi_mem = "arr \<Rightarrow> bi_node list"

definition MAX_OPERAND_DIGITS :: nat where "MAX_OPERAND_DIGITS = 1024"

definition bi_start :: bi_mem where
  "bi_start a = replicate (case a of Result \<Rightarrow> MAX_OPERAND_DIGITS + 2 | _ \<Rightarrow> MAX_OPERAND_DIGITS) \<lparr>bi_value = 0, bi_next = None\<rparr>"

definition get_node :: "bi_mem \<Rightarrow> bi_ptr \<Rightarrow> bi_node c" where
  "get_node m p = (case p of None \<Rightarrow> None | Some (a, i) \<Rightarrow> rd (m a) i)"

definition set_node :: "bi_mem \<Rightarrow> arr \<Rightarrow> nat \<Rightarrow> (bi_node \<Rightarrow> bi_node) \<Rightarrow> bi_mem c" where
  "set_node m a i f = do { n \<leftarrow> rd (m a) i; xs \<leftarrow> wr (m a) i (f n); Some (m(a := xs)) }"

subsection \<open>The sum\<close>

partial_function (option) list_length :: "bi_mem \<Rightarrow> bi_ptr \<Rightarrow> nat option" where
  "list_length m head = (if head = None then Some 0 else do { n \<leftarrow> get_node m head; l \<leftarrow> list_length m (bi_next n); Some (l + 1) })"

text \<open>The loop has \<open>k\<close> rounds left; \<open>buff\<close> is the array \<open>a\<close>.\<close>

fun prepend_loop :: "bi_mem \<Rightarrow> bi_ptr \<Rightarrow> arr \<Rightarrow> nat \<Rightarrow> nat \<Rightarrow> (bi_ptr \<times> bi_mem) c" where
  "prepend_loop m head a i 0 = Some (head, m)"
| "prepend_loop m head a i (Suc k) =
     do { m1 \<leftarrow> set_node m a i (\<lambda>n. n\<lparr>bi_value := 0\<rparr>);
          m2 \<leftarrow> set_node m1 a i (\<lambda>n. n\<lparr>bi_next := head\<rparr>);
          prepend_loop m2 (Some (a, i)) a (i + 1) k }"

definition list_prepend_zeros :: "bi_mem \<Rightarrow> bi_ptr \<Rightarrow> arr \<Rightarrow> nat \<Rightarrow> (bi_ptr \<times> bi_mem) c" where
  "list_prepend_zeros m head a zeros = prepend_loop m head a 0 zeros"

record result_wrapper =
  carry :: int
  next_head :: bi_ptr
  buff_i :: nat

text \<open>
  The sum of two \<open>int\<close> and an \<open>unsigned\<close> is \<open>unsigned\<close>, and goes back to \<open>int\<close>; the carry is \<open>unsigned\<close> again.
\<close>

definition digit_sum :: "int \<Rightarrow> int \<Rightarrow> int \<Rightarrow> int c" where
  "digit_sum v w cy = do { s \<leftarrow> c_int (v + w); Some (((s + cy) mod 2 ^ 32 + 2 ^ 31) mod 2 ^ 32 - 2 ^ 31) }"

definition crem :: "int \<Rightarrow> int \<Rightarrow> int" where
  "crem a b = a - cdiv a b * b"

text \<open>\<open>buff\<close> is the array \<open>a\<close> from \<open>off\<close> on.\<close>

partial_function (option) bigint_sum_aux :: "bi_mem \<Rightarrow> bi_ptr \<Rightarrow> bi_ptr \<Rightarrow> arr \<Rightarrow> nat \<Rightarrow> (result_wrapper \<times> bi_mem) option" where
  "bigint_sum_aux m h1 h2 a off =
     (if h1 = None \<and> h2 = None then Some (\<lparr>carry = 0, next_head = None, buff_i = 0\<rparr>, m)
      else do { _ \<leftarrow> c_assert (h1 \<noteq> None \<and> h2 \<noteq> None);
                n1 \<leftarrow> get_node m h1;
                n2 \<leftarrow> get_node m h2;
                (rest, m1) \<leftarrow> bigint_sum_aux m (bi_next n1) (bi_next n2) a off;
                k1 \<leftarrow> get_node m1 h1;
                k2 \<leftarrow> get_node m1 h2;
                sum_value \<leftarrow> digit_sum (bi_value k1) (bi_value k2) (carry rest);
                m2 \<leftarrow> set_node m1 a (off + buff_i rest) (\<lambda>n. n\<lparr>bi_value := crem sum_value 10\<rparr>);
                m3 \<leftarrow> set_node m2 a (off + buff_i rest) (\<lambda>n. n\<lparr>bi_next := next_head rest\<rparr>);
                Some (\<lparr>carry = cdiv sum_value 10 mod 2 ^ 32, next_head = Some (a, off + buff_i rest), buff_i = buff_i rest + 1\<rparr>, m3) })"

definition bigint_sum :: "bi_mem \<Rightarrow> bi_ptr \<Rightarrow> bi_ptr \<Rightarrow> arr \<Rightarrow> (bi_ptr \<times> bi_mem) c" where
  "bigint_sum m h1 h2 a =
     do { h1_len \<leftarrow> list_length m h1;
          h2_len \<leftarrow> list_length m h2;
          (off, p1, p2, m1) \<leftarrow>
            (if h1_len \<noteq> h2_len
             then (if h1_len < h2_len
                   then do { (p, m1) \<leftarrow> list_prepend_zeros m h1 a (h2_len - h1_len); Some (h2_len - h1_len, p, h2, m1) }
                   else do { (p, m1) \<leftarrow> list_prepend_zeros m h2 a (h1_len - h2_len); Some (h1_len - h2_len, h1, p, m1) })
             else Some (0, h1, h2, m));
          (res, m2) \<leftarrow> bigint_sum_aux m1 p1 p2 a off;
          if carry res \<noteq> 0
          then do { m3 \<leftarrow> set_node m2 a (off + buff_i res) (\<lambda>n. n\<lparr>bi_next := next_head res\<rparr>);
                    m4 \<leftarrow> set_node m3 a (off + buff_i res) (\<lambda>n. n\<lparr>bi_value := (carry res + 2 ^ 31) mod 2 ^ 32 - 2 ^ 31\<rparr>);
                    Some (Some (a, off + buff_i res), m4) }
          else Some (next_head res, m2) }"

subsection \<open>The program\<close>

text \<open>A number that cannot be read leaves the value of its node as it is.\<close>

fun read_list_loop :: "bi_mem \<Rightarrow> string \<Rightarrow> arr \<Rightarrow> nat \<Rightarrow> nat \<Rightarrow> (bi_mem \<times> string) c" where
  "read_list_loop m s a i 0 = Some (m, s)"
| "read_list_loop m s a i (Suc k) =
     do { r \<leftarrow> scanf ''%d'' s;
          m1 \<leftarrow> set_node m a i (\<lambda>n. if scan_ret r = 1 then n\<lparr>bi_value := arg_int (sr_args r ! 0)\<rparr> else n);
          m2 \<leftarrow> (if i > 0 then set_node m1 a (i - 1) (\<lambda>n. n\<lparr>bi_next := Some (a, i)\<rparr>) else Some m1);
          read_list_loop m2 (sr_rest r) a (i + 1) k }"

definition read_list :: "bi_mem \<Rightarrow> string \<Rightarrow> arr \<Rightarrow> nat \<Rightarrow> (bi_mem \<times> string) c" where
  "read_list m s a list_sz =
     do { _ \<leftarrow> c_assert (list_sz > 0);
          (m1, s1) \<leftarrow> read_list_loop m s a 0 list_sz;
          m2 \<leftarrow> set_node m1 a (list_sz - 1) (\<lambda>n. n\<lparr>bi_next := None\<rparr>);
          Some (m2, s1) }"

partial_function (option) print_list_loop :: "bi_mem \<Rightarrow> bi_ptr \<Rightarrow> string option" where
  "print_list_loop m head =
     (if head = None then Some []
      else do { n \<leftarrow> get_node m head;
                out \<leftarrow> print_list_loop m (bi_next n);
                Some (printf '' -> %d'' [IntA (bi_value n)] @ out) })"

definition print_list :: "bi_mem \<Rightarrow> bi_ptr \<Rightarrow> string c" where
  "print_list m head =
     (if head = None then Some []
      else do { n \<leftarrow> get_node m head;
                out \<leftarrow> print_list_loop m (bi_next n);
                Some (printf ''%d'' [IntA (bi_value n)] @ out @ ''\<newline>'') })"

definition bi_rule :: string where
  "bi_rule = ''----------------------------------------------------\<newline>''"

partial_function (option) bi_loop :: "bi_mem \<Rightarrow> string \<Rightarrow> string option" where
  "bi_loop m s =
     do { r \<leftarrow> scanf ''%zu%zu'' s;
          if scan_ret r = 2
          then do { (m1, s1) \<leftarrow> read_list m (sr_rest r) Operand1 (nat (arg_int (sr_args r ! 0)));
                    (m2, s2) \<leftarrow> read_list m1 s1 Operand2 (nat (arg_int (sr_args r ! 1)));
                    o1 \<leftarrow> print_list m2 (Some (Operand1, 0));
                    o2 \<leftarrow> print_list m2 (Some (Operand2, 0));
                    (res, m3) \<leftarrow> bigint_sum m2 (Some (Operand1, 0)) (Some (Operand2, 0)) Result;
                    o3 \<leftarrow> print_list m3 res;
                    out \<leftarrow> bi_loop m3 s2;
                    Some ([CHR 0x09] @ o1 @ [CHR ''+'', CHR 0x09] @ o2 @ bi_rule @ [CHR 0x09] @ o3 @ ''\<newline>'' @ out) }
          else Some [] }"

definition bi_banner :: string where
  "bi_banner = ''Enter the size of operand 1, followed by the size of operand 2, followed by the ''
     @ ''numbers in operand 1, followed by the numbers in operand 2.\<newline>''"

definition bi_main :: "string \<Rightarrow> string c" where
  "bi_main input = do { out \<leftarrow> bi_loop bi_start input; Some (bi_banner @ out) }"

end
