(* ===== verification/Bigint_Proofs.thy ===== *)
theory Bigint_Proofs
  imports Bigint_Sum
begin

text \<open>
  The program adds the two numbers: what it prints has the value of the sum, on as many digits as the longer operand and
  one more if there is a carry. The nodes of the zeros and of the sum must fit the third array, which they do not for all
  operands that fit the other two; then the program writes behind its end.
\<close>

subsection \<open>Lists in the arrays\<close>

type_synonym place = "arr \<times> nat"

text \<open>The list at \<open>p\<close> has the values \<open>xs\<close>, in nodes of the set \<open>S\<close>.\<close>

fun lst :: "bi_mem \<Rightarrow> place set \<Rightarrow> bi_ptr \<Rightarrow> int list \<Rightarrow> bool" where
  "lst m S p [] \<longleftrightarrow> p = None"
| "lst m S p (x # xs) \<longleftrightarrow> (\<exists>a i. p = Some (a, i) \<and> (a, i) \<in> S \<and> i < length (m a) \<and> bi_value (m a ! i) = x \<and> lst m S (bi_next (m a ! i)) xs)"

definition same_on :: "place set \<Rightarrow> bi_mem \<Rightarrow> bi_mem \<Rightarrow> bool" where
  "same_on S m m' \<longleftrightarrow> (\<forall>a. length (m' a) = length (m a)) \<and> (\<forall>(a, i) \<in> S. m' a ! i = m a ! i)"

lemma same_on_refl [simp]: "same_on S m m"
  by (simp add: same_on_def)

lemma same_on_trans: "same_on S m m1 \<Longrightarrow> same_on S m1 m2 \<Longrightarrow> same_on S m m2"
  by (force simp: same_on_def)

lemma same_on_mono: "T \<subseteq> S \<Longrightarrow> same_on S m m' \<Longrightarrow> same_on T m m'"
  by (auto simp: same_on_def)

lemma lst_frame: "same_on S m m' \<Longrightarrow> lst m S p xs \<Longrightarrow> lst m' S p xs"
proof (induction xs arbitrary: p)
  case (Cons x xs)
  then show ?case by (fastforce simp: same_on_def)
qed simp

lemma lst_mono: "S \<subseteq> T \<Longrightarrow> lst m S p xs \<Longrightarrow> lst m T p xs"
  by (induction xs arbitrary: p) auto

lemma get_node_lst: "lst m S p (x # xs) \<Longrightarrow> \<exists>n. get_node m p = Some n \<and> bi_value n = x \<and> lst m S (bi_next n) xs \<and> p \<noteq> None"
  by (auto simp: get_node_def)

lemma lst_same: "same_on S m m' \<Longrightarrow> lst m S p (x # xs) \<Longrightarrow> get_node m' p = get_node m p"
  by (auto simp: get_node_def same_on_def rd_def)

lemma lst_None: "lst m S None xs \<Longrightarrow> xs = []"
  by (cases xs) auto

lemma set_node_eq: "i < length (m a) \<Longrightarrow> set_node m a i f = Some (m(a := (m a)[i := f (m a ! i)]))"
  by (simp add: set_node_def)

lemma set_node_None: "\<not> i < length (m a) \<Longrightarrow> set_node m a i f = None"
  by (simp add: set_node_def)

lemma node_eta: "n\<lparr>bi_value := v, bi_next := p\<rparr> = \<lparr>bi_value = v, bi_next = p\<rparr>" for n :: bi_node
  by (cases n) simp

lemma node_eta': "n\<lparr>bi_next := p, bi_value := v\<rparr> = \<lparr>bi_value = v, bi_next = p\<rparr>" for n :: bi_node
  by (cases n) simp

text \<open>Two writes to a node make the head of a longer list.\<close>

lemma lst_push:
  assumes "lst m S p xs" "i < length (m a)" "(a, i) \<notin> S" "m' = m(a := (m a)[i := \<lparr>bi_value = v, bi_next = p\<rparr>])"
  shows "lst m' (insert (a, i) S) (Some (a, i)) (v # xs)" "same_on (- {(a, i)}) m m'"
proof -
  have "m' b ! k = m b ! k" if "(b, k) \<noteq> (a, i)" for b k using that assms(4) by (cases "b = a") auto
  then show e: "same_on (- {(a, i)}) m m'" using assms(4) by (auto simp: same_on_def)
  have "same_on S m m'" by (rule same_on_mono[OF _ e]) (use assms(3) in auto)
  from lst_mono[OF _ lst_frame[OF this assms(1)], of "insert (a, i) S"]
  show "lst m' (insert (a, i) S) (Some (a, i)) (v # xs)" using assms(2,4) by auto
qed

lemma list_length_eq: "lst m S p xs \<Longrightarrow> list_length m p = Some (length xs)"
proof (induction xs arbitrary: p)
  case Nil
  then show ?case by (subst list_length.simps) simp
next
  case (Cons x xs)
  obtain n where n: "get_node m p = Some n" "lst m S (bi_next n) xs" "p \<noteq> None" using get_node_lst[OF Cons.prems] by blast
  then show ?case using Cons.IH[OF n(2)] by (subst list_length.simps) simp
qed

lemma print_list_eq:
  assumes "lst m S p (x # xs)"
  shows "print_list m p = Some (show_int x @ concat (map (\<lambda>k. '' -> '' @ show_int k) xs) @ ''\<newline>'')"
proof -
  have "print_list_loop m p = Some (concat (map (\<lambda>k. '' -> '' @ show_int k) xs))" if "lst m S p xs" for p xs
    using that
  proof (induction xs arbitrary: p)
    case Nil
    then show ?case by (subst print_list_loop.simps) simp
  next
    case (Cons x xs)
    obtain n where n: "get_node m p = Some n" "bi_value n = x" "lst m S (bi_next n) xs" "p \<noteq> None" using get_node_lst[OF Cons.prems] by blast
    then show ?case using Cons.IH[OF n(3)] by (subst print_list_loop.simps) (simp add: show_conv_def)
  qed
  with get_node_lst[OF assms] show ?thesis by (auto simp: print_list_def show_conv_def)
qed

subsection \<open>Zeros in front\<close>

text \<open>The nodes of the third array from \<open>i\<close> up to \<open>j\<close>, and those of the other arrays.\<close>

definition res_nodes :: "nat \<Rightarrow> nat \<Rightarrow> place set" where
  "res_nodes i j = {(Result, k) | k. i \<le> k \<and> k < j}"

definition operands :: "place set" where
  "operands = {p. fst p \<noteq> Result}"

lemma prepend_loop_eq:
  "i + k \<le> length (m Result) \<Longrightarrow> lst m (operands \<union> res_nodes 0 i) p xs \<Longrightarrow>
    \<exists>p' m'. prepend_loop m p Result i k = Some (p', m') \<and> lst m' (operands \<union> res_nodes 0 (i + k)) p' (replicate k 0 @ xs) \<and> same_on operands m m'"
proof (induction k arbitrary: i p m xs)
  case (Suc k)
  let ?m = "m(Result := (m Result)[i := \<lparr>bi_value = 0, bi_next = p\<rparr>])"
  have i: "i < length (m Result)" "(Result, i) \<notin> operands \<union> res_nodes 0 i" using Suc.prems(1) by (auto simp: operands_def res_nodes_def)
  have s: "do { m1 \<leftarrow> set_node m Result i (\<lambda>n. n\<lparr>bi_value := 0\<rparr>); set_node m1 Result i (\<lambda>n. n\<lparr>bi_next := p\<rparr>) } = Some ?m"
    using i(1) by (simp add: set_node_eq node_eta)
  note push = lst_push[OF Suc.prems(2) i refl, of 0]
  have "insert (Result, i) (operands \<union> res_nodes 0 i) \<subseteq> operands \<union> res_nodes 0 (Suc i)" by (auto simp: res_nodes_def)
  note l = lst_mono[OF this push(1)]
  obtain p' m' where m': "prepend_loop ?m (Some (Result, i)) Result (Suc i) k = Some (p', m')"
    "lst m' (operands \<union> res_nodes 0 (Suc i + k)) p' (replicate k 0 @ 0 # xs)" "same_on operands ?m m'"
  proof -
    have "Suc i + k \<le> length (?m Result)" using Suc.prems(1) by simp
    from Suc.IH[OF this l] that show thesis by blast
  qed
  have "same_on operands m ?m" by (rule same_on_mono[OF _ push(2)]) (auto simp: operands_def)
  then have "same_on operands m m'" using m'(3) same_on_trans by blast
  moreover have "prepend_loop m p Result i (Suc k) = Some (p', m')"
    using s m'(1) by (auto simp: bind_eq_Some_conv)
  ultimately show ?case using m'(2) by (simp add: replicate_app_Cons_same)
qed simp

subsection \<open>Adding digits\<close>

definition digits :: "int list \<Rightarrow> bool" where
  "digits xs \<longleftrightarrow> list_all (\<lambda>d. 0 \<le> d \<and> d < 10) xs"

fun add_digits :: "int list \<Rightarrow> int list \<Rightarrow> int \<times> int list" where
  "add_digits (x # xs) (y # ys) = (case add_digits xs ys of (c, zs) \<Rightarrow> ((x + y + c) div 10, (x + y + c) mod 10 # zs))"
| "add_digits [] ys = (0, [])"
| "add_digits (x # xs) [] = (0, [])"

definition number :: "int list \<Rightarrow> int" where
  "number xs = foldl (\<lambda>n d. 10 * n + d) 0 xs"

lemma number_Cons [simp]: "number (x # xs) = x * 10 ^ length xs + number xs" "number [] = 0"
proof -
  have "foldl (\<lambda>n d. 10 * n + d) k xs = k * 10 ^ length xs + foldl (\<lambda>n d. 10 * n + d) 0 xs" for k :: int
  proof (induction xs arbitrary: k)
    case (Cons x xs)
    have "foldl (\<lambda>n d. 10 * n + d) k (x # xs) = (10 * k + x) * 10 ^ length xs + foldl (\<lambda>n d. 10 * n + d) 0 xs"
      by (simp only: foldl_Cons Cons.IH[of "10 * k + x"])
    moreover have "foldl (\<lambda>n d. 10 * n + d) 0 (x # xs) = (10 * 0 + x) * 10 ^ length xs + foldl (\<lambda>n d. 10 * n + d) 0 xs"
      by (simp only: foldl_Cons Cons.IH[of "10 * 0 + x"])
    moreover have "(10 * k + x) * P + F = k * (10 * P) + ((10 * 0 + x) * P + F)" for P F :: int by (simp add: algebra_simps)
    ultimately show ?case by (simp only: length_Cons power_Suc)
  qed simp
  from this[of x] show "number (x # xs) = x * 10 ^ length xs + number xs" by (simp only: number_def foldl_Cons mult_zero_right add_0)
qed (simp add: number_def)

lemma add_digits_spec:
  "length xs = length ys \<Longrightarrow> digits xs \<Longrightarrow> digits ys \<Longrightarrow>
    (case add_digits xs ys of (c, zs) \<Rightarrow> (c = 0 \<or> c = 1) \<and> digits zs \<and> length zs = length xs
      \<and> c * 10 ^ length xs + number zs = number xs + number ys)"
proof (induction xs ys rule: add_digits.induct)
  case (1 x xs y ys)
  obtain c zs where z: "add_digits xs ys = (c, zs)" by (cases "add_digits xs ys")
  have d: "0 \<le> x" "x < 10" "0 \<le> y" "y < 10" using "1.prems"(2,3) by (simp_all add: digits_def)
  have ih: "c = 0 \<or> c = 1" "digits zs" "length zs = length xs" "c * 10 ^ length xs + number zs = number xs + number ys" "length ys = length xs"
    using "1.IH" "1.prems" z by (auto simp: digits_def)
  let ?s = "x + y + c"
  have "?s div 10 = 0 \<or> ?s div 10 = 1" using d ih(1) by auto
  moreover have "?s div 10 * (10 * 10 ^ length xs) + (?s mod 10) * 10 ^ length xs = ?s * 10 ^ length xs"
    by (simp add: distrib_right[symmetric] mult.assoc[symmetric])
  moreover have "?s * 10 ^ length xs = x * 10 ^ length xs + y * 10 ^ length xs + c * 10 ^ length xs" by (simp add: distrib_right)
  ultimately show ?case using z ih by (simp add: digits_def)
qed (simp_all add: digits_def)

lemma digit_step:
  assumes "0 \<le> x" "x < 10" "0 \<le> y" "y < 10" "c = 0 \<or> c = 1"
  shows "digit_sum x y c = Some (x + y + c)" "crem (x + y + c) 10 = (x + y + c) mod 10" "cdiv (x + y + c) 10 mod 2 ^ 32 = (x + y + c) div 10"
  using assms by (auto simp: digit_sum_def c_int_def in_int_def INT_MIN_def INT_MAX_def crem_def minus_div_mult_eq_mod)

text \<open>One node of the sum, written to the third array at \<open>j\<close>.\<close>

lemma set_sum_node:
  "do { m2 \<leftarrow> set_node m a j (\<lambda>n. n\<lparr>bi_value := v\<rparr>); set_node m2 a j (\<lambda>n. n\<lparr>bi_next := p\<rparr>) }
    = (if j < length (m a) then Some (m(a := (m a)[j := \<lparr>bi_value = v, bi_next = p\<rparr>])) else None)"
  by (simp add: set_node_eq set_node_None node_eta)

definition sum_ok :: "nat \<Rightarrow> nat \<Rightarrow> bi_mem \<Rightarrow> int \<Rightarrow> int list \<Rightarrow> (result_wrapper \<times> bi_mem) c \<Rightarrow> bool" where
  "sum_ok off k m cy zs res \<longleftrightarrow>
     (if off + k \<le> length (m Result)
      then \<exists>r m'. res = Some (r, m') \<and> carry r = cy \<and> buff_i r = k \<and> lst m' (res_nodes off (off + k)) (next_head r) zs
        \<and> same_on (operands \<union> res_nodes 0 off) m m'
      else res = None)"

lemma sum_okI:
  "off + k \<le> length (m Result) \<Longrightarrow> res = Some (r, m') \<Longrightarrow> carry r = cy \<Longrightarrow> buff_i r = k \<Longrightarrow> next_head r = p \<Longrightarrow>
    lst m' (res_nodes off (off + k)) p zs \<Longrightarrow> same_on (operands \<union> res_nodes 0 off) m m' \<Longrightarrow> sum_ok off k m cy zs res"
  by (simp add: sum_ok_def)

lemma bigint_sum_aux_ok:
  "lst m (operands \<union> res_nodes 0 off) h1 xs \<Longrightarrow> lst m (operands \<union> res_nodes 0 off) h2 ys \<Longrightarrow> length xs = length ys \<Longrightarrow> digits xs \<Longrightarrow> digits ys \<Longrightarrow>
    off \<le> length (m Result) \<Longrightarrow>
    sum_ok off (length xs) m (fst (add_digits xs ys)) (snd (add_digits xs ys)) (bigint_sum_aux m h1 h2 Result off)"
proof (induction xs ys arbitrary: h1 h2 rule: add_digits.induct)
  case (1 x xs y ys)
  let ?S = "operands \<union> res_nodes 0 off"
  obtain n1 where n1: "get_node m h1 = Some n1" "bi_value n1 = x" "lst m ?S (bi_next n1) xs" "h1 \<noteq> None" using get_node_lst[OF "1.prems"(1)] by blast
  obtain n2 where n2: "get_node m h2 = Some n2" "bi_value n2 = y" "lst m ?S (bi_next n2) ys" "h2 \<noteq> None" using get_node_lst[OF "1.prems"(2)] by blast
  obtain c zs where cz: "add_digits xs ys = (c, zs)" by (cases "add_digits xs ys")
  have d: "digits xs" "digits ys" "0 \<le> x" "x < 10" "0 \<le> y" "y < 10" "length xs = length ys" using "1.prems"(3-5) by (simp_all add: digits_def)
  have c: "c = 0 \<or> c = 1" using add_digits_spec[OF d(7,1,2)] cz by simp
  have ih: "sum_ok off (length xs) m c zs (bigint_sum_aux m (bi_next n1) (bi_next n2) Result off)"
    using "1.IH"[OF n1(3) n2(3) d(7,1,2) "1.prems"(6)] cz by simp
  show ?case
  proof (cases "off + length xs \<le> length (m Result)")
    case False
    then show ?thesis using ih n1 n2 by (subst bigint_sum_aux.simps) (simp add: sum_ok_def)
  next
    case True
    then obtain r m1 where r: "bigint_sum_aux m (bi_next n1) (bi_next n2) Result off = Some (r, m1)" "carry r = c" "buff_i r = length xs"
      "lst m1 (res_nodes off (off + length xs)) (next_head r) zs" "same_on ?S m m1" using ih by (auto simp: sum_ok_def)
    let ?j = "off + length xs" let ?s = "x + y + c"
    let ?m = "m1(Result := (m1 Result)[?j := \<lparr>bi_value = ?s mod 10, bi_next = next_head r\<rparr>])"
    let ?res = "\<lparr>carry = ?s div 10, next_head = Some (Result, ?j), buff_i = length xs + 1\<rparr>"
    obtain p1 p2 where nn: "h1 = Some p1" "h2 = Some p2" using n1(4) n2(4) by blast
    have len: "length (m1 Result) = length (m Result)" using r(5) by (simp add: same_on_def)
    have k: "get_node m1 h1 = Some n1" "get_node m1 h2 = Some n2" using lst_same[OF r(5)] "1.prems"(1,2) n1(1) n2(1) by simp_all
    have "bigint_sum_aux m h1 h2 Result off = do { m3 \<leftarrow> (do { m2 \<leftarrow> set_node m1 Result ?j (\<lambda>n. n\<lparr>bi_value := ?s mod 10\<rparr>);
        set_node m2 Result ?j (\<lambda>n. n\<lparr>bi_next := next_head r\<rparr>) }); Some (?res, m3) }"
      using n1(1-3) n2(1-3) nn r(1-3) k digit_step[OF d(3-6) c] by (subst bigint_sum_aux.simps) (simp add: bind_assoc)
    then have e: "bigint_sum_aux m h1 h2 Result off = (if ?j < length (m Result) then Some (?res, ?m) else None)"
      unfolding set_sum_node len by simp
    show ?thesis
    proof (cases "?j < length (m Result)")
      case j: True
      have nj: "(Result, ?j) \<notin> res_nodes off ?j" "(Result, ?j) \<notin> ?S" by (auto simp: res_nodes_def operands_def)
      have "?j < length (m1 Result)" using j len by simp
      note push = lst_push[OF r(4) this nj(1) refl, of "?s mod 10"]
      have "insert (Result, ?j) (res_nodes off ?j) \<subseteq> res_nodes off (off + length (x # xs))" by (auto simp: res_nodes_def)
      note L = lst_mono[OF this push(1)]
      have "same_on ?S m1 ?m" by (rule same_on_mono[OF _ push(2)]) (use nj(2) in auto)
      note T = same_on_trans[OF r(5) this]
      have res: "bigint_sum_aux m h1 h2 Result off = Some (?res, ?m)" using e j by (simp only: if_True)
      have "add_digits (x # xs) (y # ys) = (?s div 10, ?s mod 10 # zs)" by (simp only: add_digits.simps cz prod.case)
      then show ?thesis unfolding res by (simp only: fst_conv snd_conv) (rule sum_okI[OF _ refl _ _ _ L T], use j in simp_all)
    qed (use e cz in \<open>simp add: sum_ok_def\<close>)
  qed
next
  case (2 ys)
  then have off: "off \<le> length (m Result)" by simp
  from 2 have "h1 = None" "h2 = None" "ys = []" by simp_all
  then show ?case using off by (subst bigint_sum_aux.simps) (simp add: sum_ok_def)
next
  case (3 x xs)
  then show ?case by simp
qed

subsection \<open>The sum of two lists\<close>

definition mem_ok :: "bi_mem \<Rightarrow> bool" where
  "mem_ok m \<longleftrightarrow> length (m Operand1) = MAX_OPERAND_DIGITS \<and> length (m Operand2) = MAX_OPERAND_DIGITS \<and> length (m Result) = MAX_OPERAND_DIGITS + 2"

text \<open>The operands with as many leading zeros as they need, the digits of the sum, and the nodes it takes.\<close>

definition pad :: "nat \<Rightarrow> int list \<Rightarrow> int list" where
  "pad n xs = replicate (n - length xs) 0 @ xs"

definition sum_list_of :: "int list \<Rightarrow> int list \<Rightarrow> int list" where
  "sum_list_of xs ys = (case add_digits (pad (length ys) xs) (pad (length xs) ys) of (c, zs) \<Rightarrow> if c = 0 then zs else c # zs)"

definition nodes_needed :: "int list \<Rightarrow> int list \<Rightarrow> nat" where
  "nodes_needed xs ys = (length xs - length ys) + (length ys - length xs) + length (sum_list_of xs ys)"

lemma length_pad [simp]: "length (pad n xs) = max n (length xs)"
  by (simp add: pad_def)

lemma digits_append [simp]: "digits (xs @ ys) \<longleftrightarrow> digits xs \<and> digits ys" "digits (replicate k 0)"
  by (auto simp: digits_def list_all_iff)

lemma number_pad: "number (pad n xs) = number xs"
proof -
  have "number (replicate k 0 @ xs) = number xs" for k by (induction k) simp_all
  then show ?thesis by (simp add: pad_def)
qed

text \<open>What the digits of the sum are.\<close>

lemma sum_list_of_spec:
  assumes "digits xs" "digits ys"
  shows "digits (sum_list_of xs ys)" "number (sum_list_of xs ys) = number xs + number ys"
    "length (sum_list_of xs ys) = max (length xs) (length ys) + (if number xs + number ys < 10 ^ max (length xs) (length ys) then 0 else 1)"
proof -
  let ?n = "max (length xs) (length ys)"
  obtain c zs where z: "add_digits (pad (length ys) xs) (pad (length xs) ys) = (c, zs)" by (cases "add_digits (pad (length ys) xs) (pad (length xs) ys)")
  have "digits (pad (length ys) xs)" "digits (pad (length xs) ys)" using assms by (simp_all add: pad_def)
  from add_digits_spec[OF _ this] have c: "c = 0 \<or> c = 1" "digits zs" "length zs = ?n" "c * 10 ^ ?n + number zs = number xs + number ys"
    using z by (simp_all add: number_pad max.commute)
  show "digits (sum_list_of xs ys)" using c(1,2) z by (auto simp: sum_list_of_def digits_def)
  show "number (sum_list_of xs ys) = number xs + number ys" using c(1,3,4) z by (auto simp: sum_list_of_def)
  have "0 \<le> number zs \<and> number zs < 10 ^ length zs" using c(2)
  proof (induction zs)
    case (Cons d zs)
    then have d: "0 \<le> d" "d \<le> 9" "0 \<le> number zs" "number zs < 10 ^ length zs" by (simp_all add: digits_def)
    have "d * 10 ^ length zs \<le> 9 * 10 ^ length zs" "0 \<le> d * 10 ^ length zs" using d(1,2) by (intro mult_right_mono, simp_all)
    then have "0 \<le> d * 10 ^ length zs + number zs" "d * 10 ^ length zs + number zs < 10 * 10 ^ length zs" using d(3,4) by linarith+
    then show ?case by (simp only: number_Cons length_Cons power_Suc)
  qed simp
  then show "length (sum_list_of xs ys) = ?n + (if number xs + number ys < 10 ^ ?n then 0 else 1)"
    using c z by (auto simp: sum_list_of_def)
qed

lemma pads_ok:
  assumes "mem_ok m" "lst m operands h1 xs" "lst m operands h2 ys" "length xs \<le> MAX_OPERAND_DIGITS" "length ys \<le> MAX_OPERAND_DIGITS"
  shows "\<exists>off p1 p2 m1. (if length xs \<noteq> length ys
             then (if length xs < length ys
                   then do { (p, m1) \<leftarrow> list_prepend_zeros m h1 Result (length ys - length xs); Some (length ys - length xs, p, h2, m1) }
                   else do { (p, m1) \<leftarrow> list_prepend_zeros m h2 Result (length xs - length ys); Some (length xs - length ys, h1, p, m1) })
             else Some (0, h1, h2, m)) = Some (off, p1, p2, m1)
    \<and> off = (length xs - length ys) + (length ys - length xs) \<and> off \<le> length (m1 Result) \<and> same_on operands m m1
    \<and> lst m1 (operands \<union> res_nodes 0 off) p1 (pad (length ys) xs) \<and> lst m1 (operands \<union> res_nodes 0 off) p2 (pad (length xs) ys)"
proof -
  have zeros: "\<exists>p m1. list_prepend_zeros m h Result k = Some (p, m1) \<and> lst m1 (operands \<union> res_nodes 0 k) p (replicate k 0 @ zs) \<and> same_on operands m m1"
    if "lst m operands h zs" "k \<le> MAX_OPERAND_DIGITS" for h zs k
    using prepend_loop_eq[of 0 k m h zs] that assms(1) by (simp add: list_prepend_zeros_def mem_ok_def res_nodes_def)
  have up: "lst m' (operands \<union> S) h zs" if "lst m operands h zs" "same_on operands m m'" for m' S h zs
    using lst_mono[OF _ lst_frame[OF that(2,1)]] by blast
  consider "length xs = length ys" | "length xs < length ys" | "length ys < length xs" by linarith
  then show ?thesis
  proof cases
    case 1
    then show ?thesis using assms up[of _ _ m] by (simp add: pad_def)
  next
    case 2
    let ?k = "length ys - length xs"
    obtain p m1 where p: "list_prepend_zeros m h1 Result ?k = Some (p, m1)" "lst m1 (operands \<union> res_nodes 0 ?k) p (replicate ?k 0 @ xs)" "same_on operands m m1"
      using zeros[OF assms(2) le_trans[OF diff_le_self assms(5)]] by blast
    then have "length (m1 Result) = MAX_OPERAND_DIGITS + 2" using assms(1) by (simp add: same_on_def mem_ok_def)
    then show ?thesis using 2 p up[OF assms(3) p(3)] assms(5) by (simp add: pad_def)
  next
    case 3
    let ?k = "length xs - length ys"
    obtain p m1 where p: "list_prepend_zeros m h2 Result ?k = Some (p, m1)" "lst m1 (operands \<union> res_nodes 0 ?k) p (replicate ?k 0 @ ys)" "same_on operands m m1"
      using zeros[OF assms(3) le_trans[OF diff_le_self assms(4)]] by blast
    then have "length (m1 Result) = MAX_OPERAND_DIGITS + 2" using assms(1) by (simp add: same_on_def mem_ok_def)
    then show ?thesis using 3 p up[OF assms(2) p(3)] assms(4) by (simp add: pad_def)
  qed
qed

lemma bigint_sum_eq:
  assumes m: "mem_ok m" "lst m operands h1 xs" "lst m operands h2 ys" "length xs \<le> MAX_OPERAND_DIGITS" "length ys \<le> MAX_OPERAND_DIGITS"
    and d: "digits xs" "digits ys" "xs \<noteq> []"
  shows "if nodes_needed xs ys \<le> MAX_OPERAND_DIGITS + 2
    then \<exists>p m' S. bigint_sum m h1 h2 Result = Some (p, m') \<and> lst m' S p (sum_list_of xs ys) \<and> mem_ok m'
    else bigint_sum m h1 h2 Result = None"
proof -
  let ?x = "pad (length ys) xs" let ?y = "pad (length xs) ys" let ?n = "max (length xs) (length ys)"
  obtain off p1 p2 m1 where o: "(if length xs \<noteq> length ys
             then (if length xs < length ys
                   then do { (p, m1) \<leftarrow> list_prepend_zeros m h1 Result (length ys - length xs); Some (length ys - length xs, p, h2, m1) }
                   else do { (p, m1) \<leftarrow> list_prepend_zeros m h2 Result (length xs - length ys); Some (length xs - length ys, h1, p, m1) })
             else Some (0, h1, h2, m)) = Some (off, p1, p2, m1)"
    "off = (length xs - length ys) + (length ys - length xs)" "off \<le> length (m1 Result)" "same_on operands m m1"
    "lst m1 (operands \<union> res_nodes 0 off) p1 ?x" "lst m1 (operands \<union> res_nodes 0 off) p2 ?y" using pads_ok[OF m] by blast
  obtain c zs where z: "add_digits ?x ?y = (c, zs)" by (cases "add_digits ?x ?y")
  have dp: "digits ?x" "digits ?y" "length ?x = length ?y" using d by (simp_all add: pad_def)
  have c: "c = 0 \<or> c = 1" "length zs = ?n" using add_digits_spec[OF dp(3,1,2)] z by auto
  have len: "length (m1 Result) = MAX_OPERAND_DIGITS + 2" using o(4) m(1) by (simp add: same_on_def mem_ok_def)
  have ok1: "mem_ok m1" using o(4) m(1) by (simp add: same_on_def mem_ok_def)
  have aux: "sum_ok off ?n m1 c zs (bigint_sum_aux m1 p1 p2 Result off)"
    using bigint_sum_aux_ok[OF o(5,6) dp(3,1,2) o(3)] z by (simp add: max.commute)
  have need: "nodes_needed xs ys = off + ?n + (if c = 0 then 0 else 1)" using z c(2) o(2) by (simp add: nodes_needed_def sum_list_of_def)
  have start: "bigint_sum m h1 h2 Result = do { (res, m2) \<leftarrow> bigint_sum_aux m1 p1 p2 Result off;
          if carry res \<noteq> 0
          then do { m3 \<leftarrow> set_node m2 Result (off + buff_i res) (\<lambda>n. n\<lparr>bi_next := next_head res\<rparr>);
                    m4 \<leftarrow> set_node m3 Result (off + buff_i res) (\<lambda>n. n\<lparr>bi_value := (carry res + 2 ^ 31) mod 2 ^ 32 - 2 ^ 31\<rparr>);
                    Some (Some (Result, off + buff_i res), m4) }
          else Some (next_head res, m2) }"
    unfolding bigint_sum_def list_length_eq[OF m(2)] list_length_eq[OF m(3)] bind.bind_lunit o(1) by simp
  show ?thesis
  proof (cases "off + ?n \<le> MAX_OPERAND_DIGITS + 2")
    case False
    then show ?thesis using start need aux len by (simp add: sum_ok_def)
  next
    case True
    then obtain r m2 where r: "bigint_sum_aux m1 p1 p2 Result off = Some (r, m2)" "carry r = c" "buff_i r = ?n"
      "lst m2 (res_nodes off (off + ?n)) (next_head r) zs" "same_on (operands \<union> res_nodes 0 off) m1 m2" using aux len by (auto simp: sum_ok_def)
    have ok2: "mem_ok m2" using r(5) ok1 by (simp add: same_on_def mem_ok_def)
    show ?thesis
    proof (cases "c = 0")
      case c0: True
      then have "bigint_sum m h1 h2 Result = Some (next_head r, m2)" using start r(1,2) by simp
      then show ?thesis using need c0 True r(4) ok2 z by (auto simp: sum_list_of_def)
    next
      case False
      then have c1: "c = 1" using c(1) by simp
      let ?j = "off + ?n"
      let ?m = "m2(Result := (m2 Result)[?j := \<lparr>bi_value = 1, bi_next = next_head r\<rparr>])"
      have e: "bigint_sum m h1 h2 Result = (if ?j < length (m2 Result) then Some (Some (Result, ?j), ?m) else None)"
        using start r(1-3) c1 by (simp add: set_node_eq set_node_None node_eta')
      have nj: "(Result, ?j) \<notin> res_nodes off ?j" by (simp add: res_nodes_def)
      have "lst ?m (insert (Result, ?j) (res_nodes off ?j)) (Some (Result, ?j)) (1 # zs)" if "?j < length (m2 Result)"
        using lst_push(1)[OF r(4) that nj refl] .
      moreover have "mem_ok ?m" using ok2 by (simp add: mem_ok_def)
      moreover have "length (m2 Result) = MAX_OPERAND_DIGITS + 2" using ok2 by (simp add: mem_ok_def)
      ultimately show ?thesis using need e c1 z by (auto simp: sum_list_of_def)
    qed
  qed
qed

end
