(* ===== verification/Bigint_Main.thy ===== *)
theory Bigint_Main
  imports Bigint_Proofs
begin

text \<open>
  The program that adds lists of digits as a whole: reading the operands into the arrays, and what it prints.
\<close>

subsection \<open>Reading an operand\<close>

definition digits_text :: "int list \<Rightarrow> string" where
  "digits_text ks = concat (map (\<lambda>k. show_int k @ '' '') ks)"

text \<open>The first \<open>i\<close> nodes of the array have been read.\<close>

definition linked_digits :: "bi_mem \<Rightarrow> arr \<Rightarrow> int list \<Rightarrow> nat \<Rightarrow> bool" where
  "linked_digits m a ds i \<longleftrightarrow> (\<forall>j<i. bi_value (m a ! j) = ds ! j \<and> (j + 1 < i \<longrightarrow> bi_next (m a ! j) = Some (a, j + 1)))"

definition only_in :: "arr \<Rightarrow> bi_mem \<Rightarrow> bi_mem \<Rightarrow> bool" where
  "only_in a m m' \<longleftrightarrow> length (m' a) = length (m a) \<and> (\<forall>b. b \<noteq> a \<longrightarrow> m' b = m b)"

lemma only_in_trans: "only_in a m m1 \<Longrightarrow> only_in a m1 m2 \<Longrightarrow> only_in a m m2"
  by (simp add: only_in_def)

lemma only_in_upd [simp]: "only_in a m (m(a := (m a)[i := n]))"
  by (simp add: only_in_def)

lemma read_step:
  assumes "linked_digits m a ds i" "i < length (m a)"
  shows "\<exists>m'. do { m1 \<leftarrow> set_node m a i (\<lambda>n. n\<lparr>bi_value := ds ! i\<rparr>);
      if i > 0 then set_node m1 a (i - 1) (\<lambda>n. n\<lparr>bi_next := Some (a, i)\<rparr>) else Some m1 } = Some m' \<and> linked_digits m' a ds (i + 1) \<and> only_in a m m'"
proof -
  let ?m1 = "m(a := (m a)[i := (m a ! i)\<lparr>bi_value := ds ! i\<rparr>])"
  have l1: "bi_value (?m1 a ! j) = ds ! j" "bi_next (?m1 a ! j) = bi_next (m a ! j)" if "j < i + 1" for j
    using that assms by (cases "j = i"; simp add: linked_digits_def)+
  show ?thesis
  proof (cases i)
    case 0
    then show ?thesis using assms(2) l1(1)[of 0] by (simp add: set_node_eq linked_digits_def)
  next
    case (Suc k)
    let ?m' = "?m1(a := (?m1 a)[k := (?m1 a ! k)\<lparr>bi_next := Some (a, i)\<rparr>])"
    have "linked_digits ?m' a ds (i + 1)" unfolding linked_digits_def
    proof (intro allI impI conjI)
      fix j assume j: "j < i + 1"
      show "bi_value (?m' a ! j) = ds ! j" using l1(1)[OF j] assms(2) Suc by (cases "j = k") simp_all
      assume j1: "j + 1 < i + 1"
      show "bi_next (?m' a ! j) = Some (a, j + 1)"
        using l1(2)[OF j] assms j1 Suc by (cases "j = k") (simp_all add: linked_digits_def)
    qed
    moreover have "only_in a m ?m'" using only_in_trans[OF only_in_upd only_in_upd] .
    ultimately show ?thesis using assms(2) Suc by (simp add: set_node_eq)
  qed
qed

lemma read_list_loop_eq:
  "linked_digits m a ds i \<Longrightarrow> i + k = length ds \<Longrightarrow> length ds \<le> length (m a) \<Longrightarrow> list_all isspace ws \<Longrightarrow> list_all in_int ds \<Longrightarrow> no_digit rest \<Longrightarrow>
    \<exists>m' ws'. read_list_loop m (ws @ digits_text (drop i ds) @ rest) a i k = Some (m', ws' @ rest) \<and> list_all isspace ws'
      \<and> linked_digits m' a ds (length ds) \<and> only_in a m m'"
proof (induction k arbitrary: i m ws)
  case 0
  then show ?case by (intro exI[of _ m] exI[of _ ws]) (simp add: digits_text_def only_in_def)
next
  case (Suc k)
  have i: "i < length ds" "i < length (m a)" using Suc.prems(2,3) by simp_all
  have "drop i ds = ds ! i # drop (i + 1) ds" using i(1) by (simp add: Cons_nth_drop_Suc)
  then have t: "digits_text (drop i ds) = show_int (ds ! i) @ '' '' @ digits_text (drop (i + 1) ds)" by (simp add: digits_text_def)
  have "in_int (ds ! i)" using Suc.prems(5) i(1) by (simp add: list_all_length)
  then have sc: "scanf ''%d'' (ws @ digits_text (drop i ds) @ rest)
      = Some \<lparr>sr_args = [IntA (ds ! i)], sr_eof = False, sr_rest = '' '' @ digits_text (drop (i + 1) ds) @ rest\<rparr>"
    using scanf_d_elem[OF Suc.prems(4), of "'' '' @ digits_text (drop (i + 1) ds) @ rest" "ds ! i"] unfolding t by simp
  obtain m1 where m1: "do { m1 \<leftarrow> set_node m a i (\<lambda>n. n\<lparr>bi_value := ds ! i\<rparr>);
      if i > 0 then set_node m1 a (i - 1) (\<lambda>n. n\<lparr>bi_next := Some (a, i)\<rparr>) else Some m1 } = Some m1" "linked_digits m1 a ds (i + 1)" "only_in a m m1"
    using read_step[OF Suc.prems(1) i(2)] by blast
  have len: "i + 1 + k = length ds" "length ds \<le> length (m1 a)" using Suc.prems(2,3) m1(3) by (simp_all add: only_in_def)
  obtain m' ws' where m': "read_list_loop m1 ('' '' @ digits_text (drop (i + 1) ds) @ rest) a (i + 1) k = Some (m', ws' @ rest)"
    "list_all isspace ws'" "linked_digits m' a ds (length ds)" "only_in a m1 m'"
    using Suc.IH[OF m1(2) len _ Suc.prems(5,6), of "'' ''"] by auto
  have "read_list_loop m (ws @ digits_text (drop i ds) @ rest) a i (Suc k) = Some (m', ws' @ rest)"
    using sc m1(1) m'(1) by (auto simp: bind_eq_Some_conv)
  then show ?case using m'(2,3) only_in_trans[OF m1(3) m'(4)] by blast
qed

lemma linked_digits_lst:
  assumes "\<And>j. j < length ds \<Longrightarrow> bi_value (m a ! j) = ds ! j" "length ds \<le> length (m a)"
    and "\<And>j. j + 1 < length ds \<Longrightarrow> bi_next (m a ! j) = Some (a, j + 1)" "ds \<noteq> [] \<Longrightarrow> bi_next (m a ! (length ds - 1)) = None"
  shows "i < length ds \<Longrightarrow> lst m {p. fst p = a} (Some (a, i)) (drop i ds)"
proof (induction "length ds - i" arbitrary: i)
  case (Suc k)
  have d: "drop i ds = ds ! i # drop (i + 1) ds" using Suc.prems by (simp add: Cons_nth_drop_Suc)
  show ?case
  proof (cases "i + 1 < length ds")
    case True
    then have "lst m {p. fst p = a} (Some (a, i + 1)) (drop (i + 1) ds)" using Suc.hyps by (intro Suc.hyps(1)) simp_all
    then show ?thesis unfolding d using Suc.prems assms(1,2) assms(3)[OF True] by simp
  next
    case False
    then have "i = length ds - 1" "ds \<noteq> []" using Suc.prems by auto
    moreover have "i < length (m a)" using Suc.prems assms(2) by simp
    ultimately have "bi_next (m a ! i) = None" "i < length (m a)" "drop (i + 1) ds = []" using assms(4) by simp_all
    then show ?thesis unfolding d using assms(1)[OF Suc.prems] by simp
  qed
qed simp

lemma read_list_eq:
  assumes "ds \<noteq> []" "length ds \<le> length (m a)" "list_all isspace ws" "list_all in_int ds" "no_digit rest"
  shows "\<exists>m' ws'. read_list m (ws @ digits_text ds @ rest) a (length ds) = Some (m', ws' @ rest) \<and> list_all isspace ws'
    \<and> lst m' {p. fst p = a} (Some (a, 0)) ds \<and> only_in a m m'"
proof -
  obtain m1 ws' where m1: "read_list_loop m (ws @ digits_text ds @ rest) a 0 (length ds) = Some (m1, ws' @ rest)" "list_all isspace ws'"
    "linked_digits m1 a ds (length ds)" "only_in a m m1"
    using read_list_loop_eq[of m a ds 0 "length ds" ws rest] assms(2-5) by (auto simp: linked_digits_def)
  let ?l = "length ds - 1"
  let ?m2 = "m1(a := (m1 a)[?l := (m1 a ! ?l)\<lparr>bi_next := None\<rparr>])"
  have l: "?l < length (m1 a)" "length ds \<le> length (m1 a)" using assms(1,2) m1(4) by (cases ds; simp add: only_in_def)+
  have v: "bi_value (?m2 a ! j) = ds ! j" "j \<noteq> ?l \<Longrightarrow> bi_next (?m2 a ! j) = bi_next (m1 a ! j)" if "j < length ds" for j
    using that m1(3) l by (cases "j = ?l"; simp add: linked_digits_def)+
  have "lst ?m2 {p. fst p = a} (Some (a, 0)) (drop 0 ds)"
  proof (rule linked_digits_lst)
    show "bi_next (?m2 a ! j) = Some (a, j + 1)" if "j + 1 < length ds" for j
    proof -
      have "j < length ds" "j \<noteq> ?l" using that by simp_all
      then show ?thesis using v(2)[of j] m1(3) that by (simp add: linked_digits_def)
    qed
  qed (use v(1) l assms(1) in simp_all)
  moreover have "only_in a m ?m2" using only_in_trans[OF m1(4) only_in_upd] .
  moreover have "read_list m (ws @ digits_text ds @ rest) a (length ds) = Some (?m2, ws' @ rest)"
    using m1(1) assms(1) l(1) by (simp add: read_list_def set_node_eq)
  ultimately show ?thesis using m1(2) by auto
qed

subsection \<open>The program\<close>

text \<open>Two operands of at most 1024 digits; they fit if the nodes of the zeros and of the sum fit the third array.\<close>

definition bi_case_ok :: "int list \<times> int list \<Rightarrow> bool" where
  "bi_case_ok c \<longleftrightarrow> fst c \<noteq> [] \<and> snd c \<noteq> [] \<and> digits (fst c) \<and> digits (snd c)
     \<and> length (fst c) \<le> MAX_OPERAND_DIGITS \<and> length (snd c) \<le> MAX_OPERAND_DIGITS"

definition bi_fits :: "int list \<times> int list \<Rightarrow> bool" where
  "bi_fits c \<longleftrightarrow> nodes_needed (fst c) (snd c) \<le> MAX_OPERAND_DIGITS + 2"

definition bi_case_text :: "int list \<times> int list \<Rightarrow> string" where
  "bi_case_text c = show_nat (length (fst c)) @ '' '' @ show_nat (length (snd c)) @ ''\<newline>'' @ digits_text (fst c) @ ''\<newline>''
     @ digits_text (snd c) @ ''\<newline>''"

fun list_text :: "int list \<Rightarrow> string" where
  "list_text [] = []"
| "list_text (k # ks) = show_int k @ concat (map (\<lambda>k. '' -> '' @ show_int k) ks) @ ''\<newline>''"

definition bi_case_out :: "int list \<times> int list \<Rightarrow> string" where
  "bi_case_out c = [CHR 0x09] @ list_text (fst c) @ [CHR ''+'', CHR 0x09] @ list_text (snd c) @ bi_rule
     @ [CHR 0x09] @ list_text (sum_list_of (fst c) (snd c)) @ ''\<newline>''"

lemma digits_in_int: "digits xs \<Longrightarrow> list_all in_int xs"
  by (auto simp: digits_def list_all_iff in_int_def INT_MIN_def INT_MAX_def)

lemma print_lst: "lst m S p xs \<Longrightarrow> xs \<noteq> [] \<Longrightarrow> print_list m p = Some (list_text xs)"
  using print_list_eq by (cases xs) auto

lemma scan_sizes:
  assumes "list_all isspace ws" "n < 2 ^ 64" "k < 2 ^ 64"
  shows "scanf ''%zu%zu'' (ws @ show_nat n @ '' '' @ show_nat k @ ''\<newline>'' @ r)
    = Some \<lparr>sr_args = [IntA (int n), IntA (int k)], sr_eof = False, sr_rest = ''\<newline>'' @ r\<rparr>"
  using scanf_zu_show[OF assms(1) _ assms(2), of "'' '' @ show_nat k @ ''\<newline>'' @ r" "''%zu''"]
    scanf_zu_elem[of "'' ''" "''\<newline>'' @ r" k] assms(3) by (simp add: scan_push_def)

text \<open>Reading both operands.\<close>

lemma read_operands:
  assumes "mem_ok m" "bi_case_ok (xs, ys)"
  shows "\<exists>m1 s1 m2 ws. read_list m (''\<newline>'' @ digits_text xs @ ''\<newline>'' @ digits_text ys @ ''\<newline>'' @ r) Operand1 (length xs) = Some (m1, s1)
    \<and> read_list m1 s1 Operand2 (length ys) = Some (m2, ws @ r) \<and> list_all isspace ws \<and> mem_ok m2
    \<and> lst m2 operands (Some (Operand1, 0)) xs \<and> lst m2 operands (Some (Operand2, 0)) ys"
proof -
  have c: "xs \<noteq> []" "ys \<noteq> []" "list_all in_int xs" "list_all in_int ys" "length xs \<le> MAX_OPERAND_DIGITS" "length ys \<le> MAX_OPERAND_DIGITS"
    using assms(2) digits_in_int by (simp_all add: bi_case_ok_def)
  obtain m1 w1 where m1: "read_list m (''\<newline>'' @ digits_text xs @ ''\<newline>'' @ digits_text ys @ ''\<newline>'' @ r) Operand1 (length xs)
      = Some (m1, w1 @ ''\<newline>'' @ digits_text ys @ ''\<newline>'' @ r)" "list_all isspace w1"
    "lst m1 {p. fst p = Operand1} (Some (Operand1, 0)) xs" "only_in Operand1 m m1"
    using read_list_eq[OF c(1) _ _ c(3), of m Operand1 "''\<newline>''" "''\<newline>'' @ digits_text ys @ ''\<newline>'' @ r"] c(5) assms(1) by (auto simp: mem_ok_def)
  have len: "length ys \<le> length (m1 Operand2)" "list_all isspace (w1 @ ''\<newline>'')" using m1(2,4) c(6) assms(1) by (simp_all add: mem_ok_def only_in_def)
  obtain m2 w2 where m2: "read_list m1 ((w1 @ ''\<newline>'') @ digits_text ys @ ''\<newline>'' @ r) Operand2 (length ys) = Some (m2, w2 @ ''\<newline>'' @ r)"
    "list_all isspace w2" "lst m2 {p. fst p = Operand2} (Some (Operand2, 0)) ys" "only_in Operand2 m1 m2"
    using read_list_eq[of ys m1 Operand2 "w1 @ ''\<newline>''" "''\<newline>'' @ r"] c(2,4) len by auto
  have "same_on {p. fst p = Operand1} m1 m2" using m2(4) unfolding same_on_def only_in_def by (metis (mono_tags, lifting) arr.distinct(1) case_prodI2 fst_conv mem_Collect_eq)
  from lst_frame[OF this m1(3)] have "lst m2 operands (Some (Operand1, 0)) xs" by (rule lst_mono[rotated]) (auto simp: operands_def)
  moreover have "lst m2 operands (Some (Operand2, 0)) ys" by (rule lst_mono[OF _ m2(3)]) (auto simp: operands_def)
  moreover have "mem_ok m2" using assms(1) m1(4) m2(4) by (simp add: mem_ok_def only_in_def)
  ultimately show ?thesis using m1(1) m2(1,2)
    by (intro exI[of _ m1] exI[of _ "w1 @ ''\<newline>'' @ digits_text ys @ ''\<newline>'' @ r"] exI[of _ m2] exI[of _ "w2 @ ''\<newline>''"]) simp
qed

lemma bi_step:
  assumes "mem_ok m" "bi_case_ok c" "list_all isspace ws"
  shows "if bi_fits c
    then \<exists>m' ws'. bi_loop m (ws @ bi_case_text c @ r) = do { out \<leftarrow> bi_loop m' (ws' @ r); Some (bi_case_out c @ out) }
      \<and> mem_ok m' \<and> list_all isspace ws'
    else bi_loop m (ws @ bi_case_text c @ r) = None"
proof -
  obtain xs ys where c: "c = (xs, ys)" by (cases c)
  have ok: "xs \<noteq> []" "ys \<noteq> []" "digits xs" "digits ys" "length xs \<le> MAX_OPERAND_DIGITS" "length ys \<le> MAX_OPERAND_DIGITS"
    using assms(2) c by (simp_all add: bi_case_ok_def)
  let ?r = "digits_text xs @ ''\<newline>'' @ digits_text ys @ ''\<newline>'' @ r"
  have sz: "length xs < 2 ^ 64" "length ys < 2 ^ 64" using ok(5,6) by (simp_all add: MAX_OPERAND_DIGITS_def)
  have sc: "scanf ''%zu%zu'' (ws @ bi_case_text c @ r)
      = Some \<lparr>sr_args = [IntA (int (length xs)), IntA (int (length ys))], sr_eof = False, sr_rest = ''\<newline>'' @ ?r\<rparr>"
    using scan_sizes[OF assms(3) sz] c by (simp add: bi_case_text_def)
  obtain m1 s1 m2 ws' where rd: "read_list m (''\<newline>'' @ ?r) Operand1 (length xs) = Some (m1, s1)"
    "read_list m1 s1 Operand2 (length ys) = Some (m2, ws' @ r)" "list_all isspace ws'" "mem_ok m2"
    "lst m2 operands (Some (Operand1, 0)) xs" "lst m2 operands (Some (Operand2, 0)) ys" using read_operands[OF assms(1) assms(2)[unfolded c]] by blast
  note sum = bigint_sum_eq[OF rd(4-6) ok(5,6,3,4,1)]
  note pr = print_lst[OF rd(5) ok(1)] print_lst[OF rd(6) ok(2)]
  show ?thesis
  proof (cases "bi_fits c")
    case True
    then obtain p m3 S where s: "bigint_sum m2 (Some (Operand1, 0)) (Some (Operand2, 0)) Result = Some (p, m3)"
      "lst m3 S p (sum_list_of xs ys)" "mem_ok m3" using sum c by (auto simp: bi_fits_def)
    have "length (sum_list_of xs ys) \<noteq> 0" using sum_list_of_spec(3)[OF ok(3,4)] ok(1) by simp
    then have "print_list m3 p = Some (list_text (sum_list_of xs ys))" by (intro print_lst[OF s(2)]) auto
    then have "bi_loop m (ws @ bi_case_text c @ r) = do { out \<leftarrow> bi_loop m3 (ws' @ r); Some (bi_case_out c @ out) }"
      using sc rd(1,2) pr s(1) c by (subst bi_loop.simps) (simp add: bi_case_out_def)
    then show ?thesis using True s(3) rd(3) by auto
  next
    case False
    then have "bigint_sum m2 (Some (Operand1, 0)) (Some (Operand2, 0)) Result = None" using sum c by (simp add: bi_fits_def)
    then show ?thesis using False sc rd(1,2) pr by (subst bi_loop.simps) simp
  qed
qed

lemma bi_loop_cases:
  "list_all bi_case_ok cs \<Longrightarrow> list_all bi_fits cs \<Longrightarrow> mem_ok m \<Longrightarrow> list_all isspace ws \<Longrightarrow>
    \<exists>m' ws'. bi_loop m (ws @ concat (map bi_case_text cs) @ r) = do { out \<leftarrow> bi_loop m' (ws' @ r); Some (concat (map bi_case_out cs) @ out) }
      \<and> mem_ok m' \<and> list_all isspace ws'"
proof (induction cs arbitrary: m ws)
  case Nil
  then show ?case by (intro exI[of _ m] exI[of _ ws]) (simp add: bind_eq_Some_conv)
next
  case (Cons c cs)
  let ?t = "concat (map bi_case_text cs) @ r"
  have c: "bi_case_ok c" "bi_fits c" using Cons.prems(1,2) by simp_all
  obtain m1 w1 where m1: "bi_loop m (ws @ bi_case_text c @ ?t) = do { out \<leftarrow> bi_loop m1 (w1 @ ?t); Some (bi_case_out c @ out) }"
    "mem_ok m1" "list_all isspace w1" using bi_step[OF Cons.prems(3) c(1) Cons.prems(4), of ?t] c(2) by auto
  obtain m2 w2 where m2: "bi_loop m1 (w1 @ ?t) = do { out \<leftarrow> bi_loop m2 (w2 @ r); Some (concat (map bi_case_out cs) @ out) }"
    "mem_ok m2" "list_all isspace w2" using Cons.IH[OF _ _ m1(2,3)] Cons.prems(1,2) by auto
  have "bi_loop m (ws @ concat (map bi_case_text (c # cs)) @ r) = do { out \<leftarrow> bi_loop m2 (w2 @ r); Some (concat (map bi_case_out (c # cs)) @ out) }"
    using m1(1) m2(1) by (simp add: bind_assoc)
  then show ?case using m2(2,3) by blast
qed

lemma bi_loop_end: "list_all isspace ws \<Longrightarrow> bi_loop m ws = Some []"
proof -
  assume w: "list_all isspace ws"
  have "scanf ''%zu%zu'' ws = Some \<lparr>sr_args = [], sr_eof = True, sr_rest = []\<rparr>" using w by (simp add: scanf_eval scan_num_all skip_ws_all)
  then show ?thesis by (subst bi_loop.simps) simp
qed

lemma mem_ok_start: "mem_ok bi_start"
  by (simp add: mem_ok_def bi_start_def)

text \<open>
  Property C26: the program prints, for every pair of operands that fits, the operands and the digits of their sum; it writes
  behind the end of its third array at the first pair that does not. The digits printed are those of the sum, as
  many as the longer operand has and one more if the sum needs it.
\<close>

theorem bigint_main_correct:
  "(\<forall>cs. list_all bi_case_ok cs \<and> list_all bi_fits cs \<longrightarrow>
      bi_main (concat (map bi_case_text cs)) = Some (bi_banner @ concat (map bi_case_out cs)))
   \<and> (\<forall>cs c r. list_all bi_case_ok cs \<and> list_all bi_fits cs \<and> bi_case_ok c \<and> \<not> bi_fits c \<longrightarrow>
      bi_main (concat (map bi_case_text cs) @ bi_case_text c @ r) = None)
   \<and> (\<forall>xs ys. digits xs \<and> digits ys \<longrightarrow> digits (sum_list_of xs ys) \<and> number (sum_list_of xs ys) = number xs + number ys
      \<and> length (sum_list_of xs ys) = max (length xs) (length ys) + (if number xs + number ys < 10 ^ max (length xs) (length ys) then 0 else 1))"
proof (intro conjI allI impI)
  fix cs assume "list_all bi_case_ok cs \<and> list_all bi_fits cs"
  then obtain m' ws' where "bi_loop bi_start ([] @ concat (map bi_case_text cs) @ []) = do { out \<leftarrow> bi_loop m' (ws' @ []); Some (concat (map bi_case_out cs) @ out) }"
    "list_all isspace ws'" using bi_loop_cases[OF _ _ mem_ok_start, of cs "[]" "[]"] by auto
  then show "bi_main (concat (map bi_case_text cs)) = Some (bi_banner @ concat (map bi_case_out cs))"
    using bi_loop_end[of ws' m'] by (simp add: bi_main_def)
next
  fix cs c r assume a: "list_all bi_case_ok cs \<and> list_all bi_fits cs \<and> bi_case_ok c \<and> \<not> bi_fits c"
  then obtain m' ws' where "bi_loop bi_start ([] @ concat (map bi_case_text cs) @ bi_case_text c @ r)
      = do { out \<leftarrow> bi_loop m' (ws' @ bi_case_text c @ r); Some (concat (map bi_case_out cs) @ out) }" "mem_ok m'" "list_all isspace ws'"
    using bi_loop_cases[OF _ _ mem_ok_start, of cs "[]" "bi_case_text c @ r"] by auto
  then show "bi_main (concat (map bi_case_text cs) @ bi_case_text c @ r) = None"
    using bi_step[of m' c ws' r] a by (simp add: bi_main_def)
qed (use sum_list_of_spec in auto)

theorem bigint_main_correct_witness:
  "(\<exists>t. bi_main ''3 2\<newline>6 1 7 \<newline>9 5 \<newline>'' = Some (bi_banner @ t) \<and> number (sum_list_of [6, 1, 7] [9, 5]) = 712)
   \<and> bi_main (bi_case_text (replicate 1000 1, [1])) = None"
proof
  have "list_all bi_case_ok [([6, 1, 7], [9, 5])]" "list_all bi_fits [([6, 1, 7], [9, 5])]"
    by (simp_all add: bi_case_ok_def bi_fits_def digits_def MAX_OPERAND_DIGITS_def nodes_needed_def sum_list_of_def pad_def)
  moreover have "concat (map bi_case_text [([6, 1, 7], [9, 5])]) = ''3 2\<newline>6 1 7 \<newline>9 5 \<newline>''"
    by (simp add: bi_case_text_def digits_text_def show_eval)
  ultimately show "\<exists>t. bi_main ''3 2\<newline>6 1 7 \<newline>9 5 \<newline>'' = Some (bi_banner @ t) \<and> number (sum_list_of [6, 1, 7] [9, 5]) = 712"
    using conjunct1[OF bigint_main_correct, rule_format, of "[([6, 1, 7], [9, 5])]"] conjunct2[OF conjunct2[OF bigint_main_correct], rule_format, of "[6, 1, 7]" "[9, 5]"]
    by (simp add: digits_def)
  have d: "digits (replicate 1000 1)" "digits [1]" by (simp_all add: digits_def list_all_iff)
  have "length (sum_list_of (replicate 1000 1) [1]) \<ge> max (length (replicate 1000 (1::int))) (length [1::int])"
    unfolding conjunct2[OF conjunct2[OF conjunct2[OF conjunct2[OF bigint_main_correct], rule_format, OF conjI[OF d]]]] by (rule le_add1)
  then have "length (sum_list_of (replicate 1000 1) [1]) \<ge> 1000" unfolding length_replicate by (rule order.trans[rotated]) simp
  then have "\<not> bi_fits (replicate 1000 1, [1])" by (simp add: bi_fits_def nodes_needed_def MAX_OPERAND_DIGITS_def)
  moreover have "bi_case_ok (replicate 1000 1, [1])" using d by (simp add: bi_case_ok_def MAX_OPERAND_DIGITS_def)
  ultimately show "bi_main (bi_case_text (replicate 1000 1, [1])) = None"
    using conjunct1[OF conjunct2[OF bigint_main_correct], rule_format, of "[]" "(replicate 1000 1, [1])" "[]"] by simp
qed

end
