(* ===== verification/Long_Division.thy ===== *)
theory Long_Division
  imports C_Stdio "HOL-Library.Word"
begin

text \<open>
  \<open>bit_manipulation/division/solution.c\<close>: division of \<open>int\<close> by shifting and subtracting, one bit of the dividend at a
  time. It gives the quotient rounded towards zero whenever neither operand is the least \<open>int\<close> and the divisor is
  not zero, and has no defined behaviour otherwise.
\<close>

unbundle bit_operations_syntax

subsection \<open>The program\<close>

text \<open>A left shift of an \<open>int\<close> by one, and its bitwise \<open>or\<close> with a truth value.\<close>

definition shift_in :: "int \<Rightarrow> bool \<Rightarrow> int c" where
  "shift_in x b = (if x < 0 then None else do { y \<leftarrow> c_int (2 * x); Some (y OR (if b then 1 else 0)) })"

lemma shift_less: "msk \<noteq> 0 \<Longrightarrow> unat (drop_bit 1 msk) < unat msk" for msk :: "32 word"
proof -
  assume "msk \<noteq> 0"
  then have "0 < unat msk" by (simp add: unat_gt_0)
  then have "drop_bit 1 (unat msk) < unat msk" unfolding drop_bit_eq_div by simp
  then show ?thesis unfolding unat_drop_bit_eq .
qed

function divide_loop :: "32 word \<Rightarrow> int \<Rightarrow> int \<Rightarrow> int \<Rightarrow> int \<Rightarrow> int c" where
  "divide_loop msk dividend divisor res divd =
     (if msk \<noteq> 0
      then do { divd1 \<leftarrow> shift_in divd (word_of_int dividend AND msk \<noteq> 0);
                if divd1 < divisor
                then do { res1 \<leftarrow> shift_in res False;
                          divide_loop (drop_bit 1 msk) dividend divisor res1 divd1 }
                else do { res1 \<leftarrow> shift_in res True;
                          divd2 \<leftarrow> c_int (divd1 - divisor);
                          divide_loop (drop_bit 1 msk) dividend divisor res1 divd2 } }
      else Some res)"
  by pat_completeness auto
termination
  by (relation "measure (\<lambda>(msk, _). unat msk)") (simp_all add: shift_less[simplified])

declare divide_loop.simps [simp del]

definition divide :: "int \<Rightarrow> int \<Rightarrow> int c" where
  "divide dividend divisor =
     do { let sg = (if (dividend < 0) \<noteq> (divisor < 0) then - 1 else 1);
          a \<leftarrow> (if dividend < 0 then c_int (- dividend) else Some dividend);
          b \<leftarrow> (if divisor < 0 then c_int (- divisor) else Some divisor);
          res \<leftarrow> divide_loop (NOT (drop_bit 1 (NOT 0))) a b 0 0;
          c_int (res * sg) }"

partial_function (option) divide_main_loop :: "string \<Rightarrow> string option" where
  "divide_main_loop s =
     do { r \<leftarrow> scanf ''%d%d'' s;
          if scan_ret r = 2
          then do { q \<leftarrow> divide (arg_int (sr_args r ! 0)) (arg_int (sr_args r ! 1));
                    out \<leftarrow> divide_main_loop (sr_rest r);
                    Some (printf ''%d\<newline>'' [IntA q] @ printf ''> '' [] @ out) }
          else Some [] }"

definition divide_main :: "string \<Rightarrow> string c" where
  "divide_main input =
     do { out \<leftarrow> divide_main_loop input; Some (printf ''Enter dividend and divisor\<newline>'' [] @ printf ''> '' [] @ out) }"

subsection \<open>One bit at a time\<close>

definition mask_of :: "nat \<Rightarrow> 32 word" where
  "mask_of n = (if n = 0 then 0 else push_bit (n - 1) 1)"

lemma bit_mask_of: "n < 32 \<Longrightarrow> bit (mask_of (Suc n)) i \<longleftrightarrow> i = n"
  by (auto simp: mask_of_def bit_simps)

lemma mask_of_step: "n < 32 \<Longrightarrow> mask_of (Suc n) \<noteq> 0 \<and> drop_bit 1 (mask_of (Suc n)) = mask_of n"
proof
  assume n: "n < 32"
  note bit = bit_mask_of[OF n]
  then show "mask_of (Suc n) \<noteq> 0" by (metis bit_0_eq bot_apply bot_bool_def)
  show "drop_bit 1 (mask_of (Suc n)) = mask_of n"
    by (rule bit_word_eqI) (use n in \<open>auto simp: bit_drop_bit_eq bit mask_of_def bit_simps\<close>)
qed

lemma mask_of_bit: "n < 32 \<Longrightarrow> word_of_int a AND mask_of (Suc n) \<noteq> 0 \<longleftrightarrow> bit a n"
proof -
  assume n: "n < 32"
  have b: "bit (word_of_int a AND mask_of (Suc n)) i \<longleftrightarrow> i = n \<and> bit a n" for i
    using n by (auto simp: mask_of_def bit_simps)
  then show ?thesis by (metis bit_0_eq bot_apply bot_bool_def bit_eq_iff)
qed

lemma shift_in_Some: "0 \<le> x \<Longrightarrow> 2 * x + of_bool b \<le> INT_MAX \<Longrightarrow> shift_in x b = Some (2 * x + of_bool b)"
  by (cases b) (simp_all add: shift_in_def c_int_def in_int_def INT_MIN_def INT_MAX_def or_one_eq)

lemma shift_in_None: "INT_MAX < 2 * x \<Longrightarrow> shift_in x b = None"
  by (simp add: shift_in_def c_int_def in_int_def)

lemma prefix_step: "a div 2 ^ n = 2 * (a div 2 ^ Suc n) + of_bool (bit a n)" for a :: int
proof -
  have "a div 2 ^ Suc n = (a div 2 ^ n) div 2" by (simp add: zdiv_zmult2_eq[symmetric] mult.commute)
  moreover have "of_bool (bit a n) = (a div 2 ^ n) mod 2" by (simp add: bit_iff_odd mod_2_eq_odd)
  ultimately show ?thesis by simp
qed

lemma div_mod_step:
  fixes A B :: int
  assumes "0 \<le> A" "0 < B" "t = 2 * (A mod B) + of_bool b"
  shows "t < B \<Longrightarrow> (2 * A + of_bool b) div B = 2 * (A div B) \<and> (2 * A + of_bool b) mod B = t"
    "B \<le> t \<Longrightarrow> (2 * A + of_bool b) div B = 2 * (A div B) + 1 \<and> (2 * A + of_bool b) mod B = t - B"
proof -
  have "2 * A + of_bool b = t + 2 * (B * (A div B))" using assms(3) mult_div_mod_eq[of B A] by linarith
  then have e: "2 * A + of_bool b = B * (2 * (A div B)) + t" "2 * A + of_bool b = B * (2 * (A div B) + 1) + (t - B)"
    by (simp_all add: algebra_simps)
  have t: "0 \<le> t" "t < 2 * B" using assms(3) pos_mod_bound[OF assms(2), of A] pos_mod_sign[OF assms(2), of A] by (cases b; simp)+
  show "(2 * A + of_bool b) div B = 2 * (A div B) \<and> (2 * A + of_bool b) mod B = t" if "t < B"
    using int_div_pos_eq[OF e(1) t(1) that] int_mod_pos_eq[OF e(1) t(1) that] by simp
  show "(2 * A + of_bool b) div B = 2 * (A div B) + 1 \<and> (2 * A + of_bool b) mod B = t - B" if "B \<le> t"
    using int_div_pos_eq[OF e(2)] int_mod_pos_eq[OF e(2)] that t(2) by simp
qed

lemma div_le: "0 \<le> x \<Longrightarrow> 0 < d \<Longrightarrow> x div d \<le> x" for x d :: int
  using zdiv_mono2[of x 1 d] by simp

text \<open>With \<open>n\<close> bits to go, the loop has divided the bits before them.\<close>

lemma divide_loop_eq:
  assumes a: "0 \<le> a" "a \<le> INT_MAX" and b: "0 < b" "b \<le> INT_MAX"
  shows "n \<le> 32 \<Longrightarrow> divide_loop (mask_of n) a b ((a div 2 ^ n) div b) ((a div 2 ^ n) mod b) = Some (a div b)"
proof (induction n)
  case 0
  show ?case by (subst divide_loop.simps) (simp add: mask_of_def)
next
  case (Suc n)
  let ?A = "a div 2 ^ Suc n" let ?t = "2 * (?A mod b) + of_bool (bit a n)"
  note m = mask_of_step[of n]
  have A: "0 \<le> ?A" "0 \<le> ?A mod b" "0 \<le> ?A div b" using a(1) b(1) by (simp_all add: div_int_pos_iff pos_imp_zdiv_nonneg_iff)
  have p: "a div 2 ^ n = 2 * ?A + of_bool (bit a n)" by (rule prefix_step)
  have le: "a div 2 ^ n \<le> INT_MAX" using div_le[OF a(1), of "2 ^ n"] a(2) by simp
  have "?A mod b \<le> ?A" by (rule zmod_le_nonneg_dividend[OF A(1)])
  then have t: "?t \<le> INT_MAX" "0 \<le> ?t" using le p A(2) by simp_all
  have s1: "shift_in (?A mod b) (word_of_int a AND mask_of (Suc n) \<noteq> 0) = Some ?t"
    using shift_in_Some[OF A(2)] t(1) mask_of_bit[of n a] Suc.prems by simp
  have "?A div b \<le> ?A" using div_le[OF A(1) b(1)] .
  then have q: "2 * (?A div b) \<le> INT_MAX" using le p by (cases "bit a n") simp_all
  show ?case
  proof (cases "?t < b")
    case True
    have "shift_in (?A div b) False = Some (2 * (?A div b))" using shift_in_Some[OF A(3), of False] q by simp
    then show ?thesis using s1 m Suc True div_mod_step(1)[OF A(1) b(1) refl True] p by (subst divide_loop.simps) simp
  next
    case False
    then have d: "(2 * ?A + of_bool (bit a n)) div b = 2 * (?A div b) + 1" "(2 * ?A + of_bool (bit a n)) mod b = ?t - b"
      using div_mod_step(2)[OF A(1) b(1) refl, of "bit a n"] by simp_all
    have "(a div 2 ^ n) div b \<le> INT_MAX" using div_le[of "a div 2 ^ n" b] le b(1) p A(1) by simp
    then have "2 * (?A div b) + 1 \<le> INT_MAX" using d(1) p by simp
    then have "shift_in (?A div b) True = Some (2 * (?A div b) + 1)" using shift_in_Some[OF A(3), of True] by simp
    moreover have "c_int (?t - b) = Some (?t - b)" using t b False by (simp add: c_int_def in_int_def INT_MIN_def INT_MAX_def)
    ultimately show ?thesis using s1 m Suc False d p by (subst divide_loop.simps) simp
  qed
qed

text \<open>By zero, a one is shifted into the result at every bit, until it overflows.\<close>

lemma divide_loop_zero:
  assumes a: "0 \<le> a" "a \<le> INT_MAX"
  shows "0 < n \<Longrightarrow> n \<le> 32 \<Longrightarrow> divide_loop (mask_of n) a 0 (2 ^ (32 - n) - 1) (a div 2 ^ n) = None"
proof (induction n)
  case (Suc n)
  let ?A = "a div 2 ^ Suc n"
  note m = mask_of_step[of n]
  have p: "a div 2 ^ n = 2 * ?A + of_bool (bit a n)" by (rule prefix_step)
  have "0 \<le> a div 2 ^ n" "a div 2 ^ n \<le> INT_MAX" using div_le[OF a(1), of "2 ^ n"] a by (simp_all add: pos_imp_zdiv_nonneg_iff)
  moreover have "0 \<le> ?A" using a(1) by (simp add: pos_imp_zdiv_nonneg_iff)
  ultimately have s1: "shift_in ?A (word_of_int a AND mask_of (Suc n) \<noteq> 0) = Some (a div 2 ^ n)" "\<not> a div 2 ^ n < 0"
    "c_int (a div 2 ^ n - 0) = Some (a div 2 ^ n)"
    using shift_in_Some[of ?A "bit a n"] mask_of_bit[of n a] p Suc.prems by (simp_all add: c_int_def in_int_def INT_MIN_def)
  let ?r = "2 ^ (32 - Suc n) - 1 :: int"
  show ?case
  proof (cases "n = 0")
    case True
    then have "shift_in ?r True = None" by (intro shift_in_None) (simp add: INT_MAX_def)
    then show ?thesis using s1 m Suc.prems by (subst divide_loop.simps) simp
  next
    case False
    have pow: "2 * ?r + 1 = 2 ^ (32 - n) - 1" using Suc.prems by (simp add: Suc_diff_Suc flip: power_Suc)
    have "(2 :: int) ^ (32 - n) \<le> 2 ^ 31" using False by (intro power_increasing) simp_all
    then have "shift_in ?r True = Some (2 ^ (32 - n) - 1)" using shift_in_Some[of ?r True] pow by (simp add: INT_MAX_def)
    then show ?thesis using s1 m Suc False by (subst divide_loop.simps) simp
  qed
qed simp

lemma mask_start: "NOT (drop_bit 1 (NOT 0)) = mask_of 32"
proof (rule bit_word_eqI)
  fix i assume "i < LENGTH(32)"
  then show "bit (NOT (drop_bit 1 (NOT 0)) :: 32 word) i \<longleftrightarrow> bit (mask_of 32) i"
    using bit_mask_of[of 31 i] by (auto simp: bit_simps)
qed

lemma divide_eq:
  assumes "in_int a" "in_int b"
  shows "divide a b = (if b = 0 \<or> a = INT_MIN \<or> b = INT_MIN then None else Some (cdiv a b))"
proof (cases "a = INT_MIN \<or> b = INT_MIN")
  case True
  then show ?thesis using assms by (auto simp: divide_def Let_def c_int_def in_int_def INT_MIN_def INT_MAX_def)
next
  case False
  let ?sg = "if (a < 0) \<noteq> (b < 0) then - 1 else 1 :: int"
  have abs: "(if a < 0 then c_int (- a) else Some a) = Some \<bar>a\<bar>" "(if b < 0 then c_int (- b) else Some b) = Some \<bar>b\<bar>"
    using assms False by (auto simp: c_int_def in_int_def INT_MIN_def INT_MAX_def)
  have r: "0 \<le> \<bar>a\<bar>" "\<bar>a\<bar> \<le> INT_MAX" "\<bar>b\<bar> \<le> INT_MAX" using assms False by (auto simp: in_int_def INT_MIN_def INT_MAX_def)
  have d: "divide a b = do { res \<leftarrow> divide_loop (mask_of 32) \<bar>a\<bar> \<bar>b\<bar> 0 0; c_int (res * ?sg) }"
    unfolding divide_def mask_start Let_def abs by simp
  have z: "\<bar>a\<bar> div 2 ^ 32 = 0" using r by (simp add: INT_MAX_def)
  show ?thesis
  proof (cases "b = 0")
    case True
    then show ?thesis using d divide_loop_zero[OF r(1,2), of 32] z by simp
  next
    case nz: False
    then have loop: "divide_loop (mask_of 32) \<bar>a\<bar> \<bar>b\<bar> 0 0 = Some (\<bar>a\<bar> div \<bar>b\<bar>)" using divide_loop_eq[OF r(1,2) _ r(3), of 32] z by simp
    have "\<bar>a\<bar> div \<bar>b\<bar> * ?sg = cdiv a b" using nz by (cases "a = 0") (auto simp: cdiv_def sgn_if)
    moreover have "0 \<le> \<bar>a\<bar> div \<bar>b\<bar>" "\<bar>a\<bar> div \<bar>b\<bar> \<le> INT_MAX"
      using div_le[OF r(1), of "\<bar>b\<bar>"] r(2) nz by (simp_all add: pos_imp_zdiv_nonneg_iff)
    ultimately have "c_int (\<bar>a\<bar> div \<bar>b\<bar> * ?sg) = Some (cdiv a b)"
      by (cases "(a < 0) \<noteq> (b < 0)") (auto simp: c_int_def in_int_def INT_MIN_def INT_MAX_def)
    then show ?thesis using d nz False loop by simp
  qed
qed

subsection \<open>The program\<close>

definition division_line :: "int \<times> int \<Rightarrow> string" where
  "division_line p = show_int (fst p) @ '' '' @ show_int (snd p) @ ''\<newline>''"

definition division_ok :: "int \<times> int \<Rightarrow> bool" where
  "division_ok p \<longleftrightarrow> in_int (fst p) \<and> in_int (snd p) \<and> snd p \<noteq> 0 \<and> fst p \<noteq> INT_MIN \<and> snd p \<noteq> INT_MIN"

lemma scan_division:
  assumes "list_all isspace ws" "in_int a" "in_int b"
  shows "scanf ''%d%d'' (ws @ division_line (a, b) @ r) = Some \<lparr>sr_args = [IntA a, IntA b], sr_eof = False, sr_rest = ''\<newline>'' @ r\<rparr>"
  using scanf_d_show[OF assms(1) _ assms(2), of "'' '' @ show_int b @ ''\<newline>'' @ r" "''%d''"]
    scanf_d_elem[of "'' ''" "''\<newline>'' @ r" b] assms(3) by (simp add: division_line_def scan_push_def)

lemma divide_main_loop_eq:
  "list_all division_ok ps \<Longrightarrow> list_all isspace ws \<Longrightarrow>
    divide_main_loop (ws @ concat (map division_line ps)) = Some (concat (map (\<lambda>p. show_int (cdiv (fst p) (snd p)) @ ''\<newline>> '') ps))"
proof (induction ps arbitrary: ws)
  case Nil
  then have "scanf ''%d%d'' ws = Some \<lparr>sr_args = [], sr_eof = True, sr_rest = []\<rparr>" by (simp add: scanf_eval scan_num_all skip_ws_all)
  then show ?case by (subst divide_main_loop.simps) simp
next
  case (Cons p ps)
  obtain a b where p: "p = (a, b)" by (cases p)
  have ok: "in_int a" "in_int b" "b \<noteq> 0" "a \<noteq> INT_MIN" "b \<noteq> INT_MIN" using Cons.prems(1) p by (simp_all add: division_ok_def)
  have "divide a b = Some (cdiv a b)" using divide_eq[OF ok(1,2)] ok(3-5) by simp
  moreover have "divide_main_loop (''\<newline>'' @ concat (map division_line ps)) = Some (concat (map (\<lambda>p. show_int (cdiv (fst p) (snd p)) @ ''\<newline>> '') ps))"
    using Cons.IH[of "''\<newline>''"] Cons.prems(1) by simp
  ultimately show ?case using scan_division[OF Cons.prems(2) ok(1,2)] p by (subst divide_main_loop.simps) (simp add: show_conv_def)
qed

text \<open>
  Property C31: \<open>divide\<close> is the division of C, rounding towards zero, on all operands but the least \<open>int\<close> and the divisor
  zero, where it has no defined behaviour; on every sequence of other pairs the program prints the quotients.
\<close>

theorem divide_correct:
  "(\<forall>a b. in_int a \<and> in_int b \<longrightarrow> divide a b = (if b = 0 \<or> a = INT_MIN \<or> b = INT_MIN then None else Some (cdiv a b)))
   \<and> (\<forall>ps. list_all division_ok ps \<longrightarrow> divide_main (concat (map division_line ps))
        = Some (''Enter dividend and divisor\<newline>> '' @ concat (map (\<lambda>p. show_int (cdiv (fst p) (snd p)) @ ''\<newline>> '') ps)))"
  using divide_eq divide_main_loop_eq[of _ "[]"] by (simp add: divide_main_def)

theorem divide_correct_witness:
  "divide (- 219) 22 = Some (- 9) \<and> divide 1 INT_MIN = None
   \<and> divide_main ''219 22\<newline>-7 2\<newline>'' = Some ''Enter dividend and divisor\<newline>> 9\<newline>> -3\<newline>> ''"
proof (intro conjI)
  show "divide (- 219) 22 = Some (- 9)" "divide 1 INT_MIN = None"
    using conjunct1[OF divide_correct, rule_format, of "- 219" 22] conjunct1[OF divide_correct, rule_format, of 1 INT_MIN]
    by (simp_all add: in_int_def INT_MIN_def INT_MAX_def cdiv_def)
  let ?ps = "[(219, 22), (- 7, 2)] :: (int \<times> int) list"
  have "list_all division_ok ?ps" by (simp add: division_ok_def in_int_def INT_MIN_def INT_MAX_def)
  moreover have "concat (map division_line ?ps) = ''219 22\<newline>-7 2\<newline>''" by (simp add: division_line_def show_eval)
  moreover have "''Enter dividend and divisor\<newline>> '' @ concat (map (\<lambda>p. show_int (cdiv (fst p) (snd p)) @ ''\<newline>> '') ?ps)
      = ''Enter dividend and divisor\<newline>> 9\<newline>> -3\<newline>> ''" by (simp add: cdiv_def show_eval)
  ultimately show "divide_main ''219 22\<newline>-7 2\<newline>'' = Some ''Enter dividend and divisor\<newline>> 9\<newline>> -3\<newline>> ''"
    using conjunct2[OF divide_correct, rule_format, of ?ps] by (simp only: simp_thms)
qed

end
