(* ===== verification/Serialize_Tree.thy ===== *)
theory Serialize_Tree
  imports C_Stdio C_Heap "HOL-Library.Tree"
begin

text \<open>
  \<open>trees_graphs/serialize_tree/solution.c\<close>: a binary search tree with unique keys is written as its preorder and its
  inorder sequence and rebuilt from them. The program reads the two sequences, rebuilds the tree and writes them again.
\<close>

subsection \<open>The program\<close>

record st_node =
  st_value :: int
  st_left :: ptr
  st_right :: ptr

type_synonym st_heap = "st_node heap"

partial_function (option) serialize_inorder :: "st_heap \<Rightarrow> ptr \<Rightarrow> string option" where
  "serialize_inorder h root =
     (if root = None then Some []
      else do { n \<leftarrow> deref h root;
                l \<leftarrow> serialize_inorder h (st_left n);
                r \<leftarrow> serialize_inorder h (st_right n);
                Some (l @ printf ''%d '' [IntA (st_value n)] @ r) })"

partial_function (option) serialize_preorder :: "st_heap \<Rightarrow> ptr \<Rightarrow> string option" where
  "serialize_preorder h root =
     (if root = None then Some []
      else do { n \<leftarrow> deref h root;
                l \<leftarrow> serialize_preorder h (st_left n);
                r \<leftarrow> serialize_preorder h (st_right n);
                Some (printf ''%d '' [IntA (st_value n)] @ l @ r) })"

definition serialize :: "st_heap \<Rightarrow> ptr \<Rightarrow> string c" where
  "serialize h root =
     (if root = None then Some []
      else do { p \<leftarrow> serialize_preorder h root;
                i \<leftarrow> serialize_inorder h root;
                Some (p @ ''\<newline>'' @ i @ ''\<newline>'') })"

text \<open>
  The binary search, with the bounds of type \<open>size_t\<close>. The array \<open>inorder\<close> is the part of the buffer \<open>buff\<close> from \<open>io\<close> on.
\<close>

definition size_dec :: "nat \<Rightarrow> nat" where
  "size_dec m = (m + 2 ^ 64 - 1) mod 2 ^ 64"

partial_function (option) find_inorder_loop :: "int list \<Rightarrow> nat \<Rightarrow> int \<Rightarrow> nat \<Rightarrow> nat \<Rightarrow> nat option" where
  "find_inorder_loop buff io v l r =
     (if l \<le> r
      then do { let mid = l + (r - l) div 2;
                x \<leftarrow> rd buff (io + mid);
                if x = v then Some mid
                else if x < v then find_inorder_loop buff io v (mid + 1) r
                else find_inorder_loop buff io v l (size_dec mid) }
      else None)"

definition find_inorder :: "int list \<Rightarrow> nat \<Rightarrow> nat \<Rightarrow> int \<Rightarrow> nat c" where
  "find_inorder buff io len v = find_inorder_loop buff io v 0 (size_dec len)"

partial_function (option) deserialize_internal :: "int list \<Rightarrow> st_heap \<Rightarrow> nat \<Rightarrow> nat \<Rightarrow> nat \<Rightarrow> (ptr \<times> st_heap) option" where
  "deserialize_internal buff h po io len =
     (if len = 0 then Some (None, h)
      else do { let (ret, h1) = malloc h \<lparr>st_value = 0, st_left = None, st_right = None\<rparr>;
                _ \<leftarrow> c_assert (ret \<noteq> None);
                v \<leftarrow> rd buff po;
                h2 \<leftarrow> store h1 ret (\<lambda>n. n\<lparr>st_value := v\<rparr>);
                root_io \<leftarrow> find_inorder buff io len v;
                (l, h3) \<leftarrow> deserialize_internal buff h2 (po + 1) io root_io;
                h4 \<leftarrow> store h3 ret (\<lambda>n. n\<lparr>st_left := l\<rparr>);
                (r, h5) \<leftarrow> deserialize_internal buff h4 (po + root_io + 1) (io + root_io + 1) (len - root_io - 1);
                h6 \<leftarrow> store h5 ret (\<lambda>n. n\<lparr>st_right := r\<rparr>);
                Some (ret, h6) })"

definition BUFF_LEN :: nat where "BUFF_LEN = 4096"

partial_function (option) read_ints :: "string \<Rightarrow> int list \<Rightarrow> nat \<Rightarrow> (int list \<times> nat) option" where
  "read_ints s buff i =
     do { r \<leftarrow> scanf ''%d'' s;
          if scan_ret r = 1
          then do { _ \<leftarrow> c_assert (i < BUFF_LEN);
                    buff' \<leftarrow> wr buff i (arg_int (sr_args r ! 0));
                    read_ints (sr_rest r) buff' (i + 1) }
          else Some (buff, i) }"

definition deserialize :: "st_heap \<Rightarrow> string \<Rightarrow> (ptr \<times> st_heap) c" where
  "deserialize h s =
     do { (buff, i) \<leftarrow> read_ints s (replicate BUFF_LEN 0) 0; deserialize_internal buff h 0 (i div 2) (i div 2) }"

definition st_main :: "(nat \<Rightarrow> bool) \<Rightarrow> string \<Rightarrow> string c" where
  "st_main f input =
     do { (root, h) \<leftarrow> deserialize (empty_heap f) input;
          out \<leftarrow> serialize h root;
          Some (''Enter preorder traversal followed by inorder traversal\<newline>'' @ ''Built tree:\<newline>'' @ out) }"

subsection \<open>Writing a tree\<close>

type_synonym stree = "(nat \<times> int) tree"

fun rptr :: "stree \<Rightarrow> ptr" where
  "rptr \<langle>\<rangle> = None"
| "rptr \<langle>l, x, r\<rangle> = Some (fst x)"

fun is_stree :: "(nat \<rightharpoonup> st_node) \<Rightarrow> stree \<Rightarrow> bool" where
  "is_stree m \<langle>\<rangle> \<longleftrightarrow> True"
| "is_stree m \<langle>l, x, r\<rangle> \<longleftrightarrow> m (fst x) = Some \<lparr>st_value = snd x, st_left = rptr l, st_right = rptr r\<rparr> \<and> is_stree m l \<and> is_stree m r"

abbreviation at_of :: "stree \<Rightarrow> nat set" where
  "at_of t \<equiv> fst ` set_tree t"

lemma is_stree_frame: "(\<And>a. a \<in> at_of t \<Longrightarrow> m' a = m a) \<Longrightarrow> is_stree m t \<Longrightarrow> is_stree m' t"
  by (induction t) auto

definition ints_text :: "int list \<Rightarrow> string" where
  "ints_text ks = concat (map (\<lambda>k. show_int k @ '' '') ks)"

lemma ints_text_simps [simp]: "ints_text [] = []" "ints_text (xs @ ys) = ints_text xs @ ints_text ys"
  "ints_text (k # ks) = show_int k @ '' '' @ ints_text ks"
  by (simp_all add: ints_text_def)

text \<open>The text of a tree: its two sequences, each on a line.\<close>

definition tree_text :: "int tree \<Rightarrow> string" where
  "tree_text t = (if t = \<langle>\<rangle> then [] else ints_text (preorder t) @ ''\<newline>'' @ ints_text (inorder t) @ ''\<newline>'')"

lemma serialize_eq:
  assumes "is_stree (cells h) t"
  shows "serialize h (rptr t) = Some (tree_text (map_tree snd t))"
proof -
  have "serialize_preorder h (rptr t) = Some (ints_text (preorder (map_tree snd t)))"
    using assms by (induction t) (subst serialize_preorder.simps, simp add: show_conv_def)+
  moreover have "serialize_inorder h (rptr t) = Some (ints_text (inorder (map_tree snd t)))"
    using assms by (induction t) (subst serialize_inorder.simps, simp add: show_conv_def)+
  ultimately show ?thesis by (cases t) (simp_all add: serialize_def tree_text_def)
qed

subsection \<open>The binary search\<close>

text \<open>The part of the buffer that holds a sequence.\<close>

definition part :: "int list \<Rightarrow> nat \<Rightarrow> int list \<Rightarrow> bool" where
  "part buff p xs \<longleftrightarrow> p + length xs \<le> length buff \<and> take (length xs) (drop p buff) = xs"

lemma part_rd: "part buff p xs \<Longrightarrow> i < length xs \<Longrightarrow> rd buff (p + i) = Some (xs ! i)"
  unfolding part_def rd_def by (metis add.commute add_less_le_mono add_leD1 leD less_le_trans linorder_le_less_linear nat_add_left_cancel_less nth_drop nth_take)

lemma part_append: "part buff p (xs @ ys) \<longleftrightarrow> part buff p xs \<and> part buff (p + length xs) ys"
proof -
  have "take (length xs + length ys) zs = take (length xs) zs @ take (length ys) (drop (length xs) zs)" for zs :: "int list"
    by (rule take_add)
  then show ?thesis by (auto simp: part_def add.commute append_eq_append_conv)
qed

lemma size_dec_pos: "0 < m \<Longrightarrow> m < 2 ^ 64 \<Longrightarrow> size_dec m = m - 1"
proof -
  assume m: "0 < m" "m < 2 ^ 64"
  then have "m + 2 ^ 64 - 1 = m - 1 + 2 ^ 64" by linarith
  then show "size_dec m = m - 1" using m by (simp only: size_dec_def mod_add_self2) simp
qed

lemma find_inorder_loop_eq:
  assumes xs: "part buff io xs" "sorted_wrt (<) xs" "k < length xs" "length xs < 2 ^ 64"
  shows "l \<le> k \<Longrightarrow> k \<le> r \<Longrightarrow> r < length xs \<Longrightarrow> find_inorder_loop buff io (xs ! k) l r = Some k"
proof (induction "r - l" arbitrary: l r rule: less_induct)
  case less
  let ?m = "l + (r - l) div 2"
  have m: "l \<le> ?m" "?m \<le> r" "?m < length xs" using less.prems by linarith+
  have rd: "rd buff (io + ?m) = Some (xs ! ?m)" by (rule part_rd[OF xs(1) m(3)])
  have lt: "xs ! i < xs ! j" if "i < j" "j < length xs" for i j using sorted_wrt_nth_less[OF xs(2) that] .
  consider "?m = k" | "?m < k" | "k < ?m" by linarith
  then show ?case
  proof cases
    case 1
    then show ?thesis using rd less.prems by (subst find_inorder_loop.simps) (simp add: Let_def)
  next
    case 2
    then have "xs ! ?m < xs ! k" using lt xs(3) by blast
    moreover have "find_inorder_loop buff io (xs ! k) (?m + 1) r = Some k" by (rule less.hyps) (use 2 less.prems in linarith)+
    ultimately show ?thesis using rd less.prems by (subst find_inorder_loop.simps) (simp add: Let_def)
  next
    case 3
    then have "xs ! k < xs ! ?m" using lt m(3) by blast
    moreover have "size_dec ?m = ?m - 1" using 3 m(3) xs(4) by (intro size_dec_pos) linarith+
    moreover have "find_inorder_loop buff io (xs ! k) l (?m - 1) = Some k" by (rule less.hyps) (use 3 less.prems m in linarith)+
    ultimately show ?thesis using rd less.prems by (subst find_inorder_loop.simps) (simp add: Let_def)
  qed
qed

lemma find_inorder_eq:
  assumes "part buff io (xs @ v # ys)" "sorted_wrt (<) (xs @ v # ys)" "length (xs @ v # ys) < 2 ^ 64"
  shows "find_inorder buff io (length (xs @ v # ys)) v = Some (length xs)"
proof -
  let ?xs = "xs @ v # ys"
  have "size_dec (length ?xs) = length xs + length ys" using size_dec_pos[OF _ assms(3)] by simp
  moreover have "find_inorder_loop buff io (?xs ! length xs) 0 (length xs + length ys) = Some (length xs)"
    by (rule find_inorder_loop_eq[OF assms(1,2) _ assms(3)]) simp_all
  ultimately show ?thesis by (simp only: find_inorder_def nth_append_length)
qed

subsection \<open>Rebuilding a tree\<close>

text \<open>What it does to the heap: the nodes are new cells, and no older cell changes.\<close>

definition built :: "st_heap \<Rightarrow> stree \<Rightarrow> st_heap \<Rightarrow> bool" where
  "built h t h' \<longleftrightarrow> is_stree (cells h') t \<and> at_of t \<subseteq> {fresh h..<fresh h'} \<and> fresh h \<le> fresh h'
     \<and> (\<forall>a < fresh h. cells h' a = cells h a) \<and> oom h' = (\<lambda>_. False)"

lemma built_node:
  assumes h2: "cells h2 a = Some \<lparr>st_value = k, st_left = None, st_right = None\<rparr>" "fresh h2 = Suc a"
    and l: "built h2 l h3" and h4: "h4 = h3\<lparr>cells := (cells h3)(a \<mapsto> \<lparr>st_value = k, st_left = rptr l, st_right = None\<rparr>)\<rparr>"
    and r: "built h4 r h5" and h6: "h6 = h5\<lparr>cells := (cells h5)(a \<mapsto> \<lparr>st_value = k, st_left = rptr l, st_right = rptr r\<rparr>)\<rparr>"
    and old: "fresh h = a" "\<forall>b < a. cells h2 b = cells h b"
  shows "cells h3 a = Some \<lparr>st_value = k, st_left = None, st_right = None\<rparr>"
    "cells h5 a = Some \<lparr>st_value = k, st_left = rptr l, st_right = None\<rparr>" "built h \<langle>l, (a, k), r\<rangle> h6"
proof -
  have f: "Suc a \<le> fresh h3" "fresh h4 = fresh h3" "fresh h3 \<le> fresh h5" "fresh h6 = fresh h5" using h2(2) l r h4 h6 by (auto simp: built_def)
  show "cells h3 a = Some \<lparr>st_value = k, st_left = None, st_right = None\<rparr>" using l h2 by (simp add: built_def)
  have c5: "cells h5 b = cells h4 b" if "b < fresh h3" for b using r that f by (simp add: built_def)
  then show "cells h5 a = Some \<lparr>st_value = k, st_left = rptr l, st_right = None\<rparr>" using f by (simp add: h4)
  have l': "at_of l \<subseteq> {Suc a..<fresh h3}" "is_stree (cells h3) l" using l h2(2) by (simp_all add: built_def)
  have r': "at_of r \<subseteq> {fresh h3..<fresh h5}" "is_stree (cells h5) r" using r f by (simp_all add: built_def)
  have "is_stree (cells h6) l"
    by (rule is_stree_frame[OF _ l'(2)]) (use l'(1) c5 in \<open>force simp: h6 h4\<close>)
  moreover have "is_stree (cells h6) r"
    by (rule is_stree_frame[OF _ r'(2)]) (use r'(1) f in \<open>force simp: h6\<close>)
  moreover have "cells h6 b = cells h b" if "b < a" for b
  proof -
    have "cells h6 b = cells h4 b" using that c5[of b] f by (simp add: h6)
    also have "\<dots> = cells h3 b" using that by (simp add: h4)
    also have "\<dots> = cells h2 b" using l that h2(2) by (simp add: built_def)
    finally show ?thesis using old(2) that by simp
  qed
  moreover have "at_of \<langle>l, (a, k), r\<rangle> \<subseteq> {a..<fresh h5}" using l'(1) r'(1) f by force
  ultimately show "built h \<langle>l, (a, k), r\<rangle> h6" using f r old(1) by (simp add: built_def h6)
qed

lemma deserialize_internal_eq:
  "part buff po (preorder t) \<Longrightarrow> part buff io (inorder t) \<Longrightarrow> sorted_wrt (<) (inorder t) \<Longrightarrow> size t < 2 ^ 64 \<Longrightarrow> oom h = (\<lambda>_. False) \<Longrightarrow>
    \<exists>t' h'. deserialize_internal buff h po io (size t) = Some (rptr t', h') \<and> map_tree snd t' = t \<and> built h t' h'"
proof (induction t arbitrary: h po io)
  case Leaf
  then show ?case by (intro exI[of _ "\<langle>\<rangle>"] exI[of _ h], subst deserialize_internal.simps) (simp add: built_def)
next
  case (Node l k r)
  let ?a = "fresh h"
  define h2 where "h2 = h\<lparr>fresh := Suc ?a, cells := (cells h)(?a \<mapsto> \<lparr>st_value = k, st_left = None, st_right = None\<rparr>)\<rparr>"
  have pre: "rd buff po = Some k" "part buff (po + 1) (preorder l)" "part buff (po + size l + 1) (preorder r)"
    using Node.prems(1) part_rd[OF Node.prems(1), of 0] part_append[of buff po "[k]" "preorder l @ preorder r"]
    by (auto simp: part_append add.commute add.left_commute)
  have "inorder \<langle>l, k, r\<rangle> = inorder l @ [k] @ inorder r" by simp
  then have ino: "part buff io (inorder l)" "part buff (io + size l + 1) (inorder r)"
    using Node.prems(2) by (simp_all add: part_append del: append_Cons append_Nil inorder.simps)
  have srt: "sorted_wrt (<) (inorder l)" "sorted_wrt (<) (inorder r)" using Node.prems(3) by (simp_all add: sorted_wrt_append)
  have root: "find_inorder buff io (Suc (size l + size r)) k = Some (size l)"
    using find_inorder_eq[of buff io "inorder l" k "inorder r"] Node.prems(2-4) by simp
  have sz: "size l < 2 ^ 64" "size r < 2 ^ 64" using Node.prems(4) by simp_all
  have o2: "oom h2 = (\<lambda>_. False)" using Node.prems(5) by (simp add: h2_def)
  obtain l' h3 where l': "deserialize_internal buff h2 (po + 1) io (size l) = Some (rptr l', h3)" "map_tree snd l' = l" "built h2 l' h3"
    using Node.IH(1)[OF pre(2) ino(1) srt(1) sz(1) o2] by blast
  define h4 where "h4 = h3\<lparr>cells := (cells h3)(?a \<mapsto> \<lparr>st_value = k, st_left = rptr l', st_right = None\<rparr>)\<rparr>"
  have o4: "oom h4 = (\<lambda>_. False)" using l'(3) by (simp add: h4_def built_def)
  obtain r' h5 where r': "deserialize_internal buff h4 (po + size l + 1) (io + size l + 1) (size r) = Some (rptr r', h5)" "map_tree snd r' = r"
    "built h4 r' h5" using Node.IH(2)[OF pre(3) ino(2) srt(2) sz(2) o4] by blast
  define h6 where "h6 = h5\<lparr>cells := (cells h5)(?a \<mapsto> \<lparr>st_value = k, st_left = rptr l', st_right = rptr r'\<rparr>)\<rparr>"
  have b: "cells h3 ?a = Some \<lparr>st_value = k, st_left = None, st_right = None\<rparr>"
    "cells h5 ?a = Some \<lparr>st_value = k, st_left = rptr l', st_right = None\<rparr>" "built h \<langle>l', (?a, k), r'\<rangle> h6"
    using built_node[OF _ _ l'(3) h4_def r'(3) h6_def, of h] by (simp_all add: h2_def)
  have m: "malloc h \<lparr>st_value = 0, st_left = None, st_right = None\<rparr>
      = (Some ?a, h\<lparr>cells := (cells h)(?a \<mapsto> \<lparr>st_value = 0, st_left = None, st_right = None\<rparr>), fresh := Suc ?a\<rparr>)"
    using Node.prems(5) by (simp add: malloc_def)
  have "deserialize_internal buff h po io (size \<langle>l, k, r\<rangle>) = Some (Some ?a, h6)"
    using pre(1) root l'(1) r'(1) b(1,2) m
    by (subst deserialize_internal.simps) (simp add: h2_def[symmetric] h4_def[symmetric] h6_def[symmetric])
  then show ?case using b(3) l'(2) r'(2) by (intro exI[of _ "\<langle>l', (?a, k), r'\<rangle>"] exI[of _ h6]) simp
qed

subsection \<open>Reading the sequences\<close>

lemma read_ints_text:
  "list_all isspace ws \<Longrightarrow> list_all in_int ks \<Longrightarrow> i + length ks \<le> BUFF_LEN \<Longrightarrow> length buff = BUFF_LEN \<Longrightarrow> no_digit rest \<Longrightarrow>
    read_ints (ws @ ints_text ks @ rest) buff i
      = read_ints ((if ks = [] then ws else '' '') @ rest) (take i buff @ ks @ drop (i + length ks) buff) (i + length ks)"
proof (induction ks arbitrary: ws buff i)
  case (Cons k ks)
  have "scanf ''%d'' (ws @ show_int k @ '' '' @ ints_text ks @ rest)
      = Some \<lparr>sr_args = [IntA k], sr_eof = False, sr_rest = '' '' @ ints_text ks @ rest\<rparr>"
    by (rule scanf_d_elem) (use Cons.prems in simp_all)
  then have "read_ints (ws @ ints_text (k # ks) @ rest) buff i = read_ints ('' '' @ ints_text ks @ rest) (buff[i := k]) (i + 1)"
    using Cons.prems by (subst read_ints.simps) simp
  moreover have "take (i + 1) (buff[i := k]) = take i buff @ [k]" "drop (i + 1 + length ks) (buff[i := k]) = drop (i + length (k # ks)) buff"
    using Cons.prems(3,4) by (simp_all add: take_Suc_conv_app_nth)
  ultimately show ?case using Cons.IH[of "'' ''" "i + 1" "buff[i := k]"] Cons.prems by simp
qed simp

lemma read_ints_end: "list_all isspace ws \<Longrightarrow> read_ints ws buff i = Some (buff, i)"
  by (subst read_ints.simps) (simp add: scanf_num_end)

lemma read_tree:
  assumes "list_all in_int (inorder t)" "2 * size t \<le> BUFF_LEN"
  shows "\<exists>buff. read_ints (tree_text t) (replicate BUFF_LEN 0) 0 = Some (buff, 2 * size t)
    \<and> part buff 0 (preorder t) \<and> part buff (size t) (inorder t)"
proof (cases "t = \<langle>\<rangle>")
  case True
  then show ?thesis using read_ints_end[of "[]"] by (simp add: tree_text_def part_def)
next
  case False
  let ?b0 = "replicate BUFF_LEN (0 :: int)" let ?p = "preorder t" let ?i = "inorder t"
  let ?b1 = "?p @ drop (size t) ?b0" let ?b2 = "?p @ ?i @ drop (2 * size t) ?b0"
  have ok: "list_all in_int ?p" using assms(1) by (simp add: list_all_iff)
  have "read_ints (tree_text t) ?b0 0 = read_ints ('' \<newline>'' @ ints_text ?i @ ''\<newline>'') ?b1 (size t)"
    using read_ints_text[of "[]" ?p 0 ?b0 "''\<newline>'' @ ints_text ?i @ ''\<newline>''"] ok assms(2) False by (simp add: tree_text_def)
  also have "\<dots> = read_ints '' \<newline>'' ?b2 (2 * size t)"
    using read_ints_text[of "'' \<newline>''" ?i "size t" ?b1 "''\<newline>''"] assms False by (simp add: mult_2)
  also have "\<dots> = Some (?b2, 2 * size t)" by (rule read_ints_end) simp
  finally show ?thesis using assms(2) by (intro exI[of _ ?b2]) (simp add: part_def)
qed

text \<open>
  Property C27: the program rebuilds every binary search tree of at most 2048 distinct keys from its two sequences and writes
  the same two sequences again.
\<close>

theorem serialize_roundtrip:
  assumes "sorted_wrt (<) (inorder t)" "list_all in_int (inorder t)" "2 * size t \<le> BUFF_LEN"
  shows "st_main (\<lambda>_. False) (tree_text t)
    = Some (''Enter preorder traversal followed by inorder traversal\<newline>Built tree:\<newline>'' @ tree_text t)"
proof -
  obtain buff where b: "read_ints (tree_text t) (replicate BUFF_LEN 0) 0 = Some (buff, 2 * size t)"
    "part buff 0 (preorder t)" "part buff (size t) (inorder t)" using read_tree[OF assms(2,3)] by blast
  have sz: "size t < 2 ^ 64" using assms(3) by (simp add: BUFF_LEN_def)
  have "oom (empty_heap (\<lambda>_. False)) = (\<lambda>_. False)" by (simp add: empty_heap_def)
  from deserialize_internal_eq[OF b(2,3) assms(1) sz this] obtain t' h' where t': "deserialize_internal buff (empty_heap (\<lambda>_. False)) 0 (size t) (size t) = Some (rptr t', h')"
    "map_tree snd t' = t" "built (empty_heap (\<lambda>_. False)) t' h'"
    by blast
  then show ?thesis using b(1) serialize_eq[of h' t'] by (simp add: st_main_def deserialize_def built_def)
qed

theorem serialize_roundtrip_witness:
  "st_main (\<lambda>_. False) ''5 -2 4 9 \<newline>-2 4 5 9 \<newline>''
    = Some ''Enter preorder traversal followed by inorder traversal\<newline>Built tree:\<newline>5 -2 4 9 \<newline>-2 4 5 9 \<newline>''"
proof -
  let ?t = "\<langle>\<langle>\<langle>\<rangle>, - 2, \<langle>\<langle>\<rangle>, 4, \<langle>\<rangle>\<rangle>\<rangle>, 5, \<langle>\<langle>\<rangle>, 9, \<langle>\<rangle>\<rangle>\<rangle> :: int tree"
  have "tree_text ?t = ''5 -2 4 9 \<newline>-2 4 5 9 \<newline>''" by (simp add: tree_text_def show_eval)
  then show ?thesis using serialize_roundtrip[of ?t] by (simp add: in_int_def INT_MIN_def INT_MAX_def BUFF_LEN_def)
qed

end
