(* ===== verification/Pthreads.thy ===== *)
theory Pthreads
  imports Prelude
begin

text \<open>
  POSIX mutexes and condition variables, and transition systems of programs that use them.

  A mutex is the thread that holds it, if any; a condition variable is the set of threads blocked on
  it. Locking a held mutex is not enabled (the thread blocks); unlocking a mutex that one does not hold
  has no defined behaviour. \<open>pthread_cond_signal\<close> unblocks at least one of the blocked threads, as
  POSIX has it, and a thread blocked on a condition variable may wake up spuriously.

  A program is a step relation from states to \<open>'s c\<close>: a step to \<open>None\<close> is undefined behaviour
  or a failed assertion. The locale \<open>thread_invariant\<close> is what the proofs about the programs rely
  on: an invariant that holds at the start and after every step. The locale \<open>safe_threads\<close> adds
  that the invariant excludes steps to \<open>None\<close>.
\<close>

type_synonym tid = nat
type_synonym mutex = "tid option"
type_synonym condvar = "tid set"

definition mutex_lock :: "tid \<Rightarrow> mutex \<Rightarrow> mutex option" where
  "mutex_lock t m = (if m = None then Some (Some t) else None)"

definition mutex_unlock :: "tid \<Rightarrow> mutex \<Rightarrow> mutex c" where
  "mutex_unlock t m = (if m = Some t then Some None else None)"

definition cond_signal :: "condvar \<Rightarrow> condvar \<Rightarrow> bool" where
  "cond_signal w w' \<longleftrightarrow> w' \<subseteq> w \<and> (w = {} \<or> w' \<noteq> w)"

definition cond_broadcast :: "condvar \<Rightarrow> condvar" where
  "cond_broadcast w = {}"

text \<open>A condition variable somebody waits on, or a mutex that is held, must not be destroyed.\<close>

definition cond_destroy :: "condvar \<Rightarrow> unit c" where
  "cond_destroy w = (if w = {} then Some () else None)"

definition mutex_destroy :: "mutex \<Rightarrow> unit c" where
  "mutex_destroy m = (if m = None then Some () else None)"

lemma destroy_free [simp]: "cond_destroy {} = Some ()" "mutex_destroy None = Some ()"
  by (simp_all add: cond_destroy_def mutex_destroy_def)

lemma mutex_lock_Some [simp]: "mutex_lock t m = Some m' \<longleftrightarrow> m = None \<and> m' = Some t"
  by (auto simp: mutex_lock_def)

lemma mutex_unlock_Some [simp]: "mutex_unlock t (Some t) = Some None"
  by (simp add: mutex_unlock_def)

lemma mutex_unlock_iff: "mutex_unlock t m = Some m' \<longleftrightarrow> m = Some t \<and> m' = None"
  by (auto simp: mutex_unlock_def)

lemma cond_signal_mono: "cond_signal w w' \<Longrightarrow> t \<in> w' \<Longrightarrow> t \<in> w"
  by (auto simp: cond_signal_def)

lemma cond_signal_wakes: "cond_signal w w' \<Longrightarrow> w \<noteq> {} \<Longrightarrow> \<exists>t\<in>w. t \<notin> w'"
  by (auto simp: cond_signal_def)

lemma cond_signal_empty [simp]: "cond_signal {} w \<longleftrightarrow> w = {}"
  by (auto simp: cond_signal_def)

lemma cond_signal_enabled: "\<exists>w'. cond_signal w w'"
  by (auto simp: cond_signal_def)

text \<open>
  POSIX semaphores: a wait blocks while the value is 0; a post fails and leaves the value alone when it is
  \<open>SEM_VALUE_MAX\<close>.
\<close>

definition SEM_VALUE_MAX :: nat where "SEM_VALUE_MAX = 2147483647"

definition sem_post :: "nat \<Rightarrow> nat" where
  "sem_post v = (if v < SEM_VALUE_MAX then v + 1 else v)"

definition sem_wait :: "nat \<Rightarrow> nat option" where
  "sem_wait v = (if v = 0 then None else Some (v - 1))"

text \<open>
  A mutex that protects critical positions of a list of threads: the holder is the one thread whose
  position is critical.
\<close>

definition excl :: "('pc \<Rightarrow> bool) \<Rightarrow> mutex \<Rightarrow> 'pc list \<Rightarrow> bool" where
  "excl P m ts \<longleftrightarrow> (\<forall>t<length ts. P (ts ! t) \<longleftrightarrow> m = Some t) \<and> (\<forall>t. m = Some t \<longrightarrow> t < length ts)"

lemma excl_acquire: "excl P None ts \<Longrightarrow> t < length ts \<Longrightarrow> P pc \<Longrightarrow> excl P (Some t) (ts[t := pc])"
  by (auto simp: excl_def nth_list_update)

lemma excl_release: "excl P (Some t) ts \<Longrightarrow> \<not> P pc \<Longrightarrow> excl P None (ts[t := pc])"
  by (auto simp: excl_def nth_list_update)

lemma excl_keep: "excl P m ts \<Longrightarrow> P pc \<longleftrightarrow> P (ts ! t) \<Longrightarrow> excl P m (ts[t := pc])"
  by (cases "t < length ts") (auto simp: excl_def nth_list_update)

lemma excl_holds: "excl P m ts \<Longrightarrow> t < length ts \<Longrightarrow> P (ts ! t) \<Longrightarrow> m = Some t"
  by (auto simp: excl_def)

lemma excl_unique: "excl P m ts \<Longrightarrow> t < length ts \<Longrightarrow> u < length ts \<Longrightarrow> P (ts ! t) \<Longrightarrow> P (ts ! u) \<Longrightarrow> u = t"
  by (auto simp: excl_def)

lemma excl_new: "excl P m ts \<Longrightarrow> \<not> P pc \<Longrightarrow> excl P m (ts @ [pc])"
  by (auto simp: excl_def nth_append less_Suc_eq)

lemma excl_free: "excl P m ts \<Longrightarrow> m = None \<or> (\<exists>t<length ts. m = Some t \<and> P (ts ! t))"
  by (cases m) (auto simp: excl_def)

subsection \<open>Reachable states\<close>

inductive reach :: "('s \<Rightarrow> bool) \<Rightarrow> ('s \<Rightarrow> 's c \<Rightarrow> bool) \<Rightarrow> 's \<Rightarrow> bool"
  for init :: "'s \<Rightarrow> bool" and step :: "'s \<Rightarrow> 's c \<Rightarrow> bool"
where
  reach_init: "init s \<Longrightarrow> reach init step s"
| reach_step: "reach init step s \<Longrightarrow> step s (Some s') \<Longrightarrow> reach init step s'"

locale thread_invariant =
  fixes init :: "'s \<Rightarrow> bool" and step :: "'s \<Rightarrow> 's c \<Rightarrow> bool" and inv :: "'s \<Rightarrow> bool"
  assumes inv_init: "init s \<Longrightarrow> inv s"
    and inv_step: "inv s \<Longrightarrow> step s (Some s') \<Longrightarrow> inv s'"
begin

lemma inv_reach: "reach init step s \<Longrightarrow> inv s"
  by (induction rule: reach.induct) (auto intro: inv_init inv_step)

end

locale safe_threads = thread_invariant +
  assumes inv_defined: "inv s \<Longrightarrow> \<not> step s None"
begin

lemma reach_defined: "reach init step s \<Longrightarrow> \<not> step s None"
  by (auto dest: inv_reach inv_defined)

end

end
