(* ===== verification/Semaphore.thy ===== *)
theory Semaphore
  imports Pthreads C_Stdio "HOL-Library.Word"
begin

text \<open>
  \<open>threads/semaphores/semaphore.c\<close>: a counting semaphore made of a mutex and a condition variable,
  and the program that lets threads wait on it while \<open>main\<close> posts it.

  The statements of \<open>semaphore_wait\<close> and \<open>semaphore_post\<close> are the steps of two relations,
  one rule per statement, between the position in the function and the semaphore; the next position
  \<open>None\<close> means that the function has returned. \<open>thr_fn\<close> and \<open>main\<close> are composed of
  them. Thread 0 is \<open>main\<close>, thread \<open>Suc i\<close> is \<open>threads[i]\<close>.
\<close>

record semaphore =
  sem_cond :: condvar
  sem_lock :: mutex
  counter :: "64 word"

text \<open>
  The initialisation, with the values the two \<open>pthread\<close> functions return. They return a positive
  error number on failure, which the test against 0 misses.
\<close>

definition semaphore_init :: "int \<Rightarrow> int \<Rightarrow> 32 word \<Rightarrow> semaphore + int" where
  "semaphore_init cond_res mutex_res value =
     (if cond_res < 0 then Inr (- 1)
      else if mutex_res < 0 then Inr (- 1)
      else Inl \<lparr>sem_cond = {}, sem_lock = None, counter = ucast value\<rparr>)"

definition semaphore_destroy :: "semaphore \<Rightarrow> unit c" where
  "semaphore_destroy s = do { _ \<leftarrow> cond_destroy (sem_cond s); mutex_destroy (sem_lock s) }"

datatype wait_pc = W_lock | W_test | W_wait | W_blocked | W_dec | W_unlock
datatype post_pc = P_lock | P_inc | P_unlock | P_signal

inductive semaphore_wait :: "tid \<Rightarrow> wait_pc \<times> semaphore \<Rightarrow> (wait_pc option \<times> semaphore) c \<Rightarrow> bool" for t :: tid where
  w_lock: "mutex_lock t (sem_lock s) = Some m \<Longrightarrow>
     semaphore_wait t (W_lock, s) (Some (Some W_test, s\<lparr>sem_lock := m\<rparr>))"
| w_test: "semaphore_wait t (W_test, s) (Some (Some (if counter s = 0 then W_wait else W_dec), s))"
| w_wait: "semaphore_wait t (W_wait, s)
     (do { m \<leftarrow> mutex_unlock t (sem_lock s);
           Some (Some W_blocked, s\<lparr>sem_lock := m, sem_cond := insert t (sem_cond s)\<rparr>) })"
| w_spurious: "t \<in> sem_cond s \<Longrightarrow>
     semaphore_wait t (W_blocked, s) (Some (Some W_blocked, s\<lparr>sem_cond := sem_cond s - {t}\<rparr>))"
| w_relock: "t \<notin> sem_cond s \<Longrightarrow> mutex_lock t (sem_lock s) = Some m \<Longrightarrow>
     semaphore_wait t (W_blocked, s) (Some (Some W_test, s\<lparr>sem_lock := m\<rparr>))"
| w_dec: "semaphore_wait t (W_dec, s) (Some (Some W_unlock, s\<lparr>counter := counter s - 1\<rparr>))"
| w_unlock: "semaphore_wait t (W_unlock, s)
     (do { m \<leftarrow> mutex_unlock t (sem_lock s); Some (None :: wait_pc option, s\<lparr>sem_lock := m\<rparr>) })"

inductive semaphore_post :: "tid \<Rightarrow> post_pc \<times> semaphore \<Rightarrow> (post_pc option \<times> semaphore) c \<Rightarrow> bool" for t :: tid where
  p_lock: "mutex_lock t (sem_lock s) = Some m \<Longrightarrow>
     semaphore_post t (P_lock, s) (Some (Some P_inc, s\<lparr>sem_lock := m\<rparr>))"
| p_inc: "semaphore_post t (P_inc, s) (Some (Some P_unlock, s\<lparr>counter := counter s + 1\<rparr>))"
| p_unlock: "semaphore_post t (P_unlock, s)
     (do { m \<leftarrow> mutex_unlock t (sem_lock s); Some (Some P_signal, s\<lparr>sem_lock := m\<rparr>) })"
| p_signal: "cond_signal (sem_cond s) w \<Longrightarrow>
     semaphore_post t (P_signal, s) (Some (None, s\<lparr>sem_cond := w\<rparr>))"

subsection \<open>The program\<close>

datatype thr_pc = T_wait wait_pc | T_print

datatype main_pc =
    M_read_size
  | M_create nat
  | M_command
  | M_read_n
  | M_post nat nat post_pc
  | M_join nat
  | M_exit

record sem_sys =
  sem :: semaphore
  threads :: "thr_pc list"
  threads_sz :: nat
  main_at :: main_pc
  inp :: string
  outp :: string
  errp :: string

text \<open>\<open>thr_fn\<close>, with the text of the thread identifiers \<open>%p\<close> as a parameter.\<close>

inductive thr_fn :: "(nat \<Rightarrow> string) \<Rightarrow> sem_sys \<Rightarrow> sem_sys c \<Rightarrow> bool" for ptr where
  thr_wait: "i < length (threads s) \<Longrightarrow> threads s ! i = T_wait pc \<Longrightarrow> semaphore_wait (Suc i) (pc, sem s) r \<Longrightarrow>
     thr_fn ptr s (do { (pc', sm) \<leftarrow> r;
       Some (s\<lparr>sem := sm, threads := (threads s)[i := (case pc' of None \<Rightarrow> T_print | Some p \<Rightarrow> T_wait p)]\<rparr>) })"
| thr_print: "i < length (threads s) \<Longrightarrow> threads s ! i = T_print \<Longrightarrow>
     thr_fn ptr s (Some (s\<lparr>threads := (threads s)[i := T_wait W_lock],
       outp := outp s @ ''['' @ ptr i @ '']: Woke up\<newline>''\<rparr>))"

text \<open>
  The loop over the posts of one command, after the test \<open>i < n\<close>.
\<close>

definition post_at :: "nat \<Rightarrow> nat \<Rightarrow> main_pc" where
  "post_at i n = (if i < n then M_post i n P_lock else M_command)"

definition prompt :: "nat \<Rightarrow> nat \<Rightarrow> string" where
  "prompt i n = (if i < n then [] else ''> '')"

text \<open>
  What \<open>main\<close> prints before it reads the number of threads.
\<close>

definition sem_banner :: string where
  "sem_banner = ''To post the semaphore N times, type: P N\<newline>'' @ ''To quit, type: Q\<newline>'' @ ''How many threads? ''"

inductive sem_main :: "(nat \<Rightarrow> string) \<Rightarrow> sem_sys \<Rightarrow> sem_sys c \<Rightarrow> bool" for ptr where
  m_read_size: "main_at s = M_read_size \<Longrightarrow> sem_main ptr s
     (do { r \<leftarrow> scanf ''%zu'' (inp s);
           let n = (if scan_ret r = 1 then nat (arg_int (sr_args r ! 0)) else 0);
           Some (s\<lparr>threads_sz := n, main_at := M_create 0, inp := sr_rest r,
                   outp := outp s @ printf ''Creating %zu threads\<newline>'' [IntA (int n)]\<rparr>) })"
| m_create: "main_at s = M_create i \<Longrightarrow> i < threads_sz s \<Longrightarrow> sem_main ptr s
     (if i < 1024
      then Some (s\<lparr>threads := threads s @ [T_wait W_lock], main_at := M_create (i + 1),
                    outp := outp s @ ''Thread created: '' @ ptr i @ ''\<newline>''\<rparr>)
      else None)"
| m_created: "main_at s = M_create i \<Longrightarrow> \<not> i < threads_sz s \<Longrightarrow> sem_main ptr s
     (Some (s\<lparr>main_at := M_command, outp := outp s @ printf ''> '' []\<rparr>))"
| m_command: "main_at s = M_command \<Longrightarrow> sem_main ptr s
     (do { r \<leftarrow> scanf '' %c'' (inp s);
           let s' = s\<lparr>inp := sr_rest r\<rparr>;
           if scan_ret r \<noteq> 1 then Some (s'\<lparr>main_at := M_join 0\<rparr>)
           else let op = arg_chr (sr_args r ! 0) in
             if op = CHR ''P'' then Some (s'\<lparr>main_at := M_read_n\<rparr>)
             else if op = CHR ''Q'' then Some (s'\<lparr>main_at := M_join 0\<rparr>)
             else Some (s'\<lparr>outp := outp s @ printf ''> '' [],
                           errp := errp s @ printf ''Unrecognized command: %c\<newline>'' [ChrA op]\<rparr>) })"
| m_read_n: "main_at s = M_read_n \<Longrightarrow> sem_main ptr s
     (do { r \<leftarrow> scanf ''%u'' (inp s);
           let n = nat (arg_int (sr_args r ! 0));
           if scan_ret r = 1
           then Some (s\<lparr>inp := sr_rest r, main_at := post_at 0 n, outp := outp s @ prompt 0 n\<rparr>)
           else None })"
| m_post: "main_at s = M_post i n pc \<Longrightarrow> semaphore_post 0 (pc, sem s) r \<Longrightarrow> sem_main ptr s
     (do { (pc', sm) \<leftarrow> r;
           case pc' of
             Some p \<Rightarrow> Some (s\<lparr>sem := sm, main_at := M_post i n p\<rparr>)
           | None \<Rightarrow> Some (s\<lparr>sem := sm, main_at := post_at (i + 1) n, outp := outp s @ prompt (i + 1) n\<rparr>) })"
| m_joined: "main_at s = M_join i \<Longrightarrow> \<not> i < threads_sz s \<Longrightarrow> sem_main ptr s
     (Option.bind (semaphore_destroy (sem s)) (\<lambda>_. Some (s\<lparr>main_at := M_exit\<rparr>)))"

text \<open>
  There is no step from \<open>M_join i\<close> with \<open>i < threads_sz\<close>: \<open>pthread_join\<close> waits for the
  thread to return, and \<open>thr_fn\<close> has no step that returns.
\<close>

definition sem_init_state :: "string \<Rightarrow> sem_sys \<Rightarrow> bool" where
  "sem_init_state input s \<longleftrightarrow>
     (case semaphore_init 0 0 0 of
        Inr _ \<Rightarrow> False
      | Inl sm \<Rightarrow> s = \<lparr>sem = sm, threads = [], threads_sz = 0, main_at = M_read_size, inp = input,
                       outp = printf sem_banner [], errp = []\<rparr>)"

definition sem_step :: "(nat \<Rightarrow> string) \<Rightarrow> sem_sys \<Rightarrow> sem_sys c \<Rightarrow> bool" where
  "sem_step ptr s r \<longleftrightarrow> thr_fn ptr s r \<or> sem_main ptr s r"

end
