(* ===== verification/Semaphore_Proofs.thy ===== *)
theory Semaphore_Proofs
  imports Semaphore
begin

text \<open>
  The semaphore of \<open>semaphore.c\<close> keeps its promise: a wait never returns without a post of its own,
  and no wake-up is lost, although \<open>semaphore_post\<close> signals after it released the lock.
\<close>

lemmas thr_fn_elims = thr_fn.cases semaphore_wait.cases
lemmas sem_main_elims = sem_main.cases semaphore_post.cases

subsection \<open>The invariant\<close>

definition holding :: "thr_pc \<Rightarrow> bool" where
  "holding pc \<longleftrightarrow> pc \<in> T_wait ` {W_test, W_wait, W_dec, W_unlock}"

definition main_holding :: "main_pc \<Rightarrow> bool" where
  "main_holding m \<longleftrightarrow> (\<exists>i n. m = M_post i n P_inc \<or> m = M_post i n P_unlock)"

definition main_signals :: "main_pc \<Rightarrow> bool" where
  "main_signals m \<longleftrightarrow> (\<exists>i n. m = M_post i n P_unlock \<or> m = M_post i n P_signal)"

text \<open>The lock is held by the thread whose position says so, and by no other.\<close>

definition lock_inv :: "sem_sys \<Rightarrow> bool" where
  "lock_inv s \<longleftrightarrow> (\<forall>i. i < length (threads s) \<longrightarrow> (holding (threads s ! i) \<longleftrightarrow> sem_lock (sem s) = Some (Suc i)))
     \<and> (main_holding (main_at s) \<longleftrightarrow> sem_lock (sem s) = Some 0)
     \<and> (\<forall>i. sem_lock (sem s) = Some (Suc i) \<longrightarrow> i < length (threads s))"

text \<open>What the positions say of the counter and of the condition variable.\<close>

definition pos_inv :: "sem_sys \<Rightarrow> bool" where
  "pos_inv s \<longleftrightarrow> (\<forall>i. i < length (threads s) \<longrightarrow>
       (threads s ! i = T_wait W_dec \<longrightarrow> counter (sem s) \<noteq> 0)
     \<and> (threads s ! i = T_wait W_wait \<longrightarrow> counter (sem s) = 0))
     \<and> 0 \<notin> sem_cond (sem s)
     \<and> (\<forall>i. Suc i \<in> sem_cond (sem s) \<longrightarrow> i < length (threads s) \<and> threads s ! i = T_wait W_blocked)"

text \<open>No lost wake-up: a post that sleepers have not heard of is still to be signalled, or somebody is awake.\<close>

definition wake_inv :: "sem_sys \<Rightarrow> bool" where
  "wake_inv s \<longleftrightarrow> counter (sem s) \<noteq> 0 \<and> sem_cond (sem s) \<noteq> {} \<longrightarrow>
     main_signals (main_at s) \<or> (\<exists>i<length (threads s). Suc i \<notin> sem_cond (sem s))"

definition sem_inv :: "sem_sys \<Rightarrow> bool" where
  "sem_inv s \<longleftrightarrow> lock_inv s \<and> pos_inv s \<and> wake_inv s"

lemmas sem_inv_defs = sem_inv_def lock_inv_def pos_inv_def wake_inv_def

lemma holding_simps [simp]:
  "holding (T_wait W_test)" "holding (T_wait W_wait)" "holding (T_wait W_dec)" "holding (T_wait W_unlock)"
  "\<not> holding (T_wait W_lock)" "\<not> holding (T_wait W_blocked)" "\<not> holding T_print"
  by (auto simp: holding_def)

lemma main_pos_simps [simp]:
  "main_holding (M_post i n p) \<longleftrightarrow> p = P_inc \<or> p = P_unlock" "\<not> main_holding M_read_size" "\<not> main_holding (M_create i)"
  "\<not> main_holding M_command" "\<not> main_holding M_read_n" "\<not> main_holding (M_join i)" "\<not> main_holding M_exit"
  "\<not> main_holding (post_at i n)"
  "main_signals (M_post i n p) \<longleftrightarrow> p = P_unlock \<or> p = P_signal"
  by (auto simp: main_holding_def main_signals_def post_at_def)

lemma sem_inv_init: "sem_init_state input s \<Longrightarrow> sem_inv s"
  by (auto simp: sem_init_state_def semaphore_init_def sem_inv_defs)

lemma mem_cond_pos: "pos_inv s \<Longrightarrow> i < length (threads s) \<Longrightarrow> threads s ! i \<noteq> T_wait W_blocked \<Longrightarrow> Suc i \<notin> sem_cond (sem s)"
  by (auto simp: pos_inv_def)

lemma lock_unique:
  "lock_inv s \<Longrightarrow> i < length (threads s) \<Longrightarrow> j < length (threads s) \<Longrightarrow> holding (threads s ! i) \<Longrightarrow> holding (threads s ! j) \<Longrightarrow> i = j"
  "lock_inv s \<Longrightarrow> i < length (threads s) \<Longrightarrow> holding (threads s ! i) \<Longrightarrow> \<not> main_holding (main_at s)"
  by (auto simp: lock_inv_def)

text \<open>Inversion of the steps, with the resulting state as an equation.\<close>

lemma thr_fnE:
  assumes "thr_fn ptr s (Some s')"
  obtains (wait) i pc pc' sm where "i < length (threads s)" "threads s ! i = T_wait pc"
      "semaphore_wait (Suc i) (pc, sem s) (Some (pc', sm))"
      "s' = s\<lparr>sem := sm, threads := (threads s)[i := (case pc' of None \<Rightarrow> T_print | Some p \<Rightarrow> T_wait p)]\<rparr>"
    | (print) i where "i < length (threads s)" "threads s ! i = T_print"
      "s' = s\<lparr>threads := (threads s)[i := T_wait W_lock], outp := outp s @ ''['' @ ptr i @ '']: Woke up\<newline>''\<rparr>"
  using assms by (cases rule: thr_fn.cases) (auto simp: Some_eq_bind_conv)

lemma semaphore_waitE:
  assumes "semaphore_wait t (pc, s) (Some (pc', s'))"
  obtains (lock) "pc = W_lock" "pc' = Some W_test" "sem_lock s = None" "s' = s\<lparr>sem_lock := Some t\<rparr>"
    | (test) "pc = W_test" "pc' = Some (if counter s = 0 then W_wait else W_dec)" "s' = s"
    | (wait) "pc = W_wait" "pc' = Some W_blocked" "sem_lock s = Some t" "s' = s\<lparr>sem_lock := None, sem_cond := insert t (sem_cond s)\<rparr>"
    | (spurious) "pc = W_blocked" "pc' = Some W_blocked" "t \<in> sem_cond s" "s' = s\<lparr>sem_cond := sem_cond s - {t}\<rparr>"
    | (relock) "pc = W_blocked" "pc' = Some W_test" "t \<notin> sem_cond s" "sem_lock s = None" "s' = s\<lparr>sem_lock := Some t\<rparr>"
    | (dec) "pc = W_dec" "pc' = Some W_unlock" "s' = s\<lparr>counter := counter s - 1\<rparr>"
    | (unlock) "pc = W_unlock" "pc' = None" "sem_lock s = Some t" "s' = s\<lparr>sem_lock := None\<rparr>"
  using assms by (cases rule: semaphore_wait.cases) (auto simp: Some_eq_bind_conv mutex_unlock_iff)

lemma semaphore_postE:
  assumes "semaphore_post t (pc, s) (Some (pc', s'))"
  obtains (lock) "pc = P_lock" "pc' = Some P_inc" "sem_lock s = None" "s' = s\<lparr>sem_lock := Some t\<rparr>"
    | (inc) "pc = P_inc" "pc' = Some P_unlock" "s' = s\<lparr>counter := counter s + 1\<rparr>"
    | (unlock) "pc = P_unlock" "pc' = Some P_signal" "sem_lock s = Some t" "s' = s\<lparr>sem_lock := None\<rparr>"
    | (signal) w where "pc = P_signal" "pc' = None" "cond_signal (sem_cond s) w" "s' = s\<lparr>sem_cond := w\<rparr>"
  using assms by (cases rule: semaphore_post.cases) (auto simp: Some_eq_bind_conv mutex_unlock_iff)

text \<open>
  A step of \<open>main\<close> outside \<open>semaphore_post\<close> leaves the semaphore alone, keeps the threads it
  has and may create one more.
\<close>

lemma sem_mainE:
  assumes "sem_main ptr s (Some s')"
  obtains (post) i n pc pc' sm where "main_at s = M_post i n pc" "semaphore_post 0 (pc, sem s) (Some (pc', sm))"
      "sem s' = sm" "threads s' = threads s" "main_at s' = (case pc' of Some p \<Rightarrow> M_post i n p | None \<Rightarrow> post_at (i + 1) n)"
    | (other) "sem s' = sem s" "threads s' = threads s \<or> threads s' = threads s @ [T_wait W_lock]"
      "\<And>i n pc. main_at s \<noteq> M_post i n pc" "\<not> main_holding (main_at s')"
  using assms
proof (cases rule: sem_main.cases)
  case (m_post i n pc r)
  then obtain pc' sm where r: "r = Some (pc', sm)" by (auto simp: Some_eq_bind_conv)
  show ?thesis by (rule post[of i n pc pc' sm]) (use m_post r in \<open>cases pc'; auto\<close>)+
qed (auto simp: Some_eq_bind_conv Let_def split: if_splits)

subsection \<open>Every step keeps it\<close>

lemma thr_lock_inv:
  assumes "lock_inv s" "thr_fn ptr s (Some s')"
  shows "lock_inv s'"
  using assms(2)
proof (cases rule: thr_fnE)
  case (wait i pc pc' sm)
  from wait(3,1,2,4) assms(1) show ?thesis
    by (cases rule: semaphore_waitE) (auto simp: lock_inv_def nth_list_update)
qed (use assms(1) in \<open>auto simp: lock_inv_def nth_list_update\<close>)

lemma thr_pos_inv:
  assumes "lock_inv s" "pos_inv s" "thr_fn ptr s (Some s')"
  shows "pos_inv s'"
  using assms(3)
proof (cases rule: thr_fnE)
  case (wait i pc pc' sm)
  note c = mem_cond_pos[OF assms(2) wait(1)]
  have u: "\<forall>j<length (threads s). j \<noteq> i \<and> holding (T_wait pc) \<longrightarrow> threads s ! j \<noteq> T_wait W_dec \<and> threads s ! j \<noteq> T_wait W_wait"
    using lock_unique(1)[OF assms(1) wait(1)] wait(2) by fastforce
  from wait(3,1,2,4) assms(2) c u show ?thesis
    by (cases rule: semaphore_waitE) (auto simp: pos_inv_def nth_list_update)
qed (use assms(2) in \<open>auto simp: pos_inv_def nth_list_update\<close>)

lemma thr_wake_inv:
  assumes "pos_inv s" "wake_inv s" "thr_fn ptr s (Some s')"
  shows "wake_inv s'"
  using assms(3)
proof (cases rule: thr_fnE)
  case (wait i pc pc' sm)
  note c = mem_cond_pos[OF assms(1) wait(1)]
  from wait(3,1,2,4) assms(1,2) c show ?thesis
    by (cases rule: semaphore_waitE) (auto simp: pos_inv_def wake_inv_def)
qed (use assms(2) in \<open>auto simp: wake_inv_def\<close>)

lemma main_lock_inv:
  assumes "lock_inv s" "sem_main ptr s (Some s')"
  shows "lock_inv s'"
  using assms(2)
proof (cases rule: sem_mainE)
  case (post i n pc pc' sm)
  from post(2,1,3-5) assms(1) show ?thesis
    by (cases rule: semaphore_postE) (auto simp: lock_inv_def)
next
  case other
  then have "\<not> main_holding (main_at s)" by (auto simp: main_holding_def)
  with other assms(1) show ?thesis by (auto simp: lock_inv_def nth_append less_Suc_eq)
qed

lemma main_pos_inv:
  assumes "lock_inv s" "pos_inv s" "sem_main ptr s (Some s')"
  shows "pos_inv s'"
  using assms(3)
proof (cases rule: sem_mainE)
  case (post i n pc pc' sm)
  have u: "\<forall>j<length (threads s). main_holding (main_at s) \<longrightarrow> threads s ! j \<noteq> T_wait W_dec \<and> threads s ! j \<noteq> T_wait W_wait"
    using lock_unique(2)[OF assms(1)] by fastforce
  from post(2,1,3-5) assms(2) u show ?thesis
    by (cases rule: semaphore_postE) (auto simp: pos_inv_def dest: cond_signal_mono)
qed (use assms(2) in \<open>auto simp: pos_inv_def nth_append less_Suc_eq\<close>)

lemma main_wake_inv:
  assumes "pos_inv s" "wake_inv s" "sem_main ptr s (Some s')"
  shows "wake_inv s'"
  using assms(3)
proof (cases rule: sem_mainE)
  case (post i n pc pc' sm)
  from post(2) show ?thesis
  proof (cases rule: semaphore_postE)
    case (signal w)
    show ?thesis
    proof (cases "sem_cond (sem s) = {}")
      case False
      then obtain t where "t \<in> sem_cond (sem s)" "t \<notin> w" using cond_signal_wakes[OF signal(3)] by blast
      then obtain j where "j < length (threads s)" "Suc j \<notin> w" using assms(1) by (cases t) (auto simp: pos_inv_def)
      with signal post show ?thesis by (auto simp: wake_inv_def)
    qed (use signal post in \<open>auto simp: wake_inv_def\<close>)
  qed (use post assms(2) in \<open>auto simp: wake_inv_def\<close>)
next
  case other
  then have "\<not> main_signals (main_at s)" by (auto simp: main_signals_def)
  with other assms(2) show ?thesis by (auto simp: wake_inv_def less_Suc_eq)
qed

lemma sem_inv_step:
  assumes "sem_inv s" "sem_step ptr s (Some s')"
  shows "sem_inv s'"
  using assms unfolding sem_inv_def sem_step_def
  by (blast intro: thr_lock_inv thr_pos_inv thr_wake_inv main_lock_inv main_pos_inv main_wake_inv)

interpretation sem: thread_invariant "sem_init_state input" "sem_step ptr" sem_inv
  by unfold_locales (blast intro: sem_inv_init sem_inv_step)+

text \<open>
  \<open>main\<close> has created \<open>threads_sz\<close> threads when it comes to join them, and passes the loop
  only if there are none: the semaphore it then destroys is free and nobody waits on it.
\<close>

definition created_inv :: "sem_sys \<Rightarrow> bool" where
  "created_inv s \<longleftrightarrow> (case main_at s of
       M_read_size \<Rightarrow> threads s = []
     | M_create i \<Rightarrow> length (threads s) = i \<and> i \<le> threads_sz s
     | M_join i \<Rightarrow> i = 0 \<and> length (threads s) = threads_sz s
     | _ \<Rightarrow> length (threads s) = threads_sz s)"

lemma created_inv_thr: "thr_fn ptr s (Some s') \<Longrightarrow> created_inv s \<Longrightarrow> created_inv s'"
  by (erule thr_fnE) (auto simp: created_inv_def split: main_pc.splits)

lemma created_inv_main: "sem_main ptr s (Some s') \<Longrightarrow> created_inv s \<Longrightarrow> created_inv s'"
  by (erule sem_main.cases)
     (auto simp: created_inv_def Some_eq_bind_conv Let_def post_at_def split: if_splits option.splits)

interpretation created: thread_invariant "sem_init_state input" "sem_step ptr" created_inv
proof unfold_locales
  show "created_inv s" if "sem_init_state input s" for s
    using that by (simp add: sem_init_state_def semaphore_init_def created_inv_def)
  show "created_inv s'" if "created_inv s" "sem_step ptr s (Some s')" for s s'
    using that by (auto simp: sem_step_def intro: created_inv_thr created_inv_main)
qed

lemma semaphore_destroy_defined:
  assumes "reach (sem_init_state input) (sem_step ptr) s" "main_at s = M_join i" "\<not> i < threads_sz s"
  shows "semaphore_destroy (sem s) = Some ()"
proof -
  have t: "threads s = []" using created.inv_reach[OF assms(1)] assms(2,3) by (simp add: created_inv_def)
  have inv: "lock_inv s" "pos_inv s" using sem.inv_reach[OF assms(1)] by (simp_all add: sem_inv_def)
  have "k \<notin> sem_cond (sem s)" for k using inv(2) t by (cases k) (auto simp: pos_inv_def)
  then have "sem_cond (sem s) = {}" by blast
  moreover have "sem_lock (sem s) \<noteq> Some k" for k using inv(1) t assms(2) by (cases k) (auto simp: lock_inv_def)
  then have "sem_lock (sem s) = None" by (cases "sem_lock (sem s)") auto
  ultimately show ?thesis by (simp add: semaphore_destroy_def)
qed

subsection \<open>Waits and posts\<close>

text \<open>
  A step that takes \<open>main\<close> past the increment is a post, one that takes a thread past the decrement
  is a wait. A run with the posts and waits it has made:
\<close>

definition is_post :: "sem_sys \<Rightarrow> sem_sys \<Rightarrow> bool" where
  "is_post s s' \<longleftrightarrow> (\<exists>i n. main_at s = M_post i n P_inc \<and> main_at s' \<noteq> main_at s)"

definition is_wait :: "sem_sys \<Rightarrow> sem_sys \<Rightarrow> bool" where
  "is_wait s s' \<longleftrightarrow> (\<exists>i<length (threads s). threads s ! i = T_wait W_dec \<and> threads s' ! i \<noteq> T_wait W_dec)"

inductive sem_run :: "(nat \<Rightarrow> string) \<Rightarrow> string \<Rightarrow> nat \<Rightarrow> nat \<Rightarrow> sem_sys \<Rightarrow> bool" for ptr input where
  run_init: "sem_init_state input s \<Longrightarrow> sem_run ptr input 0 0 s"
| run_step: "sem_run ptr input p w s \<Longrightarrow> sem_step ptr s (Some s') \<Longrightarrow>
     sem_run ptr input (if is_post s s' then Suc p else p) (if is_wait s s' then Suc w else w) s'"

lemma sem_run_reach: "sem_run ptr input p w s \<Longrightarrow> reach (sem_init_state input) (sem_step ptr) s"
  by (induction rule: sem_run.induct) (auto intro: reach.intros)

lemma thr_counts:
  assumes "thr_fn ptr s (Some s')" "sem_inv s"
  shows "\<not> is_post s s'" "counter (sem s') = (if is_wait s s' then counter (sem s) - 1 else counter (sem s))"
    "is_wait s s' \<Longrightarrow> counter (sem s) \<noteq> 0"
proof -
  show "\<not> is_post s s'" using assms(1) by (cases rule: thr_fnE) (auto simp: is_post_def)
  show "counter (sem s') = (if is_wait s s' then counter (sem s) - 1 else counter (sem s))"
    using assms(1)
  proof (cases rule: thr_fnE)
    case (wait i pc pc' sm)
    from wait(3,1,2,4) show ?thesis
      by (cases rule: semaphore_waitE) (auto simp: is_wait_def nth_list_update)
  qed (auto simp: is_wait_def nth_list_update)
  show "counter (sem s) \<noteq> 0" if "is_wait s s'"
    using that assms(2) by (auto simp: is_wait_def sem_inv_def pos_inv_def)
qed

lemma main_counts:
  assumes "sem_main ptr s (Some s')"
  shows "\<not> is_wait s s'" "counter (sem s') = (if is_post s s' then counter (sem s) + 1 else counter (sem s))"
proof -
  show "\<not> is_wait s s'" using assms by (cases rule: sem_mainE) (auto simp: is_wait_def nth_append)
  show "counter (sem s') = (if is_post s s' then counter (sem s) + 1 else counter (sem s))"
    using assms
  proof (cases rule: sem_mainE)
    case (post i n pc pc' sm)
    from post(2,1,3-5) show ?thesis by (cases rule: semaphore_postE) (auto simp: is_post_def)
  qed (auto simp: is_post_def)
qed

lemma unat_minus_one_pos: "c \<noteq> 0 \<Longrightarrow> unat (c - 1) + 1 = unat (c :: 64 word)"
  by (simp add: unat_minus_one unat_gt_0)

lemma unat_plus_one_less: "unat c + 1 < 2 ^ 64 \<Longrightarrow> unat (c + 1 :: 64 word) = unat c + 1"
  by (simp add: unat_word_ariths)

lemma sem_run_counts: "sem_run ptr input p w s \<Longrightarrow> p < 2 ^ 64 \<Longrightarrow> unat (counter (sem s)) + w = p"
proof (induction rule: sem_run.induct)
  case (run_init s)
  then show ?case by (auto simp: sem_init_state_def semaphore_init_def)
next
  case (run_step p w s s')
  have inv: "sem_inv s" by (rule sem.inv_reach[OF sem_run_reach[OF run_step.hyps(1)]])
  from run_step.hyps(2) consider "thr_fn ptr s (Some s')" | "sem_main ptr s (Some s')" by (auto simp: sem_step_def)
  then show ?case
  proof cases
    case 1
    note c = thr_counts[OF 1 inv]
    with run_step.IH run_step.prems unat_minus_one_pos[of "counter (sem s)"] show ?thesis by (cases "is_wait s s'") auto
  next
    case 2
    note c = main_counts[OF 2]
    show ?thesis
    proof (cases "is_post s s'")
      case True
      with run_step.prems have "p < 2 ^ 64" "Suc p < 2 ^ 64" by simp_all
      moreover from this(1) have "unat (counter (sem s)) + w = p" by (rule run_step.IH)
      ultimately show ?thesis using c True unat_plus_one_less[of "counter (sem s)"] by simp
    qed (use c run_step in simp)
  qed
qed

subsection \<open>A concrete run\<close>

text \<open>One thread, and a post up to the increment of the counter.\<close>

definition sample_sem :: "(nat \<Rightarrow> string) \<Rightarrow> sem_sys" where
  "sample_sem ptr =
     \<lparr>sem = \<lparr>sem_cond = {}, sem_lock = Some 0, counter = 1\<rparr>, threads = [T_wait W_lock], threads_sz = 1,
      main_at = M_post 0 1 P_unlock, inp = [],
      outp = sem_banner @ ''Creating 1 threads\<newline>Thread created: '' @ ptr 0 @ ''\<newline>> '', errp = []\<rparr>"

lemma run_main:
  "sem_run ptr input p w s \<Longrightarrow> sem_main ptr s r \<Longrightarrow> r = Some s' \<Longrightarrow> \<not> is_post s s' \<Longrightarrow> \<not> is_wait s s' \<Longrightarrow> sem_run ptr input p w s'"
  using run_step[of ptr input p w s s'] by (simp add: sem_step_def)

lemma sample_scanf:
  "scanf ''%zu'' ''1 P 1'' = Some \<lparr>sr_args = [IntA 1], sr_eof = False, sr_rest = '' P 1''\<rparr>"
  "scanf '' %c'' '' P 1'' = Some \<lparr>sr_args = [ChrA (CHR ''P'')], sr_eof = False, sr_rest = '' 1''\<rparr>"
  "scanf ''%u'' '' 1'' = Some \<lparr>sr_args = [IntA 1], sr_eof = False, sr_rest = []\<rparr>"
  "show_int 1 = ''1''"
  by code_simp+

lemma sample_sem_run: "sem_run ptr ''1 P 1'' 1 0 (sample_sem ptr)"
proof -
  let ?sem = "\<lambda>m c. \<lparr>sem_cond = {}, sem_lock = m, counter = c\<rparr>"
  let ?st = "\<lambda>sm ts n m i out. \<lparr>sem = sm, threads = ts, threads_sz = n, main_at = m, inp = i, outp = sem_banner @ out, errp = []\<rparr>"
  let ?T = "[T_wait W_lock]" and ?o = "''Creating 1 threads\<newline>''" and ?o2 = "''Thread created: '' @ ptr 0 @ ''\<newline>''"
  have b: "printf sem_banner [] = sem_banner" by (simp add: sem_banner_def)
  have "sem_run ptr ''1 P 1'' 0 0 (?st (?sem None 0) [] 0 M_read_size ''1 P 1'' [])"
    by (rule run_init) (simp add: sem_init_state_def semaphore_init_def b)
  then have "sem_run ptr ''1 P 1'' 0 0 (?st (?sem None 0) [] 1 (M_create 0) '' P 1'' ?o)"
    by (rule run_main[OF _ m_read_size])
       (simp_all add: sample_scanf show_conv_def show_eval is_post_def is_wait_def)
  then have "sem_run ptr ''1 P 1'' 0 0 (?st (?sem None 0) ?T 1 (M_create 1) '' P 1'' (?o @ ?o2))"
    by (rule run_main[OF _ m_create[where i = 0]]) (simp_all add: is_post_def is_wait_def)
  then have "sem_run ptr ''1 P 1'' 0 0 (?st (?sem None 0) ?T 1 M_command '' P 1'' (?o @ ?o2 @ ''> ''))"
    by (rule run_main[OF _ m_created[where i = 1]]) (simp_all add: is_post_def is_wait_def)
  then have "sem_run ptr ''1 P 1'' 0 0 (?st (?sem None 0) ?T 1 M_read_n '' 1'' (?o @ ?o2 @ ''> ''))"
    by (rule run_main[OF _ m_command]) (simp_all add: sample_scanf is_post_def is_wait_def)
  then have "sem_run ptr ''1 P 1'' 0 0 (?st (?sem None 0) ?T 1 (M_post 0 1 P_lock) [] (?o @ ?o2 @ ''> ''))"
    by (rule run_main[OF _ m_read_n]) (simp_all add: sample_scanf is_post_def is_wait_def post_at_def prompt_def)
  then have r: "sem_run ptr ''1 P 1'' 0 0 (?st (?sem (Some 0) 0) ?T 1 (M_post 0 1 P_inc) [] (?o @ ?o2 @ ''> ''))"
    by (rule run_main[OF _ m_post[OF _ p_lock]]) (simp_all add: is_post_def is_wait_def)
  let ?s = "?st (?sem (Some 0) 0) ?T 1 (M_post 0 1 P_inc) [] (?o @ ?o2 @ ''> '')"
  have "sem_main ptr ?s (Some (sample_sem ptr))"
    using m_post[where s = ?s and i = 0 and n = 1 and pc = P_inc and ptr = ptr, OF _ p_inc] by (simp add: sample_sem_def)
  then have "sem_step ptr ?s (Some (sample_sem ptr))" by (simp add: sem_step_def)
  moreover have "is_post ?s (sample_sem ptr)" "\<not> is_wait ?s (sample_sem ptr)"
    by (simp_all add: is_post_def is_wait_def sample_sem_def)
  ultimately show ?thesis using run_step[OF r, of "sample_sem ptr"] by simp
qed

subsection \<open>The promises of the semaphore\<close>

lemma awake_step:
  assumes "i < length (threads s)" "lock_inv s" "Suc i \<notin> sem_cond (sem s)"
    "sem_lock (sem s) = None \<or> sem_lock (sem s) = Some (Suc i)"
  shows "threads s ! i = T_print \<or> (\<exists>pc r. threads s ! i = T_wait pc \<and> semaphore_wait (Suc i) (pc, sem s) (Some r))"
proof (cases "threads s ! i")
  case (T_wait pc)
  have "\<exists>r. semaphore_wait (Suc i) (pc, sem s) (Some r)"
  proof (cases "holding (T_wait pc)")
    case True
    then have "sem_lock (sem s) = Some (Suc i)" using assms(1,2) T_wait unfolding lock_inv_def by metis
    then show ?thesis using True w_test[of "Suc i" "sem s"] w_wait[of "Suc i" "sem s"] w_dec[of "Suc i" "sem s"] w_unlock[of "Suc i" "sem s"]
      by (auto simp: holding_def)
  next
    case False
    then have n: "sem_lock (sem s) = None" using assms(1,2,4) T_wait by (auto simp: lock_inv_def)
    have "pc = W_lock \<or> pc = W_blocked" using False by (cases pc) auto
    then show ?thesis using n assms(3) w_lock[of "Suc i" "sem s"] w_relock[of "Suc i" "sem s"] by auto
  qed
  with T_wait show ?thesis by blast
qed simp

text \<open>
  Property C15. In every interleaving of the threads with \<open>main\<close>, the number of completed waits
  never exceeds the number of posts, and the counter is the difference, as long as there were fewer than
  \<open>2\<^sup>6\<^sup>4\<close> posts; the counter never wraps below zero.
\<close>

theorem semaphore_counts:
  assumes "sem_run ptr input posts waits s" "posts < 2 ^ 64"
  shows "waits \<le> posts \<and> unat (counter (sem s)) = posts - waits"
  using sem_run_counts[OF assms] by auto

theorem semaphore_counts_witness:
  "\<exists>s. sem_run (\<lambda>_. ''0x1'') ''1 P 1'' 1 0 s \<and> (0::nat) \<le> 1 \<and> unat (counter (sem s)) = 1 - 0"
  using semaphore_counts[OF sample_sem_run[of "\<lambda>_. ''0x1''"]] sample_sem_run[of "\<lambda>_. ''0x1''"] by auto

text \<open>
  Property C37. No wake-up is lost, although the signal is sent after the lock was released: whenever the
  counter is positive and there are threads, either \<open>main\<close> is inside a post and can take its next
  step, or a thread that is not blocked on the condition variable can.
\<close>

theorem semaphore_no_lost_wakeup:
  assumes "reach (sem_init_state input) (sem_step ptr) s" "counter (sem s) \<noteq> 0" "threads s \<noteq> []"
  shows "(\<exists>i n pc r. main_at s = M_post i n pc \<and> semaphore_post 0 (pc, sem s) (Some r))
    \<or> (\<exists>i<length (threads s). Suc i \<notin> sem_cond (sem s)
         \<and> (threads s ! i = T_print \<or> (\<exists>pc r. threads s ! i = T_wait pc \<and> semaphore_wait (Suc i) (pc, sem s) (Some r))))"
proof -
  have inv: "lock_inv s" "pos_inv s" "wake_inv s" using sem.inv_reach[OF assms(1)] by (simp_all add: sem_inv_def)
  have thr: "threads s ! i = T_print \<or> (\<exists>pc r. threads s ! i = T_wait pc \<and> semaphore_wait (Suc i) (pc, sem s) (Some r))"
    if "i < length (threads s)" "Suc i \<notin> sem_cond (sem s)" "sem_lock (sem s) = None \<or> sem_lock (sem s) = Some (Suc i)" for i
    using that inv(1) awake_step[of i s] by blast
  show ?thesis
  proof (cases "sem_lock (sem s)")
    case None
    consider "main_signals (main_at s)" | i where "i < length (threads s)" "Suc i \<notin> sem_cond (sem s)"
      using inv(3) assms(2,3) unfolding wake_inv_def by (cases "sem_cond (sem s) = {}") auto
    then show ?thesis
    proof cases
      case 1
      then obtain i n where "main_at s = M_post i n P_signal"
        using None inv(1) by (auto simp: main_signals_def lock_inv_def)
      moreover obtain w where "cond_signal (sem_cond (sem s)) w" using cond_signal_enabled by blast
      ultimately show ?thesis using p_signal by blast
    qed (use None thr in blast)
  next
    case (Some t)
    then show ?thesis
    proof (cases t)
      case 0
      with Some inv(1) have "main_holding (main_at s)" by (simp add: lock_inv_def)
      then show ?thesis using p_inc[of 0 "sem s"] p_unlock[of 0 "sem s"] Some 0 by (fastforce simp: main_holding_def)
    next
      case (Suc i)
      with Some inv(1) have i: "i < length (threads s)" "holding (threads s ! i)" by (simp_all add: lock_inv_def)
      then have "Suc i \<notin> sem_cond (sem s)" using mem_cond_pos[OF inv(2)] by fastforce
      then show ?thesis using thr[of i] i Some Suc by blast
    qed
  qed
qed

theorem semaphore_no_lost_wakeup_witness:
  "\<exists>s :: sem_sys. counter (sem s) = 1 \<and> threads s = [T_wait W_lock] \<and>
    ((\<exists>i n pc r. main_at s = M_post i n pc \<and> semaphore_post 0 (pc, sem s) (Some r))
    \<or> (\<exists>i<length (threads s). Suc i \<notin> sem_cond (sem s)
         \<and> (threads s ! i = T_print \<or> (\<exists>pc r. threads s ! i = T_wait pc \<and> semaphore_wait (Suc i) (pc, sem s) (Some r)))))"
  using semaphore_no_lost_wakeup[OF sem_run_reach[OF sample_sem_run[of "\<lambda>_. ''0x1''"]]]
  by (intro exI[of _ "sample_sem (\<lambda>_. ''0x1'')"]) (simp add: sample_sem_def)

end
