(* ===== verification/Barrier.thy ===== *)
theory Barrier
  imports Pthreads C_Stdio "HOL-Library.Word"
begin

text \<open>
  \<open>threads/barriers/barrier.c\<close>: a barrier made of a mutex, a condition variable and a counter, and
  the program in which eight threads increment a shared counter and meet at the barrier after every
  250000 increments.

  \<open>thread_barrier_wait\<close> waits on the condition variable once, not in a loop. Whether the system
  ever wakes a thread up spuriously, as POSIX allows, is the parameter \<open>sp\<close> of the step relation.
\<close>

record thread_barrier =
  target :: "64 word"
  counter :: "64 word"
  condv :: condvar
  lock :: mutex

definition thread_barrier_init :: "int \<Rightarrow> int \<Rightarrow> 32 word \<Rightarrow> thread_barrier + int" where
  "thread_barrier_init cond_res mutex_res n =
     (if cond_res < 0 then Inr (- 1)
      else if mutex_res < 0 then Inr (- 1)
      else Inl \<lparr>target = ucast n, counter = 0, condv = {}, lock = None\<rparr>)"

definition thread_barrier_destroy :: "thread_barrier \<Rightarrow> unit c" where
  "thread_barrier_destroy b = do { _ \<leftarrow> mutex_destroy (lock b); cond_destroy (condv b) }"

datatype bar_pc = B_lock | B_inc | B_reset | B_broadcast | B_unlock_last | B_wait | B_blocked | B_unlock

definition PTHREAD_BARRIER_SERIAL_THREAD :: int where "PTHREAD_BARRIER_SERIAL_THREAD = - 1"

text \<open>A position of the function, or what it returned.\<close>

inductive thread_barrier_wait :: "bool \<Rightarrow> tid \<Rightarrow> bar_pc \<times> thread_barrier \<Rightarrow> ((bar_pc + int) \<times> thread_barrier) c \<Rightarrow> bool"
  for sp t where
  b_lock: "mutex_lock t (lock b) = Some m \<Longrightarrow>
     thread_barrier_wait sp t (B_lock, b) (Some (Inl B_inc, b\<lparr>lock := m\<rparr>))"
| b_inc: "thread_barrier_wait sp t (B_inc, b)
     (Some (Inl (if counter b + 1 = target b then B_reset else B_wait), b\<lparr>counter := counter b + 1\<rparr>))"
| b_reset: "thread_barrier_wait sp t (B_reset, b) (Some (Inl B_broadcast, b\<lparr>counter := 0\<rparr>))"
| b_broadcast: "thread_barrier_wait sp t (B_broadcast, b)
     (Some (Inl B_unlock_last, b\<lparr>condv := cond_broadcast (condv b)\<rparr>))"
| b_unlock_last: "thread_barrier_wait sp t (B_unlock_last, b)
     (do { m \<leftarrow> mutex_unlock t (lock b);
           Some (Inr PTHREAD_BARRIER_SERIAL_THREAD :: bar_pc + int, b\<lparr>lock := m\<rparr>) })"
| b_wait: "thread_barrier_wait sp t (B_wait, b)
     (do { m \<leftarrow> mutex_unlock t (lock b);
           Some (Inl B_blocked :: bar_pc + int, b\<lparr>lock := m, condv := insert t (condv b)\<rparr>) })"
| b_spurious: "sp \<Longrightarrow> t \<in> condv b \<Longrightarrow>
     thread_barrier_wait sp t (B_blocked, b) (Some (Inl B_blocked, b\<lparr>condv := condv b - {t}\<rparr>))"
| b_relock: "t \<notin> condv b \<Longrightarrow> mutex_lock t (lock b) = Some m \<Longrightarrow>
     thread_barrier_wait sp t (B_blocked, b) (Some (Inl B_unlock, b\<lparr>lock := m\<rparr>))"
| b_unlock: "thread_barrier_wait sp t (B_unlock, b)
     (do { m \<leftarrow> mutex_unlock t (lock b); Some (Inr 0 :: bar_pc + int, b\<lparr>lock := m\<rparr>) })"

subsection \<open>The program\<close>

definition target_value :: nat where "target_value = 8000000"
definition sync_step :: nat where "sync_step = 250000"
definition thread_inc :: nat where "thread_inc = 1000000"
definition threads_no :: nat where "threads_no = target_value div thread_inc"

text \<open>The positions of \<open>thr_fn\<close>, with its variable \<open>i\<close>; \<open>T_none\<close> is a thread not yet created.\<close>

datatype bthr_pc = T_none | T_test nat | T_lock nat | T_inc nat | T_unlock nat | T_check nat | T_print nat
  | T_barrier nat bar_pc | T_report nat int | T_done

datatype bmain_pc = M_create nat | M_join nat | M_exit

record bar_sys =
  barrier :: thread_barrier
  counter_lock :: mutex
  total :: "64 word"
  thrs :: "bthr_pc list"
  bmain_at :: bmain_pc
  bout :: string

inductive bthr_fn :: "bool \<Rightarrow> (nat \<Rightarrow> string) \<Rightarrow> bar_sys \<Rightarrow> bar_sys c \<Rightarrow> bool" for sp ptr where
  t_test: "t < length (thrs s) \<Longrightarrow> thrs s ! t = T_test i \<Longrightarrow>
     bthr_fn sp ptr s (Some (s\<lparr>thrs := (thrs s)[t := (if i \<le> thread_inc then T_lock i else T_done)]\<rparr>))"
| t_lock: "t < length (thrs s) \<Longrightarrow> thrs s ! t = T_lock i \<Longrightarrow> mutex_lock t (counter_lock s) = Some m \<Longrightarrow>
     bthr_fn sp ptr s (Some (s\<lparr>counter_lock := m, thrs := (thrs s)[t := T_inc i]\<rparr>))"
| t_inc: "t < length (thrs s) \<Longrightarrow> thrs s ! t = T_inc i \<Longrightarrow>
     bthr_fn sp ptr s (Some (s\<lparr>total := total s + 1, thrs := (thrs s)[t := T_unlock i]\<rparr>))"
| t_unlock: "t < length (thrs s) \<Longrightarrow> thrs s ! t = T_unlock i \<Longrightarrow>
     bthr_fn sp ptr s (do { m \<leftarrow> mutex_unlock t (counter_lock s);
       Some (s\<lparr>counter_lock := m, thrs := (thrs s)[t := T_check i]\<rparr>) })"
| t_check: "t < length (thrs s) \<Longrightarrow> thrs s ! t = T_check i \<Longrightarrow>
     bthr_fn sp ptr s (Some (s\<lparr>thrs := (thrs s)[t := (if i mod sync_step = 0 then T_print i else T_test (i + 1))]\<rparr>))"
| t_print: "t < length (thrs s) \<Longrightarrow> thrs s ! t = T_print i \<Longrightarrow>
     bthr_fn sp ptr s (Some (s\<lparr>thrs := (thrs s)[t := T_barrier i B_lock], bout := bout s @ ''['' @ ptr t @ ''] Waiting...\<newline>''\<rparr>))"
| t_barrier: "t < length (thrs s) \<Longrightarrow> thrs s ! t = T_barrier i pc \<Longrightarrow> thread_barrier_wait sp t (pc, barrier s) r \<Longrightarrow>
     bthr_fn sp ptr s (do { (pc', b) \<leftarrow> r;
       Some (s\<lparr>barrier := b, thrs := (thrs s)[t := (case pc' of Inl p \<Rightarrow> T_barrier i p | Inr x \<Rightarrow> T_report i x)]\<rparr>) })"
| t_report: "t < length (thrs s) \<Longrightarrow> thrs s ! t = T_report i x \<Longrightarrow>
     bthr_fn sp ptr s (Some (s\<lparr>thrs := (thrs s)[t := T_test (i + 1)],
       bout := bout s @ ''['' @ ptr t @ (if x = PTHREAD_BARRIER_SERIAL_THREAD then ''] Last on the barrier\<newline>'' else ''] Woke up\<newline>'')\<rparr>))"

inductive bar_main :: "bar_sys \<Rightarrow> bar_sys c \<Rightarrow> bool" where
  bm_create: "bmain_at s = M_create i \<Longrightarrow> i < threads_no \<Longrightarrow>
     bar_main s (Some (s\<lparr>thrs := (thrs s)[i := T_test 1], bmain_at := M_create (i + 1)\<rparr>))"
| bm_created: "bmain_at s = M_create i \<Longrightarrow> \<not> i < threads_no \<Longrightarrow> bar_main s (Some (s\<lparr>bmain_at := M_join 0\<rparr>))"
| bm_join: "bmain_at s = M_join i \<Longrightarrow> i < threads_no \<Longrightarrow> thrs s ! i = T_done \<Longrightarrow>
     bar_main s (Some (s\<lparr>bmain_at := M_join (i + 1)\<rparr>))"
| bm_print: "bmain_at s = M_join i \<Longrightarrow> \<not> i < threads_no \<Longrightarrow>
     bar_main s (Some (s\<lparr>bmain_at := M_exit, bout := bout s @ printf ''All done, counter = %lld\<newline>'' [IntA (sint (total s))]\<rparr>))"

definition bar_init_state :: "bar_sys \<Rightarrow> bool" where
  "bar_init_state s \<longleftrightarrow>
     (case thread_barrier_init 0 0 (of_nat threads_no) of
        Inr _ \<Rightarrow> False
      | Inl b \<Rightarrow> s = \<lparr>barrier = b, counter_lock = None, total = 0, thrs = replicate threads_no T_none,
                      bmain_at = M_create 0, bout = []\<rparr>)"

definition bar_step :: "bool \<Rightarrow> (nat \<Rightarrow> string) \<Rightarrow> bar_sys \<Rightarrow> bar_sys c \<Rightarrow> bool" where
  "bar_step sp ptr s r \<longleftrightarrow> bthr_fn sp ptr s r \<or> bar_main s r"

end
