(* ===== verification/Barrier_Proofs.thy ===== *)
theory Barrier_Proofs
  imports Barrier
begin

text \<open>
  Without spurious wake-ups the barrier keeps its eight threads in step; with them it does not. The
  shared counter ends at its target value either way.
\<close>

lemma const_simps [simp]: "threads_no = 8" "sync_step = 250000" "thread_inc = 1000000"
  by (simp_all add: threads_no_def target_value_def thread_inc_def sync_step_def)

subsection \<open>What the positions say\<close>

fun incs :: "bthr_pc \<Rightarrow> nat" where
  "incs T_none = 0"
| "incs (T_test i) = i - 1"
| "incs (T_lock i) = i - 1"
| "incs (T_inc i) = i - 1"
| "incs (T_unlock i) = i"
| "incs (T_check i) = i"
| "incs (T_print i) = i"
| "incs (T_barrier i p) = i"
| "incs (T_report i x) = i"
| "incs T_done = thread_inc"

text \<open>The barriers a thread has returned from, and those where it was counted.\<close>

fun passed :: "bthr_pc \<Rightarrow> nat" where
  "passed T_none = 0"
| "passed (T_test i) = (i - 1) div sync_step"
| "passed (T_lock i) = (i - 1) div sync_step"
| "passed (T_inc i) = (i - 1) div sync_step"
| "passed (T_unlock i) = (i - 1) div sync_step"
| "passed (T_check i) = (i - 1) div sync_step"
| "passed (T_print i) = (i - 1) div sync_step"
| "passed (T_barrier i p) = (i - 1) div sync_step"
| "passed (T_report i x) = i div sync_step"
| "passed T_done = thread_inc div sync_step"

definition arrived :: "bthr_pc \<Rightarrow> nat" where
  "arrived pc = (case pc of T_barrier i p \<Rightarrow> if p = B_lock \<or> p = B_inc then (i - 1) div sync_step else i div sync_step
     | _ \<Rightarrow> passed pc)"

fun wf_pc :: "bthr_pc \<Rightarrow> bool" where
  "wf_pc (T_test i) \<longleftrightarrow> 1 \<le> i \<and> i \<le> thread_inc + 1"
| "wf_pc (T_lock i) \<longleftrightarrow> 1 \<le> i \<and> i \<le> thread_inc"
| "wf_pc (T_inc i) \<longleftrightarrow> 1 \<le> i \<and> i \<le> thread_inc"
| "wf_pc (T_unlock i) \<longleftrightarrow> 1 \<le> i \<and> i \<le> thread_inc"
| "wf_pc (T_check i) \<longleftrightarrow> 1 \<le> i \<and> i \<le> thread_inc"
| "wf_pc (T_print i) \<longleftrightarrow> 1 \<le> i \<and> i \<le> thread_inc \<and> i mod sync_step = 0"
| "wf_pc (T_barrier i p) \<longleftrightarrow> 1 \<le> i \<and> i \<le> thread_inc \<and> i mod sync_step = 0"
| "wf_pc (T_report i x) \<longleftrightarrow> 1 \<le> i \<and> i \<le> thread_inc \<and> i mod sync_step = 0"
| "wf_pc pc \<longleftrightarrow> True"

definition bar_crit :: "bthr_pc \<Rightarrow> bool" where
  "bar_crit pc \<longleftrightarrow> (case pc of T_barrier i p \<Rightarrow> p \<noteq> B_lock \<and> p \<noteq> B_blocked | _ \<Rightarrow> False)"

definition cnt_crit :: "bthr_pc \<Rightarrow> bool" where
  "cnt_crit pc \<longleftrightarrow> (case pc of T_inc i \<Rightarrow> True | T_unlock i \<Rightarrow> True | _ \<Rightarrow> False)"

definition counted :: "thread_barrier \<Rightarrow> tid \<Rightarrow> bthr_pc \<Rightarrow> bool" where
  "counted b t pc \<longleftrightarrow> (case pc of
     T_barrier i p \<Rightarrow> p = B_reset \<or> p = B_broadcast \<or> p = B_wait \<or> p = B_blocked \<and> t \<in> condv b
   | _ \<Rightarrow> False)"

definition at_last :: "bthr_pc \<Rightarrow> bool" where
  "at_last pc \<longleftrightarrow> (case pc of T_barrier i p \<Rightarrow> p = B_reset \<or> p = B_broadcast | _ \<Rightarrow> False)"

definition at_broadcast :: "bthr_pc \<Rightarrow> bool" where
  "at_broadcast pc \<longleftrightarrow> (case pc of T_barrier i p \<Rightarrow> p = B_broadcast | _ \<Rightarrow> False)"

lemmas pos_defs = bar_crit_def cnt_crit_def counted_def at_last_def at_broadcast_def arrived_def

lemma div_pred: "Suc 0 \<le> i \<Longrightarrow> 0 < i mod k \<Longrightarrow> (i - Suc 0) div k = i div (k :: nat)"
  by (cases i) (simp_all add: div_Suc)

lemma div_pred_dvd: "1 \<le> i \<Longrightarrow> i mod k = 0 \<Longrightarrow> i div (k :: nat) = Suc ((i - 1) div k)"
  by (cases i) (simp_all add: div_Suc)

lemma arrived_incs: "wf_pc pc \<Longrightarrow> arrived pc * sync_step \<le> incs pc"
  by (cases pc) (auto simp: arrived_def intro: order_trans[OF div_times_less_eq_dividend])

lemma passed_arrived: "wf_pc pc \<Longrightarrow> passed pc \<le> arrived pc \<and> (counted b t pc \<longrightarrow> Suc (passed pc) = arrived pc)"
  by (cases pc) (auto simp: pos_defs div_pred_dvd)

lemma arrived_max: "wf_pc pc \<Longrightarrow> arrived pc \<le> thread_inc div sync_step"
proof (cases pc)
  case (T_test i)
  assume "wf_pc pc"
  with T_test have "i - 1 \<le> 1000000" by auto
  from div_le_mono[OF this, of 250000] show ?thesis using T_test by (simp add: arrived_def)
qed (auto simp: arrived_def)

subsection \<open>The invariants\<close>

text \<open>Locks, positions and the shared counter, with or without spurious wake-ups.\<close>

definition main_inv :: "bar_sys \<Rightarrow> bool" where
  "main_inv s \<longleftrightarrow> (case bmain_at s of
     M_create i \<Rightarrow> \<forall>t<8. thrs s ! t = T_none \<longleftrightarrow> i \<le> t
   | M_join i \<Rightarrow> (\<forall>t<8. thrs s ! t \<noteq> T_none) \<and> (\<forall>t<i. t < 8 \<longrightarrow> thrs s ! t = T_done)
   | M_exit \<Rightarrow> (\<forall>t<8. thrs s ! t = T_done)
       \<and> (\<exists>out. bout s = out @ printf ''All done, counter = %lld\<newline>'' [IntA (sint (total s))]))"

definition base_inv :: "bar_sys \<Rightarrow> bool" where
  "base_inv s \<longleftrightarrow> length (thrs s) = 8 \<and> target (barrier s) = 8
     \<and> excl bar_crit (lock (barrier s)) (thrs s) \<and> excl cnt_crit (counter_lock s) (thrs s)
     \<and> (\<forall>t. t \<in> condv (barrier s) \<longrightarrow> t < 8 \<and> (\<exists>i. thrs s ! t = T_barrier i B_blocked))
     \<and> (\<forall>t<8. wf_pc (thrs s ! t))"

definition total_inv :: "bar_sys \<Rightarrow> bool" where
  "total_inv s \<longleftrightarrow> total s = of_nat (sum_list (map incs (thrs s)))"

text \<open>
  The rounds: the threads counted at the barrier are one round ahead of all others, the last one to
  arrive finds all counted, and the counter of the barrier counts them.
\<close>

definition round_inv :: "thread_barrier \<Rightarrow> bthr_pc list \<Rightarrow> bool" where
  "round_inv b ts \<longleftrightarrow>
     (\<exists>R. \<forall>t<8. arrived (ts ! t) = (if counted b t (ts ! t) then Suc R else R))
     \<and> ((\<exists>t<8. at_last (ts ! t)) \<longleftrightarrow> (\<forall>t<8. counted b t (ts ! t)))
     \<and> counter b = (if \<exists>t<8. at_broadcast (ts ! t) then 0 else of_nat (card {t. t < 8 \<and> counted b t (ts ! t)}))"

text \<open>Inversion of the steps.\<close>

lemma bthr_fnE:
  assumes "bthr_fn sp ptr s (Some s')"
  obtains (local) t pc' where "t < length (thrs s)" "thrs s' = (thrs s)[t := pc']" "barrier s' = barrier s" "bmain_at s' = bmain_at s"
      "\<exists>o1. bout s' = bout s @ o1"
      "counter_lock s' = counter_lock s" "total s' = total s"
      "(\<exists>i. thrs s ! t = T_test i \<and> pc' = (if i \<le> thread_inc then T_lock i else T_done))
       \<or> (\<exists>i. thrs s ! t = T_check i \<and> pc' = (if i mod sync_step = 0 then T_print i else T_test (i + 1)))
       \<or> (\<exists>i. thrs s ! t = T_print i \<and> pc' = T_barrier i B_lock)
       \<or> (\<exists>i x. thrs s ! t = T_report i x \<and> pc' = T_test (i + 1))"
    | (count) t i pc' m where "t < length (thrs s)" "thrs s' = (thrs s)[t := pc']" "barrier s' = barrier s" "bmain_at s' = bmain_at s"
      "bout s' = bout s" "counter_lock s' = m"
      "(thrs s ! t = T_lock i \<and> pc' = T_inc i \<and> counter_lock s = None \<and> m = Some t \<and> total s' = total s)
       \<or> (thrs s ! t = T_inc i \<and> pc' = T_unlock i \<and> m = counter_lock s \<and> total s' = total s + 1)
       \<or> (thrs s ! t = T_unlock i \<and> pc' = T_check i \<and> counter_lock s = Some t \<and> m = None \<and> total s' = total s)"
    | (bar) t i p r b where "t < length (thrs s)" "thrs s ! t = T_barrier i p" "thread_barrier_wait sp t (p, barrier s) (Some (r, b))"
      "s' = s\<lparr>barrier := b, thrs := (thrs s)[t := (case r of Inl p \<Rightarrow> T_barrier i p | Inr x \<Rightarrow> T_report i x)]\<rparr>"
  using assms
proof (cases rule: bthr_fn.cases)
  case (t_test t i)
  show ?thesis by (rule local[of t "if i \<le> thread_inc then T_lock i else T_done"]) (use t_test in simp_all)
next
  case (t_lock t i m)
  show ?thesis by (rule count[of t "T_inc i" m i]) (use t_lock in simp_all)
next
  case (t_inc t i)
  show ?thesis by (rule count[of t "T_unlock i" "counter_lock s" i]) (use t_inc in simp_all)
next
  case (t_unlock t i)
  show ?thesis by (rule count[of t "T_check i" None i]) (use t_unlock in \<open>auto simp: Some_eq_bind_conv mutex_unlock_iff\<close>)
next
  case (t_check t i)
  show ?thesis by (rule local[of t "if i mod sync_step = 0 then T_print i else T_test (i + 1)"]) (use t_check in simp_all)
next
  case (t_print t i)
  show ?thesis by (rule local[of t "T_barrier i B_lock"]) (use t_print in simp_all)
next
  case (t_barrier t i p r)
  then obtain r' b where "r = Some (r', b)" by (auto simp: Some_eq_bind_conv)
  then show ?thesis using t_barrier by (intro bar[of t i p r' b]) simp_all
next
  case (t_report t i x)
  show ?thesis by (rule local[of t "T_test (i + 1)"]) (use t_report in simp_all)
qed

lemma barrier_waitE:
  assumes "thread_barrier_wait sp t (p, b) (Some (r, b'))"
  obtains (lock) "p = B_lock" "r = Inl B_inc" "lock b = None" "b' = b\<lparr>lock := Some t\<rparr>"
    | (inc) "p = B_inc" "r = Inl (if counter b + 1 = target b then B_reset else B_wait)" "b' = b\<lparr>counter := counter b + 1\<rparr>"
    | (reset) "p = B_reset" "r = Inl B_broadcast" "b' = b\<lparr>counter := 0\<rparr>"
    | (broadcast) "p = B_broadcast" "r = Inl B_unlock_last" "b' = b\<lparr>condv := {}\<rparr>"
    | (unlock_last) "p = B_unlock_last" "r = Inr PTHREAD_BARRIER_SERIAL_THREAD" "lock b = Some t" "b' = b\<lparr>lock := None\<rparr>"
    | (wait) "p = B_wait" "r = Inl B_blocked" "lock b = Some t" "b' = b\<lparr>lock := None, condv := insert t (condv b)\<rparr>"
    | (spurious) "sp" "p = B_blocked" "r = Inl B_blocked" "t \<in> condv b" "b' = b\<lparr>condv := condv b - {t}\<rparr>"
    | (relock) "p = B_blocked" "r = Inl B_unlock" "t \<notin> condv b" "lock b = None" "b' = b\<lparr>lock := Some t\<rparr>"
    | (unlock) "p = B_unlock" "r = Inr 0" "lock b = Some t" "b' = b\<lparr>lock := None\<rparr>"
  using assms
proof (cases rule: thread_barrier_wait.cases)
  case (b_lock m)
  then show ?thesis by (intro lock) simp_all
next
  case b_inc
  then show ?thesis by (intro inc) simp_all
next
  case b_reset
  then show ?thesis by (intro reset) simp_all
next
  case b_broadcast
  then show ?thesis by (intro broadcast) (simp_all add: cond_broadcast_def)
next
  case b_unlock_last
  then show ?thesis by (intro unlock_last) (auto simp: Some_eq_bind_conv mutex_unlock_iff)
next
  case b_wait
  then show ?thesis by (intro wait) (auto simp: Some_eq_bind_conv mutex_unlock_iff)
next
  case b_spurious
  then show ?thesis by (intro spurious) simp_all
next
  case (b_relock m)
  then show ?thesis by (intro relock) simp_all
next
  case b_unlock
  then show ?thesis by (intro unlock) (auto simp: Some_eq_bind_conv mutex_unlock_iff)
qed

subsection \<open>Every step keeps them\<close>

lemma base_invI:
  "length (thrs s) = 8 \<Longrightarrow> target (barrier s) = 8 \<Longrightarrow> excl bar_crit (lock (barrier s)) (thrs s) \<Longrightarrow>
   excl cnt_crit (counter_lock s) (thrs s) \<Longrightarrow>
   (\<And>t. t \<in> condv (barrier s) \<Longrightarrow> t < 8 \<and> (\<exists>i. thrs s ! t = T_barrier i B_blocked)) \<Longrightarrow>
   (\<And>t. t < 8 \<Longrightarrow> wf_pc (thrs s ! t)) \<Longrightarrow> base_inv s"
  by (simp add: base_inv_def)

lemma base_invD:
  assumes "base_inv s"
  shows "length (thrs s) = 8" "target (barrier s) = 8" "excl bar_crit (lock (barrier s)) (thrs s)"
    "excl cnt_crit (counter_lock s) (thrs s)"
    "\<And>t. t \<in> condv (barrier s) \<Longrightarrow> t < 8 \<and> (\<exists>i. thrs s ! t = T_barrier i B_blocked)"
    "\<And>t. t < 8 \<Longrightarrow> wf_pc (thrs s ! t)"
  using assms by (simp_all add: base_inv_def)

lemma crit_simps [simp]:
  "bar_crit (T_barrier i p) \<longleftrightarrow> p \<noteq> B_lock \<and> p \<noteq> B_blocked" "\<not> bar_crit (T_report i x)" "\<not> bar_crit (T_test i)"
  "\<not> bar_crit (T_lock i)" "\<not> bar_crit (T_inc i)" "\<not> bar_crit (T_unlock i)" "\<not> bar_crit (T_check i)" "\<not> bar_crit (T_print i)"
  "\<not> bar_crit T_done" "\<not> bar_crit T_none"
  "cnt_crit (T_inc i)" "cnt_crit (T_unlock i)" "\<not> cnt_crit (T_barrier i p)" "\<not> cnt_crit (T_report i x)" "\<not> cnt_crit (T_test i)"
  "\<not> cnt_crit (T_lock i)" "\<not> cnt_crit (T_check i)" "\<not> cnt_crit (T_print i)" "\<not> cnt_crit T_done" "\<not> cnt_crit T_none"
  by (simp_all add: pos_defs)

lemma base_inv_local:
  assumes "base_inv s" "t < 8" "thrs s' = (thrs s)[t := pc']" "condv (barrier s') = condv (barrier s)" "target (barrier s') = 8"
    "\<nexists>i. thrs s ! t = T_barrier i B_blocked \<and> t \<in> condv (barrier s)" "wf_pc pc'"
    "excl bar_crit (lock (barrier s')) (thrs s')" "excl cnt_crit (counter_lock s') (thrs s')"
  shows "base_inv s'"
proof (rule base_invI)
  fix u assume "u \<in> condv (barrier s')"
  then have "u < 8" "\<exists>i. thrs s ! u = T_barrier i B_blocked" "u \<noteq> t"
    using base_invD(5)[OF assms(1)] assms(4,6) by auto
  then show "u < 8 \<and> (\<exists>i. thrs s' ! u = T_barrier i B_blocked)" using assms(3) by simp
next
  fix u :: nat assume "u < 8"
  then show "wf_pc (thrs s' ! u)" using base_invD(1,6)[OF assms(1)] assms(2,3,7) by (cases "u = t") auto
qed (use assms base_invD(1)[OF assms(1)] in simp_all)

lemma base_inv_thr:
  assumes "base_inv s" "bthr_fn sp ptr s (Some s')"
  shows "base_inv s'"
  using assms(2)
proof (cases rule: bthr_fnE)
  note D = base_invD[OF assms(1)]
  {
    case (local t pc')
    have t: "t < 8" using local(1) D(1) by simp
    have w: "wf_pc (thrs s ! t)" by (rule D(6)[OF t])
    have c: "\<not> bar_crit (thrs s ! t)" "\<not> cnt_crit (thrs s ! t)" "\<not> bar_crit pc'" "\<not> cnt_crit pc'" "wf_pc pc'"
      "\<nexists>i. thrs s ! t = T_barrier i B_blocked \<and> t \<in> condv (barrier s)"
      using local(8) w by (auto split: if_splits)
    show ?thesis using local c D(2,3,4)
      by (intro base_inv_local[OF assms(1) t local(2)]) (simp_all add: excl_keep)
  next
    case (count t i pc' m)
    have t: "t < 8" using count(1) D(1) by simp
    have w: "wf_pc (thrs s ! t)" by (rule D(6)[OF t])
    have c: "\<not> bar_crit (thrs s ! t)" "\<not> bar_crit pc'" "wf_pc pc'" "\<nexists>i. thrs s ! t = T_barrier i B_blocked \<and> t \<in> condv (barrier s)"
      using count(7) w by auto
    have "excl cnt_crit m ((thrs s)[t := pc'])"
      using count(7) D(4) count(1) by (auto intro: excl_acquire excl_release excl_keep)
    then show ?thesis using count c D(2,3)
      by (intro base_inv_local[OF assms(1) t count(2)]) (simp_all add: excl_keep)
  }
  case (bar t i p r b)
  have t: "t < 8" using bar(1) D(1) by simp
  have w: "wf_pc (T_barrier i p)" using D(6)[OF t] bar(2) by simp
  let ?pc = "case r of Inl p \<Rightarrow> T_barrier i p | Inr x \<Rightarrow> T_report i x"
  have "wf_pc ?pc" using w by (cases r) simp_all
  have cnt: "excl cnt_crit (counter_lock s') (thrs s')" using D(4) bar(2,4) by (cases r) (simp_all add: excl_keep)
  have brk: "excl bar_crit (lock b) ((thrs s)[t := ?pc])"
    using bar(3) by (cases rule: barrier_waitE) (use D(3) bar(1,2) in \<open>auto intro: excl_acquire excl_release excl_keep\<close>)
  show ?thesis
  proof (rule base_invI)
    fix u assume u: "u \<in> condv (barrier s')"
    show "u < 8 \<and> (\<exists>i. thrs s' ! u = T_barrier i B_blocked)"
      using bar(3) by (cases rule: barrier_waitE) (use u D(1,5) bar(2,4) t in \<open>fastforce simp: nth_list_update\<close>)+
  next
    fix u :: nat assume "u < 8"
    then show "wf_pc (thrs s' ! u)" using D(1,6) t bar(4) \<open>wf_pc ?pc\<close> by (cases "u = t") auto
  next
    show "target (barrier s') = 8" using bar(3) by (cases rule: barrier_waitE) (use D(2) bar(4) in simp_all)
  qed (use D(1) bar(4) brk cnt in simp_all)
qed

subsection \<open>Rounds\<close>

lemma round_cong:
  assumes "round_inv b ts" "counter b' = counter b"
    and "\<And>u. u < 8 \<Longrightarrow> counted b' u (ts' ! u) = counted b u (ts ! u) \<and> arrived (ts' ! u) = arrived (ts ! u)
      \<and> at_last (ts' ! u) = at_last (ts ! u) \<and> at_broadcast (ts' ! u) = at_broadcast (ts ! u)"
  shows "round_inv b' ts'"
proof -
  have e: "{t. t < 8 \<and> counted b' t (ts' ! t)} = {t. t < 8 \<and> counted b t (ts ! t)}"
    "(\<exists>t<8. at_last (ts' ! t)) \<longleftrightarrow> (\<exists>t<8. at_last (ts ! t))" "(\<exists>t<8. at_broadcast (ts' ! t)) \<longleftrightarrow> (\<exists>t<8. at_broadcast (ts ! t))"
    "(\<forall>t<8. counted b' t (ts' ! t)) \<longleftrightarrow> (\<forall>t<8. counted b t (ts ! t))" using assms(3) by blast+
  have "\<exists>R. \<forall>t<8. arrived (ts' ! t) = (if counted b' t (ts' ! t) then Suc R else R)"
    using assms(1,3) unfolding round_inv_def by simp
  with assms(1) show ?thesis unfolding round_inv_def e assms(2) by blast
qed

lemma round_frame:
  assumes "round_inv b ts" "length ts = 8" "t < 8" "counter b' = counter b" "\<And>u. u \<noteq> t \<Longrightarrow> u \<in> condv b' \<longleftrightarrow> u \<in> condv b"
    and "counted b' t pc' = counted b t (ts ! t)" "arrived pc' = arrived (ts ! t)"
    "at_last pc' = at_last (ts ! t)" "at_broadcast pc' = at_broadcast (ts ! t)"
  shows "round_inv b' (ts[t := pc'])"
proof (rule round_cong[OF assms(1,4)])
  fix u :: nat assume "u < 8"
  have "counted b' u (ts ! u) = counted b u (ts ! u)" if "u \<noteq> t"
    using assms(5)[OF that] by (simp add: counted_def split: bthr_pc.split)
  then show "counted b' u (ts[t := pc'] ! u) = counted b u (ts ! u) \<and> arrived (ts[t := pc'] ! u) = arrived (ts ! u)
      \<and> at_last (ts[t := pc'] ! u) = at_last (ts ! u) \<and> at_broadcast (ts[t := pc'] ! u) = at_broadcast (ts ! u)"
    using assms by (cases "u = t") simp_all
qed

lemma last_crit: "at_last pc \<Longrightarrow> bar_crit pc" "at_broadcast pc \<Longrightarrow> at_last pc" "at_last pc \<Longrightarrow> counted b t pc"
  by (auto simp: pos_defs split: bthr_pc.splits)

lemma no_last:
  assumes "excl bar_crit (Some t) ts" "length ts = 8" "\<not> at_last (ts ! t)" "u < 8"
  shows "\<not> at_last (ts ! u)"
  using assms last_crit(1) by (metis excl_def option.inject)

lemma of_nat_eq_8: "n \<le> 8 \<Longrightarrow> (of_nat n :: 64 word) = 8 \<longleftrightarrow> n = 8"
proof
  assume "n \<le> 8" "(of_nat n :: 64 word) = 8"
  moreover from this(1) have "unat (of_nat n :: 64 word) = n" by (simp add: unat_of_nat take_bit_nat_eq_self)
  ultimately show "n = 8" by simp
qed simp

lemma round_inc:
  assumes "round_inv b ts" "length ts = 8" "t < 8" "ts ! t = T_barrier i B_inc" "wf_pc (ts ! t)" "excl bar_crit (Some t) ts" "target b = 8"
  shows "round_inv (b\<lparr>counter := counter b + 1\<rparr>) (ts[t := T_barrier i (if counter b + 1 = target b then B_reset else B_wait)])"
    (is "round_inv ?b ?ts")
proof -
  let ?C = "{u. u < 8 \<and> counted b u (ts ! u)}"
  have nl: "\<not> at_last (ts ! u)" if "u < 8" for u using no_last[OF assms(6,2) _ that] assms(4) by (simp add: at_last_def)
  then have nb: "\<not> at_broadcast (ts ! u)" if "u < 8" for u using that last_crit(2) by blast
  have tC: "t \<notin> ?C" using assms(4) by (simp add: counted_def)
  have cnt: "counter b = of_nat (card ?C)" using assms(1) nb unfolding round_inv_def by auto
  have C': "{u. u < 8 \<and> counted ?b u (?ts ! u)} = insert t ?C"
    using assms(2,3) by (auto simp: nth_list_update counted_def split: bthr_pc.splits if_splits)
  have card: "card (insert t ?C) = Suc (card ?C)" using tC by simp
  have le: "card (insert t ?C) \<le> 8" using card_mono[of "{..<8::nat}" "insert t ?C"] assms(3) by auto
  have all: "(\<forall>u<8. counted ?b u (?ts ! u)) \<longleftrightarrow> card (insert t ?C) = 8"
  proof
    assume "\<forall>u<8. counted ?b u (?ts ! u)"
    then have "insert t ?C = {..<8}" using C' by auto
    then show "card (insert t ?C) = 8" by simp
  next
    assume "card (insert t ?C) = 8"
    then have "insert t ?C = {..<8}" using assms(3) by (intro card_subset_eq) auto
    then show "\<forall>u<8. counted ?b u (?ts ! u)" using C' by blast
  qed
  have "counter b + 1 = of_nat (card (insert t ?C))" unfolding card cnt by simp
  then have eq: "counter b + 1 = target b \<longleftrightarrow> card (insert t ?C) = 8" using of_nat_eq_8[OF le] assms(7) by simp
  obtain R where R: "\<And>u. u < 8 \<Longrightarrow> arrived (ts ! u) = (if counted b u (ts ! u) then Suc R else R)"
    using assms(1) unfolding round_inv_def by blast
  have "arrived (ts ! t) = R" using R[OF assms(3)] tC assms(3) by simp
  then have "i div sync_step = Suc R" using assms(4,5) by (simp add: arrived_def div_pred_dvd)
  then have "\<forall>u<8. arrived (?ts ! u) = (if counted ?b u (?ts ! u) then Suc R else R)"
    using R assms(2,3) by (auto simp: nth_list_update pos_defs split: bthr_pc.splits)
  moreover have "(\<exists>u<8. at_last (?ts ! u)) \<longleftrightarrow> counter b + 1 = target b"
    using nl assms(2,3) by (auto simp: nth_list_update at_last_def)
  moreover have "\<not> at_broadcast (?ts ! u)" if "u < 8" for u
    using nb[OF that] assms(2,3) by (simp add: nth_list_update at_broadcast_def)
  ultimately show ?thesis unfolding round_inv_def C' card using all eq cnt by auto
qed

lemma round_reset:
  assumes "round_inv b ts" "length ts = 8" "t < 8" "ts ! t = T_barrier i B_reset"
  shows "round_inv (b\<lparr>counter := 0\<rparr>) (ts[t := T_barrier i B_broadcast])" (is "round_inv ?b ?ts")
proof -
  have c: "counted ?b u (?ts ! u) = counted b u (ts ! u)" "arrived (?ts ! u) = arrived (ts ! u)"
    "at_last (?ts ! u) = at_last (ts ! u)" if "u < 8" for u
    using that assms(2-4) by (auto simp: nth_list_update pos_defs split: bthr_pc.splits)
  have "at_broadcast (?ts ! t)" using assms(2,3) by (simp add: at_broadcast_def)
  with assms(1,3) show ?thesis unfolding round_inv_def by (auto simp: c)
qed

lemma round_broadcast:
  assumes "round_inv b ts" "length ts = 8" "t < 8" "ts ! t = T_barrier i B_broadcast" "excl bar_crit (Some t) ts"
  shows "round_inv (b\<lparr>condv := {}\<rparr>) (ts[t := T_barrier i B_unlock_last])" (is "round_inv ?b ?ts")
proof -
  have "at_last (ts ! t)" "at_broadcast (ts ! t)" using assms(4) by (simp_all add: pos_defs)
  then have all: "\<And>u. u < 8 \<Longrightarrow> counted b u (ts ! u)" and zero: "counter b = 0"
    using assms(1,3) unfolding round_inv_def by auto
  obtain R where R: "\<And>u. u < 8 \<Longrightarrow> arrived (ts ! u) = Suc R" using assms(1) all unfolding round_inv_def by auto
  have none: "\<not> counted ?b u (?ts ! u)" "\<not> at_last (?ts ! u)" "\<not> at_broadcast (?ts ! u)" if "u < 8" for u
  proof -
    have "\<not> bar_crit (ts ! u)" if "u \<noteq> t" using assms(2,5) that \<open>u < 8\<close> by (auto simp: excl_def)
    then show "\<not> counted ?b u (?ts ! u)" "\<not> at_last (?ts ! u)" "\<not> at_broadcast (?ts ! u)"
      using assms(2,3) that by (auto simp: nth_list_update pos_defs split: bthr_pc.splits)
  qed
  have "arrived (?ts ! u) = Suc R" if "u < 8" for u
    using R[OF that] assms(2-4) by (auto simp: nth_list_update arrived_def)
  then have "\<exists>R'. \<forall>u<8. arrived (?ts ! u) = (if counted ?b u (?ts ! u) then Suc R' else R')" using none by auto
  moreover have e: "{u. u < 8 \<and> counted ?b u (?ts ! u)} = {}" using none by blast
  moreover have "\<not> (\<forall>u<8. counted ?b u (?ts ! u))" using none assms(3) by blast
  ultimately show ?thesis unfolding round_inv_def e using none zero by auto
qed

subsection \<open>The whole invariant\<close>

lemma round_inv_thr:
  assumes "base_inv s" "round_inv (barrier s) (thrs s)" "bthr_fn False ptr s (Some s')"
  shows "round_inv (barrier s') (thrs s')"
  using assms(3)
proof (cases rule: bthr_fnE)
  note D = base_invD[OF assms(1)]
  {
    case (local t pc')
    have t: "t < 8" using local(1) D(1) by simp
    have w: "wf_pc (thrs s ! t)" by (rule D(6)[OF t])
    have "arrived pc' = arrived (thrs s ! t)" using local(8) w
      by (auto simp: arrived_def div_pred split: if_splits)
    moreover have "\<not> counted b t pc'" "\<not> counted b t (thrs s ! t)" "\<not> at_last pc'" "\<not> at_last (thrs s ! t)"
      "\<not> at_broadcast pc'" "\<not> at_broadcast (thrs s ! t)" for b
      using local(8) by (auto simp: pos_defs split: if_splits)
    ultimately show ?thesis unfolding local(2,3) by (intro round_frame[OF assms(2) D(1) t]) simp_all
  next
    case (count t i pc' m)
    have t: "t < 8" using count(1) D(1) by simp
    have "arrived pc' = arrived (thrs s ! t)" using count(7) by (auto simp: arrived_def)
    moreover have "\<not> counted b t pc'" "\<not> counted b t (thrs s ! t)" "\<not> at_last pc'" "\<not> at_last (thrs s ! t)"
      "\<not> at_broadcast pc'" "\<not> at_broadcast (thrs s ! t)" for b
      using count(7) by (auto simp: pos_defs)
    ultimately show ?thesis unfolding count(2,3) by (intro round_frame[OF assms(2) D(1) t]) simp_all
  }
  case (bar t i p r b)
  have t: "t < 8" using bar(1) D(1) by simp
  have w: "wf_pc (thrs s ! t)" by (rule D(6)[OF t])
  have x: "excl bar_crit (Some t) (thrs s)" if "p \<noteq> B_lock" "p \<noteq> B_blocked"
    using D(3) excl_holds[OF D(3) bar(1)] bar(2) that by simp
  note fr = round_frame[OF assms(2) D(1) t]
  from bar(3) show ?thesis
  proof (cases rule: barrier_waitE)
    case inc
    show ?thesis using round_inc[OF assms(2) D(1) t _ w x D(2)] bar(2,4) inc by simp
  next
    case reset
    show ?thesis using round_reset[OF assms(2) D(1) t] bar(2,4) reset by simp
  next
    case broadcast
    show ?thesis using round_broadcast[OF assms(2) D(1) t _ x] bar(2,4) broadcast by simp
  qed (use bar(2,4) in \<open>auto intro!: fr simp: pos_defs\<close>)
qed

lemma map_incs_update: "incs pc = incs (ts ! t) \<Longrightarrow> map incs (ts[t := pc]) = map incs ts"
  by (cases "t < length ts") (simp_all add: map_update list_update_same_conv list_update_beyond)

lemma sum_incs_Suc:
  "t < length ts \<Longrightarrow> incs pc = Suc (incs (ts ! t)) \<Longrightarrow> sum_list (map incs (ts[t := pc])) = Suc (sum_list (map incs ts))"
  by (induction ts arbitrary: t) (auto split: nat.splits)

lemma total_inv_thr:
  assumes "base_inv s" "total_inv s" "bthr_fn sp ptr s (Some s')"
  shows "total_inv s'"
  using assms(3)
proof (cases rule: bthr_fnE)
  note D = base_invD[OF assms(1)]
  {
    case (local t pc')
    then have "wf_pc (thrs s ! t)" using D(1,6) by simp
    then have "incs pc' = incs (thrs s ! t)" using local(8) by (auto split: if_splits)
    with local(2,7) assms(2) show ?thesis by (simp add: total_inv_def map_incs_update)
  next
    case (count t i pc' m)
    then have "wf_pc (thrs s ! t)" using D(1,6) by simp
    with count(1,2,7) assms(2) show ?thesis by (auto simp: total_inv_def map_incs_update sum_incs_Suc)
  }
  case (bar t i p r b)
  have "incs (case r of Inl p \<Rightarrow> T_barrier i p | Inr x \<Rightarrow> T_report i x) = incs (thrs s ! t)"
    using bar(2) by (cases r) simp_all
  with bar(4) assms(2) show ?thesis by (simp add: total_inv_def map_incs_update)
qed

lemma thr_moves:
  assumes "bthr_fn sp ptr s (Some s')"
  shows "\<exists>t<length (thrs s). thrs s ! t \<noteq> T_none \<and> thrs s ! t \<noteq> T_done \<and> (\<exists>pc'. pc' \<noteq> T_none \<and> thrs s' = (thrs s)[t := pc'])"
    "bmain_at s' = bmain_at s" "\<exists>o1. bout s' = bout s @ o1"
proof -
  show "\<exists>t<length (thrs s). thrs s ! t \<noteq> T_none \<and> thrs s ! t \<noteq> T_done \<and> (\<exists>pc'. pc' \<noteq> T_none \<and> thrs s' = (thrs s)[t := pc'])"
    using assms
  proof (cases rule: bthr_fnE)
    case (local t pc')
    then show ?thesis by (intro exI[of _ t]) auto
  next
    case (count t i pc' m)
    then show ?thesis by (intro exI[of _ t]) auto
  next
    case (bar t i p r b)
    then show ?thesis by (intro exI[of _ t]) (auto split: sum.split)
  qed
next
  show "bmain_at s' = bmain_at s" using assms by (cases rule: bthr_fnE) auto
next
  show "\<exists>o1. bout s' = bout s @ o1" using assms by (cases rule: bthr_fnE) auto
qed

lemma main_inv_thr:
  assumes "base_inv s" "main_inv s" "bthr_fn sp ptr s (Some s')"
  shows "main_inv s'"
proof -
  obtain t pc' where t: "t < 8" "thrs s ! t \<noteq> T_none" "thrs s ! t \<noteq> T_done" "pc' \<noteq> T_none" "thrs s' = (thrs s)[t := pc']"
    using thr_moves(1)[OF assms(3)] base_invD(1)[OF assms(1)] by auto
  then show ?thesis using assms(2) thr_moves(2)[OF assms(3)] base_invD(1)[OF assms(1)]
    by (auto simp: main_inv_def nth_list_update split: bmain_pc.splits)
qed

definition bar_inv :: "bool \<Rightarrow> bar_sys \<Rightarrow> bool" where
  "bar_inv sp s \<longleftrightarrow> base_inv s \<and> total_inv s \<and> main_inv s \<and> (\<not> sp \<longrightarrow> round_inv (barrier s) (thrs s))"

lemma bar_inv_thr: "bar_inv sp s \<Longrightarrow> bthr_fn sp ptr s (Some s') \<Longrightarrow> bar_inv sp s'"
  unfolding bar_inv_def using base_inv_thr total_inv_thr main_inv_thr round_inv_thr by (metis (full_types))

lemma bar_inv_main:
  assumes "bar_inv sp s" "bar_main s (Some s')"
  shows "bar_inv sp s'"
  using assms(2)
proof (cases rule: bar_main.cases)
  note I = assms(1)[unfolded bar_inv_def]
  note D = base_invD[OF conjunct1[OF I]]
  {
    case (bm_create i)
    have n: "thrs s ! i = T_none" using I bm_create(2,3) by (simp add: main_inv_def)
    have "base_inv s'" using bm_create D(2-4) n
      by (intro base_inv_local[OF conjunct1[OF I], of i s' "T_test 1"]) (simp_all add: excl_keep)
    moreover have "main_inv s'" using I bm_create D(1) by (auto simp: main_inv_def nth_list_update)
    moreover have "total_inv s'" using I bm_create(1) n by (simp add: total_inv_def map_incs_update)
    moreover have "round_inv (barrier s') (thrs s')" if "round_inv (barrier s) (thrs s)"
      using bm_create(1,3) n by (auto intro!: round_frame[OF that D(1)] simp: pos_defs)
    ultimately show ?thesis using I by (simp add: bar_inv_def)
  next
    case (bm_created i)
    then show ?thesis using I by (auto simp: bar_inv_def base_inv_def total_inv_def main_inv_def)
  next
    case (bm_join i)
    then show ?thesis using I by (auto simp: bar_inv_def base_inv_def total_inv_def main_inv_def less_Suc_eq)
  next
    case (bm_print i)
    then show ?thesis using I by (auto simp: bar_inv_def base_inv_def total_inv_def main_inv_def)
  }
qed

end
