(* ===== verification/Barrier_Main.thy ===== *)
theory Barrier_Main
  imports Barrier_Proofs
begin

text \<open>
  What the barrier promises: no undefined behaviour, no deadlock and threads in step when there are no
  spurious wake-ups; the final value of the counter; and how one spurious wake-up breaks the barrier.
\<close>

lemma bar_inv_init: "bar_init_state s \<Longrightarrow> bar_inv sp s"
proof -
  assume "bar_init_state s"
  then have s: "s = \<lparr>barrier = \<lparr>target = 8, counter = 0, condv = {}, lock = None\<rparr>, counter_lock = None, total = 0,
      thrs = replicate 8 T_none, bmain_at = M_create 0, bout = []\<rparr>"
    by (simp add: bar_init_state_def thread_barrier_init_def)
  have "\<not> counted (barrier s) t (thrs s ! t)" "\<not> at_last (thrs s ! t)" "\<not> at_broadcast (thrs s ! t)" "arrived (thrs s ! t) = 0"
    if "t < 8" for t using that by (simp_all add: s pos_defs)
  moreover from this have e: "{t. t < 8 \<and> counted (barrier s) t (thrs s ! t)} = {}" by blast
  moreover have "\<exists>t. t < (8 :: nat)" by (rule exI[of _ 0]) simp
  ultimately have "round_inv (barrier s) (thrs s)" unfolding round_inv_def e by (auto simp: s)
  then show ?thesis
    by (auto simp: s bar_inv_def base_inv_def total_inv_def main_inv_def excl_def map_replicate_const sum_list_replicate)
qed

lemma barrier_wait_defined:
  assumes "thread_barrier_wait sp t (p, b) r" "p \<noteq> B_lock \<and> p \<noteq> B_blocked \<longrightarrow> lock b = Some t"
  shows "r \<noteq> None"
  using assms by (cases rule: thread_barrier_wait.cases) auto

lemma bar_inv_defined:
  assumes "bar_inv sp s"
  shows "\<not> bar_step sp ptr s None"
proof
  assume "bar_step sp ptr s None"
  then consider "bthr_fn sp ptr s None" | "bar_main s None" by (auto simp: bar_step_def)
  then show False
  proof cases
    case 1
    note D = base_invD[OF conjunct1[OF assms[unfolded bar_inv_def]]]
    from 1 show False
    proof (cases rule: bthr_fn.cases)
      case (t_unlock t i)
      then have "counter_lock s = Some t" using excl_holds[OF D(4), of t] by simp
      with t_unlock show False by simp
    next
      case (t_barrier t i p r)
      then have "p \<noteq> B_lock \<and> p \<noteq> B_blocked \<longrightarrow> lock (barrier s) = Some t" using excl_holds[OF D(3), of t] by simp
      with barrier_wait_defined[OF t_barrier(4)] t_barrier(1) show False by (auto simp: bind_eq_None_conv)
    qed
  qed (auto elim: bar_main.cases)
qed

interpretation bar: safe_threads bar_init_state "bar_step sp ptr" "bar_inv sp"
  by unfold_locales (auto simp: bar_step_def bar_inv_init bar_inv_defined[unfolded bar_step_def] intro: bar_inv_thr bar_inv_main)

subsection \<open>The counter\<close>

lemma sum_list_ge: "(\<And>x. x \<in> set xs \<Longrightarrow> c \<le> f x) \<Longrightarrow> length xs * c \<le> sum_list (map f xs)" for f :: "'a \<Rightarrow> nat"
  by (induction xs) (auto simp: add_mono)

lemma sum_list_le: "(\<And>x. x \<in> set xs \<Longrightarrow> f x \<le> c) \<Longrightarrow> sum_list (map f xs) \<le> length xs * c" for f :: "'a \<Rightarrow> nat"
  by (induction xs) (auto simp: add_mono)

lemma incs_max: "wf_pc pc \<Longrightarrow> incs pc \<le> thread_inc"
  by (cases pc) auto

lemma total_eq:
  assumes "bar_inv sp s"
  shows "unat (total s) = sum_list (map incs (thrs s))"
proof -
  note D = base_invD[OF conjunct1[OF assms[unfolded bar_inv_def]]]
  have "sum_list (map incs (thrs s)) \<le> 8 * thread_inc"
    using sum_list_le[of "thrs s" incs thread_inc] D(1,6) incs_max by (fastforce simp: in_set_conv_nth)
  then show ?thesis using assms by (simp add: bar_inv_def total_inv_def unat_of_nat take_bit_nat_eq_self)
qed

subsection \<open>No deadlock\<close>

lemma barrier_wait_enabled:
  assumes "p = B_lock \<or> p = B_blocked \<Longrightarrow> lock b = None" "p = B_blocked \<Longrightarrow> t \<notin> condv b"
  shows "\<exists>r. thread_barrier_wait sp t (p, b) r"
  using assms b_lock[of t b "Some t" sp] b_relock[of t b "Some t" sp]
  by (cases p) (fastforce intro: thread_barrier_wait.intros)+

text \<open>A thread that is created, not finished and not asleep at the barrier can go on when the locks are free or its own.\<close>

lemma thr_enabled:
  assumes "base_inv s" "t < 8" "thrs s ! t \<noteq> T_none" "thrs s ! t \<noteq> T_done"
    and "\<not> (\<exists>i. thrs s ! t = T_barrier i B_blocked \<and> t \<in> condv (barrier s))"
    and "lock (barrier s) = None \<or> lock (barrier s) = Some t" "counter_lock s = None \<or> counter_lock s = Some t"
  shows "\<exists>r. bthr_fn sp ptr s r"
proof (cases "thrs s ! t")
  note D = base_invD[OF assms(1)]
  have t: "t < length (thrs s)" using assms(2) D(1) by simp
  {
    case (T_lock i)
    then have "\<not> cnt_crit (thrs s ! t)" by simp
    then have "counter_lock s = None" using assms(7) D(4) t by (auto simp: excl_def)
    then show ?thesis using t_lock[OF t T_lock, of "Some t"] by auto
  next
    case (T_barrier i p)
    have free: "lock (barrier s) = None" if "p = B_lock \<or> p = B_blocked"
    proof -
      have "\<not> bar_crit (thrs s ! t)" using T_barrier that by auto
      then show ?thesis using assms(6) D(3) t by (auto simp: excl_def)
    qed
    have "\<exists>r. thread_barrier_wait sp t (p, barrier s) r"
      using free T_barrier assms(5) by (intro barrier_wait_enabled) auto
    then show ?thesis using t_barrier[OF t T_barrier] by blast
  }
qed (use assms(2-4) base_invD(1)[OF assms(1)] bthr_fn.intros in \<open>metis+\<close>)

lemma critD:
  "bar_crit pc \<Longrightarrow> \<exists>i p. pc = T_barrier i p \<and> p \<noteq> B_lock \<and> p \<noteq> B_blocked"
  "cnt_crit pc \<Longrightarrow> \<exists>i. pc = T_inc i \<or> pc = T_unlock i"
  by (cases pc; simp)+

lemma bar_progress:
  assumes "bar_inv False s" "bmain_at s \<noteq> M_exit"
  shows "\<exists>r. bar_step False ptr s r"
proof (rule ccontr)
  assume stuck: "\<nexists>r. bar_step False ptr s r"
  then have thr: "\<nexists>r. bthr_fn False ptr s r" and "\<nexists>r. bar_main s r" by (auto simp: bar_step_def)
  note I = assms(1)[unfolded bar_inv_def]
  note D = base_invD[OF conjunct1[OF I]]
  obtain i where i: "bmain_at s = M_join i" "i < 8" "thrs s ! i \<noteq> T_done"
  proof (cases "bmain_at s")
    case (M_create i)
    then show thesis using \<open>\<nexists>r. bar_main s r\<close> bm_create[of s i] bm_created[of s i] by (cases "i < threads_no") auto
  next
    case (M_join i)
    then show thesis using \<open>\<nexists>r. bar_main s r\<close> bm_join[of s i] bm_print[of s i] that[of i] by (cases "i < threads_no") auto
  qed (use assms(2) in simp)
  have none: "thrs s ! t \<noteq> T_none" if "t < 8" for t using I i(1) that by (simp add: main_inv_def)
  have free: "lock (barrier s) = None" "counter_lock s = None"
  proof -
    have A: "lock (barrier s) = None \<or> (\<exists>t<8. lock (barrier s) = Some t \<and> bar_crit (thrs s ! t))"
      and B: "counter_lock s = None \<or> (\<exists>t<8. counter_lock s = Some t \<and> cnt_crit (thrs s ! t))"
      using D(1,3,4) by (cases "lock (barrier s)"; cases "counter_lock s"; auto simp: excl_def)+
    show "lock (barrier s) = None"
    proof (rule ccontr)
      assume "lock (barrier s) \<noteq> None"
      with A obtain t i p where t: "t < 8" "lock (barrier s) = Some t" "thrs s ! t = T_barrier i p" "p \<noteq> B_lock" "p \<noteq> B_blocked"
        using critD(1) by blast
      have "\<exists>r. thread_barrier_wait False t (p, barrier s) r" using t by (intro barrier_wait_enabled) auto
      then show False using t_barrier[of t s i p] t D(1) thr by auto
    qed
    show "counter_lock s = None"
    proof (rule ccontr)
      assume "counter_lock s \<noteq> None"
      with B obtain t i where t: "t < 8" "thrs s ! t = T_inc i \<or> thrs s ! t = T_unlock i"
        using critD(2) by blast
      then show False using t_inc[of t s i False ptr] t_unlock[of t s i False ptr] D(1) thr by auto
    qed
  qed
  have asleep: "thrs s ! t = T_done \<or> (\<exists>j. thrs s ! t = T_barrier j B_blocked \<and> t \<in> condv (barrier s))" if "t < 8" for t
    using thr_enabled[OF conjunct1[OF I] that none[OF that], of False ptr] free thr by blast
  obtain R where R: "\<And>t. t < 8 \<Longrightarrow> arrived (thrs s ! t) = (if counted (barrier s) t (thrs s ! t) then Suc R else R)"
    and last: "(\<exists>t<8. at_last (thrs s ! t)) \<longleftrightarrow> (\<forall>t<8. counted (barrier s) t (thrs s ! t))"
    using I unfolding round_inv_def by auto
  have "counted (barrier s) i (thrs s ! i)" using asleep[OF i(2)] i(3) by (auto simp: counted_def)
  then have "Suc R \<le> 4" using R[OF i(2)] arrived_max[OF D(6)[OF i(2)]] by simp
  then have "thrs s ! t \<noteq> T_done" if "t < 8" for t using R[OF that] by (auto simp: arrived_def counted_def)
  then have "\<forall>t<8. counted (barrier s) t (thrs s ! t)" using asleep by (fastforce simp: counted_def)
  with last obtain t where "t < 8" "at_last (thrs s ! t)" by blast
  with asleep[of t] show False by (auto simp: at_last_def)
qed

subsection \<open>The properties\<close>

text \<open>
  Property C16. Without spurious wake-ups the barrier keeps the threads in step: when a thread has returned
  from its \<open>k\<close>-th barrier, every one of the eight threads has made its \<open>k * sync_step\<close> increments
  and waits at, or has returned from, that barrier, so that the shared counter is at least
  \<open>8 * k * sync_step\<close>. There is no undefined behaviour, and no deadlock before \<open>main\<close> ends.
\<close>

theorem barrier_in_step:
  assumes "reach bar_init_state (bar_step False ptr) s"
  shows "(\<forall>t u k. t < threads_no \<and> u < threads_no \<and> k \<le> passed (thrs s ! t) \<longrightarrow>
        k * sync_step \<le> incs (thrs s ! u) \<and> k \<le> Suc (passed (thrs s ! u)) \<and> threads_no * (k * sync_step) \<le> unat (total s))
    \<and> \<not> bar_step False ptr s None
    \<and> (bmain_at s = M_exit \<or> (\<exists>s'. bar_step False ptr s (Some s')))"
proof -
  have I: "bar_inv False s" using assms by (rule bar.inv_reach)
  note D = base_invD[OF conjunct1[OF I[unfolded bar_inv_def]]]
  obtain R where R: "\<And>t. t < 8 \<Longrightarrow> arrived (thrs s ! t) = (if counted (barrier s) t (thrs s ! t) then Suc R else R)"
    using I unfolding bar_inv_def round_inv_def by auto
  have "passed (thrs s ! t) \<le> R" "R \<le> arrived (thrs s ! t)" "R \<le> Suc (passed (thrs s ! t))" if "t < 8" for t
    using R[OF that] passed_arrived[OF D(6)[OF that], of "barrier s" t] R[OF that]
    by (auto split: if_splits simp: arrived_def split: bthr_pc.splits)
  then have step: "k * sync_step \<le> incs (thrs s ! u)" "k \<le> Suc (passed (thrs s ! u))" if "t < 8" "u < 8" "k \<le> passed (thrs s ! t)" for t u k
    using that arrived_incs[OF D(6)[OF that(2)]] by (meson le_trans mult_le_mono1)+
  have "threads_no * (k * sync_step) \<le> unat (total s)" if "t < 8" "k \<le> passed (thrs s ! t)" for t k
    using sum_list_ge[of "thrs s" "k * sync_step" incs] step(1)[OF that(1) _ that(2)] D(1) total_eq[OF I]
    by (fastforce simp: in_set_conv_nth)
  moreover have "bmain_at s = M_exit \<or> (\<exists>s'. bar_step False ptr s (Some s'))"
    using bar_progress[OF I, of ptr] bar.reach_defined[OF assms] by (metis not_None_eq)
  ultimately show ?thesis using step bar.reach_defined[OF assms] by auto
qed

text \<open>The initial state is reachable, and an example of the theorem.\<close>

definition bar_start :: bar_sys where
  "bar_start = \<lparr>barrier = \<lparr>target = 8, counter = 0, condv = {}, lock = None\<rparr>, counter_lock = None, total = 0,
     thrs = replicate 8 T_none, bmain_at = M_create 0, bout = []\<rparr>"

lemma bar_start_init: "bar_init_state bar_start"
  by (simp add: bar_init_state_def thread_barrier_init_def bar_start_def)

lemma bar_start_reach: "reach bar_init_state (bar_step sp ptr) bar_start"
  by (rule reach_init) (rule bar_start_init)

theorem barrier_in_step_witness:
  "\<not> bar_step False (\<lambda>_. ''t'') bar_start None \<and> (\<exists>s'. bar_step False (\<lambda>_. ''t'') bar_start (Some s'))"
  using barrier_in_step[OF bar_start_reach, of "\<lambda>_. ''t''"] by (auto simp: bar_start_def)

subsection \<open>Termination\<close>

fun pos_left :: "bar_pc \<Rightarrow> nat" where
  "pos_left B_lock = 13"
| "pos_left B_inc = 12"
| "pos_left B_reset = 11"
| "pos_left B_broadcast = 10"
| "pos_left B_unlock_last = 9"
| "pos_left B_wait = 8"
| "pos_left B_blocked = 7"
| "pos_left B_unlock = 6"

fun steps_left :: "bthr_pc \<Rightarrow> nat" where
  "steps_left T_none = 20 * (thread_inc + 3)"
| "steps_left (T_test i) = 20 * (thread_inc + 2 - i) + 19"
| "steps_left (T_lock i) = 20 * (thread_inc + 2 - i) + 18"
| "steps_left (T_inc i) = 20 * (thread_inc + 2 - i) + 17"
| "steps_left (T_unlock i) = 20 * (thread_inc + 2 - i) + 16"
| "steps_left (T_check i) = 20 * (thread_inc + 2 - i) + 15"
| "steps_left (T_print i) = 20 * (thread_inc + 2 - i) + 14"
| "steps_left (T_barrier i p) = 20 * (thread_inc + 2 - i) + pos_left p"
| "steps_left (T_report i x) = 20 * (thread_inc + 2 - i) + 5"
| "steps_left T_done = 0"

fun main_left :: "bmain_pc \<Rightarrow> nat" where
  "main_left (M_create i) = 20 + (9 - i)"
| "main_left (M_join i) = 1 + (9 - i)"
| "main_left M_exit = 0"

definition bar_left :: "bar_sys \<Rightarrow> nat" where
  "bar_left s = sum_list (map steps_left (thrs s)) + main_left (bmain_at s)"

lemma sum_list_update_less:
  "t < length ts \<Longrightarrow> f pc < f (ts ! t) \<Longrightarrow> sum_list (map f (ts[t := pc])) < sum_list (map f ts)" for f :: "'a \<Rightarrow> nat"
  by (induction ts arbitrary: t) (auto split: nat.splits)

lemma bar_left_thr:
  assumes "base_inv s" "bthr_fn False ptr s (Some s')"
  shows "bar_left s' < bar_left s"
proof -
  note D = base_invD[OF assms(1)]
  obtain t pc' where t: "t < length (thrs s)" "thrs s' = (thrs s)[t := pc']" "steps_left pc' < steps_left (thrs s ! t)"
    using assms(2)
  proof (cases rule: bthr_fnE)
    case (local t pc')
    have "wf_pc (thrs s ! t)" using D(1,6) local(1) by simp
    then have "steps_left pc' < steps_left (thrs s ! t)" using local(8) by (auto split: if_splits)
    then show thesis using that local(1,2) by blast
  next
    case (count t i pc' m)
    then show thesis using that[of t pc'] by auto
  next
    case (bar t i p r b)
    have "wf_pc (thrs s ! t)" using D(1,6) bar(1) by simp
    with bar(3) have "steps_left (case r of Inl p \<Rightarrow> T_barrier i p | Inr x \<Rightarrow> T_report i x) < steps_left (thrs s ! t)"
      by (cases rule: barrier_waitE) (use bar(2) in auto)
    then show thesis using that[of t] bar(1,4) by simp
  qed
  then show ?thesis using thr_moves(2)[OF assms(2)] sum_list_update_less[of t "thrs s" steps_left pc'] by (simp add: bar_left_def)
qed

lemma bar_left_step:
  assumes "bar_inv False s" "bar_step False ptr s (Some s')"
  shows "bar_left s' < bar_left s"
proof -
  note I = assms(1)[unfolded bar_inv_def]
  from assms(2) consider "bthr_fn False ptr s (Some s')" | "bar_main s (Some s')" by (auto simp: bar_step_def)
  then show ?thesis
  proof cases
    case 1
    then show ?thesis using bar_left_thr I by blast
  next
    case 2
    then show ?thesis
    proof (cases rule: bar_main.cases)
      case (bm_create i)
      then have "thrs s ! i = T_none" "i < length (thrs s)" using I by (simp_all add: main_inv_def base_inv_def)
      with bm_create sum_list_update_less[of i "thrs s" steps_left "T_test 1"] show ?thesis by (simp add: bar_left_def)
    qed (auto simp: bar_left_def)
  qed
qed

lemma bar_reaches_exit:
  assumes "reach bar_init_state (bar_step False ptr) s"
  shows "\<exists>s'. reach bar_init_state (bar_step False ptr) s' \<and> bmain_at s' = M_exit"
  using assms
proof (induction "bar_left s" arbitrary: s rule: less_induct)
  case less
  note I = bar.inv_reach[OF less.prems]
  show ?case
  proof (cases "bmain_at s = M_exit")
    case False
    then obtain s' where s': "bar_step False ptr s (Some s')"
      using bar_progress[OF I, of ptr] bar.reach_defined[OF less.prems] by (metis not_None_eq)
    then show ?thesis using less.hyps[OF bar_left_step[OF I s']] reach_step[OF less.prems s'] by blast
  qed (use less.prems in blast)
qed

lemma exit_total:
  assumes "bar_inv sp s" "bmain_at s = M_exit"
  shows "total s = 8000000"
proof -
  note I = assms(1)[unfolded bar_inv_def]
  have "length (thrs s) = 8" "\<forall>t<8. thrs s ! t = T_done" using I assms(2) by (simp_all add: base_inv_def main_inv_def)
  then have "thrs s = replicate 8 T_done" by (simp add: list_eq_iff_nth_eq)
  then show ?thesis using I by (simp add: total_inv_def map_replicate_const sum_list_replicate)
qed

text \<open>
  \<open>main\<close> does not call \<open>thread_barrier_destroy\<close>; at its end it could: nobody uses the barrier.
\<close>

lemma exit_destroy:
  assumes "bar_inv sp s" "bmain_at s = M_exit"
  shows "thread_barrier_destroy (barrier s) = Some ()"
proof -
  have b: "base_inv s" and d: "\<forall>t<8. thrs s ! t = T_done" using assms by (simp_all add: bar_inv_def main_inv_def)
  then have l: "length (thrs s) = 8" by (simp add: base_inv_def)
  have "t \<notin> condv (barrier s)" for t using b d by (auto simp: base_inv_def)
  then have "condv (barrier s) = {}" by blast
  moreover have "lock (barrier s) = None"
    using excl_free[of bar_crit "lock (barrier s)" "thrs s"] b d l by (auto simp: base_inv_def bar_crit_def)
  ultimately show ?thesis by (simp add: thread_barrier_destroy_def)
qed

text \<open>
  Property C17. Without spurious wake-ups the program ends under every schedule: no run is infinite, and a
  run that cannot go on has ended \<open>main\<close>. With or without them, when \<open>main\<close> ends it has
  printed 8000000, the target value of the counter.
\<close>

theorem barrier_terminates:
  "(\<nexists>f. bar_init_state (f 0) \<and> (\<forall>n. bar_step False ptr (f n) (Some (f (Suc n)))))
   \<and> (\<forall>s. reach bar_init_state (bar_step False ptr) s \<and> (\<nexists>s'. bar_step False ptr s (Some s')) \<longrightarrow> bmain_at s = M_exit)
   \<and> (\<exists>s. reach bar_init_state (bar_step False ptr) s \<and> bmain_at s = M_exit)
   \<and> (\<forall>sp s. reach bar_init_state (bar_step sp ptr) s \<and> bmain_at s = M_exit \<longrightarrow>
        (\<exists>out. bout s = out @ ''All done, counter = 8000000\<newline>''))"
proof (intro conjI allI impI notI)
  assume "\<exists>f. bar_init_state (f 0) \<and> (\<forall>n. bar_step False ptr (f n) (Some (f (Suc n))))"
  then obtain f where f: "bar_init_state (f 0)" "\<And>n. bar_step False ptr (f n) (Some (f (Suc n)))" by blast
  have "reach bar_init_state (bar_step False ptr) (f n)" for n
    by (induction n) (use f in \<open>auto intro: reach.intros\<close>)
  then have "bar_left (f (Suc n)) < bar_left (f n)" for n using bar_left_step[OF bar.inv_reach f(2)] by blast
  then show False using wf_iff_no_infinite_down_chain[of "measure (bar_left \<circ> id)"] by (metis comp_id in_measure wf_measure)
next
  fix s assume s: "reach bar_init_state (bar_step False ptr) s \<and> (\<nexists>s'. bar_step False ptr s (Some s'))"
  then have r: "reach bar_init_state (bar_step False ptr) s" by blast
  show "bmain_at s = M_exit" using bar_progress[OF bar.inv_reach[OF r], of ptr] bar.reach_defined[OF r] s by (metis not_None_eq)
next
  show "\<exists>s. reach bar_init_state (bar_step False ptr) s \<and> bmain_at s = M_exit"
    by (rule bar_reaches_exit[OF bar_start_reach])
next
  fix sp s assume s: "reach bar_init_state (bar_step sp ptr) s \<and> bmain_at s = M_exit"
  then have I: "bar_inv sp s" using bar.inv_reach by blast
  have "printf ''All done, counter = %lld\<newline>'' [IntA (sint (8000000 :: 64 word))] = ''All done, counter = 8000000\<newline>''"
  proof -
    have "sint (8000000 :: 64 word) = 8000000" by simp
    moreover have "digit_char 8 = CHR ''8''" "digit_char 0 = CHR ''0''" by code_simp+
    then have "show_int 8000000 = ''8000000''" by (simp add: show_int_def show_nat.simps)
    ultimately show ?thesis by (simp add: show_conv_def)
  qed
  then show "\<exists>out. bout s = out @ ''All done, counter = 8000000\<newline>''"
    using I s exit_total[OF I] by (auto simp: bar_inv_def main_inv_def)
qed

theorem barrier_terminates_witness:
  "\<exists>s out. reach bar_init_state (bar_step False (\<lambda>_. ''t'')) s \<and> bout s = out @ ''All done, counter = 8000000\<newline>''"
  using barrier_terminates[of "\<lambda>_. ''t''"] by blast

subsection \<open>A spurious wake-up\<close>

text \<open>The states of a run in which only the first thread was created.\<close>

abbreviation solo :: "bthr_pc \<Rightarrow> mutex \<Rightarrow> nat \<Rightarrow> thread_barrier \<Rightarrow> string \<Rightarrow> bar_sys" where
  "solo pc m n b out \<equiv> \<lparr>barrier = b, counter_lock = m, total = of_nat n, thrs = pc # replicate 7 T_none,
     bmain_at = M_create 1, bout = out\<rparr>"

abbreviation bar0 :: "64 word \<Rightarrow> condvar \<Rightarrow> mutex \<Rightarrow> thread_barrier" where
  "bar0 c w m \<equiv> \<lparr>target = 8, counter = c, condv = w, lock = m\<rparr>"

abbreviation sp_reach :: "(nat \<Rightarrow> string) \<Rightarrow> bar_sys \<Rightarrow> bool" where
  "sp_reach ptr \<equiv> reach bar_init_state (bar_step True ptr)"

lemma solo_step:
  "sp_reach ptr s \<Longrightarrow> bthr_fn True ptr s r \<Longrightarrow> r = Some s' \<Longrightarrow> sp_reach ptr s'"
  by (rule reach_step) (auto simp: bar_step_def)

lemma solo_start: "sp_reach ptr (solo (T_test 1) None 0 (bar0 0 {} None) [])"
proof -
  have e: "(replicate 8 T_none)[0 := pc] = pc # replicate 7 T_none" for pc by (simp add: numeral_eq_Suc)
  have "bar_main bar_start (Some (bar_start\<lparr>thrs := (thrs bar_start)[0 := T_test 1], bmain_at := M_create (0 + 1)\<rparr>))"
    by (rule bm_create) (simp_all add: bar_start_def)
  then have "sp_reach ptr (bar_start\<lparr>thrs := (thrs bar_start)[0 := T_test 1], bmain_at := M_create (0 + 1)\<rparr>)"
    by (intro reach_step[OF bar_start_reach]) (simp add: bar_step_def)
  then show ?thesis unfolding bar_start_def by (simp add: e)
qed

lemma solo_increment:
  assumes "sp_reach ptr (solo (T_test i) None n b out)" "i \<le> thread_inc"
  shows "sp_reach ptr (solo (T_check i) None (Suc n) b out)"
proof -
  have "sp_reach ptr (solo (T_lock i) None n b out)" by (rule solo_step[OF assms(1) t_test[where t = 0 and i = i]]) (use assms(2) in simp_all)
  then have "sp_reach ptr (solo (T_inc i) (Some 0) n b out)" by (rule solo_step[OF _ t_lock[where t = 0 and i = i]]) simp_all
  then have "sp_reach ptr (solo (T_unlock i) (Some 0) (Suc n) b out)" by (rule solo_step[OF _ t_inc[where t = 0 and i = i]]) (simp_all add: add.commute)
  then show ?thesis by (rule solo_step[OF _ t_unlock[where t = 0 and i = i]]) simp_all
qed

lemma solo_loop: "i < sync_step \<Longrightarrow> sp_reach ptr (solo (T_test (Suc i)) None i (bar0 0 {} None) [])"
proof (induction i)
  case 0
  show ?case using solo_start by simp
next
  case (Suc i)
  then have "sp_reach ptr (solo (T_check (Suc i)) None (Suc i) (bar0 0 {} None) [])" by (intro solo_increment) simp_all
  then show ?case by (rule solo_step[OF _ t_check[where t = 0 and i = "Suc i"]]) (use Suc.prems in simp_all)
qed

text \<open>
  Property C38. One spurious wake-up breaks the barrier, because \<open>thread_barrier_wait\<close> does not test
  a condition when \<open>pthread_cond_wait\<close> returns: a thread can return from its first barrier while
  the other seven threads have not made a single increment.
\<close>

theorem barrier_spurious_wakeup:
  "\<exists>s. reach bar_init_state (bar_step True ptr) s \<and> passed (thrs s ! 0) = 1
     \<and> (\<forall>t. 0 < t \<and> t < threads_no \<longrightarrow> incs (thrs s ! t) = 0)"
proof -
  let ?i = "250000 :: nat" and ?o = "''['' @ ptr 0 @ ''] Waiting...\<newline>''"
  have "sp_reach ptr (solo (T_test ?i) None 249999 (bar0 0 {} None) [])" using solo_loop[of 249999 ptr] by simp
  then have "sp_reach ptr (solo (T_check ?i) None 250000 (bar0 0 {} None) [])"
    using solo_increment[where ptr = ptr and i = ?i and n = 249999 and b = "bar0 0 {} None" and out = "[]"] by simp
  then have "sp_reach ptr (solo (T_print ?i) None 250000 (bar0 0 {} None) [])" by (rule solo_step[OF _ t_check[where t = 0 and i = ?i]]) simp_all
  then have "sp_reach ptr (solo (T_barrier ?i B_lock) None 250000 (bar0 0 {} None) ?o)" by (rule solo_step[OF _ t_print[where t = 0 and i = ?i]]) simp_all
  then have "sp_reach ptr (solo (T_barrier ?i B_inc) None 250000 (bar0 0 {} (Some 0)) ?o)"
    by (rule solo_step[OF _ t_barrier[where t = 0 and i = ?i, OF _ _ b_lock]]) simp_all
  then have "sp_reach ptr (solo (T_barrier ?i B_wait) None 250000 (bar0 1 {} (Some 0)) ?o)"
    by (rule solo_step[OF _ t_barrier[where t = 0 and i = ?i, OF _ _ b_inc]]) simp_all
  then have "sp_reach ptr (solo (T_barrier ?i B_blocked) None 250000 (bar0 1 {0} None) ?o)"
    by (rule solo_step[OF _ t_barrier[where t = 0 and i = ?i, OF _ _ b_wait]]) simp_all
  then have "sp_reach ptr (solo (T_barrier ?i B_blocked) None 250000 (bar0 1 {} None) ?o)"
    by (rule solo_step[OF _ t_barrier[where t = 0 and i = ?i, OF _ _ b_spurious]]) simp_all
  then have "sp_reach ptr (solo (T_barrier ?i B_unlock) None 250000 (bar0 1 {} (Some 0)) ?o)"
    by (rule solo_step[OF _ t_barrier[where t = 0 and i = ?i, OF _ _ b_relock]]) simp_all
  then have "sp_reach ptr (solo (T_report ?i 0) None 250000 (bar0 1 {} None) ?o)"
    by (rule solo_step[OF _ t_barrier[where t = 0 and i = ?i, OF _ _ b_unlock]]) simp_all
  moreover have "passed (T_report ?i 0) = 1" by simp
  moreover have "incs ((T_report ?i 0 # replicate 7 T_none) ! t) = 0" if "0 < t" "t < 8" for t
    using that by (simp add: nth_Cons')
  ultimately show ?thesis by (intro exI[of _ "solo (T_report ?i 0) None 250000 (bar0 1 {} None) ?o"]) auto
qed

theorem barrier_spurious_wakeup_witness:
  "\<exists>s. reach bar_init_state (bar_step True (\<lambda>_. ''t'')) s \<and> passed (thrs s ! 0) = 1 \<and> incs (thrs s ! 1) = 0"
proof -
  obtain s where "reach bar_init_state (bar_step True (\<lambda>_. ''t'')) s" "passed (thrs s ! 0) = 1"
    "\<forall>t. 0 < t \<and> t < threads_no \<longrightarrow> incs (thrs s ! t) = 0"
    using barrier_spurious_wakeup by blast
  then show ?thesis by (intro exI[of _ s]) simp
qed

end
