(* ===== verification/Work_Queue.thy ===== *)
theory Work_Queue
  imports Pthreads C_Heap C_Stdio
begin

text \<open>
  What the two programs under \<open>threads/work_queue\<close> share: a boss thread that allocates jobs and
  inserts them into a linked list, and worker threads that take jobs from the list, print and free them.
  The programs differ in \<open>get_job\<close> and \<open>insert_job\<close> only, which are parameters here: step
  relations between a position in the function and the queue. \<open>get_job\<close> ends with a pointer.

  The locale \<open>job_ops\<close> is the contract of the two functions: they hand the ownership of list nodes
  over and never leave a node with two owners. Positions carry the
  addresses of the non-null pointers that the local variables hold. Under the contract no interleaving uses a node after it
  was freed, frees it twice, or gives a job to two workers (\<open>owned_step\<close>).
\<close>

text \<open>A field that was never written is \<open>None\<close>; to read it is undefined.\<close>

record job_node =
  job_description :: "string option"
  next_job :: "ptr option"

text \<open>The shared state; \<open>sync\<close> is the semaphore or the condition variable.\<close>

record 'y wq =
  jheap :: "job_node heap"
  workq :: ptr
  workq_lock :: mutex
  sync :: 'y

definition WORKERS :: nat where "WORKERS = 4"

definition jobs_descriptions :: "string list" where
  "jobs_descriptions = [''Example job 1'', ''Example job 2'', ''Example job 3'', ''Example job 4'', ''Example job 5'']"

definition jobs_sz :: nat where "jobs_sz = length jobs_descriptions"

text \<open>Positions of the threads: workers in \<open>get_job\<close>, printing and freeing; the boss.\<close>

datatype ('g, 'i) job_pc = W_get 'g | W_print nat | W_free nat | N_malloc | N_desc nat | N_insert nat 'i

datatype create_pc = C_workers nat | C_boss | C_join

record ('y, 'g, 'i) wq_sys =
  que :: "'y wq"
  thr :: "('g, 'i) job_pc list"
  job_id :: nat
  wmain_at :: create_pc
  wout :: string

type_synonym ('y, 'g) get_rel = "tid \<Rightarrow> 'g \<times> 'y wq \<Rightarrow> (('g + nat) \<times> 'y wq) c \<Rightarrow> bool"
type_synonym ('y, 'i) insert_rel = "tid \<Rightarrow> nat \<Rightarrow> 'i \<times> 'y wq \<Rightarrow> ('i option \<times> 'y wq) c \<Rightarrow> bool"

subsection \<open>The steps of one thread\<close>

definition print_job :: "(nat \<Rightarrow> string) \<Rightarrow> tid \<Rightarrow> 'y wq \<Rightarrow> nat \<Rightarrow> string c" where
  "print_job tid_str t q a =
     do { n \<leftarrow> deref (jheap q) (Some a);
          d \<leftarrow> job_description n;
          Some (''['' @ tid_str t @ '']: '' @ d @ ''\<newline>'') }"

inductive worker_thr :: "('y, 'g) get_rel \<Rightarrow> 'g \<Rightarrow> (nat \<Rightarrow> string) \<Rightarrow> ('y, 'g, 'i) wq_sys \<Rightarrow> ('y, 'g, 'i) wq_sys c \<Rightarrow> bool"
  for get_job g0 tid_str where
  wk_get: "t < length (thr s) \<Longrightarrow> thr s ! t = W_get p \<Longrightarrow> get_job t (p, que s) r \<Longrightarrow>
     worker_thr get_job g0 tid_str s
       (map_option (\<lambda>(x, q). s\<lparr>que := q, thr := (thr s)[t := (case x of Inl p' \<Rightarrow> W_get p' | Inr a \<Rightarrow> W_print a)]\<rparr>) r)"
| wk_print: "t < length (thr s) \<Longrightarrow> thr s ! t = W_print a \<Longrightarrow>
     worker_thr get_job g0 tid_str s
       (map_option (\<lambda>line. s\<lparr>thr := (thr s)[t := W_free a], wout := wout s @ line\<rparr>) (print_job tid_str t (que s) a))"
| wk_free: "t < length (thr s) \<Longrightarrow> thr s ! t = W_free a \<Longrightarrow>
     worker_thr get_job g0 tid_str s
       (map_option (\<lambda>h. s\<lparr>que := (que s)\<lparr>jheap := h\<rparr>, thr := (thr s)[t := W_get g0]\<rparr>) (free (jheap (que s)) (Some a)))"

inductive boss_thr :: "('y, 'i) insert_rel \<Rightarrow> 'i \<Rightarrow> ('y, 'g, 'i) wq_sys \<Rightarrow> ('y, 'g, 'i) wq_sys c \<Rightarrow> bool"
  for insert_job i0 where
  bs_malloc: "t < length (thr s) \<Longrightarrow> thr s ! t = N_malloc \<Longrightarrow>
     malloc (jheap (que s)) \<lparr>job_description = None, next_job = None\<rparr> = (newjob, h) \<Longrightarrow>
     boss_thr insert_job i0 s
       (Some (s\<lparr>que := (que s)\<lparr>jheap := h\<rparr>, thr := (thr s)[t := (case newjob of Some a \<Rightarrow> N_desc a | None \<Rightarrow> N_malloc)]\<rparr>))"
| bs_desc: "t < length (thr s) \<Longrightarrow> thr s ! t = N_desc newjob \<Longrightarrow>
     boss_thr insert_job i0 s
       (map_option (\<lambda>h. s\<lparr>que := (que s)\<lparr>jheap := h\<rparr>, job_id := (job_id s + 1) mod jobs_sz, thr := (thr s)[t := N_insert newjob i0]\<rparr>)
          (Option.bind (rd jobs_descriptions (job_id s)) (\<lambda>d. store (jheap (que s)) (Some newjob) (\<lambda>n. n\<lparr>job_description := Some d\<rparr>))))"
| bs_insert: "t < length (thr s) \<Longrightarrow> thr s ! t = N_insert newjob p \<Longrightarrow> insert_job t newjob (p, que s) r \<Longrightarrow>
     boss_thr insert_job i0 s
       (map_option (\<lambda>(x, q). s\<lparr>que := q, thr := (thr s)[t := (case x of Some p' \<Rightarrow> N_insert newjob p' | None \<Rightarrow> N_malloc)]\<rparr>) r)"

text \<open>\<open>main\<close> creates the threads and then waits for the workers, which never return.\<close>

inductive wq_main :: "'g \<Rightarrow> ('y, 'g, 'i) wq_sys \<Rightarrow> ('y, 'g, 'i) wq_sys c \<Rightarrow> bool" for g0 where
  mk_worker: "wmain_at s = C_workers i \<Longrightarrow> i < WORKERS \<Longrightarrow>
     wq_main g0 s (Some (s\<lparr>thr := thr s @ [W_get g0], wmain_at := C_workers (i + 1)\<rparr>))"
| mk_boss: "wmain_at s = C_workers i \<Longrightarrow> \<not> i < WORKERS \<Longrightarrow>
     wq_main g0 s (Some (s\<lparr>thr := thr s @ [N_malloc], wmain_at := C_join\<rparr>))"

definition wq_step :: "('y, 'g) get_rel \<Rightarrow> 'g \<Rightarrow> ('y, 'i) insert_rel \<Rightarrow> 'i \<Rightarrow> (nat \<Rightarrow> string) \<Rightarrow> ('y, 'g, 'i) wq_sys \<Rightarrow> ('y, 'g, 'i) wq_sys c \<Rightarrow> bool" where
  "wq_step get_job g0 insert_job i0 tid_str s r \<longleftrightarrow>
     worker_thr get_job g0 tid_str s r \<or> boss_thr insert_job i0 s r \<or> wq_main g0 s r"

definition wq_init :: "'y \<Rightarrow> ('y, 'g, 'i) wq_sys \<Rightarrow> bool" where
  "wq_init y s \<longleftrightarrow> (\<exists>f. s = \<lparr>que = \<lparr>jheap = empty_heap f, workq = None, workq_lock = None, sync = y\<rparr>, thr = [], job_id = 0,
     wmain_at = C_workers 0, wout = []\<rparr>)"

subsection \<open>Ownership of the nodes\<close>

fun is_list :: "(nat \<rightharpoonup> job_node) \<Rightarrow> ptr \<Rightarrow> nat list \<Rightarrow> bool" where
  "is_list c p [] \<longleftrightarrow> p = None"
| "is_list c p (a # as) \<longleftrightarrow> p = Some a \<and> (\<exists>n p'. c a = Some n \<and> next_job n = Some p' \<and> is_list c p' as)"

definition described :: "(nat \<rightharpoonup> job_node) \<Rightarrow> nat \<Rightarrow> bool" where
  "described c a \<longleftrightarrow> (\<exists>n d. c a = Some n \<and> job_description n = Some d \<and> d \<in> set jobs_descriptions)"

text \<open>
  The nodes \<open>ps\<close> of the list and the pointers \<open>hs\<close> the threads hold, each with a flag whether
  its node is described: no node is in two places, all of them are allocated, and every allocated node is in one.
\<close>

definition owned :: "nat list \<Rightarrow> 'y wq \<Rightarrow> (ptr \<times> bool) list \<Rightarrow> bool" where
  "owned ps q hs \<longleftrightarrow> heap_ok (jheap q) \<and> is_list (cells (jheap q)) (workq q) ps \<and> distinct ps
     \<and> (\<forall>a\<in>set ps. described (cells (jheap q)) a)
     \<and> (\<forall>t<length hs. \<forall>a. fst (hs ! t) = Some a \<longrightarrow>
          a \<notin> set ps \<and> a \<in> dom (cells (jheap q)) \<and> (snd (hs ! t) \<longrightarrow> described (cells (jheap q)) a))
     \<and> (\<forall>t<length hs. \<forall>u<length hs. fst (hs ! t) = fst (hs ! u) \<and> fst (hs ! t) \<noteq> None \<longrightarrow> t = u)
     \<and> (\<forall>a\<in>dom (cells (jheap q)). a \<in> set ps \<or> (\<exists>t<length hs. fst (hs ! t) = Some a))"

lemma is_list_cong: "(\<And>a. a \<in> set ps \<Longrightarrow> c' a = c a) \<Longrightarrow> is_list c' p ps = is_list c p ps"
  by (induction ps arbitrary: p) auto

lemma ownedD:
  assumes "owned ps q hs"
  shows "heap_ok (jheap q)" "is_list (cells (jheap q)) (workq q) ps" "distinct ps"
    "\<And>a. a \<in> set ps \<Longrightarrow> described (cells (jheap q)) a"
    "\<And>t a. t < length hs \<Longrightarrow> fst (hs ! t) = Some a \<Longrightarrow>
       a \<notin> set ps \<and> a \<in> dom (cells (jheap q)) \<and> (snd (hs ! t) \<longrightarrow> described (cells (jheap q)) a)"
    "\<And>t u a. t < length hs \<Longrightarrow> u < length hs \<Longrightarrow> fst (hs ! t) = Some a \<Longrightarrow> fst (hs ! u) = Some a \<Longrightarrow> t = u"
    "\<And>a. a \<in> dom (cells (jheap q)) \<Longrightarrow> a \<in> set ps \<or> (\<exists>t<length hs. fst (hs ! t) = Some a)"
  using assms unfolding owned_def by (blast, blast, blast, blast, blast, metis option.distinct(1), blast)

text \<open>
  A step of thread \<open>t\<close> that changes the list to \<open>ps'\<close>, the nodes to \<open>q'\<close> and what the
  thread holds to \<open>x\<close>, and leaves the nodes of all other threads alone.
\<close>

lemma owned_update:
  assumes "owned ps q hs" "heap_ok (jheap q')" "is_list (cells (jheap q')) (workq q') ps'" "distinct ps'"
    and "\<And>a. a \<in> set ps' \<Longrightarrow> described (cells (jheap q')) a"
    and "\<And>a. fst x = Some a \<Longrightarrow> a \<notin> set ps' \<and> a \<in> dom (cells (jheap q')) \<and> (snd x \<longrightarrow> described (cells (jheap q')) a)"
    and "\<And>u a. u < length hs \<Longrightarrow> u \<noteq> t \<Longrightarrow> fst (hs ! u) = Some a \<Longrightarrow>
      a \<notin> set ps' \<and> cells (jheap q') a = cells (jheap q) a \<and> fst x \<noteq> Some a"
    and "t < length hs" "\<And>a. a \<in> dom (cells (jheap q')) \<Longrightarrow>
      a \<in> set ps' \<or> fst x = Some a \<or> a \<in> dom (cells (jheap q)) \<and> a \<notin> set ps \<and> fst (hs ! t) \<noteq> Some a"
  shows "owned ps' q' (hs[t := x])"
  unfolding owned_def
proof (intro conjI ballI allI impI)
  note o = ownedD[OF assms(1)]
  fix u a assume u: "u < length (hs[t := x])" "fst (hs[t := x] ! u) = Some a"
  have "a \<notin> set ps' \<and> a \<in> dom (cells (jheap q')) \<and> (snd (hs[t := x] ! u) \<longrightarrow> described (cells (jheap q')) a)"
  proof (cases "u = t")
    case False
    with u have "fst (hs ! u) = Some a" "u < length hs" by simp_all
    with o(5)[of u a] assms(7)[of u a] False show ?thesis by (auto simp: described_def dom_def)
  qed (use u assms(6) in auto)
  then show "a \<notin> set ps'" "a \<in> dom (cells (jheap q'))"
    "snd (hs[t := x] ! u) \<Longrightarrow> described (cells (jheap q')) a" by blast+
next
  note o = ownedD[OF assms(1)]
  fix u v assume uv: "u < length (hs[t := x])" "v < length (hs[t := x])"
    "fst (hs[t := x] ! u) = fst (hs[t := x] ! v) \<and> fst (hs[t := x] ! u) \<noteq> None"
  then obtain a where "fst (hs[t := x] ! u) = Some a" by blast
  with uv(3) have a: "fst (hs[t := x] ! u) = Some a" "fst (hs[t := x] ! v) = Some a" by simp_all
  then show "u = v" using uv(1,2) o(6)[of u v a] assms(7)[of u a] assms(7)[of v a] by (cases "u = t"; cases "v = t") auto
next
  fix a assume a: "a \<in> dom (cells (jheap q'))"
  show "a \<in> set ps' \<or> (\<exists>u<length (hs[t := x]). fst (hs[t := x] ! u) = Some a)"
  proof (cases "a \<in> set ps' \<or> fst x = Some a")
    case True
    then show ?thesis using assms(8) by (auto intro: exI[of _ t])
  next
    case False
    then have "a \<in> dom (cells (jheap q))" "a \<notin> set ps" "fst (hs ! t) \<noteq> Some a" using assms(9)[OF a] by blast+
    then obtain u where "u < length hs" "fst (hs ! u) = Some a" "u \<noteq> t" using ownedD(7)[OF assms(1)] by blast
    then show ?thesis by (auto intro!: exI[of _ u])
  qed
qed (use assms(2-5) in auto)

lemma owned_cong: "owned ps q hs \<Longrightarrow> jheap q' = jheap q \<Longrightarrow> workq q' = workq q \<Longrightarrow> owned ps q' hs"
  by (simp only: owned_def, blast)

lemma owned_same:
  assumes "owned ps q hs" "fst x = fst (hs ! t)" "snd x \<longrightarrow> snd (hs ! t) \<or> fst x = None"
  shows "owned ps q (hs[t := x])"
proof (cases "t < length hs")
  case True
  note o = ownedD[OF assms(1)]
  show ?thesis
  proof (rule owned_update[OF assms(1)])
    fix a assume "fst x = Some a"
    then show "a \<notin> set ps \<and> a \<in> dom (cells (jheap q)) \<and> (snd x \<longrightarrow> described (cells (jheap q)) a)"
      using o(5)[OF True, of a] assms(2,3) by auto
  next
    fix u a assume "u < length hs" "u \<noteq> t" "fst (hs ! u) = Some a"
    then show "a \<notin> set ps \<and> cells (jheap q) a = cells (jheap q) a \<and> fst x \<noteq> Some a"
      using o(5)[of u a] o(6)[of u t a] assms(2) True by auto
  qed (use o assms(2) True in \<open>auto simp del: not_None_eq\<close>)
qed (use assms(1) in \<open>simp add: list_update_beyond\<close>)

text \<open>The elementary operations on the nodes.\<close>

lemma owned_take:
  assumes "owned ps q hs" "t < length hs" "fst (hs ! t) = None" "Option.bind (deref (jheap q) (workq q)) next_job = Some p"
  obtains a ps' where "ps = a # ps'" "workq q = Some a" "owned ps' (q\<lparr>workq := p\<rparr>) (hs[t := (Some a, True)])"
proof -
  note o = ownedD[OF assms(1)]
  obtain a ps' n where ps: "ps = a # ps'" "workq q = Some a" "cells (jheap q) a = Some n" "next_job n = Some p" "is_list (cells (jheap q)) p ps'"
    using o(2) assms(4) by (cases ps) auto
  have "owned ps' (q\<lparr>workq := p\<rparr>) (hs[t := (Some a, True)])"
  proof (rule owned_update[OF assms(1)])
    fix u b assume "u < length hs" "u \<noteq> t" "fst (hs ! u) = Some b"
    with o(5)[of u b] ps(1) show "b \<notin> set ps' \<and> cells (jheap (q\<lparr>workq := p\<rparr>)) b = cells (jheap q) b \<and> fst (Some a, True) \<noteq> Some b"
      by auto
  qed (use o(1-4) ps(1,3,5) assms(2,3) in auto)
  with ps(1,2) show thesis by (rule that)
qed

lemma owned_link:
  assumes "owned ps q hs" "t < length hs" "hs ! t = (Some a, True)"
    "store (jheap q) (Some a) (\<lambda>n. n\<lparr>next_job := Some (workq q)\<rparr>) = Some h"
  shows "owned (a # ps) (q\<lparr>jheap := h, workq := Some a\<rparr>) (hs[t := (None, d)])"
proof -
  note o = ownedD[OF assms(1)]
  have a: "a \<notin> set ps" "described (cells (jheap q)) a" using o(5)[OF assms(2), of a] assms(3) by auto
  then obtain n where n: "cells (jheap q) a = Some n" by (auto simp: described_def)
  then have h: "cells h = (cells (jheap q))(a \<mapsto> n\<lparr>next_job := Some (workq q)\<rparr>)" using assms(4) by auto
  have d: "described (cells h) b = described (cells (jheap q)) b" for b using n h by (auto simp: described_def)
  have l: "is_list (cells h) (workq q) ps" 
    by (subst is_list_cong[where c = "cells (jheap q)"]) (use o(2) a(1) h in auto)
  show ?thesis
  proof (rule owned_update[OF assms(1)])
    fix u b assume "u < length hs" "u \<noteq> t" "fst (hs ! u) = Some b"
    with o(5)[of u b] o(6)[of u t b] assms(2,3)
    show "b \<notin> set (a # ps) \<and> cells (jheap (q\<lparr>jheap := h, workq := Some a\<rparr>)) b = cells (jheap q) b \<and> fst (None, d) \<noteq> Some b"
      by (auto simp: h)
  qed (use o(3,4) a d l heap_ok_store[OF o(1) assms(4)] assms(2,3) in \<open>auto simp: h\<close>)
qed

lemma owned_malloc:
  assumes "owned ps q hs" "malloc (jheap q) n = (p, h)" "fst (hs ! t) = None" "t < length hs"
  shows "owned ps (q\<lparr>jheap := h\<rparr>) (hs[t := (p, False)])"
proof (cases p)
  case None
  then have "cells h = cells (jheap q)" using assms(2) by (auto simp: malloc_def split: if_splits)
  then show ?thesis using ownedD[OF assms(1)] None heap_ok_malloc[OF _ assms(2)] assms(3,4)
    by (intro owned_update[OF assms(1)]) auto
next
  case (Some a)
  then have h: "cells h = (cells (jheap q))(a \<mapsto> n)" "a = fresh (jheap q)"
    using assms(2) by (auto simp: malloc_def split: if_splits)
  note o = ownedD[OF assms(1)]
  have a: "a \<notin> dom (cells (jheap q))" using heap_ok_fresh[OF o(1)] h(2) by auto
  have ps: "set ps \<subseteq> dom (cells (jheap q))" using o(4) by (auto simp: described_def)
  show ?thesis
  proof (rule owned_update[OF assms(1)])
    show "is_list (cells (jheap (q\<lparr>jheap := h\<rparr>))) (workq (q\<lparr>jheap := h\<rparr>)) ps"
      using o(2) by (simp add: h(1)) (subst is_list_cong, use a ps in auto)
  next
    fix u b assume "u < length hs" "u \<noteq> t" "fst (hs ! u) = Some b"
    with o(5)[of u b] a Some
    show "b \<notin> set ps \<and> cells (jheap (q\<lparr>jheap := h\<rparr>)) b = cells (jheap q) b \<and> fst (p, False) \<noteq> Some b" by (auto simp: h(1))
  next
    fix b assume "b \<in> set ps"
    then show "described (cells (jheap (q\<lparr>jheap := h\<rparr>))) b" using o(4)[of b] a by (auto simp: described_def h(1))
  qed (use o(1,3) heap_ok_malloc[OF o(1) assms(2)] Some a ps assms(3,4) in \<open>auto simp: h(1) split: if_splits\<close>)
qed

lemma owned_desc:
  assumes "owned ps q hs" "t < length hs" "fst (hs ! t) = Some a" "d \<in> set jobs_descriptions"
    "store (jheap q) (Some a) (\<lambda>n. n\<lparr>job_description := Some d\<rparr>) = Some h"
  shows "owned ps (q\<lparr>jheap := h\<rparr>) (hs[t := (Some a, True)])"
proof -
  note o = ownedD[OF assms(1)]
  have a: "a \<notin> set ps" using o(5)[OF assms(2,3)] by simp
  obtain n where n: "cells (jheap q) a = Some n" using o(5)[OF assms(2,3)] by auto
  then have h: "cells h = (cells (jheap q))(a \<mapsto> n\<lparr>job_description := Some d\<rparr>)" using assms(5) by auto
  show ?thesis
  proof (rule owned_update[OF assms(1)])
    show "is_list (cells (jheap (q\<lparr>jheap := h\<rparr>))) (workq (q\<lparr>jheap := h\<rparr>)) ps"
      using o(2) by (simp add: h) (subst is_list_cong, use a in auto)
  next
    fix u b assume "u < length hs" "u \<noteq> t" "fst (hs ! u) = Some b"
    with o(5)[of u b] o(6)[of u t b] assms(2,3)
    show "b \<notin> set ps \<and> cells (jheap (q\<lparr>jheap := h\<rparr>)) b = cells (jheap q) b \<and> fst (Some a, True) \<noteq> Some b" by (auto simp: h)
  next
    fix b assume "b \<in> set ps"
    then show "described (cells (jheap (q\<lparr>jheap := h\<rparr>))) b" using o(4)[of b] a by (auto simp: described_def h)
  qed (use o(3) heap_ok_store[OF o(1) assms(5)] a assms(2-4) n in \<open>auto simp: h described_def split: if_splits\<close>)
qed

lemma owned_free:
  assumes "owned ps q hs" "t < length hs" "fst (hs ! t) = Some a" "free (jheap q) (Some a) = Some h"
  shows "owned ps (q\<lparr>jheap := h\<rparr>) (hs[t := (None, d)])"
proof -
  note o = ownedD[OF assms(1)]
  have a: "a \<notin> set ps" using o(5)[OF assms(2,3)] by simp
  have h: "cells h = (cells (jheap q))(a := None)" using assms(4) by (auto simp: free_def split: if_splits)
  show ?thesis
  proof (rule owned_update[OF assms(1)])
    show "is_list (cells (jheap (q\<lparr>jheap := h\<rparr>))) (workq (q\<lparr>jheap := h\<rparr>)) ps"
      using o(2) by (simp add: h) (subst is_list_cong, use a in auto)
  next
    fix u b assume "u < length hs" "u \<noteq> t" "fst (hs ! u) = Some b"
    with o(5)[of u b] o(6)[of u t b] assms(2,3)
    show "b \<notin> set ps \<and> cells (jheap (q\<lparr>jheap := h\<rparr>)) b = cells (jheap q) b \<and> fst (None, d) \<noteq> Some b" by (auto simp: h)
  next
    fix b assume "b \<in> set ps"
    then show "described (cells (jheap (q\<lparr>jheap := h\<rparr>))) b" using o(4)[of b] a by (auto simp: described_def h)
  qed (use o(3) heap_ok_free[OF o(1) assms(4)] assms(2,3) in \<open>auto simp: h split: if_splits\<close>)
qed

lemma owned_new:
  assumes "owned ps q hs"
  shows "owned ps q (hs @ [(None, d)])"
proof -
  have e: "fst ((hs @ [(None, d)]) ! t) = Some a \<Longrightarrow> t < length (hs @ [(None, d)]) \<Longrightarrow>
    t < length hs \<and> fst (hs ! t) = Some a \<and> snd ((hs @ [(None, d)]) ! t) = snd (hs ! t)" for t a
    by (cases "t < length hs") (auto simp: nth_append less_Suc_eq)
  note o = ownedD[OF assms]
  show ?thesis unfolding owned_def
  proof (intro conjI allI impI ballI)
    fix t u assume "t < length (hs @ [(None, d)])" "u < length (hs @ [(None, d)])"
      "fst ((hs @ [(None, d)]) ! t) = fst ((hs @ [(None, d)]) ! u) \<and> fst ((hs @ [(None, d)]) ! t) \<noteq> None"
    then show "t = u" using e o(6) by (metis option.exhaust)
  next
    fix a assume "a \<in> dom (cells (jheap q))"
    then consider "a \<in> set ps" | t where "t < length hs" "fst (hs ! t) = Some a" using o(7) by blast
    then show "a \<in> set ps \<or> (\<exists>t<length (hs @ [(None, d)]). fst ((hs @ [(None, d)]) ! t) = Some a)"
      by cases (auto simp: nth_append intro: less_SucI)
  qed (use o(1-4) in \<open>auto dest!: e simp del: length_append dest: o(5)\<close>)
qed

lemma owned_list: "owned ps q hs \<Longrightarrow> workq q = None \<longleftrightarrow> ps = []"
  unfolding owned_def by (cases ps) auto

lemma owned_deref: "owned ps q hs \<Longrightarrow> ps \<noteq> [] \<Longrightarrow> \<exists>p. Option.bind (deref (jheap q) (workq q)) next_job = Some p"
  unfolding owned_def by (cases ps) auto

subsection \<open>The contract of the two functions\<close>

definition holds :: "('g \<Rightarrow> ptr) \<Rightarrow> ('i \<Rightarrow> bool) \<Rightarrow> ('g, 'i) job_pc \<Rightarrow> ptr \<times> bool" where
  "holds gheld iheld pc = (case pc of
     W_get p \<Rightarrow> (gheld p, True)
   | W_print a \<Rightarrow> (Some a, True)
   | W_free a \<Rightarrow> (Some a, True)
   | N_malloc \<Rightarrow> (None, False)
   | N_desc a \<Rightarrow> (Some a, False)
   | N_insert a p \<Rightarrow> (if iheld p then Some a else None, True))"

lemma holds_simps [simp]:
  "holds gh ih (W_get p) = (gh p, True)" "holds gh ih (W_print a) = (Some a, True)" "holds gh ih (W_free a) = (Some a, True)"
  "holds gh ih N_malloc = (None, False)" "holds gh ih (N_desc a) = (Some a, False)"
  "holds gh ih (N_insert a i) = (if ih i then Some a else None, True)"
  by (simp_all add: holds_def)

text \<open>
  \<open>extra n y m ts\<close> is what the two functions keep of the number \<open>n\<close> of queued jobs, the
  synchronisation object, the lock and the positions.
\<close>

locale job_ops =
  fixes get_job :: "('y, 'g) get_rel" and g0 :: 'g and insert_job :: "('y, 'i) insert_rel" and i0 :: 'i
    and gheld :: "'g \<Rightarrow> ptr" and iheld :: "'i \<Rightarrow> bool"
    and extra :: "nat \<Rightarrow> 'y \<Rightarrow> mutex \<Rightarrow> ('g, 'i) job_pc list \<Rightarrow> bool" and y0 :: 'y
  assumes start: "gheld g0 = None" "iheld i0" "extra 0 y0 None []"
    and get_keeps: "owned ps q (map (holds gheld iheld) ts) \<Longrightarrow> extra (length ps) (sync q) (workq_lock q) ts \<Longrightarrow>
      t < length ts \<Longrightarrow> ts ! t = W_get p \<Longrightarrow> get_job t (p, q) (Some (x, q')) \<Longrightarrow>
      ts' = ts[t := (case x of Inl p' \<Rightarrow> W_get p' | Inr a \<Rightarrow> W_print a)] \<Longrightarrow>
      \<exists>ps'. owned ps' q' (map (holds gheld iheld) ts') \<and> extra (length ps') (sync q') (workq_lock q') ts'"
    and get_defined: "owned ps q (map (holds gheld iheld) ts) \<Longrightarrow> extra (length ps) (sync q) (workq_lock q) ts \<Longrightarrow>
      t < length ts \<Longrightarrow> ts ! t = W_get p \<Longrightarrow> \<not> get_job t (p, q) None"
    and insert_keeps: "owned ps q (map (holds gheld iheld) ts) \<Longrightarrow> extra (length ps) (sync q) (workq_lock q) ts \<Longrightarrow>
      t < length ts \<Longrightarrow> ts ! t = N_insert a i \<Longrightarrow> insert_job t a (i, q) (Some (z, q')) \<Longrightarrow>
      ts' = ts[t := (case z of Some i' \<Rightarrow> N_insert a i' | None \<Rightarrow> N_malloc)] \<Longrightarrow>
      \<exists>ps'. owned ps' q' (map (holds gheld iheld) ts') \<and> extra (length ps') (sync q') (workq_lock q') ts'"
    and insert_defined: "owned ps q (map (holds gheld iheld) ts) \<Longrightarrow> extra (length ps) (sync q) (workq_lock q) ts \<Longrightarrow>
      t < length ts \<Longrightarrow> ts ! t = N_insert a i \<Longrightarrow> \<not> insert_job t a (i, q) None"
    and extra_other: "extra n y m ts \<Longrightarrow> t < length ts \<Longrightarrow>
      (\<exists>a. ts ! t = W_print a \<and> pc = W_free a \<or> ts ! t = W_free a \<and> pc = W_get g0 \<or> ts ! t = N_malloc \<and> (pc = N_desc a \<or> pc = N_malloc)
         \<or> ts ! t = N_desc a \<and> pc = N_insert a i0) \<Longrightarrow> extra n y m (ts[t := pc])"
    and extra_new: "extra n y m ts \<Longrightarrow> extra n y m (ts @ [W_get g0])" "extra n y m ts \<Longrightarrow> extra n y m (ts @ [N_malloc])"
begin

abbreviation hold :: "('g, 'i) job_pc \<Rightarrow> ptr \<times> bool" where
  "hold \<equiv> holds gheld iheld"

definition wq_inv :: "('y, 'g, 'i) wq_sys \<Rightarrow> bool" where
  "wq_inv s \<longleftrightarrow> job_id s < jobs_sz \<and>
     (\<exists>ps. owned ps (que s) (map hold (thr s)) \<and> extra (length ps) (sync (que s)) (workq_lock (que s)) (thr s))"

lemma owned_places:
  assumes "wq_inv s"
  shows "\<exists>ps. is_list (cells (jheap (que s))) (workq (que s)) ps \<and> distinct ps
    \<and> extra (length ps) (sync (que s)) (workq_lock (que s)) (thr s)
    \<and> (\<forall>a. a \<in> dom (cells (jheap (que s))) \<longleftrightarrow> a \<in> set ps \<or> (\<exists>t<length (thr s). fst (hold (thr s ! t)) = Some a))
    \<and> (\<forall>t<length (thr s). \<forall>u<length (thr s). \<forall>a. fst (hold (thr s ! t)) = Some a \<longrightarrow>
         a \<notin> set ps \<and> (fst (hold (thr s ! u)) = Some a \<longrightarrow> u = t))
    \<and> (\<forall>t<length (thr s). \<forall>a. thr s ! t = W_print a \<or> thr s ! t = W_free a \<longrightarrow>
         a \<notin> set ps \<and> (\<forall>u<length (thr s). thr s ! u = W_print a \<or> thr s ! u = W_free a \<longrightarrow> u = t))"
proof -
  obtain ps where o: "owned ps (que s) (map hold (thr s))" "extra (length ps) (sync (que s)) (workq_lock (que s)) (thr s)"
    using assms by (auto simp: wq_inv_def)
  note D = ownedD[OF o(1), unfolded length_map]
  have held: "a \<notin> set ps \<and> a \<in> dom (cells (jheap (que s)))" if "t < length (thr s)" "fst (hold (thr s ! t)) = Some a" for t a
    using D(5)[of t a] that by simp
  have one: "u = t" if "t < length (thr s)" "u < length (thr s)" "fst (hold (thr s ! t)) = Some a" "fst (hold (thr s ! u)) = Some a" for t u a
    using D(6)[of u t a] that by simp
  have places: "a \<in> dom (cells (jheap (que s))) \<longleftrightarrow> a \<in> set ps \<or> (\<exists>t<length (thr s). fst (hold (thr s ! t)) = Some a)" for a
  proof
    show "a \<in> set ps \<or> (\<exists>t<length (thr s). fst (hold (thr s ! t)) = Some a)" if "a \<in> dom (cells (jheap (que s)))" using D(7)[OF that] by auto
    show "a \<in> dom (cells (jheap (que s)))" if "a \<in> set ps \<or> (\<exists>t<length (thr s). fst (hold (thr s ! t)) = Some a)"
      using that D(4)[of a] held[of _ a] by (auto simp: described_def)
  qed
  have pr: "fst (hold (thr s ! t)) = Some a" if "thr s ! t = W_print a \<or> thr s ! t = W_free a" for t a using that by auto
  show ?thesis
  proof (intro exI[of _ ps] conjI allI impI)
    show "a \<notin> set ps" if "t < length (thr s)" "fst (hold (thr s ! t)) = Some a" for t a using held[OF that] by simp
    show "u = t" if "t < length (thr s)" "u < length (thr s)" "fst (hold (thr s ! t)) = Some a" "fst (hold (thr s ! u)) = Some a" for t u a
      using one[OF that] .
    show "a \<notin> set ps" if "t < length (thr s)" "thr s ! t = W_print a \<or> thr s ! t = W_free a" for t a using held[OF that(1) pr[OF that(2)]] by simp
    show "u = t" if "t < length (thr s)" "thr s ! t = W_print a \<or> thr s ! t = W_free a" "u < length (thr s)" "thr s ! u = W_print a \<or> thr s ! u = W_free a" for t u a
      using one[OF that(1,3) pr[OF that(2)] pr[OF that(4)]] .
  qed (use D(2,3) o(2) places in blast)+
qed

lemma wq_inv_worker:
  assumes "wq_inv s" "worker_thr get_job g0 tid_str s (Some s')"
  shows "wq_inv s'"
proof -
  obtain ps where o: "owned ps (que s) (map hold (thr s))" "extra (length ps) (sync (que s)) (workq_lock (que s)) (thr s)"
    and j: "job_id s < jobs_sz" using assms(1) by (auto simp: wq_inv_def)
  from assms(2) show ?thesis
  proof (cases rule: worker_thr.cases)
    case (wk_get t p r)
    then obtain x q' where r: "r = Some (x, q')" by (auto simp: eq_commute[of "Some _"])
    from get_keeps[OF o wk_get(2,3) wk_get(4)[unfolded r] refl] wk_get(1) r j show ?thesis by (auto simp: wq_inv_def)
  next
    case (wk_print t a)
    then have "map hold (thr s') = map hold (thr s)" "que s' = que s" "job_id s' = job_id s" "thr s' = (thr s)[t := W_free a]"
      by (auto simp: eq_commute[of "Some _"] map_update list_update_same_conv)
    then show ?thesis using o j extra_other[OF o(2) wk_print(2), of "W_free a"] wk_print(3) by (auto simp: wq_inv_def)
  next
    case (wk_free t a)
    then obtain h where h: "free (jheap (que s)) (Some a) = Some h"
      "s' = s\<lparr>que := (que s)\<lparr>jheap := h\<rparr>, thr := (thr s)[t := W_get g0]\<rparr>" by (auto simp: eq_commute[of "Some _"])
    have "owned ps ((que s)\<lparr>jheap := h\<rparr>) ((map hold (thr s))[t := (None, True)])"
      by (rule owned_free[OF o(1) _ _ h(1)]) (use wk_free in simp_all)
    then show ?thesis using h(2) j start(1) extra_other[OF o(2) wk_free(2), of "W_get g0"] wk_free(3)
      by (auto simp: wq_inv_def map_update)
  qed
qed

lemma wq_inv_boss:
  assumes "wq_inv s" "boss_thr insert_job i0 s (Some s')"
  shows "wq_inv s'"
proof -
  obtain ps where o: "owned ps (que s) (map hold (thr s))" "extra (length ps) (sync (que s)) (workq_lock (que s)) (thr s)"
    and j: "job_id s < jobs_sz" using assms(1) by (auto simp: wq_inv_def)
  from assms(2) show ?thesis
  proof (cases rule: boss_thr.cases)
    case (bs_malloc t newjob h)
    let ?pc = "case newjob of Some a \<Rightarrow> N_desc a | None \<Rightarrow> N_malloc"
    have "owned ps ((que s)\<lparr>jheap := h\<rparr>) ((map hold (thr s))[t := (newjob, False)])"
      by (rule owned_malloc[OF o(1) bs_malloc(4)]) (use bs_malloc in simp_all)
    moreover have "(newjob, False) = hold ?pc" by (cases newjob) simp_all
    moreover have "extra (length ps) (sync (que s)) (workq_lock (que s)) ((thr s)[t := ?pc])"
      using bs_malloc(3) by (intro extra_other[OF o(2) bs_malloc(2)]) (auto split: option.splits)
    ultimately show ?thesis using bs_malloc(1) j by (auto simp: wq_inv_def map_update)
  next
    case (bs_desc t newjob)
    then obtain h where h: "store (jheap (que s)) (Some newjob) (\<lambda>n. n\<lparr>job_description := Some (jobs_descriptions ! job_id s)\<rparr>) = Some h"
      "s' = s\<lparr>que := (que s)\<lparr>jheap := h\<rparr>, job_id := (job_id s + 1) mod jobs_sz, thr := (thr s)[t := N_insert newjob i0]\<rparr>"
      using j by (auto simp: eq_commute[of "Some _"] jobs_sz_def)
    have "owned ps ((que s)\<lparr>jheap := h\<rparr>) ((map hold (thr s))[t := (Some newjob, True)])"
      by (rule owned_desc[OF o(1) _ _ _ h(1)]) (use bs_desc j in \<open>simp_all add: jobs_sz_def\<close>)
    moreover have "(job_id s + 1) mod jobs_sz < jobs_sz" by (simp add: jobs_sz_def jobs_descriptions_def)
    ultimately show ?thesis using h(2) start(2) extra_other[OF o(2) bs_desc(2), of "N_insert newjob i0"] bs_desc(3)
      by (auto simp: wq_inv_def map_update)
  next
    case (bs_insert t newjob p r)
    then obtain x q' where r: "r = Some (x, q')" by (auto simp: eq_commute[of "Some _"])
    from insert_keeps[OF o bs_insert(2,3) bs_insert(4)[unfolded r] refl] bs_insert(1) r j show ?thesis by (auto simp: wq_inv_def)
  qed
qed

lemma wq_inv_main: "wq_inv s \<Longrightarrow> wq_main g0 s (Some s') \<Longrightarrow> wq_inv s'"
proof -
  assume "wq_inv s" "wq_main g0 s (Some s')"
  then obtain ps where o: "owned ps (que s) (map hold (thr s))" "extra (length ps) (sync (que s)) (workq_lock (que s)) (thr s)"
    and j: "job_id s < jobs_sz" by (auto simp: wq_inv_def)
  from \<open>wq_main g0 s (Some s')\<close> show "wq_inv s'"
    by (cases rule: wq_main.cases)
       (use o j start(1) owned_new[OF o(1)] extra_new[OF o(2)] in \<open>auto simp: wq_inv_def intro!: exI[of _ ps]\<close>)
qed

lemma wq_defined:
  assumes "wq_inv s"
  shows "\<not> wq_step get_job g0 insert_job i0 tid_str s None"
proof
  obtain ps where o: "owned ps (que s) (map hold (thr s))" "extra (length ps) (sync (que s)) (workq_lock (que s)) (thr s)"
    and j: "job_id s < jobs_sz" using assms by (auto simp: wq_inv_def)
  have held: "\<exists>n. cells (jheap (que s)) a = Some n \<and> (snd (hold (thr s ! t)) \<longrightarrow> (\<exists>d. job_description n = Some d))"
    if "t < length (thr s)" "fst (hold (thr s ! t)) = Some a" for t a
    using ownedD(5)[OF o(1), of t a] that by (auto simp: described_def)
  assume "wq_step get_job g0 insert_job i0 tid_str s None"
  then consider "worker_thr get_job g0 tid_str s None" | "boss_thr insert_job i0 s None" | "wq_main g0 s None"
    by (auto simp: wq_step_def)
  then show False
  proof cases
    case 1
    then show False
    proof (cases rule: worker_thr.cases)
      case (wk_print t a)
      then show False using held[of t a] by (auto simp: print_job_def)
    next
      case (wk_free t a)
      then show False using held[of t a] by auto
    qed (use get_defined[OF o] in auto)
  next
    case 2
    then show False
    proof (cases rule: boss_thr.cases)
      case (bs_desc t a)
      then show False using held[of t a] j by (auto simp: jobs_sz_def)
    qed (use insert_defined[OF o] in auto)
  qed (auto elim: wq_main.cases)
qed

end

sublocale job_ops \<subseteq> wq: safe_threads "wq_init y0" "wq_step get_job g0 insert_job i0 tid_str" wq_inv
proof (unfold_locales, goal_cases)
  case (1 s)
  then show ?case using start(3)
    by (auto simp: wq_init_def wq_inv_def owned_def empty_heap_def heap_ok_def jobs_sz_def jobs_descriptions_def intro!: exI[of _ "[]"])
qed (auto simp: wq_step_def wq_defined[unfolded wq_step_def] intro: wq_inv_worker wq_inv_boss wq_inv_main)

end
