(* ===== verification/Wqueue_Semaphores.thy ===== *)
theory Wqueue_Semaphores
  imports Work_Queue
begin

text \<open>
  \<open>threads/work_queue/wqueue_semaphores.c\<close>: the work queue in which a POSIX semaphore counts the
  jobs. \<open>sem_wait\<close> blocks while the value is 0; \<open>sem_post\<close> fails and leaves the value alone
  when it is \<open>SEM_VALUE_MAX\<close>, and the program ignores that.
\<close>

datatype get_pc = S_wait | S_lock | S_take | S_unlock nat
datatype ins_pc = I_lock | I_link | I_unlock | I_post

text \<open>
  The two assignments inside each critical section are one step.
\<close>

inductive get_job :: "(nat, get_pc) get_rel" for t where
  s_wait: "0 < sync q \<Longrightarrow> get_job t (S_wait, q) (Some (Inl S_lock, q\<lparr>sync := sync q - 1\<rparr>))"
| s_lock: "mutex_lock t (workq_lock q) = Some m \<Longrightarrow> get_job t (S_lock, q) (Some (Inl S_take, q\<lparr>workq_lock := m\<rparr>))"
| s_take: "get_job t (S_take, q)
     (map_option (\<lambda>p. (Inl (S_unlock (the (workq q))), q\<lparr>workq := p\<rparr>)) (Option.bind (deref (jheap q) (workq q)) next_job))"
| s_unlock: "get_job t (S_unlock ret, q)
     (map_option (\<lambda>m. (Inr ret, q\<lparr>workq_lock := m\<rparr>)) (mutex_unlock t (workq_lock q)))"

inductive insert_job :: "(nat, ins_pc) insert_rel" for t new_job where
  i_lock: "mutex_lock t (workq_lock q) = Some m \<Longrightarrow> insert_job t new_job (I_lock, q) (Some (Some I_link, q\<lparr>workq_lock := m\<rparr>))"
| i_link: "insert_job t new_job (I_link, q)
     (map_option (\<lambda>h. (Some I_unlock, q\<lparr>jheap := h, workq := Some new_job\<rparr>))
        (store (jheap q) (Some new_job) (\<lambda>n. n\<lparr>next_job := Some (workq q)\<rparr>)))"
| i_unlock: "insert_job t new_job (I_unlock, q)
     (map_option (\<lambda>m. (Some I_post, q\<lparr>workq_lock := m\<rparr>)) (mutex_unlock t (workq_lock q)))"
| i_post: "insert_job t new_job (I_post, q) (Some (None, q\<lparr>sync := sem_post (sync q)\<rparr>))"

definition swq_step :: "(nat \<Rightarrow> string) \<Rightarrow> (nat, get_pc, ins_pc) wq_sys \<Rightarrow> (nat, get_pc, ins_pc) wq_sys c \<Rightarrow> bool" where
  "swq_step = wq_step get_job S_wait insert_job I_lock"

definition swq_init :: "(nat, get_pc, ins_pc) wq_sys \<Rightarrow> bool" where
  "swq_init = wq_init 0"

subsection \<open>The contract\<close>

fun gheld :: "get_pc \<Rightarrow> ptr" where
  "gheld (S_unlock a) = Some a"
| "gheld _ = None"

definition iheld :: "ins_pc \<Rightarrow> bool" where
  "iheld i \<longleftrightarrow> i = I_lock \<or> i = I_link"

fun crit :: "(get_pc, ins_pc) job_pc \<Rightarrow> bool" where
  "crit (W_get p) \<longleftrightarrow> p \<noteq> S_wait \<and> p \<noteq> S_lock"
| "crit (N_insert a i) \<longleftrightarrow> i = I_link \<or> i = I_unlock"
| "crit _ \<longleftrightarrow> False"

text \<open>Jobs that are in the list but no longer, or not yet, counted by the semaphore.\<close>

fun pend :: "(get_pc, ins_pc) job_pc \<Rightarrow> nat" where
  "pend (W_get p) = (if p = S_lock \<or> p = S_take then 1 else 0)"
| "pend (N_insert a i) = (if i = I_unlock \<or> i = I_post then 1 else 0)"
| "pend _ = 0"

definition counts :: "nat \<Rightarrow> nat \<Rightarrow> mutex \<Rightarrow> (get_pc, ins_pc) job_pc list \<Rightarrow> bool" where
  "counts n v m ts \<longleftrightarrow> excl crit m ts \<and> v + sum_list (map pend ts) \<le> n"

lemma counts_update:
  assumes "counts n v m ts" "t < length ts" "excl crit m' (ts[t := pc])" "v' + pend pc + n \<le> n' + v + pend (ts ! t)"
  shows "counts n' v' m' (ts[t := pc])"
  using assms sum_list_update_add[of t ts pend pc] by (simp add: counts_def)

lemma counts_start: "counts 0 0 None []"
  by (simp add: counts_def excl_def)

lemma counts_new: "counts n v m ts \<Longrightarrow> \<not> crit pc \<Longrightarrow> pend pc = 0 \<Longrightarrow> counts n v m (ts @ [pc])"
  by (simp add: counts_def excl_new)

lemma pend_le: "counts n v m ts \<Longrightarrow> t < length ts \<Longrightarrow> pend (ts ! t) \<le> n"
  unfolding counts_def using member_le_sum_list[of "pend (ts ! t)" "map pend ts"] by force

lemma get_job_keeps:
  assumes "owned ps q (map (holds gheld iheld) ts)" "counts (length ps) (sync q) (workq_lock q) ts"
    and "t < length ts" "ts ! t = W_get p" "get_job t (p, q) (Some (x, q'))"
    and ts': "ts' = ts[t := (case x of Inl p' \<Rightarrow> W_get p' | Inr a \<Rightarrow> W_print a)]"
  shows "\<exists>ps'. owned ps' q' (map (holds gheld iheld) ts') \<and> counts (length ps') (sync q') (workq_lock q') ts'"
proof -
  note up = counts_update[OF assms(2,3)]
  have x: "excl crit (workq_lock q) ts" using assms(2) by (simp add: counts_def)
  have keep: "map (holds gheld iheld) (ts[t := pc]) = map (holds gheld iheld) ts" if "holds gheld iheld pc = (gheld p, True)" for pc
    using that assms(3,4) by (simp add: map_update list_update_same_conv)
  from assms(5) show ?thesis
  proof (cases rule: get_job.cases)
    case s_wait
    then show ?thesis unfolding ts' using assms(1,4) keep[of "W_get S_lock"]
      by (intro exI[of _ ps] conjI up) (auto intro: owned_cong excl_keep[OF x])
  next
    case (s_lock m)
    then show ?thesis unfolding ts' using assms(1,3,4) keep[of "W_get S_take"] x
      by (intro exI[of _ ps] conjI up) (auto intro: owned_cong excl_acquire)
  next
    case s_take
    then obtain r where n: "Option.bind (deref (jheap q) (workq q)) next_job = Some r" "q' = q\<lparr>workq := r\<rparr>" "x = Inl (S_unlock (the (workq q)))"
      by (auto simp: eq_commute[of "Some _"])
    obtain a ps' where ps: "ps = a # ps'" "workq q = Some a"
      "owned ps' (q\<lparr>workq := r\<rparr>) ((map (holds gheld iheld) ts)[t := (Some a, True)])"
      by (rule owned_take[OF assms(1) _ _ n(1), of t]) (use assms(3,4) s_take in auto)
    then show ?thesis unfolding ts' using n s_take assms(4)
      by (intro exI[of _ ps'] conjI up) (auto simp: map_update intro: excl_keep[OF x])
  next
    case (s_unlock ret)
    then have "workq_lock q = Some t" "x = Inr ret" "q' = q\<lparr>workq_lock := None\<rparr>"
      by (auto simp: eq_commute[of "Some _"] mutex_unlock_iff)
    then show ?thesis unfolding ts' using assms(1,4) keep[of "W_print ret"] x s_unlock
      by (intro exI[of _ ps] conjI up) (auto intro: owned_cong excl_release)
  qed
qed

lemma insert_job_keeps:
  assumes "owned ps q (map (holds gheld iheld) ts)" "counts (length ps) (sync q) (workq_lock q) ts"
    and "t < length ts" "ts ! t = N_insert a i" "insert_job t a (i, q) (Some (z, q'))"
    and ts': "ts' = ts[t := (case z of Some i' \<Rightarrow> N_insert a i' | None \<Rightarrow> N_malloc)]"
  shows "\<exists>ps'. owned ps' q' (map (holds gheld iheld) ts') \<and> counts (length ps') (sync q') (workq_lock q') ts'"
proof -
  note up = counts_update[OF assms(2,3)]
  have x: "excl crit (workq_lock q) ts" using assms(2) by (simp add: counts_def)
  have o: "owned ps q (map (holds gheld iheld) (ts[t := pc]))"
    if "fst (holds gheld iheld pc) = fst (holds gheld iheld (ts ! t))" for pc
    using owned_same[OF assms(1), of "holds gheld iheld pc" t] that assms(3,4) by (simp add: map_update)
  from assms(5) show ?thesis
  proof (cases rule: insert_job.cases)
    case (i_lock m)
    then show ?thesis unfolding ts' using assms(3,4) o[of "N_insert a I_link"] x
      by (intro exI[of _ ps] conjI up) (auto simp: iheld_def intro: owned_cong excl_acquire)
  next
    case i_link
    then obtain h where h: "store (jheap q) (Some a) (\<lambda>n. n\<lparr>next_job := Some (workq q)\<rparr>) = Some h" "z = Some I_unlock"
      "q' = q\<lparr>jheap := h, workq := Some a\<rparr>" by (auto simp: eq_commute[of "Some _"])
    have "owned (a # ps) (q\<lparr>jheap := h, workq := Some a\<rparr>) ((map (holds gheld iheld) ts)[t := (None, True)])"
      by (rule owned_link[OF assms(1) _ _ h(1)]) (use assms(3,4) i_link in \<open>auto simp: iheld_def\<close>)
    then show ?thesis unfolding ts' using h i_link assms(4)
      by (intro exI[of _ "a # ps"] conjI up) (auto simp: map_update iheld_def intro: excl_keep[OF x])
  next
    case i_unlock
    then have "workq_lock q = Some t" "z = Some I_post" "q' = q\<lparr>workq_lock := None\<rparr>"
      by (auto simp: eq_commute[of "Some _"] mutex_unlock_iff)
    then show ?thesis unfolding ts' using assms(4) o[of "N_insert a I_post"] x i_unlock
      by (intro exI[of _ ps] conjI up) (auto simp: iheld_def intro: owned_cong excl_release)
  next
    case i_post
    then show ?thesis unfolding ts' using assms(4) o[of N_malloc]
      by (intro exI[of _ ps] conjI up) (auto simp: iheld_def sem_post_def intro: owned_cong excl_keep[OF x])
  qed
qed

interpretation swq: job_ops get_job S_wait insert_job I_lock gheld iheld counts 0
proof (unfold_locales, goal_cases)
  case (5 ps q ts t p)
  have "get_job t (p, q) None \<Longrightarrow> p \<noteq> S_take \<and> (\<forall>a. p \<noteq> S_unlock a)"
  proof (erule get_job.cases, goal_cases)
    case (3 q0)
    then have "ps \<noteq> []" using pend_le[OF 5(2,3)] 5(4) by (cases ps) auto
    then show ?case using owned_deref[OF 5(1)] 3 by auto
  next
    case (4 ret q0)
    then have "workq_lock q = Some t" using 5(2,3,4) excl_holds[of crit "workq_lock q" ts t] by (simp add: counts_def)
    then show ?case using 4 by auto
  qed auto
  then show ?case by (auto elim: get_job.cases)
next
  case (7 ps q ts t a i)
  have "cells (jheap q) a \<noteq> None" if "i = I_link"
    using ownedD(5)[OF 7(1), of t a] 7(3,4) that by (auto simp: iheld_def)
  moreover have "workq_lock q = Some t" if "i = I_unlock"
    using 7(2,3,4) that excl_holds[of crit "workq_lock q" ts t] by (simp add: counts_def)
  ultimately show ?case by (auto elim!: insert_job.cases simp: store_def split: option.splits)
next
  case (8 n y m ts t pc)
  then show ?case by (intro counts_update[OF 8(1,2)]) (auto simp: counts_def intro: excl_keep)
next
  case 4
  then show ?case by (rule get_job_keeps)
next
  case 6
  then show ?case by (rule insert_job_keeps)
qed (simp_all add: counts_start counts_new iheld_def)

text \<open>
  Property C19. In every interleaving of the boss and the workers of the semaphore version there is no
  undefined behaviour: the list is never empty when a worker takes a job, no node is used after it was
  freed or freed twice, and only the holder unlocks the mutex. The list is intact, every allocated job is in exactly one
  place, the list or one local variable of one thread, a job that a worker
  prints or frees is in no other place, and the semaphore never counts more jobs than there are in the
  list.
\<close>

theorem wqueue_semaphores_safe:
  assumes "reach swq_init (swq_step tid_str) s"
  shows "\<not> swq_step tid_str s None \<and>
    (\<exists>ps. is_list (cells (jheap (que s))) (workq (que s)) ps \<and> distinct ps \<and> sync (que s) \<le> length ps
      \<and> (\<forall>a. a \<in> dom (cells (jheap (que s))) \<longleftrightarrow>
           a \<in> set ps \<or> (\<exists>t<length (thr s). fst (holds gheld iheld (thr s ! t)) = Some a))
      \<and> (\<forall>t<length (thr s). \<forall>u<length (thr s). \<forall>a. fst (holds gheld iheld (thr s ! t)) = Some a \<longrightarrow>
           a \<notin> set ps \<and> (fst (holds gheld iheld (thr s ! u)) = Some a \<longrightarrow> u = t))
      \<and> (\<forall>t<length (thr s). \<forall>a. thr s ! t = W_print a \<or> thr s ! t = W_free a \<longrightarrow>
           a \<notin> set ps \<and> (\<forall>u<length (thr s). thr s ! u = W_print a \<or> thr s ! u = W_free a \<longrightarrow> u = t)))"
proof -
  have r: "reach (wq_init 0) (wq_step get_job S_wait insert_job I_lock tid_str) s"
    using assms by (simp add: swq_init_def swq_step_def)
  have I: "swq.wq_inv s" by (rule swq.wq.inv_reach[OF r])
  have c: "counts n v m ts \<Longrightarrow> v \<le> n" for n v m ts by (simp add: counts_def)
  show ?thesis using swq.owned_places[OF I] swq.wq.reach_defined[OF r] c unfolding swq_step_def by blast
qed

definition swq_start :: "(nat, get_pc, ins_pc) wq_sys" where
  "swq_start = \<lparr>que = \<lparr>jheap = empty_heap (\<lambda>_. False), workq = None, workq_lock = None, sync = 0\<rparr>, thr = [], job_id = 0,
     wmain_at = C_workers 0, wout = []\<rparr>"

theorem wqueue_semaphores_safe_witness:
  "swq_step (\<lambda>_. ''t'') swq_start (Some (swq_start\<lparr>thr := [W_get S_wait], wmain_at := C_workers 1\<rparr>))
    \<and> \<not> swq_step (\<lambda>_. ''t'') (swq_start\<lparr>thr := [W_get S_wait], wmain_at := C_workers 1\<rparr>) None"
proof
  show step: "swq_step (\<lambda>_. ''t'') swq_start (Some (swq_start\<lparr>thr := [W_get S_wait], wmain_at := C_workers 1\<rparr>))"
    using mk_worker[of swq_start 0 S_wait] by (simp add: swq_step_def wq_step_def swq_start_def WORKERS_def)
  have "reach swq_init (swq_step (\<lambda>_. ''t'')) swq_start"
    by (rule reach_init) (auto simp: swq_init_def wq_init_def swq_start_def)
  then have "reach swq_init (swq_step (\<lambda>_. ''t'')) (swq_start\<lparr>thr := [W_get S_wait], wmain_at := C_workers 1\<rparr>)"
    by (rule reach_step) (rule step)
  from wqueue_semaphores_safe[OF this]
  show "\<not> swq_step (\<lambda>_. ''t'') (swq_start\<lparr>thr := [W_get S_wait], wmain_at := C_workers 1\<rparr>) None" by simp
qed

end
