(* ===== verification/Wqueue_Condvars.thy ===== *)
theory Wqueue_Condvars
  imports Work_Queue
begin

text \<open>
  \<open>threads/work_queue/wqueue_condvars.c\<close>: the work queue in which workers sleep on a condition
  variable while the list is empty. The boss signals after it released the mutex.
\<close>

datatype get_pc = V_lock | V_test | V_wait | V_blocked | V_take | V_unlock nat
datatype ins_pc = I_lock | I_link | I_unlock | I_signal

inductive get_job :: "(condvar, get_pc) get_rel" for t where
  v_lock: "mutex_lock t (workq_lock q) = Some m \<Longrightarrow> get_job t (V_lock, q) (Some (Inl V_test, q\<lparr>workq_lock := m\<rparr>))"
| v_test: "get_job t (V_test, q) (Some (Inl (if workq q = None then V_wait else V_take), q))"
| v_wait: "get_job t (V_wait, q)
     (map_option (\<lambda>m. (Inl V_blocked, q\<lparr>workq_lock := m, sync := insert t (sync q)\<rparr>)) (mutex_unlock t (workq_lock q)))"
| v_spurious: "t \<in> sync q \<Longrightarrow> get_job t (V_blocked, q) (Some (Inl V_blocked, q\<lparr>sync := sync q - {t}\<rparr>))"
| v_relock: "t \<notin> sync q \<Longrightarrow> mutex_lock t (workq_lock q) = Some m \<Longrightarrow>
     get_job t (V_blocked, q) (Some (Inl V_test, q\<lparr>workq_lock := m\<rparr>))"
| v_take: "get_job t (V_take, q)
     (map_option (\<lambda>p. (Inl (V_unlock (the (workq q))), q\<lparr>workq := p\<rparr>)) (Option.bind (deref (jheap q) (workq q)) next_job))"
| v_unlock: "get_job t (V_unlock ret, q)
     (map_option (\<lambda>m. (Inr ret, q\<lparr>workq_lock := m\<rparr>)) (mutex_unlock t (workq_lock q)))"

inductive insert_job :: "(condvar, ins_pc) insert_rel" for t new_job where
  i_lock: "mutex_lock t (workq_lock q) = Some m \<Longrightarrow> insert_job t new_job (I_lock, q) (Some (Some I_link, q\<lparr>workq_lock := m\<rparr>))"
| i_link: "insert_job t new_job (I_link, q)
     (map_option (\<lambda>h. (Some I_unlock, q\<lparr>jheap := h, workq := Some new_job\<rparr>))
        (store (jheap q) (Some new_job) (\<lambda>n. n\<lparr>next_job := Some (workq q)\<rparr>)))"
| i_unlock: "insert_job t new_job (I_unlock, q)
     (map_option (\<lambda>m. (Some I_signal, q\<lparr>workq_lock := m\<rparr>)) (mutex_unlock t (workq_lock q)))"
| i_signal: "cond_signal (sync q) w \<Longrightarrow> insert_job t new_job (I_signal, q) (Some (None, q\<lparr>sync := w\<rparr>))"

text \<open>The threads and \<open>main\<close> of this file are those of the semaphore version, word for word.\<close>

type_synonym cwq_sys = "(condvar, get_pc, ins_pc) wq_sys"

definition cv_worker_thr :: "(nat \<Rightarrow> string) \<Rightarrow> cwq_sys \<Rightarrow> cwq_sys c \<Rightarrow> bool" where
  "cv_worker_thr = worker_thr get_job V_lock"

definition cv_boss_thr :: "cwq_sys \<Rightarrow> cwq_sys c \<Rightarrow> bool" where
  "cv_boss_thr = boss_thr insert_job I_lock"

definition cv_main :: "cwq_sys \<Rightarrow> cwq_sys c \<Rightarrow> bool" where
  "cv_main = wq_main V_lock"

definition cwq_step :: "(nat \<Rightarrow> string) \<Rightarrow> cwq_sys \<Rightarrow> cwq_sys c \<Rightarrow> bool" where
  "cwq_step tid_str s r \<longleftrightarrow> cv_worker_thr tid_str s r \<or> cv_boss_thr s r \<or> cv_main s r"

lemma cwq_step_eq: "cwq_step = wq_step get_job V_lock insert_job I_lock"
  by (intro ext) (simp add: cwq_step_def wq_step_def cv_worker_thr_def cv_boss_thr_def cv_main_def)

definition cwq_init :: "cwq_sys \<Rightarrow> bool" where
  "cwq_init = wq_init {}"

subsection \<open>The contract\<close>

fun gheld :: "get_pc \<Rightarrow> ptr" where
  "gheld (V_unlock a) = Some a"
| "gheld _ = None"

definition iheld :: "ins_pc \<Rightarrow> bool" where
  "iheld i \<longleftrightarrow> i = I_lock \<or> i = I_link"

fun crit :: "(get_pc, ins_pc) job_pc \<Rightarrow> bool" where
  "crit (W_get p) \<longleftrightarrow> p \<noteq> V_lock \<and> p \<noteq> V_blocked"
| "crit (N_insert a i) \<longleftrightarrow> i = I_link \<or> i = I_unlock"
| "crit _ \<longleftrightarrow> False"

fun is_worker :: "(get_pc, ins_pc) job_pc \<Rightarrow> bool" where
  "is_worker (W_get p) \<longleftrightarrow> True"
| "is_worker (W_print a) \<longleftrightarrow> True"
| "is_worker (W_free a) \<longleftrightarrow> True"
| "is_worker _ \<longleftrightarrow> False"

fun signals :: "(get_pc, ins_pc) job_pc \<Rightarrow> bool" where
  "signals (N_insert a i) \<longleftrightarrow> i = I_unlock \<or> i = I_signal"
| "signals _ \<longleftrightarrow> False"

text \<open>
  The sleepers are blocked in \<open>get_job\<close>, a worker takes only from a list it saw non-empty, and
  while there are jobs and sleepers the boss is about to signal or a worker is awake.
\<close>

definition awake :: "condvar \<Rightarrow> (get_pc, ins_pc) job_pc list \<Rightarrow> bool" where
  "awake w ts \<longleftrightarrow> (\<exists>t<length ts. signals (ts ! t) \<or> is_worker (ts ! t) \<and> t \<notin> w)"

definition watch :: "nat \<Rightarrow> condvar \<Rightarrow> mutex \<Rightarrow> (get_pc, ins_pc) job_pc list \<Rightarrow> bool" where
  "watch n w m ts \<longleftrightarrow> excl crit m ts
     \<and> (\<forall>t\<in>w. t < length ts \<and> ts ! t = W_get V_blocked)
     \<and> (\<forall>t<length ts. (ts ! t = W_get V_take \<longrightarrow> 0 < n) \<and> (ts ! t = W_get V_wait \<longrightarrow> n = 0))
     \<and> (0 < n \<and> w \<noteq> {} \<longrightarrow> awake w ts)"

lemma watchI:
  assumes "excl crit m ts" "\<And>t. t \<in> w \<Longrightarrow> t < length ts \<and> ts ! t = W_get V_blocked"
    and "\<And>t. t < length ts \<Longrightarrow> ts ! t = W_get V_take \<Longrightarrow> 0 < n" "\<And>t. t < length ts \<Longrightarrow> ts ! t = W_get V_wait \<Longrightarrow> n = 0"
    and "0 < n \<Longrightarrow> w \<noteq> {} \<Longrightarrow> awake w ts"
  shows "watch n w m ts"
  using assms by (auto simp: watch_def)

lemma watchD:
  assumes "watch n w m ts"
  shows "excl crit m ts" "\<And>t. t \<in> w \<Longrightarrow> t < length ts \<and> ts ! t = W_get V_blocked"
    "\<And>t. t < length ts \<Longrightarrow> ts ! t = W_get V_take \<Longrightarrow> 0 < n" "\<And>t. t < length ts \<Longrightarrow> ts ! t = W_get V_wait \<Longrightarrow> n = 0"
    "0 < n \<Longrightarrow> w \<noteq> {} \<Longrightarrow> awake w ts"
  using assms by (auto simp: watch_def)

lemma awakeI: "t < length ts \<Longrightarrow> signals pc \<or> is_worker pc \<and> t \<notin> w \<Longrightarrow> awake w (ts[t := pc])"
  by (auto simp: awake_def intro!: exI[of _ t])

lemma awake_keep:
  assumes "awake w ts" "signals (ts ! t) \<longrightarrow> signals pc" "is_worker (ts ! t) \<longrightarrow> is_worker pc"
  shows "awake w (ts[t := pc])"
proof -
  from assms(1) obtain u where "u < length ts" "signals (ts ! u) \<or> is_worker (ts ! u) \<and> u \<notin> w" by (auto simp: awake_def)
  then show ?thesis using assms(2,3) unfolding awake_def by (intro exI[of _ u]) (cases "u = t"; auto)
qed

text \<open>A step of thread \<open>t\<close> that leaves the sleepers and the number of jobs alone.\<close>

lemma watch_local:
  assumes "watch n w m ts" "t < length ts" "excl crit m' (ts[t := pc])" "t \<notin> w"
    and "pc = W_get V_take \<longrightarrow> 0 < n" "pc = W_get V_wait \<longrightarrow> n = 0"
    and "signals (ts ! t) \<longrightarrow> signals pc" "is_worker (ts ! t) \<longrightarrow> is_worker pc"
  shows "watch n w m' (ts[t := pc])"
proof (rule watchI)
  note D = watchD[OF assms(1)]
  show "awake w (ts[t := pc])" if "0 < n" "w \<noteq> {}" using awake_keep[OF D(5)[OF that] assms(7,8)] .
  show "u < length (ts[t := pc]) \<and> ts[t := pc] ! u = W_get V_blocked" if "u \<in> w" for u 
    using D(2)[OF that] that assms(4) by (cases "u = t") auto
  show "0 < n" if "u < length (ts[t := pc])" "ts[t := pc] ! u = W_get V_take" for u
    using that D(3)[of u] assms(5) by (cases "u = t") auto
  show "n = 0" if "u < length (ts[t := pc])" "ts[t := pc] ! u = W_get V_wait" for u
    using that D(4)[of u] assms(6) by (cases "u = t") auto
qed (rule assms(3))

text \<open>A step of the holder of the lock, from which it follows that no other thread is in the critical section.\<close>

lemma watch_others:
  assumes "watch n w m ts" "t < length ts" "crit (ts ! t)" "u < length ts" "u \<noteq> t"
  shows "ts ! u \<noteq> W_get V_take" "ts ! u \<noteq> W_get V_wait"
  using excl_unique[OF watchD(1)[OF assms(1)] assms(2,4,3)] assms(5) by fastforce+

lemma not_asleep: "watch n w m ts \<Longrightarrow> ts ! t \<noteq> W_get V_blocked \<Longrightarrow> t \<notin> w"
  using watchD(2) by blast

lemma watch_wait:
  assumes "watch n w (Some t) ts" "t < length ts" "ts ! t = W_get V_wait"
  shows "watch n (insert t w) None (ts[t := W_get V_blocked])"
proof (rule watchI)
  note D = watchD[OF assms(1)]
  have n: "n = 0" by (rule D(4)[OF assms(2,3)])
  show "excl crit None (ts[t := W_get V_blocked])" by (rule excl_release[OF D(1)]) simp
  show "u < length (ts[t := W_get V_blocked]) \<and> ts[t := W_get V_blocked] ! u = W_get V_blocked" if "u \<in> insert t w" for u
    using that D(2)[of u] assms(2) by (cases "u = t") auto
  show "0 < n" if "u < length (ts[t := W_get V_blocked])" "ts[t := W_get V_blocked] ! u = W_get V_take" for u
    using that D(3)[of u] by (cases "u = t") auto
qed (use watchD(4)[OF assms(1) assms(2,3)] in simp_all)

lemma watch_spurious:
  assumes "watch n w m ts" "t < length ts" "ts ! t = W_get V_blocked"
  shows "watch n (w - {t}) m ts"
proof -
  have "awake (w - {t}) ts" using assms(2,3) by (auto simp: awake_def intro!: exI[of _ t])
  then show ?thesis using watchD[OF assms(1)] by (intro watchI) auto
qed

text \<open>The holder of the lock changes the number of jobs.\<close>

lemma watch_change:
  assumes "watch n w m ts" "t < length ts" "crit (ts ! t)" "excl crit m (ts[t := pc])"
    and "pc \<noteq> W_get V_take" "pc \<noteq> W_get V_wait" "n' \<noteq> 0 \<and> w \<noteq> {} \<longrightarrow> awake w (ts[t := pc])"
  shows "watch n' w m (ts[t := pc])"
proof (rule watchI)
  note D = watchD[OF assms(1)] and o = watch_others[OF assms(1-3)]
  have t: "t \<notin> w" using D(2)[of t] assms(3) by auto
  show "u < length (ts[t := pc]) \<and> ts[t := pc] ! u = W_get V_blocked" if "u \<in> w" for u
    using D(2)[OF that] that t by (cases "u = t") auto
  show "0 < n'" if "u < length (ts[t := pc])" "ts[t := pc] ! u = W_get V_take" for u
    using that o(1)[of u] assms(2,5) by (cases "u = t") auto
  show "n' = 0" if "u < length (ts[t := pc])" "ts[t := pc] ! u = W_get V_wait" for u
    using that o(2)[of u] assms(2,6) by (cases "u = t") auto
qed (use assms in auto)

lemma watch_signal:
  assumes "watch n w m ts" "t < length ts" "ts ! t = N_insert a I_signal" "cond_signal w w'"
  shows "watch n w' m (ts[t := N_malloc])"
proof (rule watchI)
  note D = watchD[OF assms(1)]
  show "excl crit m (ts[t := N_malloc])" by (rule excl_keep[OF D(1)]) (simp add: assms(3))
  show "u < length (ts[t := N_malloc]) \<and> ts[t := N_malloc] ! u = W_get V_blocked" if "u \<in> w'" for u
    using D(2)[OF cond_signal_mono[OF assms(4) that]] assms(3) by (cases "u = t") auto
  show "0 < n" if "u < length (ts[t := N_malloc])" "ts[t := N_malloc] ! u = W_get V_take" for u
    using that D(3)[of u] assms(2) by (cases "u = t") auto
  show "n = 0" if "u < length (ts[t := N_malloc])" "ts[t := N_malloc] ! u = W_get V_wait" for u
    using that D(4)[of u] assms(2) by (cases "u = t") auto
  show "awake w' (ts[t := N_malloc])" if "w' \<noteq> {}"
  proof -
    have "w \<noteq> {}" using that assms(4) by auto
    then obtain u where u: "u \<in> w" "u \<notin> w'" using cond_signal_wakes[OF assms(4)] by blast
    then have "u < length ts" "ts ! u = W_get V_blocked" "u \<noteq> t" using D(2)[of u] assms(3) by auto
    then show ?thesis using u(2) by (auto simp: awake_def intro!: exI[of _ u])
  qed
qed

lemma cv_get_job_keeps:
  assumes "owned ps q (map (holds gheld iheld) ts)" "watch (length ps) (sync q) (workq_lock q) ts"
    and "t < length ts" "ts ! t = W_get p" "get_job t (p, q) (Some (x, q'))"
    and ts': "ts' = ts[t := (case x of Inl p' \<Rightarrow> W_get p' | Inr a \<Rightarrow> W_print a)]"
  shows "\<exists>ps'. owned ps' q' (map (holds gheld iheld) ts') \<and> watch (length ps') (sync q') (workq_lock q') ts'"
proof -
  note loc = watch_local[OF assms(2,3)] and x = watchD(1)[OF assms(2)] and z = not_asleep[OF assms(2), of t]
  have keep: "map (holds gheld iheld) (ts[t := pc]) = map (holds gheld iheld) ts" if "holds gheld iheld pc = (gheld p, True)" for pc
    using that assms(3,4) by (simp add: map_update list_update_same_conv)
  from assms(5) show ?thesis
  proof (cases rule: get_job.cases)
    case (v_lock m)
    have "watch (length ps) (sync q) (Some t) (ts[t := W_get V_test])"
      using assms(3,4) v_lock x z by (intro loc excl_acquire) auto
    then show ?thesis unfolding ts' using assms(1) v_lock keep[of "W_get V_test"] by (auto intro!: exI[of _ ps] intro: owned_cong)
  next
    case v_test
    let ?p = "if workq q = None then V_wait else V_take"
    have "watch (length ps) (sync q) (workq_lock q) (ts[t := W_get ?p])"
      using assms(4) v_test z owned_list[OF assms(1)] by (intro loc excl_keep[OF x]) auto
    then show ?thesis unfolding ts' using assms(1) v_test keep[of "W_get ?p"] by (auto intro!: exI[of _ ps])
  next
    case v_wait
    then have v: "workq_lock q = Some t" "x = Inl V_blocked" "q' = q\<lparr>workq_lock := None, sync := insert t (sync q)\<rparr>"
      by (auto simp: eq_commute[of "Some _"] mutex_unlock_iff)
    have "watch (length ps) (insert t (sync q)) None (ts[t := W_get V_blocked])"
      using watch_wait[of "length ps" "sync q" t ts] assms(2-4) v(1) v_wait by simp
    then show ?thesis unfolding ts' using assms(1) v v_wait keep[of "W_get V_blocked"] by (auto intro!: exI[of _ ps] intro: owned_cong)
  next
    case v_spurious
    then have "ts[t := W_get V_blocked] = ts" using assms(3,4) by (simp add: list_update_same_conv)
    then show ?thesis unfolding ts' using assms(1) v_spurious watch_spurious[OF assms(2,3)] assms(4)
      by (auto intro!: exI[of _ ps] intro: owned_cong)
  next
    case (v_relock m)
    have "watch (length ps) (sync q) (Some t) (ts[t := W_get V_test])"
      using assms(3,4) v_relock x by (intro loc excl_acquire) auto
    then show ?thesis unfolding ts' using assms(1) v_relock keep[of "W_get V_test"] by (auto intro!: exI[of _ ps] intro: owned_cong)
  next
    case v_take
    then obtain r where n: "Option.bind (deref (jheap q) (workq q)) next_job = Some r" "q' = q\<lparr>workq := r\<rparr>" "x = Inl (V_unlock (the (workq q)))"
      by (auto simp: eq_commute[of "Some _"])
    obtain a ps' where ps: "ps = a # ps'" "workq q = Some a"
      "owned ps' (q\<lparr>workq := r\<rparr>) ((map (holds gheld iheld) ts)[t := (Some a, True)])"
      by (rule owned_take[OF assms(1) _ _ n(1), of t]) (use assms(3,4) v_take in auto)
    have "awake (sync q) (ts[t := W_get (V_unlock a)])" if "sync q \<noteq> {}"
      using awake_keep[of "sync q" ts t "W_get (V_unlock a)"] watchD(5)[OF assms(2)] assms(4) ps(1) that by simp
    then have "watch (length ps') (sync q) (workq_lock q) (ts[t := W_get (V_unlock a)])"
      using assms(4) v_take by (intro watch_change[OF assms(2,3)] excl_keep[OF x]) auto
    then show ?thesis unfolding ts' using n ps by (auto simp: map_update intro!: exI[of _ ps'])
  next
    case (v_unlock ret)
    then have v: "workq_lock q = Some t" "x = Inr ret" "q' = q\<lparr>workq_lock := None\<rparr>"
      by (auto simp: eq_commute[of "Some _"] mutex_unlock_iff)
    have "watch (length ps) (sync q) None (ts[t := W_print ret])"
      using assms(4) v(1) v_unlock x z by (intro loc excl_release) auto
    then show ?thesis unfolding ts' using assms(1) v v_unlock keep[of "W_print ret"] by (auto intro!: exI[of _ ps] intro: owned_cong)
  qed
qed

lemma cv_insert_job_keeps:
  assumes "owned ps q (map (holds gheld iheld) ts)" "watch (length ps) (sync q) (workq_lock q) ts"
    and "t < length ts" "ts ! t = N_insert a i" "insert_job t a (i, q) (Some (z, q'))"
    and ts': "ts' = ts[t := (case z of Some i' \<Rightarrow> N_insert a i' | None \<Rightarrow> N_malloc)]"
  shows "\<exists>ps'. owned ps' q' (map (holds gheld iheld) ts') \<and> watch (length ps') (sync q') (workq_lock q') ts'"
proof -
  note loc = watch_local[OF assms(2,3)] and x = watchD(1)[OF assms(2)]
  have nz: "t \<notin> sync q" using not_asleep[OF assms(2), of t] assms(4) by auto
  have o: "owned ps q (map (holds gheld iheld) (ts[t := pc]))"
    if "fst (holds gheld iheld pc) = fst (holds gheld iheld (ts ! t))" for pc
    using owned_same[OF assms(1), of "holds gheld iheld pc" t] that assms(3,4) by (simp add: map_update)
  from assms(5) show ?thesis
  proof (cases rule: insert_job.cases)
    case (i_lock m)
    have "watch (length ps) (sync q) (Some t) (ts[t := N_insert a I_link])"
      using assms(3,4) i_lock x nz by (intro loc excl_acquire) auto
    then show ?thesis unfolding ts' using assms(4) i_lock o[of "N_insert a I_link"]
      by (auto simp: iheld_def intro!: exI[of _ ps] intro: owned_cong)
  next
    case i_link
    then obtain h where h: "store (jheap q) (Some a) (\<lambda>n. n\<lparr>next_job := Some (workq q)\<rparr>) = Some h" "z = Some I_unlock"
      "q' = q\<lparr>jheap := h, workq := Some a\<rparr>" by (auto simp: eq_commute[of "Some _"])
    have "owned (a # ps) (q\<lparr>jheap := h, workq := Some a\<rparr>) ((map (holds gheld iheld) ts)[t := (None, True)])"
      by (rule owned_link[OF assms(1) _ _ h(1)]) (use assms(3,4) i_link in \<open>auto simp: iheld_def\<close>)
    moreover have "watch (Suc (length ps)) (sync q) (workq_lock q) (ts[t := N_insert a I_unlock])"
      using assms(3,4) i_link by (intro watch_change[OF assms(2,3)] excl_keep[OF x]) (auto intro: awakeI)
    ultimately show ?thesis unfolding ts' using h by (auto simp: map_update iheld_def intro!: exI[of _ "a # ps"])
  next
    case i_unlock
    then have v: "workq_lock q = Some t" "z = Some I_signal" "q' = q\<lparr>workq_lock := None\<rparr>"
      by (auto simp: eq_commute[of "Some _"] mutex_unlock_iff)
    have "watch (length ps) (sync q) None (ts[t := N_insert a I_signal])"
      using assms(4) v(1) i_unlock x nz by (intro loc excl_release) auto
    then show ?thesis unfolding ts' using assms(4) v i_unlock o[of "N_insert a I_signal"]
      by (auto simp: iheld_def intro!: exI[of _ ps] intro: owned_cong)
  next
    case (i_signal w)
    then show ?thesis unfolding ts' using assms(4) o[of N_malloc] watch_signal[OF assms(2,3)]
      by (auto simp: iheld_def intro!: exI[of _ ps] intro: owned_cong)
  qed
qed

lemma watch_new:
  assumes "watch n w m ts" "\<not> crit pc"
  shows "watch n w m (ts @ [pc])"
proof (rule watchI)
  note D = watchD[OF assms(1)]
  show "excl crit m (ts @ [pc])" by (rule excl_new[OF D(1) assms(2)])
  show "u < length (ts @ [pc]) \<and> (ts @ [pc]) ! u = W_get V_blocked" if "u \<in> w" for u using D(2)[OF that] by (simp add: nth_append)
  show "0 < n" if "u < length (ts @ [pc])" "(ts @ [pc]) ! u = W_get V_take" for u
    using that D(3)[of u] assms(2) by (cases "u < length ts") (auto simp: nth_append less_Suc_eq)
  show "n = 0" if "u < length (ts @ [pc])" "(ts @ [pc]) ! u = W_get V_wait" for u
    using that D(4)[of u] assms(2) by (cases "u < length ts") (auto simp: nth_append less_Suc_eq)
  show "awake w (ts @ [pc])" if "0 < n" "w \<noteq> {}" using D(5)[OF that] by (force simp: awake_def nth_append)
qed

interpretation cwq: job_ops get_job V_lock insert_job I_lock gheld iheld watch "{}"
proof (unfold_locales, goal_cases)
  case (5 ps q ts t p)
  have "p = V_take \<Longrightarrow> \<exists>r. Option.bind (deref (jheap q) (workq q)) next_job = Some r"
    using owned_deref[OF 5(1)] watchD(3)[OF 5(2,3)] 5(4) by auto
  moreover have "p = V_wait \<or> (\<exists>a. p = V_unlock a) \<Longrightarrow> workq_lock q = Some t"
    using 5(3,4) excl_holds[OF watchD(1)[OF 5(2)], of t] by auto
  ultimately show ?case by (auto elim!: get_job.cases)
next
  case (7 ps q ts t a i)
  have "cells (jheap q) a \<noteq> None" if "i = I_link"
    using ownedD(5)[OF 7(1), of t a] 7(3,4) that by (auto simp: iheld_def)
  moreover have "workq_lock q = Some t" if "i = I_unlock"
    using 7(3,4) that excl_holds[OF watchD(1)[OF 7(2)], of t] by auto
  ultimately show ?case by (auto elim!: insert_job.cases simp: store_def split: option.splits)
next
  case (8 n y m ts t pc)
  then have "t \<notin> y" using not_asleep[OF 8(1), of t] by auto
  then show ?case using 8(3) by (intro watch_local[OF 8(1,2)] excl_keep[OF watchD(1)[OF 8(1)]]) auto
next
  case 4
  then show ?case by (rule cv_get_job_keeps)
next
  case 6
  then show ?case by (rule cv_insert_job_keeps)
next
  case 3
  show ?case by (simp add: watch_def excl_def)
qed (simp_all add: watch_new iheld_def)

text \<open>
  Property C18. In every interleaving of the boss and the workers of the condition variable version there
  is no undefined behaviour, and no job is lost or handed out twice: every allocated job is in exactly one place, the
  list or one local variable of one thread, and the job that a worker prints or frees is nowhere else. No wake-up
  is lost, with spurious wake-ups allowed: while there are jobs and sleeping workers, the boss is about
  to signal or some worker is awake and will look at the list.
\<close>

theorem wqueue_condvars_safe:
  assumes "reach cwq_init (cwq_step tid_str) s"
  shows "\<not> cwq_step tid_str s None \<and>
    (\<exists>ps. is_list (cells (jheap (que s))) (workq (que s)) ps \<and> distinct ps
      \<and> (\<forall>a. a \<in> dom (cells (jheap (que s))) \<longleftrightarrow>
           a \<in> set ps \<or> (\<exists>t<length (thr s). fst (holds gheld iheld (thr s ! t)) = Some a))
      \<and> (\<forall>t<length (thr s). \<forall>u<length (thr s). \<forall>a. fst (holds gheld iheld (thr s ! t)) = Some a \<longrightarrow>
           a \<notin> set ps \<and> (fst (holds gheld iheld (thr s ! u)) = Some a \<longrightarrow> u = t))
      \<and> (\<forall>t<length (thr s). \<forall>a. thr s ! t = W_print a \<or> thr s ! t = W_free a \<longrightarrow>
           a \<notin> set ps \<and> (\<forall>u<length (thr s). thr s ! u = W_print a \<or> thr s ! u = W_free a \<longrightarrow> u = t)))
    \<and> (workq (que s) \<noteq> None \<and> sync (que s) \<noteq> {} \<longrightarrow>
         (\<exists>t<length (thr s). signals (thr s ! t) \<or> is_worker (thr s ! t) \<and> t \<notin> sync (que s)))"
proof -
  have r: "reach (wq_init {}) (wq_step get_job V_lock insert_job I_lock tid_str) s"
    using assms by (simp add: cwq_init_def cwq_step_eq)
  note I = cwq.wq.inv_reach[OF r]
  have "workq (que s) \<noteq> None \<and> sync (que s) \<noteq> {} \<longrightarrow> awake (sync (que s)) (thr s)"
  proof
    assume a: "workq (que s) \<noteq> None \<and> sync (que s) \<noteq> {}"
    obtain ps where ps: "is_list (cells (jheap (que s))) (workq (que s)) ps" "watch (length ps) (sync (que s)) (workq_lock (que s)) (thr s)"
      using cwq.owned_places[OF I] by blast
    then have "0 < length ps" using a by (cases ps) auto
    then show "awake (sync (que s)) (thr s)" using watchD(5)[OF ps(2)] a by blast
  qed
  then show ?thesis using cwq.owned_places[OF I] cwq.wq.reach_defined[OF r] unfolding cwq_step_eq awake_def by blast
qed

definition cwq_start :: "(condvar, get_pc, ins_pc) wq_sys" where
  "cwq_start = \<lparr>que = \<lparr>jheap = empty_heap (\<lambda>_. False), workq = None, workq_lock = None, sync = {}\<rparr>, thr = [], job_id = 0,
     wmain_at = C_workers 0, wout = []\<rparr>"

theorem wqueue_condvars_safe_witness:
  "cwq_step (\<lambda>_. ''t'') cwq_start (Some (cwq_start\<lparr>thr := [W_get V_lock], wmain_at := C_workers 1\<rparr>))
    \<and> \<not> cwq_step (\<lambda>_. ''t'') (cwq_start\<lparr>thr := [W_get V_lock], wmain_at := C_workers 1\<rparr>) None"
proof
  show step: "cwq_step (\<lambda>_. ''t'') cwq_start (Some (cwq_start\<lparr>thr := [W_get V_lock], wmain_at := C_workers 1\<rparr>))"
    using mk_worker[of cwq_start 0 V_lock] by (simp add: cwq_step_eq wq_step_def cwq_start_def WORKERS_def)
  have "reach cwq_init (cwq_step (\<lambda>_. ''t'')) cwq_start"
    by (rule reach_init) (auto simp: cwq_init_def wq_init_def cwq_start_def)
  then have "reach cwq_init (cwq_step (\<lambda>_. ''t'')) (cwq_start\<lparr>thr := [W_get V_lock], wmain_at := C_workers 1\<rparr>)"
    by (rule reach_step) (rule step)
  from wqueue_condvars_safe[OF this]
  show "\<not> cwq_step (\<lambda>_. ''t'') (cwq_start\<lparr>thr := [W_get V_lock], wmain_at := C_workers 1\<rparr>) None" by simp
qed

end
