(* ===== verification/Order_Prints.thy ===== *)
theory Order_Prints
  imports Pthreads C_Stdio "HOL-Library.Sublist"
begin

text \<open>
  \<open>threads/order_prints/solution.c\<close>: three threads that print 1, 2 and 3 forever, kept in turn by three semaphores. Under
  every schedule the output is 1, 2, 3, 1, 2, 3 and so on, there is no deadlock, and no run stops printing.
\<close>

subsection \<open>The program\<close>

definition sem_sz :: nat where "sem_sz = 3"

datatype op_pc = O_wait | O_digit | O_newline | O_post

text \<open>The digit of a thread, the semaphore it waits on, and the one it posts.\<close>

record turn =
  digit :: char
  own_sem :: nat
  next_sem :: nat

definition thread1 :: turn where "thread1 = \<lparr>digit = CHR ''1'', own_sem = 0, next_sem = 1\<rparr>"
definition thread2 :: turn where "thread2 = \<lparr>digit = CHR ''2'', own_sem = 1, next_sem = 2\<rparr>"
definition thread3 :: turn where "thread3 = \<lparr>digit = CHR ''3'', own_sem = 2, next_sem = 0\<rparr>"

definition threads_fns :: "turn list" where
  "threads_fns = [thread1, thread2, thread3]"

type_synonym op_state = "op_pc \<times> nat list \<times> string"

definition wait_sem :: "nat \<Rightarrow> nat list \<Rightarrow> nat list option" where
  "wait_sem i sems = map_option (\<lambda>v. sems[i := v]) (sem_wait (sems ! i))"

definition post_sem :: "nat \<Rightarrow> nat list \<Rightarrow> nat list" where
  "post_sem i sems = sems[i := sem_post (sems ! i)]"

inductive thread_fn :: "turn \<Rightarrow> op_state \<Rightarrow> op_state \<Rightarrow> bool" for k where
  o_wait: "wait_sem (own_sem k) sems = Some sems' \<Longrightarrow> thread_fn k (O_wait, sems, out) (O_digit, sems', out)"
| o_digit: "thread_fn k (O_digit, sems, out) (O_newline, sems, out @ [digit k])"
| o_newline: "thread_fn k (O_newline, sems, out) (O_post, sems, out @ [CHR 0x0A])"
| o_post: "thread_fn k (O_post, sems, out) (O_wait, post_sem (next_sem k) sems, out)"

datatype op_main_pc = M_init nat | M_take nat | M_create nat | M_join

record op_sys =
  op_sems :: "nat list"
  op_threads :: "op_pc list"
  op_main_at :: op_main_pc
  op_out :: string

text \<open>\<open>main\<close> takes the semaphores 1 and 2 before it creates the threads, then waits for the first one for ever.\<close>

inductive op_main :: "op_sys \<Rightarrow> op_sys \<Rightarrow> bool" where
  m_init: "op_main_at s = M_init i \<Longrightarrow> i < sem_sz \<Longrightarrow>
    op_main s (s\<lparr>op_sems := (op_sems s)[i := 1], op_main_at := M_init (i + 1)\<rparr>)"
| m_inited: "op_main_at s = M_init i \<Longrightarrow> \<not> i < sem_sz \<Longrightarrow> op_main s (s\<lparr>op_main_at := M_take 1\<rparr>)"
| m_take: "op_main_at s = M_take i \<Longrightarrow> wait_sem i (op_sems s) = Some sems \<Longrightarrow>
    op_main s (s\<lparr>op_sems := sems, op_main_at := (if i = 1 then M_take 2 else M_create 0)\<rparr>)"
| m_create: "op_main_at s = M_create i \<Longrightarrow> i < length threads_fns \<Longrightarrow>
    op_main s (s\<lparr>op_threads := op_threads s @ [O_wait], op_main_at := M_create (i + 1)\<rparr>)"
| m_created: "op_main_at s = M_create i \<Longrightarrow> \<not> i < length threads_fns \<Longrightarrow> op_main s (s\<lparr>op_main_at := M_join\<rparr>)"

inductive op_step :: "op_sys \<Rightarrow> op_sys c \<Rightarrow> bool" where
  op_of_main: "op_main s s' \<Longrightarrow> op_step s (Some s')"
| op_of_thread: "t < length (op_threads s) \<Longrightarrow> thread_fn (threads_fns ! t) (op_threads s ! t, op_sems s, op_out s) (pc, sems, out) \<Longrightarrow>
    op_step s (Some (s\<lparr>op_threads := (op_threads s)[t := pc], op_sems := sems, op_out := out\<rparr>))"

definition op_start :: op_sys where
  "op_start = \<lparr>op_sems = [0, 0, 0], op_threads = [], op_main_at = M_init 0, op_out = []\<rparr>"

definition op_init :: "op_sys \<Rightarrow> bool" where
  "op_init s \<longleftrightarrow> s = op_start"

subsection \<open>Who can go on\<close>

text \<open>
  The threads have made \<open>n\<close> steps: it is the turn of the thread \<open>turn_of n\<close>, all others wait, and the semaphores and
  the output are determined.
\<close>

definition turn_of :: "nat \<Rightarrow> nat" where
  "turn_of n = n div 4 mod 3"

definition pc_of :: "nat \<Rightarrow> op_pc" where
  "pc_of n = [O_wait, O_digit, O_newline, O_post] ! (n mod 4)"

definition sems_of :: "nat \<Rightarrow> nat list" where
  "sems_of n = (if n mod 4 = 0 then [0, 0, 0][turn_of n := 1] else [0, 0, 0])"

text \<open>The first \<open>n\<close> lines of the output the program is meant to have.\<close>

definition turns :: "nat \<Rightarrow> string" where
  "turns n = concat (map (\<lambda>i. [[CHR ''1'', CHR ''2'', CHR ''3''] ! (i mod 3), CHR 0x0A]) [0..<n])"

definition out_of :: "nat \<Rightarrow> string" where
  "out_of n = turns (n div 4) @ take (n mod 4 - 1) [[CHR ''1'', CHR ''2'', CHR ''3''] ! turn_of n, CHR 0x0A]"

definition threads_of :: "nat \<Rightarrow> nat \<Rightarrow> op_pc list" where
  "threads_of c n = map (\<lambda>t. if t = turn_of n then pc_of n else O_wait) [0..<c]"

fun at_main :: "op_main_pc \<Rightarrow> nat \<Rightarrow> nat list \<Rightarrow> op_pc list \<Rightarrow> bool" where
  "at_main (M_init i) n sems ts \<longleftrightarrow> n = 0 \<and> i \<le> 3 \<and> sems = replicate i 1 @ replicate (3 - i) 0 \<and> ts = []"
| "at_main (M_take i) n sems ts \<longleftrightarrow> n = 0 \<and> (i = 1 \<and> sems = [1, 1, 1] \<or> i = 2 \<and> sems = [1, 0, 1]) \<and> ts = []"
| "at_main (M_create i) n sems ts \<longleftrightarrow> sems = sems_of n \<and> i \<le> 3 \<and> ts = threads_of i n \<and> (n mod 4 \<noteq> 0 \<longrightarrow> turn_of n < i)"
| "at_main M_join n sems ts \<longleftrightarrow> sems = sems_of n \<and> ts = threads_of 3 n"

definition op_at :: "nat \<Rightarrow> op_sys \<Rightarrow> bool" where
  "op_at n s \<longleftrightarrow> at_main (op_main_at s) n (op_sems s) (op_threads s) \<and> op_out s = out_of n"

fun main_left :: "op_main_pc \<Rightarrow> nat" where
  "main_left (M_init i) = 10 - i"
| "main_left (M_take i) = 7 - i"
| "main_left (M_create i) = 4 - i"
| "main_left M_join = 0"

lemma turn_of_less [simp]: "turn_of n < 3"
  by (simp add: turn_of_def)

lemma length_sems_of [simp]: "length (sems_of n) = 3" "length (threads_of c n) = c"
  using turn_of_less[of n] by (auto simp: sems_of_def threads_of_def less_Suc_eq numeral_3_eq_3)

lemma less_3: "(n :: nat) < 3 \<longleftrightarrow> n = 0 \<or> n = 1 \<or> n = 2"
  by auto

lemma threads_fns_nth: "t < 3 \<Longrightarrow> threads_fns ! t = \<lparr>digit = [CHR ''1'', CHR ''2'', CHR ''3''] ! t, own_sem = t, next_sem = (t + 1) mod 3\<rparr>"
  by (auto simp: less_3 threads_fns_def thread1_def thread2_def thread3_def)

text \<open>The next step of the threads.\<close>

lemma phase_cases:
  obtains "n mod 4 = 0" "Suc n mod 4 = 1" "Suc n div 4 = n div 4" | "n mod 4 = 1" "Suc n mod 4 = 2" "Suc n div 4 = n div 4"
    | "n mod 4 = 2" "Suc n mod 4 = 3" "Suc n div 4 = n div 4" | "n mod 4 = 3" "Suc n mod 4 = 0" "Suc n div 4 = Suc (n div 4)"
proof -
  have "n mod 4 < 4" by simp
  then consider "n mod 4 = 0" | "n mod 4 = 1" | "n mod 4 = 2" | "n mod 4 = 3" by linarith
  then show thesis using that by cases (simp_all add: mod_Suc div_Suc)
qed

lemma turns_Suc: "turns (Suc q) = turns q @ [[CHR ''1'', CHR ''2'', CHR ''3''] ! (q mod 3), CHR 0x0A]"
  by (simp add: turns_def)

lemma turn_of_Suc: "turn_of (Suc n) = (if n mod 4 = 3 then (turn_of n + 1) mod 3 else turn_of n)"
  by (cases rule: phase_cases[of n]) (simp_all add: turn_of_def mod_simps)

lemma pc_step:
  "n mod 4 = 0 \<Longrightarrow> pc_of n = O_wait \<and> pc_of (Suc n) = O_digit" "n mod 4 = 1 \<Longrightarrow> pc_of n = O_digit \<and> pc_of (Suc n) = O_newline"
  "n mod 4 = 2 \<Longrightarrow> pc_of n = O_newline \<and> pc_of (Suc n) = O_post" "n mod 4 = 3 \<Longrightarrow> pc_of n = O_post \<and> pc_of (Suc n) = O_wait"
  by (cases rule: phase_cases[of n]; simp add: pc_of_def)+

lemma out_step:
  "n mod 4 = 0 \<or> n mod 4 = 3 \<Longrightarrow> out_of (Suc n) = out_of n"
  "n mod 4 = 1 \<Longrightarrow> out_of (Suc n) = out_of n @ [[CHR ''1'', CHR ''2'', CHR ''3''] ! turn_of n]"
  "n mod 4 = 2 \<Longrightarrow> out_of (Suc n) = out_of n @ [CHR 0x0A]"
  by (cases rule: phase_cases[of n]; auto simp: out_of_def turns_Suc turn_of_def)+

lemma sems_step:
  "n mod 4 = 0 \<Longrightarrow> wait_sem (turn_of n) (sems_of n) = Some (sems_of (Suc n))"
  "n mod 4 = 1 \<or> n mod 4 = 2 \<Longrightarrow> sems_of (Suc n) = sems_of n"
  "n mod 4 = 3 \<Longrightarrow> post_sem ((turn_of n + 1) mod 3) (sems_of n) = sems_of (Suc n)"
proof -
  have t: "turn_of n = 0 \<or> turn_of n = 1 \<or> turn_of n = 2" using turn_of_less[of n] less_3 by blast
  note phase = phase_cases[of n]
  show "n mod 4 = 0 \<Longrightarrow> wait_sem (turn_of n) (sems_of n) = Some (sems_of (Suc n))"
    using t by (cases rule: phase) (auto simp: sems_of_def wait_sem_def sem_wait_def numeral_2_eq_2)
  show "n mod 4 = 1 \<or> n mod 4 = 2 \<Longrightarrow> sems_of (Suc n) = sems_of n" by (cases rule: phase) (auto simp: sems_of_def)
  show "n mod 4 = 3 \<Longrightarrow> post_sem ((turn_of n + 1) mod 3) (sems_of n) = sems_of (Suc n)"
    using t turn_of_Suc[of n]
    by (cases rule: phase) (auto simp: sems_of_def post_sem_def sem_post_def SEM_VALUE_MAX_def numeral_2_eq_2)
qed

lemma thread_fn_turn:
  "thread_fn (threads_fns ! turn_of n) (pc_of n, sems_of n, out_of n) x \<longleftrightarrow> x = (pc_of (Suc n), sems_of (Suc n), out_of (Suc n))"
proof -
  have k: "digit (threads_fns ! turn_of n) = [CHR ''1'', CHR ''2'', CHR ''3''] ! turn_of n" "own_sem (threads_fns ! turn_of n) = turn_of n"
    "next_sem (threads_fns ! turn_of n) = (turn_of n + 1) mod 3"
    using threads_fns_nth[OF turn_of_less[of n]] by simp_all
  show ?thesis
  proof (cases rule: phase_cases[of n])
    case 1
    then show ?thesis using pc_step(1) sems_step(1) out_step(1) k by (auto simp: thread_fn.simps)
  next
    case 2
    then show ?thesis using pc_step(2) sems_step(2) out_step(2) k by (auto simp: thread_fn.simps)
  next
    case 3
    then show ?thesis using pc_step(3) sems_step(2) out_step(3) k by (auto simp: thread_fn.simps)
  next
    case 4
    then show ?thesis using pc_step(4) sems_step(3) out_step(1) k by (auto simp: thread_fn.simps)
  qed
qed

text \<open>The other threads cannot go on.\<close>

lemma thread_fn_others:
  assumes "t < 3" "t \<noteq> turn_of n"
  shows "\<not> thread_fn (threads_fns ! t) (O_wait, sems_of n, out) x"
proof -
  have "sems_of n ! t = 0" using assms turn_of_less[of n] less_3[of t] less_3[of "turn_of n"] by (auto simp: sems_of_def numeral_2_eq_2)
  then show ?thesis using threads_fns_nth[OF assms(1)] by (auto simp: thread_fn.simps wait_sem_def sem_wait_def)
qed

subsection \<open>Every run\<close>

lemma threads_of_nth: "t < c \<Longrightarrow> threads_of c n ! t = (if t = turn_of n then pc_of n else O_wait)"
  by (simp add: threads_of_def)

lemma threads_of_append: "n mod 4 \<noteq> 0 \<longrightarrow> turn_of n < c \<Longrightarrow> threads_of c n @ [O_wait] = threads_of (Suc c) n"
  by (auto simp: threads_of_def pc_of_def)

lemma threads_of_Suc: "(threads_of c n)[turn_of n := pc_of (Suc n)] = threads_of c (Suc n)"
proof (rule nth_equalityI)
  fix t assume t: "t < length ((threads_of c n)[turn_of n := pc_of (Suc n)])"
  have "turn_of (Suc n) \<noteq> turn_of n \<Longrightarrow> pc_of (Suc n) = O_wait" using pc_step(4)[of n] by (auto simp: turn_of_Suc split: if_splits)
  then show "(threads_of c n)[turn_of n := pc_of (Suc n)] ! t = threads_of c (Suc n) ! t"
    using t by (cases "t = turn_of n") (auto simp: threads_of_nth)
qed simp

text \<open>Threads have a number of steps behind them, or are not created yet.\<close>

lemma op_at_threads:
  assumes "op_at n s" "t < length (op_threads s)"
  shows "op_threads s = threads_of (length (op_threads s)) n \<and> op_sems s = sems_of n \<and> t < 3
    \<and> (op_main_at s = M_create (length (op_threads s)) \<or> op_main_at s = M_join \<and> length (op_threads s) = 3)"
  using assms by (cases "op_main_at s") (auto simp: op_at_def)

lemma op_at_step:
  assumes "op_at n s" "op_step s r"
  shows "\<exists>s'. r = Some s' \<and> (op_at (Suc n) s' \<and> op_main_at s' = op_main_at s \<or> op_at n s' \<and> main_left (op_main_at s') < main_left (op_main_at s))"
  using assms(2)
proof (cases rule: op_step.cases)
  case (op_of_main s')
  from op_of_main(2) show ?thesis
  proof (cases rule: op_main.cases)
    case (m_init i)
    then show ?thesis using assms(1) op_of_main(1) less_3[of i] by (auto simp: op_at_def sem_sz_def numeral_3_eq_3 numeral_2_eq_2)
  next
    case (m_inited i)
    then show ?thesis using assms(1) op_of_main(1) by (auto simp: op_at_def sem_sz_def numeral_3_eq_3)
  next
    case (m_take i sems)
    then show ?thesis using assms(1) op_of_main(1)
      by (auto simp: op_at_def wait_sem_def sem_wait_def sems_of_def threads_of_def turn_of_def numeral_2_eq_2)
  next
    case (m_create i)
    then show ?thesis using assms(1) op_of_main(1) by (auto simp: op_at_def threads_fns_def threads_of_append less_SucI)
  next
    case (m_created i)
    then have "i = 3" using assms(1) by (simp add: op_at_def threads_fns_def)
    then show ?thesis using assms(1) op_of_main(1) m_created by (auto simp: op_at_def)
  qed
next
  case (op_of_thread t pc sems out)
  define c where "c = length (op_threads s)"
  then have c: "op_threads s = threads_of c n" "op_sems s = sems_of n" "t < 3" "t < c" "op_main_at s = M_create c \<or> op_main_at s = M_join \<and> c = 3"
    using op_at_threads[OF assms(1) op_of_thread(2)] op_of_thread(2) by simp_all
  have o: "op_out s = out_of n" using assms(1) by (simp add: op_at_def)
  have t: "t = turn_of n"
  proof (rule ccontr)
    assume "t \<noteq> turn_of n"
    then show False using thread_fn_others[OF c(3)] op_of_thread(3) c threads_of_nth[OF c(4), of n] by metis
  qed
  then have "(pc, sems, out) = (pc_of (Suc n), sems_of (Suc n), out_of (Suc n))"
    using op_of_thread(3) c o threads_of_nth[OF c(4), of n] thread_fn_turn by metis
  then have "op_at (Suc n) (s\<lparr>op_threads := (op_threads s)[t := pc], op_sems := sems, op_out := out\<rparr>)"
    using assms(1) t c(1,4,5) threads_of_Suc[of c n] by (auto simp: op_at_def turn_of_Suc mod_Suc)
  then show ?thesis using op_of_thread(1) by simp
qed

lemma op_at_enabled:
  assumes "op_at n s"
  shows "\<exists>s'. op_step s (Some s')"
proof (cases "op_main_at s")
  case M_join
  let ?t = "turn_of n"
  have s: "op_threads s = threads_of 3 n" "op_sems s = sems_of n" "op_out s = out_of n" using assms M_join by (simp_all add: op_at_def)
  then have "thread_fn (threads_fns ! ?t) (op_threads s ! ?t, op_sems s, op_out s) (pc_of (Suc n), sems_of (Suc n), out_of (Suc n))"
    using thread_fn_turn by (simp add: threads_of_nth)
  then show ?thesis using op_of_thread[of ?t s] s(1) by auto
next
  case (M_take i)
  then have "i = 1 \<and> op_sems s = [1, 1, 1] \<or> i = 2 \<and> op_sems s = [1, 0, 1]" using assms by (simp add: op_at_def)
  then have "\<exists>sems. wait_sem i (op_sems s) = Some sems" by (auto simp: wait_sem_def sem_wait_def numeral_2_eq_2)
  then show ?thesis using op_of_main[OF m_take[OF M_take]] by blast
qed (use op_of_main m_init m_inited m_create m_created in blast)+

lemma op_at_start: "op_at 0 op_start"
  by code_simp

definition op_inv :: "op_sys \<Rightarrow> bool" where
  "op_inv s \<longleftrightarrow> (\<exists>n. op_at n s)"

interpretation op: safe_threads op_init op_step op_inv
proof
  show "op_inv s" if "op_init s" for s using that op_at_start by (auto simp: op_init_def op_inv_def)
  show "op_inv s'" if "op_inv s" "op_step s (Some s')" for s s' using that op_at_step unfolding op_inv_def by blast
  show "\<not> op_step s None" if "op_inv s" for s using that op_at_step unfolding op_inv_def by blast
qed

text \<open>The threads go on in every infinite run.\<close>

lemma run_on:
  assumes f: "\<And>m. op_step (f m) (Some (f (Suc m)))"
  shows "op_at n (f m) \<Longrightarrow> \<exists>m'. op_at (Suc n) (f m')"
proof (induction "main_left (op_main_at (f m))" arbitrary: m rule: less_induct)
  case less
  from op_at_step[OF less.prems f] show ?case using less.hyps by auto
qed

lemma run_far:
  assumes "op_init (f 0)" "\<And>m. op_step (f m) (Some (f (Suc m)))"
  shows "\<exists>m. op_at n (f m)"
proof (induction n)
  case 0
  have "op_at 0 (f 0)" using op_at_start assms(1) by (simp add: op_init_def)
  then show ?case by blast
next
  case (Suc n)
  then show ?case using run_on[of f, OF assms(2)] by blast
qed

lemma out_of_prefix: "prefix (out_of n) (turns (Suc (n div 4)))"
proof -
  have "turns (Suc (n div 4)) = turns (n div 4) @ [[CHR ''1'', CHR ''2'', CHR ''3''] ! turn_of n, CHR 0x0A]" by (simp add: turns_Suc turn_of_def)
  then show ?thesis unfolding out_of_def by (simp add: take_is_prefix)
qed

lemma length_turns: "length (turns n) = 2 * n"
  by (induction n) (simp_all add: turns_Suc, simp add: turns_def)

text \<open>
  Property C40: under every schedule the output is 1, 2, 3, 1, 2, 3 and so on, each on a line; some thread can always go on;
  and in every infinite run the output grows beyond every bound.
\<close>

theorem prints_in_order:
  "(\<forall>s. reach op_init op_step s \<longrightarrow> (\<exists>n. prefix (op_out s) (turns n)) \<and> \<not> op_step s None \<and> (\<exists>s'. op_step s (Some s')))
   \<and> (\<forall>f. op_init (f 0) \<and> (\<forall>m. op_step (f m) (Some (f (Suc m)))) \<longrightarrow> (\<forall>k. \<exists>m. k \<le> length (op_out (f m))))"
proof (intro conjI allI impI)
  fix s assume s: "reach op_init op_step s"
  then obtain n where n: "op_at n s" using op.inv_reach by (auto simp: op_inv_def)
  then show "\<exists>n. prefix (op_out s) (turns n)" using out_of_prefix by (auto simp: op_at_def)
  show "\<not> op_step s None" by (rule op.reach_defined[OF s])
  show "\<exists>s'. op_step s (Some s')" by (rule op_at_enabled[OF n])
next
  fix f k assume "op_init (f 0) \<and> (\<forall>m. op_step (f m) (Some (f (Suc m))))"
  then obtain m where "op_at (4 * k) (f m)" using run_far[of f] by blast
  then have "k \<le> length (op_out (f m))" by (simp add: op_at_def out_of_def length_turns)
  then show "\<exists>m. k \<le> length (op_out (f m))" by blast
qed

theorem prints_in_order_witness:
  "(\<exists>s'. op_step op_start (Some s')) \<and> turns 4 = ''1\<newline>2\<newline>3\<newline>1\<newline>''"
proof
  show "\<exists>s'. op_step op_start (Some s')"
    using conjunct1[OF prints_in_order, rule_format, of op_start] reach_init[of op_init op_start] by (simp add: op_init_def)
qed code_simp

end
