(* ===== verification/Philosophers.thy ===== *)
theory Philosophers
  imports Pthreads C_Stdio
begin

text \<open>
  \<open>threads/philosophers_dinner/solution.c\<close>: five philosophers, five forks, each a mutex. A philosopher picks up the fork
  with the lower number first. A position stands for every statement of a thread; the output is the list of the lines
  printed.
\<close>

subsection \<open>The program\<close>

definition forks_sz :: nat where "forks_sz = 5"

definition philosophers :: "nat list" where "philosophers = [0, 1, 2, 3, 4]"

definition right_fork :: "nat \<Rightarrow> nat" where "right_fork i = i"

definition left_fork :: "nat \<Rightarrow> nat" where "left_fork i = (i + 1) mod forks_sz"

definition first_fork :: "nat \<Rightarrow> nat" where "first_fork i = min (right_fork i) (left_fork i)"

definition second_fork :: "nat \<Rightarrow> nat" where "second_fork i = max (right_fork i) (left_fork i)"

datatype phil_pc = P_lock1 | P_print1 | P_lock2 | P_print2 | P_eat | P_unlock2 | P_unlock1 | P_done

type_synonym phil_state = "phil_pc \<times> mutex list \<times> string list"

definition unlock_fork :: "tid \<Rightarrow> nat \<Rightarrow> mutex list \<Rightarrow> mutex list c" where
  "unlock_fork t f forks = do { m \<leftarrow> rd forks f; m' \<leftarrow> mutex_unlock t m; wr forks f m' }"

definition picked_up :: "nat \<Rightarrow> nat \<Rightarrow> string" where
  "picked_up i f = printf ''[Philosopher %zu]: Picked up fork %zu\<newline>'' [IntA (int i), IntA (int f)]"

definition ate :: "nat \<Rightarrow> string" where
  "ate i = printf ''[Philosopher %zu]: Eating... Done!\<newline>'' [IntA (int i)]"

text \<open>The thread \<open>t\<close> of philosopher \<open>i\<close>.\<close>

inductive philosopher_thread :: "tid \<Rightarrow> nat \<Rightarrow> phil_state \<Rightarrow> phil_state c \<Rightarrow> bool" for t i where
  p_lock1: "rd fs (first_fork i) = Some m \<Longrightarrow> mutex_lock t m = Some m' \<Longrightarrow>
    philosopher_thread t i (P_lock1, fs, out) (Some (P_print1, fs[first_fork i := m'], out))"
| p_bad1: "rd fs (first_fork i) = None \<Longrightarrow> philosopher_thread t i (P_lock1, fs, out) None"
| p_print1: "philosopher_thread t i (P_print1, fs, out) (Some (P_lock2, fs, out @ [picked_up i (first_fork i)]))"
| p_lock2: "rd fs (second_fork i) = Some m \<Longrightarrow> mutex_lock t m = Some m' \<Longrightarrow>
    philosopher_thread t i (P_lock2, fs, out) (Some (P_print2, fs[second_fork i := m'], out))"
| p_bad2: "rd fs (second_fork i) = None \<Longrightarrow> philosopher_thread t i (P_lock2, fs, out) None"
| p_print2: "philosopher_thread t i (P_print2, fs, out) (Some (P_eat, fs, out @ [picked_up i (second_fork i)]))"
| p_eat: "philosopher_thread t i (P_eat, fs, out) (Some (P_unlock2, fs, out @ [ate i]))"
| p_unlock2: "philosopher_thread t i (P_unlock2, fs, out)
    (map_option (\<lambda>fs'. (P_unlock1, fs', out)) (unlock_fork t (second_fork i) fs))"
| p_unlock1: "philosopher_thread t i (P_unlock1, fs, out)
    (map_option (\<lambda>fs'. (P_done, fs', out)) (unlock_fork t (first_fork i) fs))"

datatype ph_main_pc = M_create nat | M_join nat | M_exit

record ph_sys =
  ph_forks :: "mutex list"
  ph_threads :: "phil_pc list"
  ph_main_at :: ph_main_pc
  ph_out :: "string list"

text \<open>The thread that \<open>main\<close> creates last is the last one of the list.\<close>

inductive ph_main :: "ph_sys \<Rightarrow> ph_sys c \<Rightarrow> bool" where
  m_create: "ph_main_at s = M_create i \<Longrightarrow> i < length philosophers \<Longrightarrow>
    ph_main s (Some (s\<lparr>ph_threads := ph_threads s @ [P_lock1], ph_main_at := M_create (i + 1)\<rparr>))"
| m_created: "ph_main_at s = M_create i \<Longrightarrow> \<not> i < length philosophers \<Longrightarrow> ph_main s (Some (s\<lparr>ph_main_at := M_join 0\<rparr>))"
| m_join: "ph_main_at s = M_join i \<Longrightarrow> i < length philosophers \<Longrightarrow> rd (ph_threads s) i = Some P_done \<Longrightarrow>
    ph_main s (Some (s\<lparr>ph_main_at := M_join (i + 1)\<rparr>))"
| m_exit: "ph_main_at s = M_join i \<Longrightarrow> \<not> i < length philosophers \<Longrightarrow> ph_main s (Some (s\<lparr>ph_main_at := M_exit\<rparr>))"

inductive ph_step :: "ph_sys \<Rightarrow> ph_sys c \<Rightarrow> bool" where
  ph_of_main: "ph_main s r \<Longrightarrow> ph_step s r"
| ph_of_thread: "t < length (ph_threads s) \<Longrightarrow> philosopher_thread t (philosophers ! t) (ph_threads s ! t, ph_forks s, ph_out s) r \<Longrightarrow>
    ph_step s (map_option (\<lambda>(pc, fs, out). s\<lparr>ph_threads := (ph_threads s)[t := pc], ph_forks := fs, ph_out := out\<rparr>) r)"

definition ph_start :: ph_sys where
  "ph_start = \<lparr>ph_forks = replicate forks_sz None, ph_threads = [], ph_main_at = M_create 0, ph_out = []\<rparr>"

definition ph_init :: "ph_sys \<Rightarrow> bool" where
  "ph_init s \<longleftrightarrow> s = ph_start"

subsection \<open>Forks and their holders\<close>

fun held :: "nat \<Rightarrow> phil_pc \<Rightarrow> nat set" where
  "held i P_lock1 = {}"
| "held i P_print1 = {first_fork i}"
| "held i P_lock2 = {first_fork i}"
| "held i P_print2 = {first_fork i, second_fork i}"
| "held i P_eat = {first_fork i, second_fork i}"
| "held i P_unlock2 = {first_fork i, second_fork i}"
| "held i P_unlock1 = {first_fork i}"
| "held i P_done = {}"

definition phil_lines :: "nat \<Rightarrow> string list" where
  "phil_lines i = [picked_up i (first_fork i), picked_up i (second_fork i), ate i]"

fun printed :: "phil_pc \<Rightarrow> nat" where
  "printed P_lock1 = 0" | "printed P_print1 = 0" | "printed P_lock2 = 1" | "printed P_print2 = 1"
| "printed P_eat = 2" | "printed P_unlock2 = 3" | "printed P_unlock1 = 3" | "printed P_done = 3"

definition lines_of :: "nat \<Rightarrow> string list \<Rightarrow> string list" where
  "lines_of i out = filter (\<lambda>l. l \<in> set (phil_lines i)) out"

definition forks_ok :: "mutex list \<Rightarrow> phil_pc list \<Rightarrow> bool" where
  "forks_ok fs ts \<longleftrightarrow> length fs = forks_sz \<and> (\<forall>f < forks_sz. \<forall>t. fs ! f = Some t \<longleftrightarrow> t < length ts \<and> f \<in> held t (ts ! t))"

definition lines_ok :: "string list \<Rightarrow> phil_pc list \<Rightarrow> bool" where
  "lines_ok out ts \<longleftrightarrow> (\<forall>i < forks_sz. lines_of i out = take (if i < length ts then printed (ts ! i) else 0) (phil_lines i))"

fun main_ok :: "ph_main_pc \<Rightarrow> phil_pc list \<Rightarrow> bool" where
  "main_ok (M_create i) ts \<longleftrightarrow> length ts = i \<and> i \<le> forks_sz"
| "main_ok (M_join i) ts \<longleftrightarrow> length ts = forks_sz \<and> i \<le> forks_sz \<and> (\<forall>j < i. ts ! j = P_done)"
| "main_ok M_exit ts \<longleftrightarrow> length ts = forks_sz \<and> (\<forall>j < forks_sz. ts ! j = P_done)"

definition ph_inv :: "ph_sys \<Rightarrow> bool" where
  "ph_inv s \<longleftrightarrow> forks_ok (ph_forks s) (ph_threads s) \<and> lines_ok (ph_out s) (ph_threads s) \<and> main_ok (ph_main_at s) (ph_threads s)"

lemma less_5: "i < forks_sz \<longleftrightarrow> i \<in> {0, 1, 2, 3, 4}"
  by (auto simp: forks_sz_def)

lemma philosophers_nth: "t < forks_sz \<Longrightarrow> philosophers ! t = t"
  by (auto simp: less_5 philosophers_def)

lemma length_philosophers [simp]: "length philosophers = forks_sz"
  by (simp add: philosophers_def forks_sz_def)

lemma fork_order: "i < forks_sz \<Longrightarrow> first_fork i < second_fork i \<and> second_fork i < forks_sz"
proof -
  assume "i < forks_sz"
  then have "i \<in> {0, 1, 2, 3, 4}" by (simp only: less_5)
  then show ?thesis by (elim insertE emptyE) (simp_all add: first_fork_def second_fork_def right_fork_def left_fork_def forks_sz_def)
qed

lemma fork_bounds [simp]: "i < forks_sz \<Longrightarrow> first_fork i < forks_sz" "i < forks_sz \<Longrightarrow> second_fork i < forks_sz"
  "i < forks_sz \<Longrightarrow> first_fork i \<noteq> second_fork i" "i < forks_sz \<Longrightarrow> second_fork i \<noteq> first_fork i"
  using fork_order[of i] by auto

lemma main_ok_length: "main_ok p ts \<Longrightarrow> length ts \<le> forks_sz"
  by (cases p) simp_all

text \<open>No two philosophers print the same line.\<close>

lemma lines_distinct: "list_all (\<lambda>i. list_all (\<lambda>j. i = j \<or> list_all (\<lambda>x. x \<notin> set (phil_lines j)) (phil_lines i)) [0..<forks_sz]) [0..<forks_sz]"
  by code_simp

lemma lines_apart: "i < forks_sz \<Longrightarrow> j < forks_sz \<Longrightarrow> i \<noteq> j \<Longrightarrow> x \<in> set (phil_lines i) \<Longrightarrow> x \<notin> set (phil_lines j)"
  using lines_distinct unfolding list_all_iff set_upt by (metis atLeastLessThan_iff zero_le)

subsection \<open>The invariant\<close>

lemma forks_lock:
  assumes "forks_ok fs ts" "t < length ts" "f < forks_sz" "fs ! f = None" "held t pc = insert f (held t (ts ! t))"
  shows "forks_ok (fs[f := Some t]) (ts[t := pc])"
proof -
  have "fs[f := Some t] ! g = Some u \<longleftrightarrow> u < length (ts[t := pc]) \<and> g \<in> held u (ts[t := pc] ! u)" if "g < forks_sz" for g u
    using assms that by (cases "g = f"; cases "u = t") (auto simp: forks_ok_def nth_list_update)
  then show ?thesis using assms(1) by (simp add: forks_ok_def)
qed

lemma forks_unlock:
  assumes "forks_ok fs ts" "t < length ts" "f < forks_sz" "f \<in> held t (ts ! t)" "held t pc = held t (ts ! t) - {f}"
  shows "unlock_fork t f fs = Some (fs[f := None])" "forks_ok (fs[f := None]) (ts[t := pc])"
proof -
  have f: "fs ! f = Some t" "length fs = forks_sz" using assms(1-4) by (auto simp: forks_ok_def)
  then show "unlock_fork t f fs = Some (fs[f := None])" using assms(3) by (simp add: unlock_fork_def)
  have "fs[f := None] ! g = Some u \<longleftrightarrow> u < length (ts[t := pc]) \<and> g \<in> held u (ts[t := pc] ! u)" if "g < forks_sz" for g u
  proof (cases "g = f")
    case True
    have "fs ! f = Some u" if "u < length ts \<and> f \<in> held u (ts ! u)" using that assms(1,3) unfolding forks_ok_def by blast
    then have "u < length ts \<and> f \<in> held u (ts ! u) \<Longrightarrow> u = t" using f(1) by simp
    then show ?thesis using True assms f by (cases "u = t") (auto simp: nth_list_update)
  qed (use assms that in \<open>cases "u = t"; auto simp: forks_ok_def nth_list_update\<close>)
  then show "forks_ok (fs[f := None]) (ts[t := pc])" using f(2) by (simp add: forks_ok_def)
qed

lemma forks_keep: "forks_ok fs ts \<Longrightarrow> held t pc = held t (ts ! t) \<Longrightarrow> forks_ok fs (ts[t := pc])"
  by (cases "t < length ts") (auto simp: forks_ok_def nth_list_update)

lemma lines_keep: "lines_ok out ts \<Longrightarrow> printed pc = printed (ts ! t) \<Longrightarrow> lines_ok out (ts[t := pc])"
  by (cases "t < length ts") (auto simp: lines_ok_def nth_list_update)

lemma lines_print:
  assumes "lines_ok out ts" "t < length ts" "length ts \<le> forks_sz" "printed (ts ! t) < 3" "x = phil_lines t ! printed (ts ! t)"
    and "printed pc = Suc (printed (ts ! t))"
  shows "lines_ok (out @ [x]) (ts[t := pc])"
proof -
  have l: "length (phil_lines j) = 3" for j by (simp add: phil_lines_def)
  have x: "x \<in> set (phil_lines t)" using assms(4,5) l by simp
  have "lines_of i (out @ [x]) = take (if i < length (ts[t := pc]) then printed (ts[t := pc] ! i) else 0) (phil_lines i)" if "i < forks_sz" for i
  proof (cases "i = t")
    case True
    then show ?thesis using assms l x that by (simp add: lines_ok_def lines_of_def take_Suc_conv_app_nth)
  next
    case False
    then have "x \<notin> set (phil_lines i)" using lines_apart[of t i x] assms(2,3) that x by simp
    then show ?thesis using assms(1) that False by (simp add: lines_ok_def lines_of_def)
  qed
  then show ?thesis by (simp add: lines_ok_def)
qed

lemma main_ok_keep: "main_ok p ts \<Longrightarrow> ts ! t \<noteq> P_done \<Longrightarrow> t < length ts \<Longrightarrow> main_ok p (ts[t := pc])"
  by (cases p) (auto simp: nth_list_update)

lemma thread_keeps:
  assumes f: "forks_ok fs ts" and l: "lines_ok out ts" and t: "t < length ts" "length ts \<le> forks_sz"
    and s: "philosopher_thread t t (ts ! t, fs, out) r"
  shows "ts ! t \<noteq> P_done \<and> (\<exists>pc fs' out'. r = Some (pc, fs', out') \<and> forks_ok fs' (ts[t := pc]) \<and> lines_ok out' (ts[t := pc]))"
proof -
  have t5: "t < forks_sz" and len: "length fs = forks_sz" using t f by (simp_all add: forks_ok_def)
  note b = fork_bounds[OF t5]
  note keep = forks_keep[OF f] lines_keep[OF l]
  note lock = forks_lock[OF f t(1)] and unlock = forks_unlock[OF f t(1)] and pr = lines_print[OF l t]
  from s show ?thesis
  proof (cases rule: philosopher_thread.cases)
    case (p_lock1 m m')
    then have "fs ! first_fork t = None" "m' = Some t" using b len by (auto simp: rd_def split: if_splits)
    then show ?thesis using p_lock1 lock[OF b(1), of P_print1] lines_keep[OF l, of P_print1 t] by simp
  next
    case (p_lock2 m m')
    then have "fs ! second_fork t = None" "m' = Some t" using b len by (auto simp: rd_def split: if_splits)
    then show ?thesis using p_lock2 lock[OF b(2), of P_print2] lines_keep[OF l, of P_print2 t] by (simp add: insert_commute)
  next
    case p_print1
    then show ?thesis using keep(1)[of t P_lock2] pr[OF _ refl, of P_lock2] by (simp add: phil_lines_def)
  next
    case p_print2
    then show ?thesis using keep(1)[of t P_eat] pr[OF _ refl, of P_eat] by (simp add: phil_lines_def)
  next
    case p_eat
    then show ?thesis using keep(1)[of t P_unlock2] pr[OF _ refl, of P_unlock2] by (simp add: phil_lines_def numeral_eq_Suc)
  next
    case p_unlock2
    then show ?thesis using unlock[OF b(2), of P_unlock1] lines_keep[OF l, of P_unlock1 t] b by (auto simp: insert_Diff_if)
  next
    case p_unlock1
    then show ?thesis using unlock[OF b(1), of P_done] lines_keep[OF l, of P_done t] by simp
  qed (use b len in \<open>auto simp: rd_def\<close>)
qed

lemma ph_inv_step: "ph_inv s \<Longrightarrow> ph_step s r \<Longrightarrow> \<exists>s'. r = Some s' \<and> ph_inv s'"
proof (erule ph_step.cases)
  fix s' r' t assume I: "ph_inv s" and s: "s = s'" "r = map_option (\<lambda>(pc, fs, out). s'\<lparr>ph_threads := (ph_threads s')[t := pc], ph_forks := fs, ph_out := out\<rparr>) r'"
    and t: "t < length (ph_threads s')" "philosopher_thread t (philosophers ! t) (ph_threads s' ! t, ph_forks s', ph_out s') r'"
  have i: "forks_ok (ph_forks s) (ph_threads s)" "lines_ok (ph_out s) (ph_threads s)" "main_ok (ph_main_at s) (ph_threads s)" using I by (simp_all add: ph_inv_def)
  note len = main_ok_length[OF i(3)]
  have "philosophers ! t = t" using t(1) s(1) len by (intro philosophers_nth) simp
  then show "\<exists>s'. r = Some s' \<and> ph_inv s'" using thread_keeps[OF i(1,2) _ len, of t r'] s t main_ok_keep[OF i(3)] by (auto simp: ph_inv_def)
next
  fix s' r' assume I: "ph_inv s" and s: "s = s'" "r = r'" "ph_main s' r'"
  have i: "forks_ok (ph_forks s) (ph_threads s)" "lines_ok (ph_out s) (ph_threads s)" "main_ok (ph_main_at s) (ph_threads s)" using I by (simp_all add: ph_inv_def)
  have new: "forks_ok (ph_forks s) (ph_threads s @ [P_lock1])" "lines_ok (ph_out s) (ph_threads s @ [P_lock1])"
    using i(1,2) by (auto simp: forks_ok_def lines_ok_def nth_append less_Suc_eq)
  from s(3)[folded s(1)] show "\<exists>s'. r = Some s' \<and> ph_inv s'"
  proof (cases rule: ph_main.cases)
    case (m_join k)
    then have "ph_threads s ! k = P_done" using i(3) by (simp add: rd_def split: if_splits)
    then show ?thesis using m_join I s(2) by (auto simp: ph_inv_def less_Suc_eq)
  qed (use I s(2) new in \<open>auto simp: ph_inv_def\<close>)
qed

lemma ph_inv_start: "ph_inv ph_start"
  by (simp add: ph_inv_def ph_start_def forks_ok_def lines_ok_def lines_of_def)

interpretation ph: safe_threads ph_init ph_step ph_inv
  by unfold_locales (use ph_inv_start ph_inv_step in \<open>auto simp: ph_init_def\<close>)

subsection \<open>No deadlock\<close>

text \<open>Whoever holds the highest fork that is taken can go on.\<close>

lemma held_waiting:
  assumes "ph_inv s" "\<And>t r. t < length (ph_threads s) \<Longrightarrow> \<not> philosopher_thread t t (ph_threads s ! t, ph_forks s, ph_out s) r"
    and t: "t < length (ph_threads s)"
  shows "ph_threads s ! t = P_done \<or> ph_threads s ! t = P_lock1 \<and> ph_forks s ! first_fork t \<noteq> None
    \<or> ph_threads s ! t = P_lock2 \<and> ph_forks s ! second_fork t \<noteq> None"
proof -
  have t5: "t < forks_sz" and len: "length (ph_forks s) = forks_sz"
    using t assms(1) main_ok_length[of "ph_main_at s" "ph_threads s"] by (simp_all add: ph_inv_def forks_ok_def)
  note no = assms(2)[OF t]
  show ?thesis
  proof (cases "ph_threads s ! t")
    case P_lock1
    then show ?thesis using no[of "Some (P_print1, (ph_forks s)[first_fork t := Some t], ph_out s)"]
        p_lock1[of "ph_forks s" t None t "Some t" "ph_out s"] len fork_bounds(1)[OF t5] by auto
  next
    case P_lock2
    then show ?thesis using no[of "Some (P_print2, (ph_forks s)[second_fork t := Some t], ph_out s)"]
        p_lock2[of "ph_forks s" t None t "Some t" "ph_out s"] len fork_bounds(2)[OF t5] by auto
  qed (use no in \<open>auto intro: philosopher_thread.intros\<close>)
qed

lemma all_done:
  assumes inv: "ph_inv s" and no: "\<And>t r. t < length (ph_threads s) \<Longrightarrow> \<not> philosopher_thread t t (ph_threads s ! t, ph_forks s, ph_out s) r"
    and t: "t < length (ph_threads s)"
  shows "ph_threads s ! t = P_done"
proof -
  have ok: "ph_forks s ! f = Some u \<longleftrightarrow> u < length (ph_threads s) \<and> f \<in> held u (ph_threads s ! u)" if "f < forks_sz" for f u
    using that inv by (auto simp: ph_inv_def forks_ok_def)
  have len: "length (ph_threads s) \<le> forks_sz" using inv main_ok_length by (auto simp: ph_inv_def)
  let ?F = "{f. f < forks_sz \<and> ph_forks s ! f \<noteq> None}"
  have free: "?F = {}"
  proof (rule ccontr)
    assume ne: "?F \<noteq> {}"
    define f where "f = Max ?F"
    have f: "f \<in> ?F" "\<And>g. g \<in> ?F \<Longrightarrow> g \<le> f" unfolding f_def using ne by (intro Max_in Max_ge; simp)+
    then obtain u where u: "ph_forks s ! f = Some u" "f < forks_sz" by auto
    then have h: "u < length (ph_threads s)" "f \<in> held u (ph_threads s ! u)" using ok by auto
    then have w: "ph_threads s ! u = P_lock2" "ph_forks s ! second_fork u \<noteq> None" "f = first_fork u"
      using held_waiting[OF inv no h(1)] by auto
    have "first_fork u < second_fork u" "second_fork u < forks_sz" using fork_order[of u] h(1) len by auto
    then show False using f(2)[of "second_fork u"] w(2,3) by simp
  qed
  have t5: "t < forks_sz" using t len by simp
  show ?thesis using held_waiting[OF inv no t] free fork_bounds(1,2)[OF t5] by auto
qed

lemma ph_enabled:
  assumes inv: "ph_inv s" and "ph_main_at s \<noteq> M_exit"
  shows "\<exists>s'. ph_step s (Some s')"
proof (cases "\<exists>t r. t < length (ph_threads s) \<and> philosopher_thread t t (ph_threads s ! t, ph_forks s, ph_out s) r")
  case True
  then obtain t r where t: "t < length (ph_threads s)" "philosopher_thread t t (ph_threads s ! t, ph_forks s, ph_out s) r" by blast
  have "t < forks_sz" using t(1) inv main_ok_length[of "ph_main_at s" "ph_threads s"] by (simp add: ph_inv_def)
  then have "philosopher_thread t (philosophers ! t) (ph_threads s ! t, ph_forks s, ph_out s) r" using t(2) philosophers_nth by simp
  from ph_of_thread[OF t(1) this] show ?thesis using ph_inv_step[OF inv] by metis
next
  case False
  then have d: "ph_threads s ! t = P_done" if "t < length (ph_threads s)" for t using all_done[OF inv _ that] by blast
  have "\<exists>s'. ph_main s (Some s')"
  proof (cases "ph_main_at s")
    case (M_create i)
    then show ?thesis using m_create[of s i] m_created[of s i] by (cases "i < length philosophers") blast+
  next
    case (M_join i)
    then have "i < length philosophers \<Longrightarrow> rd (ph_threads s) i = Some P_done" using d inv by (simp add: ph_inv_def)
    then show ?thesis using m_join[OF M_join] m_exit[OF M_join] by (cases "i < length philosophers") blast+
  qed (use assms(2) in simp)
  then show ?thesis using ph_of_main by blast
qed

subsection \<open>Termination\<close>

fun phil_left :: "phil_pc \<Rightarrow> nat" where
  "phil_left P_lock1 = 7" | "phil_left P_print1 = 6" | "phil_left P_lock2 = 5" | "phil_left P_print2 = 4"
| "phil_left P_eat = 3" | "phil_left P_unlock2 = 2" | "phil_left P_unlock1 = 1" | "phil_left P_done = 0"

fun main_left :: "ph_main_pc \<Rightarrow> nat" where
  "main_left (M_create i) = 8 * (forks_sz - i) + forks_sz + 2"
| "main_left (M_join i) = forks_sz - i + 1"
| "main_left M_exit = 0"

definition ph_left :: "ph_sys \<Rightarrow> nat" where
  "ph_left s = main_left (ph_main_at s) + sum_list (map phil_left (ph_threads s))"

lemma phil_left_step: "philosopher_thread t i (pc, fs, out) (Some (pc', fs', out')) \<Longrightarrow> phil_left pc' < phil_left pc"
  by (erule philosopher_thread.cases) (auto dest: sym[of "Some _"])

lemma ph_left_step: "ph_step s (Some s') \<Longrightarrow> ph_left s' < ph_left s"
proof (erule ph_step.cases)
  fix u t r assume s: "s = u" "Some s' = map_option (\<lambda>(pc, fs, out). u\<lparr>ph_threads := (ph_threads u)[t := pc], ph_forks := fs, ph_out := out\<rparr>) r"
    and t: "t < length (ph_threads u)" "philosopher_thread t (philosophers ! t) (ph_threads u ! t, ph_forks u, ph_out u) r"
  then obtain pc fs out where r: "r = Some (pc, fs, out)" "s' = u\<lparr>ph_threads := (ph_threads u)[t := pc], ph_forks := fs, ph_out := out\<rparr>" by (cases r) auto
  then show "ph_left s' < ph_left s"
    using sum_list_update_add[OF t(1), of phil_left pc] phil_left_step[OF t(2)[unfolded r(1)]] s(1) by (simp add: ph_left_def)
next
  fix u r assume "s = u" "Some s' = r" "ph_main u r"
  then have "ph_main s (Some s')" by simp
  then show "ph_left s' < ph_left s" by (cases rule: ph_main.cases) (auto simp: ph_left_def)
qed

abbreviation ph_reach :: "ph_sys \<Rightarrow> bool" where
  "ph_reach \<equiv> reach ph_init ph_step"

lemma ph_reaches_exit: "ph_reach s \<Longrightarrow> \<exists>s'. ph_reach s' \<and> ph_main_at s' = M_exit"
proof (induction "ph_left s" arbitrary: s rule: less_induct)
  case less
  show ?case
  proof (cases "ph_main_at s = M_exit")
    case False
    then obtain s' where "ph_step s (Some s')" using ph_enabled[OF ph.inv_reach[OF less.prems]] by blast
    then show ?thesis using less.hyps[OF ph_left_step] reach_step[OF less.prems] by blast
  qed (use less.prems in blast)
qed

text \<open>Two philosophers who eat at the same time share no fork.\<close>

lemma eating_apart:
  assumes "ph_inv s" "t < length (ph_threads s)" "u < length (ph_threads s)" "t \<noteq> u" "ph_threads s ! t = P_eat" "ph_threads s ! u = P_eat"
  shows "{first_fork t, second_fork t} \<inter> {first_fork u, second_fork u} = {}"
proof -
  have len: "length (ph_threads s) \<le> forks_sz" using assms(1) main_ok_length by (auto simp: ph_inv_def)
  have "ph_forks s ! f = Some w" if "f \<in> {first_fork w, second_fork w}" "w = t \<or> w = u" for f w
  proof -
    have "f < forks_sz" using that len assms(2,3) fork_bounds(1,2)[of w] by auto
    then show ?thesis using that assms unfolding ph_inv_def forks_ok_def by auto
  qed
  note holder = this
  show ?thesis
  proof (rule ccontr)
    assume "{first_fork t, second_fork t} \<inter> {first_fork u, second_fork u} \<noteq> {}"
    then obtain f where "f \<in> {first_fork t, second_fork t}" "f \<in> {first_fork u, second_fork u}" by blast
    then show False using holder[of f t] holder[of f u] assms(4) by simp
  qed
qed

text \<open>
  Property C39: under every schedule the dinner ends and every philosopher has eaten. No run is infinite; no reachable state
  but an ended one is a deadlock; no mutex is misused; philosophers who eat at the same time have different forks; and in
  the end the lines of every philosopher are in the output, once each and in order.
\<close>

theorem philosophers_all_eat:
  "(\<nexists>f. ph_init (f 0) \<and> (\<forall>n. ph_step (f n) (Some (f (Suc n)))))
   \<and> (\<forall>s. reach ph_init ph_step s \<longrightarrow> \<not> ph_step s None \<and> (ph_main_at s = M_exit \<or> (\<exists>s'. ph_step s (Some s'))))
   \<and> (\<forall>s t u. reach ph_init ph_step s \<and> t < length (ph_threads s) \<and> u < length (ph_threads s) \<and> t \<noteq> u
        \<and> ph_threads s ! t = P_eat \<and> ph_threads s ! u = P_eat \<longrightarrow>
        {first_fork t, second_fork t} \<inter> {first_fork u, second_fork u} = {})
   \<and> (\<exists>s. reach ph_init ph_step s \<and> ph_main_at s = M_exit)
   \<and> (\<forall>s (i :: nat). reach ph_init ph_step s \<and> ph_main_at s = M_exit \<and> i < 5 \<longrightarrow>
        filter (\<lambda>l. l \<in> set (phil_lines i)) (ph_out s) = phil_lines i)"
proof (intro conjI allI impI notI)
  assume "\<exists>f. ph_init (f 0) \<and> (\<forall>n. ph_step (f n) (Some (f (Suc n))))"
  then obtain f where "\<And>n. ph_step (f n) (Some (f (Suc n)))" by blast
  then have "ph_left (f (Suc n)) < ph_left (f n)" for n using ph_left_step by blast
  then show False using wf_iff_no_infinite_down_chain[of "measure (ph_left \<circ> id)"] by (metis comp_id in_measure wf_measure)
next
  show "\<exists>s. ph_reach s \<and> ph_main_at s = M_exit" using ph_reaches_exit[OF reach_init, of ph_start] by (simp add: ph_init_def)
next
  fix s and i :: nat assume s: "ph_reach s \<and> ph_main_at s = M_exit \<and> i < 5"
  then have "ph_inv s" using ph.inv_reach by blast
  then have "lines_of i (ph_out s) = take 3 (phil_lines i)" using s by (simp add: ph_inv_def lines_ok_def forks_sz_def)
  then show "filter (\<lambda>l. l \<in> set (phil_lines i)) (ph_out s) = phil_lines i" by (simp add: lines_of_def phil_lines_def)
qed (use ph.reach_defined ph.inv_reach ph_enabled eating_apart in blast)+

theorem philosophers_all_eat_witness:
  "\<exists>s. reach ph_init ph_step s \<and> ph_main_at s = M_exit
    \<and> filter (\<lambda>l. l \<in> set (phil_lines 4)) (ph_out s)
      = [''[Philosopher 4]: Picked up fork 0\<newline>'', ''[Philosopher 4]: Picked up fork 4\<newline>'', ''[Philosopher 4]: Eating... Done!\<newline>'']"
proof -
  have "phil_lines 4 = [''[Philosopher 4]: Picked up fork 0\<newline>'', ''[Philosopher 4]: Picked up fork 4\<newline>'', ''[Philosopher 4]: Eating... Done!\<newline>'']"
    by code_simp
  moreover obtain s where "reach ph_init ph_step s \<and> ph_main_at s = M_exit" using philosophers_all_eat by blast
  moreover from this have "filter (\<lambda>l. l \<in> set (phil_lines 4)) (ph_out s) = phil_lines 4"
    using conjunct2[OF conjunct2[OF conjunct2[OF conjunct2[OF philosophers_all_eat]]], rule_format, of s 4] by simp
  ultimately show ?thesis by metis
qed

end
