(* ===== verification/Spec2Isabelle.thy ===== *)
theory Spec2Isabelle
  imports Bubble_Sort Selection_Sort Insertion_Sort Quick_Sort Merge_Sort Heap_Sort Counting_Sort
    Binary_Search Bst_Main Bst_Dangling Hash_Table_Main Bits_Set Bt_Successor Kleene_Star Lcs_Proofs
    Three_Stacks Min_Stack Sort_Stack Rpn_Equiv Stdio_Main Rtable_Main Adj_List_Main Malloc_Main Morris_Proofs
    Magic_Numbers_Proofs Redundant_Parens_Proofs Boggle_Main
    Flatten_Main Bigint_Main Long_Division Serialize_Tree
    Semaphore_Proofs Barrier_Main Wqueue_Semaphores Wqueue_Condvars
    Order_Prints Philosophers
begin

text \<open>
  \<^bold>\<open>A verification of the C programs of a collection of solved interview questions\<close>

  The repository is a collection of independent programs: each directory holds one program, most of them a
  component (a data structure, an algorithm, a small library) together with a \<open>main\<close> that reads commands or
  test cases from standard input and drives the component. The development models whole programs: the data
  structure, every operation on it and the \<open>main\<close> that composes them. Where a program is modelled, its
  \<open>main\<close> is a definition of the development and the theorem about it speaks of what the program prints on an
  arbitrary input of the right form.

  \<^bold>\<open>How a C program is modelled.\<close>
  A computation that can end abnormally is in the option monad (\<open>'a c\<close> of \<open>Prelude\<close>). \<open>None\<close> is the
  abnormal end: a failed \<open>assert\<close>, an \<open>exit\<close> where the theory says so, an access outside of an array, through
  a null pointer or to a freed cell, a signed overflow, or a loop that does not end. A loop with a bound that the
  source shows is a \<open>function\<close> with a termination proof or a \<open>fun\<close>; a loop whose end depends on the shape of
  the heap or of the array is a \<open>partial_function (option)\<close>, and the theorems conclude \<open>f x = Some y\<close>, so that they
  state the termination too. No definition has fuel. Loops of the source are recursive definitions named after the
  function with the suffix \<open>_loop\<close> or after what they do; static variables are components of a state record or
  arguments that are passed on.

  Integers are \<open>int\<close> or \<open>nat\<close> where the program cannot exceed the width of the C type, which the theorem then
  says (as hypothesis or as part of the model: \<open>scanf\<close> rejects a number that does not fit, and an addition that
  may overflow is checked), and words (\<open>8 word\<close>, \<open>32 word\<close>, \<open>64 word\<close>) where the program relies on wrap-around
  or on bits: the counters of the semaphore and of the barrier, the addresses of the routing table, the table of
  \<open>bits_set\<close>, the bit vector of \<open>countingsort\<close>. In the allocator, \<open>size_t\<close> is a \<open>nat\<close> with \<open>mod 2 ^ 64\<close>
  written out.

  \<^bold>\<open>The library theories.\<close>
  \<^item> \<open>Prelude\<close>: the option monad, array access with bounds checks (\<open>rd\<close>, \<open>wr\<close>), \<open>c_assert\<close>, the collection
    \<open>c_simps\<close>, lemmas on lists.
  \<^item> \<open>C_Stdio\<close>: \<open>scanf\<close>, \<open>sscanf\<close>, \<open>fgets\<close> and \<open>printf\<close> as interpreters of their format strings; what
    \<open>printf\<close> writes \<open>scanf\<close> reads back.
  \<^item> \<open>C_Heap\<close>: \<open>malloc\<close>, \<open>free\<close> and field access for cells of one \<open>struct\<close> type; which allocations fail is
    a parameter of the heap, so that the theorems hold for every pattern of failures they do not exclude.
  \<^item> \<open>Posix_Files\<close>: \<open>open\<close>, \<open>close\<close>, \<open>read\<close> and \<open>write\<close> with short transfers and failures.
  \<^item> \<open>Pthreads\<close>: mutexes, condition variables with spurious wake-ups, semaphores, reachable states of a step relation, and the
    locales \<open>thread_invariant\<close> and its extension \<open>safe_threads\<close>.
  \<^item> \<open>Array_Perm\<close>, \<open>Sort_Driver\<close>, \<open>Int_Stack\<close>, \<open>Work_Queue\<close>: what several programs share, see below.

  \<^bold>\<open>The programs\<close>, with their sources under \<open>src/\<close>.
  \<^item> Sorting, \<open>DS_Algos/sorting/*\<close>: \<open>Bubble_Sort\<close>, \<open>Selection_Sort\<close>, \<open>Insertion_Sort\<close>, \<open>Quick_Sort\<close>,
    \<open>Merge_Sort\<close>, \<open>Heap_Sort\<close>, \<open>Counting_Sort\<close>. The programs share the text of their \<open>main\<close>; it is modelled
    once in \<open>Sort_Driver\<close> with the routine as a parameter. The locale \<open>in_place_sort\<close> is the contract between
    \<open>main\<close> and the routine (the first \<open>n\<close> elements get sorted, the others stay), proved sufficient for \<open>main\<close>
    once, and interpreted for all seven routines. The theorems state that the routine sorts within its bounds
    and that the program prints every test case and its sorted version; those of the three routines that compare and divide are properties.
  \<^item> Searching, \<open>DS_Algos/bin_search/binary_search.c\<close>: \<open>Binary_Search\<close>. Which index each of the four searches
    returns, that \<open>assert(0)\<close> is not reached, and the inputs on which one of them reads before the array.
  \<^item> Search tree, \<open>DS_Algos/BST/unbalanced/bst.c\<close>: \<open>Bst\<close> (model), \<open>Bst_Proofs\<close> (the pointer tree refines a
    functional tree that carries the address of every node), \<open>Bst_Main\<close> (the contract \<open>sorted_bag\<close>, its
    interpretation, the command interpreter), \<open>Bst_Dangling\<close> (the dangling parent pointer that a deletion may leave, and
    that the next deletion then follows). Insertion, deletion and neighbours. \<open>Bt_Successor\<close> (\<open>trees_graphs/bt_successor\<close>) repeats the tree of \<open>bst.c\<close> and adds
    another successor function; its theorem rests on the facts of \<open>Bst_Main\<close>.
  \<^item> Traversal in constant space, \<open>trees_graphs/traversal_without_recursion\<close>: \<open>Morris\<close>, \<open>Morris_Proofs\<close>. The
    traversals that thread the tree and unthread it print the orders of the keys and restore the tree.
  \<^item> Hash table, \<open>DS_Algos/hash_table/impl.c\<close>: \<open>Hash_Table\<close>, \<open>Hash_Table_Proofs\<close>, \<open>Hash_Table_Main\<close>. The 941
    circular lists refine a function from keys to stacks of values (locale \<open>key_stacks\<close>); the program prints what
    that function answers; \<open>free_table\<close> uses memory it has freed.
  \<^item> Graphs, \<open>DS_Algos/graphs/adj_list/adjacency_list.c\<close>: \<open>Adj_List\<close> (model), \<open>Adj_List_Proofs\<close> (depth-first
    search), \<open>Adj_List_Bfs\<close> (the circular queue and breadth-first search), \<open>Adj_List_Main\<close>.
  \<^item> Subsequences, \<open>DS_Algos/LCS/lcs.c\<close>: \<open>Lcs\<close>, \<open>Lcs_Proofs\<close>. The table holds the lengths for all pairs of
    prefixes, and the string built from it is a longest common subsequence.
  \<^item> Automata, \<open>recursion_dp/kleene_star\<close>: \<open>Kleene_Star\<close>. The language of the automaton, and the epsilon
    closure as reachability, in every automaton, cyclic or not.
  \<^item> Expressions, \<open>recursion_dp/magic_numbers/solution_followup.c\<close> and \<open>recursion_dp/redundant_parens/solution.c\<close>:
    \<open>Magic_Numbers\<close>, \<open>Redundant_Parens\<close> and their \<open>_Proofs\<close>. \<open>Expr_Syntax\<close> has the trees, their text and the locale
    \<open>descent\<close>, the contract of a recursive-descent parser, interpreted for both parsers. The first program prints all
    ways to fill in the missing digits of an equation, but counts one of them only sometimes; the second one prints
    an expression without redundant parentheses, which keeps the value unless there is a division.
  \<^item> Boggle, \<open>recursion_dp/boggle_board/solution.c\<close>: \<open>Boggle\<close> (model), \<open>Boggle_Trie\<close> (the trie refines a map from
    words to scores), \<open>Boggle_Words\<close> (the contract \<open>word_scores\<close> and its interpretation, the dump in alphabetical
    order, the destruction), \<open>Boggle_Search\<close> (the best word among all words traced on the board), \<open>Boggle_Board\<close>
    (random and typed boards), \<open>Boggle_Main\<close> (the abstract machine and the program). The recursion of the search
    needs no fuel: it is bounded by the size of its buffer.
  \<^item> Linked lists: \<open>Flatten\<close>, \<open>Flatten_Proofs\<close>, \<open>Flatten_Main\<close> (\<open>linked_lists/flatten\<close>): lists of lists, their
    parser, and the flattening in place, which yields the nodes in preorder. \<open>Bigint_Sum\<close>, \<open>Bigint_Proofs\<close>, \<open>Bigint_Main\<close>
    (\<open>linked_lists/bigint_sum/follow_up.c\<close>): the sum of numbers as lists of digits in static arrays, and when these are too short.
  \<^item> Serialization, \<open>trees_graphs/serialize_tree\<close>: \<open>Serialize_Tree\<close>. A search tree is rebuilt from its preorder and inorder.
  \<^item> Bits: \<open>Bits_Set\<close> (\<open>bit_manipulation/bits_set\<close>), the lookup table, entry by entry, against the population count;
    \<open>Long_Division\<close> (\<open>bit_manipulation/division\<close>), division by shifting and subtracting against the division of C.
  \<^item> Stacks, \<open>stacks_queues/*\<close>: \<open>Three_Stacks\<close>, \<open>Min_Stack\<close>, \<open>Sort_Stack\<close>, \<open>Rpn\<close>, \<open>Rpn_Recursive\<close>,
    \<open>Rpn_Equiv\<close>. The locale \<open>int_stack\<close> (\<open>Int_Stack\<close>) is the contract of a bounded stack that asserts its
    preconditions; three programs implement it and rely on it. The two calculators are proved equivalent through
    the value of the expression tree.
  \<^item> Buffered input and output, \<open>knowledge_based/linux_internals/stdio/stdio.c\<close>: \<open>Stdio_Lib\<close> (model),
    \<open>Stdio_Copy\<close>, \<open>Stdio_Main\<close>. The library on top of \<open>Posix_Files\<close> copies a file exactly.
  \<^item> Allocator, \<open>knowledge_based/linux_internals/malloc/malloc.c\<close>: \<open>Malloc\<close>, \<open>Malloc_Proofs\<close>, \<open>Malloc_Main\<close>.
    The circular list of free blocks refines a sorted list of disjoint intervals; contracts of \<open>malloc\<close> and \<open>free\<close>,
    and the sequence of calls on which the two do not fit together.
  \<^item> Routing table, \<open>knowledge_based/networking/routing/rtable.c\<close>: \<open>Rtable\<close>, \<open>Rtable_Proofs\<close>, \<open>Rtable_Main\<close>.
    The trie refines a map from prefixes to destinations, and lookups are longest prefix matches.
  \<^item> Threads, \<open>threads/*\<close>: \<open>Semaphore\<close> and \<open>Semaphore_Proofs\<close>, \<open>Barrier\<close>, \<open>Barrier_Proofs\<close> and
    \<open>Barrier_Main\<close>, \<open>Wqueue_Semaphores\<close> and \<open>Wqueue_Condvars\<close>. A position per statement of each thread, an
    inductive step relation per function, and the interleaving of the threads as their union. The two work queues share
    their threads (\<open>Work_Queue\<close>); the locale \<open>job_ops\<close> is what the threads need of \<open>get_job\<close> and \<open>insert_job\<close>,
    a \<open>sublocale\<close> makes it an instance of \<open>safe_threads\<close>, and each program interprets it. The properties hold in
    all reachable states of all interleavings; \<open>barrier_terminates\<close> has a measure that every step decreases, and shows
    that a run that cannot go on has ended \<open>main\<close>. \<open>Order_Prints\<close>: three threads that take turns by semaphores.
    \<open>Philosophers\<close>: the dining philosophers end, whatever the schedule, and each of them has eaten.

  \<^bold>\<open>What the theorems are about.\<close>
  Every property is a theorem marked with \<open>C1\<close>, \<open>C2\<close>, and so on, in the theory of its program. A theorem that
  a program prints something for all inputs of a kind includes memory safety and termination on these inputs. Where
  the program has a defect, the theorem states the exact condition under which it shows or a run that shows it:
  \<open>bin_search_last_spec\<close>, \<open>tree_delete_correct\<close> with \<open>bst_use_after_free\<close>, \<open>free_table_undefined\<close>,
  \<open>malloc_overlap\<close>, \<open>barrier_spurious_wakeup\<close>, \<open>rp_main_correct\<close> (the parentheses left out around a division), \<open>random_board_correct\<close>
  (the number of times a letter may occur, and the sizes for which no board is ever made), \<open>magic_main_correct\<close> (the solution that is not counted), \<open>rtable_longest_prefix\<close> (the addresses whose text overflows its buffer),
  \<open>bigint_main_correct\<close> (the operands for which the array of the sum is too short), \<open>divide_correct\<close>.

  \<^bold>\<open>Assumptions.\<close>
  \<open>pthread_create\<close> and \<open>sem_init\<close> succeed; \<open>printf\<close> succeeds and does not allocate from the modelled allocator;
  memory returned by \<open>malloc\<close> is disjoint from all live memory; the machine has 32-bit \<open>int\<close> and 64-bit \<open>size_t\<close>.
  Interleavings are sequentially consistent, at the granularity of one statement of the source; the shared variables
  are accessed under their locks, which the invariants show.

  \<^bold>\<open>Not modelled.\<close>
  The programs in C++, Go, shell and awk; the examples of Linux system programming and networking whose lines
  are system calls with the behaviour of the kernel (signals, terminals, sockets, processes, shared memory, file locks);
  programs on floating point and on the distribution of random numbers; a number of single-function exercises (arrays and strings, bits,
  linked lists, recursion, small tree exercises) and the copying of a buffer by two threads. The manifest lists them
  by directory.
\<close>

end
